(* ===== verification/Prelude.thy ===== *)
theory Prelude
  imports Main "HOL-Library.Word" "HOL-Library.Multiset" "HOL-Library.Signed_Division"
begin

text \<open>
  Shared vocabulary of the development: the result type of fallible C code, array access with
  bounds, output tokens, loops that may fault, and the list lemmas on which the component
  theories rest.

  \<^item> A C function whose execution can be undefined (a \<open>NULL\<close> dereference, an index outside an
    array, a use of freed memory, a division by zero) returns a \<open>'a res\<close>: \<open>Inl\<close> of the fault or
    \<open>Inr\<close> of the result. Every dereference and index of such a function is checked explicitly.
    The other abnormal ends are \<open>Diverges\<close> (a loop that never ends) and \<open>Exited\<close> (\<^verbatim>\<open>exit\<close>).
  \<^item> Output is a list of tokens: \<open>Txt\<close> for literal text, \<open>Num\<close> for a number printed by
    \<^verbatim>\<open>%d\<close>, \<^verbatim>\<open>%u\<close> or \<^verbatim>\<open>%zu\<close>, \<open>Quot a b\<close> for a floating-point
    quotient printed by \<^verbatim>\<open>%.2f\<close>. Field widths are not modelled.
  \<^item> A C \<open>int\<close> that is only compared, counted or stored is an \<open>int\<close>; where wrap-around matters
    (hash functions) it is a word of its width.
\<close>

section \<open>Faults and results\<close>

datatype fault =
    NullDeref
  | OutOfBounds
  | UseAfterFree
  | DivByZero
  | Uninitialised
  | Overflow
  | Diverges
  | Exited int

type_synonym 'a res = "fault + 'a"

definition bindE :: "'a res \<Rightarrow> ('a \<Rightarrow> 'b res) \<Rightarrow> 'b res" where
  "bindE m f = (case m of Inl e \<Rightarrow> Inl e | Inr x \<Rightarrow> f x)"

lemma bindE_Inl [simp]: "bindE (Inl e) f = Inl e"
  by (simp add: bindE_def)

lemma bindE_Inr [simp]: "bindE (Inr x) f = f x"
  by (simp add: bindE_def)

lemma bindE_eq_Inr: "bindE m f = Inr y \<longleftrightarrow> (\<exists>x. m = Inr x \<and> f x = Inr y)"
  by (cases m) auto

lemma bindE_assoc: "bindE (bindE m f) g = bindE m (\<lambda>x. bindE (f x) g)"
  by (cases m) auto

lemma bindE_return [simp]: "bindE m Inr = m"
  by (cases m) auto

lemma bindE_cong [fundef_cong]:
  "m = m' \<Longrightarrow> (\<And>x. m' = Inr x \<Longrightarrow> f x = f' x) \<Longrightarrow> bindE m f = bindE m' f'"
  by (cases m') (auto simp: bindE_def)

lemma bindE_if: "bindE (if b then m else m') f = (if b then bindE m f else bindE m' f)"
  by simp

text \<open>Short-circuit conjunction whose right operand may fault.\<close>

definition andE :: "bool \<Rightarrow> bool res \<Rightarrow> bool res" where
  "andE b m = (if b then m else Inr False)"

lemma andE_simps [simp]: "andE True m = m" "andE False m = Inr False"
  by (simp_all add: andE_def)

text \<open>A \<^verbatim>\<open>for\<close> loop over a list of inputs whose body may fault.\<close>

primrec foldE :: "('s \<Rightarrow> 'a \<Rightarrow> 's res) \<Rightarrow> 'a list \<Rightarrow> 's \<Rightarrow> 's res" where
  "foldE f [] s = Inr s"
| "foldE f (x # xs) s = bindE (f s x) (\<lambda>s'. foldE f xs s')"

lemma foldE_append: "foldE f (xs @ ys) s = bindE (foldE f xs s) (foldE f ys)"
  by (induction xs arbitrary: s) (simp_all add: bindE_assoc fun_eq_iff)

lemma foldE_invariant:
  assumes "P s" and "\<And>s x. P s \<Longrightarrow> x \<in> set xs \<Longrightarrow> \<exists>s'. f s x = Inr s' \<and> P s'"
  shows "\<exists>s'. foldE f xs s = Inr s' \<and> P s'"
  using assms
proof (induction xs arbitrary: s)
  case Nil
  then show ?case by simp
next
  case (Cons x xs)
  from Cons.prems obtain s1 where s1: "f s x = Inr s1" "P s1" by fastforce
  have "\<exists>s'. foldE f xs s1 = Inr s' \<and> P s'"
    by (rule Cons.IH [OF s1(2)]) (simp add: Cons.prems(2))
  with s1 show ?case by simp
qed

section \<open>Arrays\<close>

definition arr_get :: "'a list \<Rightarrow> int \<Rightarrow> 'a res" where
  "arr_get a i = (if 0 \<le> i \<and> i < int (length a) then Inr (a ! nat i) else Inl OutOfBounds)"

definition arr_set :: "'a list \<Rightarrow> int \<Rightarrow> 'a \<Rightarrow> 'a list res" where
  "arr_set a i v =
     (if 0 \<le> i \<and> i < int (length a) then Inr (a[nat i := v]) else Inl OutOfBounds)"

lemma arr_get_ok [simp]: "0 \<le> i \<Longrightarrow> i < int (length a) \<Longrightarrow> arr_get a i = Inr (a ! nat i)"
  by (simp add: arr_get_def)

lemma arr_set_ok [simp]:
  "0 \<le> i \<Longrightarrow> i < int (length a) \<Longrightarrow> arr_set a i v = Inr (a[nat i := v])"
  by (simp add: arr_set_def)

lemma arr_get_Inr: "arr_get a i = Inr v \<longleftrightarrow> 0 \<le> i \<and> i < int (length a) \<and> v = a ! nat i"
  by (auto simp: arr_get_def)

lemma arr_set_Inr:
  "arr_set a i v = Inr a' \<longleftrightarrow> 0 \<le> i \<and> i < int (length a) \<and> a' = a[nat i := v]"
  by (auto simp: arr_set_def)

text \<open>
  Two array loops that recur in the programs: closing a gap
  (\<^verbatim>\<open>for (k = j; k < n - 1; k++) a[k] = a[k + 1];\<close>) and searching the first \<open>n\<close> cells.
\<close>

definition arr_shl :: "'a list \<Rightarrow> int \<Rightarrow> int \<Rightarrow> 'a list res" where
  "arr_shl a j n = foldE (\<lambda>a k. bindE (arr_get a (k + 1)) (\<lambda>v. arr_set a k v)) [j..n - 2] a"

lemma arr_shl_ok:
  assumes "0 \<le> j" and "j < n" and "n \<le> int (length a)"
  shows "arr_shl a j n =
    Inr (take (nat j) a @ drop (nat j + 1) (take (nat n) a) @ drop (nat n - 1) a)"
  using assms
proof (induction "nat (n - 1 - j)" arbitrary: j a)
  case 0
  then have j: "j = n - 1" by simp
  with 0 show ?case by (simp add: arr_shl_def nat_diff_distrib Suc_nat_eq_nat_zadd1)
next
  case (Suc d)
  then have lt: "j < n - 1" by simp
  let ?a = "a[nat j := a ! nat (j + 1)]"
  have "arr_shl a j n = arr_shl ?a (j + 1) n"
    using Suc.prems lt by (simp add: arr_shl_def upto_rec1)
  also have "\<dots> = Inr (take (nat (j + 1)) ?a @ drop (nat (j + 1) + 1) (take (nat n) ?a) @ drop (nat n - 1) ?a)"
    using Suc lt by (intro Suc.hyps(1)) auto
  also have "take (nat (j + 1)) ?a @ drop (nat (j + 1) + 1) (take (nat n) ?a) @ drop (nat n - 1) ?a
      = take (nat j) a @ drop (nat j + 1) (take (nat n) a) @ drop (nat n - 1) a"
  proof -
    have nj: "nat (j + 1) = Suc (nat j)" "Suc (nat j) < nat n" "nat n \<le> length a"
      using Suc.prems lt by auto
    have "take (Suc (nat j)) ?a = take (nat j) a @ [a ! Suc (nat j)]"
      using nj by (simp add: take_Suc_conv_app_nth)
    moreover have "drop (Suc (nat j)) (take (nat n) a) = a ! Suc (nat j) # drop (Suc (Suc (nat j))) (take (nat n) a)"
      using nj by (subst Cons_nth_drop_Suc [symmetric]) simp_all
    moreover have "drop (Suc (Suc (nat j))) (take (nat n) ?a) = drop (Suc (Suc (nat j))) (take (nat n) a)"
      by (simp add: drop_take)
    moreover have "drop (nat n - 1) ?a = drop (nat n - 1) a"
      using nj by simp
    ultimately show ?thesis using nj by simp
  qed
  finally show ?case .
qed

lemma foldE_map: "foldE f (map g xs) s = foldE (\<lambda>s x. f s (g x)) xs s"
  by (induction xs arbitrary: s) simp_all

lemma foldE_fill:
  "foldE (\<lambda>b i. arr_set b i (f i)) [0..n - 1] a =
     (if n \<le> int (length a) then Inr (map f [0..n - 1] @ drop (nat n) a) else Inl OutOfBounds)"
proof (induction "nat n" arbitrary: n)
  case 0
  then show ?case by simp
next
  case (Suc m)
  then have n: "n = int m + 1" by simp
  have "[0..n - 1] = [0..int m - 1] @ [int m]" using n by (simp add: upto_rec2)
  moreover have "foldE (\<lambda>b i. arr_set b i (f i)) [0..int m - 1] a =
      (if m \<le> length a then Inr (map f [0..int m - 1] @ drop m a) else Inl OutOfBounds)"
    using Suc.hyps(1) [of "int m"] by simp
  moreover have "(map f [0..int m - 1] @ drop m a)[m := f (int m)] = map f [0..int m - 1] @ f (int m) # drop (Suc m) a"
    if "m < length a"
    using that by (simp add: list_update_append Cons_nth_drop_Suc [symmetric])
  ultimately show ?case
    using n by (cases "m < length a") (auto simp: foldE_append arr_set_def nat_add_distrib)
qed

text \<open>The rule for a counting loop \<^verbatim>\<open>for (i = a; i < b; i++)\<close> with an invariant.\<close>

lemma foldE_for:
  fixes a b :: int
  assumes "P a s" and "a \<le> b" and "\<And>i s. a \<le> i \<Longrightarrow> i < b \<Longrightarrow> P i s \<Longrightarrow> \<exists>s'. f s i = Inr s' \<and> P (i + 1) s'"
  shows "\<exists>s'. foldE f [a..b - 1] s = Inr s' \<and> P b s'"
  using assms(2,3)
proof (induction b rule: int_ge_induct)
  case base
  then show ?case using assms(1) by simp
next
  case (step b)
  obtain s1 where s1: "foldE f [a..b - 1] s = Inr s1" "P b s1" using step by fastforce
  obtain s2 where "f s1 b = Inr s2" "P (b + 1) s2" using step.prems [of b s1] step.hyps s1(2) by auto
  moreover have "[a..b + 1 - 1] = [a..b - 1] @ [b]" using step.hyps by (simp add: upto_rec2)
  ultimately show ?case using s1(1) by (simp add: foldE_append)
qed

lemma take_Suc_int: "0 \<le> i \<Longrightarrow> i < int (length a) \<Longrightarrow> take (nat (i + 1)) a = take (nat i) a @ [a ! nat i]"
  by (simp add: nat_add_distrib take_Suc_conv_app_nth)

text \<open>C remainders of non-negative operands are the mathematical ones.\<close>

lemma smod_nonneg: "0 \<le> k \<Longrightarrow> 0 < l \<Longrightarrow> k smod l = k mod l" for k l :: int
  by (cases "k = 0") (simp_all add: smod_int_alt_def)

primrec arr_any :: "('a \<Rightarrow> bool) \<Rightarrow> 'a list \<Rightarrow> int list \<Rightarrow> bool res" where
  "arr_any P a [] = Inr False"
| "arr_any P a (i # is) = bindE (arr_get a i) (\<lambda>v. if P v then Inr True else arr_any P a is)"

lemma arr_any_ok:
  assumes "\<forall>i\<in>set is. 0 \<le> i \<and> i < int (length a)"
  shows "arr_any P a is = Inr (\<exists>i\<in>set is. P (a ! nat i))"
  using assms by (induction "is") auto

lemma arr_any_prefix:
  assumes "n \<le> int (length a)"
  shows "arr_any P a [0..n - 1] = Inr (\<exists>v\<in>set (take (nat n) a). P v)"
proof -
  have "(\<exists>i\<in>{0..n - 1}. P (a ! nat i)) \<longleftrightarrow> (\<exists>i<nat n. P (a ! i))"
    by (rule iffI) (force intro: bexI [of _ "int i" for i])+
  also have "\<dots> \<longleftrightarrow> (\<exists>v\<in>set (take (nat n) a). P v)"
    using assms by (force simp: in_set_conv_nth)
  finally show ?thesis using assms by (subst arr_any_ok) auto
qed

section \<open>Searching a list, and cyclic probe sequences\<close>

lemma find_split:
  "find P xs = Some x \<longleftrightarrow> (\<exists>us vs. xs = us @ x # vs \<and> P x \<and> (\<forall>u\<in>set us. \<not> P u))"
proof (induction xs)
  case (Cons y ys)
  show ?case
  proof
    assume f: "find P (y # ys) = Some x"
    show "\<exists>us vs. y # ys = us @ x # vs \<and> P x \<and> (\<forall>u\<in>set us. \<not> P u)"
    proof (cases "P y")
      case True
      then show ?thesis using f by (intro exI [of _ "[]"] exI [of _ ys]) simp
    next
      case False
      with f Cons obtain us vs where "ys = us @ x # vs" "P x" "\<forall>u\<in>set us. \<not> P u" by auto
      then show ?thesis using False by (intro exI [of _ "y # us"] exI [of _ vs]) simp
    qed
  next
    assume "\<exists>us vs. y # ys = us @ x # vs \<and> P x \<and> (\<forall>u\<in>set us. \<not> P u)"
    then obtain us vs where "y # ys = us @ x # vs" "P x" "\<forall>u\<in>set us. \<not> P u" by blast
    then show "find P (y # ys) = Some x" using Cons by (cases us) auto
  qed
qed simp

lemma drop_eq_Cons: "drop n xs = y # ys \<Longrightarrow> n < length xs \<and> xs ! n = y \<and> drop (Suc n) xs = ys"
  by (metis Cons_nth_drop_Suc drop_all leI list.distinct(1) list.inject)

definition ring :: "nat \<Rightarrow> nat \<Rightarrow> nat list" where
  "ring n h = map (\<lambda>i. (h + i) mod n) [0..<n]"

lemma ring_props:
  assumes "h < n"
  shows "distinct (ring n h)" and "set (ring n h) = {..<n}"
proof -
  have "inj_on (\<lambda>i. (h + i) mod n) {0..<n}"
    by (rule inj_onI) (use assms in \<open>auto simp: mod_if split: if_splits\<close>)
  then show d: "distinct (ring n h)" by (simp add: ring_def distinct_map)
  have "set (ring n h) \<subseteq> {..<n}" using assms by (auto simp: ring_def)
  moreover have "card (set (ring n h)) = n" using distinct_card [OF d] by (simp add: ring_def)
  ultimately show "set (ring n h) = {..<n}" by (intro card_subset_eq) auto
qed

lemma ring_wrap:
  assumes "h < n" and "i < n"
  shows "(h + Suc i) mod n = h \<longleftrightarrow> Suc i = n"
proof (cases "h + Suc i < n")
  case False
  then have "(h + Suc i) mod n = h + Suc i - n" using assms by (simp add: mod_if)
  then show ?thesis using False by auto
qed (use assms in auto)

section \<open>Output\<close>

datatype out = Txt string | Num int | Quot int int

type_synonym outs = "out list"

section \<open>Strictly sorted lists\<close>

abbreviation strict_sorted :: "int list \<Rightarrow> bool" where
  "strict_sorted xs \<equiv> sorted_wrt (<) xs"

lemma strict_sorted_mid:
  "strict_sorted (xs @ a # ys) \<longleftrightarrow>
     strict_sorted xs \<and> strict_sorted ys \<and> (\<forall>x\<in>set xs. x < a) \<and> (\<forall>y\<in>set ys. a < y)"
  by (fastforce simp: sorted_wrt_append)

lemma filter_neq_id [simp]: "k \<notin> set xs \<Longrightarrow> filter (\<lambda>x. x \<noteq> k) xs = xs"
  by (auto simp: filter_id_conv)

lemma strict_sorted_set_unique:
  assumes "strict_sorted xs" and "strict_sorted ys" and "set xs = set ys"
  shows "xs = ys"
  using assms strict_sorted_equal by blast

lemma strict_sorted_list_of_set:
  "strict_sorted xs \<Longrightarrow> sorted_list_of_set (set xs) = xs"
  by (simp add: sorted_list_of_set.idem_if_sorted_distinct strict_sorted_iff)

end
