(* ===== verification/Interfaces.thy ===== *)
theory Interfaces
  imports Prelude
begin

text \<open>
  The contracts that the components promise to their clients, as locales. Each locale is
  interpreted, in the theory of the component that provides it, on the model of the source code.
\<close>

section \<open>Ordered sets of integer keys\<close>

text \<open>
  Insertion-only search structures: what the drivers of the tree programs rely on. Insertion
  never faults on a well-formed structure, keeps it well-formed and adds exactly the key.
\<close>

locale ordered_set =
  fixes empty :: "'t"
    and insert :: "'t \<Rightarrow> int \<Rightarrow> 't res"
    and member :: "'t \<Rightarrow> int \<Rightarrow> bool"
    and keys :: "'t \<Rightarrow> int list"
    and inv :: "'t \<Rightarrow> bool"
  assumes inv_empty: "inv empty"
    and keys_empty: "keys empty = []"
    and keys_sorted: "inv t \<Longrightarrow> strict_sorted (keys t)"
    and insert_ok:
      "inv t \<Longrightarrow> \<exists>t'. insert t k = Inr t' \<and> inv t' \<and> set (keys t') = Set.insert k (set (keys t))"
    and member_iff: "inv t \<Longrightarrow> member t k \<longleftrightarrow> k \<in> set (keys t)"
begin

lemma insert_all_inv:
  assumes "inv t"
  shows "\<exists>t'. foldE insert ks t = Inr t' \<and> inv t' \<and> set (keys t') = set (keys t) \<union> set ks"
  using assms
proof (induction ks arbitrary: t)
  case Nil
  then show ?case by simp
next
  case (Cons k ks)
  from insert_ok [OF Cons.prems] obtain t1 where
    t1: "insert t k = Inr t1" "inv t1" "set (keys t1) = Set.insert k (set (keys t))" by blast
  from Cons.IH [OF t1(2)] t1 show ?case by auto
qed

lemma build_keys:
  "\<exists>t. foldE insert ks empty = Inr t \<and> inv t \<and> keys t = sorted_list_of_set (set ks)"
proof -
  from insert_all_inv [OF inv_empty] obtain t where
    t: "foldE insert ks empty = Inr t" "inv t" "set (keys t) = set ks"
    by (auto simp: keys_empty)
  then show ?thesis using strict_sorted_list_of_set [OF keys_sorted [OF t(2)]] by auto
qed

lemma build_member:
  assumes "foldE insert ks empty = Inr t"
  shows "member t k \<longleftrightarrow> k \<in> set ks"
  using build_keys [of ks] assms by (auto simp: member_iff)

end

text \<open>With deletion: the set contract of the balanced search trees.\<close>

locale ordered_set_del = ordered_set +
  fixes delete :: "'a \<Rightarrow> int \<Rightarrow> 'a res"
  assumes delete_ok:
    "inv t \<Longrightarrow> \<exists>t'. delete t k = Inr t' \<and> inv t' \<and> set (keys t') = set (keys t) - {k}"
begin

lemma delete_keys:
  assumes "inv t"
  shows "\<exists>t'. delete t k = Inr t' \<and> inv t' \<and> keys t' = filter (\<lambda>x. x \<noteq> k) (keys t)"
proof -
  from delete_ok [OF assms] obtain t' where
    t': "delete t k = Inr t'" "inv t'" "set (keys t') = set (keys t) - {k}" by blast
  have "strict_sorted (filter (\<lambda>x. x \<noteq> k) (keys t))"
    using keys_sorted [OF assms] by (rule sorted_wrt_filter)
  moreover have "set (keys t') = set (filter (\<lambda>x. x \<noteq> k) (keys t))" using t'(3) by auto
  ultimately have "keys t' = filter (\<lambda>x. x \<noteq> k) (keys t)"
    using keys_sorted [OF t'(2)] strict_sorted_set_unique by blast
  with t' show ?thesis by blast
qed

lemma delete_then_member:
  assumes "inv t" and "delete t k = Inr t'"
  shows "\<not> member t' k"
  using delete_keys [OF assms(1), of k] assms(2) by (auto simp: member_iff)

end

section \<open>Ordered bags of integer keys\<close>

text \<open>A search structure that keeps duplicates: its contents are the sorted list of what was inserted.\<close>

locale ordered_bag =
  fixes empty :: "'t"
    and insert :: "'t \<Rightarrow> int \<Rightarrow> 't res"
    and member :: "'t \<Rightarrow> int \<Rightarrow> bool res"
    and contents :: "'t \<Rightarrow> int list"
    and inv :: "'t \<Rightarrow> bool"
  assumes bag_inv_empty: "inv empty"
    and bag_empty: "contents empty = []"
    and bag_sorted: "inv t \<Longrightarrow> sorted (contents t)"
    and bag_insert: "inv t \<Longrightarrow> \<exists>t'. insert t k = Inr t' \<and> inv t' \<and> contents t' = insort k (contents t)"
    and bag_member: "inv t \<Longrightarrow> member t k = Inr (k \<in> set (contents t))"
begin

lemma bag_insert_all:
  assumes "inv t"
  shows "\<exists>t'. foldE insert ks t = Inr t' \<and> inv t' \<and> mset (contents t') = mset (contents t) + mset ks"
  using assms
proof (induction ks arbitrary: t)
  case (Cons k ks)
  from bag_insert [OF Cons.prems] obtain t1 where
    t1: "insert t k = Inr t1" "inv t1" "contents t1 = insort k (contents t)" by blast
  from Cons.IH [OF t1(2)] t1 show ?case by auto
qed simp

lemma bag_build:
  "\<exists>t. foldE insert ks empty = Inr t \<and> inv t \<and> contents t = sort ks \<and> (\<forall>k. member t k = Inr (k \<in> set ks))"
proof -
  from bag_insert_all [OF bag_inv_empty] obtain t where
    t: "foldE insert ks empty = Inr t" "inv t" "mset (contents t) = mset ks" by (auto simp: bag_empty)
  from t(3) have "set (contents t) = set ks" by (rule mset_eq_setD)
  moreover have "contents t = sort ks" using t(3) bag_sorted [OF t(2)] by (metis properties_for_sort)
  ultimately show ?thesis using t bag_member by auto
qed

end

section \<open>Page replacement policies\<close>

text \<open>
  What a page-cache simulator promises about each request that it serves: the request is reported as
  a hit exactly when the page is resident, the page is resident afterwards, nothing else becomes
  resident, the capacity is respected and the counters are kept.
\<close>

definition serve :: "('s \<Rightarrow> int \<Rightarrow> ('s \<times> bool) res) \<Rightarrow> 's \<Rightarrow> int \<Rightarrow> 's res" where
  "serve step s p = bindE (step s p) (\<lambda>(s', hit). Inr s')"

locale page_policy =
  fixes step :: "'s \<Rightarrow> int \<Rightarrow> ('s \<times> bool) res"
    and resident :: "'s \<Rightarrow> int set"
    and hits :: "'s \<Rightarrow> int"
    and misses :: "'s \<Rightarrow> int"
    and capacity :: nat
    and inv :: "'s \<Rightarrow> bool"
  assumes resident_bounded: "inv s \<Longrightarrow> finite (resident s) \<and> card (resident s) \<le> capacity"
    and step_served: "inv s \<Longrightarrow> p \<noteq> -1 \<Longrightarrow> step s p = Inr (s', hit) \<Longrightarrow>
      inv s' \<and> (hit \<longleftrightarrow> p \<in> resident s) \<and> p \<in> resident s'
      \<and> resident s' \<subseteq> Set.insert p (resident s)
      \<and> hits s' = hits s + (if hit then 1 else 0) \<and> misses s' = misses s + (if hit then 0 else 1)"
begin

lemma serve_all:
  assumes "inv s" and "-1 \<notin> set ps" and "foldE (serve step) ps s = Inr s'"
  shows "inv s' \<and> hits s' + misses s' = hits s + misses s + int (length ps)
    \<and> misses s' \<ge> misses s + int (card (set ps - resident s))
    \<and> resident s' \<subseteq> resident s \<union> set ps \<and> card (resident s') \<le> capacity"
  using assms
proof (induction ps arbitrary: s)
  case Nil
  then show ?case by (simp add: resident_bounded)
next
  case (Cons p ps)
  from Cons.prems obtain s1 hit where s1: "step s p = Inr (s1, hit)" "foldE (serve step) ps s1 = Inr s'"
    by (auto simp: serve_def [of step s p] bindE_eq_Inr split: prod.splits)
  note st = step_served [OF Cons.prems(1) _ s1(1)]
  have p: "p \<noteq> -1" using Cons.prems(2) by auto
  note ih = Cons.IH [OF conjunct1 [OF st [OF p]] _ s1(2)]
  have "set (p # ps) - resident s \<subseteq> (if hit then {} else {p}) \<union> (set ps - resident s1)"
    using st [OF p] by auto
  then have "card (set (p # ps) - resident s) \<le> card ((if hit then {} else {p}) \<union> (set ps - resident s1))"
    by (intro card_mono) auto
  also have "\<dots> \<le> card (if hit then {} else {p}) + card (set ps - resident s1)" by (rule card_Un_le)
  finally have "card (set (p # ps) - resident s) \<le> (if hit then 0 else 1) + card (set ps - resident s1)"
    by (auto split: if_splits)
  then show ?case using ih st [OF p] Cons.prems(2) by (auto split: if_splits)
qed

end

text \<open>A policy that serves every request.\<close>

locale total_policy = page_policy +
  assumes step_total: "inv s \<Longrightarrow> p \<noteq> -1 \<Longrightarrow> \<exists>s' hit. step s p = Inr (s', hit)"
begin

lemma serve_total:
  assumes "inv s" and "-1 \<notin> set ps"
  shows "\<exists>s'. foldE (serve step) ps s = Inr s'"
  using assms
proof (induction ps arbitrary: s)
  case (Cons p ps)
  from Cons.prems have p: "p \<noteq> -1" by auto
  from step_total [OF Cons.prems(1) p] obtain s1 hit where s1: "step s p = Inr (s1, hit)" by blast
  from step_served [OF Cons.prems(1) p s1] have "inv s1" by blast
  from Cons.IH [OF this] Cons.prems s1 show ?case by (auto simp: serve_def)
qed simp

end

section \<open>Containers of integers\<close>

text \<open>
  Stacks and queues: \<open>put\<close> stores a value, \<open>get\<close> removes the value at the head of \<open>contents\<close> and
  returns -1 when there is none. Where \<open>put\<close> stores is the parameter \<open>add\<close> (in front for a stack, at the
  end for a queue); \<open>room c n\<close> says that the container accepts \<open>n\<close> more values.
\<close>

datatype cop = Put int | Get

primrec cop_spec :: "(int list \<Rightarrow> int \<Rightarrow> int list) \<Rightarrow> int list \<Rightarrow> cop list \<Rightarrow> int list" where
  "cop_spec add xs [] = []"
| "cop_spec add xs (op # ops) =
     (case op of Put v \<Rightarrow> cop_spec add (add xs v) ops
      | Get \<Rightarrow> (case xs of [] \<Rightarrow> -1 # cop_spec add [] ops | y # ys \<Rightarrow> y # cop_spec add ys ops))"

primrec cop_run ::
  "('c \<Rightarrow> int \<Rightarrow> ('c \<times> outs) res) \<Rightarrow> ('c \<Rightarrow> ('c \<times> int \<times> outs) res) \<Rightarrow> 'c \<Rightarrow> cop list \<Rightarrow> int list res" where
  "cop_run put get c [] = Inr []"
| "cop_run put get c (op # ops) =
     (case op of Put v \<Rightarrow> bindE (put c v) (\<lambda>(c', _). cop_run put get c' ops)
      | Get \<Rightarrow> bindE (get c) (\<lambda>(c', v, _). bindE (cop_run put get c' ops) (\<lambda>vs. Inr (v # vs))))"

definition cop_puts :: "cop list \<Rightarrow> nat" where
  "cop_puts ops = length (filter (\<lambda>op. op \<noteq> Get) ops)"

locale int_container =
  fixes put :: "'c \<Rightarrow> int \<Rightarrow> ('c \<times> outs) res"
    and get :: "'c \<Rightarrow> ('c \<times> int \<times> outs) res"
    and contents :: "'c \<Rightarrow> int list"
    and room :: "'c \<Rightarrow> nat \<Rightarrow> bool"
    and inv :: "'c \<Rightarrow> bool"
    and add :: "int list \<Rightarrow> int \<Rightarrow> int list"
  assumes put_ok: "inv c \<Longrightarrow> room c (Suc n) \<Longrightarrow>
      \<exists>c' out. put c v = Inr (c', out) \<and> inv c' \<and> room c' n \<and> contents c' = add (contents c) v"
    and get_ok: "inv c \<Longrightarrow> contents c = x # xs \<Longrightarrow>
      \<exists>c' out. get c = Inr (c', x, out) \<and> inv c' \<and> contents c' = xs \<and> (\<forall>n. room c n \<longrightarrow> room c' n)"
    and get_empty: "inv c \<Longrightarrow> contents c = [] \<Longrightarrow> \<exists>out. get c = Inr (c, -1, out)"
begin

lemma run_spec:
  assumes "inv c" and "room c (cop_puts ops)"
  shows "cop_run put get c ops = Inr (cop_spec add (contents c) ops)"
  using assms
proof (induction ops arbitrary: c)
  case (Cons op ops)
  show ?case
  proof (cases op)
    case (Put v)
    with Cons.prems have "room c (Suc (cop_puts ops))" by (simp add: cop_puts_def)
    from put_ok [OF Cons.prems(1) this, of v] obtain c' out where
      "put c v = Inr (c', out)" "inv c'" "room c' (cop_puts ops)" "contents c' = add (contents c) v" by blast
    with Cons.IH [of c'] Put show ?thesis by simp
  next
    case Get
    with Cons.prems have room: "room c (cop_puts ops)" by (simp add: cop_puts_def)
    show ?thesis
    proof (cases "contents c")
      case Nil
      from get_empty [OF Cons.prems(1) Nil] obtain out where "get c = Inr (c, -1, out)" by blast
      with Cons.IH [OF Cons.prems(1) room] Get Nil show ?thesis by simp
    next
      case (Cons x xs)
      from get_ok [OF Cons.prems(1) Cons] obtain c' out where
        "get c = Inr (c', x, out)" "inv c'" "contents c' = xs" "room c' (cop_puts ops)" using room by blast
      with Cons.IH [of c'] Get Cons show ?thesis by simp
    qed
  qed
qed simp

end

section \<open>Key-value stores\<close>

text \<open>A store whose update is the update of the map that its lookup reads.\<close>

definition kv_load :: "('s \<Rightarrow> 'k \<Rightarrow> 'v \<Rightarrow> 's) \<Rightarrow> ('k \<times> 'v) list \<Rightarrow> 's \<Rightarrow> 's" where
  "kv_load upd kvs s = foldl (\<lambda>s (k, v). upd s k v) s kvs"

locale kv_store =
  fixes upd :: "'s \<Rightarrow> 'k \<Rightarrow> 'v \<Rightarrow> 's"
    and lookup :: "'s \<Rightarrow> 'k \<Rightarrow> 'v option"
  assumes lookup_upd: "lookup (upd s k v) = (lookup s)(k := Some v)"
begin

lemma load_lookup: "lookup (kv_load upd kvs s) = lookup s ++ map_of (rev kvs)"
proof (induction kvs arbitrary: s)
  case (Cons p kvs)
  obtain k v where p: "p = (k, v)" by (cases p)
  have "lookup (kv_load upd (p # kvs) s) = lookup (upd s k v) ++ map_of (rev kvs)"
    using Cons [of "upd s k v"] by (simp add: kv_load_def p)
  then show ?case by (simp add: lookup_upd p)
qed (simp add: kv_load_def)

text \<open>When every binding of a key gives the same value, the order of the updates is irrelevant.\<close>

lemma load_functional:
  assumes "(k, v) \<in> set kvs" and "\<And>v'. (k, v') \<in> set kvs \<Longrightarrow> v' = v"
  shows "lookup (kv_load upd kvs s) k = Some v"
proof -
  obtain v' where v': "map_of (rev kvs) k = Some v'"
    using weak_map_of_SomeI [of k v "rev kvs"] assms(1) by auto
  then have "v' = v" using assms(2) map_of_SomeD by fastforce
  then show ?thesis using v' by (simp add: load_lookup)
qed

end

end
