(* ===== verification/Avl.thy ===== *)
theory Avl
  imports Interfaces
begin

text \<open>
  The AVL tree of \<^verbatim>\<open>day-8(Avl-Tree)/avl-tree.c\<close>. A \<^verbatim>\<open>Node*\<close> is a tree: \<open>AvlNull\<close> is
  \<^verbatim>\<open>NULL\<close> and \<open>AvlNode\<close> carries the fields of \<^verbatim>\<open>struct Node\<close>, the cached height
  included. Every dereference of a possibly null pointer is a checked access, so that the
  correctness theorems also show that no operation dereferences \<^verbatim>\<open>NULL\<close> on a well-formed tree.
\<close>

section \<open>The code\<close>

datatype avl_node = AvlNull | AvlNode int avl_node avl_node int

definition avl_max :: "int \<Rightarrow> int \<Rightarrow> int" where
  "avl_max value1 value2 = (if value1 > value2 then value1 else value2)"

fun avl_height :: "avl_node \<Rightarrow> int" where
  "avl_height AvlNull = 0"
| "avl_height (AvlNode key left right height) = height"

definition avl_createNode :: "int \<Rightarrow> avl_node" where
  "avl_createNode key = AvlNode key AvlNull AvlNull 1"

text \<open>The access \<^verbatim>\<open>node->key\<close>.\<close>

fun avl_keyOf :: "avl_node \<Rightarrow> int res" where
  "avl_keyOf AvlNull = Inl NullDeref"
| "avl_keyOf (AvlNode key left right height) = Inr key"

fun avl_rightRotate :: "avl_node \<Rightarrow> avl_node res" where
  "avl_rightRotate (AvlNode yk (AvlNode xk xl T2 xh) yr yh) =
     (let y = AvlNode yk T2 yr (avl_max (avl_height T2) (avl_height yr) + 1)
      in Inr (AvlNode xk xl y (avl_max (avl_height xl) (avl_height y) + 1)))"
| "avl_rightRotate _ = Inl NullDeref"

fun avl_leftRotate :: "avl_node \<Rightarrow> avl_node res" where
  "avl_leftRotate (AvlNode xk xl (AvlNode yk T2 yr yh) xh) =
     (let x = AvlNode xk xl T2 (avl_max (avl_height xl) (avl_height T2) + 1)
      in Inr (AvlNode yk x yr (avl_max (avl_height x) (avl_height yr) + 1)))"
| "avl_leftRotate _ = Inl NullDeref"

fun avl_getBalanceFactor :: "avl_node \<Rightarrow> int" where
  "avl_getBalanceFactor AvlNull = 0"
| "avl_getBalanceFactor (AvlNode key left right height) = avl_height left - avl_height right"

text \<open>The tail of \<^verbatim>\<open>insert\<close>, run at every node on the path after the recursive call.\<close>

definition avl_fix_insert :: "int \<Rightarrow> avl_node \<Rightarrow> avl_node \<Rightarrow> int \<Rightarrow> avl_node res" where
  "avl_fix_insert k l r key =
     (let h = 1 + avl_max (avl_height l) (avl_height r);
          node = AvlNode k l r h;
          balance = avl_getBalanceFactor node
      in bindE (andE (balance > 1) (bindE (avl_keyOf l) (\<lambda>lk. Inr (key < lk)))) (\<lambda>ll.
         if ll then avl_rightRotate node
         else bindE (andE (balance < -1) (bindE (avl_keyOf r) (\<lambda>rk. Inr (key > rk)))) (\<lambda>rr.
         if rr then avl_leftRotate node
         else bindE (andE (balance > 1) (bindE (avl_keyOf l) (\<lambda>lk. Inr (key > lk)))) (\<lambda>lr.
         if lr then bindE (avl_leftRotate l) (\<lambda>l'. avl_rightRotate (AvlNode k l' r h))
         else bindE (andE (balance < -1) (bindE (avl_keyOf r) (\<lambda>rk. Inr (key < rk)))) (\<lambda>rl.
         if rl then bindE (avl_rightRotate r) (\<lambda>r'. avl_leftRotate (AvlNode k l r' h))
         else Inr node)))))"

fun avl_insert :: "avl_node \<Rightarrow> int \<Rightarrow> avl_node res" where
  "avl_insert AvlNull key = Inr (avl_createNode key)"
| "avl_insert (AvlNode k l r h) key =
     (if key < k then bindE (avl_insert l key) (\<lambda>l'. avl_fix_insert k l' r key)
      else if key > k then bindE (avl_insert r key) (\<lambda>r'. avl_fix_insert k l r' key)
      else Inr (AvlNode k l r h))"

fun avl_displayTree :: "avl_node \<Rightarrow> nat \<Rightarrow> outs" where
  "avl_displayTree AvlNull space = []"
| "avl_displayTree (AvlNode k l r h) space =
     avl_displayTree r (space + 5)
     @ [Txt ''\<newline>'', Txt (replicate (space + 5 - 5) CHR '' ''), Num k, Txt ''\<newline>'']
     @ avl_displayTree l (space + 5)"

fun avl_search :: "avl_node \<Rightarrow> int \<Rightarrow> avl_node" where
  "avl_search AvlNull key = AvlNull"
| "avl_search (AvlNode k l r h) key =
     (if k = key then AvlNode k l r h
      else if key < k then avl_search l key else avl_search r key)"

fun avl_minimumValueNode :: "avl_node \<Rightarrow> avl_node res" where
  "avl_minimumValueNode AvlNull = Inl NullDeref"
| "avl_minimumValueNode (AvlNode k AvlNull r h) = Inr (AvlNode k AvlNull r h)"
| "avl_minimumValueNode (AvlNode k (AvlNode lk ll lr lh) r h) =
     avl_minimumValueNode (AvlNode lk ll lr lh)"

text \<open>The tail of \<^verbatim>\<open>deleteNode\<close>: the height update and the four rebalancing cases.\<close>

fun avl_fix_delete :: "avl_node \<Rightarrow> avl_node res" where
  "avl_fix_delete AvlNull = Inr AvlNull"
| "avl_fix_delete (AvlNode k l r h0) =
     (let h = 1 + avl_max (avl_height l) (avl_height r);
          root = AvlNode k l r h;
          balance = avl_getBalanceFactor root
      in if balance > 1 \<and> avl_getBalanceFactor l \<ge> 0 then avl_rightRotate root
         else if balance > 1 \<and> avl_getBalanceFactor l < 0
         then bindE (avl_leftRotate l) (\<lambda>l'. avl_rightRotate (AvlNode k l' r h))
         else if balance < -1 \<and> avl_getBalanceFactor r \<le> 0 then avl_leftRotate root
         else if balance < -1 \<and> avl_getBalanceFactor r > 0
         then bindE (avl_rightRotate r) (\<lambda>r'. avl_leftRotate (AvlNode k l r' h))
         else Inr root)"

fun avl_deleteNode :: "avl_node \<Rightarrow> int \<Rightarrow> avl_node res" where
  "avl_deleteNode AvlNull key = Inr AvlNull"
| "avl_deleteNode (AvlNode k l r h) key =
     (if key < k then bindE (avl_deleteNode l key) (\<lambda>l'. avl_fix_delete (AvlNode k l' r h))
      else if key > k then bindE (avl_deleteNode r key) (\<lambda>r'. avl_fix_delete (AvlNode k l r' h))
      else if l = AvlNull \<or> r = AvlNull
      then (let temp = (if l \<noteq> AvlNull then l else r)
            in if temp = AvlNull then avl_fix_delete AvlNull else avl_fix_delete temp)
      else bindE (avl_minimumValueNode r) (\<lambda>temp.
           bindE (avl_keyOf temp) (\<lambda>tk.
           bindE (avl_deleteNode r tk) (\<lambda>r'. avl_fix_delete (AvlNode tk l r' h)))))"

text \<open>\<^verbatim>\<open>main\<close>, with the numbers that \<^verbatim>\<open>scanf\<close> reads as arguments.\<close>

definition avl_main :: "int list \<Rightarrow> int \<Rightarrow> int \<Rightarrow> outs res" where
  "avl_main values keyToBeSearched keyToBeDeleted =
     bindE (foldE avl_insert values AvlNull) (\<lambda>root.
     bindE (avl_deleteNode root keyToBeDeleted) (\<lambda>root'.
     Inr ([Txt ''Enter number of inputs: '', Txt ''Enter '', Num (int (length values)),
           Txt '' values:\<newline>'', Txt ''\<newline>AVL Tree structure:\<newline>'']
          @ avl_displayTree root 0
          @ [Txt ''\<newline>Enter key to search: '']
          @ (if avl_search root keyToBeSearched \<noteq> AvlNull
             then [Txt ''Key '', Num keyToBeSearched, Txt '' is found in AVL tree.\<newline>'']
             else [Txt ''Key '', Num keyToBeSearched, Txt '' is not found.\<newline>''])
          @ [Txt ''\<newline>Enter key to delete: '', Txt ''\<newline>AVL Tree after deletion:\<newline>'']
          @ avl_displayTree root' 0)))"

section \<open>The well-formedness invariant\<close>

fun avl_inorder :: "avl_node \<Rightarrow> int list" where
  "avl_inorder AvlNull = []"
| "avl_inorder (AvlNode k l r h) = avl_inorder l @ k # avl_inorder r"

text \<open>Heights are cached correctly and the heights of siblings differ by at most one.\<close>

fun avl_bal :: "avl_node \<Rightarrow> bool" where
  "avl_bal AvlNull = True"
| "avl_bal (AvlNode k l r h) =
     (h = 1 + max (avl_height l) (avl_height r) \<and> \<bar>avl_height l - avl_height r\<bar> \<le> 1
      \<and> avl_bal l \<and> avl_bal r)"

definition avl_inv :: "avl_node \<Rightarrow> bool" where
  "avl_inv t = (avl_bal t \<and> strict_sorted (avl_inorder t))"

lemma avl_max_eq [simp]: "avl_max a b = max a b"
  by (simp add: avl_max_def)

lemma avl_height_nonneg: "avl_bal t \<Longrightarrow> 0 \<le> avl_height t"
  by (induction t) auto

lemma avl_height_0_iff: "avl_bal t \<Longrightarrow> avl_height t = 0 \<longleftrightarrow> t = AvlNull"
  by (cases t) (use avl_height_nonneg in fastforce)+

lemma avl_height_pos: "avl_bal t \<Longrightarrow> 0 < avl_height t \<Longrightarrow> \<exists>k l r h. t = AvlNode k l r h"
  by (cases t) auto

section \<open>Rotations and rebalancing\<close>

lemma avl_inorder_rightRotate: "avl_rightRotate t = Inr t' \<Longrightarrow> avl_inorder t' = avl_inorder t"
  by (cases t rule: avl_rightRotate.cases) (auto simp: Let_def)

lemma avl_inorder_leftRotate: "avl_leftRotate t = Inr t' \<Longrightarrow> avl_inorder t' = avl_inorder t"
  by (cases t rule: avl_leftRotate.cases) (auto simp: Let_def)

lemmas avl_inorder_rotate = avl_inorder_rightRotate avl_inorder_leftRotate

lemma avl_inorder_fix_insert:
  "avl_fix_insert k l r key = Inr t' \<Longrightarrow> avl_inorder t' = avl_inorder l @ k # avl_inorder r"
  by (auto simp: avl_fix_insert_def Let_def bindE_eq_Inr dest!: avl_inorder_rotate
      split: if_splits)

lemma avl_inorder_fix_delete: "avl_fix_delete t = Inr t' \<Longrightarrow> avl_inorder t' = avl_inorder t"
  by (cases t) (auto simp: Let_def bindE_eq_Inr dest!: avl_inorder_rotate split: if_splits)

text \<open>Rebalancing a node whose subtrees differ in height by at most two.\<close>

lemma avl_fix_delete_ok:
  assumes "avl_bal l" and "avl_bal r" and "\<bar>avl_height l - avl_height r\<bar> \<le> 2"
  shows "\<exists>t'. avl_fix_delete (AvlNode k l r h) = Inr t' \<and> avl_bal t'
     \<and> (\<bar>avl_height l - avl_height r\<bar> \<le> 1 \<longrightarrow>
           avl_height t' = 1 + max (avl_height l) (avl_height r))
     \<and> avl_height t' \<in> {max (avl_height l) (avl_height r), 1 + max (avl_height l) (avl_height r)}"
proof -
  consider (bal) "\<bar>avl_height l - avl_height r\<bar> \<le> 1" | (left) "avl_height l = avl_height r + 2"
    | (right) "avl_height r = avl_height l + 2"
    using assms(3) by linarith
  then show ?thesis
  proof cases
    case bal
    with assms show ?thesis by (auto simp: Let_def)
  next
    case left
    then have "0 < avl_height l" using avl_height_nonneg [OF assms(2)] by simp
    then obtain lk ll lr lh where l: "l = AvlNode lk ll lr lh"
      using assms(1) avl_height_pos by blast
    show ?thesis
    proof (cases "avl_height ll \<ge> avl_height lr")
      case True
      with left l assms show ?thesis by (auto simp: Let_def)
    next
      case False
      with l assms have "0 < avl_height lr" using avl_height_nonneg [of ll] by auto
      then obtain mk ml mr mh where "lr = AvlNode mk ml mr mh"
        using l assms(1) avl_height_pos by (metis avl_bal.simps(2))
      with False left l assms show ?thesis by (auto simp: Let_def)
    qed
  next
    case right
    then have "0 < avl_height r" using avl_height_nonneg [OF assms(1)] by simp
    then obtain rk rl rr rh where r: "r = AvlNode rk rl rr rh"
      using assms(2) avl_height_pos by blast
    show ?thesis
    proof (cases "avl_height rl \<le> avl_height rr")
      case True
      with right r assms show ?thesis by (auto simp: Let_def)
    next
      case False
      with r assms have "0 < avl_height rl" using avl_height_nonneg [of rr] by auto
      then obtain mk ml mr mh where "rl = AvlNode mk ml mr mh"
        using r assms(2) avl_height_pos by (metis avl_bal.simps(2))
      with False right r assms show ?thesis by (auto simp: Let_def)
    qed
  qed
qed

section \<open>Insertion\<close>

text \<open>
  When insertion makes a non-empty tree higher, no rotation happened at its root and the child on
  the side of the key is the higher one. This is what makes the comparison of the key with the
  child's key (rather than with the child's balance factor) select the right rotation.
\<close>

definition avl_leans :: "int \<Rightarrow> avl_node \<Rightarrow> bool" where
  "avl_leans key t \<longleftrightarrow> (\<exists>k l r h. t = AvlNode k l r h
     \<and> (key < k \<and> avl_height l = avl_height r + 1 \<or> key > k \<and> avl_height r = avl_height l + 1))"

lemma avl_fix_insert_balanced:
  assumes "\<bar>avl_height l - avl_height r\<bar> \<le> 1"
  shows "avl_fix_insert k l r key = Inr (AvlNode k l r (1 + max (avl_height l) (avl_height r)))"
proof -
  have "\<not> 1 < avl_height l - avl_height r" "\<not> avl_height l - avl_height r < -1"
    using assms by auto
  then show ?thesis by (simp add: avl_fix_insert_def Let_def)
qed

lemma avl_fix_insert_left:
  assumes "avl_bal l" "avl_bal r" "avl_height l = avl_height r + 2" "avl_leans key l"
  shows "\<exists>t'. avl_fix_insert k l r key = Inr t' \<and> avl_bal t' \<and> avl_height t' = avl_height l"
proof -
  from assms(4) obtain lk ll lr lh where l: "l = AvlNode lk ll lr lh" and
    side: "key < lk \<and> avl_height ll = avl_height lr + 1 \<or> key > lk \<and> avl_height lr = avl_height ll + 1"
    by (auto simp: avl_leans_def)
  show ?thesis
  proof (cases "key < lk")
    case True
    with l side assms show ?thesis by (auto simp: avl_fix_insert_def Let_def)
  next
    case False
    with l side assms have "0 < avl_height lr" using avl_height_nonneg [of ll] by auto
    then obtain mk ml mr mh where "lr = AvlNode mk ml mr mh"
      using l assms(1) avl_height_pos by (metis avl_bal.simps(2))
    with False l side assms show ?thesis by (auto simp: avl_fix_insert_def Let_def)
  qed
qed

lemma avl_fix_insert_right:
  assumes "avl_bal l" "avl_bal r" "avl_height r = avl_height l + 2" "avl_leans key r"
  shows "\<exists>t'. avl_fix_insert k l r key = Inr t' \<and> avl_bal t' \<and> avl_height t' = avl_height r"
proof -
  from assms(4) obtain rk rl rr rh where r: "r = AvlNode rk rl rr rh" and
    side: "key < rk \<and> avl_height rl = avl_height rr + 1 \<or> key > rk \<and> avl_height rr = avl_height rl + 1"
    by (auto simp: avl_leans_def)
  show ?thesis
  proof (cases "key > rk")
    case True
    with r side assms show ?thesis by (auto simp: avl_fix_insert_def Let_def)
  next
    case False
    with r side assms have "0 < avl_height rl" using avl_height_nonneg [of rr] by auto
    then obtain mk ml mr mh where "rl = AvlNode mk ml mr mh"
      using r assms(2) avl_height_pos by (metis avl_bal.simps(2))
    with False r side assms show ?thesis by (auto simp: avl_fix_insert_def Let_def)
  qed
qed

lemma avl_insert_bal:
  "avl_bal t \<Longrightarrow> \<exists>t'. avl_insert t key = Inr t' \<and> avl_bal t'
     \<and> (avl_height t' = avl_height t \<or> avl_height t' = avl_height t + 1 \<and> (t \<noteq> AvlNull \<longrightarrow> avl_leans key t'))"
proof (induction t)
  case AvlNull
  then show ?case by (simp add: avl_createNode_def)
next
  case (AvlNode k l r h)
  consider (less) "key < k" | (gr) "key > k" | (eq) "key = k" by linarith
  then show ?case
  proof cases
    case less
    from AvlNode obtain l' where l': "avl_insert l key = Inr l'" "avl_bal l'"
      "avl_height l' = avl_height l
        \<or> avl_height l' = avl_height l + 1 \<and> (l \<noteq> AvlNull \<longrightarrow> avl_leans key l')" by auto
    show ?thesis
    proof (cases "avl_height l' = avl_height r + 2")
      case True
      with AvlNode.prems l'(3) have "avl_height l' = avl_height l + 1" "l \<noteq> AvlNull"
        using avl_height_nonneg [of r] by auto
      with l'(3) have "avl_leans key l'" by auto
      from avl_fix_insert_left [OF l'(2) _ True this, of k] AvlNode.prems less l' True
      show ?thesis by auto
    next
      case False
      with AvlNode.prems l'(3) have "\<bar>avl_height l' - avl_height r\<bar> \<le> 1" by auto
      with AvlNode.prems less l' show ?thesis by (auto simp: avl_fix_insert_balanced avl_leans_def)
    qed
  next
    case gr
    from AvlNode obtain r' where r': "avl_insert r key = Inr r'" "avl_bal r'"
      "avl_height r' = avl_height r
        \<or> avl_height r' = avl_height r + 1 \<and> (r \<noteq> AvlNull \<longrightarrow> avl_leans key r')" by auto
    show ?thesis
    proof (cases "avl_height r' = avl_height l + 2")
      case True
      with AvlNode.prems r'(3) have "avl_height r' = avl_height r + 1" "r \<noteq> AvlNull"
        using avl_height_nonneg [of l] by auto
      with r'(3) have "avl_leans key r'" by auto
      from avl_fix_insert_right [OF _ r'(2) True this, of k] AvlNode.prems gr r' True
      show ?thesis by auto
    next
      case False
      with AvlNode.prems r'(3) have "\<bar>avl_height l - avl_height r'\<bar> \<le> 1" by auto
      with AvlNode.prems gr r' show ?thesis by (auto simp: avl_fix_insert_balanced avl_leans_def)
    qed
  next
    case eq
    with AvlNode.prems show ?thesis by auto
  qed
qed

lemma avl_insert_inorder:
  "avl_insert t key = Inr t' \<Longrightarrow> strict_sorted (avl_inorder t) \<Longrightarrow>
     strict_sorted (avl_inorder t') \<and> set (avl_inorder t') = insert key (set (avl_inorder t))"
proof (induction t arbitrary: t')
  case AvlNull
  then show ?case by (auto simp: avl_createNode_def)
next
  case (AvlNode k l r h)
  then show ?case
    by (auto simp: bindE_eq_Inr strict_sorted_mid dest!: avl_inorder_fix_insert split: if_splits)
qed

section \<open>Deletion\<close>

lemma avl_minimumValueNode_ok:
  "t \<noteq> AvlNull \<Longrightarrow> \<exists>m. avl_minimumValueNode t = Inr m \<and> avl_keyOf m = Inr (hd (avl_inorder t))"
  by (induction t rule: avl_minimumValueNode.induct) (auto simp: hd_append)

lemma avl_inorder_Nil [simp]: "avl_inorder t = [] \<longleftrightarrow> t = AvlNull"
  by (cases t) auto

lemma avl_deleteNode_bal:
  "avl_bal t \<Longrightarrow> \<exists>t'. avl_deleteNode t key = Inr t' \<and> avl_bal t'
     \<and> avl_height t' \<in> {avl_height t - 1, avl_height t}"
proof (induction t arbitrary: key)
  case AvlNull
  then show ?case by simp
next
  case (AvlNode k l r h)
  have left: ?case if "key < k"
  proof -
    from AvlNode obtain l' where l': "avl_deleteNode l key = Inr l'" "avl_bal l'"
      "avl_height l' \<in> {avl_height l - 1, avl_height l}" by force
    with avl_fix_delete_ok [OF l'(2), of r k h] AvlNode.prems that show ?thesis
      by (auto simp: max_def split: if_splits)
  qed
  have right: ?case if "key \<ge> k" "key = k \<longrightarrow> l \<noteq> AvlNull \<and> r \<noteq> AvlNull"
  proof -
    define d where "d = (if key = k then hd (avl_inorder r) else key)"
    define k' where "k' = (if key = k then hd (avl_inorder r) else k)"
    from AvlNode obtain r' where r': "avl_deleteNode r d = Inr r'" "avl_bal r'"
      "avl_height r' \<in> {avl_height r - 1, avl_height r}" by force
    have "avl_deleteNode (AvlNode k l r h) key = avl_fix_delete (AvlNode k' l r' h)"
      using that r'(1) avl_minimumValueNode_ok [of r] by (auto simp: d_def k'_def)
    with avl_fix_delete_ok [OF _ r'(2), of l k' h] AvlNode.prems r' show ?thesis
      by (auto simp: max_def split: if_splits)
  qed
  have one: ?case if "key = k" "l = AvlNull \<or> r = AvlNull"
  proof (cases "l = AvlNull \<and> r = AvlNull")
    case True
    with that AvlNode.prems show ?thesis by auto
  next
    case False
    define c where "c = (if l \<noteq> AvlNull then l else r)"
    with False have "c \<noteq> AvlNull" by auto
    then obtain ck cl cr ch where c: "c = AvlNode ck cl cr ch" by (cases c) auto
    have bal: "avl_bal c" "avl_height (AvlNode k l r h) = avl_height c + 1"
      using AvlNode.prems that False avl_height_nonneg [of l] avl_height_nonneg [of r]
      by (auto simp: c_def)
    have "avl_deleteNode (AvlNode k l r h) key = avl_fix_delete c"
      using that False by (auto simp: c_def Let_def)
    with avl_fix_delete_ok [of cl cr ck ch] bal c show ?thesis by auto
  qed
  show ?case
  proof (cases "key = k \<and> (l = AvlNull \<or> r = AvlNull)")
    case True
    then show ?thesis using one by simp
  next
    case False
    then show ?thesis using left right by (meson not_le)
  qed
qed

lemma avl_deleteNode_inorder:
  "avl_deleteNode t key = Inr t' \<Longrightarrow> strict_sorted (avl_inorder t) \<Longrightarrow>
     avl_inorder t' = filter (\<lambda>x. x \<noteq> key) (avl_inorder t)"
proof (induction t arbitrary: t' key)
  case AvlNull
  then show ?case by simp
next
  case (AvlNode k l r h)
  from AvlNode.prems(2) have s: "strict_sorted (avl_inorder l)" "strict_sorted (avl_inorder r)"
    "\<forall>x\<in>set (avl_inorder l). x < k" "\<forall>x\<in>set (avl_inorder r). k < x"
    by (auto simp: strict_sorted_mid)
  consider (less) "key < k" | (gr) "key > k" | (one) "key = k" "l = AvlNull \<or> r = AvlNull"
    | (two) "key = k" "l \<noteq> AvlNull" "r \<noteq> AvlNull" by fastforce
  then show ?case
  proof cases
    case less
    with AvlNode.prems(1) obtain l' where
      l': "avl_deleteNode l key = Inr l'" "avl_fix_delete (AvlNode k l' r h) = Inr t'"
      by (auto simp: bindE_eq_Inr)
    have "key \<notin> set (avl_inorder r)" using less s(4) by auto
    then show ?thesis
      using less AvlNode.IH(1) [OF l'(1) s(1)] avl_inorder_fix_delete [OF l'(2)]
      by simp
  next
    case gr
    with AvlNode.prems(1) obtain r' where
      r': "avl_deleteNode r key = Inr r'" "avl_fix_delete (AvlNode k l r' h) = Inr t'"
      by (auto simp: bindE_eq_Inr)
    have "key \<notin> set (avl_inorder l)" using gr s(3) by auto
    then show ?thesis
      using gr AvlNode.IH(2) [OF r'(1) s(2)] avl_inorder_fix_delete [OF r'(2)]
      by simp
  next
    case one
    then have "key \<notin> set (avl_inorder l)" "key \<notin> set (avl_inorder r)" using s(3,4) by auto
    with one AvlNode.prems(1) show ?thesis
      by (auto simp: Let_def dest!: avl_inorder_fix_delete split: if_splits)
  next
    case two
    define m where "m = hd (avl_inorder r)"
    have r: "avl_inorder r = m # tl (avl_inorder r)" using two by (simp add: m_def)
    from AvlNode.prems(1) two avl_minimumValueNode_ok [of r] obtain r' where
      r': "avl_deleteNode r m = Inr r'" "avl_fix_delete (AvlNode m l r' h) = Inr t'"
      by (auto simp: bindE_eq_Inr m_def)
    have "avl_inorder r' = filter (\<lambda>x. x \<noteq> m) (avl_inorder r)"
      using AvlNode.IH(2) r'(1) s(2) by blast
    also have "\<dots> = filter (\<lambda>x. x \<noteq> m) (m # tl (avl_inorder r))" using r by simp
    also have "\<dots> = tl (avl_inorder r)"
    proof -
      have "strict_sorted (m # tl (avl_inorder r))" using s(2) r by simp
      then have "m \<notin> set (tl (avl_inorder r))" by auto
      then show ?thesis by simp
    qed
    finally have "avl_inorder t' = avl_inorder l @ avl_inorder r"
      using avl_inorder_fix_delete [OF r'(2)] r by simp
    moreover have "key \<notin> set (avl_inorder l)" "key \<notin> set (avl_inorder r)"
      using two(1) s(3,4) by auto
    ultimately show ?thesis using two(1) by simp
  qed
qed

section \<open>Search and the set contract\<close>

lemma avl_search_iff:
  "strict_sorted (avl_inorder t) \<Longrightarrow>
     avl_search t key \<noteq> AvlNull \<longleftrightarrow> key \<in> set (avl_inorder t)"
proof (induction t)
  case AvlNull
  then show ?case by simp
next
  case (AvlNode k l r h)
  then have "\<forall>x\<in>set (avl_inorder l). x < k" "\<forall>x\<in>set (avl_inorder r). k < x"
    by (auto simp: strict_sorted_mid)
  with AvlNode show ?case by (auto simp: strict_sorted_mid)
qed

lemma avl_search_key: "avl_search t key = AvlNode k l r h \<Longrightarrow> k = key"
  by (induction t) (auto split: if_splits)

interpretation avl_set: ordered_set_del AvlNull avl_insert
  "\<lambda>t k. avl_search t k \<noteq> AvlNull" avl_inorder avl_inv avl_deleteNode
proof (unfold_locales, goal_cases)
  case (4 t k)
  then obtain t' where "avl_insert t k = Inr t'" "avl_bal t'"
    using avl_insert_bal avl_inv_def by blast
  with 4 show ?case using avl_insert_inorder by (auto simp: avl_inv_def)
next
  case (6 t k)
  then obtain t' where t': "avl_deleteNode t k = Inr t'" "avl_bal t'"
    using avl_deleteNode_bal avl_inv_def by blast
  with 6 have "avl_inorder t' = filter (\<lambda>x. x \<noteq> k) (avl_inorder t)"
    using avl_deleteNode_inorder avl_inv_def by blast
  with 6 t' show ?case by (auto simp: avl_inv_def sorted_wrt_filter)
qed (auto simp: avl_inv_def avl_search_iff)

text \<open>
  C1. Insertion into a well-formed AVL tree never dereferences \<^verbatim>\<open>NULL\<close>, keeps the search
  order, the cached heights and the balance of every node, and adds exactly the inserted key; the
  height grows by at most one.
\<close>

theorem avl_insert_correct:
  assumes "avl_inv t"
  shows "\<exists>t'. avl_insert t key = Inr t' \<and> avl_inv t'
     \<and> set (avl_inorder t') = insert key (set (avl_inorder t))
     \<and> (avl_height t' = avl_height t \<or> avl_height t' = avl_height t + 1)"
proof -
  from assms have "avl_bal t" by (simp add: avl_inv_def)
  from avl_insert_bal [OF this, of key] avl_set.insert_ok [OF assms, of key]
  show ?thesis by auto
qed

theorem avl_insert_correct_witness:
  "avl_inv (AvlNode 10 AvlNull (AvlNode 30 AvlNull AvlNull 1) 2)
   \<and> avl_insert (AvlNode 10 AvlNull (AvlNode 30 AvlNull AvlNull 1) 2) 20
      = Inr (AvlNode 20 (AvlNode 10 AvlNull AvlNull 1) (AvlNode 30 AvlNull AvlNull 1) 2)
   \<and> avl_inv (AvlNode 20 (AvlNode 10 AvlNull AvlNull 1) (AvlNode 30 AvlNull AvlNull 1) 2)"
proof -
  have h: "avl_inv (AvlNode 10 AvlNull (AvlNode 30 AvlNull AvlNull 1) 2)"
    by (simp add: avl_inv_def)
  show ?thesis
    using h avl_insert_correct [OF h, of 20]
    by (simp add: avl_createNode_def avl_fix_insert_def Let_def)
qed

text \<open>
  C2. Deletion from a well-formed AVL tree never dereferences \<^verbatim>\<open>NULL\<close>, keeps the tree
  well-formed, and the in-order key sequence of the result is that of the argument with the
  deleted key removed; afterwards a search for the key fails.
\<close>

theorem avl_delete_correct:
  assumes "avl_inv t"
  shows "\<exists>t'. avl_deleteNode t key = Inr t' \<and> avl_inv t'
     \<and> avl_inorder t' = filter (\<lambda>x. x \<noteq> key) (avl_inorder t)
     \<and> avl_search t' key = AvlNull"
  using avl_set.delete_keys [OF assms, of key] avl_set.delete_then_member [OF assms] by blast

theorem avl_delete_correct_witness:
  "avl_inv (AvlNode 20 (AvlNode 10 AvlNull AvlNull 1) (AvlNode 30 AvlNull AvlNull 1) 2)
   \<and> avl_deleteNode (AvlNode 20 (AvlNode 10 AvlNull AvlNull 1) (AvlNode 30 AvlNull AvlNull 1) 2) 20
      = Inr (AvlNode 30 (AvlNode 10 AvlNull AvlNull 1) AvlNull 2)"
proof -
  have h: "avl_inv (AvlNode 20 (AvlNode 10 AvlNull AvlNull 1) (AvlNode 30 AvlNull AvlNull 1) 2)"
    by (simp add: avl_inv_def)
  show ?thesis using h avl_delete_correct [OF h, of 20] by (simp add: Let_def)
qed

text \<open>
  The program as a whole: for any input values, \<^verbatim>\<open>main\<close> builds the tree and deletes
  without a fault, the tree it builds lists the distinct input values in ascending order, and the
  search of the second phase succeeds exactly for the values that were entered.
\<close>

theorem avl_main_ok:
  "\<exists>out root root'. avl_main vs s d = Inr out
     \<and> foldE avl_insert vs AvlNull = Inr root
     \<and> avl_inorder root = sorted_list_of_set (set vs)
     \<and> (avl_search root s \<noteq> AvlNull \<longleftrightarrow> s \<in> set vs)
     \<and> avl_deleteNode root d = Inr root'
     \<and> avl_inorder root' = filter (\<lambda>x. x \<noteq> d) (sorted_list_of_set (set vs))"
proof -
  from avl_set.build_keys [of vs] obtain root where
    r: "foldE avl_insert vs AvlNull = Inr root" "avl_inv root"
    "avl_inorder root = sorted_list_of_set (set vs)" by blast
  from avl_set.delete_keys [OF r(2), of d] obtain root' where
    "avl_deleteNode root d = Inr root'" "avl_inorder root' = filter (\<lambda>x. x \<noteq> d) (avl_inorder root)"
    by blast
  with r avl_set.build_member [OF r(1)] show ?thesis by (simp add: avl_main_def)
qed

end
