(* ===== verification/PageSim.thy ===== *)
theory PageSim
  imports Interfaces
begin

text \<open>
  The page-replacement simulators: \<^verbatim>\<open>ARC/page_cache_simulator_using_lru_clock_arc.c\<close> (LRU, CLOCK
  and a simplified ARC) and \<^verbatim>\<open>BUFFERPOOL_PAGE_REPLACEMENT\<close> (\<^verbatim>\<open>lru.c\<close>, \<^verbatim>\<open>clock.c\<close> and the
  round-robin pool of \<^verbatim>\<open>buffer_pool.c\<close>). Each simulator is a step function on its frame tables, run
  over the request string; \<open>-1\<close> marks an empty frame, as in the code.
\<close>

section \<open>The code\<close>

definition ps_MAX_FRAMES :: nat where
  "ps_MAX_FRAMES = 3"

definition ps_pages :: "int list" where
  "ps_pages = [1, 2, 3, 4, 1, 2, 5, 1, 2, 3, 4, 5]"

subsection \<open>The request loop\<close>

text \<open>One pass over the requests: the step, then the line that the program prints for it.\<close>

primrec ps_loop ::
  "('s \<Rightarrow> int \<Rightarrow> ('s \<times> bool) res) \<Rightarrow> (nat \<Rightarrow> int \<Rightarrow> 's \<Rightarrow> bool \<Rightarrow> outs) \<Rightarrow> nat \<Rightarrow> int list \<Rightarrow> 's \<Rightarrow> ('s \<times> outs) res"
  where
    "ps_loop step line i [] s = Inr (s, [])"
  | "ps_loop step line i (page # pages) s =
       bindE (step s page) (\<lambda>(s', hit).
       bindE (ps_loop step line (Suc i) pages s') (\<lambda>(s'', out).
       Inr (s'', line i page s' hit @ out)))"

definition ps_frames_out :: "int list \<Rightarrow> outs" where
  "ps_frames_out buffer = concat (map (\<lambda>b. if b = -1 then [Txt ''- ''] else [Num b, Txt '' '']) buffer)"

definition arc_line :: "nat \<Rightarrow> int \<Rightarrow> int list \<Rightarrow> bool \<Rightarrow> outs" where
  "arc_line i page buffer hit =
     [Txt ''Step '', Num (int i + 1), Txt '' (Page '', Num page, Txt ''): '']
     @ ps_frames_out buffer @ [Txt (if hit then ''-> HIT\<newline>'' else ''-> MISS\<newline>'')]"

definition arc_totals :: "int \<Rightarrow> int \<Rightarrow> int \<Rightarrow> outs" where
  "arc_totals hits misses n =
     [Txt ''\<newline>Total Hits: '', Num hits, Txt ''\<newline>Total Misses: '', Num misses,
      Txt ''\<newline>Hit Ratio: '', Quot hits n, Txt ''\<newline>'']"

subsection \<open>LRU\<close>

record lru_state =
  lru_buffer :: "int list"
  lru_time :: "int list"
  lru_hits :: int
  lru_misses :: int
  lru_counter :: int

definition lru_init :: lru_state where
  "lru_init = \<lparr>lru_buffer = replicate ps_MAX_FRAMES (-1), lru_time = replicate ps_MAX_FRAMES 0,
     lru_hits = 0, lru_misses = 0, lru_counter = 0\<rparr>"

text \<open>The loops without a \<^verbatim>\<open>break\<close> keep the last matching index; those with one, the first.\<close>

definition arc_find_last :: "int list \<Rightarrow> int \<Rightarrow> int" where
  "arc_find_last buffer page =
     fold (\<lambda>j found. if buffer ! j = page then int j else found) [0..<ps_MAX_FRAMES] (-1)"

fun bp_findpage :: "int list \<Rightarrow> int \<Rightarrow> nat \<Rightarrow> int" where
  "bp_findpage [] page i = -1"
| "bp_findpage (b # bs) page i = (if b = page then int i else bp_findpage bs page (Suc i))"

definition ps_lru_victim :: "int list \<Rightarrow> nat" where
  "ps_lru_victim time =
     fold (\<lambda>j lru. if time ! j < time ! lru then j else lru) [1..<ps_MAX_FRAMES] 0"

definition ps_lru_place :: "nat \<Rightarrow> int \<Rightarrow> lru_state \<Rightarrow> lru_state" where
  "ps_lru_place j page s = s\<lparr>lru_buffer := (lru_buffer s)[j := page],
     lru_time := (lru_time s)[j := lru_counter s + 1], lru_counter := lru_counter s + 1\<rparr>"

definition arc_lru_step :: "lru_state \<Rightarrow> int \<Rightarrow> (lru_state \<times> bool) res" where
  "arc_lru_step s page =
     (let found = arc_find_last (lru_buffer s) page
      in if found \<noteq> -1
         then Inr (s\<lparr>lru_hits := lru_hits s + 1,
                     lru_time := (lru_time s)[nat found := lru_counter s + 1],
                     lru_counter := lru_counter s + 1\<rparr>, True)
         else let s1 = s\<lparr>lru_misses := lru_misses s + 1\<rparr>;
                  empty = arc_find_last (lru_buffer s1) (-1)
              in if empty \<noteq> -1 then Inr (ps_lru_place (nat empty) page s1, False)
                 else Inr (ps_lru_place (ps_lru_victim (lru_time s1)) page s1, False))"

definition arc_simulateLRU :: "int list \<Rightarrow> outs res" where
  "arc_simulateLRU pages =
     bindE (ps_loop arc_lru_step (\<lambda>i page s hit. arc_line i page (lru_buffer s) hit) 0 pages lru_init)
       (\<lambda>(s, out). Inr ([Txt ''\<newline>===== LRU Page Replacement =====\<newline>\<newline>''] @ out
         @ arc_totals (lru_hits s) (lru_misses s) (int (length pages))))"

definition bp_lru_step :: "lru_state \<Rightarrow> int \<Rightarrow> (lru_state \<times> bool) res" where
  "bp_lru_step s page =
     (let pos = bp_findpage (lru_buffer s) page 0
      in if pos \<noteq> -1
         then Inr (s\<lparr>lru_hits := lru_hits s + 1,
                     lru_time := (lru_time s)[nat pos := lru_counter s + 1],
                     lru_counter := lru_counter s + 1\<rparr>, True)
         else let s1 = s\<lparr>lru_misses := lru_misses s + 1\<rparr>;
                  empty = bp_findpage (lru_buffer s1) (-1) 0
              in if empty \<noteq> -1 then Inr (ps_lru_place (nat empty) page s1, False)
                 else Inr (ps_lru_place (ps_lru_victim (lru_time s1)) page s1, False))"

definition bp_printBuffer :: "int list \<Rightarrow> outs" where
  "bp_printBuffer buffer = [Txt ''Buffer: ''] @ ps_frames_out buffer @ [Txt ''\<newline>'']"

definition bp_lru_line :: "nat \<Rightarrow> int \<Rightarrow> lru_state \<Rightarrow> bool \<Rightarrow> outs" where
  "bp_lru_line i page s hit =
     [Txt ''Requesting page '', Num page, Txt '' -> '']
     @ (if hit then [Txt ''HIT\<newline>'']
        else [Txt ''MISS (Loaded '', Num page, Txt '' into buffer)\<newline>''])
     @ bp_printBuffer (lru_buffer s)"

definition bp_simulateLRU :: "int list \<Rightarrow> outs res" where
  "bp_simulateLRU pages =
     bindE (ps_loop bp_lru_step bp_lru_line 0 pages lru_init)
       (\<lambda>(s, out). Inr ([Txt ''=== LRU Page Replacement Simulation ===\<newline>''] @ out
         @ [Txt ''\<newline>=== Simulation Summary ===\<newline>'',
            Txt ''Total Page Requests: '', Num (int (length pages)), Txt ''\<newline>'',
            Txt ''Total Hits: '', Num (lru_hits s), Txt ''\<newline>'',
            Txt ''Total Misses: '', Num (lru_misses s), Txt ''\<newline>'',
            Txt ''Hit Ratio: '', Quot (lru_hits s * 100) (int (length pages)), Txt ''%\<newline>'',
            Txt ''Miss Ratio: '', Quot (lru_misses s * 100) (int (length pages)), Txt ''%\<newline>'']))"

subsection \<open>CLOCK\<close>

record clock_state =
  clk_buffer :: "int list"
  clk_refBit :: "int list"
  clk_pointer :: nat
  clk_hits :: int
  clk_misses :: int

definition clock_init :: clock_state where
  "clock_init = \<lparr>clk_buffer = replicate ps_MAX_FRAMES (-1), clk_refBit = replicate ps_MAX_FRAMES 0,
     clk_pointer = 0, clk_hits = 0, clk_misses = 0\<rparr>"

text \<open>
  The \<^verbatim>\<open>while (1)\<close> loop that looks for a frame whose reference bit is clear, clearing the bits it
  passes. Each pass over a set bit clears it, so the loop ends.
\<close>

function clock_sweep :: "int list \<Rightarrow> nat \<Rightarrow> (int list \<times> nat) res" where
  "clock_sweep refBit pointer =
     (if length refBit \<le> pointer then Inl OutOfBounds
      else if refBit ! pointer = 0 then Inr (refBit, pointer)
      else clock_sweep (refBit[pointer := 0]) ((pointer + 1) mod ps_MAX_FRAMES))"
  by pat_completeness auto

lemma length_filter_clear:
  assumes "p < length xs" and "xs ! p \<noteq> (0::int)"
  shows "length (filter (\<lambda>b. b \<noteq> 0) (xs[p := 0])) < length (filter (\<lambda>b. b \<noteq> 0) xs)"
proof -
  have "mset (filter (\<lambda>b. b \<noteq> 0) (xs[p := 0])) = filter_mset (\<lambda>b. b \<noteq> 0) (mset xs - {# xs ! p #})"
    using assms by (simp add: mset_update)
  also have "\<dots> = mset (filter (\<lambda>b. b \<noteq> 0) xs) - {# xs ! p #}"
    using assms by simp
  finally have "size (mset (filter (\<lambda>b. b \<noteq> 0) (xs[p := 0])))
      = size (mset (filter (\<lambda>b. b \<noteq> 0) xs) - {# xs ! p #})" by simp
  moreover have "xs ! p \<in># mset (filter (\<lambda>b. b \<noteq> 0) xs)" using assms by simp
  ultimately show ?thesis
    using size_Diff1_less by (metis size_mset)
qed

termination clock_sweep
  by (relation "measure (\<lambda>(refBit, pointer). length (filter (\<lambda>b. b \<noteq> 0) refBit))")
    (auto simp: length_filter_clear)

declare clock_sweep.simps [simp del]

definition clock_step :: "clock_state \<Rightarrow> int \<Rightarrow> (clock_state \<times> bool) res" where
  "clock_step s page =
     (let found = bp_findpage (clk_buffer s) page 0
      in if found \<noteq> -1
         then Inr (s\<lparr>clk_refBit := (clk_refBit s)[nat found := 1], clk_hits := clk_hits s + 1\<rparr>, True)
         else bindE (clock_sweep (clk_refBit s) (clk_pointer s)) (\<lambda>(refBit, pointer).
              Inr (s\<lparr>clk_buffer := (clk_buffer s)[pointer := page],
                     clk_refBit := refBit[pointer := 1],
                     clk_pointer := (pointer + 1) mod ps_MAX_FRAMES,
                     clk_misses := clk_misses s + 1\<rparr>, False)))"

definition arc_simulateClock :: "int list \<Rightarrow> outs res" where
  "arc_simulateClock pages =
     bindE (ps_loop clock_step (\<lambda>i page s hit. arc_line i page (clk_buffer s) hit) 0 pages clock_init)
       (\<lambda>(s, out). Inr ([Txt ''\<newline>===== CLOCK Page Replacement =====\<newline>\<newline>''] @ out
         @ arc_totals (clk_hits s) (clk_misses s) (int (length pages))))"

definition bp_clock_line :: "nat \<Rightarrow> int \<Rightarrow> clock_state \<Rightarrow> bool \<Rightarrow> outs" where
  "bp_clock_line i page s hit =
     [Txt ''Request '', Num page, Txt '' -> '']
     @ concat (map (\<lambda>b. if b \<noteq> -1 then [Num b] else []) (clk_buffer s)) @ [Txt ''\<newline>'']"

definition bp_simulateClock :: "int list \<Rightarrow> outs res" where
  "bp_simulateClock pages =
     bindE (ps_loop clock_step bp_clock_line 0 pages clock_init)
       (\<lambda>(s, out). Inr ([Txt ''Clock: \<newline>''] @ out
         @ arc_totals (clk_hits s) (clk_misses s) (clk_hits s + clk_misses s)))"

subsection \<open>The simplified ARC\<close>

record ARC =
  arc_T1 :: "int list"
  arc_T2 :: "int list"
  arc_B1 :: "int list"
  arc_B2 :: "int list"
  arc_t1Size :: int
  arc_t2Size :: int
  arc_b1Size :: int
  arc_b2Size :: int
  arc_hits :: int
  arc_misses :: int

definition arc_init :: ARC where
  "arc_init = \<lparr>arc_T1 = replicate ps_MAX_FRAMES 0, arc_T2 = replicate ps_MAX_FRAMES 0,
     arc_B1 = replicate ps_MAX_FRAMES 0, arc_B2 = replicate ps_MAX_FRAMES 0,
     arc_t1Size = 0, arc_t2Size = 0, arc_b1Size = 0, arc_b2Size = 0, arc_hits = 0, arc_misses = 0\<rparr>"

definition arc_contains :: "int list \<Rightarrow> int \<Rightarrow> int \<Rightarrow> bool res" where
  "arc_contains arr sz page = arr_any (\<lambda>v. v = page) arr [0..sz - 1]"

definition arc_removeFirst :: "int list \<Rightarrow> int \<Rightarrow> (int list \<times> int) res" where
  "arc_removeFirst arr sz =
     bindE (foldE (\<lambda>a i. bindE (arr_get a i) (\<lambda>v. arr_set a (i - 1) v)) [1..sz - 1] arr)
       (\<lambda>a. Inr (a, sz - 1))"

definition arc_addLast :: "int list \<Rightarrow> int \<Rightarrow> int \<Rightarrow> (int list \<times> int) res" where
  "arc_addLast arr sz page = bindE (arr_set arr sz page) (\<lambda>a. Inr (a, sz + 1))"

text \<open>The loop of the hit branch that takes the page out of \<open>T1\<close>.\<close>

primrec arc_take_out :: "int list \<Rightarrow> int \<Rightarrow> int \<Rightarrow> int list \<Rightarrow> (int list \<times> int) res" where
  "arc_take_out arr sz page [] = Inr (arr, sz)"
| "arc_take_out arr sz page (j # js) =
     bindE (arr_get arr j) (\<lambda>v.
       if v = page then bindE (arr_shl arr j sz) (\<lambda>a. Inr (a, sz - 1))
       else arc_take_out arr sz page js)"

definition arc_hit :: "ARC \<Rightarrow> int \<Rightarrow> ARC res" where
  "arc_hit s page =
     (let s1 = s\<lparr>arc_hits := arc_hits s + 1\<rparr>
      in bindE (arc_contains (arc_T1 s1) (arc_t1Size s1) page) (\<lambda>inT1.
         if inT1 then
           bindE (arc_take_out (arc_T1 s1) (arc_t1Size s1) page [0..arc_t1Size s1 - 1]) (\<lambda>(T1, t1).
           bindE (arc_addLast (arc_T2 s1) (arc_t2Size s1) page) (\<lambda>(T2, t2).
           Inr (s1\<lparr>arc_T1 := T1, arc_t1Size := t1, arc_T2 := T2, arc_t2Size := t2\<rparr>)))
         else Inr s1))"

definition arc_removeT1 :: "ARC \<Rightarrow> ARC res" where
  "arc_removeT1 s = bindE (arc_removeFirst (arc_T1 s) (arc_t1Size s))
     (\<lambda>(a, n). Inr (s\<lparr>arc_T1 := a, arc_t1Size := n\<rparr>))"

definition arc_removeT2 :: "ARC \<Rightarrow> ARC res" where
  "arc_removeT2 s = bindE (arc_removeFirst (arc_T2 s) (arc_t2Size s))
     (\<lambda>(a, n). Inr (s\<lparr>arc_T2 := a, arc_t2Size := n\<rparr>))"

definition arc_removeB1 :: "ARC \<Rightarrow> ARC res" where
  "arc_removeB1 s = bindE (arc_removeFirst (arc_B1 s) (arc_b1Size s))
     (\<lambda>(a, n). Inr (s\<lparr>arc_B1 := a, arc_b1Size := n\<rparr>))"

definition arc_addT1 :: "int \<Rightarrow> ARC \<Rightarrow> ARC res" where
  "arc_addT1 page s = bindE (arc_addLast (arc_T1 s) (arc_t1Size s) page)
     (\<lambda>(a, n). Inr (s\<lparr>arc_T1 := a, arc_t1Size := n\<rparr>))"

definition arc_miss :: "ARC \<Rightarrow> int \<Rightarrow> ARC res" where
  "arc_miss s0 page =
     (let s = s0\<lparr>arc_misses := arc_misses s0 + 1\<rparr>;
          F = int ps_MAX_FRAMES
      in bindE (if arc_t1Size s + arc_b1Size s = F
                then (if arc_t1Size s < F then arc_removeB1 s else arc_removeT1 s)
                else Inr s) (\<lambda>s1.
         if arc_t1Size s1 + arc_t2Size s1 < F then arc_addT1 page s1
         else if arc_t2Size s1 < F then bindE (arc_removeT2 s1) (arc_addT1 page)
         else bindE (arc_removeT1 s1) (arc_addT1 page)))"

definition arc_step :: "ARC \<Rightarrow> int \<Rightarrow> (ARC \<times> bool) res" where
  "arc_step s page =
     bindE (arc_contains (arc_T1 s) (arc_t1Size s) page) (\<lambda>c1.
     bindE (if c1 then Inr True else arc_contains (arc_T2 s) (arc_t2Size s) page) (\<lambda>c.
       if c then bindE (arc_hit s page) (\<lambda>s'. Inr (s', True))
       else bindE (arc_miss s page) (\<lambda>s'. Inr (s', False))))"

definition arc_printARC :: "ARC \<Rightarrow> outs" where
  "arc_printARC s =
     [Txt ''T1: ''] @ concat (map (\<lambda>v. [Num v, Txt '' '']) (take (nat (arc_t1Size s)) (arc_T1 s)))
     @ [Txt ''| T2: ''] @ concat (map (\<lambda>v. [Num v, Txt '' '']) (take (nat (arc_t2Size s)) (arc_T2 s)))
     @ [Txt ''\<newline>'']"

definition arc_arc_line :: "nat \<Rightarrow> int \<Rightarrow> ARC \<Rightarrow> bool \<Rightarrow> outs" where
  "arc_arc_line i page s hit =
     [Txt ''Step '', Num (int i + 1), Txt '' (Page '', Num page,
      Txt (if hit then ''): HIT | '' else ''): MISS | '')] @ arc_printARC s"

definition arc_simulateARC :: "int list \<Rightarrow> outs res" where
  "arc_simulateARC pages =
     bindE (ps_loop arc_step arc_arc_line 0 pages arc_init)
       (\<lambda>(s, out). Inr ([Txt ''\<newline>===== ARC Page Replacement (Simplified) =====\<newline>\<newline>''] @ out
         @ arc_totals (arc_hits s) (arc_misses s) (int (length pages))))"

definition arc_main :: "outs res" where
  "arc_main =
     bindE (arc_simulateLRU ps_pages) (\<lambda>o1.
     bindE (arc_simulateClock ps_pages) (\<lambda>o2.
     bindE (arc_simulateARC ps_pages) (\<lambda>o3. Inr (o1 @ o2 @ o3))))"

subsection \<open>The round-robin buffer pool\<close>

record pool_state =
  pool_buffer :: "int list"
  pool_size :: int
  pool_next :: int

definition pool_MAAX_PAGES :: nat where
  "pool_MAAX_PAGES = 10"

definition pool_isPageInBuffer :: "pool_state \<Rightarrow> int \<Rightarrow> bool res" where
  "pool_isPageInBuffer s page = arr_any (\<lambda>v. v = page) (pool_buffer s) [0..pool_size s - 1]"

definition pool_printBuffer :: "pool_state \<Rightarrow> outs" where
  "pool_printBuffer s =
     [Txt ''Buffer elements\<newline>''] @ ps_frames_out (take (nat (pool_size s)) (pool_buffer s)) @ [Txt ''\<newline>'']"

definition pool_step :: "pool_state \<Rightarrow> int \<Rightarrow> (pool_state \<times> bool) res" where
  "pool_step s page =
     bindE (pool_isPageInBuffer s page) (\<lambda>found.
       if found then Inr (s, True)
       else bindE (arr_set (pool_buffer s) (pool_next s) page) (\<lambda>b.
            if pool_size s = 0 then Inl DivByZero
            else Inr (s\<lparr>pool_buffer := b, pool_next := (pool_next s + 1) smod pool_size s\<rparr>, False)))"

definition pool_line :: "nat \<Rightarrow> int \<Rightarrow> pool_state \<Rightarrow> bool \<Rightarrow> outs" where
  "pool_line i page s hit =
     [Txt ''Requesting page '', Num page, Txt ''->'',
      Txt (if hit then ''HIT\<newline>'' else ''MISS (Loading into buffer)\<newline>'')] @ pool_printBuffer s"

text \<open>
  \<^verbatim>\<open>main\<close>: the pages typed in go to the array \<open>pages\<close> of 20 cells (whose first contents are the
  argument \<open>pages0\<close>), the first \<open>buffer_size\<close> cells of the global \<open>buffer\<close> are emptied, and the
  requests are served.
\<close>

definition pool_init :: "int \<Rightarrow> pool_state res" where
  "pool_init buffer_size =
     bindE (foldE (\<lambda>b i. arr_set b i (-1)) [0..buffer_size - 1] (replicate pool_MAAX_PAGES 0))
       (\<lambda>b. Inr \<lparr>pool_buffer = b, pool_size = buffer_size, pool_next = 0\<rparr>)"

definition pool_read :: "int list \<Rightarrow> int list \<Rightarrow> int list res" where
  "pool_read pages0 typed =
     foldE (\<lambda>a (i, v). arr_set a i v) (zip [0..int (length typed) - 1] typed) pages0"

definition pool_main :: "int list \<Rightarrow> int list \<Rightarrow> int \<Rightarrow> outs res" where
  "pool_main pages0 typed buffer_size =
     bindE (pool_read pages0 typed) (\<lambda>pages.
     bindE (pool_init buffer_size) (\<lambda>s.
     bindE (ps_loop pool_step pool_line 0 (take (length typed) pages) s) (\<lambda>(s', out).
     Inr ([Txt ''Enter number of pages:'', Txt ''Enter '', Num (int (length typed)),
           Txt '' pages into the pool:\<newline>'', Txt ''Enter bufferpool size:''] @ out))))"

section \<open>The request loop\<close>

lemma ps_loop_serve:
  "ps_loop step line i pages s = Inr (s', out) \<Longrightarrow> foldE (serve step) pages s = Inr s'"
  by (induction pages arbitrary: i s out) (auto simp: bindE_eq_Inr serve_def split: prod.splits)

lemma ps_loop_total:
  "foldE (serve step) pages s = Inr s' \<Longrightarrow> \<exists>out. ps_loop step line i pages s = Inr (s', out)"
proof (induction pages arbitrary: i s)
  case (Cons page pages)
  from Cons.prems obtain s1 hit where s1: "step s page = Inr (s1, hit)" "foldE (serve step) pages s1 = Inr s'"
    by (auto simp: bindE_eq_Inr serve_def [of step s page] split: prod.splits)
  from Cons.IH [OF s1(2)] obtain out where "ps_loop step line (Suc i) pages s1 = Inr (s', out)" by blast
  with s1 show ?case by simp
qed simp

section \<open>LRU replacement\<close>

text \<open>
  The abstract policy: the resident pages are a list, most recently used first; a request moves its
  page to the front and the list is cut to the number of frames.
\<close>

definition lru_spec_step :: "nat \<Rightarrow> int list \<Rightarrow> int \<Rightarrow> int list" where
  "lru_spec_step n xs p = take n (p # removeAll p xs)"

fun lru_spec :: "nat \<Rightarrow> int list \<Rightarrow> int list \<Rightarrow> int list \<times> int \<times> int" where
  "lru_spec n xs [] = (xs, 0, 0)"
| "lru_spec n xs (p # ps) =
     (let (ys, h, m) = lru_spec n (lru_spec_step n xs p) ps
      in (ys, if p \<in> set xs then h + 1 else h, if p \<in> set xs then m else m + 1))"

text \<open>
  The simulation relation: the occupied frames, sorted by decreasing time stamp, hold the abstract
  list.
\<close>

definition lru_rel :: "lru_state \<Rightarrow> int list \<Rightarrow> bool" where
  "lru_rel s xs \<longleftrightarrow>
     length (lru_buffer s) = ps_MAX_FRAMES \<and> length (lru_time s) = ps_MAX_FRAMES
     \<and> distinct xs \<and> (\<forall>j<ps_MAX_FRAMES. lru_time s ! j \<le> lru_counter s)
     \<and> (\<exists>is. distinct is \<and> set is = {j. j < ps_MAX_FRAMES \<and> lru_buffer s ! j \<noteq> -1}
          \<and> map ((!) (lru_buffer s)) is = xs
          \<and> sorted_wrt (\<lambda>i j. lru_time s ! j < lru_time s ! i) is)"

lemma lru_rel_init: "lru_rel lru_init []"
  by (simp add: lru_rel_def lru_init_def ps_MAX_FRAMES_def)

lemma lru_rel_set:
  assumes "lru_rel s xs"
  shows "set xs = set (lru_buffer s) - {-1}"
proof -
  from assms obtain "is" where "is": "set is = {j. j < ps_MAX_FRAMES \<and> lru_buffer s ! j \<noteq> -1}"
      "map ((!) (lru_buffer s)) is = xs" and len: "length (lru_buffer s) = ps_MAX_FRAMES"
    unfolding lru_rel_def by blast
  have "set xs = (!) (lru_buffer s) ` {j. j < ps_MAX_FRAMES \<and> lru_buffer s ! j \<noteq> -1}"
    by (simp flip: "is"(1) "is"(2))
  also have "\<dots> = (!) (lru_buffer s) ` {0..<length (lru_buffer s)} - {-1}"
    using len by auto
  also have "\<dots> = set (lru_buffer s) - {-1}"
    by (simp add: nth_image)
  finally show ?thesis .
qed

lemma lru_rel_place:
  assumes rel: "lru_rel s xs" and j: "j < ps_MAX_FRAMES" and p: "p \<noteq> -1"
    and fresh: "p \<notin> set xs \<or> lru_buffer s ! j = p"
  shows "lru_rel (ps_lru_place j p s) (p # removeAll (lru_buffer s ! j) xs)"
proof -
  let ?b = "lru_buffer s" and ?t = "lru_time s" and ?c = "lru_counter s"
  from rel obtain "is" where "is": "distinct is" "set is = {j. j < ps_MAX_FRAMES \<and> ?b ! j \<noteq> -1}"
      "map ((!) ?b) is = xs" "sorted_wrt (\<lambda>i j. ?t ! j < ?t ! i) is"
    and len: "length ?b = ps_MAX_FRAMES" "length ?t = ps_MAX_FRAMES"
    and dx: "distinct xs" and tc: "\<forall>j<ps_MAX_FRAMES. ?t ! j \<le> ?c"
    unfolding lru_rel_def by blast
  let ?is = "j # removeAll j is"
  have inj: "?b ! i = ?b ! j \<longleftrightarrow> i = j" if i: "i \<in> set is" for i
  proof (cases "j \<in> set is")
    case True
    have "inj_on ((!) ?b) (set is)" using dx by (simp add: distinct_map flip: "is"(3))
    then show ?thesis using i True by (simp add: inj_on_eq_iff)
  next
    case False
    then have "?b ! j = -1" using "is"(2) j by simp
    moreover have "?b ! i \<noteq> -1" using i "is"(2) by simp
    ultimately show ?thesis by auto
  qed
  have "map ((!) (?b[j := p])) (removeAll j is) = map ((!) ?b) (removeAll j is)"
    by (rule map_cong) auto
  also have "\<dots> = removeAll (?b ! j) xs"
    unfolding "is"(3) [symmetric] removeAll_filter_not_eq filter_map comp_def
    using inj by (intro arg_cong [of _ _ "map _"] filter_cong) metis+
  finally have m: "map ((!) (?b[j := p])) ?is = p # removeAll (?b ! j) xs"
    using j len by simp
  have "\<forall>i\<in>set (removeAll j is). ?t ! i < ?c + 1 \<and> i \<noteq> j" using tc "is" by fastforce
  moreover have "sorted_wrt (\<lambda>i k. ?t ! k < ?t ! i) (removeAll j is)"
    using "is"(4) by (simp add: removeAll_filter_not_eq sorted_wrt_filter)
  then have "sorted_wrt (\<lambda>i k. ?t[j := ?c + 1] ! k < ?t[j := ?c + 1] ! i) (removeAll j is)"
    by (rule sorted_wrt_mono_rel [rotated]) auto
  ultimately have so: "sorted_wrt (\<lambda>i k. ?t[j := ?c + 1] ! k < ?t[j := ?c + 1] ! i) ?is"
    using j len by simp
  have st: "set ?is = {i. i < ps_MAX_FRAMES \<and> ?b[j := p] ! i \<noteq> -1}"
    using "is"(2) j p len by (auto simp: nth_list_update)
  have "distinct ?is" using "is"(1) by (simp add: distinct_removeAll)
  moreover have "distinct (p # removeAll (?b ! j) xs)"
    using dx fresh by (auto simp: distinct_removeAll)
  moreover have "\<forall>i<ps_MAX_FRAMES. ?t[j := ?c + 1] ! i \<le> ?c + 1"
  proof (intro allI impI)
    fix i
    assume "i < ps_MAX_FRAMES"
    with tc have "?t ! i \<le> ?c" by blast
    then show "?t[j := ?c + 1] ! i \<le> ?c + 1" using j len by (cases "i = j") simp_all
  qed
  ultimately show ?thesis
    unfolding lru_rel_def ps_lru_place_def using len
    by (simp del: removeAll.simps list.map) (intro exI [of _ ?is] conjI m so st; simp)
qed

lemma length_3_cases:
  assumes "length xs = ps_MAX_FRAMES"
  obtains a b c where "xs = [a, b, c]"
  using assms by (auto simp: ps_MAX_FRAMES_def numeral_3_eq_3 length_Suc_conv)

lemma ps_lru_victim_min:
  assumes "length time = ps_MAX_FRAMES"
  shows "ps_lru_victim time < ps_MAX_FRAMES \<and> (\<forall>i<ps_MAX_FRAMES. time ! ps_lru_victim time \<le> time ! i)"
proof -
  obtain a b c where "time = [a, b, c]" using assms by (rule length_3_cases)
  then show ?thesis
    by (auto simp: ps_lru_victim_def ps_MAX_FRAMES_def upt_rec less_Suc_eq numeral_3_eq_3)
qed

text \<open>When every frame is occupied, the frame with the least time stamp holds the last page of the list.\<close>

lemma lru_rel_full:
  assumes rel: "lru_rel s xs" and full: "-1 \<notin> set (lru_buffer s)"
  shows "length xs = ps_MAX_FRAMES \<and> lru_buffer s ! ps_lru_victim (lru_time s) = last xs"
proof -
  let ?b = "lru_buffer s" and ?t = "lru_time s"
  from rel obtain "is" where "is": "distinct is" "set is = {j. j < ps_MAX_FRAMES \<and> ?b ! j \<noteq> -1}"
      "map ((!) ?b) is = xs" "sorted_wrt (\<lambda>i j. ?t ! j < ?t ! i) is"
    and len: "length ?b = ps_MAX_FRAMES" "length ?t = ps_MAX_FRAMES"
    unfolding lru_rel_def by blast
  have "?b ! j \<noteq> -1" if "j < ps_MAX_FRAMES" for j
    using that full len by (metis nth_mem)
  then have st: "set is = {..<ps_MAX_FRAMES}" using "is"(2) by blast
  have li: "length is = ps_MAX_FRAMES"
    using distinct_card [OF "is"(1)] st by simp
  then have ne: "is \<noteq> []" by (auto simp: ps_MAX_FRAMES_def)
  let ?v = "ps_lru_victim ?t"
  have v: "?v < ps_MAX_FRAMES" "?t ! ?v \<le> ?t ! last is"
    using ps_lru_victim_min [OF len(2)] st last_in_set [OF ne] by auto
  have "?v \<in> set (butlast is) \<or> ?v = last is"
    using v(1) st ne by (metis append_butlast_last_id lessThan_iff set_ConsD
        list.set(1) empty_iff Un_iff set_append)
  moreover have "?t ! last is < ?t ! i" if "i \<in> set (butlast is)" for i
    using "is"(4) that ne by (metis append_butlast_last_id sorted_wrt_append list.set_intros(1))
  ultimately have "?v = last is" using v(2) by force
  then show ?thesis using li ne "is"(3) by (auto simp: last_map)
qed

lemma lru_rel_not_full:
  assumes rel: "lru_rel s xs" and e: "-1 \<in> set (lru_buffer s)"
  shows "length xs < ps_MAX_FRAMES"
proof -
  from rel have d: "distinct xs" and len: "length (lru_buffer s) = ps_MAX_FRAMES"
    unfolding lru_rel_def by blast+
  have "length xs = card (set (lru_buffer s) - {-1})"
    using distinct_card [OF d] lru_rel_set [OF rel] by simp
  also have "\<dots> < card (set (lru_buffer s))" using e by (intro psubset_card_mono) auto
  also have "\<dots> \<le> ps_MAX_FRAMES" using card_length len by metis
  finally show ?thesis .
qed

lemma lru_rel_length:
  assumes "lru_rel s xs"
  shows "length xs \<le> ps_MAX_FRAMES"
  using lru_rel_full [OF assms] lru_rel_not_full [OF assms] by fastforce

lemma removeAll_last:
  assumes "distinct xs" and "xs \<noteq> []"
  shows "removeAll (last xs) xs = butlast xs"
proof -
  have "xs = butlast xs @ [last xs]" using assms(2) by simp
  moreover from this have "last xs \<notin> set (butlast xs)"
    using assms(1) by (metis distinct_append disjoint_iff list.set_intros(1))
  ultimately show ?thesis by (metis removeAll.simps(2) removeAll_append removeAll_id append_Nil2)
qed

text \<open>
  The two programs differ in how they search the frame table (last or first match). The contract of
  the search is enough for the refinement.
\<close>

locale frame_lookup =
  fixes find :: "int list \<Rightarrow> int \<Rightarrow> int"
    and step :: "lru_state \<Rightarrow> int \<Rightarrow> (lru_state \<times> bool) res"
  assumes find_absent: "length b = ps_MAX_FRAMES \<Longrightarrow> p \<notin> set b \<Longrightarrow> find b p = -1"
    and find_present: "length b = ps_MAX_FRAMES \<Longrightarrow> p \<in> set b \<Longrightarrow>
      \<exists>j<ps_MAX_FRAMES. find b p = int j \<and> b ! j = p"
    and step_eq: "step s page =
      (let found = find (lru_buffer s) page
       in if found \<noteq> -1
          then Inr (s\<lparr>lru_hits := lru_hits s + 1,
                      lru_time := (lru_time s)[nat found := lru_counter s + 1],
                      lru_counter := lru_counter s + 1\<rparr>, True)
          else let s1 = s\<lparr>lru_misses := lru_misses s + 1\<rparr>;
                   empty = find (lru_buffer s1) (-1)
               in if empty \<noteq> -1 then Inr (ps_lru_place (nat empty) page s1, False)
                  else Inr (ps_lru_place (ps_lru_victim (lru_time s1)) page s1, False))"
begin

lemma step_hit:
  assumes rel: "lru_rel s xs" and p: "p \<noteq> -1" and in_xs: "p \<in> set xs"
  shows "\<exists>s'. step s p = Inr (s', True) \<and> lru_rel s' (lru_spec_step ps_MAX_FRAMES xs p)
    \<and> lru_hits s' = lru_hits s + 1 \<and> lru_misses s' = lru_misses s"
proof -
  have len: "length (lru_buffer s) = ps_MAX_FRAMES" using rel by (simp add: lru_rel_def)
  have "p \<in> set (lru_buffer s)" using in_xs lru_rel_set [OF rel] by blast
  from find_present [OF len this] obtain j where
    j: "j < ps_MAX_FRAMES" "find (lru_buffer s) p = int j" "lru_buffer s ! j = p" by blast
  let ?s = "ps_lru_place j p (s\<lparr>lru_hits := lru_hits s + 1\<rparr>)"
  have rel1: "lru_rel (s\<lparr>lru_hits := lru_hits s + 1\<rparr>) xs" using rel by (simp add: lru_rel_def)
  have "lru_rel ?s (p # removeAll p xs)" using lru_rel_place [OF rel1 j(1) p] j(3) by simp
  moreover from lru_rel_length [OF this] have "p # removeAll p xs = lru_spec_step ps_MAX_FRAMES xs p"
    by (simp add: lru_spec_step_def)
  moreover have "(lru_buffer s)[j := p] = lru_buffer s" using j(3) by (metis list_update_id)
  then have "step s p = Inr (?s, True)"
    using j by (cases s) (simp add: step_eq Let_def ps_lru_place_def)
  ultimately show ?thesis by (simp add: ps_lru_place_def)
qed

lemma step_miss:
  assumes rel: "lru_rel s xs" and p: "p \<noteq> -1" and notin: "p \<notin> set xs"
  shows "\<exists>s'. step s p = Inr (s', False) \<and> lru_rel s' (lru_spec_step ps_MAX_FRAMES xs p)
    \<and> lru_hits s' = lru_hits s \<and> lru_misses s' = lru_misses s + 1"
proof -
  have len: "length (lru_buffer s) = ps_MAX_FRAMES" "length (lru_time s) = ps_MAX_FRAMES" "distinct xs"
    using rel by (simp_all add: lru_rel_def)
  have "p \<notin> set (lru_buffer s)" using notin p lru_rel_set [OF rel] by blast
  note fp = find_absent [OF len(1) this]
  let ?s1 = "s\<lparr>lru_misses := lru_misses s + 1\<rparr>"
  have rel1: "lru_rel ?s1 xs" using rel by (simp add: lru_rel_def)
  note place = lru_rel_place [OF rel1 _ p disjI1 [OF notin]]
  show ?thesis
  proof (cases "-1 \<in> set (lru_buffer s)")
    case True
    from find_present [OF len(1) this] obtain j where
      j: "j < ps_MAX_FRAMES" "find (lru_buffer s) (-1) = int j" "lru_buffer s ! j = -1" by blast
    have "-1 \<notin> set xs" using lru_rel_set [OF rel] by blast
    then have "p # removeAll (lru_buffer s ! j) xs = lru_spec_step ps_MAX_FRAMES xs p"
      using lru_rel_not_full [OF rel True] j(3) notin by (simp add: lru_spec_step_def)
    then have "lru_rel (ps_lru_place j p ?s1) (lru_spec_step ps_MAX_FRAMES xs p)"
      using place [OF j(1)] by simp
    then show ?thesis using fp j by (simp add: step_eq Let_def ps_lru_place_def)
  next
    case False
    note full = lru_rel_full [OF rel False]
    have v: "ps_lru_victim (lru_time s) < ps_MAX_FRAMES" using ps_lru_victim_min [OF len(2)] by blast
    have "xs \<noteq> []" using full by (auto simp: ps_MAX_FRAMES_def)
    then have "p # removeAll (last xs) xs = lru_spec_step ps_MAX_FRAMES xs p"
      using full notin removeAll_last [OF len(3)]
      by (simp add: lru_spec_step_def butlast_conv_take take_Cons' ps_MAX_FRAMES_def)
    then have "lru_rel (ps_lru_place (ps_lru_victim (lru_time s)) p ?s1) (lru_spec_step ps_MAX_FRAMES xs p)"
      using place [OF v] full by simp
    then show ?thesis
      using fp find_absent [OF len(1) False] by (simp add: step_eq Let_def ps_lru_place_def)
  qed
qed

lemmas step_refines = step_hit step_miss

lemma run_refines:
  assumes "lru_rel s xs" and "-1 \<notin> set pages"
  shows "\<exists>s'. foldE (serve step) pages s = Inr s' \<and>
    (case lru_spec ps_MAX_FRAMES xs pages of (ys, h, m) \<Rightarrow>
      lru_rel s' ys \<and> lru_hits s' = lru_hits s + h \<and> lru_misses s' = lru_misses s + m)"
  using assms
proof (induction pages arbitrary: s xs)
  case (Cons p ps)
  from Cons.prems have p: "p \<noteq> -1" by auto
  obtain ys h m where sp: "lru_spec ps_MAX_FRAMES (lru_spec_step ps_MAX_FRAMES xs p) ps = (ys, h, m)"
    by (metis prod_cases3)
  let ?hit = "p \<in> set xs"
  from step_refines [OF Cons.prems(1) p] obtain s1 where
    s1: "step s p = Inr (s1, ?hit)" "lru_rel s1 (lru_spec_step ps_MAX_FRAMES xs p)"
      "lru_hits s1 = lru_hits s + (if ?hit then 1 else 0)"
      "lru_misses s1 = lru_misses s + (if ?hit then 0 else 1)"
    by (cases ?hit) auto
  from Cons.IH [OF s1(2)] Cons.prems sp obtain s' where
    "foldE (serve step) ps s1 = Inr s'" "lru_rel s' ys" "lru_hits s' = lru_hits s1 + h"
      "lru_misses s' = lru_misses s1 + m" by auto
  then show ?case using s1 sp by (simp add: serve_def [of step s p])
qed simp

end

lemma arc_find_last_cases:
  assumes "length b = ps_MAX_FRAMES"
  shows "if p \<in> set b then \<exists>j<ps_MAX_FRAMES. arc_find_last b p = int j \<and> b ! j = p
    else arc_find_last b p = -1"
proof -
  obtain x y z where "b = [x, y, z]" using assms by (rule length_3_cases)
  then show ?thesis
    by (auto simp: arc_find_last_def ps_MAX_FRAMES_def upt_rec numeral_3_eq_3 less_Suc_eq ex_disj_distrib
        conj_disj_distribR)
qed

lemma bp_findpage_cases:
  "if p \<in> set b then \<exists>j<length b. bp_findpage b p i = int (i + j) \<and> b ! j = p
   else bp_findpage b p i = -1"
proof (induction b arbitrary: i)
  case (Cons x b)
  show ?case
  proof (cases "x = p")
    case False
    with Cons [of "Suc i"] show ?thesis by (auto split: if_splits intro: exI [of _ "Suc j" for j])
  qed auto
qed simp

lemma bp_findpage_absent: "bp_findpage b p 0 = -1 \<longleftrightarrow> p \<notin> set b"
  using bp_findpage_cases [of p b 0] by (auto split: if_splits)

lemma bp_findpage_present:
  "p \<in> set b \<Longrightarrow> \<exists>j<length b. bp_findpage b p 0 = int j \<and> b ! j = p"
  using bp_findpage_cases [of p b 0] by simp

interpretation arc_lru: frame_lookup arc_find_last arc_lru_step
proof unfold_locales
  show "p \<notin> set b \<Longrightarrow> arc_find_last b p = -1" if "length b = ps_MAX_FRAMES" for b p
    using arc_find_last_cases [OF that, of p] by simp
  show "p \<in> set b \<Longrightarrow> \<exists>j<ps_MAX_FRAMES. arc_find_last b p = int j \<and> b ! j = p"
    if "length b = ps_MAX_FRAMES" for b p
    using arc_find_last_cases [OF that, of p] by simp
qed (simp add: arc_lru_step_def)

interpretation bp_lru: frame_lookup "\<lambda>b p. bp_findpage b p 0" bp_lru_step
proof unfold_locales
  show "p \<in> set b \<Longrightarrow> \<exists>j<ps_MAX_FRAMES. bp_findpage b p 0 = int j \<and> b ! j = p"
    if "length b = ps_MAX_FRAMES" for b p
    using bp_findpage_present [of p b] that by simp
qed (simp_all add: bp_findpage_absent bp_lru_step_def)

definition lru_resident :: "lru_state \<Rightarrow> int set" where
  "lru_resident s = set (lru_buffer s) - {-1}"

lemma lru_rel_resident: "lru_rel s xs \<Longrightarrow> lru_resident s = set xs"
  by (simp add: lru_rel_set lru_resident_def)

interpretation arc_lru_policy: total_policy arc_lru_step lru_resident lru_hits lru_misses ps_MAX_FRAMES
  "\<lambda>s. \<exists>xs. lru_rel s xs"
proof unfold_locales
  fix s p s' hit
  assume "\<exists>xs. lru_rel s xs" and p: "p \<noteq> (-1::int)"
  then obtain xs where rel: "lru_rel s xs" by blast
  have fin: "set (lru_spec_step ps_MAX_FRAMES xs p) \<subseteq> Set.insert p (set xs)"
    "p \<in> set (lru_spec_step ps_MAX_FRAMES xs p)"
    using set_take_subset by (fastforce simp: lru_spec_step_def ps_MAX_FRAMES_def)+
  {
    assume "arc_lru_step s p = Inr (s', hit)"
    then show "(\<exists>xs. lru_rel s' xs) \<and> (hit \<longleftrightarrow> p \<in> lru_resident s) \<and> p \<in> lru_resident s'
        \<and> lru_resident s' \<subseteq> Set.insert p (lru_resident s)
        \<and> lru_hits s' = lru_hits s + (if hit then 1 else 0)
        \<and> lru_misses s' = lru_misses s + (if hit then 0 else 1)"
      using arc_lru.step_refines [OF rel p] fin
      by (cases "p \<in> set xs") (auto simp: lru_rel_resident [OF rel] lru_rel_resident)
  }
  show "\<exists>s' hit. arc_lru_step s p = Inr (s', hit)"
    using arc_lru.step_refines [OF rel p] by blast
next
  fix s
  assume "\<exists>xs. lru_rel s xs"
  then obtain xs where rel: "lru_rel s xs" by blast
  then show "finite (lru_resident s) \<and> card (lru_resident s) \<le> ps_MAX_FRAMES"
    using lru_rel_length [OF rel] card_length [of xs] by (simp add: lru_rel_resident)
qed

text \<open>
  C16. Both LRU simulators refine exact LRU replacement: on every request string in which -1, the mark of an empty frame, is not a page, the run of
  \<^verbatim>\<open>simulateLRU\<close> in \<^verbatim>\<open>page_cache_simulator_using_lru_clock_arc.c\<close> (which takes the last free frame) and in
  \<^verbatim>\<open>lru.c\<close> (which takes the first) completes, counts exactly the hits and misses of the abstract policy
  and leaves exactly its pages resident; so the two programs agree on every such string.
\<close>
theorem lru_programs_refine:
  assumes "-1 \<notin> set pages"
  shows "\<exists>s1 o1 s2 o2.
    ps_loop arc_lru_step (\<lambda>i page s hit. arc_line i page (lru_buffer s) hit) 0 pages lru_init = Inr (s1, o1)
    \<and> ps_loop bp_lru_step bp_lru_line 0 pages lru_init = Inr (s2, o2)
    \<and> (case lru_spec ps_MAX_FRAMES [] pages of (ys, h, m) \<Rightarrow>
         lru_hits s1 = h \<and> lru_misses s1 = m \<and> set (lru_buffer s1) - {-1} = set ys
         \<and> lru_hits s2 = h \<and> lru_misses s2 = m \<and> set (lru_buffer s2) - {-1} = set ys)"
proof -
  obtain ys h m where sp: "lru_spec ps_MAX_FRAMES [] pages = (ys, h, m)" by (metis prod_cases3)
  from arc_lru.run_refines [OF lru_rel_init assms] sp obtain s1 where
    s1: "foldE (serve arc_lru_step) pages lru_init = Inr s1" "lru_rel s1 ys" "lru_hits s1 = h" "lru_misses s1 = m"
    by (auto simp: lru_init_def)
  from bp_lru.run_refines [OF lru_rel_init assms] sp obtain s2 where
    s2: "foldE (serve bp_lru_step) pages lru_init = Inr s2" "lru_rel s2 ys" "lru_hits s2 = h" "lru_misses s2 = m"
    by (auto simp: lru_init_def)
  from ps_loop_total [OF s1(1)] obtain o1 where
    "ps_loop arc_lru_step (\<lambda>i page s hit. arc_line i page (lru_buffer s) hit) 0 pages lru_init = Inr (s1, o1)"
    by blast
  moreover from ps_loop_total [OF s2(1)] obtain o2 where
    "ps_loop bp_lru_step bp_lru_line 0 pages lru_init = Inr (s2, o2)" by blast
  ultimately show ?thesis
    using s1(3,4) s2(3,4) sp lru_rel_set [OF s1(2)] lru_rel_set [OF s2(2)] by simp
qed

theorem lru_programs_refine_witness:
  "-1 \<notin> set ps_pages \<and> lru_spec ps_MAX_FRAMES [] ps_pages = ([5, 4, 3], 2, 10)
   \<and> (\<exists>s1 o1. ps_loop arc_lru_step (\<lambda>i page s hit. arc_line i page (lru_buffer s) hit) 0 ps_pages lru_init
        = Inr (s1, o1) \<and> lru_hits s1 = 2 \<and> lru_misses s1 = 10)"
proof -
  have p: "-1 \<notin> set ps_pages" by (simp add: ps_pages_def)
  have sp: "lru_spec ps_MAX_FRAMES [] ps_pages = ([5, 4, 3], 2, 10)"
    by (simp add: ps_pages_def ps_MAX_FRAMES_def lru_spec_step_def)
  show ?thesis using lru_programs_refine [OF p] p sp by auto
qed

section \<open>CLOCK replacement\<close>

text \<open>The frames in the order in which the hand visits them.\<close>

definition clock_order :: "nat \<Rightarrow> nat list" where
  "clock_order pointer = map (\<lambda>k. (pointer + k) mod ps_MAX_FRAMES) [0..<ps_MAX_FRAMES]"

lemma frame_cases:
  assumes "n < ps_MAX_FRAMES"
  obtains "n = 0" | "n = 1" | "n = 2"
  using assms unfolding ps_MAX_FRAMES_def by linarith

lemma clock_order_simps:
  "clock_order 0 = [0, 1, 2]" "clock_order 1 = [1, 2, 0]" "clock_order 2 = [2, 0, 1]"
  by code_simp+

lemma clock_sweep_eq:
  assumes "length refBit = ps_MAX_FRAMES" and "pointer < ps_MAX_FRAMES"
  shows "clock_sweep refBit pointer =
    Inr (fold (\<lambda>j b. b[j := 0]) (takeWhile (\<lambda>j. refBit ! j \<noteq> 0) (clock_order pointer)) refBit,
         case find (\<lambda>j. refBit ! j = 0) (clock_order pointer) of Some j \<Rightarrow> j | None \<Rightarrow> pointer)"
proof -
  obtain x y z where b: "refBit = [x, y, z]" using assms(1) by (rule length_3_cases)
  from assms(2) show ?thesis
    by (cases rule: frame_cases; simp only: clock_order_simps b)
      (simp_all add: clock_sweep.simps ps_MAX_FRAMES_def)
qed

definition clock_resident :: "clock_state \<Rightarrow> int set" where
  "clock_resident s = set (clk_buffer s) - {-1}"

definition clock_inv :: "clock_state \<Rightarrow> bool" where
  "clock_inv s \<longleftrightarrow> length (clk_buffer s) = ps_MAX_FRAMES \<and> length (clk_refBit s) = ps_MAX_FRAMES
     \<and> clk_pointer s < ps_MAX_FRAMES \<and> distinct (filter (\<lambda>b. b \<noteq> -1) (clk_buffer s))"

lemma clock_inv_init: "clock_inv clock_init"
  by (simp add: clock_inv_def clock_init_def ps_MAX_FRAMES_def)

lemma clock_sweep_bounds:
  assumes "length refBit = ps_MAX_FRAMES" and "pointer < ps_MAX_FRAMES"
  shows "\<exists>r v. clock_sweep refBit pointer = Inr (r, v) \<and> length r = ps_MAX_FRAMES \<and> v < ps_MAX_FRAMES"
proof -
  have "length (fold (\<lambda>j b. b[j := 0]) js r) = length r" for js :: "nat list" and r :: "int list"
    by (induction js arbitrary: r) simp_all
  moreover have "j < ps_MAX_FRAMES" if "find (\<lambda>j. refBit ! j = 0) (clock_order pointer) = Some j" for j
    using that by (auto simp: find_Some_iff clock_order_def ps_MAX_FRAMES_def)
  ultimately show ?thesis
    using assms by (auto simp: clock_sweep_eq split: option.splits)
qed

lemma distinct_filter_update:
  assumes "length b = ps_MAX_FRAMES" and "distinct (filter (\<lambda>v. v \<noteq> -1) b)" and "p \<notin> set b"
    and "v < ps_MAX_FRAMES"
  shows "distinct (filter (\<lambda>v. v \<noteq> -1) (b[v := (p::int)]))"
proof -
  obtain x y z where b: "b = [x, y, z]" using assms(1) by (rule length_3_cases)
  from assms(4) show ?thesis using assms(2,3) by (cases rule: frame_cases) (auto simp: b split: if_splits)
qed

lemma clock_step_hit:
  assumes "clock_inv s" and "p \<noteq> -1" and "p \<in> clock_resident s"
  shows "\<exists>r. clock_step s p = Inr (s\<lparr>clk_refBit := r, clk_hits := clk_hits s + 1\<rparr>, True)
    \<and> length r = ps_MAX_FRAMES"
proof -
  have "p \<in> set (clk_buffer s)" using assms by (simp add: clock_resident_def)
  from bp_findpage_present [OF this] obtain j where "bp_findpage (clk_buffer s) p 0 = int j" by blast
  then show ?thesis
    using assms by (intro exI [of _ "(clk_refBit s)[j := 1]"]) (simp add: clock_step_def Let_def clock_inv_def)
qed

lemma clock_step_miss:
  assumes "clock_inv s" and "p \<noteq> -1" and "p \<notin> clock_resident s"
  shows "\<exists>r v. clock_sweep (clk_refBit s) (clk_pointer s) = Inr (r, v)
    \<and> length r = ps_MAX_FRAMES \<and> v < ps_MAX_FRAMES
    \<and> clock_step s p = Inr (s\<lparr>clk_buffer := (clk_buffer s)[v := p], clk_refBit := r[v := 1],
        clk_pointer := (v + 1) mod ps_MAX_FRAMES, clk_misses := clk_misses s + 1\<rparr>, False)"
proof -
  have "p \<notin> set (clk_buffer s)" using assms by (simp add: clock_resident_def)
  then have "bp_findpage (clk_buffer s) p 0 = -1" by (simp add: bp_findpage_absent)
  then show ?thesis
    using clock_sweep_bounds [of "clk_refBit s" "clk_pointer s"] assms(1)
    by (auto simp: clock_step_def clock_inv_def)
qed

interpretation clock_policy: total_policy clock_step clock_resident clk_hits clk_misses ps_MAX_FRAMES clock_inv
proof unfold_locales
  fix s p s' hit
  assume inv: "clock_inv s" and p: "p \<noteq> (-1::int)"
  show "\<exists>s' hit. clock_step s p = Inr (s', hit)"
    using clock_step_hit [OF inv p] clock_step_miss [OF inv p] by blast
  assume st: "clock_step s p = Inr (s', hit)"
  show "clock_inv s' \<and> (hit \<longleftrightarrow> p \<in> clock_resident s) \<and> p \<in> clock_resident s'
      \<and> clock_resident s' \<subseteq> Set.insert p (clock_resident s)
      \<and> clk_hits s' = clk_hits s + (if hit then 1 else 0)
      \<and> clk_misses s' = clk_misses s + (if hit then 0 else 1)"
  proof (cases "p \<in> clock_resident s")
    case True
    from clock_step_hit [OF inv p True] st obtain r where
      "s' = s\<lparr>clk_refBit := r, clk_hits := clk_hits s + 1\<rparr>" "hit" "length r = ps_MAX_FRAMES" by auto
    then show ?thesis using inv True by (auto simp: clock_inv_def clock_resident_def)
  next
    case False
    from clock_step_miss [OF inv p False] st obtain r v where
      s': "s' = s\<lparr>clk_buffer := (clk_buffer s)[v := p], clk_refBit := r[v := 1],
        clk_pointer := (v + 1) mod ps_MAX_FRAMES, clk_misses := clk_misses s + 1\<rparr>" "\<not> hit"
        "length r = ps_MAX_FRAMES" "v < ps_MAX_FRAMES" by auto
    have len: "length (clk_buffer s) = ps_MAX_FRAMES" using inv by (simp add: clock_inv_def)
    have "p \<notin> set (clk_buffer s)" using False p by (simp add: clock_resident_def)
    then have "clock_inv s'"
      using inv s' distinct_filter_update [OF len] by (simp add: clock_inv_def ps_MAX_FRAMES_def)
    moreover have "p \<in> set ((clk_buffer s)[v := p])" using s'(4) len by (simp add: set_update_memI)
    moreover have "set ((clk_buffer s)[v := p]) \<subseteq> Set.insert p (set (clk_buffer s))"
      by (rule set_update_subset_insert)
    ultimately show ?thesis using s' False p by (auto simp: clock_resident_def)
  qed
next
  fix s
  assume "clock_inv s"
  then have "length (clk_buffer s) = ps_MAX_FRAMES" by (simp add: clock_inv_def)
  then show "finite (clock_resident s) \<and> card (clock_resident s) \<le> ps_MAX_FRAMES"
    unfolding clock_resident_def
    by (metis card_Diff1_le card_length finite_Diff List.finite_set order_trans)
qed

text \<open>
  The \<^verbatim>\<open>while (1)\<close> search of the CLOCK simulators ends on every table of reference bits and picks
  the first frame, in the order in which the hand moves, whose bit is clear, having cleared exactly
  the bits it passed; when all bits are set it clears them all and comes back to the frame where it
  started.
\<close>
theorem clock_sweep_second_chance:
  assumes "length refBit = ps_MAX_FRAMES" and "pointer < ps_MAX_FRAMES"
  shows "clock_sweep refBit pointer =
    Inr (fold (\<lambda>j b. b[j := 0]) (takeWhile (\<lambda>j. refBit ! j \<noteq> 0) (clock_order pointer)) refBit,
         case find (\<lambda>j. refBit ! j = 0) (clock_order pointer) of Some j \<Rightarrow> j | None \<Rightarrow> pointer)"
  using assms by (rule clock_sweep_eq)

theorem clock_sweep_second_chance_witness:
  "length [1, 0, 1::int] = ps_MAX_FRAMES \<and> clock_sweep [1, 0, 1] 2 = Inr ([0, 0, 0], 1)"
  using clock_sweep_second_chance [of "[1, 0, 1]" 2]
  by (simp add: clock_order_simps ps_MAX_FRAMES_def)

text \<open>
  Both CLOCK simulators serve every request string to its end: each request is counted once as a
  hit or as a miss, every page misses at least at its first reference, at most three pages are
  resident, no page occupies two frames and only requested pages are resident.
\<close>
theorem clock_simulation_ok:
  assumes "-1 \<notin> set pages"
  shows "\<exists>s out. ps_loop clock_step line 0 pages clock_init = Inr (s, out)
    \<and> clk_hits s + clk_misses s = int (length pages)
    \<and> clk_misses s \<ge> int (card (set pages))
    \<and> set (clk_buffer s) - {-1} \<subseteq> set pages
    \<and> distinct (filter (\<lambda>b. b \<noteq> -1) (clk_buffer s)) \<and> length (clk_buffer s) = 3"
proof -
  from clock_policy.serve_total [OF clock_inv_init assms] obtain s where
    s: "foldE (serve clock_step) pages clock_init = Inr s" by blast
  from ps_loop_total [OF s] obtain out where out: "ps_loop clock_step line 0 pages clock_init = Inr (s, out)"
    by blast
  have init: "clock_resident clock_init = {}" "clk_hits clock_init = 0" "clk_misses clock_init = 0"
    by (auto simp: clock_resident_def clock_init_def)
  note end_state = clock_policy.serve_all [OF clock_inv_init assms s, unfolded init]
  then have "length (clk_buffer s) = 3" "distinct (filter (\<lambda>b. b \<noteq> -1) (clk_buffer s))"
    by (simp_all add: clock_inv_def ps_MAX_FRAMES_def)
  then show ?thesis using end_state out by (simp add: clock_resident_def)
qed

theorem clock_simulation_ok_witness:
  "-1 \<notin> set ps_pages \<and> (\<exists>s out. ps_loop clock_step bp_clock_line 0 ps_pages clock_init = Inr (s, out)
     \<and> clk_hits s + clk_misses s = 12 \<and> clk_misses s \<ge> 5)"
proof -
  have p: "-1 \<notin> set ps_pages" "length ps_pages = 12" "card (set ps_pages) = 5"
    by (simp_all add: ps_pages_def insert_commute)
  from clock_simulation_ok [OF p(1), of bp_clock_line] p show ?thesis by auto
qed

section \<open>The simplified ARC\<close>

text \<open>The array helpers on the prefix of a table that is in use.\<close>

lemma upto_shift: "[1..n - 1] = map (\<lambda>i. i + 1) [0..n - 2]" for n :: int
  by (rule nth_equalityI) auto

lemma arc_contains_ok:
  "n \<le> int (length a) \<Longrightarrow> arc_contains a n p = Inr (p \<in> set (take (nat n) a))"
  by (auto simp: arc_contains_def arr_any_prefix)

lemma arc_removeFirst_ok:
  assumes "1 \<le> n" and "n \<le> int (length a)"
  shows "\<exists>a'. arc_removeFirst a n = Inr (a', n - 1) \<and> length a' = length a
    \<and> take (nat (n - 1)) a' = tl (take (nat n) a)"
proof -
  have "foldE (\<lambda>a i. bindE (arr_get a i) (\<lambda>v. arr_set a (i - 1) v)) [1..n - 1] a = arr_shl a 0 n"
    by (simp add: upto_shift foldE_map arr_shl_def)
  also have "\<dots> = Inr (drop 1 (take (nat n) a) @ drop (nat n - 1) a)"
    using arr_shl_ok [of 0 n a] assms by simp
  finally show ?thesis
    using assms by (simp add: arc_removeFirst_def drop_Suc nat_diff_distrib)
qed

lemma arc_addLast_ok:
  assumes "0 \<le> n" and "n < int (length a)"
  shows "\<exists>a'. arc_addLast a n p = Inr (a', n + 1) \<and> length a' = length a
    \<and> take (nat (n + 1)) a' = take (nat n) a @ [p]"
proof -
  have "take (nat (n + 1)) (a[nat n := p]) = take (nat n) a @ [p]"
    using assms by (simp add: nat_add_distrib take_Suc_conv_app_nth)
  then show ?thesis using assms by (simp add: arc_addLast_def)
qed

lemma arc_take_out_ok:
  assumes "n \<le> int (length a)" and "distinct (take (nat n) a)" and "p \<in> set (take (nat n) a)"
  shows "\<exists>a'. arc_take_out a n p [0..n - 1] = Inr (a', n - 1) \<and> length a' = length a
    \<and> take (nat (n - 1)) a' = removeAll p (take (nat n) a)"
proof -
  from assms(3) obtain j where j: "j < nat n" "take (nat n) a ! j = p" by (auto simp: in_set_conv_nth)
  then have aj: "a ! j = p" "j < length a" using assms(1) by auto
  have before: "arc_take_out a n p ([0..int j - 1] @ js) = arc_take_out a n p js" for js
  proof -
    have "\<forall>i\<in>set is. 0 \<le> i \<and> i < int j \<Longrightarrow> arc_take_out a n p (is @ js) = arc_take_out a n p js" for "is"
    proof (induction "is")
      case (Cons i "is")
      then have "nat i < length (take (nat n) a)" "j < length (take (nat n) a)" "nat i \<noteq> j" "nat i < nat n"
        using assms(1) j(1) by auto
      then have "a ! nat i \<noteq> p" using nth_eq_iff_index_eq [OF assms(2)] j by (metis nth_take)
      moreover have "0 \<le> i" "i < int (length a)" using Cons.prems aj(2) by auto
      ultimately show ?case using Cons by simp
    qed simp
    then show ?thesis by simp
  qed
  have "[0..n - 1] = [0..int j - 1] @ int j # [int j + 1..n - 1]"
    using j(1) by (intro upto_split3) auto
  then have "arc_take_out a n p [0..n - 1] = bindE (arr_shl a (int j) n) (\<lambda>a'. Inr (a', n - 1))"
    using before aj by simp
  also have "arr_shl a (int j) n =
      Inr (take j a @ drop (j + 1) (take (nat n) a) @ drop (nat n - 1) a)"
    using arr_shl_ok [of "int j" n a] j assms(1) by simp
  finally have r: "arc_take_out a n p [0..n - 1] =
      Inr (take j a @ drop (j + 1) (take (nat n) a) @ drop (nat n - 1) a, n - 1)" by simp
  have spl: "take (nat n) a = take j a @ p # drop (j + 1) (take (nat n) a)"
    using j assms(1) id_take_nth_drop [of j "take (nat n) a"] by simp
  then have "p \<notin> set (take j a)" "p \<notin> set (drop (j + 1) (take (nat n) a))"
    using assms(2) by (metis distinct_append disjoint_iff list.set_intros(1), metis distinct.simps(2) distinct_append)
  then have "removeAll p (take (nat n) a) = take j a @ drop (j + 1) (take (nat n) a)"
    by (subst spl) simp
  then show ?thesis using r j assms(1) by (simp add: nat_diff_distrib)
qed

definition arc_resident :: "ARC \<Rightarrow> int set" where
  "arc_resident s = set (take (nat (arc_t1Size s)) (arc_T1 s)) \<union> set (take (nat (arc_t2Size s)) (arc_T2 s))"

definition arc_inv :: "ARC \<Rightarrow> bool" where
  "arc_inv s \<longleftrightarrow>
     length (arc_T1 s) = ps_MAX_FRAMES \<and> length (arc_T2 s) = ps_MAX_FRAMES
     \<and> length (arc_B1 s) = ps_MAX_FRAMES \<and> length (arc_B2 s) = ps_MAX_FRAMES
     \<and> 0 \<le> arc_t1Size s \<and> 0 \<le> arc_t2Size s \<and> arc_t1Size s + arc_t2Size s \<le> int ps_MAX_FRAMES
     \<and> arc_b1Size s = 0 \<and> arc_b2Size s = 0
     \<and> distinct (take (nat (arc_t1Size s)) (arc_T1 s) @ take (nat (arc_t2Size s)) (arc_T2 s))"

lemma arc_inv_init: "arc_inv arc_init"
  by (simp add: arc_inv_def arc_init_def)

lemma arc_step_split:
  assumes "arc_inv s"
  shows "arc_step s p = (if p \<in> arc_resident s then bindE (arc_hit s p) (\<lambda>s'. Inr (s', True))
    else bindE (arc_miss s p) (\<lambda>s'. Inr (s', False)))"
  using assms by (simp add: arc_step_def arc_inv_def arc_contains_ok arc_resident_def)

lemma arc_hit_ok:
  assumes inv: "arc_inv s" and p: "p \<in> arc_resident s"
  shows "\<exists>s'. arc_hit s p = Inr s' \<and> arc_inv s' \<and> arc_resident s' = arc_resident s
    \<and> arc_hits s' = arc_hits s + 1 \<and> arc_misses s' = arc_misses s
    \<and> p \<in> set (take (nat (arc_t2Size s')) (arc_T2 s'))"
proof (cases "p \<in> set (take (nat (arc_t1Size s)) (arc_T1 s))")
  case False
  then show ?thesis
    using inv p by (simp add: arc_hit_def arc_contains_ok arc_inv_def arc_resident_def)
next
  case True
  let ?l1 = "take (nat (arc_t1Size s)) (arc_T1 s)" and ?l2 = "take (nat (arc_t2Size s)) (arc_T2 s)"
  from True have t1: "1 \<le> arc_t1Size s" by (cases "arc_t1Size s \<le> 0") auto
  from inv have d: "distinct ?l1" "distinct ?l2" "set ?l1 \<inter> set ?l2 = {}" by (auto simp: arc_inv_def)
  from arc_take_out_ok [OF _ d(1) True] inv obtain a1 where
    a1: "arc_take_out (arc_T1 s) (arc_t1Size s) p [0..arc_t1Size s - 1] = Inr (a1, arc_t1Size s - 1)"
      "length a1 = ps_MAX_FRAMES" "take (nat (arc_t1Size s - 1)) a1 = removeAll p ?l1"
    by (auto simp: arc_inv_def)
  from arc_addLast_ok [of "arc_t2Size s" "arc_T2 s" p] inv t1 obtain a2 where
    a2: "arc_addLast (arc_T2 s) (arc_t2Size s) p = Inr (a2, arc_t2Size s + 1)"
      "length a2 = ps_MAX_FRAMES" "take (nat (arc_t2Size s + 1)) a2 = ?l2 @ [p]"
    by (auto simp: arc_inv_def)
  let ?s = "s\<lparr>arc_hits := arc_hits s + 1, arc_T1 := a1, arc_t1Size := arc_t1Size s - 1,
    arc_T2 := a2, arc_t2Size := arc_t2Size s + 1\<rparr>"
  have "arc_hit s p = Inr ?s"
    using inv True a1(1) a2(1) by (simp add: arc_hit_def arc_contains_ok arc_inv_def)
  moreover have "distinct (removeAll p ?l1 @ ?l2 @ [p])"
    using d True by (auto simp: distinct_removeAll)
  then have "arc_inv ?s" using inv t1 a1(2,3) a2(2,3) by (simp add: arc_inv_def)
  moreover have "arc_resident ?s = arc_resident s"
    using a1(3) a2(3) True by (auto simp: arc_resident_def)
  ultimately show ?thesis using a2(3) by simp
qed

lemma arc_removeT1_ok:
  assumes "arc_inv s" and "1 \<le> arc_t1Size s"
  shows "\<exists>a. arc_removeT1 s = Inr (s\<lparr>arc_T1 := a, arc_t1Size := arc_t1Size s - 1\<rparr>) \<and> length a = ps_MAX_FRAMES
    \<and> take (nat (arc_t1Size s - 1)) a = tl (take (nat (arc_t1Size s)) (arc_T1 s))"
  using arc_removeFirst_ok [of "arc_t1Size s" "arc_T1 s"] assms
  by (auto simp: arc_inv_def arc_removeT1_def)

lemma arc_removeT2_ok:
  assumes "arc_inv s" and "1 \<le> arc_t2Size s"
  shows "\<exists>a. arc_removeT2 s = Inr (s\<lparr>arc_T2 := a, arc_t2Size := arc_t2Size s - 1\<rparr>) \<and> length a = ps_MAX_FRAMES
    \<and> take (nat (arc_t2Size s - 1)) a = tl (take (nat (arc_t2Size s)) (arc_T2 s))"
  using arc_removeFirst_ok [of "arc_t2Size s" "arc_T2 s"] assms
  by (auto simp: arc_inv_def arc_removeT2_def)

lemma arc_addT1_ok:
  assumes inv: "arc_inv s" and room: "arc_t1Size s + arc_t2Size s < int ps_MAX_FRAMES" and p: "p \<notin> arc_resident s"
  shows "\<exists>s'. arc_addT1 p s = Inr s' \<and> arc_inv s' \<and> arc_resident s' = Set.insert p (arc_resident s)
    \<and> arc_hits s' = arc_hits s \<and> arc_misses s' = arc_misses s"
proof -
  from arc_addLast_ok [of "arc_t1Size s" "arc_T1 s" p] inv room obtain a where
    a: "arc_addLast (arc_T1 s) (arc_t1Size s) p = Inr (a, arc_t1Size s + 1)"
      "length a = ps_MAX_FRAMES" "take (nat (arc_t1Size s + 1)) a = take (nat (arc_t1Size s)) (arc_T1 s) @ [p]"
    by (auto simp: arc_inv_def)
  then show ?thesis
    using inv room p by (simp add: arc_addT1_def arc_inv_def arc_resident_def)
qed

text \<open>Dropping the oldest page of one of the two lists keeps the invariant.\<close>

lemma tl_subset: "set (tl xs) \<subseteq> set xs"
  by (cases xs) auto

lemma arc_inv_dropT1:
  assumes "arc_inv s" and "1 \<le> arc_t1Size s" and "length a = ps_MAX_FRAMES"
    and "take (nat (arc_t1Size s - 1)) a = tl (take (nat (arc_t1Size s)) (arc_T1 s))"
  shows "arc_inv (s\<lparr>arc_T1 := a, arc_t1Size := arc_t1Size s - 1\<rparr>)"
    and "arc_resident (s\<lparr>arc_T1 := a, arc_t1Size := arc_t1Size s - 1\<rparr>) \<subseteq> arc_resident s"
  using assms tl_subset [of "take (nat (arc_t1Size s)) (arc_T1 s)"]
  by (auto simp: arc_inv_def arc_resident_def distinct_tl)

lemma arc_inv_dropT2:
  assumes "arc_inv s" and "1 \<le> arc_t2Size s" and "length a = ps_MAX_FRAMES"
    and "take (nat (arc_t2Size s - 1)) a = tl (take (nat (arc_t2Size s)) (arc_T2 s))"
  shows "arc_inv (s\<lparr>arc_T2 := a, arc_t2Size := arc_t2Size s - 1\<rparr>)"
    and "arc_resident (s\<lparr>arc_T2 := a, arc_t2Size := arc_t2Size s - 1\<rparr>) \<subseteq> arc_resident s"
  using assms tl_subset [of "take (nat (arc_t2Size s)) (arc_T2 s)"]
  by (auto simp: arc_inv_def arc_resident_def distinct_tl)

lemma arc_miss_ok:
  assumes inv: "arc_inv s" and p: "p \<notin> arc_resident s" and t2: "arc_t2Size s < int ps_MAX_FRAMES"
  shows "\<exists>s'. arc_miss s p = Inr s' \<and> arc_inv s' \<and> p \<in> arc_resident s'
    \<and> arc_resident s' \<subseteq> Set.insert p (arc_resident s)
    \<and> arc_hits s' = arc_hits s \<and> arc_misses s' = arc_misses s + 1"
proof -
  let ?s = "s\<lparr>arc_misses := arc_misses s + 1\<rparr>" and ?F = "int ps_MAX_FRAMES"
  have inv1: "arc_inv ?s" and res1: "arc_resident ?s = arc_resident s"
    using inv by (simp_all add: arc_inv_def arc_resident_def)
  have b1: "arc_b1Size s = 0" "0 \<le> arc_t1Size s" "0 \<le> arc_t2Size s" "arc_t1Size s + arc_t2Size s \<le> ?F" "0 < ?F"
    using inv by (simp_all add: arc_inv_def ps_MAX_FRAMES_def)
  consider (evict1) "arc_t1Size s = ?F" | (room) "arc_t1Size s + arc_t2Size s < ?F" "arc_t1Size s < ?F"
    | (evict2) "arc_t1Size s + arc_t2Size s = ?F" "arc_t1Size s < ?F" using b1 by linarith
  then show ?thesis
  proof cases
    case evict1
    with b1 have t1: "1 \<le> arc_t1Size ?s" by simp
    from arc_removeT1_ok [OF inv1 t1] obtain a where
      r: "arc_removeT1 ?s = Inr (?s\<lparr>arc_T1 := a, arc_t1Size := arc_t1Size ?s - 1\<rparr>)" (is "_ = Inr ?s2")
      and a: "length a = ps_MAX_FRAMES" "take (nat (arc_t1Size ?s - 1)) a = tl (take (nat (arc_t1Size ?s)) (arc_T1 ?s))"
      by blast
    note drop = arc_inv_dropT1 [OF inv1 t1 a]
    have p2: "p \<notin> arc_resident ?s2" using p drop(2) res1 by blast
    have "arc_t1Size ?s2 + arc_t2Size ?s2 < ?F" using evict1 b1 by simp
    from arc_addT1_ok [OF drop(1) this p2] show ?thesis
      using r evict1 b1 drop(2) res1 by (auto simp: arc_miss_def Let_def)
  next
    case room
    then have "arc_t1Size ?s + arc_t2Size ?s < ?F" by simp
    from arc_addT1_ok [OF inv1 this, of p] p res1 show ?thesis
      using room b1 by (auto simp: arc_miss_def Let_def)
  next
    case evict2
    with b1 have t2': "1 \<le> arc_t2Size ?s" by simp
    from arc_removeT2_ok [OF inv1 t2'] obtain a where
      r: "arc_removeT2 ?s = Inr (?s\<lparr>arc_T2 := a, arc_t2Size := arc_t2Size ?s - 1\<rparr>)" (is "_ = Inr ?s2")
      and a: "length a = ps_MAX_FRAMES" "take (nat (arc_t2Size ?s - 1)) a = tl (take (nat (arc_t2Size ?s)) (arc_T2 ?s))"
      by blast
    note drop = arc_inv_dropT2 [OF inv1 t2' a]
    have p2: "p \<notin> arc_resident ?s2" using p drop(2) res1 by blast
    have "arc_t1Size ?s2 + arc_t2Size ?s2 < ?F" using evict2 b1 by simp
    from arc_addT1_ok [OF drop(1) this p2] show ?thesis
      using r evict2 b1 t2 drop(2) res1 by (auto simp: arc_miss_def Let_def)
  qed
qed

lemma arc_miss_fault:
  assumes "arc_inv s" and "arc_t2Size s = int ps_MAX_FRAMES"
  shows "arc_miss s p = Inl OutOfBounds"
  using assms
  by (simp add: arc_inv_def arc_miss_def arc_removeT1_def arc_removeFirst_def arc_addT1_def arc_addLast_def
      arr_set_def ps_MAX_FRAMES_def)

interpretation arc_policy: page_policy arc_step arc_resident arc_hits arc_misses ps_MAX_FRAMES arc_inv
proof unfold_locales
  fix s
  assume "arc_inv s"
  then have "length (take (nat (arc_t1Size s)) (arc_T1 s) @ take (nat (arc_t2Size s)) (arc_T2 s)) \<le> ps_MAX_FRAMES"
    by (auto simp: arc_inv_def)
  then have "card (set (take (nat (arc_t1Size s)) (arc_T1 s) @ take (nat (arc_t2Size s)) (arc_T2 s))) \<le> ps_MAX_FRAMES"
    using card_length order_trans by blast
  then show "finite (arc_resident s) \<and> card (arc_resident s) \<le> ps_MAX_FRAMES"
    by (simp add: arc_resident_def)
next
  fix s p s' hit
  assume inv: "arc_inv s" and st: "arc_step s p = Inr (s', hit)"
  have "arc_t2Size s < int ps_MAX_FRAMES" if "p \<notin> arc_resident s"
    using st that arc_miss_fault [OF inv, of p] inv arc_step_split [OF inv, of p]
    by (cases "arc_t2Size s = int ps_MAX_FRAMES") (auto simp: arc_inv_def)
  then show "arc_inv s' \<and> (hit \<longleftrightarrow> p \<in> arc_resident s) \<and> p \<in> arc_resident s'
      \<and> arc_resident s' \<subseteq> Set.insert p (arc_resident s)
      \<and> arc_hits s' = arc_hits s + (if hit then 1 else 0) \<and> arc_misses s' = arc_misses s + (if hit then 0 else 1)"
    using st arc_hit_ok [OF inv, of p] arc_miss_ok [OF inv, of p] arc_step_split [OF inv, of p]
    by (cases "p \<in> arc_resident s") auto
qed

text \<open>
  C21. The simplified ARC step on every well-formed state: it writes outside its tables exactly when
  the requested page is not resident and \<open>T2\<close> already holds all three frames (the code then removes
  the first entry of the empty list \<open>T1\<close> and stores at \<^verbatim>\<open>T1[-1]\<close>); otherwise it succeeds, keeps the
  tables well-formed, reports a hit exactly for a resident page, makes the page resident and loads
  nothing else.
\<close>
theorem arc_step_correct:
  assumes "arc_inv s"
  shows "if p \<notin> arc_resident s \<and> arc_t2Size s = int ps_MAX_FRAMES then arc_step s p = Inl OutOfBounds
    else \<exists>s'. arc_step s p = Inr (s', p \<in> arc_resident s) \<and> arc_inv s' \<and> p \<in> arc_resident s'
      \<and> arc_resident s' \<subseteq> Set.insert p (arc_resident s)
      \<and> arc_hits s' + arc_misses s' = arc_hits s + arc_misses s + 1"
proof -
  have "arc_t2Size s \<le> int ps_MAX_FRAMES" using assms by (simp add: arc_inv_def)
  then show ?thesis
    using arc_hit_ok [OF assms, of p] arc_miss_ok [OF assms, of p] arc_miss_fault [OF assms, of p]
      arc_step_split [OF assms, of p]
    by (cases "p \<in> arc_resident s"; cases "arc_t2Size s = int ps_MAX_FRAMES") auto
qed

theorem arc_step_correct_witness:
  "arc_inv arc_init \<and> arc_resident arc_init = {}
   \<and> (\<exists>s'. arc_step arc_init 7 = Inr (s', False) \<and> arc_inv s' \<and> 7 \<in> arc_resident s')"
proof -
  have "arc_resident arc_init = {}" "arc_t2Size arc_init = 0"
    by (simp_all add: arc_resident_def arc_init_def)
  then show ?thesis using arc_step_correct [OF arc_inv_init, of 7] arc_inv_init
    by (simp add: ps_MAX_FRAMES_def) blast
qed

text \<open>
  A request string on which the ARC simulator stores outside \<open>T1\<close>: three pages requested twice
  fill \<open>T2\<close>, and the next new page underflows \<open>T1\<close>. The string built into the program does not reach
  this state: \<^verbatim>\<open>main\<close> runs the three simulators to the end.
\<close>
theorem arc_T1_underflow:
  "ps_loop arc_step arc_arc_line 0 [1, 1, 2, 2, 3, 3, 4] arc_init = Inl OutOfBounds
   \<and> \<not> isl arc_main"
  by (intro conjI) code_simp+

section \<open>The round-robin pool is a FIFO cache\<close>

definition fifo_spec_step :: "nat \<Rightarrow> int list \<Rightarrow> int \<Rightarrow> int list" where
  "fifo_spec_step n xs p = (if p \<in> set xs then xs else take n (p # xs))"

definition pool_rel :: "nat \<Rightarrow> pool_state \<Rightarrow> int list \<Rightarrow> bool" where
  "pool_rel n s xs \<longleftrightarrow>
     1 \<le> n \<and> n \<le> length (pool_buffer s) \<and> pool_size s = int n \<and> 0 \<le> pool_next s \<and> pool_next s < int n
     \<and> length xs \<le> n \<and> -1 \<notin> set xs
     \<and> rotate (nat (pool_next s)) (take n (pool_buffer s)) = replicate (n - length xs) (-1) @ rev xs"

lemma rotate_update:
  assumes "k < length l"
  shows "rotate (Suc k mod length l) (l[k := p]) = tl (rotate k l) @ [p]"
proof -
  have "rotate k l = l ! k # drop (Suc k) l @ take k l"
    using assms by (simp add: rotate_drop_take Cons_nth_drop_Suc [symmetric])
  then have "tl (rotate k l) = drop (Suc k) l @ take k l" by simp
  moreover have "rotate (Suc k mod length l) (l[k := p]) = drop (Suc k) l @ take k l @ [p]"
  proof (cases "Suc k = length l")
    case True
    then show ?thesis
      using assms by (simp add: list_eq_iff_nth_eq nth_append nth_list_update less_Suc_eq)
  next
    case False
    then show ?thesis using assms by (simp add: rotate_drop_take take_Suc_conv_app_nth)
  qed
  ultimately show ?thesis by simp
qed

lemma fifo_shift:
  assumes "length xs \<le> n" and "1 \<le> n" and "p \<notin> set xs"
  shows "tl (replicate (n - length xs) (-1) @ rev xs) @ [p]
    = replicate (n - length (fifo_spec_step n xs p)) (-1) @ rev (fifo_spec_step n xs p)"
proof (cases "length xs = n")
  case True
  then have "xs \<noteq> []" "take (n - 1) xs = butlast xs" using assms(2) by (auto simp: butlast_conv_take)
  then show ?thesis
    using True assms by (simp add: fifo_spec_step_def take_Cons' butlast_rev [symmetric] flip: rev_rev_ident)
      (metis butlast_rev rev_rev_ident)
next
  case False
  then obtain m where "n - length xs = Suc m" using assms(1) by (cases "n - length xs") auto
  moreover from this have "n - Suc (length xs) = m" by simp
  ultimately show ?thesis using assms False by (simp add: fifo_spec_step_def take_Cons')
qed

lemma pool_step_refines:
  assumes rel: "pool_rel n s xs" and p: "p \<noteq> -1"
  shows "\<exists>s'. pool_step s p = Inr (s', p \<in> set xs) \<and> pool_rel n s' (fifo_spec_step n xs p)"
proof -
  let ?l = "take n (pool_buffer s)" and ?k = "nat (pool_next s)"
  from rel have r: "1 \<le> n" "n \<le> length (pool_buffer s)" "pool_size s = int n" "0 \<le> pool_next s"
    "pool_next s < int n" "length xs \<le> n" "-1 \<notin> set xs"
    "rotate ?k ?l = replicate (n - length xs) (-1) @ rev xs" by (simp_all add: pool_rel_def)
  have "set ?l = set (replicate (n - length xs) (-1) @ rev xs)" using r(8) by (metis set_rotate)
  then have found: "pool_isPageInBuffer s p = Inr (p \<in> set xs)"
    using r p arr_any_prefix [of "int n" "pool_buffer s" "\<lambda>v. v = p"] by (auto simp: pool_isPageInBuffer_def)
  show ?thesis
  proof (cases "p \<in> set xs")
    case True
    then show ?thesis using found rel by (simp add: pool_step_def fifo_spec_step_def)
  next
    case False
    let ?s = "s\<lparr>pool_buffer := (pool_buffer s)[?k := p], pool_next := (pool_next s + 1) mod int n\<rparr>"
    have k: "?k < length ?l" "nat ((pool_next s + 1) mod int n) = Suc ?k mod length ?l" "length ?l = n"
      using r by (auto simp: nat_mod_distrib nat_add_distrib)
    have "rotate (nat ((pool_next s + 1) mod int n)) (take n ((pool_buffer s)[?k := p]))
        = tl (rotate ?k ?l) @ [p]"
      using rotate_update [OF k(1), of p] k(2) by (simp add: take_update_swap)
    also have "\<dots> = replicate (n - length (fifo_spec_step n xs p)) (-1) @ rev (fifo_spec_step n xs p)"
      unfolding r(8) using fifo_shift [OF r(6,1) False] .
    finally have "pool_rel n ?s (fifo_spec_step n xs p)"
      using r p by (auto simp: pool_rel_def fifo_spec_step_def dest: in_set_takeD)
    moreover have "(pool_next s + 1) smod int n = (pool_next s + 1) mod int n"
      using r by (simp add: smod_nonneg)
    then have "pool_step s p = Inr (?s, False)" using found False r by (simp add: pool_step_def)
    ultimately show ?thesis using False by simp
  qed
qed

lemma pool_run_refines:
  assumes "pool_rel n s xs" and "-1 \<notin> set pages"
  shows "\<exists>s'. foldE (serve pool_step) pages s = Inr s' \<and> pool_rel n s' (foldl (fifo_spec_step n) xs pages)"
  using assms
proof (induction pages arbitrary: s xs)
  case (Cons p ps)
  from Cons.prems have p: "p \<noteq> -1" by auto
  from pool_step_refines [OF Cons.prems(1) p] obtain s1 where
    "pool_step s p = Inr (s1, p \<in> set xs)" "pool_rel n s1 (fifo_spec_step n xs p)" by blast
  with Cons.IH [OF this(2)] Cons.prems show ?case by (simp add: serve_def [of pool_step s p])
qed simp

lemma pool_rel_set:
  assumes "pool_rel n s xs"
  shows "set (take n (pool_buffer s)) - {-1} = set xs"
proof -
  have "rotate (nat (pool_next s)) (take n (pool_buffer s)) = replicate (n - length xs) (-1) @ rev xs" "-1 \<notin> set xs"
    using assms by (simp_all add: pool_rel_def)
  then have "set (take n (pool_buffer s)) = set (replicate (n - length xs) (-1) @ rev xs)" by (metis set_rotate)
  then show ?thesis using \<open>-1 \<notin> set xs\<close> by auto
qed

lemma pool_init_eq:
  "pool_init n = (if n \<le> int pool_MAAX_PAGES
     then Inr \<lparr>pool_buffer = replicate (nat n) (-1) @ replicate (pool_MAAX_PAGES - nat n) 0, pool_size = n, pool_next = 0\<rparr>
     else Inl OutOfBounds)"
  by (simp add: pool_init_def foldE_fill map_replicate_const)

lemma pool_read_eq:
  "pool_read pages0 typed =
    (if length typed \<le> length pages0 then Inr (typed @ drop (length typed) pages0) else Inl OutOfBounds)"
proof -
  have "zip [0..int (length typed) - 1] typed = map (\<lambda>i. (i, typed ! nat i)) [0..int (length typed) - 1]"
    by (rule nth_equalityI) auto
  moreover have "map (\<lambda>i. typed ! nat i) [0..int (length typed) - 1] = typed"
    by (rule nth_equalityI) auto
  ultimately show ?thesis by (simp add: pool_read_def foldE_map foldE_fill)
qed

text \<open>
  The buffer pool of \<^verbatim>\<open>buffer_pool.c\<close> is a FIFO cache: for a pool of one to ten frames and at most
  twenty requests the program runs to the end, and the pages in the pool are those of the abstract
  queue in which a missing page enters at the front and the oldest page leaves when the pool is full.
\<close>
theorem pool_is_fifo:
  assumes "1 \<le> n" and "n \<le> 10" and "length typed \<le> 20" and "length pages0 = 20" and "-1 \<notin> set typed"
  shows "\<exists>s0 s out pre. pool_init n = Inr s0 \<and> ps_loop pool_step pool_line 0 typed s0 = Inr (s, out)
    \<and> pool_main pages0 typed n = Inr (pre @ out)
    \<and> set (take (nat n) (pool_buffer s)) - {-1} = set (foldl (fifo_spec_step (nat n)) [] typed)"
proof -
  have "Suc 0 \<le> nat n" "nat n \<le> 10" using assms by simp_all
  then obtain s0 where s0: "pool_init n = Inr s0" "pool_rel (nat n) s0 []"
    using assms(1,2) by (simp add: pool_init_eq pool_MAAX_PAGES_def pool_rel_def)
  from pool_run_refines [OF s0(2) assms(5)] obtain s where
    s: "foldE (serve pool_step) typed s0 = Inr s" "pool_rel (nat n) s (foldl (fifo_spec_step (nat n)) [] typed)" by blast
  from ps_loop_total [OF s(1)] obtain out where out: "ps_loop pool_step pool_line 0 typed s0 = Inr (s, out)" by blast
  from assms(3,4) have "pool_read pages0 typed = Inr (typed @ drop (length typed) pages0)"
    by (simp add: pool_read_eq)
  then show ?thesis
    using s0(1) out pool_rel_set [OF s(2)] by (auto simp: pool_main_def)
qed

theorem pool_is_fifo_witness:
  "foldl (fifo_spec_step 2) [] [7, 8, 7, 9] = [9, 8::int]
   \<and> (\<exists>s0 s out. pool_init 2 = Inr s0 \<and> ps_loop pool_step pool_line 0 [7, 8, 7, 9] s0 = Inr (s, out)
        \<and> set (take 2 (pool_buffer s)) - {-1} = {8, 9})"
proof -
  have sp: "foldl (fifo_spec_step 2) [] [7, 8, 7, 9] = [9, 8::int]" by (simp add: fifo_spec_step_def)
  have "set [9, 8::int] = {8, 9}" by auto
  with pool_is_fifo [of 2 "[7, 8, 7, 9]" "replicate 20 0"] sp show ?thesis by fastforce
qed

text \<open>
  The bounds that \<^verbatim>\<open>buffer_pool.c\<close> does not check: more than twenty requests overrun \<^verbatim>\<open>pages\<close>, and a
  pool size above ten overruns \<^verbatim>\<open>buffer\<close> while it is being emptied.
\<close>
theorem pool_main_overflow:
  assumes "20 < length typed \<or> 10 < n" and "length pages0 = 20"
  shows "pool_main pages0 typed n = Inl OutOfBounds"
  using assms by (auto simp: pool_main_def pool_read_eq pool_init_eq pool_MAAX_PAGES_def)

theorem pool_main_overflow_witness:
  "pool_main (replicate 20 0) [1, 2, 3] 11 = Inl OutOfBounds"
  by (rule pool_main_overflow) simp_all

end
