(* ===== verification/Heap.thy ===== *)
theory Heap
  imports Interfaces
begin

text \<open>
  A store for the programs that mutate linked nodes: a partial map from addresses to nodes and the
  next fresh address. Address 0 is \<^verbatim>\<open>NULL\<close>; an access through it is a \<^const>\<open>NullDeref\<close>, an access to a
  freed node a \<^const>\<open>UseAfterFree\<close>. Addresses are not reused after \<^verbatim>\<open>free\<close>, so that every stale access is
  seen. The pointer loops that the programs share are here, with the predicate \<open>path\<close> that
  relates a chain of nodes to the list of its addresses.

  The loops carry as fuel the number of addresses handed out so far. They do not write, so a walk
  that makes more steps has come back to a node it has passed and never ends: the result is then
  \<^const>\<open>Diverges\<close>.
\<close>

record 'n heap =
  cells :: "nat \<Rightarrow> 'n option"
  brk :: nat

definition heap_empty :: "'n heap" where
  "heap_empty = \<lparr>cells = (\<lambda>_. None), brk = 1\<rparr>"

definition h_get :: "'n heap \<Rightarrow> nat \<Rightarrow> 'n res" where
  "h_get h a = (if a = 0 then Inl NullDeref
     else case cells h a of None \<Rightarrow> Inl UseAfterFree | Some n \<Rightarrow> Inr n)"

definition h_put :: "'n heap \<Rightarrow> nat \<Rightarrow> 'n \<Rightarrow> 'n heap res" where
  "h_put h a n = bindE (h_get h a) (\<lambda>_. Inr (h\<lparr>cells := (cells h)(a := Some n)\<rparr>))"

definition h_free :: "'n heap \<Rightarrow> nat \<Rightarrow> 'n heap res" where
  "h_free h a = (if a = 0 then Inr h
     else bindE (h_get h a) (\<lambda>_. Inr (h\<lparr>cells := (cells h)(a := None)\<rparr>)))"

definition h_alloc :: "'n heap \<Rightarrow> 'n \<Rightarrow> 'n heap \<times> nat" where
  "h_alloc h n = (h\<lparr>cells := (cells h)(brk h := Some n), brk := brk h + 1\<rparr>, brk h)"

definition heap_wf :: "'n heap \<Rightarrow> bool" where
  "heap_wf h \<longleftrightarrow> 0 < brk h \<and> cells h 0 = None \<and> (\<forall>a\<ge>brk h. cells h a = None)"

section \<open>Chains of nodes\<close>

fun path :: "('n \<Rightarrow> nat) \<Rightarrow> (nat \<Rightarrow> 'n option) \<Rightarrow> nat \<Rightarrow> nat list \<Rightarrow> nat \<Rightarrow> bool" where
  "path nx m p [] q \<longleftrightarrow> p = q"
| "path nx m p (a # as) q \<longleftrightarrow> p = a \<and> a \<noteq> 0 \<and> (case m a of None \<Rightarrow> False | Some n \<Rightarrow> path nx m (nx n) as q)"

text \<open>
  \<open>h_search\<close> is \<^verbatim>\<open>while (t != NULL && !P(t)) { prev = t; t = t->next; }\<close>, \<open>h_last\<close> is
  \<^verbatim>\<open>while (t->next != NULL) t = t->next;\<close> and \<open>h_collect\<close> a loop that visits every node.
\<close>

fun h_search :: "nat \<Rightarrow> ('n \<Rightarrow> nat) \<Rightarrow> ('n \<Rightarrow> bool) \<Rightarrow> 'n heap \<Rightarrow> nat \<Rightarrow> nat \<Rightarrow> (nat \<times> nat) res" where
  "h_search 0 nx P h prev t = (if t = 0 then Inr (prev, t) else Inl Diverges)"
| "h_search (Suc k) nx P h prev t =
     (if t = 0 then Inr (prev, t)
      else bindE (h_get h t) (\<lambda>n. if P n then Inr (prev, t) else h_search k nx P h t (nx n)))"

fun h_last :: "nat \<Rightarrow> ('n \<Rightarrow> nat) \<Rightarrow> 'n heap \<Rightarrow> nat \<Rightarrow> nat res" where
  "h_last 0 nx h t = Inl Diverges"
| "h_last (Suc k) nx h t = bindE (h_get h t) (\<lambda>n. if nx n = 0 then Inr t else h_last k nx h (nx n))"

fun h_collect :: "nat \<Rightarrow> ('n \<Rightarrow> nat) \<Rightarrow> ('n \<Rightarrow> 'b list) \<Rightarrow> 'n heap \<Rightarrow> nat \<Rightarrow> 'b list res" where
  "h_collect 0 nx f h t = (if t = 0 then Inr [] else Inl Diverges)"
| "h_collect (Suc k) nx f h t =
     (if t = 0 then Inr []
      else bindE (h_get h t) (\<lambda>n. bindE (h_collect k nx f h (nx n)) (\<lambda>r. Inr (f n @ r))))"

text \<open>\<^verbatim>\<open>while (t) { next = t->next; free(t); t = next; }\<close>\<close>

fun h_free_chain :: "nat \<Rightarrow> ('n \<Rightarrow> nat) \<Rightarrow> 'n heap \<Rightarrow> nat \<Rightarrow> 'n heap res" where
  "h_free_chain 0 nx h t = (if t = 0 then Inr h else Inl Diverges)"
| "h_free_chain (Suc k) nx h t =
     (if t = 0 then Inr h
      else bindE (h_get h t) (\<lambda>n. bindE (h_free h t) (\<lambda>h'. h_free_chain k nx h' (nx n))))"

section \<open>Lemmas\<close>

lemma h_get_Some [simp]: "cells h a = Some n \<Longrightarrow> a \<noteq> 0 \<Longrightarrow> h_get h a = Inr n"
  by (simp add: h_get_def)

lemma h_get_NULL [simp]: "h_get h 0 = Inl NullDeref"
  by (simp add: h_get_def)

lemma h_put_Some [simp]:
  "cells h a = Some n0 \<Longrightarrow> a \<noteq> 0 \<Longrightarrow> h_put h a n = Inr (h\<lparr>cells := (cells h)(a := Some n)\<rparr>)"
  by (simp add: h_put_def)

lemma h_free_Some [simp]:
  "cells h a = Some n0 \<Longrightarrow> a \<noteq> 0 \<Longrightarrow> h_free h a = Inr (h\<lparr>cells := (cells h)(a := None)\<rparr>)"
  by (simp add: h_free_def)

lemma heap_upd_commute [simp]: "h\<lparr>brk := b, cells := c\<rparr> = h\<lparr>cells := c, brk := b\<rparr>"
  by (cases h) simp

lemma heap_wf_empty [simp]: "heap_wf heap_empty"
  by (simp add: heap_wf_def heap_empty_def)

lemma heap_wf_alloc: "heap_wf h \<Longrightarrow> heap_wf (h\<lparr>cells := (cells h)(brk h := Some n), brk := brk h + 1\<rparr>)"
  by (simp add: heap_wf_def)

lemma heap_wf_fresh: "heap_wf h \<Longrightarrow> cells h (brk h) = None"
  by (simp add: heap_wf_def)

lemma heap_wf_upd:
  "heap_wf h \<Longrightarrow> cells h a = Some n0 \<Longrightarrow> heap_wf (h\<lparr>cells := (cells h)(a := v)\<rparr>)"
  by (auto simp: heap_wf_def)

lemma path_append: "path nx m p (as @ bs) r \<longleftrightarrow> (\<exists>q. path nx m p as q \<and> path nx m q bs r)"
  by (induction as arbitrary: p) (auto split: option.splits)

lemma path_upd_notin [simp]: "a \<notin> set as \<Longrightarrow> path nx (m(a := v)) p as q = path nx m p as q"
  by (induction as arbitrary: p) (auto split: option.splits)

lemma path_cong: "(\<And>a. a \<in> set as \<Longrightarrow> m' a = m a) \<Longrightarrow> path nx m' p as q = path nx m p as q"
  by (induction as arbitrary: p) (auto split: option.splits)

lemma path_in_dom: "path nx m p as q \<Longrightarrow> a \<in> set as \<Longrightarrow> a \<noteq> 0 \<and> (\<exists>n. m a = Some n)"
  by (induction as arbitrary: p) (auto split: option.splits)

lemma path_unique: "path nx m p as 0 \<Longrightarrow> path nx m p bs 0 \<Longrightarrow> as = bs"
proof (induction as arbitrary: p bs)
  case Nil
  then show ?case by (cases bs) auto
next
  case (Cons a as)
  then show ?case by (cases bs) (auto split: option.splits)
qed

lemma path_distinct: "path nx m p as 0 \<Longrightarrow> distinct as"
proof (induction as arbitrary: p)
  case (Cons a as)
  then obtain n where n: "m a = Some n" "a \<noteq> 0" "path nx m (nx n) as 0" by (auto split: option.splits)
  have "a \<notin> set as"
  proof
    assume "a \<in> set as"
    then obtain us vs where as: "as = us @ a # vs" by (auto simp: in_set_conv_decomp)
    then have "path nx m (nx n) vs 0" using n by (auto simp: path_append)
    then have "vs = as" using n path_unique by metis
    then show False using as by (metis append_assoc append_is_Nil_conv not_Cons_self2 self_append_conv2 append_Cons append_Nil)
  qed
  with Cons.IH n show ?case by auto
qed simp

lemma path_length:
  assumes "heap_wf h" and "path nx (cells h) p as 0"
  shows "length as < brk h"
proof -
  have "set as \<subseteq> {1..<brk h}"
    using path_in_dom [OF assms(2)] assms(1) by (force simp: heap_wf_def Suc_le_eq not_less [symmetric])
  then have "card (set as) \<le> card {1..<brk h}" by (intro card_mono) auto
  also have "\<dots> < brk h" using assms(1) by (simp add: heap_wf_def)
  finally show ?thesis using distinct_card [OF path_distinct [OF assms(2)]] by simp
qed

lemma path_fresh: "heap_wf h \<Longrightarrow> path nx (cells h) p as q \<Longrightarrow> brk h \<notin> set as"
  using path_in_dom heap_wf_fresh by fastforce

lemma path_Nil_iff: "path nx m p as 0 \<Longrightarrow> as = [] \<longleftrightarrow> p = 0"
  by (cases as) auto

lemma h_search_path:
  assumes "path nx (cells h) p as 0" and "length as \<le> k"
  shows "h_search k nx P h prev p =
    Inr (last (prev # takeWhile (\<lambda>a. \<not> P (the (cells h a))) as),
         case dropWhile (\<lambda>a. \<not> P (the (cells h a))) as of [] \<Rightarrow> 0 | a # _ \<Rightarrow> a)"
  using assms
proof (induction as arbitrary: p prev k)
  case Nil
  then show ?case by (cases k) auto
next
  case (Cons a as)
  then obtain n k' where "cells h a = Some n" "a \<noteq> 0" "p = a" "path nx (cells h) (nx n) as 0" "k = Suc k'"
    by (cases k) (auto split: option.splits)
  with Cons show ?case by auto
qed

lemma h_search_found:
  assumes "heap_wf h" and "path nx (cells h) p (us @ b # vs) 0"
    and "P (the (cells h b))" and "\<forall>c\<in>set us. \<not> P (the (cells h c))"
  shows "h_search (brk h) nx P h prev p = Inr (last (prev # us), b)"
proof -
  have "takeWhile (\<lambda>a. \<not> P (the (cells h a))) (us @ b # vs) = us"
    "dropWhile (\<lambda>a. \<not> P (the (cells h a))) (us @ b # vs) = b # vs"
    using assms by (simp_all add: takeWhile_append dropWhile_append)
  then show ?thesis using h_search_path [OF assms(2), of "brk h"] path_length [OF assms(1,2)] by simp
qed

lemma h_search_absent:
  assumes "heap_wf h" and "path nx (cells h) p as 0" and "\<forall>c\<in>set as. \<not> P (the (cells h c))"
  shows "h_search (brk h) nx P h prev p = Inr (last (prev # as), 0)"
proof -
  have tw: "takeWhile (\<lambda>a. \<not> P (the (cells h a))) as = as" "dropWhile (\<lambda>a. \<not> P (the (cells h a))) as = []"
    using assms by auto
  show ?thesis
    using h_search_path [OF assms(2), of "brk h" P prev] path_length [OF assms(1,2)] unfolding tw by simp
qed

lemma h_last_path:
  assumes "path nx (cells h) p as 0" and "as \<noteq> []" and "length as \<le> k"
  shows "h_last k nx h p = Inr (last as)"
  using assms
proof (induction as arbitrary: p k)
  case (Cons a as)
  then obtain n k' where n: "cells h a = Some n" "a \<noteq> 0" "p = a" "path nx (cells h) (nx n) as 0" "k = Suc k'"
    by (cases k) (auto split: option.splits)
  with Cons show ?case by (auto simp: path_Nil_iff [OF n(4), symmetric])
qed simp

lemma h_collect_path:
  assumes "path nx (cells h) p as 0" and "length as \<le> k"
  shows "h_collect k nx f h p = Inr (concat (map (\<lambda>a. f (the (cells h a))) as))"
  using assms
proof (induction as arbitrary: p k)
  case Nil
  then show ?case by (cases k) auto
next
  case (Cons a as)
  then obtain n k' where "cells h a = Some n" "a \<noteq> 0" "p = a" "path nx (cells h) (nx n) as 0" "k = Suc k'"
    by (cases k) (auto split: option.splits)
  with Cons show ?case by auto
qed

text \<open>More fuel does not change the result of a walk that ends.\<close>

lemma h_search_more_fuel:
  "h_search k nx P h prev p = Inr r \<Longrightarrow> h_search (k + d) nx P h prev p = Inr r"
proof (induction k arbitrary: prev p)
  case 0
  then show ?case by (cases d) (auto split: if_splits)
next
  case (Suc k)
  then show ?case by (auto simp: bindE_eq_Inr split: if_splits)
qed

text \<open>Linking a new last node to a chain, and unlinking an inner one.\<close>

lemma path_snoc:
  assumes p: "path nx m p (as @ [r]) 0" and n': "nx n' = b" and b: "b \<noteq> 0" "b \<notin> set (as @ [r])" "m b = Some nb" "nx nb = 0"
  shows "path nx (m(r := Some n')) p (as @ [r, b]) 0"
proof -
  have "r \<notin> set as" "b \<noteq> r" using path_distinct [OF p] b by auto
  moreover from p have "path nx m p as r" "r \<noteq> 0" by (auto simp: path_append split: option.splits)
  ultimately show ?thesis using n' b by (auto simp: path_append)
qed

lemma path_unlink:
  assumes p: "path nx m p (us @ a # b # vs) 0" and n: "m b = Some nb" and n': "nx n' = nx nb"
  shows "path nx (m(a := Some n', b := None)) p (us @ a # vs) 0"
proof -
  have d: "a \<notin> set us" "b \<notin> set us" "a \<notin> set vs" "b \<notin> set vs" "a \<noteq> b" using path_distinct [OF p] by auto
  from p have "path nx m p us a" "a \<noteq> 0" "path nx m (nx nb) vs 0"
    using n by (auto simp: path_append split: option.splits)
  with d n' show ?thesis by (auto simp: path_append fun_upd_twist)
qed

lemma h_free_chain_path:
  assumes "path nx (cells h) p as 0" and "length as \<le> k"
  shows "h_free_chain k nx h p = Inr (h\<lparr>cells := (\<lambda>a. if a \<in> set as then None else cells h a)\<rparr>)"
  using assms
proof (induction as arbitrary: p k h)
  case Nil
  then show ?case by (cases k) auto
next
  case (Cons a as)
  then obtain n k' where n: "cells h a = Some n" "a \<noteq> 0" "p = a" "path nx (cells h) (nx n) as 0" "k = Suc k'"
    by (cases k) (auto split: option.splits)
  have "a \<notin> set as" using path_distinct [OF Cons.prems(1)] by simp
  then have "path nx (cells (h\<lparr>cells := (cells h)(a := None)\<rparr>)) (nx n) as 0" using n by simp
  from Cons.IH [OF this, of k'] Cons.prems n show ?case
    by (auto simp: fun_eq_iff intro!: arg_cong [of _ _ "\<lambda>c. h\<lparr>cells := c\<rparr>"])
qed

end
