(* ===== verification/StacksQueues.thy ===== *)
theory StacksQueues
  imports Heap
begin

text \<open>
  The programs of \<^verbatim>\<open>day-3.5(Linked_Stack_Queue)\<close>: a linked list, a stack and a queue in an array of
  five cells, and a stack and a queue of linked nodes. The linked ones work on the store of
  \<^verbatim>\<open>Heap\<close>; the outcome of \<^verbatim>\<open>malloc\<close> is the argument \<open>ok\<close>.
\<close>

section \<open>The code\<close>

record snode =
  sn_data :: int
  sn_next :: nat

subsection \<open>Linked list\<close>

record ll_state =
  ll_heap :: "snode heap"
  ll_head :: nat

definition ll_createNode :: "bool \<Rightarrow> snode heap \<Rightarrow> int \<Rightarrow> (snode heap \<times> nat) res" where
  "ll_createNode ok h value =
     (if \<not> ok then Inl NullDeref else Inr (h_alloc h \<lparr>sn_data = value, sn_next = 0\<rparr>))"

definition ll_insertAtBeginning :: "bool \<Rightarrow> ll_state \<Rightarrow> int \<Rightarrow> ll_state res" where
  "ll_insertAtBeginning ok s value =
     bindE (ll_createNode ok (ll_heap s) value) (\<lambda>(h, newNode).
     bindE (h_get h newNode) (\<lambda>n.
     bindE (h_put h newNode (n\<lparr>sn_next := ll_head s\<rparr>)) (\<lambda>h'.
     Inr \<lparr>ll_heap = h', ll_head = newNode\<rparr>)))"

definition ll_insertAtEnd :: "bool \<Rightarrow> ll_state \<Rightarrow> int \<Rightarrow> ll_state res" where
  "ll_insertAtEnd ok s value =
     bindE (ll_createNode ok (ll_heap s) value) (\<lambda>(h, newNode).
       if ll_head s = 0 then Inr \<lparr>ll_heap = h, ll_head = newNode\<rparr>
       else bindE (h_last (brk h) sn_next h (ll_head s)) (\<lambda>temp.
            bindE (h_get h temp) (\<lambda>n.
            bindE (h_put h temp (n\<lparr>sn_next := newNode\<rparr>)) (\<lambda>h'.
            Inr \<lparr>ll_heap = h', ll_head = ll_head s\<rparr>))))"

definition ll_deleteNode :: "ll_state \<Rightarrow> int \<Rightarrow> ll_state res" where
  "ll_deleteNode s value =
     (let h = ll_heap s; temp = ll_head s in
      bindE (if temp = 0 then Inr False else bindE (h_get h temp) (\<lambda>n. Inr (sn_data n = value))) (\<lambda>first.
      if first then
        bindE (h_get h temp) (\<lambda>n. bindE (h_free h temp) (\<lambda>h'. Inr \<lparr>ll_heap = h', ll_head = sn_next n\<rparr>))
      else
        bindE (h_search (brk h) sn_next (\<lambda>n. sn_data n = value) h 0 temp) (\<lambda>(prev, temp).
        if temp = 0 then Inr s
        else bindE (h_get h temp) (\<lambda>n.
             bindE (h_get h prev) (\<lambda>np.
             bindE (h_put h prev (np\<lparr>sn_next := sn_next n\<rparr>)) (\<lambda>h1.
             bindE (h_free h1 temp) (\<lambda>h2. Inr \<lparr>ll_heap = h2, ll_head = ll_head s\<rparr>)))))))"

definition ll_display :: "ll_state \<Rightarrow> outs res" where
  "ll_display s =
     bindE (h_collect (brk (ll_heap s)) sn_next (\<lambda>n. [Num (sn_data n), Txt '' -> '']) (ll_heap s) (ll_head s))
       (\<lambda>out. Inr (out @ [Txt ''NULL \<newline>'']))"

definition ll_main :: "outs res" where
  "ll_main =
     (let s0 = \<lparr>ll_heap = heap_empty, ll_head = 0\<rparr> in
      bindE (ll_display s0) (\<lambda>o0.
      bindE (ll_insertAtEnd True s0 20) (\<lambda>s1. bindE (ll_display s1) (\<lambda>o1.
      bindE (ll_insertAtEnd True s1 10) (\<lambda>s2. bindE (ll_display s2) (\<lambda>o2.
      bindE (ll_insertAtBeginning True s2 5) (\<lambda>s3. bindE (ll_display s3) (\<lambda>o3.
      bindE (ll_deleteNode s3 20) (\<lambda>s4. bindE (ll_display s4) (\<lambda>o4.
      Inr (o0 @ o1 @ o2 @ o3 @ o4)))))))))))"

subsection \<open>Stack in an array\<close>

definition sq_SIZE :: nat where
  "sq_SIZE = 5"

record sa_stack =
  sa_array :: "int list"
  sa_top :: int

definition sa_init :: "sa_stack \<Rightarrow> sa_stack" where
  "sa_init s = s\<lparr>sa_top := -1\<rparr>"

definition sa_isEmpty :: "sa_stack \<Rightarrow> bool" where
  "sa_isEmpty s \<longleftrightarrow> sa_top s = -1"

definition sa_isFull :: "sa_stack \<Rightarrow> bool" where
  "sa_isFull s \<longleftrightarrow> sa_top s = int sq_SIZE - 1"

definition sa_push :: "sa_stack \<Rightarrow> int \<Rightarrow> (sa_stack \<times> outs) res" where
  "sa_push s value =
     (if sa_isFull s then Inr (s, [Txt ''Stack overflow! Can't insert '', Num value, Txt '' \<newline>''])
      else bindE (arr_set (sa_array s) (sa_top s + 1) value) (\<lambda>a.
           Inr (s\<lparr>sa_array := a, sa_top := sa_top s + 1\<rparr>, [Num value, Txt '' is pushed to the stack \<newline>''])))"

definition sa_pop :: "sa_stack \<Rightarrow> (sa_stack \<times> int \<times> outs) res" where
  "sa_pop s =
     (if sa_isEmpty s then Inr (s, -1, [Txt ''Stack underflow! Can't pop \<newline>''])
      else bindE (arr_get (sa_array s) (sa_top s)) (\<lambda>v. Inr (s\<lparr>sa_top := sa_top s - 1\<rparr>, v, [])))"

definition sa_peek :: "sa_stack \<Rightarrow> (int \<times> outs) res" where
  "sa_peek s =
     (if sa_isEmpty s then Inr (-1, [Txt ''Stack is empty \<newline>''])
      else bindE (arr_get (sa_array s) (sa_top s)) (\<lambda>v. Inr (v, [])))"

definition sa_display :: "sa_stack \<Rightarrow> outs res" where
  "sa_display s =
     (if sa_isEmpty s then Inr [Txt ''Stack is empty \<newline>'']
      else bindE (foldE (\<lambda>out i. bindE (arr_get (sa_array s) i) (\<lambda>v. Inr (out @ [Num v, Txt '' \<newline>''])))
                   (rev [0..sa_top s]) [Txt ''Stack elements : \<newline>''])
             (\<lambda>out. Inr (out @ [Txt ''\<newline>''])))"

definition sa_main :: "sa_stack \<Rightarrow> outs res" where
  "sa_main junk =
     (let s = sa_init junk in
      bindE (sa_display s) (\<lambda>d0.
      bindE (sa_push s 10) (\<lambda>(s, p1). bindE (sa_display s) (\<lambda>d1.
      bindE (sa_push s 20) (\<lambda>(s, p2). bindE (sa_display s) (\<lambda>d2.
      bindE (sa_push s 30) (\<lambda>(s, p3). bindE (sa_display s) (\<lambda>d3.
      bindE (sa_pop s) (\<lambda>(s, v, p4). bindE (sa_display s) (\<lambda>d4.
      bindE (sa_peek s) (\<lambda>(w, p5). bindE (sa_display s) (\<lambda>d5.
      Inr (d0 @ p1 @ d1 @ p2 @ d2 @ p3 @ d3 @ p4 @ [Txt ''Popped element : '', Num v, Txt '' \<newline>''] @ d4
           @ p5 @ [Txt ''Top element : '', Num w, Txt '' \<newline>''] @ d5)))))))))))))"

subsection \<open>Queue in an array\<close>

record qa_queue =
  qa_array :: "int list"
  qa_front :: int
  qa_rear :: int

definition qa_init :: "qa_queue \<Rightarrow> qa_queue" where
  "qa_init q = q\<lparr>qa_front := -1, qa_rear := -1\<rparr>"

definition qa_isEmpty :: "qa_queue \<Rightarrow> bool" where
  "qa_isEmpty q \<longleftrightarrow> qa_front q = -1"

definition qa_isFull :: "qa_queue \<Rightarrow> bool" where
  "qa_isFull q \<longleftrightarrow> qa_rear q = int sq_SIZE - 1"

definition qa_enqueue :: "qa_queue \<Rightarrow> int \<Rightarrow> (qa_queue \<times> outs) res" where
  "qa_enqueue q value =
     (if qa_isFull q then Inr (q, [Txt ''Queue overflow! \<newline>''])
      else let q1 = (if qa_front q = -1 then q\<lparr>qa_front := 0\<rparr> else q)
           in bindE (arr_set (qa_array q1) (qa_rear q1 + 1) value) (\<lambda>a.
              Inr (q1\<lparr>qa_array := a, qa_rear := qa_rear q1 + 1\<rparr>,
                   [Num value, Txt '' is added to the queue \<newline>''])))"

definition qa_dequeue :: "qa_queue \<Rightarrow> (qa_queue \<times> int \<times> outs) res" where
  "qa_dequeue q =
     (if qa_isEmpty q then Inr (q, -1, [Txt ''Queue underflow! \<newline>''])
      else bindE (arr_get (qa_array q) (qa_front q)) (\<lambda>v.
           Inr (if qa_front q = qa_rear q then q\<lparr>qa_front := -1, qa_rear := -1\<rparr>
                else q\<lparr>qa_front := qa_front q + 1\<rparr>, v, [])))"

definition qa_display :: "qa_queue \<Rightarrow> outs res" where
  "qa_display q =
     (if qa_isEmpty q then Inr [Txt ''Queue is empty! \<newline>'']
      else bindE (foldE (\<lambda>out i. bindE (arr_get (qa_array q) i) (\<lambda>v. Inr (out @ [Num v, Txt '' ''])))
                   [qa_front q..qa_rear q] [Txt ''Queue elements : \<newline>''])
             (\<lambda>out. Inr (out @ [Txt ''\<newline>''])))"

definition qa_main :: "qa_queue \<Rightarrow> outs res" where
  "qa_main junk =
     (let q = qa_init junk in
      bindE (qa_display q) (\<lambda>d0.
      bindE (qa_enqueue q 10) (\<lambda>(q, p1). bindE (qa_display q) (\<lambda>d1.
      bindE (qa_enqueue q 20) (\<lambda>(q, p2). bindE (qa_display q) (\<lambda>d2.
      bindE (qa_enqueue q 30) (\<lambda>(q, p3). bindE (qa_display q) (\<lambda>d3.
      bindE (qa_dequeue q) (\<lambda>(q, v, p4). bindE (qa_display q) (\<lambda>d4.
      Inr (d0 @ p1 @ d1 @ p2 @ d2 @ p3 @ d3 @ p4 @ [Txt ''Dequeued number : '', Num v, Txt '' \<newline>'']
           @ d4)))))))))))"

subsection \<open>Stack of linked nodes\<close>

record sl_state =
  sl_heap :: "snode heap"
  sl_top :: nat

definition sl_createNode :: "bool \<Rightarrow> snode heap \<Rightarrow> int \<Rightarrow> (snode heap \<times> nat) res" where
  "sl_createNode ok h value =
     (if \<not> ok then Inl (Exited 1) else Inr (h_alloc h \<lparr>sn_data = value, sn_next = 0\<rparr>))"

definition sl_isEmpty :: "nat \<Rightarrow> bool" where
  "sl_isEmpty p \<longleftrightarrow> p = 0"

definition sl_push :: "bool \<Rightarrow> sl_state \<Rightarrow> int \<Rightarrow> (sl_state \<times> outs) res" where
  "sl_push ok s value =
     bindE (sl_createNode ok (sl_heap s) value) (\<lambda>(h, newNode).
     bindE (h_get h newNode) (\<lambda>n.
     bindE (h_put h newNode (n\<lparr>sn_next := sl_top s\<rparr>)) (\<lambda>h'.
     Inr (\<lparr>sl_heap = h', sl_top = newNode\<rparr>, [Num value, Txt '' is pushed to the stack \<newline>'']))))"

definition sl_pop :: "sl_state \<Rightarrow> (sl_state \<times> int \<times> outs) res" where
  "sl_pop s =
     (if sl_isEmpty (sl_top s) then Inr (s, -1, [Txt ''Stack is underflow \<newline>''])
      else bindE (h_get (sl_heap s) (sl_top s)) (\<lambda>n.
           bindE (h_free (sl_heap s) (sl_top s)) (\<lambda>h'.
           Inr (\<lparr>sl_heap = h', sl_top = sn_next n\<rparr>, sn_data n, []))))"

definition sl_peek :: "sl_state \<Rightarrow> (int \<times> outs) res" where
  "sl_peek s =
     (if sl_isEmpty (sl_top s) then Inr (-1, [Txt ''Stack is empty \<newline>''])
      else bindE (h_get (sl_heap s) (sl_top s)) (\<lambda>n. Inr (sn_data n, [])))"

definition sl_display :: "sl_state \<Rightarrow> outs res" where
  "sl_display s =
     (if sl_isEmpty (sl_top s) then Inr [Txt ''Stack is empty \<newline>'']
      else bindE (h_collect (brk (sl_heap s)) sn_next (\<lambda>n. [Num (sn_data n), Txt '' \<newline>'']) (sl_heap s) (sl_top s))
             (\<lambda>out. Inr ([Txt ''Stack elements : \<newline>''] @ out @ [Txt ''\<newline>''])))"

definition sl_main :: "outs res" where
  "sl_main =
     (let s = \<lparr>sl_heap = heap_empty, sl_top = 0\<rparr> in
      bindE (sl_display s) (\<lambda>d0.
      bindE (sl_push True s 10) (\<lambda>(s, p1). bindE (sl_display s) (\<lambda>d1.
      bindE (sl_push True s 20) (\<lambda>(s, p2). bindE (sl_display s) (\<lambda>d2.
      bindE (sl_push True s 30) (\<lambda>(s, p3). bindE (sl_display s) (\<lambda>d3.
      bindE (sl_pop s) (\<lambda>(s, v, p4). bindE (sl_display s) (\<lambda>d4.
      bindE (sl_peek s) (\<lambda>(w, p5). bindE (sl_display s) (\<lambda>d5.
      Inr (d0 @ p1 @ d1 @ p2 @ d2 @ p3 @ d3 @ p4 @ [Txt ''Popped Element is '', Num v, Txt '' \<newline>''] @ d4
           @ p5 @ [Txt ''Top element is '', Num w, Txt '' \<newline>''] @ d5)))))))))))))"

subsection \<open>Queue of linked nodes\<close>

record ql_queue =
  ql_heap :: "snode heap"
  ql_front :: nat
  ql_rear :: nat

definition ql_init :: "snode heap \<Rightarrow> ql_queue" where
  "ql_init h = \<lparr>ql_heap = h, ql_front = 0, ql_rear = 0\<rparr>"

definition ql_isEmpty :: "ql_queue \<Rightarrow> bool" where
  "ql_isEmpty q \<longleftrightarrow> ql_front q = 0"

definition ql_createNode :: "bool \<Rightarrow> snode heap \<Rightarrow> int \<Rightarrow> (snode heap \<times> nat) res" where
  "ql_createNode ok h value =
     (if \<not> ok then Inl (Exited 1) else Inr (h_alloc h \<lparr>sn_data = value, sn_next = 0\<rparr>))"

definition ql_enqueue :: "bool \<Rightarrow> ql_queue \<Rightarrow> int \<Rightarrow> (ql_queue \<times> outs) res" where
  "ql_enqueue ok q value =
     bindE (ql_createNode ok (ql_heap q) value) (\<lambda>(h, newNode).
     bindE (if ql_rear q = 0 then Inr \<lparr>ql_heap = h, ql_front = newNode, ql_rear = newNode\<rparr>
            else bindE (h_get h (ql_rear q)) (\<lambda>n.
                 bindE (h_put h (ql_rear q) (n\<lparr>sn_next := newNode\<rparr>)) (\<lambda>h'.
                 Inr \<lparr>ql_heap = h', ql_front = ql_front q, ql_rear = newNode\<rparr>)))
       (\<lambda>q'. Inr (q', [Num value, Txt '' enqueued to queue\<newline>''])))"

definition ql_dequeue :: "ql_queue \<Rightarrow> (ql_queue \<times> int \<times> outs) res" where
  "ql_dequeue q =
     (if ql_isEmpty q then Inr (q, -1, [Txt ''Queue Underflow! Nothing to dequeue\<newline>''])
      else bindE (h_get (ql_heap q) (ql_front q)) (\<lambda>n.
           let front = sn_next n; rear = (if front = 0 then 0 else ql_rear q)
           in bindE (h_free (ql_heap q) (ql_front q)) (\<lambda>h'.
              Inr (\<lparr>ql_heap = h', ql_front = front, ql_rear = rear\<rparr>, sn_data n, []))))"

definition ql_peek :: "ql_queue \<Rightarrow> (int \<times> outs) res" where
  "ql_peek q =
     (if ql_isEmpty q then Inr (-1, [Txt ''Queue is empty\<newline>''])
      else bindE (h_get (ql_heap q) (ql_front q)) (\<lambda>n. Inr (sn_data n, [])))"

definition ql_display :: "ql_queue \<Rightarrow> outs res" where
  "ql_display q =
     (if ql_isEmpty q then Inr [Txt ''Queue is empty\<newline>'']
      else bindE (h_collect (brk (ql_heap q)) sn_next (\<lambda>n. [Num (sn_data n), Txt '' '']) (ql_heap q) (ql_front q))
             (\<lambda>out. Inr ([Txt ''Queue elements: ''] @ out @ [Txt ''\<newline>''])))"

definition ql_main :: "outs res" where
  "ql_main =
     (let q = ql_init heap_empty in
      bindE (ql_display q) (\<lambda>d0.
      bindE (ql_enqueue True q 10) (\<lambda>(q, p1). bindE (ql_display q) (\<lambda>d1.
      bindE (ql_enqueue True q 20) (\<lambda>(q, p2). bindE (ql_display q) (\<lambda>d2.
      bindE (ql_enqueue True q 30) (\<lambda>(q, p3). bindE (ql_display q) (\<lambda>d3.
      bindE (ql_dequeue q) (\<lambda>(q, v, p4). bindE (ql_display q) (\<lambda>d4.
      bindE (ql_peek q) (\<lambda>(w, p5).
      Inr (d0 @ p1 @ d1 @ p2 @ d2 @ p3 @ d3 @ p4 @ [Txt ''Dequeued element: '', Num v, Txt '' \<newline>''] @ d4
           @ p5 @ [Txt ''Front element: '', Num w, Txt '' \<newline>'']))))))))))))"

section \<open>The arrays hold the abstract sequences\<close>

definition sa_contents :: "sa_stack \<Rightarrow> int list" where
  "sa_contents s = rev (take (nat (sa_top s + 1)) (sa_array s))"

definition sa_inv :: "sa_stack \<Rightarrow> bool" where
  "sa_inv s \<longleftrightarrow> length (sa_array s) = sq_SIZE \<and> -1 \<le> sa_top s \<and> sa_top s < int sq_SIZE"

definition sa_room :: "sa_stack \<Rightarrow> nat \<Rightarrow> bool" where
  "sa_room s n \<longleftrightarrow> sa_top s + int n < int sq_SIZE"

lemma sa_contents_push:
  assumes "0 \<le> i" and "i < int (length a)"
  shows "rev (take (nat (i + 1)) (a[nat i := v])) = v # rev (take (nat i) a)"
  using assms by (simp add: nat_add_distrib take_Suc_conv_app_nth)

lemma sa_contents_pop:
  assumes "0 \<le> i" and "i < int (length a)"
  shows "rev (take (nat (i + 1)) a) = a ! nat i # rev (take (nat i) a)"
  using assms by (simp add: nat_add_distrib take_Suc_conv_app_nth)

interpretation sa: int_container sa_push sa_pop sa_contents sa_room sa_inv "\<lambda>xs v. v # xs"
proof unfold_locales
  fix c n v
  assume "sa_inv c" "sa_room c (Suc n)"
  then show "\<exists>c' out. sa_push c v = Inr (c', out) \<and> sa_inv c' \<and> sa_room c' n \<and> sa_contents c' = v # sa_contents c"
    using sa_contents_push [of "sa_top c + 1" "sa_array c" v]
    by (simp add: sa_push_def sa_isFull_def sa_inv_def sa_room_def sa_contents_def)
next
  fix c x xs
  assume inv: "sa_inv c" and c: "sa_contents c = x # xs"
  then have "0 \<le> sa_top c" by (cases "sa_top c = -1") (auto simp: sa_inv_def sa_contents_def)
  then show "\<exists>c' out. sa_pop c = Inr (c', x, out) \<and> sa_inv c' \<and> sa_contents c' = xs \<and> (\<forall>n. sa_room c n \<longrightarrow> sa_room c' n)"
    using inv c sa_contents_pop [of "sa_top c" "sa_array c"]
    by (simp add: sa_pop_def sa_isEmpty_def sa_inv_def sa_room_def sa_contents_def)
next
  fix c
  assume "sa_inv c" "sa_contents c = []"
  then have "sa_top c = -1" by (auto simp: sa_inv_def sa_contents_def sq_SIZE_def)
  then show "\<exists>out. sa_pop c = Inr (c, -1, out)" by (simp add: sa_pop_def sa_isEmpty_def)
qed

definition qa_contents :: "qa_queue \<Rightarrow> int list" where
  "qa_contents q = (if qa_front q = -1 then []
     else map (\<lambda>i. qa_array q ! nat i) [qa_front q..qa_rear q])"

definition qa_inv :: "qa_queue \<Rightarrow> bool" where
  "qa_inv q \<longleftrightarrow> length (qa_array q) = sq_SIZE
     \<and> (qa_front q = -1 \<and> qa_rear q = -1
        \<or> 0 \<le> qa_front q \<and> qa_front q \<le> qa_rear q \<and> qa_rear q < int sq_SIZE)"

definition qa_room :: "qa_queue \<Rightarrow> nat \<Rightarrow> bool" where
  "qa_room q n \<longleftrightarrow> qa_rear q + int n < int sq_SIZE"

lemma qa_contents_enqueue:
  assumes "0 \<le> f" and "f \<le> r + 1" and "r + 1 < int (length a)"
  shows "map (\<lambda>i. a[nat (r + 1) := v] ! nat i) [f..r + 1] = map (\<lambda>i. a ! nat i) [f..r] @ [v]"
  using assms by (auto simp: upto_rec2 [of f "r + 1"] nth_list_update)

interpretation qa: int_container qa_enqueue qa_dequeue qa_contents qa_room qa_inv "\<lambda>xs v. xs @ [v]"
proof unfold_locales
  fix c n v
  assume a: "qa_inv c" "qa_room c (Suc n)"
  show "\<exists>c' out. qa_enqueue c v = Inr (c', out) \<and> qa_inv c' \<and> qa_room c' n \<and> qa_contents c' = qa_contents c @ [v]"
    using a qa_contents_enqueue [of "qa_front c" "qa_rear c" "qa_array c" v]
      qa_contents_enqueue [of 0 "-1" "qa_array c" v]
    by (cases "qa_front c = -1")
      (simp_all add: qa_enqueue_def qa_isFull_def qa_inv_def qa_room_def qa_contents_def Let_def)
next
  fix c x xs
  assume inv: "qa_inv c" and c: "qa_contents c = x # xs"
  then have f: "0 \<le> qa_front c" "qa_front c \<le> qa_rear c" "qa_rear c < int (length (qa_array c))" "qa_front c \<noteq> -1"
    by (auto simp: qa_inv_def qa_contents_def split: if_splits)
  then have "x = qa_array c ! nat (qa_front c)" "xs = map (\<lambda>i. qa_array c ! nat i) [qa_front c + 1..qa_rear c]"
    using c by (simp_all add: qa_contents_def upto_rec1)
  then show "\<exists>c' out. qa_dequeue c = Inr (c', x, out) \<and> qa_inv c' \<and> qa_contents c' = xs \<and> (\<forall>n. qa_room c n \<longrightarrow> qa_room c' n)"
    using inv f by (simp add: qa_dequeue_def qa_isEmpty_def qa_inv_def qa_room_def qa_contents_def)
next
  fix c
  assume "qa_inv c" "qa_contents c = []"
  then have "qa_front c = -1" by (auto simp: qa_inv_def qa_contents_def split: if_splits)
  then show "\<exists>out. qa_dequeue c = Inr (c, -1, out)" by (simp add: qa_dequeue_def qa_isEmpty_def)
qed

section \<open>The linked nodes hold the abstract sequences\<close>

definition chain_vals :: "snode heap \<Rightarrow> nat \<Rightarrow> int list" where
  "chain_vals h p = (case h_collect (brk h) sn_next (\<lambda>n. [sn_data n]) h p of Inr xs \<Rightarrow> xs | Inl _ \<Rightarrow> [])"

definition chain_ok :: "snode heap \<Rightarrow> nat \<Rightarrow> bool" where
  "chain_ok h p \<longleftrightarrow> heap_wf h \<and> (\<exists>as. path sn_next (cells h) p as 0)"

lemma chain_vals_path:
  assumes "heap_wf h" and "path sn_next (cells h) p as 0"
  shows "chain_vals h p = map (\<lambda>a. sn_data (the (cells h a))) as"
  using h_collect_path [OF assms(2), of "brk h" "\<lambda>n. [sn_data n]"] path_length [OF assms]
  by (simp add: chain_vals_def)

text \<open>Pushing a node in front of a chain, and taking the first node off.\<close>

lemma chain_push:
  fixes v :: int
  assumes "chain_ok h p"
  defines "h' \<equiv> h\<lparr>cells := (cells h)(brk h := Some \<lparr>sn_data = v, sn_next = p\<rparr>), brk := brk h + 1\<rparr>"
  shows "chain_ok h' (brk h) \<and> chain_vals h' (brk h) = v # chain_vals h p"
proof -
  from assms obtain as where wf: "heap_wf h" and p: "path sn_next (cells h) p as 0"
    by (auto simp: chain_ok_def)
  have fr: "brk h \<notin> set as" "brk h \<noteq> 0" using path_fresh [OF wf p] wf by (auto simp: heap_wf_def)
  have p': "path sn_next (cells h') (brk h) (brk h # as) 0" using p fr by (simp add: h'_def)
  have wf': "heap_wf h'" using wf by (simp add: heap_wf_def h'_def)
  have "map (\<lambda>a. sn_data (the (cells h' a))) as = map (\<lambda>a. sn_data (the (cells h a))) as"
    using fr by (intro map_cong) (auto simp: h'_def)
  then show ?thesis
    using wf' p' chain_vals_path [OF wf' p'] chain_vals_path [OF wf p]
    by (auto simp: chain_ok_def h'_def simp del: path.simps)
qed

lemma chain_pop:
  assumes "chain_ok h p" and "chain_vals h p = x # xs"
  shows "p \<noteq> 0 \<and> (\<exists>n. cells h p = Some n \<and> sn_data n = x
    \<and> chain_ok (h\<lparr>cells := (cells h)(p := None)\<rparr>) (sn_next n)
    \<and> chain_vals (h\<lparr>cells := (cells h)(p := None)\<rparr>) (sn_next n) = xs)"
proof -
  from assms(1) obtain as where wf: "heap_wf h" and p: "path sn_next (cells h) p as 0"
    by (auto simp: chain_ok_def)
  then have "map (\<lambda>a. sn_data (the (cells h a))) as = x # xs" using assms(2) chain_vals_path by metis
  then obtain bs where as: "as = p # bs" and xs: "xs = map (\<lambda>a. sn_data (the (cells h a))) bs"
    and x: "x = sn_data (the (cells h p))" using p by (cases as) auto
  then obtain n where n: "cells h p = Some n" "p \<noteq> 0" "path sn_next (cells h) (sn_next n) bs 0"
    using p by (auto split: option.splits)
  have nin: "p \<notin> set bs" using path_distinct [OF p] as by simp
  let ?h = "h\<lparr>cells := (cells h)(p := None)\<rparr>"
  have p': "path sn_next (cells ?h) (sn_next n) bs 0" using n nin by simp
  have wf': "heap_wf ?h" using heap_wf_upd [OF wf n(1)] .
  have "map (\<lambda>a. sn_data (the (cells ?h a))) bs = xs" unfolding xs using nin by (intro map_cong) auto
  then show ?thesis
    using n x wf' p' chain_vals_path [OF wf' p'] by (auto simp: chain_ok_def)
qed

lemma chain_vals_Nil: "chain_ok h p \<Longrightarrow> chain_vals h p = [] \<longleftrightarrow> p = 0"
  using chain_vals_path path_Nil_iff by (fastforce simp: chain_ok_def)

interpretation sl: int_container "sl_push True" sl_pop "\<lambda>s. chain_vals (sl_heap s) (sl_top s)"
  "\<lambda>s n. True" "\<lambda>s. chain_ok (sl_heap s) (sl_top s)" "\<lambda>xs v. v # xs"
proof unfold_locales
  fix c :: sl_state and n v
  assume ok: "chain_ok (sl_heap c) (sl_top c)"
  then have "brk (sl_heap c) \<noteq> 0" by (auto simp: chain_ok_def heap_wf_def)
  then show "\<exists>c' out. sl_push True c v = Inr (c', out) \<and> chain_ok (sl_heap c') (sl_top c') \<and> True
      \<and> chain_vals (sl_heap c') (sl_top c') = v # chain_vals (sl_heap c) (sl_top c)"
    using chain_push [OF ok, of v] by (simp add: sl_push_def sl_createNode_def h_alloc_def)
next
  fix c :: sl_state and x xs
  assume "chain_ok (sl_heap c) (sl_top c)" "chain_vals (sl_heap c) (sl_top c) = x # xs"
  then show "\<exists>c' out. sl_pop c = Inr (c', x, out) \<and> chain_ok (sl_heap c') (sl_top c')
      \<and> chain_vals (sl_heap c') (sl_top c') = xs \<and> (\<forall>n. True \<longrightarrow> True)"
    using chain_pop by (force simp: sl_pop_def sl_isEmpty_def)
next
  fix c :: sl_state
  assume "chain_ok (sl_heap c) (sl_top c)" "chain_vals (sl_heap c) (sl_top c) = []"
  then show "\<exists>out. sl_pop c = Inr (c, -1, out)" by (simp add: chain_vals_Nil sl_pop_def sl_isEmpty_def)
qed

text \<open>Appending a node at the end of a chain whose last address is known.\<close>

lemma chain_snoc:
  fixes v :: int
  assumes wf: "heap_wf h" and p: "path sn_next (cells h) p (as @ [r]) 0" and r: "cells h r = Some n"
  defines "h' \<equiv> h\<lparr>cells := (cells h)(brk h := Some \<lparr>sn_data = v, sn_next = 0\<rparr>, r := Some (n\<lparr>sn_next := brk h\<rparr>)),
                   brk := brk h + 1\<rparr>"
  shows "heap_wf h' \<and> path sn_next (cells h') p (as @ [r, brk h]) 0 \<and> chain_vals h' p = chain_vals h p @ [v]"
proof -
  have fr: "brk h \<notin> set (as @ [r])" "brk h \<noteq> 0" using path_fresh [OF wf p] wf by (auto simp: heap_wf_def)
  have "path sn_next ((cells h)(brk h := Some \<lparr>sn_data = v, sn_next = 0\<rparr>)) p (as @ [r]) 0" using p fr by simp
  then have p': "path sn_next (cells h') p (as @ [r, brk h]) 0"
    unfolding h'_def using fr by (simp add: path_snoc del: path.simps)
  have "r < brk h" using r wf by (force simp: heap_wf_def not_less [symmetric])
  moreover have "r \<noteq> 0" using r wf by (metis heap_wf_def option.distinct(1))
  ultimately have wf': "heap_wf h'" using wf r by (auto simp: heap_wf_def h'_def)
  have "sn_data (the (cells h' a)) = sn_data (the (cells h a))" if "a \<in> set (as @ [r])" for a
    using that fr r by (auto simp: h'_def)
  then have "map (\<lambda>a. sn_data (the (cells h' a))) (as @ [r]) = map (\<lambda>a. sn_data (the (cells h a))) (as @ [r])"
    by (rule map_cong [OF refl])
  moreover have "sn_data (the (cells h' (brk h))) = v" using fr by (simp add: h'_def)
  ultimately show ?thesis
    using wf' p' chain_vals_path [OF wf' p'] chain_vals_path [OF wf p] by simp
qed

definition ql_inv :: "ql_queue \<Rightarrow> bool" where
  "ql_inv q \<longleftrightarrow> heap_wf (ql_heap q) \<and> (\<exists>as. path sn_next (cells (ql_heap q)) (ql_front q) as 0
     \<and> ql_rear q = (if as = [] then 0 else last as))"

lemma ql_inv_chain: "ql_inv q \<Longrightarrow> chain_ok (ql_heap q) (ql_front q)"
  by (auto simp: ql_inv_def chain_ok_def)

lemma ql_enqueue_ok:
  assumes "ql_inv q"
  shows "\<exists>q' out. ql_enqueue True q v = Inr (q', out) \<and> ql_inv q'
    \<and> chain_vals (ql_heap q') (ql_front q') = chain_vals (ql_heap q) (ql_front q) @ [v]"
proof -
  let ?h = "ql_heap q"
  from assms obtain as where wf: "heap_wf ?h" and p: "path sn_next (cells ?h) (ql_front q) as 0"
    and r: "ql_rear q = (if as = [] then 0 else last as)" by (auto simp: ql_inv_def)
  have b: "brk ?h \<noteq> 0" using wf by (simp add: heap_wf_def)
  show ?thesis
  proof (cases as rule: rev_cases)
    case Nil
    then have f: "ql_front q = 0" "ql_rear q = 0" using p r by auto
    then have ok: "chain_ok ?h 0" using ql_inv_chain [OF assms] by simp
    let ?h' = "?h\<lparr>cells := (cells ?h)(brk ?h := Some \<lparr>sn_data = v, sn_next = 0\<rparr>), brk := brk ?h + 1\<rparr>"
    have "path sn_next (cells ?h') (brk ?h) [brk ?h] 0" using b by simp
    moreover have "heap_wf ?h'" using wf by (simp add: heap_wf_def)
    ultimately have "ql_inv \<lparr>ql_heap = ?h', ql_front = brk ?h, ql_rear = brk ?h\<rparr>"
      unfolding ql_inv_def by (auto intro!: exI [of _ "[brk ?h]"])
    then show ?thesis
      using f chain_push [OF ok, of v] chain_vals_Nil [OF ok]
      by (simp add: ql_enqueue_def ql_createNode_def h_alloc_def)
  next
    case (snoc bs a)
    then have ra: "ql_rear q = a" using r by simp
    from path_in_dom [OF p, of a] snoc obtain n where n: "cells ?h a = Some n" "a \<noteq> 0" by auto
    have "a \<noteq> brk ?h" using path_fresh [OF wf p] snoc by auto
    note cs = chain_snoc [OF wf p [unfolded snoc] n(1), of v]
    have "ql_enqueue True q v = Inr (\<lparr>ql_heap = ?h\<lparr>cells := (cells ?h)(brk ?h := Some \<lparr>sn_data = v, sn_next = 0\<rparr>,
        a := Some (n\<lparr>sn_next := brk ?h\<rparr>)), brk := brk ?h + 1\<rparr>, ql_front = ql_front q, ql_rear = brk ?h\<rparr>,
        [Num v, Txt '' enqueued to queue\<newline>''])"
      using ra n \<open>a \<noteq> brk ?h\<close> by (simp add: ql_enqueue_def ql_createNode_def h_alloc_def)
    moreover have "ql_inv \<lparr>ql_heap = ?h\<lparr>cells := (cells ?h)(brk ?h := Some \<lparr>sn_data = v, sn_next = 0\<rparr>,
        a := Some (n\<lparr>sn_next := brk ?h\<rparr>)), brk := brk ?h + 1\<rparr>, ql_front = ql_front q, ql_rear = brk ?h\<rparr>"
      unfolding ql_inv_def using cs by (auto intro!: exI [of _ "bs @ [a, brk ?h]"] simp del: path.simps)
    ultimately show ?thesis using cs by simp
  qed
qed

lemma ql_dequeue_ok:
  assumes "ql_inv q" and c: "chain_vals (ql_heap q) (ql_front q) = x # xs"
  shows "\<exists>q' out. ql_dequeue q = Inr (q', x, out) \<and> ql_inv q' \<and> chain_vals (ql_heap q') (ql_front q') = xs"
proof -
  let ?h = "ql_heap q" and ?p = "ql_front q"
  from assms obtain as where wf: "heap_wf ?h" and p: "path sn_next (cells ?h) ?p as 0"
    and r: "ql_rear q = (if as = [] then 0 else last as)" by (auto simp: ql_inv_def)
  from chain_pop [OF ql_inv_chain [OF assms(1)] c] obtain n where
    n: "?p \<noteq> 0" "cells ?h ?p = Some n" "sn_data n = x"
      "chain_vals (?h\<lparr>cells := (cells ?h)(?p := None)\<rparr>) (sn_next n) = xs" by blast
  then obtain bs where as: "as = ?p # bs" "path sn_next (cells ?h) (sn_next n) bs 0"
    using p by (cases as) auto
  have "?p \<notin> set bs" using path_distinct [OF p] as by simp
  then have "path sn_next (cells (?h\<lparr>cells := (cells ?h)(?p := None)\<rparr>)) (sn_next n) bs 0" using as by simp
  moreover have "bs = [] \<longleftrightarrow> sn_next n = 0" using as(2) by (rule path_Nil_iff)
  ultimately have "ql_inv \<lparr>ql_heap = ?h\<lparr>cells := (cells ?h)(?p := None)\<rparr>, ql_front = sn_next n,
      ql_rear = (if sn_next n = 0 then 0 else ql_rear q)\<rparr>"
    unfolding ql_inv_def using heap_wf_upd [OF wf n(2)] r as(1) by (auto intro!: exI [of _ bs])
  then show ?thesis using n by (simp add: ql_dequeue_def ql_isEmpty_def Let_def)
qed

interpretation ql: int_container "ql_enqueue True" ql_dequeue "\<lambda>q. chain_vals (ql_heap q) (ql_front q)"
  "\<lambda>q n. True" ql_inv "\<lambda>xs v. xs @ [v]"
proof unfold_locales
  fix c
  assume "ql_inv c" "chain_vals (ql_heap c) (ql_front c) = []"
  then show "\<exists>out. ql_dequeue c = Inr (c, -1, out)"
    by (simp add: chain_vals_Nil [OF ql_inv_chain] ql_dequeue_def ql_isEmpty_def)
qed (use ql_enqueue_ok ql_dequeue_ok in blast)+

section \<open>The linked list\<close>

definition ll_vals :: "ll_state \<Rightarrow> int list" where
  "ll_vals s = chain_vals (ll_heap s) (ll_head s)"

definition ll_ok :: "ll_state \<Rightarrow> bool" where
  "ll_ok s \<longleftrightarrow> chain_ok (ll_heap s) (ll_head s)"

lemma ll_insertAtBeginning_ok:
  assumes "ll_ok s"
  shows "\<exists>s'. ll_insertAtBeginning True s v = Inr s' \<and> ll_ok s' \<and> ll_vals s' = v # ll_vals s"
proof -
  have "brk (ll_heap s) \<noteq> 0" using assms by (auto simp: ll_ok_def chain_ok_def heap_wf_def)
  then show ?thesis
    using chain_push [of "ll_heap s" "ll_head s" v] assms
    by (simp add: ll_insertAtBeginning_def ll_createNode_def h_alloc_def ll_ok_def ll_vals_def)
qed

lemma ll_insertAtEnd_ok:
  assumes "ll_ok s"
  shows "\<exists>s'. ll_insertAtEnd True s v = Inr s' \<and> ll_ok s' \<and> ll_vals s' = ll_vals s @ [v]"
proof -
  let ?h = "ll_heap s" and ?p = "ll_head s"
  from assms obtain as where wf: "heap_wf ?h" and p: "path sn_next (cells ?h) ?p as 0"
    by (auto simp: ll_ok_def chain_ok_def)
  let ?h1 = "?h\<lparr>cells := (cells ?h)(brk ?h := Some \<lparr>sn_data = v, sn_next = 0\<rparr>), brk := brk ?h + 1\<rparr>"
  show ?thesis
  proof (cases as rule: rev_cases)
    case Nil
    then have f: "?p = 0" using p by auto
    then have ok: "chain_ok ?h 0" using assms by (simp add: ll_ok_def)
    then show ?thesis
      using f chain_push [OF ok, of v] chain_vals_Nil [OF ok]
      by (simp add: ll_insertAtEnd_def ll_createNode_def h_alloc_def ll_ok_def ll_vals_def)
  next
    case (snoc bs a)
    from path_in_dom [OF p, of a] snoc obtain n where n: "cells ?h a = Some n" "a \<noteq> 0" by auto
    have nb: "brk ?h \<notin> set as" using path_fresh [OF wf p] .
    then have "path sn_next (cells ?h1) ?p as 0" using p by simp
    moreover have "length as \<le> brk ?h1" using path_length [OF wf p] by simp
    ultimately have "h_last (brk ?h1) sn_next ?h1 ?p = Inr a" using h_last_path snoc by fastforce
    moreover have "?p \<noteq> 0" using path_Nil_iff [OF p] snoc by auto
    moreover have "a \<noteq> brk ?h" using nb snoc by auto
    ultimately have "ll_insertAtEnd True s v = Inr \<lparr>ll_heap = ?h\<lparr>cells := (cells ?h)(brk ?h := Some \<lparr>sn_data = v, sn_next = 0\<rparr>,
        a := Some (n\<lparr>sn_next := brk ?h\<rparr>)), brk := brk ?h + 1\<rparr>, ll_head = ?p\<rparr>"
      using n by (simp add: ll_insertAtEnd_def ll_createNode_def h_alloc_def)
    then show ?thesis
      using chain_snoc [OF wf p [unfolded snoc] n(1), of v]
      by (auto simp: ll_ok_def chain_ok_def ll_vals_def simp del: path.simps)
  qed
qed

lemma takeWhile_remove1:
  "x \<in> set (map f as) \<Longrightarrow> remove1 x (map f as)
    = map f (takeWhile (\<lambda>a. f a \<noteq> x) as @ tl (dropWhile (\<lambda>a. f a \<noteq> x) as))"
  by (induction as) auto

lemma ll_deleteNode_inner:
  assumes wf: "heap_wf h" and p: "path sn_next (cells h) p (us @ a # b # vs) 0"
    and v: "sn_data (the (cells h b)) = v" and before: "\<forall>c\<in>set (us @ [a]). sn_data (the (cells h c)) \<noteq> v"
  shows "\<exists>s'. ll_deleteNode \<lparr>ll_heap = h, ll_head = p\<rparr> v = Inr s' \<and> ll_ok s'
    \<and> ll_vals s' = map (\<lambda>c. sn_data (the (cells h c))) (us @ a # vs)"
proof -
  from path_in_dom [OF p, of a] path_in_dom [OF p, of b] obtain na nb where
    n: "cells h a = Some na" "cells h b = Some nb" "a \<noteq> 0" "b \<noteq> 0" by auto
  have d: "distinct (us @ a # b # vs)" using path_distinct [OF p] .
  have head: "p \<noteq> 0" "h_get h p = Inr (the (cells h p))" "sn_data (the (cells h p)) \<noteq> v"
    using p before path_in_dom [OF p, of p] by (cases us; auto split: option.splits)+
  have tw: "takeWhile (\<lambda>c. sn_data (the (cells h c)) \<noteq> v) (us @ a # b # vs) = us @ [a]"
    and dw: "dropWhile (\<lambda>c. sn_data (the (cells h c)) \<noteq> v) (us @ a # b # vs) = b # vs"
    using before v by (simp_all add: takeWhile_append dropWhile_append)
  have search: "h_search (brk h) sn_next (\<lambda>n. sn_data n = v) h 0 p = Inr (a, b)"
    using h_search_path [OF p, of "brk h" "\<lambda>n. sn_data n = v" 0] path_length [OF wf p] tw dw by simp
  let ?h = "h\<lparr>cells := (cells h)(a := Some (na\<lparr>sn_next := sn_next nb\<rparr>), b := None)\<rparr>"
  have "ll_deleteNode \<lparr>ll_heap = h, ll_head = p\<rparr> v = Inr \<lparr>ll_heap = ?h, ll_head = p\<rparr>"
    using head search n d by (simp add: ll_deleteNode_def Let_def)
  moreover have wf': "heap_wf ?h" using wf n by (auto simp: heap_wf_def)
  moreover have p': "path sn_next (cells ?h) p (us @ a # vs) 0"
    using path_unlink [OF p n(2), of "na\<lparr>sn_next := sn_next nb\<rparr>"] by simp
  moreover have "map (\<lambda>c. sn_data (the (cells ?h c))) (us @ a # vs) = map (\<lambda>c. sn_data (the (cells h c))) (us @ a # vs)"
    using d n by (intro map_cong) auto
  ultimately show ?thesis
    using chain_vals_path [OF wf' p'] by (auto simp: ll_ok_def ll_vals_def chain_ok_def)
qed

lemma ll_deleteNode_ok:
  assumes "ll_ok s"
  shows "\<exists>s'. ll_deleteNode s v = Inr s' \<and> ll_ok s' \<and> ll_vals s' = remove1 v (ll_vals s)"
proof -
  obtain h p where s: "s = \<lparr>ll_heap = h, ll_head = p\<rparr>" by (cases s)
  from assms obtain as where wf: "heap_wf h" and pa: "path sn_next (cells h) p as 0"
    by (auto simp: s ll_ok_def chain_ok_def)
  let ?f = "\<lambda>c. sn_data (the (cells h c))"
  have vals: "ll_vals s = map ?f as" using chain_vals_path [OF wf pa] by (simp add: s ll_vals_def)
  consider (absent) "v \<notin> set (map ?f as)" | (first) cs where "as = p # cs" "?f p = v"
    | (inner) us a b vs where "as = us @ a # b # vs" "?f b = v" "\<forall>c\<in>set (us @ [a]). ?f c \<noteq> v"
  proof (cases "v \<in> set (map ?f as)")
    case True
    then have "\<exists>b\<in>set as. ?f b = v" by auto
    from split_list_first_prop [OF this] obtain ps b vs where
      pb: "as = ps @ b # vs" "?f b = v" "\<forall>c\<in>set ps. ?f c \<noteq> v" by blast
    show thesis
    proof (cases ps rule: rev_cases)
      case Nil
      then show thesis using pb pa first by auto
    next
      case (snoc us a)
      then show thesis using pb inner [of us a b vs] by auto
    qed
  qed blast
  then show ?thesis
  proof cases
    case absent
    then have "\<forall>c\<in>set as. ?f c \<noteq> v" by auto
    then have tw: "takeWhile (\<lambda>c. ?f c \<noteq> v) as = as" "dropWhile (\<lambda>c. ?f c \<noteq> v) as = []" by auto
    have "h_search (brk h) sn_next (\<lambda>n. sn_data n = v) h 0 p = Inr (last (0 # as), 0)"
      using h_search_path [OF pa, of "brk h" "\<lambda>n. sn_data n = v" 0] path_length [OF wf pa] tw by simp
    moreover have "p \<noteq> 0 \<Longrightarrow> \<exists>n. cells h p = Some n \<and> sn_data n \<noteq> v"
      using pa absent by (cases as) (auto split: option.splits)
    ultimately have "ll_deleteNode s v = Inr s" by (cases "p = 0") (auto simp: s ll_deleteNode_def Let_def)
    then show ?thesis using assms absent vals by (simp add: remove1_idem)
  next
    case first
    have "chain_vals h p = v # map ?f cs" using chain_vals_path [OF wf pa] first by simp
    moreover have "chain_ok h p" using assms by (simp add: s ll_ok_def)
    ultimately obtain n where n: "p \<noteq> 0" "cells h p = Some n" "sn_data n = v"
      "chain_ok (h\<lparr>cells := (cells h)(p := None)\<rparr>) (sn_next n)"
      "chain_vals (h\<lparr>cells := (cells h)(p := None)\<rparr>) (sn_next n) = map ?f cs"
      using chain_pop by blast
    then have "ll_deleteNode s v = Inr \<lparr>ll_heap = h\<lparr>cells := (cells h)(p := None)\<rparr>, ll_head = sn_next n\<rparr>"
      by (simp add: s ll_deleteNode_def)
    then show ?thesis using n vals first by (simp add: ll_ok_def ll_vals_def)
  next
    case inner
    then have "remove1 v (map ?f as) = map ?f (us @ a # vs)"
      by (auto simp: remove1_append)
    then show ?thesis
      using ll_deleteNode_inner [OF wf pa [unfolded inner(1)] inner(2,3)] vals s by simp
  qed
qed

text \<open>
  C25. The linked list of \<^verbatim>\<open>linked-list.c\<close> on an explicit store: from a well-formed list, and while \<^verbatim>\<open>malloc\<close> succeeds, every operation
  ends without touching a \<^verbatim>\<open>NULL\<close> or freed pointer and leaves a well-formed, acyclic list;
  \<^verbatim>\<open>insertAtBeginning\<close> puts the value in front, \<^verbatim>\<open>insertAtEnd\<close> at the end and \<^verbatim>\<open>deleteNode\<close> removes the
  first node that holds the value.
\<close>
theorem linked_list_ops_correct:
  assumes "ll_ok s"
  shows "(\<exists>s'. ll_insertAtBeginning True s v = Inr s' \<and> ll_ok s' \<and> ll_vals s' = v # ll_vals s)
    \<and> (\<exists>s'. ll_insertAtEnd True s v = Inr s' \<and> ll_ok s' \<and> ll_vals s' = ll_vals s @ [v])
    \<and> (\<exists>s'. ll_deleteNode s v = Inr s' \<and> ll_ok s' \<and> ll_vals s' = remove1 v (ll_vals s))"
  using ll_insertAtBeginning_ok [OF assms] ll_insertAtEnd_ok [OF assms] ll_deleteNode_ok [OF assms] by blast

lemma ll_ok_empty: "ll_ok \<lparr>ll_heap = heap_empty, ll_head = 0\<rparr>"
  by (auto simp: ll_ok_def chain_ok_def intro: exI [of _ "[]"])

lemma chain_vals_empty: "chain_vals heap_empty 0 = []"
  by code_simp

theorem linked_list_ops_correct_witness:
  "ll_ok \<lparr>ll_heap = heap_empty, ll_head = 0\<rparr>
   \<and> (\<exists>s'. ll_insertAtEnd True \<lparr>ll_heap = heap_empty, ll_head = 0\<rparr> 20 = Inr s' \<and> ll_ok s' \<and> ll_vals s' = [20])"
proof -
  have "ll_vals \<lparr>ll_heap = heap_empty, ll_head = 0\<rparr> = []" by code_simp
  with linked_list_ops_correct [OF ll_ok_empty, of 20] ll_ok_empty show ?thesis by simp
qed

text \<open>
  C36. Every sequence of pushes and pops returns the values of an ideal last-in first-out stack (and
  -1 on underflow): for the array stack as long as at most five values are pushed, for the linked
  stack without a bound.
\<close>
theorem stacks_are_lifo:
  assumes "sa_inv junk" and "cop_puts ops \<le> 5"
  shows "cop_run sa_push sa_pop (sa_init junk) ops = Inr (cop_spec (\<lambda>xs v. v # xs) [] ops)
    \<and> cop_run (sl_push True) sl_pop \<lparr>sl_heap = heap_empty, sl_top = 0\<rparr> ops' = Inr (cop_spec (\<lambda>xs v. v # xs) [] ops')"
proof
  have "sa_inv (sa_init junk)" "sa_room (sa_init junk) (cop_puts ops)" "sa_contents (sa_init junk) = []"
    using assms by (simp_all add: sa_inv_def sa_init_def sa_room_def sa_contents_def sq_SIZE_def)
  then show "cop_run sa_push sa_pop (sa_init junk) ops = Inr (cop_spec (\<lambda>xs v. v # xs) [] ops)"
    using sa.run_spec by metis
  have "chain_ok heap_empty 0" using ll_ok_empty by (simp add: ll_ok_def)
  then show "cop_run (sl_push True) sl_pop \<lparr>sl_heap = heap_empty, sl_top = 0\<rparr> ops' = Inr (cop_spec (\<lambda>xs v. v # xs) [] ops')"
    using sl.run_spec [of "\<lparr>sl_heap = heap_empty, sl_top = 0\<rparr>" ops'] chain_vals_empty by simp
qed

theorem stacks_are_lifo_witness:
  "cop_run sa_push sa_pop (sa_init \<lparr>sa_array = [0, 0, 0, 0, 0], sa_top = 0\<rparr>) [Put 1, Put 2, Get, Put 3, Get, Get, Get]
     = Inr [2, 3, 1, -1]"
  using stacks_are_lifo [of "\<lparr>sa_array = [0, 0, 0, 0, 0], sa_top = 0\<rparr>" "[Put 1, Put 2, Get, Put 3, Get, Get, Get]" "[]"]
  by (simp add: sa_inv_def sq_SIZE_def cop_puts_def)

text \<open>
  C35. Every sequence of enqueues and dequeues returns the values of an ideal first-in first-out queue
  (and -1 on underflow): for the linked queue without a bound, for the array queue as long as at most
  five values are enqueued.
\<close>
theorem queues_are_fifo:
  assumes "length (qa_array junk) = sq_SIZE" and "cop_puts ops \<le> 5"
  shows "cop_run qa_enqueue qa_dequeue (qa_init junk) ops = Inr (cop_spec (\<lambda>xs v. xs @ [v]) [] ops)
    \<and> cop_run (ql_enqueue True) ql_dequeue (ql_init heap_empty) ops' = Inr (cop_spec (\<lambda>xs v. xs @ [v]) [] ops')"
proof
  have "qa_inv (qa_init junk)" "qa_room (qa_init junk) (cop_puts ops)" "qa_contents (qa_init junk) = []"
    using assms by (simp_all add: qa_inv_def qa_init_def qa_room_def qa_contents_def sq_SIZE_def)
  then show "cop_run qa_enqueue qa_dequeue (qa_init junk) ops = Inr (cop_spec (\<lambda>xs v. xs @ [v]) [] ops)"
    using qa.run_spec by metis
  have "chain_ok heap_empty 0" using ll_ok_empty by (simp add: ll_ok_def)
  moreover have "ql_inv (ql_init heap_empty)" by (auto simp: ql_inv_def ql_init_def intro: exI [of _ "[]"])
  ultimately show "cop_run (ql_enqueue True) ql_dequeue (ql_init heap_empty) ops' = Inr (cop_spec (\<lambda>xs v. xs @ [v]) [] ops')"
    using ql.run_spec [of "ql_init heap_empty" ops'] chain_vals_empty by (simp add: ql_init_def)
qed

theorem queues_are_fifo_witness:
  "cop_run qa_enqueue qa_dequeue (qa_init \<lparr>qa_array = [0, 0, 0, 0, 0], qa_front = 7, qa_rear = 7\<rparr>)
     [Put 1, Put 2, Get, Put 3, Get, Get, Get] = Inr [1, 2, 3, -1]"
  using queues_are_fifo [of "\<lparr>qa_array = [0, 0, 0, 0, 0], qa_front = 7, qa_rear = 7\<rparr>"
      "[Put 1, Put 2, Get, Put 3, Get, Get, Get]" "[]"]
  by (simp add: sq_SIZE_def cop_puts_def)

text \<open>
  The array queue never reuses the cells of dequeued values: with one value left in a queue of five
  cells the next value is refused, so that the bound of five enqueues cannot be dropped.
\<close>
lemma qa_refuses_with_free_cells:
  "cop_run qa_enqueue qa_dequeue (qa_init \<lparr>qa_array = [0, 0, 0, 0, 0], qa_front = 0, qa_rear = 0\<rparr>)
     [Put 1, Put 2, Put 3, Put 4, Put 5, Get, Get, Get, Get, Put 6, Get, Get] = Inr [1, 2, 3, 4, 5, -1]"
  by code_simp

text \<open>The drivers run to the end.\<close>
lemma drivers_end:
  "\<not> isl ll_main" "\<not> isl sl_main" "\<not> isl ql_main"
  "\<not> isl (sa_main \<lparr>sa_array = [0, 0, 0, 0, 0], sa_top = 0\<rparr>)"
  "\<not> isl (qa_main \<lparr>qa_array = [0, 0, 0, 0, 0], qa_front = 0, qa_rear = 0\<rparr>)"
  by code_simp+

end
