(* ===== verification/LruCache.thy ===== *)
theory LruCache
  imports Heap
begin

text \<open>
  \<^verbatim>\<open>day-5(Leetcode_LRU)/leetcode-lru-cache.c\<close>: an LRU cache that keeps its items in a doubly linked
  list, most recently used first, and finds them through a table of hash chains. Nodes and chain
  entries live in two typed stores; every pointer access is checked. The theory ends with the
  refinement of the abstract cache, a list of key-value pairs in order of use.
\<close>

section \<open>The code\<close>

definition lc_HASH_SIZE :: nat where
  "lc_HASH_SIZE = 10007"

record lc_node =
  dn_key :: int
  dn_value :: int
  dn_prev :: nat
  dn_next :: nat

record lc_entry =
  en_key :: int
  en_node :: nat
  en_next :: nat

text \<open>The array \<^verbatim>\<open>hashTable\<close> is a function of the index; accesses outside \<^const>\<open>lc_HASH_SIZE\<close> fault.\<close>

record lrucache =
  lc_capacity :: int
  lc_size :: int
  lc_table :: "nat \<Rightarrow> nat"
  lc_head :: nat
  lc_tail :: nat
  lc_nodes :: "lc_node heap"
  lc_entries :: "lc_entry heap"

text \<open>\<^verbatim>\<open>key % HASH_SIZE\<close> is the signed remainder, converted to \<^verbatim>\<open>unsigned int\<close> by the return.\<close>

definition lc_hash :: "int \<Rightarrow> nat" where
  "lc_hash key = nat ((key smod int lc_HASH_SIZE) mod 2 ^ 32)"

definition lc_bucket :: "lrucache \<Rightarrow> nat \<Rightarrow> nat res" where
  "lc_bucket c i = (if i < lc_HASH_SIZE then Inr (lc_table c i) else Inl OutOfBounds)"

definition lc_set_bucket :: "lrucache \<Rightarrow> nat \<Rightarrow> nat \<Rightarrow> lrucache res" where
  "lc_set_bucket c i p =
     (if i < lc_HASH_SIZE then Inr (c\<lparr>lc_table := (lc_table c)(i := p)\<rparr>) else Inl OutOfBounds)"

definition lc_node_get :: "lrucache \<Rightarrow> nat \<Rightarrow> lc_node res" where
  "lc_node_get c a = h_get (lc_nodes c) a"

definition lc_node_put :: "lrucache \<Rightarrow> nat \<Rightarrow> lc_node \<Rightarrow> lrucache res" where
  "lc_node_put c a n = bindE (h_put (lc_nodes c) a n) (\<lambda>h. Inr (c\<lparr>lc_nodes := h\<rparr>))"

definition lc_createNode :: "bool \<Rightarrow> lrucache \<Rightarrow> int \<Rightarrow> int \<Rightarrow> (lrucache \<times> nat) res" where
  "lc_createNode ok c key value =
     (if \<not> ok then Inl NullDeref
      else let (h, a) = h_alloc (lc_nodes c) \<lparr>dn_key = key, dn_value = value, dn_prev = 0, dn_next = 0\<rparr>
           in Inr (c\<lparr>lc_nodes := h\<rparr>, a))"

definition lc_addToHead :: "lrucache \<Rightarrow> nat \<Rightarrow> lrucache res" where
  "lc_addToHead c node =
     bindE (lc_node_get c node) (\<lambda>n.
     bindE (lc_node_put c node (n\<lparr>dn_next := lc_head c, dn_prev := 0\<rparr>)) (\<lambda>c1.
     bindE (if lc_head c1 \<noteq> 0
            then bindE (lc_node_get c1 (lc_head c1)) (\<lambda>h. lc_node_put c1 (lc_head c1) (h\<lparr>dn_prev := node\<rparr>))
            else Inr c1) (\<lambda>c2.
     let c3 = c2\<lparr>lc_head := node\<rparr>
     in Inr (if lc_tail c3 = 0 then c3\<lparr>lc_tail := node\<rparr> else c3))))"

definition lc_removeNode :: "lrucache \<Rightarrow> nat \<Rightarrow> lrucache res" where
  "lc_removeNode c node =
     bindE (lc_node_get c node) (\<lambda>n.
     bindE (if dn_prev n \<noteq> 0
            then bindE (lc_node_get c (dn_prev n)) (\<lambda>p. lc_node_put c (dn_prev n) (p\<lparr>dn_next := dn_next n\<rparr>))
            else Inr (c\<lparr>lc_head := dn_next n\<rparr>)) (\<lambda>c1.
     bindE (lc_node_get c1 node) (\<lambda>n.
     if dn_next n \<noteq> 0
     then bindE (lc_node_get c1 (dn_next n)) (\<lambda>q. lc_node_put c1 (dn_next n) (q\<lparr>dn_prev := dn_prev n\<rparr>))
     else Inr (c1\<lparr>lc_tail := dn_prev n\<rparr>))))"

definition lc_removeTail :: "lrucache \<Rightarrow> (lrucache \<times> nat) res" where
  "lc_removeTail c = (let tail = lc_tail c in bindE (lc_removeNode c tail) (\<lambda>c'. Inr (c', tail)))"

definition lc_moveToHead :: "lrucache \<Rightarrow> nat \<Rightarrow> lrucache res" where
  "lc_moveToHead c node = bindE (lc_removeNode c node) (\<lambda>c'. lc_addToHead c' node)"

definition lc_hashGetEntry :: "lrucache \<Rightarrow> int \<Rightarrow> nat res" where
  "lc_hashGetEntry c key =
     bindE (lc_bucket c (lc_hash key)) (\<lambda>entry.
     bindE (h_search (brk (lc_entries c)) en_next (\<lambda>e. en_key e = key) (lc_entries c) 0 entry) (\<lambda>(_, e).
     Inr e))"

definition lc_hashGet :: "lrucache \<Rightarrow> int \<Rightarrow> nat res" where
  "lc_hashGet c key =
     bindE (lc_hashGetEntry c key) (\<lambda>entry.
     if entry \<noteq> 0 then bindE (h_get (lc_entries c) entry) (\<lambda>e. Inr (en_node e)) else Inr 0)"

definition lc_hashPut :: "bool \<Rightarrow> lrucache \<Rightarrow> int \<Rightarrow> nat \<Rightarrow> lrucache res" where
  "lc_hashPut ok c key node =
     bindE (lc_hashGetEntry c key) (\<lambda>entry.
     if entry \<noteq> 0
     then bindE (h_get (lc_entries c) entry) (\<lambda>e.
          bindE (h_put (lc_entries c) entry (e\<lparr>en_node := node\<rparr>)) (\<lambda>h. Inr (c\<lparr>lc_entries := h\<rparr>)))
     else let hashValue = lc_hash key in
          if \<not> ok then Inl NullDeref
          else bindE (lc_bucket c hashValue) (\<lambda>first.
               let (h, newEntry) = h_alloc (lc_entries c) \<lparr>en_key = key, en_node = node, en_next = first\<rparr>
               in lc_set_bucket (c\<lparr>lc_entries := h\<rparr>) hashValue newEntry))"

definition lc_hashRemove :: "lrucache \<Rightarrow> int \<Rightarrow> lrucache res" where
  "lc_hashRemove c key =
     (let hashValue = lc_hash key in
      bindE (lc_bucket c hashValue) (\<lambda>entry.
      bindE (h_search (brk (lc_entries c)) en_next (\<lambda>e. en_key e = key) (lc_entries c) 0 entry) (\<lambda>(prev, entry).
      if entry = 0 then Inr c
      else bindE (h_get (lc_entries c) entry) (\<lambda>e.
           bindE (if prev \<noteq> 0
                  then bindE (h_get (lc_entries c) prev) (\<lambda>p.
                       bindE (h_put (lc_entries c) prev (p\<lparr>en_next := en_next e\<rparr>)) (\<lambda>h.
                       Inr (c\<lparr>lc_entries := h\<rparr>)))
                  else lc_set_bucket c hashValue (en_next e)) (\<lambda>c1.
           bindE (h_free (lc_entries c1) entry) (\<lambda>h. Inr (c1\<lparr>lc_entries := h\<rparr>)))))))"

definition lRUCacheCreate :: "int \<Rightarrow> lrucache" where
  "lRUCacheCreate capacity =
     \<lparr>lc_capacity = capacity, lc_size = 0, lc_table = (\<lambda>_. 0), lc_head = 0, lc_tail = 0,
      lc_nodes = heap_empty, lc_entries = heap_empty\<rparr>"

definition lRUCacheGet :: "lrucache \<Rightarrow> int \<Rightarrow> (lrucache \<times> int) res" where
  "lRUCacheGet c key =
     bindE (lc_hashGet c key) (\<lambda>node.
     if node = 0 then Inr (c, -1)
     else bindE (lc_moveToHead c node) (\<lambda>c1.
          bindE (lc_node_get c1 node) (\<lambda>n. Inr (c1, dn_value n))))"

definition lRUCachePut :: "bool \<times> bool \<Rightarrow> lrucache \<Rightarrow> int \<Rightarrow> int \<Rightarrow> lrucache res" where
  "lRUCachePut oks c key value =
     bindE (lc_hashGet c key) (\<lambda>node.
     if node \<noteq> 0
     then bindE (lc_node_get c node) (\<lambda>n.
          bindE (lc_node_put c node (n\<lparr>dn_value := value\<rparr>)) (\<lambda>c1. lc_moveToHead c1 node))
     else bindE (lc_createNode (fst oks) c key value) (\<lambda>(c1, newNode).
          bindE (lc_addToHead c1 newNode) (\<lambda>c2.
          bindE (lc_hashPut (snd oks) c2 key newNode) (\<lambda>c3.
          let c4 = c3\<lparr>lc_size := lc_size c3 + 1\<rparr> in
          if lc_size c4 > lc_capacity c4
          then bindE (lc_removeTail c4) (\<lambda>(c5, tail).
               bindE (lc_node_get c5 tail) (\<lambda>t.
               bindE (lc_hashRemove c5 (dn_key t)) (\<lambda>c6.
               bindE (h_free (lc_nodes c6) tail) (\<lambda>h.
               Inr (c6\<lparr>lc_nodes := h, lc_size := lc_size c6 - 1\<rparr>)))))
          else Inr c4))))"

definition lRUCacheFree :: "lrucache \<Rightarrow> lrucache res" where
  "lRUCacheFree c =
     bindE (h_free_chain (brk (lc_nodes c)) dn_next (lc_nodes c) (lc_head c)) (\<lambda>nodes.
     bindE (foldE (\<lambda>h i. bindE (lc_bucket c i) (\<lambda>p. h_free_chain (brk h) en_next h p))
              [0..<lc_HASH_SIZE] (lc_entries c)) (\<lambda>entries.
     Inr (c\<lparr>lc_nodes := nodes, lc_entries := entries\<rparr>)))"

section \<open>The doubly linked list\<close>

text \<open>\<open>dseg m pr as nx\<close>: the nodes \<open>as\<close> are linked in both directions, between \<open>pr\<close> and \<open>nx\<close>.\<close>

fun dseg :: "(nat \<Rightarrow> lc_node option) \<Rightarrow> nat \<Rightarrow> nat list \<Rightarrow> nat \<Rightarrow> bool" where
  "dseg m pr [] nx = True"
| "dseg m pr (a # as) nx \<longleftrightarrow> a \<noteq> 0
     \<and> (case m a of None \<Rightarrow> False | Some n \<Rightarrow> dn_prev n = pr \<and> dn_next n = hd (as @ [nx])) \<and> dseg m a as nx"

lemma dseg_append:
  "dseg m pr (as @ bs) nx \<longleftrightarrow> dseg m pr as (hd (bs @ [nx])) \<and> dseg m (last (pr # as)) bs nx"
  by (induction as arbitrary: pr) (auto split: option.splits simp: hd_append)

lemma dseg_upd_notin [simp]: "a \<notin> set as \<Longrightarrow> dseg (m(a := v)) pr as nx = dseg m pr as nx"
  by (induction as arbitrary: pr) auto

lemma dseg_dom: "dseg m pr as nx \<Longrightarrow> a \<in> set as \<Longrightarrow> a \<noteq> 0 \<and> (\<exists>n. m a = Some n)"
  by (induction as arbitrary: pr) (auto split: option.splits)

lemma dseg_path: "dseg m pr as nx \<Longrightarrow> path dn_next m (hd (as @ [nx])) as nx"
  by (induction as arbitrary: pr) (auto split: option.splits)

lemma dseg_set_next:
  assumes "dseg m pr (us @ [u]) x" and "u \<notin> set us" and "m u = Some n"
  shows "dseg (m(u := Some (n\<lparr>dn_next := y\<rparr>))) pr (us @ [u]) y"
  using assms by (auto simp: dseg_append)

lemma dseg_set_prev:
  assumes "dseg m x (v # vs) nx" and "v \<notin> set vs" and "m v = Some n"
  shows "dseg (m(v := Some (n\<lparr>dn_prev := y\<rparr>))) y (v # vs) nx"
  using assms by auto

definition dlist :: "lrucache \<Rightarrow> nat list \<Rightarrow> bool" where
  "dlist c as \<longleftrightarrow> heap_wf (lc_nodes c) \<and> dseg (cells (lc_nodes c)) 0 as 0 \<and> distinct as
     \<and> lc_head c = hd (as @ [0]) \<and> lc_tail c = last (0 # as)"

text \<open>What the list operations leave alone: the table, the counters, the keys and the values.\<close>

definition lc_kv :: "lrucache \<Rightarrow> nat \<Rightarrow> (int \<times> int) option" where
  "lc_kv c a = map_option (\<lambda>n. (dn_key n, dn_value n)) (cells (lc_nodes c) a)"

definition lc_frame :: "lrucache \<Rightarrow> lrucache \<Rightarrow> bool" where
  "lc_frame c c' \<longleftrightarrow> lc_table c' = lc_table c \<and> lc_entries c' = lc_entries c \<and> lc_size c' = lc_size c
     \<and> lc_capacity c' = lc_capacity c \<and> brk (lc_nodes c') = brk (lc_nodes c) \<and> lc_kv c' = lc_kv c"

lemma lc_frame_refl [simp]: "lc_frame c c"
  by (simp add: lc_frame_def)

lemma lc_frame_trans: "lc_frame c c1 \<Longrightarrow> lc_frame c1 c2 \<Longrightarrow> lc_frame c c2"
  by (simp add: lc_frame_def)

lemma lc_kv_Some: "lc_kv c a = Some (k, v) \<longleftrightarrow> (\<exists>n. cells (lc_nodes c) a = Some n \<and> dn_key n = k \<and> dn_value n = v)"
  by (auto simp: lc_kv_def)

lemma lc_node_put_frame:
  assumes "cells (lc_nodes c) a = Some n0" and "a \<noteq> 0" and "dn_key n = dn_key n0" and "dn_value n = dn_value n0"
  shows "lc_node_put c a n = Inr (c\<lparr>lc_nodes := (lc_nodes c)\<lparr>cells := (cells (lc_nodes c))(a := Some n)\<rparr>\<rparr>)"
    and "lc_frame c (c\<lparr>lc_nodes := (lc_nodes c)\<lparr>cells := (cells (lc_nodes c))(a := Some n)\<rparr>\<rparr>)"
  using assms by (auto simp: lc_node_put_def lc_frame_def lc_kv_def fun_eq_iff)

lemma heap_wf_cong:
  "brk h' = brk h \<Longrightarrow> (\<And>a. cells h' a = None \<longleftrightarrow> cells h a = None) \<Longrightarrow> heap_wf h' = heap_wf h"
  by (simp add: heap_wf_def)

lemma lc_kv_None: "lc_kv c a = None \<longleftrightarrow> cells (lc_nodes c) a = None"
  by (simp add: lc_kv_def)

lemma lc_frame_None: "lc_frame c c' \<Longrightarrow> cells (lc_nodes c') a = None \<longleftrightarrow> cells (lc_nodes c) a = None"
  by (simp add: lc_frame_def flip: lc_kv_None)

lemma lc_frame_dom: "lc_frame c c' \<Longrightarrow> dom (cells (lc_nodes c')) = dom (cells (lc_nodes c))"
  by (simp add: dom_def lc_frame_None del: not_None_eq)

lemma lc_frame_wf: "lc_frame c c' \<Longrightarrow> heap_wf (lc_nodes c') = heap_wf (lc_nodes c)"
  by (rule heap_wf_cong) (simp_all add: lc_frame_None, simp add: lc_frame_def)

text \<open>The first half of \<^verbatim>\<open>removeNode\<close> takes the node out of the forward chain.\<close>

lemma lc_remove_forward:
  assumes d: "dlist c (us @ a # vs)"
  obtains n c1 where "cells (lc_nodes c) a = Some n" "a \<noteq> 0" "dn_next n = hd (vs @ [0])" "dn_prev n = last (0 # us)"
    "(if dn_prev n \<noteq> 0
      then bindE (lc_node_get c (dn_prev n)) (\<lambda>p. lc_node_put c (dn_prev n) (p\<lparr>dn_next := dn_next n\<rparr>))
      else Inr (c\<lparr>lc_head := dn_next n\<rparr>)) = Inr c1"
    "lc_frame c c1" "cells (lc_nodes c1) a = Some n"
    "dseg (cells (lc_nodes c1)) 0 us (hd (vs @ [0]))" "dseg (cells (lc_nodes c1)) a vs 0"
    "lc_head c1 = hd (us @ vs @ [0])" "lc_tail c1 = last (0 # us @ a # vs)"
proof -
  from d have ds: "dseg (cells (lc_nodes c)) 0 us a" "dseg (cells (lc_nodes c)) a vs 0" "distinct (us @ a # vs)" "a \<noteq> 0"
    and head: "lc_head c = hd (us @ a # vs @ [0])" "lc_tail c = last (0 # us @ a # vs)"
    by (auto simp: dlist_def dseg_append)
  from d obtain n where n: "cells (lc_nodes c) a = Some n" "dn_next n = hd (vs @ [0])" "dn_prev n = last (0 # us)"
    by (auto simp: dlist_def dseg_append split: option.splits)
  show thesis
  proof (cases us rule: rev_cases)
    case Nil
    then show thesis
      using ds n head by (intro that [of n "c\<lparr>lc_head := dn_next n\<rparr>"]) (auto simp: lc_frame_def lc_kv_def fun_eq_iff)
  next
    case (snoc us' u)
    from dseg_dom [OF ds(1), of u] snoc obtain p where p: "u \<noteq> 0" "cells (lc_nodes c) u = Some p" by auto
    let ?c = "c\<lparr>lc_nodes := (lc_nodes c)\<lparr>cells := (cells (lc_nodes c))(u := Some (p\<lparr>dn_next := dn_next n\<rparr>))\<rparr>\<rparr>"
    have "u \<notin> set us'" "u \<noteq> a" "u \<notin> set vs" using ds(3) snoc by auto
    then show thesis
      using ds n head snoc p dseg_set_next [OF ds(1) [unfolded snoc], of p "dn_next n"]
        lc_node_put_frame [OF p(2,1), of "p\<lparr>dn_next := dn_next n\<rparr>"]
      by (intro that [of n ?c]) (auto simp: lc_node_get_def hd_append)
  qed
qed

lemma lc_removeNode_ok:
  assumes d: "dlist c (us @ a # vs)"
  shows "\<exists>c'. lc_removeNode c a = Inr c' \<and> dlist c' (us @ vs) \<and> lc_frame c c'"
proof -
  from lc_remove_forward [OF d] obtain n c1 where
    n: "cells (lc_nodes c) a = Some n" "a \<noteq> 0" "dn_next n = hd (vs @ [0])" "dn_prev n = last (0 # us)"
    and c1: "(if dn_prev n \<noteq> 0
      then bindE (lc_node_get c (dn_prev n)) (\<lambda>p. lc_node_put c (dn_prev n) (p\<lparr>dn_next := dn_next n\<rparr>))
      else Inr (c\<lparr>lc_head := dn_next n\<rparr>)) = Inr c1"
      "lc_frame c c1" "cells (lc_nodes c1) a = Some n"
      "dseg (cells (lc_nodes c1)) 0 us (hd (vs @ [0]))" "dseg (cells (lc_nodes c1)) a vs 0"
      "lc_head c1 = hd (us @ vs @ [0])" "lc_tail c1 = last (0 # us @ a # vs)" .
  have dist: "distinct (us @ a # vs)" and wf: "heap_wf (lc_nodes c)" using d by (auto simp: dlist_def)
  have step: "lc_removeNode c a = (if dn_next n \<noteq> 0
     then bindE (lc_node_get c1 (dn_next n)) (\<lambda>q. lc_node_put c1 (dn_next n) (q\<lparr>dn_prev := dn_prev n\<rparr>))
     else Inr (c1\<lparr>lc_tail := dn_prev n\<rparr>))"
    using n c1(1,3) by (simp add: lc_removeNode_def lc_node_get_def)
  show ?thesis
  proof (cases vs)
    case Nil
    let ?c = "c1\<lparr>lc_tail := dn_prev n\<rparr>"
    have "lc_frame c ?c" using c1(2) by (simp add: lc_frame_def lc_kv_def fun_eq_iff)
    moreover have "dlist ?c us"
      using wf lc_frame_wf [OF c1(2)] c1 n Nil dist by (simp add: dlist_def)
    ultimately show ?thesis using step n Nil by simp
  next
    case (Cons v vs')
    from dseg_dom [OF c1(5), of v] Cons obtain q where q: "v \<noteq> 0" "cells (lc_nodes c1) v = Some q" by auto
    let ?c = "c1\<lparr>lc_nodes := (lc_nodes c1)\<lparr>cells := (cells (lc_nodes c1))(v := Some (q\<lparr>dn_prev := dn_prev n\<rparr>))\<rparr>\<rparr>"
    note put = lc_node_put_frame [OF q(2,1), of "q\<lparr>dn_prev := dn_prev n\<rparr>"]
    have fr: "lc_frame c ?c" using lc_frame_trans [OF c1(2)] put(2) by simp
    have "v \<notin> set us" "v \<notin> set vs'" using dist Cons by auto
    then have "dseg (cells (lc_nodes ?c)) 0 (us @ vs) 0"
      using c1(4) n(4) Cons dseg_set_prev [OF c1(5) [unfolded Cons] _ q(2), of "dn_prev n"]
      by (simp add: dseg_append)
    then have "dlist ?c (us @ vs)"
      using wf lc_frame_wf [OF fr] c1 dist Cons by (auto simp: dlist_def)
    then show ?thesis using step n q put fr Cons by (auto simp: lc_node_get_def)
  qed
qed

lemma lc_addToHead_ok:
  assumes d: "dlist c as" and a: "a \<notin> set as" "a \<noteq> 0" "cells (lc_nodes c) a = Some n"
  shows "\<exists>c'. lc_addToHead c a = Inr c' \<and> dlist c' (a # as) \<and> lc_frame c c'"
proof -
  let ?n = "n\<lparr>dn_next := lc_head c, dn_prev := 0\<rparr>"
  let ?c1 = "c\<lparr>lc_nodes := (lc_nodes c)\<lparr>cells := (cells (lc_nodes c))(a := Some ?n)\<rparr>\<rparr>"
  note put1 = lc_node_put_frame [OF a(3,2), of ?n]
  from d have ds: "dseg (cells (lc_nodes c)) 0 as 0" "distinct as" "lc_head c = hd (as @ [0])" "lc_tail c = last (0 # as)"
    and wf: "heap_wf (lc_nodes c)" by (auto simp: dlist_def)
  show ?thesis
  proof (cases as)
    case Nil
    let ?c = "?c1\<lparr>lc_head := a, lc_tail := a\<rparr>"
    have fr: "lc_frame c ?c" using put1(2) by (simp add: lc_frame_def lc_kv_def fun_eq_iff)
    have "dlist ?c [a]" using wf lc_frame_wf [OF fr] a ds Nil by (simp add: dlist_def)
    then show ?thesis using fr put1(1) a ds Nil by (auto simp: lc_addToHead_def lc_node_get_def)
  next
    case (Cons b bs)
    from dseg_dom [OF ds(1), of b] Cons obtain q where q: "b \<noteq> 0" "cells (lc_nodes c) b = Some q" by auto
    then have q1: "cells (lc_nodes ?c1) b = Some q" using a(1) Cons by auto
    note put2 = lc_node_put_frame [OF q1 q(1), of "q\<lparr>dn_prev := a\<rparr>"]
    let ?c2 = "?c1\<lparr>lc_nodes := (lc_nodes ?c1)\<lparr>cells := (cells (lc_nodes ?c1))(b := Some (q\<lparr>dn_prev := a\<rparr>))\<rparr>\<rparr>"
    let ?c = "?c2\<lparr>lc_head := a\<rparr>"
    have "lc_frame c ?c2" using put1(2) put2(2) lc_frame_trans by simp
    then have fr: "lc_frame c ?c" by (simp add: lc_frame_def lc_kv_def fun_eq_iff)
    have "dseg (cells (lc_nodes ?c1)) 0 as 0" using ds(1) a(1) by simp
    then have "dseg (cells (lc_nodes ?c)) a as 0"
      using dseg_set_prev [of "cells (lc_nodes ?c1)" 0 b bs 0 q a] q1 ds(2) Cons by simp
    then have "dlist ?c (a # as)" using wf lc_frame_wf [OF fr] a ds Cons by (auto simp: dlist_def)
    moreover have "lc_tail c \<noteq> 0" using ds(1,4) Cons dseg_dom [OF ds(1), of "last as"] by auto
    then have "lc_addToHead c a = Inr ?c"
      using put1(1) put2(1) a q q1 ds Cons by (simp add: lc_addToHead_def lc_node_get_def Let_def)
    ultimately show ?thesis using fr by blast
  qed
qed

lemma lc_moveToHead_ok:
  assumes d: "dlist c (us @ a # vs)"
  shows "\<exists>c'. lc_moveToHead c a = Inr c' \<and> dlist c' (a # us @ vs) \<and> lc_frame c c'"
proof -
  from lc_removeNode_ok [OF d] obtain c1 where
    c1: "lc_removeNode c a = Inr c1" "dlist c1 (us @ vs)" "lc_frame c c1" by blast
  have "a \<notin> set (us @ vs)" "a \<noteq> 0" "lc_kv c a \<noteq> None"
    using d by (auto simp: dlist_def dseg_append lc_kv_def split: option.splits)
  moreover from this c1(3) obtain n where "cells (lc_nodes c1) a = Some n"
    by (metis lc_frame_None lc_kv_None not_None_eq)
  ultimately obtain c2 where "lc_addToHead c1 a = Inr c2" "dlist c2 (a # us @ vs)" "lc_frame c1 c2"
    using lc_addToHead_ok [OF c1(2)] by blast
  then show ?thesis using c1 lc_frame_trans by (auto simp: lc_moveToHead_def)
qed

section \<open>The hash chains\<close>

lemma lc_hash_nonneg: "0 \<le> k \<Longrightarrow> lc_hash k = nat (k mod 10007)"
  by (simp add: lc_hash_def lc_HASH_SIZE_def smod_nonneg)

lemma lc_hash_bound: "0 \<le> k \<Longrightarrow> lc_hash k < lc_HASH_SIZE"
  by (simp add: lc_hash_nonneg) (simp add: lc_HASH_SIZE_def nat_less_iff)

text \<open>
  \<open>chains c es S\<close>: bucket \<open>i\<close> is the chain of the entries \<open>es i\<close>, which hold exactly the pairs of key and
  node of \<open>S\<close> whose key hashes to \<open>i\<close>; no other entry is allocated.
\<close>

abbreviation lc_pair :: "lrucache \<Rightarrow> nat \<Rightarrow> int \<times> nat" where
  "lc_pair c e \<equiv> (en_key (the (cells (lc_entries c) e)), en_node (the (cells (lc_entries c) e)))"

definition chains :: "lrucache \<Rightarrow> (nat \<Rightarrow> nat list) \<Rightarrow> (int \<times> nat) set \<Rightarrow> bool" where
  "chains c es S \<longleftrightarrow> heap_wf (lc_entries c) \<and> (\<forall>(k, a)\<in>S. 0 \<le> k) \<and> single_valued S
     \<and> (\<forall>i<lc_HASH_SIZE. path en_next (cells (lc_entries c)) (lc_table c i) (es i) 0
          \<and> lc_pair c ` set (es i) = {p \<in> S. lc_hash (fst p) = i}
          \<and> distinct (map (\<lambda>e. en_key (the (cells (lc_entries c) e))) (es i)))
     \<and> dom (cells (lc_entries c)) = (\<Union>i<lc_HASH_SIZE. set (es i))"

lemma chains_cong:
  "chains c es S \<Longrightarrow> lc_table c' = lc_table c \<Longrightarrow> lc_entries c' = lc_entries c \<Longrightarrow> chains c' es S"
  by (simp add: chains_def)

lemma chains_bucket:
  assumes "chains c es S" and "e \<in> set (es i)" and "i < lc_HASH_SIZE"
  shows "lc_hash (en_key (the (cells (lc_entries c) e))) = i" and "lc_pair c e \<in> S"
proof -
  have "lc_pair c e \<in> {p \<in> S. lc_hash (fst p) = i}" using assms unfolding chains_def by blast
  then show "lc_hash (en_key (the (cells (lc_entries c) e))) = i" "lc_pair c e \<in> S" by simp_all
qed

lemma chains_disjoint:
  assumes "chains c es S" and "e \<in> set (es i)" and "i < lc_HASH_SIZE" and "j < lc_HASH_SIZE" and "i \<noteq> j"
  shows "e \<notin> set (es j)"
  using chains_bucket(1) [OF assms(1-3)] chains_bucket(1) [OF assms(1) _ assms(4)] assms(5) by blast

text \<open>The entry of a key that is present, with the part of its chain before and after it.\<close>

lemma chains_split:
  assumes ch: "chains c es S" and S: "(k, a) \<in> S"
  obtains us e vs where "es (lc_hash k) = us @ e # vs" "lc_pair c e = (k, a)" "lc_hash k < lc_HASH_SIZE"
    "\<forall>d\<in>set us. en_key (the (cells (lc_entries c) d)) \<noteq> k"
    "\<forall>d\<in>set vs. en_key (the (cells (lc_entries c) d)) \<noteq> k"
proof -
  have k: "0 \<le> k" using ch S by (auto simp: chains_def)
  note h = lc_hash_bound [OF k]
  have "(k, a) \<in> lc_pair c ` set (es (lc_hash k))" using ch S h by (auto simp: chains_def)
  then obtain e where e: "e \<in> set (es (lc_hash k))" "lc_pair c e = (k, a)" by auto
  then obtain us vs where es: "es (lc_hash k) = us @ e # vs" by (meson split_list)
  have "distinct (map (\<lambda>e. en_key (the (cells (lc_entries c) e))) (us @ e # vs))"
    using ch h es unfolding chains_def by metis
  then have "k \<notin> (\<lambda>e. en_key (the (cells (lc_entries c) e))) ` set us"
    "k \<notin> (\<lambda>e. en_key (the (cells (lc_entries c) e))) ` set vs" using e(2) by auto
  then show thesis using that [OF es e(2) h] by blast
qed

lemma lc_hashGetEntry_present:
  assumes "chains c es S" and "es (lc_hash k) = us @ e # vs" and "lc_pair c e = (k, a)" and "lc_hash k < lc_HASH_SIZE"
    and "\<forall>d\<in>set us. en_key (the (cells (lc_entries c) d)) \<noteq> k"
  shows "h_search (brk (lc_entries c)) en_next (\<lambda>e. en_key e = k) (lc_entries c) 0 (lc_table c (lc_hash k))
      = Inr (last (0 # us), e)"
    and "lc_hashGetEntry c k = Inr e" and "e \<noteq> 0" and "\<exists>n. cells (lc_entries c) e = Some n \<and> en_key n = k \<and> en_node n = a"
proof -
  from assms have p: "path en_next (cells (lc_entries c)) (lc_table c (lc_hash k)) (us @ e # vs) 0"
    and wf: "heap_wf (lc_entries c)" by (auto simp: chains_def)
  show s: "h_search (brk (lc_entries c)) en_next (\<lambda>e. en_key e = k) (lc_entries c) 0 (lc_table c (lc_hash k))
      = Inr (last (0 # us), e)"
    using h_search_found [OF wf p, of "\<lambda>e. en_key e = k" 0] assms(3,5) by simp
  then show "lc_hashGetEntry c k = Inr e" using assms(4) by (simp add: lc_hashGetEntry_def lc_bucket_def)
  show "e \<noteq> 0" "\<exists>n. cells (lc_entries c) e = Some n \<and> en_key n = k \<and> en_node n = a"
    using path_in_dom [OF p, of e] assms(3) by auto
qed

lemma lc_hashGetEntry_absent:
  assumes ch: "chains c es S" and k: "0 \<le> k" and S: "k \<notin> fst ` S"
  shows "h_search (brk (lc_entries c)) en_next (\<lambda>e. en_key e = k) (lc_entries c) 0 (lc_table c (lc_hash k))
      = Inr (last (0 # es (lc_hash k)), 0)"
    and "lc_hashGetEntry c k = Inr 0"
proof -
  note h = lc_hash_bound [OF k]
  from ch h have p: "path en_next (cells (lc_entries c)) (lc_table c (lc_hash k)) (es (lc_hash k)) 0"
    and wf: "heap_wf (lc_entries c)" by (auto simp: chains_def)
  have "\<forall>d\<in>set (es (lc_hash k)). en_key (the (cells (lc_entries c) d)) \<noteq> k"
    using chains_bucket(2) [OF ch _ h] S by force
  then show s: "h_search (brk (lc_entries c)) en_next (\<lambda>e. en_key e = k) (lc_entries c) 0 (lc_table c (lc_hash k))
      = Inr (last (0 # es (lc_hash k)), 0)"
    by (rule h_search_absent [OF wf p])
  show "lc_hashGetEntry c k = Inr 0" using s h by (simp add: lc_hashGetEntry_def lc_bucket_def)
qed

lemma lc_hashGet_present:
  assumes "chains c es S" and "(k, a) \<in> S"
  shows "lc_hashGet c k = Inr a"
proof -
  from chains_split [OF assms] obtain us e vs where
    e: "es (lc_hash k) = us @ e # vs" "lc_pair c e = (k, a)" "lc_hash k < lc_HASH_SIZE"
      "\<forall>d\<in>set us. en_key (the (cells (lc_entries c) d)) \<noteq> k" by metis
  show ?thesis using lc_hashGetEntry_present [OF assms(1) e] by (auto simp: lc_hashGet_def)
qed

lemma lc_hashGet_absent:
  "chains c es S \<Longrightarrow> 0 \<le> k \<Longrightarrow> k \<notin> fst ` S \<Longrightarrow> lc_hashGet c k = Inr 0"
  by (simp add: lc_hashGet_def lc_hashGetEntry_absent)

lemma lc_hashPut_fresh:
  assumes ch: "chains c es S" and k: "0 \<le> k" and S: "k \<notin> fst ` S"
  shows "\<exists>c' es'. lc_hashPut True c k a = Inr c' \<and> chains c' es' (Set.insert (k, a) S)
    \<and> c' = c\<lparr>lc_entries := lc_entries c', lc_table := lc_table c'\<rparr>"
proof -
  note h = lc_hash_bound [OF k]
  let ?i = "lc_hash k" and ?b = "brk (lc_entries c)" and ?m = "cells (lc_entries c)"
  let ?m' = "?m(?b := Some \<lparr>en_key = k, en_node = a, en_next = lc_table c ?i\<rparr>)"
  let ?c = "c\<lparr>lc_entries := (lc_entries c)\<lparr>cells := ?m', brk := ?b + 1\<rparr>, lc_table := (lc_table c)(?i := ?b)\<rparr>"
  let ?es = "es(?i := ?b # es ?i)"
  have put: "lc_hashPut True c k a = Inr ?c"
    using lc_hashGetEntry_absent [OF ch k S] h
    by (simp add: lc_hashPut_def lc_bucket_def lc_set_bucket_def h_alloc_def Let_def)
  have wf: "heap_wf (lc_entries c)" using ch by (simp add: chains_def)
  have b: "?b \<noteq> 0" using wf by (simp add: heap_wf_def)
  have p: "path en_next ?m (lc_table c j) (es j) 0" if "j < lc_HASH_SIZE" for j using ch that by (simp add: chains_def)
  have fr: "?b \<notin> set (es j)" if "j < lc_HASH_SIZE" for j using path_fresh [OF wf p [OF that]] .
  have img: "lc_pair ?c ` set (es j) = {p \<in> S. lc_hash (fst p) = j}" if "j < lc_HASH_SIZE" for j
  proof -
    have "lc_pair ?c ` set (es j) = lc_pair c ` set (es j)" using fr [OF that] by (intro image_cong) auto
    then show ?thesis using ch that by (simp add: chains_def)
  qed
  have keys: "map (\<lambda>e. en_key (the (?m' e))) (es j) = map (\<lambda>e. en_key (the (?m e))) (es j)" if "j < lc_HASH_SIZE" for j
    using fr [OF that] by (intro map_cong) auto
  have nk: "k \<notin> (\<lambda>e. en_key (the (?m e))) ` set (es ?i)" using chains_bucket(2) [OF ch _ h] S by force
  have "path en_next ?m' (((lc_table c)(?i := ?b)) j) (?es j) 0
      \<and> lc_pair ?c ` set (?es j) = {p \<in> Set.insert (k, a) S. lc_hash (fst p) = j}
      \<and> distinct (map (\<lambda>e. en_key (the (?m' e))) (?es j))" if j: "j < lc_HASH_SIZE" for j
  proof (cases "j = ?i")
    case True
    have "distinct (map (\<lambda>e. en_key (the (?m' e))) (es ?i))"
      unfolding keys [OF h] using ch h by (simp add: chains_def)
    then show ?thesis using True p [OF h] fr [OF h] b img [OF h] keys [OF h] nk by auto
  next
    case False
    have "distinct (map (\<lambda>e. en_key (the (?m' e))) (es j))"
      unfolding keys [OF j] using ch j by (simp add: chains_def)
    then show ?thesis using False p [OF j] fr [OF j] img [OF j] keys [OF j] by auto
  qed
  moreover have "dom ?m = (\<Union>j<lc_HASH_SIZE. set (es j))" using ch by (simp add: chains_def)
  then have "dom ?m' = (\<Union>j<lc_HASH_SIZE. set (?es j))" using h by (auto split: if_splits)
  moreover have sv: "single_valued S" "\<forall>(k', a')\<in>S. 0 \<le> k'" using ch by (simp_all add: chains_def)
  have "\<And>b. (k, b) \<notin> S" using S by force
  then have "single_valued (Set.insert (k, a) S)" "\<forall>(k', a')\<in>Set.insert (k, a) S. 0 \<le> k'"
    using sv k by (auto simp: single_valued_def)
  moreover have "heap_wf ((lc_entries c)\<lparr>cells := ?m', brk := ?b + 1\<rparr>)" using heap_wf_alloc [OF wf] .
  ultimately have "chains ?c ?es (Set.insert (k, a) S)" by (simp add: chains_def)
  then show ?thesis using put by (intro exI [of _ ?c] exI [of _ ?es]) simp
qed

text \<open>Taking an entry out of its chain.\<close>

lemma chains_unlink:
  assumes ch: "chains c es S" and i: "i < lc_HASH_SIZE" and es: "es i = us @ e # vs" and pe: "lc_pair c e = (k, a)"
    and wf: "heap_wf (lc_entries c')" and dom: "dom (cells (lc_entries c')) = dom (cells (lc_entries c)) - {e}"
    and same: "\<And>d. d \<noteq> e \<Longrightarrow> lc_pair c' d = lc_pair c d"
    and paths: "\<And>j. j < lc_HASH_SIZE \<Longrightarrow>
      path en_next (cells (lc_entries c')) (lc_table c' j) ((es(i := us @ vs)) j) 0"
  shows "chains c' (es(i := us @ vs)) (S - {(k, a)})"
proof -
  have sv: "single_valued S" "\<forall>(k, a)\<in>S. 0 \<le> k" using ch by (simp_all add: chains_def)
  have dist: "distinct (map (\<lambda>e. en_key (the (cells (lc_entries c) e))) (es j))"
    and img: "lc_pair c ` set (es j) = {p \<in> S. lc_hash (fst p) = j}" if "j < lc_HASH_SIZE" for j
    using ch that by (simp_all add: chains_def)
  have de: "distinct (us @ e # vs)" using dist [OF i] unfolding es distinct_map by blast
  have nin: "e \<notin> set ((es(i := us @ vs)) j)" if "j < lc_HASH_SIZE" for j
    using chains_disjoint [OF ch _ i that, of e] de es by auto
  have eqs: "lc_pair c' ` set ((es(i := us @ vs)) j) = lc_pair c ` set ((es(i := us @ vs)) j)"
    "map (\<lambda>e. en_key (the (cells (lc_entries c') e))) ((es(i := us @ vs)) j)
      = map (\<lambda>e. en_key (the (cells (lc_entries c) e))) ((es(i := us @ vs)) j)" if "j < lc_HASH_SIZE" for j
  proof -
    have sd: "lc_pair c' d = lc_pair c d" if "d \<in> set ((es(i := us @ vs)) j)" for d
      using nin [OF \<open>j < lc_HASH_SIZE\<close>] that by (intro same) blast
    show "lc_pair c' ` set ((es(i := us @ vs)) j) = lc_pair c ` set ((es(i := us @ vs)) j)"
      by (rule image_cong [OF refl sd])
    show "map (\<lambda>e. en_key (the (cells (lc_entries c') e))) ((es(i := us @ vs)) j)
        = map (\<lambda>e. en_key (the (cells (lc_entries c) e))) ((es(i := us @ vs)) j)"
      using sd by (intro map_cong [OF refl]) blast
  qed
  have "lc_pair c ` set ((es(i := us @ vs)) j) = {p \<in> S - {(k, a)}. lc_hash (fst p) = j}
      \<and> distinct (map (\<lambda>e. en_key (the (cells (lc_entries c) e))) ((es(i := us @ vs)) j))" if j: "j < lc_HASH_SIZE" for j
  proof (cases "j = i")
    case True
    have "Set.insert (k, a) (lc_pair c ` set (us @ vs)) = {p \<in> S. lc_hash (fst p) = i}"
      using img [OF i] pe es by (simp add: image_Un)
    moreover have "(k, a) \<notin> lc_pair c ` set (us @ vs)" using dist [OF i] es pe by auto
    ultimately show ?thesis using True dist [OF i] es by auto
  next
    case False
    have "lc_hash k = i" using chains_bucket(1) [OF ch _ i, of e] es pe by simp
    then show ?thesis using False img [OF j] dist [OF j] by auto
  qed
  moreover have "dom (cells (lc_entries c')) = (\<Union>j<lc_HASH_SIZE. set ((es(i := us @ vs)) j))"
  proof -
    have "dom (cells (lc_entries c)) = (\<Union>j<lc_HASH_SIZE. set (es j))" using ch by (simp add: chains_def)
    also have "\<dots> = (\<Union>j<lc_HASH_SIZE. (if j = i then {e} else {}) \<union> set ((es(i := us @ vs)) j))"
      using es by (intro SUP_cong) auto
    also have "\<dots> = Set.insert e (\<Union>j<lc_HASH_SIZE. set ((es(i := us @ vs)) j))" using i by (auto split: if_splits)
    finally show ?thesis using dom nin by auto
  qed
  moreover have "single_valued (S - {(k, a)})" "\<forall>(k, a)\<in>S - {(k, a)}. 0 \<le> k"
    using sv by (auto simp: single_valued_def)
  ultimately show ?thesis using wf paths unfolding chains_def by (metis (no_types, lifting) eqs)
qed

lemma lc_hashRemove_ok:
  assumes ch: "chains c es S" and S: "(k, a) \<in> S"
  shows "\<exists>c' es'. lc_hashRemove c k = Inr c' \<and> chains c' es' (S - {(k, a)})
    \<and> c' = c\<lparr>lc_entries := lc_entries c', lc_table := lc_table c'\<rparr>"
proof -
  from chains_split [OF ch S] obtain us e vs where
    e: "es (lc_hash k) = us @ e # vs" "lc_pair c e = (k, a)" "lc_hash k < lc_HASH_SIZE"
      "\<forall>d\<in>set us. en_key (the (cells (lc_entries c) d)) \<noteq> k" by metis
  let ?i = "lc_hash k" and ?m = "cells (lc_entries c)"
  note pres = lc_hashGetEntry_present [OF ch e]
  from pres(4) obtain n where n: "?m e = Some n" by blast
  have wf: "heap_wf (lc_entries c)" using ch by (simp add: chains_def)
  have p: "path en_next ?m (lc_table c j) (es j) 0" if "j < lc_HASH_SIZE" for j using ch that by (simp add: chains_def)
  note pi = p [OF e(3), unfolded e(1)]
  have other: "d \<notin> set (es j)" if "d \<in> set (us @ e # vs)" "j < lc_HASH_SIZE" "j \<noteq> ?i" for d j
    using chains_disjoint [OF ch _ e(3) that(2)] that e(1) by auto
  show ?thesis
  proof (cases us rule: rev_cases)
    case Nil
    let ?c = "c\<lparr>lc_entries := (lc_entries c)\<lparr>cells := ?m(e := None)\<rparr>, lc_table := (lc_table c)(?i := en_next n)\<rparr>"
    have "lc_hashRemove c k = Inr ?c"
      using pres n e(3) Nil by (simp add: lc_hashRemove_def lc_bucket_def lc_set_bucket_def Let_def)
    moreover have "chains ?c (es(?i := us @ vs)) (S - {(k, a)})"
    proof (rule chains_unlink [OF ch e(3,1,2)])
      show "heap_wf (lc_entries ?c)" using heap_wf_upd [OF wf n] by simp
      show "path en_next (cells (lc_entries ?c)) (lc_table ?c j) ((es(?i := us @ vs)) j) 0" if "j < lc_HASH_SIZE" for j
        using p [OF that] pi n Nil other [OF _ that, of e] path_distinct [OF pi] by auto
    qed auto
    ultimately show ?thesis by (intro exI [of _ ?c] exI [of _ "es(?i := us @ vs)"]) simp
  next
    case (snoc us' u)
    from path_in_dom [OF pi, of u] snoc obtain q where q: "?m u = Some q" "u \<noteq> 0" by auto
    have ue: "u \<noteq> e" using path_distinct [OF pi] snoc by auto
    let ?c = "c\<lparr>lc_entries := (lc_entries c)\<lparr>cells := ?m(u := Some (q\<lparr>en_next := en_next n\<rparr>), e := None)\<rparr>\<rparr>"
    have "lc_hashRemove c k = Inr ?c"
      using pres n e(3) snoc q ue by (simp add: lc_hashRemove_def lc_bucket_def Let_def)
    moreover have "chains ?c (es(?i := us @ vs)) (S - {(k, a)})"
    proof (rule chains_unlink [OF ch e(3,1,2)])
      show "heap_wf (lc_entries ?c)" using wf n q by (auto simp: heap_wf_def)
      show "path en_next (cells (lc_entries ?c)) (lc_table ?c j) ((es(?i := us @ vs)) j) 0" if "j < lc_HASH_SIZE" for j
      proof (cases "j = ?i")
        case True
        then show ?thesis
          using path_unlink [of en_next ?m _ us' u e vs n "q\<lparr>en_next := en_next n\<rparr>"] pi n snoc by simp
      next
        case False
        then show ?thesis using p [OF that] other [OF _ that, of e] other [OF _ that, of u] snoc by simp
      qed
    qed (use ue q in auto)
    ultimately show ?thesis by (intro exI [of _ ?c] exI [of _ "es(?i := us @ vs)"]) simp
  qed
qed

section \<open>The abstract cache\<close>

text \<open>The items in order of use, most recent first, at most \<open>cap\<close> of them.\<close>

definition alru_get :: "(int \<times> int) list \<Rightarrow> int \<Rightarrow> (int \<times> int) list \<times> int" where
  "alru_get xs k = (case map_of xs k of None \<Rightarrow> (xs, -1)
     | Some v \<Rightarrow> ((k, v) # filter (\<lambda>p. fst p \<noteq> k) xs, v))"

definition alru_put :: "int \<Rightarrow> (int \<times> int) list \<Rightarrow> int \<Rightarrow> int \<Rightarrow> (int \<times> int) list" where
  "alru_put cap xs k v = (let ys = (k, v) # filter (\<lambda>p. fst p \<noteq> k) xs
     in if int (length ys) > cap then butlast ys else ys)"

abbreviation lc_item :: "lrucache \<Rightarrow> nat \<Rightarrow> int \<times> int" where
  "lc_item c a \<equiv> the (lc_kv c a)"

abbreviation lc_refs :: "lrucache \<Rightarrow> nat list \<Rightarrow> (int \<times> nat) set" where
  "lc_refs c as \<equiv> (\<lambda>a. (fst (lc_item c a), a)) ` set as"

text \<open>
  The representation: the list holds the items, the chains map each key to its node, no other node
  is allocated and the size is right.
\<close>

definition lc_rep :: "lrucache \<Rightarrow> nat list \<Rightarrow> (nat \<Rightarrow> nat list) \<Rightarrow> (int \<times> int) list \<Rightarrow> bool" where
  "lc_rep c as es xs \<longleftrightarrow> dlist c as \<and> map (lc_item c) as = xs \<and> dom (cells (lc_nodes c)) = set as
     \<and> distinct (map fst xs) \<and> (\<forall>p\<in>set xs. 0 \<le> fst p) \<and> lc_size c = int (length xs)
     \<and> chains c es (lc_refs c as)"

definition lc_rel :: "lrucache \<Rightarrow> (int \<times> int) list \<Rightarrow> bool" where
  "lc_rel c xs \<longleftrightarrow> (\<exists>as es. lc_rep c as es xs) \<and> int (length xs) \<le> max 0 (lc_capacity c)"

lemma lc_rel_create: "lc_rel (lRUCacheCreate cap) []"
proof -
  have "lc_rep (lRUCacheCreate cap) [] (\<lambda>_. []) []"
    by (simp add: lc_rep_def dlist_def lRUCacheCreate_def chains_def heap_empty_def heap_wf_def)
  then show ?thesis by (auto simp: lc_rel_def lRUCacheCreate_def)
qed

lemma filter_key_split:
  assumes "distinct (map fst (xs @ (k, v) # ys))"
  shows "filter (\<lambda>p. fst p \<noteq> k) (xs @ (k, v') # ys) = xs @ ys"
proof -
  have "\<forall>p\<in>set (xs @ ys). fst p \<noteq> k" using assms by (auto simp: rev_image_eqI)
  then show ?thesis by (simp add: filter_id_conv)
qed

lemma lc_rep_length: "lc_rep c as es xs \<Longrightarrow> length xs = length as"
  by (auto simp: lc_rep_def)

lemma lc_rep_present:
  assumes rep: "lc_rep c as es xs" and v: "map_of xs k = Some v"
  obtains us a vs where "as = us @ a # vs" "lc_kv c a = Some (k, v)" "lc_hashGet c k = Inr a" "a \<noteq> 0"
proof -
  from rep have d: "dlist c as" "map (lc_item c) as = xs" "chains c es (lc_refs c as)" by (simp_all add: lc_rep_def)
  have "(k, v) \<in> set (map (lc_item c) as)" using map_of_SomeD [OF v] d(2) by simp
  then obtain a where a: "a \<in> set as" "lc_item c a = (k, v)" by auto
  have "a \<noteq> 0" "lc_kv c a \<noteq> None" using d(1) dseg_dom [of _ 0 as 0 a] a(1) by (auto simp: dlist_def lc_kv_None)
  moreover from this a have "lc_kv c a = Some (k, v)" by (metis option.exhaust_sel)
  moreover have "(k, a) \<in> lc_refs c as" using a by force
  then have "lc_hashGet c k = Inr a" using lc_hashGet_present [OF d(3)] by blast
  ultimately show thesis using that split_list [OF a(1)] by blast
qed

lemma lc_rep_absent:
  assumes "lc_rep c as es xs" and "map_of xs k = None" and "0 \<le> k"
  shows "lc_hashGet c k = Inr 0" and "k \<notin> fst ` lc_refs c as"
proof -
  have "k \<notin> fst ` set xs" "map (lc_item c) as = xs" "chains c es (lc_refs c as)"
    using assms by (simp_all add: map_of_eq_None_iff lc_rep_def)
  then show "k \<notin> fst ` lc_refs c as" "lc_hashGet c k = Inr 0"
    using lc_hashGet_absent assms(3) by (auto simp: image_image)
qed

text \<open>Moving a node to the front, on the representation.\<close>

lemma lc_rep_touch:
  assumes rep: "lc_rep c (us @ a # vs) es xs" and a: "lc_kv c a = Some (k, v)"
  shows "\<exists>c'. lc_moveToHead c a = Inr c' \<and> lc_rep c' (a # us @ vs) es ((k, v) # filter (\<lambda>p. fst p \<noteq> k) xs)
    \<and> lc_capacity c' = lc_capacity c \<and> lc_kv c' a = Some (k, v)"
proof -
  from rep have d: "dlist c (us @ a # vs)" and xs: "xs = map (lc_item c) us @ (k, v) # map (lc_item c) vs"
    and dom: "dom (cells (lc_nodes c)) = set (us @ a # vs)" and dist: "distinct (map fst xs)"
    and nn: "\<forall>p\<in>set xs. 0 \<le> fst p" and size: "lc_size c = int (length xs)" and ch: "chains c es (lc_refs c (us @ a # vs))"
    using a by (auto simp: lc_rep_def)
  from lc_moveToHead_ok [OF d] obtain c' where
    c': "lc_moveToHead c a = Inr c'" "dlist c' (a # us @ vs)" "lc_frame c c'" by blast
  have fr: "lc_kv c' = lc_kv c" "lc_size c' = lc_size c" "lc_capacity c' = lc_capacity c"
    using c'(3) by (simp_all add: lc_frame_def)
  have flt: "filter (\<lambda>p. fst p \<noteq> k) xs = map (lc_item c) us @ map (lc_item c) vs"
    using filter_key_split [OF dist [unfolded xs]] unfolding xs by blast
  have "chains c' es (lc_refs c' (a # us @ vs))"
    using chains_cong [OF ch] c'(3) fr(1) by (simp add: lc_frame_def insert_commute Un_commute image_Un)
  moreover have "dom (cells (lc_nodes c')) = set (a # us @ vs)"
    using dom lc_frame_None [OF c'(3)] by (auto simp: dom_def)
  ultimately have "lc_rep c' (a # us @ vs) es ((k, v) # filter (\<lambda>p. fst p \<noteq> k) xs)"
    using c'(2) fr a size dist nn unfolding flt by (auto simp: lc_rep_def xs)
  then show ?thesis using c'(1) fr a by simp
qed

lemma lRUCacheGet_ok:
  assumes rel: "lc_rel c xs" and k: "0 \<le> k"
  shows "\<exists>c'. lRUCacheGet c k = Inr (c', snd (alru_get xs k)) \<and> lc_rel c' (fst (alru_get xs k))
    \<and> lc_capacity c' = lc_capacity c"
proof -
  from rel obtain as es where rep: "lc_rep c as es xs" and cap: "int (length xs) \<le> max 0 (lc_capacity c)"
    by (auto simp: lc_rel_def)
  show ?thesis
  proof (cases "map_of xs k")
    case None
    then show ?thesis
      using lc_rep_absent [OF rep None k] rel by (simp add: lRUCacheGet_def alru_get_def)
  next
    case (Some v)
    from lc_rep_present [OF rep Some] obtain us a vs where
      a: "as = us @ a # vs" "lc_kv c a = Some (k, v)" "lc_hashGet c k = Inr a" "a \<noteq> 0" .
    from lc_rep_touch [OF rep [unfolded a(1)] a(2)] obtain c' where
      c': "lc_moveToHead c a = Inr c'" "lc_rep c' (a # us @ vs) es ((k, v) # filter (\<lambda>p. fst p \<noteq> k) xs)"
        "lc_capacity c' = lc_capacity c" "lc_kv c' a = Some (k, v)" by blast
    from c'(4) obtain n where "cells (lc_nodes c') a = Some n" "dn_value n = v" by (auto simp: lc_kv_Some)
    then have "lRUCacheGet c k = Inr (c', v)"
      using a(3,4) c'(1) by (simp add: lRUCacheGet_def lc_node_get_def)
    moreover have "length ((k, v) # filter (\<lambda>p. fst p \<noteq> k) xs) = length xs"
      using lc_rep_length [OF rep] lc_rep_length [OF c'(2)] a(1) by simp
    ultimately show ?thesis
      using c'(2,3) cap Some by (auto simp: alru_get_def lc_rel_def)
  qed
qed

text \<open>Storing a new value in a node, adding a node and evicting the last one.\<close>

lemma dseg_upd_links:
  assumes "m a = Some n" and "dn_prev n' = dn_prev n" and "dn_next n' = dn_next n"
  shows "dseg (m(a := Some n')) pr as nx = dseg m pr as nx"
  using assms by (induction as arbitrary: pr) (auto split: option.splits)

lemma lc_rep_set_value:
  assumes rep: "lc_rep c (us @ a # vs) es xs" and a: "lc_kv c a = Some (k, v)"
  shows "\<exists>n c'. cells (lc_nodes c) a = Some n \<and> a \<noteq> 0 \<and> lc_node_put c a (n\<lparr>dn_value := w\<rparr>) = Inr c'
    \<and> lc_rep c' (us @ a # vs) es (map (lc_item c) us @ (k, w) # map (lc_item c) vs)
    \<and> lc_kv c' a = Some (k, w) \<and> lc_capacity c' = lc_capacity c"
proof -
  from rep have d: "dlist c (us @ a # vs)" and xs: "xs = map (lc_item c) us @ (k, v) # map (lc_item c) vs"
    and r: "dom (cells (lc_nodes c)) = set (us @ a # vs)" "distinct (map fst xs)" "\<forall>p\<in>set xs. 0 \<le> fst p"
      "lc_size c = int (length xs)" "chains c es (lc_refs c (us @ a # vs))"
    using a by (auto simp: lc_rep_def)
  from a obtain n where n: "cells (lc_nodes c) a = Some n" "dn_key n = k" by (auto simp: lc_kv_Some)
  let ?c = "c\<lparr>lc_nodes := (lc_nodes c)\<lparr>cells := (cells (lc_nodes c))(a := Some (n\<lparr>dn_value := w\<rparr>))\<rparr>\<rparr>"
  have a0: "a \<noteq> 0" and nin: "a \<notin> set us" "a \<notin> set vs" using d by (auto simp: dlist_def dseg_append)
  have kv: "lc_kv ?c = (lc_kv c)(a := Some (k, w))" using n by (auto simp: lc_kv_def fun_eq_iff)
  have "dlist ?c (us @ a # vs)"
    using d heap_wf_upd [OF _ n(1)] dseg_upd_links [of "cells (lc_nodes c)" a n "n\<lparr>dn_value := w\<rparr>"] n(1)
    by (auto simp: dlist_def)
  moreover have "lc_refs ?c (us @ a # vs) = lc_refs c (us @ a # vs)"
    using a by (intro image_cong) (auto simp: kv)
  then have "chains ?c es (lc_refs ?c (us @ a # vs))" using chains_cong [OF r(5), of ?c] by simp
  moreover have "map (lc_item ?c) (us @ a # vs) = map (lc_item c) us @ (k, w) # map (lc_item c) vs"
    using nin by (auto simp: kv)
  moreover have "dom (cells (lc_nodes ?c)) = set (us @ a # vs)" using r(1) by auto
  ultimately have "lc_rep ?c (us @ a # vs) es (map (lc_item c) us @ (k, w) # map (lc_item c) vs)"
    using r(2-4) by (auto simp: lc_rep_def xs)
  then show ?thesis using n a0 kv by (intro exI [of _ n] exI [of _ ?c]) (simp add: lc_node_put_def)
qed

lemma lc_rep_insert:
  assumes rep: "lc_rep c as es xs" and k: "0 \<le> k" "map_of xs k = None"
  shows "\<exists>c1 b c2 c3 es'. lc_createNode True c k v = Inr (c1, b) \<and> lc_addToHead c1 b = Inr c2
    \<and> lc_hashPut True c2 k b = Inr c3
    \<and> lc_rep (c3\<lparr>lc_size := lc_size c3 + 1\<rparr>) (b # as) es' ((k, v) # xs) \<and> lc_capacity c3 = lc_capacity c"
proof -
  from rep have d: "dlist c as" and xs: "map (lc_item c) as = xs"
    and r: "dom (cells (lc_nodes c)) = set as" "distinct (map fst xs)" "\<forall>p\<in>set xs. 0 \<le> fst p"
      "lc_size c = int (length xs)" "chains c es (lc_refs c as)" by (auto simp: lc_rep_def)
  let ?b = "brk (lc_nodes c)" and ?n = "\<lparr>dn_key = k, dn_value = v, dn_prev = 0, dn_next = 0\<rparr>"
  let ?c1 = "c\<lparr>lc_nodes := (lc_nodes c)\<lparr>cells := (cells (lc_nodes c))(?b := Some ?n), brk := ?b + 1\<rparr>\<rparr>"
  have wf: "heap_wf (lc_nodes c)" using d by (simp add: dlist_def)
  have b: "?b \<noteq> 0" "?b \<notin> set as" using wf r(1) by (auto simp: heap_wf_def)
  have "dlist ?c1 as" using d heap_wf_alloc [OF wf] b(2) by (simp add: dlist_def)
  from lc_addToHead_ok [OF this b(2,1), of ?n] obtain c2 where
    c2: "lc_addToHead ?c1 ?b = Inr c2" "dlist c2 (?b # as)" "lc_frame ?c1 c2" by auto
  have kv: "lc_kv c2 = (lc_kv c)(?b := Some (k, v))"
    using c2(3) by (auto simp: lc_frame_def lc_kv_def fun_eq_iff)
  have refs: "lc_refs c2 as = lc_refs c as" using b(2) by (intro image_cong) (auto simp: kv)
  have "chains c2 es (lc_refs c as)" using chains_cong [OF r(5)] c2(3) by (simp add: lc_frame_def)
  from lc_hashPut_fresh [OF this k(1), of ?b] lc_rep_absent [OF rep k(2,1)] obtain c3 es' where
    c3: "lc_hashPut True c2 k ?b = Inr c3" "chains c3 es' (Set.insert (k, ?b) (lc_refs c as))"
      "c3 = c2\<lparr>lc_entries := lc_entries c3, lc_table := lc_table c3\<rparr>" by blast
  have same: "lc_nodes c3 = lc_nodes c2" "lc_head c3 = lc_head c2" "lc_tail c3 = lc_tail c2" "lc_size c3 = lc_size c2"
    "lc_capacity c3 = lc_capacity c2" using arg_cong [OF c3(3), of lc_nodes] arg_cong [OF c3(3), of lc_head]
      arg_cong [OF c3(3), of lc_tail] arg_cong [OF c3(3), of lc_size] arg_cong [OF c3(3), of lc_capacity] by simp_all
  let ?c4 = "c3\<lparr>lc_size := lc_size c3 + 1\<rparr>"
  have kv4: "lc_kv ?c4 = (lc_kv c)(?b := Some (k, v))" using kv same by (simp add: lc_kv_def fun_eq_iff)
  have "chains ?c4 es' (Set.insert (k, ?b) (lc_refs c as))" by (rule chains_cong [OF c3(2)]) simp_all
  moreover have "(\<lambda>a. (fst (the (((lc_kv c)(?b := Some (k, v))) a)), a)) ` set as = lc_refs c as"
    using b(2) by (intro image_cong) auto
  then have "lc_refs ?c4 (?b # as) = Set.insert (k, ?b) (lc_refs c as)" by (simp add: kv4)
  moreover have "dlist ?c4 (?b # as)" using c2(2) same by (simp add: dlist_def)
  moreover have "map (lc_item ?c4) (?b # as) = (k, v) # xs"
    unfolding kv4 xs [symmetric] using b(2) by auto
  moreover have "dom (cells (lc_nodes ?c4)) = set (?b # as)"
    using r(1) lc_frame_None [OF c2(3)] same by (auto simp: dom_def split: if_splits)
  moreover have "distinct (map fst ((k, v) # xs))" using r(2) k(2) by (simp add: map_of_eq_None_iff)
  moreover have "lc_size ?c4 = int (length ((k, v) # xs))" "lc_capacity c3 = lc_capacity c"
    using r(4) same c2(3) by (simp_all add: lc_frame_def)
  ultimately have "lc_rep ?c4 (?b # as) es' ((k, v) # xs)" "lc_capacity c3 = lc_capacity c"
    using r(3) k(1) by (simp_all add: lc_rep_def)
  then show ?thesis
    using c2(1) c3(1) by (intro exI [of _ ?c1] exI [of _ ?b] exI [of _ c2] exI [of _ c3] exI [of _ es'])
      (simp add: lc_createNode_def h_alloc_def)
qed

lemma lc_rep_evict:
  assumes rep: "lc_rep c (us @ [t]) es (xs @ [(k, v)])"
  shows "\<exists>c1 n c2 h es'. lc_removeTail c = Inr (c1, t) \<and> lc_node_get c1 t = Inr n \<and> lc_hashRemove c1 (dn_key n) = Inr c2
    \<and> h_free (lc_nodes c2) t = Inr h
    \<and> lc_rep (c2\<lparr>lc_nodes := h, lc_size := lc_size c2 - 1\<rparr>) us es' xs \<and> lc_capacity c2 = lc_capacity c"
proof -
  from rep have d: "dlist c (us @ [t])" and xs: "map (lc_item c) us = xs" "lc_item c t = (k, v)"
    and r: "dom (cells (lc_nodes c)) = set (us @ [t])" "distinct (map fst (xs @ [(k, v)]))"
      "\<forall>p\<in>set (xs @ [(k, v)]). 0 \<le> fst p" "lc_size c = int (length xs) + 1" "chains c es (lc_refs c (us @ [t]))"
    by (auto simp: lc_rep_def)
  from lc_removeNode_ok [of c us t "[]"] d obtain c1 where
    c1: "lc_removeNode c t = Inr c1" "dlist c1 us" "lc_frame c c1" by auto
  have t: "lc_tail c = t" "t \<noteq> 0" "t \<notin> set us" "lc_kv c t \<noteq> None"
    using d by (auto simp: dlist_def dseg_append lc_kv_def split: option.splits)
  have kv: "lc_kv c1 = lc_kv c" using c1(3) by (simp add: lc_frame_def)
  then have "lc_kv c1 t = Some (k, v)" using t(4) xs(2) by (metis option.exhaust_sel)
  then obtain n where n: "cells (lc_nodes c1) t = Some n" "dn_key n = k" by (auto simp: lc_kv_Some)
  have kt: "(k, t) \<in> lc_refs c (us @ [t])" using xs(2) by force
  have "chains c1 es (lc_refs c (us @ [t]))" using chains_cong [OF r(5)] c1(3) by (simp add: lc_frame_def)
  from lc_hashRemove_ok [OF this kt] obtain c2 es' where c2: "lc_hashRemove c1 k = Inr c2" "chains c2 es' (lc_refs c (us @ [t]) - {(k, t)})"
    "c2 = c1\<lparr>lc_entries := lc_entries c2, lc_table := lc_table c2\<rparr>" by blast
  have same: "lc_nodes c2 = lc_nodes c1" "lc_head c2 = lc_head c1" "lc_tail c2 = lc_tail c1" "lc_size c2 = lc_size c1"
    "lc_capacity c2 = lc_capacity c1" using arg_cong [OF c2(3), of lc_nodes] arg_cong [OF c2(3), of lc_head]
      arg_cong [OF c2(3), of lc_tail] arg_cong [OF c2(3), of lc_size] arg_cong [OF c2(3), of lc_capacity] by simp_all
  let ?h = "(lc_nodes c2)\<lparr>cells := (cells (lc_nodes c2))(t := None)\<rparr>"
  let ?c = "c2\<lparr>lc_nodes := ?h, lc_size := lc_size c2 - 1\<rparr>"
  have free: "h_free (lc_nodes c2) t = Inr ?h" using n t(2) same by simp
  have kv': "lc_kv ?c = (lc_kv c)(t := None)" using kv same by (auto simp: lc_kv_def fun_eq_iff)
  have "lc_refs ?c us = lc_refs c us" unfolding kv' using t(3) by (intro image_cong) auto
  also have "\<dots> = lc_refs c (us @ [t]) - {(k, t)}" using t(3) xs(2) by auto
  finally have "lc_refs ?c us = lc_refs c (us @ [t]) - {(k, t)}" .
  then have "chains ?c es' (lc_refs ?c us)" using chains_cong [OF c2(2), of ?c] by simp
  moreover have "dlist ?c us"
    using c1(2) heap_wf_upd [of "lc_nodes c1" t n None] n t(3) same by (simp add: dlist_def)
  moreover have "map (lc_item ?c) us = xs" unfolding kv' xs(1) [symmetric] using t(3) by auto
  moreover have "dom (cells (lc_nodes ?c)) = set us"
    using r(1) lc_frame_dom [OF c1(3)] same t(3) by auto
  moreover have "lc_size ?c = int (length xs)" "lc_capacity c2 = lc_capacity c"
    using r(4) same c1(3) by (simp_all add: lc_frame_def)
  ultimately have "lc_rep ?c us es' xs" "lc_capacity c2 = lc_capacity c" using r(2,3) by (simp_all add: lc_rep_def)
  then show ?thesis
    using c1(1) n c2(1) free t(1,2)
    by (intro exI [of _ c1] exI [of _ n] exI [of _ c2] exI [of _ ?h] exI [of _ es'])
      (simp add: lc_removeTail_def lc_node_get_def)
qed

lemma alru_put_present:
  assumes "int (length xs) \<le> max 0 cap" and "map_of xs k = Some v0" and "distinct (map fst xs)"
  shows "alru_put cap xs k v = (k, v) # filter (\<lambda>p. fst p \<noteq> k) xs
    \<and> length (filter (\<lambda>p. fst p \<noteq> k) xs) < length xs"
proof -
  have "(k, v0) \<in> set xs" using assms(2) by (rule map_of_SomeD)
  then have "length (filter (\<lambda>p. fst p \<noteq> k) xs) < length xs" by (intro length_filter_less) auto
  then show ?thesis using assms(1) by (auto simp: alru_put_def Let_def)
qed

lemma lRUCachePut_ok:
  assumes rel: "lc_rel c xs" and k: "0 \<le> k"
  shows "\<exists>c'. lRUCachePut (True, True) c k v = Inr c' \<and> lc_rel c' (alru_put (lc_capacity c) xs k v)
    \<and> lc_capacity c' = lc_capacity c"
proof -
  from rel obtain as es where rep: "lc_rep c as es xs" and cap: "int (length xs) \<le> max 0 (lc_capacity c)"
    by (auto simp: lc_rel_def)
  have dist: "distinct (map fst xs)" using rep by (simp add: lc_rep_def)
  show ?thesis
  proof (cases "map_of xs k")
    case (Some v0)
    from lc_rep_present [OF rep Some] obtain us a vs where
      a: "as = us @ a # vs" "lc_kv c a = Some (k, v0)" "lc_hashGet c k = Inr a" "a \<noteq> 0" .
    have xs: "xs = map (lc_item c) us @ (k, v0) # map (lc_item c) vs" using rep a(1,2) by (auto simp: lc_rep_def)
    from lc_rep_set_value [OF rep [unfolded a(1)] a(2), of v] obtain n c1 where
      c1: "cells (lc_nodes c) a = Some n" "lc_node_put c a (n\<lparr>dn_value := v\<rparr>) = Inr c1"
        "lc_rep c1 (us @ a # vs) es (map (lc_item c) us @ (k, v) # map (lc_item c) vs)"
        "lc_kv c1 a = Some (k, v)" "lc_capacity c1 = lc_capacity c" by blast
    from lc_rep_touch [OF c1(3,4)] obtain c' where c': "lc_moveToHead c1 a = Inr c'" "lc_capacity c' = lc_capacity c1"
      "lc_rep c' (a # us @ vs) es ((k, v) # filter (\<lambda>p. fst p \<noteq> k) (map (lc_item c) us @ (k, v) # map (lc_item c) vs))"
      by blast
    have "filter (\<lambda>p. fst p \<noteq> k) (map (lc_item c) us @ (k, v) # map (lc_item c) vs) = filter (\<lambda>p. fst p \<noteq> k) xs"
      using filter_key_split [OF dist [unfolded xs]] xs by simp
    then have "lc_rep c' (a # us @ vs) es (alru_put (lc_capacity c) xs k v)"
      using c'(3) alru_put_present [OF cap Some dist] by simp
    moreover have "int (length (alru_put (lc_capacity c) xs k v)) \<le> max 0 (lc_capacity c)"
      using alru_put_present [OF cap Some dist, of v] cap by auto
    ultimately show ?thesis
      using a(3,4) c1(1,2,5) c'(1,2) by (auto simp: lRUCachePut_def lc_node_get_def lc_rel_def)
  next
    case None
    have flt: "filter (\<lambda>p. fst p \<noteq> k) xs = xs" using None by (force simp: map_of_eq_None_iff filter_id_conv)
    from lc_rep_insert [OF rep k None, of v] obtain c1 b c2 c3 es' where
      ins: "lc_createNode True c k v = Inr (c1, b)" "lc_addToHead c1 b = Inr c2" "lc_hashPut True c2 k b = Inr c3"
        "lc_rep (c3\<lparr>lc_size := lc_size c3 + 1\<rparr>) (b # as) es' ((k, v) # xs)" "lc_capacity c3 = lc_capacity c" by blast
    let ?c4 = "c3\<lparr>lc_size := lc_size c3 + 1\<rparr>"
    note get = lc_rep_absent(1) [OF rep None k]
    have size: "lc_size ?c4 = int (length ((k, v) # xs))" using ins(4) by (simp add: lc_rep_def)
    show ?thesis
    proof (cases "lc_size ?c4 > lc_capacity ?c4")
      case False
      then show ?thesis
        using ins get size flt by (auto simp: lRUCachePut_def Let_def lc_rel_def alru_put_def)
    next
      case True
      obtain us t where us: "b # as = us @ [t]" by (metis append_butlast_last_id list.distinct(1))
      obtain ys kt vt where ys: "(k, v) # xs = ys @ [(kt, vt)]" by (metis append_butlast_last_id list.distinct(1) surj_pair)
      from lc_rep_evict [of ?c4 us t es' ys kt vt] ins(4) obtain c5 n c6 h es'' where
        ev: "lc_removeTail ?c4 = Inr (c5, t)" "lc_node_get c5 t = Inr n" "lc_hashRemove c5 (dn_key n) = Inr c6"
          "h_free (lc_nodes c6) t = Inr h" "lc_rep (c6\<lparr>lc_nodes := h, lc_size := lc_size c6 - 1\<rparr>) us es'' ys"
          "lc_capacity c6 = lc_capacity c3"
        unfolding us ys by auto
      have "alru_put (lc_capacity c) xs k v = ys"
        using True size flt ys ins(5) by (simp add: alru_put_def)
      moreover have "int (length ys) \<le> max 0 (lc_capacity c)"
        using cap arg_cong [OF ys, of length] by simp
      moreover have "lRUCachePut (True, True) c k v = Inr (c6\<lparr>lc_nodes := h, lc_size := lc_size c6 - 1\<rparr>)"
        using True ins get ev by (simp add: lRUCachePut_def Let_def)
      ultimately show ?thesis using ev(5,6) ins(5) by (auto simp: lc_rel_def)
    qed
  qed
qed

lemma lc_free_buckets:
  assumes ch: "chains c es S" and n: "n \<le> lc_HASH_SIZE"
  shows "foldE (\<lambda>h i. bindE (lc_bucket c i) (\<lambda>p. h_free_chain (brk h) en_next h p)) [0..<n] (lc_entries c)
    = Inr ((lc_entries c)\<lparr>cells := (\<lambda>e. if \<exists>i<n. e \<in> set (es i) then None else cells (lc_entries c) e)\<rparr>)"
  using n
proof (induction n)
  case (Suc n)
  let ?m = "cells (lc_entries c)"
  let ?h = "(lc_entries c)\<lparr>cells := (\<lambda>e. if \<exists>i<n. e \<in> set (es i) then None else ?m e)\<rparr>"
  have n: "n < lc_HASH_SIZE" using Suc.prems by simp
  have p: "path en_next ?m (lc_table c n) (es n) 0" and wf: "heap_wf (lc_entries c)" using ch n by (simp_all add: chains_def)
  have "e \<notin> set (es i)" if "e \<in> set (es n)" "i < n" for e i
    using chains_disjoint [OF ch that(1) n, of i] that(2) n by simp
  then have "path en_next (cells ?h) (lc_table c n) (es n) 0"
    using p by (subst path_cong [of _ _ ?m]) auto
  moreover have "length (es n) \<le> brk ?h" using path_length [OF wf p] by simp
  ultimately have "h_free_chain (brk ?h) en_next ?h (lc_table c n)
      = Inr (?h\<lparr>cells := (\<lambda>e. if e \<in> set (es n) then None else cells ?h e)\<rparr>)" by (rule h_free_chain_path)
  then show ?case
    using Suc n by (auto simp: foldE_append lc_bucket_def fun_eq_iff less_Suc_eq intro!: arg_cong [of _ _ "\<lambda>m. (lc_entries c)\<lparr>cells := m\<rparr>"])
qed simp

lemma lRUCacheFree_ok:
  assumes "lc_rel c xs"
  shows "\<exists>c'. lRUCacheFree c = Inr c' \<and> cells (lc_nodes c') = (\<lambda>_. None) \<and> cells (lc_entries c') = (\<lambda>_. None)"
proof -
  from assms obtain as es where rep: "lc_rep c as es xs" by (auto simp: lc_rel_def)
  then have d: "dlist c as" and ch: "chains c es (lc_refs c as)" and dom: "dom (cells (lc_nodes c)) = set as"
    by (simp_all add: lc_rep_def)
  have p: "path dn_next (cells (lc_nodes c)) (lc_head c) as 0" and wf: "heap_wf (lc_nodes c)"
    using d dseg_path [of _ 0 as 0] by (auto simp: dlist_def)
  have "length as \<le> brk (lc_nodes c)" using path_length [OF wf p] by simp
  note nodes = h_free_chain_path [OF p this]
  have ed: "dom (cells (lc_entries c)) = (\<Union>i<lc_HASH_SIZE. set (es i))" using ch by (simp add: chains_def)
  have "(\<lambda>a. if a \<in> set as then None else cells (lc_nodes c) a) = (\<lambda>_. None)"
    using dom by (auto simp: fun_eq_iff)
  moreover have "(\<lambda>e. if \<exists>i<lc_HASH_SIZE. e \<in> set (es i) then None else cells (lc_entries c) e) = (\<lambda>_. None)"
    using ed by (auto simp: fun_eq_iff)
  ultimately show ?thesis
    using nodes lc_free_buckets [OF ch order_refl] by (simp add: lRUCacheFree_def)
qed

section \<open>Runs of operations\<close>

datatype lru_op = LGet int | LPut int int

primrec lru_op_key :: "lru_op \<Rightarrow> int" where
  "lru_op_key (LGet k) = k"
| "lru_op_key (LPut k v) = k"

fun lc_run :: "lrucache \<Rightarrow> lru_op list \<Rightarrow> (lrucache \<times> int list) res" where
  "lc_run c [] = Inr (c, [])"
| "lc_run c (LGet k # ops) =
     bindE (lRUCacheGet c k) (\<lambda>(c1, v). bindE (lc_run c1 ops) (\<lambda>(c2, vs). Inr (c2, v # vs)))"
| "lc_run c (LPut k v # ops) = bindE (lRUCachePut (True, True) c k v) (\<lambda>c1. lc_run c1 ops)"

fun alru_run :: "int \<Rightarrow> (int \<times> int) list \<Rightarrow> lru_op list \<Rightarrow> (int \<times> int) list \<times> int list" where
  "alru_run cap xs [] = (xs, [])"
| "alru_run cap xs (LGet k # ops) =
     (let (ys, v) = alru_get xs k; (zs, vs) = alru_run cap ys ops in (zs, v # vs))"
| "alru_run cap xs (LPut k v # ops) = alru_run cap (alru_put cap xs k v) ops"

lemma lc_run_ok:
  assumes "lc_rel c xs" and "\<forall>op\<in>set ops. 0 \<le> lru_op_key op"
  shows "\<exists>c'. lc_run c ops = Inr (c', snd (alru_run (lc_capacity c) xs ops))
    \<and> lc_rel c' (fst (alru_run (lc_capacity c) xs ops)) \<and> lc_capacity c' = lc_capacity c"
  using assms
proof (induction ops arbitrary: c xs)
  case (Cons op ops)
  show ?case
  proof (cases op)
    case (LGet k)
    then have "0 \<le> k" using Cons.prems(2) by simp
    from lRUCacheGet_ok [OF Cons.prems(1) this] obtain c1 where
      c1: "lRUCacheGet c k = Inr (c1, snd (alru_get xs k))" "lc_rel c1 (fst (alru_get xs k))"
        "lc_capacity c1 = lc_capacity c" by blast
    from Cons.IH [OF c1(2)] Cons.prems(2) c1(3) obtain c2 where
      "lc_run c1 ops = Inr (c2, snd (alru_run (lc_capacity c) (fst (alru_get xs k)) ops))"
      "lc_rel c2 (fst (alru_run (lc_capacity c) (fst (alru_get xs k)) ops))" "lc_capacity c2 = lc_capacity c" by auto
    then show ?thesis using LGet c1 by (simp add: case_prod_beta)
  next
    case (LPut k v)
    then have "0 \<le> k" using Cons.prems(2) by simp
    from lRUCachePut_ok [OF Cons.prems(1) this] obtain c1 where
      c1: "lRUCachePut (True, True) c k v = Inr c1" "lc_rel c1 (alru_put (lc_capacity c) xs k v)"
        "lc_capacity c1 = lc_capacity c" by blast
    from Cons.IH [OF c1(2)] Cons.prems(2) c1 LPut show ?thesis by auto
  qed
qed simp

text \<open>
  C6. The LRU cache implements its contract: from a fresh cache of any capacity, and while \<^verbatim>\<open>malloc\<close> succeeds, every sequence of
  gets and puts with non-negative keys runs without touching a \<^verbatim>\<open>NULL\<close>, freed or out-of-range cell and
  returns exactly the values of the abstract cache that keeps the most recently used items; the size
  never exceeds the capacity, and \<^verbatim>\<open>lRUCacheFree\<close> then releases every node and every hash entry
  exactly once.
\<close>
theorem lru_cache_refines:
  assumes "\<forall>op\<in>set ops. 0 \<le> lru_op_key op"
  shows "\<exists>c c'. lc_run (lRUCacheCreate cap) ops = Inr (c, snd (alru_run cap [] ops))
    \<and> lc_size c = int (length (fst (alru_run cap [] ops))) \<and> lc_size c \<le> max 0 cap
    \<and> lRUCacheFree c = Inr c' \<and> cells (lc_nodes c') = (\<lambda>_. None) \<and> cells (lc_entries c') = (\<lambda>_. None)"
proof -
  have cap: "lc_capacity (lRUCacheCreate cap) = cap" by (simp add: lRUCacheCreate_def)
  from lc_run_ok [OF lc_rel_create assms, of cap] obtain c where
    c: "lc_run (lRUCacheCreate cap) ops = Inr (c, snd (alru_run cap [] ops))" "lc_rel c (fst (alru_run cap [] ops))"
      "lc_capacity c = cap" unfolding cap by blast
  from c(2,3) have "lc_size c = int (length (fst (alru_run cap [] ops)))" "lc_size c \<le> max 0 cap"
    by (auto simp: lc_rel_def lc_rep_def)
  with c(1) lRUCacheFree_ok [OF c(2)] show ?thesis by blast
qed

theorem lru_cache_refines_witness:
  "\<exists>c. lc_run (lRUCacheCreate 2) [LPut 1 1, LPut 2 2, LGet 1, LPut 3 3, LGet 2, LPut 10008 4, LGet 1, LGet 3, LGet 10008]
     = Inr (c, [1, -1, -1, 3, 4])"
proof -
  let ?ops = "[LPut 1 1, LPut 2 2, LGet 1, LPut 3 3, LGet 2, LPut 10008 4, LGet 1, LGet 3, LGet 10008]"
  have "alru_run 2 [] ?ops = ([(10008, 4), (3, 3)], [1, -1, -1, 3, 4])"
    by (simp add: alru_get_def alru_put_def)
  then show ?thesis using lru_cache_refines [of ?ops 2] by auto
qed

text \<open>
  A negative key that is not a multiple of the table size makes the conversion of the signed
  remainder to \<^verbatim>\<open>unsigned int\<close> a huge index: every lookup of such a key reads outside \<^verbatim>\<open>hashTable\<close>.
\<close>
theorem lru_negative_key_out_of_bounds:
  assumes "k < 0" and "\<not> 10007 dvd k"
  shows "lRUCacheGet c k = Inl OutOfBounds \<and> lRUCachePut oks c k v = Inl OutOfBounds"
proof -
  have r: "k smod 10007 = - ((- k) mod 10007)" using assms(1) by (simp add: smod_int_alt_def)
  have "0 < (- k) mod 10007" "(- k) mod 10007 < 10007"
    using assms(2) pos_mod_bound [of 10007 "- k"] pos_mod_sign [of 10007 "- k"]
    by (auto simp: order.strict_iff_order dvd_eq_mod_eq_0 [symmetric] simp del: pos_mod_bound)
  then have "(k smod 10007) mod 2 ^ 32 = 2 ^ 32 - (- k) mod 10007" "(- k) mod 10007 < 10007"
    unfolding r by (auto simp: zmod_zminus1_eq_if)
  then have "\<not> lc_hash k < lc_HASH_SIZE" by (simp add: lc_hash_def lc_HASH_SIZE_def nat_less_iff)
  then show ?thesis
    by (simp add: lRUCacheGet_def lRUCachePut_def lc_hashGet_def lc_hashGetEntry_def lc_bucket_def)
qed

theorem lru_negative_key_out_of_bounds_witness:
  "lRUCacheGet (lRUCacheCreate 2) (- 1) = Inl OutOfBounds"
  using lru_negative_key_out_of_bounds [of "- 1" "lRUCacheCreate 2"] by simp

end
