(* ===== verification/HashTables.thy ===== *)
theory HashTables
  imports Interfaces "HOL-Library.Word"
begin

text \<open>
  Hash tables whose state is an array or a list: \<^verbatim>\<open>day-4(Hash_Table)/hash-table-with-open-addressing.c\<close>
  (string keys, tombstones) and \<^verbatim>\<open>EXTRA_TASK/24-11-2025/insert_search_delete_linearProbing.c\<close> (integer
  keys). A C string
  is the list of its characters before the terminating zero; a string key that the code duplicates
  with \<^verbatim>\<open>strdup\<close> is a value.
\<close>

section \<open>The code\<close>

subsection \<open>Open addressing with tombstones\<close>

definition oa_TABLE_SIZE :: nat where
  "oa_TABLE_SIZE = 10"

datatype oa_slot = OaEmpty | OaDeleted | OaStr string

record oa_entry =
  oa_key :: oa_slot
  oa_value :: int

text \<open>
  \<^verbatim>\<open>hashValue * 31 + *key++\<close> on a 32-bit \<^verbatim>\<open>unsigned int\<close>; \<^verbatim>\<open>char\<close> is signed on the target.
\<close>

definition char_int :: "char \<Rightarrow> int" where
  "char_int c = (let n = of_char c in if n < 128 then n else n - 256)"

definition hash31 :: "string \<Rightarrow> 32 word" where
  "hash31 key = fold (\<lambda>c h. h * 31 + word_of_int (char_int c)) key 0"

definition oa_hash :: "string \<Rightarrow> nat" where
  "oa_hash key = unat (hash31 key mod 10)"

definition oa_init :: "oa_entry list" where
  "oa_init = replicate oa_TABLE_SIZE \<lparr>oa_key = OaEmpty, oa_value = 0\<rparr>"

text \<open>
  The probe loop that the three operations share: go on from \<open>index\<close> until a slot satisfies \<open>stop\<close>, or
  until the walk is back at \<open>original\<close>.
\<close>

function oa_scan :: "(oa_entry \<Rightarrow> bool) \<Rightarrow> oa_entry list \<Rightarrow> nat \<Rightarrow> nat \<Rightarrow> nat option res" where
  "oa_scan stop t original index =
     (if length t \<noteq> oa_TABLE_SIZE \<or> oa_TABLE_SIZE \<le> index \<or> oa_TABLE_SIZE \<le> original then Inl OutOfBounds
      else if stop (t ! index) then Inr (Some index)
      else let index' = (index + 1) mod oa_TABLE_SIZE
           in if index' = original then Inr None else oa_scan stop t original index')"
  by pat_completeness auto

lemma oa_scan_measure:
  assumes "index < 10" and "original < 10" and "(index + 1) mod 10 \<noteq> original"
  shows "(original + 19 - (index + 1) mod 10) mod 10 < (original + 19 - index) mod (10::nat)"
proof (cases "index = 9")
  case True
  then show ?thesis using assms by (auto simp: mod_if)
next
  case False
  then have "(index + 1) mod 10 = index + 1" using assms by simp
  then show ?thesis using assms False by (auto simp: mod_if)
qed

termination oa_scan
  by (relation "measure (\<lambda>(stop, t, original, index). (original + 19 - index) mod 10)")
    (auto simp: oa_TABLE_SIZE_def intro!: oa_scan_measure [simplified])

declare oa_scan.simps [simp del]

definition oa_insert :: "oa_entry list \<Rightarrow> string \<Rightarrow> int \<Rightarrow> (oa_entry list \<times> outs) res" where
  "oa_insert t key value =
     (let index = oa_hash key in
      bindE (oa_scan (\<lambda>e. \<not> (oa_key e \<noteq> OaEmpty \<and> oa_key e \<noteq> OaDeleted \<and> oa_key e \<noteq> OaStr key)) t index index) (\<lambda>r.
      case r of
        None \<Rightarrow> Inr (t, [Txt key, Txt '' can't be inserted as the table is full \<newline>''])
      | Some i \<Rightarrow>
          Inr ((if oa_key (t ! i) \<noteq> OaEmpty \<and> oa_key (t ! i) \<noteq> OaDeleted
                then t[i := (t ! i)\<lparr>oa_value := value\<rparr>]
                else t[i := \<lparr>oa_key = OaStr key, oa_value = value\<rparr>]),
               [Txt key, Txt '' : '', Num value, Txt '' is inserted successfully at the index '', Num (int i), Txt '' \<newline>''])))"

definition oa_search :: "oa_entry list \<Rightarrow> string \<Rightarrow> int res" where
  "oa_search t key =
     (let index = oa_hash key in
      bindE (oa_scan (\<lambda>e. oa_key e = OaEmpty \<or> oa_key e = OaStr key) t index index) (\<lambda>r.
      case r of None \<Rightarrow> Inr (-1)
      | Some i \<Rightarrow> Inr (if oa_key (t ! i) = OaEmpty then -1 else oa_value (t ! i))))"

definition oa_delete :: "oa_entry list \<Rightarrow> string \<Rightarrow> (oa_entry list \<times> outs) res" where
  "oa_delete t key =
     (let index = oa_hash key; not_found = [Txt ''The key '', Txt key, Txt '' is not found \<newline>''] in
      bindE (oa_scan (\<lambda>e. oa_key e = OaEmpty \<or> oa_key e = OaStr key) t index index) (\<lambda>r.
      case r of None \<Rightarrow> Inr (t, not_found)
      | Some i \<Rightarrow>
          (if oa_key (t ! i) = OaEmpty then Inr (t, not_found)
           else Inr (t[i := (t ! i)\<lparr>oa_key := OaDeleted\<rparr>],
                     [Txt ''The key '', Txt key, Txt '' at the index '', Num (int i), Txt '' is deleted \<newline>'']))))"

definition oa_display :: "oa_entry list \<Rightarrow> outs" where
  "oa_display t = concat (map (\<lambda>i.
     (case oa_key (t ! i) of
        OaEmpty \<Rightarrow> [Txt ''Index '', Num (int i), Txt '' : EMPTY \<newline>'']
      | OaDeleted \<Rightarrow> [Txt ''Index '', Num (int i), Txt '' : DELETED \<newline>'']
      | OaStr k \<Rightarrow> [Txt ''Index '', Num (int i), Txt '' : ('', Txt k, Txt '', '', Num (oa_value (t ! i)), Txt '') \<newline>'']))
     [0..<oa_TABLE_SIZE])"

definition oa_insert_show :: "oa_entry list \<times> outs \<Rightarrow> string \<times> int \<Rightarrow> (oa_entry list \<times> outs) res" where
  "oa_insert_show = (\<lambda>(t, out) (key, value).
     bindE (oa_insert t key value) (\<lambda>(t', o1). Inr (t', out @ o1 @ oa_display t')))"

definition oa_main :: "outs res" where
  "oa_main =
     bindE (foldE oa_insert_show
              [(''apple'', 100), (''banana'', 200), (''pineapple'', 300), (''watermelon'', 400), (''orange'', 500)]
              (oa_init, oa_display oa_init)) (\<lambda>(t, out).
     bindE (oa_search t ''banana'') (\<lambda>v1.
     bindE (oa_search t ''watermelon'') (\<lambda>v2.
     bindE (oa_delete t ''orange'') (\<lambda>(t, d).
     bindE (oa_insert_show (t, out @ [Txt ''Search 'Banana' : '', Num v1, Txt '' \<newline>'',
                                      Txt ''Search 'Watermelon' : '', Num v2, Txt '' \<newline>''] @ d @ oa_display t)
              (''strawberry'', 600)) (\<lambda>(t, out).
     Inr out)))))"

subsection \<open>Linear probing with integer keys\<close>

definition lp_TABLE_SIZE :: int where
  "lp_TABLE_SIZE = 10"

record lp_entry =
  lp_key :: int
  lp_value :: int

definition lp_hashFunction :: "int \<Rightarrow> int" where
  "lp_hashFunction key = key smod lp_TABLE_SIZE"

definition lp_initTable :: "lp_entry list" where
  "lp_initTable = replicate (nat lp_TABLE_SIZE) \<lparr>lp_key = -1, lp_value = 0\<rparr>"

text \<open>The loop over \<open>i\<close> with \<^verbatim>\<open>newIndex = (index + i) % TABLE_SIZE\<close>, up to the first slot with \<open>stop\<close>.\<close>

primrec lp_probe :: "(lp_entry \<Rightarrow> bool) \<Rightarrow> lp_entry list \<Rightarrow> int \<Rightarrow> int list \<Rightarrow> int option res" where
  "lp_probe stop t index [] = Inr None"
| "lp_probe stop t index (i # is) =
     (let newIndex = (index + i) smod lp_TABLE_SIZE in
      bindE (arr_get t newIndex) (\<lambda>e.
      if stop e then Inr (Some newIndex) else lp_probe stop t index is))"

definition lp_insert :: "lp_entry list \<Rightarrow> int \<Rightarrow> int \<Rightarrow> (lp_entry list \<times> outs) res" where
  "lp_insert t key value =
     bindE (lp_probe (\<lambda>e. lp_key e = -1 \<or> lp_value e = -2) t (lp_hashFunction key) [0..lp_TABLE_SIZE - 1]) (\<lambda>r.
     case r of None \<Rightarrow> Inr (t, [Txt ''Not inserted!! hash is full!!''])
     | Some i \<Rightarrow> bindE (arr_set t i \<lparr>lp_key = key, lp_value = value\<rparr>) (\<lambda>t'.
         Inr (t', [Txt ''inserted ('', Num key, Txt '' '', Num value, Txt '') at index '', Num i, Txt ''\<newline>''])))"

definition lp_search :: "lp_entry list \<Rightarrow> int \<Rightarrow> int res" where
  "lp_search t key =
     bindE (lp_probe (\<lambda>e. lp_key e = -1 \<or> lp_key e = key) t (lp_hashFunction key) [0..lp_TABLE_SIZE - 1]) (\<lambda>r.
     case r of None \<Rightarrow> Inr (-1)
     | Some i \<Rightarrow> bindE (arr_get t i) (\<lambda>e. Inr (if lp_key e = -1 then -1 else lp_value e)))"

definition lp_delete :: "lp_entry list \<Rightarrow> int \<Rightarrow> (lp_entry list \<times> outs) res" where
  "lp_delete t key =
     bindE (lp_probe (\<lambda>e. lp_key e = -1 \<or> lp_key e = key) t (lp_hashFunction key) [0..lp_TABLE_SIZE - 1]) (\<lambda>r.
     case r of None \<Rightarrow> Inr (t, [])
     | Some i \<Rightarrow> bindE (arr_get t i) (\<lambda>e.
         if lp_key e = -1 then Inr (t, [])
         else bindE (arr_set t i (e\<lparr>lp_key := -2\<rparr>)) (\<lambda>t'.
              Inr (t', [Txt ''Deleted key '', Num key, Txt '' from index '', Num i, Txt ''\<newline>'']))))"

definition lp_display :: "lp_entry list \<Rightarrow> outs" where
  "lp_display t = [Txt ''\<newline>Hash Table:\<newline>''] @ concat (map (\<lambda>i.
     (if lp_key (t ! i) \<ge> 0
      then [Txt ''Index '', Num (int i), Txt '' -> (key = '', Num (lp_key (t ! i)), Txt '' and value = '',
            Num (lp_value (t ! i)), Txt '')\<newline>'']
      else [Txt ''Index '', Num (int i), Txt '' -> EMPTY\<newline>''])) [0..<nat lp_TABLE_SIZE])"

definition lp_main :: "outs res" where
  "lp_main =
     bindE (lp_insert lp_initTable 5 50) (\<lambda>(t, o1).
     bindE (lp_insert t 15 150) (\<lambda>(t, o2).
     bindE (lp_insert t 25 250) (\<lambda>(t, o3).
     bindE (lp_search t 15) (\<lambda>val.
     bindE (lp_delete t 15) (\<lambda>(t', o4).
     Inr (o1 @ o2 @ o3 @ lp_display t
          @ (if val \<noteq> -1 then [Txt ''\<newline>found value='', Num val, Txt ''\<newline>''] else [Txt ''\<newline>Key not found\<newline>''])
          @ o4 @ lp_display t'))))))"

section \<open>Probe sequences\<close>

definition oa_probe :: "nat \<Rightarrow> nat list" where
  "oa_probe h = ring oa_TABLE_SIZE h"

lemma oa_scan_from:
  assumes "length t = oa_TABLE_SIZE" and "h < oa_TABLE_SIZE" and "i < oa_TABLE_SIZE"
  shows "oa_scan stop t h ((h + i) mod oa_TABLE_SIZE)
    = Inr (find (\<lambda>j. stop (t ! j)) (map (\<lambda>i. (h + i) mod oa_TABLE_SIZE) [i..<oa_TABLE_SIZE]))"
  using assms(3)
proof (induction "oa_TABLE_SIZE - i" arbitrary: i)
  case (Suc d)
  have next_index: "((h + i) mod oa_TABLE_SIZE + 1) mod oa_TABLE_SIZE = (h + Suc i) mod oa_TABLE_SIZE"
    by (simp add: mod_Suc_eq)
  have bound: "(h + i) mod oa_TABLE_SIZE < oa_TABLE_SIZE" by (simp add: oa_TABLE_SIZE_def)
  have wrap: "(h + Suc i) mod oa_TABLE_SIZE = h \<longleftrightarrow> Suc i = oa_TABLE_SIZE"
    by (rule ring_wrap [OF assms(2) Suc.prems])
  have upt: "[i..<oa_TABLE_SIZE] = i # [Suc i..<oa_TABLE_SIZE]" using Suc.prems by (simp add: upt_conv_Cons)
  show ?case
  proof (cases "Suc i = oa_TABLE_SIZE")
    case True
    then show ?thesis using assms bound wrap next_index upt by (subst oa_scan.simps) (simp add: Let_def not_le)
  next
    case False
    then have "Suc i < oa_TABLE_SIZE" using Suc.prems by simp
    from Suc.hyps(1) [OF _ this] Suc.hyps(2) show ?thesis
      using assms bound wrap next_index upt False by (subst oa_scan.simps) (simp add: Let_def not_le)
  qed
qed simp

lemma oa_scan_find:
  assumes "length t = oa_TABLE_SIZE" and "h < oa_TABLE_SIZE"
  shows "oa_scan stop t h h = Inr (find (\<lambda>j. stop (t ! j)) (oa_probe h))"
  using oa_scan_from [OF assms, of 0 stop] assms(2) by (simp add: oa_probe_def ring_def)

lemma oa_hash_bound: "oa_hash k < oa_TABLE_SIZE"
proof -
  have "hash31 k mod 10 < 10" by (rule word_mod_less_divisor) simp
  then show ?thesis by (simp add: oa_hash_def oa_TABLE_SIZE_def word_less_nat_alt)
qed

lemma oa_probe_props:
  assumes "h < oa_TABLE_SIZE"
  shows "distinct (oa_probe h)" and "set (oa_probe h) = {..<oa_TABLE_SIZE}"
  using ring_props [OF assms] by (simp_all add: oa_probe_def)

lemmas oa_probe_hash = oa_probe_props [OF oa_hash_bound]

section \<open>Open addressing as a map\<close>

definition oa_lookup :: "oa_entry list \<Rightarrow> string \<Rightarrow> int option" where
  "oa_lookup t k = map_option (\<lambda>i. oa_value (t ! i)) (find (\<lambda>i. oa_key (t ! i) = OaStr k) (oa_probe (oa_hash k)))"

text \<open>No slot before a stored key, in the probe order of that key, is empty.\<close>

definition oa_ok :: "oa_entry list \<Rightarrow> bool" where
  "oa_ok t \<longleftrightarrow> length t = oa_TABLE_SIZE \<and> (\<forall>k us v vs. oa_probe (oa_hash k) = us @ v # vs \<and> oa_key (t ! v) = OaStr k
     \<longrightarrow> (\<forall>u\<in>set us. oa_key (t ! u) \<noteq> OaEmpty))"

definition oa_distinct :: "oa_entry list \<Rightarrow> bool" where
  "oa_distinct t \<longleftrightarrow> (\<forall>i<oa_TABLE_SIZE. \<forall>j<oa_TABLE_SIZE. \<forall>k.
     oa_key (t ! i) = OaStr k \<and> oa_key (t ! j) = OaStr k \<longrightarrow> i = j)"

lemma oa_okD:
  "oa_ok t \<Longrightarrow> oa_probe (oa_hash k) = us @ v # vs \<Longrightarrow> oa_key (t ! v) = OaStr k \<Longrightarrow> u \<in> set us \<Longrightarrow> oa_key (t ! u) \<noteq> OaEmpty"
  unfolding oa_ok_def by blast

lemma oa_ok_init: "oa_ok oa_init"
proof -
  have "oa_key (oa_init ! v) \<noteq> OaStr k" if "oa_probe (oa_hash k) = us @ v # vs" for k us v vs
  proof -
    have "v < oa_TABLE_SIZE" using oa_probe_hash(2) [of k] that by auto
    then show ?thesis by (simp add: oa_init_def)
  qed
  then show ?thesis by (auto simp: oa_ok_def) (simp add: oa_init_def)
qed

lemma oa_search_lookup:
  assumes ok: "oa_ok t"
  shows "oa_search t k = Inr (case oa_lookup t k of None \<Rightarrow> -1 | Some v \<Rightarrow> v)"
proof -
  let ?js = "oa_probe (oa_hash k)"
  have len: "length t = oa_TABLE_SIZE" using ok by (simp add: oa_ok_def)
  note scan = oa_scan_find [OF len oa_hash_bound [of k], of "\<lambda>e. oa_key e = OaEmpty \<or> oa_key e = OaStr k"]
  show ?thesis
  proof (cases "find (\<lambda>j. oa_key (t ! j) = OaEmpty \<or> oa_key (t ! j) = OaStr k) ?js")
    case None
    then have "find (\<lambda>j. oa_key (t ! j) = OaStr k) ?js = None" by (simp add: find_None_iff)
    then show ?thesis using scan None by (simp add: oa_search_def oa_lookup_def Let_def)
  next
    case (Some i)
    then obtain us vs where js: "?js = us @ i # vs" "oa_key (t ! i) = OaEmpty \<or> oa_key (t ! i) = OaStr k"
      and us: "\<forall>u\<in>set us. oa_key (t ! u) \<noteq> OaEmpty \<and> oa_key (t ! u) \<noteq> OaStr k" by (auto simp: find_split)
    show ?thesis
    proof (cases "oa_key (t ! i) = OaEmpty")
      case True
      have "oa_key (t ! v) \<noteq> OaStr k" if "v \<in> set vs" for v
      proof
        assume v: "oa_key (t ! v) = OaStr k"
        from that obtain ps qs where "vs = ps @ v # qs" by (meson split_list)
        then have "?js = (us @ i # ps) @ v # qs" using js by simp
        from oa_okD [OF ok this v, of i] show False using True by simp
      qed
      then have "find (\<lambda>j. oa_key (t ! j) = OaStr k) ?js = None"
        using us True unfolding js(1) by (auto simp: find_None_iff)
      then show ?thesis using scan Some True by (simp add: oa_search_def oa_lookup_def Let_def)
    next
      case False
      then have "find (\<lambda>j. oa_key (t ! j) = OaStr k) ?js = Some i" using js us by (auto simp: find_split)
      then show ?thesis using scan Some False by (simp add: oa_search_def oa_lookup_def Let_def)
    qed
  qed
qed

text \<open>Writing a key into the slot where its probe stops.\<close>

lemma oa_write_ok:
  fixes v :: int
  assumes ok: "oa_ok t" and js: "oa_probe (oa_hash k) = us @ i # vs"
    and i: "oa_key (t ! i) = OaEmpty \<or> oa_key (t ! i) = OaDeleted \<or> oa_key (t ! i) = OaStr k"
    and us: "\<forall>u\<in>set us. oa_key (t ! u) \<noteq> OaEmpty \<and> oa_key (t ! u) \<noteq> OaStr k"
  defines "t' \<equiv> t[i := \<lparr>oa_key = OaStr k, oa_value = v\<rparr>]"
  shows "oa_ok t' \<and> oa_lookup t' = (oa_lookup t)(k := Some v)"
proof
  have len: "length t = oa_TABLE_SIZE" using ok by (simp add: oa_ok_def)
  have ib: "i < oa_TABLE_SIZE" using oa_probe_hash(2) [of k] js by auto
  have ti: "t' ! i = \<lparr>oa_key = OaStr k, oa_value = v\<rparr>" and tj: "j \<noteq> i \<Longrightarrow> t' ! j = t ! j" for j
    using len ib by (simp_all add: t'_def)
  have du: "distinct (us @ i # vs)" using oa_probe_hash(1) [of k] js by simp
  show "oa_ok t'"
    unfolding oa_ok_def
  proof (intro conjI allI impI)
    show "length t' = oa_TABLE_SIZE" using len by (simp add: t'_def)
    fix k1 us1 v1 vs1
    assume a: "oa_probe (oa_hash k1) = us1 @ v1 # vs1 \<and> oa_key (t' ! v1) = OaStr k1"
    show "\<forall>u\<in>set us1. oa_key (t' ! u) \<noteq> OaEmpty"
    proof (cases "v1 = i")
      case True
      then have "k1 = k" using a ti by simp
      then have "us @ i # vs = us1 @ i # vs1" using a js True by simp
      moreover have "i \<notin> set us" "i \<notin> set vs" using du by auto
      ultimately have "us1 = us" using append_Cons_eq_iff [of i us vs us1 vs1] by blast
      moreover have "t' ! u = t ! u" if "u \<in> set us" for u using that du by (intro tj) auto
      ultimately show ?thesis using us by simp
    next
      case False
      then have "oa_key (t ! v1) = OaStr k1" using a tj by simp
      then have old: "oa_key (t ! u) \<noteq> OaEmpty" if "u \<in> set us1" for u using oa_okD [OF ok _ _ that] a by blast
      show ?thesis
      proof
        fix u
        assume "u \<in> set us1"
        then show "oa_key (t' ! u) \<noteq> OaEmpty" using old ti tj by (cases "u = i") auto
      qed
    qed
  qed
  show "oa_lookup t' = (oa_lookup t)(k := Some v)"
  proof
    fix k1
    show "oa_lookup t' k1 = ((oa_lookup t)(k := Some v)) k1"
    proof (cases "k1 = k")
      case True
      have "\<forall>u\<in>set us. t' ! u = t ! u" by (intro ballI tj) (use du in auto)
      then have "find (\<lambda>j. oa_key (t' ! j) = OaStr k) (oa_probe (oa_hash k)) = Some i"
        using js us ti by (auto simp: find_split)
      then show ?thesis using True ti by (simp add: oa_lookup_def)
    next
      case False
      have same: "oa_key (t' ! j) = OaStr k1 \<longleftrightarrow> oa_key (t ! j) = OaStr k1" for j
        using i False ti tj [of j] by (cases "j = i") auto
      have "oa_value (t' ! j) = oa_value (t ! j)" if "find (\<lambda>j. oa_key (t ! j) = OaStr k1) (oa_probe (oa_hash k1)) = Some j" for j
      proof -
        have "oa_key (t ! j) = OaStr k1" using that by (auto simp: find_split)
        then have "j \<noteq> i" using i False by auto
        then show ?thesis using tj by simp
      qed
      then show ?thesis using False
        by (cases "find (\<lambda>j. oa_key (t ! j) = OaStr k1) (oa_probe (oa_hash k1))") (simp_all add: oa_lookup_def same)
    qed
  qed
qed

lemma oa_insert_cases:
  assumes ok: "oa_ok t"
  shows "(\<exists>t' out. oa_insert t k v = Inr (t', out) \<and> oa_ok t' \<and> oa_lookup t' = (oa_lookup t)(k := Some v))
    \<or> (oa_insert t k v = Inr (t, [Txt k, Txt '' can't be inserted as the table is full \<newline>''])
       \<and> oa_lookup t k = None \<and> (\<forall>j<oa_TABLE_SIZE. oa_key (t ! j) \<noteq> OaEmpty \<and> oa_key (t ! j) \<noteq> OaDeleted))"
proof -
  let ?stop = "\<lambda>e. \<not> (oa_key e \<noteq> OaEmpty \<and> oa_key e \<noteq> OaDeleted \<and> oa_key e \<noteq> OaStr k)"
  let ?js = "oa_probe (oa_hash k)"
  have len: "length t = oa_TABLE_SIZE" using ok by (simp add: oa_ok_def)
  note scan = oa_scan_find [OF len oa_hash_bound [of k], of ?stop]
  show ?thesis
  proof (cases "find (\<lambda>j. ?stop (t ! j)) ?js")
    case None
    then have "\<forall>j<oa_TABLE_SIZE. \<not> ?stop (t ! j)" using oa_probe_hash(2) [of k] by (auto simp: find_None_iff)
    moreover from None have "find (\<lambda>j. oa_key (t ! j) = OaStr k) ?js = None" by (simp add: find_None_iff)
    ultimately show ?thesis using scan None by (simp add: oa_insert_def Let_def oa_lookup_def)
  next
    case (Some i)
    then obtain us vs where js: "?js = us @ i # vs" "?stop (t ! i)" "\<forall>u\<in>set us. \<not> ?stop (t ! u)"
      by (auto simp: find_split)
    let ?t = "t[i := \<lparr>oa_key = OaStr k, oa_value = v\<rparr>]"
    have "(if oa_key (t ! i) \<noteq> OaEmpty \<and> oa_key (t ! i) \<noteq> OaDeleted
        then t[i := (t ! i)\<lparr>oa_value := v\<rparr>] else ?t) = ?t"
      using js(2) by (cases "t ! i") auto
    then have "\<exists>out. oa_insert t k v = Inr (?t, out)"
      using scan Some by (simp add: oa_insert_def Let_def)
    moreover have "oa_ok ?t \<and> oa_lookup ?t = (oa_lookup t)(k := Some v)"
      using js by (intro oa_write_ok [OF ok js(1)]) auto
    ultimately show ?thesis by blast
  qed
qed

text \<open>
  C27. Insertion and search of the open-addressing table: from a table in which no empty slot cuts off
  a stored key, an insertion either stores the pair, so that every later search returns the new value
  for its key and the old answer for every other key, and keeps the table in that state, or
  changes nothing, and then all ten slots hold other keys. Searches never fault.
\<close>
theorem open_addressing_insert_search:
  assumes "oa_ok t"
  shows "\<exists>t' out. oa_insert t k v = Inr (t', out) \<and> oa_ok t' \<and>
    ((\<forall>k'. oa_search t' k' = (if k' = k then Inr v else oa_search t k'))
     \<or> (t' = t \<and> oa_search t k = Inr (-1)
        \<and> (\<forall>j<oa_TABLE_SIZE. oa_key (t ! j) \<noteq> OaEmpty \<and> oa_key (t ! j) \<noteq> OaDeleted)))"
proof -
  have search: "oa_search t' k' = Inr (case oa_lookup t' k' of None \<Rightarrow> -1 | Some v \<Rightarrow> v)" if "oa_ok t'" for t' k'
    using that by (rule oa_search_lookup)
  from oa_insert_cases [OF assms, of k v] show ?thesis
  proof (elim disjE exE conjE)
    fix t' out
    assume t': "oa_insert t k v = Inr (t', out)" "oa_ok t'" "oa_lookup t' = (oa_lookup t)(k := Some v)"
    then have "\<forall>k'. oa_search t' k' = (if k' = k then Inr v else oa_search t k')"
      using search [OF assms] search [OF t'(2)] by simp
    with t'(1,2) show ?thesis by blast
  next
    assume "oa_insert t k v = Inr (t, [Txt k, Txt '' can't be inserted as the table is full \<newline>''])"
      "oa_lookup t k = None" "\<forall>j<oa_TABLE_SIZE. oa_key (t ! j) \<noteq> OaEmpty \<and> oa_key (t ! j) \<noteq> OaDeleted"
    with search [OF assms, of k] assms show ?thesis by (intro exI [of _ t] exI) auto
  qed
qed

theorem open_addressing_insert_search_witness:
  "oa_ok oa_init \<and> (\<exists>t' out. oa_insert oa_init ''apple'' 100 = Inr (t', out) \<and> oa_search t' ''apple'' = Inr 100)"
proof -
  have e: "oa_key (oa_init ! 0) = OaEmpty" "0 < oa_TABLE_SIZE" by (simp_all add: oa_init_def oa_TABLE_SIZE_def)
  from open_addressing_insert_search [OF oa_ok_init, of "''apple''" 100] obtain t' out where
    "oa_insert oa_init ''apple'' 100 = Inr (t', out)"
    "(\<forall>k'. oa_search t' k' = (if k' = ''apple'' then Inr 100 else oa_search oa_init k'))
     \<or> (\<forall>j<oa_TABLE_SIZE. oa_key (oa_init ! j) \<noteq> OaEmpty)" by blast
  with e oa_ok_init show ?thesis by (metis (full_types))
qed

lemma oa_delete_ok:
  assumes ok: "oa_ok t" and d: "oa_distinct t"
  shows "\<exists>t' out. oa_delete t k = Inr (t', out) \<and> oa_ok t' \<and> oa_distinct t' \<and> oa_lookup t' = (oa_lookup t)(k := None)"
proof -
  let ?stop = "\<lambda>e. oa_key e = OaEmpty \<or> oa_key e = OaStr k" and ?js = "oa_probe (oa_hash k)"
  have len: "length t = oa_TABLE_SIZE" using ok by (simp add: oa_ok_def)
  note scan = oa_scan_find [OF len oa_hash_bound [of k], of ?stop]
  show ?thesis
  proof (cases "oa_lookup t k")
    case None
    then have no: "\<forall>j\<in>set ?js. oa_key (t ! j) \<noteq> OaStr k" by (auto simp: oa_lookup_def find_None_iff)
    have "\<exists>out. oa_delete t k = Inr (t, out)"
    proof (cases "find (\<lambda>j. ?stop (t ! j)) ?js")
      case (Some i)
      then have "i \<in> set ?js" "?stop (t ! i)" by (auto simp: find_split)
      then have "oa_key (t ! i) = OaEmpty" using no by blast
      then show ?thesis using scan Some by (simp add: oa_delete_def Let_def)
    qed (use scan in \<open>simp add: oa_delete_def Let_def\<close>)
    then show ?thesis using ok d None by (auto simp: fun_upd_idem)
  next
    case (Some v)
    then obtain i us vs where i: "?js = us @ i # vs" "oa_key (t ! i) = OaStr k" "\<forall>u\<in>set us. oa_key (t ! u) \<noteq> OaStr k"
      by (auto simp: oa_lookup_def find_split)
    have "\<forall>u\<in>set us. \<not> ?stop (t ! u)" using i oa_okD [OF ok i(1,2)] by blast
    then have f: "find (\<lambda>j. ?stop (t ! j)) ?js = Some i" using i by (auto simp: find_split)
    let ?t = "t[i := (t ! i)\<lparr>oa_key := OaDeleted\<rparr>]"
    have ib: "i < oa_TABLE_SIZE" using oa_probe_hash(2) [of k] i(1) by auto
    have ti: "oa_key (?t ! i) = OaDeleted" and tj: "j \<noteq> i \<Longrightarrow> ?t ! j = t ! j" for j using len ib by simp_all
    have key: "oa_key (?t ! j) = OaStr k1 \<longleftrightarrow> oa_key (t ! j) = OaStr k1 \<and> j \<noteq> i" for j k1
      using ti tj [of j] by (cases "j = i") auto
    have "oa_key (?t ! u) \<noteq> OaEmpty" if "oa_probe (oa_hash k1) = us1 @ v1 # vs1" "oa_key (?t ! v1) = OaStr k1" "u \<in> set us1" for k1 us1 v1 vs1 u
      using oa_okD [OF ok that(1) _ that(3)] that(2) key ti tj [of u] by (cases "u = i") auto
    then have "oa_ok ?t" using len unfolding oa_ok_def by (metis length_list_update)
    moreover have "oa_distinct ?t" using d unfolding oa_distinct_def by (simp add: key)
    moreover have "oa_lookup ?t = (oa_lookup t)(k := None)"
    proof
      fix k1
      show "oa_lookup ?t k1 = ((oa_lookup t)(k := None)) k1"
      proof (cases "k1 = k")
        case True
        have "\<forall>j\<in>set ?js. oa_key (t ! j) = OaStr k \<longrightarrow> j = i"
          using d i(2) ib oa_probe_hash(2) [of k] by (auto simp: oa_distinct_def)
        then show ?thesis using True by (auto simp: oa_lookup_def find_None_iff key)
      next
        case False
        have "oa_key (?t ! j) = OaStr k1 \<longleftrightarrow> oa_key (t ! j) = OaStr k1" for j using key [of j k1] i(2) False by auto
        moreover have "oa_value (?t ! j) = oa_value (t ! j)" for j using len ib by (cases "j = i") simp_all
        ultimately show ?thesis using False by (simp add: oa_lookup_def)
      qed
    qed
    moreover have "\<exists>out. oa_delete t k = Inr (?t, out)" using scan f i(2) by (simp add: oa_delete_def Let_def)
    ultimately show ?thesis by blast
  qed
qed

text \<open>
  Deletion in the open-addressing table, when no key is stored twice: afterwards a search for the
  deleted key returns -1, every other search returns what it returned before, and the table stays
  well-formed.
\<close>
theorem open_addressing_delete:
  assumes "oa_ok t" and "oa_distinct t"
  shows "\<exists>t' out. oa_delete t k = Inr (t', out) \<and> oa_ok t' \<and> oa_distinct t'
    \<and> (\<forall>k'. oa_search t' k' = (if k' = k then Inr (-1) else oa_search t k'))"
proof -
  from oa_delete_ok [OF assms] obtain t' out where
    t': "oa_delete t k = Inr (t', out)" "oa_ok t'" "oa_distinct t'" "oa_lookup t' = (oa_lookup t)(k := None)" by blast
  then have "\<forall>k'. oa_search t' k' = (if k' = k then Inr (-1) else oa_search t k')"
    by (simp add: oa_search_lookup assms(1))
  with t' show ?thesis by blast
qed

theorem open_addressing_delete_witness:
  "oa_ok oa_init \<and> oa_distinct oa_init \<and> (\<exists>t' out. oa_delete oa_init ''fig'' = Inr (t', out) \<and> oa_search t' ''fig'' = Inr (-1))"
proof -
  have "oa_distinct oa_init" by (simp add: oa_distinct_def oa_init_def)
  with open_addressing_delete [OF oa_ok_init this, of "''fig''"] oa_ok_init show ?thesis by auto
qed

text \<open>
  The hypothesis that no key is stored twice can be lost: an insertion takes the first tombstone on
  its probe path without looking for the key behind it. After inserting ''a'' and ''k'' (which
  collide), deleting ''a'' and inserting ''k'' again, ''k'' is stored twice, and deleting it brings
  its old value back instead of removing it.
\<close>
theorem open_addressing_stale_value:
  "bindE (oa_insert oa_init ''a'' 1) (\<lambda>(t1, _).
   bindE (oa_insert t1 ''k'' 2) (\<lambda>(t2, _).
   bindE (oa_delete t2 ''a'') (\<lambda>(t3, _).
   bindE (oa_insert t3 ''k'' 3) (\<lambda>(t4, _).
   bindE (oa_delete t4 ''k'') (\<lambda>(t5, _). oa_search t5 ''k''))))) = Inr 2"
  by code_simp

section \<open>Linear probing with integer keys\<close>

definition lp_home :: "int \<Rightarrow> nat" where
  "lp_home k = nat (k mod 10)"

lemma lp_home_bound: "lp_home k < oa_TABLE_SIZE"
  by (simp add: lp_home_def oa_TABLE_SIZE_def nat_less_iff)

lemmas lp_probe_home = oa_probe_props [OF lp_home_bound]

lemma lp_probe_list:
  assumes len: "length t = oa_TABLE_SIZE" and k: "0 \<le> k"
  shows "lp_probe stop t (lp_hashFunction k) (map int is)
    = Inr (map_option int (find (\<lambda>j. stop (t ! j)) (map (\<lambda>i. (lp_home k + i) mod oa_TABLE_SIZE) is)))"
proof (induction "is")
  case (Cons i "is")
  have idx: "(lp_hashFunction k + int i) smod lp_TABLE_SIZE = int ((lp_home k + i) mod oa_TABLE_SIZE)"
    using k by (simp add: lp_hashFunction_def lp_TABLE_SIZE_def oa_TABLE_SIZE_def lp_home_def smod_nonneg zmod_int)
  have "(lp_home k + i) mod oa_TABLE_SIZE < oa_TABLE_SIZE" by (simp add: oa_TABLE_SIZE_def)
  then have "arr_get t (int ((lp_home k + i) mod oa_TABLE_SIZE)) = Inr (t ! ((lp_home k + i) mod oa_TABLE_SIZE))"
    using len by (subst arr_get_ok) (auto simp del: mod_less_divisor)
  then show ?case using Cons idx by (simp add: Let_def)
qed simp

lemma lp_probe_find:
  assumes "length t = oa_TABLE_SIZE" and "0 \<le> k"
  shows "lp_probe stop t (lp_hashFunction k) [0..lp_TABLE_SIZE - 1]
    = Inr (map_option int (find (\<lambda>j. stop (t ! j)) (oa_probe (lp_home k))))"
proof -
  have "[0..lp_TABLE_SIZE - 1] = map int [0..<oa_TABLE_SIZE]"
    by (rule nth_equalityI) (auto simp: lp_TABLE_SIZE_def oa_TABLE_SIZE_def)
  then show ?thesis using lp_probe_list [OF assms, of stop "[0..<oa_TABLE_SIZE]"] by (simp add: oa_probe_def ring_def)
qed

definition lp_lookup :: "lp_entry list \<Rightarrow> int \<Rightarrow> int option" where
  "lp_lookup t k = map_option (\<lambda>i. lp_value (t ! i)) (find (\<lambda>i. lp_key (t ! i) = k) (oa_probe (lp_home k)))"

definition lp_ok :: "lp_entry list \<Rightarrow> bool" where
  "lp_ok t \<longleftrightarrow> length t = oa_TABLE_SIZE \<and> (\<forall>j<oa_TABLE_SIZE. lp_value (t ! j) \<noteq> -2)
     \<and> (\<forall>k\<ge>0. \<forall>us v vs. oa_probe (lp_home k) = us @ v # vs \<and> lp_key (t ! v) = k
          \<longrightarrow> (\<forall>u\<in>set us. lp_key (t ! u) \<noteq> -1))"

lemma lp_okD:
  "lp_ok t \<Longrightarrow> 0 \<le> k \<Longrightarrow> oa_probe (lp_home k) = us @ v # vs \<Longrightarrow> lp_key (t ! v) = k \<Longrightarrow> u \<in> set us \<Longrightarrow> lp_key (t ! u) \<noteq> -1"
  unfolding lp_ok_def by blast

lemma lp_search_lookup:
  assumes ok: "lp_ok t" and k: "0 \<le> k"
  shows "lp_search t k = Inr (case lp_lookup t k of None \<Rightarrow> -1 | Some v \<Rightarrow> v)"
proof -
  let ?js = "oa_probe (lp_home k)" and ?stop = "\<lambda>e. lp_key e = -1 \<or> lp_key e = k"
  have len: "length t = oa_TABLE_SIZE" using ok by (simp add: lp_ok_def)
  note probe = lp_probe_find [OF len k, of ?stop]
  show ?thesis
  proof (cases "find (\<lambda>j. ?stop (t ! j)) ?js")
    case None
    then have "find (\<lambda>j. lp_key (t ! j) = k) ?js = None" by (simp add: find_None_iff)
    then show ?thesis using probe None by (simp add: lp_search_def lp_lookup_def)
  next
    case (Some i)
    then obtain us vs where js: "?js = us @ i # vs" "?stop (t ! i)" and us: "\<forall>u\<in>set us. \<not> ?stop (t ! u)"
      by (auto simp: find_split)
    have ib: "i < length t" using lp_probe_home(2) [of k] js(1) len by auto
    have "find (\<lambda>j. lp_key (t ! j) = k) ?js = (if lp_key (t ! i) = -1 then None else Some i)"
    proof (cases "lp_key (t ! i) = -1")
      case True
      have "lp_key (t ! v) \<noteq> k" if "v \<in> set vs" for v
      proof
        assume v: "lp_key (t ! v) = k"
        from that obtain ps qs where "vs = ps @ v # qs" by (meson split_list)
        then have "?js = (us @ i # ps) @ v # qs" using js by simp
        from lp_okD [OF ok k this v, of i] show False using True by simp
      qed
      then show ?thesis using us True k unfolding js(1) by (auto simp: find_None_iff)
    qed (use js us in \<open>auto simp: find_split\<close>)
    then show ?thesis using probe Some ib by (simp add: lp_search_def lp_lookup_def)
  qed
qed

lemma lp_write_ok:
  assumes ok: "lp_ok t" and k: "0 \<le> k" and v: "v \<noteq> -2" and js: "oa_probe (lp_home k) = us @ i # vs"
    and i: "lp_key (t ! i) = -1" and us: "\<forall>u\<in>set us. lp_key (t ! u) \<noteq> -1"
  defines "t' \<equiv> t[i := \<lparr>lp_key = k, lp_value = v\<rparr>]"
  shows "lp_ok t' \<and> (\<forall>k'\<ge>0. lp_lookup t' k' = (if k' = k \<and> lp_lookup t k = None then Some v else lp_lookup t k'))"
proof (intro conjI allI impI)
  have len: "length t = oa_TABLE_SIZE" and nv: "\<forall>j<oa_TABLE_SIZE. lp_value (t ! j) \<noteq> -2" using ok by (simp_all add: lp_ok_def)
  have ib: "i < oa_TABLE_SIZE" using lp_probe_home(2) [of k] js by auto
  have ti: "t' ! i = \<lparr>lp_key = k, lp_value = v\<rparr>" and tj: "j \<noteq> i \<Longrightarrow> t' ! j = t ! j" for j
    using len ib by (simp_all add: t'_def)
  have ni: "i \<notin> set us" "i \<notin> set vs" using lp_probe_home(1) [of k] js by auto
  show "lp_ok t'"
    unfolding lp_ok_def
  proof (intro conjI allI impI)
    show "length t' = oa_TABLE_SIZE" using len by (simp add: t'_def)
    show "lp_value (t' ! j) \<noteq> -2" if "j < oa_TABLE_SIZE" for j using nv that ti tj [of j] v by (cases "j = i") auto
    fix k1 :: int and us1 v1 vs1
    assume k1: "0 \<le> k1" and a: "oa_probe (lp_home k1) = us1 @ v1 # vs1 \<and> lp_key (t' ! v1) = k1"
    show "\<forall>u\<in>set us1. lp_key (t' ! u) \<noteq> -1"
    proof (cases "v1 = i")
      case True
      then have "us @ i # vs = us1 @ i # vs1" using a js ti by simp
      then have "us1 = us" using append_Cons_eq_iff [OF ni, of us1 vs1] by blast
      moreover have "t' ! u = t ! u" if "u \<in> set us" for u using that ni by (intro tj) auto
      ultimately show ?thesis using us by simp
    next
      case False
      then have "lp_key (t ! v1) = k1" using a tj by simp
      then have old: "lp_key (t ! u) \<noteq> -1" if "u \<in> set us1" for u using lp_okD [OF ok k1 _ _ that] a by blast
      show ?thesis
      proof
        fix u
        assume "u \<in> set us1"
        then show "lp_key (t' ! u) \<noteq> -1" using old ti tj k by (cases "u = i") auto
      qed
    qed
  qed
  fix k' :: int
  assume k': "0 \<le> k'"
  let ?f = "\<lambda>t. find (\<lambda>j. lp_key (t ! j) = k') (oa_probe (lp_home k'))"
  show "lp_lookup t' k' = (if k' = k \<and> lp_lookup t k = None then Some v else lp_lookup t k')"
  proof (cases "?f t")
    case (Some j)
    then obtain ps qs where j: "oa_probe (lp_home k') = ps @ j # qs" "lp_key (t ! j) = k'" "\<forall>u\<in>set ps. lp_key (t ! u) \<noteq> k'"
      by (auto simp: find_split)
    have "i \<notin> set ps" using lp_okD [OF ok k' j(1,2), of i] i by blast
    moreover have "i \<noteq> j" using i j(2) k' by auto
    ultimately have "i \<notin> set (ps @ [j])" by simp
    then have "\<forall>u\<in>set (ps @ [j]). t' ! u = t ! u" using tj by metis
    then have "?f t' = Some j" "t' ! j = t ! j" using j by (auto simp: find_split)
    then show ?thesis using Some by (auto simp: lp_lookup_def)
  next
    case None
    then have no: "\<forall>j\<in>set (oa_probe (lp_home k')). lp_key (t ! j) \<noteq> k'" by (simp add: find_None_iff)
    show ?thesis
    proof (cases "k' = k")
      case True
      have "\<forall>u\<in>set us. lp_key (t' ! u) \<noteq> k" using no True js ni tj by (metis Un_iff set_append)
      then have "?f t' = Some i" using True js ti by (auto simp: find_split)
      then show ?thesis using True None ti by (simp add: lp_lookup_def)
    next
      case False
      then have "?f t' = None" using no ti tj by (auto simp: find_None_iff) (metis lp_entry.select_convs(1))
      then show ?thesis using False None by (simp add: lp_lookup_def)
    qed
  qed
qed

lemma lp_ok_init: "lp_ok lp_initTable"
proof -
  have t: "lp_initTable ! v = \<lparr>lp_key = -1, lp_value = 0\<rparr>" if "v < oa_TABLE_SIZE" for v
    using that by (simp add: lp_initTable_def lp_TABLE_SIZE_def oa_TABLE_SIZE_def)
  have nk: "lp_key (lp_initTable ! v) \<noteq> k" if "oa_probe (lp_home k) = us @ v # vs" "0 \<le> k" for k us v vs
  proof -
    have "v \<in> set (oa_probe (lp_home k))" unfolding that(1) by simp
    then show ?thesis using lp_probe_home(2) [of k] t [of v] that(2) by simp
  qed
  have "length lp_initTable = oa_TABLE_SIZE" by (simp add: lp_initTable_def lp_TABLE_SIZE_def oa_TABLE_SIZE_def)
  moreover have "\<forall>j<oa_TABLE_SIZE. lp_value (lp_initTable ! j) \<noteq> -2" using t by simp
  ultimately show ?thesis unfolding lp_ok_def using nk by blast
qed

text \<open>
  What an insertion of the integer table really does, on every table without a stored value -2 and
  for every non-negative key: it never faults, never disturbs another key, and it binds its own key
  only when the key was absent. A key that is present keeps its first value, since the loop looks
  for a free slot and not for the key; a full table is left unchanged.
\<close>
theorem linear_probing_first_wins:
  assumes "lp_ok t" and "0 \<le> k" and "v \<noteq> -2"
  shows "\<exists>t' out. lp_insert t k v = Inr (t', out) \<and> lp_ok t' \<and>
    ((\<forall>k'\<ge>0. lp_search t' k' =
        (if k' = k \<and> lp_lookup t k = None then Inr v else lp_search t k'))
     \<or> (t' = t \<and> (\<forall>j<oa_TABLE_SIZE. lp_key (t ! j) \<noteq> -1)))"
proof -
  have len: "length t = oa_TABLE_SIZE" and nv: "\<forall>j<oa_TABLE_SIZE. lp_value (t ! j) \<noteq> -2" using assms(1) by (simp_all add: lp_ok_def)
  note probe = lp_probe_find [OF len assms(2), of "\<lambda>e. lp_key e = -1 \<or> lp_value e = -2"]
  let ?js = "oa_probe (lp_home k)"
  have js_bound: "j < oa_TABLE_SIZE" if "j \<in> set ?js" for j using lp_probe_home(2) [of k] that by auto
  show ?thesis
  proof (cases "find (\<lambda>j. lp_key (t ! j) = -1 \<or> lp_value (t ! j) = -2) ?js")
    case None
    then have "\<forall>j<oa_TABLE_SIZE. lp_key (t ! j) \<noteq> -1" using lp_probe_home(2) [of k] by (auto simp: find_None_iff)
    then show ?thesis using probe None assms(1) by (simp add: lp_insert_def)
  next
    case (Some i)
    then obtain us vs where js: "?js = us @ i # vs" "lp_key (t ! i) = -1 \<or> lp_value (t ! i) = -2"
      "\<forall>u\<in>set us. lp_key (t ! u) \<noteq> -1" by (auto simp: find_split)
    have ib: "i < oa_TABLE_SIZE" using js(1) by (intro js_bound) simp
    then have ki: "lp_key (t ! i) = -1" using js(2) nv by blast
    let ?t = "t[i := \<lparr>lp_key = k, lp_value = v\<rparr>]"
    note w = lp_write_ok [OF assms(1,2,3) js(1) ki js(3)]
    have "\<forall>k'\<ge>0. lp_search ?t k' = (if k' = k \<and> lp_lookup t k = None then Inr v else lp_search t k')"
      using w lp_search_lookup assms(1) by simp
    moreover have "\<exists>out. lp_insert t k v = Inr (?t, out)" using probe Some ib len by (simp add: lp_insert_def)
    ultimately show ?thesis using w by blast
  qed
qed

theorem linear_probing_first_wins_witness:
  "lp_ok lp_initTable \<and> (\<exists>t' out. lp_insert lp_initTable 15 150 = Inr (t', out) \<and> lp_search t' 15 = Inr 150)"
proof -
  have "lp_key (lp_initTable ! 0) = -1" "0 < oa_TABLE_SIZE" "lp_lookup lp_initTable 15 = None" by code_simp+
  with linear_probing_first_wins [OF lp_ok_init, of 15 150] lp_ok_init show ?thesis by fastforce
qed

text \<open>
  The consequences of the two tests in \<^verbatim>\<open>insert\<close>: a second insertion of key 5 is lost; a stored value
  -2 is taken for a tombstone, so that inserting 15 destroys key 5; a deleted slot is not reused, so
  that a table of ten deleted keys is full; and the key -5 indexes before the array.
\<close>
theorem linear_probing_defects:
  "bindE (lp_insert lp_initTable 5 50) (\<lambda>(t, _). bindE (lp_insert t 5 60) (\<lambda>(t, _). lp_search t 5)) = Inr 50
   \<and> bindE (lp_insert lp_initTable 5 (-2)) (\<lambda>(t, _). bindE (lp_insert t 15 1) (\<lambda>(t, _). lp_search t 5)) = Inr (-1)
   \<and> bindE (foldE (\<lambda>t k. bindE (lp_insert t k k) (\<lambda>(t, _). bindE (lp_delete t k) (\<lambda>(t, _). Inr t))) [0..9] lp_initTable)
       (\<lambda>t. bindE (lp_insert t 7 70) (\<lambda>(t, out). Inr out)) = Inr [Txt ''Not inserted!! hash is full!!'']
   \<and> lp_insert lp_initTable (-5) 1 = Inl OutOfBounds"
  by (intro conjI) code_simp+

lemma hash_drivers_end: "\<not> isl oa_main" "\<not> isl lp_main"
  by code_simp+

end
