(* ===== verification/ConcurrentMap.thy ===== *)
theory ConcurrentMap
  imports Interfaces
begin

text \<open>
  The hash map with one lock per bucket (\<^verbatim>\<open>Mutex-Spi-Sem-RWlock/concurrent_hashmap_using_locks.c\<close>) and the two
  threads that fill it.

  The entries are a heap of addresses, and the threads are a step relation: a step is one lock, one unlock, or one
  access to a field of an entry or to the head of a bucket, and a thread that asks for a lock that is taken has no step. The address that
  \<^verbatim>\<open>malloc\<close> returns is an argument of the step, any one that is not in use, and so are the contents of the fresh block;
  \<^verbatim>\<open>malloc\<close> and \<^verbatim>\<open>strdup\<close> succeed. A key is the list of its characters.
\<close>

section \<open>The code\<close>

definition cm_NUM_BUCKETS :: nat where
  "cm_NUM_BUCKETS = 16"

definition cm_hash :: "string \<Rightarrow> nat" where
  "cm_hash key = unat (fold (\<lambda>c h. h * 31 + of_char c) key (0 :: 32 word) mod 16)"

record cm_entry =
  ce_key :: string
  ce_value :: int
  ce_next :: "nat option"

text \<open>
  The control points of \<^verbatim>\<open>hashmap_insert\<close>: before the lock, before the read of \<^verbatim>\<open>head\<close>, at the loop on \<^verbatim>\<open>e\<close>, before the store to
  \<^verbatim>\<open>e->value\<close>, before \<^verbatim>\<open>e = e->next\<close>, before \<^verbatim>\<open>malloc\<close> and the three stores to the new entry, before the store to \<^verbatim>\<open>head\<close>, and
  before the unlock.
\<close>

datatype cm_pc = CmLock | CmHead | CmLoop | CmStore | CmNext | CmAlloc | CmKey | CmValue | CmLink | CmPublish | CmUnlock

text \<open>A thread: \<open>cm_todo\<close> are the calls of \<^verbatim>\<open>hashmap_insert\<close> it has not returned from, the first of them the current one.\<close>

record cm_thread =
  cm_pc :: cm_pc
  cm_todo :: "(string \<times> int) list"
  cm_idx :: nat
  cm_e :: "nat option"
  cm_new :: "nat option"

record cm_state =
  cm_heap :: "nat \<rightharpoonup> cm_entry"
  cm_head :: "nat \<Rightarrow> nat option"
  cm_lock :: "nat \<Rightarrow> nat option"
  cm_thr :: "nat \<Rightarrow> cm_thread"

definition cm_set :: "nat \<Rightarrow> cm_thread \<Rightarrow> cm_state \<Rightarrow> cm_state" where
  "cm_set t x s = s\<lparr>cm_thr := (cm_thr s)(t := x)\<rparr>"

text \<open>A read and a write of an entry through a pointer.\<close>

definition cm_read :: "cm_state \<Rightarrow> nat option \<Rightarrow> cm_entry res" where
  "cm_read s p =
     (case p of None \<Rightarrow> Inl NullDeref
      | Some a \<Rightarrow> (case cm_heap s a of None \<Rightarrow> Inl UseAfterFree | Some en \<Rightarrow> Inr en))"

definition cm_write :: "(cm_entry \<Rightarrow> cm_entry) \<Rightarrow> nat option \<Rightarrow> cm_state \<Rightarrow> cm_state res" where
  "cm_write f p s = bindE (cm_read s p) (\<lambda>en. Inr (s\<lparr>cm_heap := (cm_heap s)(the p \<mapsto> f en)\<rparr>))"

text \<open>\<^verbatim>\<open>hashmap_insert\<close>, one access at a time; \<open>None\<close> is a thread that cannot move.\<close>

definition cm_insert_step :: "nat \<Rightarrow> nat \<Rightarrow> cm_entry \<Rightarrow> string \<Rightarrow> int \<Rightarrow> cm_state \<Rightarrow> cm_state res option" where
  "cm_insert_step t a junk key val s =
     (let x = cm_thr s t; go = (\<lambda>pc. cm_set t (x\<lparr>cm_pc := pc\<rparr>)) in
      case cm_pc x of
        CmLock \<Rightarrow>
          (let idx = cm_hash key in
           if cm_lock s idx \<noteq> None then None
           else Some (Inr (cm_set t (x\<lparr>cm_pc := CmHead, cm_idx := idx\<rparr>) (s\<lparr>cm_lock := (cm_lock s)(idx := Some t)\<rparr>))))
      | CmHead \<Rightarrow> Some (Inr (cm_set t (x\<lparr>cm_pc := CmLoop, cm_e := cm_head s (cm_idx x)\<rparr>) s))
      | CmLoop \<Rightarrow>
          (if cm_e x = None then Some (Inr (go CmAlloc s))
           else Some (bindE (cm_read s (cm_e x)) (\<lambda>en. Inr (go (if ce_key en = key then CmStore else CmNext) s))))
      | CmStore \<Rightarrow> Some (bindE (cm_write (\<lambda>en. en\<lparr>ce_value := val\<rparr>) (cm_e x) s) (\<lambda>s. Inr (go CmUnlock s)))
      | CmNext \<Rightarrow> Some (bindE (cm_read s (cm_e x)) (\<lambda>en. Inr (cm_set t (x\<lparr>cm_pc := CmLoop, cm_e := ce_next en\<rparr>) s)))
      | CmAlloc \<Rightarrow>
          (if cm_heap s a \<noteq> None then None
           else Some (Inr (cm_set t (x\<lparr>cm_pc := CmKey, cm_new := Some a\<rparr>) (s\<lparr>cm_heap := (cm_heap s)(a \<mapsto> junk)\<rparr>))))
      | CmKey \<Rightarrow> Some (bindE (cm_write (\<lambda>en. en\<lparr>ce_key := key\<rparr>) (cm_new x) s) (\<lambda>s. Inr (go CmValue s)))
      | CmValue \<Rightarrow> Some (bindE (cm_write (\<lambda>en. en\<lparr>ce_value := val\<rparr>) (cm_new x) s) (\<lambda>s. Inr (go CmLink s)))
      | CmLink \<Rightarrow> Some (bindE (cm_write (\<lambda>en. en\<lparr>ce_next := cm_head s (cm_idx x)\<rparr>) (cm_new x) s) (\<lambda>s. Inr (go CmPublish s)))
      | CmPublish \<Rightarrow> Some (Inr (go CmUnlock (s\<lparr>cm_head := (cm_head s)(cm_idx x := cm_new x)\<rparr>)))
      | CmUnlock \<Rightarrow>
          Some (Inr (cm_set t (x\<lparr>cm_pc := CmLock, cm_todo := tl (cm_todo x)\<rparr>) (s\<lparr>cm_lock := (cm_lock s)(cm_idx x := None)\<rparr>))))"

definition cm_thread_step :: "nat \<Rightarrow> nat \<Rightarrow> cm_entry \<Rightarrow> cm_state \<Rightarrow> cm_state res option" where
  "cm_thread_step t a junk s =
     (case cm_todo (cm_thr s t) of [] \<Rightarrow> None | (key, val) # rest \<Rightarrow> cm_insert_step t a junk key val s)"

text \<open>\<^verbatim>\<open>hashmap_lookup\<close> of a thread that runs alone: \<open>None\<close> when the lock is taken or the loop does not end.\<close>

partial_function (option) cm_scan :: "cm_state \<Rightarrow> string \<Rightarrow> nat option \<Rightarrow> int option res option" where
  "cm_scan s key e =
     (if e = None then Some (Inr None)
      else case cm_read s e of
             Inl f \<Rightarrow> Some (Inl f)
           | Inr en \<Rightarrow> if ce_key en = key then Some (Inr (Some (ce_value en))) else cm_scan s key (ce_next en))"

definition cm_lookup :: "cm_state \<Rightarrow> string \<Rightarrow> int option res option" where
  "cm_lookup s key = (let idx = cm_hash key in if cm_lock s idx \<noteq> None then None else cm_scan s key (cm_head s idx))"

text \<open>\<^verbatim>\<open>sprintf(key, "key%d", i)\<close> for a number of at most two digits, and the calls of \<^verbatim>\<open>worker\<close>.\<close>

definition cm_digit :: "nat \<Rightarrow> char" where
  "cm_digit d = char_of (48 + d)"

definition cm_key :: "nat \<Rightarrow> string" where
  "cm_key i = ''key'' @ (if i < 10 then [cm_digit i] else [cm_digit (i div 10), cm_digit (i mod 10)])"

definition cm_worker :: "(string \<times> int) list" where
  "cm_worker = map (\<lambda>i. (cm_key i, int i)) [0..<100]"

text \<open>The map after \<^verbatim>\<open>hashmap_init\<close>, with two threads that are about to make the calls \<open>calls 0\<close> and \<open>calls 1\<close>.\<close>

definition cm_start :: "(nat \<Rightarrow> (string \<times> int) list) \<Rightarrow> cm_state" where
  "cm_start calls = \<lparr>cm_heap = (\<lambda>_. None), cm_head = (\<lambda>_. None), cm_lock = (\<lambda>_. None),
     cm_thr = (\<lambda>t. \<lparr>cm_pc = CmLock, cm_todo = calls t, cm_idx = 0, cm_e = None, cm_new = None\<rparr>)\<rparr>"

inductive cm_step :: "cm_state \<Rightarrow> cm_state \<Rightarrow> bool" where
  cm_stepI: "t < 2 \<Longrightarrow> cm_thread_step t a junk s = Some (Inr s') \<Longrightarrow> cm_step s s'"

definition cm_reachable :: "(nat \<Rightarrow> (string \<times> int) list) \<Rightarrow> cm_state \<Rightarrow> bool" where
  "cm_reachable calls s \<longleftrightarrow> cm_step\<^sup>*\<^sup>* (cm_start calls) s"

text \<open>What \<^verbatim>\<open>main\<close> prints after the joins.\<close>

definition cm_main :: "cm_state \<Rightarrow> outs res option" where
  "cm_main s =
     map_option (\<lambda>r. bindE r (\<lambda>v. Inr (case v of
        Some val \<Rightarrow> [Txt ''key42 -> '', Num val, Txt ''\<newline>'']
      | None \<Rightarrow> [Txt ''key42 not found\<newline>'']))) (cm_lookup s ''key42'')"

section \<open>The sequential map\<close>

text \<open>What one insertion does to the lists of bindings in the buckets: the specification of \<^verbatim>\<open>hashmap_insert\<close>.\<close>

type_synonym cm_buckets = "nat \<Rightarrow> (string \<times> int) list"

primrec cm_update :: "string \<Rightarrow> int \<Rightarrow> (string \<times> int) list \<Rightarrow> (string \<times> int) list option" where
  "cm_update key val [] = None"
| "cm_update key val (e # es) =
     (if fst e = key then Some ((fst e, val) # es) else map_option (\<lambda>r. e # r) (cm_update key val es))"

definition cm_insert :: "cm_buckets \<Rightarrow> string \<Rightarrow> int \<Rightarrow> cm_buckets" where
  "cm_insert m key val =
     (let idx = cm_hash key in
      case cm_update key val (m idx) of
        Some es \<Rightarrow> m(idx := es)
      | None \<Rightarrow> m(idx := (key, val) # m idx))"

definition cm_find :: "cm_buckets \<Rightarrow> string \<Rightarrow> int option" where
  "cm_find m key = map_of (m (cm_hash key)) key"

lemma cm_update_None: "cm_update k v es = None \<longleftrightarrow> k \<notin> fst ` set es"
  by (induction es) auto

lemma cm_update_at: "k \<notin> fst ` set pre \<Longrightarrow> cm_update k v (pre @ (k, w) # suf) = Some (pre @ (k, v) # suf)"
  by (induction pre) auto

lemma cm_update_map_of:
  "(case cm_update k v es of None \<Rightarrow> map_of es k = None | Some es' \<Rightarrow> map_of es' = (map_of es)(k := Some v))"
  by (induction es) (auto split: option.splits simp: fun_eq_iff)

lemma cm_update_keys: "cm_update k v es = Some es' \<Longrightarrow> map fst es' = map fst es"
  by (induction es arbitrary: es') (auto split: if_splits)

interpretation cm: kv_store cm_insert cm_find
proof
  fix m k v
  show "cm_find (cm_insert m k v) = (cm_find m)(k := Some v)"
  proof
    fix k'
    show "cm_find (cm_insert m k v) k' = ((cm_find m)(k := Some v)) k'"
      using cm_update_map_of [where k = k and v = v and es = "m (cm_hash k)"]
      by (cases "cm_hash k' = cm_hash k") (auto simp: cm_find_def cm_insert_def Let_def split: option.splits)
  qed
qed

text \<open>A bucket holds a key at most once, only keys that hash to it, and no more bindings than there were insertions.\<close>

definition cm_keys_ok :: "nat \<Rightarrow> string list \<Rightarrow> bool" where
  "cm_keys_ok b ks \<longleftrightarrow> distinct ks \<and> (\<forall>k\<in>set ks. cm_hash k = b)"

definition cm_ok :: "cm_buckets \<Rightarrow> bool" where
  "cm_ok m \<longleftrightarrow> (\<forall>b. cm_keys_ok b (map fst (m b)))"

lemma cm_insert_new: "k \<notin> fst ` set (m (cm_hash k)) \<Longrightarrow> cm_insert m k v = m(cm_hash k := (k, v) # m (cm_hash k))"
  by (simp add: cm_insert_def Let_def cm_update_None [THEN iffD2])

lemma cm_insert_old: "cm_update k v (m (cm_hash k)) = Some es \<Longrightarrow> cm_insert m k v = m(cm_hash k := es)"
  by (simp add: cm_insert_def)

lemma cm_insert_cases:
  obtains (new) "k \<notin> fst ` set (m (cm_hash k))" "cm_insert m k v = m(cm_hash k := (k, v) # m (cm_hash k))"
  | (old) es where "map fst es = map fst (m (cm_hash k))" "cm_insert m k v = m(cm_hash k := es)"
proof (cases "cm_update k v (m (cm_hash k))")
  case None
  then have "k \<notin> fst ` set (m (cm_hash k))" by (simp only: cm_update_None not_False_eq_True)
  then show ?thesis using new cm_insert_new by blast
next
  case (Some es)
  then show ?thesis using old cm_update_keys cm_insert_old by blast
qed

lemma cm_insert_ok:
  assumes "cm_ok m" shows "cm_ok (cm_insert m k v)"
proof (cases rule: cm_insert_cases [of k m v])
  case new
  then show ?thesis using assms by (simp add: cm_ok_def cm_keys_ok_def)
next
  case (old es)
  then show ?thesis using assms by (simp add: cm_ok_def)
qed

abbreviation cm_after :: "(string \<times> int) list \<Rightarrow> cm_buckets" where
  "cm_after hist \<equiv> kv_load cm_insert hist (\<lambda>_. [])"

lemma cm_after_snoc: "cm_after (hist @ [(k, v)]) = cm_insert (cm_after hist) k v"
  by (simp add: kv_load_def)

lemma cm_after_ok: "cm_ok (cm_after hist)"
proof (induction hist rule: rev_induct)
  case (snoc p hist)
  then show ?case using cm_insert_ok by (cases p) (simp add: cm_after_snoc)
qed (simp add: cm_ok_def cm_keys_ok_def kv_load_def)

lemma cm_after_length: "length (cm_after hist b) \<le> length hist"
proof (induction hist arbitrary: b rule: rev_induct)
  case (snoc p hist)
  obtain k v where p: "p = (k, v)" by (cases p)
  show ?case
  proof (cases rule: cm_insert_cases [of k "cm_after hist" v])
    case new
    then show ?thesis using snoc [of "cm_hash k"] snoc [of b] unfolding p cm_after_snoc by simp
  next
    case (old es)
    then have "length es = length (cm_after hist (cm_hash k))" by (metis length_map)
    then show ?thesis using old(2) snoc [of "cm_hash k"] snoc [of b] unfolding p cm_after_snoc by simp
  qed
qed (simp add: kv_load_def)

lemma cm_after_find: "cm_find (cm_after hist) k = map_of (rev hist) k"
  using cm.load_lookup [of hist "\<lambda>_. []"] by (simp add: cm_find_def [of "\<lambda>_. []"] fun_eq_iff map_add_def split: option.splits)

section \<open>Chains of entries\<close>

primrec cm_path :: "(nat \<rightharpoonup> cm_entry) \<Rightarrow> nat option \<Rightarrow> nat list \<Rightarrow> bool" where
  "cm_path h p [] \<longleftrightarrow> p = None"
| "cm_path h p (a # as) \<longleftrightarrow> p = Some a \<and> (\<exists>en. h a = Some en \<and> cm_path h (ce_next en) as)"

definition cm_pairs :: "(nat \<rightharpoonup> cm_entry) \<Rightarrow> nat list \<Rightarrow> (string \<times> int) list" where
  "cm_pairs h as = map (\<lambda>a. (ce_key (the (h a)), ce_value (the (h a)))) as"

abbreviation cm_keys :: "(nat \<rightharpoonup> cm_entry) \<Rightarrow> nat list \<Rightarrow> string set" where
  "cm_keys h as \<equiv> (\<lambda>a. ce_key (the (h a))) ` set as"

lemma cm_pairs_keys [simp]: "fst ` set (cm_pairs h as) = cm_keys h as"
  by (auto simp: cm_pairs_def image_image)

lemma cm_pairs_fst: "map fst (cm_pairs h as) = map (\<lambda>a. ce_key (the (h a))) as"
  by (simp add: cm_pairs_def)

lemma cm_pairs_length [simp]: "length (cm_pairs h as) = length as"
  by (simp add: cm_pairs_def)

lemma cm_path_cong: "\<forall>a\<in>set as. map_option ce_next (h' a) = map_option ce_next (h a) \<Longrightarrow> cm_path h' p as = cm_path h p as"
proof (induction as arbitrary: p)
  case (Cons a as)
  then have "map_option ce_next (h' a) = map_option ce_next (h a)" "\<And>p. cm_path h' p as = cm_path h p as" by simp_all
  then show ?case by (cases "h a"; cases "h' a") auto
qed simp

lemma cm_pairs_cong: "\<forall>a\<in>set as. h' a = h a \<Longrightarrow> cm_pairs h' as = cm_pairs h as"
  by (simp add: cm_pairs_def)

lemma cm_path_dom: "cm_path h p as \<Longrightarrow> a \<in> set as \<Longrightarrow> h a \<noteq> None"
  by (induction as arbitrary: p) auto

lemma cm_path_unique: "cm_path h p as \<Longrightarrow> cm_path h p bs \<Longrightarrow> as = bs"
proof (induction as arbitrary: p bs)
  case (Cons a as)
  then show ?case by (cases bs) auto
next
  case Nil
  then show ?case by (cases bs) auto
qed

lemma cm_path_append: "cm_path h p (as @ bs) \<Longrightarrow> \<exists>q. cm_path h q bs"
  by (induction as arbitrary: p) auto

text \<open>How far a pointer is from the end of its chain, and the loop of \<^verbatim>\<open>hashmap_lookup\<close>, which ends for that reason.\<close>

definition cm_dist :: "(nat \<rightharpoonup> cm_entry) \<Rightarrow> nat option \<Rightarrow> nat" where
  "cm_dist h p = length (SOME as. cm_path h p as)"

lemma cm_dist_path: "cm_path h p as \<Longrightarrow> cm_dist h p = length as"
  unfolding cm_dist_def by (rule arg_cong [of _ _ length]) (auto intro: some_equality cm_path_unique)

lemma cm_scan_path: "cm_path (cm_heap s) p as \<Longrightarrow> cm_scan s key p = Some (Inr (map_of (cm_pairs (cm_heap s) as) key))"
proof (induction as arbitrary: p)
  case Nil
  then show ?case by (simp add: cm_scan.simps cm_pairs_def)
next
  case (Cons a as)
  then show ?case by (subst cm_scan.simps) (auto simp: cm_read_def cm_pairs_def)
qed

section \<open>Invariant\<close>

abbreviation cm_k :: "cm_thread \<Rightarrow> string" where
  "cm_k x \<equiv> fst (hd (cm_todo x))"

abbreviation cm_v :: "cm_thread \<Rightarrow> int" where
  "cm_v x \<equiv> snd (hd (cm_todo x))"

text \<open>The entry that a thread has allocated and not yet published, and whether it holds the lock of its bucket.\<close>

definition cm_own :: "cm_thread \<Rightarrow> nat option" where
  "cm_own x = (if cm_pc x \<in> {CmKey, CmValue, CmLink, CmPublish} then cm_new x else None)"

definition cm_holds :: "cm_thread \<Rightarrow> nat \<Rightarrow> bool" where
  "cm_holds x b \<longleftrightarrow> cm_pc x \<noteq> CmLock \<and> cm_idx x = b"

text \<open>The thread's position in the chain \<open>as\<close> of its bucket: the entries it has passed do not hold its key.\<close>

definition cm_position :: "(nat \<rightharpoonup> cm_entry) \<Rightarrow> nat option \<Rightarrow> nat list \<Rightarrow> cm_thread \<Rightarrow> bool" where
  "cm_position h q as x \<longleftrightarrow>
     (case cm_pc x of
        CmLoop \<Rightarrow> \<exists>pre suf. as = pre @ suf \<and> cm_path h (cm_e x) suf \<and> cm_k x \<notin> cm_keys h pre
      | CmStore \<Rightarrow> \<exists>pre a suf. as = pre @ a # suf \<and> cm_e x = Some a \<and> h a \<noteq> None \<and> ce_key (the (h a)) = cm_k x \<and> cm_k x \<notin> cm_keys h pre
      | CmNext \<Rightarrow> \<exists>pre a suf. as = pre @ a # suf \<and> cm_path h (cm_e x) (a # suf) \<and> cm_k x \<notin> cm_keys h (pre @ [a])
      | CmAlloc \<Rightarrow> cm_k x \<notin> cm_keys h as
      | CmKey \<Rightarrow> cm_k x \<notin> cm_keys h as \<and> (\<exists>n en. cm_new x = Some n \<and> h n = Some en)
      | CmValue \<Rightarrow> cm_k x \<notin> cm_keys h as \<and> (\<exists>n en. cm_new x = Some n \<and> h n = Some en \<and> ce_key en = cm_k x)
      | CmLink \<Rightarrow> cm_k x \<notin> cm_keys h as \<and> (\<exists>n en. cm_new x = Some n \<and> h n = Some en \<and> ce_key en = cm_k x \<and> ce_value en = cm_v x)
      | CmPublish \<Rightarrow> cm_k x \<notin> cm_keys h as \<and>
          (\<exists>n en. cm_new x = Some n \<and> h n = Some en \<and> ce_key en = cm_k x \<and> ce_value en = cm_v x \<and> ce_next en = q)
      | _ \<Rightarrow> True)"

definition cm_thread_ok :: "(nat \<rightharpoonup> cm_entry) \<Rightarrow> (nat \<Rightarrow> nat option) \<Rightarrow> (nat \<Rightarrow> nat list) \<Rightarrow> cm_thread \<Rightarrow> bool" where
  "cm_thread_ok h g ch x \<longleftrightarrow>
     (cm_pc x \<noteq> CmLock \<longrightarrow> cm_todo x \<noteq> [] \<and> cm_idx x = cm_hash (cm_k x) \<and> cm_position h (g (cm_idx x)) (ch (cm_idx x)) x)"

text \<open>The chains \<open>ch\<close> hold what the calls in \<open>hist\<close>, made one after the other, leave in the sequential map.\<close>

definition cm_mem :: "(nat \<rightharpoonup> cm_entry) \<Rightarrow> (nat \<Rightarrow> nat option) \<Rightarrow> (nat \<Rightarrow> nat list) \<Rightarrow> (string \<times> int) list \<Rightarrow> bool" where
  "cm_mem h g ch hist \<longleftrightarrow> finite (dom h) \<and> (\<forall>b. cm_path h (g b) (ch b) \<and> cm_pairs h (ch b) = cm_after hist b)"

definition cm_private :: "cm_state \<Rightarrow> (nat \<Rightarrow> nat list) \<Rightarrow> bool" where
  "cm_private s ch \<longleftrightarrow>
     (\<forall>t<2. \<forall>n. cm_own (cm_thr s t) = Some n \<longrightarrow> cm_heap s n \<noteq> None \<and> (\<forall>b. n \<notin> set (ch b)) \<and>
        (\<forall>u<2. u \<noteq> t \<longrightarrow> cm_own (cm_thr s u) \<noteq> Some n))"

definition cm_locks :: "cm_state \<Rightarrow> bool" where
  "cm_locks s \<longleftrightarrow> (\<forall>b t. cm_lock s b = Some t \<longleftrightarrow> t < 2 \<and> cm_holds (cm_thr s t) b)"

definition cm_rest :: "cm_thread \<Rightarrow> (string \<times> int) list" where
  "cm_rest x = (if cm_pc x = CmUnlock then tl (cm_todo x) else cm_todo x)"

definition cm_history :: "(nat \<Rightarrow> (string \<times> int) list) \<Rightarrow> (nat \<Rightarrow> cm_thread) \<Rightarrow> (string \<times> int) list \<Rightarrow> bool" where
  "cm_history calls thr hist \<longleftrightarrow>
     (\<exists>d0 d1. hist \<in> shuffles d0 d1 \<and> calls 0 = d0 @ cm_rest (thr 0) \<and> calls 1 = d1 @ cm_rest (thr 1))"

definition cm_inv :: "(nat \<Rightarrow> (string \<times> int) list) \<Rightarrow> cm_state \<Rightarrow> (nat \<Rightarrow> nat list) \<Rightarrow> (string \<times> int) list \<Rightarrow> bool" where
  "cm_inv calls s ch hist \<longleftrightarrow>
     cm_mem (cm_heap s) (cm_head s) ch hist \<and> (\<forall>t<2. cm_thread_ok (cm_heap s) (cm_head s) ch (cm_thr s t)) \<and>
     cm_private s ch \<and> cm_locks s \<and> cm_history calls (cm_thr s) hist"

lemma cm_inv_start: "cm_inv calls (cm_start calls) (\<lambda>_. []) []"
  by (simp add: cm_inv_def cm_start_def cm_mem_def cm_thread_ok_def cm_private_def cm_own_def cm_locks_def cm_holds_def cm_history_def
      cm_rest_def cm_pairs_def kv_load_def)

text \<open>An address is in the chain of one bucket only.\<close>

lemma cm_mem_hash:
  assumes "cm_mem h g ch hist" and "a \<in> set (ch b)"
  shows "cm_hash (ce_key (the (h a))) = b"
proof -
  have "ce_key (the (h a)) \<in> set (map fst (cm_after hist b))" using assms by (metis cm_mem_def cm_pairs_keys imageI set_map)
  then show ?thesis using cm_after_ok [of hist] unfolding cm_ok_def cm_keys_ok_def by blast
qed

lemma cm_mem_disjoint: "cm_mem h g ch hist \<Longrightarrow> a \<in> set (ch b) \<Longrightarrow> a \<in> set (ch b') \<Longrightarrow> b' = b"
  using cm_mem_hash by metis

lemma cm_mem_distinct: "cm_mem h g ch hist \<Longrightarrow> distinct (map (\<lambda>a. ce_key (the (h a))) (ch b))"
proof -
  assume "cm_mem h g ch hist"
  then have "map (\<lambda>a. ce_key (the (h a))) (ch b) = map fst (cm_after hist b)"
    by (simp add: cm_mem_def flip: cm_pairs_fst)
  then show ?thesis using cm_after_ok [of hist] by (simp add: cm_ok_def cm_keys_ok_def)
qed

text \<open>What a thread knows depends only on the chain of its bucket and on its own new entry.\<close>

lemma cm_position_frame:
  assumes "cm_position h q as x" and "\<forall>a\<in>set as. h' a = h a" and "\<And>n. cm_own x = Some n \<Longrightarrow> h' n = h n"
  shows "cm_position h' q as x"
proof -
  have key: "cm_keys h' bs = cm_keys h bs" "cm_path h' p bs = cm_path h p bs" if "set bs \<subseteq> set as" for bs p
    using assms(2) that cm_path_cong [of bs h' h p] by (auto simp: subset_iff)
  have own: "\<exists>n en. cm_new x = Some n \<and> h' n = Some en \<and> P en" if "\<exists>n en. cm_new x = Some n \<and> h n = Some en \<and> P en"
    and "cm_pc x \<in> {CmKey, CmValue, CmLink, CmPublish}" for P
    using that assms(3) by (auto simp: cm_own_def)
  note defs = assms(1) [unfolded cm_position_def]
  show ?thesis
  proof (cases "cm_pc x")
    case CmLoop
    with defs obtain pre suf where "as = pre @ suf" "cm_path h (cm_e x) suf" "cm_k x \<notin> cm_keys h pre" by auto
    then have "as = pre @ suf \<and> cm_path h' (cm_e x) suf \<and> cm_k x \<notin> cm_keys h' pre" using key by simp
    with CmLoop show ?thesis unfolding cm_position_def by auto
  next
    case CmStore
    with defs obtain pre a suf where p: "as = pre @ a # suf" "cm_e x = Some a" "h a \<noteq> None" "ce_key (the (h a)) = cm_k x" "cm_k x \<notin> cm_keys h pre"
      by auto
    then have "cm_k x \<notin> cm_keys h' pre" "h' a = h a" using key assms(2) by simp_all
    with CmStore p show ?thesis unfolding cm_position_def by auto
  next
    case CmNext
    with defs obtain pre a suf where p: "as = pre @ a # suf" "cm_path h (cm_e x) (a # suf)" "cm_k x \<notin> cm_keys h (pre @ [a])"
      by auto
    then have "as = pre @ a # suf \<and> cm_path h' (cm_e x) (a # suf) \<and> cm_k x \<notin> cm_keys h' (pre @ [a])"
      using key(2) [of "a # suf"] key(1) [of "pre @ [a]"] by auto
    with CmNext show ?thesis unfolding cm_position_def by auto
  next
    case CmKey
    with defs own [of "\<lambda>_. True"] key(1) [of as] show ?thesis by (simp add: cm_position_def)
  next
    case CmValue
    with defs own [of "\<lambda>en. ce_key en = cm_k x"] key(1) [of as] show ?thesis by (simp add: cm_position_def)
  next
    case CmLink
    with defs own [of "\<lambda>en. ce_key en = cm_k x \<and> ce_value en = cm_v x"] key(1) [of as] show ?thesis by (simp add: cm_position_def)
  next
    case CmPublish
    with defs own [of "\<lambda>en. ce_key en = cm_k x \<and> ce_value en = cm_v x \<and> ce_next en = q"] key(1) [of as] show ?thesis
      by (simp add: cm_position_def)
  qed (use defs key(1) [of as] in \<open>simp_all add: cm_position_def\<close>)
qed

section \<open>Steps keep the invariant\<close>

lemma cm_inv_parts:
  assumes "cm_inv calls s ch hist"
  shows "cm_mem (cm_heap s) (cm_head s) ch hist" "cm_private s ch" "cm_locks s" "cm_history calls (cm_thr s) hist"
    "t < 2 \<Longrightarrow> cm_thread_ok (cm_heap s) (cm_head s) ch (cm_thr s t)"
  using assms by (simp_all add: cm_inv_def)

lemma cm_history_same: "cm_history calls thr hist \<Longrightarrow> cm_rest x = cm_rest (thr t) \<Longrightarrow> cm_history calls (thr(t := x)) hist"
proof -
  assume *: "cm_history calls thr hist" "cm_rest x = cm_rest (thr t)"
  then have "cm_rest ((thr(t := x)) u) = cm_rest (thr u)" for u by simp
  with * show ?thesis unfolding cm_history_def by metis
qed

lemma append_shuffles: "xs @ ys \<in> shuffles xs ys"
  by (induction xs) (auto intro: Cons_in_shuffles_leftI)

lemma shuffles_snoc1: "zs \<in> shuffles xs ys \<Longrightarrow> zs @ [z] \<in> shuffles (xs @ [z]) ys"
  by (induction xs ys arbitrary: zs rule: shuffles.induct)
    (use append_shuffles [of _ "[z]"] in \<open>auto simp: shuffles_commutes [of "[z]"] intro: Cons_in_shuffles_leftI Cons_in_shuffles_rightI\<close>)

lemma shuffles_snoc2: "zs \<in> shuffles xs ys \<Longrightarrow> zs @ [z] \<in> shuffles xs (ys @ [z])"
  using shuffles_snoc1 [of zs ys xs z] by (simp add: shuffles_commutes)

lemma cm_history_snoc:
  assumes "cm_history calls thr hist" and t: "t < 2" and "cm_rest (thr t) = c # cm_rest x"
  shows "cm_history calls (thr(t := x)) (hist @ [c])"
proof -
  obtain d0 d1 where d: "hist \<in> shuffles d0 d1" "calls 0 = d0 @ cm_rest (thr 0)" "calls 1 = d1 @ cm_rest (thr 1)"
    using assms(1) by (auto simp: cm_history_def)
  consider "t = 0" | "t = 1" using t by linarith
  then show ?thesis
  proof cases
    case 1
    then show ?thesis unfolding cm_history_def using d assms(3) shuffles_snoc1 [OF d(1), of c]
      by (intro exI [of _ "d0 @ [c]"] exI [of _ d1]) simp
  next
    case 2
    then show ?thesis unfolding cm_history_def using d assms(3) shuffles_snoc2 [OF d(1), of c]
      by (intro exI [of _ d0] exI [of _ "d1 @ [c]"]) simp
  qed
qed

lemma cm_locks_set:
  assumes "cm_locks s" and "cm_lock s' = cm_lock s" and "cm_thr s' = (cm_thr s)(t := x)" and "cm_holds x = cm_holds (cm_thr s t)"
  shows "cm_locks s'"
  using assms by (simp add: cm_locks_def)

lemma cm_private_set:
  assumes "cm_private s ch" and "cm_thr s' = (cm_thr s)(t := x)"
    and "\<And>n. cm_own x = Some n \<Longrightarrow> cm_heap s' n \<noteq> None \<and> (\<forall>b. n \<notin> set (ch' b)) \<and> (\<forall>u<2. u \<noteq> t \<longrightarrow> cm_own (cm_thr s u) \<noteq> Some n)"
    and "\<And>u n. u < 2 \<Longrightarrow> u \<noteq> t \<Longrightarrow> cm_own (cm_thr s u) = Some n \<Longrightarrow> cm_heap s' n = cm_heap s n \<and> (\<forall>b. n \<in> set (ch' b) \<longrightarrow> n \<in> set (ch b))"
  shows "cm_private s' ch'"
  unfolding cm_private_def
proof (intro allI impI)
  fix u n
  assume u: "u < (2 :: nat)" "cm_own (cm_thr s' u) = Some n"
  show "cm_heap s' n \<noteq> None \<and> (\<forall>b. n \<notin> set (ch' b)) \<and> (\<forall>v<2. v \<noteq> u \<longrightarrow> cm_own (cm_thr s' v) \<noteq> Some n)"
  proof (cases "u = t")
    case True
    then show ?thesis using u assms(2) assms(3) [of n] by simp
  next
    case False
    then have own: "cm_own (cm_thr s u) = Some n" using u assms(2) by simp
    then have "cm_heap s n \<noteq> None \<and> (\<forall>b. n \<notin> set (ch b)) \<and> (\<forall>v<2. v \<noteq> u \<longrightarrow> cm_own (cm_thr s v) \<noteq> Some n)"
      using assms(1) u(1) by (simp add: cm_private_def)
    then show ?thesis using own False u(1) assms(2) assms(3) [of n] assms(4) [OF u(1) False own] by auto
  qed
qed

text \<open>Another thread that is inside \<^verbatim>\<open>hashmap_insert\<close> works on another bucket than the thread that moves.\<close>

lemma cm_other_ok:
  assumes inv: "cm_inv calls s ch hist" and u: "u < 2"
    and frame: "\<And>b. cm_holds (cm_thr s u) b \<Longrightarrow> g' b = cm_head s b \<and> ch' b = ch b \<and> (\<forall>a\<in>set (ch b). h' a = cm_heap s a)"
    and own: "\<And>n. cm_own (cm_thr s u) = Some n \<Longrightarrow> h' n = cm_heap s n"
  shows "cm_thread_ok h' g' ch' (cm_thr s u)"
  using cm_inv_parts(5) [OF inv u] frame [of "cm_idx (cm_thr s u)"] own cm_position_frame
  by (fastforce simp: cm_thread_ok_def cm_holds_def)

lemma cm_other_bucket:
  assumes "cm_inv calls s ch hist" and "t < 2" "cm_holds (cm_thr s t) b" and "u < 2" "u \<noteq> t" "cm_holds (cm_thr s u) b'"
  shows "b' \<noteq> b"
proof
  assume "b' = b"
  then have "cm_lock s b = Some t" "cm_lock s b = Some u" using assms cm_inv_parts(3) [OF assms(1)] unfolding cm_locks_def by blast+
  then show False using assms(5) by simp
qed

lemma cm_inv_local:
  assumes inv: "cm_inv calls s ch hist" and t: "t < 2" and fin: "finite (dom h')"
    and frame: "\<forall>b. \<forall>a\<in>set (ch b). h' a = cm_heap s a"
    and others: "\<And>u n. u < 2 \<Longrightarrow> u \<noteq> t \<Longrightarrow> cm_own (cm_thr s u) = Some n \<Longrightarrow> h' n = cm_heap s n"
    and ok: "cm_thread_ok h' (cm_head s) ch x"
    and own: "\<And>n. cm_own x = Some n \<Longrightarrow> h' n \<noteq> None \<and> (\<forall>b. n \<notin> set (ch b)) \<and> (\<forall>u<2. u \<noteq> t \<longrightarrow> cm_own (cm_thr s u) \<noteq> Some n)"
    and same: "cm_holds x = cm_holds (cm_thr s t)" "cm_rest x = cm_rest (cm_thr s t)"
  shows "cm_inv calls (cm_set t x (s\<lparr>cm_heap := h'\<rparr>)) ch hist"
proof -
  let ?s = "cm_set t x (s\<lparr>cm_heap := h'\<rparr>)"
  have s': "cm_heap ?s = h'" "cm_head ?s = cm_head s" "cm_lock ?s = cm_lock s" "cm_thr ?s = (cm_thr s)(t := x)" by (simp_all add: cm_set_def)
  have path: "cm_path h' p (ch b) = cm_path (cm_heap s) p (ch b)" "cm_pairs h' (ch b) = cm_pairs (cm_heap s) (ch b)" for p b
    using frame by (simp_all add: cm_path_cong cm_pairs_cong)
  have "cm_mem h' (cm_head s) ch hist" using cm_inv_parts(1) [OF inv] fin by (simp add: cm_mem_def path)
  moreover have "\<forall>u<2. cm_thread_ok h' (cm_head s) ch (((cm_thr s)(t := x)) u)"
    using ok frame others by (auto intro!: cm_other_ok [OF inv])
  moreover have "cm_private ?s ch" by (rule cm_private_set [OF cm_inv_parts(2) [OF inv] s'(4)]) (use own others in \<open>simp_all add: s'\<close>)
  moreover have "cm_locks ?s" by (rule cm_locks_set [OF cm_inv_parts(3) [OF inv] s'(3,4) same(1)])
  moreover have "cm_history calls (cm_thr ?s) hist"
    using cm_history_same [OF cm_inv_parts(4) [OF inv] same(2)] by (simp add: s')
  ultimately show ?thesis by (simp add: cm_inv_def s')
qed

text \<open>The lock and the unlock.\<close>

lemma cm_inv_locking:
  assumes inv: "cm_inv calls s ch hist" and t: "t < 2" and ok: "cm_thread_ok (cm_heap s) (cm_head s) ch x" and own: "cm_own x = None"
    and rest: "cm_rest x = cm_rest (cm_thr s t)"
    and locks: "cm_locks (cm_set t x (s\<lparr>cm_lock := l\<rparr>))"
  shows "cm_inv calls (cm_set t x (s\<lparr>cm_lock := l\<rparr>)) ch hist"
proof -
  let ?s = "cm_set t x (s\<lparr>cm_lock := l\<rparr>)"
  have s': "cm_heap ?s = cm_heap s" "cm_head ?s = cm_head s" "cm_thr ?s = (cm_thr s)(t := x)" by (simp_all add: cm_set_def)
  have "cm_private ?s ch" by (rule cm_private_set [OF cm_inv_parts(2) [OF inv] s'(3)]) (use own in \<open>simp_all add: s'\<close>)
  then show ?thesis
    using cm_inv_parts(1) [OF inv] cm_inv_parts(5) [OF inv] ok locks cm_history_same [OF cm_inv_parts(4) [OF inv] rest]
    by (simp add: cm_inv_def s')
qed

text \<open>The two steps that take effect: the store to the value of an entry, and the store to the head of a bucket.\<close>

lemma cm_inv_effect:
  assumes inv: "cm_inv calls s ch hist" and t: "t < 2" and b: "cm_holds (cm_thr s t) b"
    and mem: "cm_mem h' g' ch' (hist @ [c])"
    and frame: "\<And>b'. b' \<noteq> b \<Longrightarrow> g' b' = cm_head s b' \<and> ch' b' = ch b' \<and> (\<forall>a\<in>set (ch b'). h' a = cm_heap s a)"
    and others: "\<And>u n. u < 2 \<Longrightarrow> u \<noteq> t \<Longrightarrow> cm_own (cm_thr s u) = Some n \<Longrightarrow> h' n = cm_heap s n \<and> (n \<in> set (ch' b) \<longrightarrow> n \<in> set (ch b))"
    and x: "x = (cm_thr s t)\<lparr>cm_pc := CmUnlock\<rparr>" and pc: "cm_pc (cm_thr s t) \<noteq> CmUnlock" and c: "cm_todo (cm_thr s t) = c # rest"
  shows "cm_inv calls (cm_set t x (s\<lparr>cm_heap := h', cm_head := g'\<rparr>)) ch' (hist @ [c])"
proof -
  let ?s = "cm_set t x (s\<lparr>cm_heap := h', cm_head := g'\<rparr>)"
  have s': "cm_heap ?s = h'" "cm_head ?s = g'" "cm_lock ?s = cm_lock s" "cm_thr ?s = (cm_thr s)(t := x)" by (simp_all add: cm_set_def)
  have "cm_holds x = cm_holds (cm_thr s t)" using x b by (auto simp: cm_holds_def fun_eq_iff)
  then have "cm_locks ?s" by (rule cm_locks_set [OF cm_inv_parts(3) [OF inv] s'(3,4)])
  moreover have chain: "n \<in> set (ch' b') \<longrightarrow> n \<in> set (ch b')" if "u < 2" "u \<noteq> t" "cm_own (cm_thr s u) = Some n" for u n b'
    using others [OF that] frame [of b'] by (cases "b' = b") auto
  have "cm_own x = None" using x by (simp add: cm_own_def)
  then have "cm_private ?s ch'"
    by (intro cm_private_set [OF cm_inv_parts(2) [OF inv] s'(4)]) (use others chain in \<open>simp_all only: s' option.simps simp_thms\<close>, blast+)
  moreover have "cm_thread_ok h' g' ch' (((cm_thr s)(t := x)) u)" if "u < 2" for u
  proof (cases "u = t")
    case True
    then show ?thesis using x b cm_inv_parts(5) [OF inv t] by (simp add: cm_thread_ok_def cm_holds_def cm_position_def)
  next
    case False
    have "cm_thread_ok h' g' ch' (cm_thr s u)"
      by (rule cm_other_ok [OF inv that]) (use cm_other_bucket [OF inv t b that False] frame others [OF that False] in blast)+
    then show ?thesis using False by simp
  qed
  moreover have "cm_rest (cm_thr s t) = c # cm_rest x" using x pc c by (simp add: cm_rest_def)
  then have "cm_history calls (cm_thr ?s) (hist @ [c])" using cm_history_snoc [OF cm_inv_parts(4) [OF inv] t] by (simp add: s')
  ultimately show ?thesis using mem by (simp add: cm_inv_def s')
qed

lemma cm_mem_store:
  assumes mem: "cm_mem h g ch hist" and c: "ch (cm_hash k) = pre @ a # suf" "h a = Some en" "ce_key en = k" "k \<notin> cm_keys h pre"
  shows "cm_mem (h(a \<mapsto> en\<lparr>ce_value := v\<rparr>)) g ch (hist @ [(k, v)])"
proof -
  let ?h = "h(a \<mapsto> en\<lparr>ce_value := v\<rparr>)"
  have path: "cm_path ?h p as = cm_path h p as" for p as using c(2) by (intro cm_path_cong) simp
  have out: "a \<notin> set (ch b)" if "b \<noteq> cm_hash k" for b using cm_mem_disjoint [OF mem, of a "cm_hash k" b] c(1) that by auto
  have "distinct (ch (cm_hash k))" using cm_mem_distinct [OF mem, of "cm_hash k"] by (simp add: distinct_map)
  then have a: "a \<notin> set pre" "a \<notin> set suf" using c(1) by simp_all
  then have pairs: "cm_pairs ?h (pre @ a # suf) = cm_pairs h pre @ (k, v) # cm_pairs h suf"
    "cm_pairs h (pre @ a # suf) = cm_pairs h pre @ (k, ce_value en) # cm_pairs h suf"
    using c(2,3) by (auto simp: cm_pairs_def)
  have "cm_update k v (cm_after hist (cm_hash k)) = Some (cm_pairs h pre @ (k, v) # cm_pairs h suf)"
    using mem c(1,4) pairs(2) cm_update_at [of k "cm_pairs h pre"] unfolding cm_mem_def by (metis cm_pairs_keys)
  then have ins: "cm_after (hist @ [(k, v)]) = (cm_after hist)(cm_hash k := cm_pairs ?h (ch (cm_hash k)))"
    unfolding cm_after_snoc using cm_insert_old pairs(1) c(1) by simp
  have "cm_pairs ?h (ch b) = cm_after (hist @ [(k, v)]) b" for b
    using mem out [of b] cm_pairs_cong [of "ch b" ?h h] by (cases "b = cm_hash k") (auto simp: ins cm_mem_def)
  then show ?thesis using mem path by (simp add: cm_mem_def)
qed

lemma cm_mem_publish:
  assumes mem: "cm_mem h g ch hist" and n: "h n = Some en" "\<forall>b. n \<notin> set (ch b)"
    and en: "ce_key en = k" "ce_value en = v" "ce_next en = g (cm_hash k)" and k: "k \<notin> cm_keys h (ch (cm_hash k))"
  shows "cm_mem h (g(cm_hash k := Some n)) (ch(cm_hash k := n # ch (cm_hash k))) (hist @ [(k, v)])"
proof -
  have m: "cm_path h (g b) (ch b)" "cm_pairs h (ch b) = cm_after hist b" for b using mem by (simp_all add: cm_mem_def)
  have "k \<notin> fst ` set (cm_after hist (cm_hash k))" using k by (simp add: m(2) [symmetric])
  then have "cm_after (hist @ [(k, v)]) = (cm_after hist)(cm_hash k := (k, v) # cm_after hist (cm_hash k))"
    unfolding cm_after_snoc by (rule cm_insert_new)
  moreover have "cm_pairs h (n # ch (cm_hash k)) = (k, v) # cm_after hist (cm_hash k)"
    using n(1) en(1,2) m(2) by (simp add: cm_pairs_def)
  ultimately show ?thesis using mem m n(1) en(3) by (simp add: cm_mem_def)
qed

lemma cm_read_Some: "h a = Some en \<Longrightarrow> cm_heap s = h \<Longrightarrow> cm_read s (Some a) = Inr en"
  by (simp add: cm_read_def)

lemma cm_inv_walk:
  assumes inv: "cm_inv calls s ch hist" and t: "t < 2"
    and x: "cm_thread_ok (cm_heap s) (cm_head s) ch x" "cm_own x = None" "cm_holds x = cm_holds (cm_thr s t)" "cm_rest x = cm_rest (cm_thr s t)"
  shows "cm_inv calls (cm_set t x s) ch hist"
  using cm_inv_local [OF inv t, of "cm_heap s" x] x cm_inv_parts(1) [OF inv] by (simp add: cm_mem_def)

text \<open>A store to the thread's own entry.\<close>

lemma cm_inv_own:
  assumes inv: "cm_inv calls s ch hist" and t: "t < 2" and own: "cm_own (cm_thr s t) = Some n"
    and x: "x = (cm_thr s t)\<lparr>cm_pc := pc\<rparr>" "pc \<in> {CmValue, CmLink, CmPublish}"
    and pos: "\<forall>a\<in>set (ch (cm_idx x)). ((cm_heap s)(n \<mapsto> en)) a = cm_heap s a \<Longrightarrow>
      cm_position ((cm_heap s)(n \<mapsto> en)) (cm_head s (cm_idx x)) (ch (cm_idx x)) x"
  shows "cm_inv calls (cm_set t x (s\<lparr>cm_heap := (cm_heap s)(n \<mapsto> en)\<rparr>)) ch hist"
proof -
  have n: "\<forall>b. n \<notin> set (ch b)" "\<And>u. u < 2 \<Longrightarrow> u \<noteq> t \<Longrightarrow> cm_own (cm_thr s u) \<noteq> Some n"
    using cm_inv_parts(2) [OF inv] own t unfolding cm_private_def by blast+
  have pc: "cm_pc (cm_thr s t) \<in> {CmKey, CmValue, CmLink, CmPublish}" using own by (auto simp: cm_own_def split: if_splits)
  have new: "cm_own x = Some n" using own pc x by (auto simp: cm_own_def split: if_splits)
  have frame: "\<forall>b. \<forall>a\<in>set (ch b). ((cm_heap s)(n \<mapsto> en)) a = cm_heap s a" using n(1) by auto
  have fin: "finite (dom ((cm_heap s)(n \<mapsto> en)))" using cm_inv_parts(1) [OF inv] by (simp add: cm_mem_def)
  show ?thesis
  proof (rule cm_inv_local [OF inv t fin frame])
    show "cm_thread_ok ((cm_heap s)(n \<mapsto> en)) (cm_head s) ch x"
      using cm_inv_parts(5) [OF inv t] pos frame x pc by (auto simp: cm_thread_ok_def)
  qed (use n new x pc in \<open>auto simp: cm_holds_def cm_rest_def\<close>)
qed

text \<open>A step does not fault, and the invariant holds after it.\<close>

definition cm_good :: "(nat \<Rightarrow> (string \<times> int) list) \<Rightarrow> cm_state res option \<Rightarrow> bool" where
  "cm_good calls r \<longleftrightarrow> (case r of None \<Rightarrow> True | Some (Inl f) \<Rightarrow> False | Some (Inr s') \<Rightarrow> \<exists>ch hist. cm_inv calls s' ch hist)"

lemma cm_good_simps [simp]: "cm_good calls None" "\<not> cm_good calls (Some (Inl f))"
  "cm_good calls (Some (Inr s')) \<longleftrightarrow> (\<exists>ch hist. cm_inv calls s' ch hist)"
  by (simp_all add: cm_good_def)

lemma cm_goodI: "cm_inv calls s' ch hist \<Longrightarrow> cm_good calls (Some (Inr s'))"
  by (simp only: cm_good_simps) blast

lemma cm_inside:
  assumes inv: "cm_inv calls s ch hist" and t: "t < 2" and todo: "cm_todo (cm_thr s t) = (key, val) # rest" and pc: "cm_pc (cm_thr s t) \<noteq> CmLock"
  shows "cm_idx (cm_thr s t) = cm_hash key" "cm_position (cm_heap s) (cm_head s (cm_hash key)) (ch (cm_hash key)) (cm_thr s t)"
    "cm_path (cm_heap s) (cm_head s b) (ch b)" "cm_holds (cm_thr s t) (cm_hash key)"
proof -
  show idx: "cm_idx (cm_thr s t) = cm_hash key" using cm_inv_parts(5) [OF inv t] todo pc by (simp add: cm_thread_ok_def)
  show "cm_position (cm_heap s) (cm_head s (cm_hash key)) (ch (cm_hash key)) (cm_thr s t)"
    using cm_inv_parts(5) [OF inv t, unfolded cm_thread_ok_def] pc unfolding idx by blast
qed (use cm_inv_parts(1) [OF inv] cm_inv_parts(5) [OF inv t] todo pc in \<open>simp_all add: cm_thread_ok_def cm_mem_def cm_holds_def\<close>)

lemmas cm_thread_defs = cm_thread_ok_def cm_position_def cm_own_def cm_holds_def cm_rest_def

lemma cm_step_lock:
  assumes inv: "cm_inv calls s ch hist" and t: "t < 2" and todo: "cm_todo (cm_thr s t) = (key, val) # rest" and pc: "cm_pc (cm_thr s t) = CmLock"
  shows "cm_good calls (cm_insert_step t a junk key val s)"
proof (cases "cm_lock s (cm_hash key)")
  case None
  let ?x = "(cm_thr s t)\<lparr>cm_pc := CmHead, cm_idx := cm_hash key\<rparr>"
  have "\<not> cm_holds (cm_thr s u) (cm_hash key)" if "u < 2" for u using cm_inv_parts(3) [OF inv] None that unfolding cm_locks_def by (metis option.distinct(1))
  then have "cm_locks (cm_set t ?x (s\<lparr>cm_lock := (cm_lock s)(cm_hash key := Some t)\<rparr>))"
    using cm_inv_parts(3) [OF inv] t pc by (auto simp: cm_locks_def cm_set_def cm_holds_def)
  then have "cm_inv calls (cm_set t ?x (s\<lparr>cm_lock := (cm_lock s)(cm_hash key := Some t)\<rparr>)) ch hist"
    using todo pc by (intro cm_inv_locking [OF inv t]) (simp_all add: cm_thread_defs)
  then show ?thesis using pc None by (auto simp: cm_insert_step_def Let_def)
qed (use pc in \<open>simp add: cm_insert_step_def Let_def\<close>)

lemma cm_step_unlock:
  assumes inv: "cm_inv calls s ch hist" and t: "t < 2" and todo: "cm_todo (cm_thr s t) = (key, val) # rest" and pc: "cm_pc (cm_thr s t) = CmUnlock"
  shows "cm_good calls (cm_insert_step t a junk key val s)"
proof -
  let ?x = "(cm_thr s t)\<lparr>cm_pc := CmLock, cm_todo := tl (cm_todo (cm_thr s t))\<rparr>"
  have "cm_locks (cm_set t ?x (s\<lparr>cm_lock := (cm_lock s)(cm_idx (cm_thr s t) := None)\<rparr>))"
    unfolding cm_locks_def
  proof (intro allI)
    fix b u
    show "cm_lock (cm_set t ?x (s\<lparr>cm_lock := (cm_lock s)(cm_idx (cm_thr s t) := None)\<rparr>)) b = Some u \<longleftrightarrow>
        u < 2 \<and> cm_holds (cm_thr (cm_set t ?x (s\<lparr>cm_lock := (cm_lock s)(cm_idx (cm_thr s t) := None)\<rparr>)) u) b"
      using cm_inv_parts(3) [OF inv] t pc cm_other_bucket [OF inv t, of "cm_idx (cm_thr s t)" u b]
      by (cases "u = t") (auto simp: cm_locks_def cm_set_def cm_holds_def)
  qed
  then have "cm_inv calls (cm_set t ?x (s\<lparr>cm_lock := (cm_lock s)(cm_idx (cm_thr s t) := None)\<rparr>)) ch hist"
    using pc by (intro cm_inv_locking [OF inv t]) (simp_all add: cm_thread_defs)
  then show ?thesis using pc by (auto simp: cm_insert_step_def Let_def)
qed

lemma cm_step_walk:
  assumes inv: "cm_inv calls s ch hist" and t: "t < 2" and todo: "cm_todo (cm_thr s t) = (key, val) # rest"
    and pc: "cm_pc (cm_thr s t) \<in> {CmHead, CmNext}"
  shows "cm_good calls (cm_insert_step t a junk key val s)"
proof -
  let ?x = "cm_thr s t"
  have pc': "cm_pc ?x \<noteq> CmLock" using pc by auto
  note x = cm_inside [OF inv t todo pc']
  consider "cm_pc ?x = CmHead" | "cm_pc ?x = CmNext" using pc by auto
  then show ?thesis
  proof cases
    case 1
    have "cm_inv calls (cm_set t (?x\<lparr>cm_pc := CmLoop, cm_e := cm_head s (cm_idx ?x)\<rparr>) s) ch hist"
      using 1 x(1,3) todo by (intro cm_inv_walk [OF inv t]) (auto simp: cm_thread_defs fun_eq_iff intro: exI [of _ "[]"])
    then show ?thesis using 1 by (auto simp: cm_insert_step_def Let_def)
  next
    case 2
    then obtain pre b suf where p: "ch (cm_hash key) = pre @ b # suf" "cm_path (cm_heap s) (cm_e ?x) (b # suf)" "key \<notin> cm_keys (cm_heap s) (pre @ [b])"
      using x(2) todo by (auto simp: cm_position_def)
    then obtain en where en: "cm_e ?x = Some b" "cm_heap s b = Some en" "cm_path (cm_heap s) (ce_next en) suf" by auto
    then have "\<exists>pre suf. ch (cm_hash key) = pre @ suf \<and> cm_path (cm_heap s) (ce_next en) suf \<and> key \<notin> cm_keys (cm_heap s) pre"
      using p(1,3) by (intro exI [of _ "pre @ [b]"] exI [of _ suf]) simp
    then have "cm_inv calls (cm_set t (?x\<lparr>cm_pc := CmLoop, cm_e := ce_next en\<rparr>) s) ch hist"
      using 2 x(1) todo by (intro cm_inv_walk [OF inv t]) (simp_all add: cm_thread_defs fun_eq_iff)
    then show ?thesis using 2 en by (auto simp: cm_insert_step_def Let_def cm_read_def)
  qed
qed

lemma cm_step_loop:
  assumes inv: "cm_inv calls s ch hist" and t: "t < 2" and todo: "cm_todo (cm_thr s t) = (key, val) # rest" and pc: "cm_pc (cm_thr s t) = CmLoop"
  shows "cm_good calls (cm_insert_step t a junk key val s)"
proof -
  let ?x = "cm_thr s t"
  have pc': "cm_pc ?x \<noteq> CmLock" using pc by simp
  note x = cm_inside [OF inv t todo pc']
  obtain pre suf where p: "ch (cm_hash key) = pre @ suf" "cm_path (cm_heap s) (cm_e ?x) suf" "key \<notin> cm_keys (cm_heap s) pre"
    using x(2) pc todo by (auto simp: cm_position_def)
  show ?thesis
  proof (cases suf)
    case Nil
    then have "cm_inv calls (cm_set t (?x\<lparr>cm_pc := CmAlloc\<rparr>) s) ch hist"
      using p x(1) pc todo by (intro cm_inv_walk [OF inv t]) (auto simp: cm_thread_defs fun_eq_iff)
    then show ?thesis using Nil p pc by (auto simp: cm_insert_step_def Let_def)
  next
    case (Cons b suf')
    then obtain en where en: "cm_e ?x = Some b" "cm_heap s b = Some en" using p(2) by auto
    have "cm_inv calls (cm_set t (?x\<lparr>cm_pc := if ce_key en = key then CmStore else CmNext\<rparr>) s) ch hist"
      using p x(1) pc todo Cons en by (intro cm_inv_walk [OF inv t]) (auto simp: cm_thread_defs fun_eq_iff)
    moreover have "cm_insert_step t a junk key val s = Some (Inr (cm_set t (?x\<lparr>cm_pc := if ce_key en = key then CmStore else CmNext\<rparr>) s))"
      using en pc by (simp add: cm_insert_step_def Let_def cm_read_def)
    ultimately show ?thesis using cm_goodI by simp
  qed
qed

lemma cm_step_alloc:
  assumes inv: "cm_inv calls s ch hist" and t: "t < 2" and todo: "cm_todo (cm_thr s t) = (key, val) # rest" and pc: "cm_pc (cm_thr s t) = CmAlloc"
  shows "cm_good calls (cm_insert_step t a junk key val s)"
proof (cases "cm_heap s a")
  case None
  let ?x = "(cm_thr s t)\<lparr>cm_pc := CmKey, cm_new := Some a\<rparr>" and ?h = "(cm_heap s)(a \<mapsto> junk)"
  have pc': "cm_pc (cm_thr s t) \<noteq> CmLock" using pc by simp
  note x = cm_inside [OF inv t todo pc']
  have out: "a \<notin> set (ch b)" for b using cm_path_dom [OF x(3)] None by blast
  have own: "cm_own (cm_thr s u) \<noteq> Some a" if "u < 2" for u using cm_inv_parts(2) [OF inv] None that unfolding cm_private_def by blast
  have "cm_keys ?h (ch (cm_hash key)) = cm_keys (cm_heap s) (ch (cm_hash key))" using out by (intro image_cong) auto
  then have ok: "cm_thread_ok ?h (cm_head s) ch ?x" using pc x(1,2) todo by (simp add: cm_thread_ok_def cm_position_def)
  have "cm_inv calls (cm_set t ?x (s\<lparr>cm_heap := ?h\<rparr>)) ch hist"
  proof (rule cm_inv_local [OF inv t _ _ _ ok])
    show "finite (dom ?h)" using cm_inv_parts(1) [OF inv] by (simp add: cm_mem_def)
    show "\<forall>b. \<forall>c\<in>set (ch b). ?h c = cm_heap s c" using out by auto
    show "cm_holds ?x = cm_holds (cm_thr s t)" "cm_rest ?x = cm_rest (cm_thr s t)" using pc by (simp_all add: cm_holds_def cm_rest_def fun_eq_iff)
    show "?h n \<noteq> None \<and> (\<forall>b. n \<notin> set (ch b)) \<and> (\<forall>u<2. u \<noteq> t \<longrightarrow> cm_own (cm_thr s u) \<noteq> Some n)" if "cm_own ?x = Some n" for n
      using that out own by (auto simp: cm_own_def)
    show "?h n = cm_heap s n" if "u < 2" "u \<noteq> t" "cm_own (cm_thr s u) = Some n" for u n using own [OF that(1)] that(3) by auto
  qed
  then show ?thesis using pc None by (auto simp: cm_insert_step_def Let_def)
qed (use pc in \<open>simp add: cm_insert_step_def Let_def\<close>)

lemma cm_step_fill:
  assumes inv: "cm_inv calls s ch hist" and t: "t < 2" and todo: "cm_todo (cm_thr s t) = (key, val) # rest"
    and pc: "cm_pc (cm_thr s t) \<in> {CmKey, CmValue, CmLink}"
  shows "cm_good calls (cm_insert_step t a junk key val s)"
proof -
  let ?x = "cm_thr s t"
  have pc': "cm_pc ?x \<noteq> CmLock" using pc by auto
  note x = cm_inside [OF inv t todo pc']
  obtain n en where n: "cm_new ?x = Some n" "cm_heap s n = Some en" and k: "key \<notin> cm_keys (cm_heap s) (ch (cm_hash key))"
    and en: "cm_pc ?x \<in> {CmValue, CmLink} \<longrightarrow> ce_key en = key" "cm_pc ?x = CmLink \<longrightarrow> ce_value en = val"
    using x(2) pc todo by (auto simp: cm_position_def)
  have own: "cm_own ?x = Some n" using n pc by (auto simp: cm_own_def)
  have keys: "key \<notin> cm_keys ((cm_heap s)(n \<mapsto> e)) (ch (cm_hash key))" if "\<forall>a\<in>set (ch (cm_hash key)). ((cm_heap s)(n \<mapsto> e)) a = cm_heap s a" for e
    using k that by auto
  let ?s = "\<lambda>pc e. cm_set t (?x\<lparr>cm_pc := pc\<rparr>) (s\<lparr>cm_heap := (cm_heap s)(n \<mapsto> e)\<rparr>)"
  have "cm_pc ?x = CmKey \<Longrightarrow> cm_inv calls (?s CmValue (en\<lparr>ce_key := key\<rparr>)) ch hist"
    by (rule cm_inv_own [OF inv t own refl]) (use keys n todo x(1) in \<open>simp_all add: cm_position_def\<close>)
  moreover have "cm_pc ?x = CmValue \<Longrightarrow> cm_inv calls (?s CmLink (en\<lparr>ce_value := val\<rparr>)) ch hist"
    by (rule cm_inv_own [OF inv t own refl]) (use keys n en todo x(1) in \<open>simp_all add: cm_position_def\<close>)
  moreover have "cm_pc ?x = CmLink \<Longrightarrow> cm_inv calls (?s CmPublish (en\<lparr>ce_next := cm_head s (cm_hash key)\<rparr>)) ch hist"
    by (rule cm_inv_own [OF inv t own refl]) (use keys n en todo x(1) in \<open>simp_all add: cm_position_def\<close>)
  ultimately show ?thesis using pc n x(1)
    by (elim insertE emptyE) (simp_all add: cm_insert_step_def Let_def cm_write_def cm_read_def cm_goodI del: cm_good_simps(3))
qed

lemma cm_step_effect:
  assumes inv: "cm_inv calls s ch hist" and t: "t < 2" and todo: "cm_todo (cm_thr s t) = (key, val) # rest"
    and pc: "cm_pc (cm_thr s t) \<in> {CmStore, CmPublish}"
  shows "cm_good calls (cm_insert_step t a junk key val s)"
proof -
  let ?x = "cm_thr s t"
  have pc': "cm_pc ?x \<noteq> CmLock" "cm_pc ?x \<noteq> CmUnlock" using pc by auto
  note x = cm_inside [OF inv t todo pc'(1)]
  note mem = cm_inv_parts(1) [OF inv]
  consider "cm_pc ?x = CmStore" | "cm_pc ?x = CmPublish" using pc by auto
  then show ?thesis
  proof cases
    case 1
    then obtain pre b suf en where p: "ch (cm_hash key) = pre @ b # suf" "cm_e ?x = Some b" "cm_heap s b = Some en" "ce_key en = key" "key \<notin> cm_keys (cm_heap s) pre"
      using x(2) todo by (auto simp: cm_position_def)
    have out: "b \<notin> set (ch b')" if "b' \<noteq> cm_hash key" for b' using cm_mem_disjoint [OF mem, of b "cm_hash key" b'] p(1) that by auto
    have own: "cm_own (cm_thr s u) \<noteq> Some b" if "u < 2" for u using cm_inv_parts(2) [OF inv] p(1) that unfolding cm_private_def by (metis in_set_conv_decomp)
    have "cm_inv calls (cm_set t (?x\<lparr>cm_pc := CmUnlock\<rparr>) (s\<lparr>cm_heap := (cm_heap s)(b \<mapsto> en\<lparr>ce_value := val\<rparr>), cm_head := cm_head s\<rparr>)) ch (hist @ [(key, val)])"
      by (rule cm_inv_effect [OF inv t x(4) cm_mem_store [OF mem p(1,3-5)] _ _ refl pc'(2) todo]) (use out own in auto)
    then show ?thesis using 1 p(2,3) by (auto simp: cm_insert_step_def Let_def cm_write_def cm_read_def)
  next
    case 2
    then obtain n en where n: "cm_new ?x = Some n" "cm_heap s n = Some en" and k: "key \<notin> cm_keys (cm_heap s) (ch (cm_hash key))"
      and en: "ce_key en = key" "ce_value en = val" "ce_next en = cm_head s (cm_hash key)"
      using x(2) todo by (auto simp: cm_position_def)
    have own: "cm_own ?x = Some n" using n 2 by (simp add: cm_own_def)
    then have out: "\<forall>b. n \<notin> set (ch b)" "\<And>u. u < 2 \<Longrightarrow> u \<noteq> t \<Longrightarrow> cm_own (cm_thr s u) \<noteq> Some n"
      using cm_inv_parts(2) [OF inv] t unfolding cm_private_def by blast+
    have "cm_inv calls (cm_set t (?x\<lparr>cm_pc := CmUnlock\<rparr>) (s\<lparr>cm_heap := cm_heap s, cm_head := (cm_head s)(cm_hash key := Some n)\<rparr>))
        (ch(cm_hash key := n # ch (cm_hash key))) (hist @ [(key, val)])"
      by (rule cm_inv_effect [OF inv t x(4) cm_mem_publish [OF mem n(2) out(1) en k] _ _ refl pc'(2) todo]) (use out(2) in auto)
    then show ?thesis using 2 n x(1) by (auto simp: cm_insert_step_def Let_def)
  qed
qed

lemma cm_step_good:
  assumes inv: "cm_inv calls s ch hist" and t: "t < 2"
  shows "cm_good calls (cm_thread_step t a junk s)"
proof (cases "cm_todo (cm_thr s t)")
  case (Cons c rest)
  obtain key val where c: "c = (key, val)" by (cases c)
  note todo = Cons [unfolded c]
  have "cm_good calls (cm_insert_step t a junk key val s)"
    using cm_step_lock [OF inv t todo] cm_step_unlock [OF inv t todo] cm_step_walk [OF inv t todo] cm_step_loop [OF inv t todo]
      cm_step_alloc [OF inv t todo] cm_step_fill [OF inv t todo] cm_step_effect [OF inv t todo] by (cases "cm_pc (cm_thr s t)") simp_all
  then show ?thesis using Cons c by (simp add: cm_thread_step_def)
qed (simp add: cm_thread_step_def)

section \<open>Progress\<close>

text \<open>The number of accesses a thread can still make when no chain gets longer than \<open>n\<close>.\<close>

definition cm_rank :: "nat \<Rightarrow> (nat \<rightharpoonup> cm_entry) \<Rightarrow> cm_thread \<Rightarrow> nat" where
  "cm_rank n h x =
     (case cm_pc x of
        CmLock \<Rightarrow> 2 * n + 10 | CmHead \<Rightarrow> 2 * n + 9 | CmLoop \<Rightarrow> 2 * cm_dist h (cm_e x) + 8 | CmNext \<Rightarrow> 2 * cm_dist h (cm_e x) + 7
      | CmAlloc \<Rightarrow> 7 | CmKey \<Rightarrow> 6 | CmValue \<Rightarrow> 5 | CmLink \<Rightarrow> 4 | CmPublish \<Rightarrow> 3 | CmStore \<Rightarrow> 2 | CmUnlock \<Rightarrow> 1)"

definition cm_work :: "nat \<Rightarrow> (nat \<rightharpoonup> cm_entry) \<Rightarrow> cm_thread \<Rightarrow> nat" where
  "cm_work n h x = (if cm_todo x = [] then 0 else (length (cm_todo x) - 1) * (2 * n + 11) + cm_rank n h x)"

definition cm_measure :: "nat \<Rightarrow> cm_state \<Rightarrow> nat" where
  "cm_measure n s = cm_work n (cm_heap s) (cm_thr s 0) + cm_work n (cm_heap s) (cm_thr s 1)"

lemma cm_history_length: "cm_history calls thr hist \<Longrightarrow> length hist \<le> length (calls 0) + length (calls 1)"
  using length_shuffles by (fastforce simp: cm_history_def)

lemma cm_chain_length:
  assumes "cm_inv calls s ch hist"
  shows "length (ch b) \<le> length (calls 0) + length (calls 1)"
proof -
  have "cm_pairs (cm_heap s) (ch b) = cm_after hist b" using cm_inv_parts(1) [OF assms] by (simp add: cm_mem_def)
  then have "length (ch b) = length (cm_after hist b)" using cm_pairs_length by metis
  also have "\<dots> \<le> length (calls 0) + length (calls 1)"
    using cm_after_length [of hist b] cm_history_length [OF cm_inv_parts(4) [OF assms]] by simp
  finally show ?thesis .
qed

text \<open>A thread that is walking along its chain is not disturbed by the other one.\<close>

lemma cm_walk_path:
  assumes "cm_inv calls s ch hist" and "t < 2" and "cm_pc (cm_thr s t) \<in> {CmLoop, CmNext}"
  obtains pre suf where "ch (cm_idx (cm_thr s t)) = pre @ suf" "cm_path (cm_heap s) (cm_e (cm_thr s t)) suf"
  using cm_inv_parts(5) [OF assms(1,2)] assms(3) by (auto simp: cm_thread_ok_def cm_position_def)

lemma cm_step_next:
  assumes inv: "cm_inv calls s ch hist" and t: "t < 2" and step: "cm_thread_step t a junk s = Some (Inr s')" and c: "c \<in> set (ch b)"
  shows "map_option ce_next (cm_heap s' c) = map_option ce_next (cm_heap s c)"
proof -
  have "cm_heap s c \<noteq> None" using cm_path_dom [of "cm_heap s" "cm_head s b" "ch b"] cm_inv_parts(1) [OF inv] c by (simp add: cm_mem_def)
  moreover have "cm_own (cm_thr s t) \<noteq> Some c" using cm_inv_parts(2) [OF inv] t c unfolding cm_private_def by blast
  ultimately show ?thesis using step
    by (auto simp: cm_thread_step_def cm_insert_step_def Let_def cm_set_def cm_write_def cm_read_def cm_own_def
        split: list.splits cm_pc.splits if_splits option.splits)
qed

lemma cm_work_other:
  assumes inv: "cm_inv calls s ch hist" and t: "t < 2" and step: "cm_thread_step t a junk s = Some (Inr s')" and u: "u < 2" "u \<noteq> t"
  shows "cm_work n (cm_heap s') (cm_thr s' u) = cm_work n (cm_heap s) (cm_thr s u)"
proof -
  have thr: "cm_thr s' u = cm_thr s u" using step u(2)
    by (auto simp: cm_thread_step_def cm_insert_step_def Let_def cm_set_def cm_write_def cm_read_def
        split: list.splits cm_pc.splits if_splits option.splits)
  have "cm_dist (cm_heap s') (cm_e (cm_thr s u)) = cm_dist (cm_heap s) (cm_e (cm_thr s u))" if walking: "cm_pc (cm_thr s u) \<in> {CmLoop, CmNext}"
  proof -
    obtain pre suf where p: "ch (cm_idx (cm_thr s u)) = pre @ suf" "cm_path (cm_heap s) (cm_e (cm_thr s u)) suf"
      using cm_walk_path [OF inv u(1) walking] by blast
    have "cm_path (cm_heap s') (cm_e (cm_thr s u)) suf = cm_path (cm_heap s) (cm_e (cm_thr s u)) suf"
      by (intro cm_path_cong ballI cm_step_next [OF inv t step, of _ "cm_idx (cm_thr s u)"]) (simp add: p(1))
    then show ?thesis using p(2) by (simp add: cm_dist_path)
  qed
  then have "cm_rank n (cm_heap s') (cm_thr s u) = cm_rank n (cm_heap s) (cm_thr s u)" unfolding cm_rank_def by (cases "cm_pc (cm_thr s u)") simp_all
  then show ?thesis by (simp add: cm_work_def thr)
qed

lemma cm_work_less:
  assumes inv: "cm_inv calls s ch hist" and t: "t < 2" and step: "cm_thread_step t a junk s = Some (Inr s')"
    and n: "n = length (calls 0) + length (calls 1)"
  shows "cm_work n (cm_heap s') (cm_thr s' t) < cm_work n (cm_heap s) (cm_thr s t)"
proof -
  let ?x = "cm_thr s t"
  obtain key val rest where todo: "cm_todo ?x = (key, val) # rest" using step by (auto simp: cm_thread_step_def split: list.splits)
  with step have st: "cm_insert_step t a junk key val s = Some (Inr s')" by (simp add: cm_thread_step_def)
  have head: "cm_dist (cm_heap s) (cm_head s b) \<le> n" for b
    using cm_dist_path cm_inv_parts(1) [OF inv] cm_chain_length [OF inv, of b] n by (metis cm_mem_def)
  have walk: "cm_dist (cm_heap s) (cm_e ?x) = Suc (cm_dist (cm_heap s) (ce_next en))"
    if walking: "cm_pc ?x \<in> {CmLoop, CmNext}" "cm_e ?x = Some b" "cm_heap s b = Some en" for b en
  proof -
    obtain pre suf where "cm_path (cm_heap s) (cm_e ?x) suf" using cm_walk_path [OF inv t walking(1)] by blast
    then obtain suf' where "cm_path (cm_heap s) (cm_e ?x) (b # suf')" "cm_path (cm_heap s) (ce_next en) suf'" using walking(2,3) by (cases suf) auto
    then show ?thesis using cm_dist_path by (metis length_Cons)
  qed
  show ?thesis
  proof (cases "cm_pc ?x")
    case CmUnlock
    then show ?thesis using st todo by (cases rest) (auto simp: cm_insert_step_def cm_set_def Let_def cm_work_def cm_rank_def)
  qed (use st todo head [of "cm_idx ?x"] walk in \<open>auto simp: cm_insert_step_def cm_set_def Let_def cm_work_def cm_rank_def cm_write_def cm_read_def
      split: if_splits option.splits\<close>)
qed

lemma cm_measure_less:
  assumes inv: "cm_inv calls s ch hist" and "cm_step s s'"
  shows "cm_measure (length (calls 0) + length (calls 1)) s' < cm_measure (length (calls 0) + length (calls 1)) s"
  using assms(2)
proof cases
  case (cm_stepI t a junk)
  then have "t = 0 \<or> t = 1" by auto
  then show ?thesis unfolding cm_measure_def
    using cm_work_less [OF inv cm_stepI refl] cm_work_other [OF inv cm_stepI, of "1 - t"] by auto
qed

text \<open>A thread inside \<^verbatim>\<open>hashmap_insert\<close> can always go on; so a thread that waits for a lock waits for one that can.\<close>

lemma cm_enabled:
  assumes inv: "cm_inv calls s ch hist" and t: "t < 2" and todo: "cm_todo (cm_thr s t) \<noteq> []"
    and free: "cm_pc (cm_thr s t) = CmLock \<longrightarrow> cm_lock s (cm_hash (cm_k (cm_thr s t))) = None"
  shows "\<exists>s'. cm_step s s'"
proof -
  have "finite (dom (cm_heap s))" using cm_inv_parts(1) [OF inv] by (simp add: cm_mem_def)
  then obtain a where a: "cm_heap s a = None" using ex_new_if_finite [OF infinite_UNIV_nat] by blast
  fix junk
  have "cm_thread_step t a junk s \<noteq> None"
    using todo free a by (cases "cm_pc (cm_thr s t)") (auto simp: cm_thread_step_def cm_insert_step_def Let_def split: list.splits)
  moreover have "cm_good calls (cm_thread_step t a junk s)" by (rule cm_step_good [OF inv t])
  ultimately obtain s' where "cm_thread_step t a junk s = Some (Inr s')" by (auto simp: cm_good_def split: option.splits sum.splits)
  then show ?thesis using t cm_stepI by blast
qed

lemma cm_stuck:
  assumes inv: "cm_inv calls s ch hist" and stuck: "\<nexists>s'. cm_step s s'" and t: "t < 2"
  shows "cm_todo (cm_thr s t) = []"
proof (rule ccontr)
  assume todo: "cm_todo (cm_thr s t) \<noteq> []"
  then obtain u where "cm_lock s (cm_hash (cm_k (cm_thr s t))) = Some u" using cm_enabled [OF inv t] stuck by (metis not_None_eq)
  then have u: "u < 2" "cm_pc (cm_thr s u) \<noteq> CmLock" using cm_inv_parts(3) [OF inv] by (auto simp: cm_locks_def cm_holds_def)
  then have "cm_todo (cm_thr s u) \<noteq> []" using cm_inv_parts(5) [OF inv u(1)] by (simp add: cm_thread_ok_def)
  then show False using cm_enabled [OF inv u(1)] u(2) stuck by blast
qed

lemma cm_inv_reachable: "cm_reachable calls s \<Longrightarrow> \<exists>ch hist. cm_inv calls s ch hist"
  unfolding cm_reachable_def
proof (induction rule: rtranclp_induct)
  case base
  show ?case using cm_inv_start by blast
next
  case (step s s')
  then obtain ch hist t a junk where "cm_inv calls s ch hist" "t < 2" "cm_thread_step t a junk s = Some (Inr s')"
    by (auto elim!: cm_step.cases)
  then show ?case using cm_step_good [of calls s ch hist t a junk] by simp
qed

lemma cm_finished:
  assumes inv: "cm_inv calls s ch hist" and stuck: "\<nexists>s'. cm_step s s'"
  shows "hist \<in> shuffles (calls 0) (calls 1)" "cm_lookup s key = Some (Inr (map_of (rev hist) key))"
proof -
  have todo: "cm_todo (cm_thr s t) = []" if "t < 2" for t by (rule cm_stuck [OF inv stuck that])
  then have pc: "cm_pc (cm_thr s t) = CmLock" if "t < 2" for t using cm_inv_parts(5) [OF inv that] that by (auto simp: cm_thread_ok_def)
  show "hist \<in> shuffles (calls 0) (calls 1)" using cm_inv_parts(4) [OF inv] todo [of 0] todo [of 1] by (auto simp: cm_history_def cm_rest_def)
  have "cm_lock s b \<noteq> Some t" for b t using cm_inv_parts(3) [OF inv] pc [of t] by (auto simp: cm_locks_def cm_holds_def)
  then have "cm_lock s b = None" for b by (cases "cm_lock s b") auto
  then have "cm_lookup s key = cm_scan s key (cm_head s (cm_hash key))" by (simp add: cm_lookup_def)
  also have "\<dots> = Some (Inr (map_of (cm_after hist (cm_hash key)) key))"
    using cm_inv_parts(1) [OF inv] cm_scan_path [of s "cm_head s (cm_hash key)" "ch (cm_hash key)" key] by (simp add: cm_mem_def)
  finally show "cm_lookup s key = Some (Inr (map_of (rev hist) key))" by (simp add: cm_after_find [symmetric] cm_find_def)
qed

lemma cm_digit_inj: "d < 10 \<Longrightarrow> e < 10 \<Longrightarrow> cm_digit d = cm_digit e \<Longrightarrow> d = e"
  by (drule arg_cong [of _ _ "of_char :: char \<Rightarrow> nat"]) (simp add: cm_digit_def of_char_of)

lemma cm_key_inj:
  assumes "i < 100" and "j < 100" and "cm_key i = cm_key j"
  shows "i = j"
proof -
  have "i div 10 < 10" "j div 10 < 10" using assms(1,2) by auto
  then have "i = j \<or> i div 10 = j div 10 \<and> i mod 10 = j mod 10"
    using assms(3) cm_digit_inj [of i j] cm_digit_inj [of "i mod 10" "j mod 10"] cm_digit_inj [of "i div 10" "j div 10"]
    by (auto simp: cm_key_def split: if_splits)
  then show ?thesis by (metis div_mult_mod_eq)
qed

lemma cm_worker_set: "set cm_worker = (\<lambda>i. (cm_key i, int i)) ` {0..<100}"
  unfolding cm_worker_def by (simp only: set_map set_upt)

lemma cm_worker_lookup:
  assumes "hist \<in> shuffles cm_worker cm_worker" and "i < 100"
  shows "map_of (rev hist) (cm_key i) = Some (int i)"
proof -
  have st: "set hist = set cm_worker" using set_shuffles [OF assms(1)] by simp
  have "(cm_key i, int i) \<in> set hist" using assms(2) unfolding st cm_worker_set by auto
  moreover have "v = int i" if "(cm_key i, v) \<in> set hist" for v using that cm_key_inj [OF assms(2)] unfolding st cm_worker_set by auto
  ultimately have "cm_find (cm_after hist) (cm_key i) = Some (int i)" by (rule cm.load_functional)
  then show ?thesis by (simp only: cm_after_find)
qed

lemma cm_no_fault:
  assumes "cm_reachable calls s" and "t < 2"
  shows "cm_thread_step t a junk s \<noteq> Some (Inl f)"
  using cm_inv_reachable [OF assms(1)] cm_step_good [OF _ assms(2), of calls s _ _ a junk] by force

lemma cm_terminates: "wf {(s', s). cm_reachable calls s \<and> cm_step s s'}"
proof -
  have "{(s', s). cm_reachable calls s \<and> cm_step s s'} \<subseteq> measure (cm_measure (length (calls 0) + length (calls 1)))"
    using cm_inv_reachable cm_measure_less by fastforce
  then show ?thesis by (rule wf_subset [OF wf_measure])
qed

lemma cm_final:
  assumes s: "cm_reachable calls s" "\<nexists>s'. cm_step s s'"
  shows "\<exists>order \<in> shuffles (calls 0) (calls 1). \<forall>key. cm_lookup s key = Some (Inr (map_of (rev order) key))"
    "\<exists>as. cm_path (cm_heap s) (cm_head s b) as \<and> distinct (map (\<lambda>a. ce_key (the (cm_heap s a))) as)"
proof -
  obtain ch hist where inv: "cm_inv calls s ch hist" using cm_inv_reachable [OF s(1)] by blast
  show "\<exists>order \<in> shuffles (calls 0) (calls 1). \<forall>key. cm_lookup s key = Some (Inr (map_of (rev order) key))"
    using cm_finished [OF inv s(2)] by blast
  show "\<exists>as. cm_path (cm_heap s) (cm_head s b) as \<and> distinct (map (\<lambda>a. ce_key (the (cm_heap s a))) as)"
    using cm_mem_distinct [OF cm_inv_parts(1) [OF inv]] cm_inv_parts(1) [OF inv] unfolding cm_mem_def by blast
qed

lemma cm_worker_final:
  assumes s: "cm_reachable (\<lambda>_. cm_worker) s" "\<nexists>s'. cm_step s s'"
  shows "i < 100 \<Longrightarrow> cm_lookup s (cm_key i) = Some (Inr (Some (int i)))" "cm_main s = Some (Inr [Txt ''key42 -> '', Num 42, Txt ''\<newline>''])"
proof -
  show all: "cm_lookup s (cm_key i) = Some (Inr (Some (int i)))" if "i < 100" for i using cm_final(1) [OF s] cm_worker_lookup [OF _ that] by auto
  have "cm_key 42 = ''key42''" by code_simp
  then show "cm_main s = Some (Inr [Txt ''key42 -> '', Num 42, Txt ''\<newline>''])" using all [of 42] by (simp add: cm_main_def)
qed

text \<open>
  C34. The map with bucket locks is linearizable: whatever calls of \<^verbatim>\<open>hashmap_insert\<close> two threads make on it, and however their
  accesses interleave, no access goes through a null or dangling pointer, every run ends (there is no deadlock), and at
  the end there is one order of all the calls, an interleaving of those of the two threads, such that \<^verbatim>\<open>hashmap_lookup\<close> returns for every key the value that the last
  call in that order with the key has given it, or finds nothing if there is none; every chain holds a key at most once. With the calls of
  \<^verbatim>\<open>worker\<close>, all hundred keys end up bound to their numbers, and \<^verbatim>\<open>main\<close> prints the binding of \<^verbatim>\<open>key42\<close>.
\<close>
theorem concurrent_hashmap_linearizable:
  "(\<forall>s t a junk f. cm_reachable calls s \<and> t < 2 \<longrightarrow> cm_thread_step t a junk s \<noteq> Some (Inl f)) \<and>
   wf {(s', s). cm_reachable calls s \<and> cm_step s s'} \<and>
   (\<forall>s. cm_reachable calls s \<and> (\<nexists>s'. cm_step s s') \<longrightarrow>
      (\<exists>order \<in> shuffles (calls 0) (calls 1). \<forall>key. cm_lookup s key = Some (Inr (map_of (rev order) key))) \<and>
      (\<forall>b<cm_NUM_BUCKETS. \<exists>as. cm_path (cm_heap s) (cm_head s b) as \<and> distinct (map (\<lambda>a. ce_key (the (cm_heap s a))) as)) \<and>
      (calls = (\<lambda>_. cm_worker) \<longrightarrow> (\<forall>i<100. cm_lookup s (cm_key i) = Some (Inr (Some (int i)))) \<and>
         cm_main s = Some (Inr [Txt ''key42 -> '', Num 42, Txt ''\<newline>''])))"
  by (intro conjI allI impI; (elim conjE)?) (simp_all only: cm_terminates cm_no_fault cm_final cm_worker_final not_False_eq_True)

text \<open>The run of the program: from its start it reaches such a final state.\<close>

theorem concurrent_hashmap_linearizable_witness:
  "\<exists>s. cm_reachable (\<lambda>_. cm_worker) s \<and> (\<nexists>s'. cm_step s s') \<and> cm_main s = Some (Inr [Txt ''key42 -> '', Num 42, Txt ''\<newline>''])"
proof -
  note res = concurrent_hashmap_linearizable [of "\<lambda>_. cm_worker"]
  let ?R = "{s. cm_reachable (\<lambda>_. cm_worker) s}"
  have "cm_start (\<lambda>_. cm_worker) \<in> ?R" by (simp add: cm_reachable_def)
  then obtain s where s: "s \<in> ?R" "\<And>s'. (s', s) \<in> {(s', s). cm_reachable (\<lambda>_. cm_worker) s \<and> cm_step s s'} \<Longrightarrow> s' \<notin> ?R"
    by (rule wfE_min [OF res [THEN conjunct2, THEN conjunct1]]) iprover
  have "\<not> cm_step s s'" for s'
  proof
    assume go: "cm_step s s'"
    then have "cm_reachable (\<lambda>_. cm_worker) s'" using s(1) by (simp add: cm_reachable_def rtranclp.rtrancl_into_rtrancl)
    then show False using s(2) [of s'] s(1) go by simp
  qed
  then have "cm_reachable (\<lambda>_. cm_worker) s \<and> (\<nexists>s'. cm_step s s')" using s(1) by simp
  with res [THEN conjunct2, THEN conjunct2, THEN spec, THEN mp, OF this] show ?thesis by iprover
qed

end
