(* ===== verification/Bst.thy ===== *)
theory Bst
  imports Interfaces
begin

text \<open>
  The binary-tree programs: the search trees of \<^verbatim>\<open>EXTRA_TASK/26-11-2025\<close> and \<^verbatim>\<open>WEEKEND_TASK\<close>, which
  share their insertion, and the level-order trees of \<^verbatim>\<open>day-6(Binary_Tree)\<close>. A node pointer is the
  tree below it; the recursive functions return the tree that they leave. Where a program keeps
  pointers to inner nodes (the queue of \<^verbatim>\<open>insertNode\<close>), a pointer is the path from the root.
\<close>

section \<open>The code\<close>

datatype bt_node = BNull | BNode (bt_data: int) (bt_left: bt_node) (bt_right: bt_node)

definition bt_createNode :: "int \<Rightarrow> bt_node" where
  "bt_createNode val = BNode val BNull BNull"

primrec bt_insert :: "bt_node \<Rightarrow> int \<Rightarrow> bt_node" where
  "bt_insert BNull val = bt_createNode val"
| "bt_insert (BNode d l r) val =
     (if val < d then BNode d (bt_insert l val) r
      else if val > d then BNode d l (bt_insert r val)
      else BNode d l r)"

primrec bt_inOrder :: "bt_node \<Rightarrow> outs" where
  "bt_inOrder BNull = []"
| "bt_inOrder (BNode d l r) = bt_inOrder l @ [Num d, Txt [CHR 0x09]] @ bt_inOrder r"

subsection \<open>Deletion\<close>

primrec bt_leftmost :: "bt_node \<Rightarrow> int res" where
  "bt_leftmost BNull = Inl NullDeref"
| "bt_leftmost (BNode d l r) = (if l = BNull then Inr d else bt_leftmost l)"

fun bt_deleteNode :: "bt_node \<Rightarrow> int \<Rightarrow> bt_node res" where
  "bt_deleteNode BNull val = Inr BNull"
| "bt_deleteNode (BNode d l r) val =
     (if val < d then bindE (bt_deleteNode l val) (\<lambda>l'. Inr (BNode d l' r))
      else if val > d then bindE (bt_deleteNode r val) (\<lambda>r'. Inr (BNode d l r'))
      else if l = BNull \<and> r = BNull then Inr BNull
      else if l = BNull then Inr r
      else if r = BNull then Inr l
      else bindE (bt_leftmost r) (\<lambda>m. bindE (bt_deleteNode r m) (\<lambda>r'. Inr (BNode m l r'))))"

definition bt_delete_main :: "outs res" where
  "bt_delete_main =
     (let root = foldl bt_insert BNull [15, 9, 25, 5, 11, 18] in
      bindE (bt_deleteNode root 9) (\<lambda>root'.
      Inr (bt_inOrder root @ [Txt ''\<newline>After deleting node, The resultant Tree is:\<newline>''] @ bt_inOrder root')))"

subsection \<open>Validation\<close>

definition bt_INT_MIN :: int where
  "bt_INT_MIN = - (2 ^ 31)"

definition bt_INT_MAX :: int where
  "bt_INT_MAX = 2 ^ 31 - 1"

primrec bt_isBstUtils :: "bt_node \<Rightarrow> int \<Rightarrow> int \<Rightarrow> bool" where
  "bt_isBstUtils BNull mn mx = True"
| "bt_isBstUtils (BNode d l r) mn mx =
     (if d \<le> mn \<or> d \<ge> mx then False else bt_isBstUtils l mn d \<and> bt_isBstUtils r d mx)"

definition bt_isBST :: "bt_node \<Rightarrow> bool" where
  "bt_isBST root = bt_isBstUtils root bt_INT_MIN bt_INT_MAX"

definition bt_valid_main :: outs where
  "bt_valid_main =
     (let root = foldl bt_insert BNull [24, 14, 28, 8, 15] in
      bt_inOrder root @ [Txt (if bt_isBST root then ''\<newline>Valid BST'' else ''Invalid BST'')])"

subsection \<open>Lowest common ancestor\<close>

primrec bt_LCA :: "bt_node \<Rightarrow> int \<Rightarrow> int \<Rightarrow> bt_node" where
  "bt_LCA BNull a b = BNull"
| "bt_LCA (BNode d l r) a b =
     (if a < d \<and> b < d then bt_LCA l a b else if a > d \<and> b > d then bt_LCA r a b else BNode d l r)"

definition bt_dataOf :: "bt_node \<Rightarrow> int res" where
  "bt_dataOf t = (case t of BNull \<Rightarrow> Inl NullDeref | BNode d l r \<Rightarrow> Inr d)"

text \<open>The traversal of this file visits the left spine only and prints nothing.\<close>

primrec bt_lca_inorder :: "bt_node \<Rightarrow> outs" where
  "bt_lca_inorder BNull = []"
| "bt_lca_inorder (BNode d l r) = bt_lca_inorder l"

definition bt_lca_main :: "outs res" where
  "bt_lca_main =
     (let root = foldl bt_insert BNull [10, 5, 20, 15, 30] in
      bindE (bt_dataOf (bt_LCA root 15 30)) (\<lambda>d. Inr [Txt ''lowest common ancestor= '', Num d]))"

subsection \<open>Counting, height, extremes, search\<close>

primrec bt_countNodes :: "bt_node \<Rightarrow> int" where
  "bt_countNodes BNull = 0"
| "bt_countNodes (BNode d l r) = 1 + bt_countNodes l + bt_countNodes r"

definition bt_countNodes_main :: outs where
  "bt_countNodes_main =
     (let root = foldl bt_insert BNull [15, 9, 25, 5, 11, 18, 19] in
      bt_inOrder root @ [Txt ''\<newline>Total node in bst: '', Num (bt_countNodes root)])"

primrec bt_countLeafNode :: "bt_node \<Rightarrow> int" where
  "bt_countLeafNode BNull = 0"
| "bt_countLeafNode (BNode d l r) =
     (if l = BNull \<and> r = BNull then 1 else bt_countLeafNode l + bt_countLeafNode r)"

definition bt_countLeafNode_main :: outs where
  "bt_countLeafNode_main =
     (let root = foldl bt_insert BNull [15, 9, 25, 5, 11, 18, 19] in
      bt_inOrder root @ [Txt ''\<newline>Total node in bst: '', Num (bt_countLeafNode root)])"

primrec bt_height :: "bt_node \<Rightarrow> int" where
  "bt_height BNull = 0"
| "bt_height (BNode d l r) =
     (let lh = bt_height l; rh = bt_height r in (if lh > rh then lh else rh) + 1)"

definition bt_height_main :: outs where
  "bt_height_main =
     (let root = foldl bt_insert BNull [24, 14, 28, 8, 15] in
      bt_inOrder root @ [Txt ''\<newline>Heigh of tree: '', Num (bt_height root)])"

primrec bt_rightmost :: "bt_node \<Rightarrow> int res" where
  "bt_rightmost BNull = Inl NullDeref"
| "bt_rightmost (BNode d l r) = (if r = BNull then Inr d else bt_rightmost r)"

definition bt_findMinMax :: "bt_node \<Rightarrow> outs res" where
  "bt_findMinMax root =
     bindE (bt_leftmost root) (\<lambda>mn. bindE (bt_rightmost root) (\<lambda>mx.
     Inr [Txt ''\<newline>Minimum value= '', Num mn, Txt ''\<newline>'', Txt ''Maximum value= '', Num mx, Txt ''\<newline>'']))"

definition bt_findMinMax_main :: "outs res" where
  "bt_findMinMax_main =
     (let root = foldl bt_insert BNull [24, 14, 28, 8, 15] in
      bindE (bt_findMinMax root) (\<lambda>out. Inr (bt_inOrder root @ out)))"

primrec bt_search :: "bt_node \<Rightarrow> int \<Rightarrow> bool" where
  "bt_search BNull val = False"
| "bt_search (BNode d l r) val =
     (if val = d then True else if val < d then bt_search l val else bt_search r val)"

definition bt_search_main :: outs where
  "bt_search_main =
     (let root = foldl bt_insert BNull [15, 9, 25, 5, 11, 18] in
      bt_inOrder root @ [Txt (if bt_search root 5 then ''\<newline>Found\<newline>'' else ''\<newline>Not Found\<newline>'')])"

definition bt_impl_main :: outs where
  "bt_impl_main = bt_inOrder (foldl bt_insert BNull [24, 12, 30, 55, 5])"

subsection \<open>The weekend programs\<close>

primrec bt_inOrder_depth :: "bt_node \<Rightarrow> int \<Rightarrow> outs" where
  "bt_inOrder_depth BNull depth = []"
| "bt_inOrder_depth (BNode d l r) depth =
     bt_inOrder_depth l (depth + 1)
     @ [Txt ''Node: '', Num d, Txt '', Depth: '', Num depth, Txt ''\<newline>'']
     @ bt_inOrder_depth r (depth + 1)"

definition bt_depth_main :: "int list \<Rightarrow> outs" where
  "bt_depth_main typed =
     [Txt ''Enter number of elements to insert into bst:'', Txt ''Enter '', Num (int (length typed)),
      Txt '' elements into bst\<newline>'', Txt ''\<newline>InOrder traversal\<newline>'']
     @ bt_inOrder_depth (foldl bt_insert BNull typed) 0"

primrec bt_searchNode :: "bt_node \<Rightarrow> int \<Rightarrow> bt_node" where
  "bt_searchNode BNull key = BNull"
| "bt_searchNode (BNode d l r) key =
     (if d = key then BNode d l r else if key < d then bt_searchNode l key else bt_searchNode r key)"

primrec bt_pre_order :: "bt_node \<Rightarrow> outs" where
  "bt_pre_order BNull = []"
| "bt_pre_order (BNode d l r) = [Num d, Txt ''-> ''] @ bt_pre_order l @ bt_pre_order r"

definition bt_weekend_main :: "int \<Rightarrow> outs" where
  "bt_weekend_main search_val =
     (let root = foldl bt_insert BNull [10, 15, 5, 11, 7] in
      [Txt ''Enter any number to search:'', Num search_val,
       Txt (if bt_searchNode root search_val \<noteq> BNull then '' found in the BST.\<newline>'' else '' not found in the BST.\<newline>'')]
      @ bt_pre_order root @ [Txt ''NULL\<newline>''])"

subsection \<open>Level-order trees\<close>

function lv_insertLevelOrder :: "int list \<Rightarrow> nat \<Rightarrow> nat \<Rightarrow> bt_node" where
  "lv_insertLevelOrder arr index n =
     (if index \<ge> n then BNull
      else BNode (arr ! index) (lv_insertLevelOrder arr (2 * index + 1) n) (lv_insertLevelOrder arr (2 * index + 2) n))"
  by pat_completeness auto
termination lv_insertLevelOrder
  by (relation "measure (\<lambda>(arr, index, n). n - index)") auto

declare lv_insertLevelOrder.simps [simp del]

primrec lv_findDepth :: "bt_node \<Rightarrow> int" where
  "lv_findDepth BNull = 0"
| "lv_findDepth (BNode d l r) =
     (let leftDepth = lv_findDepth l; rightDepth = lv_findDepth r
      in (if leftDepth > rightDepth then leftDepth else rightDepth) + 1)"

definition lv_depth_main :: outs where
  "lv_depth_main = [Txt ''Depth of the tree is : '', Num (lv_findDepth (lv_insertLevelOrder [1, 2, 3, 4, 5, 6, 7] 0 7)), Txt '' \<newline>'']"

primrec lv_inorder :: "bt_node \<Rightarrow> outs" where
  "lv_inorder BNull = []"
| "lv_inorder (BNode d l r) = lv_inorder l @ [Num d, Txt '' ''] @ lv_inorder r"

primrec lv_preorder :: "bt_node \<Rightarrow> outs" where
  "lv_preorder BNull = []"
| "lv_preorder (BNode d l r) = [Num d, Txt '' ''] @ lv_preorder l @ lv_preorder r"

primrec lv_postorder :: "bt_node \<Rightarrow> outs" where
  "lv_postorder BNull = []"
| "lv_postorder (BNode d l r) = lv_postorder l @ lv_postorder r @ [Num d, Txt '' '']"

definition lv_traversal_main :: outs where
  "lv_traversal_main =
     (let root = BNode 1 (BNode 2 (bt_createNode 4) (bt_createNode 5)) (BNode 3 (bt_createNode 6) (bt_createNode 7));
          bar = [Txt ''\<newline> ------------ \<newline>''] in
      [Txt ''Inorder Traversal : \<newline>''] @ lv_inorder root @ bar
      @ [Txt ''Preorder Traversal : \<newline>''] @ lv_preorder root @ bar
      @ [Txt ''Postorder Traversal : \<newline>''] @ lv_postorder root @ bar)"

text \<open>Pointers to inner nodes are paths; \<open>True\<close> is a step to the left child.\<close>

fun lv_at :: "bt_node \<Rightarrow> bool list \<Rightarrow> bt_node" where
  "lv_at t [] = t"
| "lv_at BNull (b # p) = BNull"
| "lv_at (BNode d l r) (b # p) = lv_at (if b then l else r) p"

fun lv_set :: "bt_node \<Rightarrow> bool list \<Rightarrow> bt_node \<Rightarrow> bt_node" where
  "lv_set t [] s = s"
| "lv_set BNull (b # p) s = BNull"
| "lv_set (BNode d l r) (b # p) s = (if b then BNode d (lv_set l p s) r else BNode d l (lv_set r p s))"

record lv_queue =
  lvq_items :: "bool list list"
  lvq_front :: int
  lvq_rear :: int
  lvq_size :: int

definition lv_createQueue :: "nat \<Rightarrow> lv_queue" where
  "lv_createQueue capacity =
     \<lparr>lvq_items = replicate capacity [], lvq_front = 0, lvq_rear = -1, lvq_size = 0\<rparr>"

definition lv_isEmpty :: "lv_queue \<Rightarrow> bool" where
  "lv_isEmpty q \<longleftrightarrow> lvq_size q = 0"

definition lv_enqueue :: "lv_queue \<Rightarrow> bool list \<Rightarrow> lv_queue res" where
  "lv_enqueue q node =
     bindE (arr_set (lvq_items q) (lvq_rear q + 1) node) (\<lambda>items.
     Inr (q\<lparr>lvq_items := items, lvq_rear := lvq_rear q + 1, lvq_size := lvq_size q + 1\<rparr>))"

definition lv_dequeue :: "lv_queue \<Rightarrow> (lv_queue \<times> bool list) res" where
  "lv_dequeue q =
     bindE (arr_get (lvq_items q) (lvq_front q)) (\<lambda>node.
     Inr (q\<lparr>lvq_front := lvq_front q + 1, lvq_size := lvq_size q - 1\<rparr>, node))"

text \<open>
  The loop of \<^verbatim>\<open>insertNode\<close>. Each pass advances \<open>front\<close>, which stays below the capacity of the queue, so
  the capacity plus one is enough fuel: the dequeue or an enqueue faults first.
\<close>

fun lv_insert_loop :: "nat \<Rightarrow> bt_node \<Rightarrow> lv_queue \<Rightarrow> bt_node \<Rightarrow> bt_node res" where
  "lv_insert_loop 0 root q newNode = Inl Diverges"
| "lv_insert_loop (Suc k) root q newNode =
     (if lv_isEmpty q then Inr root
      else bindE (lv_dequeue q) (\<lambda>(q, temp).
           if lv_at root (temp @ [True]) = BNull then Inr (lv_set root (temp @ [True]) newNode)
           else bindE (lv_enqueue q (temp @ [True])) (\<lambda>q.
                if lv_at root (temp @ [False]) = BNull then Inr (lv_set root (temp @ [False]) newNode)
                else bindE (lv_enqueue q (temp @ [False])) (\<lambda>q. lv_insert_loop k root q newNode))))"

definition lv_insertNode :: "bt_node \<Rightarrow> int \<Rightarrow> bt_node res" where
  "lv_insertNode root value =
     (let newNode = bt_createNode value in
      if root = BNull then Inr newNode
      else bindE (lv_enqueue (lv_createQueue 100) []) (\<lambda>q. lv_insert_loop 101 root q newNode))"

text \<open>
  The menu loop of \<^verbatim>\<open>main\<close> on the numbers typed so far: its output up to the exit or to the point where
  it waits for more input.
\<close>

definition lv_menu :: outs where
  "lv_menu = [Txt ''\<newline>------ Binary Tree Handling ----- \<newline>'', Txt ''1. Insert a node \<newline>'', Txt ''2. Inorder Traversal \<newline>'',
     Txt ''3. Preorder Traversal \<newline>'', Txt ''4. Postorder Traversal \<newline>'', Txt ''5. Exit \<newline>'', Txt ''Enter your choice : '']"

fun lv_main :: "bt_node \<Rightarrow> int list \<Rightarrow> outs res" where
  "lv_main root [] = Inr lv_menu"
| "lv_main root (choice # typed) =
     (if choice = 1 then
        (case typed of [] \<Rightarrow> Inr (lv_menu @ [Txt ''Enter the value to insert : ''])
         | value # typed' \<Rightarrow>
             bindE (lv_insertNode root value) (\<lambda>root'.
             bindE (lv_main root' typed') (\<lambda>out.
             Inr (lv_menu @ [Txt ''Enter the value to insert : '', Txt ''\<newline>'', Txt ''Inserted '', Num value, Txt '' successfully''] @ out))))
      else if choice = 5 then Inr lv_menu
      else bindE (lv_main root typed) (\<lambda>out.
           Inr (lv_menu
             @ (if choice = 2 then [Txt ''InOrder Traversal : \<newline>''] @ lv_inorder root @ [Txt ''\<newline>'']
                else if choice = 3 then [Txt ''PreOrder Traversal : \<newline>''] @ lv_preorder root @ [Txt ''\<newline>'']
                else if choice = 4 then [Txt ''PostOrder Traversal : \<newline>''] @ lv_postorder root @ [Txt ''\<newline>'']
                else [Txt ''Invalid choice. Please try again \<newline>'']) @ out)))"

section \<open>Search trees as ordered sets\<close>

primrec bt_keys :: "bt_node \<Rightarrow> int list" where
  "bt_keys BNull = []"
| "bt_keys (BNode d l r) = bt_keys l @ d # bt_keys r"

definition bt_inv :: "bt_node \<Rightarrow> bool" where
  "bt_inv t \<longleftrightarrow> strict_sorted (bt_keys t)"

lemma bt_inv_node:
  "bt_inv (BNode d l r) \<longleftrightarrow> bt_inv l \<and> bt_inv r \<and> (\<forall>x\<in>set (bt_keys l). x < d) \<and> (\<forall>x\<in>set (bt_keys r). d < x)"
  by (simp add: bt_inv_def strict_sorted_mid)

lemma bt_keys_Nil [simp]: "bt_keys t = [] \<longleftrightarrow> t = BNull"
  by (cases t) auto

lemma bt_insert_keys: "set (bt_keys (bt_insert t v)) = Set.insert v (set (bt_keys t))"
  by (induction t) (auto simp: bt_createNode_def)

lemma bt_insert_inv: "bt_inv t \<Longrightarrow> bt_inv (bt_insert t v)"
proof (induction t)
  case BNull
  then show ?case by (simp add: bt_createNode_def bt_inv_def)
qed (auto simp: bt_inv_node bt_insert_keys)

lemma bt_leftmost_hd: "t \<noteq> BNull \<Longrightarrow> bt_leftmost t = Inr (hd (bt_keys t))"
  by (induction t) (auto simp: hd_append)

lemma bt_rightmost_last: "t \<noteq> BNull \<Longrightarrow> bt_rightmost t = Inr (last (bt_keys t))"
  by (induction t) (auto simp: last_append)

lemma filter_above: "\<forall>x\<in>set xs. (v::int) < x \<Longrightarrow> filter (\<lambda>x. x \<noteq> v) xs = xs"
  "\<forall>x\<in>set xs. x < (v::int) \<Longrightarrow> filter (\<lambda>x. x \<noteq> v) xs = xs"
  by (auto simp: filter_id_conv)

lemma filter_hd:
  assumes "strict_sorted (m # (xs :: int list))"
  shows "filter (\<lambda>x. x \<noteq> m) (m # xs) = xs"
  using assms by (simp add: filter_above)

lemma bt_delete_keys:
  "bt_inv t \<Longrightarrow> \<exists>t'. bt_deleteNode t v = Inr t' \<and> bt_keys t' = filter (\<lambda>x. x \<noteq> v) (bt_keys t)"
proof (induction t v rule: bt_deleteNode.induct)
  case (2 d l r v)
  note inv = "2.prems"[unfolded bt_inv_node]
  consider "v < d" | "v > d" | "v = d" "l = BNull \<or> r = BNull" | (both) "v = d" "l \<noteq> BNull" "r \<noteq> BNull" by fastforce
  then show ?case
  proof cases
    case 1
    have "\<forall>x\<in>set (d # bt_keys r). v < x" using 1 inv by auto
    then have "filter (\<lambda>x. x \<noteq> v) (d # bt_keys r) = d # bt_keys r" by (rule filter_above)
    then show ?thesis using 1 "2.IH"(1) inv by auto
  next
    case 2
    have "\<forall>x\<in>set (bt_keys l). x < v" using 2 inv by auto
    then have "filter (\<lambda>x. x \<noteq> v) (bt_keys l) = bt_keys l" by (rule filter_above)
    then show ?thesis using 2 "2.IH"(2) inv by auto
  next
    case 3
    then show ?thesis using inv by (auto simp: filter_above)
  next
    case both
    then obtain m ks where r: "bt_keys r = m # ks" by (cases "bt_keys r") auto
    then have m: "bt_leftmost r = Inr m" using bt_leftmost_hd both by fastforce
    from "2.IH"(3) [of m] both m inv obtain r' where
      r': "bt_deleteNode r m = Inr r'" "bt_keys r' = filter (\<lambda>x. x \<noteq> m) (bt_keys r)" by auto
    have "strict_sorted (m # ks)" using inv r by (simp add: bt_inv_def)
    then have "bt_keys r' = ks" using r'(2) r filter_hd by simp
    moreover have "filter (\<lambda>x. x \<noteq> v) (bt_keys l) = bt_keys l" "filter (\<lambda>x. x \<noteq> v) (bt_keys r) = bt_keys r"
      using inv both filter_above(1) [of "bt_keys r" v] filter_above(2) [of "bt_keys l" v] by blast+
    ultimately show ?thesis using both m r' r by simp
  qed
qed simp

lemma bt_search_iff: "bt_inv t \<Longrightarrow> bt_search t v \<longleftrightarrow> v \<in> set (bt_keys t)"
  by (induction t) (auto simp: bt_inv_node)

lemma bt_searchNode_iff: "bt_searchNode t v \<noteq> BNull \<longleftrightarrow> bt_search t v"
  by (induction t) auto

interpretation bst: ordered_set_del BNull "\<lambda>t k. Inr (bt_insert t k)" bt_search bt_keys bt_inv bt_deleteNode
proof unfold_locales
  fix t k
  assume inv: "bt_inv t"
  from bt_delete_keys [OF inv, of k] obtain t' where
    t': "bt_deleteNode t k = Inr t'" "bt_keys t' = filter (\<lambda>x. x \<noteq> k) (bt_keys t)" by blast
  then have "bt_inv t'" using inv by (simp add: bt_inv_def sorted_wrt_filter)
  with t' show "\<exists>t'. bt_deleteNode t k = Inr t' \<and> bt_inv t' \<and> set (bt_keys t') = set (bt_keys t) - {k}" by auto
qed (auto simp: bt_inv_def bt_insert_keys bt_insert_inv[unfolded bt_inv_def] bt_search_iff[unfolded bt_inv_def])

text \<open>
  C17. The search-tree programs build and edit an ordered set: inserting any numbers gives the tree
  whose in-order keys are the sorted set of these numbers, the search finds exactly the inserted
  numbers, and deletion ends without a \<^verbatim>\<open>NULL\<close> dereference and removes exactly its key from the in-order
  sequence.
\<close>
theorem bst_programs_correct:
  "bt_keys (foldl bt_insert BNull vs) = sorted_list_of_set (set vs)
   \<and> (bt_search (foldl bt_insert BNull vs) k \<longleftrightarrow> k \<in> set vs)
   \<and> (\<exists>t'. bt_deleteNode (foldl bt_insert BNull vs) k = Inr t' \<and> bt_inv t'
        \<and> bt_keys t' = filter (\<lambda>x. x \<noteq> k) (sorted_list_of_set (set vs)))"
proof -
  have fold: "foldE (\<lambda>t k. Inr (bt_insert t k)) ks t = Inr (foldl bt_insert t ks)" for ks t
    by (induction ks arbitrary: t) simp_all
  from bst.build_keys [of vs] have b: "bt_inv (foldl bt_insert BNull vs)"
    "bt_keys (foldl bt_insert BNull vs) = sorted_list_of_set (set vs)" by (simp_all add: fold)
  have "bt_search (foldl bt_insert BNull vs) k \<longleftrightarrow> k \<in> set vs" using bst.build_member fold by blast
  with b bst.delete_keys [OF b(1), of k] show ?thesis by simp
qed

section \<open>Validation\<close>

lemma bt_isBstUtils_iff:
  "bt_isBstUtils t mn mx \<longleftrightarrow> bt_inv t \<and> (\<forall>x\<in>set (bt_keys t). mn < x \<and> x < mx)"
proof (induction t arbitrary: mn mx)
  case (BNode d l r)
  then show ?case by (auto simp: bt_inv_node)
qed (simp add: bt_inv_def)

text \<open>
  \<^verbatim>\<open>isBST\<close> accepts a tree exactly when its in-order keys are strictly increasing and lie strictly
  between \<^verbatim>\<open>INT_MIN\<close> and \<^verbatim>\<open>INT_MAX\<close>; so it decides the search-tree property for all trees that do not
  contain these two values, and rejects valid search trees that do.
\<close>
theorem isBST_decides:
  "bt_isBST t \<longleftrightarrow> strict_sorted (bt_keys t) \<and> bt_INT_MIN \<notin> set (bt_keys t) \<and> bt_INT_MAX \<notin> set (bt_keys t)
     \<and> (\<forall>x\<in>set (bt_keys t). bt_INT_MIN \<le> x \<and> x \<le> bt_INT_MAX)"
  by (force simp: bt_isBST_def bt_isBstUtils_iff bt_inv_def order.strict_iff_order)

theorem isBST_decides_witness:
  "bt_isBST (BNode 24 (bt_createNode 14) (bt_createNode 28)) \<and> \<not> bt_isBST (bt_createNode bt_INT_MAX)"
  using isBST_decides [of "BNode 24 (bt_createNode 14) (bt_createNode 28)"] isBST_decides [of "bt_createNode bt_INT_MAX"]
  by (simp add: bt_createNode_def bt_INT_MIN_def bt_INT_MAX_def)

section \<open>Lowest common ancestor\<close>

lemma bt_LCA_lowest:
  assumes "bt_inv t" and "a \<in> set (bt_keys t)" and "b \<in> set (bt_keys t)"
  shows "\<exists>p d l r. lv_at t p = bt_LCA t a b \<and> bt_LCA t a b = BNode d l r
    \<and> a \<in> set (bt_keys (BNode d l r)) \<and> b \<in> set (bt_keys (BNode d l r))
    \<and> \<not> (a \<in> set (bt_keys l) \<and> b \<in> set (bt_keys l)) \<and> \<not> (a \<in> set (bt_keys r) \<and> b \<in> set (bt_keys r))"
  using assms
proof (induction t)
  case (BNode d l r)
  note inv = BNode.prems(1)[unfolded bt_inv_node]
  consider (left) "a < d" "b < d" | (right) "a > d" "b > d" | (here) "\<not> (a < d \<and> b < d)" "\<not> (a > d \<and> b > d)" by blast
  then show ?case
  proof cases
    case left
    then have "a \<in> set (bt_keys l)" "b \<in> set (bt_keys l)" using BNode.prems inv by fastforce+
    from BNode.IH(1) [OF _ this] inv obtain p d' l' r' where
      "lv_at l p = bt_LCA l a b" "bt_LCA l a b = BNode d' l' r'"
      "a \<in> set (bt_keys (BNode d' l' r'))" "b \<in> set (bt_keys (BNode d' l' r'))"
      "\<not> (a \<in> set (bt_keys l') \<and> b \<in> set (bt_keys l'))" "\<not> (a \<in> set (bt_keys r') \<and> b \<in> set (bt_keys r'))" by blast
    then show ?thesis using left by (intro exI [of _ "True # p"] exI [of _ d'] exI [of _ l'] exI [of _ r']) simp
  next
    case right
    then have "a \<in> set (bt_keys r)" "b \<in> set (bt_keys r)" using BNode.prems inv by fastforce+
    from BNode.IH(2) [OF _ this] inv obtain p d' l' r' where
      "lv_at r p = bt_LCA r a b" "bt_LCA r a b = BNode d' l' r'"
      "a \<in> set (bt_keys (BNode d' l' r'))" "b \<in> set (bt_keys (BNode d' l' r'))"
      "\<not> (a \<in> set (bt_keys l') \<and> b \<in> set (bt_keys l'))" "\<not> (a \<in> set (bt_keys r') \<and> b \<in> set (bt_keys r'))" by blast
    then show ?thesis using right by (intro exI [of _ "False # p"] exI [of _ d'] exI [of _ l'] exI [of _ r']) auto
  next
    case here
    then have "bt_LCA (BNode d l r) a b = BNode d l r" by auto
    moreover have "\<not> (a \<in> set (bt_keys l) \<and> b \<in> set (bt_keys l))" "\<not> (a \<in> set (bt_keys r) \<and> b \<in> set (bt_keys r))"
      using here inv by auto
    ultimately show ?thesis
      using BNode.prems(2,3) by (intro exI [of _ "[]"] exI [of _ d] exI [of _ l] exI [of _ r]) simp
  qed
qed simp

text \<open>
  \<^verbatim>\<open>LCA\<close> returns the lowest common ancestor: for two keys of a search tree the result is a subtree of
  it that contains both keys, and neither of its two children contains both.
\<close>
theorem LCA_is_lowest:
  assumes "strict_sorted (bt_keys t)" and "a \<in> set (bt_keys t)" and "b \<in> set (bt_keys t)"
  shows "\<exists>p d l r. lv_at t p = bt_LCA t a b \<and> bt_LCA t a b = BNode d l r
    \<and> a \<in> set (bt_keys (BNode d l r)) \<and> b \<in> set (bt_keys (BNode d l r))
    \<and> \<not> (a \<in> set (bt_keys l) \<and> b \<in> set (bt_keys l)) \<and> \<not> (a \<in> set (bt_keys r) \<and> b \<in> set (bt_keys r))"
  using bt_LCA_lowest assms by (simp add: bt_inv_def)

theorem LCA_is_lowest_witness:
  "bt_LCA (foldl bt_insert BNull [10, 5, 20, 15, 30]) 15 30 = BNode 20 (bt_createNode 15) (bt_createNode 30)
   \<and> (\<exists>p. lv_at (foldl bt_insert BNull [10, 5, 20, 15, 30]) p = BNode 20 (bt_createNode 15) (bt_createNode 30))"
proof -
  have t: "foldl bt_insert BNull [10, 5, 20, 15, 30]
      = BNode 10 (bt_createNode 5) (BNode 20 (bt_createNode 15) (bt_createNode 30))" by (simp add: bt_createNode_def)
  show ?thesis
    using LCA_is_lowest [of "foldl bt_insert BNull [10, 5, 20, 15, 30]" 15 30]
    unfolding t by (auto simp: bt_createNode_def)
qed

lemma bst_drivers:
  "\<not> isl bt_delete_main" "\<not> isl bt_findMinMax_main" "bt_lca_main = Inr [Txt ''lowest common ancestor= '', Num 20]"
  by code_simp+

lemma bt_lca_inorder_silent: "bt_lca_inorder t = []"
  by (induction t) simp_all

section \<open>Counting and height\<close>

lemma bt_countNodes_keys: "bt_countNodes t = int (length (bt_keys t))"
  by (induction t) simp_all

lemma bt_height_nonneg: "0 \<le> bt_height t"
  by (induction t) (simp_all add: Let_def)

lemma bt_count_height: "bt_countNodes t < 2 ^ nat (bt_height t)"
proof (induction t)
  case (BNode d l r)
  let ?h = "max (bt_height l) (bt_height r)"
  have "bt_countNodes l < 2 ^ nat ?h" "bt_countNodes r < 2 ^ nat ?h"
    using BNode by (auto intro: less_le_trans power_increasing simp: nat_mono)
  moreover have "bt_height (BNode d l r) = ?h + 1" by (simp add: Let_def max_def)
  moreover have "nat (?h + 1) = Suc (nat ?h)" using bt_height_nonneg [of l] by (simp add: Suc_nat_eq_nat_zadd1)
  ultimately show ?case by simp
qed simp

lemma bt_leaves_half: "t \<noteq> BNull \<Longrightarrow> 1 \<le> bt_countLeafNode t \<and> 2 * bt_countLeafNode t \<le> bt_countNodes t + 1"
proof (induction t)
  case (BNode d l r)
  then show ?case by (cases "l = BNull"; cases "r = BNull") auto
qed simp

section \<open>Level-order insertion\<close>

text \<open>The index, in level order, of the node at the end of a path, and the path of an index.\<close>

definition lv_step :: "bool \<Rightarrow> nat \<Rightarrow> nat" where
  "lv_step b i = (if b then 2 * i + 1 else 2 * i + 2)"

lemma lv_step_simps [simp]: "lv_step True i = Suc (2 * i)" "lv_step False i = Suc (Suc (2 * i))"
  by (simp_all add: lv_step_def)

lemma lv_step_gt: "i < lv_step b i"
  by (simp add: lv_step_def)

function idx_path :: "nat \<Rightarrow> bool list" where
  "idx_path i = (if i = 0 then [] else idx_path ((i - 1) div 2) @ [odd i])"
  by pat_completeness auto
termination idx_path
  by (relation "measure id") auto

declare idx_path.simps [simp del]

lemma idx_path_0 [simp]: "idx_path 0 = []"
  by (simp add: idx_path.simps)

lemma idx_path_step: "idx_path (lv_step b i) = idx_path i @ [b]"
  by (subst idx_path.simps) (cases b; simp)

lemma fold_step_idx: "fold lv_step (idx_path i) 0 = i"
proof (induction i rule: less_induct)
  case (less i)
  show ?case
  proof (cases "i = 0")
    case False
    then have "fold lv_step (idx_path ((i - 1) div 2)) 0 = (i - 1) div 2" by (intro less) simp
    then show ?thesis using False by (subst idx_path.simps) (auto simp: lv_step_def elim!: oddE evenE)
  qed simp
qed

lemma idx_path_fold: "idx_path (fold lv_step p i) = idx_path i @ p"
proof (induction p arbitrary: i)
  case (Cons b p)
  have "fold lv_step (b # p) i = fold lv_step p (lv_step b i)" by simp
  then show ?case by (simp only: Cons idx_path_step append_assoc append.simps)
qed simp

lemma fold_step_inj: "fold lv_step p i = fold lv_step q i \<longleftrightarrow> p = q"
proof
  assume "fold lv_step p i = fold lv_step q i"
  then have "idx_path i @ p = idx_path i @ q" by (simp flip: idx_path_fold)
  then show "p = q" by simp
qed simp

lemma fold_step_le: "i \<le> fold lv_step p i"
proof (induction p arbitrary: i)
  case (Cons b p)
  have "i \<le> lv_step b i" using lv_step_gt [of i b] by simp
  also have "\<dots> \<le> fold lv_step p (lv_step b i)" by (rule Cons)
  finally show ?case by simp
qed simp

lemma lv_at_level: "lv_at (lv_insertLevelOrder arr i n) p = lv_insertLevelOrder arr (fold lv_step p i) n"
proof (induction p arbitrary: i)
  case (Cons b p)
  show ?case
  proof (cases "i \<ge> n")
    case True
    then have "n \<le> fold lv_step (b # p) i" using fold_step_le [of i "b # p"] by linarith
    then show ?thesis using True by (simp add: lv_insertLevelOrder.simps)
  next
    case False
    then show ?thesis using Cons by (subst lv_insertLevelOrder.simps) (cases b; simp)
  qed
qed simp

text \<open>Appending an element changes the tree only on the path to the new index.\<close>

lemma lv_level_other:
  assumes "length arr = n" and "\<forall>p. fold lv_step p i \<noteq> n"
  shows "lv_insertLevelOrder (arr @ [v]) i (Suc n) = lv_insertLevelOrder arr i n"
  using assms
proof (induction arr i n rule: lv_insertLevelOrder.induct)
  case (1 arr i n)
  have "i \<noteq> n" using spec [OF "1.prems"(2), of "[]"] by simp
  have sub: "\<forall>p. fold lv_step p (lv_step b i) \<noteq> n" for b
  proof
    fix p
    have "fold lv_step p (lv_step b i) = fold lv_step (b # p) i" by simp
    then show "fold lv_step p (lv_step b i) \<noteq> n" using "1.prems"(2) by metis
  qed
  show ?case
  proof (cases "n \<le> i")
    case True
    then show ?thesis using \<open>i \<noteq> n\<close> by (simp add: lv_insertLevelOrder.simps)
  next
    case False
    then show ?thesis
      using "1.IH"(1) [OF _ "1.prems"(1)] "1.IH"(2) [OF _ "1.prems"(1)] sub [of True] sub [of False] "1.prems"(1)
      by (subst (1 2) lv_insertLevelOrder.simps) (simp add: nth_append)
  qed
qed

lemma lv_set_level:
  assumes "length arr = n" and "fold lv_step p i = n"
  shows "lv_set (lv_insertLevelOrder arr i n) p (bt_createNode v) = lv_insertLevelOrder (arr @ [v]) i (Suc n)"
  using assms(2)
proof (induction p arbitrary: i)
  case Nil
  then show ?case
    using assms(1) by (simp add: lv_insertLevelOrder.simps bt_createNode_def nth_append)
next
  case (Cons b p)
  have "i < lv_step b i" by (rule lv_step_gt)
  also have "\<dots> \<le> n" using fold_step_le [of "lv_step b i" p] Cons.prems by simp
  finally have i: "i < n" .
  have other: "\<forall>q. fold lv_step q (lv_step (\<not> b) i) \<noteq> n"
  proof (intro allI notI)
    fix q
    assume "fold lv_step q (lv_step (\<not> b) i) = n"
    then have "fold lv_step ((\<not> b) # q) i = fold lv_step (b # p) i" using Cons.prems by simp
    then show False by (simp only: fold_step_inj) auto
  qed
  have ih: "lv_set (lv_insertLevelOrder arr (lv_step b i) n) p (bt_createNode v)
      = lv_insertLevelOrder (arr @ [v]) (lv_step b i) (Suc n)" using Cons by simp
  show ?case
    using ih lv_level_other [OF assms(1) other, of v] i assms(1)
    by (subst (1 2) lv_insertLevelOrder.simps) (cases b; simp add: nth_append)
qed

text \<open>After \<open>i\<close> passes the queue has held the nodes \<open>0\<close> to \<open>2 i\<close>.\<close>

definition lv_q :: "nat \<Rightarrow> lv_queue \<Rightarrow> bool" where
  "lv_q i q \<longleftrightarrow> length (lvq_items q) = 100 \<and> lvq_front q = int i \<and> lvq_rear q = 2 * int i \<and> lvq_size q = int i + 1
     \<and> 2 * i < 100 \<and> (\<forall>k\<le>2 * i. lvq_items q ! k = idx_path k)"

lemma lv_null_iff: "lv_at (lv_insertLevelOrder arr 0 n) (idx_path i @ [b]) = BNull \<longleftrightarrow> n \<le> lv_step b i"
  by (simp add: lv_at_level fold_step_idx) (simp add: lv_insertLevelOrder.simps)

lemma lv_loop_level:
  assumes "length arr = n" and "lv_q i q" and "2 * i < n" and "50 \<le> k + i"
  shows "lv_insert_loop (Suc k) (lv_insertLevelOrder arr 0 n) q (bt_createNode v)
    = (if n \<le> 100 then Inr (lv_insertLevelOrder (arr @ [v]) 0 (Suc n)) else Inl OutOfBounds)"
  using assms(2-4)
proof (induction "50 - i" arbitrary: i q k)
  case 0
  then show ?case by (simp add: lv_q_def)
next
  case (Suc m)
  let ?root = "lv_insertLevelOrder arr 0 n"
  note q = Suc.prems(1)[unfolded lv_q_def]
  let ?q1 = "q\<lparr>lvq_front := int i + 1, lvq_size := int i\<rparr>"
  have deq: "lv_dequeue q = Inr (?q1, idx_path i)" using q by (simp add: lv_dequeue_def)
  have ne: "\<not> lv_isEmpty q" using q by (simp add: lv_isEmpty_def)
  have setn: "lv_set ?root (idx_path i @ [b]) (bt_createNode v) = lv_insertLevelOrder (arr @ [v]) 0 (Suc n)"
    if "lv_step b i = n" for b
    using that by (intro lv_set_level [OF assms(1)]) (simp add: fold_step_idx)
  show ?case
  proof (cases "n = 2 * i + 1")
    case True
    then show ?thesis using deq ne setn [of True] lv_null_iff [of arr n i True] q by simp
  next
    case False
    then have l: "\<not> n \<le> 2 * i + 1" using Suc.prems(2) by simp
    let ?q2 = "?q1\<lparr>lvq_items := (lvq_items q)[2 * i + 1 := idx_path i @ [True]], lvq_rear := 2 * int i + 1, lvq_size := int i + 1\<rparr>"
    have enq1: "lv_enqueue ?q1 (idx_path i @ [True]) = Inr ?q2"
      using q by (simp add: lv_enqueue_def nat_add_distrib nat_mult_distrib)
    show ?thesis
    proof (cases "n = 2 * i + 2")
      case True
      then show ?thesis
        using deq ne l enq1 setn [of False] lv_null_iff [of arr n i True] lv_null_iff [of arr n i False] q by simp
    next
      case False
      then have r: "\<not> n \<le> 2 * i + 2" using l by simp
      note null = lv_null_iff [of arr n i True] lv_null_iff [of arr n i False]
      show ?thesis
      proof (cases "i = 49")
        case True
        then have "lv_enqueue ?q2 (idx_path i @ [False]) = Inl OutOfBounds"
          using q by (simp add: lv_enqueue_def arr_set_def)
        then show ?thesis using deq ne l r enq1 null True by simp
      next
        case False
        then have i: "i < 49" using q by simp
        let ?q3 = "?q2\<lparr>lvq_items := (lvq_items q)[2 * i + 1 := idx_path i @ [True], 2 * i + 2 := idx_path i @ [False]],
          lvq_rear := 2 * int i + 2, lvq_size := int i + 2\<rparr>"
        have enq2: "lv_enqueue ?q2 (idx_path i @ [False]) = Inr ?q3"
          using q i by (simp add: lv_enqueue_def nat_add_distrib nat_mult_distrib)
        have "lv_q (Suc i) ?q3"
          using q i idx_path_step [of True i] idx_path_step [of False i]
          by (auto simp: lv_q_def nth_list_update less_Suc_eq_le le_Suc_eq)
        moreover obtain k' where "k = Suc k'" using i Suc.prems(3) by (cases k) auto
        ultimately have "lv_insert_loop k ?root ?q3 (bt_createNode v)
            = (if n \<le> 100 then Inr (lv_insertLevelOrder (arr @ [v]) 0 (Suc n)) else Inl OutOfBounds)"
          using Suc.hyps(1) [of "Suc i" ?q3 k'] Suc.hyps(2) Suc.prems(3) r by simp
        then show ?thesis using deq ne l r enq1 enq2 null by simp
      qed
    qed
  qed
qed

text \<open>
  C19. The two level-order programs agree: inserting a value with \<^verbatim>\<open>insertNode\<close> into the tree that
  \<^verbatim>\<open>insertLevelOrder\<close> builds from an array gives the tree built from the array extended by the value, for
  one to a hundred nodes; the breadth-first loop ends. For a larger tree the insertion writes
  outside its queue of a hundred cells.
\<close>
theorem level_order_programs_agree:
  assumes "arr \<noteq> []"
  shows "lv_insertNode (lv_insertLevelOrder arr 0 (length arr)) v
    = (if length arr \<le> 100 then Inr (lv_insertLevelOrder (arr @ [v]) 0 (length (arr @ [v]))) else Inl OutOfBounds)"
proof -
  let ?q = "\<lparr>lvq_items = (replicate 100 [])[0 := []], lvq_front = 0, lvq_rear = 0, lvq_size = 1\<rparr>"
  have "lv_insertLevelOrder arr 0 (length arr) \<noteq> BNull" using assms by (simp add: lv_insertLevelOrder.simps)
  moreover have "lv_enqueue (lv_createQueue 100) [] = Inr ?q" by (simp add: lv_enqueue_def lv_createQueue_def)
  moreover have "lv_q 0 ?q" by (simp add: lv_q_def)
  from lv_loop_level [OF refl this, of arr 100 v] have "lv_insert_loop (Suc 100) (lv_insertLevelOrder arr 0 (length arr)) ?q (bt_createNode v)
      = (if length arr \<le> 100 then Inr (lv_insertLevelOrder (arr @ [v]) 0 (length (arr @ [v]))) else Inl OutOfBounds)"
    using assms by simp
  ultimately show ?thesis by (simp add: lv_insertNode_def Let_def)
qed

theorem level_order_programs_agree_witness:
  "lv_insertNode (lv_insertLevelOrder [1, 2, 3] 0 3) 4 = Inr (lv_insertLevelOrder [1, 2, 3, 4] 0 4)
   \<and> lv_insertNode (lv_insertLevelOrder (replicate 101 0) 0 101) 7 = Inl OutOfBounds"
proof
  show "lv_insertNode (lv_insertLevelOrder [1, 2, 3] 0 3) 4 = Inr (lv_insertLevelOrder [1, 2, 3, 4] 0 4)"
    using level_order_programs_agree [of "[1, 2, 3]" 4] by (simp add: eval_nat_numeral)
  show "lv_insertNode (lv_insertLevelOrder (replicate 101 0) 0 101) 7 = Inl OutOfBounds"
    using level_order_programs_agree [of "replicate 101 0" 7] by simp
qed

end
