(* ===== verification/Deadlock.thy ===== *)
theory Deadlock
  imports Interfaces
begin

text \<open>
  Deadlock detection with a wait-for graph
  (\<^verbatim>\<open>concurrency-and-multithreading/deadlock_with_wfg.c\<close>).

  The first half models the graph and the depth-first cycle search and shows that
  \<^verbatim>\<open>has_cycle\<close> decides the existence of a cycle. The recursion takes fuel that counts the
  unvisited vertices; running out of it is the fault \<open>Diverges\<close>, which is shown not to occur.

  The second half models the two workers, the tracked locks and the monitor as a step relation. A
  step is what one thread does inside one critical section, so the interleavings are those of the
  mutexes of the program; a waiter may wake up without a signal, as POSIX allows.
\<close>

section \<open>The wait-for graph\<close>

type_synonym wfg = "nat \<Rightarrow> nat \<Rightarrow> bool"

definition MAXIMUM_THREADS :: nat where
  "MAXIMUM_THREADS = 4"

definition wfg_empty :: wfg where
  "wfg_empty = (\<lambda>_ _. False)"

definition wfg_add_edge :: "wfg \<Rightarrow> nat \<Rightarrow> nat \<Rightarrow> wfg" where
  "wfg_add_edge g waiter_idx owner_idx = g(waiter_idx := (g waiter_idx)(owner_idx := True))"

definition wfg_remove_all_from :: "wfg \<Rightarrow> nat \<Rightarrow> wfg" where
  "wfg_remove_all_from g waiter_idx =
     foldl (\<lambda>g iterator. g(waiter_idx := (g waiter_idx)(iterator := False))) g [0..<MAXIMUM_THREADS]"

fun detect_cycle_dfs ::
    "nat \<Rightarrow> wfg \<Rightarrow> nat \<Rightarrow> (nat \<Rightarrow> bool) \<Rightarrow> (nat \<Rightarrow> bool) \<Rightarrow> (bool \<times> (nat \<Rightarrow> bool) \<times> (nat \<Rightarrow> bool)) res"
and detect_cycle_loop ::
    "nat \<Rightarrow> wfg \<Rightarrow> nat \<Rightarrow> nat list \<Rightarrow> (nat \<Rightarrow> bool) \<Rightarrow> (nat \<Rightarrow> bool)
       \<Rightarrow> (bool \<times> (nat \<Rightarrow> bool) \<times> (nat \<Rightarrow> bool)) res" where
  "detect_cycle_dfs 0 g u vis stk = Inl Diverges"
| "detect_cycle_dfs (Suc k) g u vis stk =
     detect_cycle_loop k g u [0..<MAXIMUM_THREADS] (vis(u := True)) (stk(u := True))"
| "detect_cycle_loop k g u [] vis stk = Inr (False, vis, stk(u := False))"
| "detect_cycle_loop k g u (v # vs) vis stk =
     (if \<not> g u v then detect_cycle_loop k g u vs vis stk
      else bindE (if \<not> vis v then detect_cycle_dfs k g v vis stk else Inr (False, vis, stk))
        (\<lambda>(r, vis, stk).
           if r then Inr (True, vis, stk)
           else if stk v then Inr (True, vis, stk)
           else detect_cycle_loop k g u vs vis stk))"

fun has_cycle_loop :: "wfg \<Rightarrow> nat list \<Rightarrow> (nat \<Rightarrow> bool) \<Rightarrow> (nat \<Rightarrow> bool) \<Rightarrow> bool res" where
  "has_cycle_loop g [] vis stk = Inr False"
| "has_cycle_loop g (i # is) vis stk =
     bindE (if \<not> vis i then detect_cycle_dfs MAXIMUM_THREADS g i vis stk else Inr (False, vis, stk))
       (\<lambda>(r, vis, stk). if r then Inr True else has_cycle_loop g is vis stk)"

definition has_cycle :: "wfg \<Rightarrow> bool res" where
  "has_cycle g = has_cycle_loop g [0..<MAXIMUM_THREADS] (\<lambda>_. False) (\<lambda>_. False)"

definition dump_wfg :: "wfg \<Rightarrow> outs" where
  "dump_wfg g = Txt ''WFG:'' #
     concat (map (\<lambda>i. map (\<lambda>j. Num (if g i j then 1 else 0)) [0..<MAXIMUM_THREADS] @ [Txt ''\<newline>''])
       [0..<MAXIMUM_THREADS])"

subsection \<open>The edges, and the set that the search has finished with\<close>

definition wfg_edges :: "wfg \<Rightarrow> (nat \<times> nat) set" where
  "wfg_edges g = {(u, v). u < MAXIMUM_THREADS \<and> v < MAXIMUM_THREADS \<and> g u v}"

lemma wfg_remove_all_from_eq:
  "wfg_remove_all_from g w = g(w := (\<lambda>j. if j < MAXIMUM_THREADS then False else g w j))"
  by (auto simp: wfg_remove_all_from_def MAXIMUM_THREADS_def upt_rec fun_eq_iff)

lemma wfg_add_edge_apply [simp]:
  "wfg_add_edge g a b i j \<longleftrightarrow> g i j \<or> (i = a \<and> j = b)"
  by (simp add: wfg_add_edge_def)

lemma wfg_remove_all_from_apply:
  "wfg_remove_all_from g a i j \<longleftrightarrow> g i j \<and> (i = a \<longrightarrow> MAXIMUM_THREADS \<le> j)"
  by (simp add: wfg_remove_all_from_eq)

text \<open>
  A vertex is finished when it is visited and off the stack: its successors are finished and it lies
  on no cycle.
\<close>

definition wfg_done :: "wfg \<Rightarrow> (nat \<Rightarrow> bool) \<Rightarrow> (nat \<Rightarrow> bool) \<Rightarrow> bool" where
  "wfg_done g vis stk \<longleftrightarrow>
     (\<forall>x y. vis x \<and> \<not> stk x \<and> (x, y) \<in> wfg_edges g \<longrightarrow> vis y \<and> \<not> stk y) \<and>
     (\<forall>x. vis x \<and> \<not> stk x \<longrightarrow> (x, x) \<notin> (wfg_edges g)\<^sup>+)"

definition wfg_unvisited :: "(nat \<Rightarrow> bool) \<Rightarrow> nat set" where
  "wfg_unvisited vis = {x. x < MAXIMUM_THREADS \<and> \<not> vis x}"

lemma wfg_done_succ: "wfg_done g vis stk \<Longrightarrow> vis x \<Longrightarrow> \<not> stk x \<Longrightarrow> (x, y) \<in> wfg_edges g \<Longrightarrow> vis y \<and> \<not> stk y"
  unfolding wfg_done_def by blast

lemma wfg_done_acyclic: "wfg_done g vis stk \<Longrightarrow> vis x \<Longrightarrow> \<not> stk x \<Longrightarrow> (x, x) \<notin> (wfg_edges g)\<^sup>+"
  unfolding wfg_done_def by blast

lemma wfg_doneI:
  assumes "\<And>x y. vis x \<Longrightarrow> \<not> stk x \<Longrightarrow> (x, y) \<in> wfg_edges g \<Longrightarrow> vis y \<and> \<not> stk y"
    and "\<And>x. vis x \<Longrightarrow> \<not> stk x \<Longrightarrow> (x, x) \<notin> (wfg_edges g)\<^sup>+"
  shows "wfg_done g vis stk"
  unfolding wfg_done_def using assms by blast

lemma wfg_done_closed:
  assumes "wfg_done g vis stk" and "(x, y) \<in> (wfg_edges g)\<^sup>+" and "vis x" and "\<not> stk x"
  shows "vis y \<and> \<not> stk y"
  using assms(2)
proof (induction rule: trancl_induct)
  case (base y)
  with wfg_done_succ [OF assms(1,3,4)] show ?case .
next
  case (step y z)
  with wfg_done_succ [OF assms(1), of y z] show ?case by simp
qed

lemma wfg_unvisited_step:
  assumes "\<not> vis u" and "u < MAXIMUM_THREADS" and "card (wfg_unvisited vis) \<le> Suc k"
  shows "card (wfg_unvisited (vis(u := True))) \<le> k"
proof -
  have "wfg_unvisited (vis(u := True)) = wfg_unvisited vis - {u}"
    by (auto simp: wfg_unvisited_def)
  moreover have "u \<in> wfg_unvisited vis" "finite (wfg_unvisited vis)"
    using assms by (auto simp: wfg_unvisited_def)
  ultimately show ?thesis using assms(3) by simp
qed

lemma wfg_unvisited_mono:
  assumes "\<And>x. vis x \<Longrightarrow> vis' x"
  shows "card (wfg_unvisited vis') \<le> card (wfg_unvisited vis)"
proof (rule card_mono)
  show "finite (wfg_unvisited vis)" by (simp add: wfg_unvisited_def)
  show "wfg_unvisited vis' \<subseteq> wfg_unvisited vis" using assms unfolding wfg_unvisited_def by blast
qed

text \<open>Leaving \<open>u\<close> when all its successors are finished keeps the finished set well-formed.\<close>

lemma wfg_done_leave:
  assumes dn: "wfg_done g vis stk" and u: "vis u" "stk u"
    and succ: "\<And>v. (u, v) \<in> wfg_edges g \<Longrightarrow> vis v \<and> \<not> stk v"
  shows "wfg_done g vis (stk(u := False))"
proof -
  have "(u, u) \<notin> (wfg_edges g)\<^sup>+"
  proof
    assume "(u, u) \<in> (wfg_edges g)\<^sup>+"
    then obtain v where v: "(u, v) \<in> wfg_edges g" "v = u \<or> (v, u) \<in> (wfg_edges g)\<^sup>+"
      by (meson converse_tranclE)
    from succ [OF v(1)] v(2) u(2) wfg_done_closed [OF dn] show False by blast
  qed
  then have "(x, x) \<notin> (wfg_edges g)\<^sup>+" if "vis x" "\<not> (stk(u := False)) x" for x
    using wfg_done_acyclic [OF dn, of x] that by (cases "x = u") simp_all
  moreover have "vis y \<and> \<not> (stk(u := False)) y" if "vis x" "\<not> (stk(u := False)) x" "(x, y) \<in> wfg_edges g" for x y
    using wfg_done_succ [OF dn, of x y] succ [of y] that by (cases "x = u") auto
  ultimately show ?thesis by (intro wfg_doneI)
qed

text \<open>Entering a vertex leaves the finished set as it is.\<close>

lemma wfg_done_enter:
  assumes dn: "wfg_done g vis stk" and u: "\<not> vis u"
  shows "wfg_done g (vis(u := True)) (stk(u := True))"
proof (rule wfg_doneI)
  fix x y
  assume "(vis(u := True)) x" "\<not> (stk(u := True)) x"
  then have x: "vis x" "\<not> stk x" by (auto split: if_splits)
  show "(x, x) \<notin> (wfg_edges g)\<^sup>+" by (rule wfg_done_acyclic [OF dn x])
  assume "(x, y) \<in> wfg_edges g"
  from wfg_done_succ [OF dn x this] u show "(vis(u := True)) y \<and> \<not> (stk(u := True)) y" by auto
qed

definition dfs_post ::
  "wfg \<Rightarrow> (nat \<Rightarrow> bool) \<Rightarrow> (nat \<Rightarrow> bool) \<Rightarrow> bool \<times> (nat \<Rightarrow> bool) \<times> (nat \<Rightarrow> bool) \<Rightarrow> bool" where
  "dfs_post g vis stk = (\<lambda>(r, vis', stk').
     if r then \<exists>x. (x, x) \<in> (wfg_edges g)\<^sup>+
     else wfg_done g vis' stk' \<and> stk' = stk \<and> (\<forall>x. vis x \<longrightarrow> vis' x) \<and> (\<forall>x. stk' x \<longrightarrow> vis' x))"

lemma dfs_post_True [simp]: "dfs_post g vis stk (True, vis', stk') \<longleftrightarrow> (\<exists>x. (x, x) \<in> (wfg_edges g)\<^sup>+)"
  by (simp add: dfs_post_def)

lemma dfs_post_False [simp]:
  "dfs_post g vis stk (False, vis', stk') \<longleftrightarrow>
     wfg_done g vis' stk' \<and> stk' = stk \<and> (\<forall>x. vis x \<longrightarrow> vis' x) \<and> (\<forall>x. stk' x \<longrightarrow> vis' x)"
  by (simp add: dfs_post_def)

lemma dfs_post_weaken:
  assumes "dfs_post g vis' stk res" and "\<And>x. vis x \<Longrightarrow> vis' x"
  shows "dfs_post g vis stk res"
proof -
  obtain r v s where res: "res = (r, v, s)" by (cases res)
  then show ?thesis using assms by (cases r) auto
qed

lemma dfs_post_visited:
  assumes "dfs_post g vis stk res" and "vis u" and "\<not> fst res"
  shows "fst (snd res) u"
proof -
  obtain r v s where res: "res = (r, v, s)" by (cases res)
  then show ?thesis using assms by (cases r) auto
qed

text \<open>The loop body after the recursive call: a successor on the stack closes a cycle.\<close>

lemma detect_cycle_after:
  assumes e: "(u, v) \<in> wfg_edges g" and stk: "stk v \<Longrightarrow> (v, u) \<in> (wfg_edges g)\<^sup>*"
    and call: "(if \<not> vis v then detect_cycle_dfs k g v vis stk else Inr (False, vis, stk)) = Inr (False, vis', stk)"
    and dfs: "dfs_post g vis stk (False, vis', stk)"
    and rest: "\<not> stk v \<Longrightarrow>
      \<exists>res. detect_cycle_loop k g u vs vis' stk = Inr res \<and> dfs_post g vis' (stk(u := False)) res"
  shows "\<exists>res. detect_cycle_loop k g u (v # vs) vis stk = Inr res \<and> dfs_post g vis (stk(u := False)) res"
proof (cases "stk v")
  case True
  from stk [OF this] e have "\<exists>x. (x, x) \<in> (wfg_edges g)\<^sup>+" by (meson rtrancl_into_trancl2)
  with True e call show ?thesis by (simp add: wfg_edges_def)
next
  case False
  from rest [OF this] obtain res where
    res: "detect_cycle_loop k g u vs vis' stk = Inr res" "dfs_post g vis' (stk(u := False)) res" by blast
  have "dfs_post g vis (stk(u := False)) res"
    using dfs_post_weaken [OF res(2)] dfs by simp
  with res(1) show ?thesis using False e call by (simp add: wfg_edges_def)
qed

lemma detect_cycle_dfs_loop:
  shows "u < MAXIMUM_THREADS \<Longrightarrow> \<not> vis u \<Longrightarrow> card (wfg_unvisited vis) \<le> k \<Longrightarrow> wfg_done g vis stk
      \<Longrightarrow> (\<forall>s. stk s \<longrightarrow> vis s) \<Longrightarrow> (\<forall>s. stk s \<longrightarrow> (s, u) \<in> (wfg_edges g)\<^sup>+) \<Longrightarrow>
      \<exists>res. detect_cycle_dfs k g u vis stk = Inr res \<and> dfs_post g vis stk res \<and> (\<not> fst res \<longrightarrow> fst (snd res) u)"
    and "u < MAXIMUM_THREADS \<Longrightarrow> vis u \<Longrightarrow> stk u \<Longrightarrow> card (wfg_unvisited vis) \<le> k \<Longrightarrow> wfg_done g vis stk
      \<Longrightarrow> (\<forall>s. stk s \<longrightarrow> vis s) \<Longrightarrow> (\<forall>s. stk s \<longrightarrow> (s, u) \<in> (wfg_edges g)\<^sup>*) \<Longrightarrow> set vs \<subseteq> {..<MAXIMUM_THREADS}
      \<Longrightarrow> (\<forall>v. (u, v) \<in> wfg_edges g \<and> v \<notin> set vs \<longrightarrow> vis v \<and> \<not> stk v) \<Longrightarrow>
      \<exists>res. detect_cycle_loop k g u vs vis stk = Inr res \<and> dfs_post g vis (stk(u := False)) res"
proof (induction k g u vis stk and k g u vs vis stk rule: detect_cycle_dfs_detect_cycle_loop.induct)
  case (1 g u vis stk)
  then have "u \<in> wfg_unvisited vis" "finite (wfg_unvisited vis)" by (auto simp: wfg_unvisited_def)
  then show ?case using 1 by auto
next
  case (2 k g u vis stk)
  have nstk: "\<not> stk u" using 2 by auto
  have dn: "wfg_done g (vis(u := True)) (stk(u := True))"
    by (rule wfg_done_enter [OF 2(5,3)])
  have "\<exists>res. detect_cycle_loop k g u [0..<MAXIMUM_THREADS] (vis(u := True)) (stk(u := True)) = Inr res
      \<and> dfs_post g (vis(u := True)) (stk(u := True, u := False)) res"
  proof (rule "2.IH" [OF 2(2) _ _ wfg_unvisited_step [OF 2(3,2,4)] dn])
    show "\<forall>s. (stk(u := True)) s \<longrightarrow> (vis(u := True)) s" using 2(6) by simp
    show "\<forall>s. (stk(u := True)) s \<longrightarrow> (s, u) \<in> (wfg_edges g)\<^sup>*" using 2(7) by (simp add: trancl_into_rtrancl)
    show "\<forall>v. (u, v) \<in> wfg_edges g \<and> v \<notin> set [0..<MAXIMUM_THREADS]
        \<longrightarrow> (vis(u := True)) v \<and> \<not> (stk(u := True)) v" by (simp add: wfg_edges_def)
  qed (simp_all add: atLeast0LessThan)
  moreover have "stk(u := True, u := False) = stk" using nstk by (simp add: fun_upd_idem)
  ultimately obtain res where res: "detect_cycle_dfs (Suc k) g u vis stk = Inr res"
    "dfs_post g (vis(u := True)) stk res" by auto
  have "dfs_post g vis stk res" by (rule dfs_post_weaken [OF res(2)]) simp
  with res dfs_post_visited [OF res(2), of u] show ?case by auto
next
  case (3 k g u vis stk)
  then show ?case
    using wfg_done_leave [of g vis stk u] by (auto simp: fun_upd_def)
next
  case (4 k g u v vs vis stk)
  show ?case
  proof (cases "g u v")
    case False
    then have "\<exists>res. detect_cycle_loop k g u vs vis stk = Inr res \<and> dfs_post g vis (stk(u := False)) res"
      using "4.prems" by (intro "4.IH"(1)) (auto simp: wfg_edges_def)
    with False show ?thesis by (simp add: fun_upd_def)
  next
    case True
    then have e: "(u, v) \<in> wfg_edges g" using "4.prems" by (simp add: wfg_edges_def)
    have rest: ?thesis if v: "vis' v" and dfs: "dfs_post g vis stk (False, vis', stk)"
      and call: "(if \<not> vis v then detect_cycle_dfs k g v vis stk else Inr (False, vis, stk)) = Inr (False, vis', stk)"
      for vis'
      using "4.prems" v dfs wfg_unvisited_mono [of vis vis'] True e
      by (intro detect_cycle_after [OF _ _ call dfs] "4.IH"(3) [OF _ call]) auto
    show ?thesis
    proof (cases "vis v")
      case True
      then show ?thesis using "4.prems" by (intro rest [of vis]) simp_all
    next
      case False
      have "(s, v) \<in> (wfg_edges g)\<^sup>+" if "stk s" for s
        using that "4.prems"(7) e by (meson rtrancl_into_trancl1)
      then have "\<exists>res. detect_cycle_dfs k g v vis stk = Inr res \<and> dfs_post g vis stk res \<and> (\<not> fst res \<longrightarrow> fst (snd res) v)"
        using "4.prems" False True by (intro "4.IH"(2)) auto
      then obtain r vis' stk' where res: "detect_cycle_dfs k g v vis stk = Inr (r, vis', stk')"
        "dfs_post g vis stk (r, vis', stk')" "\<not> r \<longrightarrow> vis' v" by auto
      show ?thesis
      proof (cases r)
        case True
        with res False \<open>g u v\<close> show ?thesis by simp
      next
        case notr: False
        with res have "stk' = stk" by (simp add: dfs_post_def)
        with res notr False show ?thesis by (intro rest [of vis']) auto
      qed
    qed
  qed
qed

lemma has_cycle_loop_ok:
  assumes "set is \<subseteq> {..<MAXIMUM_THREADS}" and "wfg_done g vis (\<lambda>_. False)"
    and "\<forall>x<MAXIMUM_THREADS. x \<notin> set is \<longrightarrow> vis x"
  shows "has_cycle_loop g is vis (\<lambda>_. False) = Inr (\<exists>x. (x, x) \<in> (wfg_edges g)\<^sup>+)"
  using assms
proof (induction "is" arbitrary: vis)
  case Nil
  have "(x, x) \<notin> (wfg_edges g)\<^sup>+" for x
  proof
    assume c: "(x, x) \<in> (wfg_edges g)\<^sup>+"
    then have "x < MAXIMUM_THREADS" by (auto simp: wfg_edges_def elim: tranclE)
    with c Nil show False by (auto simp: wfg_done_def)
  qed
  then show ?case by simp
next
  case (Cons i "is")
  show ?case
  proof (cases "vis i")
    case True
    then show ?thesis using Cons by auto
  next
    case False
    have "card (wfg_unvisited vis) \<le> card {..<MAXIMUM_THREADS}"
      by (rule card_mono) (auto simp: wfg_unvisited_def)
    then have "\<exists>res. detect_cycle_dfs MAXIMUM_THREADS g i vis (\<lambda>_. False) = Inr res
        \<and> dfs_post g vis (\<lambda>_. False) res \<and> (\<not> fst res \<longrightarrow> fst (snd res) i)"
      using False Cons.prems by (intro detect_cycle_dfs_loop(1)) auto
    then obtain r vis' stk' where res: "detect_cycle_dfs MAXIMUM_THREADS g i vis (\<lambda>_. False) = Inr (r, vis', stk')"
      "dfs_post g vis (\<lambda>_. False) (r, vis', stk')" "\<not> r \<longrightarrow> vis' i" by auto
    show ?thesis
    proof (cases r)
      case True
      with res False show ?thesis by (auto simp: dfs_post_def)
    next
      case notr: False
      then have "has_cycle_loop g is vis' (\<lambda>_. False) = Inr (\<exists>x. (x, x) \<in> (wfg_edges g)\<^sup>+)"
        using res Cons.prems by (intro Cons.IH) (auto simp: dfs_post_def)
      with res notr False show ?thesis by (auto simp: dfs_post_def)
    qed
  qed
qed

lemma has_cycle_iff: "has_cycle g = Inr (\<exists>t. (t, t) \<in> (wfg_edges g)\<^sup>+)"
  unfolding has_cycle_def by (rule has_cycle_loop_ok) (auto simp: wfg_done_def)

section \<open>Tracked locks, workers and the monitor\<close>

text \<open>
  A thread identity is a number; \<open>wl_threads\<close> is the registry \<^verbatim>\<open>threads\<close> after both
  \<^verbatim>\<open>pthread_create\<close> calls have stored into it. An owner is \<open>None\<close> for the value 0. The program
  counter of a worker names the point between two critical sections at which it stands; \<open>wl_sig t\<close>
  says that the condition variable on which \<open>t\<close> waits has been broadcast since it began to wait.
\<close>

definition wl_threads :: "nat list" where
  "wl_threads = [0, 1]"

definition index_of :: "nat list \<Rightarrow> nat \<Rightarrow> int" where
  "index_of threads thread =
     (if threads ! 0 = thread then 0 else if threads ! 1 = thread then 1 else - 1)"

datatype wl_pc = WStart | WWait1 | WGot1 | WAborted1 | WHold1 | WWait2 | WGot2 | WAborted2 | WBoth | WRel | WDone

datatype wl_mpc = MPoll | MDetected | MWake nat | MDone

record wl_state =
  wl_owner :: "nat \<Rightarrow> nat option"
  wl_wait_for :: wfg
  wl_abort :: "nat \<Rightarrow> bool"
  wl_sig :: "nat \<Rightarrow> bool"
  wl_pc :: "nat \<Rightarrow> wl_pc"
  wl_mpc :: wl_mpc
  wl_out :: outs

definition wl_first :: "nat \<Rightarrow> nat" where
  "wl_first tid = (if tid = 0 then 0 else 1)"

definition wl_second :: "nat \<Rightarrow> nat" where
  "wl_second tid = (if tid = 0 then 1 else 0)"

definition wl_say :: "outs \<Rightarrow> wl_state \<Rightarrow> wl_state" where
  "wl_say msg s = s\<lparr>wl_out := wl_out s @ msg\<rparr>"

definition wl_goto :: "nat \<Rightarrow> wl_pc \<Rightarrow> wl_state \<Rightarrow> wl_state" where
  "wl_goto t p s = s\<lparr>wl_pc := (wl_pc s)(t := p)\<rparr>"

text \<open>
  \<open>acquire_test\<close> is the loop condition of \<^verbatim>\<open>track_acquire\<close> with the two ways on: block in
  \<^verbatim>\<open>pthread_cond_wait\<close> after recording the edge, or take the lock. \<open>acquire_wake\<close> is the rest of
  the loop body after the wait, and \<open>acquire_clear\<close> the removal of the edges after the lock is taken,
  which the monitor may observe separately.
\<close>

definition acquire_test :: "nat \<Rightarrow> nat \<Rightarrow> wl_pc \<Rightarrow> wl_pc \<Rightarrow> wl_state \<Rightarrow> wl_state" where
  "acquire_test self lk waiting got s =
     (let self_idx = index_of wl_threads self
      in case wl_owner s lk of
           None \<Rightarrow> wl_goto self got (s\<lparr>wl_owner := (wl_owner s)(lk := Some self)\<rparr>)
         | Some ow \<Rightarrow>
             if ow \<noteq> self then
               (let owner_idx = index_of wl_threads ow;
                    g = (if self_idx \<ge> 0 \<and> owner_idx \<ge> 0
                         then wfg_add_edge (wl_wait_for s) (nat self_idx) (nat owner_idx) else wl_wait_for s)
                in wl_goto self waiting (s\<lparr>wl_wait_for := g, wl_sig := (wl_sig s)(self := False)\<rparr>))
             else wl_goto self got (s\<lparr>wl_owner := (wl_owner s)(lk := Some self)\<rparr>))"

definition acquire_clear :: "nat \<Rightarrow> wl_pc \<Rightarrow> wl_state \<Rightarrow> wl_state" where
  "acquire_clear self next s =
     (let self_idx = index_of wl_threads self
      in wl_goto self next
           (if self_idx \<ge> 0 then s\<lparr>wl_wait_for := wfg_remove_all_from (wl_wait_for s) (nat self_idx)\<rparr> else s))"

definition acquire_wake :: "nat \<Rightarrow> nat \<Rightarrow> wl_pc \<Rightarrow> wl_pc \<Rightarrow> wl_pc \<Rightarrow> wl_state \<Rightarrow> wl_state" where
  "acquire_wake self lk waiting got failed s =
     (let self_idx = index_of wl_threads self
      in if self_idx \<ge> 0 \<and> wl_abort s (nat self_idx) then acquire_clear self failed s
         else acquire_test self lk waiting got s)"

definition wl_waits :: "wl_state \<Rightarrow> nat \<Rightarrow> nat \<Rightarrow> bool" where
  "wl_waits s t lk \<longleftrightarrow>
     (wl_pc s t = WWait1 \<and> wl_first t = lk) \<or> (wl_pc s t = WWait2 \<and> wl_second t = lk)"

definition wl_broadcast :: "nat \<Rightarrow> wl_state \<Rightarrow> wl_state" where
  "wl_broadcast lk s = s\<lparr>wl_sig := (\<lambda>t. wl_sig s t \<or> wl_waits s t lk)\<rparr>"

definition track_release :: "nat \<Rightarrow> nat \<Rightarrow> wl_state \<Rightarrow> wl_state" where
  "track_release self lk s =
     (if wl_owner s lk = Some self
      then wl_broadcast lk (s\<lparr>wl_owner := (wl_owner s)(lk := None)\<rparr>) else s)"

definition wl_worker :: "nat \<Rightarrow> wl_state \<Rightarrow> wl_state" where
  "wl_worker tid s =
     (let say = (\<lambda>txt. wl_say [Txt ''T'', Num (int tid), Txt txt])
      in case wl_pc s tid of
        WStart \<Rightarrow> acquire_test tid (wl_first tid) WWait1 WGot1 (say '': acquiring first'' s)
      | WWait1 \<Rightarrow> acquire_wake tid (wl_first tid) WWait1 WGot1 WAborted1 s
      | WGot1 \<Rightarrow> acquire_clear tid WHold1 s
      | WAborted1 \<Rightarrow> wl_goto tid WDone (say '': aborted early'' s)
      | WHold1 \<Rightarrow> acquire_test tid (wl_second tid) WWait2 WGot2 (say '': acquiring second (may deadlock)'' s)
      | WWait2 \<Rightarrow> acquire_wake tid (wl_second tid) WWait2 WGot2 WAborted2 s
      | WGot2 \<Rightarrow> acquire_clear tid WBoth s
      | WAborted2 \<Rightarrow> wl_goto tid WDone (track_release tid (wl_first tid)
                       (say '': aborted while waiting second. Releasing first.'' s))
      | WBoth \<Rightarrow> wl_goto tid WRel (track_release tid (wl_second tid) (say '': got both. Doing work.'' s))
      | WRel \<Rightarrow> wl_goto tid WDone (say '': done.'' (track_release tid (wl_first tid) s))
      | WDone \<Rightarrow> s)"

definition monitor_function :: "wl_state \<Rightarrow> wl_state" where
  "monitor_function s =
     (case wl_mpc s of
        MPoll \<Rightarrow> (case has_cycle (wl_wait_for s) of
                    Inr cyc \<Rightarrow> if cyc then s\<lparr>wl_mpc := MDetected\<rparr> else s
                  | Inl e \<Rightarrow> s)
      | MDetected \<Rightarrow> (let victim = 1
                      in wl_say (dump_wfg (wl_wait_for s) @ [Txt ''Deadlock detected. Aborting T'', Num (int victim)])
                           (s\<lparr>wl_abort := (wl_abort s)(victim := True), wl_mpc := MWake 0\<rparr>))
      | MWake i \<Rightarrow> (let s' = wl_broadcast i s
                     in s'\<lparr>wl_mpc := (if Suc i < 2 then MWake (Suc i) else MDone)\<rparr>)
      | MDone \<Rightarrow> s)"

definition wl_init :: wl_state where
  "wl_init = \<lparr>wl_owner = (\<lambda>_. None), wl_wait_for = wfg_empty, wl_abort = (\<lambda>_. False),
     wl_sig = (\<lambda>_. False), wl_pc = (\<lambda>_. WStart), wl_mpc = MPoll, wl_out = []\<rparr>"

text \<open>
  \<open>wl_step\<close> lets any unfinished thread take its next step, a blocked worker included (a spurious
  wake-up); \<open>wl_live\<close> are the steps that do not depend on spurious wake-ups and that are not a poll
  of the monitor without effect.
\<close>

inductive wl_step :: "wl_state \<Rightarrow> wl_state \<Rightarrow> bool" where
  step_worker: "t < 2 \<Longrightarrow> wl_pc s t \<noteq> WDone \<Longrightarrow> wl_step s (wl_worker t s)"
| step_monitor: "wl_mpc s \<noteq> MDone \<Longrightarrow> wl_step s (monitor_function s)"

inductive wl_live :: "wl_state \<Rightarrow> wl_state \<Rightarrow> bool" where
  live_worker: "t < 2 \<Longrightarrow> wl_pc s t \<noteq> WDone \<Longrightarrow> (wl_pc s t \<in> {WWait1, WWait2} \<longrightarrow> wl_sig s t)
      \<Longrightarrow> wl_live s (wl_worker t s)"
| live_monitor: "wl_mpc s \<noteq> MDone \<Longrightarrow> (wl_mpc s = MPoll \<longrightarrow> has_cycle (wl_wait_for s) = Inr True)
      \<Longrightarrow> wl_live s (monitor_function s)"

definition wl_reachable :: "wl_state \<Rightarrow> bool" where
  "wl_reachable s \<longleftrightarrow> wl_step\<^sup>*\<^sup>* wl_init s"


subsection \<open>The invariant\<close>

text \<open>
  The first lock of worker \<open>t\<close> is lock \<open>t\<close>, its second is the first lock of the other worker \<open>u\<close>.
  What a worker holds follows from its program counter; \<open>wl_next\<close> is the effect of a step of \<open>t\<close> on
  its counter, its edge to \<open>u\<close> and the two signals, and \<open>wl_worker_sim\<close> shows that the step of the
  program has exactly this effect. The invariant is then stated over these finite components.
\<close>

definition wl_held1 :: "wl_pc \<Rightarrow> bool" where
  "wl_held1 p \<longleftrightarrow> p \<in> {WGot1, WHold1, WWait2, WGot2, WAborted2, WBoth, WRel}"

definition wl_held2 :: "wl_pc \<Rightarrow> bool" where
  "wl_held2 p \<longleftrightarrow> p \<in> {WGot2, WBoth}"

definition wl_own :: "nat \<Rightarrow> nat \<Rightarrow> wl_pc \<Rightarrow> wl_pc \<Rightarrow> nat option" where
  "wl_own t u p q = (if wl_held1 p then Some t else if wl_held2 q then Some u else None)"

definition wl_rep :: "wl_state \<Rightarrow> bool" where
  "wl_rep s \<longleftrightarrow> wl_owner s 0 = wl_own 0 1 (wl_pc s 0) (wl_pc s 1) \<and> wl_owner s 1 = wl_own 1 0 (wl_pc s 1) (wl_pc s 0)
     \<and> (\<forall>i j. wl_wait_for s i j \<longrightarrow> (i, j) \<in> {(0, 1), (1, 0)})"

fun wl_next :: "wl_pc \<Rightarrow> wl_pc \<Rightarrow> bool \<Rightarrow> bool \<Rightarrow> bool \<Rightarrow> bool \<Rightarrow> wl_pc \<times> bool \<times> bool \<times> bool" where
  "wl_next WStart q ab w st su = (if wl_held2 q then (WWait1, True, False, su) else (WGot1, w, st, su))"
| "wl_next WWait1 q ab w st su =
     (if ab then (WAborted1, False, st, su)
      else if wl_held2 q then (WWait1, True, False, su) else (WGot1, w, st, su))"
| "wl_next WGot1 q ab w st su = (WHold1, False, st, su)"
| "wl_next WAborted1 q ab w st su = (WDone, w, st, su)"
| "wl_next WHold1 q ab w st su = (if wl_held1 q then (WWait2, True, False, su) else (WGot2, w, st, su))"
| "wl_next WWait2 q ab w st su =
     (if ab then (WAborted2, False, st, su)
      else if wl_held1 q then (WWait2, True, False, su) else (WGot2, w, st, su))"
| "wl_next WGot2 q ab w st su = (WBoth, False, st, su)"
| "wl_next WAborted2 q ab w st su = (WDone, w, st, su \<or> q = WWait2)"
| "wl_next WBoth q ab w st su = (WRel, w, st, su \<or> q = WWait1)"
| "wl_next WRel q ab w st su = (WDone, w, st, su \<or> q = WWait2)"
| "wl_next WDone q ab w st su = (WDone, w, st, su)"

lemma index_of_thread [simp]: "t < 2 \<Longrightarrow> index_of wl_threads t = int t"
  by (auto simp: index_of_def wl_threads_def)

definition wl_sim :: "nat \<Rightarrow> nat \<Rightarrow> wl_state \<Rightarrow> wl_state \<Rightarrow> bool" where
  "wl_sim t u s s' \<longleftrightarrow>
     wl_next (wl_pc s t) (wl_pc s u) (wl_abort s t) (wl_wait_for s t u) (wl_sig s t) (wl_sig s u)
       = (wl_pc s' t, wl_wait_for s' t u, wl_sig s' t, wl_sig s' u)
     \<and> wl_pc s' u = wl_pc s u \<and> wl_wait_for s' u t = wl_wait_for s u t
     \<and> wl_abort s' = wl_abort s \<and> wl_mpc s' = wl_mpc s
     \<and> wl_owner s' t = wl_own t u (wl_pc s' t) (wl_pc s u) \<and> wl_owner s' u = wl_own u t (wl_pc s u) (wl_pc s' t)
     \<and> (\<forall>i j. wl_wait_for s' i j \<longrightarrow> wl_wait_for s i j \<or> (i = t \<and> j = u))"

lemma wl_worker_sim:
  assumes "t < 2" and "u < 2" and "t \<noteq> u" and "\<not> (wl_held1 (wl_pc s t) \<and> wl_held2 (wl_pc s u))"
    and "\<not> (wl_held1 (wl_pc s u) \<and> wl_held2 (wl_pc s t))" and "wl_pc s t \<noteq> WAborted1"
    and "wl_owner s t = wl_own t u (wl_pc s t) (wl_pc s u)" and "wl_owner s u = wl_own u t (wl_pc s u) (wl_pc s t)"
  shows "wl_sim t u s (wl_worker t s)"
proof -
  have l: "wl_first t = t" "wl_second t = u" "wl_first u = u" "wl_second u = t"
    using assms(1-3) by (auto simp: wl_first_def wl_second_def)
  show ?thesis
    using assms
    by (cases "wl_pc s t")
       (auto simp: l wl_sim_def wl_worker_def wl_own_def wl_held1_def wl_held2_def
         acquire_test_def acquire_clear_def acquire_wake_def track_release_def wl_broadcast_def
         wl_waits_def wl_goto_def wl_say_def wfg_remove_all_from_apply MAXIMUM_THREADS_def)
qed

lemma wl_sim_rep:
  assumes sim: "wl_sim t u s s'" and rep: "wl_rep s" and tu: "(t, u) \<in> {(0, 1), (1, 0)}"
  shows "wl_rep s'"
proof -
  have pc: "wl_pc s' u = wl_pc s u" and own: "wl_owner s' t = wl_own t u (wl_pc s' t) (wl_pc s u)"
    "wl_owner s' u = wl_own u t (wl_pc s u) (wl_pc s' t)"
    and e: "\<And>i j. wl_wait_for s' i j \<Longrightarrow> wl_wait_for s i j \<or> (i, j) = (t, u)"
    using sim by (simp_all add: wl_sim_def)
  have "(i, j) \<in> {(0, 1), (1, 0)}" if "wl_wait_for s' i j" for i j
    using e [OF that] rep tu unfolding wl_rep_def by metis
  with tu pc own show ?thesis by (auto simp: wl_rep_def)
qed

definition wl_side :: "wl_pc \<Rightarrow> wl_pc \<Rightarrow> bool \<Rightarrow> bool \<Rightarrow> bool" where
  "wl_side p q w sg \<longleftrightarrow>
     \<not> (wl_held1 p \<and> wl_held2 q) \<and>
     (w \<longrightarrow> p \<in> {WWait1, WGot1, WWait2, WGot2} \<and> (wl_held1 q \<or> q = WDone)) \<and>
     (p \<in> {WWait1, WWait2} \<longrightarrow> w) \<and>
     (w \<and> p \<in> {WWait1, WGot1} \<longrightarrow> q \<in> {WGot2, WBoth, WRel, WDone}) \<and>
     (w \<and> p = WGot2 \<longrightarrow> q = WDone) \<and>
     (p = WWait1 \<and> \<not> sg \<longrightarrow> wl_held2 q) \<and> (p = WWait2 \<and> \<not> sg \<longrightarrow> wl_held1 q) \<and>
     p \<noteq> WAborted1"

definition wl_mon :: "wl_pc \<Rightarrow> wl_pc \<Rightarrow> bool \<Rightarrow> bool \<Rightarrow> wl_mpc \<Rightarrow> bool" where
  "wl_mon p0 p1 sg1 ab1 m \<longleftrightarrow>
     m \<in> {MPoll, MDetected, MWake 0, MWake 1, MDone} \<and>
     (ab1 \<longleftrightarrow> m \<in> {MWake 0, MWake 1, MDone}) \<and>
     (m = MDetected \<longrightarrow> p0 = WWait2 \<and> p1 = WWait2) \<and>
     (ab1 \<longrightarrow> p1 \<in> {WWait2, WAborted2, WDone}) \<and> p0 \<noteq> WAborted2 \<and> (p1 = WAborted2 \<longrightarrow> ab1) \<and>
     (m \<in> {MWake 1, MDone} \<and> p1 = WWait2 \<longrightarrow> sg1)"

definition wl_inv :: "wl_state \<Rightarrow> bool" where
  "wl_inv s \<longleftrightarrow> wl_rep s \<and> \<not> wl_abort s 0 \<and>
     wl_side (wl_pc s 0) (wl_pc s 1) (wl_wait_for s 0 1) (wl_sig s 0) \<and>
     wl_side (wl_pc s 1) (wl_pc s 0) (wl_wait_for s 1 0) (wl_sig s 1) \<and>
     wl_mon (wl_pc s 0) (wl_pc s 1) (wl_sig s 1) (wl_abort s 1) (wl_mpc s)"

lemma wl_sideD:
  assumes "wl_side p q w sg"
  shows "\<not> (wl_held1 p \<and> wl_held2 q)" and "p \<noteq> WAborted1"
  using assms unfolding wl_side_def by blast+

lemma wl_side_mutual:
  assumes "wl_side p q w sg" and "wl_side q p w' sg'"
  shows "w \<and> w' \<longleftrightarrow> p = WWait2 \<and> q = WWait2"
  using assms by (cases p; cases q) (auto simp: wl_side_def wl_held1_def)

lemma wl_side_blocked:
  assumes "wl_side p q w sg" and "wl_side q p w' sg'" and "p \<noteq> WDone \<or> q \<noteq> WDone"
    and "p = WDone \<or> p \<in> {WWait1, WWait2} \<and> \<not> sg" and "q = WDone \<or> q \<in> {WWait1, WWait2} \<and> \<not> sg'"
  shows "p = WWait2 \<and> q = WWait2 \<and> \<not> sg'"
  using assms by (cases p; cases q) (auto simp: wl_side_def wl_held1_def wl_held2_def)

lemma wl_next_side:
  assumes "wl_side p q w st" and "wl_side q p w' su" and "ab \<longrightarrow> p \<in> {WWait2, WAborted2, WDone}"
    and "wl_next p q ab w st su = (p', w1, st', su')"
  shows "wl_side p' q w1 st' \<and> wl_side q p' w' su'"
  using assms by (cases p; cases q) (auto simp: wl_side_def wl_held1_def wl_held2_def split: if_splits)

lemma wl_next_mon0:
  assumes "wl_side p0 p1 w0 sg0" and "wl_side p1 p0 w1 sg1" and "wl_mon p0 p1 sg1 ab1 m"
    and "wl_next p0 p1 False w0 sg0 sg1 = (p0', w0', sg0', sg1')"
  shows "wl_mon p0' p1 sg1' ab1 m"
  using assms by (cases p0; cases p1) (auto simp: wl_side_def wl_mon_def wl_held1_def wl_held2_def split: if_splits)

lemma wl_next_mon1:
  assumes "wl_side p0 p1 w0 sg0" and "wl_side p1 p0 w1 sg1" and "wl_mon p0 p1 sg1 ab1 m"
    and "wl_next p1 p0 ab1 w1 sg1 sg0 = (p1', w1', sg1', sg0')"
  shows "wl_mon p0 p1' sg1' ab1 m"
  using assms by (cases p0; cases p1) (auto simp: wl_side_def wl_mon_def wl_held1_def wl_held2_def split: if_splits)

lemma wl_inv_sim:
  assumes "wl_inv s"
  shows "wl_sim 0 1 s (wl_worker 0 s)" and "wl_sim 1 0 s (wl_worker 1 s)"
proof -
  have s0: "wl_side (wl_pc s 0) (wl_pc s 1) (wl_wait_for s 0 1) (wl_sig s 0)"
    and s1: "wl_side (wl_pc s 1) (wl_pc s 0) (wl_wait_for s 1 0) (wl_sig s 1)"
    using assms by (simp_all add: wl_inv_def)
  have own: "wl_owner s 0 = wl_own 0 1 (wl_pc s 0) (wl_pc s 1)" "wl_owner s 1 = wl_own 1 0 (wl_pc s 1) (wl_pc s 0)"
    using assms unfolding wl_inv_def wl_rep_def by blast+
  note side = wl_sideD [OF s0] wl_sideD [OF s1]
  show "wl_sim 0 1 s (wl_worker 0 s)" using own side by (intro wl_worker_sim) simp_all
  show "wl_sim 1 0 s (wl_worker 1 s)" using own side by (intro wl_worker_sim) simp_all
qed

lemma wl_worker_inv:
  assumes "wl_inv s" and "t < 2"
  shows "wl_inv (wl_worker t s)"
proof -
  have rep: "wl_rep s" and ab0: "\<not> wl_abort s 0"
    and s0: "wl_side (wl_pc s 0) (wl_pc s 1) (wl_wait_for s 0 1) (wl_sig s 0)"
    and s1: "wl_side (wl_pc s 1) (wl_pc s 0) (wl_wait_for s 1 0) (wl_sig s 1)"
    and m: "wl_mon (wl_pc s 0) (wl_pc s 1) (wl_sig s 1) (wl_abort s 1) (wl_mpc s)"
    using assms(1) by (simp_all add: wl_inv_def)
  have ab1: "wl_abort s 1 \<longrightarrow> wl_pc s 1 \<in> {WWait2, WAborted2, WDone}" using m by (simp add: wl_mon_def)
  from assms(2) consider "t = 0" | "t = 1" by linarith
  then show ?thesis
  proof cases
    case 1
    note sim = wl_inv_sim(1) [OF assms(1)]
    from sim have nx: "wl_next (wl_pc s 0) (wl_pc s 1) False (wl_wait_for s 0 1) (wl_sig s 0) (wl_sig s 1)
        = (wl_pc (wl_worker 0 s) 0, wl_wait_for (wl_worker 0 s) 0 1, wl_sig (wl_worker 0 s) 0, wl_sig (wl_worker 0 s) 1)"
      using ab0 by (simp add: wl_sim_def)
    have "wl_rep (wl_worker 0 s)" using wl_sim_rep [OF sim rep] by simp
    with 1 sim ab0 wl_next_side [OF s0 s1 _ nx] wl_next_mon0 [OF s0 s1 m nx] show ?thesis
      by (simp add: wl_inv_def wl_sim_def)
  next
    case 2
    note sim = wl_inv_sim(2) [OF assms(1)]
    from sim have nx: "wl_next (wl_pc s 1) (wl_pc s 0) (wl_abort s 1) (wl_wait_for s 1 0) (wl_sig s 1) (wl_sig s 0)
        = (wl_pc (wl_worker 1 s) 1, wl_wait_for (wl_worker 1 s) 1 0, wl_sig (wl_worker 1 s) 1, wl_sig (wl_worker 1 s) 0)"
      by (simp add: wl_sim_def)
    have "wl_rep (wl_worker 1 s)" using wl_sim_rep [OF sim rep] by simp
    with 2 sim ab0 wl_next_side [OF s1 s0 ab1 nx] wl_next_mon1 [OF s0 s1 m nx] show ?thesis
      by (simp add: wl_inv_def wl_sim_def)
  qed
qed

text \<open>Under the invariant a cycle is the mutual wait of the two workers, each holding its first lock.\<close>

lemma wl_cycle_iff:
  assumes "wl_inv s"
  shows "has_cycle (wl_wait_for s) = Inr (wl_pc s 0 = WWait2 \<and> wl_pc s 1 = WWait2)"
proof -
  have e: "wfg_edges (wl_wait_for s) \<subseteq> {(0, 1), (1, 0)}"
    using assms by (auto simp: wl_inv_def wl_rep_def wfg_edges_def)
  have "wl_wait_for s 0 1 \<and> wl_wait_for s 1 0 \<longleftrightarrow> wl_pc s 0 = WWait2 \<and> wl_pc s 1 = WWait2"
    using assms wl_side_mutual [of "wl_pc s 0" "wl_pc s 1" "wl_wait_for s 0 1"] unfolding wl_inv_def by blast
  moreover have "(\<exists>t. (t, t) \<in> (wfg_edges (wl_wait_for s))\<^sup>+) \<longleftrightarrow> wl_wait_for s 0 1 \<and> wl_wait_for s 1 0"
  proof (cases "wl_wait_for s 0 1 \<and> wl_wait_for s 1 0")
    case True
    then have "(0, 1) \<in> wfg_edges (wl_wait_for s)" "(1, 0) \<in> wfg_edges (wl_wait_for s)"
      by (simp_all add: wfg_edges_def MAXIMUM_THREADS_def)
    then have "(0, 0) \<in> (wfg_edges (wl_wait_for s))\<^sup>+" by (meson r_into_trancl trancl_into_trancl)
    with True show ?thesis by blast
  next
    case False
    then have "wfg_edges (wl_wait_for s) \<subseteq> {(0, 1)} \<or> wfg_edges (wl_wait_for s) \<subseteq> {(1, 0)}"
      using e by (auto simp: wfg_edges_def)
    moreover have "(t, t) \<notin> {(a, b)}\<^sup>+" if "a \<noteq> b" for t a b :: nat
      using that by (auto elim: tranclE converse_tranclE)
    ultimately show ?thesis using False by (metis trancl_mono zero_neq_one)
  qed
  ultimately show ?thesis by (simp add: has_cycle_iff)
qed

lemma wl_monitor_inv:
  assumes "wl_inv s"
  shows "wl_inv (monitor_function s)"
proof (cases "wl_mpc s")
  case MPoll
  then show ?thesis using assms wl_cycle_iff [OF assms]
    by (auto simp: monitor_function_def wl_inv_def wl_rep_def wl_mon_def)
next
  case MDetected
  then show ?thesis using assms
    by (auto simp: monitor_function_def wl_inv_def wl_rep_def wl_mon_def wl_say_def)
next
  case (MWake i)
  then have "i = 0 \<or> i = 1" using assms by (auto simp: wl_inv_def wl_mon_def)
  moreover have "wl_side p q w (sg \<or> b)" if "wl_side p q w sg" for p q w sg b
    using that by (auto simp: wl_side_def)
  ultimately show ?thesis using assms MWake
    by (elim disjE) (simp_all add: monitor_function_def wl_inv_def wl_rep_def wl_mon_def wl_broadcast_def wl_waits_def
        wl_first_def wl_second_def)
next
  case MDone
  then show ?thesis using assms by (simp add: monitor_function_def)
qed

lemma wl_inv_init: "wl_inv wl_init"
  by (simp add: wl_inv_def wl_rep_def wl_own_def wl_side_def wl_mon_def wl_init_def wl_held1_def wl_held2_def wfg_empty_def)

lemma wl_step_inv: "wl_step s s' \<Longrightarrow> wl_inv s \<Longrightarrow> wl_inv s'"
  by (induction rule: wl_step.induct) (simp_all add: wl_worker_inv wl_monitor_inv)

lemma wl_reachable_inv: "wl_reachable s \<Longrightarrow> wl_inv s"
  unfolding wl_reachable_def by (induction rule: rtranclp_induct) (auto intro: wl_inv_init wl_step_inv)

lemma wl_reachable_init: "wl_reachable wl_init"
  by (simp add: wl_reachable_def)

lemma wl_reachable_worker:
  assumes "wl_reachable s" and "t < 2"
  shows "wl_reachable (wl_worker t s)"
proof (cases "wl_pc s t = WDone")
  case True
  then show ?thesis using assms by (simp add: wl_worker_def)
next
  case False
  with assms show ?thesis unfolding wl_reachable_def by (meson rtranclp.rtrancl_into_rtrancl step_worker)
qed

lemma wl_reachable_run:
  assumes "wl_reachable s" and "set sched \<subseteq> {..<2}"
  shows "wl_reachable (foldl (\<lambda>s t. wl_worker t s) s sched)"
  using assms by (induction sched arbitrary: s) (auto simp: wl_reachable_worker)

subsection \<open>Progress\<close>

fun wl_rank :: "wl_pc \<Rightarrow> nat" where
  "wl_rank WStart = 10" | "wl_rank WWait1 = 9" | "wl_rank WGot1 = 8" | "wl_rank WHold1 = 7"
| "wl_rank WWait2 = 6" | "wl_rank WGot2 = 5" | "wl_rank WBoth = 4" | "wl_rank WRel = 3"
| "wl_rank WAborted2 = 2" | "wl_rank WAborted1 = 1" | "wl_rank WDone = 0"

fun wl_mrank :: "wl_mpc \<Rightarrow> nat" where
  "wl_mrank MPoll = 4" | "wl_mrank MDetected = 3" | "wl_mrank (MWake i) = 2 - i" | "wl_mrank MDone = 0"

definition wl_measure :: "wl_state \<Rightarrow> nat" where
  "wl_measure s = 4 * (wl_rank (wl_pc s 0) + wl_rank (wl_pc s 1) + wl_mrank (wl_mpc s))
     + of_bool (wl_sig s 0) + of_bool (wl_sig s 1)"

lemma wl_next_rank:
  assumes "wl_next p q ab w st su = (p', w', st', su')" and "p \<noteq> WDone" and "p \<in> {WWait1, WWait2} \<longrightarrow> st"
  shows "4 * wl_rank p' + of_bool st' + of_bool su' < 4 * wl_rank p + of_bool st + of_bool su"
  using assms by (cases p) (auto split: if_splits)

lemma wl_live_decreases:
  assumes "wl_live s s'" and inv: "wl_inv s"
  shows "wl_measure s' < wl_measure s"
  using assms(1)
proof cases
  case (live_worker t)
  from live_worker(2) consider "t = 0" | "t = 1" by linarith
  then show ?thesis
  proof cases
    case 1
    with wl_inv_sim(1) [OF inv] live_worker wl_next_rank show ?thesis
      by (fastforce simp: wl_sim_def wl_measure_def)
  next
    case 2
    with wl_inv_sim(2) [OF inv] live_worker wl_next_rank show ?thesis
      by (fastforce simp: wl_sim_def wl_measure_def)
  qed
next
  case live_monitor
  have "wl_mpc s \<in> {MPoll, MDetected, MWake 0, MWake 1, MDone}" using inv by (simp add: wl_inv_def wl_mon_def)
  with live_monitor show ?thesis
    by (auto simp: monitor_function_def wl_measure_def wl_say_def wl_broadcast_def)
qed

lemma wl_not_stuck:
  assumes inv: "wl_inv s" and "wl_pc s 0 \<noteq> WDone \<or> wl_pc s 1 \<noteq> WDone"
  shows "\<exists>s'. wl_live s s'"
proof (rule ccontr)
  assume none: "\<nexists>s'. wl_live s s'"
  then have blocked: "wl_pc s t = WDone \<or> wl_pc s t \<in> {WWait1, WWait2} \<and> \<not> wl_sig s t" if "t < 2" for t
    using that live_worker [of t s] by auto
  have s0: "wl_side (wl_pc s 0) (wl_pc s 1) (wl_wait_for s 0 1) (wl_sig s 0)"
    and s1: "wl_side (wl_pc s 1) (wl_pc s 0) (wl_wait_for s 1 0) (wl_sig s 1)"
    and m: "wl_mon (wl_pc s 0) (wl_pc s 1) (wl_sig s 1) (wl_abort s 1) (wl_mpc s)"
    using inv by (simp_all add: wl_inv_def)
  have both: "wl_pc s 0 = WWait2 \<and> wl_pc s 1 = WWait2 \<and> \<not> wl_sig s 1"
    using wl_side_blocked [OF s0 s1 assms(2) blocked blocked] by simp
  then have "wl_mpc s \<noteq> MDone" using m by (auto simp: wl_mon_def)
  moreover have "has_cycle (wl_wait_for s) = Inr True" using wl_cycle_iff [OF inv] both by simp
  ultimately show False using none live_monitor by blast
qed

text \<open>
  C29. The depth-first search always returns, and it returns 1 exactly when some thread waits,
  through a chain of wait-for edges, for itself.
\<close>

theorem has_cycle_decides:
  "has_cycle g = Inr (\<exists>t. (t, t) \<in> (wfg_edges g)\<^sup>+)"
  by (rule has_cycle_iff)

text \<open>
  In every reachable state the monitor's test is exact: it reports a cycle if and only if each
  worker is blocked on a lock that the other one holds, so no abort is ever ordered without a real
  deadlock; and only worker 1 is ever aborted.
\<close>

theorem deadlock_detection_exact:
  assumes "wl_reachable s"
  shows "has_cycle (wl_wait_for s) =
      Inr (wl_waits s 0 1 \<and> wl_owner s 1 = Some 1 \<and> wl_waits s 1 0 \<and> wl_owner s 0 = Some 0)
    \<and> \<not> wl_abort s 0"
proof -
  note inv = wl_reachable_inv [OF assms]
  have "wl_waits s 0 1 \<longleftrightarrow> wl_pc s 0 = WWait2" "wl_waits s 1 0 \<longleftrightarrow> wl_pc s 1 = WWait2"
    by (simp_all add: wl_waits_def wl_first_def wl_second_def)
  moreover have "wl_pc s 0 = WWait2 \<Longrightarrow> wl_owner s 0 = Some 0" "wl_pc s 1 = WWait2 \<Longrightarrow> wl_owner s 1 = Some 1"
    using inv by (simp_all add: wl_inv_def wl_rep_def wl_own_def wl_held1_def)
  moreover have "\<not> wl_abort s 0" using inv by (simp add: wl_inv_def)
  ultimately show ?thesis using wl_cycle_iff [OF inv] by auto
qed

theorem deadlock_detection_exact_witness:
  defines "s \<equiv> foldl (\<lambda>s t. wl_worker t s) wl_init [0, 0, 1, 1, 0, 1]"
  shows "has_cycle (wl_wait_for s) = Inr True \<and> \<not> wl_abort s 0"
proof -
  have r: "wl_reachable s" unfolding s_def by (rule wl_reachable_run [OF wl_reachable_init]) simp
  have "wl_waits s 0 1 \<and> wl_owner s 1 = Some 1 \<and> wl_waits s 1 0 \<and> wl_owner s 0 = Some 0"
    unfolding s_def by code_simp
  with deadlock_detection_exact [OF r] show ?thesis by simp
qed

text \<open>
  C9. The demo always gets out of the deadlock: from no reachable state is there an infinite run of
  effective steps, and a run can only stop when both workers have returned. No spurious wake-up is
  needed for this.
\<close>

theorem deadlock_always_resolved:
  "wf {(s', s). wl_reachable s \<and> wl_live s s'}
   \<and> (\<forall>s. wl_reachable s \<and> (\<nexists>s'. wl_live s s') \<longrightarrow> wl_pc s 0 = WDone \<and> wl_pc s 1 = WDone)"
proof -
  have "{(s', s). wl_reachable s \<and> wl_live s s'} \<subseteq> measure wl_measure"
    using wl_live_decreases wl_reachable_inv by auto
  then have "wf {(s', s). wl_reachable s \<and> wl_live s s'}" by (rule wf_subset [OF wf_measure])
  then show ?thesis using wl_not_stuck wl_reachable_inv by blast
qed

theorem deadlock_always_resolved_witness:
  "\<exists>s'. wl_live wl_init s'"
proof -
  have "wl_pc wl_init 0 \<noteq> WDone" by (simp add: wl_init_def)
  with deadlock_always_resolved wl_reachable_init show ?thesis by blast
qed

text \<open>
  When the workers happen not to collide, the monitor never returns: there is a reachable state
  in which both workers are done and whose only step is a poll of the monitor that changes nothing,
  so the final join of \<^verbatim>\<open>main\<close> blocks for ever and \<^verbatim>\<open>Demo complete.\<close> is not printed.
\<close>

theorem monitor_never_returns:
  "\<exists>s. wl_reachable s \<and> wl_pc s 0 = WDone \<and> wl_pc s 1 = WDone \<and> wl_mpc s = MPoll \<and> {s'. wl_step s s'} = {s}"
proof -
  let ?s = "foldl (\<lambda>s t. wl_worker t s) wl_init [0, 0, 0, 0, 0, 0, 1, 1, 1, 1, 1, 1]"
  have r: "wl_reachable ?s" by (rule wl_reachable_run [OF wl_reachable_init]) simp
  have pc: "wl_pc ?s 0 = WDone \<and> wl_pc ?s 1 = WDone \<and> wl_mpc ?s = MPoll" by code_simp
  have "monitor_function ?s = ?s"
    using wl_cycle_iff [OF wl_reachable_inv [OF r]] pc by (simp add: monitor_function_def del: foldl_Cons)
  moreover have "t = 0 \<or> t = 1" if "t < 2" for t :: nat using that by linarith
  ultimately have "{s'. wl_step ?s s'} = {?s}"
    using pc by (auto simp: wl_step.simps simp del: foldl_Cons)
  with r pc show ?thesis by blast
qed

end
