(* ===== verification/Mvcc.thy ===== *)
theory Mvcc
  imports Interfaces "HOL-Library.Word"
begin

text \<open>
  Multi-version concurrency control: the transactional key-value store
  \<^verbatim>\<open>concurrency-and-multithreading/s_mem_key_value_stored_with_mvcc.c\<close> and the single-row demo
  \<^verbatim>\<open>concurrency-and-multithreading/mvcc_demo.c\<close>.

  In the store every operation is one step. A commit holds the locks of all the keys that it writes
  from before it draws its timestamp until its versions are installed, versions are only accessed
  under the lock of their key, and the rest of a transaction belongs to its own thread; a commit is
  therefore atomic for every other operation. In the demo a commit draws its timestamp before it
  locks the row, so there a commit is two steps.

  A C string is the list of its characters before the terminating zero. Timestamps are numbers; it
  is shown that the 64-bit counter of the store never wraps.
\<close>

section \<open>The transactional store\<close>

subsection \<open>Keys\<close>

definition mv_MAX_KEYS :: nat where
  "mv_MAX_KEYS = 128"

definition mv_MAX_KEY_LEN :: nat where
  "mv_MAX_KEY_LEN = 64"

definition mv_MAX_VALUE_LEN :: nat where
  "mv_MAX_VALUE_LEN = 256"

definition mv_MAX_TXNS :: nat where
  "mv_MAX_TXNS = 256"

record mv_version =
  ver_value :: string
  ver_commit_ts :: nat

record mv_entry =
  ke_key :: string
  ke_versions :: "mv_version list"
  ke_used :: bool

type_synonym mv_store = "mv_entry list"

definition mv_djb2 :: "string \<Rightarrow> 64 word" where
  "mv_djb2 k = fold (\<lambda>c h. (push_bit 5 h + h) + word_of_nat (of_char c)) k 5381"

definition mv_hash_key :: "string \<Rightarrow> nat" where
  "mv_hash_key k = unat (mv_djb2 k mod 128)"

text \<open>\<^verbatim>\<open>strncmp(a, b, n) == 0\<close>, and \<^verbatim>\<open>strncpy\<close> with the terminator forced at \<open>n - 1\<close>.\<close>

definition strncmp_eq :: "string \<Rightarrow> string \<Rightarrow> nat \<Rightarrow> bool" where
  "strncmp_eq a b n \<longleftrightarrow> take n a = take n b"

definition strncpy_term :: "string \<Rightarrow> nat \<Rightarrow> string" where
  "strncpy_term s n = take (n - 1) s"

text \<open>The probe loop; the counter is the number of slots not yet seen.\<close>

fun mv_probe :: "nat \<Rightarrow> mv_store \<Rightarrow> string \<Rightarrow> nat \<Rightarrow> nat \<Rightarrow> (mv_store \<times> nat) res" where
  "mv_probe 0 st k start idx = Inl Diverges"
| "mv_probe (Suc n) st k start idx =
     (if \<not> ke_used (st ! idx) then
        Inr (st[idx := \<lparr>ke_key = strncpy_term k mv_MAX_KEY_LEN, ke_versions = [], ke_used = True\<rparr>], idx)
      else if strncmp_eq (ke_key (st ! idx)) k mv_MAX_KEY_LEN then Inr (st, idx)
      else let idx' = (idx + 1) mod mv_MAX_KEYS
           in if idx' = start then Inl (Exited 1) else mv_probe n st k start idx')"

definition get_or_create_key :: "mv_store \<Rightarrow> string \<Rightarrow> (mv_store \<times> nat) res" where
  "get_or_create_key st k = mv_probe mv_MAX_KEYS st k (mv_hash_key k) (mv_hash_key k)"

subsection \<open>Transactions\<close>

datatype txn_status = TXN_ACTIVE | TXN_ABORTED | TXN_COMMITTED

record mv_write =
  we_key_idx :: nat
  we_value :: string

record mv_txn =
  tx_id :: nat
  tx_start_ts :: nat
  tx_status :: txn_status
  tx_writes :: "mv_write list"

record mv_db =
  db_store :: mv_store
  db_txns :: "nat \<Rightarrow> mv_txn option"
  db_global_ts :: nat
  db_next_txn_id :: nat

definition mv_init :: mv_db where
  "mv_init = \<lparr>db_store = replicate mv_MAX_KEYS \<lparr>ke_key = [], ke_versions = [], ke_used = False\<rparr>,
     db_txns = (\<lambda>_. None), db_global_ts = 1, db_next_txn_id = 1\<rparr>"

definition create_txn :: "mv_db \<Rightarrow> mv_db \<times> nat option" where
  "create_txn db =
     (if db_next_txn_id db \<ge> mv_MAX_TXNS then (db, None)
      else let i = db_next_txn_id db;
               t = \<lparr>tx_id = i, tx_start_ts = db_global_ts db, tx_status = TXN_ACTIVE, tx_writes = []\<rparr>
           in (db\<lparr>db_next_txn_id := i + 1, db_global_ts := db_global_ts db + 1, db_txns := (db_txns db)(i := Some t)\<rparr>,
               Some i))"

definition get_txn :: "mv_db \<Rightarrow> nat \<Rightarrow> mv_txn option" where
  "get_txn db i = (if i = 0 \<or> i \<ge> mv_MAX_TXNS then None else db_txns db i)"

definition mv_put_txn :: "mv_txn \<Rightarrow> mv_db \<Rightarrow> mv_db" where
  "mv_put_txn t db = db\<lparr>db_txns := (db_txns db)(tx_id t := Some t)\<rparr>"

definition find_local_write :: "mv_txn \<Rightarrow> nat \<Rightarrow> mv_write option" where
  "find_local_write t idx = find (\<lambda>w. we_key_idx w = idx) (tx_writes t)"

definition txn_read :: "mv_db \<Rightarrow> nat \<Rightarrow> string \<Rightarrow> (mv_db \<times> string option) res" where
  "txn_read db i key =
     (case get_txn db i of
        None \<Rightarrow> Inr (db, None)
      | Some t \<Rightarrow>
          if tx_status t \<noteq> TXN_ACTIVE then Inr (db, None)
          else bindE (get_or_create_key (db_store db) key) (\<lambda>(st, idx).
            let db = db\<lparr>db_store := st\<rparr>
            in case find_local_write t idx of
                 Some w \<Rightarrow> Inr (db, Some (we_value w))
               | None \<Rightarrow>
                   (case dropWhile (\<lambda>v. ver_commit_ts v > tx_start_ts t) (ke_versions (st ! idx)) of
                      v # _ \<Rightarrow> Inr (db, Some (ver_value v))
                    | [] \<Rightarrow> Inr (db, Some []))))"

primrec mv_set_write :: "nat \<Rightarrow> string \<Rightarrow> mv_write list \<Rightarrow> mv_write list" where
  "mv_set_write idx v [] = []"
| "mv_set_write idx v (w # ws) =
     (if we_key_idx w = idx then w\<lparr>we_value := v\<rparr> # ws else w # mv_set_write idx v ws)"

definition txn_write :: "mv_db \<Rightarrow> nat \<Rightarrow> string \<Rightarrow> string \<Rightarrow> (mv_db \<times> int) res" where
  "txn_write db i key value =
     (case get_txn db i of
        None \<Rightarrow> Inr (db, -1)
      | Some t \<Rightarrow>
          if tx_status t \<noteq> TXN_ACTIVE then Inr (db, -1)
          else bindE (get_or_create_key (db_store db) key) (\<lambda>(st, idx).
            let v = strncpy_term value mv_MAX_VALUE_LEN;
                ws = (case find_local_write t idx of
                        Some w \<Rightarrow> mv_set_write idx v (tx_writes t)
                      | None \<Rightarrow> \<lparr>we_key_idx = idx, we_value = v\<rparr> # tx_writes t)
            in Inr (mv_put_txn (t\<lparr>tx_writes := ws\<rparr>) (db\<lparr>db_store := st\<rparr>), 0)))"

text \<open>
  \<^verbatim>\<open>lock_write_keys_sorted\<close>: the distinct key indices in the order of the write list, sorted by the
  exchange sort of the source. The result is the sequence of the key locks that are taken.
\<close>

definition mv_collect_keys :: "mv_write list \<Rightarrow> nat list" where
  "mv_collect_keys ws =
     snd (foldl (\<lambda>(present, keys) w.
       if we_key_idx w \<in> set present then (present, keys)
       else (we_key_idx w # present, keys @ [we_key_idx w])) ([], []) ws)"

definition mv_exchange :: "nat \<Rightarrow> nat list \<Rightarrow> nat \<Rightarrow> nat list" where
  "mv_exchange i ks j = (if ks ! j < ks ! i then ks[i := ks ! j, j := ks ! i] else ks)"

definition mv_sort_keys :: "nat list \<Rightarrow> nat list" where
  "mv_sort_keys ks =
     foldl (\<lambda>ks i. foldl (mv_exchange i) ks [i + 1..<length ks]) ks [0..<length ks]"

definition lock_write_keys_sorted :: "mv_txn \<Rightarrow> nat list" where
  "lock_write_keys_sorted t = mv_sort_keys (mv_collect_keys (tx_writes t))"

definition mv_install :: "nat \<Rightarrow> mv_store \<Rightarrow> mv_write \<Rightarrow> mv_store" where
  "mv_install commit_ts st w =
     st[we_key_idx w := (st ! we_key_idx w)
       \<lparr>ke_versions := \<lparr>ver_value = strncpy_term (we_value w) mv_MAX_VALUE_LEN, ver_commit_ts = commit_ts\<rparr>
          # ke_versions (st ! we_key_idx w)\<rparr>]"

definition mv_conflict :: "mv_store \<Rightarrow> mv_txn \<Rightarrow> bool" where
  "mv_conflict st t \<longleftrightarrow> list_ex (\<lambda>w. case ke_versions (st ! we_key_idx w) of
       [] \<Rightarrow> False | head # _ \<Rightarrow> ver_commit_ts head > tx_start_ts t) (tx_writes t)"

definition txn_commit :: "mv_db \<Rightarrow> nat \<Rightarrow> mv_db \<times> int \<times> nat list \<times> outs" where
  "txn_commit db i =
     (case get_txn db i of
        None \<Rightarrow> (db, -1, [], [])
      | Some t \<Rightarrow>
          if tx_status t \<noteq> TXN_ACTIVE then (db, -1, [], [])
          else if tx_writes t = [] then
            (mv_put_txn (t\<lparr>tx_status := TXN_COMMITTED\<rparr>) (db\<lparr>db_global_ts := db_global_ts db + 1\<rparr>), 0, [],
             [Txt ''[TXN '', Num (int (tx_id t)), Txt ''] Committed (read-only).''])
          else let locked = lock_write_keys_sorted t
               in if mv_conflict (db_store db) t then
                    (mv_put_txn (t\<lparr>tx_writes := [], tx_status := TXN_ABORTED\<rparr>) db, -1, locked,
                     [Txt ''[TXN '', Num (int (tx_id t)),
                      Txt ''] Aborted due to write-write conflict (first-committer-wins).''])
                  else let commit_ts = db_global_ts db;
                           st = foldl (mv_install commit_ts) (db_store db) (tx_writes t)
                       in (mv_put_txn (t\<lparr>tx_writes := [], tx_status := TXN_COMMITTED\<rparr>)
                             (db\<lparr>db_store := st, db_global_ts := commit_ts + 1\<rparr>), 0, locked,
                           [Txt ''[TXN '', Num (int (tx_id t)), Txt ''] Committed (commit_ts='',
                            Num (int commit_ts), Txt '').'']))"

definition txn_explicit_abort :: "mv_db \<Rightarrow> nat \<Rightarrow> mv_db \<times> outs" where
  "txn_explicit_abort db i =
     (case get_txn db i of
        None \<Rightarrow> (db, [])
      | Some t \<Rightarrow>
          if tx_status t \<noteq> TXN_ACTIVE then (db, [])
          else (mv_put_txn (t\<lparr>tx_writes := [], tx_status := TXN_ABORTED\<rparr>) db,
                [Txt ''[TXN '', Num (int (tx_id t)), Txt ''] Explicitly aborted.'']))"

subsection \<open>Runs and the demo threads\<close>

datatype mv_op =
    OpCreate
  | OpRead nat string
  | OpWrite nat string string
  | OpCommit nat
  | OpAbort nat

datatype mv_ret = RTxn "nat option" | RStr "string option" | RInt int | RVoid

fun mv_exec :: "mv_db \<Rightarrow> mv_op \<Rightarrow> (mv_db \<times> mv_ret) res" where
  "mv_exec db OpCreate = (case create_txn db of (db', r) \<Rightarrow> Inr (db', RTxn r))"
| "mv_exec db (OpRead i k) = bindE (txn_read db i k) (\<lambda>(db', r). Inr (db', RStr r))"
| "mv_exec db (OpWrite i k v) = bindE (txn_write db i k v) (\<lambda>(db', r). Inr (db', RInt r))"
| "mv_exec db (OpCommit i) = (case txn_commit db i of (db', r, _) \<Rightarrow> Inr (db', RInt r))"
| "mv_exec db (OpAbort i) = (case txn_explicit_abort db i of (db', _) \<Rightarrow> Inr (db', RVoid))"

primrec mv_run :: "mv_db \<Rightarrow> mv_op list \<Rightarrow> (mv_db \<times> mv_ret list) res" where
  "mv_run db [] = Inr (db, [])"
| "mv_run db (op # ops) =
     bindE (mv_exec db op) (\<lambda>(db', r). bindE (mv_run db' ops) (\<lambda>(db'', rs). Inr (db'', r # rs)))"

text \<open>The two demo threads, as the calls they make once they have their transaction.\<close>

definition txn_demo_reader_writer :: "nat \<Rightarrow> mv_op list" where
  "txn_demo_reader_writer t = [OpRead t ''A'', OpWrite t ''A'' ''T1_A'', OpCommit t]"

definition txn_demo_competing_writer :: "nat \<Rightarrow> mv_op list" where
  "txn_demo_competing_writer t = [OpWrite t ''A'' ''T2_A'', OpCommit t]"

definition mv_dump :: "mv_store \<Rightarrow> outs" where
  "mv_dump st = Txt ''Final store state (versions newest->oldest):'' #
     concat (map (\<lambda>e. if ke_used e then Txt ''Key='' # Txt (ke_key e) #
         concat (map (\<lambda>v. [Txt ''  commit_ts='', Num (int (ver_commit_ts v)), Txt '' value='', Txt (ver_value v)])
           (ke_versions e)) else []) st)"

definition mv_main :: "mv_op list \<Rightarrow> outs res" where
  "mv_main schedule =
     bindE (mv_run mv_init schedule) (\<lambda>(db, _).
       Inr (Txt ''MVCC demo: snapshot reads + first-committer-wins on write-write conflict.'' # mv_dump (db_store db)))"

section \<open>The key table\<close>

lemma mv_hash_bound: "mv_hash_key k < mv_MAX_KEYS"
proof -
  have "mv_djb2 k mod 128 < 128" by (rule word_mod_less_divisor) simp
  then show ?thesis by (simp add: mv_hash_key_def mv_MAX_KEYS_def word_less_nat_alt)
qed

lemmas mv_ring = ring_props [OF mv_hash_bound]

definition mv_stop :: "mv_store \<Rightarrow> string \<Rightarrow> nat \<Rightarrow> bool" where
  "mv_stop st k j \<longleftrightarrow> \<not> ke_used (st ! j) \<or> strncmp_eq (ke_key (st ! j)) k mv_MAX_KEY_LEN"

definition mv_fresh :: "string \<Rightarrow> mv_entry" where
  "mv_fresh k = \<lparr>ke_key = strncpy_term k mv_MAX_KEY_LEN, ke_versions = [], ke_used = True\<rparr>"

lemma mv_probe_from:
  assumes h: "h < mv_MAX_KEYS" and "i < mv_MAX_KEYS"
  shows "mv_probe (mv_MAX_KEYS - i) st k h ((h + i) mod mv_MAX_KEYS) =
    (case find (mv_stop st k) (map (\<lambda>i. (h + i) mod mv_MAX_KEYS) [i..<mv_MAX_KEYS]) of
       None \<Rightarrow> Inl (Exited 1)
     | Some j \<Rightarrow> Inr (if ke_used (st ! j) then st else st[j := mv_fresh k], j))"
  using assms(2)
proof (induction "mv_MAX_KEYS - i" arbitrary: i)
  case (Suc d)
  have nx: "((h + i) mod mv_MAX_KEYS + 1) mod mv_MAX_KEYS = (h + Suc i) mod mv_MAX_KEYS"
    by (simp add: mod_Suc_eq)
  note wrap = ring_wrap [OF h Suc.prems]
  have upt: "[i..<mv_MAX_KEYS] = i # [Suc i..<mv_MAX_KEYS]" using Suc.prems by (simp add: upt_conv_Cons)
  have fuel: "mv_MAX_KEYS - i = Suc (mv_MAX_KEYS - Suc i)" using Suc.prems by simp
  show ?case
  proof (cases "Suc i = mv_MAX_KEYS")
    case True
    then show ?thesis unfolding fuel upt using h by (simp only: mv_probe.simps nx wrap Let_def) (simp add: mv_stop_def mv_fresh_def)
  next
    case False
    then have "Suc i < mv_MAX_KEYS" using Suc.prems by simp
    from Suc.hyps(1) [OF _ this] Suc.hyps(2) show ?thesis
      unfolding fuel upt using wrap False by (simp only: mv_probe.simps nx Let_def) (simp add: mv_stop_def mv_fresh_def)
  qed
qed simp

lemma get_or_create_key_find:
  "get_or_create_key st k =
    (case find (mv_stop st k) (ring mv_MAX_KEYS (mv_hash_key k)) of
       None \<Rightarrow> Inl (Exited 1)
     | Some j \<Rightarrow> Inr (if ke_used (st ! j) then st else st[j := mv_fresh k], j))"
  using mv_probe_from [OF mv_hash_bound [of k], of 0 st k] mv_hash_bound [of k]
  by (simp add: get_or_create_key_def ring_def mv_MAX_KEYS_def)

text \<open>
  A table is well-formed when the search for the key of every used slot ends at that slot: then no
  key has two slots. This needs the stored key to be the whole key, so keys are shorter than 64.
\<close>

definition mv_wf :: "mv_store \<Rightarrow> bool" where
  "mv_wf st \<longleftrightarrow> length st = mv_MAX_KEYS \<and>
     (\<forall>i<mv_MAX_KEYS. ke_used (st ! i) \<longrightarrow> length (ke_key (st ! i)) < mv_MAX_KEY_LEN \<and>
        find (mv_stop st (ke_key (st ! i))) (ring mv_MAX_KEYS (mv_hash_key (ke_key (st ! i)))) = Some i)"

definition mv_keys :: "mv_store \<Rightarrow> string set" where
  "mv_keys st = {ke_key (st ! i) | i. i < mv_MAX_KEYS \<and> ke_used (st ! i)}"

lemma strncmp_eq_short:
  "length a < mv_MAX_KEY_LEN \<Longrightarrow> length b < mv_MAX_KEY_LEN \<Longrightarrow> strncmp_eq a b mv_MAX_KEY_LEN \<longleftrightarrow> a = b"
  by (simp add: strncmp_eq_def)

lemma mv_fresh_short: "length k < mv_MAX_KEY_LEN \<Longrightarrow> mv_fresh k = \<lparr>ke_key = k, ke_versions = [], ke_used = True\<rparr>"
  by (simp add: mv_fresh_def strncpy_term_def)

lemma mv_wf_init: "mv_wf (db_store mv_init)"
  by (simp add: mv_wf_def mv_init_def)

lemma mv_wf_unique:
  assumes "mv_wf st" and "i < mv_MAX_KEYS" "ke_used (st ! i)" and "j < mv_MAX_KEYS" "ke_used (st ! j)"
    and "ke_key (st ! i) = ke_key (st ! j)"
  shows "i = j"
proof -
  from assms have "Some i = Some j" unfolding mv_wf_def by metis
  then show ?thesis by simp
qed

lemma find_mono_prefix:
  assumes "find P xs = Some x" and "P' x" and "\<And>y. y \<in> set xs \<Longrightarrow> y \<noteq> x \<Longrightarrow> P' y \<Longrightarrow> P y"
  shows "find P' xs = Some x"
  using assms by (induction xs) (auto split: if_splits)

text \<open>Creating a key in the free slot at which its search ended keeps the table well-formed.\<close>

lemma mv_wf_insert:
  assumes wf: "mv_wf st" and k: "length k < mv_MAX_KEY_LEN" and j: "find (mv_stop st k) (ring mv_MAX_KEYS (mv_hash_key k)) = Some j"
    and free: "\<not> ke_used (st ! j)"
  shows "mv_wf (st[j := mv_fresh k])"
  unfolding mv_wf_def
proof (intro conjI allI impI)
  have len: "length st = mv_MAX_KEYS" using wf by (simp add: mv_wf_def)
  have jb: "j < mv_MAX_KEYS" using j mv_ring(2) [of k] by (auto simp: find_split)
  let ?st = "st[j := mv_fresh k]"
  show "length ?st = mv_MAX_KEYS" using len by simp
  fix i
  assume i: "i < mv_MAX_KEYS" "ke_used (?st ! i)"
  show "length (ke_key (?st ! i)) < mv_MAX_KEY_LEN"
    using i wf k len by (cases "i = j") (auto simp: mv_fresh_short mv_wf_def)
  show "find (mv_stop ?st (ke_key (?st ! i))) (ring mv_MAX_KEYS (mv_hash_key (ke_key (?st ! i)))) = Some i"
  proof (cases "i = j")
    case True
    then have ki: "ke_key (?st ! j) = k" using k jb len by (simp add: mv_fresh_short)
    show ?thesis unfolding True ki
      by (rule find_mono_prefix [OF j]) (use jb len k in \<open>auto simp: mv_stop_def mv_fresh_short strncmp_eq_def\<close>)
  next
    case False
    then have old: "?st ! i = st ! i" "find (mv_stop st (ke_key (st ! i))) (ring mv_MAX_KEYS (mv_hash_key (ke_key (st ! i)))) = Some i"
      using i wf by (simp_all add: mv_wf_def)
    show ?thesis unfolding old(1)
      by (rule find_mono_prefix [OF old(2)]) (use False free jb len in \<open>auto simp: mv_stop_def strncmp_eq_def nth_list_update split: if_splits\<close>)
  qed
qed

lemma mv_keys_insert:
  assumes "length st = mv_MAX_KEYS" and "j < mv_MAX_KEYS" and "length k < mv_MAX_KEY_LEN" and "\<not> ke_used (st ! j)"
  shows "mv_keys (st[j := mv_fresh k]) = insert k (mv_keys st)"
  using assms unfolding mv_keys_def by (auto simp: mv_fresh_short nth_list_update split: if_splits)

lemma card_mv_keys_full:
  assumes wf: "mv_wf st" and "\<And>i. i < mv_MAX_KEYS \<Longrightarrow> ke_used (st ! i)"
  shows "card (mv_keys st) = mv_MAX_KEYS"
proof -
  have "mv_keys st = (\<lambda>i. ke_key (st ! i)) ` {..<mv_MAX_KEYS}" using assms(2) by (auto simp: mv_keys_def)
  moreover have "inj_on (\<lambda>i. ke_key (st ! i)) {..<mv_MAX_KEYS}"
    using mv_wf_unique [OF wf] assms(2) by (auto simp: inj_on_def)
  ultimately show ?thesis by (simp add: card_image)
qed

lemma get_or_create_key_ok:
  assumes wf: "mv_wf st" and k: "length k < mv_MAX_KEY_LEN" and room: "k \<in> mv_keys st \<or> card (mv_keys st) < mv_MAX_KEYS"
  obtains (found) i where "get_or_create_key st k = Inr (st, i)" "i < mv_MAX_KEYS" "ke_used (st ! i)" "ke_key (st ! i) = k"
  | (created) i where "get_or_create_key st k = Inr (st[i := mv_fresh k], i)" "i < mv_MAX_KEYS" "\<not> ke_used (st ! i)"
      "k \<notin> mv_keys st" "mv_wf (st[i := mv_fresh k])"
proof -
  let ?ring = "ring mv_MAX_KEYS (mv_hash_key k)"
  have short: "length (ke_key (st ! i)) < mv_MAX_KEY_LEN" if "i < mv_MAX_KEYS" "ke_used (st ! i)" for i
    using wf that by (simp add: mv_wf_def)
  show ?thesis
  proof (cases "find (mv_stop st k) ?ring")
    case None
    then have full: "ke_used (st ! i) \<and> ke_key (st ! i) \<noteq> k" if "i < mv_MAX_KEYS" for i
      using that mv_ring(2) [of k] by (auto simp: find_None_iff mv_stop_def strncmp_eq_def)
    then have "card (mv_keys st) = mv_MAX_KEYS" "k \<notin> mv_keys st"
      using card_mv_keys_full [OF wf] by (auto simp: mv_keys_def)
    with room show ?thesis by simp
  next
    case (Some i)
    then have i: "i < mv_MAX_KEYS" "mv_stop st k i" using mv_ring(2) [of k] by (auto simp: find_split)
    show ?thesis
    proof (cases "ke_used (st ! i)")
      case True
      with i have "ke_key (st ! i) = k" using strncmp_eq_short [OF short [OF i(1)] k] by (simp add: mv_stop_def)
      with True i Some show ?thesis by (intro found [of i]) (simp_all add: get_or_create_key_find)
    next
      case False
      have "k \<notin> mv_keys st"
      proof
        assume "k \<in> mv_keys st"
        then obtain i' where i': "i' < mv_MAX_KEYS" "ke_used (st ! i')" "ke_key (st ! i') = k" by (auto simp: mv_keys_def)
        then have "find (mv_stop st k) ?ring = Some i'" using wf unfolding mv_wf_def by blast
        with Some False i' show False by simp
      qed
      with False i Some mv_wf_insert [OF wf k Some False] show ?thesis
        by (intro created [of i]) (simp_all add: get_or_create_key_find)
    qed
  qed
qed

section \<open>Snapshot isolation\<close>

text \<open>
  The abstract store is a history of committed write sets, newest first, each with its commit
  timestamp. A transaction reads its own writes or else the newest value committed no later than its
  start; it commits unless a write set committed after its start has a key in common with its own.
\<close>

record si_txn =
  si_start :: nat
  si_status :: txn_status
  si_writes :: "string \<rightharpoonup> string"

record si_db =
  si_txns :: "nat \<Rightarrow> si_txn option"
  si_hist :: "(nat \<times> (string \<rightharpoonup> string)) list"
  si_clock :: nat
  si_next :: nat

definition si_init :: si_db where
  "si_init = \<lparr>si_txns = (\<lambda>_. None), si_hist = [], si_clock = 1, si_next = 1\<rparr>"

definition si_active :: "si_db \<Rightarrow> nat \<Rightarrow> si_txn option" where
  "si_active a i = (case si_txns a i of
     Some x \<Rightarrow> if 0 < i \<and> i < mv_MAX_TXNS \<and> si_status x = TXN_ACTIVE then Some x else None | None \<Rightarrow> None)"

definition si_value :: "(nat \<times> (string \<rightharpoonup> string)) list \<Rightarrow> nat \<Rightarrow> string \<Rightarrow> string" where
  "si_value hist snapshot k =
     (case find (\<lambda>(ts, w). ts \<le> snapshot \<and> w k \<noteq> None) hist of None \<Rightarrow> [] | Some (ts, w) \<Rightarrow> the (w k))"

definition si_conflict :: "(nat \<times> (string \<rightharpoonup> string)) list \<Rightarrow> si_txn \<Rightarrow> bool" where
  "si_conflict hist x \<longleftrightarrow> (\<exists>(ts, w)\<in>set hist. ts > si_start x \<and> dom w \<inter> dom (si_writes x) \<noteq> {})"

definition si_end :: "nat \<Rightarrow> si_txn \<Rightarrow> txn_status \<Rightarrow> si_db \<Rightarrow> si_db" where
  "si_end i x stat a = a\<lparr>si_txns := (si_txns a)(i := Some (x\<lparr>si_status := stat, si_writes := Map.empty\<rparr>))\<rparr>"

fun si_exec :: "si_db \<Rightarrow> mv_op \<Rightarrow> si_db \<times> mv_ret" where
  "si_exec a OpCreate =
     (if si_next a \<ge> mv_MAX_TXNS then (a, RTxn None)
      else (a\<lparr>si_txns := (si_txns a)(si_next a := Some \<lparr>si_start = si_clock a, si_status = TXN_ACTIVE, si_writes = Map.empty\<rparr>),
              si_clock := si_clock a + 1, si_next := si_next a + 1\<rparr>, RTxn (Some (si_next a))))"
| "si_exec a (OpRead i k) = (a, RStr (case si_active a i of None \<Rightarrow> None
     | Some x \<Rightarrow> Some (case si_writes x k of Some v \<Rightarrow> v | None \<Rightarrow> si_value (si_hist a) (si_start x) k)))"
| "si_exec a (OpWrite i k v) =
     (case si_active a i of None \<Rightarrow> (a, RInt (-1))
      | Some x \<Rightarrow> (a\<lparr>si_txns := (si_txns a)(i := Some (x\<lparr>si_writes := (si_writes x)(k \<mapsto> strncpy_term v mv_MAX_VALUE_LEN)\<rparr>))\<rparr>, RInt 0))"
| "si_exec a (OpCommit i) =
     (case si_active a i of None \<Rightarrow> (a, RInt (-1))
      | Some x \<Rightarrow> if si_writes x = Map.empty then (si_end i x TXN_COMMITTED (a\<lparr>si_clock := si_clock a + 1\<rparr>), RInt 0)
                  else if si_conflict (si_hist a) x then (si_end i x TXN_ABORTED a, RInt (-1))
                  else (si_end i x TXN_COMMITTED
                          (a\<lparr>si_hist := (si_clock a, si_writes x) # si_hist a, si_clock := si_clock a + 1\<rparr>), RInt 0))"
| "si_exec a (OpAbort i) =
     (case si_active a i of None \<Rightarrow> (a, RVoid) | Some x \<Rightarrow> (si_end i x TXN_ABORTED a, RVoid))"

primrec si_run :: "si_db \<Rightarrow> mv_op list \<Rightarrow> si_db \<times> mv_ret list" where
  "si_run a [] = (a, [])"
| "si_run a (op # ops) = (let (a', r) = si_exec a op; (a'', rs) = si_run a' ops in (a'', r # rs))"

subsection \<open>The simulation relation\<close>

definition mv_proj :: "(nat \<times> (string \<rightharpoonup> string)) list \<Rightarrow> string \<Rightarrow> mv_version list" where
  "mv_proj hist k = map (\<lambda>(ts, w). \<lparr>ver_value = the (w k), ver_commit_ts = ts\<rparr>) (filter (\<lambda>(ts, w). w k \<noteq> None) hist)"

definition mv_assoc :: "mv_write list \<Rightarrow> nat \<rightharpoonup> string" where
  "mv_assoc ws = map_of (map (\<lambda>w. (we_key_idx w, we_value w)) ws)"

definition mv_rel_txn :: "mv_store \<Rightarrow> nat \<Rightarrow> mv_txn \<Rightarrow> si_txn \<Rightarrow> bool" where
  "mv_rel_txn st i t x \<longleftrightarrow>
     tx_id t = i \<and> tx_start_ts t = si_start x \<and> tx_status t = si_status x \<and>
     distinct (map we_key_idx (tx_writes t)) \<and>
     (\<forall>w\<in>set (tx_writes t). we_key_idx w < mv_MAX_KEYS \<and> ke_used (st ! we_key_idx w) \<and> length (we_value w) < mv_MAX_VALUE_LEN) \<and>
     (\<forall>j<mv_MAX_KEYS. ke_used (st ! j) \<longrightarrow> si_writes x (ke_key (st ! j)) = mv_assoc (tx_writes t) j) \<and>
     dom (si_writes x) \<subseteq> mv_keys st"

definition mv_rel_hist :: "mv_store \<Rightarrow> (nat \<times> (string \<rightharpoonup> string)) list \<Rightarrow> bool" where
  "mv_rel_hist st hist \<longleftrightarrow>
     (\<forall>j<mv_MAX_KEYS. ke_used (st ! j) \<longrightarrow> ke_versions (st ! j) = mv_proj hist (ke_key (st ! j))) \<and>
     (\<forall>(ts, w)\<in>set hist. dom w \<subseteq> mv_keys st)"

definition mv_rel :: "mv_db \<Rightarrow> si_db \<Rightarrow> bool" where
  "mv_rel db a \<longleftrightarrow>
     mv_wf (db_store db) \<and> db_global_ts db = si_clock a \<and> db_next_txn_id db = si_next a \<and>
     0 < si_next a \<and> si_next a \<le> mv_MAX_TXNS \<and> (\<forall>i\<ge>si_next a. si_txns a i = None) \<and>
     (\<forall>i. rel_option (mv_rel_txn (db_store db) i) (db_txns db i) (si_txns a i)) \<and>
     mv_rel_hist (db_store db) (si_hist a) \<and>
     sorted_wrt (>) (map fst (si_hist a)) \<and> (\<forall>ts\<in>fst ` set (si_hist a). ts < si_clock a)"

lemma mv_proj_Nil: "(\<And>ts w. (ts, w) \<in> set hist \<Longrightarrow> w k = None) \<Longrightarrow> mv_proj hist k = []"
  by (force simp: mv_proj_def filter_empty_conv)

lemma mv_proj_Cons:
  "mv_proj ((ts, w) # hist) k =
     (case w k of None \<Rightarrow> mv_proj hist k | Some v \<Rightarrow> \<lparr>ver_value = v, ver_commit_ts = ts\<rparr> # mv_proj hist k)"
  by (simp add: mv_proj_def split: option.splits)

lemma mv_proj_visible:
  "(case dropWhile (\<lambda>v. ver_commit_ts v > s) (mv_proj hist k) of v # _ \<Rightarrow> ver_value v | [] \<Rightarrow> []) = si_value hist s k"
  by (induction hist) (auto simp: mv_proj_def si_value_def split: option.splits)

lemma mv_proj_head:
  assumes "sorted_wrt (>) (map fst hist)"
  shows "(case mv_proj hist k of [] \<Rightarrow> False | v # _ \<Rightarrow> ver_commit_ts v > s) \<longleftrightarrow>
    (\<exists>(ts, w)\<in>set hist. ts > s \<and> w k \<noteq> None)"
  using assms
proof (induction hist)
  case (Cons e hist)
  obtain ts w where e: "e = (ts, w)" by (cases e)
  show ?case
  proof (cases "w k")
    case None
    then show ?thesis using Cons by (auto simp: e mv_proj_Cons)
  next
    case (Some v)
    then show ?thesis using Cons.prems by (fastforce simp: e mv_proj_Cons)
  qed
qed (simp add: mv_proj_def)

text \<open>A table that differs only in its versions has the same keys.\<close>

lemma mv_wf_cong:
  assumes "length st' = length st" and "\<And>j. j < mv_MAX_KEYS \<Longrightarrow> ke_used (st' ! j) = ke_used (st ! j) \<and> ke_key (st' ! j) = ke_key (st ! j)"
  shows "mv_wf st \<Longrightarrow> mv_wf st'" and "mv_keys st' = mv_keys st"
proof -
  have "find (mv_stop st' k) (ring mv_MAX_KEYS (mv_hash_key k)) = find (mv_stop st k) (ring mv_MAX_KEYS (mv_hash_key k))" for k
    by (rule find_cong) (use mv_ring(2) [of k] assms(2) in \<open>auto simp: mv_stop_def\<close>)
  then show "mv_wf st \<Longrightarrow> mv_wf st'" using assms by (simp add: mv_wf_def)
  show "mv_keys st' = mv_keys st" unfolding mv_keys_def by (rule Collect_cong) (use assms(2) in metis)
qed

lemma mv_keysI: "i < mv_MAX_KEYS \<Longrightarrow> ke_used (st ! i) \<Longrightarrow> ke_key (st ! i) \<in> mv_keys st"
  by (auto simp: mv_keys_def)

lemma mv_rel_init: "mv_rel mv_init si_init"
  using mv_wf_init by (simp add: mv_rel_def mv_init_def si_init_def mv_rel_hist_def mv_MAX_TXNS_def)

text \<open>Creating a key leaves the abstract state as it is.\<close>

lemma mv_rel_create:
  assumes rel: "mv_rel db a" and k: "length k < mv_MAX_KEY_LEN" and i: "i < mv_MAX_KEYS" and free: "\<not> ke_used (db_store db ! i)"
    and new: "k \<notin> mv_keys (db_store db)" and wf: "mv_wf ((db_store db)[i := mv_fresh k])"
  shows "mv_rel (db\<lparr>db_store := (db_store db)[i := mv_fresh k]\<rparr>) a"
proof -
  let ?st = "db_store db" and ?st' = "(db_store db)[i := mv_fresh k]"
  have len: "length ?st = mv_MAX_KEYS" using rel by (simp add: mv_rel_def mv_wf_def)
  have keys: "mv_keys ?st' = insert k (mv_keys ?st)" by (rule mv_keys_insert [OF len i k free])
  have at_i: "?st' ! i = \<lparr>ke_key = k, ke_versions = [], ke_used = True\<rparr>" using len i k by (simp add: mv_fresh_short)
  have "mv_rel_txn ?st' n t x" if r: "mv_rel_txn ?st n t x" for n t x
  proof -
    have "mv_assoc (tx_writes t) i = None"
      using r free unfolding mv_rel_txn_def mv_assoc_def by (force simp: map_of_eq_None_iff)
    moreover have "si_writes x k = None" using r new unfolding mv_rel_txn_def by (meson domIff subsetD)
    ultimately have "si_writes x (ke_key (?st' ! j)) = mv_assoc (tx_writes t) j" if "j < mv_MAX_KEYS" "ke_used (?st' ! j)" for j
      using that r at_i by (cases "j = i") (simp_all add: mv_rel_txn_def)
    moreover have "ke_used (?st' ! we_key_idx w)" if "w \<in> set (tx_writes t)" for w
      using that r at_i by (cases "we_key_idx w = i") (simp_all add: mv_rel_txn_def)
    ultimately show ?thesis using r keys by (auto simp: mv_rel_txn_def)
  qed
  then have txns: "rel_option (mv_rel_txn ?st' n) (db_txns db n) (si_txns a n)" for n
    using rel unfolding mv_rel_def by (metis option.rel_mono_strong)
  have "w k = None" if "(ts, w) \<in> set (si_hist a)" for ts w
    using rel that new unfolding mv_rel_def mv_rel_hist_def by (fastforce simp: dom_def)
  then have "mv_proj (si_hist a) k = []" by (rule mv_proj_Nil)
  then have "ke_versions (?st' ! j) = mv_proj (si_hist a) (ke_key (?st' ! j))" if "j < mv_MAX_KEYS" "ke_used (?st' ! j)" for j
    using that rel at_i by (cases "j = i") (simp_all add: mv_rel_def mv_rel_hist_def)
  moreover have "\<forall>(ts, w)\<in>set (si_hist a). dom w \<subseteq> insert k (mv_keys ?st)"
    using rel unfolding mv_rel_def mv_rel_hist_def by blast
  ultimately have "mv_rel_hist ?st' (si_hist a)" using keys by (simp add: mv_rel_hist_def)
  with rel wf txns show ?thesis by (simp add: mv_rel_def)
qed

lemma mv_rel_key:
  assumes rel: "mv_rel db a" and k: "length k < mv_MAX_KEY_LEN"
    and room: "k \<in> mv_keys (db_store db) \<or> card (mv_keys (db_store db)) < mv_MAX_KEYS"
  shows "\<exists>st i. get_or_create_key (db_store db) k = Inr (st, i) \<and> mv_rel (db\<lparr>db_store := st\<rparr>) a \<and> i < mv_MAX_KEYS
    \<and> ke_used (st ! i) \<and> ke_key (st ! i) = k \<and> mv_keys st = insert k (mv_keys (db_store db))"
proof -
  have wf: "mv_wf (db_store db)" using rel by (simp add: mv_rel_def)
  then have len: "length (db_store db) = mv_MAX_KEYS" by (simp add: mv_wf_def)
  from wf k room show ?thesis
  proof (cases rule: get_or_create_key_ok)
    case (found i)
    then have "mv_keys (db_store db) = insert k (mv_keys (db_store db))" using mv_keysI [of i "db_store db"] by auto
    with found rel show ?thesis by auto
  next
    case (created i)
    with mv_rel_create [OF rel k created(2,3,4,5)] mv_keys_insert [OF len created(2) k created(3)] len k
    show ?thesis by (auto simp: mv_fresh_short)
  qed
qed

lemma mv_rel_get:
  assumes "mv_rel db a"
  shows "rel_option (mv_rel_txn (db_store db) i)
    (case get_txn db i of Some t \<Rightarrow> if tx_status t = TXN_ACTIVE then Some t else None | None \<Rightarrow> None) (si_active a i)"
proof -
  have "rel_option (mv_rel_txn (db_store db) i) (db_txns db i) (si_txns a i)" using assms by (simp add: mv_rel_def)
  then show ?thesis
    by (cases "db_txns db i"; cases "si_txns a i") (auto simp: get_txn_def si_active_def mv_rel_txn_def)
qed

lemma mv_get_cases:
  assumes "mv_rel db a"
  obtains (none) "si_active a i = None" "get_txn db i = None \<or> (\<exists>t. get_txn db i = Some t \<and> tx_status t \<noteq> TXN_ACTIVE)"
  | (active) t x where "si_active a i = Some x" "get_txn db i = Some t" "tx_status t = TXN_ACTIVE"
      "mv_rel_txn (db_store db) i t x" "0 < i" "i < mv_MAX_TXNS" "i < si_next a" "db_txns db i = Some t" "si_txns a i = Some x"
proof (cases "si_active a i")
  case None
  with mv_rel_get [OF assms, of i] show ?thesis
    by (intro none) (auto split: option.splits if_splits)
next
  case (Some x)
  then have x: "si_txns a i = Some x" "0 < i" "i < mv_MAX_TXNS" by (auto simp: si_active_def split: option.splits if_splits)
  have "i < si_next a" using x(1) assms unfolding mv_rel_def by (metis not_le option.distinct(1))
  with Some x mv_rel_get [OF assms, of i] show ?thesis
    by (auto simp: get_txn_def split: option.splits if_splits intro: active)
qed

lemma mv_rel_txnD: "mv_rel db a \<Longrightarrow> db_txns db i = Some t \<Longrightarrow> si_txns a i = Some x \<Longrightarrow> mv_rel_txn (db_store db) i t x"
  unfolding mv_rel_def by (metis option.rel_inject(2))

text \<open>Replacing a transaction by a related pair.\<close>

lemma mv_rel_put:
  assumes rel: "mv_rel db a" and t: "mv_rel_txn (db_store db) i t x" and i: "i < si_next a"
  shows "mv_rel (mv_put_txn t db) (a\<lparr>si_txns := (si_txns a)(i := Some x)\<rparr>)"
proof -
  have "tx_id t = i" using t by (simp add: mv_rel_txn_def)
  with rel t i show ?thesis by (auto simp: mv_rel_def mv_put_txn_def)
qed

lemma mv_rel_end:
  assumes rel: "mv_rel db a" and t: "mv_rel_txn (db_store db) i t x" and i: "i < si_next a"
  shows "mv_rel (mv_put_txn (t\<lparr>tx_writes := [], tx_status := s\<rparr>) db) (si_end i x s a)"
  unfolding si_end_def
  by (rule mv_rel_put [OF rel _ i]) (use t in \<open>auto simp: mv_rel_txn_def mv_assoc_def\<close>)

subsection \<open>Every operation simulates its specification\<close>

primrec mv_op_keys :: "mv_op \<Rightarrow> string set" where
  "mv_op_keys OpCreate = {}"
| "mv_op_keys (OpRead i k) = {k}"
| "mv_op_keys (OpWrite i k v) = {k}"
| "mv_op_keys (OpCommit i) = {}"
| "mv_op_keys (OpAbort i) = {}"

definition mv_sim :: "mv_db \<Rightarrow> si_db \<Rightarrow> mv_op \<Rightarrow> bool" where
  "mv_sim db a op \<longleftrightarrow> (\<exists>db'. mv_exec db op = Inr (db', snd (si_exec a op)) \<and> mv_rel db' (fst (si_exec a op))
     \<and> mv_keys (db_store db') \<subseteq> mv_keys (db_store db) \<union> mv_op_keys op)"

lemma find_local_write_assoc: "map_option we_value (find_local_write t j) = mv_assoc (tx_writes t) j"
proof -
  have "map_option we_value (find (\<lambda>w. we_key_idx w = j) ws) = map_of (map (\<lambda>w. (we_key_idx w, we_value w)) ws) j" for ws :: "mv_write list"
    by (induction ws) auto
  then show ?thesis by (simp add: find_local_write_def mv_assoc_def)
qed

lemma mv_set_write_assoc:
  assumes "mv_assoc ws j \<noteq> None"
  shows "mv_assoc (mv_set_write j v ws) = (mv_assoc ws)(j \<mapsto> v)"
    and "map we_key_idx (mv_set_write j v ws) = map we_key_idx ws"
    and "w \<in> set (mv_set_write j v ws) \<Longrightarrow> w \<in> set ws \<or> we_key_idx w = j \<and> we_value w = v"
  using assms unfolding mv_assoc_def by (induction ws) (auto split: if_splits)

lemma mv_rel_txn_write:
  "mv_rel_txn st i t x \<Longrightarrow> j < mv_MAX_KEYS \<Longrightarrow> ke_used (st ! j) \<Longrightarrow> si_writes x (ke_key (st ! j)) = mv_assoc (tx_writes t) j"
  unfolding mv_rel_txn_def by blast

lemma mv_upd_write:
  fixes j :: nat and v :: string and t :: mv_txn
  assumes "distinct (map we_key_idx (tx_writes t))"
  defines "ws \<equiv> (case find_local_write t j of
      Some w \<Rightarrow> mv_set_write j v (tx_writes t) | None \<Rightarrow> \<lparr>we_key_idx = j, we_value = v\<rparr> # tx_writes t)"
  shows "mv_assoc ws = (mv_assoc (tx_writes t))(j \<mapsto> v)" and "distinct (map we_key_idx ws)"
    and "w \<in> set ws \<Longrightarrow> w \<in> set (tx_writes t) \<or> we_key_idx w = j \<and> we_value w = v"
proof -
  have "mv_assoc ws = (mv_assoc (tx_writes t))(j \<mapsto> v) \<and> distinct (map we_key_idx ws)
      \<and> (w \<in> set ws \<longrightarrow> w \<in> set (tx_writes t) \<or> we_key_idx w = j \<and> we_value w = v)"
  proof (cases "find_local_write t j")
    case None
    then have "j \<notin> we_key_idx ` set (tx_writes t)" by (auto simp: find_local_write_def find_None_iff)
    then show ?thesis using None assms by (auto simp: mv_assoc_def)
  next
    case (Some w')
    then have "mv_assoc (tx_writes t) j \<noteq> None" using find_local_write_assoc [of t j, symmetric] by simp
    from mv_set_write_assoc [OF this] Some assms show ?thesis by auto
  qed
  then show "mv_assoc ws = (mv_assoc (tx_writes t))(j \<mapsto> v)" and "distinct (map we_key_idx ws)"
    and "w \<in> set ws \<Longrightarrow> w \<in> set (tx_writes t) \<or> we_key_idx w = j \<and> we_value w = v" by blast+
qed

lemma mv_sim_create:
  assumes "mv_rel db a"
  shows "mv_sim db a OpCreate"
proof (cases "si_next a \<ge> mv_MAX_TXNS")
  case True
  then show ?thesis using assms by (simp add: mv_sim_def create_txn_def mv_rel_def)
next
  case False
  have r: "mv_rel_txn (db_store db) (si_next a)
      \<lparr>tx_id = si_next a, tx_start_ts = si_clock a, tx_status = TXN_ACTIVE, tx_writes = []\<rparr>
      \<lparr>si_start = si_clock a, si_status = TXN_ACTIVE, si_writes = Map.empty\<rparr>"
    by (simp add: mv_rel_txn_def mv_assoc_def)
  have "ts < Suc (si_clock a)" if "ts < si_clock a" for ts using that by simp
  then show ?thesis using False assms r by (auto simp: mv_sim_def create_txn_def mv_rel_def Let_def less_Suc_eq)
qed

lemma mv_sim_read:
  assumes rel: "mv_rel db a" and k: "length k < mv_MAX_KEY_LEN"
    and room: "k \<in> mv_keys (db_store db) \<or> card (mv_keys (db_store db)) < mv_MAX_KEYS"
  shows "mv_sim db a (OpRead i k)"
  using rel
proof (cases rule: mv_get_cases [where i = i])
  case none
  then show ?thesis using rel by (auto simp: mv_sim_def txn_read_def)
next
  case (active t x)
  from mv_rel_key [OF rel k room] obtain st j where j: "get_or_create_key (db_store db) k = Inr (st, j)"
    "mv_rel (db\<lparr>db_store := st\<rparr>) a" "j < mv_MAX_KEYS" "ke_used (st ! j)" "ke_key (st ! j) = k"
    "mv_keys st = insert k (mv_keys (db_store db))" by blast
  have t: "mv_rel_txn st i t x" using mv_rel_txnD [OF j(2)] active(8,9) by simp
  then have w: "si_writes x k = map_option we_value (find_local_write t j)"
    using mv_rel_txn_write [OF t j(3,4)] j(5) by (simp add: find_local_write_assoc)
  have v: "(case dropWhile (\<lambda>v. ver_commit_ts v > tx_start_ts t) (ke_versions (st ! j)) of v # _ \<Rightarrow> ver_value v | [] \<Rightarrow> [])
      = si_value (si_hist a) (si_start x) k"
    using j t mv_proj_visible [of "si_start x" "si_hist a" k] by (simp add: mv_rel_def mv_rel_hist_def mv_rel_txn_def)
  have "txn_read db i k = Inr (db\<lparr>db_store := st\<rparr>,
      Some (case si_writes x k of Some v \<Rightarrow> v | None \<Rightarrow> si_value (si_hist a) (si_start x) k))"
    using active j(1) w v
    by (cases "dropWhile (\<lambda>v. ver_commit_ts v > tx_start_ts t) (ke_versions (st ! j))"; cases "find_local_write t j")
       (simp_all add: txn_read_def del: dropWhile_eq_Nil_conv)
  with active j show ?thesis by (simp add: mv_sim_def)
qed

lemma mv_sim_write:
  assumes rel: "mv_rel db a" and k: "length k < mv_MAX_KEY_LEN"
    and room: "k \<in> mv_keys (db_store db) \<or> card (mv_keys (db_store db)) < mv_MAX_KEYS"
  shows "mv_sim db a (OpWrite i k v)"
  using rel
proof (cases rule: mv_get_cases [where i = i])
  case none
  then show ?thesis using rel by (auto simp: mv_sim_def txn_write_def)
next
  case (active t x)
  from mv_rel_key [OF rel k room] obtain st j where j: "get_or_create_key (db_store db) k = Inr (st, j)"
    "mv_rel (db\<lparr>db_store := st\<rparr>) a" "j < mv_MAX_KEYS" "ke_used (st ! j)" "ke_key (st ! j) = k"
    "mv_keys st = insert k (mv_keys (db_store db))" by blast
  let ?v = "strncpy_term v mv_MAX_VALUE_LEN"
  define ws where "ws = (case find_local_write t j of
      Some w \<Rightarrow> mv_set_write j ?v (tx_writes t) | None \<Rightarrow> \<lparr>we_key_idx = j, we_value = ?v\<rparr> # tx_writes t)"
  have t: "mv_rel_txn st i t x" using mv_rel_txnD [OF j(2)] active(8,9) by simp
  have lv: "length ?v < mv_MAX_VALUE_LEN" by (simp add: strncpy_term_def mv_MAX_VALUE_LEN_def)
  have d: "distinct (map we_key_idx (tx_writes t))" using t by (simp add: mv_rel_txn_def)
  note ws = mv_upd_write [OF d, where j = j and v = ?v, folded ws_def]
  have wf: "mv_wf st" using j(2) by (simp add: mv_rel_def)
  have "((si_writes x)(k \<mapsto> ?v)) (ke_key (st ! j')) = mv_assoc ws j'" if "j' < mv_MAX_KEYS" "ke_used (st ! j')" for j'
    using mv_rel_txn_write [OF t that] mv_wf_unique [OF wf that j(3,4)] j(5) ws(1) by (cases "j' = j") auto
  moreover have "we_key_idx w < mv_MAX_KEYS \<and> ke_used (st ! we_key_idx w) \<and> length (we_value w) < mv_MAX_VALUE_LEN"
    if "w \<in> set ws" for w
    using ws(3) [OF that] t j(3,4) lv by (auto simp: mv_rel_txn_def)
  ultimately have "mv_rel_txn st i (t\<lparr>tx_writes := ws\<rparr>) (x\<lparr>si_writes := (si_writes x)(k \<mapsto> ?v)\<rparr>)"
    using t ws(2) j(6) by (simp add: mv_rel_txn_def)
  then have "mv_rel (mv_put_txn (t\<lparr>tx_writes := ws\<rparr>) (db\<lparr>db_store := st\<rparr>)) (fst (si_exec a (OpWrite i k v)))"
    using mv_rel_put [OF j(2) _ active(7), of "t\<lparr>tx_writes := ws\<rparr>"] active(1) by simp
  moreover have "txn_write db i k v = Inr (mv_put_txn (t\<lparr>tx_writes := ws\<rparr>) (db\<lparr>db_store := st\<rparr>), 0)"
    using active j(1) by (simp add: txn_write_def ws_def Let_def)
  ultimately show ?thesis using active(1) j(6) by (simp add: mv_sim_def mv_put_txn_def)
qed

subsection \<open>Commit\<close>

definition mv_stamped :: "nat \<Rightarrow> mv_entry \<Rightarrow> string option \<Rightarrow> mv_entry" where
  "mv_stamped ts e v = (case v of None \<Rightarrow> e | Some s \<Rightarrow>
     e\<lparr>ke_versions := \<lparr>ver_value = strncpy_term s mv_MAX_VALUE_LEN, ver_commit_ts = ts\<rparr> # ke_versions e\<rparr>)"

lemma mv_install_all:
  assumes "distinct (map we_key_idx ws)" and "\<forall>w\<in>set ws. we_key_idx w < length st"
  shows "length (foldl (mv_install ts) st ws) = length st
    \<and> (\<forall>j<length st. foldl (mv_install ts) st ws ! j = mv_stamped ts (st ! j) (mv_assoc ws j))"
  using assms
proof (induction ws arbitrary: st)
  case Nil
  then show ?case by (simp add: mv_assoc_def mv_stamped_def)
next
  case (Cons w ws)
  have new: "mv_assoc ws (we_key_idx w) = None" using Cons.prems by (auto simp: mv_assoc_def map_of_eq_None_iff)
  have len: "length (mv_install ts st w) = length st" by (simp add: mv_install_def)
  have "mv_stamped ts (mv_install ts st w ! j) (mv_assoc ws j) = mv_stamped ts (st ! j) (mv_assoc (w # ws) j)"
    if "j < length st" for j
    using that new by (cases "j = we_key_idx w") (simp_all add: mv_install_def mv_stamped_def mv_assoc_def)
  with Cons.IH [of "mv_install ts st w"] Cons.prems len show ?case by simp
qed

lemma mv_rel_txn_dom:
  assumes t: "mv_rel_txn st i t x"
  shows "k \<in> dom (si_writes x) \<longleftrightarrow> (\<exists>w\<in>set (tx_writes t). ke_key (st ! we_key_idx w) = k)"
proof
  assume k: "k \<in> dom (si_writes x)"
  then have "k \<in> mv_keys st" using t by (auto simp: mv_rel_txn_def)
  then obtain j where j: "j < mv_MAX_KEYS" "ke_used (st ! j)" "ke_key (st ! j) = k" by (auto simp: mv_keys_def)
  from mv_rel_txn_write [OF t j(1,2)] j(3) k have "mv_assoc (tx_writes t) j \<noteq> None" by (metis domIff)
  then have "j \<in> we_key_idx ` set (tx_writes t)" by (force simp: mv_assoc_def dest: map_of_SomeD)
  with j show "\<exists>w\<in>set (tx_writes t). ke_key (st ! we_key_idx w) = k" by auto
next
  assume "\<exists>w\<in>set (tx_writes t). ke_key (st ! we_key_idx w) = k"
  then obtain w where w: "w \<in> set (tx_writes t)" "ke_key (st ! we_key_idx w) = k" by blast
  then have j: "we_key_idx w < mv_MAX_KEYS" "ke_used (st ! we_key_idx w)" using t by (auto simp: mv_rel_txn_def)
  have "mv_assoc (tx_writes t) (we_key_idx w) \<noteq> None" using w(1)
    by (simp add: mv_assoc_def map_of_eq_None_iff image_image del: not_None_eq)
  with mv_rel_txn_write [OF t j] w(2) show "k \<in> dom (si_writes x)" by auto
qed

lemma mv_rel_install:
  assumes rel: "mv_rel db a" and t: "mv_rel_txn (db_store db) i t x"
  defines "st \<equiv> foldl (mv_install (db_global_ts db)) (db_store db) (tx_writes t)"
  shows "mv_rel (db\<lparr>db_store := st, db_global_ts := db_global_ts db + 1\<rparr>)
      (a\<lparr>si_hist := (si_clock a, si_writes x) # si_hist a, si_clock := si_clock a + 1\<rparr>)"
    and "mv_rel_txn st i t x" and "mv_keys st = mv_keys (db_store db)"
proof -
  have wf: "mv_wf (db_store db)" and clock: "db_global_ts db = si_clock a" using rel by (simp_all add: mv_rel_def)
  then have len: "length (db_store db) = mv_MAX_KEYS" by (simp add: mv_wf_def)
  have lens: "length st = length (db_store db)"
    and at: "\<And>j. j < mv_MAX_KEYS \<Longrightarrow> st ! j = mv_stamped (db_global_ts db) (db_store db ! j) (mv_assoc (tx_writes t) j)"
    using mv_install_all [of "tx_writes t" "db_store db" "db_global_ts db"] t len by (auto simp: st_def mv_rel_txn_def)
  have same: "ke_used (st ! j) = ke_used (db_store db ! j) \<and> ke_key (st ! j) = ke_key (db_store db ! j)" if "j < mv_MAX_KEYS" for j
    using at [OF that] by (simp add: mv_stamped_def split: option.splits)
  have wf': "mv_wf st" by (rule mv_wf_cong(1) [OF lens same wf])
  show keys: "mv_keys st = mv_keys (db_store db)" by (rule mv_wf_cong(2) [OF lens same])
  have txn: "mv_rel_txn st n t' x'" if "mv_rel_txn (db_store db) n t' x'" for n t' x'
    using that same keys by (auto simp: mv_rel_txn_def)
  show "mv_rel_txn st i t x" by (rule txn [OF t])
  have txns: "rel_option (mv_rel_txn st n) (db_txns db n) (si_txns a n)" for n
    using rel txn unfolding mv_rel_def by (metis option.rel_mono_strong)
  have val: "length v < mv_MAX_VALUE_LEN" if "mv_assoc (tx_writes t) j = Some v" for j v
    using t that by (auto simp: mv_rel_txn_def mv_assoc_def dest!: map_of_SomeD)
  have "ke_versions (st ! j) = mv_proj ((si_clock a, si_writes x) # si_hist a) (ke_key (st ! j))"
    if j: "j < mv_MAX_KEYS" "ke_used (st ! j)" for j
  proof -
    have u: "ke_used (db_store db ! j)" "ke_key (st ! j) = ke_key (db_store db ! j)" using same j by auto
    have "ke_versions (db_store db ! j) = mv_proj (si_hist a) (ke_key (db_store db ! j))"
      using rel j(1) u(1) by (simp add: mv_rel_def mv_rel_hist_def)
    then show ?thesis
      using at [OF j(1)] u mv_rel_txn_write [OF t j(1) u(1)] val [of j] clock
      by (auto simp: mv_proj_Cons mv_stamped_def strncpy_term_def split: option.splits)
  qed
  moreover have "dom (si_writes x) \<subseteq> mv_keys st" using t keys by (simp add: mv_rel_txn_def)
  ultimately have "mv_rel_hist st ((si_clock a, si_writes x) # si_hist a)"
    using rel keys by (auto simp: mv_rel_def mv_rel_hist_def)
  with rel txns wf' show "mv_rel (db\<lparr>db_store := st, db_global_ts := db_global_ts db + 1\<rparr>)
      (a\<lparr>si_hist := (si_clock a, si_writes x) # si_hist a, si_clock := si_clock a + 1\<rparr>)"
    by (auto simp: mv_rel_def less_Suc_eq)
qed

lemma mv_conflict_iff:
  assumes rel: "mv_rel db a" and t: "mv_rel_txn (db_store db) i t x"
  shows "mv_conflict (db_store db) t \<longleftrightarrow> si_conflict (si_hist a) x"
proof -
  let ?st = "db_store db"
  have head: "(case ke_versions (?st ! j) of [] \<Rightarrow> False | v # _ \<Rightarrow> ver_commit_ts v > tx_start_ts t)
      \<longleftrightarrow> (\<exists>(ts, w)\<in>set (si_hist a). ts > si_start x \<and> w (ke_key (?st ! j)) \<noteq> None)"
    if "j < mv_MAX_KEYS" "ke_used (?st ! j)" for j
  proof -
    have "ke_versions (?st ! j) = mv_proj (si_hist a) (ke_key (?st ! j))" "sorted_wrt (>) (map fst (si_hist a))"
      using rel that by (simp_all add: mv_rel_def mv_rel_hist_def)
    moreover have "tx_start_ts t = si_start x" using t by (simp add: mv_rel_txn_def)
    ultimately show ?thesis by (simp only: mv_proj_head)
  qed
  have idx: "we_key_idx w < mv_MAX_KEYS \<and> ke_used (?st ! we_key_idx w)" if "w \<in> set (tx_writes t)" for w
    using t that by (simp add: mv_rel_txn_def)
  have dom: "k \<in> dom (si_writes x) \<longleftrightarrow> (\<exists>w\<in>set (tx_writes t). ke_key (?st ! we_key_idx w) = k)" for k
    by (rule mv_rel_txn_dom [OF t])
  have "mv_conflict ?st t \<longleftrightarrow> (\<exists>w\<in>set (tx_writes t). \<exists>(ts, h)\<in>set (si_hist a).
      ts > si_start x \<and> h (ke_key (?st ! we_key_idx w)) \<noteq> None)"
    unfolding mv_conflict_def list_ex_iff by (rule bex_cong [OF refl]) (use head idx in blast)
  also have "\<dots> \<longleftrightarrow> (\<exists>(ts, h)\<in>set (si_hist a). ts > si_start x \<and> (\<exists>k. k \<in> dom (si_writes x) \<and> h k \<noteq> None))"
    unfolding dom by blast
  also have "\<dots> \<longleftrightarrow> si_conflict (si_hist a) x" unfolding si_conflict_def by (rule bex_cong [OF refl]) auto
  finally show ?thesis .
qed

lemma mv_sim_commit:
  assumes rel: "mv_rel db a"
  shows "mv_sim db a (OpCommit i)"
  using rel
proof (cases rule: mv_get_cases [where i = i])
  case none
  then show ?thesis using rel by (auto simp: mv_sim_def txn_commit_def)
next
  case (active t x)
  have empty: "tx_writes t = [] \<longleftrightarrow> si_writes x = Map.empty"
    using mv_rel_txn_dom [OF active(4)] by (cases "tx_writes t") (auto simp: fun_eq_iff dom_def)
  show ?thesis
  proof (cases "tx_writes t = []")
    case True
    let ?db = "db\<lparr>db_global_ts := db_global_ts db + 1\<rparr>" and ?a = "a\<lparr>si_clock := si_clock a + 1\<rparr>"
    have r: "mv_rel ?db ?a" using rel by (auto simp: mv_rel_def less_Suc_eq)
    have eq: "t\<lparr>tx_status := TXN_COMMITTED\<rparr> = t\<lparr>tx_writes := [], tx_status := TXN_COMMITTED\<rparr>" using True by simp
    from mv_rel_end [OF r, of i t x TXN_COMMITTED] active True empty show ?thesis
      by (simp add: mv_sim_def txn_commit_def mv_put_txn_def eq)
  next
    case writes: False
    show ?thesis
    proof (cases "mv_conflict (db_store db) t")
      case True
      with writes empty mv_conflict_iff [OF rel active(4)] mv_rel_end [OF rel active(4,7)] active show ?thesis
        by (simp add: mv_sim_def txn_commit_def Let_def mv_put_txn_def)
    next
      case False
      let ?st = "foldl (mv_install (db_global_ts db)) (db_store db) (tx_writes t)"
      let ?db = "db\<lparr>db_store := ?st, db_global_ts := db_global_ts db + 1\<rparr>"
      let ?a = "a\<lparr>si_hist := (si_clock a, si_writes x) # si_hist a, si_clock := si_clock a + 1\<rparr>"
      have r: "mv_rel ?db ?a" "mv_rel_txn ?st i t x" "mv_keys ?st = mv_keys (db_store db)"
        using mv_rel_install [OF rel active(4)] by blast+
      with mv_rel_end [OF r(1), of i t x TXN_COMMITTED] writes False empty mv_conflict_iff [OF rel active(4)] active
      show ?thesis by (simp add: mv_sim_def txn_commit_def Let_def mv_put_txn_def)
    qed
  qed
qed

lemma mv_sim_abort:
  assumes rel: "mv_rel db a"
  shows "mv_sim db a (OpAbort i)"
  using rel
proof (cases rule: mv_get_cases [where i = i])
  case none
  then show ?thesis using rel by (auto simp: mv_sim_def txn_explicit_abort_def)
next
  case (active t x)
  with mv_rel_end [OF rel active(4,7)] show ?thesis
    by (simp add: mv_sim_def txn_explicit_abort_def mv_put_txn_def)
qed

lemma finite_mv_keys: "finite (mv_keys st)"
proof -
  have "mv_keys st \<subseteq> (\<lambda>i. ke_key (st ! i)) ` {..<mv_MAX_KEYS}" by (auto simp: mv_keys_def)
  then show ?thesis by (rule finite_subset) simp
qed

definition mv_ops_keys :: "mv_op list \<Rightarrow> string set" where
  "mv_ops_keys ops = (\<Union>op\<in>set ops. mv_op_keys op)"

definition mv_ops_ok :: "string set \<Rightarrow> mv_op list \<Rightarrow> bool" where
  "mv_ops_ok K ops \<longleftrightarrow> card (K \<union> mv_ops_keys ops) \<le> mv_MAX_KEYS \<and> (\<forall>k\<in>mv_ops_keys ops. length k < mv_MAX_KEY_LEN)"

lemma finite_mv_op_keys [simp]: "finite (mv_op_keys op)"
  by (cases op) simp_all

lemma finite_mv_ops_keys: "finite (mv_ops_keys ops)"
  by (simp add: mv_ops_keys_def)

lemma mv_exec_sim:
  assumes rel: "mv_rel db a" and ok: "mv_ops_ok (mv_keys (db_store db)) (op # ops)"
  shows "mv_sim db a op"
proof -
  have room: "k \<in> mv_keys (db_store db) \<or> card (mv_keys (db_store db)) < mv_MAX_KEYS" if "k \<in> mv_op_keys op" for k
  proof (rule disjCI)
    assume "\<not> card (mv_keys (db_store db)) < mv_MAX_KEYS"
    moreover have "card (insert k (mv_keys (db_store db))) \<le> card (mv_keys (db_store db) \<union> mv_ops_keys (op # ops))"
      by (rule card_mono) (use that finite_mv_keys finite_mv_ops_keys in \<open>auto simp: mv_ops_keys_def\<close>)
    ultimately show "k \<in> mv_keys (db_store db)"
      using ok finite_mv_keys [of "db_store db"] by (cases "k \<in> mv_keys (db_store db)") (auto simp: mv_ops_ok_def)
  qed
  have short: "length k < mv_MAX_KEY_LEN" if "k \<in> mv_op_keys op" for k
    using ok that by (auto simp: mv_ops_ok_def mv_ops_keys_def)
  show ?thesis
    by (cases op) (use rel room short in \<open>simp_all add: mv_sim_create mv_sim_read mv_sim_write mv_sim_commit mv_sim_abort\<close>)
qed

lemma mv_run_sim:
  assumes "mv_rel db a" and "mv_ops_ok (mv_keys (db_store db)) ops"
  shows "\<exists>db'. mv_run db ops = Inr (db', snd (si_run a ops)) \<and> mv_rel db' (fst (si_run a ops))"
  using assms
proof (induction ops arbitrary: db a)
  case (Cons op ops)
  from mv_exec_sim [OF Cons.prems] obtain db1 where db1: "mv_exec db op = Inr (db1, snd (si_exec a op))"
    "mv_rel db1 (fst (si_exec a op))" "mv_keys (db_store db1) \<subseteq> mv_keys (db_store db) \<union> mv_op_keys op"
    by (auto simp: mv_sim_def)
  have "card (mv_keys (db_store db1) \<union> mv_ops_keys ops) \<le> card (mv_keys (db_store db) \<union> mv_ops_keys (op # ops))"
    by (rule card_mono) (use db1(3) finite_mv_keys finite_mv_ops_keys in \<open>auto simp: mv_ops_keys_def\<close>)
  with Cons.prems(2) have "mv_ops_ok (mv_keys (db_store db1)) ops" by (auto simp: mv_ops_ok_def mv_ops_keys_def)
  from Cons.IH [OF db1(2) this] db1(1) show ?case by (auto simp: Let_def split: prod.splits)
qed simp

subsection \<open>What the specification gives\<close>

text \<open>Nothing that other transactions do changes the transaction of \<open>i\<close> or the part of the history that it sees.\<close>

primrec mv_op_txn :: "mv_op \<Rightarrow> nat option" where
  "mv_op_txn OpCreate = None"
| "mv_op_txn (OpRead i k) = None"
| "mv_op_txn (OpWrite i k v) = Some i"
| "mv_op_txn (OpCommit i) = Some i"
| "mv_op_txn (OpAbort i) = Some i"

definition si_stable :: "nat \<Rightarrow> si_txn \<Rightarrow> si_db \<Rightarrow> si_db \<Rightarrow> bool" where
  "si_stable i x a a' \<longleftrightarrow> si_txns a i = Some x \<and> si_txns a' i = Some x \<and> si_start x < si_clock a \<and> si_start x < si_clock a' \<and>
     i < si_next a' \<and> (\<exists>new. si_hist a' = new @ si_hist a \<and> (\<forall>(ts, w)\<in>set new. si_start x < ts))"

lemma si_exec_stable:
  assumes "si_stable i x a a'" and "mv_op_txn op \<noteq> Some i"
  shows "si_stable i x a (fst (si_exec a' op))"
proof (cases op)
  case (OpCommit j)
  with assms show ?thesis by (auto simp: si_stable_def si_end_def split: option.splits)
qed (use assms in \<open>auto simp: si_stable_def si_end_def split: option.splits\<close>)

lemma si_run_Cons:
  "si_run a (op # ops) = (fst (si_run (fst (si_exec a op)) ops), snd (si_exec a op) # snd (si_run (fst (si_exec a op)) ops))"
  by (simp add: split_def Let_def)

declare si_run.simps(2) [simp del] si_run_Cons [simp]

lemma si_run_append [simp]:
  "si_run a (xs @ ys) = (fst (si_run (fst (si_run a xs)) ys), snd (si_run a xs) @ snd (si_run (fst (si_run a xs)) ys))"
  by (induction xs arbitrary: a) simp_all

lemma si_run_length [simp]: "length (snd (si_run a ops)) = length ops"
  by (induction ops arbitrary: a) simp_all

lemma si_run_stable:
  assumes "si_stable i x a a'" and "\<forall>op\<in>set ops. mv_op_txn op \<noteq> Some i"
  shows "si_stable i x a (fst (si_run a' ops))"
  using assms
proof (induction ops arbitrary: a')
  case (Cons op ops)
  have "si_stable i x a (fst (si_exec a' op))" using Cons.prems by (intro si_exec_stable) auto
  from Cons.IH [OF this] Cons.prems show ?case by simp
qed simp

lemma si_value_stable:
  assumes "si_stable i x a a'"
  shows "si_value (si_hist a') (si_start x) k = si_value (si_hist a) (si_start x) k"
proof -
  from assms obtain new where new: "si_hist a' = new @ si_hist a" "\<forall>(ts, w)\<in>set new. si_start x < ts"
    by (auto simp: si_stable_def)
  from new(2) have "find (\<lambda>(ts, w). ts \<le> si_start x \<and> w k \<noteq> None) (new @ hist) =
      find (\<lambda>(ts, w). ts \<le> si_start x \<and> w k \<noteq> None) hist" for hist
    by (induction new) auto
  then show ?thesis by (simp add: si_value_def new(1))
qed

text \<open>A transaction that exists started before the clock.\<close>

definition si_inv :: "si_db \<Rightarrow> bool" where
  "si_inv a \<longleftrightarrow> (\<forall>i x. si_txns a i = Some x \<longrightarrow> si_start x < si_clock a \<and> i < si_next a)"

lemma si_exec_inv: "si_inv a \<Longrightarrow> si_inv (fst (si_exec a op))"
  by (cases op) (auto simp: si_inv_def si_end_def si_active_def less_Suc_eq split: option.splits if_splits)

lemma si_run_inv: "si_inv a \<Longrightarrow> si_inv (fst (si_run a ops))"
proof (induction ops arbitrary: a)
  case (Cons op ops)
  from Cons.IH [OF si_exec_inv [OF Cons.prems]] show ?case by simp
qed simp

lemma si_inv_init: "si_inv si_init"
  by (simp add: si_inv_def si_init_def)

lemma si_stable_refl: "si_inv a \<Longrightarrow> si_txns a i = Some x \<Longrightarrow> si_stable i x a a"
  by (auto simp: si_stable_def si_inv_def)

lemma si_active_stable: "si_stable i x a a' \<Longrightarrow> si_active a' i = si_active a i"
  by (simp add: si_stable_def si_active_def)

lemma si_repeatable:
  assumes "si_inv a" and "\<forall>op\<in>set ops. mv_op_txn op \<noteq> Some i" and "snd (si_exec a (OpRead i k)) \<noteq> RStr None"
  shows "snd (si_exec (fst (si_run a ops)) (OpRead i k)) = snd (si_exec a (OpRead i k))"
proof -
  from assms(3) obtain x where x: "si_active a i = Some x" by (auto split: option.splits)
  then have "si_txns a i = Some x" by (auto simp: si_active_def split: option.splits if_splits)
  from si_run_stable [OF si_stable_refl [OF assms(1) this] assms(2)]
  have st: "si_stable i x a (fst (si_run a ops))" .
  show ?thesis using si_active_stable [OF st] si_value_stable [OF st] x by (simp split: option.split)
qed

lemma si_write_active:
  "snd (si_exec a (OpWrite i k v)) = RInt 0 \<Longrightarrow> \<exists>x. si_active (fst (si_exec a (OpWrite i k v))) i = Some x \<and> k \<in> dom (si_writes x)"
  by (auto simp: si_active_def split: option.splits if_splits)

lemma si_write_other:
  "i \<noteq> j \<Longrightarrow> si_active (fst (si_exec a (OpWrite j k v))) i = si_active a i"
  by (auto simp: si_active_def split: option.splits)

lemma si_first_committer:
  assumes inv: "si_inv a" and ij: "i \<noteq> j" and i: "si_active a i = Some x" "k \<in> dom (si_writes x)"
    and j: "si_active a j = Some y" "k \<in> dom (si_writes y)"
    and commit: "snd (si_exec a (OpCommit i)) = RInt 0" and others: "\<forall>op\<in>set ops. mv_op_txn op \<noteq> Some j"
  shows "snd (si_exec (fst (si_run (fst (si_exec a (OpCommit i))) ops)) (OpCommit j)) = RInt (-1)"
proof -
  let ?a = "fst (si_exec a (OpCommit i))"
  have ne: "si_writes x \<noteq> Map.empty" "si_writes y \<noteq> Map.empty" using i(2) j(2) by auto
  have y: "si_txns a j = Some y" using j(1) by (auto simp: si_active_def split: option.splits if_splits)
  have a: "si_hist ?a = (si_clock a, si_writes x) # si_hist a" "si_txns ?a j = Some y"
    using commit i(1) ne ij y by (auto simp: si_end_def split: if_splits)
  have st: "si_stable j y ?a (fst (si_run ?a ops))"
    by (rule si_run_stable [OF si_stable_refl [OF si_exec_inv [OF inv] a(2)] others])
  have act: "si_active (fst (si_run ?a ops)) j = Some y"
    using st j(1) y by (auto simp: si_active_def si_stable_def split: if_splits)
  have "(si_clock a, si_writes x) \<in> set (si_hist (fst (si_run ?a ops)))" using st a(1) by (auto simp: si_stable_def)
  moreover have "si_start y < si_clock a" using inv y by (auto simp: si_inv_def)
  ultimately have "si_conflict (si_hist (fst (si_run ?a ops))) y" using i(2) j(2) by (force simp: si_conflict_def)
  with act ne show ?thesis by simp
qed

subsection \<open>Clock and lock order\<close>

definition si_committed :: "(nat \<Rightarrow> si_txn option) \<Rightarrow> nat set" where
  "si_committed txns = {i. \<exists>x. txns i = Some x \<and> si_status x = TXN_COMMITTED}"

definition si_ticks :: "si_db \<Rightarrow> bool" where
  "si_ticks a \<longleftrightarrow> si_inv a \<and> si_next a \<le> mv_MAX_TXNS \<and> si_clock a = si_next a + card (si_committed (si_txns a))"

lemma si_committed_bound:
  assumes "si_inv a"
  shows "finite (si_committed (si_txns a)) \<and> card (si_committed (si_txns a)) \<le> si_next a"
proof -
  have "si_committed (si_txns a) \<subseteq> {..<si_next a}" using assms by (auto simp: si_inv_def si_committed_def)
  then show ?thesis using card_mono [of "{..<si_next a}" "si_committed (si_txns a)"] by (auto intro: finite_subset)
qed

lemma si_committed_upd:
  "i \<notin> si_committed txns \<Longrightarrow> si_committed (txns(i := Some x)) =
     (if si_status x = TXN_COMMITTED then insert i (si_committed txns) else si_committed txns)"
  by (auto simp: si_committed_def)

lemma si_exec_ticks:
  assumes "si_ticks a"
  shows "si_ticks (fst (si_exec a op))"
proof -
  have inv: "si_inv a" using assms by (simp add: si_ticks_def)
  have new: "si_next a \<notin> si_committed (si_txns a)" using inv by (auto simp: si_inv_def si_committed_def)
  have act: "i \<notin> si_committed (si_txns a) \<and> si_status x = TXN_ACTIVE" if "si_active a i = Some x" for i x
    using that by (auto simp: si_committed_def si_active_def split: option.splits if_splits)
  have fin: "finite (si_committed (si_txns a))" using si_committed_bound [OF inv] by blast
  from si_exec_inv [OF inv, of op] show ?thesis
    using assms act new fin by (cases op) (auto simp: si_ticks_def si_end_def si_committed_upd split: option.splits)
qed

lemma si_run_ticks: "si_ticks a \<Longrightarrow> si_ticks (fst (si_run a ops))"
  by (induction ops arbitrary: a) (simp_all add: si_exec_ticks)

lemma mv_collect_keys_props: "distinct (mv_collect_keys ws) \<and> set (mv_collect_keys ws) = we_key_idx ` set ws"
proof -
  have "case foldl (\<lambda>(present, keys) w. if we_key_idx w \<in> set present then (present, keys)
        else (we_key_idx w # present, keys @ [we_key_idx w])) ([], []) ws of (present, keys) \<Rightarrow>
      set present = set keys \<and> distinct keys \<and> set keys = we_key_idx ` set ws"
    by (induction ws rule: rev_induct) (auto split: prod.splits)
  then show ?thesis by (auto simp: mv_collect_keys_def split: prod.splits)
qed

definition mv_ordered :: "nat \<Rightarrow> nat \<Rightarrow> nat list \<Rightarrow> bool" where
  "mv_ordered i m ks \<longleftrightarrow> (\<forall>p q. p < q \<and> q < length ks \<and> (p < i \<or> p = i \<and> q < m) \<longrightarrow> ks ! p \<le> ks ! q)"

lemma mv_exchange_step:
  assumes "mv_ordered i m ks" and "i < m" and "m < length ks"
  shows "mv_ordered i (Suc m) (mv_exchange i ks m) \<and> mset (mv_exchange i ks m) = mset ks"
proof
  show "mset (mv_exchange i ks m) = mset ks" using assms by (simp add: mv_exchange_def mset_swap)
  have o: "ks ! p \<le> ks ! q" if "p < q" "q < length ks" "p < i \<or> p = i \<and> q < m" for p q
    using assms(1) that unfolding mv_ordered_def by blast
  show "mv_ordered i (Suc m) (mv_exchange i ks m)"
    unfolding mv_ordered_def
  proof (intro allI impI, elim conjE)
    fix p q
    assume a: "p < q" "q < length (mv_exchange i ks m)" "p < i \<or> p = i \<and> q < Suc m"
    then have q: "q < length ks" by (simp add: mv_exchange_def split: if_splits)
    show "mv_exchange i ks m ! p \<le> mv_exchange i ks m ! q"
      using a(1,3) q assms(2,3) o [of p q] o [of p i] o [of p m] o [of i q]
      by (auto simp: mv_exchange_def nth_list_update)
  qed
qed

lemma mv_pass:
  assumes "mv_ordered i (Suc i) ks" and "i < m" and "m \<le> length ks"
  shows "mv_ordered i m (foldl (mv_exchange i) ks [i + 1..<m]) \<and> mset (foldl (mv_exchange i) ks [i + 1..<m]) = mset ks"
  using assms(2,3)
proof (induction m)
  case (Suc m)
  show ?case
  proof (cases "m = i")
    case True
    then show ?thesis using assms(1) by simp
  next
    case False
    then have ih: "mv_ordered i m (foldl (mv_exchange i) ks [i + 1..<m])"
      "mset (foldl (mv_exchange i) ks [i + 1..<m]) = mset ks" using Suc by auto
    have "length (foldl (mv_exchange i) ks [i + 1..<m]) = length ks" using ih(2) by (metis size_mset)
    with mv_exchange_step [OF ih(1)] ih(2) False Suc.prems show ?thesis by simp
  qed
qed simp

lemma mv_ordered_Suc: "mv_ordered n (length ks) ks \<Longrightarrow> mv_ordered (Suc n) (Suc (Suc n)) ks"
  unfolding mv_ordered_def by (metis less_antisym not_less_eq)

lemma mv_sort_keys_props: "sorted (mv_sort_keys ks) \<and> mset (mv_sort_keys ks) = mset ks"
proof -
  let ?f = "\<lambda>ks i. foldl (mv_exchange i) ks [i + 1..<length ks]"
  have "n \<le> length ks \<Longrightarrow> mv_ordered n (Suc n) (foldl ?f ks [0..<n]) \<and> mset (foldl ?f ks [0..<n]) = mset ks" for n
  proof (induction n)
    case 0
    then show ?case by (simp add: mv_ordered_def)
  next
    case (Suc n)
    let ?ks = "foldl ?f ks [0..<n]"
    have ih: "mv_ordered n (Suc n) ?ks" "mset ?ks = mset ks" using Suc by auto
    note len = mset_eq_length [OF ih(2)]
    have p: "mv_ordered n (length ?ks) (?f ?ks n)" "mset (?f ?ks n) = mset ?ks"
      using mv_pass [OF ih(1), of "length ?ks"] Suc.prems len by simp_all
    have "mv_ordered (Suc n) (Suc (Suc n)) (?f ?ks n)"
      by (rule mv_ordered_Suc) (simp only: mset_eq_length [OF p(2)] p(1))
    with p(2) ih(2) show ?case by simp
  qed
  then have "mv_ordered (length ks) (Suc (length ks)) (mv_sort_keys ks)" "mset (mv_sort_keys ks) = mset ks"
    by (auto simp: mv_sort_keys_def)
  with mset_eq_length [OF this(2)] show ?thesis by (simp add: mv_ordered_def sorted_iff_nth_mono_less)
qed

lemma mv_keys_init: "mv_keys (db_store mv_init) = {}"
  by (simp add: mv_keys_def mv_init_def)

lemma mv_run_spec:
  assumes "mv_ops_ok {} ops"
  shows "\<exists>db. mv_run mv_init ops = Inr (db, snd (si_run si_init ops)) \<and> mv_rel db (fst (si_run si_init ops))"
  using mv_run_sim [OF mv_rel_init] assms by (simp add: mv_keys_init)

lemma si_ticks_init: "si_ticks si_init"
  using si_inv_init by (simp add: si_ticks_def) (simp add: si_init_def si_committed_def mv_MAX_TXNS_def)

text \<open>
  C12. The store implements snapshot isolation: for every sequence of operations with keys shorter than
  64 characters, of which at most 128 are different, no operation faults or exits, and every return
  value, of reads, writes, commits, aborts and new transactions, is the one of the specification.
\<close>

theorem mvcc_refines_snapshot_isolation:
  assumes "mv_ops_ok {} ops"
  shows "\<exists>db. mv_run mv_init ops = Inr (db, snd (si_run si_init ops))"
  using mv_run_spec [OF assms] by blast

theorem mvcc_refines_snapshot_isolation_witness:
  "\<exists>db. mv_run mv_init [OpCreate, OpWrite 1 ''A'' ''x'', OpRead 1 ''A'', OpCommit 1]
     = Inr (db, [RTxn (Some 1), RInt 0, RStr (Some ''x''), RInt 0])"
proof -
  let ?ops = "[OpCreate, OpWrite 1 ''A'' ''x'', OpRead 1 ''A'', OpCommit 1]"
  have "mv_ops_ok {} ?ops" by (simp add: mv_ops_ok_def mv_ops_keys_def mv_MAX_KEYS_def mv_MAX_KEY_LEN_def)
  from mvcc_refines_snapshot_isolation [OF this] show ?thesis
    by (simp add: si_init_def si_active_def si_conflict_def mv_MAX_TXNS_def strncpy_term_def mv_MAX_VALUE_LEN_def)
qed

text \<open>
  Reads are repeatable: a successful read of a key by a transaction returns the same value again
  whatever the other transactions have done in between.
\<close>

theorem mvcc_repeatable_read:
  assumes "mv_ops_ok {} (ops @ OpRead i k # others @ [OpRead i k])" and "\<forall>op\<in>set others. mv_op_txn op \<noteq> Some i"
    and "mv_run mv_init (ops @ OpRead i k # others @ [OpRead i k]) = Inr (db, rs)" and "rs ! length ops \<noteq> RStr None"
  shows "last rs = rs ! length ops"
proof -
  let ?a = "fst (si_run si_init ops)"
  have inv: "si_inv ?a" by (rule si_run_inv [OF si_inv_init])
  have rs: "rs = snd (si_run si_init (ops @ OpRead i k # others @ [OpRead i k]))"
    using mv_run_spec [OF assms(1)] assms(3) by auto
  then have "rs ! length ops = snd (si_exec ?a (OpRead i k))" "last rs = snd (si_exec (fst (si_run ?a others)) (OpRead i k))"
    by (simp_all add: nth_append del: si_exec.simps) simp_all
  with si_repeatable [OF inv assms(2)] assms(4) show ?thesis by simp
qed

theorem mvcc_repeatable_read_witness:
  defines "others \<equiv> [OpCreate, OpWrite 2 ''A'' ''new'', OpCommit 2]"
  shows "\<exists>db rs. mv_run mv_init ([OpCreate] @ OpRead 1 ''A'' # others @ [OpRead 1 ''A'']) = Inr (db, rs) \<and> last rs = rs ! 1"
proof -
  let ?ops = "[OpCreate] @ OpRead 1 ''A'' # others @ [OpRead 1 ''A'']"
  have ok: "mv_ops_ok {} ?ops" by (simp add: others_def mv_ops_ok_def mv_ops_keys_def mv_MAX_KEYS_def mv_MAX_KEY_LEN_def)
  from mv_run_spec [OF ok] obtain db where run: "mv_run mv_init ?ops = Inr (db, snd (si_run si_init ?ops))" by blast
  have "snd (si_run si_init ?ops) ! length [OpCreate] \<noteq> RStr None"
    by (simp add: si_init_def si_active_def mv_MAX_TXNS_def)
  from mvcc_repeatable_read [OF ok _ run this] run show ?thesis by (simp add: others_def)
qed

text \<open>
  The first committer wins: when two active transactions have written the same key and one of
  them commits, the commit of the other one fails, however much later it is tried.
\<close>

theorem mvcc_first_committer_wins:
  assumes "mv_ops_ok {} (ops @ [OpWrite i k u, OpWrite j k v, OpCommit i] @ others @ [OpCommit j])" and ij: "i \<noteq> j"
    and "\<forall>op\<in>set others. mv_op_txn op \<noteq> Some j"
    and "mv_run mv_init (ops @ [OpWrite i k u, OpWrite j k v, OpCommit i] @ others @ [OpCommit j]) = Inr (db, rs)"
    and "rs ! length ops = RInt 0" and "rs ! (length ops + 1) = RInt 0" and "rs ! (length ops + 2) = RInt 0"
  shows "last rs = RInt (-1)"
proof -
  let ?a = "fst (si_run si_init ops)"
  let ?a1 = "fst (si_exec ?a (OpWrite i k u))"
  let ?a2 = "fst (si_exec ?a1 (OpWrite j k v))"
  have inv: "si_inv ?a2" by (intro si_exec_inv si_run_inv si_inv_init)
  have rs: "rs = snd (si_run si_init (ops @ [OpWrite i k u, OpWrite j k v, OpCommit i] @ others @ [OpCommit j]))"
    using mv_run_spec [OF assms(1)] assms(4) by auto
  have r: "snd (si_exec ?a (OpWrite i k u)) = RInt 0" "snd (si_exec ?a1 (OpWrite j k v)) = RInt 0"
    "snd (si_exec ?a2 (OpCommit i)) = RInt 0"
    "last rs = snd (si_exec (fst (si_run (fst (si_exec ?a2 (OpCommit i))) others)) (OpCommit j))"
    using assms(5-7) by (simp_all add: rs nth_append nth_Cons' del: si_exec.simps)
  from si_write_active [OF r(1)] obtain x where x: "si_active ?a1 i = Some x" "k \<in> dom (si_writes x)" by blast
  from si_write_active [OF r(2)] obtain y where y: "si_active ?a2 j = Some y" "k \<in> dom (si_writes y)" by blast
  have "si_active ?a2 i = Some x" using si_write_other [OF ij, of ?a1 k v] x(1) by simp
  from si_first_committer [OF inv ij this x(2) y r(3) assms(3)] r(4) show ?thesis by simp
qed

theorem mvcc_first_committer_wins_witness:
  "\<exists>db rs. mv_run mv_init ([OpCreate, OpCreate] @ [OpWrite 1 ''A'' ''x'', OpWrite 2 ''A'' ''y'', OpCommit 1] @ [] @ [OpCommit 2])
     = Inr (db, rs) \<and> last rs = RInt (-1)"
proof -
  let ?ops = "[OpCreate, OpCreate] @ [OpWrite 1 ''A'' ''x'', OpWrite 2 ''A'' ''y'', OpCommit 1] @ [] @ [OpCommit 2]"
  have ok: "mv_ops_ok {} ?ops" by (simp add: mv_ops_ok_def mv_ops_keys_def mv_MAX_KEYS_def mv_MAX_KEY_LEN_def)
  have "map_sum id snd (mv_run mv_init ?ops) = Inr [RTxn (Some 1), RTxn (Some 2), RInt 0, RInt 0, RInt 0, RInt (-1)]"
    by code_simp
  then obtain db where run: "mv_run mv_init ?ops = Inr (db, [RTxn (Some 1), RTxn (Some 2), RInt 0, RInt 0, RInt 0, RInt (-1)])"
    by (cases "mv_run mv_init ?ops") (auto simp del: append.simps)
  from mvcc_first_committer_wins [OF ok _ _ run] have "last [RTxn (Some 1), RTxn (Some 2), RInt 0, RInt 0, RInt 0, RInt (-1)] = RInt (-1)"
    by simp
  with run show ?thesis by blast
qed

text \<open>
  The counters and locks of the store: in every run the clock stays at most twice the number of
  transaction slots, so the 64-bit timestamps never wrap, and a commit takes the locks of exactly the
  keys that it writes, in strictly increasing order, so that commits cannot wait for one another in
  a circle.
\<close>

theorem mvcc_clock_and_lock_order:
  assumes "mv_ops_ok {} ops" and "mv_run mv_init ops = Inr (db, rs)"
  shows "db_global_ts db \<le> 2 * mv_MAX_TXNS \<and> 2 * mv_MAX_TXNS < 2 ^ 64 \<and>
    sorted_wrt (<) (lock_write_keys_sorted t) \<and> set (lock_write_keys_sorted t) = we_key_idx ` set (tx_writes t)"
proof -
  let ?a = "fst (si_run si_init ops)"
  have "si_ticks ?a" by (rule si_run_ticks [OF si_ticks_init])
  then have "si_clock ?a \<le> 2 * mv_MAX_TXNS" using si_committed_bound [of ?a] by (simp add: si_ticks_def)
  moreover have "db_global_ts db = si_clock ?a" using mv_run_spec [OF assms(1)] assms(2) by (auto simp: mv_rel_def)
  moreover have "sorted (lock_write_keys_sorted t)" "distinct (lock_write_keys_sorted t)"
    "set (lock_write_keys_sorted t) = we_key_idx ` set (tx_writes t)"
    using mv_sort_keys_props [of "mv_collect_keys (tx_writes t)"] mv_collect_keys_props [of "tx_writes t"]
    by (auto simp: lock_write_keys_sorted_def dest: mset_eq_setD mset_eq_imp_distinct_iff)
  ultimately show ?thesis by (simp add: strict_sorted_iff mv_MAX_TXNS_def)
qed

theorem mvcc_clock_and_lock_order_witness:
  "\<exists>db rs. mv_run mv_init [OpCreate] = Inr (db, rs) \<and> db_global_ts db \<le> 2 * mv_MAX_TXNS"
proof -
  have ok: "mv_ops_ok {} [OpCreate]" by (simp add: mv_ops_ok_def mv_ops_keys_def mv_MAX_KEYS_def)
  from mv_run_spec [OF ok] obtain db where "mv_run mv_init [OpCreate] = Inr (db, snd (si_run si_init [OpCreate]))" by blast
  with mvcc_clock_and_lock_order [OF ok this] show ?thesis by blast
qed

lemma mv_fresh_long: "length k \<ge> mv_MAX_KEY_LEN \<Longrightarrow> \<not> strncmp_eq (ke_key (mv_fresh k)) k mv_MAX_KEY_LEN"
proof
  assume k: "length k \<ge> mv_MAX_KEY_LEN" and "strncmp_eq (ke_key (mv_fresh k)) k mv_MAX_KEY_LEN"
  then have "length (take (mv_MAX_KEY_LEN - 1) k) = length (take mv_MAX_KEY_LEN k)"
    by (simp add: strncmp_eq_def mv_fresh_def strncpy_term_def)
  with k show False by (simp add: mv_MAX_KEY_LEN_def)
qed

text \<open>
  Keys of 64 characters or more are broken: the stored copy is cut to 63 characters, never equals
  the key again, and every access creates another slot, so that a transaction does not even read back
  its own write.
\<close>

theorem mvcc_long_key_write_lost:
  assumes "length k \<ge> mv_MAX_KEY_LEN"
  shows "\<exists>db. mv_run mv_init [OpCreate, OpWrite 1 k v, OpRead 1 k] = Inr (db, [RTxn (Some 1), RInt 0, RStr (Some [])])"
proof -
  let ?st = "db_store mv_init" and ?h = "mv_hash_key k"
  let ?st1 = "?st[?h := mv_fresh k]" and ?h1 = "(mv_hash_key k + 1) mod mv_MAX_KEYS"
  have h: "?h < mv_MAX_KEYS" "?h1 < mv_MAX_KEYS" "?h1 \<noteq> ?h"
    using mv_hash_bound [of k] ring_wrap [OF mv_hash_bound, of 0 k] by (simp_all add: mv_MAX_KEYS_def)
  have free: "\<not> ke_used (?st ! j)" "ke_versions (?st ! j) = []" if "j < mv_MAX_KEYS" for j
    using that by (simp_all add: mv_init_def)
  have len: "length ?st = mv_MAX_KEYS" by (simp add: mv_init_def)
  have fuel: "mv_MAX_KEYS = Suc (Suc 126)" by (simp add: mv_MAX_KEYS_def)
  have g1: "get_or_create_key ?st k = Inr (?st1, ?h)"
    using free(1) [OF h(1)] unfolding get_or_create_key_def fuel mv_probe.simps by (simp add: mv_fresh_def)
  have g2: "get_or_create_key ?st1 k = Inr (?st1[?h1 := mv_fresh k], ?h1)"
  proof -
    have "ke_used (?st1 ! ?h)" "\<not> strncmp_eq (ke_key (?st1 ! ?h)) k mv_MAX_KEY_LEN" "\<not> ke_used (?st1 ! ?h1)"
      using mv_fresh_long [OF assms] h len free(1) [OF h(2)] by (simp_all add: mv_fresh_def)
    then show ?thesis using h(3) unfolding get_or_create_key_def fuel mv_probe.simps Let_def
      by (simp only: fuel [symmetric] if_True if_False not_False_eq_True) (simp add: mv_fresh_def)
  qed
  have "ke_versions (?st1[?h1 := mv_fresh k] ! ?h1) = []" using h len by (simp add: mv_fresh_def)
  then show ?thesis using g1 g2 h(3)
    by (simp add: create_txn_def txn_write_def txn_read_def get_txn_def mv_put_txn_def find_local_write_def
        mv_MAX_TXNS_def Let_def) (simp add: mv_init_def)
qed

theorem mvcc_long_key_write_lost_witness:
  "\<exists>db. mv_run mv_init [OpCreate, OpWrite 1 (replicate 64 CHR ''k'') ''v'', OpRead 1 (replicate 64 CHR ''k'')]
     = Inr (db, [RTxn (Some 1), RInt 0, RStr (Some [])])"
proof -
  have "length (replicate 64 CHR ''k'') \<ge> mv_MAX_KEY_LEN" by (simp add: mv_MAX_KEY_LEN_def)
  from mvcc_long_key_write_lost [OF this] show ?thesis .
qed

text \<open>The schedule that the sleeps of the demo arrange: the second transaction commits first and the first one aborts.\<close>

lemma mv_main_demo:
  "mv_main ([OpCreate] @ take 1 (txn_demo_reader_writer 1) @ [OpCreate] @ txn_demo_competing_writer 2
      @ drop 1 (txn_demo_reader_writer 1)) =
    Inr [Txt ''MVCC demo: snapshot reads + first-committer-wins on write-write conflict.'',
         Txt ''Final store state (versions newest->oldest):'', Txt ''Key='', Txt ''A'',
         Txt ''  commit_ts='', Num 3, Txt '' value='', Txt ''T2_A'']"
  by code_simp

section \<open>The single-row demo\<close>

record md_version =
  md_value :: int
  md_begin_ts :: nat
  md_end_ts :: nat

definition md_UINT64_MAX :: nat where
  "md_UINT64_MAX = 2 ^ 64 - 1"

text \<open>\<^verbatim>\<open>++global_ts\<close> on 64 bits, and \<^verbatim>\<open>begin_tx\<close>.\<close>

definition md_next_ts :: "nat \<Rightarrow> nat" where
  "md_next_ts global_ts = (global_ts + 1) mod 2 ^ 64"

definition md_begin_tx :: "nat \<Rightarrow> nat" where
  "md_begin_tx global_ts = global_ts"

definition md_row_init :: "int \<Rightarrow> md_version list" where
  "md_row_init initial_value = [\<lparr>md_value = initial_value, md_begin_ts = 1, md_end_ts = md_UINT64_MAX\<rparr>]"

fun mvcc_read :: "md_version list \<Rightarrow> nat \<Rightarrow> int" where
  "mvcc_read [] start_ts = -1"
| "mvcc_read (v # vs) start_ts =
     (if md_begin_ts v \<le> start_ts \<and> start_ts < md_end_ts v then md_value v else mvcc_read vs start_ts)"

text \<open>The part of \<^verbatim>\<open>mvcc_write_commit\<close> under the row lock, given the timestamp drawn before.\<close>

definition mvcc_install :: "md_version list \<Rightarrow> nat \<Rightarrow> int \<Rightarrow> md_version list" where
  "mvcc_install row commit_timestamp new_value =
     \<lparr>md_value = new_value, md_begin_ts = commit_timestamp, md_end_ts = md_UINT64_MAX\<rparr> #
     (case row of
        [] \<Rightarrow> []
      | old # rest \<Rightarrow>
          (if md_end_ts old = md_UINT64_MAX then old\<lparr>md_end_ts := commit_timestamp\<rparr> else old) # rest)"

datatype md_thread = MdReaderOne | MdReaderTwo | MdWriter

datatype md_wpc = MdW0 | MdW1 nat | MdW2

record md_state =
  md_global_ts :: nat
  md_row :: "md_version list"
  md_r1 :: "nat option"
  md_r1_reads :: "int list"
  md_r2 :: "nat option"
  md_r2_reads :: "int list"
  md_w :: md_wpc

definition md_init :: md_state where
  "md_init = \<lparr>md_global_ts = 1, md_row = md_row_init 100, md_r1 = None, md_r1_reads = [],
     md_r2 = None, md_r2_reads = [], md_w = MdW0\<rparr>"

text \<open>One critical section of a thread; the values that a reader prints are kept in order.\<close>

fun md_step :: "md_state \<Rightarrow> md_thread \<Rightarrow> md_state" where
  "md_step s MdReaderOne =
     (case md_r1 s of
        None \<Rightarrow> s\<lparr>md_r1 := Some (md_begin_tx (md_global_ts s))\<rparr>
      | Some t \<Rightarrow> if length (md_r1_reads s) < 5
                  then s\<lparr>md_r1_reads := md_r1_reads s @ [mvcc_read (md_row s) t]\<rparr> else s)"
| "md_step s MdReaderTwo =
     (case md_r2 s of
        None \<Rightarrow> s\<lparr>md_r2 := Some (md_begin_tx (md_global_ts s))\<rparr>
      | Some t \<Rightarrow> if length (md_r2_reads s) < 1
                  then s\<lparr>md_r2_reads := md_r2_reads s @ [mvcc_read (md_row s) t]\<rparr> else s)"
| "md_step s MdWriter =
     (case md_w s of
        MdW0 \<Rightarrow> let t = md_next_ts (md_global_ts s) in s\<lparr>md_global_ts := t, md_w := MdW1 t\<rparr>
      | MdW1 t \<Rightarrow> s\<lparr>md_row := mvcc_install (md_row s) t 200, md_w := MdW2\<rparr>
      | MdW2 \<Rightarrow> s)"

definition md_run :: "md_thread list \<Rightarrow> md_state" where
  "md_run schedule = foldl md_step md_init schedule"

lemma mvcc_read_stable:
  assumes "s < ts" and "s < md_UINT64_MAX"
  shows "mvcc_read (mvcc_install row ts v) s = mvcc_read row s"
  using assms by (auto simp: mvcc_install_def split: list.splits)

lemma mvcc_read_latest:
  assumes "ts \<le> s" and "s < md_UINT64_MAX"
  shows "mvcc_read (mvcc_install row ts v) s = v"
  using assms by (simp add: mvcc_install_def)

definition md_world :: "md_state \<Rightarrow> bool" where
  "md_world s \<longleftrightarrow>
     (md_global_ts s, md_row s) =
       (case md_w s of MdW0 \<Rightarrow> (1, md_row_init 100) | MdW1 t \<Rightarrow> (2, md_row_init 100)
        | MdW2 \<Rightarrow> (2, mvcc_install (md_row_init 100) 2 200)) \<and> (\<forall>t. md_w s = MdW1 t \<longrightarrow> t = 2)"

definition md_reader :: "bool \<Rightarrow> nat option \<Rightarrow> int list \<Rightarrow> bool" where
  "md_reader installed snap reads \<longleftrightarrow>
     snap \<in> {None, Some 1, Some 2} \<and> (snap = None \<longrightarrow> reads = []) \<and>
     set reads \<subseteq> (if installed \<and> snap \<noteq> Some 1 then {100, 200} else {100}) \<and> sorted reads"

definition md_inv :: "md_state \<Rightarrow> bool" where
  "md_inv s \<longleftrightarrow> md_world s \<and> md_reader (md_w s = MdW2) (md_r1 s) (md_r1_reads s)
     \<and> md_reader (md_w s = MdW2) (md_r2 s) (md_r2_reads s)"

lemma md_reads:
  "mvcc_read (md_row_init 100) 1 = 100" "mvcc_read (md_row_init 100) 2 = 100"
  "mvcc_read (mvcc_install (md_row_init 100) 2 200) 1 = 100" "mvcc_read (mvcc_install (md_row_init 100) 2 200) 2 = 200"
  by (simp_all add: md_row_init_def mvcc_install_def md_UINT64_MAX_def)

lemma md_read_cases:
  assumes "md_world s" and "t \<in> {1, 2}"
  shows "mvcc_read (md_row s) t = (if md_w s = MdW2 \<and> t = 2 then 200 else 100)"
  using assms md_reads by (cases "md_w s") (auto simp: md_world_def)

lemma md_reader_read:
  assumes "md_world s" and "md_reader (md_w s = MdW2) (Some t) reads"
  shows "md_reader (md_w s = MdW2) (Some t) (reads @ [mvcc_read (md_row s) t])"
proof -
  from assms(2) have t: "t \<in> {1, 2}" by (auto simp: md_reader_def)
  from assms(2) show ?thesis
    unfolding md_read_cases [OF assms(1) t] by (auto simp: md_reader_def sorted_append split: if_splits)
qed

lemma md_reader_begin: "md_world s \<Longrightarrow> md_reader b None reads \<Longrightarrow> md_reader b (Some (md_global_ts s)) reads"
  by (cases "md_w s") (auto simp: md_reader_def md_world_def)

lemma md_reader_install: "md_reader False snap reads \<Longrightarrow> md_reader True snap reads"
  by (auto simp: md_reader_def)

lemma md_step_inv:
  assumes "md_inv s"
  shows "md_inv (md_step s t)"
proof (cases t)
  case MdReaderOne
  then show ?thesis using assms md_reader_begin [of s] md_reader_read [of s]
    by (cases "md_r1 s") (simp_all add: md_inv_def md_begin_tx_def, simp_all add: md_world_def)
next
  case MdReaderTwo
  then show ?thesis using assms md_reader_begin [of s] md_reader_read [of s _ "md_r2_reads s"]
    by (cases "md_r2 s") (auto simp: md_inv_def md_begin_tx_def md_world_def)
next
  case MdWriter
  then show ?thesis using assms
    by (cases "md_w s") (simp_all add: md_inv_def md_world_def md_next_ts_def Let_def md_reader_install)
qed

lemma md_run_inv: "md_inv (md_run schedule)"
proof -
  have "md_inv (foldl md_step s schedule)" if "md_inv s" for s
    using that by (induction schedule arbitrary: s) (simp_all add: md_step_inv del: md_step.simps)
  moreover have "md_inv md_init" by (simp add: md_inv_def md_init_def md_world_def md_reader_def)
  ultimately show ?thesis by (simp add: md_run_def)
qed

text \<open>
  The row keeps snapshots apart: a version installed with a timestamp after a snapshot changes no
  read at that snapshot, and a snapshot at or after it reads the new value. So in every schedule of the
  demo a reader whose snapshot precedes the timestamp of the writer prints 100 each time, and what
  reader one prints never goes back from 200 to 100.
\<close>

theorem mvcc_demo_snapshots:
  shows "(s < ts \<and> s < md_UINT64_MAX \<longrightarrow> mvcc_read (mvcc_install row ts v) s = mvcc_read row s) \<and>
    (ts \<le> s \<and> s < md_UINT64_MAX \<longrightarrow> mvcc_read (mvcc_install row ts v) s = v) \<and>
    (md_r1 (md_run schedule) = Some 1 \<longrightarrow> set (md_r1_reads (md_run schedule)) \<subseteq> {100}) \<and>
    (md_r2 (md_run schedule) = Some 1 \<longrightarrow> set (md_r2_reads (md_run schedule)) \<subseteq> {100}) \<and>
    sorted (md_r1_reads (md_run schedule))"
  using md_run_inv [of schedule] by (auto simp: mvcc_read_stable mvcc_read_latest md_inv_def md_reader_def split: if_splits)

theorem mvcc_demo_snapshots_witness:
  "mvcc_read (mvcc_install (md_row_init 100) 2 200) 1 = 100 \<and> mvcc_read (mvcc_install (md_row_init 100) 2 200) 3 = 200 \<and>
   set (md_r1_reads (md_run [MdReaderOne, MdWriter, MdWriter, MdReaderOne])) \<subseteq> {100}"
proof -
  let ?sched = "[MdReaderOne, MdWriter, MdWriter, MdReaderOne]"
  have "md_r1 (md_run ?sched) = Some 1" by (simp add: md_run_def md_init_def md_begin_tx_def Let_def)
  then show ?thesis
    using mvcc_demo_snapshots [of 1 2 "md_row_init 100" 200 ?sched] mvcc_demo_snapshots [of 3 2 "md_row_init 100" 200 ?sched]
    by (simp add: md_UINT64_MAX_def md_row_init_def)
qed

text \<open>
  The timestamp of a commit is drawn before the row is locked. A reader that begins in between
  gets a snapshot that already includes the commit, and its repeated reads of the same snapshot change
  from 100 to 200.
\<close>

theorem mvcc_demo_unrepeatable_read:
  "md_r1 (md_run [MdWriter, MdReaderOne, MdReaderOne, MdWriter, MdReaderOne]) = Some 2 \<and>
   md_r1_reads (md_run [MdWriter, MdReaderOne, MdReaderOne, MdWriter, MdReaderOne]) = [100, 200]"
  by (simp add: md_run_def md_init_def md_begin_tx_def md_next_ts_def Let_def md_row_init_def mvcc_install_def md_UINT64_MAX_def)

end
