(* ===== verification/TwoPhase.thy ===== *)
theory TwoPhase
  imports Interfaces
begin

text \<open>
  Bank programs with locks: two-phase locking over an array of accounts
  (\<^verbatim>\<open>concurrency-and-multithreading/2pl.c\<close>) and the single account behind one mutex
  (\<^verbatim>\<open>WEEKEND_TASK/multi_thread_bank.c\<close>).

  The threads of \<^verbatim>\<open>2pl.c\<close> are a step relation: a step of a thread is one lock, one unlock, one
  read or one write of an account, and a thread that asks for a lock that is taken has no step. The results of
  \<^verbatim>\<open>rand\<close> are arguments of the step that draws them. Balances are unbounded integers; the invariant
  keeps each of them between 0 and 8000, so the \<^verbatim>\<open>int\<close> of the source does not overflow.
\<close>

section \<open>Two-phase locking\<close>

definition tp_NUMBER_OF_ACCOUNTS :: nat where
  "tp_NUMBER_OF_ACCOUNTS = 8"

definition tp_INITIAL_BALANCE :: int where
  "tp_INITIAL_BALANCE = 1000"

definition tp_NUMBER_OF_THREADS :: nat where
  "tp_NUMBER_OF_THREADS = 4"

definition tp_TRANSFERS_PER_THREAD :: nat where
  "tp_TRANSFERS_PER_THREAD = 2000"

definition tp_rnd :: "int \<Rightarrow> int \<Rightarrow> nat \<Rightarrow> int" where
  "tp_rnd a b r = a + int r smod (b - a + 1)"

definition tp_total_balance :: "(nat \<Rightarrow> int) \<Rightarrow> int" where
  "tp_total_balance accounts = foldl (\<lambda>total i. total + accounts i) 0 [0..<tp_NUMBER_OF_ACCOUNTS]"

datatype tp_pc = TpIdle | TpLock1 | TpLock2 | TpWork | TpDebitRead | TpDebitWrite | TpCreditRead | TpCreditWrite | TpCommit

record tp_thread =
  tp_pc :: tp_pc
  tp_from :: nat
  tp_to :: nat
  tp_amount :: int
  tp_reg :: int
  tp_locked_ids :: "nat list"
  tp_left :: nat

record tp_state =
  tp_accounts :: "nat \<Rightarrow> int"
  tp_record_lock :: "nat \<Rightarrow> nat option"
  tp_thr :: "nat \<Rightarrow> tp_thread"

definition tp_set :: "nat \<Rightarrow> tp_thread \<Rightarrow> tp_state \<Rightarrow> tp_state" where
  "tp_set t x s = s\<lparr>tp_thr := (tp_thr s)(t := x)\<rparr>"

text \<open>\<^verbatim>\<open>tx_begin\<close>, \<^verbatim>\<open>tx_lock_record\<close> (\<open>None\<close>: the thread blocks) and one iteration of \<^verbatim>\<open>tx_commit\<close>.\<close>

definition tx_begin :: "tp_thread \<Rightarrow> tp_thread" where
  "tx_begin x = x\<lparr>tp_locked_ids := []\<rparr>"

definition tx_lock_record :: "nat \<Rightarrow> nat \<Rightarrow> tp_pc \<Rightarrow> tp_state \<Rightarrow> tp_state option" where
  "tx_lock_record t i nxt s =
     (let x = tp_thr s t
      in if i \<in> set (tp_locked_ids x) then Some (tp_set t (x\<lparr>tp_pc := nxt\<rparr>) s)
         else if tp_record_lock s i \<noteq> None then None
         else Some (tp_set t (x\<lparr>tp_locked_ids := tp_locked_ids x @ [i], tp_pc := nxt\<rparr>)
                (s\<lparr>tp_record_lock := (tp_record_lock s)(i := Some t)\<rparr>)))"

definition tx_commit :: "nat \<Rightarrow> tp_state \<Rightarrow> tp_state" where
  "tx_commit t s =
     (let x = tp_thr s t
      in case rev (tp_locked_ids x) of
           [] \<Rightarrow> tp_set t (x\<lparr>tp_pc := TpIdle, tp_left := tp_left x - 1\<rparr>) s
         | i # rest \<Rightarrow> tp_set t (x\<lparr>tp_locked_ids := rev rest\<rparr>)
                         (s\<lparr>tp_record_lock := (tp_record_lock s)(i := None)\<rparr>))"

text \<open>
  \<^verbatim>\<open>tx_transfer\<close> and the loop of \<^verbatim>\<open>worker\<close>: the lower of the two accounts is locked first. The test of the balance, and the read and
  the write of \<^verbatim>\<open>-=\<close> and of \<^verbatim>\<open>+=\<close>, are steps of their own, with the value that was read in \<open>tp_reg\<close>.
\<close>

definition tp_low :: "tp_thread \<Rightarrow> nat" where
  "tp_low x = (if tp_from x > tp_to x then tp_to x else tp_from x)"

definition tp_high :: "tp_thread \<Rightarrow> nat" where
  "tp_high x = (if tp_from x > tp_to x then tp_from x else tp_to x)"

definition tp_worker :: "nat \<Rightarrow> nat \<times> nat \<times> nat \<Rightarrow> tp_state \<Rightarrow> tp_state option" where
  "tp_worker t rs s =
     (let x = tp_thr s t
      in case tp_pc x of
        TpIdle \<Rightarrow>
          if tp_left x = 0 then None
          else let n = int tp_NUMBER_OF_ACCOUNTS - 1;
                   f = nat (tp_rnd 0 n (fst rs)); g = nat (tp_rnd 0 n (fst (snd rs)));
                   x' = tx_begin (x\<lparr>tp_from := f, tp_to := g, tp_amount := tp_rnd 1 25 (snd (snd rs))\<rparr>)
               in if f = g then Some (tp_set t (x'\<lparr>tp_left := tp_left x - 1\<rparr>) s)
                  else Some (tp_set t (x'\<lparr>tp_pc := TpLock1\<rparr>) s)
      | TpLock1 \<Rightarrow> tx_lock_record t (tp_low x) TpLock2 s
      | TpLock2 \<Rightarrow> tx_lock_record t (tp_high x) TpWork s
      | TpWork \<Rightarrow> Some (tp_set t (x\<lparr>tp_pc := (if tp_accounts s (tp_from x) \<ge> tp_amount x then TpDebitRead else TpCommit)\<rparr>) s)
      | TpDebitRead \<Rightarrow> Some (tp_set t (x\<lparr>tp_reg := tp_accounts s (tp_from x), tp_pc := TpDebitWrite\<rparr>) s)
      | TpDebitWrite \<Rightarrow> Some (tp_set t (x\<lparr>tp_pc := TpCreditRead\<rparr>)
          (s\<lparr>tp_accounts := (tp_accounts s)(tp_from x := tp_reg x - tp_amount x)\<rparr>))
      | TpCreditRead \<Rightarrow> Some (tp_set t (x\<lparr>tp_reg := tp_accounts s (tp_to x), tp_pc := TpCreditWrite\<rparr>) s)
      | TpCreditWrite \<Rightarrow> Some (tp_set t (x\<lparr>tp_pc := TpCommit\<rparr>)
          (s\<lparr>tp_accounts := (tp_accounts s)(tp_to x := tp_reg x + tp_amount x)\<rparr>))
      | TpCommit \<Rightarrow> Some (tx_commit t s))"

definition tp_init :: tp_state where
  "tp_init = \<lparr>tp_accounts = (\<lambda>_. tp_INITIAL_BALANCE), tp_record_lock = (\<lambda>_. None),
     tp_thr = (\<lambda>_. \<lparr>tp_pc = TpIdle, tp_from = 0, tp_to = 0, tp_amount = 0, tp_reg = 0, tp_locked_ids = [],
                    tp_left = tp_TRANSFERS_PER_THREAD\<rparr>)\<rparr>"

inductive tp_step :: "tp_state \<Rightarrow> tp_state \<Rightarrow> bool" where
  tp_stepI: "t < tp_NUMBER_OF_THREADS \<Longrightarrow> tp_worker t rs s = Some s' \<Longrightarrow> tp_step s s'"

definition tp_reachable :: "tp_state \<Rightarrow> bool" where
  "tp_reachable s \<longleftrightarrow> tp_step\<^sup>*\<^sup>* tp_init s"

definition tp_main_report :: "tp_state \<Rightarrow> outs" where
  "tp_main_report s =
     [Txt ''Initial total = Rs. '', Num (tp_total_balance (tp_accounts tp_init)),
      Txt '', Final total = Rs. '', Num (tp_total_balance (tp_accounts s))] @
     concat (map (\<lambda>i. [Txt ''Account ['', Num (int i), Txt ''] = '', Num (tp_accounts s i)]) [0..<tp_NUMBER_OF_ACCOUNTS])"

section \<open>Invariant\<close>

text \<open>
  What a thread has locked follows from its program counter; a lock is owned by a thread exactly when
  that thread lists it; the money of a transfer between debit and credit is accounted for.
\<close>

definition tp_thread_ok :: "tp_thread \<Rightarrow> bool" where
  "tp_thread_ok x \<longleftrightarrow>
     (case tp_pc x of
        TpIdle \<Rightarrow> tp_locked_ids x = []
      | TpLock1 \<Rightarrow> tp_locked_ids x = []
      | TpLock2 \<Rightarrow> tp_locked_ids x = [tp_low x]
      | TpCommit \<Rightarrow> tp_locked_ids x \<in> {[], [tp_low x], [tp_low x, tp_high x]}
      | _ \<Rightarrow> tp_locked_ids x = [tp_low x, tp_high x]) \<and>
     (tp_pc x \<noteq> TpIdle \<longrightarrow> 0 < tp_left x \<and> tp_from x \<noteq> tp_to x \<and> tp_from x < tp_NUMBER_OF_ACCOUNTS
        \<and> tp_to x < tp_NUMBER_OF_ACCOUNTS \<and> 0 < tp_amount x)"

definition tp_inflight :: "tp_thread \<Rightarrow> int" where
  "tp_inflight x = (if tp_pc x \<in> {TpCreditRead, TpCreditWrite} then tp_amount x else 0)"

text \<open>What a thread knows of the accounts between a read and the write that rests on it.\<close>

definition tp_knows :: "(nat \<Rightarrow> int) \<Rightarrow> tp_thread \<Rightarrow> bool" where
  "tp_knows acc x \<longleftrightarrow>
     (tp_pc x \<in> {TpDebitRead, TpDebitWrite} \<longrightarrow> tp_amount x \<le> acc (tp_from x)) \<and>
     (tp_pc x = TpDebitWrite \<longrightarrow> tp_reg x = acc (tp_from x)) \<and>
     (tp_pc x = TpCreditWrite \<longrightarrow> tp_reg x = acc (tp_to x))"

definition tp_money :: "tp_state \<Rightarrow> int" where
  "tp_money s = sum (tp_accounts s) {..<tp_NUMBER_OF_ACCOUNTS} + sum (\<lambda>t. tp_inflight (tp_thr s t)) {..<tp_NUMBER_OF_THREADS}"

definition tp_inv :: "tp_state \<Rightarrow> bool" where
  "tp_inv s \<longleftrightarrow>
     (\<forall>t<tp_NUMBER_OF_THREADS. tp_thread_ok (tp_thr s t) \<and> tp_knows (tp_accounts s) (tp_thr s t)) \<and>
     (\<forall>i t. tp_record_lock s i = Some t \<longleftrightarrow> t < tp_NUMBER_OF_THREADS \<and> i \<in> set (tp_locked_ids (tp_thr s t))) \<and>
     (\<forall>i<tp_NUMBER_OF_ACCOUNTS. 0 \<le> tp_accounts s i) \<and>
     tp_money s = int tp_NUMBER_OF_ACCOUNTS * tp_INITIAL_BALANCE"

lemma tp_total_balance_sum: "tp_total_balance accounts = sum accounts {..<tp_NUMBER_OF_ACCOUNTS}"
proof -
  have "foldl (\<lambda>total i. total + accounts i) 0 [0..<n] = sum accounts {..<n}" for n :: nat
    by (induction n) simp_all
  then show ?thesis by (simp add: tp_total_balance_def)
qed

lemma tp_rnd_bounds: "a \<le> b \<Longrightarrow> a \<le> tp_rnd a b r \<and> tp_rnd a b r \<le> b"
  using pos_mod_bound [of "b - a + 1" "int r"] by (simp add: tp_rnd_def smod_nonneg)

lemma tp_low_high: "tp_from x \<noteq> tp_to x \<Longrightarrow> tp_low x < tp_high x"
  by (simp add: tp_low_def tp_high_def)

lemma tp_inv_init: "tp_inv tp_init"
  by (simp add: tp_inv_def tp_init_def tp_thread_ok_def tp_knows_def tp_money_def tp_inflight_def tp_INITIAL_BALANCE_def)

text \<open>A step of \<open>t\<close> that changes neither accounts nor locks only has to keep \<open>t\<close> well-formed.\<close>

lemma tp_inv_set:
  assumes inv: "tp_inv s" and t: "t < tp_NUMBER_OF_THREADS" and ok: "tp_thread_ok x" "tp_knows (tp_accounts s) x"
    and same: "tp_locked_ids x = tp_locked_ids (tp_thr s t)" "tp_inflight x = tp_inflight (tp_thr s t)"
  shows "tp_inv (tp_set t x s)"
proof -
  have "sum (\<lambda>t'. tp_inflight (((tp_thr s)(t := x)) t')) {..<tp_NUMBER_OF_THREADS}
      = sum (\<lambda>t'. tp_inflight (tp_thr s t')) {..<tp_NUMBER_OF_THREADS}"
    by (rule sum.cong) (use same in auto)
  with inv ok same show ?thesis by (auto simp: tp_inv_def tp_set_def tp_money_def)
qed

lemma tp_inv_thread: "tp_inv s \<Longrightarrow> t < tp_NUMBER_OF_THREADS \<Longrightarrow> tp_thread_ok (tp_thr s t)"
  by (simp add: tp_inv_def)

lemma tp_inv_owner:
  "tp_inv s \<Longrightarrow> tp_record_lock s i = Some t \<longleftrightarrow> t < tp_NUMBER_OF_THREADS \<and> i \<in> set (tp_locked_ids (tp_thr s t))"
  by (simp add: tp_inv_def)

lemma tp_money_upd:
  assumes "t < tp_NUMBER_OF_THREADS"
  shows "sum (\<lambda>t'. tp_inflight (((tp_thr s)(t := x)) t')) {..<tp_NUMBER_OF_THREADS}
    = sum (\<lambda>t'. tp_inflight (tp_thr s t')) {..<tp_NUMBER_OF_THREADS} - tp_inflight (tp_thr s t) + tp_inflight x"
proof -
  have "sum (\<lambda>t'. tp_inflight (((tp_thr s)(t := x)) t')) {..<tp_NUMBER_OF_THREADS}
      = tp_inflight x + sum (\<lambda>t'. tp_inflight (((tp_thr s)(t := x)) t')) ({..<tp_NUMBER_OF_THREADS} - {t})"
    using assms by (subst sum.remove [of _ t]) auto
  also have "sum (\<lambda>t'. tp_inflight (((tp_thr s)(t := x)) t')) ({..<tp_NUMBER_OF_THREADS} - {t})
      = sum (\<lambda>t'. tp_inflight (tp_thr s t')) ({..<tp_NUMBER_OF_THREADS} - {t})"
    by (rule sum.cong) auto
  finally show ?thesis using assms by (simp add: sum_diff1)
qed

lemma tp_accounts_upd:
  fixes acc :: "nat \<Rightarrow> int"
  assumes "i < tp_NUMBER_OF_ACCOUNTS"
  shows "sum (acc(i := v)) {..<tp_NUMBER_OF_ACCOUNTS} = sum acc {..<tp_NUMBER_OF_ACCOUNTS} - acc i + v"
proof -
  have "sum (acc(i := v)) {..<tp_NUMBER_OF_ACCOUNTS} = v + sum (acc(i := v)) ({..<tp_NUMBER_OF_ACCOUNTS} - {i})"
    using assms by (subst sum.remove [of _ i]) auto
  also have "sum (acc(i := v)) ({..<tp_NUMBER_OF_ACCOUNTS} - {i}) = sum acc ({..<tp_NUMBER_OF_ACCOUNTS} - {i})"
    by (rule sum.cong) auto
  finally show ?thesis using assms by (simp add: sum_diff1)
qed

lemma tp_inv_lock:
  assumes inv: "tp_inv s" and t: "t < tp_NUMBER_OF_THREADS" and free: "tp_record_lock s i = None"
    and ok: "tp_thread_ok x" "tp_knows (tp_accounts s) x" and x: "tp_locked_ids x = tp_locked_ids (tp_thr s t) @ [i]"
      "tp_inflight x = tp_inflight (tp_thr s t)"
  shows "tp_inv (tp_set t x (s\<lparr>tp_record_lock := (tp_record_lock s)(i := Some t)\<rparr>))"
proof -
  have "i \<notin> set (tp_locked_ids (tp_thr s t'))" if "t' < tp_NUMBER_OF_THREADS" for t'
    using tp_inv_owner [OF inv, of i t'] free that by simp
  then have "((tp_record_lock s)(i := Some t)) j = Some u \<longleftrightarrow>
      u < tp_NUMBER_OF_THREADS \<and> j \<in> set (tp_locked_ids (((tp_thr s)(t := x)) u))" for j u
    using tp_inv_owner [OF inv, of j u] t x(1) by auto
  with inv ok x(2) tp_money_upd [OF t, of s x] show ?thesis by (simp add: tp_inv_def tp_set_def tp_money_def)
qed

lemma tp_inv_unlock:
  assumes inv: "tp_inv s" and t: "t < tp_NUMBER_OF_THREADS" and d: "distinct (tp_locked_ids (tp_thr s t))"
    and ok: "tp_thread_ok x" "tp_knows (tp_accounts s) x" and x: "tp_locked_ids (tp_thr s t) = tp_locked_ids x @ [i]"
      "tp_inflight x = tp_inflight (tp_thr s t)"
  shows "tp_inv (tp_set t x (s\<lparr>tp_record_lock := (tp_record_lock s)(i := None)\<rparr>))"
proof -
  have own: "tp_record_lock s i = Some t" using tp_inv_owner [OF inv, of i t] t x(1) by simp
  have "((tp_record_lock s)(i := None)) j = Some u \<longleftrightarrow>
      u < tp_NUMBER_OF_THREADS \<and> j \<in> set (tp_locked_ids (((tp_thr s)(t := x)) u))" for j u
    using tp_inv_owner [OF inv, of j u] own t x(1) d by auto
  with inv ok x(2) tp_money_upd [OF t, of s x] show ?thesis by (simp add: tp_inv_def tp_set_def tp_money_def)
qed

lemma tp_inv_knows: "tp_inv s \<Longrightarrow> t < tp_NUMBER_OF_THREADS \<Longrightarrow> tp_knows (tp_accounts s) (tp_thr s t)"
  by (simp add: tp_inv_def)

text \<open>A thread that works on its accounts has both of them locked, so nobody else writes them.\<close>

lemma tp_knows_other:
  assumes inv: "tp_inv s" and t: "t < tp_NUMBER_OF_THREADS" "i \<in> set (tp_locked_ids (tp_thr s t))"
    and u: "u < tp_NUMBER_OF_THREADS" "u \<noteq> t"
  shows "tp_knows ((tp_accounts s)(i := v)) (tp_thr s u)"
proof -
  have "i \<notin> set (tp_locked_ids (tp_thr s u))" using tp_inv_owner [OF inv, of i t] tp_inv_owner [OF inv, of i u] t u by simp
  then have "tp_pc (tp_thr s u) \<in> {TpDebitRead, TpDebitWrite, TpCreditWrite} \<Longrightarrow> tp_from (tp_thr s u) \<noteq> i \<and> tp_to (tp_thr s u) \<noteq> i"
    using tp_inv_thread [OF inv u(1)] by (auto simp: tp_thread_ok_def tp_low_def tp_high_def split: if_splits)
  then show ?thesis using tp_inv_knows [OF inv u(1)] by (auto simp: tp_knows_def)
qed

lemma tp_inv_account:
  assumes inv: "tp_inv s" and t: "t < tp_NUMBER_OF_THREADS" and ok: "tp_thread_ok x" "tp_knows ((tp_accounts s)(i := v)) x"
    and same: "tp_locked_ids x = tp_locked_ids (tp_thr s t)" and i: "i < tp_NUMBER_OF_ACCOUNTS" "i \<in> set (tp_locked_ids x)" and v: "0 \<le> v"
    and bal: "v + tp_inflight x = tp_accounts s i + tp_inflight (tp_thr s t)"
  shows "tp_inv (tp_set t x (s\<lparr>tp_accounts := (tp_accounts s)(i := v)\<rparr>))"
proof -
  have "tp_money (tp_set t x (s\<lparr>tp_accounts := (tp_accounts s)(i := v)\<rparr>)) = tp_money s"
    using bal tp_money_upd [OF t, of s x] tp_accounts_upd [OF i(1), of "tp_accounts s" v] by (simp add: tp_money_def tp_set_def)
  moreover have "tp_knows ((tp_accounts s)(i := v)) (((tp_thr s)(t := x)) u)" if "u < tp_NUMBER_OF_THREADS" for u
    using ok(2) tp_knows_other [OF inv t, of i u v] i(2) same that by simp
  ultimately show ?thesis using inv ok same v by (auto simp: tp_inv_def tp_set_def)
qed

lemma tp_step_inv:
  assumes inv: "tp_inv s" and t: "t < tp_NUMBER_OF_THREADS" and w: "tp_worker t rs s = Some s'"
  shows "tp_inv s'"
proof (cases "tp_pc (tp_thr s t)")
  case TpIdle
  let ?n = "int tp_NUMBER_OF_ACCOUNTS - 1"
  have "0 \<le> tp_rnd 0 ?n r" "nat (tp_rnd 0 ?n r) < tp_NUMBER_OF_ACCOUNTS" "0 < tp_rnd 1 25 r" for r
    using tp_rnd_bounds [of 0 ?n r] tp_rnd_bounds [of 1 25 r] by (auto simp: tp_NUMBER_OF_ACCOUNTS_def)
  with TpIdle w tp_inv_thread [OF inv t] show ?thesis
    by (auto simp: tp_worker_def Let_def tx_begin_def tp_thread_ok_def tp_knows_def tp_inflight_def split: if_splits
        intro!: tp_inv_set [OF inv t])
next
  case TpLock1
  with w tp_inv_thread [OF inv t] show ?thesis
    by (auto simp: tp_worker_def tx_lock_record_def Let_def tp_thread_ok_def tp_knows_def tp_inflight_def tp_low_def split: if_splits
        intro!: tp_inv_lock [OF inv t])
next
  case TpLock2
  with tp_inv_thread [OF inv t] have "tp_low (tp_thr s t) < tp_high (tp_thr s t)"
    by (simp add: tp_thread_ok_def tp_low_high)
  with TpLock2 w tp_inv_thread [OF inv t] show ?thesis
    by (auto simp: tp_worker_def tx_lock_record_def Let_def tp_thread_ok_def tp_knows_def tp_inflight_def tp_low_def tp_high_def split: if_splits
        intro!: tp_inv_lock [OF inv t])
next
  case TpWork
  with w tp_inv_thread [OF inv t] show ?thesis
    by (auto simp: tp_worker_def Let_def tp_thread_ok_def tp_knows_def tp_inflight_def tp_low_def tp_high_def intro!: tp_inv_set [OF inv t])
next
  case TpDebitRead
  with w tp_inv_thread [OF inv t] tp_inv_knows [OF inv t] show ?thesis
    by (auto simp: tp_worker_def Let_def tp_thread_ok_def tp_knows_def tp_inflight_def tp_low_def tp_high_def intro!: tp_inv_set [OF inv t])
next
  case TpDebitWrite
  with w tp_inv_thread [OF inv t] tp_inv_knows [OF inv t] show ?thesis
    by (auto simp: tp_worker_def Let_def tp_thread_ok_def tp_knows_def tp_inflight_def tp_low_def tp_high_def intro!: tp_inv_account [OF inv t])
next
  case TpCreditRead
  with w tp_inv_thread [OF inv t] show ?thesis
    by (auto simp: tp_worker_def Let_def tp_thread_ok_def tp_knows_def tp_inflight_def tp_low_def tp_high_def intro!: tp_inv_set [OF inv t])
next
  case TpCreditWrite
  then have x: "tp_to (tp_thr s t) < tp_NUMBER_OF_ACCOUNTS" "0 < tp_amount (tp_thr s t)"
    using tp_inv_thread [OF inv t] by (simp_all add: tp_thread_ok_def)
  then have "0 \<le> tp_accounts s (tp_to (tp_thr s t))" using inv by (simp add: tp_inv_def)
  with x TpCreditWrite w tp_inv_thread [OF inv t] tp_inv_knows [OF inv t] show ?thesis
    by (auto simp: tp_worker_def Let_def tp_thread_ok_def tp_knows_def tp_inflight_def tp_low_def tp_high_def
        intro!: tp_inv_account [OF inv t])
next
  case TpCommit
  with tp_inv_thread [OF inv t] have lh: "tp_low (tp_thr s t) < tp_high (tp_thr s t)"
    by (simp add: tp_thread_ok_def tp_low_high)
  show ?thesis
  proof (cases "tp_locked_ids (tp_thr s t) = []")
    case True
    with TpCommit w tp_inv_thread [OF inv t] show ?thesis
      by (auto simp: tp_worker_def tx_commit_def Let_def tp_thread_ok_def tp_knows_def tp_inflight_def intro!: tp_inv_set [OF inv t])
  next
    case False
    with TpCommit w tp_inv_thread [OF inv t] lh show ?thesis
      by (auto simp: tp_worker_def tx_commit_def Let_def tp_thread_ok_def tp_knows_def tp_inflight_def tp_low_def tp_high_def
          intro!: tp_inv_unlock [OF inv t])
  qed
qed

lemma tp_reachable_inv: "tp_reachable s \<Longrightarrow> tp_inv s"
  unfolding tp_reachable_def
proof (induction rule: rtranclp_induct)
  case (step s s')
  then show ?case by (auto elim!: tp_step.cases intro: tp_step_inv)
qed (rule tp_inv_init)

section \<open>Progress\<close>

fun tp_pc_rank :: "tp_pc \<Rightarrow> nat" where
  "tp_pc_rank TpIdle = 12" | "tp_pc_rank TpLock1 = 11" | "tp_pc_rank TpLock2 = 10" | "tp_pc_rank TpWork = 9"
| "tp_pc_rank TpDebitRead = 8" | "tp_pc_rank TpDebitWrite = 7" | "tp_pc_rank TpCreditRead = 6" | "tp_pc_rank TpCreditWrite = 5"
| "tp_pc_rank TpCommit = 2"

definition tp_rank :: "tp_thread \<Rightarrow> nat" where
  "tp_rank x = 20 * tp_left x + tp_pc_rank (tp_pc x) + (if tp_pc x = TpCommit then length (tp_locked_ids x) else 0)"

definition tp_measure :: "tp_state \<Rightarrow> nat" where
  "tp_measure s = sum (\<lambda>t. tp_rank (tp_thr s t)) {..<tp_NUMBER_OF_THREADS}"

lemma tp_worker_rank:
  assumes ok: "tp_thread_ok (tp_thr s t)" and w: "tp_worker t rs s = Some s'"
  shows "tp_rank (tp_thr s' t) < tp_rank (tp_thr s t)" and "u \<noteq> t \<Longrightarrow> tp_thr s' u = tp_thr s u"
proof -
  have "tp_rank (tp_thr s' t) < tp_rank (tp_thr s t) \<and> (u \<noteq> t \<longrightarrow> tp_thr s' u = tp_thr s u)"
    using ok w by (cases "tp_pc (tp_thr s t)")
      (auto simp: tp_worker_def tx_begin_def tx_lock_record_def tx_commit_def tp_set_def tp_rank_def tp_thread_ok_def Let_def
        split: if_splits)
  then show "tp_rank (tp_thr s' t) < tp_rank (tp_thr s t)" and "u \<noteq> t \<Longrightarrow> tp_thr s' u = tp_thr s u" by blast+
qed

lemma tp_step_decreases:
  assumes "tp_step s s'" and inv: "tp_inv s"
  shows "tp_measure s' < tp_measure s"
  using assms(1)
proof cases
  case (tp_stepI t rs)
  note r = tp_worker_rank [OF tp_inv_thread [OF inv tp_stepI(1)] tp_stepI(2)]
  show ?thesis unfolding tp_measure_def
  proof (rule sum_strict_mono_ex1)
    show "\<forall>u\<in>{..<tp_NUMBER_OF_THREADS}. tp_rank (tp_thr s' u) \<le> tp_rank (tp_thr s u)"
      using r by (metis less_imp_le_nat order_refl)
    show "\<exists>u\<in>{..<tp_NUMBER_OF_THREADS}. tp_rank (tp_thr s' u) < tp_rank (tp_thr s u)" using r(1) tp_stepI(1) by blast
  qed simp
qed

text \<open>A thread without a step is finished or waits for a lock that another thread holds.\<close>

lemma tp_blocked:
  assumes inv: "tp_inv s" and t: "t < tp_NUMBER_OF_THREADS" and none: "\<nexists>s'. tp_step s s'"
  shows "tp_pc (tp_thr s t) = TpIdle \<and> tp_left (tp_thr s t) = 0
    \<or> (\<exists>u. tp_pc (tp_thr s t) = TpLock1 \<and> tp_record_lock s (tp_low (tp_thr s t)) = Some u)
    \<or> (\<exists>u. tp_pc (tp_thr s t) = TpLock2 \<and> tp_record_lock s (tp_high (tp_thr s t)) = Some u)"
proof -
  have "tp_worker t (0, 0, 0) s = None" using none tp_step.intros [OF t] by (cases "tp_worker t (0, 0, 0) s") blast+
  then show ?thesis
    by (auto simp: tp_worker_def tx_lock_record_def Let_def split: tp_pc.splits if_splits)
qed

lemma tp_lock_owner:
  assumes inv: "tp_inv s" and none: "\<nexists>s'. tp_step s s'" and own: "tp_record_lock s i = Some u"
  shows "u < tp_NUMBER_OF_THREADS \<and> tp_pc (tp_thr s u) = TpLock2 \<and> i = tp_low (tp_thr s u)"
proof -
  have u: "u < tp_NUMBER_OF_THREADS" "i \<in> set (tp_locked_ids (tp_thr s u))" using tp_inv_owner [OF inv] own by blast+
  with tp_blocked [OF inv u(1) none] tp_inv_thread [OF inv u(1)] show ?thesis by (auto simp: tp_thread_ok_def)
qed

lemma tp_no_deadlock:
  assumes inv: "tp_inv s" and none: "\<nexists>s'. tp_step s s'" and t: "t < tp_NUMBER_OF_THREADS"
  shows "tp_pc (tp_thr s t) = TpIdle \<and> tp_left (tp_thr s t) = 0"
proof -
  let ?W = "{u. u < tp_NUMBER_OF_THREADS \<and> tp_pc (tp_thr s u) = TpLock2}"
  have "?W = {}"
  proof (rule ccontr)
    assume ne: "?W \<noteq> {}"
    have fin: "finite ((\<lambda>u. tp_low (tp_thr s u)) ` ?W)" by simp
    from Max_in [OF fin] ne obtain u where u1: "u \<in> ?W" "tp_low (tp_thr s u) = Max ((\<lambda>u. tp_low (tp_thr s u)) ` ?W)"
      by (metis (no_types, lifting) image_iff image_is_empty)
    have u: "u \<in> ?W" "\<And>v. v \<in> ?W \<Longrightarrow> tp_low (tp_thr s v) \<le> tp_low (tp_thr s u)"
      using u1 Max_ge [OF fin] by (simp_all only: image_eqI)
    from tp_blocked [OF inv _ none, of u] u(1) obtain v where "tp_record_lock s (tp_high (tp_thr s u)) = Some v" by auto
    from tp_lock_owner [OF inv none this] have v: "v \<in> ?W" "tp_high (tp_thr s u) = tp_low (tp_thr s v)" by auto
    have "tp_low (tp_thr s u) < tp_high (tp_thr s u)"
      using tp_inv_thread [OF inv, of u] u(1) by (auto simp: tp_thread_ok_def intro: tp_low_high)
    with u(2) [OF v(1)] v(2) show False by simp
  qed
  with tp_blocked [OF inv t none] tp_lock_owner [OF inv none] t show ?thesis by auto
qed

text \<open>
  C22. Two-phase locking isolates the transfers and keeps the money, although every read and every write of an account is a step of its own:
  in every reachable state each account is between 0 and the total, the balances and the amounts between the write of the debit and the write of
  the credit add up to the initial total (no update is lost), and no two threads have locked the same account.
\<close>

theorem two_phase_locking_safe:
  assumes "tp_reachable s"
  shows "(\<forall>i<tp_NUMBER_OF_ACCOUNTS. 0 \<le> tp_accounts s i \<and> tp_accounts s i \<le> tp_total_balance (tp_accounts tp_init)) \<and>
    tp_total_balance (tp_accounts s) + sum (\<lambda>t. tp_inflight (tp_thr s t)) {..<tp_NUMBER_OF_THREADS}
      = tp_total_balance (tp_accounts tp_init) \<and>
    (\<forall>t<tp_NUMBER_OF_THREADS. \<forall>u<tp_NUMBER_OF_THREADS. t \<noteq> u \<longrightarrow>
      set (tp_locked_ids (tp_thr s t)) \<inter> set (tp_locked_ids (tp_thr s u)) = {})"
proof -
  note inv = tp_reachable_inv [OF assms]
  have init: "tp_total_balance (tp_accounts tp_init) = int tp_NUMBER_OF_ACCOUNTS * tp_INITIAL_BALANCE"
    by (simp add: tp_total_balance_sum tp_init_def)
  have nn: "0 \<le> tp_accounts s i" if "i < tp_NUMBER_OF_ACCOUNTS" for i using inv that by (simp add: tp_inv_def)
  have "0 \<le> tp_inflight (tp_thr s t)" if "t < tp_NUMBER_OF_THREADS" for t
    using tp_inv_thread [OF inv that] by (auto simp: tp_inflight_def tp_thread_ok_def)
  then have fl: "0 \<le> sum (\<lambda>t. tp_inflight (tp_thr s t)) {..<tp_NUMBER_OF_THREADS}" by (intro sum_nonneg) simp
  have tot: "tp_total_balance (tp_accounts s) + sum (\<lambda>t. tp_inflight (tp_thr s t)) {..<tp_NUMBER_OF_THREADS}
      = tp_total_balance (tp_accounts tp_init)"
    using inv unfolding init by (simp add: tp_total_balance_sum tp_inv_def tp_money_def)
  have "tp_accounts s i \<le> tp_total_balance (tp_accounts s)" if "i < tp_NUMBER_OF_ACCOUNTS" for i
    unfolding tp_total_balance_sum using that nn by (intro member_le_sum) auto
  then have "tp_accounts s i \<le> tp_total_balance (tp_accounts tp_init)" if "i < tp_NUMBER_OF_ACCOUNTS" for i
    using that fl tot by fastforce
  with nn have "\<forall>i<tp_NUMBER_OF_ACCOUNTS. 0 \<le> tp_accounts s i \<and> tp_accounts s i \<le> tp_total_balance (tp_accounts tp_init)"
    by blast
  moreover have "set (tp_locked_ids (tp_thr s t)) \<inter> set (tp_locked_ids (tp_thr s u)) = {}"
    if "t < tp_NUMBER_OF_THREADS" "u < tp_NUMBER_OF_THREADS" "t \<noteq> u" for t u
    using that tp_inv_owner [OF inv] by (metis disjoint_iff option.inject)
  ultimately show ?thesis using tot by blast
qed

text \<open>The first six steps of a transfer of 5 from account 0 to account 1.\<close>

fun tp_run :: "(nat \<times> nat \<times> nat \<times> nat) list \<Rightarrow> tp_state \<Rightarrow> tp_state option" where
  "tp_run [] s = Some s"
| "tp_run ((t, rs) # sched) s =
     (if t < tp_NUMBER_OF_THREADS then case tp_worker t rs s of None \<Rightarrow> None | Some s' \<Rightarrow> tp_run sched s' else None)"

lemma tp_run_steps: "tp_run sched s = Some s' \<Longrightarrow> tp_step\<^sup>*\<^sup>* s s'"
  by (induction sched s rule: tp_run.induct)
    (auto split: if_splits option.splits intro: converse_rtranclp_into_rtranclp tp_step.intros)

theorem two_phase_locking_safe_witness:
  "\<exists>s. tp_reachable s \<and> tp_accounts s 0 = 995 \<and> tp_total_balance (tp_accounts s) = 7995 \<and>
    tp_total_balance (tp_accounts s) + sum (\<lambda>t. tp_inflight (tp_thr s t)) {..<tp_NUMBER_OF_THREADS} = 8000"
proof -
  let ?sched = "replicate 6 (0, 0, 1, 4)"
  have "case tp_run ?sched tp_init of None \<Rightarrow> False | Some s \<Rightarrow> tp_accounts s 0 = 995 \<and> tp_total_balance (tp_accounts s) = 7995"
    by code_simp
  then obtain s where s: "tp_run ?sched tp_init = Some s" "tp_accounts s 0 = 995" "tp_total_balance (tp_accounts s) = 7995"
    by (cases "tp_run ?sched tp_init") auto
  have r: "tp_reachable s" using tp_run_steps [OF s(1)] by (simp add: tp_reachable_def)
  have "tp_total_balance (tp_accounts tp_init) = 8000" by code_simp
  then show ?thesis using two_phase_locking_safe [OF r] r s(2,3) by auto
qed

text \<open>
  C23. The program ends: no run is infinite, and a run stops only when every thread has made all its
  transfers; the final total that \<^verbatim>\<open>main\<close> prints is then the initial one. In particular the threads
  cannot deadlock.
\<close>

theorem two_phase_locking_terminates:
  "wf {(s', s). tp_reachable s \<and> tp_step s s'} \<and>
   (\<forall>s. tp_reachable s \<and> (\<nexists>s'. tp_step s s') \<longrightarrow>
     (\<forall>t<tp_NUMBER_OF_THREADS. tp_left (tp_thr s t) = 0) \<and>
     tp_total_balance (tp_accounts s) = tp_total_balance (tp_accounts tp_init))"
proof -
  have "{(s', s). tp_reachable s \<and> tp_step s s'} \<subseteq> measure tp_measure"
    using tp_step_decreases tp_reachable_inv by auto
  then have wf: "wf {(s', s). tp_reachable s \<and> tp_step s s'}" by (rule wf_subset [OF wf_measure])
  have "(\<forall>t<tp_NUMBER_OF_THREADS. tp_left (tp_thr s t) = 0) \<and>
      tp_total_balance (tp_accounts s) = tp_total_balance (tp_accounts tp_init)"
    if r: "tp_reachable s" and none: "\<nexists>s'. tp_step s s'" for s
  proof -
    note inv = tp_reachable_inv [OF r]
    note fin = tp_no_deadlock [OF inv none]
    have "sum (\<lambda>t. tp_inflight (tp_thr s t)) {..<tp_NUMBER_OF_THREADS} = 0"
      using fin by (intro sum.neutral) (auto simp: tp_inflight_def)
    then have "tp_total_balance (tp_accounts s) = tp_total_balance (tp_accounts tp_init)"
      using inv by (simp add: tp_inv_def tp_money_def tp_total_balance_sum) (simp add: tp_init_def)
    with fin show ?thesis by blast
  qed
  with wf show ?thesis by blast
qed

theorem two_phase_locking_terminates_witness:
  "\<exists>s'. tp_step tp_init s'"
proof -
  have "tp_left (tp_thr tp_init 0) \<noteq> 0" "0 < tp_NUMBER_OF_THREADS"
    by (simp_all add: tp_init_def tp_TRANSFERS_PER_THREAD_def tp_NUMBER_OF_THREADS_def)
  moreover have "tp_reachable tp_init" by (simp add: tp_reachable_def)
  ultimately show ?thesis using two_phase_locking_terminates by metis
qed

section \<open>One account behind a mutex\<close>

text \<open>
  \<^verbatim>\<open>deposit\<close> and \<^verbatim>\<open>withdraw\<close> run under the mutex, so a run of the four threads is a sequence of calls.
  A call carries the two results of \<^verbatim>\<open>rand\<close> that its iteration of \<^verbatim>\<open>transactions\<close> has drawn.
\<close>

definition bank_deposit :: "int \<Rightarrow> nat \<Rightarrow> int \<Rightarrow> int \<times> outs" where
  "bank_deposit amount thread_id balance =
     (let balance = balance + amount
      in (balance, [Txt ''Thread '', Num (int thread_id), Txt '': Deposited '', Num amount, Txt '' | New Balance: '', Num balance]))"

definition bank_withdraw :: "int \<Rightarrow> nat \<Rightarrow> int \<Rightarrow> int \<times> outs" where
  "bank_withdraw amount thread_id balance =
     (if balance \<ge> amount
      then let balance = balance - amount
           in (balance, [Txt ''Thread '', Num (int thread_id), Txt '': Withdrawn '', Num amount, Txt '' | New Balance: '', Num balance])
      else (balance, [Txt ''Thread '', Num (int thread_id), Txt '': Withdrawal of '', Num amount,
                      Txt '' failed (Insufficient balance)'']))"

record bank_call =
  bc_thread :: nat
  bc_rand1 :: nat
  bc_rand2 :: nat

definition bank_transaction :: "int \<times> outs list \<Rightarrow> bank_call \<Rightarrow> int \<times> outs list" where
  "bank_transaction st c =
     (let (balance, out) = st;
          amount = int (bc_rand1 c) smod 200 + 50;
          action = int (bc_rand2 c) smod 2;
          (balance', line) = (if action = 0 then bank_deposit amount (bc_thread c) balance
                              else bank_withdraw amount (bc_thread c) balance)
      in (balance', out @ [line]))"

definition bank_main :: "bank_call list \<Rightarrow> int \<times> outs list" where
  "bank_main schedule =
     (let (balance, out) = foldl bank_transaction
            (1000, [[Txt ''Initial Balance: '', Num 1000], [Txt ''Starting transactions...'']]) schedule
      in (balance, out @ [[Txt ''All transactions complete.''], [Txt ''Final Balance: '', Num balance]]))"

text \<open>What a printed line says about the money that moved.\<close>

fun bank_moved :: "outs \<Rightarrow> int" where
  "bank_moved [Txt _, Num _, Txt what, Num n, Txt _, Num _] =
     (if what = '': Deposited '' then n else if what = '': Withdrawn '' then - n else 0)"
| "bank_moved _ = 0"

lemma bank_transaction_ok:
  assumes "0 \<le> fst st"
  shows "0 \<le> fst (bank_transaction st c) \<and>
    fst (bank_transaction st c) - sum_list (map bank_moved (snd (bank_transaction st c))) =
      fst st - sum_list (map bank_moved (snd st))"
proof -
  have "0 \<le> int (bc_rand1 c) smod 200" by (simp add: smod_nonneg)
  then show ?thesis using assms
    by (auto simp: bank_transaction_def bank_deposit_def bank_withdraw_def Let_def split: prod.splits)
qed

text \<open>
  For every schedule of the four threads the balance is never negative at the end, and it is the
  initial 1000 plus the deposits and minus the withdrawals that have been printed.
\<close>

theorem bank_balance_accounted:
  "0 \<le> fst (bank_main schedule) \<and> fst (bank_main schedule) = 1000 + sum_list (map bank_moved (snd (bank_main schedule)))"
proof -
  have "0 \<le> fst (foldl bank_transaction st schedule) \<and>
      fst (foldl bank_transaction st schedule) - sum_list (map bank_moved (snd (foldl bank_transaction st schedule))) =
        fst st - sum_list (map bank_moved (snd st))" if "0 \<le> fst st" for st
    using that
  proof (induction schedule arbitrary: st)
    case (Cons c schedule)
    from bank_transaction_ok [OF Cons.prems, of c] Cons.IH [of "bank_transaction st c"] show ?case by simp
  qed simp
  from this [of "(1000, [[Txt ''Initial Balance: '', Num 1000], [Txt ''Starting transactions...'']])"]
  show ?thesis by (simp add: bank_main_def split_def Let_def)
qed

end
