(* ===== verification/Btree.thy ===== *)
theory Btree
  imports Interfaces
begin

text \<open>
  The B-tree programs of \<^verbatim>\<open>day-7(B-Tree)\<close>: \<^verbatim>\<open>b-tree-dynamic-insertion.c\<close> (insertion with preemptive
  splitting, search and display) and \<^verbatim>\<open>b-tree.c\<close> (search in a tree built by hand).

  A node carries the live part of its arrays: \<^verbatim>\<open>keys[0..count-1]\<close> and, in an inner node, the children
  \<^verbatim>\<open>child[0..count]\<close>. The loops that shift array cells are insertions into these lists; a write at
  index \<^verbatim>\<open>MAX\<close> of \<^verbatim>\<open>keys\<close> and a child that is not there are faults. A leaf has no children: its
  pointers are \<open>NULL\<close>.
\<close>

section \<open>The code\<close>

definition btr_MAX :: nat where
  "btr_MAX = 3"

datatype btr_node = BtNode (btr_keys: "int list") (btr_child: "btr_node list") (btr_isLeaf: bool)

definition btr_createNode :: "bool \<Rightarrow> btr_node" where
  "btr_createNode isLeaf = BtNode [] [] isLeaf"

definition btr_nth_child :: "btr_node list \<Rightarrow> nat \<Rightarrow> btr_node res" where
  "btr_nth_child cs i = (if i < length cs then Inr (cs ! i) else Inl NullDeref)"

lemma btr_nth_child_Inr: "btr_nth_child cs i = Inr c \<longleftrightarrow> i < length cs \<and> c = cs ! i"
  by (auto simp: btr_nth_child_def)

text \<open>The scans over the keys, from the left (\<^verbatim>\<open>searchKey\<close>) and from the right (insertion).\<close>

definition btr_scan_left :: "int \<Rightarrow> int list \<Rightarrow> nat" where
  "btr_scan_left key ks = length (takeWhile (\<lambda>k. key > k) ks)"

definition btr_scan_right :: "int \<Rightarrow> int list \<Rightarrow> nat" where
  "btr_scan_right key ks = length ks - length (takeWhile (\<lambda>k. key < k) (rev ks))"

function btr_searchKey :: "int \<Rightarrow> btr_node \<Rightarrow> bool res" where
  "btr_searchKey key (BtNode ks cs leaf) =
     (let i = btr_scan_left key ks
      in if i < length ks \<and> key = ks ! i then Inr True
         else if leaf then Inr False
         else bindE (btr_nth_child cs i) (\<lambda>c. btr_searchKey key c))"
  by pat_completeness auto
termination
proof (relation "measure (\<lambda>(key, t). size t)")
  fix key :: int and ks cs leaf i c
  assume "btr_nth_child cs i = Inr c"
  then have "c \<in> set cs" by (auto simp: btr_nth_child_Inr)
  then show "((key, c), (key, BtNode ks cs leaf)) \<in> measure (\<lambda>(key, t). size t)"
    by (induction cs) auto
qed simp

text \<open>
  \<^verbatim>\<open>splitChild\<close>: the parent's keys and children after the child at \<open>idx\<close> has been cut in two around its
  median. The parent's arrays have room for one more key only when it is not full.
\<close>

definition btr_splitChild :: "int list \<Rightarrow> btr_node list \<Rightarrow> nat \<Rightarrow> (int list \<times> btr_node list) res" where
  "btr_splitChild ks cs idx =
     bindE (btr_nth_child cs idx) (\<lambda>c.
       let mid = btr_MAX div 2;
           newNode = BtNode (drop (mid + 1) (btr_keys c)) (if btr_isLeaf c then [] else drop (mid + 1) (btr_child c)) (btr_isLeaf c);
           fullChild = BtNode (take mid (btr_keys c)) (if btr_isLeaf c then btr_child c else take (mid + 1) (btr_child c)) (btr_isLeaf c)
       in if length ks \<ge> btr_MAX \<or> mid \<ge> length (btr_keys c) then Inl OutOfBounds
          else Inr (take idx ks @ btr_keys c ! mid # drop idx ks,
                    take idx cs @ fullChild # newNode # drop (idx + 1) cs))"

primrec btr_height :: "btr_node \<Rightarrow> nat" where
  "btr_height (BtNode ks cs leaf) = Suc (fold max (map btr_height cs) 0)"

lemma fold_max_ge: "n \<in> set ns \<Longrightarrow> n \<le> fold max ns (m :: nat)"
proof (induction ns arbitrary: m)
  case (Cons a ns)
  have "m \<le> fold max ns m" for m by (induction ns arbitrary: m) (auto intro: order_trans [OF max.cobounded2])
  with Cons show ?case by (force intro: order_trans [OF max.cobounded1])
qed simp

lemma fold_max_le: "\<forall>n\<in>set ns. n \<le> b \<Longrightarrow> m \<le> b \<Longrightarrow> fold max ns m \<le> (b :: nat)"
  by (induction ns arbitrary: m) auto

lemma btr_height_child: "c \<in> set cs \<Longrightarrow> btr_height c < btr_height (BtNode ks cs leaf)"
  by (simp add: less_Suc_eq_le fold_max_ge)

lemma btr_height_sub:
  assumes "set cs' \<subseteq> set cs"
  shows "btr_height (BtNode ks' cs' leaf') \<le> btr_height (BtNode ks cs leaf)"
proof -
  have "n \<le> fold max (map btr_height cs) 0" if "n \<in> set (map btr_height cs')" for n
    using that assms by (intro fold_max_ge) auto
  then show ?thesis by (simp add: fold_max_le)
qed

lemma btr_splitChild_height:
  assumes "btr_splitChild ks cs i = Inr (ks', cs')" and "d \<in> set cs'"
  shows "btr_height d < btr_height (BtNode ks cs leaf)"
proof -
  from assms(1) have i: "i < length cs" by (auto simp: btr_splitChild_def bindE_eq_Inr btr_nth_child_Inr)
  have part: "btr_height (BtNode ks1 cs1 l) < btr_height (BtNode ks cs leaf)" if "set cs1 \<subseteq> set (btr_child (cs ! i))" for ks1 cs1 l
  proof -
    have "btr_height (BtNode ks1 cs1 l) \<le> btr_height (cs ! i)" using btr_height_sub [OF that] by (cases "cs ! i") simp
    also have "\<dots> < btr_height (BtNode ks cs leaf)" using i by (intro btr_height_child) simp
    finally show ?thesis .
  qed
  let ?c = "cs ! i"
  from assms(1) i have "\<exists>ks1 ks2 cs1 cs2. cs' = take i cs @ BtNode ks1 cs1 (btr_isLeaf ?c) # BtNode ks2 cs2 (btr_isLeaf ?c) # drop (i + 1) cs
      \<and> set cs1 \<subseteq> set (btr_child ?c) \<and> set cs2 \<subseteq> set (btr_child ?c)"
    by (auto simp: btr_splitChild_def bindE_eq_Inr btr_nth_child_Inr Let_def set_take_subset set_drop_subset split: if_splits)
  then obtain ks1 ks2 cs1 cs2 where cs': "cs' = take i cs @ BtNode ks1 cs1 (btr_isLeaf ?c) # BtNode ks2 cs2 (btr_isLeaf ?c) # drop (i + 1) cs"
    "set cs1 \<subseteq> set (btr_child ?c)" "set cs2 \<subseteq> set (btr_child ?c)" by blast
  have "d \<in> set cs \<or> d = BtNode ks1 cs1 (btr_isLeaf ?c) \<or> d = BtNode ks2 cs2 (btr_isLeaf ?c)"
    using assms(2) set_take_subset [of i cs] set_drop_subset [of "i + 1" cs] unfolding cs'(1) by auto
  then show ?thesis using btr_height_child part cs'(2,3) by blast
qed

function btr_insertWhenNonFull :: "btr_node \<Rightarrow> int \<Rightarrow> btr_node res" where
  "btr_insertWhenNonFull (BtNode ks cs leaf) key =
     (let i = btr_scan_right key ks
      in if leaf then
           (if length ks < btr_MAX then Inr (BtNode (take i ks @ key # drop i ks) cs leaf) else Inl OutOfBounds)
         else bindE (btr_nth_child cs i) (\<lambda>c.
           if length (btr_keys c) = btr_MAX then
             bindE (btr_splitChild ks cs i) (\<lambda>(ks', cs').
               let i' = (if key > ks' ! i then i + 1 else i)
               in bindE (btr_nth_child cs' i') (\<lambda>c'. bindE (btr_insertWhenNonFull c' key) (\<lambda>d.
                    Inr (BtNode ks' (cs'[i' := d]) leaf))))
           else bindE (btr_insertWhenNonFull c key) (\<lambda>d. Inr (BtNode ks (cs[i := d]) leaf))))"
  by pat_completeness auto
termination
proof (relation "measure (\<lambda>(t, key). btr_height t)")
  fix ks cs leaf and key :: int and i c x ks' cs' i' c'
  assume "btr_splitChild ks cs i = Inr x" "(ks', cs') = x" "btr_nth_child cs' i' = Inr c'"
  then show "((c', key), (BtNode ks cs leaf, key)) \<in> measure (\<lambda>(t, key). btr_height t)"
    using btr_splitChild_height [of ks cs i ks' cs' c' leaf] by (auto simp: btr_nth_child_Inr)
next
  fix ks cs leaf and key :: int and i c
  assume "btr_nth_child cs i = Inr c"
  then show "((c, key), (BtNode ks cs leaf, key)) \<in> measure (\<lambda>(t, key). btr_height t)"
    using btr_height_child [of c cs ks leaf] by (auto simp: btr_nth_child_Inr)
qed simp

definition btr_insert :: "int \<Rightarrow> btr_node option \<Rightarrow> btr_node option res" where
  "btr_insert key root =
     (case root of
        None \<Rightarrow> Inr (Some (BtNode [key] (btr_child (btr_createNode True)) True))
      | Some r \<Rightarrow>
          if length (btr_keys r) = btr_MAX then
            bindE (btr_splitChild (btr_keys (btr_createNode False)) [r] 0) (\<lambda>(ks, cs).
              let i = (if key > ks ! 0 then 1 else 0)
              in bindE (btr_nth_child cs i) (\<lambda>c. bindE (btr_insertWhenNonFull c key) (\<lambda>d.
                   Inr (Some (BtNode ks (cs[i := d]) False)))))
          else bindE (btr_insertWhenNonFull r key) (\<lambda>r'. Inr (Some r')))"

definition btr_search :: "int \<Rightarrow> btr_node option \<Rightarrow> bool res" where
  "btr_search key root = (case root of None \<Rightarrow> Inr False | Some r \<Rightarrow> btr_searchKey key r)"

text \<open>\<^verbatim>\<open>display\<close> prints the keys of a node separated by bars, then its children one level deeper.\<close>

fun btr_bars :: "int list \<Rightarrow> outs" where
  "btr_bars [] = []"
| "btr_bars [k] = [Num k]"
| "btr_bars (k # ks) = Num k # Txt '' | '' # btr_bars ks"

primrec btr_display :: "btr_node \<Rightarrow> nat \<Rightarrow> outs" where
  "btr_display (BtNode ks cs leaf) level =
     replicate level (Txt ''    '') @ Txt ''['' # btr_bars ks @ Txt '']\<newline>'' #
     concat (map (\<lambda>f. f (level + 1)) (map btr_display cs))"

definition btr_report :: "int list \<Rightarrow> btr_node option \<Rightarrow> outs res" where
  "btr_report keys root = foldE (\<lambda>out k. bindE (btr_search k root) (\<lambda>found.
     Inr (out @ [Num k, Txt (if found then '' key is found in the B-Tree \<newline>'' else '' key is not found in the B-Tree \<newline>'')])))
     keys []"

definition btr_main :: "outs res" where
  "btr_main =
     bindE (foldE (\<lambda>root k. btr_insert k root) [10, 20, 5, 6, 12, 30, 7, 17] None) (\<lambda>root.
     bindE (btr_report [6, 15, 30] root) (\<lambda>found.
     Inr (Txt ''Data inserted successfully \<newline>'' # (case root of None \<Rightarrow> [] | Some r \<Rightarrow> btr_display r 0) @ found)))"

text \<open>\<^verbatim>\<open>b-tree.c\<close>: the same search on a tree that \<^verbatim>\<open>main\<close> writes out.\<close>

definition btr_static_tree :: btr_node where
  "btr_static_tree = BtNode [10, 20] [BtNode [5, 8] [] True, BtNode [12, 15, 18] [] True, BtNode [25, 30] [] True] False"

definition btr_static_main :: "outs res" where
  "btr_static_main = btr_report [15, 9, 25, 100] (Some btr_static_tree)"

section \<open>Contents and balance\<close>

fun btr_mix :: "int list list \<Rightarrow> int list \<Rightarrow> int list" where
  "btr_mix [] ks = ks"
| "btr_mix (x # xs) [] = x"
| "btr_mix (x # xs) (k # ks) = x @ k # btr_mix xs ks"

primrec btr_inorder :: "btr_node \<Rightarrow> int list" where
  "btr_inorder (BtNode ks cs leaf) = btr_mix (map btr_inorder cs) ks"

text \<open>All leaves at depth \<open>h\<close>, one to three keys in a node, and one child more than keys in an inner node.\<close>

primrec btr_wf :: "nat \<Rightarrow> btr_node \<Rightarrow> bool" where
  "btr_wf 0 t \<longleftrightarrow> btr_isLeaf t \<and> btr_child t = [] \<and> btr_keys t \<noteq> [] \<and> length (btr_keys t) \<le> btr_MAX"
| "btr_wf (Suc h) t \<longleftrightarrow> \<not> btr_isLeaf t \<and> length (btr_child t) = Suc (length (btr_keys t)) \<and> btr_keys t \<noteq> [] \<and>
     length (btr_keys t) \<le> btr_MAX \<and> list_all (btr_wf h) (btr_child t)"

definition btr_left :: "int list list \<Rightarrow> int list \<Rightarrow> int list" where
  "btr_left us xs = concat (map2 (\<lambda>u k. u @ [k]) us xs)"

definition btr_right :: "int list \<Rightarrow> int list list \<Rightarrow> int list" where
  "btr_right ys vs = concat (map2 (\<lambda>k v. k # v) ys vs)"

lemma btr_mix_split:
  assumes "length us = length xs" and "length vs = length ys"
  shows "btr_mix (us @ c # vs) (xs @ ys) = btr_left us xs @ c @ btr_right ys vs"
proof -
  have "btr_mix (c # vs) ys = c @ btr_right ys vs" for c
    using assms(2) by (induction vs ys arbitrary: c rule: list_induct2) (auto simp: btr_right_def)
  with assms(1) show ?thesis by (induction us xs rule: list_induct2) (auto simp: btr_left_def)
qed

lemma btr_left_last: "length us = length xs \<Longrightarrow> xs \<noteq> [] \<Longrightarrow> btr_left us xs \<noteq> [] \<and> last (btr_left us xs) = last xs"
  by (induction us xs rule: list_induct2) (auto simp: btr_left_def)

lemma btr_left_Nil [simp]: "btr_left us [] = []" "btr_left [] xs = []"
  by (simp_all add: btr_left_def)

lemma btr_right_hd: "length vs = length ys \<Longrightarrow> ys \<noteq> [] \<Longrightarrow> btr_right ys vs \<noteq> [] \<and> hd (btr_right ys vs) = hd ys \<and> hd ys \<in> set (btr_right ys vs)"
  by (cases ys; cases vs) (auto simp: btr_right_def)

lemma btr_right_Nil [simp]: "btr_right [] vs = []"
  by (simp add: btr_right_def)

lemma btr_split_node:
  assumes "length us = length xs" and "length vs = length ys"
  shows "btr_inorder (BtNode (xs @ ys) (us @ c # vs) leaf) =
    btr_left (map btr_inorder us) xs @ btr_inorder c @ btr_right ys (map btr_inorder vs)"
  using assms by (simp add: btr_mix_split)

subsection \<open>Scans\<close>

lemma btr_scan_right_split:
  obtains xs ys where "ks = xs @ ys" "length xs = btr_scan_right key ks" "xs = [] \<or> last xs \<le> key" "\<forall>y\<in>set ys. key < y"
proof
  let ?ys = "takeWhile (\<lambda>k. key < k) (rev ks)" and ?xs = "dropWhile (\<lambda>k. key < k) (rev ks)"
  have "rev ks = ?ys @ ?xs" by simp
  then show split: "ks = rev ?xs @ rev ?ys" by (metis rev_append rev_rev_ident)
  then have "length ks = length ?xs + length ?ys" by (metis length_append length_rev)
  then show "length (rev ?xs) = btr_scan_right key ks" by (simp add: btr_scan_right_def)
  show "rev ?xs = [] \<or> last (rev ?xs) \<le> key"
    using hd_dropWhile [of "\<lambda>k. key < k" "rev ks"] by (metis last_rev not_less rev.simps(1))
  show "\<forall>y\<in>set (rev ?ys). key < y" by (auto dest: set_takeWhileD)
qed

lemma btr_scan_left_split:
  obtains xs ys where "ks = xs @ ys" "length xs = btr_scan_left key ks" "\<forall>x\<in>set xs. x < key" "ys = [] \<or> key \<le> hd ys"
proof
  let ?xs = "takeWhile (\<lambda>k. key > k) ks" and ?ys = "dropWhile (\<lambda>k. key > k) ks"
  show "ks = ?xs @ ?ys" by simp
  show "length ?xs = btr_scan_left key ks" by (simp add: btr_scan_left_def)
  show "\<forall>x\<in>set ?xs. x < key" by (auto dest: set_takeWhileD)
  show "?ys = [] \<or> key \<le> hd ?ys" using hd_dropWhile [of "\<lambda>k. key > k" ks] by (metis not_less)
qed

lemma sorted_le_last: "sorted xs \<Longrightarrow> x \<in> set xs \<Longrightarrow> x \<le> last xs" for xs :: "int list"
  by (induction xs) auto

lemma sorted_hd_le: "sorted xs \<Longrightarrow> x \<in> set xs \<Longrightarrow> hd xs \<le> x" for xs :: "int list"
  by (cases xs) auto

lemma insort_mid:
  fixes key :: int
  assumes s: "sorted (l @ c @ r)" and "l = [] \<or> last l \<le> key" and "r = [] \<or> key \<le> hd r"
  shows "insort key (l @ c @ r) = l @ insort key c @ r"
proof -
  have "\<forall>x\<in>set l. x \<le> key" using assms sorted_le_last [of l] by (fastforce simp: sorted_append)
  moreover have "\<forall>x\<in>set r. key \<le> x" using assms sorted_hd_le [of r] by (fastforce simp: sorted_append)
  ultimately have "sorted (l @ insort key c @ r)" using s by (auto simp: sorted_append set_insort_key sorted_insort)
  moreover have "mset (l @ insort key c @ r) = mset (insort key (l @ c @ r))" by simp
  ultimately show ?thesis using s by (metis properties_for_sort sorted_insort)
qed

subsection \<open>Splitting\<close>

lemma length_3: "length xs = btr_MAX \<longleftrightarrow> (\<exists>a b c. xs = [a, b, c])"
  by (auto simp: btr_MAX_def numeral_3_eq_3 length_Suc_conv)

lemma btr_split_full:
  assumes wf: "btr_wf h c" and full: "length (btr_keys c) = btr_MAX" and i: "i < length cs" and c: "cs ! i = c"
    and room: "length ks < btr_MAX"
  obtains l m r where "btr_splitChild ks cs i = Inr (take i ks @ m # drop i ks, take i cs @ l # r # drop (i + 1) cs)"
    "btr_wf h l" "btr_wf h r" "length (btr_keys l) = 1" "length (btr_keys r) = 1"
    "btr_inorder c = btr_inorder l @ m # btr_inorder r"
proof -
  obtain ks1 cs1 leaf where node: "c = BtNode ks1 cs1 leaf" by (cases c)
  from full node obtain a b d where ks1: "ks1 = [a, b, d]" by (auto simp: length_3)
  have mid: "btr_MAX div 2 = 1" "drop (Suc (Suc 0)) = drop 2" "take (Suc (Suc 0)) = take 2" by (simp add: btr_MAX_def) (simp_all add: numeral_2_eq_2)
  show ?thesis
  proof (cases h)
    case 0
    then have leaf: "leaf" "cs1 = []" using wf node by auto
    show ?thesis
      by (rule that [of b "BtNode [a] [] True" "BtNode [d] [] True"])
         (use i c node ks1 leaf room mid 0 in \<open>auto simp: btr_splitChild_def btr_nth_child_def Let_def btr_MAX_def\<close>)
  next
    case (Suc h')
    then have inner: "\<not> leaf" "length cs1 = 4" "list_all (btr_wf h') cs1" using wf node ks1 by auto
    then obtain c0 c1 c2 c3 where cs1: "cs1 = [c0, c1, c2, c3]" by (auto simp: numeral_eq_Suc length_Suc_conv)
    show ?thesis
      by (rule that [of b "BtNode [a] [c0, c1] False" "BtNode [d] [c2, c3] False"])
         (use i c node ks1 inner cs1 room mid Suc in \<open>auto simp: btr_splitChild_def btr_nth_child_def Let_def btr_MAX_def\<close>)
  qed
qed

section \<open>Insertion\<close>

text \<open>A child may be replaced by one that is well-formed; the rest of the node stays.\<close>

lemma btr_wf_node:
  assumes "length us = length xs" and "length vs = length ys" and "xs @ ys \<noteq> []" and "length (xs @ ys) \<le> btr_MAX"
    and "\<forall>u\<in>set (us @ c # vs). btr_wf h u"
  shows "btr_wf (Suc h) (BtNode (xs @ ys) (us @ c # vs) False)"
  using assms by (simp add: list_all_iff)

lemma btr_descend:
  assumes lens: "length us = length xs" "length vs = length ys" and ne: "xs @ ys \<noteq> []" "length (xs @ ys) \<le> btr_MAX"
    and wf: "\<forall>u\<in>set us \<union> set vs. btr_wf h u" and d: "btr_wf h d" "btr_inorder d = insort key (btr_inorder c)"
    and s: "sorted (btr_inorder (BtNode (xs @ ys) (us @ c # vs) False))"
    and x: "xs = [] \<or> last xs \<le> key" and y: "ys = [] \<or> key \<le> hd ys"
  shows "btr_wf (Suc h) (BtNode (xs @ ys) (us @ d # vs) False) \<and>
    btr_inorder (BtNode (xs @ ys) (us @ d # vs) False) = insort key (btr_inorder (BtNode (xs @ ys) (us @ c # vs) False))"
proof
  let ?l = "btr_left (map btr_inorder us) xs" and ?r = "btr_right ys (map btr_inorder vs)"
  show "btr_wf (Suc h) (BtNode (xs @ ys) (us @ d # vs) False)" using lens ne wf d(1) by (intro btr_wf_node) auto
  have "?l = [] \<or> last ?l \<le> key" using btr_left_last [of "map btr_inorder us" xs] lens x by (cases xs) auto
  moreover have "?r = [] \<or> key \<le> hd ?r" using btr_right_hd [of "map btr_inorder vs" ys] lens y by (cases ys) auto
  ultimately show "btr_inorder (BtNode (xs @ ys) (us @ d # vs) False) = insort key (btr_inorder (BtNode (xs @ ys) (us @ c # vs) False))"
    using s d(2) unfolding btr_split_node [OF lens] by (simp only: insort_mid)
qed

lemma btr_child_sorted:
  assumes "length us = length xs" "length vs = length ys" and "sorted (btr_inorder (BtNode (xs @ ys) (us @ c # vs) leaf))"
  shows "sorted (btr_inorder c)"
  using assms(3) unfolding btr_split_node [OF assms(1,2)] by (simp add: sorted_append)

text \<open>After a split the insertion goes on in one of the two halves, below an old parent or below a new root.\<close>

lemma btr_split_descend:
  fixes key m :: int
  defines "j xs \<equiv> (if key > m then length xs + 1 else length xs)"
  assumes lens: "length us = length xs" "length vs = length ys" and room: "length (xs @ m # ys) \<le> btr_MAX"
    and wf: "\<forall>u\<in>set us \<union> {a, b} \<union> set vs. btr_wf h u"
    and ih: "\<And>c. c \<in> {a, b} \<Longrightarrow> sorted (btr_inorder c) \<Longrightarrow>
      \<exists>d. btr_insertWhenNonFull c key = Inr d \<and> btr_wf h d \<and> btr_inorder d = insort key (btr_inorder c)"
    and s: "sorted (btr_inorder (BtNode (xs @ m # ys) (us @ a # b # vs) False))"
    and x: "xs = [] \<or> last xs \<le> key" and y: "ys = [] \<or> key \<le> hd ys"
  shows "\<exists>t'. bindE (btr_nth_child (us @ a # b # vs) (j xs)) (\<lambda>c. bindE (btr_insertWhenNonFull c key)
      (\<lambda>d. Inr (BtNode (xs @ m # ys) ((us @ a # b # vs)[j xs := d]) False))) = Inr t' \<and>
    btr_wf (Suc h) t' \<and> btr_inorder t' = insort key (btr_inorder (BtNode (xs @ m # ys) (us @ a # b # vs) False))"
proof (cases "key > m")
  case True
  have lens': "length (us @ [a]) = length (xs @ [m])" using lens by simp
  have s2: "sorted (btr_inorder (BtNode ((xs @ [m]) @ ys) ((us @ [a]) @ b # vs) False))" using s by simp
  from ih [OF _ btr_child_sorted [OF lens' lens(2) s2]] obtain d where
    d: "btr_insertWhenNonFull b key = Inr d" "btr_wf h d" "btr_inorder d = insort key (btr_inorder b)" by auto
  with btr_descend [OF lens' lens(2) _ _ _ d(2,3) s2 _ y] room wf True lens(1) show ?thesis
    by (simp add: j_def btr_nth_child_def nth_append list_update_append)
next
  case False
  have lens': "length (b # vs) = length (m # ys)" using lens by simp
  from ih [OF _ btr_child_sorted [OF lens(1) lens' s]] obtain d where
    d: "btr_insertWhenNonFull a key = Inr d" "btr_wf h d" "btr_inorder d = insort key (btr_inorder a)" by auto
  with btr_descend [OF lens(1) lens' _ room _ d(2,3) s x] wf False lens(1) show ?thesis
    by (simp add: j_def btr_nth_child_def nth_append list_update_append)
qed

lemma btr_insertWhenNonFull_ok:
  assumes "btr_wf h t" and "length (btr_keys t) < btr_MAX" and "sorted (btr_inorder t)"
  shows "\<exists>t'. btr_insertWhenNonFull t key = Inr t' \<and> btr_wf h t' \<and> btr_inorder t' = insort key (btr_inorder t)"
  using assms
proof (induction h arbitrary: t)
  case 0
  then obtain ks where t: "t = BtNode ks [] True" by (cases t) auto
  obtain xs ys where ks: "ks = xs @ ys" "length xs = btr_scan_right key ks" "xs = [] \<or> last xs \<le> key" "\<forall>y\<in>set ys. key < y"
    by (rule btr_scan_right_split)
  have "ys = [] \<or> key \<le> hd ys" using ks(4) by (cases ys) auto
  then have io: "insort key (xs @ [] @ ys) = xs @ insort key [] @ ys" using 0 t ks by (intro insort_mid) auto
  have tk: "take (btr_scan_right key ks) ks = xs" "drop (btr_scan_right key ks) ks = ys"
    using ks(1) unfolding ks(2) [symmetric] by simp_all
  have "btr_insertWhenNonFull t key = Inr (BtNode (xs @ key # ys) [] True)" using 0 t by (simp add: tk)
  moreover have "length (xs @ key # ys) \<le> btr_MAX" using 0 t ks(1) by simp
  ultimately show ?case using io t ks(1) by simp
next
  case (Suc h)
  then obtain ks cs where t: "t = BtNode ks cs False" by (cases t) auto
  obtain xs ys where ks: "ks = xs @ ys" "length xs = btr_scan_right key ks" "xs = [] \<or> last xs \<le> key" "\<forall>y\<in>set ys. key < y"
    by (rule btr_scan_right_split)
  have y: "ys = [] \<or> key \<le> hd ys" using ks(4) by (cases ys) auto
  let ?i = "btr_scan_right key ks"
  have len: "length cs = Suc (length ks)" "\<forall>c\<in>set cs. btr_wf h c" "length ks < btr_MAX" "ks \<noteq> []" using Suc t by (auto simp: list_all_iff)
  have i: "?i < length cs" using ks(1,2) len(1) by simp
  define us c vs where "us = take ?i cs" and "c = cs ! ?i" and "vs = drop (Suc ?i) cs"
  have cs: "cs = us @ c # vs" using i by (simp add: us_def c_def vs_def id_take_nth_drop)
  have lens: "length us = length xs" "length vs = length ys" using ks(1,2) len(1) i by (auto simp: us_def vs_def)
  have wfc: "btr_wf h c" and wfs: "\<forall>u\<in>set us \<union> set vs. btr_wf h u" using len(2) cs by auto
  have nth: "btr_nth_child cs ?i = Inr c" using i by (simp add: btr_nth_child_def c_def)
  have s: "sorted (btr_inorder (BtNode (xs @ ys) (us @ c # vs) False))" using Suc.prems(3) t ks(1) cs by simp
  show ?case
  proof (cases "length (btr_keys c) = btr_MAX")
    case False
    have "length (btr_keys c) < btr_MAX" using wfc False by (cases h) auto
    from Suc.IH [OF wfc this btr_child_sorted [OF lens s]] obtain d where
      d: "btr_insertWhenNonFull c key = Inr d" "btr_wf h d" "btr_inorder d = insort key (btr_inorder c)" by blast
    have upd: "cs[?i := d] = us @ d # vs" using lens ks(2) by (simp add: cs list_update_append)
    have "btr_insertWhenNonFull t key = Inr (BtNode (xs @ ys) (us @ d # vs) False)"
      using t nth False d(1) upd ks(1) by (simp add: Let_def)
    with btr_descend [OF lens _ _ wfs d(2,3) s ks(3) y] len(3,4) ks(1) t cs show ?thesis by simp
  next
    case True
    from btr_split_full [OF wfc True i c_def [symmetric] len(3)] obtain a m b where
      sp: "btr_splitChild ks cs ?i = Inr (take ?i ks @ m # drop ?i ks, take ?i cs @ a # b # drop (?i + 1) cs)"
      "btr_wf h a" "btr_wf h b" "length (btr_keys a) = 1" "length (btr_keys b) = 1"
      "btr_inorder c = btr_inorder a @ m # btr_inorder b" by blast
    have ks': "take ?i ks @ m # drop ?i ks = xs @ m # ys" using ks(1,2) by (metis append_eq_conv_conj)
    have cs': "take ?i cs @ a # b # drop (?i + 1) cs = us @ a # b # vs" by (simp add: us_def vs_def)
    have io: "btr_inorder (BtNode (xs @ m # ys) (us @ a # b # vs) False) = btr_inorder t"
      using btr_split_node [of us xs "b # vs" "m # ys" a False] btr_split_node [OF lens, of c False] lens sp(6) t ks(1) cs
      by (simp add: btr_right_def)
    have m: "(xs @ m # ys) ! ?i = m" using ks(2) by (metis nth_append_length)
    have ih: "\<exists>d. btr_insertWhenNonFull c' key = Inr d \<and> btr_wf h d \<and> btr_inorder d = insort key (btr_inorder c')"
      if "c' \<in> {a, b}" "sorted (btr_inorder c')" for c' using that sp(2-5) Suc.IH [of c'] by (auto simp: btr_MAX_def)
    have "\<exists>t'. bindE (btr_nth_child (us @ a # b # vs) (if key > m then length xs + 1 else length xs)) (\<lambda>c. bindE (btr_insertWhenNonFull c key)
      (\<lambda>d. Inr (BtNode (xs @ m # ys) ((us @ a # b # vs)[(if key > m then length xs + 1 else length xs) := d]) False))) = Inr t' \<and>
      btr_wf (Suc h) t' \<and> btr_inorder t' = insort key (btr_inorder t)"
      unfolding io [symmetric] using len(3) ks(1) wfs sp(2,3) io Suc.prems(3) ih
      by (intro btr_split_descend [OF lens _ _ _ _ ks(3) y]) auto
    with t nth True sp(1) show ?thesis unfolding ks(2) ks' cs' by (simp add: Let_def m)
  qed
qed

lemma btr_keys_size: "btr_wf h t \<Longrightarrow> length (btr_keys t) \<noteq> btr_MAX \<Longrightarrow> length (btr_keys t) < btr_MAX"
  by (cases h) auto

lemma btr_insert_ok:
  assumes "btr_wf h r" and "sorted (btr_inorder r)"
  shows "\<exists>r' h'. btr_insert key (Some r) = Inr (Some r') \<and> btr_wf h' r' \<and> btr_inorder r' = insort key (btr_inorder r)"
proof (cases "length (btr_keys r) = btr_MAX")
  case False
  then have "length (btr_keys r) < btr_MAX" using btr_keys_size [OF assms(1)] by blast
  from btr_insertWhenNonFull_ok [OF assms(1) this assms(2), of key] False show ?thesis by (auto simp: btr_insert_def)
next
  case True
  obtain a m b where
    sp: "btr_splitChild [] [r] 0 = Inr ([m], [a, b])" "btr_wf h a" "btr_wf h b" "length (btr_keys a) = 1" "length (btr_keys b) = 1"
      "btr_inorder r = btr_inorder a @ m # btr_inorder b"
    by (rule btr_split_full [OF assms(1) True, of 0 "[r]" "[]"]) (auto simp: btr_MAX_def)
  have ih: "\<exists>d. btr_insertWhenNonFull c' key = Inr d \<and> btr_wf h d \<and> btr_inorder d = insort key (btr_inorder c')"
    if "c' \<in> {a, b}" "sorted (btr_inorder c')" for c'
    using that sp(2-5) btr_insertWhenNonFull_ok [of h c' key] by (auto simp: btr_MAX_def)
  let ?j = "if key > m then 1 else 0"
  have io: "btr_inorder (BtNode [m] [a, b] False) = btr_inorder r" using sp(6) by simp
  have "\<exists>t'. bindE (btr_nth_child [a, b] ?j) (\<lambda>c. bindE (btr_insertWhenNonFull c key)
      (\<lambda>d. Inr (BtNode [m] ([a, b][?j := d]) False))) = Inr t' \<and> btr_wf (Suc h) t' \<and> btr_inorder t' = insort key (btr_inorder r)"
    using btr_split_descend [of "[]" "[]" "[]" "[]" m a b h key] ih sp(2,3) assms(2) unfolding io [symmetric]
    by (cases "key > m") (simp_all add: btr_MAX_def)
  then obtain t' where t': "bindE (btr_nth_child [a, b] ?j) (\<lambda>c. bindE (btr_insertWhenNonFull c key)
      (\<lambda>d. Inr (BtNode [m] ([a, b][?j := d]) False))) = Inr t'" "btr_wf (Suc h) t'" "btr_inorder t' = insort key (btr_inorder r)" by blast
  have "btr_insert key (Some r) = Inr (Some t')"
    using True sp(1) t'(1) by (cases "key > m") (auto simp: btr_insert_def btr_createNode_def bindE_eq_Inr)
  with t'(2,3) show ?thesis by blast
qed

section \<open>Search\<close>

lemma btr_hit: "ks = xs @ ys \<Longrightarrow> length xs = i \<Longrightarrow> i < length ks \<and> key = ks ! i \<longleftrightarrow> ys \<noteq> [] \<and> key = hd ys"
  by (cases ys) (auto simp: nth_append)

lemma btr_searchKey_ok:
  assumes "btr_wf h t" and "sorted (btr_inorder t)"
  shows "btr_searchKey key t = Inr (key \<in> set (btr_inorder t))"
  using assms
proof (induction h arbitrary: t)
  case 0
  then obtain ks where t: "t = BtNode ks [] True" by (cases t) auto
  obtain xs ys where ks: "ks = xs @ ys" "length xs = btr_scan_left key ks" "\<forall>x\<in>set xs. x < key" "ys = [] \<or> key \<le> hd ys"
    by (rule btr_scan_left_split)
  have "btr_scan_left key ks < length ks \<and> key = ks ! btr_scan_left key ks \<longleftrightarrow> key \<in> set ks"
    using 0 t ks(1,3,4) unfolding btr_hit [OF ks(1,2)] by (cases ys) (auto simp: sorted_append)
  then show ?case using t by (simp add: Let_def)
next
  case (Suc h)
  then obtain ks cs where t: "t = BtNode ks cs False" by (cases t) auto
  obtain xs ys where ks: "ks = xs @ ys" "length xs = btr_scan_left key ks" "\<forall>x\<in>set xs. x < key" "ys = [] \<or> key \<le> hd ys"
    by (rule btr_scan_left_split)
  let ?i = "btr_scan_left key ks"
  have len: "length cs = Suc (length ks)" "\<forall>c\<in>set cs. btr_wf h c" using Suc t by (auto simp: list_all_iff)
  have i: "?i < length cs" using ks(1,2) len(1) by simp
  define us c vs where "us = take ?i cs" and "c = cs ! ?i" and "vs = drop (Suc ?i) cs"
  have cs: "cs = us @ c # vs" using i by (simp add: us_def c_def vs_def id_take_nth_drop)
  have lens: "length us = length xs" "length vs = length ys" using ks(1,2) len(1) i by (auto simp: us_def vs_def)
  have io: "btr_inorder t = btr_left (map btr_inorder us) xs @ btr_inorder c @ btr_right ys (map btr_inorder vs)"
    using btr_split_node [OF lens, of c False] t ks(1) cs by simp
  have s: "sorted (btr_left (map btr_inorder us) xs @ btr_inorder c @ btr_right ys (map btr_inorder vs))" using Suc.prems(2) io by simp
  have rec: "btr_searchKey key c = Inr (key \<in> set (btr_inorder c))" using s len(2) cs by (intro Suc.IH) (auto simp: sorted_append)
  have left: "key \<notin> set (btr_left (map btr_inorder us) xs)"
  proof (cases "xs = []")
    case False
    then have "last (btr_left (map btr_inorder us) xs) < key" using ks(3) lens btr_left_last [of "map btr_inorder us" xs] by simp
    then show ?thesis using s sorted_le_last [of "btr_left (map btr_inorder us) xs" key] by (force simp: sorted_append)
  qed simp
  have right: "ys = [] \<or> hd ys \<in> set (btr_right ys (map btr_inorder vs)) \<and>
      (key < hd ys \<longrightarrow> key \<notin> set (btr_right ys (map btr_inorder vs)))"
    using s lens btr_right_hd [of "map btr_inorder vs" ys] sorted_hd_le [of "btr_right ys (map btr_inorder vs)" key]
    by (auto simp: sorted_append)
  have nth: "btr_nth_child cs ?i = Inr c" using i by (simp add: btr_nth_child_def c_def)
  show ?case
  proof (cases "ys \<noteq> [] \<and> key = hd ys")
    case True
    then have "btr_searchKey key t = Inr True" using t btr_hit [OF ks(1,2), of key] by (simp add: Let_def)
    moreover have "key \<in> set (btr_inorder t)" unfolding io using True right by simp
    ultimately show ?thesis by simp
  next
    case False
    then have "key \<notin> set (btr_right ys (map btr_inorder vs))" using right ks(4) by (cases ys) auto
    then have "key \<in> set (btr_inorder t) \<longleftrightarrow> key \<in> set (btr_inorder c)" unfolding io using left by simp
    moreover have "btr_searchKey key t = btr_searchKey key c"
      using t False btr_hit [OF ks(1,2), of key] nth by (auto simp: Let_def)
    ultimately show ?thesis using rec by simp
  qed
qed

section \<open>The B-tree as an ordered bag\<close>

definition btr_inv :: "btr_node option \<Rightarrow> bool" where
  "btr_inv root = (case root of None \<Rightarrow> True | Some r \<Rightarrow> (\<exists>h. btr_wf h r) \<and> sorted (btr_inorder r))"

definition btr_contents :: "btr_node option \<Rightarrow> int list" where
  "btr_contents root = (case root of None \<Rightarrow> [] | Some r \<Rightarrow> btr_inorder r)"

interpretation bt: ordered_bag None "\<lambda>root k. btr_insert k root" "\<lambda>root k. btr_search k root" btr_contents btr_inv
proof
  show "btr_inv None" "btr_contents None = []" by (simp_all add: btr_inv_def btr_contents_def)
  show "btr_inv t \<Longrightarrow> sorted (btr_contents t)" for t by (auto simp: btr_inv_def btr_contents_def split: option.splits)
  show "\<exists>t'. btr_insert k t = Inr t' \<and> btr_inv t' \<and> btr_contents t' = insort k (btr_contents t)" if inv: "btr_inv t" for t k
  proof (cases t)
    case None
    have "\<exists>h. btr_wf h (BtNode [k] [] True)" by (rule exI [of _ 0]) (simp add: btr_MAX_def)
    then show ?thesis using None by (auto simp: btr_insert_def btr_createNode_def btr_inv_def btr_contents_def)
  next
    case (Some r)
    then obtain h where h: "btr_wf h r" "sorted (btr_inorder r)" using inv by (auto simp: btr_inv_def)
    from btr_insert_ok [OF this, of k] obtain r' h' where
      "btr_insert k (Some r) = Inr (Some r')" "btr_wf h' r'" "btr_inorder r' = insort k (btr_inorder r)" by blast
    then show ?thesis using Some h by (auto simp: btr_inv_def btr_contents_def sorted_insort)
  qed
  show "btr_inv t \<Longrightarrow> btr_search k t = Inr (k \<in> set (btr_contents t))" for t k
    by (auto simp: btr_inv_def btr_contents_def btr_search_def btr_searchKey_ok split: option.splits)
qed

text \<open>
  C7. B-tree insertion is a balanced sorted insertion. Whatever keys are inserted, in whatever order and
  with whatever repetitions, \<^verbatim>\<open>insert\<close> never puts more keys or children into a node than its arrays hold and never follows a missing child;
  all leaves end at one depth and every node has one to \<^verbatim>\<open>MAX\<close> keys and, if inner, one child more than keys;
  the keys read in order are the inserted keys sorted, none lost; and \<^verbatim>\<open>searchKey\<close> answers whether a key
  was inserted.
\<close>

theorem btree_is_ordered_bag:
  "\<exists>root. foldE (\<lambda>root k. btr_insert k root) ks None = Inr root \<and> btr_inv root \<and> btr_contents root = sort ks \<and>
     (\<forall>k. btr_search k root = Inr (k \<in> set ks))"
  by (rule bt.bag_build)

lemma btr_static_main_output: "btr_static_main = Inr
  [Num 15, Txt '' key is found in the B-Tree \<newline>'', Num 9, Txt '' key is not found in the B-Tree \<newline>'',
   Num 25, Txt '' key is found in the B-Tree \<newline>'', Num 100, Txt '' key is not found in the B-Tree \<newline>'']"
  by code_simp

end
