(* ===== verification/SlidingWindow.thy ===== *)
theory SlidingWindow
  imports Prelude
begin

text \<open>
  The three sliding-window-maximum programs of \<^verbatim>\<open>day-3(SlidingWin)\<close>: the double loop
  (\<^verbatim>\<open>sliding-window-brute-force.c\<close>), the binary heap with lazy deletion
  (\<^verbatim>\<open>sliding-window-heap-priority-queue.c\<close>) and the monotone deque
  (\<^verbatim>\<open>slliding-window-deque.c\<close>), and the proof that they print the same thing, the maxima of all windows.

  The heap and the deque live in arrays that the C code does not initialise; their first contents are
  arguments of the model. Every array access is checked.
\<close>

section \<open>Brute force\<close>

definition sw_brute :: "int list \<Rightarrow> int \<Rightarrow> outs res" where
  "sw_brute nums k =
     bindE (foldE (\<lambda>out iterator.
       bindE (arr_get nums iterator) (\<lambda>first.
       bindE (foldE (\<lambda>maximumWindowValue jterator. bindE (arr_get nums (iterator + jterator)) (\<lambda>v.
                Inr (if v > maximumWindowValue then v else maximumWindowValue))) [1..k - 1] first) (\<lambda>m.
       Inr (out @ [Num m]))))
       [0..int (length nums) - k] [])
     (\<lambda>out. Inr (out @ [Txt ''\<newline>'']))"

section \<open>The heap\<close>

datatype heap_node = HeapNode (hn_value: int) (hn_index: int)

definition sw_swap :: "heap_node list \<Rightarrow> nat \<Rightarrow> nat \<Rightarrow> heap_node list res" where
  "sw_swap heap a b =
     bindE (arr_get heap (int a)) (\<lambda>temp.
     bindE (arr_get heap (int b)) (\<lambda>y.
     bindE (arr_set heap (int a) y) (\<lambda>heap'. arr_set heap' (int b) temp)))"

function sw_heapifyUp :: "heap_node list \<Rightarrow> nat \<Rightarrow> heap_node list res" where
  "sw_heapifyUp heap index =
     (if index > 0 then
        let parent = (index - 1) div 2
        in bindE (arr_get heap (int parent)) (\<lambda>p.
           bindE (arr_get heap (int index)) (\<lambda>x.
             if hn_value p \<ge> hn_value x then Inr heap
             else bindE (sw_swap heap parent index) (\<lambda>heap'. sw_heapifyUp heap' parent)))
      else Inr heap)"
  by pat_completeness auto
termination by (relation "measure snd") auto

definition sw_larger :: "heap_node list \<Rightarrow> nat \<Rightarrow> nat \<Rightarrow> nat \<Rightarrow> nat res" where
  "sw_larger heap hsize child largest =
     bindE (andE (child < hsize) (bindE (arr_get heap (int child)) (\<lambda>c. bindE (arr_get heap (int largest)) (\<lambda>l.
       Inr (hn_value c > hn_value l)))))
     (\<lambda>b. Inr (if b then child else largest))"

definition sw_largest :: "heap_node list \<Rightarrow> nat \<Rightarrow> nat \<Rightarrow> nat res" where
  "sw_largest heap hsize index =
     bindE (sw_larger heap hsize (2 * index + 1) index) (\<lambda>largest. sw_larger heap hsize (2 * index + 2) largest)"

lemma sw_larger_cases: "sw_larger heap hsize child l = Inr r \<Longrightarrow> r = l \<or> r = child \<and> child < hsize"
  by (auto simp: sw_larger_def bindE_eq_Inr andE_def split: if_splits)

lemma sw_largest_cases: "sw_largest heap hsize index = Inr r \<Longrightarrow> r = index \<or> index < r \<and> r < hsize"
  by (auto simp: sw_largest_def bindE_eq_Inr dest!: sw_larger_cases)

function sw_heapifyDown :: "heap_node list \<Rightarrow> nat \<Rightarrow> nat \<Rightarrow> heap_node list res" where
  "sw_heapifyDown heap hsize index =
     bindE (sw_largest heap hsize index) (\<lambda>largest.
       if largest = index then Inr heap
       else bindE (sw_swap heap index largest) (\<lambda>heap'. sw_heapifyDown heap' hsize largest))"
  by pat_completeness auto
termination
  by (relation "measure (\<lambda>(heap, hsize, index). hsize - index)") (auto dest: sw_largest_cases)

definition sw_push :: "heap_node list \<Rightarrow> nat \<Rightarrow> int \<Rightarrow> int \<Rightarrow> (heap_node list \<times> nat) res" where
  "sw_push heap hsize index v =
     bindE (arr_set heap (int hsize) (HeapNode v index)) (\<lambda>heap.
     bindE (sw_heapifyUp heap hsize) (\<lambda>heap. Inr (heap, hsize + 1)))"

definition sw_pop :: "heap_node list \<Rightarrow> nat \<Rightarrow> (heap_node list \<times> nat) res" where
  "sw_pop heap hsize =
     bindE (arr_get heap (int hsize - 1)) (\<lambda>x.
     bindE (arr_set heap 0 x) (\<lambda>heap.
     bindE (sw_heapifyDown heap (hsize - 1) 0) (\<lambda>heap. Inr (heap, hsize - 1))))"

definition sw_top :: "heap_node list \<Rightarrow> heap_node res" where
  "sw_top heap = arr_get heap 0"

lemma sw_pop_size: "sw_pop heap hsize = Inr (heap', hsize') \<Longrightarrow> hsize' < hsize"
  by (auto simp: sw_pop_def bindE_eq_Inr arr_get_Inr)

text \<open>The inner loop of \<^verbatim>\<open>maximumSlidingWindow\<close>: drop expired tops. A pop makes the heap smaller or faults.\<close>

function sw_drain :: "int \<Rightarrow> heap_node list \<Rightarrow> nat \<Rightarrow> (heap_node list \<times> nat) res" where
  "sw_drain limit heap hsize =
     bindE (sw_top heap) (\<lambda>t.
       if hn_index t \<le> limit then bindE (sw_pop heap hsize) (\<lambda>hs. sw_drain limit (fst hs) (snd hs))
       else Inr (heap, hsize))"
  by pat_completeness auto
termination
  by (relation "measure (\<lambda>(limit, heap, hsize). hsize)") (auto dest: sw_pop_size)

definition sw_heap_step :: "int list \<Rightarrow> int \<Rightarrow> heap_node list \<times> nat \<Rightarrow> int \<Rightarrow> ((heap_node list \<times> nat) \<times> outs) res" where
  "sw_heap_step nums k s iterator =
     bindE (arr_get nums iterator) (\<lambda>v.
     bindE (sw_push (fst s) (snd s) iterator v) (\<lambda>s.
     bindE (sw_drain (iterator - k) (fst s) (snd s)) (\<lambda>s.
       if iterator \<ge> k - 1 then bindE (sw_top (fst s)) (\<lambda>t. Inr (s, [Num (hn_value t)])) else Inr (s, []))))"

text \<open>The scan that the heap and the deque program share: one step per element, with what it prints.\<close>

definition sw_scan :: "('s \<Rightarrow> int \<Rightarrow> ('s \<times> outs) res) \<Rightarrow> int list \<Rightarrow> 's \<Rightarrow> outs res" where
  "sw_scan step nums s =
     bindE (foldE (\<lambda>so iterator. bindE (step (fst so) iterator) (\<lambda>(s', o'). Inr (s', snd so @ o')))
              (map int [0..<length nums]) (s, []))
       (\<lambda>so. Inr (snd so @ [Txt ''\<newline>'']))"

definition sw_heap :: "int list \<Rightarrow> int \<Rightarrow> heap_node list \<Rightarrow> outs res" where
  "sw_heap nums k heap = sw_scan (sw_heap_step nums k) nums (heap, 0)"

section \<open>The deque\<close>

text \<open>The state is the array and the indices \<^verbatim>\<open>front\<close> and \<^verbatim>\<open>back\<close>.\<close>

function sw_trim :: "int list \<Rightarrow> int list \<Rightarrow> int \<Rightarrow> int \<Rightarrow> int \<Rightarrow> int res" where
  "sw_trim nums deque front back iterator =
     bindE (andE (front \<le> back) (bindE (arr_get deque back) (\<lambda>d. bindE (arr_get nums d) (\<lambda>x.
       bindE (arr_get nums iterator) (\<lambda>v. Inr (x \<le> v))))))
     (\<lambda>smaller. if smaller then sw_trim nums deque front (back - 1) iterator else Inr back)"
  by pat_completeness auto
termination
  by (relation "measure (\<lambda>(nums, deque, front, back, iterator). nat (back - front + 1))")
     (auto simp: andE_def split: if_splits)

definition sw_deque_step :: "int list \<Rightarrow> int \<Rightarrow> int list \<times> int \<times> int \<Rightarrow> int \<Rightarrow> ((int list \<times> int \<times> int) \<times> outs) res" where
  "sw_deque_step nums k = (\<lambda>(deque, front, back) iterator.
     bindE (andE (front \<le> back) (bindE (arr_get deque front) (\<lambda>d. Inr (d \<le> iterator - k)))) (\<lambda>expired.
     let front = (if expired then front + 1 else front)
     in bindE (sw_trim nums deque front back iterator) (\<lambda>back.
        bindE (arr_set deque (back + 1) iterator) (\<lambda>deque.
          if iterator \<ge> k - 1 then
            bindE (arr_get deque front) (\<lambda>d. bindE (arr_get nums d) (\<lambda>v. Inr ((deque, front, back + 1), [Num v])))
          else Inr ((deque, front, back + 1), [])))))"

definition sw_deque :: "int list \<Rightarrow> int \<Rightarrow> int list \<Rightarrow> outs res" where
  "sw_deque nums k deque = sw_scan (sw_deque_step nums k) nums (deque, 0, -1)"

definition sw_main_nums :: "int list" where
  "sw_main_nums = [1, 3, -1, -3, 5, 3, 6, 7]"

definition sw_main_k :: int where
  "sw_main_k = 3"

declare sw_heapifyUp.simps [simp del] sw_heapifyDown.simps [simp del] sw_drain.simps [simp del] sw_trim.simps [simp del]

section \<open>Window maxima\<close>

definition window_maxima :: "int list \<Rightarrow> int \<Rightarrow> int list" where
  "window_maxima nums k = map (\<lambda>i. Max (set (take (nat k) (drop i nums)))) [0..<Suc (length nums) - nat k]"

text \<open>The values of the window that ends at \<open>i\<close>.\<close>

definition window :: "int list \<Rightarrow> int \<Rightarrow> nat \<Rightarrow> int set" where
  "window nums k i = {nums ! j |j. int i - k < int j \<and> j \<le> i}"

definition win_out :: "int list \<Rightarrow> int \<Rightarrow> nat \<Rightarrow> outs" where
  "win_out nums k i = (if int i \<ge> k - 1 then [Num (Max (window nums k i))] else [])"

lemma window_eq:
  assumes "1 \<le> k" and "i + nat k \<le> length nums"
  shows "set (take (nat k) (drop i nums)) = window nums k (i + nat k - 1)"
proof -
  have "set (take (nat k) (drop i nums)) = {nums ! j |j. i \<le> j \<and> j < i + nat k}"
  proof (intro set_eqI iffI)
    fix x assume "x \<in> set (take (nat k) (drop i nums))"
    then obtain j where "j < nat k" "x = nums ! (i + j)" using assms by (auto simp: in_set_conv_nth)
    then show "x \<in> {nums ! j |j. i \<le> j \<and> j < i + nat k}" by force
  next
    fix x assume "x \<in> {nums ! j |j. i \<le> j \<and> j < i + nat k}"
    then obtain j where "i \<le> j" "j < i + nat k" "x = nums ! j" by blast
    then show "x \<in> set (take (nat k) (drop i nums))"
      using assms by (auto simp: in_set_conv_nth intro!: exI [of _ "j - i"])
  qed
  also have "\<dots> = window nums k (i + nat k - 1)" using assms by (fastforce simp: window_def)
  finally show ?thesis .
qed

lemma win_out_all:
  assumes "1 \<le> k"
  shows "concat (map (win_out nums k) [0..<length nums]) = map Num (window_maxima nums k)"
proof -
  have "concat (map (win_out nums k) [0..<n]) =
      map (\<lambda>i. Num (Max (window nums k (i + nat k - 1)))) [0..<Suc n - nat k]" for n
  proof (induction n)
    case (Suc n)
    then show ?case using assms
      by (cases "int n \<ge> k - 1") (auto simp: win_out_def Suc_diff_le nat_le_iff)
  qed (use assms in auto)
  then show ?thesis using assms by (auto simp: window_maxima_def window_eq)
qed

lemma Max_window:
  assumes "int i - k < int j" and "j \<le> i" and "\<And>j'. int i - k < int j' \<Longrightarrow> j' \<le> i \<Longrightarrow> nums ! j' \<le> nums ! j"
  shows "Max (window nums k i) = nums ! j"
proof (rule Max_eqI)
  show "finite (window nums k i)" by (simp add: window_def)
qed (use assms in \<open>auto simp: window_def\<close>)

text \<open>
  What a scanning program has to provide: each step keeps an invariant and prints the maximum of the window
  that ends at its element, once the window is full.
\<close>

locale window_scan =
  fixes step :: "int list \<Rightarrow> int \<Rightarrow> 's \<Rightarrow> int \<Rightarrow> ('s \<times> outs) res"
    and inv :: "int list \<Rightarrow> int \<Rightarrow> nat \<Rightarrow> 's \<Rightarrow> bool"
  assumes scan_step: "1 \<le> k \<Longrightarrow> i < length nums \<Longrightarrow> inv nums k i s \<Longrightarrow>
    \<exists>s'. step nums k s (int i) = Inr (s', win_out nums k i) \<and> inv nums k (Suc i) s'"
begin

lemma scan_prefix:
  assumes "1 \<le> k" and "inv nums k 0 s" and "n \<le> length nums"
  shows "\<exists>s'. foldE (\<lambda>so iterator. bindE (step nums k (fst so) iterator) (\<lambda>(s', o'). Inr (s', snd so @ o')))
    (map int [0..<n]) (s, []) = Inr (s', concat (map (win_out nums k) [0..<n])) \<and> inv nums k n s'"
  using assms(3)
proof (induction n)
  case (Suc n)
  then obtain s1 where s1: "foldE (\<lambda>so iterator. bindE (step nums k (fst so) iterator) (\<lambda>(s', o'). Inr (s', snd so @ o')))
    (map int [0..<n]) (s, []) = Inr (s1, concat (map (win_out nums k) [0..<n]))" "inv nums k n s1" by auto
  from scan_step [OF assms(1) _ s1(2)] Suc.prems obtain s2 where
    "step nums k s1 (int n) = Inr (s2, win_out nums k n)" "inv nums k (Suc n) s2" by auto
  with s1 show ?case by (simp add: foldE_append)
qed (use assms in simp)

lemma scan_prints_maxima:
  assumes "1 \<le> k" and "inv nums k 0 s"
  shows "sw_scan (step nums k) nums s = Inr (map Num (window_maxima nums k) @ [Txt ''\<newline>''])"
  using scan_prefix [OF assms order_refl] by (auto simp: sw_scan_def win_out_all [OF assms(1)])

end

section \<open>Heap operations\<close>

abbreviation heap_val :: "heap_node list \<Rightarrow> nat \<Rightarrow> int" where
  "heap_val h i \<equiv> hn_value (h ! i)"

definition is_heap :: "heap_node list \<Rightarrow> nat \<Rightarrow> bool" where
  "is_heap h n \<longleftrightarrow> n \<le> length h \<and> (\<forall>j. 0 < j \<longrightarrow> j < n \<longrightarrow> heap_val h j \<le> heap_val h ((j - 1) div 2))"

lemma sw_swap_ok: "a < length h \<Longrightarrow> b < length h \<Longrightarrow> sw_swap h a b = Inr (h[a := h ! b, b := h ! a])"
  by (simp add: sw_swap_def)

lemma mset_take_swap:
  "a < n \<Longrightarrow> b < n \<Longrightarrow> n \<le> length h \<Longrightarrow> mset (take n (h[a := h ! b, b := h ! a])) = mset (take n h)"
  using mset_swap [of b "take n h" a] by (simp add: take_update_swap)

lemma is_heap_top:
  assumes "is_heap h n" and "x \<in> set (take n h)"
  shows "hn_value x \<le> heap_val h 0"
proof -
  have "i < n \<Longrightarrow> heap_val h i \<le> heap_val h 0" for i
  proof (induction i rule: less_induct)
    case (less i)
    show ?case
    proof (cases "i = 0")
      case False
      then have "(i - 1) div 2 < i" by auto
      then have "heap_val h ((i - 1) div 2) \<le> heap_val h 0" using less by simp
      moreover have "heap_val h i \<le> heap_val h ((i - 1) div 2)" using assms(1) less.prems False by (simp add: is_heap_def)
      ultimately show ?thesis by linarith
    qed simp
  qed
  with assms show ?thesis by (auto simp: in_set_conv_nth)
qed

lemma sw_heapifyUp_ok:
  assumes "i < n" and "n \<le> length h"
    and "\<And>j. 0 < j \<Longrightarrow> j < n \<Longrightarrow> j \<noteq> i \<Longrightarrow> heap_val h j \<le> heap_val h ((j - 1) div 2)"
    and "\<And>j. 0 < j \<Longrightarrow> j < n \<Longrightarrow> (j - 1) div 2 = i \<Longrightarrow> 0 < i \<Longrightarrow> heap_val h j \<le> heap_val h ((i - 1) div 2)"
  shows "\<exists>h'. sw_heapifyUp h i = Inr h' \<and> length h' = length h \<and> is_heap h' n \<and> mset (take n h') = mset (take n h)"
  using assms
proof (induction i arbitrary: h rule: less_induct)
  case (less i)
  let ?p = "(i - 1) div 2"
  show ?case
  proof (cases "i = 0 \<or> heap_val h i \<le> heap_val h ?p")
    case True
    then have "sw_heapifyUp h i = Inr h" using less.prems(1,2) by (subst sw_heapifyUp.simps) (auto simp: Let_def)
    moreover have "heap_val h j \<le> heap_val h ((j - 1) div 2)" if "0 < j" "j < n" for j
      using True less.prems(3) [OF that] that(1) by (cases "j = i") auto
    then have "is_heap h n" using less.prems(2) unfolding is_heap_def by blast
    ultimately show ?thesis by simp
  next
    case False
    let ?h = "h[?p := h ! i, i := h ! ?p]"
    have p: "?p < i" "?p < length h" "i < length h" using False less.prems by auto
    have val: "heap_val ?h j = (if j = i then heap_val h ?p else if j = ?p then heap_val h i else heap_val h j)" for j
      using p by (auto simp: nth_list_update)
    have "sw_heapifyUp h i = sw_heapifyUp ?h ?p"
      using False p by (subst sw_heapifyUp.simps) (simp add: Let_def sw_swap_ok)
    moreover have "\<exists>h'. sw_heapifyUp ?h ?p = Inr h' \<and> length h' = length ?h \<and> is_heap h' n \<and> mset (take n h') = mset (take n ?h)"
    proof (rule less.IH)
      fix j assume j: "0 < j" "j < n" "j \<noteq> ?p"
      show "heap_val ?h j \<le> heap_val ?h ((j - 1) div 2)"
        using less.prems(3) [OF j(1,2)] less.prems(4) [OF j(1,2)] False p(1) j unfolding val by auto
    next
      fix j assume j: "0 < j" "j < n" "(j - 1) div 2 = ?p" "0 < ?p"
      have "heap_val h ?p \<le> heap_val h ((?p - 1) div 2)" using j p(1) less.prems(1) by (intro less.prems(3)) auto
      moreover have "(?p - 1) div 2 < ?p" using j(4) by linarith
      ultimately show "heap_val ?h j \<le> heap_val ?h ((?p - 1) div 2)"
        using less.prems(3) [OF j(1,2)] j(3) p(1) unfolding val by auto
    qed (use p less.prems in auto)
    ultimately show ?thesis using p less.prems by (auto simp: mset_take_swap)
  qed
qed

lemma sw_larger_ok:
  assumes "hsize \<le> length h" and "l < length h"
  shows "sw_larger h hsize c l = Inr (if c < hsize \<and> heap_val h c > heap_val h l then c else l)"
  using assms by (auto simp: sw_larger_def andE_def)

lemma heap_children: "0 < j \<and> (j - 1) div 2 = i \<longleftrightarrow> j = 2 * i + 1 \<or> j = 2 * i + (2 :: nat)"
  by auto

lemma sw_largest_ok:
  assumes "n \<le> length h"
  obtains l where "sw_largest h n i = Inr l" "\<And>j. 0 < j \<Longrightarrow> j < n \<Longrightarrow> (j - 1) div 2 = i \<Longrightarrow> heap_val h j \<le> heap_val h l"
    "l = i \<or> 0 < l \<and> l < n \<and> (l - 1) div 2 = i \<and> heap_val h i < heap_val h l"
proof (cases "2 * i + 1 < n")
  case True
  define l1 where "l1 = (if heap_val h (2 * i + 1) > heap_val h i then 2 * i + 1 else i)"
  define l where "l = (if 2 * i + 2 < n \<and> heap_val h (2 * i + 2) > heap_val h l1 then 2 * i + 2 else l1)"
  have "sw_largest h n i = Inr l" using True assms by (simp add: sw_largest_def sw_larger_ok l1_def l_def)
  moreover have "heap_val h j \<le> heap_val h l" if "0 < j" "j < n" "(j - 1) div 2 = i" for j
  proof -
    have "j = 2 * i + 1 \<or> j = 2 * i + 2" using that heap_children by blast
    then show ?thesis using that(2) by (auto simp: l_def l1_def)
  qed
  moreover have "l = i \<or> 0 < l \<and> l < n \<and> (l - 1) div 2 = i \<and> heap_val h i < heap_val h l"
    using True by (auto simp: l_def l1_def)
  ultimately show ?thesis by (rule that)
next
  case False
  then have "sw_largest h n i = Inr i" by (simp add: sw_largest_def sw_larger_def)
  moreover have "\<not> j < n" if "0 < j" "(j - 1) div 2 = i" for j using that False by auto
  ultimately show ?thesis using that by blast
qed

lemma sw_heapifyDown_ok:
  assumes "n \<le> length h"
    and "\<And>j. 0 < j \<Longrightarrow> j < n \<Longrightarrow> (j - 1) div 2 \<noteq> i \<Longrightarrow> heap_val h j \<le> heap_val h ((j - 1) div 2)"
    and "\<And>j. 0 < j \<Longrightarrow> j < n \<Longrightarrow> (j - 1) div 2 = i \<Longrightarrow> 0 < i \<Longrightarrow> heap_val h j \<le> heap_val h ((i - 1) div 2)"
  shows "\<exists>h'. sw_heapifyDown h n i = Inr h' \<and> length h' = length h \<and> is_heap h' n \<and> mset (take n h') = mset (take n h)"
  using assms
proof (induction "n - i" arbitrary: h i rule: less_induct)
  case less
  obtain l where l: "sw_largest h n i = Inr l" "\<And>j. 0 < j \<Longrightarrow> j < n \<Longrightarrow> (j - 1) div 2 = i \<Longrightarrow> heap_val h j \<le> heap_val h l"
    "l = i \<or> 0 < l \<and> l < n \<and> (l - 1) div 2 = i \<and> heap_val h i < heap_val h l" using sw_largest_ok [OF less.prems(1)] by metis
  show ?case
  proof (cases "l = i")
    case True
    then have "sw_heapifyDown h n i = Inr h" using l(1) by (subst sw_heapifyDown.simps) simp
    moreover have "is_heap h n" using True l(2) less.prems(1,2) unfolding is_heap_def by metis
    ultimately show ?thesis by simp
  next
    case False
    let ?h = "h[i := h ! l, l := h ! i]"
    have b: "0 < l" "l < n" "(l - 1) div 2 = i" "heap_val h i < heap_val h l" "i < l" using l(3) False by auto
    have val: "heap_val ?h j = (if j = l then heap_val h i else if j = i then heap_val h l else heap_val h j)" for j
      using b less.prems(1) by (auto simp: nth_list_update)
    have "sw_heapifyDown h n i = sw_heapifyDown ?h n l"
      using False l(1) b less.prems(1) by (subst sw_heapifyDown.simps) (simp add: sw_swap_ok)
    moreover have "\<exists>h'. sw_heapifyDown ?h n l = Inr h' \<and> length h' = length ?h \<and> is_heap h' n \<and> mset (take n h') = mset (take n ?h)"
    proof (rule less.hyps)
      fix j assume j: "0 < j" "j < n" "(j - 1) div 2 \<noteq> l"
      show "heap_val ?h j \<le> heap_val ?h ((j - 1) div 2)"
        using less.prems(2) [OF j(1,2)] less.prems(3) [OF j(1,2)] l(2) [OF j(1,2)] less.prems(3) [OF b(1,2,3)] b j unfolding val by auto
    next
      fix j assume j: "0 < j" "j < n" "(j - 1) div 2 = l" "0 < l"
      then show "heap_val ?h j \<le> heap_val ?h ((l - 1) div 2)"
        using less.prems(2) [OF j(1,2)] b unfolding val by auto
    qed (use b less.prems in auto)
    ultimately show ?thesis using b less.prems(1) by (auto simp: mset_take_swap)
  qed
qed

lemma sw_push_ok:
  assumes "is_heap h n" and "n < length h"
  shows "\<exists>h'. sw_push h n i v = Inr (h', Suc n) \<and> length h' = length h \<and> is_heap h' (Suc n) \<and>
    mset (take (Suc n) h') = add_mset (HeapNode v i) (mset (take n h))"
proof -
  let ?h = "h[n := HeapNode v i]"
  have "\<exists>h'. sw_heapifyUp ?h n = Inr h' \<and> length h' = length ?h \<and> is_heap h' (Suc n) \<and> mset (take (Suc n) h') = mset (take (Suc n) ?h)"
  proof (rule sw_heapifyUp_ok)
    fix j assume j: "0 < j" "j < Suc n" "j \<noteq> n"
    then have "(j - 1) div 2 < n" by auto
    then show "heap_val ?h j \<le> heap_val ?h ((j - 1) div 2)" using assms(1) j by (simp add: is_heap_def)
  next
    fix j assume "0 < j" "j < Suc n" "(j - 1) div 2 = n"
    then show "heap_val ?h j \<le> heap_val ?h ((n - 1) div 2)" by auto
  qed (use assms in auto)
  moreover have "mset (take (Suc n) ?h) = add_mset (HeapNode v i) (mset (take n h))"
    using assms(2) by (simp add: take_Suc_conv_app_nth)
  ultimately show ?thesis using assms(2) by (auto simp: sw_push_def)
qed

lemma sw_pop_ok:
  assumes "is_heap h n" and "0 < n"
  shows "\<exists>h'. sw_pop h n = Inr (h', n - 1) \<and> length h' = length h \<and> is_heap h' (n - 1) \<and>
    add_mset (h ! 0) (mset (take (n - 1) h')) = mset (take n h)"
proof -
  have len: "n \<le> length h" using assms(1) by (simp add: is_heap_def)
  let ?h = "h[0 := h ! (n - 1)]"
  have "\<exists>h'. sw_heapifyDown ?h (n - 1) 0 = Inr h' \<and> length h' = length ?h \<and> is_heap h' (n - 1) \<and> mset (take (n - 1) h') = mset (take (n - 1) ?h)"
  proof (rule sw_heapifyDown_ok)
    fix j assume "0 < j" "j < n - 1" "(j - 1) div 2 \<noteq> 0"
    then show "heap_val ?h j \<le> heap_val ?h ((j - 1) div 2)" using assms(1) by (simp add: is_heap_def)
  qed (use len in auto)
  moreover have "add_mset (h ! 0) (mset (take (n - 1) ?h)) = mset (take n h)"
  proof -
    from assms(2) len obtain m x t where "n = Suc m" "h = x # t" by (cases n; cases h) auto
    then show ?thesis using len by (cases m) (auto simp: take_Suc_conv_app_nth)
  qed
  moreover have "nat (int n - 1) = n - 1" "h \<noteq> []" using assms(2) len by auto
  ultimately show ?thesis using assms(2) len by (auto simp: sw_pop_def)
qed

lemma sw_drain_ok:
  assumes "is_heap h n" and "\<exists>x\<in>set (take n h). limit < hn_index x"
  shows "\<exists>h' n'. sw_drain limit h n = Inr (h', n') \<and> n' \<le> n \<and> 0 < n' \<and> length h' = length h \<and> is_heap h' n' \<and>
    limit < hn_index (h' ! 0) \<and> set (take n' h') \<subseteq> set (take n h) \<and>
    (\<forall>x\<in>set (take n h). limit < hn_index x \<longrightarrow> x \<in> set (take n' h'))"
  using assms
proof (induction n arbitrary: h rule: less_induct)
  case (less n)
  have n: "0 < n" "n \<le> length h" using less.prems by (auto simp: is_heap_def) (cases n; auto)
  then have "h \<noteq> []" by auto
  then have top: "sw_top h = Inr (h ! 0)" by (simp add: sw_top_def)
  show ?case
  proof (cases "hn_index (h ! 0) \<le> limit")
    case False
    then show ?thesis using top n less.prems(1) by (subst sw_drain.simps) auto
  next
    case True
    from sw_pop_ok [OF less.prems(1) n(1)] obtain h1 where h1: "sw_pop h n = Inr (h1, n - 1)" "length h1 = length h"
      "is_heap h1 (n - 1)" "add_mset (h ! 0) (mset (take (n - 1) h1)) = mset (take n h)" by blast
    have set: "set (take n h) = insert (h ! 0) (set (take (n - 1) h1))"
      using arg_cong [OF h1(4), of set_mset] by simp
    have "\<exists>x\<in>set (take (n - 1) h1). limit < hn_index x" using less.prems(2) True unfolding set by auto
    from less.IH [OF _ h1(3) this] n(1) obtain h' n' where r: "sw_drain limit h1 (n - 1) = Inr (h', n')" "n' \<le> n - 1" "0 < n'"
      "length h' = length h1" "is_heap h' n'" "limit < hn_index (h' ! 0)" "set (take n' h') \<subseteq> set (take (n - 1) h1)"
      "\<forall>x\<in>set (take (n - 1) h1). limit < hn_index x \<longrightarrow> x \<in> set (take n' h')" by auto
    have "sw_drain limit h n = Inr (h', n')" using top True h1(1) r(1) by (subst sw_drain.simps) simp
    then show ?thesis using r h1(2) True unfolding set by auto
  qed
qed

text \<open>The heap before element \<open>i\<close>: entries of elements seen so far, all those of the current window among them.\<close>

definition heap_inv :: "int list \<Rightarrow> int \<Rightarrow> nat \<Rightarrow> heap_node list \<times> nat \<Rightarrow> bool" where
  "heap_inv nums k i s \<longleftrightarrow> is_heap (fst s) (snd s) \<and> length (fst s) = length nums \<and> snd s \<le> i \<and>
     (\<forall>x\<in>set (take (snd s) (fst s)). \<exists>j<i. x = HeapNode (nums ! j) (int j)) \<and>
     (\<forall>j<i. int i - k \<le> int j \<longrightarrow> HeapNode (nums ! j) (int j) \<in> set (take (snd s) (fst s)))"

lemma sw_heap_step_ok:
  assumes "1 \<le> k" and "i < length nums" and "heap_inv nums k i s"
  shows "\<exists>s'. sw_heap_step nums k s (int i) = Inr (s', win_out nums k i) \<and> heap_inv nums k (Suc i) s'"
proof -
  obtain h n where s: "s = (h, n)" by (cases s)
  have inv: "is_heap h n" "length h = length nums" "n \<le> i" "\<forall>x\<in>set (take n h). \<exists>j<i. x = HeapNode (nums ! j) (int j)"
    "\<forall>j<i. int i - k \<le> int j \<longrightarrow> HeapNode (nums ! j) (int j) \<in> set (take n h)"
    using assms(3) s by (simp_all add: heap_inv_def)
  have "n < length h" using inv assms(2) by simp
  from sw_push_ok [OF inv(1) this] obtain h1 where h1: "sw_push h n (int i) (nums ! i) = Inr (h1, Suc n)" "length h1 = length h"
    "is_heap h1 (Suc n)" "mset (take (Suc n) h1) = add_mset (HeapNode (nums ! i) (int i)) (mset (take n h))" by blast
  have set1: "set (take (Suc n) h1) = insert (HeapNode (nums ! i) (int i)) (set (take n h))"
    using arg_cong [OF h1(4), of set_mset] by simp
  have "\<exists>x\<in>set (take (Suc n) h1). int i - k < hn_index x" unfolding set1 using assms(1) by auto
  from sw_drain_ok [OF h1(3) this] obtain h2 n2 where r: "sw_drain (int i - k) h1 (Suc n) = Inr (h2, n2)" "n2 \<le> Suc n" "0 < n2"
    "length h2 = length h1" "is_heap h2 n2" "int i - k < hn_index (h2 ! 0)" "set (take n2 h2) \<subseteq> set (take (Suc n) h1)"
    "\<forall>x\<in>set (take (Suc n) h1). int i - k < hn_index x \<longrightarrow> x \<in> set (take n2 h2)" by blast
  have seen: "\<forall>x\<in>set (take n2 h2). \<exists>j<Suc i. x = HeapNode (nums ! j) (int j)" using r(7) inv(4) unfolding set1 by (auto simp: less_Suc_eq)
  have win: "HeapNode (nums ! j) (int j) \<in> set (take n2 h2)" if "j \<le> i" "int i - k < int j" for j
    using that r(8) inv(5) unfolding set1 by (cases "j = i") auto
  have len: "0 < length h2" using r(3,5) by (auto simp: is_heap_def)
  have "h2 ! 0 \<in> set (take n2 h2)" using r(3) len by (auto simp: in_set_conv_nth intro!: exI [of _ 0])
  with seen obtain t where t: "t < Suc i" "h2 ! 0 = HeapNode (nums ! t) (int t)" by blast
  have "nums ! j \<le> nums ! t" if "int i - k < int j" "j \<le> i" for j
    using is_heap_top [OF r(5) win [OF that(2,1)]] t(2) by simp
  then have "Max (window nums k i) = nums ! t" using t r(6) by (intro Max_window) auto
  moreover have "sw_heap_step nums k s (int i) = Inr ((h2, n2), if int i \<ge> k - 1 then [Num (nums ! t)] else [])"
    using assms(2) s h1(1) r(1) t(2) len by (simp add: sw_heap_step_def sw_top_def)
  moreover have "heap_inv nums k (Suc i) (h2, n2)" using r(2,4,5) h1(2) inv(2,3) seen win by (simp add: heap_inv_def less_Suc_eq_le)
  ultimately show ?thesis by (auto simp: win_out_def)
qed

interpretation hs: window_scan sw_heap_step heap_inv
  by unfold_locales (rule sw_heap_step_ok)

section \<open>Deque operations\<close>

text \<open>
  The deque before element \<open>i\<close>: positions \<^verbatim>\<open>front..back\<close> hold growing indices of falling values, and for each
  element of the current window a later one of the window that is at least as large.
\<close>

definition deque_inv :: "int list \<Rightarrow> int \<Rightarrow> nat \<Rightarrow> int list \<times> int \<times> int \<Rightarrow> bool" where
  "deque_inv nums k i = (\<lambda>(d, f, b). length d = length nums \<and> 0 \<le> f \<and> f \<le> int i \<and> f \<le> b + 1 \<and>
     (\<forall>p\<in>{f..b}. p \<le> d ! nat p \<and> int i - k \<le> d ! nat p \<and> d ! nat p < int i) \<and>
     (\<forall>p\<in>{f..b}. \<forall>q\<in>{p + 1..b}. d ! nat p < d ! nat q \<and> nums ! nat (d ! nat q) < nums ! nat (d ! nat p)) \<and>
     (\<forall>j\<in>{max 0 (int i - k)..<int i}. \<exists>p\<in>{f..b}. j \<le> d ! nat p \<and> nums ! nat j \<le> nums ! nat (d ! nat p)))"

lemma sw_trim_ok:
  assumes "0 \<le> f" and "f \<le> b + 1" and "b < int (length d)" and "i < length nums"
    and "\<forall>p\<in>{f..b}. 0 \<le> d ! nat p \<and> d ! nat p < int (length nums)"
  shows "\<exists>b'. sw_trim nums d f b (int i) = Inr b' \<and> f \<le> b' + 1 \<and> b' \<le> b \<and>
    (\<forall>p\<in>{b' + 1..b}. nums ! nat (d ! nat p) \<le> nums ! i) \<and> (f \<le> b' \<longrightarrow> nums ! i < nums ! nat (d ! nat b'))"
  using assms
proof (induction "nat (b - f + 1)" arbitrary: b rule: less_induct)
  case less
  have v: "arr_get nums (int i) = Inr (nums ! i)" using less.prems(4) by simp
  show ?case
  proof (cases "f \<le> b \<and> nums ! nat (d ! nat b) \<le> nums ! i")
    case True
    then have "sw_trim nums d f b (int i) = sw_trim nums d f (b - 1) (int i)"
      using less.prems v by (subst sw_trim.simps) simp
    moreover have "\<exists>b'. sw_trim nums d f (b - 1) (int i) = Inr b' \<and> f \<le> b' + 1 \<and> b' \<le> b - 1 \<and>
      (\<forall>p\<in>{b' + 1..b - 1}. nums ! nat (d ! nat p) \<le> nums ! i) \<and> (f \<le> b' \<longrightarrow> nums ! i < nums ! nat (d ! nat b'))"
      using True less.prems by (intro less.hyps) auto
    then obtain b' where b': "sw_trim nums d f (b - 1) (int i) = Inr b'" "f \<le> b' + 1" "b' \<le> b - 1"
      "\<forall>p\<in>{b' + 1..b - 1}. nums ! nat (d ! nat p) \<le> nums ! i" "f \<le> b' \<longrightarrow> nums ! i < nums ! nat (d ! nat b')" by blast
    moreover have "nums ! nat (d ! nat p) \<le> nums ! i" if "p \<in> {b' + 1..b}" for p
      using that b'(4) True by (cases "p = b") auto
    ultimately show ?thesis by auto
  next
    case False
    then have "sw_trim nums d f b (int i) = Inr b"
      using less.prems v by (subst sw_trim.simps) (auto simp: andE_def)
    then show ?thesis using False less.prems(2) by auto
  qed
qed

text \<open>Dropping an expired front: at most one entry is too old, since indices grow and the window moves by one.\<close>

lemma deque_inv_expire:
  assumes inv: "deque_inv nums k i (d, f, b)" and k: "1 \<le> k"
    and f': "f' = (if f \<le> b \<and> d ! nat f \<le> int i - k then f + 1 else f)"
  shows "0 \<le> f'" "f' \<le> int i" "f' \<le> b + 1"
    "\<forall>p\<in>{f'..b}. p \<le> d ! nat p \<and> int i - k < d ! nat p \<and> d ! nat p < int i"
    "\<forall>p\<in>{f'..b}. \<forall>q\<in>{p + 1..b}. d ! nat p < d ! nat q \<and> nums ! nat (d ! nat q) < nums ! nat (d ! nat p)"
    "\<forall>j\<in>{max 0 (int i - k + 1)..<int i}. \<exists>p\<in>{f'..b}. j \<le> d ! nat p \<and> nums ! nat j \<le> nums ! nat (d ! nat p)"
proof -
  have i: "0 \<le> f" "f \<le> int i" "f \<le> b + 1" "\<forall>p\<in>{f..b}. p \<le> d ! nat p \<and> int i - k \<le> d ! nat p \<and> d ! nat p < int i"
     "\<forall>p\<in>{f..b}. \<forall>q\<in>{p + 1..b}. d ! nat p < d ! nat q \<and> nums ! nat (d ! nat q) < nums ! nat (d ! nat p)"
     "\<forall>j\<in>{max 0 (int i - k)..<int i}. \<exists>p\<in>{f..b}. j \<le> d ! nat p \<and> nums ! nat j \<le> nums ! nat (d ! nat p)"
    using inv by (simp_all add: deque_inv_def)
  show "0 \<le> f'" using i(1) f' by simp
  show "f' \<le> b + 1" using i(3) f' by simp
  show "f' \<le> int i"
  proof (cases "f \<le> b \<and> d ! nat f \<le> int i - k")
    case True
    then have "f \<le> d ! nat f" using i(4) by simp
    then show ?thesis using True f' k by simp
  qed (use f' i(2) in auto)
  have new: "int i - k < d ! nat p" if "p \<in> {f'..b}" for p
  proof (cases "p = f")
    case True
    then show ?thesis using that f' by (auto split: if_splits)
  next
    case False
    then have "p \<in> {f + 1..b}" using that f' by (auto split: if_splits)
    moreover from this have "d ! nat f < d ! nat p" using i(5) by auto
    moreover have "int i - k \<le> d ! nat f" using calculation(1) i(4) by auto
    ultimately show ?thesis by simp
  qed
  have sub: "{f'..b} \<subseteq> {f..b}" using f' by auto
  show "\<forall>p\<in>{f'..b}. p \<le> d ! nat p \<and> int i - k < d ! nat p \<and> d ! nat p < int i" using sub i(4) new by blast
  show "\<forall>p\<in>{f'..b}. \<forall>q\<in>{p + 1..b}. d ! nat p < d ! nat q \<and> nums ! nat (d ! nat q) < nums ! nat (d ! nat p)" using sub i(5) by blast
  show "\<forall>j\<in>{max 0 (int i - k + 1)..<int i}. \<exists>p\<in>{f'..b}. j \<le> d ! nat p \<and> nums ! nat j \<le> nums ! nat (d ! nat p)"
  proof
    fix j assume j: "j \<in> {max 0 (int i - k + 1)..<int i}"
    then have "j \<in> {max 0 (int i - k)..<int i}" by auto
    then obtain p where p: "p \<in> {f..b}" "j \<le> d ! nat p" "nums ! nat j \<le> nums ! nat (d ! nat p)" using i(6) by blast
    then have "p \<in> {f'..b}" using j f' by (cases "p = f") auto
    with p show "\<exists>p\<in>{f'..b}. j \<le> d ! nat p \<and> nums ! nat j \<le> nums ! nat (d ! nat p)" by blast
  qed
qed

lemma deque_inv_push:
  assumes len: "length d = length nums" and f: "0 \<le> f" "f \<le> int i" "f \<le> b' + 1" "b' \<le> b"
    and e: "\<forall>p\<in>{f..b}. p \<le> d ! nat p \<and> int i - k < d ! nat p \<and> d ! nat p < int i"
    and mono: "\<forall>p\<in>{f..b}. \<forall>q\<in>{p + 1..b}. d ! nat p < d ! nat q \<and> nums ! nat (d ! nat q) < nums ! nat (d ! nat p)"
    and cover: "\<forall>j\<in>{max 0 (int i - k + 1)..<int i}. \<exists>p\<in>{f..b}. j \<le> d ! nat p \<and> nums ! nat j \<le> nums ! nat (d ! nat p)"
    and cut: "\<forall>p\<in>{b' + 1..b}. nums ! nat (d ! nat p) \<le> nums ! i" "f \<le> b' \<longrightarrow> nums ! i < nums ! nat (d ! nat b')"
    and i: "i < length nums" and k: "1 \<le> k"
  shows "b' + 1 \<le> int i" "deque_inv nums k (Suc i) (d[nat (b' + 1) := int i], f, b' + 1)"
proof -
  show b: "b' + 1 \<le> int i"
  proof (cases "f \<le> b'")
    case True
    then have "b' \<le> d ! nat b'" "d ! nat b' < int i" using e f(4) by auto
    then show ?thesis by simp
  qed (use f in simp)
  let ?d = "d[nat (b' + 1) := int i]"
  have d: "?d ! nat p = (if p = b' + 1 then int i else d ! nat p)" if "p \<in> {f..b' + 1}" for p
    using that b i len f by (auto simp: nth_list_update)
  have old: "p \<in> {f..b}" if "p \<in> {f..b' + 1}" "p \<noteq> b' + 1" for p using that f(4) by auto
  have fall: "nums ! i < nums ! nat (d ! nat p)" if "p \<in> {f..b'}" for p
  proof (cases "p = b'")
    case False
    then have "nums ! nat (d ! nat b') < nums ! nat (d ! nat p)" using mono that f(4) by auto
    then show ?thesis using cut(2) that by auto
  qed (use cut(2) that in auto)
  have 1: "\<forall>p\<in>{f..b' + 1}. p \<le> ?d ! nat p \<and> int (Suc i) - k \<le> ?d ! nat p \<and> ?d ! nat p < int (Suc i)"
  proof
    fix p assume "p \<in> {f..b' + 1}"
    then show "p \<le> ?d ! nat p \<and> int (Suc i) - k \<le> ?d ! nat p \<and> ?d ! nat p < int (Suc i)"
      using d [of p] old [of p] e [rule_format, of p] b k by (cases "p = b' + 1") auto
  qed
  have 2: "?d ! nat p < ?d ! nat q \<and> nums ! nat (?d ! nat q) < nums ! nat (?d ! nat p)" if "p \<in> {f..b' + 1}" "q \<in> {p + 1..b' + 1}" for p q
  proof -
    have pq: "p \<in> {f..b'}" "p \<in> {f..b}" "q \<in> {f..b' + 1}" using that f(4) by auto
    then show ?thesis using d [of p] d [of q] e fall [of p] mono that(2) f(4) by (cases "q = b' + 1") auto
  qed
  have 3: "\<exists>p\<in>{f..b' + 1}. j \<le> ?d ! nat p \<and> nums ! nat j \<le> nums ! nat (?d ! nat p)" if j: "j \<in> {max 0 (int (Suc i) - k)..<int (Suc i)}" for j
  proof (cases "nums ! nat j \<le> nums ! i")
    case True
    then show ?thesis using d [of "b' + 1"] f j by (intro bexI [of _ "b' + 1"]) auto
  next
    case False
    then have "j \<in> {max 0 (int i - k + 1)..<int i}" using j by (cases "j = int i") auto
    with cover obtain p where p: "p \<in> {f..b}" "j \<le> d ! nat p" "nums ! nat j \<le> nums ! nat (d ! nat p)" by blast
    have "p \<in> {f..b'}" using p bspec [OF cut(1), of p] False by (cases "p \<le> b'") auto
    then show ?thesis using p d [of p] by (intro bexI [of _ p]) auto
  qed
  show "deque_inv nums k (Suc i) (?d, f, b' + 1)" using 1 2 3 f len by (auto simp: deque_inv_def)
qed

lemma sw_deque_step_ok:
  assumes k: "1 \<le> k" and i: "i < length nums" and inv: "deque_inv nums k i s"
  shows "\<exists>s'. sw_deque_step nums k s (int i) = Inr (s', win_out nums k i) \<and> deque_inv nums k (Suc i) s'"
proof -
  obtain d f b where s: "s = (d, f, b)" by (cases s)
  define f' where "f' = (if f \<le> b \<and> d ! nat f \<le> int i - k then f + 1 else f)"
  have len: "length d = length nums" and old: "0 \<le> f" "\<forall>p\<in>{f..b}. p \<le> d ! nat p \<and> d ! nat p < int i"
    using inv s by (simp_all add: deque_inv_def)
  note ex = deque_inv_expire [OF inv [unfolded s] k f'_def]
  have b: "f \<le> b \<Longrightarrow> b < int i" using old by force
  then have b': "b < int (length d)" using old ex(2,3) i len f'_def by (cases "f \<le> b") auto
  have expired: "andE (f \<le> b) (bindE (arr_get d f) (\<lambda>x. Inr (x \<le> int i - k))) = Inr (f \<le> b \<and> d ! nat f \<le> int i - k)"
    using old(1) b' by (auto simp: andE_def)
  have "\<forall>p\<in>{f'..b}. 0 \<le> d ! nat p \<and> d ! nat p < int (length nums)" using ex(1,4) i by force
  from sw_trim_ok [OF ex(1,3) b' i this] obtain c where c: "sw_trim nums d f' b (int i) = Inr c" "f' \<le> c + 1" "c \<le> b"
    "\<forall>p\<in>{c + 1..b}. nums ! nat (d ! nat p) \<le> nums ! i" "f' \<le> c \<longrightarrow> nums ! i < nums ! nat (d ! nat c)" by blast
  let ?d = "d[nat (c + 1) := int i]"
  note push = deque_inv_push [OF len ex(1,2) c(2,3) ex(4,5,6) c(4,5) i k]
  have e: "\<forall>p\<in>{f'..c + 1}. p \<le> ?d ! nat p \<and> int (Suc i) - k \<le> ?d ! nat p \<and> ?d ! nat p < int (Suc i)"
    and mono: "\<forall>p\<in>{f'..c + 1}. \<forall>q\<in>{p + 1..c + 1}. ?d ! nat p < ?d ! nat q \<and> nums ! nat (?d ! nat q) < nums ! nat (?d ! nat p)"
    and cover: "\<forall>j\<in>{max 0 (int (Suc i) - k)..<int (Suc i)}. \<exists>p\<in>{f'..c + 1}. j \<le> ?d ! nat p \<and> nums ! nat j \<le> nums ! nat (?d ! nat p)"
    using push(2) unfolding deque_inv_def prod.case by blast+
  define t where "t = nat (?d ! nat f')"
  have t: "?d ! nat f' = int t" "int i - k < int t" "t \<le> i" using bspec [OF e, of f'] c(2) ex(1) by (auto simp: t_def)
  have "nums ! j \<le> nums ! t" if "int i - k < int j" "j \<le> i" for j
  proof -
    from that cover obtain p where "p \<in> {f'..c + 1}" "nums ! j \<le> nums ! nat (?d ! nat p)" using bspec [OF cover, of "int j"] by auto
    moreover from this have "nums ! nat (?d ! nat p) \<le> nums ! t"
      using bspec [OF bspec [OF mono, of f'], of p] c(2) by (cases "p = f'") (auto simp: t_def)
    ultimately show ?thesis by simp
  qed
  then have "Max (window nums k i) = nums ! t" using t by (intro Max_window) auto
  moreover have "sw_deque_step nums k s (int i) = Inr ((?d, f', c + 1), if int i \<ge> k - 1 then [Num (nums ! t)] else [])"
  proof -
    have "arr_set d (c + 1) (int i) = Inr ?d" "arr_get ?d f' = Inr (int t)" "arr_get nums (int t) = Inr (nums ! t)"
      using push(1) ex(1,2) c(2) i len t(1,3) by auto
    then show ?thesis using s expired c(1) unfolding sw_deque_step_def by (simp add: Let_def f'_def [symmetric])
  qed
  ultimately show ?thesis using push(2) by (auto simp: win_out_def)
qed

interpretation ds: window_scan sw_deque_step deque_inv
  by unfold_locales (rule sw_deque_step_ok)

section \<open>The three programs agree\<close>

lemma sw_inner_max:
  assumes "0 \<le> i" and "1 \<le> n" and "i + n \<le> int (length nums)"
  shows "foldE (\<lambda>m j. bindE (arr_get nums (i + j)) (\<lambda>v. Inr (if v > m then v else m))) [1..n - 1] (nums ! nat i)
    = Inr (Max (set (take (nat n) (drop (nat i) nums))))"
  using assms(2,3)
proof (induction "nat (n - 1)" arbitrary: n)
  case 0
  then have "n = 1" by simp
  then show ?case using assms(1) 0 by (simp add: take_Suc hd_drop_conv_nth)
next
  case (Suc m)
  let ?l = "take (nat (n - 1)) (drop (nat i) nums)"
  have up: "[1..n - 1] = [1..(n - 1) - 1] @ [n - 1]" using Suc by (simp add: upto_rec2)
  have n: "nat n = Suc (nat (n - 1))" "nat (i + (n - 1)) = nat i + nat (n - 1)" using Suc assms(1) by auto
  have tk: "take (nat n) (drop (nat i) nums) = ?l @ [nums ! nat (i + (n - 1))]"
    unfolding n using Suc.prems assms(1) Suc.hyps(2) by (subst take_Suc_conv_app_nth) auto
  have ne: "?l \<noteq> []" using Suc.prems Suc.hyps(2) assms(1) by auto
  have "foldE (\<lambda>m j. bindE (arr_get nums (i + j)) (\<lambda>v. Inr (if v > m then v else m))) [1..(n - 1) - 1] (nums ! nat i) = Inr (Max (set ?l))"
    using Suc by (intro Suc.hyps(1)) auto
  moreover have "Max (set (take (nat n) (drop (nat i) nums))) = max (nums ! nat (i + (n - 1))) (Max (set ?l))"
    unfolding tk using ne by simp
  ultimately show ?case unfolding up using Suc.prems assms(1) by (auto simp: foldE_append max_def)
qed

lemma sw_brute_ok:
  assumes "1 \<le> k"
  shows "sw_brute nums k = Inr (map Num (window_maxima nums k) @ [Txt ''\<newline>''])"
proof -
  let ?body = "\<lambda>out iterator. bindE (arr_get nums iterator) (\<lambda>first.
       bindE (foldE (\<lambda>m j. bindE (arr_get nums (iterator + j)) (\<lambda>v. Inr (if v > m then v else m))) [1..k - 1] first) (\<lambda>m.
       Inr (out @ [Num m])))"
  have up: "[0..int (length nums) - k] = map int [0..<Suc (length nums) - nat k]"
    using assms by (intro nth_equalityI) auto
  have "foldE ?body (map int [0..<n]) out = Inr (out @ map (\<lambda>i. Num (Max (set (take (nat k) (drop i nums))))) [0..<n])"
    if "n \<le> Suc (length nums) - nat k" for n out
    using that
  proof (induction n)
    case (Suc n)
    then have n: "n < length nums" "int n + k \<le> int (length nums)" using assms by auto
    with sw_inner_max [of "int n" k nums] assms Suc show ?case by (simp add: foldE_append)
  qed simp
  from this [OF order_refl] show ?thesis unfolding sw_brute_def up by (simp add: window_maxima_def comp_def)
qed

text \<open>
  C8. The three programs compute the same function. For every array and every window size of at least one,
  the double loop, the heap with lazy deletion and the monotone deque all finish without an access outside
  an array, whatever the uninitialised arrays hold, and print the maxima of all windows of that size from
  left to right.
\<close>

theorem sliding_window_programs_agree:
  assumes "1 \<le> k" and "length heap = length nums" and "length deque = length nums"
  shows "sw_brute nums k = Inr (map Num (window_maxima nums k) @ [Txt ''\<newline>'']) \<and>
    sw_heap nums k heap = sw_brute nums k \<and> sw_deque nums k deque = sw_brute nums k"
proof -
  have "heap_inv nums k 0 (heap, 0)" using assms(2) by (simp add: heap_inv_def is_heap_def)
  moreover have "deque_inv nums k 0 (deque, 0, -1)" using assms(1,3) by (simp add: deque_inv_def)
  ultimately show ?thesis using assms(1)
    by (simp add: sw_brute_ok sw_heap_def sw_deque_def hs.scan_prints_maxima ds.scan_prints_maxima)
qed

theorem sliding_window_programs_agree_witness:
  "sw_heap sw_main_nums sw_main_k (replicate 8 (HeapNode 9 9)) = sw_deque sw_main_nums sw_main_k (replicate 8 9) \<and>
   sw_brute sw_main_nums sw_main_k = Inr [Num 3, Num 3, Num 5, Num 5, Num 6, Num 7, Txt ''\<newline>'']"
proof -
  have "window_maxima sw_main_nums sw_main_k = [3, 3, 5, 5, 6, 7]" by code_simp
  with sliding_window_programs_agree [of sw_main_k "replicate 8 (HeapNode 9 9)" sw_main_nums "replicate 8 9"]
  show ?thesis by (simp add: sw_main_k_def sw_main_nums_def)
qed

end
