(* ===== verification/Wal.thy ===== *)
theory Wal
  imports Prelude
begin

text \<open>
  The write-ahead-log programs: \<^verbatim>\<open>WEEKEND_TASK/wal_replay_and_mem_reconstruction.c\<close> (an in-memory store rebuilt
  from its log), \<^verbatim>\<open>WEEKEND_TASK/wal_kv.c\<close> (the same log in front of a data file) and \<^verbatim>\<open>day-14/wal_demo.c\<close>
  (transactions and recovery line by line).

  Files are strings, \<open>None\<close> for a file that does not exist; a log is written and read character by
  character, with the conversions of \<^verbatim>\<open>fprintf\<close> and \<^verbatim>\<open>fscanf\<close> that the programs use. The text
  that \<^verbatim>\<open>strftime\<close> makes of the clock is an argument of each commit. A string copied into a
  fixed buffer that is too small is the fault \<open>OutOfBounds\<close>. Opening a file for appending succeeds.
\<close>

section \<open>Log entries\<close>

definition wal_space :: "char \<Rightarrow> bool" where
  "wal_space c \<longleftrightarrow> c \<in> {CHR '' '', CHR 0x09, CHR 0x0A, CHR 0x0B, CHR 0x0C, CHR 0x0D}"

definition wal_text :: "string option \<Rightarrow> string" where
  "wal_text v = (case v of None \<Rightarrow> ''NULL'' | Some s \<Rightarrow> s)"

text \<open>\<^verbatim>\<open>writeToWal\<close>: timestamp, operation, key, value.\<close>

type_synonym wal_request = "string \<times> string \<times> string \<times> string option"

definition wal_line :: "wal_request \<Rightarrow> string" where
  "wal_line = (\<lambda>(ts, operation, key, val).
     ''['' @ ts @ ''] '' @ operation @ '' '' @ key @ '' '' @ wal_text val @ ''\<newline>'')"

definition wal_append :: "string \<Rightarrow> string option \<Rightarrow> string option" where
  "wal_append line file = Some ((case file of None \<Rightarrow> '''' | Some s \<Rightarrow> s) @ line)"

definition writeToWal :: "wal_request \<Rightarrow> string option \<Rightarrow> string option" where
  "writeToWal r wal = wal_append (wal_line r) wal"

text \<open>\<^verbatim>\<open>%s\<close> into a buffer of \<open>n\<close> characters: skip white space, read up to the next white space.\<close>

definition wal_token :: "nat \<Rightarrow> string \<Rightarrow> (string \<times> string) option res" where
  "wal_token n s =
     (let s' = dropWhile wal_space s; t = takeWhile (\<lambda>c. \<not> wal_space c) s'
      in if t = [] then Inr None
         else if length t \<ge> n then Inl OutOfBounds
         else Inr (Some (t, dropWhile (\<lambda>c. \<not> wal_space c) s')))"

definition wal_then :: "'a option res \<Rightarrow> ('a \<Rightarrow> 'b option res) \<Rightarrow> 'b option res" where
  "wal_then m f = bindE m (\<lambda>r. case r of None \<Rightarrow> Inr None | Some x \<Rightarrow> f x)"

text \<open>
  \<^verbatim>\<open>fscanf(repWal, "[%[^]]] %s %s %s\n", timestamp, op, key, value)\<close>: \<open>Some\<close> of the operation, key, value
  and the rest of the file when all four conversions succeed.
\<close>

definition wal_scan :: "string \<Rightarrow> ((string \<times> string \<times> string) \<times> string) option res" where
  "wal_scan s =
     (case s of
        [] \<Rightarrow> Inr None
      | c # s1 \<Rightarrow>
          if c \<noteq> CHR ''['' then Inr None
          else let ts = takeWhile (\<lambda>c. c \<noteq> CHR '']'') s1; s2 = dropWhile (\<lambda>c. c \<noteq> CHR '']'') s1
               in if ts = [] then Inr None
                  else if length ts \<ge> 64 then Inl OutOfBounds
                  else if s2 = [] then Inr None
                  else wal_then (wal_token 16 (tl s2)) (\<lambda>(operation, s3).
                       wal_then (wal_token 64 s3) (\<lambda>(key, s4).
                       wal_then (wal_token 128 s4) (\<lambda>(v, s5).
                         Inr (Some ((operation, key, v), dropWhile wal_space s5))))))"

lemma wal_then_Some: "wal_then m f = Inr (Some y) \<longleftrightarrow> (\<exists>x. m = Inr (Some x) \<and> f x = Inr (Some y))"
  by (auto simp: wal_then_def bindE_eq_Inr split: option.splits)

lemma wal_token_length: "wal_token n s = Inr (Some (t, s')) \<Longrightarrow> length s' \<le> length s"
  by (auto simp: wal_token_def Let_def split: if_splits intro: order_trans [OF length_dropWhile_le])

lemma wal_scan_length:
  assumes "wal_scan s = Inr (Some (e, s'))"
  shows "length s' < length s"
proof -
  from assms obtain c s1 where s: "s = c # s1" by (auto simp: wal_scan_def split: list.splits)
  let ?s2 = "dropWhile (\<lambda>c. c \<noteq> CHR '']'') s1"
  from assms s obtain t3 s3 t4 s4 t5 s5 where "wal_token 16 (tl ?s2) = Inr (Some (t3, s3))" "wal_token 64 s3 = Inr (Some (t4, s4))"
    "wal_token 128 s4 = Inr (Some (t5, s5))" "s' = dropWhile wal_space s5"
    by (auto simp: wal_scan_def Let_def wal_then_Some split: if_splits)
  then have "length s' \<le> length s5" "length s5 \<le> length s4" "length s4 \<le> length s3" "length s3 \<le> length (tl ?s2)"
    by (blast dest: wal_token_length intro: length_dropWhile_le)+
  moreover have "length (tl ?s2) \<le> length s1" using length_dropWhile_le [of "\<lambda>c. c \<noteq> CHR '']''" s1] by simp
  ultimately show ?thesis using s by simp
qed

text \<open>The loop of both \<^verbatim>\<open>replay\<close> functions, with their bodies as an argument.\<close>

function wal_replay_loop :: "('s \<Rightarrow> string \<times> string \<times> string \<Rightarrow> 's res) \<Rightarrow> string \<Rightarrow> 's \<Rightarrow> 's res" where
  "wal_replay_loop body s st =
     bindE (wal_scan s) (\<lambda>r. case r of
        None \<Rightarrow> Inr st
      | Some es \<Rightarrow> bindE (body st (fst es)) (\<lambda>st'. wal_replay_loop body (snd es) st'))"
  by pat_completeness auto
termination
  by (relation "measure (\<lambda>(body, s, st). length s)") (auto dest: wal_scan_length)

declare wal_replay_loop.simps [simp del]

section \<open>The in-memory store\<close>

definition MAX_KEYS :: nat where
  "MAX_KEYS = 100"

record wal_record =
  rec_key :: string
  rec_value :: string
  rec_valid :: bool

definition wal_strcpy :: "nat \<Rightarrow> string option \<Rightarrow> string res" where
  "wal_strcpy n s = (case s of None \<Rightarrow> Inl NullDeref | Some t \<Rightarrow> if length t < n then Inr t else Inl OutOfBounds)"

primrec wal_find :: "wal_record list \<Rightarrow> string \<Rightarrow> nat option" where
  "wal_find [] key = None"
| "wal_find (r # rs) key = (if rec_key r = key then Some 0 else map_option Suc (wal_find rs key))"

definition applyOperation :: "string \<Rightarrow> string \<Rightarrow> string option \<Rightarrow> wal_record list \<Rightarrow> wal_record list res" where
  "applyOperation operation key val db =
     (let found = wal_find db key
      in if operation = ''INSERT'' then
           (case found of
              None \<Rightarrow>
                if length db < MAX_KEYS then
                  bindE (wal_strcpy 64 (Some key)) (\<lambda>k. bindE (wal_strcpy 128 val) (\<lambda>v.
                    Inr (db @ [\<lparr>rec_key = k, rec_value = v, rec_valid = True\<rparr>])))
                else Inr db
            | Some i \<Rightarrow> bindE (wal_strcpy 128 val) (\<lambda>v. Inr (db[i := (db ! i)\<lparr>rec_value := v, rec_valid := True\<rparr>])))
         else if operation = ''UPDATE'' \<and> found \<noteq> None then
           bindE (wal_strcpy 128 val) (\<lambda>v. Inr (db[the found := (db ! the found)\<lparr>rec_value := v, rec_valid := True\<rparr>]))
         else if operation = ''DELETE'' \<and> found \<noteq> None then
           Inr (db[the found := (db ! the found)\<lparr>rec_valid := False\<rparr>])
         else Inr db)"

text \<open>The state of a process: its store, the log on disk, what it has printed.\<close>

type_synonym wal_state = "wal_record list \<times> string option \<times> outs"

definition wal_commitOperation :: "wal_state \<Rightarrow> wal_request \<Rightarrow> wal_state res" where
  "wal_commitOperation st r =
     (case (st, r) of ((db, wal, out), (ts, operation, key, val)) \<Rightarrow>
        bindE (applyOperation operation key val db) (\<lambda>db'.
          Inr (db', writeToWal r wal,
               out @ [Txt (''Committed: '' @ operation @ '' '' @ key @ '' '' @ wal_text val @ ''\<newline>'')])))"

definition wal_replay_body :: "wal_record list \<times> outs \<Rightarrow> string \<times> string \<times> string \<Rightarrow> (wal_record list \<times> outs) res" where
  "wal_replay_body = (\<lambda>(db, out) (operation, key, value).
     bindE (applyOperation operation key (Some (if value = ''NULL'' then '''' else value)) db) (\<lambda>db'.
       Inr (db', out @ [Txt (''Recovered: '' @ operation @ '' '' @ key @ '' '' @ value @ ''\<newline>'')])))"

definition wal_replay :: "string option \<Rightarrow> wal_record list \<times> outs \<Rightarrow> (wal_record list \<times> outs) res" where
  "wal_replay wal = (\<lambda>(db, out).
     (case wal of
        None \<Rightarrow> Inr (db, out @ [Txt ''No WAL file found for recovery.\<newline>''])
      | Some s \<Rightarrow>
          bindE (wal_replay_loop wal_replay_body s (db, out @ [Txt ''\<newline>Replaying WAL for recovery...\<newline>''])) (\<lambda>(db', out').
            Inr (db', out' @ [Txt ''Replay completed.\<newline>\<newline>'']))))"

definition printDBSummary :: "wal_record list \<Rightarrow> outs" where
  "printDBSummary db = Txt ''---------- Final In-Memory Key-Value Store -------\<newline>'' #
     map (\<lambda>r. Txt (rec_key r @ '' => '' @ rec_value r @ ''\<newline>'')) (filter rec_valid db)"

text \<open>
  One run of the program: an empty store, replay, the commits, the summary. \<^verbatim>\<open>main\<close> commits the five
  requests below.
\<close>

definition wal_session :: "wal_request list \<Rightarrow> string option \<Rightarrow> wal_state res" where
  "wal_session rs wal =
     bindE (wal_replay wal ([], [])) (\<lambda>(db, out).
     bindE (foldE wal_commitOperation rs (db, wal, out)) (\<lambda>(db', wal', out').
       Inr (db', wal', out' @ Txt ''\<newline>'' # printDBSummary db')))"

definition wal_main_requests :: "string \<Rightarrow> wal_request list" where
  "wal_main_requests ts =
     [(ts, ''INSERT'', ''user1'', Some ''Rahul''), (ts, ''INSERT'', ''user2'', Some ''Kanha''),
      (ts, ''UPDATE'', ''user1'', Some ''Gaurav_update''), (ts, ''DELETE'', ''user2'', None),
      (ts, ''INSERT'', ''user3'', Some ''Sita'')]"

section \<open>The data file\<close>

text \<open>\<^verbatim>\<open>wal_kv.c\<close>: the state is the data file, the log and the output.\<close>

type_synonym kv_state = "string option \<times> string option \<times> outs"

definition kv_line :: "string \<Rightarrow> string \<Rightarrow> string option \<Rightarrow> string" where
  "kv_line operation key val = operation @ '' '' @ key @ '' '' @ wal_text val @ ''\<newline>''"

definition applyToDB :: "string \<Rightarrow> string \<Rightarrow> string option \<Rightarrow> string option \<Rightarrow> string option" where
  "applyToDB operation key val DB = wal_append (kv_line operation key val) DB"

definition kv_commitOperation :: "kv_state \<Rightarrow> wal_request \<Rightarrow> kv_state" where
  "kv_commitOperation st r =
     (case (st, r) of ((DB, wal, out), (ts, operation, key, val)) \<Rightarrow>
        (applyToDB operation key val DB, writeToWal r wal,
         out @ [Txt (''committed: '' @ operation @ '' '' @ key @ '' '' @ wal_text val @ ''\<newline>'')]))"

definition kv_replay_body :: "string option \<times> outs \<Rightarrow> string \<times> string \<times> string \<Rightarrow> (string option \<times> outs) res" where
  "kv_replay_body = (\<lambda>(DB, out) (operation, key, value).
     Inr (applyToDB operation key (if value = ''NULL'' then None else Some value) DB,
          out @ [Txt (''Recovered: '' @ operation @ '' '' @ key @ '' '' @ value @ ''\<newline>'')]))"

definition kv_replay :: "string option \<Rightarrow> string option \<times> outs \<Rightarrow> (string option \<times> outs) res" where
  "kv_replay wal = (\<lambda>(DB, out).
     (case wal of
        None \<Rightarrow> Inr (DB, out @ [Txt ''There is not found for recovery.\<newline>''])
      | Some s \<Rightarrow>
          bindE (wal_replay_loop kv_replay_body s (DB, out @ [Txt ''\<newline>Replaying wal for recovery...\<newline>''])) (\<lambda>(DB', out').
            Inr (DB', out' @ [Txt ''Replay completed.\<newline>'']))))"

definition kv_session :: "wal_request list \<Rightarrow> string option \<Rightarrow> string option \<Rightarrow> kv_state res" where
  "kv_session rs DB wal =
     bindE (kv_replay wal (DB, [])) (\<lambda>(DB', out). Inr (foldl kv_commitOperation (DB', wal, out) rs))"

definition kv_main_requests :: "string \<Rightarrow> wal_request list" where
  "kv_main_requests ts =
     [(ts, ''INSERT'', ''user1'', Some ''Rahul''), (ts, ''INSERT'', ''user2'', Some ''Kanha''),
      (ts, ''UPDATE'', ''user1'', Some ''Gaurav_update''), (ts, ''DELETE'', ''user2'', None)]"

section \<open>Transactions\<close>

text \<open>
  \<^verbatim>\<open>wal_demo.c\<close>. \<^verbatim>\<open>append_file\<close> formats into a buffer of \<^verbatim>\<open>MAX_LINE\<close> characters but writes as many as
  \<^verbatim>\<open>snprintf\<close> would have needed: one too long and the newline is replaced by the terminating zero, more and it
  reads past the buffer.
\<close>

definition wd_MAX_LINE :: nat where
  "wd_MAX_LINE = 256"

definition wd_snprintf :: "string \<Rightarrow> string" where
  "wd_snprintf s = take (wd_MAX_LINE - 1) s"

definition wd_append_file :: "string \<Rightarrow> string option \<Rightarrow> string option res" where
  "wd_append_file line file =
     (let len = length (line @ ''\<newline>''); buf = wd_snprintf (line @ ''\<newline>'') @ [CHR 0x00]
      in if len > wd_MAX_LINE then Inl OutOfBounds else Inr (wal_append (take len buf) file))"

definition wd_transaction :: "string option \<Rightarrow> string \<times> string \<Rightarrow> string option res" where
  "wd_transaction wal = (\<lambda>(key, value).
     bindE (wd_append_file ''TRANSACTION 1 BEGIN'' wal) (\<lambda>wal.
     bindE (wd_append_file (wd_snprintf (''SET '' @ key @ '' '' @ value)) wal) (\<lambda>wal.
       wd_append_file ''TRANSACTION 1 COMMIT'' wal)))"

definition wd_write_nosync :: "string option \<Rightarrow> string \<Rightarrow> string \<Rightarrow> (string option \<times> outs) res" where
  "wd_write_nosync wal key value =
     bindE (wd_transaction wal (key, value)) (\<lambda>wal. Inr (wal, [Txt ''Wrote to WAL without fsync.\<newline>'']))"

definition wd_crash_after_wal :: "string option \<Rightarrow> string \<Rightarrow> string \<Rightarrow> (string option \<times> outs \<times> int) res" where
  "wd_crash_after_wal wal key value =
     bindE (wd_transaction wal (key, value)) (\<lambda>wal.
       Inr (wal, [Txt ''WAL written and fsynced. Simulating crash before applying DB.\<newline>''], 1))"

definition wd_prefix :: "string \<Rightarrow> string \<Rightarrow> bool" where
  "wd_prefix p s \<longleftrightarrow> take (length p) s = p"

primrec wd_strstr :: "string \<Rightarrow> string \<Rightarrow> bool" where
  "wd_strstr [] p \<longleftrightarrow> p = []"
| "wd_strstr (c # s) p \<longleftrightarrow> wd_prefix p (c # s) \<or> wd_strstr s p"

text \<open>One line of the log, as the C string in \<^verbatim>\<open>buf\<close>.\<close>

definition wd_recover_line :: "string \<Rightarrow> bool \<times> string option \<Rightarrow> (bool \<times> string option) res" where
  "wd_recover_line line = (\<lambda>(in_tx, db).
     (let buf = takeWhile (\<lambda>c. c \<noteq> CHR 0x00) line
      in if wd_prefix ''TRANSACTION'' buf \<and> wd_strstr buf ''BEGIN'' then Inr (True, db)
         else if wd_prefix ''TRANSACTION'' buf \<and> wd_strstr buf ''COMMIT'' then Inr (False, db)
         else if in_tx \<and> wd_prefix ''SET'' buf then bindE (wd_append_file buf db) (\<lambda>db. Inr (in_tx, db))
         else Inr (in_tx, db)))"

text \<open>The reading loop. \<open>cur\<close> is \<^verbatim>\<open>buf[0..pos-1]\<close>; a position at the end of the buffer is stepped back.\<close>

primrec wd_recover_loop :: "string \<Rightarrow> string \<Rightarrow> bool \<times> string option \<Rightarrow> (bool \<times> string option) res" where
  "wd_recover_loop [] cur st = Inr st"
| "wd_recover_loop (c # s) cur st =
     (if c = CHR 0x0A then bindE (wd_recover_line cur st) (\<lambda>st'. wd_recover_loop s [] st')
      else wd_recover_loop s (if length cur + 1 \<ge> wd_MAX_LINE - 1 then take (wd_MAX_LINE - 2) (cur @ [c]) else cur @ [c]) st)"

definition wd_recover :: "string option \<Rightarrow> string option \<Rightarrow> (string option \<times> outs) res" where
  "wd_recover wal db =
     (case wal of
        None \<Rightarrow> Inl (Exited 1)
      | Some s \<Rightarrow> bindE (wd_recover_loop s [] (False, db)) (\<lambda>(in_tx, db'). Inr (db', [Txt ''Recovery complete.\<newline>''])))"

definition wd_display :: "string option \<Rightarrow> string option \<Rightarrow> outs" where
  "wd_display wal db = [Txt ''=== WAL LOG ===\<newline>''] @ (case wal of None \<Rightarrow> [] | Some s \<Rightarrow> [Txt s]) @
     [Txt ''\<newline>=== DB FILE ===\<newline>''] @ (case db of None \<Rightarrow> [] | Some s \<Rightarrow> [Txt s])"

text \<open>\<^verbatim>\<open>main\<close>: the arguments, the two files, and what is left of them with the output and the exit status.\<close>

definition wd_main :: "string list \<Rightarrow> string option \<times> string option \<Rightarrow> ((string option \<times> string option) \<times> outs \<times> int) res" where
  "wd_main args = (\<lambda>(wal, db).
     (case args of
        [] \<Rightarrow> Inr ((wal, db), [Txt ''Usage''], 1)
      | cmd # rest \<Rightarrow>
          if cmd = ''write-nosync'' \<and> length rest = 2 then
            bindE (wd_write_nosync wal (rest ! 0) (rest ! 1)) (\<lambda>(wal, out). Inr ((wal, db), out, 0))
          else if cmd = ''crash-after-wal'' \<and> length rest = 2 then
            bindE (wd_crash_after_wal wal (rest ! 0) (rest ! 1)) (\<lambda>(wal, out, status). Inr ((wal, db), out, status))
          else if cmd = ''recover'' then bindE (wd_recover wal db) (\<lambda>(db, out). Inr ((wal, db), out, 0))
          else if cmd = ''display'' then Inr ((wal, db), wd_display wal db, 0)
          else Inr ((wal, db), [Txt ''Invalid command or arguments.\<newline>''], 0)))"

section \<open>Reading back what was written\<close>

definition wal_word :: "nat \<Rightarrow> string \<Rightarrow> bool" where
  "wal_word n t \<longleftrightarrow> t \<noteq> [] \<and> length t < n \<and> (\<forall>c\<in>set t. \<not> wal_space c)"

text \<open>Requests that fit the format: words of the right lengths, a value for every operation that stores one.\<close>

definition wal_request_ok :: "wal_request \<Rightarrow> bool" where
  "wal_request_ok = (\<lambda>(ts, operation, key, val).
     ts \<noteq> [] \<and> length ts < 64 \<and> CHR '']'' \<notin> set ts \<and> wal_word 16 operation \<and> wal_word 64 key \<and>
     (case val of None \<Rightarrow> operation \<noteq> ''INSERT'' \<and> operation \<noteq> ''UPDATE''
      | Some v \<Rightarrow> wal_word 128 v \<and> v \<noteq> ''NULL''))"

definition wal_entry :: "wal_request \<Rightarrow> string \<times> string \<times> string" where
  "wal_entry = (\<lambda>(ts, operation, key, val). (operation, key, wal_text val))"

lemma wal_token_ok:
  assumes "wal_word n t" and "wal_space a" and "wal_space b"
  shows "wal_token n (a # t @ b # rest) = Inr (Some (t, b # rest))"
proof -
  have "dropWhile wal_space (t @ b # rest) = t @ b # rest"
    using assms(1) by (cases t) (auto simp: wal_word_def)
  moreover have "takeWhile (\<lambda>c. \<not> wal_space c) (t @ b # rest) = t" "dropWhile (\<lambda>c. \<not> wal_space c) (t @ b # rest) = b # rest"
    using assms(1,3) by (auto simp: wal_word_def)
  ultimately show ?thesis using assms by (auto simp: wal_token_def wal_word_def)
qed

lemma wal_scan_line:
  assumes "wal_request_ok r" and "rest = [] \<or> \<not> wal_space (hd rest)"
  shows "wal_scan (wal_line r @ rest) = Inr (Some (wal_entry r, rest))"
proof -
  obtain ts operation key val where r: "r = (ts, operation, key, val)" by (cases r)
  have sp: "wal_space (CHR '' '')" "wal_space (CHR 0x0A)" by (simp_all add: wal_space_def)
  have v: "wal_word 128 (wal_text val)" using assms(1) r by (auto simp: wal_request_ok_def wal_text_def wal_word_def wal_space_def split: option.splits)
  have "\<forall>c\<in>set ts. c \<noteq> CHR '']''" using assms(1) r by (auto simp: wal_request_ok_def)
  then have ts: "takeWhile (\<lambda>c. c \<noteq> CHR '']'') (ts @ CHR '']'' # s) = ts" "dropWhile (\<lambda>c. c \<noteq> CHR '']'') (ts @ CHR '']'' # s) = CHR '']'' # s" for s
    by simp_all
  have "dropWhile wal_space (CHR 0x0A # rest) = rest" using assms(2) sp by (cases rest) auto
  then show ?thesis
    using assms(1) r v by (simp add: wal_line_def wal_scan_def ts wal_then_def wal_token_ok [OF _ sp(1) sp(1)] wal_token_ok [OF _ sp(1) sp(2)]
      wal_request_ok_def wal_entry_def)
qed

lemma wal_replay_lines:
  assumes "\<forall>r\<in>set rs. wal_request_ok r"
  shows "wal_replay_loop body (concat (map wal_line rs)) st = foldE (\<lambda>st r. body st (wal_entry r)) rs st"
  using assms
proof (induction rs arbitrary: st)
  case Nil
  show ?case by (subst wal_replay_loop.simps) (simp add: wal_scan_def)
next
  case (Cons r rs)
  have "concat (map wal_line rs) = [] \<or> \<not> wal_space (hd (concat (map wal_line rs)))"
    by (cases rs) (auto simp: wal_line_def wal_space_def split: prod.splits)
  moreover have "wal_replay_loop body (concat (map wal_line rs)) = foldE (\<lambda>st r. body st (wal_entry r)) rs"
    using Cons by (intro ext) simp
  ultimately show ?case using Cons.prems by (subst wal_replay_loop.simps) (simp add: wal_scan_line)
qed

text \<open>For requests of the right form, replaying an entry does to the store what committing it did.\<close>

lemma applyOperation_replayed:
  assumes "wal_request_ok (ts, operation, key, val)"
  shows "applyOperation operation key (Some (if wal_text val = ''NULL'' then '''' else wal_text val)) db = applyOperation operation key val db"
  using assms by (cases val) (auto simp: wal_request_ok_def wal_text_def applyOperation_def Let_def)

lemma applyOperation_total:
  assumes "wal_request_ok (ts, operation, key, val)"
  shows "\<exists>db'. applyOperation operation key val db = Inr db'"
  using assms by (auto simp: wal_request_ok_def applyOperation_def Let_def wal_strcpy_def wal_word_def split: option.splits)

text \<open>The store that a sequence of requests describes.\<close>

definition wal_store :: "wal_request list \<Rightarrow> wal_record list \<Rightarrow> wal_record list res" where
  "wal_store rs db = foldE (\<lambda>db (ts, operation, key, val). applyOperation operation key val db) rs db"

lemma wal_store_append: "wal_store (rs @ rs') db = bindE (wal_store rs db) (wal_store rs')"
  by (simp add: wal_store_def [abs_def] foldE_append)

lemma wal_store_total:
  assumes "\<forall>r\<in>set rs. wal_request_ok r"
  shows "\<exists>db'. wal_store rs db = Inr db'"
  using foldE_invariant [of "\<lambda>_. True" db rs "\<lambda>db (ts, operation, key, val). applyOperation operation key val db"]
    assms applyOperation_total unfolding wal_store_def by fastforce

definition wal_file :: "wal_request list \<Rightarrow> string option" where
  "wal_file rs = (if rs = [] then None else Some (concat (map wal_line rs)))"

lemma writeToWal_file: "writeToWal r (wal_file rs) = wal_file (rs @ [r])"
  by (simp add: writeToWal_def wal_append_def wal_file_def)

lemma wal_commit_all:
  assumes "\<forall>r\<in>set rs. wal_request_ok r" and "wal_store rs db = Inr db'"
  shows "\<exists>out'. foldE wal_commitOperation rs (db, wal_file ps, out) = Inr (db', wal_file (ps @ rs), out')"
  using assms
proof (induction rs arbitrary: db ps out)
  case (Cons r rs)
  obtain ts operation key val where r: "r = (ts, operation, key, val)" by (cases r)
  from Cons.prems r obtain db1 where db1: "applyOperation operation key val db = Inr db1" "wal_store rs db1 = Inr db'"
    by (auto simp: wal_store_def bindE_eq_Inr)
  define out1 where "out1 = out @ [Txt (''Committed: '' @ operation @ '' '' @ key @ '' '' @ wal_text val @ ''\<newline>'')]"
  have "wal_commitOperation (db, wal_file ps, out) r = Inr (db1, wal_file (ps @ [r]), out1)"
    using r db1(1) writeToWal_file [of r ps] by (simp add: wal_commitOperation_def out1_def)
  with Cons.IH [OF _ db1(2), of "ps @ [r]" out1] Cons.prems(1) show ?case by simp
qed (simp add: wal_store_def)

lemma wal_replay_all:
  assumes "\<forall>r\<in>set rs. wal_request_ok r" and "wal_store rs db = Inr db'"
  shows "\<exists>out'. wal_replay (wal_file rs) (db, out) = Inr (db', out')"
proof -
  have loop: "\<exists>out'. foldE (\<lambda>st r. wal_replay_body st (wal_entry r)) rs (db, out) = Inr (db', out')" for out
    using assms
  proof (induction rs arbitrary: db out)
    case (Cons r rs)
    obtain ts operation key val where r: "r = (ts, operation, key, val)" by (cases r)
    with Cons.prems obtain db1 where db1: "applyOperation operation key val db = Inr db1" "wal_store rs db1 = Inr db'"
      by (auto simp: wal_store_def bindE_eq_Inr)
    have "wal_request_ok (ts, operation, key, val)" using Cons.prems(1) r by simp
    from applyOperation_replayed [OF this] Cons.IH [OF _ db1(2)] Cons.prems(1) r db1(1) show ?case
      by (simp add: wal_replay_body_def wal_entry_def)
  qed (simp add: wal_store_def)
  show ?thesis
  proof (cases "rs = []")
    case False
    from loop [of "out @ [Txt ''\<newline>Replaying WAL for recovery...\<newline>'']"] False show ?thesis
      by (auto simp: wal_replay_def wal_file_def wal_replay_lines [OF assms(1)])
  qed (use assms in \<open>simp add: wal_replay_def wal_file_def wal_store_def\<close>)
qed

text \<open>Any number of runs of the program, one after the other, on one log.\<close>

primrec wal_runs :: "wal_request list list \<Rightarrow> wal_record list \<times> string option \<Rightarrow> (wal_record list \<times> string option) res" where
  "wal_runs [] st = Inr st"
| "wal_runs (rs # rss) st = bindE (wal_session rs (snd st)) (\<lambda>(db, wal, out). wal_runs rss (db, wal))"

lemma wal_session_ok:
  assumes "\<forall>r\<in>set (ps @ rs). wal_request_ok r"
  shows "\<exists>db out. wal_session rs (wal_file ps) = Inr (db, wal_file (ps @ rs), out) \<and> wal_store (ps @ rs) [] = Inr db"
proof -
  from wal_store_total [of ps "[]"] assms obtain db1 where db1: "wal_store ps [] = Inr db1" by auto
  from wal_store_total [of rs db1] assms obtain db2 where db2: "wal_store rs db1 = Inr db2" by auto
  from wal_replay_all [OF _ db1, of "[]"] assms obtain out1 where "wal_replay (wal_file ps) ([], []) = Inr (db1, out1)" by auto
  moreover from wal_commit_all [OF _ db2, of ps out1] assms obtain out2 where
    "foldE wal_commitOperation rs (db1, wal_file ps, out1) = Inr (db2, wal_file (ps @ rs), out2)" by auto
  ultimately show ?thesis using db1 db2 by (auto simp: wal_session_def wal_store_append)
qed

lemma wal_runs_ok:
  assumes "\<forall>rs\<in>set rss. \<forall>r\<in>set rs. wal_request_ok r" and "\<forall>r\<in>set ps. wal_request_ok r" and "wal_store ps [] = Inr db"
  shows "\<exists>db'. wal_runs rss (db, wal_file ps) = Inr (db', wal_file (ps @ concat rss)) \<and> wal_store (ps @ concat rss) [] = Inr db'"
  using assms
proof (induction rss arbitrary: db ps)
  case (Cons rs rss)
  from Cons.prems have all: "\<forall>r\<in>set (ps @ rs). wal_request_ok r" by auto
  from wal_session_ok [OF this] obtain db1 out where
    s: "wal_session rs (wal_file ps) = Inr (db1, wal_file (ps @ rs), out)" "wal_store (ps @ rs) [] = Inr db1" by blast
  from Cons.IH [OF _ all s(2)] Cons.prems(1) s(1) show ?case by auto
qed simp

text \<open>
  C10. Nothing committed is lost across restarts. Run the in-memory store any number of times on one log,
  each run replaying the log and then committing requests of the right form. No run faults, the log
  holds every request of every run, and the store in memory at the end, like the one that a further
  replay builds from nothing, is the result of applying all requests of all runs in order.
\<close>

theorem wal_recovery_exact:
  assumes "\<forall>rs\<in>set rss. \<forall>r\<in>set rs. wal_request_ok r"
  shows "\<exists>db out. wal_runs rss ([], None) = Inr (db, wal_file (concat rss)) \<and> wal_store (concat rss) [] = Inr db \<and>
    wal_replay (wal_file (concat rss)) ([], []) = Inr (db, out)"
proof -
  from wal_runs_ok [OF assms, of "[]" "[]"] obtain db where
    "wal_runs rss ([], None) = Inr (db, wal_file (concat rss))" "wal_store (concat rss) [] = Inr db"
    by (auto simp: wal_file_def wal_store_def)
  with wal_replay_all [of "concat rss" "[]" db "[]"] assms show ?thesis by auto
qed

theorem wal_recovery_exact_witness:
  "\<exists>db out. wal_runs [wal_main_requests ''now'', wal_main_requests ''later''] ([], None) =
      Inr (db, wal_file (wal_main_requests ''now'' @ wal_main_requests ''later'')) \<and>
    wal_replay (wal_file (wal_main_requests ''now'' @ wal_main_requests ''later'')) ([], []) = Inr (db, out)"
proof -
  have "\<forall>rs\<in>set [wal_main_requests ''now'', wal_main_requests ''later'']. \<forall>r\<in>set rs. wal_request_ok r"
    by (simp add: wal_main_requests_def wal_request_ok_def wal_word_def wal_space_def)
  from wal_recovery_exact [OF this] show ?thesis by auto
qed

text \<open>Outside the right form: a stored value \<^verbatim>\<open>NULL\<close> comes back as the empty string.\<close>

lemma wal_null_value_lost:
  "bindE (wal_session [(''t'', ''INSERT'', ''k'', Some ''NULL'')] None) (\<lambda>(db, wal, out).
   bindE (wal_replay wal ([], [])) (\<lambda>(db', out'). Inr (map rec_value db, map rec_value db'))) = Inr ([''NULL''], [''''])"
  by code_simp

section \<open>Recovery of the data file\<close>

definition kv_apply :: "string option \<Rightarrow> wal_request list \<Rightarrow> string option" where
  "kv_apply DB rs = foldl (\<lambda>DB (ts, operation, key, val). applyToDB operation key val DB) DB rs"

lemma kv_replay_all:
  "\<exists>out'. foldE (\<lambda>st r. kv_replay_body st (wal_entry r)) rs (DB, out) = Inr (kv_apply DB rs, out')"
proof (induction rs arbitrary: DB out)
  case (Cons r rs)
  obtain ts operation key val where r: "r = (ts, operation, key, val)" by (cases r)
  have "kv_line operation key (if wal_text val = ''NULL'' then None else Some (wal_text val)) = kv_line operation key val"
    by (simp add: kv_line_def wal_text_def)
  then have "\<exists>out'. kv_replay_body (DB, out) (wal_entry r) = Inr (applyToDB operation key val DB, out')"
    using r by (simp add: kv_replay_body_def wal_entry_def applyToDB_def)
  then show ?case using Cons r by (auto simp: kv_apply_def)
qed (simp add: kv_apply_def)

lemma kv_commit_all:
  "\<exists>out'. foldl kv_commitOperation (DB, wal_file ps, out) rs = (kv_apply DB rs, wal_file (ps @ rs), out')"
proof (induction rs arbitrary: DB ps out)
  case (Cons r rs)
  obtain ts operation key val where r: "r = (ts, operation, key, val)" by (cases r)
  then have "\<exists>out'. kv_commitOperation (DB, wal_file ps, out) r = (applyToDB operation key val DB, wal_file (ps @ [r]), out')"
    using writeToWal_file [of r ps] by (simp add: kv_commitOperation_def)
  then obtain out' where "kv_commitOperation (DB, wal_file ps, out) r = (applyToDB operation key val DB, wal_file (ps @ [r]), out')" by blast
  with Cons.IH [of "applyToDB operation key val DB" "ps @ [r]" out'] r show ?case by (simp add: kv_apply_def)
qed (simp add: kv_apply_def)

text \<open>
  What a restart does to the data file. A run of \<^verbatim>\<open>wal_kv.c\<close> on a log of requests of the right form ends
  without a fault; it leaves the log extended by the new requests, and the data file followed by one line for
  each request of the old log, in order, and then one for each new request. So whatever was missing in the data
  file is there afterwards, and what was there already is there again.
\<close>

theorem kv_restart_reapplies_log:
  assumes "\<forall>r\<in>set ps. wal_request_ok r"
  shows "\<exists>out. kv_session rs DB (wal_file ps) = Inr (kv_apply (kv_apply DB ps) rs, wal_file (ps @ rs), out)"
proof -
  have "\<exists>out. kv_replay (wal_file ps) (DB, []) = Inr (kv_apply DB ps, out)"
  proof (cases "ps = []")
    case False
    from kv_replay_all [of ps DB "[Txt ''\<newline>Replaying wal for recovery...\<newline>'']"] False show ?thesis
      by (auto simp: kv_replay_def wal_file_def wal_replay_lines [OF assms])
  qed (simp add: kv_replay_def wal_file_def kv_apply_def)
  then obtain out where "kv_replay (wal_file ps) (DB, []) = Inr (kv_apply DB ps, out)" by blast
  with kv_commit_all [of "kv_apply DB ps" ps out rs] show ?thesis by (auto simp: kv_session_def)
qed

theorem kv_restart_reapplies_log_witness:
  "\<exists>out. kv_session (kv_main_requests ''later'') None (wal_file (kv_main_requests ''now'')) =
     Inr (kv_apply (kv_apply None (kv_main_requests ''now'')) (kv_main_requests ''later''),
          wal_file (kv_main_requests ''now'' @ kv_main_requests ''later''), out)"
proof -
  have "\<forall>r\<in>set (kv_main_requests ''now''). wal_request_ok r"
    by (simp add: kv_main_requests_def wal_request_ok_def wal_word_def wal_space_def)
  from kv_restart_reapplies_log [OF this] show ?thesis .
qed

section \<open>Recovery of transactions\<close>

definition wd_plain :: "string \<Rightarrow> bool" where
  "wd_plain s \<longleftrightarrow> length s \<le> 254 \<and> (\<forall>c\<in>set s. c \<noteq> CHR 0x0A \<and> c \<noteq> CHR 0x00)"

definition wd_set :: "string \<times> string \<Rightarrow> string" where
  "wd_set = (\<lambda>(key, value). ''SET '' @ key @ '' '' @ value)"

lemma wd_append_plain:
  assumes "wd_plain line"
  shows "wd_append_file line file = Inr (wal_append (line @ ''\<newline>'') file)"
proof -
  have "length (line @ ''\<newline>'') \<le> 255" using assms by (simp add: wd_plain_def)
  then have "wd_snprintf (line @ ''\<newline>'') = line @ ''\<newline>''" unfolding wd_snprintf_def wd_MAX_LINE_def by (intro take_all) simp
  then show ?thesis using assms by (simp add: wd_append_file_def wd_plain_def wd_MAX_LINE_def)
qed

lemma wd_transaction_ok:
  assumes "wd_plain (wd_set kv)"
  shows "wd_transaction (Some s) kv = Inr (Some (s @ ''TRANSACTION 1 BEGIN\<newline>'' @ wd_set kv @ ''\<newline>TRANSACTION 1 COMMIT\<newline>''))"
proof -
  obtain key v where kv: "kv = (key, v)" by (cases kv)
  have "wd_snprintf (wd_set kv) = wd_set kv" using assms by (simp add: wd_plain_def wd_snprintf_def wd_MAX_LINE_def)
  moreover have "wd_plain ''TRANSACTION 1 BEGIN''" "wd_plain ''TRANSACTION 1 COMMIT''" by (simp_all add: wd_plain_def)
  ultimately show ?thesis using assms kv by (simp add: wd_transaction_def wd_append_plain wd_set_def wal_append_def)
qed

lemma wd_recover_chars:
  assumes "wd_plain (cur @ l)"
  shows "wd_recover_loop (l @ CHR 0x0A # s) cur st = bindE (wd_recover_line (cur @ l) st) (\<lambda>st'. wd_recover_loop s [] st')"
  using assms
proof (induction l arbitrary: cur)
  case (Cons c l)
  then have "length cur + 1 < wd_MAX_LINE - 1" "c \<noteq> CHR 0x0A" by (simp_all add: wd_plain_def wd_MAX_LINE_def)
  with Cons.IH [of "cur @ [c]"] Cons.prems show ?case by simp
qed simp

lemmas wd_recover_word = wd_recover_chars [of "[]", unfolded append_Nil]

lemma wd_recover_transaction:
  assumes "wd_plain (wd_set kv)"
  shows "wd_recover_loop (''TRANSACTION 1 BEGIN\<newline>'' @ wd_set kv @ ''\<newline>TRANSACTION 1 COMMIT\<newline>'' @ s) [] (False, db) =
    wd_recover_loop s [] (False, wal_append (wd_set kv @ ''\<newline>'') db)"
proof -
  have plain: "wd_plain ''TRANSACTION 1 BEGIN''" "wd_plain ''TRANSACTION 1 COMMIT''" by (simp_all add: wd_plain_def)
  have lines: "''TRANSACTION 1 BEGIN\<newline>'' @ x = ''TRANSACTION 1 BEGIN'' @ CHR 0x0A # x"
    "''\<newline>TRANSACTION 1 COMMIT\<newline>'' @ x = CHR 0x0A # ''TRANSACTION 1 COMMIT'' @ CHR 0x0A # x" for x by simp_all
  have "\<forall>c\<in>set (wd_set kv). c \<noteq> CHR 0x00" using assms by (simp add: wd_plain_def)
  then have tw: "takeWhile (\<lambda>c. c \<noteq> CHR 0x00) (wd_set kv) = wd_set kv" by simp
  have "wd_prefix ''SET'' (wd_set kv)" "\<not> wd_prefix ''TRANSACTION'' (wd_set kv)"
    by (simp_all add: wd_set_def wd_prefix_def split: prod.splits)
  then have set: "wd_recover_line (wd_set kv) (True, db) = Inr (True, wal_append (wd_set kv @ ''\<newline>'') db)"
    by (simp add: wd_recover_line_def Let_def tw wd_append_plain [OF assms])
  have start: "wd_recover_line ''TRANSACTION 1 BEGIN'' (False, db) = Inr (True, db)"
    by (simp add: wd_recover_line_def wd_prefix_def)
  have commit: "wd_recover_line ''TRANSACTION 1 COMMIT'' (b, db) = Inr (False, db)" for b db
    by (simp add: wd_recover_line_def wd_prefix_def)
  show ?thesis
    unfolding lines wd_recover_word [OF plain(1)] start bindE_Inr wd_recover_word [OF assms] set wd_recover_word [OF plain(2)] commit ..
qed

lemma wd_transactions_ok:
  assumes "\<forall>kv\<in>set txs. wd_plain (wd_set kv)"
  shows "foldE wd_transaction txs (Some s) =
    Inr (Some (s @ concat (map (\<lambda>kv. ''TRANSACTION 1 BEGIN\<newline>'' @ wd_set kv @ ''\<newline>TRANSACTION 1 COMMIT\<newline>'') txs)))"
  using assms by (induction txs arbitrary: s) (simp_all add: wd_transaction_ok)

lemma wd_recover_transactions:
  assumes "\<forall>kv\<in>set txs. wd_plain (wd_set kv)"
  shows "wd_recover_loop (concat (map (\<lambda>kv. ''TRANSACTION 1 BEGIN\<newline>'' @ wd_set kv @ ''\<newline>TRANSACTION 1 COMMIT\<newline>'') txs)) [] (False, db) =
    Inr (False, foldl (\<lambda>db kv. wal_append (wd_set kv @ ''\<newline>'') db) db txs)"
  using assms
proof (induction txs arbitrary: db)
  case (Cons kv txs)
  from Cons wd_recover_transaction [of kv "concat (map (\<lambda>kv. ''TRANSACTION 1 BEGIN\<newline>'' @ wd_set kv @ ''\<newline>TRANSACTION 1 COMMIT\<newline>'') txs)" db]
  show ?case by (simp del: wd_recover_loop.simps)
qed simp

text \<open>
  Recovery replays the committed transactions. For every sequence of writes whose \<^verbatim>\<open>SET\<close> lines fit the
  buffers and contain no newline or zero character, \<^verbatim>\<open>recover\<close> on the log they leave appends exactly these lines to the
  data file, in order.
\<close>

theorem wal_demo_recovers_commits:
  assumes "\<forall>kv\<in>set txs. wd_plain (wd_set kv)"
  shows "\<exists>wal. foldE wd_transaction txs (Some '''') = Inr wal \<and>
    wd_recover wal db = Inr (foldl (\<lambda>db kv. wal_append (wd_set kv @ ''\<newline>'') db) db txs, [Txt ''Recovery complete.\<newline>''])"
  using wd_transactions_ok [OF assms, of "''''"] wd_recover_transactions [OF assms, of db] by (simp add: wd_recover_def)

theorem wal_demo_recovers_commits_witness:
  "\<exists>wal. foldE wd_transaction [(''a'', ''1''), (''b'', ''2'')] (Some '''') = Inr wal \<and>
    wd_recover wal None = Inr (Some ''SET a 1\<newline>SET b 2\<newline>'', [Txt ''Recovery complete.\<newline>''])"
proof -
  have "\<forall>kv\<in>set [(''a'', ''1''), (''b'', ''2'')]. wd_plain (wd_set kv)" by (simp add: wd_plain_def wd_set_def)
  from wal_demo_recovers_commits [OF this, of None] show ?thesis by (simp add: wal_append_def wd_set_def)
qed

text \<open>A transaction that was not committed is applied as well.\<close>

lemma wal_demo_applies_uncommitted:
  "wd_recover (Some ''TRANSACTION 1 BEGIN\<newline>SET a 1\<newline>'') None = Inr (Some ''SET a 1\<newline>'', [Txt ''Recovery complete.\<newline>''])"
  by code_simp

text \<open>A long value makes \<^verbatim>\<open>append_file\<close> write the terminating zero instead of the newline.\<close>

lemma wal_demo_long_line:
  assumes "length line = 255"
  shows "wd_append_file line None = Inr (Some (line @ [CHR 0x00]))"
  using assms by (simp add: wd_append_file_def wd_MAX_LINE_def wd_snprintf_def wal_append_def Let_def)

end
