(* ===== verification/ExprTree.thy ===== *)
theory ExprTree
  imports Prelude
begin

text \<open>
  The expression trees of \<^verbatim>\<open>EXPRESSION_TREE\<close>: \<^verbatim>\<open>ast.c\<close> (building and traversal), \<^verbatim>\<open>evaluation_ast.c\<close>
  (arithmetic) and \<^verbatim>\<open>mini_sql_expre_evaluator.c\<close> (arithmetic, comparisons and connectives).

  A node holds a string of up to 99 characters. Signed arithmetic that leaves the range of \<open>int\<close> is the fault
  \<open>Overflow\<close>, as is a numeral outside it; division truncates towards zero.
\<close>

section \<open>Trees and traversals\<close>

datatype ex_node = ExNull | ExNode (ex_data: string) (ex_left: ex_node) (ex_right: ex_node)

definition ex_createNode :: "string \<Rightarrow> ex_node res" where
  "ex_createNode val = (if length val < 100 then Inr (ExNode val ExNull ExNull) else Inl OutOfBounds)"

primrec ex_preOrder :: "ex_node \<Rightarrow> string list" where
  "ex_preOrder ExNull = []"
| "ex_preOrder (ExNode d l r) = d # ex_preOrder l @ ex_preOrder r"

primrec ex_postOrder :: "ex_node \<Rightarrow> string list" where
  "ex_postOrder ExNull = []"
| "ex_postOrder (ExNode d l r) = ex_postOrder l @ ex_postOrder r @ [d]"

definition ex_print :: "string list \<Rightarrow> outs" where
  "ex_print ds = map (\<lambda>d. Txt (d @ '' '')) ds"

text \<open>\<open>ex_bin\<close> is the assignment of two subtrees to a fresh node.\<close>

definition ex_bin :: "string \<Rightarrow> ex_node res \<Rightarrow> ex_node res \<Rightarrow> ex_node res" where
  "ex_bin d ml mr = bindE (ex_createNode d) (\<lambda>n. bindE ml (\<lambda>l. bindE mr (\<lambda>r. Inr (ExNode (ex_data n) l r))))"

definition ast_main :: "outs res" where
  "ast_main =
     bindE (ex_bin ''AND'' (ex_bin ''>'' (ex_createNode ''age'') (ex_createNode ''20''))
                           (ex_bin ''<'' (ex_createNode ''marks'') (ex_createNode ''80''))) (\<lambda>root.
     Inr (Txt ''preOrde traversal:\<newline>'' # ex_print (ex_preOrder root) @
          Txt ''\<newline>postOrde traversal:\<newline>'' # ex_print (ex_postOrder root)))"

section \<open>Evaluation\<close>

definition ex_int :: "int \<Rightarrow> int res" where
  "ex_int n = (if -2147483648 \<le> n \<and> n \<le> 2147483647 then Inr n else Inl Overflow)"

text \<open>\<^verbatim>\<open>atoi\<close>: white space, an optional sign, digits up to the first other character.\<close>

definition ex_digit :: "char \<Rightarrow> bool" where
  "ex_digit c \<longleftrightarrow> 48 \<le> (of_char c :: nat) \<and> (of_char c :: nat) \<le> 57"

definition ex_decimal :: "string \<Rightarrow> int" where
  "ex_decimal ds = foldl (\<lambda>acc c. 10 * acc + (of_char c - 48)) 0 ds"

definition ex_atoi :: "string \<Rightarrow> int res" where
  "ex_atoi s =
     (case dropWhile (\<lambda>c. c \<in> {CHR '' '', CHR 0x09, CHR 0x0A, CHR 0x0B, CHR 0x0C, CHR 0x0D}) s of
        [] \<Rightarrow> Inr 0
      | c # t \<Rightarrow>
          if c = CHR ''-'' then ex_int (- ex_decimal (takeWhile ex_digit t))
          else if c = CHR ''+'' then ex_int (ex_decimal (takeWhile ex_digit t))
          else ex_int (ex_decimal (takeWhile ex_digit (c # t))))"

definition ex_arith :: "string \<Rightarrow> int \<Rightarrow> int \<Rightarrow> int res" where
  "ex_arith d leftval rightval =
     (if d = ''+'' then ex_int (leftval + rightval)
      else if d = ''-'' then ex_int (leftval - rightval)
      else if d = ''*'' then ex_int (leftval * rightval)
      else if d = ''/'' then (if rightval = 0 then Inr 0 else ex_int (leftval sdiv rightval))
      else Inr 0)"

primrec ex_evaluation :: "ex_node \<Rightarrow> int res" where
  "ex_evaluation ExNull = Inr 0"
| "ex_evaluation (ExNode d l r) =
     (if l = ExNull \<and> r = ExNull then ex_atoi d
      else bindE (ex_evaluation l) (\<lambda>leftval. bindE (ex_evaluation r) (\<lambda>rightval. ex_arith d leftval rightval)))"

definition ast_eval_main :: "outs res" where
  "ast_eval_main =
     bindE (ex_bin ''*'' (ex_bin ''+'' (ex_createNode ''5'') (ex_createNode ''3''))
                         (ex_bin ''-'' (ex_createNode ''8'') (ex_createNode ''2''))) (\<lambda>root.
     bindE (ex_evaluation root) (\<lambda>v.
     Inr (Txt ''preOrde traversal:\<newline>'' # ex_print (ex_preOrder root) @
          Txt ''\<newline>postOrde traversal:\<newline>'' # ex_print (ex_postOrder root) @
          [Txt ''\<newline>\<newline>Result of expression: '', Num v, Txt ''\<newline>''])))"

text \<open>The SQL-like evaluator. Its case for \<^verbatim>\<open>*\<close> returns the right operand.\<close>

definition sql_apply :: "string \<Rightarrow> int \<Rightarrow> int \<Rightarrow> int res" where
  "sql_apply d leftval rightval =
     (if d = ''+'' then ex_int (leftval + rightval)
      else if d = ''-'' then ex_int (leftval - rightval)
      else if d = ''*'' then Inr rightval
      else if d = ''/'' then (if rightval = 0 then Inr 0 else ex_int (leftval sdiv rightval))
      else if d = ''>'' then Inr (of_bool (leftval > rightval))
      else if d = ''<'' then Inr (of_bool (leftval < rightval))
      else if d = ''='' then Inr (of_bool (leftval = rightval))
      else if d = ''>='' then Inr (of_bool (leftval \<ge> rightval))
      else if d = ''<='' then Inr (of_bool (leftval \<le> rightval))
      else if d = ''!='' then Inr (of_bool (leftval \<noteq> rightval))
      else if d = ''AND'' then Inr (of_bool (leftval \<noteq> 0 \<and> rightval \<noteq> 0))
      else if d = ''OR'' then Inr (of_bool (leftval \<noteq> 0 \<or> rightval \<noteq> 0))
      else Inr 0)"

primrec sql_evaluation :: "ex_node \<Rightarrow> int res" where
  "sql_evaluation ExNull = Inr 0"
| "sql_evaluation (ExNode d l r) =
     (if l = ExNull \<and> r = ExNull then ex_atoi d
      else bindE (sql_evaluation l) (\<lambda>leftval. bindE (sql_evaluation r) (\<lambda>rightval. sql_apply d leftval rightval)))"

definition sql_main :: "outs res" where
  "sql_main =
     bindE (ex_bin ''AND''
              (ex_bin ''>'' (ex_bin ''+'' (ex_createNode ''5'') (ex_createNode ''3''))
                            (ex_bin ''-'' (ex_createNode ''8'') (ex_createNode ''8'')))
              (ex_bin ''='' (ex_createNode ''4'') (ex_createNode ''4''))) (\<lambda>root.
     bindE (sql_evaluation root) (\<lambda>v.
     Inr (Txt ''preOrde traversal:\<newline>'' # ex_print (ex_preOrder root) @
          Txt ''\<newline>postOrde traversal:\<newline>'' # ex_print (ex_postOrder root) @
          [Txt ''\<newline>\<newline>Result of expression: '', Num v, Txt ''\<newline>''])))"

section \<open>Expressions\<close>

datatype ex_op = Add | Sub | Mul | Div | Gt | Lt | Eq | Ge | Le | Ne | And | Or

datatype expr = Const int | Bin ex_op expr expr

fun ex_op_text :: "ex_op \<Rightarrow> string" where
  "ex_op_text Add = ''+''"
| "ex_op_text Sub = ''-''"
| "ex_op_text Mul = ''*''"
| "ex_op_text Div = ''/''"
| "ex_op_text Gt = ''>''"
| "ex_op_text Lt = ''<''"
| "ex_op_text Eq = ''=''"
| "ex_op_text Ge = ''>=''"
| "ex_op_text Le = ''<=''"
| "ex_op_text Ne = ''!=''"
| "ex_op_text And = ''AND''"
| "ex_op_text Or = ''OR''"

text \<open>The mathematical value; division by zero gives zero, as in the programs.\<close>

fun ex_op_val :: "ex_op \<Rightarrow> int \<Rightarrow> int \<Rightarrow> int" where
  "ex_op_val Add a b = a + b"
| "ex_op_val Sub a b = a - b"
| "ex_op_val Mul a b = a * b"
| "ex_op_val Div a b = (if b = 0 then 0 else a sdiv b)"
| "ex_op_val Gt a b = of_bool (a > b)"
| "ex_op_val Lt a b = of_bool (a < b)"
| "ex_op_val Eq a b = of_bool (a = b)"
| "ex_op_val Ge a b = of_bool (a \<ge> b)"
| "ex_op_val Le a b = of_bool (a \<le> b)"
| "ex_op_val Ne a b = of_bool (a \<noteq> b)"
| "ex_op_val And a b = of_bool (a \<noteq> 0 \<and> b \<noteq> 0)"
| "ex_op_val Or a b = of_bool (a \<noteq> 0 \<or> b \<noteq> 0)"

primrec ex_val :: "(ex_op \<Rightarrow> int \<Rightarrow> int \<Rightarrow> int) \<Rightarrow> expr \<Rightarrow> int" where
  "ex_val f (Const n) = n"
| "ex_val f (Bin oper a b) = f oper (ex_val f a) (ex_val f b)"

primrec ex_fits :: "(ex_op \<Rightarrow> int \<Rightarrow> int \<Rightarrow> int) \<Rightarrow> expr \<Rightarrow> bool" where
  "ex_fits f (Const n) \<longleftrightarrow> -2147483648 \<le> n \<and> n \<le> 2147483647"
| "ex_fits f (Bin oper a b) \<longleftrightarrow> ex_fits f a \<and> ex_fits f b \<and>
     -2147483648 \<le> f oper (ex_val f a) (ex_val f b) \<and> f oper (ex_val f a) (ex_val f b) \<le> 2147483647"

primrec ex_ops :: "expr \<Rightarrow> ex_op set" where
  "ex_ops (Const n) = {}"
| "ex_ops (Bin oper a b) = {oper} \<union> ex_ops a \<union> ex_ops b"

text \<open>Decimal notation, and the tree a program builds for an expression.\<close>

fun ex_digits :: "nat \<Rightarrow> string" where
  "ex_digits n = (if n < 10 then [char_of (48 + n)] else ex_digits (n div 10) @ [char_of (48 + n mod 10)])"

declare ex_digits.simps [simp del]

definition ex_show :: "int \<Rightarrow> string" where
  "ex_show n = (if n < 0 then CHR ''-'' # ex_digits (nat (- n)) else ex_digits (nat n))"

primrec ex_tree :: "expr \<Rightarrow> ex_node" where
  "ex_tree (Const n) = ExNode (ex_show n) ExNull ExNull"
| "ex_tree (Bin oper a b) = ExNode (ex_op_text oper) (ex_tree a) (ex_tree b)"

section \<open>Numerals\<close>

lemma ex_digits_chars: "c \<in> set (ex_digits n) \<Longrightarrow> ex_digit c"
proof (induction n rule: ex_digits.induct)
  case (1 n)
  have "ex_digit (char_of (48 + d))" if "d < 10" for d :: nat using that by (simp add: ex_digit_def)
  with 1 show ?case by (subst (asm) ex_digits.simps) (auto split: if_splits)
qed

lemma ex_digits_ne: "ex_digits n \<noteq> []"
  by (subst ex_digits.simps) simp

lemma ex_decimal_digits: "ex_decimal (ex_digits n) = int n"
proof (induction n rule: ex_digits.induct)
  case (1 n)
  have digit: "of_char (char_of (48 + d :: nat)) = (48 + int d)" if "d < 10" for d :: nat
  proof -
    have "(of_char (char_of (48 + d :: nat)) :: int) = int (of_char (char_of (48 + d :: nat)))" by (simp only: of_nat_of_char)
    also have "(of_char (char_of (48 + d :: nat)) :: nat) = 48 + d" using that by simp
    finally show ?thesis by simp
  qed
  show ?case
  proof (cases "n < 10")
    case True
    then show ?thesis by (subst ex_digits.simps) (simp add: ex_decimal_def digit)
  next
    case False
    have "int (10 * (n div 10) + n mod 10) = int n" by (simp only: mult_div_mod_eq)
    then have "10 * int (n div 10) + int (n mod 10) = int n" by (simp only: of_nat_add of_nat_mult of_nat_numeral)
    with 1 False show ?thesis by (subst ex_digits.simps) (simp add: ex_decimal_def digit)
  qed
qed

lemma ex_atoi_show:
  assumes "-2147483648 \<le> n" and "n \<le> 2147483647"
  shows "ex_atoi (ex_show n) = Inr n"
proof -
  have tw: "takeWhile ex_digit (ex_digits m) = ex_digits m" for m by (simp add: ex_digits_chars)
  obtain c t where ct: "ex_digits (nat n) = c # t" using ex_digits_ne by (cases "ex_digits (nat n)") auto
  then have "ex_digit c" using ex_digits_chars [of c "nat n"] by simp
  then have c: "c \<notin> {CHR '' '', CHR 0x09, CHR 0x0A, CHR 0x0B, CHR 0x0C, CHR 0x0D}" "c \<noteq> CHR ''-''" "c \<noteq> CHR ''+''"
    by (auto simp: ex_digit_def)
  have pos: "ex_decimal (takeWhile ex_digit (c # t)) = n" if "\<not> n < 0"
    using that tw [of "nat n"] ct ex_decimal_digits [of "nat n"] by simp
  show ?thesis
  proof (cases "n < 0")
    case True
    then show ?thesis using assms by (simp add: ex_atoi_def ex_show_def tw ex_decimal_digits ex_int_def)
  next
    case False
    then show ?thesis using assms c pos by (simp add: ex_atoi_def ex_show_def ct ex_int_def)
  qed
qed

section \<open>The evaluators compute the value of an expression\<close>

lemma ex_tree_not_null [simp]: "ex_tree e \<noteq> ExNull"
  by (cases e) simp_all

definition ex_arith_op :: "ex_op \<Rightarrow> bool" where
  "ex_arith_op oper \<longleftrightarrow> oper \<in> {Add, Sub, Mul, Div}"

text \<open>What the SQL-like evaluator computes for an operator.\<close>

definition sql_op_val :: "ex_op \<Rightarrow> int \<Rightarrow> int \<Rightarrow> int" where
  "sql_op_val oper a b = (if oper = Mul then b else ex_op_val oper a b)"

lemma ex_arith_ok:
  assumes "-2147483648 \<le> ex_op_val oper a b" and "ex_op_val oper a b \<le> 2147483647" and "ex_arith_op oper"
  shows "ex_arith (ex_op_text oper) a b = Inr (ex_op_val oper a b)"
  using assms by (cases oper; cases "b = 0") (simp_all add: ex_arith_def ex_int_def ex_arith_op_def)

lemma sql_apply_ok:
  assumes "-2147483648 \<le> sql_op_val oper a b" and "sql_op_val oper a b \<le> 2147483647"
  shows "sql_apply (ex_op_text oper) a b = Inr (sql_op_val oper a b)"
  using assms by (cases oper; cases "b = 0") (simp_all add: sql_apply_def ex_int_def sql_op_val_def)

lemma ex_evaluation_tree:
  "ex_fits ex_op_val e \<Longrightarrow> ex_ops e \<subseteq> Collect ex_arith_op \<Longrightarrow> ex_evaluation (ex_tree e) = Inr (ex_val ex_op_val e)"
  by (induction e) (simp_all add: ex_atoi_show ex_arith_ok)

lemma sql_evaluation_tree: "ex_fits sql_op_val e \<Longrightarrow> sql_evaluation (ex_tree e) = Inr (ex_val sql_op_val e)"
  by (induction e) (simp_all add: ex_atoi_show sql_apply_ok)

lemma sql_op_val_id: "Mul \<notin> ex_ops e \<Longrightarrow> ex_val sql_op_val e = ex_val ex_op_val e \<and> ex_fits sql_op_val e = ex_fits ex_op_val e"
  by (induction e) (auto simp: sql_op_val_def)

text \<open>The printed forms. A stack machine for the postfix form, and a parser for the prefix form.\<close>

definition ex_op_of :: "string \<Rightarrow> ex_op option" where
  "ex_op_of d = find (\<lambda>oper. ex_op_text oper = d) [Add, Sub, Mul, Div, Gt, Lt, Eq, Ge, Le, Ne, And, Or]"

fun ex_machine :: "string list \<Rightarrow> int list \<Rightarrow> int list option" where
  "ex_machine [] st = Some st"
| "ex_machine (d # ds) st =
     (case (ex_op_of d, st) of
        (None, _) \<Rightarrow> (case ex_atoi d of Inr n \<Rightarrow> ex_machine ds (n # st) | Inl _ \<Rightarrow> None)
      | (Some oper, b # a # st') \<Rightarrow> ex_machine ds (ex_op_val oper a b # st')
      | (Some oper, _) \<Rightarrow> None)"

lemma ex_op_of_text: "ex_op_of (ex_op_text oper) = Some oper"
  by (cases oper) (simp_all add: ex_op_of_def)

lemma ex_op_of_show: "ex_op_of (ex_show n) = None"
proof -
  obtain c t where ct: "ex_digits (nat \<bar>n\<bar>) = c # t" using ex_digits_ne by (cases "ex_digits (nat \<bar>n\<bar>)") auto
  then have "ex_digit c" using ex_digits_chars [of c "nat \<bar>n\<bar>"] by simp
  then have "c \<notin> {CHR ''+'', CHR ''-'', CHR ''*'', CHR ''/'', CHR ''>'', CHR ''<'', CHR ''='', CHR ''!'', CHR ''A'', CHR ''O''}"
    by (auto simp: ex_digit_def)
  then have "ex_op_text oper \<noteq> ex_show n" for oper using ct by (cases oper) (auto simp: ex_show_def)
  then show ?thesis by (auto simp: ex_op_of_def find_None_iff)
qed

lemma ex_machine_tree:
  "ex_fits ex_op_val e \<Longrightarrow> ex_machine (ex_postOrder (ex_tree e) @ ds) st = ex_machine ds (ex_val ex_op_val e # st)"
  by (induction e arbitrary: ds st) (simp_all add: ex_op_of_show ex_op_of_text ex_atoi_show)

fun ex_parse :: "nat \<Rightarrow> string list \<Rightarrow> (ex_node \<times> string list) option" where
  "ex_parse 0 ds = None"
| "ex_parse (Suc n) [] = None"
| "ex_parse (Suc n) (d # ds) =
     (case ex_op_of d of
        None \<Rightarrow> Some (ExNode d ExNull ExNull, ds)
      | Some oper \<Rightarrow>
          (case ex_parse n ds of
             None \<Rightarrow> None
           | Some (l, ds') \<Rightarrow>
               (case ex_parse n ds' of None \<Rightarrow> None | Some (r, ds'') \<Rightarrow> Some (ExNode d l r, ds''))))"

lemma ex_parse_tree: "size e < n \<Longrightarrow> ex_parse n (ex_preOrder (ex_tree e) @ ds) = Some (ex_tree e, ds)"
proof (induction e arbitrary: n ds)
  case (Const k)
  then show ?case by (cases n) (simp_all add: ex_op_of_show)
next
  case (Bin oper a b)
  then obtain m where m: "n = Suc m" "size a < m" "size b < m" by (cases n) auto
  show ?case using Bin.IH(1) [OF m(2)] Bin.IH(2) [OF m(3)] by (simp add: m(1) ex_op_of_text)
qed

text \<open>
  C18. The evaluators and the printed forms agree with the expression. Take an expression whose
  constants and intermediate results fit an \<^verbatim>\<open>int\<close>, built as a tree of decimal numerals and operator
  names. The arithmetic evaluator returns its value when it uses only \<^verbatim>\<open>+ - * /\<close>, the SQL-like one when it has no
  \<^verbatim>\<open>*\<close>, comparisons and connectives included; running the printed postfix form on a stack leaves that
  value; and the printed prefix form determines the tree.
\<close>

theorem expression_programs_correct:
  assumes "ex_fits ex_op_val e"
  shows "(ex_ops e \<subseteq> Collect ex_arith_op \<longrightarrow> ex_evaluation (ex_tree e) = Inr (ex_val ex_op_val e)) \<and>
    (Mul \<notin> ex_ops e \<longrightarrow> sql_evaluation (ex_tree e) = Inr (ex_val ex_op_val e)) \<and>
    ex_machine (ex_postOrder (ex_tree e)) [] = Some [ex_val ex_op_val e] \<and>
    ex_parse (Suc (size e)) (ex_preOrder (ex_tree e)) = Some (ex_tree e, [])"
  using assms ex_evaluation_tree [of e] sql_evaluation_tree [of e] sql_op_val_id [of e]
    ex_machine_tree [of e "[]" "[]"] ex_parse_tree [of e "Suc (size e)" "[]"] by simp

theorem expression_programs_correct_witness:
  "ex_evaluation (ex_tree (Bin Mul (Bin Add (Const 5) (Const 3)) (Bin Sub (Const 8) (Const 2)))) = Inr 48 \<and>
   sql_evaluation (ex_tree (Bin And (Bin Gt (Bin Add (Const 5) (Const 3)) (Bin Sub (Const 8) (Const 8))) (Bin Eq (Const 4) (Const 4)))) = Inr 1"
  using expression_programs_correct [of "Bin Mul (Bin Add (Const 5) (Const 3)) (Bin Sub (Const 8) (Const 2))"]
    expression_programs_correct [of "Bin And (Bin Gt (Bin Add (Const 5) (Const 3)) (Bin Sub (Const 8) (Const 8))) (Bin Eq (Const 4) (Const 4))"]
  by (simp add: ex_arith_op_def)

text \<open>The SQL-like evaluator takes \<^verbatim>\<open>*\<close> for the right operand: two times three is three, and so on for every product.\<close>

lemma sql_multiplication_wrong:
  assumes "ex_fits sql_op_val (Bin Mul a b)"
  shows "sql_evaluation (ex_tree (Bin Mul a b)) = Inr (ex_val sql_op_val b)"
  using sql_evaluation_tree [OF assms] by (simp add: sql_op_val_def)

lemma ast_mains_print:
  "ast_eval_main = Inr (Txt ''preOrde traversal:\<newline>'' # ex_print [''*'', ''+'', ''5'', ''3'', ''-'', ''8'', ''2''] @
     Txt ''\<newline>postOrde traversal:\<newline>'' # ex_print [''5'', ''3'', ''+'', ''8'', ''2'', ''-'', ''*''] @
     [Txt ''\<newline>\<newline>Result of expression: '', Num 48, Txt ''\<newline>''])"
  "\<not> isl ast_main" "\<not> isl sql_main"
  by code_simp+

end
