(* ===== verification/QueryEngine.thy ===== *)
theory QueryEngine
  imports Prelude "HOL-Library.Monad_Syntax"
begin

text \<open>
  The query engines of \<^verbatim>\<open>QUERY_EXECUTION_ENGINE\<close>: the pipelines of open/next/close operators in
  \<^verbatim>\<open>iterator_based_execution.c\<close>, \<^verbatim>\<open>modular_operator_chaining.c\<close> and \<^verbatim>\<open>TASK/mini_query_engine.c\<close>, the loop of
  \<^verbatim>\<open>query_execution_engine.c\<close>, and the two predicates of \<^verbatim>\<open>manual_jit.c\<close>.

  The global variables of a pipeline are a record; the table is an argument of its operators, and the tables
  of the programs are definitions. A pointer to a row is the row; \<open>NULL\<close> is \<open>None\<close>.
\<close>

section \<open>The operators\<close>

record student =
  st_name :: string
  st_age :: int
  st_city :: string

record qe_state =
  current_index :: nat
  current_row :: "student option"
  limit_count :: int
  qe_out :: outs

definition qe_say :: "string \<Rightarrow> qe_state \<Rightarrow> qe_state" where
  "qe_say msg s = s\<lparr>qe_out := qe_out s @ [Txt msg]\<rparr>"

definition table_scan_open :: "qe_state \<Rightarrow> qe_state" where
  "table_scan_open s = qe_say ''TableScan: Opened table.\<newline>'' (s\<lparr>current_index := 0\<rparr>)"

definition table_scan_next :: "student list \<Rightarrow> qe_state \<Rightarrow> student option \<times> qe_state" where
  "table_scan_next table s =
     (if current_index s \<ge> length table then (None, s)
      else (Some (table ! current_index s), s\<lparr>current_index := current_index s + 1\<rparr>))"

definition table_scan_close :: "qe_state \<Rightarrow> qe_state" where
  "table_scan_close s = qe_say ''TableScan: Closed table.\<newline>'' s"

text \<open>\<^verbatim>\<open>filter_open\<close> with its message, which differs between the programs.\<close>

definition filter_open :: "string \<Rightarrow> qe_state \<Rightarrow> qe_state" where
  "filter_open msg s = table_scan_open (qe_say msg s)"

function filter_next :: "student list \<Rightarrow> qe_state \<Rightarrow> student option \<times> qe_state" where
  "filter_next table s =
     (case table_scan_next table s of
        (None, s') \<Rightarrow> (None, s'\<lparr>current_row := None\<rparr>)
      | (Some row, s') \<Rightarrow>
          let s'' = s'\<lparr>current_row := Some row\<rparr>
          in if st_age row > 18 then (Some row, s'') else filter_next table s'')"
  by pat_completeness auto
termination
  by (relation "measure (\<lambda>(table, s). length table - current_index s)") (auto simp: table_scan_next_def split: if_splits)

declare filter_next.simps [simp del]

definition filter_close :: "qe_state \<Rightarrow> qe_state" where
  "filter_close s = qe_say ''Filter: Closed filter.\<newline>'' (table_scan_close s)"

definition limit_value :: int where
  "limit_value = 1"

definition limit_open :: "qe_state \<Rightarrow> qe_state" where
  "limit_open s =
     (filter_open ''Filter: Opened filter (age > 18).\<newline>''
       (s\<lparr>qe_out := qe_out s @ [Txt ''Limit: Opened (LIMIT '', Num limit_value, Txt '').\<newline>'']\<rparr>))\<lparr>limit_count := 0\<rparr>"

definition limit_next :: "student list \<Rightarrow> qe_state \<Rightarrow> student option \<times> qe_state" where
  "limit_next table s =
     (if limit_count s \<ge> limit_value then (None, s)
      else case filter_next table s of
             (None, s') \<Rightarrow> (None, s')
           | (Some row, s') \<Rightarrow> (Some row, s'\<lparr>limit_count := limit_count s' + 1\<rparr>))"

definition limit_close :: "qe_state \<Rightarrow> qe_state" where
  "limit_close s = qe_say ''Limit: Closed.\<newline>'' (filter_close s)"

text \<open>
  \<^verbatim>\<open>projection_next\<close>: \<^verbatim>\<open>while ((row = next()) != NULL) printf(...)\<close>. \<open>None\<close> would be a loop that does not end.
\<close>

definition qe_print :: "string \<Rightarrow> student \<Rightarrow> outs" where
  "qe_print prefix row = [Txt (prefix @ ''Name: ''), Txt (st_name row), Txt '', Age: '', Num (st_age row), Txt ''\<newline>'']"

partial_function (option) projection_next ::
    "(qe_state \<Rightarrow> student option \<times> qe_state) \<Rightarrow> string \<Rightarrow> qe_state \<Rightarrow> qe_state option" where
  "projection_next source prefix s =
     (case source s of
        (None, s') \<Rightarrow> Some s'
      | (Some row, s') \<Rightarrow> projection_next source prefix (s'\<lparr>qe_out := qe_out s' @ qe_print prefix row\<rparr>))"

definition qe_start :: qe_state where
  "qe_start = \<lparr>current_index = 0, current_row = None, limit_count = 0, qe_out = []\<rparr>"

section \<open>The programs\<close>

definition it_main :: "student list \<Rightarrow> outs option" where
  "it_main table =
     (let s = filter_open ''Filter: Opened filter (age > 18).\<newline>'' (qe_say ''Projection: Opened projection (name, age).\<newline>'' qe_start)
      in do {
        s \<leftarrow> projection_next (filter_next table) ''Result '' s;
        Some (qe_out (qe_say ''Projection: Closed projection.\<newline>'' (filter_close s)))
      })"

definition mo_main :: "student list \<Rightarrow> outs option" where
  "mo_main table =
     (let s = limit_open (qe_say ''Projection: Opened projection (name, age).\<newline>'' qe_start)
      in do {
        s \<leftarrow> projection_next (limit_next table) (''Result '' @ [CHR 0xE2, CHR 0x86, CHR 0x92] @ '' '') s;
        Some (qe_out (qe_say ''Projection: Closed projection.\<newline>'' (limit_close s)))
      })"

definition mq_main :: "student list \<Rightarrow> outs option" where
  "mq_main table =
     (let s = filter_open ''Filter: Opened filter.\<newline>'' (qe_say ''Projection: Opened projection.\<newline>'' qe_start)
      in do {
        s \<leftarrow> projection_next (filter_next table) '''' (qe_say ''Result:\<newline>'' s);
        Some (qe_out (qe_say ''Projection: Closed projection.\<newline>'' (filter_close s)))
      })"

definition it_table :: "student list" where
  "it_table =
     [\<lparr>st_name = ''Alice'', st_age = 17, st_city = ''Pune''\<rparr>, \<lparr>st_name = ''Bob'', st_age = 20, st_city = ''Delhi''\<rparr>,
      \<lparr>st_name = ''Charlie'', st_age = 22, st_city = ''Mumbai''\<rparr>, \<lparr>st_name = ''Daisy'', st_age = 16, st_city = ''Chennai''\<rparr>]"

definition mq_table :: "student list" where
  "mq_table =
     [\<lparr>st_name = ''Rahul'', st_age = 23, st_city = ''Pune''\<rparr>, \<lparr>st_name = ''Gaurav'', st_age = 20, st_city = ''Delhi''\<rparr>,
      \<lparr>st_name = ''Kanha'', st_age = 21, st_city = ''Mumbai''\<rparr>, \<lparr>st_name = ''Gulshan'', st_age = 22, st_city = ''Chennai''\<rparr>]"

text \<open>\<^verbatim>\<open>query_execution_engine.c\<close>: scan, filter and project as functions on one row.\<close>

definition MAX_STUDENTS :: nat where
  "MAX_STUDENTS = 5"

definition qx_students :: "student list" where
  "qx_students =
     [\<lparr>st_name = ''Rahul'', st_age = 19, st_city = ''Delhi''\<rparr>, \<lparr>st_name = ''Raman'', st_age = 27, st_city = ''Mumbai''\<rparr>,
      \<lparr>st_name = ''Sarika'', st_age = 6, st_city = ''Pune''\<rparr>, \<lparr>st_name = ''Monu'', st_age = 20, st_city = ''Bangalore''\<rparr>,
      \<lparr>st_name = ''Gaurav'', st_age = 21, st_city = ''Chennai''\<rparr>]"

definition tableScan :: "student list \<Rightarrow> nat \<Rightarrow> student option" where
  "tableScan students index = (if index < MAX_STUDENTS then Some (students ! index) else None)"

definition qx_filter :: "student \<Rightarrow> student option" where
  "qx_filter input = (if st_age input > 18 then Some input else None)"

definition qx_project :: "student \<Rightarrow> outs" where
  "qx_project row = [Txt (st_name row @ replicate (10 - length (st_name row)) CHR '' ''), Txt '' '', Num (st_age row), Txt ''\<newline>'']"

definition qx_main :: "student list \<Rightarrow> outs" where
  "qx_main students =
     [Txt ''Query: SELECT name, age FROM students WHERE age > 18;\<newline>\<newline>'', Txt ''Result:\<newline>'', Txt ''-------------------\<newline>''] @
     concat (map (\<lambda>i. case Option.bind (tableScan students i) qx_filter of None \<Rightarrow> [] | Some row \<Rightarrow> qx_project row) [0..<MAX_STUDENTS]) @
     [Txt ''-------------------\<newline>'']"

text \<open>\<^verbatim>\<open>manual_jit.c\<close>: the interpreted predicate and its hand-compiled form; a string ends with a zero character.\<close>

definition interpreted_eval :: "int \<Rightarrow> string \<Rightarrow> int" where
  "interpreted_eval marks city = of_bool (marks > 80 \<and> city = ''Pune'')"

definition compiled_eval :: "int \<Rightarrow> string \<Rightarrow> int" where
  "compiled_eval marks city = (if marks > 80 \<and> (city @ [CHR 0x00]) ! 0 = CHR ''P'' then 1 else 0)"

definition jit_main :: "nat \<Rightarrow> int \<times> int" where
  "jit_main n = (foldl (\<lambda>count i. count + interpreted_eval 85 ''Pune'') 0 [0..<n],
                 foldl (\<lambda>count i. count + compiled_eval 85 ''Pune'') 0 [0..<n])"

section \<open>Row sources\<close>

text \<open>
  The contract between operators: a source hands out the rows it still has, one per call, then \<open>NULL\<close>,
  and leaves the output alone.
\<close>

locale row_source =
  fixes source :: "qe_state \<Rightarrow> student option \<times> qe_state"
    and rows :: "qe_state \<Rightarrow> student list"
  assumes source_end: "rows s = [] \<Longrightarrow> fst (source s) = None \<and> qe_out (snd (source s)) = qe_out s"
    and source_row: "rows s = row # rest \<Longrightarrow>
      fst (source s) = Some row \<and> rows (snd (source s)) = rest \<and> qe_out (snd (source s)) = qe_out s"
    and rows_out: "rows (s\<lparr>qe_out := out\<rparr>) = rows s"
begin

lemma projection_drains:
  "\<exists>s'. projection_next source prefix s = Some s' \<and> qe_out s' = qe_out s @ concat (map (qe_print prefix) (rows s))"
proof (induction "rows s" arbitrary: s)
  case Nil
  then show ?case using source_end [of s] by (subst projection_next.simps) (auto split: prod.splits)
next
  case (Cons row rest)
  obtain s1 where s1: "source s = (Some row, s1)" "rows s1 = rest" "qe_out s1 = qe_out s"
    using source_row [of s row rest] Cons.hyps(2) by (cases "source s") auto
  let ?s = "s1\<lparr>qe_out := qe_out s1 @ qe_print prefix row\<rparr>"
  have "rows ?s = rest" using s1(2) rows_out by simp
  with Cons.hyps(1) [of ?s] obtain s' where
    "projection_next source prefix ?s = Some s'" "qe_out s' = qe_out ?s @ concat (map (qe_print prefix) rest)" by auto
  then show ?case using s1 Cons.hyps(2) [symmetric] by (subst projection_next.simps) simp
qed

end

interpretation scan: row_source "table_scan_next table" "\<lambda>s. drop (current_index s) table" for table
  by unfold_locales (auto simp: table_scan_next_def dest!: drop_eq_Cons)

abbreviation qe_adult :: "student \<Rightarrow> bool" where
  "qe_adult row \<equiv> st_age row > 18"

abbreviation filtered :: "student list \<Rightarrow> qe_state \<Rightarrow> student list" where
  "filtered table s \<equiv> filter qe_adult (drop (current_index s) table)"

lemma filter_next_spec:
  "qe_out (snd (filter_next table s)) = qe_out s \<and> limit_count (snd (filter_next table s)) = limit_count s \<and>
   (case filtered table s of
      [] \<Rightarrow> fst (filter_next table s) = None
    | row # rest \<Rightarrow> fst (filter_next table s) = Some row \<and> filtered table (snd (filter_next table s)) = rest)"
proof (induction table s rule: filter_next.induct)
  case (1 table s)
  show ?case
  proof (cases "current_index s < length table")
    case False
    then show ?thesis by (simp add: filter_next.simps [of table s] table_scan_next_def)
  next
    case True
    let ?row = "table ! current_index s" and ?s = "s\<lparr>current_index := current_index s + 1, current_row := Some (table ! current_index s)\<rparr>"
    have scan: "table_scan_next table s = (Some ?row, s\<lparr>current_index := current_index s + 1\<rparr>)"
      using True by (simp add: table_scan_next_def)
    have d: "drop (current_index s) table = ?row # drop (Suc (current_index s)) table" using True by (simp add: Cons_nth_drop_Suc)
    show ?thesis
    proof (cases "qe_adult ?row")
      case True
      then show ?thesis by (simp add: filter_next.simps [of table s] scan d)
    next
      case False
      then have "filter_next table s = filter_next table ?s" by (simp add: filter_next.simps [of table s] scan)
      then show ?thesis using 1 [OF scan [symmetric] refl refl] False by (simp add: d cong: list.case_cong)
    qed
  qed
qed

interpretation flt: row_source "filter_next table" "filtered table" for table
proof
  fix s row rest out
  show "filtered table s = [] \<Longrightarrow> fst (filter_next table s) = None \<and> qe_out (snd (filter_next table s)) = qe_out s"
    "filtered table s = row # rest \<Longrightarrow> fst (filter_next table s) = Some row \<and>
       filtered table (snd (filter_next table s)) = rest \<and> qe_out (snd (filter_next table s)) = qe_out s"
    using filter_next_spec [of table s] by (auto split: list.splits)
qed simp

abbreviation limited :: "student list \<Rightarrow> qe_state \<Rightarrow> student list" where
  "limited table s \<equiv> take (nat (limit_value - limit_count s)) (filtered table s)"

lemma limit_next_spec:
  "qe_out (snd (limit_next table s)) = qe_out s \<and>
   (case limited table s of
      [] \<Rightarrow> fst (limit_next table s) = None
    | row # rest \<Rightarrow> fst (limit_next table s) = Some row \<and> limited table (snd (limit_next table s)) = rest)"
proof (cases "limit_count s \<ge> limit_value")
  case True
  then show ?thesis by (simp add: limit_next_def)
next
  case False
  then have n: "nat (limit_value - limit_count s) = Suc (nat (limit_value - (limit_count s + 1)))" by simp
  obtain r s1 where f: "filter_next table s = (r, s1)" by (cases "filter_next table s")
  show ?thesis
    using filter_next_spec [of table s] False f by (cases "filtered table s") (auto simp: limit_next_def n)
qed

interpretation lim: row_source "limit_next table" "limited table" for table
proof
  fix s row rest out
  show "limited table s = [] \<Longrightarrow> fst (limit_next table s) = None \<and> qe_out (snd (limit_next table s)) = qe_out s"
    "limited table s = row # rest \<Longrightarrow> fst (limit_next table s) = Some row \<and>
       limited table (snd (limit_next table s)) = rest \<and> qe_out (snd (limit_next table s)) = qe_out s"
    using limit_next_spec [of table s] by (auto split: list.splits)
qed simp

section \<open>The pipelines answer the query\<close>

text \<open>What the programs print around the rows.\<close>

definition qe_adults :: "student list \<Rightarrow> student list" where
  "qe_adults table = filter qe_adult table"

lemmas qe_open_close = qe_start_def qe_say_def filter_open_def table_scan_open_def filter_close_def table_scan_close_def
  limit_open_def limit_close_def

lemma it_main_ok: "it_main table = Some ([Txt ''Projection: Opened projection (name, age).\<newline>'', Txt ''Filter: Opened filter (age > 18).\<newline>'',
     Txt ''TableScan: Opened table.\<newline>''] @ concat (map (qe_print ''Result '') (qe_adults table)) @
     [Txt ''TableScan: Closed table.\<newline>'', Txt ''Filter: Closed filter.\<newline>'', Txt ''Projection: Closed projection.\<newline>''])"
  using flt.projection_drains [of table "''Result ''" "filter_open ''Filter: Opened filter (age > 18).\<newline>''
    (qe_say ''Projection: Opened projection (name, age).\<newline>'' qe_start)"]
  by (auto simp: it_main_def qe_open_close qe_adults_def)

lemma mo_main_ok: "mo_main table = Some ([Txt ''Projection: Opened projection (name, age).\<newline>'', Txt ''Limit: Opened (LIMIT '', Num 1, Txt '').\<newline>'',
     Txt ''Filter: Opened filter (age > 18).\<newline>'', Txt ''TableScan: Opened table.\<newline>''] @
     concat (map (qe_print (''Result '' @ [CHR 0xE2, CHR 0x86, CHR 0x92] @ '' '')) (take 1 (qe_adults table))) @
     [Txt ''TableScan: Closed table.\<newline>'', Txt ''Filter: Closed filter.\<newline>'', Txt ''Limit: Closed.\<newline>'', Txt ''Projection: Closed projection.\<newline>''])"
  using lim.projection_drains [of table "''Result '' @ [CHR 0xE2, CHR 0x86, CHR 0x92] @ '' ''"
    "limit_open (qe_say ''Projection: Opened projection (name, age).\<newline>'' qe_start)"]
  by (auto simp: mo_main_def qe_open_close qe_adults_def limit_value_def)

lemma mq_main_ok: "mq_main table = Some ([Txt ''Projection: Opened projection.\<newline>'', Txt ''Filter: Opened filter.\<newline>'',
     Txt ''TableScan: Opened table.\<newline>'', Txt ''Result:\<newline>''] @ concat (map (qe_print '''') (qe_adults table)) @
     [Txt ''TableScan: Closed table.\<newline>'', Txt ''Filter: Closed filter.\<newline>'', Txt ''Projection: Closed projection.\<newline>''])"
  using flt.projection_drains [of table "''''" "qe_say ''Result:\<newline>'' (filter_open ''Filter: Opened filter.\<newline>''
    (qe_say ''Projection: Opened projection.\<newline>'' qe_start))"]
  by (auto simp: mq_main_def qe_open_close qe_adults_def)

lemma qx_main_ok:
  assumes "length students = MAX_STUDENTS"
  shows "qx_main students = [Txt ''Query: SELECT name, age FROM students WHERE age > 18;\<newline>\<newline>'', Txt ''Result:\<newline>'', Txt ''-------------------\<newline>''] @
    concat (map qx_project (qe_adults students)) @ [Txt ''-------------------\<newline>'']"
proof -
  have "concat (map (\<lambda>r. case qx_filter r of None \<Rightarrow> [] | Some row \<Rightarrow> qx_project row) rs) = concat (map qx_project (qe_adults rs))" for rs
    by (induction rs) (simp_all add: qx_filter_def qe_adults_def)
  moreover have "map (\<lambda>i. case Option.bind (tableScan students i) qx_filter of None \<Rightarrow> [] | Some row \<Rightarrow> qx_project row) [0..<MAX_STUDENTS] =
      map (\<lambda>r. case qx_filter r of None \<Rightarrow> [] | Some row \<Rightarrow> qx_project row) students"
    using assms by (intro nth_equalityI) (auto simp: tableScan_def)
  ultimately show ?thesis by (simp add: qx_main_def)
qed

text \<open>
  C20. The operator pipelines answer their query. For every table, each of the three pipelines ends, and
  between its opening and closing messages prints name and age of the rows older than 18, in table order:
  all of them in the two filter pipelines, the first one only below the limit operator. The loop of
  \<^verbatim>\<open>query_execution_engine.c\<close> prints the same rows for a table of its size.
\<close>

theorem query_pipelines_correct:
  assumes "length students = MAX_STUDENTS"
  shows "it_main table = Some ([Txt ''Projection: Opened projection (name, age).\<newline>'', Txt ''Filter: Opened filter (age > 18).\<newline>'',
       Txt ''TableScan: Opened table.\<newline>''] @ concat (map (qe_print ''Result '') (qe_adults table)) @
       [Txt ''TableScan: Closed table.\<newline>'', Txt ''Filter: Closed filter.\<newline>'', Txt ''Projection: Closed projection.\<newline>'']) \<and>
    mo_main table = Some ([Txt ''Projection: Opened projection (name, age).\<newline>'', Txt ''Limit: Opened (LIMIT '', Num 1, Txt '').\<newline>'',
       Txt ''Filter: Opened filter (age > 18).\<newline>'', Txt ''TableScan: Opened table.\<newline>''] @
       concat (map (qe_print (''Result '' @ [CHR 0xE2, CHR 0x86, CHR 0x92] @ '' '')) (take 1 (qe_adults table))) @
       [Txt ''TableScan: Closed table.\<newline>'', Txt ''Filter: Closed filter.\<newline>'', Txt ''Limit: Closed.\<newline>'', Txt ''Projection: Closed projection.\<newline>'']) \<and>
    mq_main table = Some ([Txt ''Projection: Opened projection.\<newline>'', Txt ''Filter: Opened filter.\<newline>'',
       Txt ''TableScan: Opened table.\<newline>'', Txt ''Result:\<newline>''] @ concat (map (qe_print '''') (qe_adults table)) @
       [Txt ''TableScan: Closed table.\<newline>'', Txt ''Filter: Closed filter.\<newline>'', Txt ''Projection: Closed projection.\<newline>'']) \<and>
    qx_main students = [Txt ''Query: SELECT name, age FROM students WHERE age > 18;\<newline>\<newline>'', Txt ''Result:\<newline>'', Txt ''-------------------\<newline>''] @
       concat (map qx_project (qe_adults students)) @ [Txt ''-------------------\<newline>'']"
  using it_main_ok mo_main_ok mq_main_ok qx_main_ok [OF assms] by blast

theorem query_pipelines_correct_witness:
  "it_main it_table = Some ([Txt ''Projection: Opened projection (name, age).\<newline>'', Txt ''Filter: Opened filter (age > 18).\<newline>'',
     Txt ''TableScan: Opened table.\<newline>''] @ qe_print ''Result '' (it_table ! 1) @ qe_print ''Result '' (it_table ! 2) @
     [Txt ''TableScan: Closed table.\<newline>'', Txt ''Filter: Closed filter.\<newline>'', Txt ''Projection: Closed projection.\<newline>''])"
  using query_pipelines_correct [of qx_students it_table]
  by (simp add: qx_students_def MAX_STUDENTS_def qe_adults_def it_table_def)

text \<open>
  The hand-compiled predicate looks at the first letter only: it agrees with the interpreted one on every city
  that is \<^verbatim>\<open>Pune\<close> or does not begin with \<^verbatim>\<open>P\<close>, and differs on every other one.
\<close>

lemma compiled_eval_agrees_iff:
  "compiled_eval marks city = interpreted_eval marks city \<longleftrightarrow> marks \<le> 80 \<or> city = ''Pune'' \<or> take 1 city \<noteq> ''P''"
  by (cases city) (auto simp: compiled_eval_def interpreted_eval_def)

lemma jit_main_counts: "jit_main n = (int n, int n)"
  by (induction n) (simp_all add: jit_main_def compiled_eval_def interpreted_eval_def)

end
