(* ===== verification/RbTree.thy ===== *)
theory RbTree
  imports Interfaces
begin

text \<open>
  The red-black tree of \<^verbatim>\<open>day-8(Avl-Tree)/rb-tree.c\<close>: insertion and deletion with their fix-up loops, search and
  display.

  The C nodes are linked to their parents, and the loops walk up these links. A node inside the tree is
  therefore modelled by its subtree and the list of its ancestors, the nearest first: for each ancestor the side
  on which the node hangs, the ancestor's colour and key, and its other child. \<open>rb_zip\<close> puts the tree
  together again. The sentinel \<^verbatim>\<open>NIL\<close> is \<open>RbNil\<close>, which is black: painting it black, as the last line of
  \<^verbatim>\<open>deleteFixup\<close> may do, changes nothing, while a rotation about it, or painting it red, is the fault \<open>NullDeref\<close>. Its \<^verbatim>\<open>parent\<close> link, which the code
  sets before a fix-up, is the position in the list of ancestors. The code writes each case of the loops twice, for a left and for a
  right child; the model writes it once, with the side as an argument.
\<close>

section \<open>Trees and positions\<close>

datatype rb_col = RED | BLACK

datatype rb_node = RbNil | RbNode (rb_ncolor: rb_col) (rb_key: int) (rb_left: rb_node) (rb_right: rb_node)

datatype rb_side = LeftOf | RightOf

type_synonym rb_path = "(rb_side \<times> rb_col \<times> int \<times> rb_node) list"

fun rb_color :: "rb_node \<Rightarrow> rb_col" where
  "rb_color RbNil = BLACK"
| "rb_color (RbNode c k l r) = c"

definition rb_newNode :: "int \<Rightarrow> rb_node" where
  "rb_newNode key = RbNode RED key RbNil RbNil"

text \<open>A node with the child \<open>t\<close> on the given side and the child \<open>s\<close> on the other.\<close>

fun rb_plug :: "rb_side \<Rightarrow> rb_col \<Rightarrow> int \<Rightarrow> rb_node \<Rightarrow> rb_node \<Rightarrow> rb_node" where
  "rb_plug LeftOf c k t s = RbNode c k t s"
| "rb_plug RightOf c k t s = RbNode c k s t"

fun rb_zip :: "rb_node \<Rightarrow> rb_path \<Rightarrow> rb_node" where
  "rb_zip t [] = t"
| "rb_zip t ((d, c, k, s) # p) = rb_zip (rb_plug d c k t s) p"

fun rb_other :: "rb_side \<Rightarrow> rb_side" where
  "rb_other LeftOf = RightOf"
| "rb_other RightOf = LeftOf"

fun rb_child :: "rb_side \<Rightarrow> rb_node \<Rightarrow> rb_node" where
  "rb_child d RbNil = RbNil"
| "rb_child LeftOf (RbNode c k l r) = l"
| "rb_child RightOf (RbNode c k l r) = r"

fun rb_paint :: "rb_col \<Rightarrow> rb_node \<Rightarrow> rb_node" where
  "rb_paint c RbNil = RbNil"
| "rb_paint c (RbNode c' k l r) = RbNode c k l r"

section \<open>Rotations\<close>

text \<open>\<open>rb_rotate LeftOf\<close> is \<^verbatim>\<open>leftRotate\<close>, \<open>rb_rotate RightOf\<close> is \<^verbatim>\<open>rightRotate\<close>, on the subtree of the node.\<close>

fun rb_leftRotate :: "rb_node \<Rightarrow> rb_node res" where
  "rb_leftRotate (RbNode c k a (RbNode c' k' b d)) = Inr (RbNode c' k' (RbNode c k a b) d)"
| "rb_leftRotate t = Inl NullDeref"

fun rb_rightRotate :: "rb_node \<Rightarrow> rb_node res" where
  "rb_rightRotate (RbNode c k (RbNode c' k' a b) d) = Inr (RbNode c' k' a (RbNode c k b d))"
| "rb_rightRotate t = Inl NullDeref"

fun rb_rotate :: "rb_side \<Rightarrow> rb_node \<Rightarrow> rb_node res" where
  "rb_rotate LeftOf t = rb_leftRotate t"
| "rb_rotate RightOf t = rb_rightRotate t"

section \<open>Insertion\<close>

text \<open>
  \<^verbatim>\<open>insertFixup\<close> at the node \<open>z\<close>. With a red parent on the side \<open>d2\<close> of the grandparent: a red uncle
  moves the problem two levels up; otherwise a rotation at the parent, if \<open>z\<close> is an inner grandchild, and
  one at the grandparent end it. A red parent without a grandparent would paint the sentinel.
\<close>

fun rb_insertFixup :: "rb_node \<Rightarrow> rb_path \<Rightarrow> rb_node res" where
  "rb_insertFixup z [] = Inr (rb_paint BLACK z)"
| "rb_insertFixup z [(d1, c1, k1, s1)] =
     (if c1 = RED then Inl NullDeref else Inr (rb_paint BLACK (rb_zip z [(d1, c1, k1, s1)])))"
| "rb_insertFixup z ((d1, c1, k1, s1) # (d2, c2, k2, s2) # p) =
     (if c1 = RED then
        if rb_color s2 = RED then
          rb_insertFixup (rb_plug d2 RED k2 (rb_plug d1 BLACK k1 z s1) (rb_paint BLACK s2)) p
        else
          bindE (if d1 \<noteq> d2 then rb_rotate d2 (rb_plug d1 c1 k1 z s1) else Inr (rb_plug d1 c1 k1 z s1)) (\<lambda>y.
          bindE (rb_rotate (rb_other d2) (rb_plug d2 RED k2 (rb_paint BLACK y) s2)) (\<lambda>top.
          Inr (rb_paint BLACK (rb_zip top p))))
      else Inr (rb_paint BLACK (rb_zip z ((d1, c1, k1, s1) # (d2, c2, k2, s2) # p))))"

text \<open>The descent of \<^verbatim>\<open>insert\<close>: \<open>None\<close> when the key is found.\<close>

fun rb_descend :: "rb_node \<Rightarrow> int \<Rightarrow> rb_path \<Rightarrow> rb_path option" where
  "rb_descend RbNil key p = Some p"
| "rb_descend (RbNode c k l r) key p =
     (if key < k then rb_descend l key ((LeftOf, c, k, r) # p)
      else if key > k then rb_descend r key ((RightOf, c, k, l) # p)
      else None)"

definition rb_insert :: "rb_node \<Rightarrow> int \<Rightarrow> rb_node res" where
  "rb_insert root key =
     (case rb_descend root key [] of
        None \<Rightarrow> Inr root
      | Some p \<Rightarrow> rb_insertFixup (rb_newNode key) p)"

fun rb_search :: "rb_node \<Rightarrow> int \<Rightarrow> rb_node" where
  "rb_search RbNil key = RbNil"
| "rb_search (RbNode c k l r) key =
     (if key = k then RbNode c k l r else if key < k then rb_search l key else rb_search r key)"

section \<open>Deletion\<close>

text \<open>The loop that finds the node, and \<^verbatim>\<open>treeMinimum\<close>, both with the path they take.\<close>

fun rb_find :: "rb_node \<Rightarrow> int \<Rightarrow> rb_path \<Rightarrow> rb_node \<times> rb_path" where
  "rb_find RbNil key p = (RbNil, p)"
| "rb_find (RbNode c k l r) key p =
     (if key = k then (RbNode c k l r, p)
      else if key < k then rb_find l key ((LeftOf, c, k, r) # p)
      else rb_find r key ((RightOf, c, k, l) # p))"

fun rb_treeMinimum :: "rb_node \<Rightarrow> rb_path \<Rightarrow> rb_node \<times> rb_path" where
  "rb_treeMinimum (RbNode c k (RbNode c' k' a b) r) p = rb_treeMinimum (RbNode c' k' a b) ((LeftOf, c, k, r) # p)"
| "rb_treeMinimum t p = (t, p)"

text \<open>
  The last cases of \<^verbatim>\<open>deleteFixup\<close> for a black sibling \<open>w\<close> with a red child: the rotation at \<open>w\<close>, if its outer
  child is black, and the one at the parent. The loop then ends at the root.
\<close>

definition rb_delete_rotate :: "rb_side \<Rightarrow> rb_col \<Rightarrow> int \<Rightarrow> rb_node \<Rightarrow> rb_node \<Rightarrow> rb_node res" where
  "rb_delete_rotate d c k x w =
     bindE (if rb_color (rb_child (rb_other d) w) = BLACK
            then rb_rotate (rb_other d) (rb_plug d RED (rb_key w) (rb_paint BLACK (rb_child d w)) (rb_child (rb_other d) w))
            else Inr w) (\<lambda>w.
     rb_rotate d (rb_plug d BLACK k x
       (rb_plug d c (rb_key w) (rb_child d w) (rb_paint BLACK (rb_child (rb_other d) w)))))"

text \<open>A red sibling is first rotated above the parent; the path grows by one, and the node is then red or done.\<close>

definition rb_delete_sibling :: "rb_side \<times> rb_col \<times> int \<times> rb_node \<Rightarrow> rb_path" where
  "rb_delete_sibling = (\<lambda>(d, c, k, w).
     if rb_color w = RED then [(d, RED, k, rb_child d w), (d, BLACK, rb_key w, rb_child (rb_other d) w)]
     else [(d, c, k, w)])"

function rb_deleteFixup :: "rb_node \<Rightarrow> rb_path \<Rightarrow> rb_node res" where
  "rb_deleteFixup x [] = Inr (rb_paint BLACK x)"
| "rb_deleteFixup x (e # p) =
     (if rb_color x = RED then Inr (rb_zip (rb_paint BLACK x) (e # p))
      else case rb_delete_sibling e of
             [] \<Rightarrow> Inl NullDeref
           | (d, c, k, w) # q \<Rightarrow>
               if w = RbNil then Inl NullDeref
               else if rb_color (rb_left w) = BLACK \<and> rb_color (rb_right w) = BLACK then
                 rb_deleteFixup (rb_plug d c k x (rb_paint RED w)) (q @ p)
               else bindE (rb_delete_rotate d c k x w) (\<lambda>top. Inr (rb_paint BLACK (rb_zip top (q @ p)))))"
  by pat_completeness auto
termination
proof (relation "measure (\<lambda>(x, p). if rb_color x = RED then 0 else Suc (length p))")
  fix x e p d c k w q dckw ckw kw
  assume "rb_color x \<noteq> RED" "rb_delete_sibling e = dckw # q" "(d, ckw) = dckw" "(c, kw) = ckw" "(k, w) = kw"
  then show "((rb_plug d c k x (rb_paint RED w), q @ p), x, e # p) \<in> measure (\<lambda>(x, p). if rb_color x = RED then 0 else Suc (length p))"
    by (cases d) (auto simp: rb_delete_sibling_def split: if_splits prod.splits)
qed simp

text \<open>
  \<^verbatim>\<open>delete\<close>. With two children the successor \<open>y\<close> takes the place and the colour of the node, and its right child
  takes the place of \<open>y\<close>, whether or not \<open>y\<close> is the node's own child.
\<close>

definition rb_finish_delete :: "rb_col \<Rightarrow> rb_node \<Rightarrow> rb_path \<Rightarrow> rb_node res" where
  "rb_finish_delete yOriginalColor x p =
     (if yOriginalColor = BLACK then rb_deleteFixup x p else Inr (rb_zip x p))"

definition rb_remove :: "rb_col \<Rightarrow> rb_node \<Rightarrow> rb_node \<Rightarrow> rb_path \<Rightarrow> rb_node res" where
  "rb_remove c l r p =
     (if l = RbNil then rb_finish_delete c r p
      else if r = RbNil then rb_finish_delete c l p
      else case rb_treeMinimum r [] of
             (y, q) \<Rightarrow> rb_finish_delete (rb_color y) (rb_right y) (q @ (RightOf, c, rb_key y, l) # p))"

definition rb_delete :: "rb_node \<Rightarrow> int \<Rightarrow> rb_node res" where
  "rb_delete root key =
     (case rb_find root key [] of
        (RbNil, p) \<Rightarrow> Inr root
      | (RbNode c k l r, p) \<Rightarrow> rb_remove c l r p)"

section \<open>Output\<close>

fun rb_display :: "rb_node \<Rightarrow> nat \<Rightarrow> outs" where
  "rb_display RbNil space = []"
| "rb_display (RbNode c k l r) space =
     rb_display r (space + 6) @
     [Txt ''\<newline>'', Txt (replicate space CHR '' ''), Num k, Txt (if c = RED then ''(R)\<newline>'' else ''(B)\<newline>'')] @
     rb_display l (space + 6)"

definition rb_displayTree :: "rb_node \<Rightarrow> outs" where
  "rb_displayTree root = (if root = RbNil then [Txt ''[empty]\<newline>''] else rb_display root 0)"

text \<open>
  \<^verbatim>\<open>main\<close>, with the numbers that \<^verbatim>\<open>scanf\<close> reads as arguments. The conversion \<^verbatim>\<open>%c\<close> of the constants \<^verbatim>\<open>'Red'\<close> and
  \<^verbatim>\<open>'Black'\<close> prints their last characters.
\<close>

definition rb_main :: "int list \<Rightarrow> int \<Rightarrow> int \<Rightarrow> outs res" where
  "rb_main vals keyToBeSearched keyToBeDeleted =
     bindE (foldE rb_insert vals RbNil) (\<lambda>root.
     bindE (rb_delete root keyToBeDeleted) (\<lambda>root'.
     Inr ([Txt ''Enter number of inputs: '', Txt ''Enter '', Num (int (length vals)), Txt '' values:\<newline>'',
           Txt ''\<newline>Red-Black Tree (key(color)):\<newline>''] @ rb_displayTree root @ [Txt ''\<newline>Enter key to search: ''] @
          (let found = rb_search root keyToBeSearched
           in if found \<noteq> RbNil
              then [Txt ''Key '', Num keyToBeSearched, Txt '' is found, and its ('', Txt (if rb_color found = RED then ''d'' else ''k''), Txt '') in color.\<newline>'']
              else [Txt ''Key '', Num keyToBeSearched, Txt '' is not found.\<newline>'']) @
          [Txt ''\<newline>Enter key to delete: '', Txt ''\<newline>After deletion:\<newline>''] @ rb_displayTree root')))"

section \<open>The red-black invariant\<close>

fun rb_inorder :: "rb_node \<Rightarrow> int list" where
  "rb_inorder RbNil = []"
| "rb_inorder (RbNode c k l r) = rb_inorder l @ k # rb_inorder r"

text \<open>Every path has \<open>n\<close> black nodes and a red node has black children.\<close>

fun rb_ok :: "rb_node \<Rightarrow> nat \<Rightarrow> bool" where
  "rb_ok RbNil n \<longleftrightarrow> n = 0"
| "rb_ok (RbNode RED k l r) n \<longleftrightarrow> rb_ok l n \<and> rb_ok r n \<and> rb_color l = BLACK \<and> rb_color r = BLACK"
| "rb_ok (RbNode BLACK k l r) n \<longleftrightarrow> (\<exists>m. n = Suc m \<and> rb_ok l m \<and> rb_ok r m)"

text \<open>The path around a hole for a subtree of black height \<open>n\<close>; the root is black.\<close>

definition rb_above :: "rb_path \<Rightarrow> rb_col" where
  "rb_above p = (case p of [] \<Rightarrow> BLACK | (d, c, k, s) # q \<Rightarrow> c)"

lemma rb_above_simps [simp]: "rb_above [] = BLACK" "rb_above ((d, c, k, s) # p) = c"
  by (simp_all add: rb_above_def)

fun rb_path_ok :: "rb_path \<Rightarrow> nat \<Rightarrow> bool" where
  "rb_path_ok [] n \<longleftrightarrow> True"
| "rb_path_ok ((d, RED, k, s) # p) n \<longleftrightarrow> rb_ok s n \<and> rb_color s = BLACK \<and> p \<noteq> [] \<and> rb_above p = BLACK \<and> rb_path_ok p n"
| "rb_path_ok ((d, BLACK, k, s) # p) n \<longleftrightarrow> rb_ok s n \<and> rb_path_ok p (Suc n)"

definition rb_at :: "rb_node \<Rightarrow> rb_path \<Rightarrow> nat \<Rightarrow> bool" where
  "rb_at t p n \<longleftrightarrow> rb_ok t n \<and> rb_path_ok p n \<and> (rb_above p = RED \<or> p = [] \<longrightarrow> rb_color t = BLACK)"

definition rb_balanced :: "rb_node \<Rightarrow> bool" where
  "rb_balanced t \<longleftrightarrow> (\<exists>n. rb_ok t n) \<and> rb_color t = BLACK"

lemma rb_color_plug [simp]: "rb_color (rb_plug d c k t s) = c"
  by (cases d) simp_all

lemma rb_ok_plug [simp]:
  "rb_ok (rb_plug d RED k t s) n \<longleftrightarrow> rb_ok t n \<and> rb_ok s n \<and> rb_color t = BLACK \<and> rb_color s = BLACK"
  "rb_ok (rb_plug d BLACK k t s) n \<longleftrightarrow> (\<exists>m. n = Suc m \<and> rb_ok t m \<and> rb_ok s m)"
  by (cases d; auto)+

lemma rb_zip_balanced: "rb_at t p n \<Longrightarrow> rb_balanced (rb_zip t p)"
proof (induction p arbitrary: t n)
  case Nil
  then show ?case by (auto simp: rb_at_def rb_balanced_def)
next
  case (Cons e p)
  obtain d c k s where e: "e = (d, c, k, s)" by (cases e)
  show ?case
  proof (cases c)
    case RED
    then have "rb_at (rb_plug d c k t s) p n" using Cons.prems e by (auto simp: rb_at_def)
    from Cons.IH [OF this] show ?thesis by (simp add: e)
  next
    case BLACK
    then have "rb_at (rb_plug d c k t s) p (Suc n)" using Cons.prems e by (auto simp: rb_at_def)
    from Cons.IH [OF this] show ?thesis by (simp add: e)
  qed
qed

lemma rb_paint_black: "rb_color t = BLACK \<Longrightarrow> rb_paint BLACK t = t"
  by (cases t) simp_all

lemma rb_inorder_paint [simp]: "rb_inorder (rb_paint c t) = rb_inorder t"
  by (cases t) simp_all

lemma rb_finish: "rb_at t p n \<Longrightarrow> rb_balanced (rb_paint BLACK (rb_zip t p)) \<and> rb_inorder (rb_paint BLACK (rb_zip t p)) = rb_inorder (rb_zip t p)"
  using rb_zip_balanced [of t p n] by (simp add: rb_balanced_def rb_paint_black)

section \<open>Insertion keeps the invariant\<close>

lemma rb_insert_rotate:
  assumes "rb_ok z n" "rb_color z = RED" "rb_ok s1 n" "rb_color s1 = BLACK" "rb_ok s2 n" "rb_color s2 = BLACK"
  shows "\<exists>y top. (if d1 \<noteq> d2 then rb_rotate d2 (rb_plug d1 RED k1 z s1) else Inr (rb_plug d1 RED k1 z s1)) = Inr y \<and>
    rb_rotate (rb_other d2) (rb_plug d2 RED k2 (rb_paint BLACK y) s2) = Inr top \<and> rb_ok top (Suc n) \<and> rb_color top = BLACK \<and>
    rb_inorder top = rb_inorder (rb_plug d2 BLACK k2 (rb_plug d1 RED k1 z s1) s2)"
proof -
  obtain k a b where "z = RbNode RED k a b" using assms(2) by (cases z) auto
  then show ?thesis using assms by (cases d1; cases d2) auto
qed

text \<open>The keys before and after a hole.\<close>

fun rb_before :: "rb_path \<Rightarrow> int list" where
  "rb_before [] = []"
| "rb_before ((LeftOf, c, k, s) # p) = rb_before p"
| "rb_before ((RightOf, c, k, s) # p) = rb_before p @ rb_inorder s @ [k]"

fun rb_after :: "rb_path \<Rightarrow> int list" where
  "rb_after [] = []"
| "rb_after ((LeftOf, c, k, s) # p) = k # rb_inorder s @ rb_after p"
| "rb_after ((RightOf, c, k, s) # p) = rb_after p"

lemma rb_inorder_zip: "rb_inorder (rb_zip t p) = rb_before p @ rb_inorder t @ rb_after p"
proof (induction t p rule: rb_zip.induct)
  case (2 t d c k s p)
  then show ?case by (cases d) simp_all
qed simp

lemma rb_insertFixup_ok:
  assumes "rb_ok z n" and "rb_color z = RED" and "rb_path_ok p n"
  shows "\<exists>t. rb_insertFixup z p = Inr t \<and> rb_balanced t \<and> rb_inorder t = rb_inorder (rb_zip z p)"
  using assms
proof (induction z p arbitrary: n rule: rb_insertFixup.induct)
  case (1 z)
  have "rb_ok (rb_paint BLACK z) (Suc n)" using 1 by (cases z) auto
  moreover have "rb_color (rb_paint BLACK z) = BLACK" by (cases z) auto
  ultimately show ?case by (auto simp: rb_balanced_def)
next
  case (2 z d1 c1 k1 s1)
  then have "c1 = BLACK" by (cases c1) auto
  then have "rb_at z [(d1, c1, k1, s1)] n" using 2 by (simp add: rb_at_def)
  from rb_finish [OF this] show ?case using \<open>c1 = BLACK\<close> by simp
next
  case (3 z d1 c1 k1 s1 d2 c2 k2 s2 p)
  show ?case
  proof (cases c1)
    case BLACK
    then have "rb_at z ((d1, c1, k1, s1) # (d2, c2, k2, s2) # p) n" using 3 by (simp add: rb_at_def)
    from rb_finish [OF this] show ?thesis using BLACK by simp
  next
    case RED
    then have c2: "c2 = BLACK" and ok: "rb_ok s1 n" "rb_color s1 = BLACK" "rb_ok s2 n" "rb_path_ok p (Suc n)"
      using 3 by (cases c2; auto)+
    show ?thesis
    proof (cases "rb_color s2")
      case RED2: RED
      then have s2: "rb_ok (rb_paint BLACK s2) (Suc n)" "rb_color (rb_paint BLACK s2) = BLACK" using ok(3) by (cases s2; auto)+
      let ?g = "rb_plug d2 RED k2 (rb_plug d1 BLACK k1 z s1) (rb_paint BLACK s2)"
      have "\<exists>t. rb_insertFixup ?g p = Inr t \<and> rb_balanced t \<and> rb_inorder t = rb_inorder (rb_zip ?g p)"
        using RED RED2 s2 ok 3 by (intro 3(1)) auto
      then show ?thesis using RED RED2 by (cases d1; cases d2) (auto simp: rb_inorder_zip)
    next
      case BLACK
      from rb_insert_rotate [OF 3(2,3) ok(1,2,3) BLACK, of d1 d2 k1 k2] obtain y top where
        r: "(if d1 \<noteq> d2 then rb_rotate d2 (rb_plug d1 RED k1 z s1) else Inr (rb_plug d1 RED k1 z s1)) = Inr y"
        "rb_rotate (rb_other d2) (rb_plug d2 RED k2 (rb_paint BLACK y) s2) = Inr top" "rb_ok top (Suc n)" "rb_color top = BLACK"
        "rb_inorder top = rb_inorder (rb_plug d2 BLACK k2 (rb_plug d1 RED k1 z s1) s2)" by blast
      have "rb_at top p (Suc n)" using r ok(4) by (simp add: rb_at_def)
      from rb_finish [OF this] show ?thesis using RED BLACK c2 r by (simp add: rb_inorder_zip)
    qed
  qed
qed

section \<open>Deletion keeps the invariant\<close>

text \<open>A subtree that is one black node short: black, or red at its root and black once repainted.\<close>

definition rb_short :: "rb_node \<Rightarrow> nat \<Rightarrow> bool" where
  "rb_short x n \<longleftrightarrow> (if rb_color x = BLACK then rb_ok x n else rb_ok (rb_left x) n \<and> rb_ok (rb_right x) n)"

lemma rb_short_paint: "rb_short x n \<Longrightarrow> rb_color x = RED \<Longrightarrow> rb_ok (rb_paint BLACK x) (Suc n) \<and> rb_color (rb_paint BLACK x) = BLACK"
  by (cases x) (auto simp: rb_short_def)

lemma rb_delete_sibling_ok:
  assumes "rb_path_ok (e # p) (Suc n)"
  obtains d c k w q where "rb_delete_sibling e = (d, c, k, w) # q" "rb_color w = BLACK" "rb_path_ok ((d, c, k, w) # q @ p) (Suc n)"
    "\<forall>x. rb_inorder (rb_zip x ((d, c, k, w) # q @ p)) = rb_inorder (rb_zip x (e # p))"
proof -
  obtain d c k w where e: "e = (d, c, k, w)" by (cases e)
  show ?thesis
  proof (cases "rb_color w")
    case RED
    then obtain kw a b where w: "w = RbNode RED kw a b" by (cases w) auto
    then have "c = BLACK" using assms e by (cases c) auto
    with that [of d RED k "rb_child d w" "[(d, BLACK, kw, rb_child (rb_other d) w)]"] show ?thesis
      using assms e w by (cases d) (auto simp: rb_delete_sibling_def rb_inorder_zip)
  next
    case BLACK
    with that [of d c k w "[]"] show ?thesis using assms e by (simp add: rb_delete_sibling_def)
  qed
qed

lemma rb_delete_rotate_ok:
  assumes "rb_ok x n" "rb_color x = BLACK" "rb_ok w (Suc n)" "rb_color w = BLACK"
    and "\<not> (rb_color (rb_left w) = BLACK \<and> rb_color (rb_right w) = BLACK)"
  shows "\<exists>top. rb_delete_rotate d c k x w = Inr top \<and> rb_ok top (if c = BLACK then Suc (Suc n) else Suc n) \<and> rb_color top = c \<and>
    rb_inorder top = rb_inorder (rb_plug d c k x w)"
proof -
  obtain kw a b where w: "w = RbNode BLACK kw a b" "rb_ok a n" "rb_ok b n" using assms(3,4) by (cases w) auto
  show ?thesis
  proof (cases "rb_color (rb_child (rb_other d) w)")
    case RED
    then show ?thesis using assms w by (cases d; cases c; cases a; cases b) (auto simp: rb_delete_rotate_def)
  next
    case BLACK
    then have "rb_color (rb_child d w) = RED" using assms(5) w(1) by (cases d; cases "rb_color a"; cases "rb_color b") auto
    then show ?thesis using BLACK assms w by (cases d; cases c; cases "rb_child d w") (auto simp: rb_delete_rotate_def)
  qed
qed

lemma rb_deleteFixup_ok:
  assumes "rb_short x n" and "rb_path_ok p (Suc n)"
  shows "\<exists>t. rb_deleteFixup x p = Inr t \<and> rb_balanced t \<and> rb_inorder t = rb_inorder (rb_zip x p)"
  using assms
proof (induction x p arbitrary: n rule: rb_deleteFixup.induct)
  case (1 x)
  have "\<exists>m. rb_ok (rb_paint BLACK x) m" "rb_color (rb_paint BLACK x) = BLACK"
    using 1 rb_short_paint [of x n] by (cases "rb_color x"; auto simp: rb_short_def rb_paint_black)+
  then show ?case by (simp add: rb_balanced_def)
next
  case (2 x e p)
  show ?case
  proof (cases "rb_color x")
    case RED
    then have "rb_at (rb_paint BLACK x) (e # p) (Suc n)" using rb_short_paint [OF 2(2)] 2(3) by (simp add: rb_at_def)
    from rb_zip_balanced [OF this] show ?thesis using RED by (simp add: rb_inorder_zip)
  next
    case BLACK
    then have x: "rb_ok x n" using 2(2) by (simp add: rb_short_def)
    obtain d c k w q where s: "rb_delete_sibling e = (d, c, k, w) # q" "rb_color w = BLACK" "rb_path_ok ((d, c, k, w) # q @ p) (Suc n)"
      "\<forall>x. rb_inorder (rb_zip x ((d, c, k, w) # q @ p)) = rb_inorder (rb_zip x (e # p))"
      by (rule rb_delete_sibling_ok [OF 2(3)])
    have w: "rb_ok w (Suc n)" "w \<noteq> RbNil" using s(3) by (cases c; auto)+
    have up: "rb_path_ok (q @ p) (if c = BLACK then Suc (Suc n) else Suc n)" "c = RED \<Longrightarrow> q @ p \<noteq> [] \<and> rb_above (q @ p) = BLACK"
      using s(3) by (cases c; auto)+
    show ?thesis
    proof (cases "rb_color (rb_left w) = BLACK \<and> rb_color (rb_right w) = BLACK")
      case True
      let ?f = "rb_plug d c k x (rb_paint RED w)"
      have "rb_ok (rb_paint RED w) n" using w s(2) True by (cases w) auto
      then have "rb_short ?f (if c = BLACK then Suc n else n)" using x BLACK by (cases c; cases d) (auto simp: rb_short_def)
      with up(1) have "\<exists>t. rb_deleteFixup ?f (q @ p) = Inr t \<and> rb_balanced t \<and> rb_inorder t = rb_inorder (rb_zip ?f (q @ p))"
        using BLACK s(1) w(2) True by (intro 2(1) [OF _ s(1) refl refl refl, of "if c = BLACK then Suc n else n"]) (auto split: if_splits)
      moreover have "rb_inorder (rb_zip ?f (q @ p)) = rb_inorder (rb_zip x (e # p))"
        unfolding s(4) [rule_format, symmetric] by (cases d) (simp_all add: rb_inorder_zip)
      ultimately show ?thesis using BLACK s(1) w(2) True by simp
    next
      case False
      from rb_delete_rotate_ok [OF x BLACK w(1) s(2) False] obtain top where
        top: "rb_delete_rotate d c k x w = Inr top" "rb_ok top (if c = BLACK then Suc (Suc n) else Suc n)" "rb_color top = c"
          "rb_inorder top = rb_inorder (rb_plug d c k x w)" by blast
      have at: "rb_at top (q @ p) (if c = BLACK then Suc (Suc n) else Suc n)" using top up by (cases c) (auto simp: rb_at_def)
      have "rb_inorder (rb_zip top (q @ p)) = rb_inorder (rb_zip x (e # p))"
        unfolding s(4) [rule_format, symmetric] using top(4) by (simp add: rb_inorder_zip)
      then show ?thesis using rb_finish [OF at] BLACK s(1) w(2) False top(1) by auto
    qed
  qed
qed

lemma rb_finish_delete_ok:
  assumes "rb_path_ok p n" and "c = RED \<Longrightarrow> rb_ok x n \<and> rb_color x = BLACK" and "c = BLACK \<Longrightarrow> \<exists>m. n = Suc m \<and> rb_ok x m"
  shows "\<exists>t. rb_finish_delete c x p = Inr t \<and> rb_balanced t \<and> rb_inorder t = rb_inorder (rb_zip x p)"
proof (cases c)
  case RED
  then have "rb_at x p n" using assms by (simp add: rb_at_def)
  then show ?thesis using RED rb_zip_balanced by (auto simp: rb_finish_delete_def)
next
  case BLACK
  then obtain m where m: "n = Suc m" "rb_ok x m" using assms(3) by blast
  then have "rb_short x m" by (cases x; cases "rb_ncolor x") (auto simp: rb_short_def)
  with rb_deleteFixup_ok [of x m p] assms(1) m(1) BLACK show ?thesis by (simp add: rb_finish_delete_def)
qed

section \<open>Descents\<close>

lemma rb_at_down:
  assumes "rb_at (RbNode c k l r) p n"
  shows "\<exists>m. rb_at l ((LeftOf, c, k', r) # p) m" "\<exists>m. rb_at r ((RightOf, c, k', l) # p) m"
proof -
  have "rb_at l ((LeftOf, c, k', r) # p) (if c = RED then n else n - 1) \<and> rb_at r ((RightOf, c, k', l) # p) (if c = RED then n else n - 1)"
    using assms by (cases c; cases "rb_above p") (auto simp: rb_at_def)
  then show "\<exists>m. rb_at l ((LeftOf, c, k', r) # p) m" "\<exists>m. rb_at r ((RightOf, c, k', l) # p) m" by blast+
qed

lemma rb_descend_ok:
  assumes "rb_descend t key p = Some q" and "rb_at t p n" and "strict_sorted (rb_before p @ rb_inorder t @ rb_after p)"
    and "\<forall>x\<in>set (rb_before p). x < key" and "\<forall>x\<in>set (rb_after p). key < x"
  shows "(\<exists>m. rb_at RbNil q m) \<and> rb_before q @ rb_after q = rb_before p @ rb_inorder t @ rb_after p \<and>
    (\<forall>x\<in>set (rb_before q). x < key) \<and> (\<forall>x\<in>set (rb_after q). key < x)"
  using assms
proof (induction t key p arbitrary: n rule: rb_descend.induct)
  case (2 c k l r key p)
  consider "key < k" | "key > k" using 2(3) by (auto split: if_splits)
  then show ?case
  proof cases
    case 1
    obtain m where "rb_at l ((LeftOf, c, k, r) # p) m" using rb_at_down(1) [OF 2(4)] by blast
    moreover have "\<forall>x\<in>set (rb_inorder r). key < x" using 2(5) 1 by (auto simp: sorted_wrt_append intro: less_trans)
    ultimately show ?thesis using 2(1) [of m] 2(3,5,6,7) 1 by auto
  next
    case r: 2
    obtain m where "rb_at r ((RightOf, c, k, l) # p) m" using rb_at_down(2) [OF 2(4)] by blast
    moreover have "\<forall>x\<in>set (rb_inorder l). x < key" using 2(5) r by (auto simp: sorted_wrt_append intro: less_trans)
    ultimately show ?thesis using 2(2) [of m] 2(3,5,6,7) r by auto
  qed
qed auto

lemma rb_descend_None: "rb_descend t key p = None \<Longrightarrow> key \<in> set (rb_inorder t)"
  by (induction t key p rule: rb_descend.induct) (auto split: if_splits)

lemma rb_find_ok:
  assumes "rb_find t key p = (z, q)" and "rb_at t p n" and "strict_sorted (rb_inorder t)"
  shows "(\<exists>m. rb_at z q m) \<and> rb_before q @ rb_inorder z @ rb_after q = rb_before p @ rb_inorder t @ rb_after p \<and>
    (if z = RbNil then key \<notin> set (rb_inorder t) else rb_key z = key)"
  using assms
proof (induction t key p arbitrary: n rule: rb_find.induct)
  case (2 c k l r key p)
  obtain m m' where "rb_at l ((LeftOf, c, k, r) # p) m" "rb_at r ((RightOf, c, k, l) # p) m'"
    using rb_at_down [OF 2(4)] by blast
  moreover have "strict_sorted (rb_inorder l)" "strict_sorted (rb_inorder r)" "\<forall>x\<in>set (rb_inorder l). x < k" "\<forall>x\<in>set (rb_inorder r). k < x"
    using 2(5) by (auto simp: sorted_wrt_append)
  ultimately show ?case using 2(1) [of m] 2(2) [of m'] 2(3,4) by (auto split: if_splits)
qed auto

lemma rb_search_ok: "strict_sorted (rb_inorder t) \<Longrightarrow> rb_search t key \<noteq> RbNil \<longleftrightarrow> key \<in> set (rb_inorder t)"
  by (induction t key rule: rb_search.induct) (auto simp: sorted_wrt_append)

lemma rb_treeMinimum_append: "rb_treeMinimum t (p @ p') = (fst (rb_treeMinimum t p), snd (rb_treeMinimum t p) @ p')"
  by (induction t p rule: rb_treeMinimum.induct) simp_all

lemma rb_treeMinimum_ok:
  assumes "rb_treeMinimum t p = (y, q)" and "t \<noteq> RbNil"
  shows "\<exists>c k r. y = RbNode c k RbNil r \<and> rb_inorder t @ rb_after p = k # rb_inorder r @ rb_after q \<and> rb_before q = rb_before p \<and>
    (\<forall>n. rb_at t p n \<longrightarrow> (\<exists>m. rb_at y q m))"
  using assms
proof (induction t p rule: rb_treeMinimum.induct)
  case (1 c k c' k' a b r p)
  then show ?case using rb_at_down(1) [of c k "RbNode c' k' a b" r p] by fastforce
qed auto

section \<open>The red-black tree as a set\<close>

definition rb_inv :: "rb_node \<Rightarrow> bool" where
  "rb_inv t \<longleftrightarrow> rb_balanced t \<and> strict_sorted (rb_inorder t)"

lemma rb_inv_at: "rb_inv t \<Longrightarrow> \<exists>n. rb_at t [] n"
  by (auto simp: rb_inv_def rb_balanced_def rb_at_def)

lemma rb_insert_ok:
  assumes "rb_inv t"
  shows "\<exists>t'. rb_insert t key = Inr t' \<and> rb_inv t' \<and> set (rb_inorder t') = insert key (set (rb_inorder t))"
proof (cases "rb_descend t key []")
  case None
  then show ?thesis using assms rb_descend_None [OF None] by (auto simp: rb_insert_def)
next
  case (Some q)
  obtain n where n: "rb_at t [] n" using rb_inv_at [OF assms] by blast
  have s: "strict_sorted (rb_before [] @ rb_inorder t @ rb_after [])" using assms by (simp add: rb_inv_def)
  have "(\<exists>m. rb_at RbNil q m) \<and> rb_before q @ rb_after q = rb_inorder t \<and> (\<forall>x\<in>set (rb_before q). x < key) \<and> (\<forall>x\<in>set (rb_after q). key < x)"
    using rb_descend_ok [OF Some n s] by simp
  then obtain m where
    q: "rb_at RbNil q m" "rb_before q @ rb_after q = rb_inorder t" "\<forall>x\<in>set (rb_before q). x < key" "\<forall>x\<in>set (rb_after q). key < x"
    by blast
  have new: "rb_ok (rb_newNode key) m" "rb_color (rb_newNode key) = RED" "rb_path_ok q m" "rb_inorder (rb_newNode key) = [key]"
    using q(1) by (auto simp: rb_at_def rb_newNode_def)
  from rb_insertFixup_ok [OF new(1,2,3)] new(4) obtain t' where
    t': "rb_insertFixup (rb_newNode key) q = Inr t'" "rb_balanced t'" "rb_inorder t' = rb_before q @ key # rb_after q"
    unfolding rb_inorder_zip by fastforce
  moreover have "strict_sorted (rb_before q @ rb_after q)" using s q(2) by simp
  then have "strict_sorted (rb_inorder t')" using q(3,4) t'(3) by (simp add: strict_sorted_mid sorted_wrt_append)
  moreover have "set (rb_inorder t') = insert key (set (rb_inorder t))" using t'(3) unfolding q(2) [symmetric] by auto
  ultimately show ?thesis using Some by (simp add: rb_insert_def rb_inv_def)
qed

lemma rb_remove_ok:
  assumes "rb_at (RbNode c k l r) p n"
  shows "\<exists>t. rb_remove c l r p = Inr t \<and> rb_balanced t \<and> rb_inorder t = rb_before p @ rb_inorder l @ rb_inorder r @ rb_after p"
proof -
  have one: "\<exists>t. rb_finish_delete c x p = Inr t \<and> rb_balanced t \<and> rb_inorder t = rb_inorder (rb_zip x p)"
    if "rb_at (RbNode c k l r) p n" "x = l \<or> x = r" for c k l r x p n
    using that by (intro rb_finish_delete_ok [of p n]) (cases c; auto simp: rb_at_def)+
  consider "l = RbNil" | "l \<noteq> RbNil" "r = RbNil" | "l \<noteq> RbNil" "r \<noteq> RbNil" by blast
  then show ?thesis
  proof cases
    case 3
    obtain y q where y: "rb_treeMinimum r [] = (y, q)" by (cases "rb_treeMinimum r []")
    from rb_treeMinimum_ok [OF this 3(2)] obtain cy ky yr where
      m: "y = RbNode cy ky RbNil yr" "rb_inorder r = ky # rb_inorder yr @ rb_after q" "rb_before q = []" by auto
    let ?p = "(RightOf, c, ky, l) # p"
    have y': "rb_treeMinimum r ?p = (y, q @ ?p)" using rb_treeMinimum_append [of r "[]" ?p] y by simp
    obtain m' where "rb_at r ?p m'" using rb_at_down(2) [OF assms] by blast
    with rb_treeMinimum_ok [OF y' 3(2)] obtain m'' where "rb_at (RbNode cy ky RbNil yr) (q @ ?p) m''" using m(1) by blast
    from one [OF this, of yr] obtain t where
      t: "rb_finish_delete cy yr (q @ ?p) = Inr t" "rb_balanced t" "rb_inorder t = rb_inorder (rb_zip yr (q @ ?p))" by auto
    have app: "rb_before (q @ ?p) = rb_before ?p @ rb_before q" "rb_after (q @ ?p) = rb_after q @ rb_after ?p"
      by (induction q rule: rb_before.induct) simp_all
    show ?thesis using 3 y t m app by (simp add: rb_remove_def rb_inorder_zip)
  qed (use one [OF assms] in \<open>auto simp: rb_remove_def rb_inorder_zip\<close>)
qed

lemma rb_delete_ok:
  assumes "rb_inv t"
  shows "\<exists>t'. rb_delete t key = Inr t' \<and> rb_inv t' \<and> set (rb_inorder t') = set (rb_inorder t) - {key}"
proof -
  obtain n where n: "rb_at t [] n" using rb_inv_at [OF assms] by blast
  have s: "strict_sorted (rb_inorder t)" using assms by (simp add: rb_inv_def)
  obtain z p where f: "rb_find t key [] = (z, p)" by (cases "rb_find t key []")
  note r = rb_find_ok [OF f n s]
  show ?thesis
  proof (cases z)
    case RbNil
    then show ?thesis using f r assms by (simp add: rb_delete_def)
  next
    case (RbNode c k l r')
    with r obtain m where "rb_at (RbNode c k l r') p m" and k: "k = key"
      and io: "rb_inorder t = rb_before p @ (rb_inorder l @ key # rb_inorder r') @ rb_after p" by auto
    from rb_remove_ok [OF this(1)] obtain t' where
      t': "rb_remove c l r' p = Inr t'" "rb_balanced t'" "rb_inorder t' = rb_before p @ rb_inorder l @ rb_inorder r' @ rb_after p" by blast
    have mid: "strict_sorted ((rb_before p @ rb_inorder l) @ key # (rb_inorder r' @ rb_after p))" using s io by simp
    then have "strict_sorted (rb_inorder t')" unfolding t'(3) by (simp add: sorted_wrt_append)
    moreover have "set (rb_inorder t') = set (rb_inorder t) - {key}"
      using mid unfolding strict_sorted_mid t'(3) io by auto
    ultimately
    show ?thesis using t'(1,2) f RbNode by (simp add: rb_delete_def rb_inv_def)
  qed
qed

interpretation rb: ordered_set_del RbNil rb_insert "\<lambda>t k. rb_search t k \<noteq> RbNil" rb_inorder rb_inv rb_delete
proof
  show "rb_inv RbNil" by (simp add: rb_inv_def rb_balanced_def)
qed (use rb_insert_ok rb_delete_ok rb_search_ok in \<open>auto simp: rb_inv_def\<close>)

text \<open>The height is at most twice the black height, which is logarithmic in the number of keys.\<close>

primrec rb_height :: "rb_node \<Rightarrow> nat" where
  "rb_height RbNil = 0"
| "rb_height (RbNode c k l r) = Suc (max (rb_height l) (rb_height r))"

lemma rb_size_bound: "rb_ok t n \<Longrightarrow> 2 ^ n \<le> Suc (length (rb_inorder t))"
proof (induction t n rule: rb_ok.induct)
  case (3 k l r n)
  then obtain m where "n = Suc m" "2 ^ m \<le> Suc (length (rb_inorder l))" "2 ^ m \<le> Suc (length (rb_inorder r))" by auto
  then show ?case by simp
qed auto

lemma rb_height_bound: "rb_ok t n \<Longrightarrow> rb_height t \<le> 2 * n + (if rb_color t = RED then 1 else 0)"
proof (induction t n rule: rb_ok.induct)
  case (3 k l r n)
  then obtain m where "n = Suc m" "rb_height l \<le> 2 * m + (if rb_color l = RED then 1 else 0)"
    "rb_height r \<le> 2 * m + (if rb_color r = RED then 1 else 0)" by auto
  then show ?case by (auto split: if_splits)
qed auto

lemma rb_height_log:
  assumes "rb_balanced t"
  shows "2 ^ ((rb_height t + 1) div 2) \<le> Suc (length (rb_inorder t))"
proof -
  obtain n where n: "rb_ok t n" "rb_color t = BLACK" using assms by (auto simp: rb_balanced_def)
  then have "(rb_height t + 1) div 2 \<le> n" using rb_height_bound [OF n(1)] by simp
  then have "2 ^ ((rb_height t + 1) div 2) \<le> (2 :: nat) ^ n" by (rule power_increasing) simp
  with rb_size_bound [OF n(1)] show ?thesis by linarith
qed

text \<open>
  C3. The red-black tree is a balanced set. Insertion and deletion, of any keys in any order, never touch the sentinel
  as if it were a node and always end; after them the tree is balanced: the root is black, no red node has a red child, all
  paths have the same number of black nodes, and the height is logarithmic. The keys read in order are the
  strictly sorted list of the keys that are in the set.
\<close>

theorem rb_tree_correct:
  "\<exists>root root'. foldE rb_insert ks RbNil = Inr root \<and> rb_balanced root \<and> rb_inorder root = sorted_list_of_set (set ks) \<and>
     (rb_search root key \<noteq> RbNil \<longleftrightarrow> key \<in> set ks) \<and> 2 ^ ((rb_height root + 1) div 2) \<le> Suc (card (set ks)) \<and>
     rb_delete root key = Inr root' \<and> rb_balanced root' \<and> rb_inorder root' = filter (\<lambda>x. x \<noteq> key) (sorted_list_of_set (set ks))"
proof -
  from rb.build_keys [of ks] obtain root where
    r: "foldE rb_insert ks RbNil = Inr root" "rb_inv root" "rb_inorder root = sorted_list_of_set (set ks)" by blast
  from rb.delete_keys [OF r(2), of key] obtain root' where
    d: "rb_delete root key = Inr root'" "rb_inv root'" "rb_inorder root' = filter (\<lambda>x. x \<noteq> key) (rb_inorder root)" by blast
  have "rb_balanced root" "rb_balanced root'" using r(2) d(2) by (simp_all add: rb_inv_def)
  with r d rb.build_member [OF r(1)] rb_height_log [of root] show ?thesis by auto
qed

lemma rb_main_ends: "\<not> isl (rb_main vals s d)"
proof -
  from rb.build_keys [of vals] obtain root where "foldE rb_insert vals RbNil = Inr root" "rb_inv root" by blast
  moreover from this rb_delete_ok [of root d] obtain root' where "rb_delete root d = Inr root'" by blast
  ultimately show ?thesis by (simp add: rb_main_def)
qed

end
