(* ===== verification/PthreadQueue.thy ===== *)
theory PthreadQueue
  imports Prelude
begin

text \<open>
  Bounded queues between threads: \<^verbatim>\<open>Posix-Thread/pthread_db.c\<close> (clients, workers and a shutdown message for
  each worker) and \<^verbatim>\<open>concurrency-and-multithreading/producer_consumer_queue_using_cond_variable.c\<close>.

  Threads interleave between critical sections: one step of a thread runs from the acquisition of the mutex to its
  release, or to the wait on a condition variable. A signal wakes one of the waiting threads, if there is one;
  which one is an argument of the step. A waiting thread may also wake up without a signal, as POSIX allows, which also covers a signal
  that wakes several threads. A woken thread tests its condition again. The delays between operations are left out, and so are
  messages printed outside the critical sections.
\<close>

section \<open>The ring buffer\<close>

text \<open>The array with its indices, as both programs have it: \<^verbatim>\<open>queue/q_head/q_tail/q_count\<close> and \<^verbatim>\<open>buffer/out/in/count\<close>.\<close>

record 'a ringbuf =
  rg_array :: "'a list"
  rg_head :: nat
  rg_tail :: nat
  rg_count :: nat

definition rg_put :: "'a \<Rightarrow> 'a ringbuf \<Rightarrow> 'a ringbuf" where
  "rg_put x q = q\<lparr>rg_array := (rg_array q)[rg_tail q := x], rg_tail := (rg_tail q + 1) mod length (rg_array q), rg_count := rg_count q + 1\<rparr>"

definition rg_get :: "'a ringbuf \<Rightarrow> 'a \<times> 'a ringbuf" where
  "rg_get q = (rg_array q ! rg_head q, q\<lparr>rg_head := (rg_head q + 1) mod length (rg_array q), rg_count := rg_count q - 1\<rparr>)"

definition rg_contents :: "'a ringbuf \<Rightarrow> 'a list" where
  "rg_contents q = map (\<lambda>i. rg_array q ! ((rg_head q + i) mod length (rg_array q))) [0..<rg_count q]"

definition rg_ok :: "nat \<Rightarrow> 'a ringbuf \<Rightarrow> bool" where
  "rg_ok n q \<longleftrightarrow> length (rg_array q) = n \<and> 0 < n \<and> rg_head q < n \<and> rg_count q \<le> n \<and> rg_tail q = (rg_head q + rg_count q) mod n"

lemma rg_length [simp]: "length (rg_contents q) = rg_count q"
  by (simp add: rg_contents_def)

lemma rg_put_ok:
  assumes "rg_ok n q" and "rg_count q < n"
  shows "rg_ok n (rg_put x q)" and "rg_contents (rg_put x q) = rg_contents q @ [x]"
proof -
  have ok: "length (rg_array q) = n" "0 < n" "rg_head q < n" "rg_tail q = (rg_head q + rg_count q) mod n"
    using assms(1) by (auto simp: rg_ok_def)
  have "Suc ((rg_head q + rg_count q) mod n) mod n = Suc (rg_head q + rg_count q) mod n" by (simp add: mod_Suc_eq)
  then show "rg_ok n (rg_put x q)" using assms ok by (simp add: rg_ok_def rg_put_def)
  have other: "rg_tail q \<noteq> (rg_head q + i) mod n" if "i < rg_count q" for i
  proof
    assume "rg_tail q = (rg_head q + i) mod n"
    then have "(rg_head q + rg_count q) mod n = (rg_head q + i) mod n" using ok(4) by simp
    then have "n dvd rg_count q - i" using that by (simp add: mod_eq_dvd_iff_nat)
    then show False using that assms(2) by (auto dest: dvd_imp_le)
  qed
  have "map (\<lambda>i. (rg_array q)[rg_tail q := x] ! ((rg_head q + i) mod n)) [0..<rg_count q] =
      map (\<lambda>i. rg_array q ! ((rg_head q + i) mod n)) [0..<rg_count q]"
    using other by (intro map_cong) auto
  moreover have "rg_tail q < n" using ok by simp
  ultimately show "rg_contents (rg_put x q) = rg_contents q @ [x]"
    using ok by (simp add: rg_contents_def rg_put_def)
qed

lemma rg_get_ok:
  assumes "rg_ok n q" and "0 < rg_count q"
  shows "rg_ok n (snd (rg_get q))" and "rg_contents q = fst (rg_get q) # rg_contents (snd (rg_get q))"
proof -
  have ok: "length (rg_array q) = n" "0 < n" "rg_head q < n" "rg_tail q = (rg_head q + rg_count q) mod n"
    using assms(1) by (auto simp: rg_ok_def)
  have step: "(Suc (rg_head q) mod n + i) mod n = (rg_head q + Suc i) mod n" for i by (simp add: mod_add_left_eq)
  obtain m where m: "rg_count q = Suc m" using assms(2) by (cases "rg_count q") auto
  show "rg_ok n (snd (rg_get q))" using assms ok m step [of m] by (simp add: rg_ok_def rg_get_def)
  show "rg_contents q = fst (rg_get q) # rg_contents (snd (rg_get q))"
    using ok m step by (simp add: rg_contents_def rg_get_def map_upt_Suc del: upt_Suc)
qed

section \<open>Counting threads\<close>

lemma sum_map_update:
  fixes f :: "'a \<Rightarrow> 'b :: comm_monoid_add"
  shows "i < length xs \<Longrightarrow> sum_list (map f (xs[i := y])) + f (xs ! i) = sum_list (map f xs) + f y"
proof (induction xs arbitrary: i)
  case (Cons x xs)
  then show ?case by (cases i) (auto simp: ac_simps)
qed simp

definition cnt :: "('a \<Rightarrow> bool) \<Rightarrow> 'a list \<Rightarrow> nat" where
  "cnt P xs = sum_list (map (\<lambda>x. of_bool (P x)) xs)"

lemma cnt_update: "i < length xs \<Longrightarrow> cnt P (xs[i := y]) + of_bool (P (xs ! i)) = cnt P xs + of_bool (P y)"
  unfolding cnt_def by (rule sum_map_update)

lemma cnt_update_le: "i < length xs \<Longrightarrow> cnt P (xs[i := y]) \<le> Suc (cnt P xs)"
  using cnt_update [of i xs P y] by (cases "P y") simp_all

lemma cnt_pos: "0 < cnt P xs \<longleftrightarrow> (\<exists>x\<in>set xs. P x)"
  by (induction xs) (auto simp: cnt_def)

lemma cnt_le: "cnt P xs \<le> length xs"
  by (induction xs) (auto simp: cnt_def)

lemma cnt_all: "cnt P xs = length xs \<longleftrightarrow> (\<forall>x\<in>set xs. P x)"
proof (induction xs)
  case (Cons x xs)
  then show ?case using cnt_le [of P xs] by (auto simp: cnt_def)
qed (simp add: cnt_def)

lemma cnt_append [simp]: "cnt P (xs @ ys) = cnt P xs + cnt P ys"
  by (simp add: cnt_def)

lemma cnt_replicate [simp]: "cnt P (replicate n x) = n * of_bool (P x)"
  by (simp add: cnt_def sum_list_replicate)

lemma cnt_simps [simp]: "cnt P [] = 0" "cnt P (x # xs) = of_bool (P x) + cnt P xs"
  by (simp_all add: cnt_def)

text \<open>\<^verbatim>\<open>pthread_cond_signal\<close>: thread \<open>i\<close>, which must be waiting, wakes up; nothing happens if nobody waits.\<close>

definition cond_signal :: "('t \<Rightarrow> bool) \<Rightarrow> ('t \<Rightarrow> 't) \<Rightarrow> nat \<Rightarrow> 't list \<Rightarrow> 't list option" where
  "cond_signal waiting wake i ts =
     (if \<not> list_ex waiting ts then Some ts
      else if i < length ts \<and> waiting (ts ! i) then Some (ts[i := wake (ts ! i)])
      else None)"

section \<open>The request queue with shutdown\<close>

definition QUEUE_SIZE :: nat where "QUEUE_SIZE = 8"
definition MAX_CLIENTS :: nat where "MAX_CLIENTS = 3"
definition WORKER_COUNT :: nat where "WORKER_COUNT = 4"
definition REQUESTS_PER_CLIENT :: nat where "REQUESTS_PER_CLIENT = 5"

record request_t =
  req_id :: int
  req_text :: outs

definition pq_shutdown :: request_t where
  "pq_shutdown = \<lparr>req_id = -1, req_text = []\<rparr>"

text \<open>
  What a thread that produces requests is about to do. A client takes a number for its request \<open>i\<close>
  (\<open>PIdle i\<close>), then enqueues it; \<^verbatim>\<open>main\<close> waits for the clients (\<open>PJoin\<close>), enqueues the shutdown messages and
  waits for the workers.
\<close>

datatype pq_producer = PIdle nat | PSend nat request_t | PWait nat request_t | PJoin | PJoinWorkers | PDone

datatype pq_worker = WReady | WWait | WExit

text \<open>
  The shared state, the producers (the clients, then \<^verbatim>\<open>main\<close>) and the workers; the last two fields record what was
  enqueued and what the workers received.
\<close>

record pq_state =
  pq_queue :: "request_t ringbuf"
  next_request_id :: int
  pq_producers :: "pq_producer list"
  pq_workers :: "pq_worker list"
  pq_sent :: "request_t list"
  pq_received :: "request_t list"

primrec pq_pwaiting :: "pq_producer \<Rightarrow> bool" where
  "pq_pwaiting (PIdle i) \<longleftrightarrow> False"
| "pq_pwaiting (PSend i r) \<longleftrightarrow> False"
| "pq_pwaiting (PWait i r) \<longleftrightarrow> True"
| "pq_pwaiting PJoin \<longleftrightarrow> False"
| "pq_pwaiting PJoinWorkers \<longleftrightarrow> False"
| "pq_pwaiting PDone \<longleftrightarrow> False"

fun pq_pwake :: "pq_producer \<Rightarrow> pq_producer" where
  "pq_pwake (PWait i r) = PSend i r"
| "pq_pwake p = p"

text \<open>One critical section of \<^verbatim>\<open>enqueue\<close> by producer \<open>t\<close>; \<open>w\<close> is the worker that a signal would wake.\<close>

definition pq_enqueue :: "nat \<Rightarrow> nat \<Rightarrow> nat \<Rightarrow> request_t \<Rightarrow> pq_producer \<Rightarrow> pq_state \<Rightarrow> pq_state option" where
  "pq_enqueue t w i request after s =
     (if rg_count (pq_queue s) = QUEUE_SIZE then Some (s\<lparr>pq_producers := (pq_producers s)[t := PWait i request]\<rparr>)
      else case cond_signal (\<lambda>x. x = WWait) (\<lambda>x. WReady) w (pq_workers s) of
             None \<Rightarrow> None
           | Some ws \<Rightarrow> Some (s\<lparr>pq_queue := rg_put request (pq_queue s), pq_producers := (pq_producers s)[t := after],
                               pq_workers := ws, pq_sent := pq_sent s @ [request]\<rparr>))"

definition pq_client_request :: "nat \<Rightarrow> nat \<Rightarrow> int \<Rightarrow> request_t" where
  "pq_client_request t i n =
     \<lparr>req_id = n, req_text = [Txt ''Client '', Num (int t + 1), Txt '' request #'', Num (int i + 1)]\<rparr>"

definition pq_client_step :: "nat \<Rightarrow> nat \<Rightarrow> pq_state \<Rightarrow> pq_state option" where
  "pq_client_step t w s =
     (case pq_producers s ! t of
        PIdle i \<Rightarrow>
          Some (s\<lparr>next_request_id := next_request_id s + 1,
                  pq_producers := (pq_producers s)[t := PSend i (pq_client_request t i (next_request_id s))]\<rparr>)
      | PSend i r \<Rightarrow> pq_enqueue t w i r (if i + 1 < REQUESTS_PER_CLIENT then PIdle (i + 1) else PDone) s
      | _ \<Rightarrow> None)"

definition pq_main_step :: "nat \<Rightarrow> pq_state \<Rightarrow> pq_state option" where
  "pq_main_step w s =
     (case pq_producers s ! MAX_CLIENTS of
        PJoin \<Rightarrow>
          if list_all (\<lambda>p. p = PDone) (take MAX_CLIENTS (pq_producers s))
          then Some (s\<lparr>pq_producers := (pq_producers s)[MAX_CLIENTS := PSend 0 pq_shutdown]\<rparr>) else None
      | PSend i r \<Rightarrow> pq_enqueue MAX_CLIENTS w i r (if i + 1 < WORKER_COUNT then PSend (i + 1) pq_shutdown else PJoinWorkers) s
      | PJoinWorkers \<Rightarrow>
          if list_all (\<lambda>x. x = WExit) (pq_workers s)
          then Some (s\<lparr>pq_producers := (pq_producers s)[MAX_CLIENTS := PDone]\<rparr>) else None
      | _ \<Rightarrow> None)"

definition pq_producer_step :: "nat \<Rightarrow> nat \<Rightarrow> pq_state \<Rightarrow> pq_state option" where
  "pq_producer_step t w s = (if t < MAX_CLIENTS then pq_client_step t w s else pq_main_step w s)"

text \<open>
  One critical section of \<^verbatim>\<open>dequeue\<close> by worker \<open>t\<close>, which goes to wait or takes a request; \<open>p\<close> is the producer to wake.
\<close>

definition pq_dequeue :: "nat \<Rightarrow> nat \<Rightarrow> pq_state \<Rightarrow> (request_t option \<times> pq_state) option" where
  "pq_dequeue t p s =
     (if rg_count (pq_queue s) = 0 then Some (None, s\<lparr>pq_workers := (pq_workers s)[t := WWait]\<rparr>)
      else case rg_get (pq_queue s) of
             (r, q) \<Rightarrow>
               (case cond_signal pq_pwaiting pq_pwake p (pq_producers s) of
                  None \<Rightarrow> None
                | Some ps \<Rightarrow> Some (Some r, s\<lparr>pq_queue := q, pq_producers := ps\<rparr>)))"

definition pq_worker_step :: "nat \<Rightarrow> nat \<Rightarrow> pq_state \<Rightarrow> pq_state option" where
  "pq_worker_step t p s =
     (if pq_workers s ! t \<noteq> WReady then None
      else case pq_dequeue t p s of
             None \<Rightarrow> None
           | Some (None, s') \<Rightarrow> Some s'
           | Some (Some r, s') \<Rightarrow>
               Some (s'\<lparr>pq_workers := (pq_workers s')[t := if req_id r = -1 then WExit else WReady],
                        pq_received := pq_received s' @ [r]\<rparr>))"

definition pq_init :: pq_state where
  "pq_init =
     \<lparr>pq_queue = \<lparr>rg_array = replicate QUEUE_SIZE \<lparr>req_id = 0, req_text = []\<rparr>, rg_head = 0, rg_tail = 0, rg_count = 0\<rparr>,
      next_request_id = 1,
      pq_producers = replicate MAX_CLIENTS (PIdle 0) @ [PJoin], pq_workers = replicate WORKER_COUNT WReady,
      pq_sent = [], pq_received = []\<rparr>"

text \<open>A step of a thread that is awake, and a step that may also be a spurious wake-up.\<close>

inductive pq_go :: "pq_state \<Rightarrow> pq_state \<Rightarrow> bool" where
  pq_produce: "t \<le> MAX_CLIENTS \<Longrightarrow> pq_producer_step t w s = Some s' \<Longrightarrow> pq_go s s'"
| pq_consume: "t < WORKER_COUNT \<Longrightarrow> pq_worker_step t p s = Some s' \<Longrightarrow> pq_go s s'"

inductive pq_step :: "pq_state \<Rightarrow> pq_state \<Rightarrow> bool" where
  pq_awake: "pq_go s s' \<Longrightarrow> pq_step s s'"
| pq_spurious_producer: "t < length (pq_producers s) \<Longrightarrow> pq_pwaiting (pq_producers s ! t) \<Longrightarrow>
    pq_step s (s\<lparr>pq_producers := (pq_producers s)[t := pq_pwake (pq_producers s ! t)]\<rparr>)"
| pq_spurious_worker: "t < length (pq_workers s) \<Longrightarrow> pq_workers s ! t = WWait \<Longrightarrow>
    pq_step s (s\<lparr>pq_workers := (pq_workers s)[t := WReady]\<rparr>)"

definition pq_done :: "pq_state \<Rightarrow> bool" where
  "pq_done s \<longleftrightarrow> list_all (\<lambda>p. p = PDone) (pq_producers s) \<and> list_all (\<lambda>x. x = WExit) (pq_workers s)"

section \<open>Steps\<close>

lemmas pq_consts = QUEUE_SIZE_def MAX_CLIENTS_def WORKER_COUNT_def REQUESTS_PER_CLIENT_def

lemma cond_signal_Some:
  assumes "cond_signal waiting wake i ts = Some ts'"
  shows "(\<forall>x\<in>set ts. \<not> waiting x) \<and> ts' = ts \<or> i < length ts \<and> waiting (ts ! i) \<and> ts' = ts[i := wake (ts ! i)]"
  using assms by (auto simp: cond_signal_def list_ex_iff split: if_splits)

lemma cond_signal_total: "\<exists>i ts'. cond_signal waiting wake i ts = Some ts'"
proof (cases "list_ex waiting ts")
  case True
  then obtain i where "i < length ts" "waiting (ts ! i)" by (auto simp: list_ex_iff in_set_conv_nth)
  with True show ?thesis by (auto simp: cond_signal_def)
qed (simp add: cond_signal_def)

definition pq_next :: "nat \<Rightarrow> nat \<Rightarrow> pq_producer" where
  "pq_next t i = (if t < MAX_CLIENTS then (if i + 1 < REQUESTS_PER_CLIENT then PIdle (i + 1) else PDone)
     else (if i + 1 < WORKER_COUNT then PSend (i + 1) pq_shutdown else PJoinWorkers))"

text \<open>The seven kinds of steps.\<close>

lemma pq_go_cases:
  assumes "pq_go s s'"
  obtains
    (TakeId) t i where "t \<le> MAX_CLIENTS" "pq_producers s ! t = PIdle i"
      "s' = s\<lparr>next_request_id := next_request_id s + 1, pq_producers := (pq_producers s)[t := PSend i (pq_client_request t i (next_request_id s))]\<rparr>"
  | (Full) t i r where "t \<le> MAX_CLIENTS" "pq_producers s ! t = PSend i r" "rg_count (pq_queue s) = QUEUE_SIZE"
      "s' = s\<lparr>pq_producers := (pq_producers s)[t := PWait i r]\<rparr>"
  | (Enqueue) t i r w ws where "t \<le> MAX_CLIENTS" "pq_producers s ! t = PSend i r" "rg_count (pq_queue s) \<noteq> QUEUE_SIZE"
      "cond_signal (\<lambda>x. x = WWait) (\<lambda>x. WReady) w (pq_workers s) = Some ws"
      "s' = s\<lparr>pq_queue := rg_put r (pq_queue s), pq_producers := (pq_producers s)[t := pq_next t i], pq_workers := ws, pq_sent := pq_sent s @ [r]\<rparr>"
  | (Joined) t where "t \<le> MAX_CLIENTS" "pq_producers s ! t = PJoin" "list_all (\<lambda>p. p = PDone) (take MAX_CLIENTS (pq_producers s))"
      "s' = s\<lparr>pq_producers := (pq_producers s)[t := PSend 0 pq_shutdown]\<rparr>"
  | (Finish) t where "t \<le> MAX_CLIENTS" "pq_producers s ! t = PJoinWorkers" "list_all (\<lambda>x. x = WExit) (pq_workers s)"
      "s' = s\<lparr>pq_producers := (pq_producers s)[t := PDone]\<rparr>"
  | (Empty) t where "t < WORKER_COUNT" "pq_workers s ! t = WReady" "rg_count (pq_queue s) = 0"
      "s' = s\<lparr>pq_workers := (pq_workers s)[t := WWait]\<rparr>"
  | (Dequeue) t r q p ps where "t < WORKER_COUNT" "pq_workers s ! t = WReady" "rg_count (pq_queue s) \<noteq> 0" "rg_get (pq_queue s) = (r, q)"
      "cond_signal pq_pwaiting pq_pwake p (pq_producers s) = Some ps"
      "s' = s\<lparr>pq_queue := q, pq_producers := ps, pq_workers := (pq_workers s)[t := if req_id r = -1 then WExit else WReady],
              pq_received := pq_received s @ [r]\<rparr>"
  using assms
proof cases
  case (pq_produce t w)
  note step = pq_producer_step_def pq_client_step_def pq_main_step_def
  have main: "t = MAX_CLIENTS" if "\<not> t < MAX_CLIENTS" using that pq_produce(1) by simp
  show ?thesis
  proof (cases "pq_producers s ! t")
    case (PIdle i)
    with pq_produce main show ?thesis by (intro that(1)) (auto simp: step split: if_splits)
  next
    case (PSend i r)
    then have e: "pq_enqueue t w i r (pq_next t i) s = Some s'" using pq_produce(2) main
      by (cases "t < MAX_CLIENTS") (simp_all add: step pq_next_def)
    show ?thesis
    proof (cases "rg_count (pq_queue s) = QUEUE_SIZE")
      case True
      with e show ?thesis by (intro that(2) [OF pq_produce(1) PSend]) (simp_all add: pq_enqueue_def)
    next
      case False
      with e obtain ws where "cond_signal (\<lambda>x. x = WWait) (\<lambda>x. WReady) w (pq_workers s) = Some ws" by (auto simp: pq_enqueue_def split: option.splits)
      with e False show ?thesis by (intro that(3) [OF pq_produce(1) PSend]) (auto simp: pq_enqueue_def)
    qed
  next
    case PJoin
    with pq_produce main show ?thesis by (intro that(4)) (auto simp: step split: if_splits)
  next
    case PJoinWorkers
    with pq_produce main show ?thesis by (intro that(5)) (auto simp: step split: if_splits)
  qed (use pq_produce main in \<open>auto simp: step split: if_splits\<close>)
next
  case (pq_consume t p)
  then have w: "pq_workers s ! t = WReady" by (auto simp: pq_worker_step_def pq_dequeue_def split: if_splits)
  show ?thesis
  proof (cases "rg_count (pq_queue s) = 0")
    case True
    with pq_consume w show ?thesis by (intro that(6)) (auto simp: pq_worker_step_def pq_dequeue_def)
  next
    case False
    obtain r q where g: "rg_get (pq_queue s) = (r, q)" by (cases "rg_get (pq_queue s)")
    with pq_consume(2) w False obtain ps where "cond_signal pq_pwaiting pq_pwake p (pq_producers s) = Some ps"
      by (auto simp: pq_worker_step_def pq_dequeue_def split: option.splits)
    with pq_consume w False g show ?thesis by (intro that(7) [of t r q p ps]) (simp_all add: pq_worker_step_def pq_dequeue_def)
  qed
qed

section \<open>Invariants\<close>

text \<open>Which states a client and \<^verbatim>\<open>main\<close> can be in; \<^verbatim>\<open>main\<close> goes on only after the clients.\<close>

fun pq_client_ok :: "pq_producer \<Rightarrow> bool" where
  "pq_client_ok (PIdle i) \<longleftrightarrow> i < REQUESTS_PER_CLIENT"
| "pq_client_ok (PSend i r) \<longleftrightarrow> i < REQUESTS_PER_CLIENT \<and> 1 \<le> req_id r"
| "pq_client_ok (PWait i r) \<longleftrightarrow> i < REQUESTS_PER_CLIENT \<and> 1 \<le> req_id r"
| "pq_client_ok PDone \<longleftrightarrow> True"
| "pq_client_ok p \<longleftrightarrow> False"

fun pq_main_ok :: "pq_producer \<Rightarrow> bool" where
  "pq_main_ok (PIdle i) \<longleftrightarrow> False"
| "pq_main_ok (PSend i r) \<longleftrightarrow> i < WORKER_COUNT \<and> r = pq_shutdown"
| "pq_main_ok (PWait i r) \<longleftrightarrow> i < WORKER_COUNT \<and> r = pq_shutdown"
| "pq_main_ok p \<longleftrightarrow> True"

abbreviation pq_main :: "pq_state \<Rightarrow> pq_producer" where
  "pq_main s \<equiv> pq_producers s ! MAX_CLIENTS"

definition pq_shape :: "pq_state \<Rightarrow> bool" where
  "pq_shape s \<longleftrightarrow> length (pq_producers s) = Suc MAX_CLIENTS \<and> length (pq_workers s) = WORKER_COUNT \<and> 1 \<le> next_request_id s \<and>
     (\<forall>t<MAX_CLIENTS. pq_client_ok (pq_producers s ! t)) \<and> pq_main_ok (pq_main s) \<and>
     (pq_main s = PJoin \<or> (\<forall>t<MAX_CLIENTS. pq_producers s ! t = PDone))"

lemma pq_shape_set:
  assumes "pq_shape s" and "t \<le> MAX_CLIENTS" and "t < MAX_CLIENTS \<Longrightarrow> pq_client_ok p \<and> pq_producers s ! t \<noteq> PDone"
    and "t = MAX_CLIENTS \<Longrightarrow> pq_main_ok p \<and> (p = PJoin \<or> (\<forall>t<MAX_CLIENTS. pq_producers s ! t = PDone))"
  shows "pq_shape (s\<lparr>pq_producers := (pq_producers s)[t := p]\<rparr>)"
  using assms by (auto simp: pq_shape_def nth_list_update split: if_splits)

lemma pq_pwake_ok [simp]: "pq_client_ok (pq_pwake p) = pq_client_ok p" "pq_main_ok (pq_pwake p) = pq_main_ok p"
  "pq_pwake p = PJoin \<longleftrightarrow> p = PJoin" "pq_pwake p = PDone \<longleftrightarrow> p = PDone"
  by (cases p; simp)+

lemma pq_shape_go:
  assumes "pq_go s s'" and shape: "pq_shape s"
  shows "pq_shape s'"
  using assms(1)
proof (cases rule: pq_go_cases)
  case (TakeId t i)
  have "pq_shape (s\<lparr>pq_producers := (pq_producers s)[t := PSend i (pq_client_request t i (next_request_id s))]\<rparr>)"
    using TakeId(1,2) shape by (intro pq_shape_set) (auto simp: pq_shape_def pq_client_request_def dest!: spec [of _ t])
  then show ?thesis using TakeId(3) by (simp add: pq_shape_def)
next
  case (Full t i r)
  show ?thesis unfolding Full(4)
    by (rule pq_shape_set) (use Full(1,2) shape in \<open>auto simp: pq_shape_def dest!: spec [of _ t]\<close>)
next
  case (Enqueue t i r w ws)
  have "pq_shape (s\<lparr>pq_producers := (pq_producers s)[t := pq_next t i]\<rparr>)"
    by (rule pq_shape_set) (use Enqueue(1,2) shape in \<open>auto simp: pq_shape_def pq_next_def dest!: spec [of _ t]\<close>)
  moreover have "length ws = length (pq_workers s)" using cond_signal_Some [OF Enqueue(4)] by auto
  ultimately show ?thesis using Enqueue(5) by (simp add: pq_shape_def)
next
  case (Joined t)
  show ?thesis unfolding Joined(4)
    by (rule pq_shape_set) (use Joined(1-3) shape in \<open>auto simp: pq_shape_def list_all_length pq_consts dest!: spec [of _ t]\<close>)
next
  case (Finish t)
  show ?thesis unfolding Finish(4)
    by (rule pq_shape_set) (use Finish(1,2) shape in \<open>auto simp: pq_shape_def dest!: spec [of _ t]\<close>)
next
  case (Empty t)
  then show ?thesis using shape by (simp add: pq_shape_def)
next
  case (Dequeue t r q p ps)
  from cond_signal_Some [OF Dequeue(5)] have "ps = pq_producers s \<or> p < length (pq_producers s) \<and> ps = (pq_producers s)[p := pq_pwake (pq_producers s ! p)]" by blast
  then show ?thesis using Dequeue(6) shape by (auto simp: pq_shape_def nth_list_update split: if_splits)
qed

definition pq_fifo :: "pq_state \<Rightarrow> bool" where
  "pq_fifo s \<longleftrightarrow> rg_ok QUEUE_SIZE (pq_queue s) \<and> pq_sent s = pq_received s @ rg_contents (pq_queue s)"

lemma pq_fifo_go:
  assumes "pq_go s s'" and "pq_fifo s"
  shows "pq_fifo s'"
  using assms(1)
proof (cases rule: pq_go_cases)
  case (Enqueue t i r w ws)
  have "rg_count (pq_queue s) < QUEUE_SIZE" using assms(2) Enqueue(3) by (simp add: pq_fifo_def rg_ok_def)
  then show ?thesis using assms(2) Enqueue(5) rg_put_ok [of QUEUE_SIZE "pq_queue s" r] by (simp add: pq_fifo_def)
next
  case (Dequeue t r q p ps)
  then show ?thesis using assms(2) rg_get_ok [of QUEUE_SIZE "pq_queue s"] by (simp add: pq_fifo_def)
qed (use assms(2) in \<open>simp_all add: pq_fifo_def\<close>)

text \<open>No wake-up is lost: while a worker waits there are no more requests than awake workers, and while a producer waits no
  more free places than producers that go on by themselves.\<close>

fun pq_active :: "pq_producer \<Rightarrow> bool" where
  "pq_active (PIdle i) \<longleftrightarrow> True"
| "pq_active (PSend i r) \<longleftrightarrow> True"
| "pq_active p \<longleftrightarrow> False"

definition pq_wakeups :: "pq_state \<Rightarrow> bool" where
  "pq_wakeups s \<longleftrightarrow>
     (0 < cnt (\<lambda>x. x = WWait) (pq_workers s) \<longrightarrow> rg_count (pq_queue s) \<le> cnt (\<lambda>x. x = WReady) (pq_workers s)) \<and>
     (0 < cnt pq_pwaiting (pq_producers s) \<longrightarrow> QUEUE_SIZE \<le> rg_count (pq_queue s) + cnt pq_active (pq_producers s))"

lemma pq_wakeups_go:
  assumes "pq_go s s'" and shape: "pq_shape s" and inv: "pq_wakeups s"
  shows "pq_wakeups s'"
proof -
  have len: "t \<le> MAX_CLIENTS \<Longrightarrow> t < length (pq_producers s)" "t < WORKER_COUNT \<Longrightarrow> t < length (pq_workers s)" for t
    using shape by (auto simp: pq_shape_def)
  note upd = cnt_update [of _ "pq_producers s" pq_pwaiting] cnt_update [of _ "pq_producers s" pq_active]
    cnt_update [of _ "pq_workers s" "\<lambda>x. x = WWait"] cnt_update [of _ "pq_workers s" "\<lambda>x. x = WReady"]
  from assms(1) show ?thesis
  proof (cases rule: pq_go_cases)
    case (TakeId t i)
    then show ?thesis using inv upd(1,2) [OF len(1) [OF TakeId(1)], of "PSend i (pq_client_request t i (next_request_id s))"]
      by (simp add: pq_wakeups_def)
  next
    case (Full t i r)
    then show ?thesis using inv upd(1,2) [OF len(1) [OF Full(1)], of "PWait i r"] by (simp add: pq_wakeups_def)
  next
    case (Enqueue t i r w ws)
    have p: "cnt pq_pwaiting ((pq_producers s)[t := pq_next t i]) = cnt pq_pwaiting (pq_producers s)"
      "cnt pq_active (pq_producers s) \<le> Suc (cnt pq_active ((pq_producers s)[t := pq_next t i]))"
      using upd(1,2) [OF len(1) [OF Enqueue(1)], of "pq_next t i"] Enqueue(2) by (auto simp: pq_next_def split: if_splits)
    have w: "0 < cnt (\<lambda>x. x = WWait) ws \<Longrightarrow> Suc (rg_count (pq_queue s)) \<le> cnt (\<lambda>x. x = WReady) ws"
      using cond_signal_Some [OF Enqueue(4)]
    proof (elim disjE conjE)
      assume "0 < cnt (\<lambda>x. x = WWait) ws" "\<forall>x\<in>set (pq_workers s). x \<noteq> WWait" "ws = pq_workers s"
      then show ?thesis by (auto simp: cnt_pos)
    next
      assume w: "w < length (pq_workers s)" "pq_workers s ! w = WWait" "ws = (pq_workers s)[w := WReady]" "0 < cnt (\<lambda>x. x = WWait) ws"
      then have "0 < cnt (\<lambda>x. x = WWait) (pq_workers s)" using nth_mem [OF w(1)] by (auto simp: cnt_pos)
      then show ?thesis using w upd(4) [OF w(1), of WReady] inv by (simp add: pq_wakeups_def)
    qed
    show ?thesis using Enqueue(5) inv p w by (auto simp: pq_wakeups_def rg_put_def)
  next
    case (Joined t)
    then show ?thesis using inv upd(1,2) [OF len(1) [OF Joined(1)], of "PSend 0 pq_shutdown"] by (auto simp: pq_wakeups_def)
  next
    case (Finish t)
    then show ?thesis using inv upd(1,2) [OF len(1) [OF Finish(1)], of PDone] by (simp add: pq_wakeups_def)
  next
    case (Empty t)
    then show ?thesis using inv upd(3,4) [OF len(2) [OF Empty(1)], of WWait] by (simp add: pq_wakeups_def)
  next
    case (Dequeue t r q p ps)
    let ?w = "if req_id r = -1 then WExit else WReady"
    have w: "cnt (\<lambda>x. x = WWait) ((pq_workers s)[t := ?w]) = cnt (\<lambda>x. x = WWait) (pq_workers s)"
      "cnt (\<lambda>x. x = WReady) (pq_workers s) \<le> Suc (cnt (\<lambda>x. x = WReady) ((pq_workers s)[t := ?w]))"
      using upd(3,4) [OF len(2) [OF Dequeue(1)], of ?w] Dequeue(2) by (auto split: if_splits)
    have q: "rg_count (pq_queue s) = Suc (rg_count q)" using Dequeue(3,4) by (auto simp: rg_get_def)
    have p: "0 < cnt pq_pwaiting ps \<Longrightarrow> QUEUE_SIZE \<le> rg_count q + cnt pq_active ps"
      using cond_signal_Some [OF Dequeue(5)]
    proof (elim disjE conjE)
      assume "0 < cnt pq_pwaiting ps" "\<forall>x\<in>set (pq_producers s). \<not> pq_pwaiting x" "ps = pq_producers s"
      then show ?thesis by (auto simp: cnt_pos)
    next
      assume p: "p < length (pq_producers s)" "pq_pwaiting (pq_producers s ! p)" "ps = (pq_producers s)[p := pq_pwake (pq_producers s ! p)]"
      then have "0 < cnt pq_pwaiting (pq_producers s)" by (auto simp: cnt_pos)
      moreover have "\<not> pq_active (pq_producers s ! p)" "pq_active (pq_pwake (pq_producers s ! p))" using p(2) by (cases "pq_producers s ! p"; simp)+
      ultimately show ?thesis using p upd(2) [OF p(1), of "pq_pwake (pq_producers s ! p)"] inv q by (simp add: pq_wakeups_def)
    qed
    show ?thesis using Dequeue(6) inv p w q by (auto simp: pq_wakeups_def)
  qed
qed

text \<open>
  Requests come before shutdown messages, of which \<^verbatim>\<open>main\<close> has sent as many as it has counted; each one received has
  ended one worker.
\<close>

fun pq_shutdowns :: "pq_producer \<Rightarrow> nat" where
  "pq_shutdowns PJoin = 0"
| "pq_shutdowns (PSend i r) = i"
| "pq_shutdowns (PWait i r) = i"
| "pq_shutdowns p = WORKER_COUNT"

definition pq_order :: "pq_state \<Rightarrow> bool" where
  "pq_order s \<longleftrightarrow>
     (\<exists>rs. pq_sent s = rs @ replicate (pq_shutdowns (pq_main s)) pq_shutdown \<and> (\<forall>r\<in>set rs. 1 \<le> req_id r)) \<and>
     cnt (\<lambda>x. x = WExit) (pq_workers s) = cnt (\<lambda>r. req_id r = -1) (pq_received s)"

lemma pq_shutdowns_wake [simp]: "pq_shutdowns (pq_pwake p) = pq_shutdowns p"
  by (cases p) simp_all

lemma pq_order_go:
  assumes "pq_go s s'" and shape: "pq_shape s" and inv: "pq_order s"
  shows "pq_order s'"
proof -
  have len: "t \<le> MAX_CLIENTS \<Longrightarrow> t < length (pq_producers s)" "t < WORKER_COUNT \<Longrightarrow> t < length (pq_workers s)" for t
    using shape by (auto simp: pq_shape_def)
  note upd = cnt_update [of _ "pq_workers s" "\<lambda>x. x = WExit"]
  have main: "((pq_producers s)[t := p]) ! MAX_CLIENTS = (if t = MAX_CLIENTS then p else pq_main s)" for t p
    using shape by (auto simp: pq_shape_def nth_list_update)
  from assms(1) show ?thesis
  proof (cases rule: pq_go_cases)
    case (TakeId t i)
    then show ?thesis using inv shape by (auto simp: pq_order_def main pq_shape_def)
  next
    case (Full t i r)
    then show ?thesis using inv by (auto simp: pq_order_def main)
  next
    case (Enqueue t i r w ws)
    obtain rs where rs: "pq_sent s = rs @ replicate (pq_shutdowns (pq_main s)) pq_shutdown" "\<forall>r\<in>set rs. 1 \<le> req_id r"
      using inv by (auto simp: pq_order_def)
    have sent: "\<exists>rs. pq_sent s @ [r] = rs @ replicate (pq_shutdowns (((pq_producers s)[t := pq_next t i]) ! MAX_CLIENTS)) pq_shutdown \<and>
      (\<forall>r\<in>set rs. 1 \<le> req_id r)"
    proof (cases "t = MAX_CLIENTS")
      case True
      then have "pq_main s = PSend i r" "r = pq_shutdown" "i < WORKER_COUNT" using Enqueue(2) shape by (auto simp: pq_shape_def)
      moreover have "pq_shutdowns (pq_next t i) = Suc i" using True calculation(3) by (auto simp: pq_next_def)
      ultimately show ?thesis using rs True by (intro exI [of _ rs]) (simp add: main replicate_append_same)
    next
      case False
      then have "pq_main s = PJoin" "1 \<le> req_id r" using Enqueue(1,2) shape by (auto simp: pq_shape_def dest!: spec [of _ t])
      then show ?thesis using rs False by (intro exI [of _ "rs @ [r]"]) (auto simp: main)
    qed
    have "cnt (\<lambda>x. x = WExit) ws = cnt (\<lambda>x. x = WExit) (pq_workers s)"
      using cond_signal_Some [OF Enqueue(4)] upd [of w WReady] by auto
    then show ?thesis using Enqueue(5) sent inv by (simp add: pq_order_def)
  next
    case (Joined t)
    then show ?thesis using inv shape by (auto simp: pq_order_def main pq_shape_def dest!: spec [of _ t])
  next
    case (Finish t)
    then show ?thesis using inv shape by (auto simp: pq_order_def main pq_shape_def dest!: spec [of _ t])
  next
    case (Empty t)
    then show ?thesis using inv upd [OF len(2) [OF Empty(1)], of WWait] by (simp add: pq_order_def)
  next
    case (Dequeue t r q p ps)
    have "pq_shutdowns (ps ! MAX_CLIENTS) = pq_shutdowns (pq_main s)" using cond_signal_Some [OF Dequeue(5)] by (auto simp: main)
    then show ?thesis using Dequeue(2,6) inv upd [OF len(2) [OF Dequeue(1)], of "if req_id r = -1 then WExit else WReady"]
      by (auto simp: pq_order_def)
  qed
qed

text \<open>Request numbers are taken once, and every number taken is sent once or about to be sent.\<close>

fun pq_pending :: "pq_producer \<Rightarrow> int multiset" where
  "pq_pending (PSend i r) = {#req_id r#}"
| "pq_pending (PWait i r) = {#req_id r#}"
| "pq_pending p = {#}"

fun pq_taken :: "pq_producer \<Rightarrow> nat" where
  "pq_taken (PIdle i) = i"
| "pq_taken (PSend i r) = Suc i"
| "pq_taken (PWait i r) = Suc i"
| "pq_taken p = REQUESTS_PER_CLIENT"

abbreviation pq_clients :: "pq_state \<Rightarrow> pq_producer list" where
  "pq_clients s \<equiv> take MAX_CLIENTS (pq_producers s)"

definition pq_requests :: "request_t list \<Rightarrow> request_t list" where
  "pq_requests rs = filter (\<lambda>r. req_id r \<noteq> -1) rs"

definition pq_ids :: "pq_state \<Rightarrow> bool" where
  "pq_ids s \<longleftrightarrow>
     mset (map req_id (pq_requests (pq_sent s))) + sum_list (map pq_pending (pq_clients s)) = mset [1..next_request_id s - 1] \<and>
     next_request_id s = 1 + int (sum_list (map pq_taken (pq_clients s)))"

lemma pq_ids_go:
  assumes "pq_go s s'" and shape: "pq_shape s" and inv: "pq_ids s"
  shows "pq_ids s'"
proof -
  have cl: "take MAX_CLIENTS ((pq_producers s)[t := p]) = (if t < MAX_CLIENTS then (pq_clients s)[t := p] else pq_clients s)" for t p
    by (simp add: take_update_swap) (auto intro: list_update_beyond)
  have nth: "t < MAX_CLIENTS \<Longrightarrow> t < length (pq_clients s) \<and> pq_clients s ! t = pq_producers s ! t" for t
    using shape by (simp add: pq_shape_def)
  have upd: "sum_list (map pq_pending ((pq_clients s)[t := p])) + pq_pending (pq_producers s ! t) = sum_list (map pq_pending (pq_clients s)) + pq_pending p"
    "sum_list (map pq_taken ((pq_clients s)[t := p])) + pq_taken (pq_producers s ! t) = sum_list (map pq_taken (pq_clients s)) + pq_taken p"
    if "t < MAX_CLIENTS" for t p
    using sum_map_update [of t "pq_clients s"] nth [OF that] by auto
  have same: "sum_list (map pq_pending (take MAX_CLIENTS ((pq_producers s)[t := p]))) = sum_list (map pq_pending (pq_clients s)) \<and>
      sum_list (map pq_taken (take MAX_CLIENTS ((pq_producers s)[t := p]))) = sum_list (map pq_taken (pq_clients s))"
    if "t < MAX_CLIENTS \<Longrightarrow> pq_pending p = pq_pending (pq_producers s ! t) \<and> pq_taken p = pq_taken (pq_producers s ! t)" for t p
    using upd [of t p] that unfolding cl by (cases "t < MAX_CLIENTS") auto
  have client: "pq_client_ok (pq_producers s ! t)" if "t < MAX_CLIENTS" for t using shape that by (simp add: pq_shape_def)
  have main: "pq_main_ok (pq_main s)" using shape by (simp add: pq_shape_def)
  from assms(1) show ?thesis
  proof (cases rule: pq_go_cases)
    case (TakeId t i)
    have t: "t < MAX_CLIENTS" using TakeId(1,2) main by (cases "t = MAX_CLIENTS") auto
    have "[1..next_request_id s] = [1..next_request_id s - 1] @ [next_request_id s]" using shape by (simp add: pq_shape_def upto_rec2)
    then show ?thesis using TakeId(2,3) inv t upd [OF t, of "PSend i (pq_client_request t i (next_request_id s))"]
      by (auto simp: pq_ids_def cl pq_client_request_def)
  next
    case (Full t i r)
    then show ?thesis using inv same [of t "PWait i r"] by (simp add: pq_ids_def)
  next
    case (Enqueue t i r w ws)
    show ?thesis
    proof (cases "t < MAX_CLIENTS")
      case True
      then have "i < REQUESTS_PER_CLIENT" "1 \<le> req_id r" using client [OF True] Enqueue(2) by auto
      moreover from this True have "pq_pending (pq_next t i) = {#}" "pq_taken (pq_next t i) = Suc i" by (auto simp: pq_next_def)
      ultimately have "sum_list (map pq_pending (pq_clients s)) = add_mset (req_id r) (sum_list (map pq_pending ((pq_clients s)[t := pq_next t i])))"
        "sum_list (map pq_taken ((pq_clients s)[t := pq_next t i])) = sum_list (map pq_taken (pq_clients s))"
        using Enqueue(2) upd [OF True, of "pq_next t i"] by simp_all
      then show ?thesis using Enqueue(5) inv True \<open>1 \<le> req_id r\<close> by (simp add: pq_ids_def cl pq_requests_def)
    next
      case False
      then have "r = pq_shutdown" using Enqueue(1,2) main by (cases "t = MAX_CLIENTS") auto
      then show ?thesis using Enqueue(5) inv False by (simp add: pq_ids_def cl pq_requests_def pq_shutdown_def)
    qed
  next
    case (Joined t)
    then have "\<not> t < MAX_CLIENTS" using client [of t] by (metis pq_client_ok.simps(5))
    then show ?thesis using Joined(4) inv by (simp add: pq_ids_def cl)
  next
    case (Finish t)
    then have "\<not> t < MAX_CLIENTS" using client [of t] by (metis pq_client_ok.simps(6))
    then show ?thesis using Finish(4) inv by (simp add: pq_ids_def cl)
  next
    case (Empty t)
    then show ?thesis using inv by (simp add: pq_ids_def)
  next
    case (Dequeue t r q p ps)
    have "pq_pending (pq_pwake x) = pq_pending x \<and> pq_taken (pq_pwake x) = pq_taken x" for x by (cases x) simp_all
    then show ?thesis using Dequeue(6) inv cond_signal_Some [OF Dequeue(5)] same [of p "pq_pwake (pq_producers s ! p)"]
      by (auto simp: pq_ids_def)
  qed
qed

section \<open>Safety\<close>

definition pq_inv :: "pq_state \<Rightarrow> bool" where
  "pq_inv s \<longleftrightarrow> pq_shape s \<and> pq_fifo s \<and> pq_wakeups s \<and> pq_order s \<and> pq_ids s"

lemma pq_inv_init: "pq_inv pq_init"
proof -
  have "pq_shape pq_init" by (simp add: pq_shape_def pq_init_def nth_append REQUESTS_PER_CLIENT_def)
  moreover have "pq_fifo pq_init" by (simp add: pq_fifo_def pq_init_def rg_ok_def rg_contents_def QUEUE_SIZE_def)
  moreover have "pq_wakeups pq_init" by (simp add: pq_wakeups_def pq_init_def)
  moreover have "pq_order pq_init" by (simp add: pq_order_def pq_init_def nth_append)
  moreover have "sum_list (replicate n {#}) = ({#} :: int multiset)" for n by (induction n) simp_all
  then have "pq_ids pq_init" by (simp add: pq_ids_def pq_init_def pq_requests_def sum_list_replicate)
  ultimately show ?thesis by (simp add: pq_inv_def)
qed

lemma pq_inv_go: "pq_go s s' \<Longrightarrow> pq_inv s \<Longrightarrow> pq_inv s'"
  by (simp add: pq_inv_def pq_shape_go pq_fifo_go pq_wakeups_go pq_order_go pq_ids_go)

text \<open>A spurious wake-up keeps all of this, too.\<close>

lemma pq_inv_wake_producer:
  assumes "pq_inv s" and t: "t < length (pq_producers s)" "pq_pwaiting (pq_producers s ! t)"
  shows "pq_inv (s\<lparr>pq_producers := (pq_producers s)[t := pq_pwake (pq_producers s ! t)]\<rparr>)"
proof -
  let ?s = "s\<lparr>pq_producers := (pq_producers s)[t := pq_pwake (pq_producers s ! t)]\<rparr>"
  obtain i r where p: "pq_producers s ! t = PWait i r" using t(2) by (cases "pq_producers s ! t") auto
  have inv: "pq_shape s" "pq_fifo s" "pq_wakeups s" "pq_order s" "pq_ids s" using assms(1) by (simp_all add: pq_inv_def)
  have "pq_shape ?s" using inv(1) t(1) by (auto simp: pq_shape_def nth_list_update split: if_splits)
  moreover have "pq_fifo ?s" using inv(2) by (simp add: pq_fifo_def)
  moreover have "pq_wakeups ?s"
    using inv(3) p cnt_update [OF t(1), of pq_pwaiting "PSend i r"] cnt_update [OF t(1), of pq_active "PSend i r"] by (auto simp: pq_wakeups_def)
  moreover have "pq_shutdowns (pq_main ?s) = pq_shutdowns (pq_main s)" using t(1) by (simp add: nth_list_update)
  then have "pq_order ?s" using inv(4) by (simp add: pq_order_def)
  moreover have "map pq_pending (pq_clients ?s) = map pq_pending (pq_clients s) \<and> map pq_taken (pq_clients ?s) = map pq_taken (pq_clients s)"
    using p t(1) by (auto simp: list_eq_iff_nth_eq nth_list_update)
  then have "pq_ids ?s" using inv(5) unfolding pq_ids_def by simp
  ultimately show ?thesis by (simp add: pq_inv_def)
qed

lemma pq_inv_wake_worker:
  assumes "pq_inv s" and t: "t < length (pq_workers s)" "pq_workers s ! t = WWait"
  shows "pq_inv (s\<lparr>pq_workers := (pq_workers s)[t := WReady]\<rparr>)"
proof -
  let ?s = "s\<lparr>pq_workers := (pq_workers s)[t := WReady]\<rparr>"
  have inv: "pq_shape s" "pq_fifo s" "pq_wakeups s" "pq_order s" "pq_ids s" using assms(1) by (simp_all add: pq_inv_def)
  note upd = cnt_update [OF t(1), of "\<lambda>x. x = WWait" WReady] cnt_update [OF t(1), of "\<lambda>x. x = WReady" WReady] cnt_update [OF t(1), of "\<lambda>x. x = WExit" WReady]
  have "pq_shape ?s" "pq_fifo ?s" "pq_ids ?s" using inv by (simp_all add: pq_shape_def pq_fifo_def pq_ids_def)
  moreover have "pq_wakeups ?s" using inv(3) t upd(1,2) by (auto simp: pq_wakeups_def)
  moreover have "pq_order ?s" using inv(4) t upd(3) by (auto simp: pq_order_def)
  ultimately show ?thesis by (simp add: pq_inv_def)
qed

lemma pq_inv_step: "pq_step s s' \<Longrightarrow> pq_inv s \<Longrightarrow> pq_inv s'"
  by (erule pq_step.cases) (auto intro: pq_inv_go pq_inv_wake_producer pq_inv_wake_worker)

lemma pq_inv_reachable: "pq_step\<^sup>*\<^sup>* pq_init s \<Longrightarrow> pq_inv s"
  by (induction rule: rtranclp_induct) (auto intro: pq_inv_init pq_inv_step)

lemma pq_ids_distinct:
  assumes "pq_ids s"
  shows "distinct (map req_id (pq_requests (pq_sent s)))"
proof -
  have "mset (map req_id (pq_requests (pq_sent s))) \<subseteq># mset [1..next_request_id s - 1]"
    using assms unfolding pq_ids_def by (metis mset_subset_eq_add_left)
  then have "count (mset (map req_id (pq_requests (pq_sent s)))) n \<le> count (mset [1..next_request_id s - 1]) n" for n
    by (rule mset_subset_eq_count)
  moreover have "count (mset [1..next_request_id s - 1]) n \<le> 1" for n
    using distinct_count_atmost_1 [of "[1..next_request_id s - 1]"] by simp
  ultimately have "count (mset (map req_id (pq_requests (pq_sent s)))) n \<le> 1" for n using order_trans by blast
  then show ?thesis unfolding distinct_count_atmost_1 using count_greater_eq_one_iff [of "mset (map req_id (pq_requests (pq_sent s)))"]
    by (metis count_greater_eq_one_iff dual_order.antisym not_in_iff set_mset_mset)
qed

section \<open>Progress\<close>

lemma pq_sent_shutdowns:
  assumes "pq_order s"
  shows "cnt (\<lambda>r. req_id r = -1) (pq_sent s) = pq_shutdowns (pq_main s)"
proof -
  obtain rs where rs: "pq_sent s = rs @ replicate (pq_shutdowns (pq_main s)) pq_shutdown" "\<forall>r\<in>set rs. 1 \<le> req_id r"
    using assms by (auto simp: pq_order_def)
  have "\<not> 0 < cnt (\<lambda>r. req_id r = -1) rs" using rs(2) unfolding cnt_pos by fastforce
  then show ?thesis using rs(1) by (simp add: pq_shutdown_def)
qed

lemma pq_ready_steps:
  assumes "t < WORKER_COUNT" and "pq_workers s ! t = WReady"
  shows "\<exists>s'. pq_go s s'"
proof -
  obtain p ps where "cond_signal pq_pwaiting pq_pwake p (pq_producers s) = Some ps" using cond_signal_total by blast
  then have "\<exists>s'. pq_worker_step t p s = Some s'" using assms(2) by (cases "rg_get (pq_queue s)") (simp add: pq_worker_step_def pq_dequeue_def)
  with pq_consume [OF assms(1)] show ?thesis by blast
qed

lemma pq_active_steps:
  assumes "t \<le> MAX_CLIENTS" and "pq_active (pq_producers s ! t)" and "pq_shape s"
  shows "\<exists>s'. pq_go s s'"
proof -
  obtain w ws where "cond_signal (\<lambda>x. x = WWait) (\<lambda>x. WReady) w (pq_workers s) = Some ws" using cond_signal_total by blast
  moreover have "\<not> t < MAX_CLIENTS \<Longrightarrow> t = MAX_CLIENTS \<and> pq_main_ok (pq_producers s ! t)" using assms(1,3) by (simp add: pq_shape_def)
  ultimately have "\<exists>s'. pq_producer_step t w s = Some s'" using assms(2)
    by (cases "pq_producers s ! t") (auto simp: pq_producer_step_def pq_client_step_def pq_main_step_def pq_enqueue_def)
  with pq_produce [OF assms(1)] show ?thesis by blast
qed

text \<open>A state without a step is one in which everything has ended.\<close>

lemma pq_stuck:
  assumes inv: "pq_inv s" and stuck: "\<nexists>s'. pq_go s s'"
  shows "pq_done s"
proof -
  have shape: "pq_shape s" and fifo: "pq_fifo s" and wake: "pq_wakeups s" and order: "pq_order s" using inv by (simp_all add: pq_inv_def)
  have len: "length (pq_producers s) = Suc MAX_CLIENTS" "length (pq_workers s) = WORKER_COUNT" using shape by (simp_all add: pq_shape_def)
  have "\<forall>x\<in>set (pq_workers s). x \<noteq> WReady" using pq_ready_steps stuck len(2) by (metis in_set_conv_nth)
  then have ready: "cnt (\<lambda>x. x = WReady) (pq_workers s) = 0 \<and> (\<forall>x\<in>set (pq_workers s). x = WWait \<or> x = WExit)"
    using cnt_pos [of "\<lambda>x. x = WReady" "pq_workers s"] by (metis gr_zeroI pq_worker.exhaust)
  have inactive: "\<forall>x\<in>set (pq_producers s). \<not> pq_active x" using pq_active_steps [OF _ _ shape] stuck len(1) by (metis in_set_conv_nth less_Suc_eq_le)
  then have "cnt pq_active (pq_producers s) = 0" using cnt_pos [of pq_active "pq_producers s"] by auto
  then have full: "QUEUE_SIZE \<le> rg_count (pq_queue s)" if "x \<in> set (pq_producers s)" "pq_pwaiting x" for x
    using wake that cnt_pos [of pq_pwaiting "pq_producers s"] by (auto simp: pq_wakeups_def)
  have empty: "rg_count (pq_queue s) = 0" if "x \<in> set (pq_workers s)" "x \<noteq> WExit" for x
    using wake that ready cnt_pos [of "\<lambda>x. x = WWait" "pq_workers s"] by (auto simp: pq_wakeups_def)
  have exits: "cnt (\<lambda>x. x = WExit) (pq_workers s) = cnt (\<lambda>r. req_id r = -1) (pq_received s)" using order by (simp add: pq_order_def)
  have sent: "pq_shutdowns (pq_main s) = cnt (\<lambda>r. req_id r = -1) (pq_received s) + cnt (\<lambda>r. req_id r = -1) (rg_contents (pq_queue s))"
    using pq_sent_shutdowns [OF order] fifo by (simp add: pq_fifo_def)
  have all_exit: "\<forall>x\<in>set (pq_workers s). x = WExit" if "pq_shutdowns (pq_main s) = WORKER_COUNT"
  proof (rule ccontr)
    assume "\<not> (\<forall>x\<in>set (pq_workers s). x = WExit)"
    then have "rg_contents (pq_queue s) = []" using empty by (metis length_0_conv rg_length)
    then have "cnt (\<lambda>x. x = WExit) (pq_workers s) = length (pq_workers s)" using sent exits that len(2) by simp
    with \<open>\<not> (\<forall>x\<in>set (pq_workers s). x = WExit)\<close> show False unfolding cnt_all by blast
  qed
  have no_wait: "\<forall>x\<in>set (pq_producers s). \<not> pq_pwaiting x" if "pq_shutdowns (pq_main s) < WORKER_COUNT"
  proof (rule ccontr)
    assume "\<not> (\<forall>x\<in>set (pq_producers s). \<not> pq_pwaiting x)"
    then have "0 < rg_count (pq_queue s)" using full by (fastforce simp: QUEUE_SIZE_def)
    then have "cnt (\<lambda>x. x = WExit) (pq_workers s) = length (pq_workers s)" unfolding cnt_all using empty by (metis less_irrefl)
    then show False using exits sent that len(2) by simp
  qed
  have main: "pq_main s \<in> set (pq_producers s)" "pq_main_ok (pq_main s)" using len(1) shape by (simp_all add: pq_shape_def)
  show ?thesis
  proof (cases "pq_main s")
    case PJoin
    have "pq_producers s ! t = PDone" if "t < MAX_CLIENTS" for t
    proof -
      have "pq_client_ok (pq_producers s ! t)" "pq_producers s ! t \<in> set (pq_producers s)" using shape that by (simp_all add: pq_shape_def)
      then show ?thesis using inactive no_wait PJoin by (cases "pq_producers s ! t") (fastforce simp: WORKER_COUNT_def)+
    qed
    then have "list_all (\<lambda>p. p = PDone) (pq_clients s)" using len(1) by (simp add: list_all_length)
    then have "pq_producer_step MAX_CLIENTS w s \<noteq> None" for w using PJoin by (simp add: pq_producer_step_def pq_main_step_def)
    then show ?thesis using stuck pq_produce [OF order_refl] by blast
  next
    case PJoinWorkers
    then have "list_all (\<lambda>x. x = WExit) (pq_workers s)" using all_exit by (simp add: list_all_iff)
    then have "pq_producer_step MAX_CLIENTS w s \<noteq> None" for w using PJoinWorkers by (simp add: pq_producer_step_def pq_main_step_def)
    then show ?thesis using stuck pq_produce [OF order_refl] by blast
  next
    case PDone
    then have "\<forall>x\<in>set (pq_workers s). x = WExit" "\<forall>t<Suc MAX_CLIENTS. pq_producers s ! t = PDone"
      using all_exit shape by (auto simp: pq_shape_def less_Suc_eq)
    moreover from this have "list_all (\<lambda>p. p = PDone) (pq_producers s)" using len(1) by (simp add: list_all_length)
    ultimately show ?thesis by (simp add: pq_done_def list_all_iff)
  qed (use main inactive no_wait in auto)
qed

text \<open>Every step uses up work: a critical section that succeeds, or a thread that goes to sleep.\<close>

fun pq_work :: "pq_producer \<Rightarrow> nat" where
  "pq_work (PIdle i) = 2 * (REQUESTS_PER_CLIENT - i)"
| "pq_work (PSend i r) = (if req_id r = -1 then 5 - i else 2 * (REQUESTS_PER_CLIENT - i) - 1)"
| "pq_work (PWait i r) = (if req_id r = -1 then 5 - i else 2 * (REQUESTS_PER_CLIENT - i) - 1)"
| "pq_work PJoin = 6"
| "pq_work PJoinWorkers = 1"
| "pq_work PDone = 0"

definition pq_sending :: "pq_producer \<Rightarrow> bool" where
  "pq_sending p \<longleftrightarrow> (\<exists>i r. p = PSend i r)"

definition pq_measure :: "pq_state \<Rightarrow> nat" where
  "pq_measure s = 3 * (sum_list (map pq_work (pq_producers s)) + (19 - length (pq_received s))) +
     cnt pq_sending (pq_producers s) + cnt (\<lambda>x. x = WReady) (pq_workers s)"

lemma pq_work_wake: "pq_work (pq_pwake p) = pq_work p"
  by (cases p) simp_all

lemma pq_sending_simps [simp]: "pq_sending (PSend i r)" "\<not> pq_sending (PIdle i)" "\<not> pq_sending (PWait i r)" "\<not> pq_sending PJoin"
  "\<not> pq_sending PJoinWorkers" "\<not> pq_sending PDone"
  by (simp_all add: pq_sending_def)

lemma sum_list_bound: "\<forall>x\<in>set xs. x \<le> n \<Longrightarrow> sum_list xs \<le> n * length xs" for n :: nat
  by (induction xs) auto

lemma pq_received_bound:
  assumes "pq_inv s"
  shows "length (pq_sent s) \<le> 19"
proof -
  obtain rs where rs: "pq_sent s = rs @ replicate (pq_shutdowns (pq_main s)) pq_shutdown" "\<forall>r\<in>set rs. 1 \<le> req_id r"
    using assms by (auto simp: pq_inv_def pq_order_def)
  have main: "pq_shutdowns (pq_main s) \<le> WORKER_COUNT" using assms by (cases "pq_main s") (auto simp: pq_inv_def pq_shape_def)
  have "\<forall>t<MAX_CLIENTS. pq_taken (pq_producers s ! t) \<le> REQUESTS_PER_CLIENT"
  proof (intro allI impI)
    fix t assume "t < MAX_CLIENTS"
    then have "pq_client_ok (pq_producers s ! t)" using assms by (simp add: pq_inv_def pq_shape_def)
    then show "pq_taken (pq_producers s ! t) \<le> REQUESTS_PER_CLIENT" by (cases "pq_producers s ! t") auto
  qed
  then have "\<forall>x\<in>set (map pq_taken (pq_clients s)). x \<le> REQUESTS_PER_CLIENT" by (auto simp: in_set_conv_nth)
  then have "sum_list (map pq_taken (pq_clients s)) \<le> REQUESTS_PER_CLIENT * length (map pq_taken (pq_clients s))"
    by (rule sum_list_bound)
  then have "next_request_id s - 1 \<le> 15" using assms by (simp add: pq_inv_def pq_ids_def pq_shape_def pq_consts)
  moreover have "filter (\<lambda>r. req_id r \<noteq> -1) rs = rs" using rs(2) by (auto simp: filter_id_conv)
  moreover have "size (mset (map req_id (pq_requests (pq_sent s)))) \<le> size (mset [1..next_request_id s - 1])"
    using assms unfolding pq_inv_def pq_ids_def by (metis mset_subset_eq_add_left size_mset_mono)
  ultimately have "length rs \<le> 15" using rs(1) by (simp add: pq_requests_def pq_shutdown_def)
  then show ?thesis using rs(1) main by (simp add: WORKER_COUNT_def)
qed

lemma pq_measure_step:
  assumes inv: "pq_inv s" and step: "pq_go s s'"
  shows "pq_measure s' < pq_measure s"
proof -
  have shape: "pq_shape s" using inv by (simp add: pq_inv_def)
  have len: "t \<le> MAX_CLIENTS \<Longrightarrow> t < length (pq_producers s)" "t < WORKER_COUNT \<Longrightarrow> t < length (pq_workers s)" for t
    using shape by (auto simp: pq_shape_def)
  note upd = sum_map_update [of _ "pq_producers s" pq_work] cnt_update [of _ "pq_producers s" pq_sending]
    cnt_update [of _ "pq_workers s" "\<lambda>x. x = WReady"]
  have client: "t < MAX_CLIENTS \<Longrightarrow> pq_client_ok (pq_producers s ! t)" for t using shape by (simp add: pq_shape_def)
  have main: "pq_main_ok (pq_main s)" using shape by (simp add: pq_shape_def)
  have id: "1 \<le> next_request_id s" using shape by (simp add: pq_shape_def)
  from step show ?thesis
  proof (cases rule: pq_go_cases)
    case (TakeId t i)
    have "t < MAX_CLIENTS" using TakeId(1,2) main by (cases "t = MAX_CLIENTS") auto
    from client [OF this] TakeId(2) have "i < REQUESTS_PER_CLIENT" by simp
    then show ?thesis using TakeId(2,3) id upd(1,2) [OF len(1) [OF TakeId(1)], of "PSend i (pq_client_request t i (next_request_id s))"]
      by (auto simp: pq_measure_def pq_client_request_def)
  next
    case (Full t i r)
    then show ?thesis using upd(1,2) [OF len(1) [OF Full(1)], of "PWait i r"] by (auto simp: pq_measure_def)
  next
    case (Enqueue t i r w ws)
    have "Suc (pq_work (pq_next t i)) = pq_work (PSend i r)"
    proof (cases "t = MAX_CLIENTS")
      case True
      then show ?thesis using Enqueue(2) main by (auto simp: pq_next_def pq_shutdown_def WORKER_COUNT_def)
    next
      case False
      with client [of t] Enqueue(1,2) show ?thesis by (auto simp: pq_next_def REQUESTS_PER_CLIENT_def)
    qed
    moreover have "cnt (\<lambda>x. x = WReady) ws \<le> Suc (cnt (\<lambda>x. x = WReady) (pq_workers s))"
      using cond_signal_Some [OF Enqueue(4)] upd(3) [of w WReady] by auto
    ultimately show ?thesis using Enqueue(2,5) upd(1,2) [OF len(1) [OF Enqueue(1)], of "pq_next t i"]
      by (cases "pq_sending (pq_next t i)") (simp_all add: pq_measure_def del: pq_work.simps)
  next
    case (Joined t)
    then show ?thesis using upd(1,2) [OF len(1) [OF Joined(1)], of "PSend 0 pq_shutdown"] by (simp add: pq_measure_def pq_shutdown_def)
  next
    case (Finish t)
    then show ?thesis using upd(1,2) [OF len(1) [OF Finish(1)], of PDone] by (simp add: pq_measure_def)
  next
    case (Empty t)
    then show ?thesis using upd(3) [OF len(2) [OF Empty(1)], of WWait] by (simp add: pq_measure_def)
  next
    case (Dequeue t r q p ps)
    have "length (pq_received s) < 19"
      using pq_received_bound [OF inv] inv Dequeue(3) by (simp add: pq_inv_def pq_fifo_def)
    moreover have "sum_list (map pq_work ps) = sum_list (map pq_work (pq_producers s))" "cnt pq_sending ps \<le> Suc (cnt pq_sending (pq_producers s))"
      using cond_signal_Some [OF Dequeue(5)] upd(1) [of p "pq_pwake (pq_producers s ! p)"]
      by (auto simp: pq_work_wake cnt_update_le)
    ultimately show ?thesis using Dequeue(2,6) upd(3) [OF len(2) [OF Dequeue(1)], of "if req_id r = -1 then WExit else WReady"]
      by (auto simp: pq_measure_def split: if_splits)
  qed
qed

lemma pq_finished:
  assumes inv: "pq_inv s" and fin: "pq_done s"
  shows "rg_count (pq_queue s) = 0"
    and "\<exists>rs. pq_received s = rs @ replicate WORKER_COUNT pq_shutdown \<and> mset (map req_id rs) = mset [1..15]"
proof -
  have shape: "pq_shape s" and fifo: "pq_fifo s" and order: "pq_order s" and ids: "pq_ids s" using inv by (simp_all add: pq_inv_def)
  have len: "length (pq_producers s) = Suc MAX_CLIENTS" "length (pq_workers s) = WORKER_COUNT" using shape by (simp_all add: pq_shape_def)
  have ended: "pq_producers s = replicate (Suc MAX_CLIENTS) PDone" "\<forall>x\<in>set (pq_workers s). x = WExit"
    using fin len(1) by (auto simp: pq_done_def list_all_iff simp del: replicate_Suc intro!: replicate_eqI)
  have main: "pq_shutdowns (pq_main s) = WORKER_COUNT" using ended(1) by (simp del: replicate_Suc)
  obtain rs where rs: "pq_sent s = rs @ replicate WORKER_COUNT pq_shutdown" "\<forall>r\<in>set rs. 1 \<le> req_id r"
    using order main by (auto simp: pq_order_def)
  have sent: "pq_sent s = pq_received s @ rg_contents (pq_queue s)" using fifo by (simp add: pq_fifo_def)
  have "cnt (\<lambda>x. x = WExit) (pq_workers s) = WORKER_COUNT" using ended(2) cnt_all [of "\<lambda>x. x = WExit" "pq_workers s"] len(2) by simp
  then have none: "cnt (\<lambda>r. req_id r = -1) (rg_contents (pq_queue s)) = 0"
    using pq_sent_shutdowns [OF order] order main sent by (simp add: pq_order_def)
  have empty: "rg_contents (pq_queue s) = []"
  proof (rule ccontr)
    assume ne: "rg_contents (pq_queue s) \<noteq> []"
    then have "last (rg_contents (pq_queue s)) = last (pq_sent s)" using sent by simp
    also have "\<dots> = pq_shutdown" using rs(1) by (simp add: WORKER_COUNT_def)
    finally have "pq_shutdown \<in> set (rg_contents (pq_queue s))" using last_in_set [OF ne] by simp
    then show False using none cnt_pos [of "\<lambda>r. req_id r = -1" "rg_contents (pq_queue s)"] by (auto simp: pq_shutdown_def)
  qed
  then show "rg_count (pq_queue s) = 0" by (metis list.size(3) rg_length)
  have "filter (\<lambda>r. req_id r \<noteq> -1) rs = rs" using rs(2) by (auto simp: filter_id_conv)
  then have "pq_requests (pq_sent s) = rs" using rs(1) by (simp add: pq_requests_def pq_shutdown_def)
  then have "mset (map req_id rs) = mset [1..15]"
    using ids ended(1) by (simp add: pq_ids_def pq_consts numeral_eq_Suc del: upto_rec_numeral)
  then show "\<exists>rs. pq_received s = rs @ replicate WORKER_COUNT pq_shutdown \<and> mset (map req_id rs) = mset [1..15]"
    using sent empty rs(1) by (metis append_Nil2)
qed

section \<open>The queue under every schedule\<close>

text \<open>
  C24. In every state that the threads of \<^verbatim>\<open>pthread_db.c\<close> can reach, the queue holds at most \<open>QUEUE_SIZE\<close> requests, its indices are in
  range, what the workers received is, in order, the beginning of what the producers sent and the queue holds the rest, and
  no request is sent twice.
\<close>

theorem pthread_db_queue_fifo:
  assumes "pq_step\<^sup>*\<^sup>* pq_init s"
  shows "rg_ok QUEUE_SIZE (pq_queue s) \<and> pq_sent s = pq_received s @ rg_contents (pq_queue s) \<and>
    distinct (map req_id (filter (\<lambda>r. req_id r \<noteq> -1) (pq_sent s)))"
  using pq_inv_reachable [OF assms] pq_ids_distinct [of s] by (simp_all add: pq_inv_def pq_fifo_def pq_requests_def)

text \<open>The state that a schedule leads to; each entry names a producer or a worker and the thread its signal wakes.\<close>

fun pq_run :: "(nat \<times> nat + nat \<times> nat) list \<Rightarrow> pq_state \<Rightarrow> pq_state option" where
  "pq_run [] s = Some s"
| "pq_run (Inl (t, w) # sched) s =
     (if t \<le> MAX_CLIENTS then case pq_producer_step t w s of None \<Rightarrow> None | Some s' \<Rightarrow> pq_run sched s' else None)"
| "pq_run (Inr (t, p) # sched) s =
     (if t < WORKER_COUNT then case pq_worker_step t p s of None \<Rightarrow> None | Some s' \<Rightarrow> pq_run sched s' else None)"

lemma pq_run_steps: "pq_run sched s = Some s' \<Longrightarrow> pq_step\<^sup>*\<^sup>* s s'"
  by (induction sched s rule: pq_run.induct)
    (auto split: if_splits option.splits intro: pq_go.intros pq_awake converse_rtranclp_into_rtranclp)

lemma pq_init_eq:
  "pq_init =
     \<lparr>pq_queue = \<lparr>rg_array = [e, e, e, e, e, e, e, e], rg_head = 0, rg_tail = 0, rg_count = 0\<rparr>, next_request_id = 1,
      pq_producers = [PIdle 0, PIdle 0, PIdle 0, PJoin], pq_workers = [WReady, WReady, WReady, WReady], pq_sent = [], pq_received = []\<rparr>"
  if "e = \<lparr>req_id = 0, req_text = []\<rparr>"
  using that by (simp add: pq_init_def pq_consts numeral_eq_Suc)

theorem pthread_db_queue_fifo_witness:
  "\<exists>s. pq_step\<^sup>*\<^sup>* pq_init s \<and> map req_id (pq_received s) = [1] \<and> map req_id (pq_sent s) = [1, 2] \<and>
     pq_sent s = pq_received s @ rg_contents (pq_queue s)"
proof -
  obtain s where s: "pq_run [Inr (0, 0), Inl (0, 0), Inl (1, 0), Inl (0, 0), Inl (1, 0), Inr (0, 0)] pq_init = Some s"
      "map req_id (pq_received s) = [1]" "map req_id (pq_sent s) = [1, 2]"
    by (simp add: pq_init_eq [OF refl] pq_consts pq_producer_step_def pq_client_step_def pq_worker_step_def pq_dequeue_def pq_enqueue_def cond_signal_def
        pq_client_request_def rg_put_def rg_get_def)
  note run = pq_run_steps [OF s(1)]
  have "pq_sent s = pq_received s @ rg_contents (pq_queue s)" using pthread_db_queue_fifo [OF run] by simp
  then show ?thesis by (intro exI [of _ s] conjI run s)
qed

text \<open>
  C11. \<^verbatim>\<open>pthread_db.c\<close> ends under every schedule in which the waiting threads do not wake up without a signal infinitely often. States are
  reached with spurious wake-ups; from any of them the threads that are awake make only finitely many steps before the next spurious wake-up, and when none of
  them can go on, the three clients, \<^verbatim>\<open>main\<close> and the four workers have all returned (so no spurious wake-up is needed), the queue is empty, and the
  workers have received each of the requests numbered 1 to 15 exactly once, followed by the four shutdown messages.
\<close>

theorem pthread_db_terminates:
  "wf {(s', s). pq_step\<^sup>*\<^sup>* pq_init s \<and> pq_go s s'} \<and>
   (\<forall>s. pq_step\<^sup>*\<^sup>* pq_init s \<and> (\<nexists>s'. pq_go s s') \<longrightarrow>
      pq_done s \<and> rg_count (pq_queue s) = 0 \<and>
      (\<exists>rs. pq_received s = rs @ replicate WORKER_COUNT pq_shutdown \<and> mset (map req_id rs) = mset [1..15]))"
proof -
  have "{(s', s). pq_step\<^sup>*\<^sup>* pq_init s \<and> pq_go s s'} \<subseteq> measure pq_measure"
    using pq_measure_step pq_inv_reachable by auto
  then have "wf {(s', s). pq_step\<^sup>*\<^sup>* pq_init s \<and> pq_go s s'}" by (rule wf_subset [OF wf_measure])
  moreover have "pq_done s" if "pq_step\<^sup>*\<^sup>* pq_init s" "\<nexists>s'. pq_go s s'" for s
    using pq_stuck [OF pq_inv_reachable] that by blast
  ultimately show ?thesis using pq_finished pq_inv_reachable by blast
qed

text \<open>A run to the end exists, and it delivers everything.\<close>

theorem pthread_db_terminates_witness:
  "\<exists>s. pq_step\<^sup>*\<^sup>* pq_init s \<and> pq_done s \<and> length (pq_received s) = 19"
proof -
  let ?R = "{s. pq_step\<^sup>*\<^sup>* pq_init s}"
  have "pq_init \<in> ?R" by simp
  then obtain s where s: "s \<in> ?R" "\<And>s'. (s', s) \<in> {(s', s). pq_step\<^sup>*\<^sup>* pq_init s \<and> pq_go s s'} \<Longrightarrow> s' \<notin> ?R"
    by (rule wfE_min [OF conjunct1 [OF pthread_db_terminates]]) iprover
  have "\<not> pq_go s s'" for s'
  proof
    assume go: "pq_go s s'"
    then have "pq_step\<^sup>*\<^sup>* pq_init s'" using s(1) pq_awake [OF go] by (simp add: rtranclp.rtrancl_into_rtrancl)
    then show False using s(2) [of s'] s(1) go by simp
  qed
  then have "pq_step\<^sup>*\<^sup>* pq_init s \<and> (\<nexists>s'. pq_go s s')" using s(1) by simp
  from conjunct2 [OF pthread_db_terminates, THEN spec, THEN mp, OF this]
  obtain rs where fin: "pq_done s" "pq_received s = rs @ replicate WORKER_COUNT pq_shutdown" "mset (map req_id rs) = mset [1..15]"
    by (elim conjE exE)
  have "length rs = 15" using arg_cong [OF fin(3), of size] by simp
  then show ?thesis using s(1) fin(1,2) by (auto simp: WORKER_COUNT_def)
qed

section \<open>Producers and consumers that count the items\<close>

definition NUMBER_OF_PRODUCERS :: nat where "NUMBER_OF_PRODUCERS = 4"
definition NUMBER_OF_CONSUMERS :: nat where "NUMBER_OF_CONSUMERS = 3"
definition PRODUCES_PER_PRODUCER :: nat where "PRODUCES_PER_PRODUCER = 20"
definition BUFFER_SIZE :: nat where "BUFFER_SIZE = 20"

definition total_to_be_produced :: nat where
  "total_to_be_produced = NUMBER_OF_PRODUCERS * PRODUCES_PER_PRODUCER"

text \<open>
  A producer is before the critical section of its item \<open>i\<close> (\<open>Produce i\<close>) or waits in it. A consumer that was woken
  (\<open>Woken\<close>) is inside the loop that tests \<^verbatim>\<open>count\<close>, past the test of \<^verbatim>\<open>consumed_total\<close> (\<open>AtTop\<close>).
\<close>

datatype pc_producer = Produce nat | ProducerWaits nat | ProducerDone

datatype pc_consumer = AtTop | Woken | ConsumerWaits | ConsumerDone

datatype pc_main = JoinProducers | JoinConsumers | MainDone

record pc_state =
  pc_buffer :: "int ringbuf"
  consumed_total :: nat
  pc_producers :: "pc_producer list"
  pc_consumers :: "pc_consumer list"
  pc_main :: pc_main
  pc_sent :: "int list"
  pc_received :: "int list"

fun pc_pwaiting :: "pc_producer \<Rightarrow> bool" where
  "pc_pwaiting (ProducerWaits i) \<longleftrightarrow> True"
| "pc_pwaiting p \<longleftrightarrow> False"

fun pc_pwake :: "pc_producer \<Rightarrow> pc_producer" where
  "pc_pwake (ProducerWaits i) = Produce i"
| "pc_pwake p = p"

definition pc_item :: "nat \<Rightarrow> int" where
  "pc_item i = int i * 100 + int i"

definition pc_produce :: "nat \<Rightarrow> nat \<Rightarrow> pc_state \<Rightarrow> pc_state option" where
  "pc_produce t w s =
     (case pc_producers s ! t of
        Produce i \<Rightarrow>
          if rg_count (pc_buffer s) = BUFFER_SIZE then Some (s\<lparr>pc_producers := (pc_producers s)[t := ProducerWaits i]\<rparr>)
          else (case cond_signal (\<lambda>c. c = ConsumerWaits) (\<lambda>c. Woken) w (pc_consumers s) of
                  None \<Rightarrow> None
                | Some cs \<Rightarrow> Some (s\<lparr>pc_buffer := rg_put (pc_item i) (pc_buffer s), pc_consumers := cs,
                    pc_producers := (pc_producers s)[t := if i + 1 < PRODUCES_PER_PRODUCER then Produce (i + 1) else ProducerDone],
                    pc_sent := pc_sent s @ [pc_item i]\<rparr>))
      | ProducerWaits i \<Rightarrow> None
      | ProducerDone \<Rightarrow> None)"

text \<open>The rest of a consumer's round from the loop on \<^verbatim>\<open>count\<close>; \<open>p\<close> is the producer to wake.\<close>

definition pc_take :: "nat \<Rightarrow> nat \<Rightarrow> pc_state \<Rightarrow> pc_state option" where
  "pc_take t p s =
     (if rg_count (pc_buffer s) = 0 then Some (s\<lparr>pc_consumers := (pc_consumers s)[t := ConsumerWaits]\<rparr>)
      else case rg_get (pc_buffer s) of
             (item, q) \<Rightarrow>
               (case cond_signal pc_pwaiting pc_pwake p (pc_producers s) of
                  None \<Rightarrow> None
                | Some ps \<Rightarrow> Some (s\<lparr>pc_buffer := q, consumed_total := consumed_total s + 1, pc_producers := ps,
                    pc_consumers := (pc_consumers s)[t := AtTop], pc_received := pc_received s @ [item]\<rparr>)))"

definition pc_consume :: "nat \<Rightarrow> nat \<Rightarrow> pc_state \<Rightarrow> pc_state option" where
  "pc_consume t p s =
     (case pc_consumers s ! t of
        AtTop \<Rightarrow> if consumed_total s \<ge> total_to_be_produced then Some (s\<lparr>pc_consumers := (pc_consumers s)[t := ConsumerDone]\<rparr>)
                  else pc_take t p s
      | Woken \<Rightarrow> pc_take t p s
      | ConsumerWaits \<Rightarrow> None
      | ConsumerDone \<Rightarrow> None)"

definition pc_main_step :: "pc_state \<Rightarrow> pc_state option" where
  "pc_main_step s =
     (case pc_main s of
        JoinProducers \<Rightarrow>
          if list_all (\<lambda>p. p = ProducerDone) (pc_producers s)
          then Some (s\<lparr>pc_consumers := map (\<lambda>c. if c = ConsumerWaits then Woken else c) (pc_consumers s), pc_main := JoinConsumers\<rparr>)
          else None
      | JoinConsumers \<Rightarrow> if list_all (\<lambda>c. c = ConsumerDone) (pc_consumers s) then Some (s\<lparr>pc_main := MainDone\<rparr>) else None
      | MainDone \<Rightarrow> None)"

definition pc_init :: pc_state where
  "pc_init =
     \<lparr>pc_buffer = \<lparr>rg_array = replicate BUFFER_SIZE 0, rg_head = 0, rg_tail = 0, rg_count = 0\<rparr>, consumed_total = 0,
      pc_producers = replicate NUMBER_OF_PRODUCERS (Produce 0), pc_consumers = replicate NUMBER_OF_CONSUMERS AtTop,
      pc_main = JoinProducers, pc_sent = [], pc_received = []\<rparr>"

inductive pc_step :: "pc_state \<Rightarrow> pc_state \<Rightarrow> bool" where
  pc_step_produce: "t < NUMBER_OF_PRODUCERS \<Longrightarrow> pc_produce t w s = Some s' \<Longrightarrow> pc_step s s'"
| pc_step_consume: "t < NUMBER_OF_CONSUMERS \<Longrightarrow> pc_consume t p s = Some s' \<Longrightarrow> pc_step s s'"
| pc_step_main: "pc_main_step s = Some s' \<Longrightarrow> pc_step s s'"
| pc_spurious_producer: "t < length (pc_producers s) \<Longrightarrow> pc_producers s ! t = ProducerWaits i \<Longrightarrow>
    pc_step s (s\<lparr>pc_producers := (pc_producers s)[t := Produce i]\<rparr>)"
| pc_spurious_consumer: "t < length (pc_consumers s) \<Longrightarrow> pc_consumers s ! t = ConsumerWaits \<Longrightarrow>
    pc_step s (s\<lparr>pc_consumers := (pc_consumers s)[t := Woken]\<rparr>)"

lemmas pc_consts = NUMBER_OF_PRODUCERS_def NUMBER_OF_CONSUMERS_def PRODUCES_PER_PRODUCER_def BUFFER_SIZE_def total_to_be_produced_def

fun pc_progress :: "pc_producer \<Rightarrow> nat" where
  "pc_progress (Produce i) = i"
| "pc_progress (ProducerWaits i) = i"
| "pc_progress ProducerDone = PRODUCES_PER_PRODUCER"

text \<open>The queue is in order; every producer has sent its first items; \<^verbatim>\<open>main\<close> ends after the consumers.\<close>

definition pc_fifo :: "pc_state \<Rightarrow> bool" where
  "pc_fifo s \<longleftrightarrow> rg_ok BUFFER_SIZE (pc_buffer s) \<and> pc_sent s = pc_received s @ rg_contents (pc_buffer s) \<and>
     consumed_total s = length (pc_received s)"

definition pc_counts :: "pc_producer list \<Rightarrow> int list \<Rightarrow> bool" where
  "pc_counts ps sent \<longleftrightarrow> length ps = NUMBER_OF_PRODUCERS \<and>
     (\<forall>p\<in>set ps. pc_progress p \<le> PRODUCES_PER_PRODUCER \<and> (pc_progress p = PRODUCES_PER_PRODUCER \<longrightarrow> p = ProducerDone)) \<and>
     length sent = sum_list (map pc_progress ps) \<and> (\<forall>i. cnt (\<lambda>x. x = pc_item i) sent = cnt (\<lambda>p. i < pc_progress p) ps)"

definition pc_ended :: "pc_state \<Rightarrow> bool" where
  "pc_ended s \<longleftrightarrow> length (pc_consumers s) = NUMBER_OF_CONSUMERS \<and>
     (pc_main s = MainDone \<longrightarrow> (\<forall>t<NUMBER_OF_CONSUMERS. pc_consumers s ! t = ConsumerDone))"

definition pc_inv :: "pc_state \<Rightarrow> bool" where
  "pc_inv s \<longleftrightarrow> pc_fifo s \<and> pc_counts (pc_producers s) (pc_sent s) \<and> pc_ended s"

lemma pc_inv_init: "pc_inv pc_init"
  by (simp add: pc_inv_def pc_fifo_def pc_counts_def pc_ended_def pc_init_def rg_ok_def rg_contents_def pc_consts sum_list_replicate)

lemma pc_progress_wake [simp]: "pc_progress (pc_pwake p) = pc_progress p"
  by (cases p) simp_all

lemma pc_item_inj [simp]: "pc_item i = pc_item j \<longleftrightarrow> i = j"
  by (auto simp: pc_item_def)

text \<open>The kinds of steps; the last two are spurious wake-ups.\<close>

lemma pc_step_cases:
  assumes "pc_step s s'"
  obtains
    (Full) t i where "t < NUMBER_OF_PRODUCERS" "pc_producers s ! t = Produce i" "s' = s\<lparr>pc_producers := (pc_producers s)[t := ProducerWaits i]\<rparr>"
  | (Put) t i w cs where "t < NUMBER_OF_PRODUCERS" "pc_producers s ! t = Produce i" "rg_count (pc_buffer s) \<noteq> BUFFER_SIZE"
      "cond_signal (\<lambda>c. c = ConsumerWaits) (\<lambda>c. Woken) w (pc_consumers s) = Some cs"
      "s' = s\<lparr>pc_buffer := rg_put (pc_item i) (pc_buffer s), pc_consumers := cs,
              pc_producers := (pc_producers s)[t := if i + 1 < PRODUCES_PER_PRODUCER then Produce (i + 1) else ProducerDone],
              pc_sent := pc_sent s @ [pc_item i]\<rparr>"
  | (Get) t item q p ps where "t < NUMBER_OF_CONSUMERS" "pc_consumers s ! t \<noteq> ConsumerDone" "rg_count (pc_buffer s) \<noteq> 0" "rg_get (pc_buffer s) = (item, q)"
      "cond_signal pc_pwaiting pc_pwake p (pc_producers s) = Some ps"
      "s' = s\<lparr>pc_buffer := q, consumed_total := consumed_total s + 1, pc_producers := ps,
              pc_consumers := (pc_consumers s)[t := AtTop], pc_received := pc_received s @ [item]\<rparr>"
  | (Consumer) t c where "t < NUMBER_OF_CONSUMERS" "s' = s\<lparr>pc_consumers := (pc_consumers s)[t := c]\<rparr>"
      "c = ConsumerWaits \<or> pc_consumers s ! t = AtTop" "pc_consumers s ! t \<noteq> ConsumerDone"
  | (Main) m f where "s' = s\<lparr>pc_consumers := map f (pc_consumers s), pc_main := m\<rparr>"
      "\<forall>c. f c = c \<or> c = ConsumerWaits \<and> f c = Woken"
      "m = MainDone \<longrightarrow> list_all (\<lambda>c. c = ConsumerDone) (pc_consumers s)"
  | (WakeProducer) t i where "t < length (pc_producers s)" "pc_producers s ! t = ProducerWaits i"
      "s' = s\<lparr>pc_producers := (pc_producers s)[t := Produce i]\<rparr>"
  | (WakeConsumer) t where "t < length (pc_consumers s)" "pc_consumers s ! t = ConsumerWaits"
      "s' = s\<lparr>pc_consumers := (pc_consumers s)[t := Woken]\<rparr>"
  using assms
proof cases
  case (pc_step_produce t w)
  then obtain i where i: "pc_producers s ! t = Produce i" by (cases "pc_producers s ! t") (auto simp: pc_produce_def)
  show ?thesis
  proof (cases "rg_count (pc_buffer s) = BUFFER_SIZE")
    case True
    with pc_step_produce i show ?thesis by (intro that(1)) (auto simp: pc_produce_def)
  next
    case False
    with pc_step_produce i obtain cs where "cond_signal (\<lambda>c. c = ConsumerWaits) (\<lambda>c. Woken) w (pc_consumers s) = Some cs"
      by (auto simp: pc_produce_def split: option.splits)
    with pc_step_produce i False show ?thesis by (intro that(2) [of t i w cs]) (simp_all add: pc_produce_def)
  qed
next
  case (pc_step_consume t p)
  have live: "pc_consumers s ! t \<noteq> ConsumerDone" using pc_step_consume(2) by (auto simp: pc_consume_def)
  show ?thesis
  proof (cases "pc_take t p s = Some s'")
    case True
    show ?thesis
    proof (cases "rg_count (pc_buffer s) = 0")
      case empty: True
      with True pc_step_consume live show ?thesis by (intro that(4)) (auto simp: pc_take_def)
    next
      case False
      obtain item q where g: "rg_get (pc_buffer s) = (item, q)" by (cases "rg_get (pc_buffer s)")
      with True False obtain ps where "cond_signal pc_pwaiting pc_pwake p (pc_producers s) = Some ps"
        by (auto simp: pc_take_def split: option.splits)
      with True False g pc_step_consume live show ?thesis by (intro that(3) [of t item q p ps]) (simp_all add: pc_take_def)
    qed
  next
    case False
    with pc_step_consume live show ?thesis
      by (intro that(4) [of t ConsumerDone]) (auto simp: pc_consume_def split: pc_consumer.splits if_splits)
  qed
next
  case pc_step_main
  show ?thesis
  proof (cases "pc_main s")
    case JoinProducers
    with pc_step_main show ?thesis
      by (intro that(5) [of JoinConsumers "\<lambda>c. if c = ConsumerWaits then Woken else c"]) (auto simp: pc_main_step_def split: if_splits)
  next
    case JoinConsumers
    with pc_step_main show ?thesis
      by (intro that(5) [of MainDone id]) (auto simp: pc_main_step_def split: if_splits)
  next
    case MainDone
    with pc_step_main show ?thesis by (simp add: pc_main_step_def)
  qed
next
  case (pc_spurious_producer t i)
  then show ?thesis using that(6) by blast
next
  case (pc_spurious_consumer t)
  then show ?thesis using that(7) by blast
qed

lemma pc_counts_update:
  assumes "pc_counts ps sent" and t: "t < NUMBER_OF_PRODUCERS"
    and p: "pc_progress p \<le> PRODUCES_PER_PRODUCER" "pc_progress p = PRODUCES_PER_PRODUCER \<longrightarrow> p = ProducerDone"
    and sent: "pc_progress p = pc_progress (ps ! t) \<and> sent' = sent \<or>
      pc_progress p = Suc (pc_progress (ps ! t)) \<and> sent' = sent @ [pc_item (pc_progress (ps ! t))]"
  shows "pc_counts (ps[t := p]) sent'"
proof -
  have len: "t < length ps" using assms(1) t by (simp add: pc_counts_def)
  note upd = sum_map_update [OF len, of pc_progress p] cnt_update [OF len, of "\<lambda>p. k < pc_progress p" p for k]
  have "length sent' = sum_list (map pc_progress (ps[t := p]))" using sent upd(1) assms(1) by (auto simp: pc_counts_def)
  moreover have "cnt (\<lambda>x. x = pc_item k) sent' = cnt (\<lambda>p. k < pc_progress p) (ps[t := p])" for k
    using sent upd(2) [of k] assms(1) by (auto simp: pc_counts_def of_bool_def split: if_splits)
  ultimately show ?thesis using assms(1) p by (auto simp: pc_counts_def dest!: set_update_subset_insert [THEN subsetD])
qed

lemma pc_producing:
  assumes "pc_counts ps sent" and "t < NUMBER_OF_PRODUCERS" and "ps ! t = Produce i"
  shows "i < PRODUCES_PER_PRODUCER"
proof -
  have "ps ! t \<in> set ps" using assms(1,2) by (simp add: pc_counts_def)
  then show ?thesis using assms(1,3) by (fastforce simp: pc_counts_def)
qed

lemma pc_counts_step:
  assumes "pc_step s s'" and inv: "pc_counts (pc_producers s) (pc_sent s)"
  shows "pc_counts (pc_producers s') (pc_sent s')"
  using assms(1)
proof (cases rule: pc_step_cases)
  case (Full t i)
  then show ?thesis using pc_producing [OF inv Full(1,2)] by (auto intro!: pc_counts_update [OF inv])
next
  case (Put t i w cs)
  then show ?thesis using pc_producing [OF inv Put(1,2)] by (auto intro!: pc_counts_update [OF inv])
next
  case (Get t item q p ps)
  show ?thesis
  proof (cases "ps = pc_producers s")
    case False
    then have p: "p < length (pc_producers s)" "ps = (pc_producers s)[p := pc_pwake (pc_producers s ! p)]"
      using cond_signal_Some [OF Get(5)] by auto
    have "pc_producers s ! p \<in> set (pc_producers s)" using p(1) by simp
    then have "pc_progress (pc_producers s ! p) \<le> PRODUCES_PER_PRODUCER"
      "pc_progress (pc_producers s ! p) = PRODUCES_PER_PRODUCER \<longrightarrow> pc_producers s ! p = ProducerDone"
      using inv by (auto simp: pc_counts_def)
    then show ?thesis using p inv Get(6) by (auto simp: pc_counts_def [of "pc_producers s"] intro!: pc_counts_update [OF inv])
  qed (use inv Get(6) in simp)
next
  case (WakeProducer t i)
  have "ProducerWaits i \<in> set (pc_producers s)" using WakeProducer(1,2) nth_mem by metis
  then show ?thesis using inv WakeProducer by (auto simp: pc_counts_def [of "pc_producers s"] intro!: pc_counts_update [OF inv])
qed (use inv in simp_all)

lemma pc_fifo_step:
  assumes "pc_step s s'" and "pc_fifo s"
  shows "pc_fifo s'"
  using assms(1)
proof (cases rule: pc_step_cases)
  case (Put t i w cs)
  have "rg_count (pc_buffer s) < BUFFER_SIZE" using assms(2) Put(3) by (simp add: pc_fifo_def rg_ok_def)
  then show ?thesis using assms(2) Put(5) rg_put_ok [of BUFFER_SIZE "pc_buffer s" "pc_item i"] by (simp add: pc_fifo_def)
next
  case (Get t item q p ps)
  then show ?thesis using assms(2) rg_get_ok [of BUFFER_SIZE "pc_buffer s"] by (simp add: pc_fifo_def)
qed (use assms(2) in \<open>simp_all add: pc_fifo_def\<close>)

lemma pc_ended_step:
  assumes "pc_step s s'" and "pc_ended s"
  shows "pc_ended s'"
  using assms(1)
proof (cases rule: pc_step_cases)
  case (Put t i w cs)
  then show ?thesis using assms(2) cond_signal_Some [OF Put(4)] by (auto simp: pc_ended_def)
next
  case (Main m f)
  have "f ConsumerDone = ConsumerDone" using spec [OF Main(2), of ConsumerDone] by simp
  then show ?thesis using assms(2) Main(1,3) by (auto simp: pc_ended_def list_all_length)
qed (use assms(2) in \<open>auto simp: pc_ended_def\<close>)

lemma pc_inv_step: "pc_step s s' \<Longrightarrow> pc_inv s \<Longrightarrow> pc_inv s'"
  by (simp add: pc_inv_def pc_fifo_step pc_counts_step pc_ended_step)

lemma pc_inv_reachable: "pc_step\<^sup>*\<^sup>* pc_init s \<Longrightarrow> pc_inv s"
  by (induction rule: rtranclp_induct) (auto intro: pc_inv_init pc_inv_step)

lemma pc_sent_bound:
  assumes "pc_counts ps sent"
  shows "length sent \<le> total_to_be_produced"
proof -
  have "sum_list (map pc_progress ps) \<le> PRODUCES_PER_PRODUCER * length (map pc_progress ps)"
    using assms by (intro sum_list_bound) (auto simp: pc_counts_def)
  then show ?thesis using assms by (simp add: pc_counts_def total_to_be_produced_def mult.commute)
qed

text \<open>Once everything has been consumed, a consumer in the loop on \<^verbatim>\<open>count\<close> stays there.\<close>

definition pc_caught :: "nat \<Rightarrow> pc_state \<Rightarrow> bool" where
  "pc_caught t s \<longleftrightarrow> t < NUMBER_OF_CONSUMERS \<and> consumed_total s = total_to_be_produced \<and> pc_consumers s ! t \<in> {ConsumerWaits, Woken}"

lemma pc_caught_step:
  assumes "pc_step s s'" and inv: "pc_inv s" and caught: "pc_caught t s"
  shows "pc_caught t s'"
  using assms(1)
proof (cases rule: pc_step_cases)
  case (Get t item q p ps)
  have "length (pc_received s) + rg_count (pc_buffer s) \<le> total_to_be_produced"
    using pc_sent_bound [of "pc_producers s" "pc_sent s"] inv by (auto simp: pc_inv_def pc_fifo_def)
  then show ?thesis using Get(3) inv caught by (simp add: pc_caught_def pc_inv_def pc_fifo_def)
next
  case (Put u i w cs)
  then show ?thesis using cond_signal_Some [OF Put(4)] caught by (auto simp: pc_caught_def nth_list_update split: if_splits)
next
  case (Consumer u c)
  then show ?thesis using caught inv by (auto simp: pc_caught_def pc_inv_def pc_ended_def nth_list_update)
next
  case (Main m f)
  have "f (pc_consumers s ! t) \<in> {ConsumerWaits, Woken}" using caught spec [OF Main(2), of "pc_consumers s ! t"] by (auto simp: pc_caught_def)
  then show ?thesis using Main caught inv by (auto simp: pc_caught_def pc_inv_def pc_ended_def)
next
  case (WakeConsumer u)
  then show ?thesis using caught inv by (auto simp: pc_caught_def pc_inv_def pc_ended_def nth_list_update)
qed (use caught in \<open>simp_all add: pc_caught_def\<close>)

lemma pc_caught_forever:
  assumes "pc_step\<^sup>*\<^sup>* s s'" and "pc_inv s" and "pc_caught t s"
  shows "pc_caught t s' \<and> pc_main s' \<noteq> MainDone"
proof -
  have "pc_inv s' \<and> pc_caught t s'" using assms by (induction rule: rtranclp_induct) (auto intro: pc_inv_step pc_caught_step)
  moreover have "pc_main s' \<noteq> MainDone" if "pc_inv s'" "pc_caught t s'"
    using that by (auto simp: pc_inv_def pc_ended_def pc_caught_def)
  ultimately show ?thesis by blast
qed

text \<open>The schedule in which the first consumer takes every item while the other two wait.\<close>

definition pc_single :: "nat \<Rightarrow> pc_state \<Rightarrow> bool" where
  "pc_single n s \<longleftrightarrow> pc_step\<^sup>*\<^sup>* pc_init s \<and> consumed_total s = n \<and> rg_count (pc_buffer s) = 0 \<and>
     (\<forall>p\<in>set (pc_producers s). \<not> pc_pwaiting p) \<and>
     pc_consumers s = [if n = total_to_be_produced then AtTop else ConsumerWaits, ConsumerWaits, ConsumerWaits]"

lemma pc_single_next:
  assumes s: "pc_single n s" and n: "n < total_to_be_produced"
  shows "\<exists>s'. pc_single (Suc n) s'"
proof -
  have inv: "pc_fifo s" "pc_counts (pc_producers s) (pc_sent s)" using s pc_inv_reachable by (auto simp: pc_single_def pc_inv_def)
  have "sum_list (map pc_progress (pc_producers s)) < NUMBER_OF_PRODUCERS * PRODUCES_PER_PRODUCER"
    using inv s n by (simp add: pc_single_def pc_fifo_def pc_counts_def total_to_be_produced_def)
  then have "pc_producers s \<noteq> replicate NUMBER_OF_PRODUCERS ProducerDone" by (auto simp: sum_list_replicate)
  then obtain t where t: "t < NUMBER_OF_PRODUCERS" "pc_producers s ! t \<noteq> ProducerDone"
    using inv(2) by (auto simp: pc_counts_def list_eq_iff_nth_eq)
  have "\<not> pc_pwaiting (pc_producers s ! t)" using s t(1) inv(2) by (simp add: pc_single_def pc_counts_def)
  then obtain i where i: "pc_producers s ! t = Produce i" using t(2) by (cases "pc_producers s ! t") auto
  let ?p = "if i + 1 < PRODUCES_PER_PRODUCER then Produce (i + 1) else ProducerDone"
  let ?s1 = "s\<lparr>pc_buffer := rg_put (pc_item i) (pc_buffer s), pc_consumers := [Woken, ConsumerWaits, ConsumerWaits],
      pc_producers := (pc_producers s)[t := ?p], pc_sent := pc_sent s @ [pc_item i]\<rparr>"
  obtain item q where q: "rg_get (pc_buffer ?s1) = (item, q)" by (cases "rg_get (pc_buffer ?s1)")
  let ?s2 = "?s1\<lparr>pc_buffer := q, consumed_total := Suc n, pc_consumers := [AtTop, ConsumerWaits, ConsumerWaits],
      pc_received := pc_received s @ [item]\<rparr>"
  have waiting: "\<forall>p\<in>set ((pc_producers s)[t := ?p]). \<not> pc_pwaiting p"
    using s by (auto simp: pc_single_def dest!: set_update_subset_insert [THEN subsetD])
  have start: "pc_step\<^sup>*\<^sup>* pc_init s" using s by (simp add: pc_single_def)
  have "pc_produce t 0 s = Some ?s1" using s i n by (simp add: pc_single_def pc_produce_def cond_signal_def BUFFER_SIZE_def)
  then have run: "pc_step\<^sup>*\<^sup>* pc_init ?s1" by (rule rtranclp.rtrancl_into_rtrancl [OF start pc_step_produce [OF t(1)]])
  have count: "rg_count (rg_put (pc_item i) (pc_buffer s)) = 1" "rg_count q = 0"
    using s q by (auto simp: pc_single_def rg_put_def rg_get_def)
  have first: "0 < NUMBER_OF_CONSUMERS" by (simp add: NUMBER_OF_CONSUMERS_def)
  have "pc_consume 0 0 ?s1 = Some ?s2" using s q count(1) waiting
    by (simp add: pc_single_def pc_consume_def pc_take_def cond_signal_def list_ex_iff)
  then have run2: "pc_step\<^sup>*\<^sup>* pc_init ?s2" by (rule rtranclp.rtrancl_into_rtrancl [OF run pc_step_consume [OF first]])
  show ?thesis
  proof (cases "Suc n = total_to_be_produced")
    case True
    then show ?thesis using run2 waiting count(2) by (intro exI [of _ ?s2]) (simp add: pc_single_def)
  next
    case False
    then have "pc_consume 0 0 ?s2 = Some (?s2\<lparr>pc_consumers := [ConsumerWaits, ConsumerWaits, ConsumerWaits]\<rparr>)"
      using n count(2) by (simp add: pc_consume_def pc_take_def)
    then have "pc_step\<^sup>*\<^sup>* pc_init (?s2\<lparr>pc_consumers := [ConsumerWaits, ConsumerWaits, ConsumerWaits]\<rparr>)"
      by (rule rtranclp.rtrancl_into_rtrancl [OF run2 pc_step_consume [OF first]])
    then show ?thesis using False waiting count(2)
      by (intro exI [of _ "?s2\<lparr>pc_consumers := [ConsumerWaits, ConsumerWaits, ConsumerWaits]\<rparr>"]) (simp add: pc_single_def)
  qed
qed

lemma pc_single_start: "\<exists>s. pc_single 0 s"
proof -
  let ?s = "\<lambda>cs. pc_init\<lparr>pc_consumers := cs\<rparr>"
  have run: "pc_step (?s cs) (?s (cs[t := ConsumerWaits]))" if "t < NUMBER_OF_CONSUMERS" "cs ! t = AtTop" for t cs
    using that by (intro pc_step_consume [of t 0]) (simp_all add: pc_consume_def pc_take_def pc_init_def pc_consts)
  have init: "?s [AtTop, AtTop, AtTop] = pc_init" by (simp add: pc_init_def NUMBER_OF_CONSUMERS_def numeral_eq_Suc)
  have "pc_step\<^sup>*\<^sup>* pc_init (?s [ConsumerWaits, AtTop, AtTop])"
    using run [of 0 "[AtTop, AtTop, AtTop]"] init by (simp add: NUMBER_OF_CONSUMERS_def)
  then have "pc_step\<^sup>*\<^sup>* pc_init (?s [ConsumerWaits, ConsumerWaits, AtTop])"
    using run [of 1 "[ConsumerWaits, AtTop, AtTop]"] rtranclp.rtrancl_into_rtrancl by (fastforce simp: NUMBER_OF_CONSUMERS_def)
  then have "pc_step\<^sup>*\<^sup>* pc_init (?s [ConsumerWaits, ConsumerWaits, ConsumerWaits])"
    using run [of 2 "[ConsumerWaits, ConsumerWaits, AtTop]"] rtranclp.rtrancl_into_rtrancl by (fastforce simp: NUMBER_OF_CONSUMERS_def)
  then show ?thesis by (intro exI [of _ "?s [ConsumerWaits, ConsumerWaits, ConsumerWaits]"])
      (simp add: pc_single_def, simp add: pc_init_def pc_consts)
qed

lemma pc_single_all: "n \<le> total_to_be_produced \<Longrightarrow> \<exists>s. pc_single n s"
proof (induction n)
  case (Suc n)
  then show ?case using pc_single_next by (meson Suc_leD Suc_le_lessD)
qed (rule pc_single_start)

text \<open>
  C28. In every state that the threads of \<^verbatim>\<open>producer_consumer_queue_using_cond_variable.c\<close> can reach, the buffer holds at most \<open>BUFFER_SIZE\<close> items, the
  consumers have received, in order, the beginning of what was produced, \<^verbatim>\<open>consumed_total\<close> counts them, each item
  number has been produced as often as there are producers past it, and no more than \<^verbatim>\<open>total_to_be_produced\<close> items are ever produced.
\<close>

theorem producer_consumer_fifo:
  assumes "pc_step\<^sup>*\<^sup>* pc_init s"
  shows "rg_ok BUFFER_SIZE (pc_buffer s) \<and> pc_sent s = pc_received s @ rg_contents (pc_buffer s) \<and>
    consumed_total s = length (pc_received s) \<and> length (pc_sent s) \<le> total_to_be_produced \<and>
    cnt (\<lambda>x. x = pc_item i) (pc_sent s) = cnt (\<lambda>p. i < pc_progress p) (pc_producers s)"
  using pc_inv_reachable [OF assms] pc_sent_bound [of "pc_producers s" "pc_sent s"]
  by (auto simp: pc_inv_def pc_fifo_def pc_counts_def)

theorem producer_consumer_fifo_witness:
  "\<exists>s. pc_step\<^sup>*\<^sup>* pc_init s \<and> consumed_total s = 80 \<and> length (pc_received s) = 80"
proof -
  obtain s where "pc_single 80 s" using pc_single_all [of 80] by (auto simp: pc_consts)
  then have s: "pc_step\<^sup>*\<^sup>* pc_init s" "consumed_total s = 80" by (auto simp: pc_single_def)
  then show ?thesis using producer_consumer_fifo [OF s(1)] by metis
qed

text \<open>
  \<^verbatim>\<open>producer_consumer_queue_using_cond_variable.c\<close> can hang: a consumer that is still in its loop on \<^verbatim>\<open>count\<close> when the last item has been
  consumed stays in it whatever happens next, the final broadcast included, so \<^verbatim>\<open>main\<close> never returns from joining it; and such a state is reachable.
\<close>

theorem producer_consumer_hangs:
  "(\<forall>s t s'. pc_step\<^sup>*\<^sup>* pc_init s \<and> pc_caught t s \<and> pc_step\<^sup>*\<^sup>* s s' \<longrightarrow> pc_caught t s' \<and> pc_main s' \<noteq> MainDone) \<and>
   (\<exists>s. pc_step\<^sup>*\<^sup>* pc_init s \<and> pc_caught 1 s)"
proof -
  obtain s where "pc_single total_to_be_produced s" using pc_single_all by blast
  then have "pc_step\<^sup>*\<^sup>* pc_init s \<and> pc_caught 1 s" by (simp add: pc_single_def pc_caught_def NUMBER_OF_CONSUMERS_def)
  then show ?thesis using pc_caught_forever pc_inv_reachable by blast
qed

theorem producer_consumer_hangs_witness:
  "\<exists>s. pc_step\<^sup>*\<^sup>* pc_init s \<and> (\<forall>s'. pc_step\<^sup>*\<^sup>* s s' \<longrightarrow> pc_main s' \<noteq> MainDone)"
  using producer_consumer_hangs by blast
end
