(* ===== verification/Allocators.thy ===== *)
theory Allocators
  imports Heap
begin

text \<open>
  Two allocators without free lists: the bump allocator \<^verbatim>\<open>day-1(Heap_Mem)/memory-pool.c\<close> and the unit allocator
  \<^verbatim>\<open>day-5(Leetcode_LRU)/leetcode-memory-allocator.c\<close>.

  The results of \<^verbatim>\<open>malloc\<close> in the bump allocator are arguments (an address, 0 when it fails); its sizes are 64-bit
  words, since its test for exhaustion adds them. The unit allocator takes its calls of \<^verbatim>\<open>calloc\<close> and \<^verbatim>\<open>realloc\<close> to
  succeed, as the source does; what \<^verbatim>\<open>realloc\<close> adds to an array is written before it is read, so its contents do not matter.
\<close>

section \<open>The bump allocator\<close>

record memory_pool_t =
  mp_memory :: nat
  mp_size :: "64 word"
  mp_used :: "64 word"
  mp_block_size :: "64 word"

definition pool_create :: "nat \<Rightarrow> nat \<Rightarrow> 64 word \<Rightarrow> 64 word \<Rightarrow> memory_pool_t option \<times> outs" where
  "pool_create pool memory total_size block_size =
     (if pool = 0 then (None, [])
      else if memory = 0 then (None, [])
      else (Some \<lparr>mp_memory = memory, mp_size = total_size, mp_used = 0, mp_block_size = block_size\<rparr>,
            [Txt ''Created memory pool : '', Num (uint total_size), Txt '' bytes, block size : '', Num (uint block_size)]))"

definition pool_alloc :: "memory_pool_t option \<Rightarrow> (nat \<times> memory_pool_t option \<times> outs) res" where
  "pool_alloc pool =
     (case pool of
        None \<Rightarrow> Inl NullDeref
      | Some p \<Rightarrow>
          if mp_used p + mp_block_size p > mp_size p then Inr (0, Some p, [Txt ''Memory pool is exhausted!''])
          else Inr (mp_memory p + unat (mp_used p), Some (p\<lparr>mp_used := mp_used p + mp_block_size p\<rparr>), []))"

definition pool_reset :: "memory_pool_t option \<Rightarrow> (memory_pool_t option \<times> outs) res" where
  "pool_reset pool =
     (case pool of
        None \<Rightarrow> Inl NullDeref
      | Some p \<Rightarrow> Inr (Some (p\<lparr>mp_used := 0\<rparr>), [Txt ''Pool reset - All memory are free now'']))"

text \<open>The blocks that \<^verbatim>\<open>pool_destroy\<close> passes to \<^verbatim>\<open>free\<close>; \<open>a\<close> is the address of the pool.\<close>

definition pool_destroy :: "nat \<Rightarrow> memory_pool_t option \<Rightarrow> nat list" where
  "pool_destroy a pool = (case pool of None \<Rightarrow> [] | Some p \<Rightarrow> [mp_memory p, a])"

text \<open>The addresses that \<open>n\<close> allocations return, and the pool after them.\<close>

fun pool_allocs :: "nat \<Rightarrow> memory_pool_t option \<Rightarrow> (nat list \<times> memory_pool_t option) res" where
  "pool_allocs 0 pool = Inr ([], pool)"
| "pool_allocs (Suc n) pool =
     bindE (pool_alloc pool) (\<lambda>(a, pool, out). bindE (pool_allocs n pool) (\<lambda>(as, pool). Inr (a # as, pool)))"

text \<open>
  \<^verbatim>\<open>dbms_scenario\<close>: the records written, each with its address, and the blocks freed at the end. A record is
  written only where the allocation succeeded.
\<close>

definition pool_dbms_scenario :: "nat \<Rightarrow> nat \<Rightarrow> ((nat \<times> outs) list \<times> nat list) res" where
  "pool_dbms_scenario pool memory =
     bindE (pool_allocs 100 (fst (pool_create pool memory (1024 * 1024) 256))) (\<lambda>(as, p).
       bindE (pool_reset p) (\<lambda>(p, out).
         Inr (map (\<lambda>(i, a). (a, [Txt ''Record '', Num (int i), Txt '' data''])) (filter (\<lambda>(i, a). a \<noteq> 0) (enumerate 0 as)),
              pool_destroy pool p)))"

section \<open>The unit allocator\<close>

record Allocator =
  al_memory :: "int list"
  al_size :: int
  mIDPositions :: "int list list"
  mIDCounts :: "int list"

definition allocatorCreate :: "nat \<Rightarrow> Allocator" where
  "allocatorCreate n = \<lparr>al_memory = replicate n 0, al_size = int n, mIDPositions = replicate 1001 [], mIDCounts = replicate 1001 0\<rparr>"

definition al_realloc :: "int list \<Rightarrow> int \<Rightarrow> int list" where
  "al_realloc xs n = take (nat n) xs @ replicate (nat n - length xs) 0"

text \<open>The loop that marks the \<open>size\<close> units from \<open>start\<close> and records their positions.\<close>

definition al_mark :: "int \<Rightarrow> int \<Rightarrow> Allocator \<Rightarrow> int \<Rightarrow> Allocator res" where
  "al_mark mID start obj j =
     bindE (arr_set (al_memory obj) (start + j) mID) (\<lambda>mem.
       bindE (arr_get (mIDPositions obj) mID) (\<lambda>pos.
         bindE (arr_get (mIDCounts obj) mID) (\<lambda>c.
           bindE (arr_set pos c (start + j)) (\<lambda>pos'.
             bindE (arr_set (mIDPositions obj) mID pos') (\<lambda>poss.
               bindE (arr_set (mIDCounts obj) mID (c + 1)) (\<lambda>cs.
                 Inr (obj\<lparr>al_memory := mem, mIDPositions := poss, mIDCounts := cs\<rparr>)))))))"

definition al_place :: "Allocator \<Rightarrow> int \<Rightarrow> int \<Rightarrow> int \<Rightarrow> (int \<times> Allocator) res" where
  "al_place obj size' mID start =
     bindE (arr_get (mIDPositions obj) mID) (\<lambda>pos.
       bindE (arr_get (mIDCounts obj) mID) (\<lambda>c.
         bindE (arr_set (mIDPositions obj) mID (al_realloc pos (c + size'))) (\<lambda>poss.
           bindE (foldE (al_mark mID start) [0..size' - 1] (obj\<lparr>mIDPositions := poss\<rparr>)) (\<lambda>obj'.
             Inr (start, obj')))))"

function al_scan :: "Allocator \<Rightarrow> int \<Rightarrow> int \<Rightarrow> int \<Rightarrow> int \<Rightarrow> (int \<times> Allocator) res" where
  "al_scan obj size' mID run iterator =
     (if iterator < al_size obj then
        bindE (arr_get (al_memory obj) iterator) (\<lambda>x.
          let run = (if x = 0 then run + 1 else 0) in
          if run = size' then
            al_place obj size' mID (iterator - size' + 1)
          else al_scan obj size' mID run (iterator + 1))
      else Inr (-1, obj))"
  by pat_completeness auto
termination
  by (relation "measure (\<lambda>(obj, size', mID, run, iterator). nat (al_size obj - iterator))") auto

declare al_scan.simps [simp del]

definition allocatorAllocate :: "Allocator \<Rightarrow> int \<Rightarrow> int \<Rightarrow> (int \<times> Allocator) res" where
  "allocatorAllocate obj size' mID = al_scan obj size' mID 0 0"

definition al_unmark :: "int list \<Rightarrow> int list \<Rightarrow> int \<Rightarrow> int list res" where
  "al_unmark pos mem i = bindE (arr_get pos i) (\<lambda>p. arr_set mem p 0)"

definition allocatorFreeMemory :: "Allocator \<Rightarrow> int \<Rightarrow> (int \<times> Allocator) res" where
  "allocatorFreeMemory obj mID =
     bindE (arr_get (mIDCounts obj) mID) (\<lambda>freed.
       bindE (arr_get (mIDPositions obj) mID) (\<lambda>pos.
         bindE (foldE (al_unmark pos) [0..freed - 1] (al_memory obj)) (\<lambda>mem.
           bindE (arr_set (mIDPositions obj) mID []) (\<lambda>poss.
             bindE (arr_set (mIDCounts obj) mID 0) (\<lambda>cs.
               Inr (freed, obj\<lparr>al_memory := mem, mIDPositions := poss, mIDCounts := cs\<rparr>))))))"

text \<open>\<^verbatim>\<open>allocatorFree\<close> visits the arrays of all identifiers before it frees everything.\<close>

definition allocatorFree :: "Allocator \<Rightarrow> unit res" where
  "allocatorFree obj = foldE (\<lambda>_ i. bindE (arr_get (mIDPositions obj) i) (\<lambda>_. Inr ())) [0..1000] ()"

text \<open>The contract: first fit on the array of units.\<close>

definition unit_fits :: "int list \<Rightarrow> nat \<Rightarrow> nat \<Rightarrow> bool" where
  "unit_fits mem n p \<longleftrightarrow> p + n \<le> length mem \<and> (\<forall>x\<in>set (take n (drop p mem)). x = 0)"

definition unit_alloc :: "int list \<Rightarrow> nat \<Rightarrow> int \<Rightarrow> int \<times> int list" where
  "unit_alloc mem n mID =
     (case find (unit_fits mem n) [0..<length mem] of
        None \<Rightarrow> (-1, mem)
      | Some p \<Rightarrow> (int p, take p mem @ replicate n mID @ drop (p + n) mem))"

definition unit_free :: "int list \<Rightarrow> int \<Rightarrow> int \<times> int list" where
  "unit_free mem mID = (int (count_list mem mID), map (\<lambda>x. if x = mID then 0 else x) mem)"

datatype unit_op = UAlloc nat int | UFree int

fun unit_run :: "unit_op list \<Rightarrow> int list \<Rightarrow> int list" where
  "unit_run [] mem = []"
| "unit_run (UAlloc n mID # ops) mem = (case unit_alloc mem n mID of (r, mem') \<Rightarrow> r # unit_run ops mem')"
| "unit_run (UFree mID # ops) mem = (case unit_free mem mID of (r, mem') \<Rightarrow> r # unit_run ops mem')"

fun al_run :: "unit_op list \<Rightarrow> Allocator \<Rightarrow> int list res" where
  "al_run [] obj = Inr []"
| "al_run (UAlloc n mID # ops) obj =
     bindE (allocatorAllocate obj (int n) mID) (\<lambda>(r, obj'). bindE (al_run ops obj') (\<lambda>rs. Inr (r # rs)))"
| "al_run (UFree mID # ops) obj =
     bindE (allocatorFreeMemory obj mID) (\<lambda>(r, obj'). bindE (al_run ops obj') (\<lambda>rs. Inr (r # rs)))"

fun unit_op_ok :: "unit_op \<Rightarrow> bool" where
  "unit_op_ok (UAlloc n mID) \<longleftrightarrow> 1 \<le> n \<and> 1 \<le> mID \<and> mID \<le> 1000"
| "unit_op_ok (UFree mID) \<longleftrightarrow> 1 \<le> mID \<and> mID \<le> 1000"

section \<open>Proofs: the bump allocator\<close>

definition pool_block :: "memory_pool_t \<Rightarrow> nat \<Rightarrow> nat" where
  "pool_block p i =
     (if unat (mp_used p) + Suc i * unat (mp_block_size p) \<le> unat (mp_size p)
      then mp_memory p + unat (mp_used p) + i * unat (mp_block_size p) else 0)"

definition pool_ok :: "memory_pool_t \<Rightarrow> bool" where
  "pool_ok p \<longleftrightarrow> unat (mp_size p) < 2 ^ 63 \<and> unat (mp_used p) \<le> unat (mp_size p) \<and>
     (mp_used p = 0 \<or> unat (mp_block_size p) \<le> unat (mp_size p))"

lemma pool_alloc_step:
  assumes "pool_ok p"
  shows "\<exists>p' out. pool_alloc (Some p) = Inr (pool_block p 0, Some p', out) \<and> pool_ok p' \<and> (\<forall>i. pool_block p' i = pool_block p (Suc i)) \<and>
      mp_memory p' = mp_memory p \<and> mp_size p' = mp_size p \<and> mp_block_size p' = mp_block_size p"
proof -
  let ?b = "unat (mp_block_size p)" let ?u = "unat (mp_used p)"
  have "?u + ?b < 2 ^ 64" using assms unsigned_less [of "mp_block_size p", where 'a = nat] by (auto simp: pool_ok_def)
  then have sum: "unat (mp_used p + mp_block_size p) = ?u + ?b" by (simp add: unat_word_ariths)
  show ?thesis
  proof (cases "?u + ?b \<le> unat (mp_size p)")
    case True
    then have "\<not> mp_used p + mp_block_size p > mp_size p" using sum by (simp add: word_less_nat_alt)
    then show ?thesis using True sum assms by (simp add: pool_alloc_def pool_block_def pool_ok_def add_ac)
  next
    case False
    then have "mp_used p + mp_block_size p > mp_size p" using sum by (simp add: word_less_nat_alt)
    moreover have "pool_block p i = 0" for i using False by (simp add: pool_block_def)
    ultimately show ?thesis using assms by (simp add: pool_alloc_def)
  qed
qed

lemma pool_allocs_ok:
  assumes "pool_ok p"
  shows "\<exists>p'. pool_allocs n (Some p) = Inr (map (pool_block p) [0..<n], Some p') \<and> pool_ok p' \<and>
    mp_memory p' = mp_memory p \<and> mp_size p' = mp_size p \<and> mp_block_size p' = mp_block_size p"
  using assms
proof (induction n arbitrary: p)
  case (Suc n)
  obtain p1 out where p1: "pool_alloc (Some p) = Inr (pool_block p 0, Some p1, out)" "pool_ok p1" "\<forall>i. pool_block p1 i = pool_block p (Suc i)"
    "mp_memory p1 = mp_memory p" "mp_size p1 = mp_size p" "mp_block_size p1 = mp_block_size p"
    using pool_alloc_step [OF Suc.prems] by blast
  have "map (pool_block p) [0..<Suc n] = pool_block p 0 # map (pool_block p1) [0..<n]"
    using p1(3) by (simp add: map_upt_Suc del: upt_Suc)
  then show ?case using Suc.IH [OF p1(2)] p1 by (auto simp del: upt_Suc)
qed simp

definition nth_block :: "nat \<Rightarrow> 64 word \<Rightarrow> 64 word \<Rightarrow> nat \<Rightarrow> nat" where
  "nth_block memory total_size block_size i =
     (if Suc i * unat block_size \<le> unat total_size then memory + i * unat block_size else 0)"

lemma pool_create_allocs:
  assumes "pool \<noteq> 0" and "memory \<noteq> 0" and "unat total_size < 2 ^ 63"
  shows "\<exists>p'. pool_allocs n (fst (pool_create pool memory total_size block_size)) = Inr (map (nth_block memory total_size block_size) [0..<n], Some p') \<and>
    Some (p'\<lparr>mp_used := 0\<rparr>) = fst (pool_create pool memory total_size block_size)"
proof -
  let ?p = "\<lparr>mp_memory = memory, mp_size = total_size, mp_used = 0, mp_block_size = block_size\<rparr>"
  have "pool_ok ?p" using assms(3) by (simp add: pool_ok_def)
  moreover have "pool_block ?p = nth_block memory total_size block_size" by (simp add: pool_block_def nth_block_def fun_eq_iff)
  ultimately show ?thesis using pool_allocs_ok [of ?p n] assms(1,2) by (auto simp: pool_create_def)
qed

text \<open>
  C31. From a fresh pool of at most \<open>2 ^ 63 - 1\<close> bytes (the most \<^verbatim>\<open>malloc\<close> provides), the additions of \<^verbatim>\<open>pool_alloc\<close> never wrap around: the
  \<open>i\<close>-th allocation returns the \<open>i\<close>-th block of the memory while that block fits and \<^verbatim>\<open>NULL\<close> afterwards, and after \<^verbatim>\<open>pool_reset\<close> the same
  blocks are handed out again.
\<close>

theorem bump_pool_correct:
  assumes "pool \<noteq> 0" and "memory \<noteq> 0" and "unat total_size < 2 ^ 63"
  shows "\<exists>p' p'' out. pool_allocs n (fst (pool_create pool memory total_size block_size)) = Inr (map (nth_block memory total_size block_size) [0..<n], p') \<and>
    pool_reset p' = Inr (p'', out) \<and> (\<exists>q. pool_allocs m p'' = Inr (map (nth_block memory total_size block_size) [0..<m], q))"
proof -
  obtain p' where p': "pool_allocs n (fst (pool_create pool memory total_size block_size)) = Inr (map (nth_block memory total_size block_size) [0..<n], Some p')"
    "Some (p'\<lparr>mp_used := 0\<rparr>) = fst (pool_create pool memory total_size block_size)" using pool_create_allocs [OF assms] by blast
  then show ?thesis using pool_create_allocs [OF assms, of m block_size] by (auto simp: pool_reset_def)
qed

theorem bump_pool_correct_witness:
  "\<exists>p' p'' out. pool_allocs 3 (fst (pool_create 1 16 10 4)) = Inr ([16, 20, 0], p') \<and> pool_reset p' = Inr (p'', out) \<and>
     (\<exists>q. pool_allocs 2 p'' = Inr ([16, 20], q))"
  using bump_pool_correct [of 1 16 "10 :: 64 word" 3 "4 :: 64 word" 2] by (simp add: nth_block_def upt_rec)

lemma pool_dbms_scenario_records:
  assumes "pool \<noteq> 0" and "memory \<noteq> 0"
  shows "pool_dbms_scenario pool memory =
    Inr (map (\<lambda>i. (memory + i * 256, [Txt ''Record '', Num (int i), Txt '' data''])) [0..<100], [memory, pool])"
proof -
  let ?c = "fst (pool_create pool memory (1024 * 1024) 256)"
  obtain p' where p: "pool_allocs 100 ?c = Inr (map (nth_block memory (1024 * 1024) 256) [0..<100], Some p')" "Some (p'\<lparr>mp_used := 0\<rparr>) = ?c"
    using pool_create_allocs [OF assms, of "1024 * 1024" 100 256] by auto
  have "nth_block memory (1024 * 1024) 256 i = memory + i * 256" if "i < 100" for i using that by (simp add: nth_block_def)
  then have "map (nth_block memory (1024 * 1024) 256) [0..<100] = map (\<lambda>i. memory + i * 256) [0..<100]" by simp
  moreover have "pool_destroy pool (Some (p'\<lparr>mp_used := 0\<rparr>)) = [memory, pool]" using p(2) assms by (simp add: pool_destroy_def pool_create_def)
  ultimately show ?thesis using p(1) assms(2)
    by (simp add: pool_dbms_scenario_def pool_reset_def enumerate_map_upt filter_map comp_def)
qed

section \<open>Proofs: the unit allocator\<close>

definition al_inv :: "Allocator \<Rightarrow> bool" where
  "al_inv obj \<longleftrightarrow> al_size obj = int (length (al_memory obj)) \<and> length (mIDPositions obj) = 1001 \<and> length (mIDCounts obj) = 1001 \<and>
     (\<forall>m\<in>{1..1000}. mIDCounts obj ! m = int (length (mIDPositions obj ! m)) \<and> distinct (mIDPositions obj ! m) \<and>
        set (mIDPositions obj ! m) = int ` {i. i < length (al_memory obj) \<and> al_memory obj ! i = int m})"

lemma al_inv_create: "al_inv (allocatorCreate n)"
  by (auto simp: al_inv_def allocatorCreate_def)

lemma allocatorFree_ok:
  assumes "al_inv obj"
  shows "allocatorFree obj = Inr ()"
proof -
  have "\<exists>u. allocatorFree obj = Inr u \<and> True" unfolding allocatorFree_def using assms by (intro foldE_invariant) (auto simp: al_inv_def)
  then show ?thesis by simp
qed

lemma unit_fits_iff: "unit_fits mem n p \<longleftrightarrow> p + n \<le> length mem \<and> (\<forall>i. p \<le> i \<and> i < p + n \<longrightarrow> mem ! i = 0)"
proof -
  have "(\<forall>x\<in>set (take n (drop p mem)). x = 0) \<longleftrightarrow> (\<forall>j<n. mem ! (p + j) = 0)" if "p + n \<le> length mem"
    using that by (auto simp: all_set_conv_all_nth)
  moreover have "(\<forall>j<n. mem ! (p + j) = 0) \<longleftrightarrow> (\<forall>i. p \<le> i \<and> i < p + n \<longrightarrow> mem ! i = 0)"
    by (metis add_diff_inverse_nat nat_add_left_cancel_less not_le le_add1)
  ultimately show ?thesis by (auto simp: unit_fits_def)
qed

text \<open>The scan: \<open>run\<close> free units lie before \<open>it\<close>, no fewer, and no fit ends there.\<close>

lemma al_scan_first_fit:
  fixes run it :: nat
  assumes "al_size obj = int (length (al_memory obj))" and "1 \<le> n" and "it \<le> length (al_memory obj)" and "run < n" and "run \<le> it"
    and zeros: "\<forall>i. it - run \<le> i \<and> i < it \<longrightarrow> al_memory obj ! i = 0" and stop: "run = it \<or> al_memory obj ! (it - run - 1) \<noteq> 0"
    and none: "\<forall>q. q + n \<le> it \<longrightarrow> \<not> unit_fits (al_memory obj) n q"
  shows "al_scan obj (int n) mID (int run) (int it) =
    (case find (unit_fits (al_memory obj) n) [0..<length (al_memory obj)] of
       None \<Rightarrow> Inr (-1, obj) | Some p \<Rightarrow> al_place obj (int n) mID (int p))"
  using assms
proof (induction "length (al_memory obj) - it" arbitrary: it run)
  case 0
  then have it: "it = length (al_memory obj)" by simp
  have "\<not> unit_fits (al_memory obj) n q" for q using 0(9) it by (auto simp: unit_fits_def)
  then have "find (unit_fits (al_memory obj) n) [0..<length (al_memory obj)] = None" by (simp add: find_None_iff)
  then show ?case using it 0(2) by (simp add: al_scan.simps)
next
  case (Suc k)
  let ?mem = "al_memory obj"
  have it: "it < length ?mem" using Suc(2) by simp
  let ?run = "if ?mem ! it = 0 then run + 1 else 0"
  have scan: "al_scan obj (int n) mID (int run) (int it) =
      (if ?run = n then al_place obj (int n) mID (int it - int n + 1) else al_scan obj (int n) mID (int ?run) (int (Suc it)))"
    using it Suc(3,4) by (subst al_scan.simps) (auto simp: Let_def add.commute)
  have ends: "\<not> unit_fits ?mem n q" if q: "q + n = Suc it" "?run \<noteq> n" for q
  proof
    assume "unit_fits ?mem n q"
    then have fit: "\<forall>i. q \<le> i \<and> i < Suc it \<longrightarrow> ?mem ! i = 0" using q(1) by (simp add: unit_fits_iff)
    then have "?mem ! it = 0" using q(1) Suc(4) by simp
    then have "Suc run < n" using q(2) Suc(6) by simp
    then have "run \<noteq> it" "q \<le> it - run - 1" using q(1) by auto
    then show False using fit Suc(7,9) by auto
  qed
  show ?case
  proof (cases "?run = n")
    case True
    then have n: "?mem ! it = 0" "n = run + 1" using Suc(4) by (auto split: if_splits)
    have "unit_fits ?mem n (it - run)" using n it Suc(7,8) by (auto simp: unit_fits_iff less_Suc_eq)
    moreover have "\<forall>q<it - run. \<not> unit_fits ?mem n q" using Suc(10) n(2) by auto
    ultimately have "find (unit_fits ?mem n) [0..<length ?mem] = Some (it - run)"
      using it by (auto simp: find_Some_iff intro!: exI [of _ "it - run"])
    then show ?thesis using scan True n(2) Suc(7) by simp
  next
    case False
    have "al_scan obj (int n) mID (int ?run) (int (Suc it)) =
      (case find (unit_fits ?mem n) [0..<length ?mem] of None \<Rightarrow> Inr (-1, obj) | Some p \<Rightarrow> al_place obj (int n) mID (int p))"
    proof (rule Suc(1))
      show "\<forall>q. q + n \<le> Suc it \<longrightarrow> \<not> unit_fits ?mem n q" using ends [OF _ False] Suc(10) by (metis le_SucE)
      show "\<forall>i. Suc it - ?run \<le> i \<and> i < Suc it \<longrightarrow> ?mem ! i = 0" using Suc(7,8) by (auto simp: less_Suc_eq)
      show "?run = Suc it \<or> ?mem ! (Suc it - ?run - 1) \<noteq> 0" using Suc(9) by auto
    qed (use Suc it False in auto)
    then show ?thesis using scan False by simp
  qed
qed

lemma al_mark_all:
  assumes "length (al_memory obj) \<ge> p + n" and m: "1 \<le> m" "m \<le> 1000" and len: "length (mIDPositions obj) = 1001" "length (mIDCounts obj) = 1001"
    and pos: "mIDPositions obj ! m = pos @ replicate n 0" "mIDCounts obj ! m = int (length pos)" and k: "k \<le> n"
  shows "foldE (al_mark (int m) (int p)) [0..int k - 1] obj =
    Inr (obj\<lparr>al_memory := take p (al_memory obj) @ replicate k (int m) @ drop (p + k) (al_memory obj),
             mIDPositions := (mIDPositions obj)[m := pos @ map int [p..<p + k] @ replicate (n - k) 0],
             mIDCounts := (mIDCounts obj)[m := int (length pos + k)]\<rparr>)"
  using k
proof (induction k)
  case 0
  have "(mIDPositions obj)[m := pos @ replicate n 0] = mIDPositions obj" "(mIDCounts obj)[m := int (length pos)] = mIDCounts obj"
    using pos by (metis list_update_id)+
  then show ?case by simp
next
  case (Suc k)
  have upto: "[0..int (Suc k) - 1] = [0..int k - 1] @ [int k]" by (simp add: upto_rec2)
  have rep: "replicate (n - k) (0::int) = 0 # replicate (n - Suc k) 0" using Suc.prems by (metis Suc_diff_le diff_Suc_Suc replicate_Suc)
  have mem: "(take p (al_memory obj) @ replicate k (int m) @ drop (p + k) (al_memory obj))[p + k := int m] =
      take p (al_memory obj) @ replicate (Suc k) (int m) @ drop (p + Suc k) (al_memory obj)"
  proof -
    have "p + k < length (al_memory obj)" using assms(1) Suc.prems by simp
    then have "drop (p + k) (al_memory obj) = al_memory obj ! (p + k) # drop (p + Suc k) (al_memory obj)"
      by (simp add: Cons_nth_drop_Suc)
    then show ?thesis using assms(1) Suc.prems by (simp add: list_update_append replicate_append_same [symmetric])
  qed
  have pos': "(pos @ map int [p..<p + k] @ 0 # replicate (n - Suc k) 0)[length pos + k := int p + int k] =
      pos @ map int [p..<p + Suc k] @ replicate (n - Suc k) 0"
    by (simp add: list_update_append)
  let ?o = "\<lambda>k. obj\<lparr>al_memory := take p (al_memory obj) @ replicate k (int m) @ drop (p + k) (al_memory obj),
             mIDPositions := (mIDPositions obj)[m := pos @ map int [p..<p + k] @ replicate (n - k) 0],
             mIDCounts := (mIDCounts obj)[m := int (length pos + k)]\<rparr>"
  have "al_mark (int m) (int p) (?o k) (int k) = Inr (?o (Suc k))"
    using assms(1) m len Suc.prems 
    by (simp add: al_mark_def rep mem [simplified] pos' [simplified] nat_int_add add.commute [of 1])
  then show ?case using Suc unfolding upto foldE_append by simp
qed

lemma al_realloc_grow [simp]: "al_realloc xs (int (length xs) + int n) = xs @ replicate n 0"
  by (simp add: al_realloc_def nat_int_add)

lemma al_inv_nth:
  assumes "al_inv obj" and "1 \<le> m" and "m \<le> 1000"
  shows "mIDCounts obj ! m = int (length (mIDPositions obj ! m))" and "distinct (mIDPositions obj ! m)"
    and "set (mIDPositions obj ! m) = int ` {i. i < length (al_memory obj) \<and> al_memory obj ! i = int m}"
  using assms by (auto simp: al_inv_def)

lemma al_place_ok:
  assumes inv: "al_inv obj" and m: "1 \<le> m" "m \<le> 1000" and fits: "unit_fits (al_memory obj) n p"
  shows "\<exists>obj'. al_place obj (int n) (int m) (int p) = Inr (int p, obj') \<and> al_inv obj' \<and>
    al_memory obj' = take p (al_memory obj) @ replicate n (int m) @ drop (p + n) (al_memory obj)"
proof -
  let ?mem = "al_memory obj" let ?pos = "mIDPositions obj ! m"
  let ?mem' = "take p ?mem @ replicate n (int m) @ drop (p + n) ?mem"
  let ?obj = "obj\<lparr>al_memory := ?mem', mIDPositions := (mIDPositions obj)[m := ?pos @ map int [p..<p + n]],
      mIDCounts := (mIDCounts obj)[m := int (length ?pos + n)]\<rparr>"
  have len: "p + n \<le> length ?mem" "length (mIDPositions obj) = 1001" "length (mIDCounts obj) = 1001" "length ?mem' = length ?mem"
    using inv fits by (auto simp: al_inv_def unit_fits_def)
  note m_inv = al_inv_nth [OF inv]
  have "al_place obj (int n) (int m) (int p) = Inr (int p, ?obj)"
    using al_mark_all [of p n "obj\<lparr>mIDPositions := (mIDPositions obj)[m := ?pos @ replicate n 0]\<rparr>" m ?pos n] m len m_inv(1) [OF m]
    by (simp add: al_place_def)
  moreover have "al_inv ?obj"
  proof -
    have nth': "?mem' ! i = (if p \<le> i \<and> i < p + n then int m else ?mem ! i)" if "i < length ?mem" for i
      using that len(1) by (auto simp: nth_append)
    have used: "{i. i < length ?mem \<and> ?mem' ! i = int k} =
        {i. i < length ?mem \<and> ?mem ! i = int k} \<union> (if k = m then {p..<p + n} else {})" if "1 \<le> k" for k
      using nth' fits that len(1) by (auto simp: unit_fits_iff split: if_splits)
    have fresh: "set ?pos \<inter> set (map int [p..<p + n]) = {}"
      using m_inv(3) [OF m] fits m by (auto simp: unit_fits_iff)
    have "mIDCounts ?obj ! k = int (length (mIDPositions ?obj ! k)) \<and> distinct (mIDPositions ?obj ! k) \<and>
        set (mIDPositions ?obj ! k) = int ` {i. i < length ?mem \<and> ?mem' ! i = int k}" if k: "1 \<le> k" "k \<le> 1000" for k
    proof (cases "k = m")
      case True
      then show ?thesis using m_inv [OF m] fresh used [OF k(1)] m len by (simp add: distinct_map image_Un)
    next
      case False
      then show ?thesis using m_inv [OF k] used [OF k(1)] by simp
    qed
    then show ?thesis using inv len(4) unfolding al_inv_def by simp
  qed
  ultimately show ?thesis by (intro exI [of _ ?obj]) simp
qed

lemma al_allocate_ok:
  assumes inv: "al_inv obj" and m: "1 \<le> m" "m \<le> 1000" and n: "1 \<le> n"
  shows "\<exists>obj'. allocatorAllocate obj (int n) (int m) = Inr (fst (unit_alloc (al_memory obj) n (int m)), obj') \<and> al_inv obj' \<and>
    al_memory obj' = snd (unit_alloc (al_memory obj) n (int m))"
proof -
  have scan: "allocatorAllocate obj (int n) (int m) =
    (case find (unit_fits (al_memory obj) n) [0..<length (al_memory obj)] of
       None \<Rightarrow> Inr (-1, obj) | Some p \<Rightarrow> al_place obj (int n) (int m) (int p))"
    unfolding allocatorAllocate_def using al_scan_first_fit [of obj n 0 0 "int m"] inv n by (simp add: al_inv_def unit_fits_def)
  show ?thesis
  proof (cases "find (unit_fits (al_memory obj) n) [0..<length (al_memory obj)]")
    case None
    then show ?thesis using scan inv by (simp add: unit_alloc_def)
  next
    case (Some p)
    then have "unit_fits (al_memory obj) n p" by (auto simp: find_Some_iff)
    then show ?thesis using scan Some al_place_ok [OF inv m] by (auto simp: unit_alloc_def)
  qed
qed

lemma al_unmark_all:
  assumes "\<forall>q\<in>set pos. 0 \<le> q \<and> q < int (length mem)"
  shows "k \<le> length pos \<Longrightarrow> foldE (al_unmark pos) [0..int k - 1] mem = Inr (fold (\<lambda>q mem. mem[nat q := 0]) (take k pos) mem)"
proof (induction k)
  case (Suc k)
  have upto: "[0..int (Suc k) - 1] = [0..int k - 1] @ [int k]" by (simp add: upto_rec2)
  have len: "length (fold (\<lambda>q mem. mem[nat q := 0]) qs mem) = length mem" for qs and mem :: "int list"
    by (induction qs arbitrary: mem) simp_all
  have "0 \<le> pos ! k \<and> pos ! k < int (length mem)" using assms Suc.prems by simp
  then have "al_unmark pos (fold (\<lambda>q mem. mem[nat q := 0]) (take k pos) mem) (int k) =
      Inr (fold (\<lambda>q mem. mem[nat q := 0]) (take (Suc k) pos) mem)"
    using Suc.prems by (simp add: al_unmark_def take_Suc_conv_app_nth len)
  then show ?case unfolding upto foldE_append using Suc by simp
qed simp

lemma fold_clear_nth:
  "i < length mem \<Longrightarrow> \<forall>q\<in>set qs. 0 \<le> q \<Longrightarrow> fold (\<lambda>q mem. mem[nat q := 0]) qs mem ! i = (if int i \<in> set qs then 0 else mem ! i)"
  "length (fold (\<lambda>q mem. mem[nat q := 0]) qs mem) = length mem" for mem :: "int list"
  by (induction qs arbitrary: mem) (auto simp: nth_list_update)

lemma al_free_ok:
  assumes inv: "al_inv obj" and m: "1 \<le> m" "m \<le> 1000"
  shows "\<exists>obj'. allocatorFreeMemory obj (int m) = Inr (fst (unit_free (al_memory obj) (int m)), obj') \<and> al_inv obj' \<and>
    al_memory obj' = snd (unit_free (al_memory obj) (int m))"
proof -
  let ?mem = "al_memory obj" let ?pos = "mIDPositions obj ! m"
  let ?mem' = "map (\<lambda>x. if x = int m then 0 else x) ?mem"
  let ?obj = "obj\<lparr>al_memory := ?mem', mIDPositions := (mIDPositions obj)[m := []], mIDCounts := (mIDCounts obj)[m := 0]\<rparr>"
  note m_inv = al_inv_nth [OF inv]
  have range: "\<forall>q\<in>set ?pos. 0 \<le> q \<and> q < int (length ?mem)" using m_inv(3) [OF m] by auto
  have "fold (\<lambda>q mem. mem[nat q := 0]) ?pos ?mem = ?mem'"
    using range m_inv(3) [OF m] by (intro nth_equalityI) (auto simp: fold_clear_nth)
  then have unmark: "foldE (al_unmark ?pos) [0..int (length ?pos) - 1] ?mem = Inr ?mem'" using al_unmark_all [OF range order_refl] by simp
  have "length ?pos = card {i. i < length ?mem \<and> ?mem ! i = int m}"
    using distinct_card [OF m_inv(2) [OF m]] unfolding m_inv(3) [OF m] by (simp add: card_image)
  then have count: "length ?pos = count_list ?mem (int m)" by (simp add: count_list_eq_length_filter length_filter_conv_card eq_commute)
  have "allocatorFreeMemory obj (int m) = Inr (int (count_list ?mem (int m)), ?obj)"
    using inv m unmark m_inv(1) [OF m] count by (simp add: allocatorFreeMemory_def al_inv_def)
  moreover have "al_inv ?obj"
  proof -
    have "mIDCounts ?obj ! k = int (length (mIDPositions ?obj ! k)) \<and> distinct (mIDPositions ?obj ! k) \<and>
        set (mIDPositions ?obj ! k) = int ` {i. i < length ?mem \<and> ?mem' ! i = int k}" if k: "1 \<le> k" "k \<le> 1000" for k
    proof (cases "k = m")
      case True
      then show ?thesis using inv m by (auto simp: al_inv_def)
    next
      case False
      then have "{i. i < length ?mem \<and> ?mem' ! i = int k} = {i. i < length ?mem \<and> ?mem ! i = int k}" using k(1) by (auto split: if_splits)
      then show ?thesis using m_inv [OF k] False by simp
    qed
    then show ?thesis using inv unfolding al_inv_def by simp
  qed
  ultimately show ?thesis by (intro exI [of _ ?obj]) (simp add: unit_free_def)
qed

lemma al_run_refines:
  "al_inv obj \<Longrightarrow> list_all unit_op_ok ops \<Longrightarrow> al_run ops obj = Inr (unit_run ops (al_memory obj))"
proof (induction ops arbitrary: obj)
  case (Cons op ops)
  show ?case
  proof (cases op)
    case (UAlloc n mID)
    then obtain m where "mID = int m" "1 \<le> m" "m \<le> 1000" "1 \<le> n" using Cons.prems(2) nonneg_int_cases [of mID] by auto
    then show ?thesis using al_allocate_ok [OF Cons.prems(1), of m n] Cons UAlloc by (auto split: prod.splits)
  next
    case (UFree mID)
    then obtain m where "mID = int m" "1 \<le> m" "m \<le> 1000" using Cons.prems(2) nonneg_int_cases [of mID] by auto
    then show ?thesis using al_free_ok [OF Cons.prems(1), of m] Cons UFree by (auto split: prod.splits)
  qed
qed simp

text \<open>
  C13. The unit allocator implements first fit: from a fresh allocator every sequence of allocations of at least one unit and of frees, with
  identifiers from 1 to 1000, runs without a fault and returns what the first-fit contract on the array of units returns. An
  allocation yields the lowest position where the units are free, or -1 when there is none, and a free yields the number of units the identifier held.
\<close>

theorem unit_allocator_refines:
  assumes "list_all unit_op_ok ops"
  shows "al_run ops (allocatorCreate n) = Inr (unit_run ops (replicate n 0))"
  using al_run_refines [OF al_inv_create assms] by (simp add: allocatorCreate_def)

theorem unit_allocator_refines_witness:
  "al_run [UAlloc 2 1, UAlloc 1 2, UFree 1, UAlloc 3 3, UAlloc 1 2, UFree 2] (allocatorCreate 4) = Inr [0, 2, 2, -1, 0, 2]"
proof -
  have "unit_run [UAlloc 2 1, UAlloc 1 2, UFree 1, UAlloc 3 3, UAlloc 1 2, UFree 2] (replicate 4 0) = [0, 2, 2, -1, 0, 2]"
    by code_simp
  then show ?thesis using unit_allocator_refines [of "[UAlloc 2 1, UAlloc 1 2, UFree 1, UAlloc 3 3, UAlloc 1 2, UFree 2]" 4] by simp
qed
end
