(* ===== verification/FreeLists.thy ===== *)
theory FreeLists
  imports Heap
begin

text \<open>
  The block pool \<^verbatim>\<open>day-5(Leetcode_LRU)/simple-memory-pool.c\<close>, whose free list is threaded through the memory it manages.

  The headers are cells of a store, at the address where the program puts them; the bytes between headers belong to the
  clients. The theorems show that headers never overlap, so that a store of whole headers loses nothing. Alignment is not modelled.
  The pool is at the address \<open>base\<close> that the linker gives it.
\<close>

section \<open>The block pool\<close>

definition POOL_SIZE :: nat where "POOL_SIZE = 1024"

record Block =
  bl_size :: nat
  bl_next :: nat

definition sizeof_Block :: nat where "sizeof_Block = 16"

record block_pool =
  bp_base :: nat
  bp_heap :: "Block heap"
  bp_free_list :: nat

definition bp_write :: "block_pool \<Rightarrow> nat \<Rightarrow> Block \<Rightarrow> block_pool res" where
  "bp_write s a b =
     (if bp_base s \<le> a \<and> a + sizeof_Block \<le> bp_base s + POOL_SIZE
      then Inr (s\<lparr>bp_heap := (bp_heap s)\<lparr>cells := (cells (bp_heap s))(a := Some b)\<rparr>\<rparr>) else Inl OutOfBounds)"

definition block_pool_init :: "nat \<Rightarrow> block_pool" where
  "block_pool_init base =
     \<lparr>bp_base = base, bp_heap = \<lparr>cells = [base \<mapsto> \<lparr>bl_size = POOL_SIZE - sizeof_Block, bl_next = 0\<rparr>], brk = base + POOL_SIZE\<rparr>,
      bp_free_list = base\<rparr>"

text \<open>\<^verbatim>\<open>if (prev) prev->next = block; else free_list = block;\<close>\<close>

definition bp_relink :: "nat \<Rightarrow> nat \<Rightarrow> block_pool \<Rightarrow> block_pool res" where
  "bp_relink prev block s =
     (if prev \<noteq> 0 then bindE (h_get (bp_heap s) prev) (\<lambda>b. bp_write s prev (b\<lparr>bl_next := block\<rparr>))
      else Inr (s\<lparr>bp_free_list := block\<rparr>))"

definition pool_allocate :: "block_pool \<Rightarrow> nat \<Rightarrow> (nat \<times> block_pool \<times> outs) res" where
  "pool_allocate s n =
     bindE (h_search (brk (bp_heap s)) bl_next (\<lambda>b. bl_size b \<ge> n) (bp_heap s) 0 (bp_free_list s)) (\<lambda>(prev, current).
       if current \<noteq> 0 then
         bindE (h_get (bp_heap s) current) (\<lambda>c.
           bindE (if bl_size c \<ge> n + sizeof_Block + 1
                  then let new_block = current + sizeof_Block + n in
                       bindE (bp_write s new_block \<lparr>bl_size = bl_size c - n - sizeof_Block, bl_next = bl_next c\<rparr>) (\<lambda>s.
                         bindE (bp_write s current (c\<lparr>bl_size := n\<rparr>)) (\<lambda>s. bp_relink prev new_block s))
                  else bp_relink prev (bl_next c) s) (\<lambda>s.
             Inr (current + sizeof_Block, s,
                  [Txt ''Allocation of '', Num (int n), Txt '' bytes is successful at '', Num (int (current + sizeof_Block))])))
       else Inr (0, s, [Txt ''Allocation of '', Num (int n), Txt '' bytes is failed'']))"

definition pool_free :: "block_pool \<Rightarrow> nat \<Rightarrow> (block_pool \<times> outs) res" where
  "pool_free s ptr =
     (if ptr = 0 then Inr (s, [])
      else let block_to_free = ptr - sizeof_Block in
           bindE (h_get (bp_heap s) block_to_free) (\<lambda>b.
             bindE (bp_write s block_to_free (b\<lparr>bl_next := bp_free_list s\<rparr>)) (\<lambda>s.
               Inr (s\<lparr>bp_free_list := block_to_free\<rparr>,
                    [Num (int (bl_size b)), Txt '' bytes of data is freed from '', Num (int ptr)]))))"

definition bp_main :: "nat \<Rightarrow> outs res" where
  "bp_main base =
     bindE (pool_allocate (block_pool_init base) 256) (\<lambda>(ptr1, s, o1).
       bindE (pool_allocate s 128) (\<lambda>(ptr2, s, o2).
         bindE (pool_free s ptr1) (\<lambda>(s, o3).
           bindE (pool_allocate s 512) (\<lambda>(ptr3, s, o4). Inr (o1 @ o2 @ o3 @ o4)))))"

text \<open>
  What a client can do: allocate, and free what it holds. \<open>live\<close> lists what it holds, each pointer with the
  size that was asked for.
\<close>

inductive bp_reach :: "nat \<Rightarrow> block_pool \<Rightarrow> (nat \<times> nat) list \<Rightarrow> bool" for base where
  bp_reach_init: "bp_reach base (block_pool_init base) []"
| bp_reach_alloc: "bp_reach base s live \<Longrightarrow> pool_allocate s n = Inr (p, s', out) \<Longrightarrow>
    bp_reach base s' (if p = 0 then live else (p, n) # live)"
| bp_reach_free: "bp_reach base s live \<Longrightarrow> (p, n) \<in> set live \<Longrightarrow> pool_free s p = Inr (s', out) \<Longrightarrow>
    bp_reach base s' (remove1 (p, n) live)"

section \<open>Proofs: the block pool\<close>

text \<open>The blocks tile the pool.\<close>

fun bp_tiles :: "(nat \<Rightarrow> Block option) \<Rightarrow> nat \<Rightarrow> nat list \<Rightarrow> nat \<Rightarrow> bool" where
  "bp_tiles m a [] e \<longleftrightarrow> a = e"
| "bp_tiles m a (b # bs) e \<longleftrightarrow> a = b \<and> (case m b of None \<Rightarrow> False | Some n \<Rightarrow> bp_tiles m (b + sizeof_Block + bl_size n) bs e)"

lemma bp_tiles_append: "bp_tiles m a (as @ bs) e \<longleftrightarrow> (\<exists>c. bp_tiles m a as c \<and> bp_tiles m c bs e)"
  by (induction as arbitrary: a) (auto split: option.splits)

lemma bp_tiles_cong: "(\<And>b. b \<in> set bs \<Longrightarrow> map_option bl_size (m' b) = map_option bl_size (m b)) \<Longrightarrow> bp_tiles m' a bs e = bp_tiles m a bs e"
proof (induction bs arbitrary: a)
  case (Cons b bs)
  have "map_option bl_size (m' b) = map_option bl_size (m b)" by (simp add: Cons.prems)
  moreover have "bp_tiles m' c bs e = bp_tiles m c bs e" for c by (rule Cons.IH) (simp add: Cons.prems)
  ultimately show ?case by (cases "m b"; cases "m' b") auto
qed simp

lemma bp_tiles_bounds: "bp_tiles m a bs e \<Longrightarrow> a \<le> e \<and> (\<forall>b\<in>set bs. a \<le> b \<and> (\<exists>n. m b = Some n \<and> b + sizeof_Block + bl_size n \<le> e))"
proof (induction bs arbitrary: a)
  case (Cons b bs)
  then obtain n where n: "a = b" "m b = Some n" "bp_tiles m (b + sizeof_Block + bl_size n) bs e" by (auto split: option.splits)
  show ?case using Cons.IH [OF n(3)] n by auto
qed simp

lemma bp_tiles_disjoint:
  assumes "bp_tiles m a bs e" and "b \<in> set bs" and "c \<in> set bs" and "b < c" and "m b = Some n"
  shows "b + sizeof_Block + bl_size n \<le> c"
  using assms
proof (induction bs arbitrary: a)
  case (Cons d bs)
  then obtain nd where d: "a = d" "m d = Some nd" "bp_tiles m (d + sizeof_Block + bl_size nd) bs e" by (auto split: option.splits)
  show ?case using bp_tiles_bounds [OF d(3)] Cons d by auto
qed simp

lemma bp_tiles_split:
  assumes "bp_tiles m a bs e" and "c \<in> set bs" and "m c = Some n" and "k + sizeof_Block \<le> bl_size n"
    and "bl_size n1 = k" and "bl_size n2 = bl_size n - k - sizeof_Block"
  shows "\<exists>bs'. bp_tiles (m(c + sizeof_Block + k \<mapsto> n2, c \<mapsto> n1)) a bs' e \<and> set bs' = insert (c + sizeof_Block + k) (set bs) \<and>
    c + sizeof_Block + k \<notin> set bs"
proof -
  let ?d = "c + sizeof_Block + k" let ?m = "m(?d \<mapsto> n2, c \<mapsto> n1)"
  obtain us vs where bs: "bs = us @ c # vs" using assms(2) by (auto simp: in_set_conv_decomp)
  then have t: "bp_tiles m a us c" "bp_tiles m (c + sizeof_Block + bl_size n) vs e"
    using assms(1,3) by (auto simp: bp_tiles_append)
  have pos: "0 < sizeof_Block" by (simp add: sizeof_Block_def)
  have u: "b < c" if "b \<in> set us" for b using bp_tiles_bounds [OF t(1)] that pos by fastforce
  have v: "?d < b" if "b \<in> set vs" for b using bp_tiles_bounds [OF t(2)] that assms(4) pos by fastforce
  have "bp_tiles ?m a us c" using t(1) by (subst bp_tiles_cong) (auto dest!: u)
  moreover have "c + sizeof_Block + bl_size n = ?d + sizeof_Block + bl_size n2" using assms(4,6) by simp
  then have "bp_tiles m (?d + sizeof_Block + bl_size n2) vs e" using t(2) by metis
  then have "bp_tiles ?m (?d + sizeof_Block + bl_size n2) vs e" by (subst bp_tiles_cong) (auto dest!: v)
  ultimately have "bp_tiles ?m a (us @ c # ?d # vs) e" using assms(5) pos by (simp add: bp_tiles_append)
  moreover have "?d \<notin> set bs" using bs u v pos by fastforce
  ultimately show ?thesis using bs by (intro exI [of _ "us @ c # ?d # vs"]) auto
qed

text \<open>Taking a block out of the free list, with \<open>x\<close> the new continuation.\<close>

lemma path_relink:
  assumes "path nx m p (us @ [a]) q" and "path nx m x ws 0" and "a \<notin> set us" and "a \<notin> set ws" and "nx n' = x"
  shows "path nx (m(a := Some n')) p (us @ a # ws) 0"
  using assms by (auto simp: path_append split: option.splits)

definition bp_inv :: "nat \<Rightarrow> block_pool \<Rightarrow> nat list \<Rightarrow> nat list \<Rightarrow> bool" where
  "bp_inv base s bs fs \<longleftrightarrow> 0 < base \<and> bp_base s = base \<and> brk (bp_heap s) = base + POOL_SIZE \<and>
     bp_tiles (cells (bp_heap s)) base bs (base + POOL_SIZE) \<and> dom (cells (bp_heap s)) = set bs \<and>
     path bl_next (cells (bp_heap s)) (bp_free_list s) fs 0"

lemma bp_inv_init: "0 < base \<Longrightarrow> bp_inv base (block_pool_init base) [base] [base]"
  by (simp add: bp_inv_def block_pool_init_def POOL_SIZE_def sizeof_Block_def)

lemma bp_inv_wf:
  assumes "bp_inv base s bs fs"
  shows "heap_wf (bp_heap s)" and "set fs \<subseteq> set bs" and "distinct fs"
proof -
  have dom: "dom (cells (bp_heap s)) = set bs" using assms by (simp add: bp_inv_def)
  have "b < base + POOL_SIZE \<and> 0 < b" if "b \<in> set bs" for b
    using assms that bp_tiles_bounds [of "cells (bp_heap s)" base bs "base + POOL_SIZE"] by (auto simp: bp_inv_def sizeof_Block_def)
  then show "heap_wf (bp_heap s)" using assms dom unfolding heap_wf_def bp_inv_def
    by (metis add_gr_0 domIff not_less not_less_zero)
  show "set fs \<subseteq> set bs" using path_in_dom assms unfolding bp_inv_def by (metis domI subsetI)
  show "distinct fs" using path_distinct assms by (auto simp: bp_inv_def)
qed

lemma bp_write_ok:
  assumes "bp_inv base s bs fs" and "b \<in> set bs"
  shows "bp_write s b n = Inr (s\<lparr>bp_heap := (bp_heap s)\<lparr>cells := (cells (bp_heap s))(b := Some n)\<rparr>\<rparr>)"
  using assms bp_tiles_bounds [of "cells (bp_heap s)" base bs "base + POOL_SIZE"] by (force simp: bp_inv_def bp_write_def)

text \<open>Relinking past \<open>c\<close>: the free list becomes \<open>us @ ws\<close>, where \<open>ws\<close> starts at \<open>x\<close>.\<close>

lemma bp_relink_ok:
  assumes inv: "bp_inv base s bs (us @ c # vs)" and ws: "path bl_next (cells (bp_heap s)) x ws 0" "set us \<inter> set ws = {}"
  shows "\<exists>s'. bp_relink (last (0 # us)) x s = Inr s' \<and> bp_inv base s' bs (us @ ws) \<and>
    (\<forall>b. map_option bl_size (cells (bp_heap s') b) = map_option bl_size (cells (bp_heap s) b))"
proof (cases us rule: rev_cases)
  case Nil
  then show ?thesis using inv ws by (simp add: bp_relink_def bp_inv_def)
next
  case (snoc us' a)
  let ?m = "cells (bp_heap s)"
  note wf = bp_inv_wf [OF inv]
  have a: "a \<in> set bs" using wf(2) snoc by auto
  have p: "path bl_next ?m (bp_free_list s) (us @ c # vs) 0" using inv by (simp add: bp_inv_def)
  then obtain n where n: "?m a = Some n" "a \<noteq> 0" using path_in_dom [OF p, of a] snoc by auto
  let ?m' = "?m(a := Some (n\<lparr>bl_next := x\<rparr>))"
  obtain q where "path bl_next ?m (bp_free_list s) (us' @ [a]) q" using p unfolding snoc path_append by blast
  then have "path bl_next ?m' (bp_free_list s) (us' @ a # ws) 0"
    using path_relink [OF _ ws(1)] ws(2) wf(3) snoc by auto
  moreover have size: "map_option bl_size (?m' b) = map_option bl_size (?m b)" for b using n(1) by simp
  then have "bp_tiles ?m' base bs (base + POOL_SIZE)" using inv bp_tiles_cong [of bs ?m' ?m] by (simp add: bp_inv_def)
  moreover have "dom ?m' = set bs" using inv a by (auto simp: bp_inv_def)
  moreover have "bp_relink (last (0 # us)) x s = Inr (s\<lparr>bp_heap := (bp_heap s)\<lparr>cells := ?m'\<rparr>\<rparr>)"
    using n bp_write_ok [OF inv a] snoc by (simp add: bp_relink_def)
  ultimately show ?thesis using inv snoc size by (simp add: bp_inv_def)
qed

lemma pool_allocate_none:
  assumes inv: "bp_inv base s bs fs" and "\<forall>b\<in>set fs. bl_size (the (cells (bp_heap s) b)) < n"
  shows "\<exists>out. pool_allocate s n = Inr (0, s, out)"
proof -
  have "h_search (brk (bp_heap s)) bl_next (\<lambda>b. bl_size b \<ge> n) (bp_heap s) 0 (bp_free_list s) = Inr (last (0 # fs), 0)"
    using inv bp_inv_wf(1) [OF inv] assms(2) by (intro h_search_absent) (auto simp: bp_inv_def)
  then show ?thesis by (simp add: pool_allocate_def)
qed

text \<open>A split shortens the block \<open>c\<close> and leaves a new free block in its place in the list.\<close>

lemma bp_split_ok:
  assumes inv: "bp_inv base s bs (us @ c # vs)" and nc: "cells (bp_heap s) c = Some nc" and big: "n + sizeof_Block \<le> bl_size nc"
  defines "d \<equiv> c + sizeof_Block + n"
  shows "\<exists>s1 s2 bs'. bp_write s d \<lparr>bl_size = bl_size nc - n - sizeof_Block, bl_next = bl_next nc\<rparr> = Inr s1 \<and>
    bp_write s1 c (nc\<lparr>bl_size := n\<rparr>) = Inr s2 \<and> bp_inv base s2 bs' (us @ c # vs) \<and> d \<notin> set bs \<and> set bs' = insert d (set bs) \<and>
    path bl_next (cells (bp_heap s2)) d (d # vs) 0 \<and>
    cells (bp_heap s2) = (cells (bp_heap s))(d \<mapsto> \<lparr>bl_size = bl_size nc - n - sizeof_Block, bl_next = bl_next nc\<rparr>, c \<mapsto> nc\<lparr>bl_size := n\<rparr>)"
proof -
  let ?m = "cells (bp_heap s)" let ?nd = "\<lparr>bl_size = bl_size nc - n - sizeof_Block, bl_next = bl_next nc\<rparr>"
  let ?m' = "?m(d \<mapsto> ?nd, c \<mapsto> nc\<lparr>bl_size := n\<rparr>)"
  note wf = bp_inv_wf [OF inv]
  have c: "c \<in> set bs" "c \<notin> set us" "c \<notin> set vs" "c \<noteq> d" using wf(2,3) by (auto simp: d_def sizeof_Block_def)
  obtain bs' where bs': "bp_tiles ?m' base bs' (base + POOL_SIZE)" "set bs' = insert d (set bs)" "d \<notin> set bs"
    using bp_tiles_split [where m = ?m, OF _ c(1) nc big, of base "base + POOL_SIZE" "nc\<lparr>bl_size := n\<rparr>" ?nd] inv
    unfolding bp_inv_def d_def by auto
  have p: "path bl_next ?m (bp_free_list s) (us @ c # vs) 0" using inv by (simp add: bp_inv_def)
  then have pv: "path bl_next ?m (bl_next nc) vs 0" "path bl_next ?m (bp_free_list s) us c" "c \<noteq> 0" using nc by (auto simp: path_append)
  have d: "d \<notin> set (us @ c # vs)" using wf(2) bs'(3) by blast
  then have pv': "path bl_next ?m' (bl_next nc) vs 0" "path bl_next ?m' (bp_free_list s) us c" using pv(1,2) c by simp_all
  have "base \<le> d \<and> d + sizeof_Block \<le> base + POOL_SIZE" using bp_tiles_bounds [OF bs'(1)] bs'(2) c(4) by fastforce
  moreover have "base \<le> c \<and> c + sizeof_Block \<le> base + POOL_SIZE" using bp_tiles_bounds [OF bs'(1)] bs'(2) c(1) by fastforce
  ultimately have "bp_write s d ?nd = Inr (s\<lparr>bp_heap := (bp_heap s)\<lparr>cells := ?m(d \<mapsto> ?nd)\<rparr>\<rparr>)"
    "bp_write (s\<lparr>bp_heap := (bp_heap s)\<lparr>cells := ?m(d \<mapsto> ?nd)\<rparr>\<rparr>) c (nc\<lparr>bl_size := n\<rparr>) = Inr (s\<lparr>bp_heap := (bp_heap s)\<lparr>cells := ?m'\<rparr>\<rparr>)"
    using inv by (simp_all add: bp_write_def bp_inv_def)
  moreover have "bp_inv base (s\<lparr>bp_heap := (bp_heap s)\<lparr>cells := ?m'\<rparr>\<rparr>) bs' (us @ c # vs)"
    using inv bs' pv' pv(3) c by (auto simp: bp_inv_def path_append)
  moreover have "path bl_next ?m' d (d # vs) 0" using pv'(1) pv(3) c(4) by (auto simp: d_def sizeof_Block_def)
  ultimately show ?thesis using bs' by auto
qed

text \<open>
  An allocation takes the first block of the free list that is large enough. Nothing else in the pool changes but the block that
  a split adds to the free list.
\<close>

lemma pool_allocate_some:
  assumes inv: "bp_inv base s bs (us @ c # vs)" and nc: "cells (bp_heap s) c = Some nc" "n \<le> bl_size nc"
    and first: "\<forall>b\<in>set us. bl_size (the (cells (bp_heap s) b)) < n"
  shows "\<exists>s' out bs' fs' nc'. pool_allocate s n = Inr (c + sizeof_Block, s', out) \<and> bp_inv base s' bs' fs' \<and>
    set bs' - set fs' = insert c (set bs - set (us @ c # vs)) \<and> cells (bp_heap s') c = Some nc' \<and> n \<le> bl_size nc' \<and>
    (\<forall>b\<in>set bs - {c}. map_option bl_size (cells (bp_heap s') b) = map_option bl_size (cells (bp_heap s) b))"
proof -
  let ?m = "cells (bp_heap s)"
  note wf = bp_inv_wf [OF inv]
  have p: "path bl_next ?m (bp_free_list s) (us @ c # vs) 0" using inv by (simp add: bp_inv_def)
  then have pv: "c \<noteq> 0" "path bl_next ?m (bl_next nc) vs 0" using nc(1) by (auto simp: path_append)
  have c: "c \<in> set bs" "c \<notin> set us" "c \<notin> set vs" "set us \<inter> set vs = {}" using wf(2,3) by auto
  have search: "h_search (brk (bp_heap s)) bl_next (\<lambda>b. bl_size b \<ge> n) (bp_heap s) 0 (bp_free_list s) = Inr (last (0 # us), c)"
    using h_search_found [OF wf(1) p, of "\<lambda>b. bl_size b \<ge> n"] nc first by (simp add: not_le)
  show ?thesis
  proof (cases "bl_size nc \<ge> n + sizeof_Block + 1")
    case True
    let ?d = "c + sizeof_Block + n"
    obtain s1 s2 bs' where s2: "bp_write s ?d \<lparr>bl_size = bl_size nc - n - sizeof_Block, bl_next = bl_next nc\<rparr> = Inr s1"
      "bp_write s1 c (nc\<lparr>bl_size := n\<rparr>) = Inr s2" "bp_inv base s2 bs' (us @ c # vs)" "?d \<notin> set bs" "set bs' = insert ?d (set bs)"
      "path bl_next (cells (bp_heap s2)) ?d (?d # vs) 0"
      "cells (bp_heap s2) = ?m(?d \<mapsto> \<lparr>bl_size = bl_size nc - n - sizeof_Block, bl_next = bl_next nc\<rparr>, c \<mapsto> nc\<lparr>bl_size := n\<rparr>)"
      using bp_split_ok [OF inv nc(1), of n] True by (meson le_add1 order_trans)
    have "?d \<notin> set us" using s2(4) wf(2) by auto
    then obtain s' where s': "bp_relink (last (0 # us)) ?d s2 = Inr s'" "bp_inv base s' bs' (us @ ?d # vs)"
      "\<forall>b. map_option bl_size (cells (bp_heap s') b) = map_option bl_size (cells (bp_heap s2) b)"
      using bp_relink_ok [OF s2(3,6)] c(4) by auto
    have "\<exists>out. pool_allocate s n = Inr (c + sizeof_Block, s', out)"
      using search nc(1) pv(1) True s2(1,2) s'(1) by (simp add: pool_allocate_def Let_def del: last.simps)
    moreover have "set bs' - set (us @ ?d # vs) = insert c (set bs - set (us @ c # vs))" using c s2(4,5) by auto
    moreover have "\<exists>nc'. cells (bp_heap s') c = Some nc' \<and> n \<le> bl_size nc'" using spec [OF s'(3), of c] s2(7) by auto
    moreover have "map_option bl_size (cells (bp_heap s') b) = map_option bl_size (?m b)" if "b \<in> set bs - {c}" for b
      using spec [OF s'(3), of b] s2(4,7) that by auto
    ultimately show ?thesis using s'(2) by blast
  next
    case False
    obtain s' where s': "bp_relink (last (0 # us)) (bl_next nc) s = Inr s'" "bp_inv base s' bs (us @ vs)"
      "\<forall>b. map_option bl_size (cells (bp_heap s') b) = map_option bl_size (?m b)"
      using bp_relink_ok [OF inv pv(2) c(4)] by blast
    have "\<exists>out. pool_allocate s n = Inr (c + sizeof_Block, s', out)"
      using search nc(1) pv(1) False s'(1) by (simp add: pool_allocate_def del: last.simps)
    moreover have "set bs - set (us @ vs) = insert c (set bs - set (us @ c # vs))" using c by auto
    moreover have "\<exists>nc'. cells (bp_heap s') c = Some nc' \<and> n \<le> bl_size nc'" using spec [OF s'(3), of c] nc by auto
    ultimately show ?thesis using s'(2,3) by blast
  qed
qed

lemma pool_free_ok:
  assumes inv: "bp_inv base s bs fs" and b: "b \<in> set bs" "b \<notin> set fs"
  shows "\<exists>s' out. pool_free s (b + sizeof_Block) = Inr (s', out) \<and> bp_inv base s' bs (b # fs) \<and>
    (\<forall>b. map_option bl_size (cells (bp_heap s') b) = map_option bl_size (cells (bp_heap s) b))"
proof -
  let ?m = "cells (bp_heap s)"
  obtain n where n: "?m b = Some n" "b \<noteq> 0" using inv b(1) bp_inv_wf(1) [OF inv] by (force simp: bp_inv_def heap_wf_def)
  let ?m' = "?m(b \<mapsto> n\<lparr>bl_next := bp_free_list s\<rparr>)"
  have size: "map_option bl_size (?m' c) = map_option bl_size (?m c)" for c using n(1) by simp
  then have "bp_tiles ?m' base bs (base + POOL_SIZE)" using inv bp_tiles_cong [of bs ?m' ?m] by (simp add: bp_inv_def)
  moreover have "path bl_next ?m' b (b # fs) 0" "dom ?m' = set bs" using inv b n(2) by (auto simp: bp_inv_def)
  ultimately have "bp_inv base (s\<lparr>bp_heap := (bp_heap s)\<lparr>cells := ?m'\<rparr>, bp_free_list := b\<rparr>) bs (b # fs)"
    using inv by (simp add: bp_inv_def)
  moreover have "\<exists>out. pool_free s (b + sizeof_Block) = Inr (s\<lparr>bp_heap := (bp_heap s)\<lparr>cells := ?m'\<rparr>, bp_free_list := b\<rparr>, out)"
    using n bp_write_ok [OF inv b(1)] by (simp add: pool_free_def Let_def sizeof_Block_def)
  ultimately show ?thesis using size by auto
qed

section \<open>The block pool under its clients\<close>

definition bp_live :: "block_pool \<Rightarrow> nat list \<Rightarrow> nat list \<Rightarrow> (nat \<times> nat) list \<Rightarrow> bool" where
  "bp_live s bs fs live \<longleftrightarrow> distinct (map fst live) \<and> fst ` set live = (\<lambda>b. b + sizeof_Block) ` (set bs - set fs) \<and>
     (\<forall>(p, n)\<in>set live. \<exists>k. map_option bl_size (cells (bp_heap s) (p - sizeof_Block)) = Some k \<and> n \<le> k)"

lemma bp_live_cases:
  assumes "bp_live s bs fs live" and "(p, n) \<in> set live"
  obtains b nb where "p = b + sizeof_Block" "b \<in> set bs" "b \<notin> set fs" "cells (bp_heap s) b = Some nb" "n \<le> bl_size nb"
proof -
  have "p \<in> (\<lambda>b. b + sizeof_Block) ` (set bs - set fs)" using assms by (force simp: bp_live_def)
  then obtain b where "p = b + sizeof_Block" "b \<in> set bs" "b \<notin> set fs" by auto
  moreover have "\<exists>k. map_option bl_size (cells (bp_heap s) (p - sizeof_Block)) = Some k \<and> n \<le> k" using assms by (auto simp: bp_live_def)
  ultimately show ?thesis using that by auto
qed

lemma bp_reach_inv:
  assumes "bp_reach base s live" and "0 < base"
  shows "\<exists>bs fs. bp_inv base s bs fs \<and> bp_live s bs fs live"
  using assms
proof (induction rule: bp_reach.induct)
  case bp_reach_init
  then show ?case using bp_inv_init by (intro exI [of _ "[base]"]) (simp add: bp_live_def)
next
  case (bp_reach_alloc s live n p s' out)
  then obtain bs fs where inv: "bp_inv base s bs fs" "bp_live s bs fs live" by blast
  show ?case
  proof (cases "\<forall>b\<in>set fs. bl_size (the (cells (bp_heap s) b)) < n")
    case True
    then show ?thesis using pool_allocate_none [OF inv(1) True] bp_reach_alloc(2) inv by auto
  next
    case False
    then obtain us c vs where fs: "fs = us @ c # vs" "n \<le> bl_size (the (cells (bp_heap s) c))" "\<forall>b\<in>set us. bl_size (the (cells (bp_heap s) b)) < n"
      using split_list_first_prop [of fs "\<lambda>b. n \<le> bl_size (the (cells (bp_heap s) b))"] by (auto simp: not_le not_less)
    have c: "c \<in> set bs" using bp_inv_wf(2) [OF inv(1)] fs(1) by simp
    then obtain nc where nc: "cells (bp_heap s) c = Some nc" using inv(1) by (auto simp: bp_inv_def)
    obtain s1 out1 bs' fs' nc' where s1: "pool_allocate s n = Inr (c + sizeof_Block, s1, out1)" "bp_inv base s1 bs' fs'"
      "set bs' - set fs' = insert c (set bs - set fs)" "cells (bp_heap s1) c = Some nc'" "n \<le> bl_size nc'"
      "\<forall>b\<in>set bs - {c}. map_option bl_size (cells (bp_heap s1) b) = map_option bl_size (cells (bp_heap s) b)"
      using pool_allocate_some [OF inv(1) [unfolded fs(1)] nc, of n] fs nc by auto
    have p: "p = c + sizeof_Block" "s' = s1" "p \<noteq> 0" using s1(1) bp_reach_alloc(2) by (auto simp: sizeof_Block_def)
    have other: "\<exists>k. map_option bl_size (cells (bp_heap s1) (q - sizeof_Block)) = Some k \<and> m \<le> k \<and> q \<noteq> p" if qm: "(q, m) \<in> set live" for q m
    proof -
      obtain b nb where b: "q = b + sizeof_Block" "b \<in> set bs" "b \<notin> set fs" "cells (bp_heap s) b = Some nb" "m \<le> bl_size nb"
        by (rule bp_live_cases [OF inv(2) qm])
      then have "b \<noteq> c" using fs(1) by auto
      then show ?thesis using b s1(6) p by auto
    qed
    have "distinct (map fst ((p, n) # live))" using other inv(2) by (fastforce simp: bp_live_def)
    moreover have "fst ` set ((p, n) # live) = (\<lambda>b. b + sizeof_Block) ` (set bs' - set fs')" using inv(2) s1(3) p by (simp add: bp_live_def)
    moreover have "\<forall>(q, m)\<in>set ((p, n) # live). \<exists>k. map_option bl_size (cells (bp_heap s1) (q - sizeof_Block)) = Some k \<and> m \<le> k"
      using other s1(4,5) p(1) by fastforce
    ultimately have "bp_live s1 bs' fs' ((p, n) # live)" unfolding bp_live_def by blast
    then show ?thesis using s1(2) p by auto
  qed
next
  case (bp_reach_free s live p n s' out)
  then obtain bs fs where inv: "bp_inv base s bs fs" "bp_live s bs fs live" by blast
  obtain b where b: "p = b + sizeof_Block" "b \<in> set bs" "b \<notin> set fs" by (rule bp_live_cases [OF inv(2) bp_reach_free(2)])
  then have s': "bp_inv base s' bs (b # fs)" "\<forall>b. map_option bl_size (cells (bp_heap s') b) = map_option bl_size (cells (bp_heap s) b)"
    using pool_free_ok [OF inv(1) b(2,3)] bp_reach_free(3) by auto
  have d: "distinct (map fst live)" "distinct live" using inv(2) by (auto simp: bp_live_def distinct_map)
  have set': "set (remove1 (p, n) live) = {x \<in> set live. fst x \<noteq> p}" using d bp_reach_free(2) by (auto simp: eq_key_imp_eq_value)
  have "distinct (map fst (remove1 (p, n) live))" using d(1) by (simp add: distinct_map inj_on_def)
  moreover have "fst ` set (remove1 (p, n) live) = fst ` set live - {p}" unfolding set' by auto
  moreover have "(\<lambda>b. b + sizeof_Block) ` (set bs - set (b # fs)) = (\<lambda>b. b + sizeof_Block) ` (set bs - set fs) - {p}" using b(1) by auto
  moreover have "\<forall>(q, m)\<in>set (remove1 (p, n) live). \<exists>k. map_option bl_size (cells (bp_heap s') (q - sizeof_Block)) = Some k \<and> m \<le> k"
    using inv(2) s'(2) set' unfolding bp_live_def by simp
  ultimately have "bp_live s' bs (b # fs) (remove1 (p, n) live)" using inv(2) unfolding bp_live_def by simp
  then show ?case using s'(1) by blast
qed

text \<open>The sizes of the free blocks, in the order of the free list.\<close>

definition bp_free_sizes :: "block_pool \<Rightarrow> nat list res" where
  "bp_free_sizes s = h_collect (brk (bp_heap s)) bl_next (\<lambda>b. [bl_size b]) (bp_heap s) (bp_free_list s)"

lemma bp_free_sizes_ok:
  assumes "bp_inv base s bs fs"
  shows "bp_free_sizes s = Inr (map (\<lambda>b. bl_size (the (cells (bp_heap s) b))) fs)"
proof -
  have p: "path bl_next (cells (bp_heap s)) (bp_free_list s) fs 0" using assms by (simp add: bp_inv_def)
  have "concat (map (\<lambda>b. [bl_size (the (cells (bp_heap s) b))]) fs) = map (\<lambda>b. bl_size (the (cells (bp_heap s) b))) fs"
    by (induction fs) simp_all
  then show ?thesis using h_collect_path [OF p, of "brk (bp_heap s)" "\<lambda>b. [bl_size b]"] path_length [OF bp_inv_wf(1) [OF assms] p] by (simp add: bp_free_sizes_def)
qed

lemma pool_allocate_total:
  assumes inv: "bp_inv base s bs fs"
  shows "\<exists>p s' out. pool_allocate s n = Inr (p, s', out) \<and> (p = 0 \<longleftrightarrow> (\<forall>k\<in>set (map (\<lambda>b. bl_size (the (cells (bp_heap s) b))) fs). k < n))"
proof (cases "\<forall>b\<in>set fs. bl_size (the (cells (bp_heap s) b)) < n")
  case True
  then show ?thesis using pool_allocate_none [OF inv True] by auto
next
  case False
  then obtain us c vs where fs: "fs = us @ c # vs" "n \<le> bl_size (the (cells (bp_heap s) c))" "\<forall>b\<in>set us. bl_size (the (cells (bp_heap s) b)) < n"
    using split_list_first_prop [of fs "\<lambda>b. n \<le> bl_size (the (cells (bp_heap s) b))"] by (auto simp: not_le not_less)
  have "c \<in> set bs" using bp_inv_wf(2) [OF inv] fs(1) by simp
  then obtain nc where nc: "cells (bp_heap s) c = Some nc" using inv by (auto simp: bp_inv_def)
  have "\<exists>s' out. pool_allocate s n = Inr (c + sizeof_Block, s', out)"
    using pool_allocate_some [OF inv [unfolded fs(1)] nc, of n] fs nc by auto
  moreover have "c + sizeof_Block \<noteq> 0" by (simp add: sizeof_Block_def)
  ultimately show ?thesis using False by auto
qed

text \<open>
  C14. Whatever its client allocates and frees, the block pool stays safe: the pieces the client holds lie inside the pool behind their headers, are at
  least as long as asked for and do not overlap; every allocation and every free of a held piece returns without a fault; and an allocation
  returns \<^verbatim>\<open>NULL\<close> exactly when no block of the free list is large enough.
\<close>

theorem block_pool_safe:
  assumes "bp_reach base s live" and "0 < base"
  shows "distinct (map fst live) \<and>
    (\<forall>(p, n)\<in>set live. base + sizeof_Block \<le> p \<and> p + n \<le> base + POOL_SIZE \<and> (\<exists>r. pool_free s p = Inr r)) \<and>
    (\<forall>(p, n)\<in>set live. \<forall>(q, m)\<in>set live. p < q \<longrightarrow> p + n + sizeof_Block \<le> q) \<and>
    (\<exists>sizes. bp_free_sizes s = Inr sizes \<and> (\<forall>n. \<exists>p s' out. pool_allocate s n = Inr (p, s', out) \<and> (p = 0 \<longleftrightarrow> (\<forall>k\<in>set sizes. k < n))))"
proof -
  obtain bs fs where inv: "bp_inv base s bs fs" and live: "bp_live s bs fs live" using bp_reach_inv [OF assms] by blast
  have tiles: "bp_tiles (cells (bp_heap s)) base bs (base + POOL_SIZE)" using inv by (simp add: bp_inv_def)
  have "base + sizeof_Block \<le> p \<and> p + n \<le> base + POOL_SIZE \<and> (\<exists>r. pool_free s p = Inr r)" if pn: "(p, n) \<in> set live" for p n
  proof -
    obtain b nb where b: "p = b + sizeof_Block" "b \<in> set bs" "b \<notin> set fs" "cells (bp_heap s) b = Some nb" "n \<le> bl_size nb"
      by (rule bp_live_cases [OF live pn])
    then show ?thesis using bp_tiles_bounds [OF tiles] pool_free_ok [OF inv b(2,3)] by fastforce
  qed
  moreover have "p + n + sizeof_Block \<le> q" if pq: "(p, n) \<in> set live" "(q, m) \<in> set live" "p < q" for p n q m
  proof -
    obtain b nb where b: "p = b + sizeof_Block" "b \<in> set bs" "cells (bp_heap s) b = Some nb" "n \<le> bl_size nb"
      by (rule bp_live_cases [OF live pq(1)])
    obtain c where c: "q = c + sizeof_Block" "c \<in> set bs" by (rule bp_live_cases [OF live pq(2)])
    show ?thesis using bp_tiles_disjoint [OF tiles b(2) c(2) _ b(3)] b c pq(3) by simp
  qed
  moreover have "distinct (map fst live)" using live by (simp add: bp_live_def)
  ultimately show ?thesis using bp_free_sizes_ok [OF inv] pool_allocate_total [OF inv] by blast
qed

text \<open>The program's own sequence of calls: the third allocation passes over the block that was freed.\<close>

lemma h_search_step:
  "0 < k \<Longrightarrow> t \<noteq> 0 \<Longrightarrow> cells h t = Some n \<Longrightarrow>
    h_search k nx P h prev t = (if P n then Inr (prev, t) else h_search (k - 1) nx P h t (nx n))"
  by (cases k) simp_all

lemmas bp_eval = block_pool_init_def pool_allocate_def pool_free_def bp_relink_def bp_write_def h_search_step Let_def POOL_SIZE_def sizeof_Block_def

lemma bp_main_output:
  assumes "0 < base"
  shows "bp_main base = Inr
    [Txt ''Allocation of '', Num 256, Txt '' bytes is successful at '', Num (int base + 16),
     Txt ''Allocation of '', Num 128, Txt '' bytes is successful at '', Num (int base + 288),
     Num 256, Txt '' bytes of data is freed from '', Num (int base + 16),
     Txt ''Allocation of '', Num 512, Txt '' bytes is successful at '', Num (int base + 432)]"
  using assms by (simp add: bp_main_def bp_eval)

theorem block_pool_safe_witness:
  "\<exists>s. bp_reach 4096 s [(4384, 128)] \<and> (\<exists>r. pool_free s 4384 = Inr r)"
proof -
  obtain s1 o1 where s1: "pool_allocate (block_pool_init 4096) 256 = Inr (4112, s1, o1)"
    "\<exists>s2 o2 s3 o3. pool_allocate s1 128 = Inr (4384, s2, o2) \<and> pool_free s2 4112 = Inr (s3, o3)"
    by (simp add: bp_eval)
  then obtain s2 o2 s3 o3 where s2: "pool_allocate s1 128 = Inr (4384, s2, o2)" "pool_free s2 4112 = Inr (s3, o3)" by blast
  have "bp_reach 4096 s3 [(4384, 128)]"
    using bp_reach_free [OF bp_reach_alloc [OF bp_reach_alloc [OF bp_reach_init s1(1)] s2(1)] _ s2(2), of 256] by simp
  then show ?thesis using block_pool_safe [of 4096 s3 "[(4384, 128)]"] by auto
qed
end
