(* ===== verification/Slab.thy ===== *)
theory Slab
  imports Heap
begin

text \<open>
  The slab allocator \<^verbatim>\<open>day-1(Heap_Mem)/slab-allocator.c\<close>.

  The headers of free objects are cells of a store, at the addresses of the objects; an object that is handed out loses its header,
  since its bytes belong to the client from then on. Headers take \<open>sizeof_header\<close> bytes; for smaller objects they would
  overlap, and the theorems are about objects that are large enough. Alignment is not modelled. The results of \<^verbatim>\<open>malloc\<close> (for the descriptor) and
  of \<^verbatim>\<open>aligned_alloc\<close> (for the memory) are arguments of the operations that may call them, with 0 for a failure. The cached descriptors form
  a list, as they are only ever added in front.
\<close>

definition SLAB_SIZE :: nat where "SLAB_SIZE = 4096"

definition sizeof_header :: nat where "sizeof_header = 8"

record object_header_t =
  next_free :: nat

type_synonym headers = "nat \<Rightarrow> object_header_t option"

record slab_t =
  sl_memory :: nat
  sl_free_list :: nat
  sl_object_size :: nat
  sl_objects_per_slab :: nat
  sl_free_objects :: nat

record slab_cache_t =
  sc_slabs :: "slab_t list"
  sc_object_size :: nat
  sc_name :: string

text \<open>The headers: the store maps the address of a free object to its \<^verbatim>\<open>next_free\<close>.\<close>

definition sl_write :: "nat \<Rightarrow> headers \<Rightarrow> nat \<Rightarrow> nat \<Rightarrow> headers res" where
  "sl_write memory h a v =
     (if memory = 0 then Inl NullDeref
      else if memory \<le> a \<and> a + sizeof_header \<le> memory + SLAB_SIZE then Inr (h(a \<mapsto> \<lparr>next_free = v\<rparr>)) else Inl OutOfBounds)"

definition sl_read :: "headers \<Rightarrow> nat \<Rightarrow> nat res" where
  "sl_read h a = (if a = 0 then Inl NullDeref else case h a of None \<Rightarrow> Inl UseAfterFree | Some v \<Rightarrow> Inr (next_free v))"

definition sl_link :: "nat \<Rightarrow> nat \<Rightarrow> headers \<times> nat \<Rightarrow> nat \<Rightarrow> (headers \<times> nat) res" where
  "sl_link memory object_size = (\<lambda>(h, free_list) i.
     let header = memory + i * object_size in bindE (sl_write memory h header free_list) (\<lambda>h. Inr (h, header)))"

definition slab_create :: "nat \<Rightarrow> nat \<Rightarrow> nat \<Rightarrow> headers \<Rightarrow> (slab_t option \<times> headers \<times> outs) res" where
  "slab_create slab memory object_size h =
     (if slab = 0 then Inr (None, h, [])
      else if object_size = 0 then Inl DivByZero
      else let objects_per_slab = SLAB_SIZE div object_size in
           bindE (foldE (sl_link memory object_size) [0..<objects_per_slab] (h, 0)) (\<lambda>(h, free_list).
             Inr (Some \<lparr>sl_memory = memory, sl_free_list = free_list, sl_object_size = object_size,
                        sl_objects_per_slab = objects_per_slab, sl_free_objects = objects_per_slab\<rparr>, h,
                  [Txt ''Created a slab with '', Num (int objects_per_slab), Txt '' objects of size '', Num (int object_size)])))"

definition slab_cache_create :: "nat \<Rightarrow> string \<Rightarrow> nat \<Rightarrow> slab_cache_t option \<times> outs" where
  "slab_cache_create cache name object_size =
     (if cache = 0 then (None, [])
      else (Some \<lparr>sc_slabs = [], sc_object_size = object_size, sc_name = take 63 name\<rparr>,
            [Txt ''Created slab cache '', Txt name, Txt '' for the '', Num (int object_size), Txt '' bytes of objects'']))"

text \<open>The end of \<^verbatim>\<open>slab_alloc\<close>: the first free object leaves the list.\<close>

definition sl_take :: "slab_t \<Rightarrow> headers \<Rightarrow> (nat \<times> slab_t \<times> headers) res" where
  "sl_take slab h =
     (let obj = sl_free_list slab in
      bindE (sl_read h obj) (\<lambda>nx.
        Inr (obj, slab\<lparr>sl_free_list := nx, sl_free_objects := sl_free_objects slab - 1\<rparr>, h(obj := None))))"

definition slab_alloc ::
  "nat \<Rightarrow> nat \<Rightarrow> slab_cache_t \<Rightarrow> headers \<Rightarrow> (nat \<times> slab_cache_t \<times> headers) res" where
  "slab_alloc slab memory cache h =
     (case dropWhile (\<lambda>s. sl_free_objects s = 0) (sc_slabs cache) of
        s # rest \<Rightarrow>
          bindE (sl_take s h) (\<lambda>(obj, s', h).
            Inr (obj, cache\<lparr>sc_slabs := takeWhile (\<lambda>s. sl_free_objects s = 0) (sc_slabs cache) @ s' # rest\<rparr>, h))
      | [] \<Rightarrow>
          bindE (slab_create slab memory (sc_object_size cache) h) (\<lambda>(new, h, out).
            case new of
              None \<Rightarrow> Inr (0, cache, h)
            | Some s \<Rightarrow> bindE (sl_take s h) (\<lambda>(obj, s', h). Inr (obj, cache\<lparr>sc_slabs := s' # sc_slabs cache\<rparr>, h))))"

fun sl_free :: "nat \<Rightarrow> slab_t list \<Rightarrow> headers \<Rightarrow> (slab_t list \<times> headers) res" where
  "sl_free obj [] h = Inr ([], h)"
| "sl_free obj (s # ss) h =
     (if sl_memory s \<le> obj \<and> obj < sl_memory s + SLAB_SIZE
      then bindE (sl_write (sl_memory s) h obj (sl_free_list s)) (\<lambda>h.
             Inr (s\<lparr>sl_free_list := obj, sl_free_objects := sl_free_objects s + 1\<rparr> # ss, h))
      else bindE (sl_free obj ss h) (\<lambda>(ss', h). Inr (s # ss', h)))"

definition slab_free :: "slab_cache_t \<Rightarrow> nat \<Rightarrow> headers \<Rightarrow> (slab_cache_t \<times> headers) res" where
  "slab_free cache obj h = bindE (sl_free obj (sc_slabs cache) h) (\<lambda>(ss, h). Inr (cache\<lparr>sc_slabs := ss\<rparr>, h))"

text \<open>
  \<^verbatim>\<open>dbms_scenario\<close> for tuples of 132 bytes. \<open>c\<close> is the result of \<^verbatim>\<open>malloc\<close> for the cache, \<open>mallocs i\<close> what the \<open>i\<close>-th allocation would get from
  \<^verbatim>\<open>malloc\<close> and \<^verbatim>\<open>aligned_alloc\<close>; the result lists the tuples and gives the state at the end.
\<close>

definition slab_tuple_alloc :: "(nat \<Rightarrow> nat \<times> nat) \<Rightarrow> nat list \<times> slab_cache_t \<times> headers \<Rightarrow> nat \<Rightarrow> (nat list \<times> slab_cache_t \<times> headers) res" where
  "slab_tuple_alloc mallocs = (\<lambda>(tuples, cache, h) i.
     bindE (slab_alloc (fst (mallocs i)) (snd (mallocs i)) cache h) (\<lambda>(obj, cache, h). Inr (tuples @ [obj], cache, h)))"

definition slab_dbms_scenario :: "nat \<Rightarrow> (nat \<Rightarrow> nat \<times> nat) \<Rightarrow> (nat list \<times> slab_cache_t \<times> headers) res" where
  "slab_dbms_scenario c mallocs =
     (case fst (slab_cache_create c ''db_tuples'' 132) of
        None \<Rightarrow> Inl NullDeref
      | Some tuple_cache \<Rightarrow>
          bindE (foldE (slab_tuple_alloc mallocs) [0..<1000] ([], tuple_cache, Map.empty)) (\<lambda>(tuples, cache, h).
            bindE (foldE (\<lambda>(cache, h) obj. slab_free cache obj h) (take 500 tuples) (cache, h)) (\<lambda>(cache, h).
              Inr (tuples, cache, h))))"

text \<open>
  What a client can do: allocate, and free what it holds. The contract of the system allocator is that the
  memory it returns overlaps no memory it returned before.
\<close>

definition sl_apart :: "nat \<Rightarrow> nat \<Rightarrow> bool" where
  "sl_apart a b \<longleftrightarrow> a + SLAB_SIZE \<le> b \<or> b + SLAB_SIZE \<le> a"

definition sl_fresh :: "slab_cache_t \<Rightarrow> nat \<Rightarrow> bool" where
  "sl_fresh cache memory \<longleftrightarrow> memory \<noteq> 0 \<and> (\<forall>s\<in>set (sc_slabs cache). sl_apart memory (sl_memory s))"

inductive slab_reach :: "nat \<Rightarrow> slab_cache_t \<Rightarrow> headers \<Rightarrow> nat list \<Rightarrow> bool" for object_size where
  slab_reach_init: "slab_cache_create c name object_size = (Some cache, out) \<Longrightarrow> slab_reach object_size cache Map.empty []"
| slab_reach_alloc: "slab_reach object_size cache h live \<Longrightarrow> slab = 0 \<or> sl_fresh cache memory \<Longrightarrow>
    slab_alloc slab memory cache h = Inr (obj, cache', h') \<Longrightarrow> slab_reach object_size cache' h' (if obj = 0 then live else obj # live)"
| slab_reach_free: "slab_reach object_size cache h live \<Longrightarrow> obj \<in> set live \<Longrightarrow>
    slab_free cache obj h = Inr (cache', h') \<Longrightarrow> slab_reach object_size cache' h' (remove1 obj live)"

section \<open>One slab\<close>

abbreviation sl_objects :: "nat \<Rightarrow> nat \<Rightarrow> nat set" where
  "sl_objects n memory \<equiv> (\<lambda>i. memory + i * n) ` {..<SLAB_SIZE div n}"

definition sl_ok :: "nat \<Rightarrow> headers \<Rightarrow> slab_t \<Rightarrow> nat list \<Rightarrow> bool" where
  "sl_ok n h s fs \<longleftrightarrow> sl_memory s \<noteq> 0 \<and> path next_free h (sl_free_list s) fs 0 \<and> set fs \<subseteq> sl_objects n (sl_memory s) \<and>
     length fs = sl_free_objects s"

lemma sl_object_range:
  assumes "a \<in> sl_objects n m" and "sizeof_header \<le> n"
  shows "m \<le> a \<and> a + n \<le> m + SLAB_SIZE \<and> a + sizeof_header \<le> m + SLAB_SIZE \<and> a < m + SLAB_SIZE"
proof -
  from assms obtain i where i: "a = m + i * n" "i < SLAB_SIZE div n" by auto
  then have "Suc i * n \<le> SLAB_SIZE div n * n" by (intro mult_le_mono1) simp
  also have "\<dots> \<le> SLAB_SIZE" by simp
  finally show ?thesis using i assms(2) by (simp add: sizeof_header_def)
qed

lemma sl_objects_spaced:
  assumes "a \<in> sl_objects n m" and "b \<in> sl_objects n m" and "a < b"
  shows "a + n \<le> b"
proof -
  from assms obtain i j where ij: "a = m + i * n" "b = m + j * n" "i < j" by auto
  then have "Suc i * n \<le> j * n" by (intro mult_le_mono1) simp
  with ij show ?thesis by simp
qed

lemma sl_ok_cong: "(\<And>a. a \<in> sl_objects n (sl_memory s) \<Longrightarrow> h' a = h a) \<Longrightarrow> sl_ok n h s fs \<Longrightarrow> sl_ok n h' s fs"
  unfolding sl_ok_def using path_cong [of fs h' h next_free] by blast

lemma sl_take_ok:
  assumes "sl_ok n h s fs" and "sl_free_objects s \<noteq> 0"
  shows "\<exists>a fs' s'. fs = a # fs' \<and> sl_take s h = Inr (a, s', h(a := None)) \<and> sl_ok n (h(a := None)) s' fs' \<and> sl_memory s' = sl_memory s \<and> a \<noteq> 0"
proof (cases fs)
  case (Cons a fs')
  then obtain v where v: "sl_free_list s = a" "a \<noteq> 0" "h a = Some v" "path next_free h (next_free v) fs' 0" using assms(1) by (auto simp: sl_ok_def split: option.splits)
  have "a \<notin> set fs'" using path_distinct [of next_free h a fs] Cons assms(1) v(1) by (auto simp: sl_ok_def)
  then show ?thesis using assms Cons v by (auto simp: sl_ok_def sl_take_def sl_read_def)
qed (use assms in \<open>simp add: sl_ok_def\<close>)

lemma slab_create_loop:
  assumes n: "sizeof_header \<le> n" and m: "memory \<noteq> 0" and k: "k \<le> SLAB_SIZE div n"
  shows "\<exists>h' fl. foldE (sl_link memory n) [0..<k] (h, 0) = Inr (h', fl) \<and> path next_free h' fl (rev (map (\<lambda>i. memory + i * n) [0..<k])) 0 \<and>
      (\<forall>a. a \<notin> (\<lambda>i. memory + i * n) ` {..<k} \<longrightarrow> h' a = h a)"
  using k
proof (induction k)
  case (Suc k)
  then obtain h' fl where IH: "foldE (sl_link memory n) [0..<k] (h, 0) = Inr (h', fl)" "path next_free h' fl (rev (map (\<lambda>i. memory + i * n) [0..<k])) 0"
      "\<forall>a. a \<notin> (\<lambda>i. memory + i * n) ` {..<k} \<longrightarrow> h' a = h a" by (meson Suc_leD)
  let ?a = "memory + k * n"
  have "?a \<in> sl_objects n memory" using Suc.prems by auto
  then have "sl_write memory h' ?a fl = Inr (h'(?a \<mapsto> \<lparr>next_free = fl\<rparr>))"
    using sl_object_range [OF _ n, of ?a memory] m by (simp add: sl_write_def)
  moreover have "?a \<notin> set (rev (map (\<lambda>i. memory + i * n) [0..<k]))" using n by (auto simp: sizeof_header_def)
  ultimately have "sl_link memory n (h', fl) k = Inr (h'(?a \<mapsto> \<lparr>next_free = fl\<rparr>), ?a)"
    "path next_free (h'(?a \<mapsto> \<lparr>next_free = fl\<rparr>)) ?a (?a # rev (map (\<lambda>i. memory + i * n) [0..<k])) 0"
    using IH(2) m by (simp_all add: sl_link_def Let_def)
  then show ?case using IH by (auto simp: foldE_append lessThan_Suc)
qed simp

lemma slab_create_ok:
  assumes n: "sizeof_header \<le> n" and "memory \<noteq> 0" and "slab \<noteq> 0"
  shows "\<exists>s h' out fs. slab_create slab memory n h = Inr (Some s, h', out) \<and> sl_memory s = memory \<and> sl_ok n h' s fs \<and> set fs = sl_objects n memory \<and>
    sl_free_objects s = SLAB_SIZE div n \<and> (\<forall>a. a \<notin> sl_objects n memory \<longrightarrow> h' a = h a)"
proof -
  let ?fs = "rev (map (\<lambda>i. memory + i * n) [0..<SLAB_SIZE div n])"
  obtain h' fl where "foldE (sl_link memory n) [0..<SLAB_SIZE div n] (h, 0) = Inr (h', fl)" "path next_free h' fl ?fs 0" "\<forall>a. a \<notin> sl_objects n memory \<longrightarrow> h' a = h a"
    using slab_create_loop [OF n assms(2) order_refl, of h] by blast
  moreover have "set ?fs = sl_objects n memory" by auto
  moreover have "n \<noteq> 0" using n by (simp add: sizeof_header_def)
  ultimately show ?thesis using assms by (auto simp: slab_create_def sl_ok_def Let_def intro!: exI [of _ ?fs])
qed

section \<open>The cache\<close>

definition sc_inv :: "nat \<Rightarrow> slab_t list \<Rightarrow> headers \<Rightarrow> nat list list \<Rightarrow> bool" where
  "sc_inv n ss h fss \<longleftrightarrow> list_all2 (sl_ok n h) ss fss \<and> sorted_wrt (\<lambda>s t. sl_apart (sl_memory s) (sl_memory t)) ss"

text \<open>The objects of the slabs that are not in the slab's free list.\<close>

definition sc_held :: "nat \<Rightarrow> slab_t list \<Rightarrow> nat list list \<Rightarrow> nat set" where
  "sc_held n ss fss = (\<Union>(s, fs)\<in>set (zip ss fss). sl_objects n (sl_memory s) - set fs)"

lemma sl_objects_apart:
  assumes "sl_apart m m'" and "sizeof_header \<le> n" and "a \<in> sl_objects n m"
  shows "a \<notin> sl_objects n m'"
  using assms(1) sl_object_range [OF assms(3,2)] sl_object_range [OF _ assms(2), of a m'] by (force simp: sl_apart_def)

lemma sl_apart_sym: "sl_apart a b \<longleftrightarrow> sl_apart b a"
  by (auto simp: sl_apart_def)

lemma sorted_wrt_apart:
  assumes "sorted_wrt (\<lambda>s t. sl_apart (sl_memory s) (sl_memory t)) ss" and "s \<in> set ss" and "t \<in> set ss" and "s \<noteq> t"
  shows "sl_apart (sl_memory s) (sl_memory t)"
  using assms by (induction ss) (auto simp: sl_apart_sym)

lemma sc_ok_cong:
  assumes "list_all2 (sl_ok n h) ss fss" and "\<And>s a. s \<in> set ss \<Longrightarrow> a \<in> sl_objects n (sl_memory s) \<Longrightarrow> h' a = h a"
  shows "list_all2 (sl_ok n h') ss fss"
  using assms by (induction rule: list_all2_induct) (auto intro: sl_ok_cong)

lemma sc_inv_update:
  assumes inv: "sc_inv n (us @ s # vs) h (fus @ fs # fvs)" and len: "length us = length fus" and n: "sizeof_header \<le> n"
    and s': "sl_ok n h' s' fs'" "sl_memory s' = sl_memory s" and h': "\<And>a. a \<notin> sl_objects n (sl_memory s) \<Longrightarrow> h' a = h a"
  shows "sc_inv n (us @ s' # vs) h' (fus @ fs' # fvs)"
proof -
  have parts: "list_all2 (sl_ok n h) us fus" "list_all2 (sl_ok n h) vs fvs" using inv len by (auto simp: sc_inv_def list_all2_append)
  have apart: "sl_apart (sl_memory t) (sl_memory s)" if "t \<in> set us \<union> set vs" for t
    using inv that sl_apart_sym by (auto simp: sc_inv_def sorted_wrt_append)
  have "h' a = h a" if "t \<in> set us \<union> set vs" "a \<in> sl_objects n (sl_memory t)" for t a
    by (rule h', rule sl_objects_apart [OF apart n]) (use that in auto)
  then have "list_all2 (sl_ok n h') us fus" "list_all2 (sl_ok n h') vs fvs" using parts by (auto elim!: sc_ok_cong)
  then show ?thesis using inv s' len by (auto simp: sc_inv_def list_all2_append sorted_wrt_append)
qed

lemma sc_held_split:
  "length us = length fus \<Longrightarrow> sc_held n (us @ s # vs) (fus @ fs # fvs) =
    (sl_objects n (sl_memory s) - set fs) \<union> sc_held n us fus \<union> sc_held n vs fvs"
  by (auto simp: sc_held_def)

lemma sc_held_other:
  assumes "sc_inv n (us @ s # vs) h (fus @ fs # fvs)" and "sizeof_header \<le> n" and "a \<in> sl_objects n (sl_memory s)"
  shows "a \<notin> sc_held n us fus" and "a \<notin> sc_held n vs fvs"
proof -
  have "a \<notin> sl_objects n (sl_memory t)" if "t \<in> set us \<union> set vs" for t
  proof (rule sl_objects_apart [OF _ assms(2,3)])
    show "sl_apart (sl_memory s) (sl_memory t)" using assms(1) that sl_apart_sym by (auto simp: sc_inv_def sorted_wrt_append)
  qed
  then show "a \<notin> sc_held n us fus" "a \<notin> sc_held n vs fvs" by (auto simp: sc_held_def dest: set_zip_leftD)
qed

definition sc_free_count :: "slab_t list \<Rightarrow> nat" where
  "sc_free_count ss = sum_list (map sl_free_objects ss)"

text \<open>An allocation hands out an object that nobody holds; it fails only when a slab is needed and no descriptor can be allocated.\<close>

definition slab_hands_out :: "nat \<Rightarrow> slab_cache_t \<Rightarrow> nat list list \<Rightarrow> (nat \<times> slab_cache_t \<times> headers) res \<Rightarrow> bool" where
  "slab_hands_out n cache fss r \<longleftrightarrow> (\<exists>a cache' h' fss'. r = Inr (a, cache', h') \<and> a \<noteq> 0 \<and> sc_inv n (sc_slabs cache') h' fss' \<and>
     sc_object_size cache' = sc_object_size cache \<and> a \<notin> sc_held n (sc_slabs cache) fss \<and>
     sc_held n (sc_slabs cache') fss' = insert a (sc_held n (sc_slabs cache) fss) \<and>
     sc_free_count (sc_slabs cache') + length (sc_slabs cache) * (SLAB_SIZE div n) + 1 =
       sc_free_count (sc_slabs cache) + length (sc_slabs cache') * (SLAB_SIZE div n))"

lemma slab_alloc_new:
  assumes inv: "sc_inv n (sc_slabs cache) h fss" and n: "sizeof_header \<le> n" "n \<le> SLAB_SIZE" "sc_object_size cache = n"
    and fresh: "slab \<noteq> 0" "sl_fresh cache memory" and full: "dropWhile (\<lambda>s. sl_free_objects s = 0) (sc_slabs cache) = []"
  shows "slab_hands_out n cache fss (slab_alloc slab memory cache h)"
proof -
  have mem: "memory \<noteq> 0" "\<forall>t\<in>set (sc_slabs cache). sl_apart memory (sl_memory t)" using fresh(2) by (auto simp: sl_fresh_def)
  obtain s h1 out fs where s: "slab_create slab memory n h = Inr (Some s, h1, out)" "sl_memory s = memory" "sl_ok n h1 s fs"
    "set fs = sl_objects n memory" "sl_free_objects s = SLAB_SIZE div n" "\<forall>a. a \<notin> sl_objects n memory \<longrightarrow> h1 a = h a"
    using slab_create_ok [OF n(1) mem(1) fresh(1)] by blast
  have pos: "SLAB_SIZE div n \<noteq> 0" using n by (simp add: div_eq_0_iff sizeof_header_def)
  then obtain a fs' s' where t: "fs = a # fs'" "sl_take s h1 = Inr (a, s', h1(a := None))" "sl_ok n (h1(a := None)) s' fs'" "sl_memory s' = memory" "a \<noteq> 0"
    using sl_take_ok [OF s(3)] s(2,5) by auto
  have a: "a \<in> sl_objects n memory" using s(4) t(1) by auto
  have other: "b \<notin> sl_objects n memory" if "t \<in> set (sc_slabs cache)" "b \<in> sl_objects n (sl_memory t)" for t b
    by (rule sl_objects_apart [OF _ n(1) that(2)]) (use mem(2) that(1) sl_apart_sym in auto)
  have "list_all2 (sl_ok n (h1(a := None))) (sc_slabs cache) fss"
  proof (rule sc_ok_cong)
    show "list_all2 (sl_ok n h) (sc_slabs cache) fss" using inv by (simp add: sc_inv_def)
    show "(h1(a := None)) b = h b" if "t \<in> set (sc_slabs cache)" "b \<in> sl_objects n (sl_memory t)" for t b
      using other [OF that] a s(6) by (cases "a = b") simp_all
  qed
  then have "sc_inv n (s' # sc_slabs cache) (h1(a := None)) (fs' # fss)" using inv t(3,4) mem(2) by (auto simp: sc_inv_def)
  moreover have "a \<notin> sc_held n (sc_slabs cache) fss" using other a by (auto simp: sc_held_def dest: set_zip_leftD)
  moreover have "a \<notin> set fs'" using path_distinct [of next_free h1 _ fs] s(3) t(1) by (auto simp: sl_ok_def)
  then have "sl_objects n memory - set fs' = {a}" unfolding s(4) [symmetric] t(1) by auto
  then have "sc_held n (s' # sc_slabs cache) (fs' # fss) = insert a (sc_held n (sc_slabs cache) fss)" using t(4) by (simp add: sc_held_def)
  moreover have "slab_alloc slab memory cache h = Inr (a, cache\<lparr>sc_slabs := s' # sc_slabs cache\<rparr>, h1(a := None))"
    unfolding slab_alloc_def full using n(3) s(1) t(2) by simp
  moreover have "sl_free_objects s' + 1 = SLAB_SIZE div n" using s(3,5) t(1,3) by (simp add: sl_ok_def)
  ultimately show ?thesis unfolding slab_hands_out_def
    by (intro exI [of _ a] exI [of _ "cache\<lparr>sc_slabs := s' # sc_slabs cache\<rparr>"] exI [of _ "h1(a := None)"] exI [of _ "fs' # fss"])
      (simp add: t(5) sc_free_count_def)
qed

lemma slab_alloc_old:
  assumes inv: "sc_inv n (sc_slabs cache) h fss" and n: "sizeof_header \<le> n"
    and free: "dropWhile (\<lambda>s. sl_free_objects s = 0) (sc_slabs cache) = s # vs"
  shows "slab_hands_out n cache fss (slab_alloc slab memory cache h)"
proof -
  let ?us = "takeWhile (\<lambda>s. sl_free_objects s = 0) (sc_slabs cache)"
  have ss: "sc_slabs cache = ?us @ s # vs" using free takeWhile_dropWhile_id by metis
  have some: "sl_free_objects s \<noteq> 0" using hd_dropWhile [of "\<lambda>s. sl_free_objects s = 0" "sc_slabs cache"] free by simp
  have "list_all2 (sl_ok n h) (?us @ s # vs) fss" using inv ss by (simp add: sc_inv_def)
  then obtain fus fs fvs where fss: "fss = fus @ fs # fvs" "length ?us = length fus" "sl_ok n h s fs"
    by (auto simp: list_all2_append1 list_all2_Cons1 dest: list_all2_lengthD)
  obtain a fs' s' where t: "fs = a # fs'" "sl_take s h = Inr (a, s', h(a := None))" "sl_ok n (h(a := None)) s' fs'" "sl_memory s' = sl_memory s" "a \<noteq> 0"
    using sl_take_ok [OF fss(3) some] by blast
  have a: "a \<in> sl_objects n (sl_memory s)" "a \<notin> set fs'"
    using fss(3) t(1) path_distinct [of next_free h _ fs] by (auto simp: sl_ok_def)
  have inv': "sc_inv n (?us @ s # vs) h (fus @ fs # fvs)" using inv ss fss(1) by simp
  have "sc_inv n (?us @ s' # vs) (h(a := None)) (fus @ fs' # fvs)"
    by (rule sc_inv_update [OF inv' fss(2) n t(3,4)]) (use a(1) in auto)
  moreover have held: "a \<notin> sc_held n ?us fus" "a \<notin> sc_held n vs fvs" using sc_held_other [OF inv' n a(1)] by auto
  have "a \<notin> sc_held n (?us @ s # vs) (fus @ fs # fvs)" using held t(1) by (simp add: sc_held_split [OF fss(2)])
  moreover have "sl_objects n (sl_memory s) - set fs' = insert a (sl_objects n (sl_memory s) - set fs)" using a t(1) by auto
  then have "sc_held n (?us @ s' # vs) (fus @ fs' # fvs) = insert a (sc_held n (?us @ s # vs) (fus @ fs # fvs))"
    using t(4) by (simp add: sc_held_split [OF fss(2)])
  moreover have "slab_alloc slab memory cache h = Inr (a, cache\<lparr>sc_slabs := ?us @ s' # vs\<rparr>, h(a := None))"
    unfolding slab_alloc_def free using t(2) by simp
  moreover have "sc_free_count (?us @ s' # vs) + 1 = sc_free_count (?us @ s # vs)"
    using fss(3) t(1,3) by (simp add: sl_ok_def sc_free_count_def)
  moreover have "length (?us @ s' # vs) = length (?us @ s # vs)" by simp
  ultimately show ?thesis unfolding slab_hands_out_def ss [symmetric] fss(1) [symmetric]
    by (intro exI [of _ a] exI [of _ "cache\<lparr>sc_slabs := ?us @ s' # vs\<rparr>"] exI [of _ "h(a := None)"] exI [of _ "fus @ fs' # fvs"])
      (simp add: t(5))
qed

lemma slab_alloc_none:
  assumes "sc_free_count (sc_slabs cache) = 0"
  shows "slab_alloc 0 memory cache h = Inr (0, cache, h)"
proof -
  have "dropWhile (\<lambda>s. sl_free_objects s = 0) (sc_slabs cache) = []" using assms by (auto simp: sc_free_count_def)
  then show ?thesis unfolding slab_alloc_def by (simp add: slab_create_def del: dropWhile_eq_Nil_conv)
qed

lemma slab_alloc_ok:
  assumes inv: "sc_inv n (sc_slabs cache) h fss" and n: "sizeof_header \<le> n" "n \<le> SLAB_SIZE" "sc_object_size cache = n"
    and fresh: "slab = 0 \<or> sl_fresh cache memory"
  shows "slab = 0 \<and> sc_free_count (sc_slabs cache) = 0 \<and> slab_alloc slab memory cache h = Inr (0, cache, h) \<or>
    slab_hands_out n cache fss (slab_alloc slab memory cache h)"
proof (cases "dropWhile (\<lambda>s. sl_free_objects s = 0) (sc_slabs cache)")
  case Nil
  then have "sc_free_count (sc_slabs cache) = 0" by (auto simp: sc_free_count_def)
  then have "slab = 0 \<Longrightarrow> sc_free_count (sc_slabs cache) = 0 \<and> slab_alloc slab memory cache h = Inr (0, cache, h)"
    using slab_alloc_none by simp
  then show ?thesis using slab_alloc_new [OF inv n _ _ Nil] fresh by blast
next
  case (Cons s vs)
  then show ?thesis using slab_alloc_old [OF inv n(1)] by blast
qed

lemma sl_free_at:
  assumes "\<forall>t\<in>set us. \<not> (sl_memory t \<le> a \<and> a < sl_memory t + SLAB_SIZE)" and "sl_memory s \<le> a" and "a < sl_memory s + SLAB_SIZE"
  shows "sl_free a (us @ s # vs) h = bindE (sl_write (sl_memory s) h a (sl_free_list s)) (\<lambda>h.
    Inr (us @ s\<lparr>sl_free_list := a, sl_free_objects := sl_free_objects s + 1\<rparr> # vs, h))"
  using assms by (induction us) (auto simp: bindE_assoc)

lemma sc_held_cases:
  assumes "a \<in> sc_held n ss fss"
  obtains us s vs fus fs fvs where "ss = us @ s # vs" "fss = fus @ fs # fvs" "length us = length fus"
    "a \<in> sl_objects n (sl_memory s)" "a \<notin> set fs"
proof -
  from assms obtain s fs where "(s, fs) \<in> set (zip ss fss)" and a: "a \<in> sl_objects n (sl_memory s)" "a \<notin> set fs" by (auto simp: sc_held_def)
  then obtain i where i: "i < length ss" "i < length fss" "s = ss ! i" "fs = fss ! i" by (auto simp: set_zip)
  show ?thesis
    by (rule that [of "take i ss" s "drop (Suc i) ss" "take i fss" fs "drop (Suc i) fss"]) (use i a in \<open>auto simp: id_take_nth_drop\<close>)
qed

lemma slab_free_ok:
  assumes inv: "sc_inv n (sc_slabs cache) h fss" and n: "sizeof_header \<le> n" and held: "a \<in> sc_held n (sc_slabs cache) fss"
  shows "\<exists>cache' h' fss'. slab_free cache a h = Inr (cache', h') \<and> sc_inv n (sc_slabs cache') h' fss' \<and> sc_object_size cache' = sc_object_size cache \<and>
    sc_held n (sc_slabs cache') fss' = sc_held n (sc_slabs cache) fss - {a} \<and>
    sc_free_count (sc_slabs cache') = sc_free_count (sc_slabs cache) + 1 \<and> length (sc_slabs cache') = length (sc_slabs cache)"
proof -
  obtain us s vs fus fs fvs where ss: "sc_slabs cache = us @ s # vs" "fss = fus @ fs # fvs" "length us = length fus"
    and a: "a \<in> sl_objects n (sl_memory s)" "a \<notin> set fs" by (rule sc_held_cases [OF held])
  let ?s = "s\<lparr>sl_free_list := a, sl_free_objects := sl_free_objects s + 1\<rparr>"
  note range = sl_object_range [OF a(1) n]
  have inv': "sc_inv n (us @ s # vs) h (fus @ fs # fvs)" using inv ss by simp
  then have ok: "sl_ok n h s fs" using ss(3) by (auto simp: sc_inv_def list_all2_append)
  have "\<forall>t\<in>set us. sl_apart (sl_memory t) (sl_memory s)" using inv' by (auto simp: sc_inv_def sorted_wrt_append)
  then have "\<forall>t\<in>set us. \<not> (sl_memory t \<le> a \<and> a < sl_memory t + SLAB_SIZE)" using range by (fastforce simp: sl_apart_def)
  then have "slab_free cache a h = Inr (cache\<lparr>sc_slabs := us @ ?s # vs\<rparr>, h(a \<mapsto> \<lparr>next_free = sl_free_list s\<rparr>))"
    using sl_free_at [of us a s vs h] range ok by (simp add: slab_free_def ss(1) sl_write_def sl_ok_def)
  moreover have "a \<noteq> 0" using range ok by (simp add: sl_ok_def)
  then have "sl_ok n (h(a \<mapsto> \<lparr>next_free = sl_free_list s\<rparr>)) ?s (a # fs)" using ok a by (auto simp: sl_ok_def)
  then have "sc_inv n (us @ ?s # vs) (h(a \<mapsto> \<lparr>next_free = sl_free_list s\<rparr>)) (fus @ (a # fs) # fvs)"
    by (rule sc_inv_update [OF inv' ss(3) n]) (use a(1) in auto)
  moreover have "sc_held n (us @ ?s # vs) (fus @ (a # fs) # fvs) = sc_held n (us @ s # vs) (fus @ fs # fvs) - {a}"
    using sc_held_other [OF inv' n a(1)] by (auto simp: sc_held_split [OF ss(3)])
  moreover have "sc_free_count (us @ ?s # vs) = sc_free_count (us @ s # vs) + 1" by (simp add: sc_free_count_def)
  ultimately show ?thesis unfolding ss(1,2)
    by (intro exI [of _ "cache\<lparr>sc_slabs := us @ ?s # vs\<rparr>"] exI [of _ "h(a \<mapsto> \<lparr>next_free = sl_free_list s\<rparr>)"] exI [of _ "fus @ (a # fs) # fvs"]) simp
qed

section \<open>The cache under its clients\<close>

definition slab_state :: "nat \<Rightarrow> slab_cache_t \<Rightarrow> headers \<Rightarrow> nat list list \<Rightarrow> nat list \<Rightarrow> bool" where
  "slab_state n cache h fss live \<longleftrightarrow> sc_inv n (sc_slabs cache) h fss \<and> sc_object_size cache = n \<and> distinct live \<and>
     set live = sc_held n (sc_slabs cache) fss \<and> sc_free_count (sc_slabs cache) + length live = length (sc_slabs cache) * (SLAB_SIZE div n)"

lemma slab_reach_state:
  assumes "slab_reach n cache h live" and n: "sizeof_header \<le> n" "n \<le> SLAB_SIZE"
  shows "\<exists>fss. slab_state n cache h fss live"
  using assms(1)
proof (induction rule: slab_reach.induct)
  case (slab_reach_init c name cache out)
  then show ?case by (intro exI [of _ "[]"])
      (auto simp: slab_cache_create_def slab_state_def sc_inv_def sc_held_def sc_free_count_def split: if_splits)
next
  case (slab_reach_alloc cache h live slab memory obj cache' h')
  then obtain fss where st: "slab_state n cache h fss live" by blast
  then have inv: "sc_inv n (sc_slabs cache) h fss" "sc_object_size cache = n" by (auto simp: slab_state_def)
  consider "slab_alloc slab memory cache h = Inr (0, cache, h)" | "slab_hands_out n cache fss (slab_alloc slab memory cache h)"
    using slab_alloc_ok [OF inv(1) n inv(2) slab_reach_alloc(2)] by blast
  then show ?case
  proof cases
    case 1
    then show ?thesis using st slab_reach_alloc(3) by auto
  next
    case 2
    then show ?thesis using st slab_reach_alloc(3) unfolding slab_hands_out_def slab_state_def
      by (auto simp: algebra_simps)
  qed
next
  case (slab_reach_free cache h live obj cache' h')
  then obtain fss where st: "slab_state n cache h fss live" by blast
  then have inv: "sc_inv n (sc_slabs cache) h fss" "obj \<in> sc_held n (sc_slabs cache) fss" using slab_reach_free(2) by (auto simp: slab_state_def)
  obtain fss' where "sc_inv n (sc_slabs cache') h' fss'" "sc_object_size cache' = sc_object_size cache"
    "sc_held n (sc_slabs cache') fss' = sc_held n (sc_slabs cache) fss - {obj}"
    "sc_free_count (sc_slabs cache') = sc_free_count (sc_slabs cache) + 1" "length (sc_slabs cache') = length (sc_slabs cache)"
    using slab_free_ok [OF inv(1) n(1) inv(2)] slab_reach_free(3) by auto
  moreover have "length live = Suc (length (remove1 obj live))" using slab_reach_free(2) using length_pos_if_in_set [OF slab_reach_free(2)] by (simp add: length_remove1)
  ultimately show ?case using st by (auto simp: slab_state_def)
qed

text \<open>
  C15. Whatever its client allocates and frees, the slab allocator stays safe for object sizes from a header to a slab: the objects the client
  holds are distinct, lie inside a slab of the cache and do not overlap; the free counts of the slabs and the held objects add up to all objects; an allocation returns an
  object that is not held, and \<^verbatim>\<open>NULL\<close> only when nothing is free and no descriptor can be allocated; a free of a held object succeeds.
\<close>

theorem slab_allocator_safe:
  assumes "slab_reach n cache h live" and "sizeof_header \<le> n" and "n \<le> SLAB_SIZE"
  shows "distinct live \<and>
    (\<forall>a\<in>set live. \<exists>s\<in>set (sc_slabs cache). sl_memory s \<le> a \<and> a + n \<le> sl_memory s + SLAB_SIZE) \<and>
    (\<forall>a\<in>set live. \<forall>b\<in>set live. a < b \<longrightarrow> a + n \<le> b) \<and>
    sc_free_count (sc_slabs cache) + length live = length (sc_slabs cache) * (SLAB_SIZE div n) \<and>
    (\<forall>slab memory. slab = 0 \<or> sl_fresh cache memory \<longrightarrow>
       (\<exists>a cache' h'. slab_alloc slab memory cache h = Inr (a, cache', h') \<and> a \<notin> set live \<and>
          (a = 0 \<longleftrightarrow> slab = 0 \<and> sc_free_count (sc_slabs cache) = 0))) \<and>
    (\<forall>a\<in>set live. \<exists>r. slab_free cache a h = Inr r)"
proof -
  obtain fss where st: "slab_state n cache h fss live" using slab_reach_state [OF assms] by blast
  then have inv: "sc_inv n (sc_slabs cache) h fss" "sc_object_size cache = n" "set live = sc_held n (sc_slabs cache) fss"
    by (auto simp: slab_state_def)
  have place: "\<exists>s\<in>set (sc_slabs cache). a \<in> sl_objects n (sl_memory s)" if "a \<in> set live" for a
    using that inv(3) by (auto simp: sc_held_def dest: set_zip_leftD)
  have nonzero: "sl_memory s \<noteq> 0" if "s \<in> set (sc_slabs cache)" for s
    using inv(1) that by (auto simp: sc_inv_def sl_ok_def list_all2_conv_all_nth in_set_conv_nth)
  have apart: "a + n \<le> b" if ab: "a \<in> set live" "b \<in> set live" "a < b" for a b
  proof -
    obtain s t where st: "s \<in> set (sc_slabs cache)" "a \<in> sl_objects n (sl_memory s)" "t \<in> set (sc_slabs cache)" "b \<in> sl_objects n (sl_memory t)"
      using place ab by blast
    show ?thesis
    proof (cases "s = t")
      case True
      then show ?thesis using sl_objects_spaced st ab(3) by blast
    next
      case False
      then have "sl_apart (sl_memory s) (sl_memory t)" using inv(1) st(1,3) sorted_wrt_apart by (auto simp: sc_inv_def)
      then show ?thesis using sl_object_range [OF st(2) assms(2)] sl_object_range [OF st(4) assms(2)] ab(3) by (auto simp: sl_apart_def)
    qed
  qed
  have alloc: "\<exists>a cache' h'. slab_alloc slab memory cache h = Inr (a, cache', h') \<and> a \<notin> set live \<and>
      (a = 0 \<longleftrightarrow> slab = 0 \<and> sc_free_count (sc_slabs cache) = 0)" if "slab = 0 \<or> sl_fresh cache memory" for slab memory
  proof (cases "slab = 0 \<and> sc_free_count (sc_slabs cache) = 0")
    case True
    have "0 \<notin> set live" using place nonzero by force
    then show ?thesis using True slab_alloc_none by simp
  next
    case False
    then have "slab_hands_out n cache fss (slab_alloc slab memory cache h)"
      using slab_alloc_ok [OF inv(1) assms(2,3) inv(2) that] by blast
    then show ?thesis using False inv(3) by (auto simp: slab_hands_out_def)
  qed
  have "\<exists>s\<in>set (sc_slabs cache). sl_memory s \<le> a \<and> a + n \<le> sl_memory s + SLAB_SIZE" if "a \<in> set live" for a
    using place [OF that] sl_object_range [OF _ assms(2)] by blast
  moreover have "\<exists>r. slab_free cache a h = Inr r" if "a \<in> set live" for a
    using slab_free_ok [OF inv(1) assms(2), of a] that inv(3) by blast
  ultimately show ?thesis using st apart alloc by (simp add: slab_state_def)
qed

theorem slab_allocator_safe_witness:
  "\<exists>cache h. slab_reach 2048 cache h [6144] \<and> (\<exists>r. slab_free cache 6144 h = Inr r) \<and> sc_free_count (sc_slabs cache) + 1 = length (sc_slabs cache) * 2"
proof -
  let ?c = "\<lparr>sc_slabs = [], sc_object_size = 2048, sc_name = ''x''\<rparr>"
  have init: "slab_reach 2048 ?c Map.empty []" using slab_reach_init [of 1 "''x''" 2048 ?c] by (auto simp: slab_cache_create_def)
  obtain cache h where "slab_alloc 1 4096 ?c Map.empty = Inr (6144, cache, h)"
    by (simp add: slab_alloc_def slab_create_def sl_take_def sl_read_def sl_link_def sl_write_def SLAB_SIZE_def sizeof_header_def upt_rec Let_def)
  then have "slab_reach 2048 cache h [6144]"
    using slab_reach_alloc [OF init, of 1 4096 6144 cache h] by (auto simp: sl_fresh_def)
  then show ?thesis using slab_allocator_safe [of 2048 cache h "[6144]"] by (auto simp: sizeof_header_def SLAB_SIZE_def)
qed

text \<open>
  C37. Outside its range of object sizes, and when \<^verbatim>\<open>aligned_alloc\<close> fails, the slab allocator faults on the first allocation: a size of 0 divides by zero, a size
  above a slab leaves the free list empty and its head is dereferenced, and memory that could not be allocated is written to.
\<close>

theorem slab_first_alloc_faults:
  assumes "slab \<noteq> 0" and "sc_slabs cache = []"
  shows "(sc_object_size cache = 0 \<longrightarrow> slab_alloc slab memory cache h = Inl DivByZero) \<and>
    (SLAB_SIZE < sc_object_size cache \<longrightarrow> slab_alloc slab memory cache h = Inl NullDeref) \<and>
    (0 < sc_object_size cache \<and> sc_object_size cache \<le> SLAB_SIZE \<longrightarrow> slab_alloc slab 0 cache h = Inl NullDeref)"
proof -
  have "[0..<SLAB_SIZE div n] = 0 # [1..<SLAB_SIZE div n]" if "0 < n" "n \<le> SLAB_SIZE" for n
    using that by (simp add: upt_conv_Cons div_greater_zero_iff)
  then show ?thesis using assms
    by (auto simp: slab_alloc_def slab_create_def sl_take_def sl_read_def sl_link_def sl_write_def Let_def)
qed

theorem slab_first_alloc_faults_witness:
  "slab_alloc 1 4096 \<lparr>sc_slabs = [], sc_object_size = 8192, sc_name = ''big''\<rparr> Map.empty = Inl NullDeref"
  using slab_first_alloc_faults [of 1 "\<lparr>sc_slabs = [], sc_object_size = 8192, sc_name = ''big''\<rparr>" 4096 Map.empty] by (simp add: SLAB_SIZE_def)

section \<open>The program's scenario\<close>

lemma slab_alloc_memories:
  assumes "slab_alloc slab memory cache h = Inr (a, cache', h')"
  shows "sl_memory ` set (sc_slabs cache') \<subseteq> insert memory (sl_memory ` set (sc_slabs cache))"
proof (cases "dropWhile (\<lambda>s. sl_free_objects s = 0) (sc_slabs cache)")
  case Nil
  show ?thesis using assms unfolding slab_alloc_def Nil
    by (auto simp: bindE_eq_Inr sl_take_def slab_create_def Let_def split: option.splits if_splits)
next
  case (Cons s vs)
  have "sc_slabs cache = takeWhile (\<lambda>s. sl_free_objects s = 0) (sc_slabs cache) @ s # vs" using Cons takeWhile_dropWhile_id by metis
  then have "set (sc_slabs cache) = set (takeWhile (\<lambda>s. sl_free_objects s = 0) (sc_slabs cache)) \<union> insert s (set vs)"
    by (metis list.simps(15) set_append)
  then show ?thesis using assms unfolding slab_alloc_def Cons by (auto simp: bindE_eq_Inr sl_take_def Let_def)
qed

lemma slab_scenario_allocs:
  assumes start: "slab_reach n cache Map.empty []" "sc_slabs cache = []" and n: "sizeof_header \<le> n" "n \<le> SLAB_SIZE"
    and mallocs: "\<forall>i. fst (mallocs i) \<noteq> 0 \<and> snd (mallocs i) \<noteq> 0" "\<forall>i j. i \<noteq> j \<longrightarrow> sl_apart (snd (mallocs i)) (snd (mallocs j))"
  shows "\<exists>tuples cache' h'. foldE (slab_tuple_alloc mallocs) [0..<k] ([], cache, Map.empty) = Inr (tuples, cache', h') \<and> slab_reach n cache' h' (rev tuples) \<and> length tuples = k \<and>
      sl_memory ` set (sc_slabs cache') \<subseteq> (snd \<circ> mallocs) ` {..<k}"
proof (induction k)
  case (Suc k)
  then obtain tuples c h where IH: "foldE (slab_tuple_alloc mallocs) [0..<k] ([], cache, Map.empty) = Inr (tuples, c, h)" "slab_reach n c h (rev tuples)" "length tuples = k"
      "sl_memory ` set (sc_slabs c) \<subseteq> (snd \<circ> mallocs) ` {..<k}" by blast
  have "sl_apart (snd (mallocs k)) (sl_memory s)" if s: "s \<in> set (sc_slabs c)" for s
  proof -
    obtain i where "i < k" "sl_memory s = snd (mallocs i)" using IH(4) s by fastforce
    then show ?thesis using mallocs(2) by simp
  qed
  then have fresh: "fst (mallocs k) = 0 \<or> sl_fresh c (snd (mallocs k))" using mallocs(1) by (simp add: sl_fresh_def)
  obtain fss where st: "slab_state n c h fss (rev tuples)" using slab_reach_state [OF IH(2) n] by blast
  have "slab_hands_out n c fss (slab_alloc (fst (mallocs k)) (snd (mallocs k)) c h)"
    using slab_alloc_ok [OF _ n _ fresh] mallocs(1) st by (auto simp: slab_state_def)
  then obtain a c' h' where a: "slab_alloc (fst (mallocs k)) (snd (mallocs k)) c h = Inr (a, c', h')" "a \<noteq> 0" by (auto simp: slab_hands_out_def)
  have "slab_reach n c' h' (rev (tuples @ [a]))" using slab_reach_alloc [OF IH(2) fresh a(1)] a(2) by simp
  moreover have "sl_memory ` set (sc_slabs c') \<subseteq> (snd \<circ> mallocs) ` {..<Suc k}"
    using slab_alloc_memories [OF a(1)] IH(4) by (auto simp: lessThan_Suc)
  moreover have "slab_tuple_alloc mallocs (tuples, c, h) k = Inr (tuples @ [a], c', h')" using a(1) by (simp add: slab_tuple_alloc_def)
  ultimately show ?case using IH(1,3) by (simp add: foldE_append)
qed (use start in simp)

lemma slab_scenario_frees:
  assumes "slab_reach n cache h live" and n: "sizeof_header \<le> n" "n \<le> SLAB_SIZE" and "distinct objs" and "set objs \<subseteq> set live"
  shows "\<exists>cache' h' live'. foldE (\<lambda>(cache, h) obj. slab_free cache obj h) objs (cache, h) = Inr (cache', h') \<and>
    slab_reach n cache' h' live' \<and> set live' = set live - set objs"
  using assms(1,4,5)
proof (induction objs arbitrary: cache h live)
  case (Cons a objs)
  obtain fss where st: "slab_state n cache h fss live" using slab_reach_state [OF Cons.prems(1) n] by blast
  then obtain c1 h1 where free: "slab_free cache a h = Inr (c1, h1)"
    using slab_free_ok [of n cache h fss a] n(1) Cons.prems(3) by (auto simp: slab_state_def)
  have d: "distinct live" using st by (simp add: slab_state_def)
  have "slab_reach n c1 h1 (remove1 a live)" using slab_reach_free [OF Cons.prems(1) _ free] Cons.prems(3) by simp
  then show ?case using Cons.IH [of c1 h1 "remove1 a live"] Cons.prems(2,3) d free by (auto simp: Diff_insert2 [symmetric] subset_Diff_insert)
qed auto

text \<open>
  The scenario for tuples of 132 bytes runs without a fault when the system has memory: it allocates a thousand distinct tuples and ends with the last
  five hundred of them allocated.
\<close>

lemma slab_dbms_scenario_ok:
  assumes "c \<noteq> 0"
    and "\<forall>i. fst (mallocs i) \<noteq> 0 \<and> snd (mallocs i) \<noteq> 0" and "\<forall>i j. i \<noteq> j \<longrightarrow> sl_apart (snd (mallocs i)) (snd (mallocs j))"
  shows "\<exists>tuples cache' h' live. slab_dbms_scenario c mallocs = Inr (tuples, cache', h') \<and> length tuples = 1000 \<and> distinct tuples \<and>
    slab_reach 132 cache' h' live \<and> set live = set (drop 500 tuples)"
proof -
  have n: "sizeof_header \<le> 132" "132 \<le> SLAB_SIZE" by (simp_all add: sizeof_header_def SLAB_SIZE_def)
  obtain cache out where cache: "slab_cache_create c ''db_tuples'' 132 = (Some cache, out)" using assms(1) by (simp add: slab_cache_create_def)
  then have start: "slab_reach 132 cache Map.empty []" "sc_slabs cache = []"
    using slab_reach_init [OF cache] by (auto simp: slab_cache_create_def split: if_splits)
  obtain tuples c1 h where t: "foldE (slab_tuple_alloc mallocs) [0..<1000] ([], cache, Map.empty) = Inr (tuples, c1, h)" "slab_reach 132 c1 h (rev tuples)" "length tuples = 1000"
    using slab_scenario_allocs [OF start n assms(2,3), of 1000] by blast
  have d: "distinct tuples" using slab_reach_state [OF t(2) n] by (auto simp: slab_state_def)
  have "set (take 500 tuples) \<union> set (drop 500 tuples) = set tuples" "set (take 500 tuples) \<inter> set (drop 500 tuples) = {}"
    using d by (metis append_take_drop_id set_append, metis append_take_drop_id distinct_append)
  then have rest: "set tuples - set (take 500 tuples) = set (drop 500 tuples)" by blast
  obtain c' h' live where "foldE (\<lambda>(cache, h) obj. slab_free cache obj h) (take 500 tuples) (c1, h) = Inr (c', h')"
    "slab_reach 132 c' h' live" "set live = set (rev tuples) - set (take 500 tuples)"
    using slab_scenario_frees [OF t(2) n, of "take 500 tuples"] d by (auto dest: in_set_takeD)
  then have "slab_dbms_scenario c mallocs = Inr (tuples, c', h') \<and> slab_reach 132 c' h' live \<and> set live = set (drop 500 tuples)"
    using cache t(1) rest by (simp add: slab_dbms_scenario_def)
  then show ?thesis using t(3) d by blast
qed
end
