(* ===== verification/ArrayTasks.thy ===== *)
theory ArrayTasks
  imports Prelude
begin

text \<open>
  The array exercises of \<^verbatim>\<open>EXTRA_TASK/24-11-2025\<close>: two majority searches, the repeated and the missing number,
  selection sort, bubble sort, common elements and the two largest numbers. Loops are folds over their index ranges, with
  every index checked. Numbers are integers; the 64-bit arithmetic of \<^verbatim>\<open>repeatMissing\<close> is checked for overflow.
\<close>

section \<open>Majority\<close>

text \<open>A loop that counts the elements equal to \<open>v\<close>.\<close>

definition arr_count :: "int list \<Rightarrow> int \<Rightarrow> int \<Rightarrow> int res" where
  "arr_count arr n v = foldE (\<lambda>c i. bindE (arr_get arr i) (\<lambda>x. Inr (if v = x then c + 1 else c))) [0..n - 1] 0"

definition mj_vote :: "int list \<Rightarrow> int \<times> int \<Rightarrow> int \<Rightarrow> (int \<times> int) res" where
  "mj_vote arr = (\<lambda>(freq, ans) i.
     bindE (arr_get arr i) (\<lambda>x.
       let ans = (if freq = 0 then x else ans) in Inr (if ans = x then freq + 1 else freq - 1, ans)))"

definition mojorityElem :: "int list \<Rightarrow> int \<Rightarrow> int res" where
  "mojorityElem arr n =
     bindE (foldE (mj_vote arr) [0..n - 1] (0, 0)) (\<lambda>(freq, ans).
       bindE (arr_count arr n ans) (\<lambda>cnt. Inr (if cnt > n div 2 then ans else -1)))"

fun fm_scan :: "int list \<Rightarrow> int \<Rightarrow> int list \<Rightarrow> int res" where
  "fm_scan arr n [] = Inr (-1)"
| "fm_scan arr n (i # is) =
     bindE (arr_get arr i) (\<lambda>x. bindE (arr_count arr n x) (\<lambda>freq. if freq > n div 2 then Inr x else fm_scan arr n is))"

definition findMajority :: "int list \<Rightarrow> int \<Rightarrow> int res" where
  "findMajority arr n = fm_scan arr n [0..n - 1]"

definition majority_report :: "int \<Rightarrow> outs" where
  "majority_report r = (if r \<noteq> -1 then [Txt ''majority element='', Num r] else [Txt ''majority element not found''])"

definition moore_main :: "outs res" where
  "moore_main = bindE (mojorityElem [2, 2, 1, 1, 2, 2, 2] 7) (\<lambda>r. Inr (majority_report r))"

definition brute_main :: "outs res" where
  "brute_main = bindE (findMajority [2, 2, 1, 1, 3, 3, 2] 7) (\<lambda>r. Inr (majority_report r))"

section \<open>The repeated and the missing number\<close>

definition fits64 :: "int \<Rightarrow> int res" where
  "fits64 x = (if - (2 ^ 63) \<le> x \<and> x < 2 ^ 63 then Inr x else Inl Overflow)"

definition fits32 :: "int \<Rightarrow> int res" where
  "fits32 x = (if - (2 ^ 31) \<le> x \<and> x < 2 ^ 31 then Inr x else Inl Overflow)"

definition rm_sums :: "int list \<Rightarrow> int \<times> int \<Rightarrow> int \<Rightarrow> (int \<times> int) res" where
  "rm_sums arr = (\<lambda>(sumArr, sumSqrArr) i.
     bindE (arr_get arr i) (\<lambda>x.
       bindE (fits64 (sumArr + x)) (\<lambda>s. bindE (fits64 (x * x)) (\<lambda>q. bindE (fits64 (sumSqrArr + q)) (\<lambda>t. Inr (s, t))))))"

text \<open>\<^verbatim>\<open>S\<close> and \<^verbatim>\<open>P\<close>; the factors \<^verbatim>\<open>n+1\<close> and \<^verbatim>\<open>2*n+1\<close> are computed in \<^verbatim>\<open>int\<close>.\<close>

definition rm_expected :: "int \<Rightarrow> (int \<times> int) res" where
  "rm_expected n =
     bindE (fits32 (n + 1)) (\<lambda>n1.
       bindE (fits64 (n * n1)) (\<lambda>nn.
         bindE (fits32 (2 * n)) (\<lambda>d.
           bindE (fits32 (d + 1)) (\<lambda>d1.
             bindE (fits64 (nn * d1)) (\<lambda>p. Inr (nn sdiv 2, p sdiv 6))))))"

definition repeatMissing :: "int list \<Rightarrow> int \<Rightarrow> outs res" where
  "repeatMissing arr n =
     bindE (rm_expected n) (\<lambda>(S, P).
       bindE (foldE (rm_sums arr) [0..n - 1] (0, 0)) (\<lambda>(sumArr, sumSqrArr).
         bindE (fits64 (sumArr - S)) (\<lambda>val1.
           bindE (fits64 (sumSqrArr - P)) (\<lambda>val2.
             if val1 = 0 then Inl DivByZero
             else bindE (fits64 (val2 sdiv val1)) (\<lambda>val3.
                    bindE (fits64 (val1 + val3)) (\<lambda>v.
                      let R = v sdiv 2 in
                      bindE (fits64 (R - val1)) (\<lambda>M. Inr [Txt ''Repeated: '', Num R, Txt ''Missing : '', Num M])))))))"

section \<open>Sorting\<close>

definition arr_swap :: "'a list \<Rightarrow> int \<Rightarrow> int \<Rightarrow> 'a list res" where
  "arr_swap arr i j =
     bindE (arr_get arr i) (\<lambda>temp. bindE (arr_get arr j) (\<lambda>y. bindE (arr_set arr i y) (\<lambda>arr. arr_set arr j temp)))"

definition sel_min :: "int list \<Rightarrow> int \<Rightarrow> int \<Rightarrow> int res" where
  "sel_min arr n i =
     foldE (\<lambda>min_pos j. bindE (arr_get arr j) (\<lambda>x. bindE (arr_get arr min_pos) (\<lambda>y. Inr (if x < y then j else min_pos)))) [i + 1..n - 1] i"

definition selection_sort :: "int list \<Rightarrow> int \<Rightarrow> int list res" where
  "selection_sort arr n = foldE (\<lambda>arr i. bindE (sel_min arr n i) (\<lambda>min_pos. arr_swap arr i min_pos)) [0..n - 1 - 1] arr"

definition bubble_pass :: "int \<Rightarrow> int list \<Rightarrow> int \<Rightarrow> int list res" where
  "bubble_pass n arr i =
     foldE (\<lambda>arr j. bindE (arr_get arr j) (\<lambda>x. bindE (arr_get arr (j + 1)) (\<lambda>y. if x > y then arr_swap arr j (j + 1) else Inr arr)))
       [i..n - i - 1 - 1] arr"

definition bubble_sort :: "int list \<Rightarrow> int \<Rightarrow> int list res" where
  "bubble_sort arr n = foldE (bubble_pass n) [0..n - 1 - 1] arr"

definition selection_main :: "outs res" where
  "selection_main = bindE (selection_sort [10, 4, 80, 5, 48] 5) (\<lambda>arr. Inr (map Num arr))"

definition bubble_main :: "outs res" where
  "bubble_main = bindE (bubble_sort [10, 4, 80, 5, 48] 5) (\<lambda>arr. Inr (map Num arr))"

section \<open>Common elements and the two largest numbers\<close>

text \<open>The loop \<^verbatim>\<open>freq[x]++\<close> over the elements of an array.\<close>

definition arr_hist :: "int list \<Rightarrow> int list \<Rightarrow> int list res" where
  "arr_hist a freq = foldE (\<lambda>freq x. bindE (arr_get freq x) (\<lambda>f. arr_set freq x (f + 1))) a freq"

definition common_scan :: "int list \<times> outs \<Rightarrow> int \<Rightarrow> (int list \<times> outs) res" where
  "common_scan = (\<lambda>(freq, out) y.
     bindE (arr_get freq y) (\<lambda>f. if f > 0 then bindE (arr_set freq y (f - 1)) (\<lambda>freq. Inr (freq, out @ [Num y])) else Inr (freq, out)))"

definition common_elements :: "int list \<Rightarrow> int list \<Rightarrow> outs res" where
  "common_elements a b =
     bindE (arr_hist a (replicate 1000 0)) (\<lambda>freq. bindE (foldE common_scan b (freq, [Txt ''Common element:''])) (\<lambda>(freq, out). Inr out))"

definition INT_MIN :: int where "INT_MIN = - (2 ^ 31)"

definition sl_step :: "int list \<Rightarrow> int \<times> int \<Rightarrow> int \<Rightarrow> (int \<times> int) res" where
  "sl_step arr = (\<lambda>(mx, secondMax) i.
     bindE (arr_get arr i) (\<lambda>x.
       Inr (if x > mx then (x, mx) else if x > secondMax \<and> x \<noteq> mx then (mx, x) else (mx, secondMax))))"

definition secondLargestNum :: "int list \<Rightarrow> int \<Rightarrow> outs res" where
  "secondLargestNum arr n =
     bindE (foldE (sl_step arr) [0..n - 1] (INT_MIN, INT_MIN)) (\<lambda>(mx, secondMax).
       Inr [Txt ''Max= '', Num mx, Txt ''second Max= '', Num secondMax])"

section \<open>Proofs: majority\<close>

lemma count_snoc: "count_list (xs @ [x]) y = count_list xs y + (if x = y then 1 else 0)"
  by simp

lemma arr_count_ok: "arr_count arr (int (length arr)) v = Inr (int (count_list arr v))"
proof -
  have "\<exists>c. arr_count arr (int (length arr)) v = Inr c \<and> c = int (count_list (take (nat (int (length arr))) arr) v)"
    unfolding arr_count_def
    by (rule foldE_for [where P = "\<lambda>i c. c = int (count_list (take (nat i) arr) v)"]) (auto simp: take_Suc_int)
  then show ?thesis by simp
qed

lemma mj_vote_ok:
  "\<exists>freq ans. foldE (mj_vote arr) [0..int (length arr) - 1] (0, 0) = Inr (freq, ans) \<and>
     (\<forall>x. x \<noteq> ans \<longrightarrow> 2 * int (count_list arr x) \<le> int (length arr))"
proof -
  let ?P = "\<lambda>i (freq, ans). 0 \<le> freq \<and> (\<forall>x. 2 * int (count_list (take (nat i) arr) x) \<le> i + (if x = ans then freq else - freq))"
  have "\<exists>s. foldE (mj_vote arr) [0..int (length arr) - 1] (0, 0) = Inr s \<and> ?P (int (length arr)) s"
  proof (rule foldE_for [where P = ?P])
    fix i s assume i: "0 \<le> i" "i < int (length arr)" and P: "?P i s"
    obtain freq ans where s: "s = (freq, ans)" by (cases s)
    let ?x = "arr ! nat i" let ?c = "\<lambda>y. int (count_list (take (nat i) arr) y)"
    let ?ans = "if freq = 0 then ?x else ans"
    have c: "2 * ?c y \<le> i + (if y = ans then freq else - freq)" for y using P s by auto
    have "0 \<le> freq" using P s by simp
    then have "2 * (?c y + (if ?x = y then 1 else 0)) \<le> i + 1 + (if y = ?ans then f' else - f')"
      if "f' = (if ?ans = ?x then freq + 1 else freq - 1)" for y f'
      using c [of y] that by (auto split: if_splits)
    moreover have "int (count_list (take (nat (i + 1)) arr) y) = ?c y + (if ?x = y then 1 else 0)" for y using i by (simp add: take_Suc_int)
    ultimately show "\<exists>s'. mj_vote arr s i = Inr s' \<and> ?P (i + 1) s'"
      using i \<open>0 \<le> freq\<close> by (simp add: s mj_vote_def Let_def)
  qed auto
  then obtain freq ans where r: "foldE (mj_vote arr) [0..int (length arr) - 1] (0, 0) = Inr (freq, ans)" "0 \<le> freq"
    "\<forall>x. 2 * int (count_list arr x) \<le> int (length arr) + (if x = ans then freq else - freq)" by auto
  moreover have "2 * int (count_list arr x) \<le> int (length arr)" if "x \<noteq> ans" for x using r(2) spec [OF r(3), of x] that by simp
  ultimately show ?thesis by blast
qed

text \<open>The result that both searches must give.\<close>

definition is_majority :: "int list \<Rightarrow> int \<Rightarrow> bool" where
  "is_majority arr x \<longleftrightarrow> int (count_list arr x) > int (length arr) div 2"

lemma majority_unique:
  assumes "is_majority arr x" and "is_majority arr y"
  shows "x = y"
proof (rule ccontr)
  assume "x \<noteq> y"
  then have "count_list arr x + count_list arr y \<le> length arr" by (induction arr) auto
  then show False using assms by (simp add: is_majority_def)
qed

lemma mojorityElem_ok:
  "\<exists>r. mojorityElem arr (int (length arr)) = Inr r \<and> (is_majority arr r \<or> r = -1 \<and> (\<forall>x. \<not> is_majority arr x))"
proof -
  obtain freq ans where v: "foldE (mj_vote arr) [0..int (length arr) - 1] (0, 0) = Inr (freq, ans)"
    "\<forall>x. x \<noteq> ans \<longrightarrow> 2 * int (count_list arr x) \<le> int (length arr)" using mj_vote_ok by blast
  have "\<not> is_majority arr x" if "\<not> is_majority arr ans" for x
  proof (cases "x = ans")
    case False
    then show ?thesis using spec [OF v(2), of x] by (simp add: is_majority_def)
  qed (use that in simp)
  then show ?thesis using v(1) by (auto simp: mojorityElem_def arr_count_ok is_majority_def)
qed

lemma fm_scan_ok:
  assumes "\<forall>i\<in>set is. 0 \<le> i \<and> i < int (length arr)"
  shows "\<exists>r. fm_scan arr (int (length arr)) is = Inr r \<and>
    (is_majority arr r \<or> r = -1 \<and> (\<forall>i\<in>set is. \<not> is_majority arr (arr ! nat i)))"
  using assms by (induction "is") (auto simp: arr_count_ok is_majority_def)

lemma findMajority_ok:
  "\<exists>r. findMajority arr (int (length arr)) = Inr r \<and> (is_majority arr r \<or> r = -1 \<and> (\<forall>x. \<not> is_majority arr x))"
proof -
  obtain r where r: "findMajority arr (int (length arr)) = Inr r"
    "is_majority arr r \<or> r = -1 \<and> (\<forall>i\<in>set [0..int (length arr) - 1]. \<not> is_majority arr (arr ! nat i))"
    using fm_scan_ok [of "[0..int (length arr) - 1]" arr] unfolding findMajority_def by auto
  have "\<not> is_majority arr x" if none: "\<forall>i\<in>set [0..int (length arr) - 1]. \<not> is_majority arr (arr ! nat i)" for x
  proof
    assume m: "is_majority arr x"
    then have "count_list arr x \<noteq> 0" by (auto simp: is_majority_def)
    then have "x \<in> set arr" by (simp add: count_list_0_iff)
    then obtain i where "i < length arr" "arr ! i = x" by (auto simp: in_set_conv_nth)
    then show False using bspec [OF none, of "int i"] m by simp
  qed
  with r show ?thesis by blast
qed

text \<open>
  C40. The two majority programs agree: on every array, the voting program and the double loop return the same number, which is the element that
  fills more than half of the array, or -1 when there is none.
\<close>

theorem majority_programs_agree:
  "\<exists>r. mojorityElem arr (int (length arr)) = Inr r \<and> findMajority arr (int (length arr)) = Inr r \<and>
     (if \<exists>x. is_majority arr x then is_majority arr r else r = -1)"
  using mojorityElem_ok [of arr] findMajority_ok [of arr] majority_unique by metis

lemma majority_mains: "moore_main = Inr [Txt ''majority element='', Num 2]" "brute_main = Inr [Txt ''majority element not found'']"
  by code_simp+

section \<open>Proofs: the repeated and the missing number\<close>

lemma sdiv_exact: "a \<noteq> 0 \<Longrightarrow> (a * b) sdiv a = b" for a b :: int
  by (auto simp: signed_divide_int_def abs_mult sgn_if zero_less_mult_iff)

lemma upto_snoc: "[1..int (Suc n)] = [1..int n] @ [int n + 1]"
  by (simp add: upto_rec2 add.commute)

lemma sum_upto: "2 * sum_list [1..int n] = int n * (int n + 1)"
proof (induction n)
  case (Suc n)
  then show ?case unfolding upto_snoc by (simp add: algebra_simps)
qed simp

lemma sum_squares_upto: "6 * sum_list (map (\<lambda>x. x * x) [1..int n]) = int n * (int n + 1) * (2 * int n + 1)"
proof (induction n)
  case (Suc n)
  then show ?case unfolding upto_snoc by (simp add: algebra_simps)
qed simp

lemma fits64_nonneg [simp]: "0 \<le> x \<Longrightarrow> x < 2 ^ 63 \<Longrightarrow> fits64 x = Inr x"
  by (simp add: fits64_def)

lemma fits64_ok [simp]: "- (2 ^ 63) \<le> x \<Longrightarrow> x < 2 ^ 63 \<Longrightarrow> fits64 x = Inr x"
  by (simp add: fits64_def)

lemma fits32_ok [simp]: "- (2 ^ 31) \<le> x \<Longrightarrow> x < 2 ^ 31 \<Longrightarrow> fits32 x = Inr x"
  by (simp add: fits32_def)

lemma rm_expected_ok:
  assumes "n \<le> 1000000"
  shows "rm_expected (int n) = Inr (sum_list [1..int n], sum_list (map (\<lambda>x. x * x) [1..int n]))"
proof -
  let ?n = "int n"
  have n: "0 \<le> ?n" "?n \<le> 1000000" using assms by simp_all
  have "?n * (?n + 1) \<le> 1000000 * 1000001" using n by (intro mult_mono) simp_all
  moreover have "0 \<le> ?n * (?n + 1)" by simp
  moreover have "?n * (?n + 1) * (2 * ?n + 1) \<le> (1000000 * 1000001) * 2000001" using n calculation by (intro mult_mono) simp_all
  moreover have "0 \<le> ?n * (?n + 1) * (2 * ?n + 1)" by simp
  moreover have "(?n * (?n + 1)) sdiv 2 = sum_list [1..int n]"
    unfolding sum_upto [symmetric] by (rule sdiv_exact) simp
  moreover have "(?n * (?n + 1) * (2 * ?n + 1)) sdiv 6 = sum_list (map (\<lambda>x. x * x) [1..int n])"
    unfolding sum_squares_upto [symmetric] by (rule sdiv_exact) simp
  ultimately show ?thesis using n by (simp add: rm_expected_def)
qed

lemma rm_sums_ok:
  assumes "\<forall>x\<in>set arr. 0 \<le> x \<and> x \<le> 1000000" and "length arr \<le> 1000000"
  shows "foldE (rm_sums arr) [0..int (length arr) - 1] (0, 0) = Inr (sum_list arr, sum_list (map (\<lambda>x. x * x) arr)) \<and>
    0 \<le> sum_list arr \<and> sum_list arr \<le> 1000000 * 1000000 \<and>
    0 \<le> sum_list (map (\<lambda>x. x * x) arr) \<and> sum_list (map (\<lambda>x. x * x) arr) \<le> 1000000 * 1000000 * 1000000"
proof -
  let ?P = "\<lambda>i (s, t). s = sum_list (take (nat i) arr) \<and> t = sum_list (map (\<lambda>x. x * x) (take (nat i) arr)) \<and>
    0 \<le> s \<and> s \<le> 1000000 * i \<and> 0 \<le> t \<and> t \<le> 1000000 * 1000000 * i"
  have "\<exists>r. foldE (rm_sums arr) [0..int (length arr) - 1] (0, 0) = Inr r \<and> ?P (int (length arr)) r"
  proof (rule foldE_for [where P = ?P])
    fix i r assume i: "0 \<le> i" "i < int (length arr)" and P: "?P i r"
    obtain s t where r: "r = (s, t)" by (cases r)
    let ?x = "arr ! nat i"
    have x: "0 \<le> ?x" "?x \<le> 1000000" using assms(1) i by auto
    then have "?x * ?x \<le> 1000000 * 1000000" "0 \<le> ?x * ?x" by (intro mult_mono, simp_all)
    then show "\<exists>r'. rm_sums arr r i = Inr r' \<and> ?P (i + 1) r'"
      using i x P assms(2) by (simp add: r rm_sums_def take_Suc_int)
  qed auto
  then show ?thesis using assms(2) by auto
qed

lemma sum_exchange:
  fixes f :: "int \<Rightarrow> int"
  assumes "add_mset M (mset arr) = add_mset R (mset xs)"
  shows "sum_list (map f arr) = sum_list (map f xs) - f M + f R"
proof -
  have "f M + sum_list (map f arr) = sum_mset (image_mset f (add_mset M (mset arr)))" by (simp flip: sum_mset_sum_list)
  also have "\<dots> = f R + sum_list (map f xs)" unfolding assms by (simp flip: sum_mset_sum_list)
  finally show ?thesis by simp
qed

text \<open>
  For an array of \<open>n\<close> numbers that holds 1 to \<open>n\<close> except that \<open>M\<close> was replaced by a second \<open>R\<close>, with \<open>n\<close> up to a million, \<^verbatim>\<open>repeatMissing\<close>
  computes without overflow and prints \<open>R\<close> as the repeated and \<open>M\<close> as the missing number.
\<close>

theorem repeat_missing_correct:
  assumes "add_mset M (mset arr) = add_mset R (mset [1..int n])" and "M \<in> {1..int n}" and "R \<in> {1..int n}" and "R \<noteq> M" and "n \<le> 1000000"
  shows "repeatMissing arr (int n) = Inr [Txt ''Repeated: '', Num R, Txt ''Missing : '', Num M]"
proof -
  have "size (add_mset M (mset arr)) = size (add_mset R (mset [1..int n]))" using assms(1) by simp
  then have len: "length arr = n" by simp
  have "set_mset (add_mset M (mset arr)) = set_mset (add_mset R (mset [1..int n]))" using assms(1) by simp
  then have "set arr \<subseteq> {1..int n}" using assms(3) by auto
  then have range: "\<forall>x\<in>set arr. 0 \<le> x \<and> x \<le> 1000000" using assms(5) by fastforce
  let ?S = "sum_list [1..int n]" let ?Q = "sum_list (map (\<lambda>x. x * x) [1..int n])"
  have sums: "sum_list arr = ?S - M + R" "sum_list (map (\<lambda>x. x * x) arr) = ?Q - M * M + R * R"
    using sum_exchange [OF assms(1), of "\<lambda>x. x"] sum_exchange [OF assms(1), of "\<lambda>x. x * x"] by simp_all
  note arr = rm_sums_ok [OF range, unfolded len, OF assms(5)]
  have sq: "?Q - M * M + R * R - ?Q = (R - M) * (R + M)" by (simp add: algebra_simps)
  have bound: "\<bar>(R - M) * (R + M)\<bar> \<le> 1000000 * 2000000" unfolding abs_mult using assms(2,3,5) by (intro mult_mono) auto
  have "((R - M) * (R + M)) sdiv (R - M) = R + M" "(R - M + (R + M)) sdiv 2 = R"
    using assms(4) sdiv_exact [of "R - M"] sdiv_exact [of 2 R] by simp_all
  then show ?thesis using rm_expected_ok [OF assms(5)] arr sums sq bound assms(2,3,4,5)
    by (simp add: repeatMissing_def Let_def)
qed

theorem repeat_missing_correct_witness:
  "repeatMissing [3, 1, 2, 5, 3] 5 = Inr [Txt ''Repeated: '', Num 3, Txt ''Missing : '', Num 4]"
  using repeat_missing_correct [of 4 "[3, 1, 2, 5, 3]" 3 5] by (simp add: upto_rec1)

section \<open>Proofs: sorting\<close>

lemma arr_swap_ok:
  assumes "0 \<le> i" and "i < int (length arr)" and "0 \<le> j" and "j < int (length arr)"
  shows "arr_swap arr i j = Inr (arr[nat i := arr ! nat j, nat j := arr ! nat i])"
  using assms by (simp add: arr_swap_def)

lemma swap_mset: "i < length xs \<Longrightarrow> j < length xs \<Longrightarrow> mset (xs[i := xs ! j, j := xs ! i]) = mset xs"
  by (cases "i = j") (simp_all add: mset_swap)

lemma sel_min_ok:
  assumes "0 \<le> i" and "i < int (length arr)"
  shows "\<exists>m. sel_min arr (int (length arr)) i = Inr m \<and> i \<le> m \<and> m < int (length arr) \<and> (\<forall>k\<ge>i. k < int (length arr) \<longrightarrow> arr ! nat m \<le> arr ! nat k)"
proof -
  let ?P = "\<lambda>j m. i \<le> m \<and> m < int (length arr) \<and> (\<forall>k\<ge>i. k < j \<longrightarrow> arr ! nat m \<le> arr ! nat k)"
  show ?thesis unfolding sel_min_def
  proof (rule foldE_for [where P = ?P])
    fix j m assume j: "i + 1 \<le> j" "j < int (length arr)" and P: "?P j m"
    have "arr ! nat (if arr ! nat j < arr ! nat m then j else m) \<le> arr ! nat k" if "i \<le> k" "k < j + 1" for k
      using P that by (cases "k = j") force+
    then show "\<exists>m'. bindE (arr_get arr j) (\<lambda>x. bindE (arr_get arr m) (\<lambda>y. Inr (if x < y then j else m))) = Inr m' \<and> ?P (j + 1) m'"
      using j P assms by auto
  next
    show "?P (i + 1) i" using assms by (auto simp: order.antisym)
  qed (use assms in simp)
qed

lemma selection_sort_ok:
  "\<exists>arr'. selection_sort arr (int (length arr)) = Inr arr' \<and> sorted arr' \<and> mset arr' = mset arr"
proof (cases "arr = []")
  case False
  let ?n = "int (length arr)"
  let ?P = "\<lambda>i arr'. mset arr' = mset arr \<and> (\<forall>j k. int j < i \<and> j < k \<and> k < length arr \<longrightarrow> arr' ! j \<le> arr' ! k)"
  have "\<exists>arr'. selection_sort arr ?n = Inr arr' \<and> ?P (?n - 1) arr'" unfolding selection_sort_def
  proof (rule foldE_for [where P = ?P])
    fix i xs assume i: "0 \<le> i" "i < ?n - 1" and P: "?P i xs"
    have len: "length xs = length arr" using P by (metis size_mset)
    obtain m where m: "sel_min xs ?n i = Inr m" "i \<le> m" "m < ?n" "\<forall>k\<ge>i. k < ?n \<longrightarrow> xs ! nat m \<le> xs ! nat k"
      using sel_min_ok [of i xs] i len by auto
    let ?ys = "xs[nat i := xs ! nat m, nat m := xs ! nat i]"
    have ys: "arr_swap xs i m = Inr ?ys" "mset ?ys = mset xs" using arr_swap_ok [of i xs m] swap_mset [of "nat i" xs "nat m"] i m len by auto
    have "?ys ! j \<le> ?ys ! k" if jk: "int j < i + 1" "j < k" "k < length arr" for j k
    proof (cases "int j < i")
      case True
      have "xs ! j \<le> xs ! k" if "j < k" "k < length arr" for k using P True that by blast
      from this [of k] this [of "nat i"] this [of "nat m"] have "xs ! j \<le> xs ! k" "xs ! j \<le> xs ! nat i" "xs ! j \<le> xs ! nat m"
        using True jk m i by auto
      then show ?thesis using True jk m len by (auto simp: nth_list_update)
    next
      case False
      then have "j = nat i" "xs ! nat m \<le> xs ! k" "xs ! nat m \<le> xs ! nat i" using jk m i m(4) [rule_format, of "int k"] by auto
      then show ?thesis using jk m i len by (auto simp: nth_list_update)
    qed
    then show "\<exists>ys. bindE (sel_min xs ?n i) (arr_swap xs i) = Inr ys \<and> ?P (i + 1) ys" using m(1) ys P by auto
  qed (use False in auto)
  then obtain ys where ys: "selection_sort arr ?n = Inr ys" "mset ys = mset arr" "\<forall>j k. int j < ?n - 1 \<and> j < k \<and> k < length arr \<longrightarrow> ys ! j \<le> ys ! k" by blast
  moreover have "length ys = length arr" using ys(2) by (metis size_mset)
  ultimately have "sorted ys" by (auto simp: sorted_iff_nth_mono_less)
  with ys show ?thesis by blast
qed (simp add: selection_sort_def)

lemma bubble_pass_ok:
  assumes "0 \<le> i"
  shows "\<exists>arr'. bubble_pass (int (length arr)) arr i = Inr arr' \<and> mset arr' = mset arr"
proof (cases "i \<le> int (length arr) - i - 1")
  case True
  let ?P = "\<lambda>j arr'. mset arr' = mset arr"
  show ?thesis unfolding bubble_pass_def
  proof (rule foldE_for [where P = ?P])
    fix j xs assume j: "i \<le> j" "j < int (length arr) - i - 1" and P: "?P j xs"
    have "length xs = length arr" using P by (metis size_mset)
    then show "\<exists>ys. bindE (arr_get xs j) (\<lambda>x. bindE (arr_get xs (j + 1)) (\<lambda>y. if x > y then arr_swap xs j (j + 1) else Inr xs)) = Inr ys \<and> ?P (j + 1) ys"
      using j assms P arr_swap_ok [of j xs "j + 1"] swap_mset [of "nat j" xs "nat (j + 1)"] by auto
  qed (use True in auto)
qed (simp add: bubble_pass_def)

lemma bubble_sort_permutes: "\<exists>arr'. bubble_sort arr (int (length arr)) = Inr arr' \<and> mset arr' = mset arr"
proof -
  have "\<exists>arr'. bubble_sort arr (int (length arr)) = Inr arr' \<and> mset arr' = mset arr" unfolding bubble_sort_def
  proof (rule foldE_invariant)
    fix xs i assume "mset xs = mset arr" "i \<in> set [0..int (length arr) - 1 - 1]"
    moreover from this have "length xs = length arr" by (metis size_mset)
    ultimately show "\<exists>ys. bubble_pass (int (length arr)) xs i = Inr ys \<and> mset ys = mset arr" using bubble_pass_ok [of i xs] by simp
  qed simp
  then show ?thesis .
qed

text \<open>
  The selection sort program sorts every array. The bubble sort program only permutes it: its inner loop starts at \<^verbatim>\<open>i\<close> instead of 0, which
  suffices for the array in the program but leaves 5, 4, 3, 2, 1 unsorted.
\<close>

theorem sorting_programs:
  "(\<exists>arr'. selection_sort arr (int (length arr)) = Inr arr' \<and> sorted arr' \<and> mset arr' = mset arr) \<and>
   (\<exists>arr'. bubble_sort arr (int (length arr)) = Inr arr' \<and> mset arr' = mset arr) \<and>
   bubble_main = Inr [Num 4, Num 5, Num 10, Num 48, Num 80] \<and> bubble_sort [5, 4, 3, 2, 1] 5 = Inr [4, 2, 1, 3, 5]"
proof -
  have "bubble_main = Inr [Num 4, Num 5, Num 10, Num 48, Num 80]" "bubble_sort [5, 4, 3, 2, 1] 5 = Inr [4, 2, 1, 3, 5]" by code_simp+
  then show ?thesis using selection_sort_ok bubble_sort_permutes by blast
qed

section \<open>Proofs: common elements and the two largest numbers\<close>

lemma arr_hist_ok:
  assumes "\<forall>x\<in>set a. 0 \<le> x \<and> x < int (length freq)"
  shows "\<exists>freq'. arr_hist a freq = Inr freq' \<and> length freq' = length freq \<and>
    (\<forall>i<length freq. freq' ! i = freq ! i + int (count_list a (int i)))"
  using assms
proof (induction a arbitrary: freq)
  case (Cons x a)
  have x: "0 \<le> x" "x < int (length freq)" using Cons.prems by auto
  obtain freq' where "arr_hist a (freq[nat x := freq ! nat x + 1]) = Inr freq'"
    "length freq' = length freq" "\<forall>i<length freq. freq' ! i = freq[nat x := freq ! nat x + 1] ! i + int (count_list a (int i))"
    using Cons.IH [of "freq[nat x := freq ! nat x + 1]"] Cons.prems by auto
  then show ?case using x by (auto simp: nth_list_update arr_hist_def)
qed (simp add: arr_hist_def)

lemma common_scan_from:
  assumes "\<forall>x\<in>set b. 0 \<le> x \<and> x < 1000" and "length freq = 1000" and "\<forall>i<1000. freq ! i = int (count F (int i))"
  shows "\<exists>freq' ys. foldE common_scan b (freq, out) = Inr (freq', out @ map Num ys) \<and> mset ys = F \<inter># mset b"
  using assms
proof (induction b arbitrary: freq F out)
  case (Cons y b)
  have y: "0 \<le> y" "y < 1000" "freq ! nat y = int (count F y)" using Cons.prems by auto
  show ?case
  proof (cases "y \<in># F")
    case True
    then have pos: "0 < count F y" by simp
    have freq': "\<forall>i<1000. freq[nat y := freq ! nat y - 1] ! i = int (count (F - {#y#}) (int i))"
    proof (intro allI impI)
      fix i :: nat assume "i < 1000"
      then show "freq[nat y := freq ! nat y - 1] ! i = int (count (F - {#y#}) (int i))"
        using Cons.prems(2,3) y pos by (cases "i = nat y") (auto simp: nth_list_update)
    qed
    obtain freq' ys where IH: "foldE common_scan b (freq[nat y := freq ! nat y - 1], out @ [Num y]) = Inr (freq', (out @ [Num y]) @ map Num ys)"
      "mset ys = (F - {#y#}) \<inter># mset b"
      using Cons.IH [of "freq[nat y := freq ! nat y - 1]" "F - {#y#}" "out @ [Num y]"] Cons.prems(1,2) freq' by auto
    then show ?thesis using y Cons.prems(2) True pos
      by (auto simp: common_scan_def inter_add_right2 intro!: exI [of _ freq'] exI [of _ "y # ys"])
  next
    case False
    then have "count F y = 0" by (simp add: not_in_iff)
    then show ?thesis using y Cons False by (auto simp: common_scan_def inter_add_right1)
  qed
qed simp

lemma common_elements_ok:
  assumes "\<forall>x\<in>set a \<union> set b. 0 \<le> x \<and> x < 1000"
  shows "\<exists>ys. common_elements a b = Inr (Txt ''Common element:'' # map Num ys) \<and> mset ys = mset a \<inter># mset b"
proof -
  obtain freq where freq: "arr_hist a (replicate 1000 0) = Inr freq" "length freq = 1000" "\<forall>i<1000. freq ! i = int (count (mset a) (int i))"
    using arr_hist_ok [of a "replicate 1000 0"] assms unfolding count_mset by auto
  then show ?thesis using common_scan_from [OF _ freq(2,3), of b "[Txt ''Common element:'']"] assms
    by (auto simp: common_elements_def)
qed

definition max_or_min :: "int set \<Rightarrow> int" where
  "max_or_min A = Max (insert INT_MIN A)"

lemma max_or_min_insert: "finite A \<Longrightarrow> max_or_min (insert x A) = max x (max_or_min A)"
  by (simp add: max_or_min_def insert_commute [of INT_MIN x])

lemma max_or_min_ge: "finite A \<Longrightarrow> INT_MIN \<le> max_or_min A \<and> (\<forall>x\<in>A. x \<le> max_or_min A)"
  by (auto simp: max_or_min_def)

lemma sl_step_ok:
  assumes "0 \<le> i" and "i < int (length arr)" and "INT_MIN \<le> arr ! nat i"
    and mx: "mx = max_or_min (set (take (nat i) arr))" and sm: "sm = max_or_min {x \<in> set (take (nat i) arr). x < mx}"
  shows "\<exists>mx' sm'. sl_step arr (mx, sm) i = Inr (mx', sm') \<and> mx' = max_or_min (set (take (nat (i + 1)) arr)) \<and>
    sm' = max_or_min {x \<in> set (take (nat (i + 1)) arr). x < mx'}"
proof -
  let ?A = "set (take (nat i) arr)" let ?x = "arr ! nat i"
  have A: "set (take (nat (i + 1)) arr) = insert ?x ?A" using assms by (simp add: take_Suc_int)
  have le: "x \<le> mx" if "x \<in> ?A" for x using max_or_min_ge [of ?A] mx that by simp
  consider "?x > mx" | "?x = mx" | "?x < mx" by linarith
  then show ?thesis
  proof cases
    case 1
    have "{x \<in> insert ?x ?A. x < ?x} = ?A" using 1 le by fastforce
    then show ?thesis using 1 assms(1,2) mx by (simp add: sl_step_def A max_or_min_insert)
  next
    case 2
    then have "{x \<in> insert ?x ?A. x < mx} = {x \<in> ?A. x < mx}" by auto
    then show ?thesis using 2 assms(1,2) mx sm by (simp add: sl_step_def A max_or_min_insert)
  next
    case 3
    then have "{x \<in> insert ?x ?A. x < mx} = insert ?x {x \<in> ?A. x < mx}" by auto
    then have "max_or_min {x \<in> insert ?x ?A. x < mx} = max ?x sm" using sm by (simp add: max_or_min_insert)
    then show ?thesis using 3 assms(1,2) mx by (simp add: sl_step_def A max_or_min_insert max_def)
  qed
qed

lemma secondLargestNum_ok:
  assumes "\<forall>x\<in>set arr. INT_MIN \<le> x"
  shows "secondLargestNum arr (int (length arr)) =
    Inr [Txt ''Max= '', Num (max_or_min (set arr)), Txt ''second Max= '', Num (max_or_min {x \<in> set arr. x < max_or_min (set arr)})]"
proof -
  let ?P = "\<lambda>i (mx, sm). mx = max_or_min (set (take (nat i) arr)) \<and> sm = max_or_min {x \<in> set (take (nat i) arr). x < mx}"
  have "\<exists>r. foldE (sl_step arr) [0..int (length arr) - 1] (INT_MIN, INT_MIN) = Inr r \<and> ?P (int (length arr)) r"
  proof (rule foldE_for [where P = ?P])
    fix i s assume i: "0 \<le> i" "i < int (length arr)" and P: "?P i s"
    moreover have "INT_MIN \<le> arr ! nat i" using assms i by simp
    ultimately show "\<exists>s'. sl_step arr s i = Inr s' \<and> ?P (i + 1) s'"
      using sl_step_ok [OF i, of "fst s" "snd s"] by (cases s) fastforce
  qed (auto simp: max_or_min_def)
  then show ?thesis by (auto simp: secondLargestNum_def)
qed

text \<open>
  For numbers from 0 to 999, the common-element program prints, for two arrays, a list whose multiset is the intersection of the arrays' multisets; and for every
  array of \<^verbatim>\<open>int\<close>s, \<^verbatim>\<open>secondLargestNum\<close> prints the maximum and the largest number below it, with \<^verbatim>\<open>INT_MIN\<close> where there is none.
\<close>

theorem array_queries_correct:
  "((\<forall>x\<in>set a \<union> set b. 0 \<le> x \<and> x < 1000) \<longrightarrow>
     (\<exists>ys. common_elements a b = Inr (Txt ''Common element:'' # map Num ys) \<and> mset ys = mset a \<inter># mset b)) \<and>
   ((\<forall>x\<in>set arr. INT_MIN \<le> x) \<longrightarrow>
     secondLargestNum arr (int (length arr)) =
       Inr [Txt ''Max= '', Num (max_or_min (set arr)), Txt ''second Max= '', Num (max_or_min {x \<in> set arr. x < max_or_min (set arr)})])"
  using common_elements_ok secondLargestNum_ok by blast

theorem array_queries_correct_witness:
  "(\<exists>ys. common_elements [1, 2, 2] [2, 6] = Inr (Txt ''Common element:'' # map Num ys) \<and> mset ys = {#1, 2, 2#} \<inter># {#2, 6#}) \<and>
   secondLargestNum [7, 7] 2 = Inr [Txt ''Max= '', Num 7, Txt ''second Max= '', Num INT_MIN]"
proof -
  have "max_or_min {x \<in> {7 :: int}. x < 7} = INT_MIN" "max_or_min {7} = 7" by (simp_all add: max_or_min_def INT_MIN_def Collect_conv_if)
  then show ?thesis using array_queries_correct [of "[1, 2, 2]" "[2, 6]" "[7, 7]"] by (simp add: INT_MIN_def)
qed
end
