(* ===== verification/StringTasks.thy ===== *)
theory StringTasks
  imports ArrayTasks
begin

text \<open>
  The string exercises of \<^verbatim>\<open>EXTRA_TASK/24-11-2025\<close> (with \<^verbatim>\<open>STRING_AND_HASHING\<close>) and the bracket checker of \<^verbatim>\<open>EXTRA_TASK/26-11-2025\<close>.

  A C string is the list of its characters before the terminator. A \<^verbatim>\<open>char\<close> used as a number is signed, so that a character
  above 127 is a negative index. Strings read with \<^verbatim>\<open>scanf\<close> are arguments: reading into a buffer faults when
  the line does not fit, and leaves the buffer uninitialised when the line is empty. The arrays of length zero that \<^verbatim>\<open>reverseStr\<close> and
  \<^verbatim>\<open>isValid24\<close> declare for an empty string are arrays without elements, as \<^verbatim>\<open>gcc\<close> makes them; the C standard leaves them undefined.
\<close>

definition schar :: "char \<Rightarrow> int" where
  "schar c = (let code = int (of_char c) in if code < 128 then code else code - 256)"

text \<open>What a string function sees of a buffer: the characters before the first terminator.\<close>

definition c_string :: "string \<Rightarrow> string" where
  "c_string buf = takeWhile (\<lambda>c. c \<noteq> CHR 0x00) buf"

definition read_line :: "nat \<Rightarrow> string \<Rightarrow> string res" where
  "read_line n line =
     (if line = [] then Inl Uninitialised else if length line < n then Inr (c_string line) else Inl OutOfBounds)"

section \<open>Counting characters\<close>

definition char_freq :: "string \<Rightarrow> int list res" where
  "char_freq str = arr_hist (map schar str) (replicate 256 0)"

definition all_unique_main :: "string \<Rightarrow> outs res" where
  "all_unique_main line =
     bindE (read_line 50 line) (\<lambda>str.
       bindE (char_freq str) (\<lambda>freq.
         bindE (arr_any (\<lambda>f. f \<ge> 2) freq [0..255]) (\<lambda>twice.
           Inr [Txt ''Enter string:'', Txt (if twice then ''No all unique character'' else ''Unique characters'')])))"

definition an_step :: "int list \<Rightarrow> int \<times> int \<Rightarrow> int list res" where
  "an_step freq = (\<lambda>(x, y).
     bindE (arr_get freq x) (\<lambda>f. bindE (arr_set freq x (f + 1)) (\<lambda>freq.
       bindE (arr_get freq y) (\<lambda>f. arr_set freq y (f - 1)))))"

definition anagram :: "string \<Rightarrow> string \<Rightarrow> outs res" where
  "anagram str1 str2 =
     (if length str1 \<noteq> length str2 then Inr [Txt ''Not anagram'']
      else bindE (foldE an_step (zip (map schar str1) (map schar str2)) (replicate 256 0)) (\<lambda>freq.
             bindE (arr_any (\<lambda>f. f \<noteq> 0) freq [0..255]) (\<lambda>differ.
               Inr (if differ then [Txt ''Not anagram''] else [Txt ''Anagram'']))))"

definition anagram_main :: "outs res" where
  "anagram_main = anagram ''silent'' ''listen''"

definition duplicates_main :: "string \<Rightarrow> outs res" where
  "duplicates_main line =
     bindE (read_line 50 line) (\<lambda>str.
       bindE (char_freq str) (\<lambda>freq.
         foldE (\<lambda>out i. bindE (arr_get freq i) (\<lambda>f.
           Inr (out @ (if f > 1 then [Txt [char_of (nat i)], Txt '' -> '', Num f, Txt '' times''] else [])))) [0..256 - 1] [Txt ''Enter string:'']))"

definition freq_char_main :: "string \<Rightarrow> outs res" where
  "freq_char_main line =
     bindE (read_line 50 line) (\<lambda>str.
       bindE (char_freq str) (\<lambda>freq.
         foldE (\<lambda>out i. bindE (arr_get freq i) (\<lambda>f.
           Inr (out @ (if f \<noteq> 0 then [Txt [char_of (nat i)], Txt '' -> '', Num f] else [])))) [0..256 - 1] []))"

text \<open>The loop \<^verbatim>\<open>for (i = 0; i < str[i]; i++)\<close>; at the terminator its condition is false.\<close>

fun fnr_scan :: "int list \<Rightarrow> int \<Rightarrow> string \<Rightarrow> outs res" where
  "fnr_scan freq i [] = Inr [Txt ''No Non repeating character'']"
| "fnr_scan freq i (c # cs) =
     (if i < schar c
      then bindE (arr_get freq (schar c)) (\<lambda>f. if f = 1 then Inr [Txt [c]] else fnr_scan freq (i + 1) cs)
      else Inr [Txt ''No Non repeating character''])"

definition first_non_repeating_main :: "string \<Rightarrow> outs res" where
  "first_non_repeating_main line =
     bindE (read_line 50 line) (\<lambda>str. bindE (char_freq str) (\<lambda>freq.
       bindE (fnr_scan freq 0 str) (\<lambda>out. Inr (Txt ''Enter string:'' # out))))"

definition count_words :: "string \<Rightarrow> outs" where
  "count_words str =
     (let (character, space, word) =
        fold (\<lambda>c (character, space, word).
          (if c \<noteq> CHR '' '' then character + 1 else character,
           if c = CHR '' '' then space + 1 else space, if c = CHR '' '' then word + 1 else word)) str (0, 0, 0)
      in [Txt ''character = '', Num character, Txt '', space = '', Num space, Txt '' and word = '', Num (word + 1)])"

text \<open>\<^verbatim>\<open>tolower\<close> and \<^verbatim>\<open>isalpha\<close> in the C locale; they are undefined for negative arguments.\<close>

definition c_tolower :: "char \<Rightarrow> char res" where
  "c_tolower c = (if schar c < 0 then Inl OutOfBounds
     else Inr (if 65 \<le> schar c \<and> schar c \<le> 90 then char_of (nat (schar c + 32)) else c))"

definition c_isalpha :: "char \<Rightarrow> bool res" where
  "c_isalpha c = (if schar c < 0 then Inl OutOfBounds
     else Inr (65 \<le> schar c \<and> schar c \<le> 90 \<or> 97 \<le> schar c \<and> schar c \<le> 122))"

definition vowel_step :: "int \<times> int \<Rightarrow> char \<Rightarrow> (int \<times> int) res" where
  "vowel_step = (\<lambda>(vowel, cons) c.
     bindE (c_tolower c) (\<lambda>ch. bindE (c_isalpha ch) (\<lambda>alpha.
       Inr (if alpha
            then if ch = CHR ''a'' \<or> ch = CHR ''e'' \<or> ch = CHR ''i'' \<or> ch = CHR ''o'' \<or> ch = CHR ''u''
                 then (vowel + 1, cons) else (vowel, cons + 1)
            else (vowel, cons)))))"

definition count_vowels :: "string \<Rightarrow> outs res" where
  "count_vowels str =
     bindE (foldE vowel_step str (0, 0)) (\<lambda>(vowel, cons).
       Inr [Txt ''Total vowels= '', Num vowel, Txt ''and consonant= '', Num cons])"

definition count_words_main :: outs where
  "count_words_main = count_words ''Rahul bansal is engineer''"

definition count_vowels_main :: "outs res" where
  "count_vowels_main = count_vowels ''Rahul bansal''"

section \<open>Reversing\<close>

text \<open>\<^verbatim>\<open>reverse(str, l, r)\<close>, the same in three programs.\<close>

function str_reverse :: "string \<Rightarrow> int \<Rightarrow> int \<Rightarrow> string res" where
  "str_reverse str l r =
     (if l < r then bindE (arr_swap str l r) (\<lambda>str. str_reverse str (l + 1) (r - 1)) else Inr str)"
  by pat_completeness auto
termination by (relation "measure (\<lambda>(_, l, r). nat (r - l))") auto

declare str_reverse.simps [simp del]

definition reverse_string :: "string \<Rightarrow> outs res" where
  "reverse_string str =
     bindE (str_reverse str 0 (int (length str) - 1)) (\<lambda>str'.
       Inr [Txt ''Before reverse string is: '', Txt str, Txt ''\<newline>After reverse: '', Txt str'])"

definition reverse_string_main :: "outs res" where
  "reverse_string_main = reverse_string ''Rahul''"

text \<open>One turn of the loop of \<^verbatim>\<open>reverse_word.c\<close>; the buffer holds the terminator.\<close>

definition rw_step :: "string \<times> int \<Rightarrow> int \<Rightarrow> (string \<times> int) res" where
  "rw_step = (\<lambda>(str, start) i.
     bindE (arr_get str i) (\<lambda>c.
       if c = CHR '' '' \<or> c = CHR 0x00
       then bindE (str_reverse str start (i - 1)) (\<lambda>str. Inr (str, i + 1))
       else Inr (str, start)))"

definition reverse_word_main :: "string \<Rightarrow> outs res" where
  "reverse_word_main line =
     bindE (read_line 50 line) (\<lambda>str.
       bindE (foldE rw_step [0..int (length str)] (str @ [CHR 0x00], 0)) (\<lambda>(buf, start).
         Inr [Txt ''Enter any string:'', Txt ''reverse string = '', Txt (c_string buf)]))"

definition rotate_string :: "string \<Rightarrow> int \<Rightarrow> string res" where
  "rotate_string str k =
     (let n = int (length str) in
      if n = 0 then Inl DivByZero
      else let k = k smod n in
        bindE (str_reverse str 0 (k - 1)) (\<lambda>str.
        bindE (str_reverse str (k + 1) (n - 1)) (\<lambda>str.
        str_reverse str 0 (n - 1))))"

definition rotate_string_main :: "string \<Rightarrow> int \<Rightarrow> outs res" where
  "rotate_string_main line k =
     bindE (read_line 100 line) (\<lambda>str. bindE (rotate_string str k) (\<lambda>str.
       Inr [Txt ''Enter string:'', Txt ''Enter k:'', Txt str]))"

function pal_scan :: "string \<Rightarrow> int \<Rightarrow> int \<Rightarrow> bool res" where
  "pal_scan str l r =
     (if l < r
      then bindE (arr_get str l) (\<lambda>x. bindE (arr_get str r) (\<lambda>y.
             if x \<noteq> y then Inr False else pal_scan str (l + 1) (r - 1)))
      else Inr True)"
  by pat_completeness auto
termination by (relation "measure (\<lambda>(_, l, r). nat (r - l))") auto

declare pal_scan.simps [simp del]

definition palindrome :: "string \<Rightarrow> outs res" where
  "palindrome str =
     bindE (pal_scan str 0 (int (length str) - 1)) (\<lambda>p. Inr [Txt (if p then ''Palindrome'' else ''Not palindrom'')])"

definition palindrome_main :: "outs res" where
  "palindrome_main = palindrome ''madam''"

definition rs_push :: "string \<times> int \<Rightarrow> char \<Rightarrow> (string \<times> int) res" where
  "rs_push = (\<lambda>(stack, top) c. bindE (arr_set stack (top + 1) c) (\<lambda>stack. Inr (stack, top + 1)))"

definition reverseStr :: "string \<Rightarrow> outs res" where
  "reverseStr str =
     bindE (foldE rs_push str (replicate (length str) CHR 0x00, - 1)) (\<lambda>(stack, top).
       foldE (\<lambda>out i. bindE (arr_get stack i) (\<lambda>c. Inr (out @ [Txt [c]]))) (rev [0..top]) [])"

definition reverseStr_main :: "outs res" where
  "reverseStr_main = reverseStr ''Rahul Bansal''"

section \<open>Brackets\<close>

definition isMatching24 :: "char \<Rightarrow> char \<Rightarrow> bool" where
  "isMatching24 opn cls \<longleftrightarrow>
     opn = CHR ''('' \<and> cls = CHR '')'' \<or> opn = CHR ''{'' \<and> cls = CHR ''}'' \<or> opn = CHR ''['' \<or> cls = CHR '']''"

definition isMatching :: "char \<Rightarrow> char \<Rightarrow> bool" where
  "isMatching opn cls \<longleftrightarrow>
     opn = CHR ''('' \<and> cls = CHR '')'' \<or> opn = CHR ''{'' \<and> cls = CHR ''}'' \<or> opn = CHR ''['' \<and> cls = CHR '']''"

definition is_open :: "char \<Rightarrow> bool" where
  "is_open ch \<longleftrightarrow> ch = CHR ''('' \<or> ch = CHR ''{'' \<or> ch = CHR ''[''"

definition is_close :: "char \<Rightarrow> bool" where
  "is_close ch \<longleftrightarrow> ch = CHR '')'' \<or> ch = CHR ''}'' \<or> ch = CHR '']''"

text \<open>The scan of \<^verbatim>\<open>isValid\<close>, for the matching test and the stack array of each of the two programs.\<close>

fun vp_scan :: "(char \<Rightarrow> char \<Rightarrow> bool) \<Rightarrow> string \<Rightarrow> int \<Rightarrow> string \<Rightarrow> bool res" where
  "vp_scan m stack tp [] = Inr (tp = - 1)"
| "vp_scan m stack tp (ch # str) =
     (if is_open ch then bindE (arr_set stack (tp + 1) ch) (\<lambda>stack. vp_scan m stack (tp + 1) str)
      else if is_close ch
      then if tp = - 1 then Inr False
           else bindE (arr_get stack tp) (\<lambda>lst.
             if \<not> m lst ch then Inr False else vp_scan m stack (tp - 1) str)
      else vp_scan m stack tp str)"

definition isValid24 :: "string \<Rightarrow> bool res" where
  "isValid24 str = vp_scan isMatching24 (replicate (length str) CHR 0x00) (- 1) str"

definition isValid26 :: "string \<Rightarrow> bool res" where
  "isValid26 str = vp_scan isMatching (replicate 100 CHR 0x00) (- 1) str"

definition valid24_main :: "outs res" where
  "valid24_main = bindE (isValid24 '' [a{{(ba)}]'')
     (\<lambda>v. Inr [Txt (if v then ''Valid parenthesis'' else ''InValid parenthesis'')])"

definition valid26_main :: "outs res" where
  "valid26_main = bindE (isValid26 ''((a{b[(b)]}))'')
     (\<lambda>v. Inr [Txt (if v then ''valid parentheses'' else ''Invalid Parentheses'')])"

section \<open>Frequencies\<close>

lemma schar_code:
  obtains n where "n < 256" and "c = char_of n" and "schar c = (if n < 128 then int n else int n - 256)"
proof (rule that)
  show "(of_char c :: nat) < 256" by (rule nat_of_char_less_256)
qed (simp_all add: schar_def Let_def)

lemma schar_inj [simp]: "schar c = schar d \<longleftrightarrow> c = d"
proof
  assume eq: "schar c = schar d"
  obtain n where n: "n < 256" "c = char_of n" "schar c = (if n < 128 then int n else int n - 256)" by (rule schar_code)
  obtain m where m: "m < 256" "d = char_of m" "schar d = (if m < 128 then int m else int m - 256)" by (rule schar_code)
  have "n = m" using eq n(1,3) m(1,3) by (auto split: if_splits)
  then show "c = d" using n(2) m(2) by simp
qed simp

lemma schar_less: "schar c < 128"
  by (rule schar_code [of c]) auto

lemma schar_of_char: "0 \<le> schar c \<Longrightarrow> char_of (nat (schar c)) = c"
  by (rule schar_code [of c]) (auto split: if_splits)

lemma schar_char_of: "i < 128 \<Longrightarrow> schar (char_of i) = int i" for i :: nat
  by (simp add: schar_def Let_def)

abbreviation ascii :: "string \<Rightarrow> bool" where
  "ascii str \<equiv> (\<forall>c\<in>set str. 0 \<le> schar c)"

lemma count_list_schar: "count_list (map schar str) (schar c) = count_list str c"
  by (induction str) simp_all

lemma count_list_0: "x \<notin> set xs \<Longrightarrow> count_list xs x = 0"
  by (induction xs) auto

text \<open>What a loop over all 256 codes finds is what a search of the characters finds.\<close>

lemma code_range:
  assumes "\<And>i. 128 \<le> i \<Longrightarrow> i < 256 \<Longrightarrow> \<not> P i"
  shows "(\<exists>i<256. P i) \<longleftrightarrow> (\<exists>c. 0 \<le> schar c \<and> P (nat (schar c)))"
proof
  assume "\<exists>i<256. P i"
  then obtain i where "i < 128" "P i" using assms not_le by blast
  then show "\<exists>c. 0 \<le> schar c \<and> P (nat (schar c))" using schar_char_of [of i] by (intro exI [of _ "char_of i"]) simp
next
  assume "\<exists>c. 0 \<le> schar c \<and> P (nat (schar c))"
  then obtain c where "0 \<le> schar c" "P (nat (schar c))" by blast
  then show "\<exists>i<256. P i" using schar_less [of c] by (intro exI [of _ "nat (schar c)"]) simp
qed

lemma char_freq_ok:
  assumes "ascii str"
  obtains freq where "char_freq str = Inr freq" and "length freq = 256"
    and "\<And>c. 0 \<le> schar c \<Longrightarrow> freq ! nat (schar c) = int (count_list str c)"
    and "\<And>i. 128 \<le> i \<Longrightarrow> i < 256 \<Longrightarrow> freq ! i = 0"
proof -
  have bound: "schar c < 256" for c using schar_less [of c] by simp
  obtain freq where f: "char_freq str = Inr freq" "length freq = 256"
    "\<forall>i<256. freq ! i = int (count_list (map schar str) (int i))"
    using arr_hist_ok [of "map schar str" "replicate 256 0"] assms bound unfolding char_freq_def by auto
  show thesis
  proof (rule that [OF f(1,2)])
    fix c assume "0 \<le> schar c"
    then show "freq ! nat (schar c) = int (count_list str c)" using f(3) schar_less [of c] by (simp add: count_list_schar)
  next
    fix i :: nat assume i: "128 \<le> i" "i < 256"
    have "schar c < int i" for c using schar_less [of c] i by linarith
    then have "int i \<notin> set (map schar str)" using order.irrefl by fastforce
    then show "freq ! i = 0" using f(3) i by (simp add: count_list_0)
  qed
qed

lemma arr_any_256:
  assumes "length freq = 256"
  shows "arr_any P freq [0..255] = Inr (\<exists>i<256. P (freq ! i))"
proof -
  have "(\<exists>v\<in>set freq. P v) \<longleftrightarrow> (\<exists>i<256. P (freq ! i))" using assms by (force simp: in_set_conv_nth)
  then show ?thesis using arr_any_prefix [of 256 freq P] assms by simp
qed

lemma distinct_count_list: "distinct xs \<longleftrightarrow> (\<forall>x. count_list xs x \<le> 1)"
  by (induction xs) (auto simp: count_list_0_iff le_Suc_eq)

lemma foldE_print:
  assumes "n \<le> int (length a)"
  shows "foldE (\<lambda>out i. bindE (arr_get a i) (\<lambda>v. Inr (out @ g i v))) [0..n - 1] out =
    Inr (out @ concat (map (\<lambda>i. g i (a ! nat i)) [0..n - 1]))"
proof -
  have "foldE (\<lambda>out i. bindE (arr_get a i) (\<lambda>v. Inr (out @ g i v))) is out =
      Inr (out @ concat (map (\<lambda>i. g i (a ! nat i)) is))" if "\<forall>i\<in>set is. 0 \<le> i \<and> i < int (length a)" for "is"
    using that by (induction "is" arbitrary: out) auto
  then show ?thesis using assms by auto
qed

text \<open>The characters in the order of their codes whose number of occurrences satisfies \<open>P\<close>, each with that number.\<close>

definition code_table :: "(int \<Rightarrow> bool) \<Rightarrow> (int \<Rightarrow> outs) \<Rightarrow> string \<Rightarrow> outs" where
  "code_table P g str = concat (map (\<lambda>c. if P (int (count_list str c))
     then Txt [c] # Txt '' -> '' # g (int (count_list str c)) else []) (map char_of [0..<256 :: nat]))"

lemma anagram_counts:
  assumes "length xs = length ys" and "\<forall>x\<in>set xs \<union> set ys. 0 \<le> x \<and> x < int (length freq)"
  shows "\<exists>freq'. foldE an_step (zip xs ys) freq = Inr freq' \<and> length freq' = length freq \<and>
    (\<forall>i<length freq. freq' ! i = freq ! i + int (count_list xs (int i)) - int (count_list ys (int i)))"
  using assms
proof (induction xs ys arbitrary: freq rule: list_induct2)
  case (Cons x xs y ys)
  let ?f = "freq[nat x := freq ! nat x + 1]"
  let ?g = "?f[nat y := ?f ! nat y - 1]"
  have b: "0 \<le> x" "x < int (length freq)" "0 \<le> y" "y < int (length freq)" using Cons.prems by auto
  then have step: "an_step freq (x, y) = Inr ?g" by (simp add: an_step_def)
  have "\<exists>freq'. foldE an_step (zip xs ys) ?g = Inr freq' \<and> length freq' = length ?g \<and>
    (\<forall>i<length ?g. freq' ! i = ?g ! i + int (count_list xs (int i)) - int (count_list ys (int i)))"
    by (rule Cons.IH) (use Cons.prems in auto)
  then obtain freq' where f: "foldE an_step (zip xs ys) ?g = Inr freq'" "length freq' = length freq"
    "\<forall>i<length freq. freq' ! i = ?g ! i + int (count_list xs (int i)) - int (count_list ys (int i))"
    by auto
  have g: "?g ! i = freq ! i + (if x = int i then 1 else 0) - (if y = int i then 1 else 0)" if "i < length freq" for i
    using that b by (auto simp: nth_list_update)
  show ?case using f g by (auto simp: step)
qed auto

lemma all_unique_ok:
  assumes "ascii str"
  shows "bindE (char_freq str) (\<lambda>freq. arr_any (\<lambda>f. f \<ge> 2) freq [0..255]) = Inr (\<not> distinct str)"
proof -
  from assms obtain freq where f: "char_freq str = Inr freq" "length freq = 256"
    "\<And>c. 0 \<le> schar c \<Longrightarrow> freq ! nat (schar c) = int (count_list str c)" "\<And>i. 128 \<le> i \<Longrightarrow> i < 256 \<Longrightarrow> freq ! i = 0"
    by (rule char_freq_ok) blast
  have "(\<exists>i<256. freq ! i \<ge> 2) \<longleftrightarrow> (\<exists>c. 0 \<le> schar c \<and> freq ! nat (schar c) \<ge> 2)"
    using f(4) by (intro code_range) fastforce
  also have "\<dots> \<longleftrightarrow> (\<exists>c. 0 \<le> schar c \<and> count_list str c \<ge> 2)" using f(3) by auto
  also have "\<dots> \<longleftrightarrow> (\<exists>c. count_list str c \<ge> 2)" using assms count_list_0 [of _ str] by (metis not_numeral_le_zero)
  also have "\<dots> \<longleftrightarrow> \<not> distinct str" by (auto simp: distinct_count_list not_le numeral_2_eq_2 Suc_le_eq)
  finally show ?thesis using f(1,2) by (simp add: arr_any_256)
qed

lemma anagram_ok:
  assumes "ascii str1" and "ascii str2"
  shows "anagram str1 str2 = Inr [Txt (if mset str1 = mset str2 then ''Anagram'' else ''Not anagram'')]"
proof (cases "length str1 = length str2")
  case True
  have bound: "schar c < 256" for c using schar_less [of c] by simp
  obtain freq where f: "foldE an_step (zip (map schar str1) (map schar str2)) (replicate 256 0) = Inr freq" "length freq = 256"
    "\<forall>i<256. freq ! i = int (count_list (map schar str1) (int i)) - int (count_list (map schar str2) (int i))"
    using anagram_counts [of "map schar str1" "map schar str2" "replicate 256 0"] assms bound True by auto
  have at: "freq ! nat (schar c) = int (count_list str1 c) - int (count_list str2 c)" if "0 \<le> schar c" for c
    using that f(3) bound [of c] by (simp add: count_list_schar)
  have big: "freq ! i = 0" if "128 \<le> i" "i < 256" for i
  proof -
    have "schar c \<noteq> int i" for c using schar_less [of c] that by linarith
    then have "int i \<notin> set (map schar str1)" "int i \<notin> set (map schar str2)" by auto (metis+)
    then show ?thesis using f(3) that by (simp add: count_list_0)
  qed
  have "(\<exists>i<256. freq ! i \<noteq> 0) \<longleftrightarrow> (\<exists>c. 0 \<le> schar c \<and> freq ! nat (schar c) \<noteq> 0)"
    using big by (intro code_range) blast
  also have "\<dots> \<longleftrightarrow> (\<exists>c. 0 \<le> schar c \<and> count_list str1 c \<noteq> count_list str2 c)" using at by auto
  also have "\<dots> \<longleftrightarrow> (\<exists>c. count_list str1 c \<noteq> count_list str2 c)" using assms count_list_0 [of _ str1] count_list_0 [of _ str2] by metis
  also have "\<dots> \<longleftrightarrow> mset str1 \<noteq> mset str2" by (simp add: multiset_eq_iff count_mset)
  finally show ?thesis using f(1,2) True by (simp add: anagram_def arr_any_256)
next
  case False
  then have "mset str1 \<noteq> mset str2" by (metis size_mset)
  then show ?thesis using False by (simp add: anagram_def)
qed

lemma print_codes:
  assumes "ascii str"
  shows "bindE (char_freq str) (\<lambda>freq. foldE (\<lambda>out i. bindE (arr_get freq i) (\<lambda>f.
      Inr (out @ (if P f then Txt [char_of (nat i)] # Txt '' -> '' # g f else [])))) [0..256 - 1] out) =
    Inr (out @ code_table P g str)"
proof -
  from assms obtain freq where f: "char_freq str = Inr freq" "length freq = 256"
    "\<And>c. 0 \<le> schar c \<Longrightarrow> freq ! nat (schar c) = int (count_list str c)" "\<And>i. 128 \<le> i \<Longrightarrow> i < 256 \<Longrightarrow> freq ! i = 0"
    by (rule char_freq_ok) blast
  have at: "freq ! i = int (count_list str (char_of i))" if "i < 256" for i
  proof (cases "i < 128")
    case True
    then show ?thesis using f(3) [of "char_of i"] by (simp add: schar_char_of)
  next
    case False
    then have "schar (char_of i) < 0" using that by (simp add: schar_def Let_def)
    then have "char_of i \<notin> set str" using assms by force
    then show ?thesis using f(4) [of i] that False by simp
  qed
  have "foldE (\<lambda>out i. bindE (arr_get freq i) (\<lambda>f.
      Inr (out @ (if P f then Txt [char_of (nat i)] # Txt '' -> '' # g f else [])))) [0..256 - 1] out =
    Inr (out @ concat (map (\<lambda>i. if P (freq ! nat i) then Txt [char_of (nat i)] # Txt '' -> '' # g (freq ! nat i) else []) [0..256 - 1]))"
    using f(2) by (intro foldE_print) simp
  moreover have "map (\<lambda>i. if P (freq ! nat i) then Txt [char_of (nat i)] # Txt '' -> '' # g (freq ! nat i) else []) [0..256 - 1] =
     map (\<lambda>c. if P (int (count_list str c)) then Txt [c] # Txt '' -> '' # g (int (count_list str c)) else []) (map char_of [0..<256 :: nat])"
    by (rule nth_equalityI) (simp_all add: at)
  ultimately show ?thesis using f(1) by (simp add: code_table_def)
qed

text \<open>The first character that occurs once, among the characters at positions below their code.\<close>

lemma fnr_scan_ok:
  assumes "\<And>c. c \<in> set str \<Longrightarrow> arr_get freq (schar c) = Inr (int (k c))"
    and "\<forall>j<length str. i + int j < schar (str ! j)"
  shows "fnr_scan freq i str =
    Inr [Txt (case find (\<lambda>c. k c = 1) str of Some c \<Rightarrow> [c] | None \<Rightarrow> ''No Non repeating character'')]"
  using assms
proof (induction str arbitrary: i)
  case (Cons c str)
  have "i < schar c" using Cons.prems(2) by force
  moreover have "\<forall>j<length str. (i + 1) + int j < schar (str ! j)"
  proof (intro allI impI)
    fix j assume "j < length str"
    then have "i + int (Suc j) < schar ((c # str) ! Suc j)" using Cons.prems(2) by (metis Suc_less_eq length_Cons)
    then show "(i + 1) + int j < schar (str ! j)" by simp
  qed
  ultimately show ?case using Cons.IH [of "i + 1"] Cons.prems(1) by auto
qed simp

text \<open>
  On a non-empty line of fewer than 50 characters, all of them ASCII, the counting programs stay within their arrays and print what they should: whether the
  characters are different, the characters that occur more than once and all characters, each with its number of occurrences in the order of the codes, and (as long as
  every character's code is above its position, which the loop condition of that program needs) the first character that occurs once. \<^verbatim>\<open>anagram.c\<close>
  decides whether one string is a permutation of the other.
\<close>

theorem character_counting_programs:
  assumes "line \<noteq> []" and "length line < 50" and "str = c_string line" and "ascii str" and "ascii str'"
  shows "all_unique_main line = Inr [Txt ''Enter string:'', Txt (if distinct str then ''Unique characters'' else ''No all unique character'')] \<and>
    duplicates_main line = Inr (Txt ''Enter string:'' # code_table (\<lambda>f. f > 1) (\<lambda>f. [Num f, Txt '' times'']) str) \<and>
    freq_char_main line = Inr (code_table (\<lambda>f. f \<noteq> 0) (\<lambda>f. [Num f]) str) \<and>
    ((\<forall>i<length str. int i < schar (str ! i)) \<longrightarrow>
      first_non_repeating_main line = Inr [Txt ''Enter string:'',
        Txt (case find (\<lambda>c. count_list str c = 1) str of Some c \<Rightarrow> [c] | None \<Rightarrow> ''No Non repeating character'')]) \<and>
    anagram str str' = Inr [Txt (if mset str = mset str' then ''Anagram'' else ''Not anagram'')]"
proof (intro conjI impI)
  have rd: "read_line 50 line = Inr str" using assms(1-3) by (simp add: read_line_def)
  from assms(4) obtain freq where f: "char_freq str = Inr freq" "length freq = 256"
    "\<And>c. 0 \<le> schar c \<Longrightarrow> freq ! nat (schar c) = int (count_list str c)"
    by (rule char_freq_ok) blast
  show "all_unique_main line = Inr [Txt ''Enter string:'', Txt (if distinct str then ''Unique characters'' else ''No all unique character'')]"
    using all_unique_ok [OF assms(4)] by (simp add: all_unique_main_def rd f(1))
  show "duplicates_main line = Inr (Txt ''Enter string:'' # code_table (\<lambda>f. f > 1) (\<lambda>f. [Num f, Txt '' times'']) str)"
    using print_codes [OF assms(4), of "\<lambda>f. f > 1" "\<lambda>f. [Num f, Txt '' times'']" "[Txt ''Enter string:'']"]
    by (simp add: duplicates_main_def rd)
  show "freq_char_main line = Inr (code_table (\<lambda>f. f \<noteq> 0) (\<lambda>f. [Num f]) str)"
    using print_codes [OF assms(4), of "\<lambda>f. f \<noteq> 0" "\<lambda>f. [Num f]" "[]"] by (simp add: freq_char_main_def rd)
  show "anagram str str' = Inr [Txt (if mset str = mset str' then ''Anagram'' else ''Not anagram'')]"
    by (rule anagram_ok [OF assms(4,5)])
  assume pos: "\<forall>i<length str. int i < schar (str ! i)"
  have "arr_get freq (schar c) = Inr (int (count_list str c))" if "c \<in> set str" for c
    using that assms(4) f(2,3) schar_less [of c] by simp
  then have "fnr_scan freq 0 str = Inr [Txt (case find (\<lambda>c. count_list str c = 1) str of Some c \<Rightarrow> [c] | None \<Rightarrow> ''No Non repeating character'')]"
    using pos by (intro fnr_scan_ok) simp_all
  then show "first_non_repeating_main line = Inr [Txt ''Enter string:'',
        Txt (case find (\<lambda>c. count_list str c = 1) str of Some c \<Rightarrow> [c] | None \<Rightarrow> ''No Non repeating character'')]"
    by (simp add: first_non_repeating_main_def rd f(1))
qed

theorem character_counting_programs_witness:
  "first_non_repeating_main ''aabcb'' = Inr [Txt ''Enter string:'', Txt ''c''] \<and>
   anagram ''aabcb'' ''abcab'' = Inr [Txt ''Anagram'']"
proof -
  have pos: "\<forall>i<length ''aabcb''. int i < schar (''aabcb'' ! i)"
    by (simp add: schar_def Let_def All_less_Suc numeral_eq_Suc)
  have asc: "ascii ''aabcb''" "ascii ''abcab''" by (simp_all add: schar_def Let_def)
  show ?thesis using character_counting_programs [of "''aabcb''" "''aabcb''" "''abcab''"] pos asc
    by (simp add: c_string_def)
qed

section \<open>Reversing\<close>

lemma str_reverse_ok:
  "str_reverse (us @ ws @ vs) (int (length us)) (int (length us) + int (length ws) - 1) = Inr (us @ rev ws @ vs)"
proof (induction "length ws" arbitrary: us ws vs rule: less_induct)
  case less
  show ?case
  proof (cases ws)
    case Nil
    then show ?thesis by (simp add: str_reverse.simps)
  next
    case (Cons x ws1)
    show ?thesis
    proof (cases ws1 rule: rev_cases)
      case Nil
      then show ?thesis using Cons by (simp add: str_reverse.simps)
    next
      case (snoc mid y)
      have ws: "ws = x # mid @ [y]" using Cons snoc by simp
      let ?l = "int (length us)" and ?r = "int (length us) + int (length ws) - 1"
      let ?n = "length us + length mid + 1"
      have r: "nat ?r = ?n" using ws by simp
      have "(us @ ws @ vs) ! ?n = y" using nth_append_length [of "us @ x # mid" y vs] by (simp add: ws)
      moreover have "(us @ ws @ vs)[length us := y, ?n := x] = us @ y # mid @ x # vs"
        using list_update_length [of "us @ y # mid" y vs x] by (simp add: ws list_update_append)
      ultimately have swap: "arr_swap (us @ ws @ vs) ?l ?r = Inr ((us @ [y]) @ mid @ x # vs)"
        using r by (simp add: arr_swap_def ws)
      have "str_reverse (us @ ws @ vs) ?l ?r = str_reverse ((us @ [y]) @ mid @ x # vs) (?l + 1) (?r - 1)"
        using swap by (subst str_reverse.simps) (simp add: ws)
      also have "\<dots> = Inr ((us @ [y]) @ rev mid @ x # vs)"
        using less.hyps [of mid "us @ [y]" "x # vs"] by (simp add: ws algebra_simps)
      finally show ?thesis by (simp add: ws)
    qed
  qed
qed

lemma str_reverse_prefix: "str_reverse (ws @ vs) 0 (int (length ws) - 1) = Inr (rev ws @ vs)"
  using str_reverse_ok [of "[]" ws vs] by simp

lemma pal_scan_ok:
  "pal_scan (us @ ws @ vs) (int (length us)) (int (length us) + int (length ws) - 1) = Inr (rev ws = ws)"
proof (induction "length ws" arbitrary: us ws vs rule: less_induct)
  case less
  show ?case
  proof (cases ws)
    case Nil
    then show ?thesis by (simp add: pal_scan.simps)
  next
    case (Cons x ws1)
    show ?thesis
    proof (cases ws1 rule: rev_cases)
      case Nil
      then show ?thesis using Cons by (simp add: pal_scan.simps)
    next
      case (snoc mid y)
      have ws: "ws = x # mid @ [y]" using Cons snoc by simp
      let ?l = "int (length us)" and ?r = "int (length us) + int (length ws) - 1"
      have r: "nat ?r = length us + length mid + 1" using ws by simp
      have "(us @ ws @ vs) ! (length us + length mid + 1) = y" using nth_append_length [of "us @ x # mid" y vs] by (simp add: ws)
      then have get: "arr_get (us @ ws @ vs) ?l = Inr x" "arr_get (us @ ws @ vs) ?r = Inr y"
        using r by (simp_all add: ws)
      have "pal_scan (us @ ws @ vs) ?l ?r = (if x \<noteq> y then Inr False else pal_scan (us @ ws @ vs) (?l + 1) (?r - 1))"
        using get by (subst pal_scan.simps) (simp add: ws)
      also have "pal_scan (us @ ws @ vs) (?l + 1) (?r - 1) = Inr (rev mid = mid)"
        using less.hyps [of mid "us @ [x]" "y # vs"] by (simp add: ws algebra_simps)
      finally show ?thesis by (auto simp: ws)
    qed
  qed
qed

lemma rs_push_ok:
  "foldE rs_push ys (xs @ replicate (length ys) z, int (length xs) - 1) = Inr (xs @ ys, int (length xs + length ys) - 1)"
proof (induction ys arbitrary: xs)
  case (Cons y ys)
  have "rs_push (xs @ replicate (length (y # ys)) z, int (length xs) - 1) y = Inr ((xs @ [y]) @ replicate (length ys) z, int (length (xs @ [y])) - 1)"
    by (simp add: rs_push_def)
  then show ?case using Cons.IH [of "xs @ [y]"] by simp
qed simp

lemma foldE_show:
  assumes "\<forall>i\<in>set is. 0 \<le> i \<and> i < int (length a)"
  shows "foldE (\<lambda>out i. bindE (arr_get a i) (\<lambda>v. Inr (out @ g v))) is out = Inr (out @ concat (map (\<lambda>i. g (a ! nat i)) is))"
  using assms by (induction "is" arbitrary: out) auto

lemma reverseStr_ok: "reverseStr str = Inr (map (\<lambda>c. Txt [c]) (rev str))"
proof -
  let ?n = "int (length str)"
  have "map (\<lambda>i. Txt [str ! nat i]) [0..?n - 1] = map (\<lambda>c. Txt [c]) str"
    by (rule nth_equalityI) simp_all
  then have m: "concat (map (\<lambda>i. [Txt [str ! nat i]]) (rev [0..?n - 1])) = map (\<lambda>c. Txt [c]) (rev str)"
    by (metis concat_map_singleton rev_map)
  have "\<forall>i\<in>set (rev [0..?n - 1]). 0 \<le> i \<and> i < ?n" by auto
  from foldE_show [OF this, of "\<lambda>c. [Txt [c]]" "[]"] m show ?thesis
    using rs_push_ok [of str "[]" "CHR 0x00"] by (simp add: reverseStr_def)
qed

text \<open>Every word of a string reversed in its place.\<close>

function rev_words :: "string \<Rightarrow> string" where
  "rev_words str =
     (case dropWhile (\<lambda>c. c \<noteq> CHR '' '') str of
        [] \<Rightarrow> rev str
      | c # rest \<Rightarrow> rev (takeWhile (\<lambda>c. c \<noteq> CHR '' '') str) @ c # rev_words rest)"
  by pat_completeness auto
termination
proof (relation "measure length", simp)
  fix str :: string and c rest
  assume "dropWhile (\<lambda>c. c \<noteq> CHR '' '') str = c # rest"
  then have "length (c # rest) \<le> length str" using length_dropWhile_le [of "\<lambda>c. c \<noteq> CHR '' ''" str] by simp
  then show "(rest, str) \<in> measure length" by simp
qed

declare rev_words.simps [simp del]

lemma word_split:
  assumes "CHR '' '' \<notin> set w"
  shows "dropWhile (\<lambda>c. c \<noteq> CHR '' '') (w @ vs) = dropWhile (\<lambda>c. c \<noteq> CHR '' '') vs"
    and "takeWhile (\<lambda>c. c \<noteq> CHR '' '') (w @ vs) = w @ takeWhile (\<lambda>c. c \<noteq> CHR '' '') vs"
  using assms by (induction w) auto

lemma rev_words_word: "CHR '' '' \<notin> set w \<Longrightarrow> rev_words w = rev w"
proof -
  assume "CHR '' '' \<notin> set w"
  then have "dropWhile (\<lambda>c. c \<noteq> CHR '' '') w = []" unfolding dropWhile_eq_Nil_conv by blast
  then show ?thesis unfolding rev_words.simps [of w] by (simp only: list.case)
qed

lemma rev_words_step: "CHR '' '' \<notin> set w \<Longrightarrow> rev_words (w @ CHR '' '' # rest) = rev w @ CHR '' '' # rev_words rest"
proof -
  assume w: "CHR '' '' \<notin> set w"
  from word_split [OF this] have "dropWhile (\<lambda>c. c \<noteq> CHR '' '') (w @ CHR '' '' # rest) = CHR '' '' # rest"
    "takeWhile (\<lambda>c. c \<noteq> CHR '' '') (w @ CHR '' '' # rest) = w" by simp_all
  then show ?thesis by (subst rev_words.simps) simp
qed

lemma set_rev_words: "set (rev_words str) = set str"
proof (induction str rule: rev_words.induct)
  case (1 str)
  let ?w = "takeWhile (\<lambda>c. c \<noteq> CHR '' '') str" and ?d = "dropWhile (\<lambda>c. c \<noteq> CHR '' '') str"
  have str: "set str = set ?w \<union> set ?d" by (metis set_append takeWhile_dropWhile_id)
  show ?case
  proof (cases ?d)
    case Nil
    then show ?thesis unfolding rev_words.simps [of str] by (simp only: list.case set_rev)
  next
    case (Cons c rest)
    with 1 have "set (rev_words rest) = set rest" by blast
    with Cons str show ?thesis unfolding rev_words.simps [of str] by (simp only: list.case) simp
  qed
qed

lemma rw_word:
  assumes "CHR '' '' \<notin> set w" and "CHR 0x00 \<notin> set w" and "int (length us) = i"
  shows "foldE rw_step [i..i + int (length w) - 1] (us @ w @ vs, start) = Inr (us @ w @ vs, start)"
  using assms
proof (induction w arbitrary: us i)
  case (Cons c w)
  have "rw_step (us @ (c # w) @ vs, start) i = Inr (us @ (c # w) @ vs, start)"
    using Cons.prems by (auto simp: rw_step_def)
  moreover have "[i..i + int (length (c # w)) - 1] = i # [i + 1..(i + 1) + int (length w) - 1]"
    by (subst upto_rec1) simp_all
  ultimately show ?case using Cons.IH [of "us @ [c]" "i + 1"] Cons.prems by simp
qed simp

lemma rw_flush:
  assumes "c = CHR '' '' \<or> c = CHR 0x00"
  shows "rw_step (us @ w @ c # vs, int (length us)) (int (length us) + int (length w)) =
    Inr ((us @ rev w) @ c # vs, int (length us) + int (length w) + 1)"
  using assms str_reverse_ok [of us w "c # vs"]
  by (auto simp: rw_step_def nat_add_distrib nth_append)

lemma rw_loop:
  assumes "CHR 0x00 \<notin> set str"
  shows "\<exists>start. foldE rw_step [int (length us)..int (length us) + int (length str)] (us @ str @ [CHR 0x00], int (length us)) =
    Inr (us @ rev_words str @ [CHR 0x00], start)"
  using assms
proof (induction "length str" arbitrary: us str rule: less_induct)
  case less
  let ?w = "takeWhile (\<lambda>c. c \<noteq> CHR '' '') str" and ?d = "dropWhile (\<lambda>c. c \<noteq> CHR '' '') str"
  have split: "str = ?w @ ?d" by simp
  have w: "CHR '' '' \<notin> set ?w" "CHR 0x00 \<notin> set ?w" using less.prems by (auto dest: set_takeWhileD)
  show ?case
  proof (cases ?d)
    case Nil
    then have str: "CHR '' '' \<notin> set str" unfolding dropWhile_eq_Nil_conv by blast
    have "[int (length us)..int (length us) + int (length str)] =
        [int (length us)..int (length us) + int (length str) - 1] @ [int (length us) + int (length str)]"
      by (rule upto_rec2) simp
    then show ?thesis
      using rw_word [OF str less.prems refl, of us "[CHR 0x00]"] rw_flush [of "CHR 0x00" us str "[]"]
      by (simp add: foldE_append rev_words_word [OF str])
  next
    case (Cons c rest)
    then have c: "c = CHR '' ''" using hd_dropWhile [of "\<lambda>c. c \<noteq> CHR '' ''" str] by simp
    have str: "str = ?w @ CHR '' '' # rest" using split Cons c by simp
    let ?a = "int (length us)" and ?b = "int (length us) + int (length ?w)"
    have len: "length str = length ?w + length rest + 1" by (subst str) simp
    have "[?a..?a + int (length str)] = [?a..?b - 1] @ [?b..?a + int (length str)]"
      using len by (intro upto_split1) auto
    also have "[?b..?a + int (length str)] = ?b # [?b + 1..?b + 1 + int (length rest)]"
      using len by (subst upto_rec1) (auto simp: algebra_simps)
    finally have rng: "[?a..?a + int (length str)] = [?a..?b - 1] @ ?b # [?b + 1..?b + 1 + int (length rest)]" .
    let ?us = "us @ rev ?w @ [CHR '' '']"
    have us: "int (length ?us) = ?b + 1" by simp
    have nul: "CHR 0x00 \<notin> set rest" using less.prems str by (metis Un_iff list.set_intros(2) set_append)
    have "\<exists>start. foldE rw_step [int (length ?us)..int (length ?us) + int (length rest)] (?us @ rest @ [CHR 0x00], int (length ?us)) =
      Inr (?us @ rev_words rest @ [CHR 0x00], start)"
      by (rule less.hyps) (use len nul in auto)
    then obtain start where ih: "foldE rw_step [?b + 1..?b + 1 + int (length rest)] (?us @ rest @ [CHR 0x00], ?b + 1) =
      Inr (?us @ rev_words rest @ [CHR 0x00], start)" unfolding us by blast
    have "foldE rw_step [?a..?a + int (length str)] (us @ str @ [CHR 0x00], ?a) =
        foldE rw_step [?b + 1..?b + 1 + int (length rest)] (?us @ rest @ [CHR 0x00], ?b + 1)"
      unfolding rng
      using rw_word [OF w refl, of us "CHR '' '' # rest @ [CHR 0x00]"] rw_flush [of "CHR '' ''" us ?w "rest @ [CHR 0x00]"]
      by (subst str) (simp add: foldE_append del: takeWhile_dropWhile_id)
    then show ?thesis using ih rev_words_step [OF w(1), of rest] str by (metis append.assoc append_Cons append_Nil)
  qed
qed

lemma c_string_terminated: "CHR 0x00 \<notin> set str \<Longrightarrow> c_string (str @ [CHR 0x00]) = str"
  unfolding c_string_def by (induction str) auto

lemma rotate_ok:
  assumes "0 \<le> k smod int (length str)" and "str \<noteq> []"
  shows "rotate_string str k =
    (let m = nat (k smod int (length str)) in Inr (drop (Suc m) str @ str ! m # take m str))"
proof -
  let ?n = "int (length str)"
  define m where "m = nat (k smod ?n)"
  have n: "0 < ?n" using assms(2) by simp
  have k: "k smod ?n = int m" using assms(1) by (simp add: m_def)
  have m: "m < length str" using n smod_int_range [of ?n k] k by simp
  let ?us = "take m str" and ?c = "str ! m" and ?vs = "drop (Suc m) str"
  have str: "str = ?us @ ?c # ?vs" using m by (rule id_take_nth_drop)
  have r1: "str_reverse str 0 (int m - 1) = Inr (rev ?us @ ?c # ?vs)"
    using str_reverse_prefix [of ?us "?c # ?vs"] m str by simp
  have r2: "str_reverse (rev ?us @ ?c # ?vs) (int m + 1) (?n - 1) = Inr (rev ?us @ ?c # rev ?vs)"
    using str_reverse_ok [of "rev ?us @ [?c]" ?vs "[]"] m by (simp add: min_absorb2 algebra_simps of_nat_diff)
  have r3: "str_reverse (rev ?us @ ?c # rev ?vs) 0 (?n - 1) = Inr (?vs @ ?c # ?us)"
    using str_reverse_prefix [of "rev ?us @ ?c # rev ?vs" "[]"] m by (simp add: min_absorb2 of_nat_diff)
  show ?thesis using assms(2) r1 r2 r3 by (simp add: rotate_string_def Let_def k m_def [symmetric])
qed

lemma rotate_negative:
  assumes "k smod int (length str) < 0" and "str \<noteq> []"
  shows "rotate_string str k = (if k smod int (length str) = -1 then Inr str else Inl OutOfBounds)"
proof -
  let ?n = "int (length str)" and ?k = "k smod int (length str)"
  have first: "str_reverse str 0 (?k - 1) = Inr str" using assms(1) by (subst str_reverse.simps) simp
  show ?thesis
  proof (cases "?k = -1")
    case True
    have "str_reverse str 0 (?n - 1) = Inr (rev str)" "str_reverse (rev str) 0 (?n - 1) = Inr str"
      using str_reverse_prefix [of str "[]"] str_reverse_prefix [of "rev str" "[]"] by simp_all
    then show ?thesis using assms(2) True by (simp add: rotate_string_def Let_def first [unfolded True, simplified])
  next
    case False
    then have "?k + 1 < 0" "0 \<le> ?n - 1" using assms by (auto simp: Suc_le_eq)
    then have "?k + 1 < ?n - 1" "arr_swap str (?k + 1) (?n - 1) = Inl OutOfBounds" by (linarith, simp add: arr_swap_def arr_get_def)
    then have "str_reverse str (?k + 1) (?n - 1) = Inl OutOfBounds" unfolding str_reverse.simps [of str "?k + 1"] by (simp only: if_True bindE_Inl)
    then show ?thesis using assms(2) False by (simp add: rotate_string_def Let_def first)
  qed
qed

text \<open>
  C39. The reversing programs: \<^verbatim>\<open>reverse\<close> and the stack program reverse every string, the two-pointer program decides palindromes, and \<^verbatim>\<open>reverse_word.c\<close>
  reverses every word of a line of 1 to 49 characters in its place, all without leaving their arrays. \<^verbatim>\<open>rotate_string_k_times.c\<close> does not rotate: its second reversal starts one
  character late. With \<open>m\<close> the remainder of \<open>k\<close> by the length, as C computes it, the result is the text behind position \<open>m\<close>, then the character at \<open>m\<close>, then the text before \<open>m\<close>.
  For a negative \<open>k\<close> with remainder -1 the string is unchanged, and with a smaller remainder the program accesses the array below its start; an empty string is a division by zero.
\<close>

theorem reversing_programs:
  "reverse_string str = Inr [Txt ''Before reverse string is: '', Txt str, Txt ''\<newline>After reverse: '', Txt (rev str)] \<and>
   reverseStr str = Inr (map (\<lambda>c. Txt [c]) (rev str)) \<and>
   palindrome str = Inr [Txt (if rev str = str then ''Palindrome'' else ''Not palindrom'')] \<and>
   (line \<noteq> [] \<and> length line < 50 \<longrightarrow>
     reverse_word_main line = Inr [Txt ''Enter any string:'', Txt ''reverse string = '', Txt (rev_words (c_string line))]) \<and>
   rotate_string str k =
     (if str = [] then Inl DivByZero
      else let m = k smod int (length str) in
        if 0 \<le> m then Inr (drop (Suc (nat m)) str @ str ! nat m # take (nat m) str) else if m = -1 then Inr str else Inl OutOfBounds)"
proof (intro conjI impI)
  show "reverse_string str = Inr [Txt ''Before reverse string is: '', Txt str, Txt ''\<newline>After reverse: '', Txt (rev str)]"
    using str_reverse_prefix [of str "[]"] by (simp add: reverse_string_def)
  show "reverseStr str = Inr (map (\<lambda>c. Txt [c]) (rev str))" by (rule reverseStr_ok)
  show "palindrome str = Inr [Txt (if rev str = str then ''Palindrome'' else ''Not palindrom'')]"
    using pal_scan_ok [of "[]" str "[]"] by (simp add: palindrome_def)
next
  assume line: "line \<noteq> [] \<and> length line < 50"
  let ?s = "c_string line"
  have nul: "CHR 0x00 \<notin> set ?s" unfolding c_string_def using set_takeWhileD by force
  then have nul': "CHR 0x00 \<notin> set (rev_words ?s)" by (simp add: set_rev_words)
  obtain start where "foldE rw_step [0..int (length ?s)] (?s @ [CHR 0x00], 0) = Inr (rev_words ?s @ [CHR 0x00], start)"
    using rw_loop [OF nul, of "[]"] by auto
  moreover have "c_string (rev_words ?s @ [CHR 0x00]) = rev_words ?s" using nul' by (rule c_string_terminated)
  ultimately show "reverse_word_main line = Inr [Txt ''Enter any string:'', Txt ''reverse string = '', Txt (rev_words ?s)]"
    using line by (simp add: reverse_word_main_def read_line_def)
next
  show "rotate_string str k =
     (if str = [] then Inl DivByZero
      else let m = k smod int (length str) in
        if 0 \<le> m then Inr (drop (Suc (nat m)) str @ str ! nat m # take (nat m) str) else if m = -1 then Inr str else Inl OutOfBounds)"
    using rotate_ok [of k str] rotate_negative [of k str] by (cases "str = []") (auto simp: Let_def rotate_string_def [of "[]"])
qed

theorem reversing_programs_witness:
  "reverse_word_main ''ab cd'' = Inr [Txt ''Enter any string:'', Txt ''reverse string = '', Txt (rev_words (c_string ''ab cd''))] \<and>
   rotate_string ''abcde'' 2 = Inr ''decab'' \<and> ''decab'' \<noteq> drop 2 ''abcde'' @ take 2 ''abcde''"
  using reversing_programs [of "''abcde''" "''ab cd''" 2] by (simp add: Let_def)

section \<open>Brackets\<close>

text \<open>
  A string is balanced when its brackets, whatever is between them, are properly nested; the
  specification does not mention a stack.
\<close>

inductive balanced :: "string \<Rightarrow> bool" where
  balanced_Nil [intro]: "balanced []"
| balanced_other [intro]: "\<not> is_open c \<Longrightarrow> \<not> is_close c \<Longrightarrow> balanced [c]"
| balanced_wrap [intro]: "balanced u \<Longrightarrow> isMatching a b \<Longrightarrow> balanced (a # u @ [b])"
| balanced_append [intro]: "balanced u \<Longrightarrow> balanced v \<Longrightarrow> balanced (u @ v)"

text \<open>The scan with the stack as a list, innermost bracket first.\<close>

fun vp_list :: "(char \<Rightarrow> char \<Rightarrow> bool) \<Rightarrow> string \<Rightarrow> string \<Rightarrow> bool" where
  "vp_list m stk [] \<longleftrightarrow> stk = []"
| "vp_list m stk (ch # str) \<longleftrightarrow>
     (if is_open ch then vp_list m (ch # stk) str
      else if is_close ch then (case stk of [] \<Rightarrow> False | a # stk \<Rightarrow> m a ch \<and> vp_list m stk str)
      else vp_list m stk str)"

lemma vp_scan_list:
  assumes "length stk + length (filter is_open str) \<le> length stack" and "take (length stk) stack = rev stk"
  shows "vp_scan m stack (int (length stk) - 1) str = Inr (vp_list m stk str)"
  using assms
proof (induction str arbitrary: stk stack)
  case (Cons ch str)
  consider (opn) "is_open ch" | (cls) "\<not> is_open ch" "is_close ch" | (other) "\<not> is_open ch" "\<not> is_close ch" by blast
  then show ?case
  proof cases
    case opn
    then have len: "length stk < length stack" using Cons.prems(1) by simp
    have "take (length (ch # stk)) (stack[length stk := ch]) = rev (ch # stk)"
      using len Cons.prems(2) by (simp add: take_Suc_conv_app_nth)
    then show ?thesis using Cons.IH [of "ch # stk" "stack[length stk := ch]"] Cons.prems(1) opn len by simp
  next
    case cls
    show ?thesis
    proof (cases stk)
      case (Cons a stk')
      have len: "length stk' < length stack" using Cons.prems(1) Cons by simp
      then have pre: "take (length stk') stack = rev stk'" "stack ! length stk' = a"
        using Cons.prems(2) Cons by (simp_all add: take_Suc_conv_app_nth)
      then show ?thesis using Cons.IH [of stk' stack] Cons.prems(1) cls Cons len by simp
    qed (use cls in simp)
  next
    case other
    then show ?thesis using Cons.IH [of stk stack] Cons.prems by simp
  qed
qed simp

lemma isMatching_kinds: "isMatching a b \<Longrightarrow> is_open a \<and> \<not> is_open b \<and> is_close b"
  by (auto simp: isMatching_def is_open_def is_close_def)

lemma balanced_scans: "balanced u \<Longrightarrow> vp_list isMatching stk (u @ v) = vp_list isMatching stk v"
  by (induction u arbitrary: stk v rule: balanced.induct) (auto dest: isMatching_kinds)

text \<open>What remains to be read when \<open>stk\<close> is open: balanced pieces separated by its closing brackets.\<close>

primrec bal_rest :: "string \<Rightarrow> string \<Rightarrow> bool" where
  "bal_rest [] str \<longleftrightarrow> balanced str"
| "bal_rest (a # stk) str \<longleftrightarrow> (\<exists>u b v. str = u @ b # v \<and> isMatching a b \<and> balanced u \<and> bal_rest stk v)"

lemma bal_rest_append: "balanced w \<Longrightarrow> bal_rest stk v \<Longrightarrow> bal_rest stk (w @ v)"
  by (cases stk) (auto, metis append.assoc balanced_append)

lemma scan_bal_rest: "vp_list isMatching stk str \<Longrightarrow> bal_rest stk str"
proof (induction str arbitrary: stk)
  case (Cons ch str)
  consider (opn) "is_open ch" | (cls) "\<not> is_open ch" "is_close ch" | (other) "\<not> is_open ch" "\<not> is_close ch" by blast
  then show ?case
  proof cases
    case opn
    then obtain u b v where s: "str = u @ b # v" "isMatching ch b" "balanced u" "bal_rest stk v"
      using Cons.IH [of "ch # stk"] Cons.prems by auto
    then show ?thesis using bal_rest_append [of "ch # u @ [b]" stk v] by auto
  next
    case cls
    then obtain a stk' where "stk = a # stk'" "isMatching a ch" "vp_list isMatching stk' str"
      using Cons.prems by (auto split: list.splits)
    then show ?thesis using Cons.IH [of stk'] by (auto intro!: exI [of _ "[]"])
  next
    case other
    then show ?thesis using Cons.IH [of stk] Cons.prems bal_rest_append [of "[ch]" stk str] by auto
  qed
qed auto

lemma scan_decides: "vp_list isMatching [] str \<longleftrightarrow> balanced str"
  using scan_bal_rest [of "[]" str] balanced_scans [of str "[]" "[]"] by auto

text \<open>
  C38. The bracket checker of 26-11-2025 decides whether a string is balanced, for every string with at most 100 opening brackets. The checker of 24-11-2025
  stays within its stack for every string and is the same scan with another matching test, in which an opening square bracket matches everything and a closing one is matched by everything:
  it accepts every balanced string but also unbalanced ones.
\<close>

theorem bracket_checkers:
  "(length (filter is_open str) \<le> 100 \<longrightarrow> isValid26 str = Inr (balanced str)) \<and>
   isValid24 str = Inr (vp_list isMatching24 [] str) \<and>
   (balanced str \<longrightarrow> isValid24 str = Inr True) \<and>
   isValid24 ''[)'' = Inr True \<and> \<not> balanced ''[)''"
proof (intro conjI impI)
  show "isValid26 str = Inr (balanced str)" if "length (filter is_open str) \<le> 100"
    using that vp_scan_list [of "[]" str "replicate 100 CHR 0x00" isMatching] by (simp add: isValid26_def scan_decides)
  have all: "isValid24 s = Inr (vp_list isMatching24 [] s)" for s
    using vp_scan_list [of "[]" s "replicate (length s) CHR 0x00" isMatching24] by (simp add: isValid24_def)
  show "isValid24 str = Inr (vp_list isMatching24 [] str)" by (rule all)
  have "vp_list isMatching stk s \<Longrightarrow> vp_list isMatching24 stk s" for stk s
    by (induction s arbitrary: stk) (auto simp: isMatching_def isMatching24_def split: if_splits list.splits)
  then show "isValid24 str = Inr True" if "balanced str" using that all scan_decides by simp
  show "isValid24 ''[)'' = Inr True" by (simp add: all is_open_def is_close_def isMatching24_def)
  show "\<not> balanced ''[)''" unfolding scan_decides [symmetric] by (simp add: is_open_def is_close_def isMatching_def)
qed

theorem bracket_checkers_witness:
  "isValid26 ''((a{b[(b)]}))'' = Inr (balanced ''((a{b[(b)]}))'') \<and> isValid24 ''(a)'' = Inr True"
proof -
  have "balanced ''(a)''" unfolding scan_decides [symmetric] by (simp add: is_open_def is_close_def isMatching_def)
  moreover have "length (filter is_open ''((a{b[(b)]}))'') \<le> 100" by (simp add: is_open_def)
  ultimately show ?thesis using bracket_checkers [of "''((a{b[(b)]}))''"] bracket_checkers [of "''(a)''"] by blast
qed

section \<open>Words and vowels\<close>

lemma count_words_ok:
  "count_words str = (let sp = int (count_list str CHR '' '') in
     [Txt ''character = '', Num (int (length str) - sp), Txt '', space = '', Num sp, Txt '' and word = '', Num (sp + 1)])"
proof -
  have "fold (\<lambda>c (character, space, word).
      (if c \<noteq> CHR '' '' then character + 1 else character,
       if c = CHR '' '' then space + 1 else space, if c = CHR '' '' then word + 1 else word)) str (a, b, c) =
    (a + int (length str) - int (count_list str CHR '' ''), b + int (count_list str CHR '' ''), c + int (count_list str CHR '' ''))"
    for a b c :: int
    by (induction str arbitrary: a b c) auto
  from this [of 0 0 0] show ?thesis by (simp add: count_words_def Let_def)
qed

abbreviation letter :: "char \<Rightarrow> bool" where
  "letter c \<equiv> 65 \<le> schar c \<and> schar c \<le> 90 \<or> 97 \<le> schar c \<and> schar c \<le> 122"

lemma vowel_step_ok:
  assumes "0 \<le> schar c"
  shows "vowel_step (v, k) c =
    Inr (if letter c then if c \<in> set ''aeiouAEIOU'' then (v + 1, k) else (v, k + 1) else (v, k))"
proof -
  obtain n where n: "n < 256" "c = char_of n" "schar c = (if n < 128 then int n else int n - 256)" by (rule schar_code)
  then have n128: "n < 128" "schar c = int n" using assms by (auto split: if_splits)
  have is_c: "char_of m = d \<longleftrightarrow> m = of_char d" if "m < 128" for m :: nat and d
    using that by (simp add: char_of_eq_iff take_bit_eq_mod)
  show ?thesis
  proof (cases "65 \<le> n \<and> n \<le> 90")
    case True
    then have "c_tolower c = Inr (char_of (n + 32))" using n128 by (simp add: c_tolower_def nat_add_distrib)
    moreover have "c_isalpha (char_of (n + 32)) = Inr True" using True by (simp add: c_isalpha_def schar_char_of)
    ultimately show ?thesis using True n128 n(2) by (auto simp: vowel_step_def is_c)
  next
    case False
    then have "c_tolower c = Inr c" using n128 by (auto simp: c_tolower_def)
    then show ?thesis using False n128 n(2) by (auto simp: vowel_step_def c_isalpha_def is_c)
  qed
qed

lemma count_vowels_ok:
  assumes "ascii str"
  shows "count_vowels str = Inr [Txt ''Total vowels= '', Num (int (length (filter (\<lambda>c. c \<in> set ''aeiouAEIOU'') str))),
     Txt ''and consonant= '', Num (int (length (filter (\<lambda>c. letter c \<and> c \<notin> set ''aeiouAEIOU'') str)))]"
proof -
  have vow: "letter c" if "c \<in> set ''aeiouAEIOU''" for c using that by (auto simp: schar_def)
  have "foldE vowel_step str (v, k) = Inr (v + int (length (filter (\<lambda>c. c \<in> set ''aeiouAEIOU'') str)),
      k + int (length (filter (\<lambda>c. letter c \<and> c \<notin> set ''aeiouAEIOU'') str)))" for v k
    using assms
  proof (induction str arbitrary: v k)
    case (Cons c str)
    have "vowel_step (v, k) c =
        Inr (if letter c then if c \<in> set ''aeiouAEIOU'' then (v + 1, k) else (v, k + 1) else (v, k))"
      using Cons.prems by (intro vowel_step_ok) simp
    moreover have "\<not> letter c \<Longrightarrow> c \<notin> set ''aeiouAEIOU''" using vow by blast
    moreover have "ascii str" using Cons.prems by simp
    ultimately show ?case using Cons.IH by (simp del: list.set)
  qed simp
  from this [of 0 0] show ?thesis by (simp add: count_vowels_def del: list.set)
qed

section \<open>The programs on their constants\<close>

lemma string_mains:
  "anagram_main = Inr [Txt ''Anagram'']" "palindrome_main = Inr [Txt ''Palindrome'']"
  "reverse_string_main = Inr [Txt ''Before reverse string is: '', Txt ''Rahul'', Txt ''\<newline>After reverse: '', Txt ''luhaR'']"
  "reverseStr_main = Inr (map (\<lambda>c. Txt [c]) ''lasnaB luhaR'')"
  "valid24_main = Inr [Txt ''InValid parenthesis'']" "valid26_main = Inr [Txt ''valid parentheses'']"
proof -
  have "ascii ''silent''" "ascii ''listen''" by (simp_all add: schar_def)
  then show "anagram_main = Inr [Txt ''Anagram'']" using anagram_ok [of "''silent''" "''listen''"] by (simp add: anagram_main_def)
  show "palindrome_main = Inr [Txt ''Palindrome'']"
    using pal_scan_ok [of "[]" "''madam''" "[]"] by (simp add: palindrome_main_def palindrome_def)
  show "reverse_string_main = Inr [Txt ''Before reverse string is: '', Txt ''Rahul'', Txt ''\<newline>After reverse: '', Txt ''luhaR'']"
    using str_reverse_prefix [of "''Rahul''" "[]"] by (simp add: reverse_string_main_def reverse_string_def)
  show "reverseStr_main = Inr (map (\<lambda>c. Txt [c]) ''lasnaB luhaR'')"
    using reverseStr_ok [of "''Rahul Bansal''"] by (simp add: reverseStr_main_def)
  show "valid24_main = Inr [Txt ''InValid parenthesis'']" "valid26_main = Inr [Txt ''valid parentheses'']"
    using vp_scan_list [of "[]" "'' [a{{(ba)}]''" "replicate (length '' [a{{(ba)}]'') CHR 0x00" isMatching24]
      vp_scan_list [of "[]" "''((a{b[(b)]}))''" "replicate 100 CHR 0x00" isMatching]
    by (simp_all add: valid24_main_def valid26_main_def isValid24_def isValid26_def is_open_def is_close_def isMatching_def isMatching24_def)
qed

lemma counting_mains:
  "count_words_main = [Txt ''character = '', Num 21, Txt '', space = '', Num 3, Txt '' and word = '', Num 4]"
  "count_vowels_main = Inr [Txt ''Total vowels= '', Num 4, Txt ''and consonant= '', Num 7]"
proof -
  have "ascii ''Rahul bansal''" by (simp add: schar_def)
  then show "count_vowels_main = Inr [Txt ''Total vowels= '', Num 4, Txt ''and consonant= '', Num 7]"
    using count_vowels_ok [of "''Rahul bansal''"] by (simp add: count_vowels_main_def schar_def)
qed (simp add: count_words_main_def count_words_ok)

end
