(* ===== verification/ChainTable.thy ===== *)
theory ChainTable
  imports HashTables
begin

text \<open>
  The hash table with chaining of \<^verbatim>\<open>day-4(Hash_Table)/hash-table-with-chaining.c\<close>. The chains are lists of cells; a cell carries whether it has been
  freed, and reading or freeing a freed cell is a fault. Whether \<^verbatim>\<open>malloc\<close> succeeds is an argument.

  The theorem says when the table is a map: \<^verbatim>\<open>search\<close> and \<^verbatim>\<open>delete\<close> always implement it, and \<^verbatim>\<open>insert\<close> does
  exactly if the key is new or stands at the end of its chain. On any other key \<^verbatim>\<open>insert\<close> frees the new cell and links it all the same.
\<close>

record ch_node =
  ch_key :: string
  ch_value :: int
  ch_freed :: bool

type_synonym ch_table = "ch_node list list"

definition ch_TABLE_SIZE :: nat where "ch_TABLE_SIZE = 10"

definition ch_empty :: ch_table where "ch_empty = replicate ch_TABLE_SIZE []"

definition ch_hash :: "string \<Rightarrow> nat" where
  "ch_hash key = unat (hash31 key mod 10)"

text \<open>The walk of \<^verbatim>\<open>insert\<close> along a chain that is not empty; \<open>gone\<close> tells whether the new cell has been freed on the way. The result is
  the new chain and whether the new cell was linked.\<close>

fun ch_walk :: "string \<Rightarrow> int \<Rightarrow> bool \<Rightarrow> ch_node list \<Rightarrow> (ch_node list \<times> bool) res" where
  "ch_walk key v gone [] = Inl NullDeref"
| "ch_walk key v gone (c # cs) =
     (if ch_freed c then Inl UseAfterFree
      else let hit = (ch_key c = key); c' = (if hit then c\<lparr>ch_value := v\<rparr> else c) in
        if hit \<and> gone then Inl UseAfterFree
        else if cs = []
        then if hit then Inr ([c'], False) else Inr ([c', \<lparr>ch_key = key, ch_value = v, ch_freed = gone\<rparr>], True)
        else bindE (ch_walk key v (gone \<or> hit) cs) (\<lambda>(cs', linked). Inr (c' # cs', linked)))"

definition ch_insert :: "bool \<Rightarrow> ch_table \<Rightarrow> string \<Rightarrow> int \<Rightarrow> (ch_table \<times> outs) res" where
  "ch_insert mem hashTable key v =
     (let index = int (ch_hash key);
          out = [Txt ''('', Txt key, Txt '', '', Num v, Txt '') is successfully inserted at the index '', Num index, Txt '' \<newline>''] in
      if \<not> mem then Inl NullDeref
      else if 50 \<le> length key then Inl OutOfBounds
      else bindE (arr_get hashTable index) (\<lambda>chain.
        if chain = []
        then bindE (arr_set hashTable index [\<lparr>ch_key = key, ch_value = v, ch_freed = False\<rparr>]) (\<lambda>t. Inr (t, out))
        else bindE (ch_walk key v False chain) (\<lambda>(chain', linked).
             bindE (arr_set hashTable index chain') (\<lambda>t. Inr (t, if linked then out else [])))))"

fun ch_find :: "string \<Rightarrow> ch_node list \<Rightarrow> int res" where
  "ch_find key [] = Inr (-1)"
| "ch_find key (c # cs) =
     (if ch_freed c then Inl UseAfterFree else if ch_key c = key then Inr (ch_value c) else ch_find key cs)"

definition ch_search :: "ch_table \<Rightarrow> string \<Rightarrow> int res" where
  "ch_search hashTable key = bindE (arr_get hashTable (int (ch_hash key))) (ch_find key)"

fun ch_unlink :: "string \<Rightarrow> ch_node list \<Rightarrow> ch_node list option res" where
  "ch_unlink key [] = Inr None"
| "ch_unlink key (c # cs) =
     (if ch_freed c then Inl UseAfterFree
      else if ch_key c = key then Inr (Some cs)
      else bindE (ch_unlink key cs) (\<lambda>r. Inr (map_option ((#) c) r)))"

definition ch_delete :: "ch_table \<Rightarrow> string \<Rightarrow> (ch_table \<times> outs) res" where
  "ch_delete hashTable key =
     bindE (arr_get hashTable (int (ch_hash key))) (\<lambda>chain.
     bindE (ch_unlink key chain) (\<lambda>r.
       case r of
         None \<Rightarrow> Inr (hashTable, [Txt ''The key '', Txt key, Txt '' is not found \<newline>''])
       | Some chain' \<Rightarrow> bindE (arr_set hashTable (int (ch_hash key)) chain') (\<lambda>t.
           Inr (t, [Txt ''Deleted the data with the key '', Txt key, Txt '' \<newline>'']))))"

definition ch_display_chain :: "ch_node list \<Rightarrow> outs res" where
  "ch_display_chain chain =
     foldE (\<lambda>out c. if ch_freed c then Inl UseAfterFree
        else Inr (out @ [Txt ''('', Txt (ch_key c), Txt '', '', Num (ch_value c), Txt '') -> ''])) chain []"

definition ch_display :: "ch_table \<Rightarrow> outs res" where
  "ch_display hashTable =
     foldE (\<lambda>out i. bindE (arr_get hashTable i) (\<lambda>chain. bindE (ch_display_chain chain) (\<lambda>txt.
        Inr (out @ [Txt ''Index '', Num i, Txt '': ''] @ txt @ [Txt ''NULL\<newline>''])))) [0..int ch_TABLE_SIZE - 1] []"

text \<open>\<^verbatim>\<open>main\<close>: five insertions, each followed by a display, two searches and a deletion.\<close>

definition ch_insert_show :: "ch_table \<times> outs \<Rightarrow> string \<times> int \<Rightarrow> (ch_table \<times> outs) res" where
  "ch_insert_show = (\<lambda>(t, out) (key, v).
     bindE (ch_insert True t key v) (\<lambda>(t, o1). bindE (ch_display t) (\<lambda>o2. Inr (t, out @ o1 @ o2))))"

definition ch_main :: "outs res" where
  "ch_main =
     bindE (foldE ch_insert_show [(''apple'', 100), (''banana'', 200), (''orange'', 300), (''grapes'', 400), (''melon'', 500)] (ch_empty, [])) (\<lambda>(t, out).
     bindE (ch_search t ''banana'') (\<lambda>b.
     bindE (ch_search t ''berry'') (\<lambda>r.
     bindE (ch_delete t ''orange'') (\<lambda>(t, o1).
     bindE (ch_display t) (\<lambda>o2.
       Inr (out @ [Txt ''Search 'banana': '', Num b, Txt ''\<newline>'', Txt ''Search 'berry': '', Num r, Txt ''\<newline>''] @ o1 @ o2))))))"

section \<open>The table as a map\<close>

definition ch_chain :: "ch_table \<Rightarrow> string \<Rightarrow> ch_node list" where
  "ch_chain t key = t ! ch_hash key"

abbreviation ch_assoc :: "ch_node list \<Rightarrow> (string \<times> int) list" where
  "ch_assoc \<equiv> map (\<lambda>c. (ch_key c, ch_value c))"

definition ch_map :: "ch_table \<Rightarrow> string \<Rightarrow> int option" where
  "ch_map t key = map_of (ch_assoc (ch_chain t key)) key"

definition ch_ok :: "ch_node list \<Rightarrow> bool" where
  "ch_ok chain \<longleftrightarrow> (\<forall>c\<in>set chain. \<not> ch_freed c) \<and> distinct (map ch_key chain)"

definition ch_wf :: "ch_table \<Rightarrow> bool" where
  "ch_wf t \<longleftrightarrow> length t = ch_TABLE_SIZE \<and> (\<forall>chain\<in>set t. ch_ok chain)"

text \<open>The keys on which \<^verbatim>\<open>insert\<close> works: new ones and the last one of a chain.\<close>

definition ch_at_end :: "ch_table \<Rightarrow> string \<Rightarrow> bool" where
  "ch_at_end t key \<longleftrightarrow> (let ks = map ch_key (ch_chain t key) in key \<notin> set ks \<or> last ks = key)"

lemma ch_hash_bound: "ch_hash key < ch_TABLE_SIZE"
proof -
  have "unat (hash31 key mod 10) = unat (hash31 key) mod unat (10 :: 32 word)" by (rule unat_mod)
  then show ?thesis by (simp add: ch_hash_def ch_TABLE_SIZE_def)
qed

lemma ch_wf_chain: "ch_wf t \<Longrightarrow> ch_ok (ch_chain t key)"
  using ch_hash_bound by (simp add: ch_wf_def ch_chain_def)

lemma ch_get [simp]: "ch_wf t \<Longrightarrow> arr_get t (int (ch_hash key)) = Inr (ch_chain t key)"
  using ch_hash_bound [of key] by (simp add: ch_wf_def ch_chain_def)

lemma ch_put [simp]: "ch_wf t \<Longrightarrow> arr_set t (int (ch_hash key)) chain = Inr (t[ch_hash key := chain])"
  using ch_hash_bound [of key] by (simp add: ch_wf_def)

lemma ch_wf_update: "ch_wf t \<Longrightarrow> ch_ok chain \<Longrightarrow> ch_wf (t[i := chain])"
  using set_update_subset_insert [of t i chain] by (auto simp: ch_wf_def)

lemma ch_chain_update:
  "ch_wf t \<Longrightarrow> ch_chain (t[ch_hash key := chain]) k = (if ch_hash k = ch_hash key then chain else ch_chain t k)"
  using ch_hash_bound [of key] by (simp add: ch_wf_def ch_chain_def)

text \<open>A change of one chain that changes the binding of one key changes the map at that key.\<close>

lemma ch_map_update:
  assumes "ch_wf t" and "map_of (ch_assoc chain) = (map_of (ch_assoc (ch_chain t key)))(key := r)"
  shows "ch_map (t[ch_hash key := chain]) = (ch_map t)(key := r)"
proof
  fix k
  show "ch_map (t[ch_hash key := chain]) k = ((ch_map t)(key := r)) k"
  proof (cases "ch_hash k = ch_hash key")
    case True
    then have "ch_chain t k = ch_chain t key" by (simp add: ch_chain_def)
    then show ?thesis using assms True by (simp add: ch_map_def ch_chain_update)
  next
    case False
    then show ?thesis using assms(1) by (auto simp: ch_map_def ch_chain_update)
  qed
qed

lemma ch_assoc_None: "map_of (ch_assoc chain) k = None \<longleftrightarrow> k \<notin> set (map ch_key chain)"
  by (induction chain) auto

lemma ch_find_map: "ch_ok chain \<Longrightarrow> ch_find key chain = Inr (case map_of (ch_assoc chain) key of None \<Rightarrow> -1 | Some v \<Rightarrow> v)"
  by (induction chain) (auto simp: ch_ok_def)

lemma ch_unlink_map:
  assumes "ch_ok chain"
  shows "case ch_unlink key chain of
      Inl f \<Rightarrow> False
    | Inr None \<Rightarrow> key \<notin> set (map ch_key chain)
    | Inr (Some chain') \<Rightarrow> ch_ok chain' \<and> set (map ch_key chain') = set (map ch_key chain) - {key} \<and>
        map_of (ch_assoc chain') = (map_of (ch_assoc chain))(key := None)"
  using assms
proof (induction chain)
  case (Cons c cs)
  have ok: "ch_ok cs" "\<not> ch_freed c" "ch_key c \<notin> set (map ch_key cs)" using Cons.prems by (auto simp: ch_ok_def)
  show ?case
  proof (cases "ch_key c = key")
    case True
    have none: "map_of (ch_assoc cs) key = None" using ok(3) True by (force simp: map_of_eq_None_iff)
    then have "map_of (ch_assoc cs) = (map_of (ch_assoc (c # cs)))(key := None)" using True by (auto simp: fun_eq_iff)
    then show ?thesis using ok True by auto
  next
    case False
    have "case ch_unlink key cs of Inl f \<Rightarrow> False | Inr None \<Rightarrow> key \<notin> set (map ch_key cs)
      | Inr (Some chain') \<Rightarrow> ch_ok chain' \<and> set (map ch_key chain') = set (map ch_key cs) - {key} \<and>
          map_of (ch_assoc chain') = (map_of (ch_assoc cs))(key := None)" by (rule Cons.IH [OF ok(1)])
    then show ?thesis using ok False by (auto simp: ch_ok_def fun_upd_twist split: sum.splits option.splits)
  qed
qed simp

section \<open>Insertion\<close>

lemma ch_walk_new:
  "\<forall>c\<in>set chain. \<not> ch_freed c \<Longrightarrow> key \<notin> set (map ch_key chain) \<Longrightarrow> chain \<noteq> [] \<Longrightarrow>
   ch_walk key v gone chain = Inr (chain @ [\<lparr>ch_key = key, ch_value = v, ch_freed = gone\<rparr>], True)"
  by (induction chain) auto

lemma ch_walk_skip:
  "\<forall>c\<in>set as. \<not> ch_freed c \<Longrightarrow> key \<notin> set (map ch_key as) \<Longrightarrow> bs \<noteq> [] \<Longrightarrow>
   ch_walk key v gone (as @ bs) = bindE (ch_walk key v gone bs) (\<lambda>(bs', linked). Inr (as @ bs', linked))"
  by (induction as) (auto simp: bindE_assoc split: prod.splits intro!: bindE_cong)

lemma ch_ok_parts:
  assumes "ch_ok (as @ c # bs)"
  shows "\<forall>x\<in>set as. \<not> ch_freed x" "\<forall>x\<in>set bs. \<not> ch_freed x" "\<not> ch_freed c" "ch_key c \<notin> set (map ch_key as)" "ch_key c \<notin> set (map ch_key bs)"
  using assms by (auto simp: ch_ok_def)

lemma ch_walk_present:
  assumes "ch_ok (as @ c # bs)" and "ch_key c = key"
  shows "ch_walk key v False (as @ c # bs) =
    Inr (as @ c\<lparr>ch_value := v\<rparr> # bs @ (if bs = [] then [] else [\<lparr>ch_key = key, ch_value = v, ch_freed = True\<rparr>]), bs \<noteq> [])"
proof -
  note ok = ch_ok_parts [OF assms(1), unfolded assms(2)]
  have "ch_walk key v False (c # bs) =
      Inr (c\<lparr>ch_value := v\<rparr> # bs @ (if bs = [] then [] else [\<lparr>ch_key = key, ch_value = v, ch_freed = True\<rparr>]), bs \<noteq> [])"
    using ok(3) assms(2) ch_walk_new [OF ok(2,5), of v True] by auto
  then show ?thesis using ch_walk_skip [OF ok(1,4)] by simp
qed

lemma ch_insert_eq:
  assumes "ch_wf t" and "length key < 50"
  shows "\<exists>out. ch_insert True t key v =
    (if ch_chain t key = [] then Inr (t[ch_hash key := [\<lparr>ch_key = key, ch_value = v, ch_freed = False\<rparr>]], out)
     else bindE (ch_walk key v False (ch_chain t key)) (\<lambda>(chain', linked). Inr (t[ch_hash key := chain'], if linked then out else [])))"
  using assms by (auto simp: ch_insert_def Let_def intro!: exI bindE_cong)

lemma ch_split:
  assumes "key \<in> set (map ch_key chain)"
  obtains as c bs where "chain = as @ c # bs" and "ch_key c = key"
  using assms by (metis (no_types, lifting) imageE list.set_map split_list)

lemma map_of_replaced:
  assumes "ch_key c = key" and "key \<notin> set (map ch_key as)"
  shows "map_of (ch_assoc (as @ c\<lparr>ch_value := v\<rparr> # bs)) = (map_of (ch_assoc (as @ c # bs)))(key \<mapsto> v)"
proof -
  have "map_of (ch_assoc as) key = None" using assms(2) by (auto simp: map_of_eq_None_iff)
  then show ?thesis using assms(1) by (auto simp: fun_eq_iff map_add_def split: option.splits)
qed

text \<open>An insertion of a new key or of the last key of a chain.\<close>

lemma ch_insert_good:
  assumes "ch_wf t" and "length key < 50" and "ch_at_end t key"
  shows "\<exists>t' out. ch_insert True t key v = Inr (t', out) \<and> ch_wf t' \<and> ch_map t' = (ch_map t)(key \<mapsto> v)"
proof -
  let ?chain = "ch_chain t key" and ?new = "\<lparr>ch_key = key, ch_value = v, ch_freed = False\<rparr>"
  note ok = ch_wf_chain [OF assms(1), of key]
  obtain chain' out where ins: "ch_insert True t key v = Inr (t[ch_hash key := chain'], out)" and ok': "ch_ok chain'"
    and mp: "map_of (ch_assoc chain') = (map_of (ch_assoc ?chain))(key \<mapsto> v)"
  proof (cases "key \<in> set (map ch_key ?chain)")
    case False
    have "map_of (ch_assoc ?chain) key = None" using False by (auto simp: map_of_eq_None_iff)
    then have "map_of (ch_assoc (?chain @ [?new])) = (map_of (ch_assoc ?chain))(key \<mapsto> v)"
      by (auto simp: fun_eq_iff map_add_def split: option.splits)
    moreover have "ch_ok (?chain @ [?new])" using ok False by (auto simp: ch_ok_def)
    moreover have "\<exists>out. ch_insert True t key v = Inr (t[ch_hash key := ?chain @ [?new]], out)"
      using ch_insert_eq [OF assms(1,2), of v] ch_walk_new [of ?chain key v False] ok False
      by (cases "?chain = []") (auto simp: ch_ok_def)
    ultimately show thesis using that by blast
  next
    case True
    then obtain as c bs where sp: "?chain = as @ c # bs" "ch_key c = key" by (rule ch_split)
    have "last (map ch_key ?chain) = key" using assms(3) True by (simp add: ch_at_end_def Let_def)
    then have bs: "bs = []" using ok sp by (cases bs rule: rev_cases) (auto simp: ch_ok_def)
    have "ch_ok (as @ [c\<lparr>ch_value := v\<rparr>])" using ok sp bs by (auto simp: ch_ok_def)
    moreover have "map_of (ch_assoc (as @ [c\<lparr>ch_value := v\<rparr>])) = (map_of (ch_assoc ?chain))(key \<mapsto> v)"
      using map_of_replaced [of c key as v "[]"] ch_ok_parts(4) [OF ok [unfolded sp(1)]] sp bs by simp
    moreover have "\<exists>out. ch_insert True t key v = Inr (t[ch_hash key := as @ [c\<lparr>ch_value := v\<rparr>]], out)"
      using ch_insert_eq [OF assms(1,2), of v] ch_walk_present [OF ok [unfolded sp(1)] sp(2), of v] sp bs by auto
    ultimately show thesis using that by blast
  qed
  then show ?thesis using ch_wf_update [OF assms(1) ok'] ch_map_update [OF assms(1) mp] by blast
qed

text \<open>An insertion of a key that stands before the end of its chain: the freed cell ends up in the table.\<close>

lemma ch_find_freed:
  "\<forall>c\<in>set chain. \<not> ch_freed c \<Longrightarrow> key \<notin> set (map ch_key chain) \<Longrightarrow> ch_freed d \<Longrightarrow> ch_find key (chain @ [d]) = Inl UseAfterFree"
  by (induction chain) auto

lemma ch_insert_bad:
  assumes "ch_wf t" and "length key < 50" and "\<not> ch_at_end t key"
  shows "\<exists>t' out. ch_insert True t key v = Inr (t', out) \<and> out \<noteq> [] \<and>
    (\<forall>k. ch_hash k = ch_hash key \<and> ch_map t k = None \<longrightarrow> ch_search t' k = Inl UseAfterFree)"
proof -
  let ?chain = "ch_chain t key" and ?dead = "\<lparr>ch_key = key, ch_value = v, ch_freed = True\<rparr>"
  note ok = ch_wf_chain [OF assms(1), of key]
  have "key \<in> set (map ch_key ?chain)" using assms(3) by (auto simp: ch_at_end_def Let_def)
  then obtain as c bs where sp: "?chain = as @ c # bs" "ch_key c = key" by (rule ch_split)
  have bs: "bs \<noteq> []" using assms(3) sp by (auto simp: ch_at_end_def Let_def)
  let ?t = "t[ch_hash key := (as @ c\<lparr>ch_value := v\<rparr> # bs) @ [?dead]]"
  have ins: "\<exists>out. ch_insert True t key v = Inr (?t, out) \<and> out \<noteq> []"
    using assms(1,2) ch_walk_present [OF ok [unfolded sp(1)] sp(2), of v] sp bs by (simp add: ch_insert_def Let_def)
  have "ch_search ?t k = Inl UseAfterFree" if k: "ch_hash k = ch_hash key" "ch_map t k = None" for k
  proof -
    have "ch_chain t k = ?chain" using k(1) by (simp add: ch_chain_def)
    then have "k \<notin> set (map ch_key (as @ c # bs))" using k(2) sp(1) unfolding ch_map_def ch_assoc_None by metis
    then have "k \<notin> set (map ch_key (as @ c\<lparr>ch_value := v\<rparr> # bs))" by simp
    moreover have "\<forall>x\<in>set (as @ c\<lparr>ch_value := v\<rparr> # bs). \<not> ch_freed x" using ch_ok_parts [OF ok [unfolded sp(1)]] by auto
    ultimately have "ch_find k ((as @ c\<lparr>ch_value := v\<rparr> # bs) @ [?dead]) = Inl UseAfterFree" by (intro ch_find_freed) simp_all
    moreover have "arr_get ?t (int (ch_hash k)) = Inr ((as @ c\<lparr>ch_value := v\<rparr> # bs) @ [?dead])"
      using assms(1) ch_hash_bound [of key] k(1) by (simp add: ch_wf_def)
    ultimately show ?thesis by (simp only: ch_search_def bindE_Inr)
  qed
  then show ?thesis using ins by blast
qed

text \<open>C26. The chained hash table is a map from keys to values. On a well-formed table \<^verbatim>\<open>search\<close> returns the value of the key or -1, \<^verbatim>\<open>delete\<close>
  removes the key and \<^verbatim>\<open>insert\<close> of a key that is new or last in its chain binds it; all of them keep the table well-formed. The insertion of a key that stands
  earlier in its chain reports success but leaves a freed cell in the table: the next search for an absent key of that chain reads freed memory. All this is
  for keys of at most 49 characters; the copy of a longer key with \<^verbatim>\<open>strcpy\<close> leaves the 50 bytes of \<^verbatim>\<open>key\<close> in the node. \<^verbatim>\<open>malloc\<close> succeeds.\<close>

theorem chained_table_map:
  assumes "ch_wf t"
  shows "ch_search t key = Inr (case ch_map t key of None \<Rightarrow> -1 | Some v \<Rightarrow> v) \<and>
    (\<exists>t' out. ch_delete t key = Inr (t', out) \<and> ch_wf t' \<and> ch_map t' = (ch_map t)(key := None)) \<and>
    (if 50 \<le> length key then ch_insert True t key v = Inl OutOfBounds
     else \<exists>t' out. ch_insert True t key v = Inr (t', out) \<and>
       (if ch_at_end t key then ch_wf t' \<and> ch_map t' = (ch_map t)(key \<mapsto> v)
        else \<forall>k. ch_hash k = ch_hash key \<and> ch_map t k = None \<longrightarrow> ch_search t' k = Inl UseAfterFree))"
proof (intro conjI)
  note ok = ch_wf_chain [OF assms(1), of key]
  show "ch_search t key = Inr (case ch_map t key of None \<Rightarrow> -1 | Some v \<Rightarrow> v)"
    using assms(1) ch_find_map [OF ok] by (simp add: ch_search_def ch_map_def)
  show "\<exists>t' out. ch_delete t key = Inr (t', out) \<and> ch_wf t' \<and> ch_map t' = (ch_map t)(key := None)"
  proof (cases "ch_unlink key (ch_chain t key)")
    case (Inr r)
    show ?thesis
    proof (cases r)
      case None
      then have "ch_map t key = None" using ch_unlink_map [OF ok, of key] Inr by (auto simp: ch_map_def map_of_eq_None_iff)
      then have "ch_map t = (ch_map t)(key := None)" by (simp add: fun_eq_iff)
      then show ?thesis using assms(1) Inr None by (simp add: ch_delete_def)
    next
      case (Some chain')
      then have "ch_ok chain'" "map_of (ch_assoc chain') = (map_of (ch_assoc (ch_chain t key)))(key := None)"
        using ch_unlink_map [OF ok, of key] Inr by simp_all
      then show ?thesis using assms(1) Inr Some ch_wf_update ch_map_update by (simp add: ch_delete_def)
    qed
  qed (use ch_unlink_map [OF ok, of key] in simp)
  show "if 50 \<le> length key then ch_insert True t key v = Inl OutOfBounds
     else \<exists>t' out. ch_insert True t key v = Inr (t', out) \<and>
       (if ch_at_end t key then ch_wf t' \<and> ch_map t' = (ch_map t)(key \<mapsto> v)
        else \<forall>k. ch_hash k = ch_hash key \<and> ch_map t k = None \<longrightarrow> ch_search t' k = Inl UseAfterFree)"
    using ch_insert_good [OF assms, of key v] ch_insert_bad [OF assms, of key v] by (cases "ch_at_end t key") (auto simp: ch_insert_def)
qed

text \<open>The keys \<open>a\<close> and \<open>k\<close> share a chain; inserting \<open>a\<close> again and then looking for \<open>u\<close> reads the freed cell.\<close>

definition ch_sample :: ch_table where
  "ch_sample = replicate 7 [] @ [[\<lparr>ch_key = ''a'', ch_value = 1, ch_freed = False\<rparr>, \<lparr>ch_key = ''k'', ch_value = 2, ch_freed = False\<rparr>], [], []]"

theorem chained_table_map_witness:
  "ch_search ch_sample ''k'' = Inr 2 \<and> (\<exists>t' out. ch_insert True ch_sample ''a'' 5 = Inr (t', out) \<and> ch_search t' ''u'' = Inl UseAfterFree) \<and>
   ch_insert True ch_sample (replicate 50 CHR ''x'') 1 = Inl OutOfBounds"
proof -
  have wf: "ch_wf ch_sample" by code_simp
  have m: "ch_map ch_sample ''k'' = Some 2" "ch_map ch_sample ''u'' = None" "ch_hash ''u'' = ch_hash ''a''" "\<not> ch_at_end ch_sample ''a''" by code_simp+
  show ?thesis using chained_table_map [OF wf, of "''k''"] chained_table_map [OF wf, of "''a''" 5] chained_table_map [OF wf, of "replicate 50 CHR ''x''" 1] m by auto
qed

end
