(* ===== verification/Bloom.thy ===== *)
theory Bloom
  imports StringTasks ExprTree
begin

text \<open>
  The Bloom filter of \<^verbatim>\<open>day-9(skip-list)/bloom-filter.c\<close>: an array of twenty cells and two hash functions on words, with sums in \<^verbatim>\<open>int\<close> and
  characters that may be negative. The theorem says that on ASCII words the filter has no false negatives and which false positives it has.
\<close>

definition BLOOM_SIZE :: nat where "BLOOM_SIZE = 20"

definition printBloom :: "int list \<Rightarrow> outs res" where
  "printBloom bloom_filter =
     bindE (foldE (\<lambda>out i. bindE (arr_get bloom_filter i) (\<lambda>b. Inr (out @ [Num b, Txt '' '']))) [0..int BLOOM_SIZE - 1] []) (\<lambda>out. Inr (out @ [Txt ''\<newline>'']))"

definition hashFunone :: "string \<Rightarrow> int res" where
  "hashFunone word = bindE (foldE (\<lambda>s c. ex_int (s + schar c)) word 0) (\<lambda>s. Inr (s smod int BLOOM_SIZE))"

definition hashFuntwo :: "string \<Rightarrow> int res" where
  "hashFuntwo word =
     bindE (foldE (\<lambda>s (i, c). bindE (ex_int ((int i + 1) * schar c)) (\<lambda>p. ex_int (s + p))) (enumerate 0 word) 0) (\<lambda>s. Inr (s smod int BLOOM_SIZE))"

definition bloom_insert :: "int list \<Rightarrow> string \<Rightarrow> (int list \<times> outs) res" where
  "bloom_insert bloom_filter word =
     bindE (hashFunone word) (\<lambda>firstIndex. bindE (hashFuntwo word) (\<lambda>secondIndex.
     bindE (arr_set bloom_filter firstIndex 1) (\<lambda>b. bindE (arr_set b secondIndex 1) (\<lambda>b.
     bindE (printBloom b) (\<lambda>txt.
       Inr (b, [Txt ''inserted '', Txt word, Txt '' at indices '', Num firstIndex, Txt '' and '', Num secondIndex, Txt ''\<newline>''] @ txt))))))"

definition bloom_search :: "int list \<Rightarrow> string \<Rightarrow> (bool \<times> outs) res" where
  "bloom_search bloom_filter word =
     bindE (hashFunone word) (\<lambda>firstIndex. bindE (hashFuntwo word) (\<lambda>secondIndex.
     bindE (arr_get bloom_filter firstIndex) (\<lambda>b1.
     bindE (if b1 = 1 then bindE (arr_get bloom_filter secondIndex) (\<lambda>b2. Inr (b2 = 1)) else Inr False) (\<lambda>found.
       Inr (found, [Txt [CHR 0x22], Txt word, Txt [CHR 0x22], Txt (if found then '' is possibly present at position '' else '' Definitely not present at position ''),
              Num firstIndex, Txt '' '', Num secondIndex, Txt ''\<newline>''])))))"

definition bloom_inserts :: "string list \<Rightarrow> int list \<Rightarrow> (int list \<times> outs) res" where
  "bloom_inserts words bloom_filter =
     foldE (\<lambda>(b, out) w. bindE (bloom_insert b w) (\<lambda>(b, o1). Inr (b, out @ o1))) words (bloom_filter, [])"

text \<open>\<^verbatim>\<open>main\<close>; at its end two cells are set by hand to force a false positive.\<close>

definition bloom_main :: "outs res" where
  "bloom_main =
     bindE (bloom_inserts [''cat'', ''dog'', ''rat'', ''bat''] (replicate BLOOM_SIZE 0)) (\<lambda>(b, out).
     bindE (bloom_search b ''cat'') (\<lambda>(_, o1). bindE (bloom_search b ''cow'') (\<lambda>(_, o2).
     bindE (arr_set b 9 1) (\<lambda>b. bindE (arr_set b 18 1) (\<lambda>b.
     bindE (bloom_search b ''cow'') (\<lambda>(_, o3).
       Inr (out @ o1 @ o2 @ [Txt ''After forcefully false position:\<newline>''] @ o3)))))))"

section \<open>The hash functions\<close>

definition ascii_word :: "string \<Rightarrow> bool" where
  "ascii_word w \<longleftrightarrow> (\<forall>c\<in>set w. 0 \<le> schar c)"

lemma schar_le: "schar c \<le> 127"
  by (rule schar_code [of c]) auto

text \<open>Words of at most 5000 characters keep both sums in the range of \<^verbatim>\<open>int\<close>.\<close>

lemma sum_one:
  "ascii_word w \<Longrightarrow> 0 \<le> s \<Longrightarrow> s + 127 * int (length w) \<le> 2147483647 \<Longrightarrow>
   \<exists>r. foldE (\<lambda>s c. ex_int (s + schar c)) w s = Inr r \<and> 0 \<le> r"
proof (induction w arbitrary: s)
  case (Cons c w)
  have "0 \<le> schar c" "ascii_word w" using Cons.prems(1) by (auto simp: ascii_word_def)
  then show ?case using Cons.IH [of "s + schar c"] Cons.prems(2,3) schar_le [of c] by (simp add: ex_int_def)
qed simp

lemma sum_two:
  "ascii_word w \<Longrightarrow> 0 \<le> s \<Longrightarrow> n + length w \<le> 5000 \<Longrightarrow> s + 127 * 5000 * int (length w) \<le> 2147483647 \<Longrightarrow>
   \<exists>r. foldE (\<lambda>s (i, c). bindE (ex_int ((int i + 1) * schar c)) (\<lambda>p. ex_int (s + p))) (enumerate n w) s = Inr r \<and> 0 \<le> r"
proof (induction w arbitrary: s n)
  case (Cons c w)
  have c: "0 \<le> schar c" "ascii_word w" using Cons.prems(1) by (auto simp: ascii_word_def)
  define p where "p = (int n + 1) * schar c"
  have "p \<le> 5000 * 127" unfolding p_def by (rule mult_mono) (use Cons.prems(3) c schar_le [of c] in auto)
  moreover have "0 \<le> p" using c by (simp add: p_def)
  ultimately have "ex_int p = Inr p" "ex_int (s + p) = Inr (s + p)" "0 \<le> s + p" "s + p + 127 * 5000 * int (length w) \<le> 2147483647"
    using Cons.prems(2,4) by (auto simp: ex_int_def)
  then show ?case using Cons.IH [of "s + p" "Suc n"] Cons.prems(3) c by (simp add: p_def [symmetric])
qed simp

definition bloom_word :: "string \<Rightarrow> bool" where
  "bloom_word w \<longleftrightarrow> ascii_word w \<and> length w \<le> 3000"

lemma hash_ok:
  assumes "bloom_word w"
  obtains i j where "hashFunone w = Inr (int i)" and "hashFuntwo w = Inr (int j)" and "i < BLOOM_SIZE" and "j < BLOOM_SIZE"
proof -
  have w: "ascii_word w" "length w \<le> 3000" using assms by (auto simp: bloom_word_def)
  obtain r where r: "foldE (\<lambda>s c. ex_int (s + schar c)) w 0 = Inr r" "0 \<le> r" using sum_one [of w 0] w by auto
  obtain q where q: "foldE (\<lambda>s (i, c). bindE (ex_int ((int i + 1) * schar c)) (\<lambda>p. ex_int (s + p))) (enumerate 0 w) 0 = Inr q" "0 \<le> q"
    using sum_two [of w 0 0] w by auto
  have m: "x smod 20 = int (nat (x mod 20)) \<and> nat (x mod 20) < 20" if "0 \<le> x" for x :: int
    using that by (simp add: smod_nonneg)
  show thesis
    by (rule that [of "nat (r mod 20)" "nat (q mod 20)"]) (use r q m [of r] m [of q] in \<open>simp_all add: hashFunone_def hashFuntwo_def BLOOM_SIZE_def\<close>)
qed

section \<open>The filter\<close>

definition bloom_bits :: "string \<Rightarrow> nat set" where
  "bloom_bits w = {i. hashFunone w = Inr (int i) \<or> hashFuntwo w = Inr (int i)}"

definition bloom_holds :: "int list \<Rightarrow> nat set \<Rightarrow> bool" where
  "bloom_holds b S \<longleftrightarrow> length b = BLOOM_SIZE \<and> (\<forall>i<BLOOM_SIZE. b ! i = (if i \<in> S then 1 else 0))"

lemma printBloom_ok: "length b = BLOOM_SIZE \<Longrightarrow> \<exists>txt. printBloom b = Inr txt"
proof -
  assume l: "length b = BLOOM_SIZE"
  have "\<exists>out. foldE (\<lambda>out i. bindE (arr_get b i) (\<lambda>x. Inr (out @ [Num x, Txt '' '']))) [0..int BLOOM_SIZE - 1] [] = Inr out \<and> True"
    by (rule foldE_invariant) (use l in auto)
  then show "\<exists>txt. printBloom b = Inr txt" by (auto simp: printBloom_def)
qed

lemma bloom_insert_ok:
  assumes "bloom_word w" and "bloom_holds b S"
  shows "\<exists>b' out. bloom_insert b w = Inr (b', out) \<and> bloom_holds b' (S \<union> bloom_bits w)"
proof -
  obtain i j where h: "hashFunone w = Inr (int i)" "hashFuntwo w = Inr (int j)" "i < BLOOM_SIZE" "j < BLOOM_SIZE" by (rule hash_ok [OF assms(1)])
  have l: "length b = BLOOM_SIZE" using assms(2) by (simp add: bloom_holds_def)
  obtain p where "printBloom (b[i := 1, j := 1]) = Inr p" using printBloom_ok [of "b[i := 1, j := 1]"] l by auto
  moreover have "bloom_bits w = {i, j}" using h(1,2) by (auto simp: bloom_bits_def)
  moreover have "bloom_holds (b[i := 1, j := 1]) (S \<union> {i, j})" using assms(2) h(3,4) by (auto simp: bloom_holds_def nth_list_update)
  ultimately show ?thesis using h l by (simp add: bloom_insert_def)
qed

lemma bloom_search_ok:
  assumes "bloom_word w" and "bloom_holds b S"
  shows "\<exists>out. bloom_search b w = Inr (bloom_bits w \<subseteq> S, out)"
proof -
  obtain i j where h: "hashFunone w = Inr (int i)" "hashFuntwo w = Inr (int j)" "i < BLOOM_SIZE" "j < BLOOM_SIZE" by (rule hash_ok [OF assms(1)])
  have b: "length b = BLOOM_SIZE" "b ! i = (if i \<in> S then 1 else 0)" "b ! j = (if j \<in> S then 1 else 0)"
    using assms(2) h(3,4) by (simp_all add: bloom_holds_def)
  have "bloom_bits w = {i, j}" using h(1,2) by (auto simp: bloom_bits_def)
  then show ?thesis using h b by (auto simp: bloom_search_def)
qed

lemma bloom_inserts_ok:
  "\<forall>w\<in>set ws. bloom_word w \<Longrightarrow> bloom_holds b S \<Longrightarrow>
   \<exists>b' out'. foldE (\<lambda>(b, out) w. bindE (bloom_insert b w) (\<lambda>(b, o1). Inr (b, out @ o1))) ws (b, out) = Inr (b', out') \<and>
     bloom_holds b' (S \<union> (\<Union>w\<in>set ws. bloom_bits w))"
proof (induction ws arbitrary: b S out)
  case (Cons w ws)
  obtain b1 o1 where b1: "bloom_insert b w = Inr (b1, o1)" "bloom_holds b1 (S \<union> bloom_bits w)" using bloom_insert_ok [of w b S] Cons.prems by auto
  from Cons.IH [OF _ b1(2), of "out @ o1"] Cons.prems(1) b1(1) show ?case by (auto simp: Un_assoc)
qed simp

text \<open>C33. The Bloom filter has no false negatives. After inserting ASCII words of at most 3000 characters into the empty filter, which never leaves the
  array or the range of \<^verbatim>\<open>int\<close>, a search for any of them reports that it is present; a search for another such word reports presence exactly if all its
  cells are cells of inserted words.\<close>

theorem bloom_no_false_negatives:
  assumes "\<forall>w\<in>set ws. bloom_word w"
  shows "\<exists>b out. bloom_inserts ws (replicate BLOOM_SIZE 0) = Inr (b, out) \<and>
    (\<forall>w\<in>set ws. \<exists>txt. bloom_search b w = Inr (True, txt)) \<and>
    (\<forall>w. bloom_word w \<longrightarrow> (\<exists>txt. bloom_search b w = Inr (bloom_bits w \<subseteq> (\<Union>v\<in>set ws. bloom_bits v), txt)))"
proof -
  have "bloom_holds (replicate BLOOM_SIZE 0) {}" by (simp add: bloom_holds_def)
  from bloom_inserts_ok [OF assms this, of "[]"] obtain b out where b: "bloom_inserts ws (replicate BLOOM_SIZE 0) = Inr (b, out)"
    "bloom_holds b (\<Union>w\<in>set ws. bloom_bits w)" by (auto simp: bloom_inserts_def)
  have s: "\<exists>txt. bloom_search b w = Inr (bloom_bits w \<subseteq> (\<Union>v\<in>set ws. bloom_bits v), txt)" if "bloom_word w" for w
    by (rule bloom_search_ok [OF that b(2)])
  have "\<exists>txt. bloom_search b w = Inr (True, txt)" if "w \<in> set ws" for w
  proof -
    have "bloom_bits w \<subseteq> (\<Union>v\<in>set ws. bloom_bits v)" using that by blast
    then show ?thesis using s [of w] assms that by simp
  qed
  then show ?thesis using b(1) s by blast
qed

theorem bloom_no_false_negatives_witness:
  "\<exists>b out. bloom_inserts [''cat'', ''dog''] (replicate BLOOM_SIZE 0) = Inr (b, out) \<and> (\<exists>txt. bloom_search b ''dog'' = Inr (True, txt))"
proof -
  have "\<forall>w\<in>set [''cat'', ''dog'']. bloom_word w" by code_simp
  from bloom_no_false_negatives [OF this] show ?thesis by fastforce
qed

end
