(* ===== verification/Flex.thy ===== *)
theory Flex
  imports StringTasks ExprTree
begin

text \<open>
  The scanners of \<^verbatim>\<open>LEXICAL_ANALYZER\<close>: the table-driven engine of \<^verbatim>\<open>lex.yy.c\<close> and the tables it runs
  on for the calculator and for the SQL grammar.

  The engine is modelled on a buffer that holds the whole remaining input, followed by the two end-of-buffer characters. How
  the input gets into the buffer in pieces (\<^verbatim>\<open>yy_get_next_buffer\<close> and the buffer stack) is not modelled: at the end of the
  buffer the input is at its end. Positions are relative to the start of the current token. The last accepting
  state is \<open>None\<close> at the start of a token, and its use there is a fault.
\<close>

record flex =
  yy_accept :: "int list"
  yy_ec :: "int list"
  yy_meta :: "int list"
  yy_base :: "int list"
  yy_def :: "int list"
  yy_nxt :: "int list"
  yy_chk :: "int list"
  yy_jam_base :: int
  yy_jam_state :: int
  yy_meta_from :: int
  YY_END_OF_BUFFER :: int

type_synonym yy_last = "(int \<times> nat) option"

text \<open>The inner loop over the default states, and the transition.\<close>

primrec yy_trans :: "nat \<Rightarrow> flex \<Rightarrow> int \<Rightarrow> int \<Rightarrow> int res" where
  "yy_trans 0 F st c = Inl Diverges"
| "yy_trans (Suc n) F st c =
     bindE (arr_get (yy_base F) st) (\<lambda>b. bindE (arr_get (yy_chk F) (b + c)) (\<lambda>chk.
       if chk \<noteq> st
       then bindE (arr_get (yy_def F) st) (\<lambda>st'.
              if st' \<ge> yy_meta_from F then bindE (arr_get (yy_meta F) c) (\<lambda>c'. yy_trans n F st' c')
              else yy_trans n F st' c)
       else arr_get (yy_nxt F) (b + c)))"

text \<open>The number of states bounds the chain of default states.\<close>

definition yy_delta :: "flex \<Rightarrow> int \<Rightarrow> int \<Rightarrow> int res" where
  "yy_delta F st c = yy_trans (length (yy_def F)) F st c"

definition yy_note :: "flex \<Rightarrow> int \<Rightarrow> nat \<Rightarrow> yy_last \<Rightarrow> yy_last res" where
  "yy_note F st cp lst = bindE (arr_get (yy_accept F) st) (\<lambda>a. Inr (if a \<noteq> 0 then Some (st, cp) else lst))"

fun yy_match :: "flex \<Rightarrow> int \<Rightarrow> string \<Rightarrow> nat \<Rightarrow> yy_last \<Rightarrow> (int \<times> nat \<times> yy_last) res" where
  "yy_match F st [] cp lst = Inl OutOfBounds"
| "yy_match F st (ch # buf) cp lst =
     bindE (arr_get (yy_ec F) (of_char ch)) (\<lambda>c.
     bindE (yy_note F st cp lst) (\<lambda>lst.
     bindE (yy_delta F st c) (\<lambda>st.
     bindE (arr_get (yy_base F) st) (\<lambda>b.
       if b \<noteq> yy_jam_base F then yy_match F st buf (cp + 1) lst else Inr (st, cp + 1, lst)))))"

definition yy_find_action :: "flex \<Rightarrow> int \<times> nat \<times> yy_last \<Rightarrow> (int \<times> nat) res" where
  "yy_find_action F = (\<lambda>(st, cp, lst).
     bindE (arr_get (yy_accept F) st) (\<lambda>act.
       if act = 0
       then case lst of
              None \<Rightarrow> Inl Uninitialised
            | Some (st, cp) \<Rightarrow> bindE (arr_get (yy_accept F) st) (\<lambda>act. Inr (act, cp))
       else Inr (act, cp)))"

text \<open>\<^verbatim>\<open>yy_get_previous_state\<close>: the state after the text scanned so far.\<close>

fun yy_get_previous_state :: "flex \<Rightarrow> int \<Rightarrow> string \<Rightarrow> nat \<Rightarrow> yy_last \<Rightarrow> (int \<times> yy_last) res" where
  "yy_get_previous_state F st [] cp lst = Inr (st, lst)"
| "yy_get_previous_state F st (ch # wd) cp lst =
     bindE (if ch \<noteq> CHR 0x00 then arr_get (yy_ec F) (of_char ch) else Inr 1) (\<lambda>c.
     bindE (yy_note F st cp lst) (\<lambda>lst.
     bindE (yy_delta F st c) (\<lambda>st. yy_get_previous_state F st wd (cp + 1) lst)))"

definition yy_try_NUL_trans :: "flex \<Rightarrow> int \<Rightarrow> nat \<Rightarrow> yy_last \<Rightarrow> (int \<times> yy_last) res" where
  "yy_try_NUL_trans F st cp lst =
     bindE (yy_note F st cp lst) (\<lambda>lst.
     bindE (yy_delta F st 1) (\<lambda>st. Inr (if st = yy_jam_state F then 0 else st, lst)))"

text \<open>
  The scan of one token in a buffer with \<open>n\<close> characters of input, from \<^verbatim>\<open>yy_match\<close> to the action; the result is \<open>None\<close> at the end of the file, else the number of the
  action and the length of the text. Only a NUL in the input sends the scan back to \<^verbatim>\<open>yy_match\<close>, so the length of the buffer bounds the
  number of rounds.
\<close>

fun yy_scan :: "nat \<Rightarrow> flex \<Rightarrow> string \<Rightarrow> nat \<Rightarrow> int \<Rightarrow> nat \<Rightarrow> yy_last \<Rightarrow> (int \<times> nat) option res" where
  "yy_scan 0 F buf n st cp lst = Inl Diverges"
| "yy_scan (Suc k) F buf n st cp lst =
     bindE (yy_match F st (drop cp buf) cp lst) (\<lambda>m.
     bindE (yy_find_action F m) (\<lambda>(act, cp).
       if act \<noteq> YY_END_OF_BUFFER F then Inr (Some (act, cp))
       else let matched = cp - 1; lst = snd (snd m) in
         if cp \<le> n
         then bindE (yy_get_previous_state F 1 (take matched buf) 0 lst) (\<lambda>(st, lst).
              bindE (yy_try_NUL_trans F st matched lst) (\<lambda>(nx, lst).
                if nx \<noteq> 0 then yy_scan k F buf n nx (matched + 1) lst
                else bindE (yy_find_action F (st, matched, lst)) (\<lambda>a. Inr (Some a))))
         else if matched = 0 then Inr None
         else bindE (yy_get_previous_state F 1 (take n buf) 0 lst) (\<lambda>(st, lst).
              bindE (yy_find_action F (st, n, lst)) (\<lambda>a. Inr (Some a)))))"

text \<open>The action of a rule either returns a token, perhaps with a value, or goes on scanning.\<close>

datatype 'v lex_action = Token int "'v option" | Continue outs

primrec yylex :: "nat \<Rightarrow> flex \<Rightarrow> (int \<Rightarrow> string \<Rightarrow> 'v lex_action res) \<Rightarrow> string \<Rightarrow> outs \<Rightarrow> (int \<times> 'v option \<times> string \<times> outs) res" where
  "yylex 0 F act inp out = Inl Diverges"
| "yylex (Suc k) F act inp out =
     bindE (yy_scan (length inp + 1) F (inp @ [CHR 0x00, CHR 0x00]) (length inp) 1 0 None) (\<lambda>r.
       case r of
         None \<Rightarrow> Inr (0, None, inp, out)
       | Some (n, len) \<Rightarrow>
           bindE (act n (take len inp)) (\<lambda>a.
             case a of
               Token kind lval \<Rightarrow> Inr (kind, lval, drop len inp, out)
             | Continue o' \<Rightarrow> yylex k F act (drop len inp) (out @ o')))"

section \<open>What the engine computes\<close>

text \<open>
  The laws of a scanner's tables: they encode a transition function \<open>nx\<close> on characters whose states are the
  live ones \<open>L\<close> (in which the scan goes on), the final ones \<open>E\<close> (in which it stops after a character), and the jam state; every state
  but the start state accepts, and the end-of-buffer character leads to state 3 and from there to a jam.
\<close>

locale flex_automaton =
  fixes F :: flex and nx :: "int \<Rightarrow> char \<Rightarrow> int" and L E :: "int set" and acc :: "int \<Rightarrow> int"
  assumes start: "1 \<in> L" "acc 1 = 0"
    and step: "\<And>st ch. st \<in> L \<Longrightarrow> ch \<noteq> CHR 0x00 \<Longrightarrow> bindE (arr_get (yy_ec F) (of_char ch)) (yy_delta F st) = Inr (nx st ch)"
    and kinds: "\<And>st ch. st \<in> L \<Longrightarrow> ch \<noteq> CHR 0x00 \<Longrightarrow> nx st ch \<in> (L - {1}) \<union> E \<union> {yy_jam_state F}"
    and start_step: "\<And>ch. ch \<noteq> CHR 0x00 \<Longrightarrow> nx 1 ch \<noteq> yy_jam_state F"
    and to_eob: "\<And>st. st \<in> L \<Longrightarrow> bindE (arr_get (yy_ec F) 0) (yy_delta F st) = Inr 3"
      "bindE (arr_get (yy_ec F) 0) (yy_delta F 3) = Inr (yy_jam_state F)"
    and accepts: "\<And>st. st \<in> L \<union> E \<union> {3, yy_jam_state F} \<Longrightarrow> arr_get (yy_accept F) st = Inr (acc st)"
    and accept_eob: "acc 3 = YY_END_OF_BUFFER F" "acc (yy_jam_state F) = 0" "YY_END_OF_BUFFER F \<noteq> 0"
    and accepting: "\<And>st. st \<in> (L - {1}) \<union> E \<Longrightarrow> acc st \<noteq> 0 \<and> acc st \<noteq> YY_END_OF_BUFFER F"
    and bases: "\<And>st. st \<in> L \<union> {3} \<Longrightarrow> \<exists>b. arr_get (yy_base F) st = Inr b \<and> b \<noteq> yy_jam_base F"
      "\<And>st. st \<in> E \<union> {yy_jam_state F} \<Longrightarrow> arr_get (yy_base F) st = Inr (yy_jam_base F)"
begin

text \<open>The longest text that the transition function can read, and the rule of the state it ends in.\<close>

fun munch :: "int \<Rightarrow> string \<Rightarrow> nat \<Rightarrow> int \<times> nat" where
  "munch st [] k = (acc st, k)"
| "munch st (ch # wd) k =
     (let st' = nx st ch in
      if st' = yy_jam_state F then (acc st, k) else if st' \<in> L then munch st' wd (k + 1) else (acc st', k + 1))"

primrec ends_live :: "int \<Rightarrow> string \<Rightarrow> bool" where
  "ends_live st [] = True"
| "ends_live st (ch # wd) = (nx st ch \<noteq> yy_jam_state F \<and> nx st ch \<in> L \<and> ends_live (nx st ch) wd)"

lemma note_ok: "st \<in> L \<Longrightarrow> yy_note F st cp lst = Inr (if st = 1 then lst else Some (st, cp))"
  using accepts [of st] accepting [of st] start by (auto simp: yy_note_def)

lemma jam_not_live: "yy_jam_state F \<notin> L \<union> E"
  using accepting accept_eob start bases by (metis DiffI UnE UnI1 UnI2 insertI1 singletonD sum.inject(2))

lemma live_not_final: "st \<in> L \<Longrightarrow> st \<notin> E"
  using bases(1) [of st] bases(2) [of st] by auto

lemma trans:
  assumes "st \<in> L" and "ch \<noteq> CHR 0x00"
  obtains c where "arr_get (yy_ec F) (of_char ch) = Inr c" and "yy_delta F st c = Inr (nx st ch)"
  using step [OF assms] by (cases "arr_get (yy_ec F) (of_char ch)") auto

lemma match_step:
  assumes "st \<in> L" and "ch \<noteq> CHR 0x00"
  shows "yy_match F st (ch # buf) cp lst =
    (let lst' = if st = 1 then lst else Some (st, cp) in
     if nx st ch \<in> L then yy_match F (nx st ch) buf (cp + 1) lst' else Inr (nx st ch, cp + 1, lst'))"
proof -
  from assms obtain c where c: "arr_get (yy_ec F) (of_char ch) = Inr c" "yy_delta F st c = Inr (nx st ch)" by (rule trans)
  show ?thesis
  proof (cases "nx st ch \<in> L")
    case True
    then obtain b where "arr_get (yy_base F) (nx st ch) = Inr b" "b \<noteq> yy_jam_base F" using bases(1) by auto
    then show ?thesis using True c note_ok [OF assms(1)] by (simp add: Let_def)
  next
    case False
    then have "arr_get (yy_base F) (nx st ch) = Inr (yy_jam_base F)" using kinds [OF assms] bases(2) by auto
    then show ?thesis using False c note_ok [OF assms(1)] by (simp add: Let_def)
  qed
qed

lemma match_eob:
  assumes "st \<in> L"
  shows "yy_match F st [CHR 0x00, CHR 0x00] cp lst = Inr (yy_jam_state F, cp + 2, Some (3, cp + 1))"
proof -
  obtain c where c: "arr_get (yy_ec F) 0 = Inr c" "yy_delta F st c = Inr 3" "yy_delta F 3 c = Inr (yy_jam_state F)"
    using to_eob(1) [OF assms] to_eob(2) by (cases "arr_get (yy_ec F) 0") auto
  obtain b where b: "arr_get (yy_base F) 3 = Inr b" "b \<noteq> yy_jam_base F" using bases(1) [of 3] by auto
  have "yy_note F 3 (cp + 1) l = Inr (Some (3, cp + 1))" for l using accepts [of 3] accept_eob by (simp add: yy_note_def)
  then show ?thesis using b c bases(2) note_ok [OF assms] by simp
qed

lemma match_munch:
  assumes "st \<in> L" and "CHR 0x00 \<notin> set wd" and "st = 1 \<Longrightarrow> wd \<noteq> []"
  shows "\<exists>m. yy_match F st (wd @ [CHR 0x00, CHR 0x00]) cp lst = Inr m \<and>
    yy_find_action F m = Inr (if ends_live st wd then (YY_END_OF_BUFFER F, cp + length wd + 1) else munch st wd cp)"
  using assms
proof (induction wd arbitrary: st cp lst)
  case Nil
  then show ?case using match_eob [of st cp lst] accepts [of 3] accepts [of "yy_jam_state F"] accept_eob
    by (simp add: yy_find_action_def)
next
  case (Cons ch wd)
  have ch: "ch \<noteq> CHR 0x00" "CHR 0x00 \<notin> set wd" using Cons.prems(2) by auto
  note ms = match_step [OF Cons.prems(1) ch(1), of "wd @ [CHR 0x00, CHR 0x00]" cp lst]
  consider (live) "nx st ch \<in> L - {1}" | (fin) "nx st ch \<in> E" "nx st ch \<notin> L" | (jam) "nx st ch = yy_jam_state F"
    using kinds [OF Cons.prems(1) ch(1)] live_not_final by blast
  then show ?case
  proof cases
    case live
    then have "nx st ch \<noteq> yy_jam_state F" using jam_not_live by auto
    then show ?thesis using Cons.IH [of "nx st ch" "cp + 1"] live ch(2) ms by (auto simp: Let_def)
  next
    case fin
    then have "nx st ch \<noteq> yy_jam_state F" using jam_not_live by auto
    then show ?thesis using fin ms accepts [of "nx st ch"] accepting [of "nx st ch"] by (auto simp: Let_def yy_find_action_def)
  next
    case jam
    then have st: "st \<noteq> 1" using start_step [OF ch(1)] by auto
    then show ?thesis using jam ms jam_not_live accepts [of st] accepts [of "yy_jam_state F"] accept_eob Cons.prems(1)
      by (auto simp: Let_def yy_find_action_def)
  qed
qed

lemma previous_state:
  assumes "st \<in> L" and "CHR 0x00 \<notin> set wd" and "ends_live st wd" and "st = 1 \<Longrightarrow> wd \<noteq> []"
  shows "\<exists>st' lst'. yy_get_previous_state F st wd cp lst = Inr (st', lst') \<and> st' \<in> L - {1} \<and> munch st wd k = (acc st', k + length wd)"
  using assms
proof (induction wd arbitrary: st cp lst k)
  case (Cons ch wd)
  have ch: "ch \<noteq> CHR 0x00" "CHR 0x00 \<notin> set wd" using Cons.prems(2) by auto
  from Cons.prems(1) ch(1) obtain c where c: "arr_get (yy_ec F) (of_char ch) = Inr c" "yy_delta F st c = Inr (nx st ch)" by (rule trans)
  have nx: "nx st ch \<in> L - {1}" "nx st ch \<noteq> yy_jam_state F" "ends_live (nx st ch) wd"
    using kinds [OF Cons.prems(1) ch(1)] Cons.prems(3) jam_not_live live_not_final by auto
  obtain st' lst' where "yy_get_previous_state F (nx st ch) wd (cp + 1) (if st = 1 then lst else Some (st, cp)) = Inr (st', lst')"
    "st' \<in> L - {1}" "munch (nx st ch) wd (k + 1) = (acc st', k + 1 + length wd)"
    using Cons.IH [of "nx st ch" "cp + 1" "if st = 1 then lst else Some (st, cp)" "k + 1"] nx ch(2) by blast
  then show ?case using c ch(1) nx note_ok [OF Cons.prems(1)] by (auto simp: Let_def)
qed auto

lemma scan_munch:
  assumes "CHR 0x00 \<notin> set inp"
  shows "yy_scan (Suc k) F (inp @ [CHR 0x00, CHR 0x00]) (length inp) 1 0 None =
    Inr (if inp = [] then None else Some (munch 1 inp 0))"
proof (cases "inp = []")
  case True
  then show ?thesis using match_eob [OF start(1), of 0 None] accepts [of 3] accepts [of "yy_jam_state F"] accept_eob
    by (simp add: yy_find_action_def)
next
  case False
  obtain m where m: "yy_match F 1 (inp @ [CHR 0x00, CHR 0x00]) 0 None = Inr m"
    "yy_find_action F m = Inr (if ends_live 1 inp then (YY_END_OF_BUFFER F, 0 + length inp + 1) else munch 1 inp 0)"
    using match_munch [OF start(1) assms] False by blast
  show ?thesis
  proof (cases "ends_live 1 inp")
    case True
    obtain st lst where "yy_get_previous_state F 1 inp 0 (snd (snd m)) = Inr (st, lst)" "st \<in> L - {1}" "munch 1 inp 0 = (acc st, 0 + length inp)"
      using previous_state [OF start(1) assms True] False by blast
    moreover from this have "yy_find_action F (st, length inp, lst) = Inr (acc st, length inp)"
      using accepts [of st] accepting [of st] by (simp add: yy_find_action_def)
    ultimately show ?thesis using m True False by (simp add: Let_def)
  next
    case ends: False
    have "fst (munch st wd j) \<noteq> YY_END_OF_BUFFER F" if "st \<in> L" "CHR 0x00 \<notin> set wd" "st = 1 \<Longrightarrow> wd \<noteq> []" for st wd j
      using that
    proof (induction wd arbitrary: st j)
      case Nil
      then show ?case using accepting [of st] by auto
    next
      case (Cons ch wd)
      then have ch: "ch \<noteq> CHR 0x00" by auto
      have "nx st ch \<in> L \<Longrightarrow> nx st ch \<noteq> 1" using kinds [OF Cons.prems(1) ch] live_not_final jam_not_live by auto
      then show ?case using Cons.IH [of "nx st ch" "j + 1"] Cons.prems kinds [OF Cons.prems(1) ch] accepting [of st] accepting [of "nx st ch"] start_step [OF ch]
        by (auto simp: Let_def)
    qed
    from this [OF start(1) assms, of 0] False have "fst (munch 1 inp 0) \<noteq> YY_END_OF_BUFFER F" by blast
    then show ?thesis using m ends False by (cases "munch 1 inp 0") simp
  qed
qed

end

declare yy_scan.simps [simp del]

section \<open>The scanner of the calculator\<close>

definition calc_flex :: flex where
  "calc_flex = \<lparr>
     yy_accept = [0, 0, 0, 12, 10, 2, 9, 3, 4, 7, 5, 6, 8, 1, 2, 1, 0],
     yy_ec = [0] @ replicate 8 1 @ [2, 3] @ replicate 21 1 @ [2] @ replicate 7 1 @ [4, 5, 6, 7, 1, 8, 1, 9] @
       replicate 10 10 @ replicate 198 1,
     yy_meta = [0, 1, 1, 1, 1, 1, 1, 1, 1, 1, 1],
     yy_base = [0, 0, 0, 15, 16, 12, 16, 16, 16, 16, 16, 16, 16, 3, 10, 1, 16],
     yy_def = [0, 16, 1, 16, 16, 16, 16, 16, 16, 16, 16, 16, 16, 16, 16, 16, 0],
     yy_nxt = [0, 4, 5, 6, 7, 8, 9, 10, 11, 12, 13, 15, 14, 15, 14, 16, 3, 16, 16, 16, 16, 16, 16, 16, 16, 16, 16],
     yy_chk = [0, 1, 1, 1, 1, 1, 1, 1, 1, 1, 1, 15, 14, 13, 5, 3, 16, 16, 16, 16, 16, 16, 16, 16, 16, 16, 16],
     yy_jam_base = 16, yy_jam_state = 16, yy_meta_from = 17, YY_END_OF_BUFFER = 12\<rparr>"

text \<open>The actions of the rules.\<close>

definition NUMBER :: int where "NUMBER = 258"

definition calc_lex_action :: "(int \<Rightarrow> 'v) \<Rightarrow> int \<Rightarrow> string \<Rightarrow> 'v lex_action res" where
  "calc_lex_action num act yytext =
     (if act = 1 then bindE (ex_atoi yytext) (\<lambda>n. Inr (Token NUMBER (Some (num n))))
      else if act = 2 then Inr (Continue [])
      else if act = 3 then Inr (Token (schar CHR ''('') None)
      else if act = 4 then Inr (Token (schar CHR '')'') None)
      else if act = 5 then Inr (Token (schar CHR ''+'') None)
      else if act = 6 then Inr (Token (schar CHR ''-'') None)
      else if act = 7 then Inr (Token (schar CHR ''*'') None)
      else if act = 8 then Inr (Token (schar CHR ''/'') None)
      else if act = 9 then Inr (Token (schar CHR 0x0A) None)
      else if act = 10 then bindE (arr_get yytext 0) (\<lambda>c. Inr (Token (schar c) None))
      else if act = 11 then Inr (Continue [Txt yytext])
      else Inl (Exited 2))"

definition calc_yylex :: "(int \<Rightarrow> 'v) \<Rightarrow> string \<Rightarrow> (int \<times> 'v option \<times> string \<times> outs) res" where
  "calc_yylex num inp = yylex (length inp + 1) calc_flex (calc_lex_action num) inp []"

subsection \<open>The tables are those of the rules\<close>

definition calc_class :: "char \<Rightarrow> int" where
  "calc_class ch =
     (if ch = CHR '' '' \<or> ch = CHR 0x09 then 2 else if ch = CHR 0x0A then 3 else if ch = CHR ''('' then 4
      else if ch = CHR '')'' then 5 else if ch = CHR ''*'' then 6 else if ch = CHR ''+'' then 7
      else if ch = CHR ''-'' then 8 else if ch = CHR ''/'' then 9 else if ex_digit ch then 10 else 1)"

definition calc_nx :: "int \<Rightarrow> char \<Rightarrow> int" where
  "calc_nx st ch =
     (if st = 1 then calc_class ch + 3
      else if st = 5 \<or> st = 14 then if calc_class ch = 2 then 14 else 16
      else if calc_class ch = 10 then 15 else 16)"

lemma char_code:
  obtains n :: nat where "n < 256" and "ch = char_of n" and "(of_char ch :: int) = int n"
proof (rule that)
  show "(of_char ch :: nat) < 256" by (rule nat_of_char_less_256)
  show "(of_char ch :: int) = int (of_char ch)" by (simp only: of_nat_of_char)
qed simp

lemma char_of_is: "n < 256 \<Longrightarrow> char_of n = c \<longleftrightarrow> n = of_char c" for n :: nat
  by (simp add: char_of_eq_iff take_bit_eq_mod)

lemma calc_ec:
  assumes "ch \<noteq> CHR 0x00"
  shows "arr_get (yy_ec calc_flex) (of_char ch) = Inr (calc_class ch)"
proof -
  obtain n where n: "n < 256" "ch = char_of n" "(of_char ch :: int) = int n" by (rule char_code)
  then have n0: "n \<noteq> 0" using assms by (auto simp: char_of_is)
  have len: "length (yy_ec calc_flex) = 256" by (simp add: calc_flex_def)
  have "yy_ec calc_flex ! n = calc_class ch"
    using n(1) n0 unfolding n(2) calc_class_def
    by (simp add: calc_flex_def nth_append nth_Cons' char_of_is ex_digit_def) presburger
  then show ?thesis using n len by simp
qed

definition calc_acc :: "int \<Rightarrow> int" where
  "calc_acc st = yy_accept calc_flex ! nat st"

lemma calc_class_range: "calc_class ch \<in> set [1..10]"
  by (simp add: calc_class_def)

lemma calc_class_cases: "calc_class ch \<in> {1, 2, 3, 4, 5, 6, 7, 8, 9, 10}"
  by (simp add: calc_class_def)

lemma calc_delta:
  assumes "st \<in> {1, 5, 13, 14, 15}" and "ch \<noteq> CHR 0x00"
  shows "yy_delta calc_flex st (calc_class ch) = Inr (calc_nx st ch)"
proof -
  have "\<forall>st\<in>set [1, 5, 13, 14, 15]. \<forall>c\<in>set [1..10]. yy_delta calc_flex st c =
      Inr (if st = 1 then c + 3 else if st = 5 \<or> st = 14 then if c = 2 then 14 else 16 else if c = 10 then 15 else 16)"
    by code_simp
  then have "yy_delta calc_flex st (calc_class ch) = Inr (if st = 1 then calc_class ch + 3
      else if st = 5 \<or> st = 14 then if calc_class ch = 2 then 14 else 16 else if calc_class ch = 10 then 15 else 16)"
    using assms(1) calc_class_range [of ch] by (elim ballE [of _ _ st] ballE [of _ _ "calc_class ch"]) simp_all
  then show ?thesis by (simp only: calc_nx_def)
qed

lemma calc_eob:
  "\<forall>st\<in>set [1, 5, 13, 14, 15]. bindE (arr_get (yy_ec calc_flex) 0) (yy_delta calc_flex st) = Inr 3"
  "bindE (arr_get (yy_ec calc_flex) 0) (yy_delta calc_flex 3) = Inr 16"
  by code_simp+

lemma calc_accepts:
  "\<forall>st\<in>set [1, 5, 13, 14, 15, 4, 6, 7, 8, 9, 10, 11, 12, 3, 16]. arr_get (yy_accept calc_flex) st = Inr (calc_acc st)"
  "calc_acc 1 = 0" "calc_acc 3 = 12" "calc_acc 16 = 0"
  "\<forall>st\<in>set [5, 13, 14, 15, 4, 6, 7, 8, 9, 10, 11, 12]. calc_acc st \<noteq> 0 \<and> calc_acc st \<noteq> 12"
  by code_simp+

lemma calc_bases:
  "\<forall>st\<in>set [1, 5, 13, 14, 15, 3]. arr_get (yy_base calc_flex) st \<in> Inr ` {0, 12, 3, 10, 1, 15}"
  "\<forall>st\<in>set [4, 6, 7, 8, 9, 10, 11, 12, 16]. arr_get (yy_base calc_flex) st = Inr 16"
  by code_simp+

lemma calc_params [simp]:
  "yy_jam_base calc_flex = 16" "yy_jam_state calc_flex = 16" "YY_END_OF_BUFFER calc_flex = 12"
  by (simp_all add: calc_flex_def)

interpretation calc_scanner: flex_automaton calc_flex calc_nx "{1, 5, 13, 14, 15}" "{4, 6, 7, 8, 9, 10, 11, 12}" calc_acc
proof (unfold_locales, goal_cases)
  case (3 st ch)
  then show ?case using calc_ec [of ch] calc_delta [of st ch] by simp
next
  case (4 st ch)
  then show ?case using calc_class_cases [of ch] by (auto simp: calc_nx_def)
next
  case (5 ch)
  then show ?case using calc_class_range [of ch] by (auto simp: calc_nx_def)
next
  case (6 st)
  then show ?case using bspec [OF calc_eob(1), of st] by simp
next
  case 7
  then show ?case using calc_eob(2) by simp
next
  case (8 st)
  then have "st \<in> set [1, 5, 13, 14, 15, 4, 6, 7, 8, 9, 10, 11, 12, 3, 16]" by auto
  then show ?case using calc_accepts(1) by blast
next
  case (12 st)
  then have "st \<in> set [5, 13, 14, 15, 4, 6, 7, 8, 9, 10, 11, 12]" by auto
  then show ?case using bspec [OF calc_accepts(5), of st] by simp
next
  case (13 st)
  then have "st \<in> set [1, 5, 13, 14, 15, 3]" by auto
  then show ?case using bspec [OF calc_bases(1), of st] by auto
next
  case (14 st)
  then have "st \<in> set [4, 6, 7, 8, 9, 10, 11, 12, 16]" by auto
  then show ?case using bspec [OF calc_bases(2), of st] by simp
qed (simp_all add: calc_accepts)

subsection \<open>What the scanner of the calculator returns\<close>

abbreviation is_blank :: "char \<Rightarrow> bool" where
  "is_blank c \<equiv> c = CHR '' '' \<or> c = CHR 0x09"

lemma calc_class_blank: "calc_class ch = 2 \<longleftrightarrow> is_blank ch"
  by (simp add: calc_class_def)

lemma calc_class_digit: "calc_class ch = 10 \<longleftrightarrow> ex_digit ch"
  by (auto simp: calc_class_def ex_digit_def)

lemma munch_blank: "st = 5 \<or> st = 14 \<Longrightarrow> calc_scanner.munch st ws k = (2, k + length (takeWhile is_blank ws))"
proof (induction ws arbitrary: st k)
  case Nil
  have "calc_acc 5 = 2" "calc_acc 14 = 2" by code_simp+
  then show ?case using Nil by auto
next
  case (Cons ch ws)
  have a: "calc_acc 5 = 2" "calc_acc 14 = 2" by code_simp+
  have "calc_nx st ch = (if is_blank ch then 14 else 16)" using Cons.prems calc_class_blank [of ch] by (auto simp: calc_nx_def)
  then show ?case using Cons.IH [of 14 "k + 1"] Cons.prems a by (auto simp: Let_def)
qed

lemma munch_number: "st = 13 \<or> st = 15 \<Longrightarrow> calc_scanner.munch st ws k = (1, k + length (takeWhile ex_digit ws))"
proof (induction ws arbitrary: st k)
  case Nil
  have "calc_acc 13 = 1" "calc_acc 15 = 1" by code_simp+
  then show ?case using Nil by auto
next
  case (Cons ch ws)
  have a: "calc_acc 13 = 1" "calc_acc 15 = 1" by code_simp+
  have "calc_nx st ch = (if ex_digit ch then 15 else 16)" using Cons.prems calc_class_digit [of ch] by (auto simp: calc_nx_def)
  then show ?case using Cons.IH [of 15 "k + 1"] Cons.prems a by (auto simp: Let_def)
qed

lemma calc_munch:
  "calc_scanner.munch 1 (ch # ws) 0 =
    (if is_blank ch then (2, Suc (length (takeWhile is_blank ws)))
     else if ex_digit ch then (1, Suc (length (takeWhile ex_digit ws)))
     else (calc_acc (calc_class ch + 3), 1))"
proof -
  have nx: "calc_nx 1 ch = calc_class ch + 3" by (simp add: calc_nx_def)
  consider (b) "is_blank ch" | (d) "ex_digit ch" "\<not> is_blank ch" | (o) "\<not> is_blank ch" "\<not> ex_digit ch" by blast
  then show ?thesis
  proof cases
    case b
    then have "calc_nx 1 ch = 5" using nx calc_class_blank [of ch] by simp
    then show ?thesis using b munch_blank [of 5 ws 1] by (simp add: Let_def)
  next
    case d
    then have "calc_nx 1 ch = 13" using nx calc_class_digit [of ch] by simp
    then show ?thesis using d munch_number [of 13 ws 1] by (simp add: Let_def)
  next
    case o
    then have "calc_nx 1 ch \<in> {4, 6, 7, 8, 9, 10, 11, 12}"
      using nx calc_class_cases [of ch] calc_class_blank [of ch] calc_class_digit [of ch] by auto
    then show ?thesis using o nx by (auto simp: Let_def)
  qed
qed

declare calc_scanner.munch.simps [simp del]

text \<open>The next token by the rules of \<^verbatim>\<open>lex_analyzer.l\<close>: blanks are skipped, a number is as long as possible, any other character is itself.\<close>

definition calc_next :: "string \<Rightarrow> (int \<times> int option \<times> string) res" where
  "calc_next inp =
     (case dropWhile is_blank inp of
        [] \<Rightarrow> Inr (0, None, [])
      | c # cs \<Rightarrow>
          if ex_digit c
          then bindE (ex_int (ex_decimal (takeWhile ex_digit (c # cs)))) (\<lambda>n. Inr (NUMBER, Some n, dropWhile ex_digit cs))
          else Inr (schar c, None, cs))"

lemma calc_other_action:
  assumes "\<not> is_blank c" and "\<not> ex_digit c"
  shows "calc_lex_action num (calc_acc (calc_class c + 3)) [c] = Inr (Token (schar c) None)"
proof -
  have "calc_acc 4 = 10" "calc_acc 6 = 9" "calc_acc 7 = 3" "calc_acc 8 = 4" "calc_acc 9 = 7" "calc_acc 10 = 5" "calc_acc 11 = 6" "calc_acc 12 = 8"
    by code_simp+
  then show ?thesis using assms by (simp add: calc_class_def calc_lex_action_def)
qed

lemma atoi_digits:
  assumes "ds \<noteq> []" and "\<forall>c\<in>set ds. ex_digit c"
  shows "ex_atoi ds = ex_int (ex_decimal ds)"
proof -
  obtain c t where ds: "ds = c # t" using assms(1) by (cases ds) auto
  then have "ex_digit c" using assms(2) by simp
  then have c: "c \<notin> {CHR '' '', CHR 0x09, CHR 0x0A, CHR 0x0B, CHR 0x0C, CHR 0x0D}" "c \<noteq> CHR ''-''" "c \<noteq> CHR ''+''"
    by (auto simp: ex_digit_def)
  have "takeWhile ex_digit ds = ds" using assms(2) by simp
  then show ?thesis using c ds by (simp add: ex_atoi_def)
qed

lemma calc_actions:
  "calc_lex_action num 2 ws = Inr (Continue [])"
  "calc_lex_action num 1 ws = bindE (ex_atoi ws) (\<lambda>n. Inr (Token NUMBER (Some (num n))))"
  by (simp_all add: calc_lex_action_def)

lemma yylex_calc:
  assumes "CHR 0x00 \<notin> set inp" and "length inp < k"
  shows "yylex k calc_flex (calc_lex_action num) inp [] =
    bindE (calc_next inp) (\<lambda>(kind, v, rest). Inr (kind, map_option num v, rest, []))"
  using assms
proof (induction k arbitrary: inp)
  case (Suc k)
  note scan = calc_scanner.scan_munch [OF Suc.prems(1), of "length inp"]
  show ?case
  proof (cases inp)
    case Nil
    then show ?thesis using scan by (simp add: calc_next_def)
  next
    case (Cons c cs)
    consider (b) "is_blank c" | (d) "ex_digit c" "\<not> is_blank c" | (o) "\<not> is_blank c" "\<not> ex_digit c" by blast
    then show ?thesis
    proof cases
      case b
      have drop: "drop (length (takeWhile is_blank cs)) cs = dropWhile is_blank cs" by (simp flip: dropWhile_eq_drop)
      have sub: "CHR 0x00 \<notin> set (dropWhile is_blank cs)" "length (dropWhile is_blank cs) < k"
        using Suc.prems Cons length_dropWhile_le [of is_blank cs] by (auto dest: set_dropWhileD)
      have "calc_next (dropWhile is_blank cs) = calc_next inp" using b Cons by (simp add: calc_next_def)
      then show ?thesis using Suc.IH [OF sub] scan b Cons by (simp add: calc_munch calc_actions drop)
    next
      case d
      have "take (length (takeWhile ex_digit cs)) cs = takeWhile ex_digit cs" "drop (length (takeWhile ex_digit cs)) cs = dropWhile ex_digit cs"
        by (simp_all flip: takeWhile_eq_take dropWhile_eq_drop)
      moreover have "ex_atoi (c # takeWhile ex_digit cs) = ex_int (ex_decimal (c # takeWhile ex_digit cs))"
        by (rule atoi_digits) (use d in \<open>auto dest: set_takeWhileD\<close>)
      ultimately show ?thesis using scan d Cons
        by (cases "ex_int (ex_decimal (c # takeWhile ex_digit cs))") (simp_all add: calc_munch calc_actions calc_next_def)
    next
      case o
      then show ?thesis using scan Cons calc_other_action [OF o, of num] by (simp add: calc_munch calc_next_def)
    qed
  qed
qed simp

lemma calc_yylex_ok:
  "CHR 0x00 \<notin> set inp \<Longrightarrow> calc_yylex num inp = bindE (calc_next inp) (\<lambda>(kind, v, rest). Inr (kind, map_option num v, rest, []))"
  unfolding calc_yylex_def by (rule yylex_calc) simp_all

end
