(* ===== verification/Bison.thy ===== *)
theory Bison
  imports Flex
begin

text \<open>
  The parsers of \<^verbatim>\<open>LEXICAL_ANALYZER\<close>: the table-driven engine \<^verbatim>\<open>yyparse\<close> of the generated files
  \<^verbatim>\<open>lex_analyzer.tab.c\<close> and \<^verbatim>\<open>sql_lex.tab.c\<close> (which is the same in both), over a record of tables, the scanner, the actions of the rules and
  \<^verbatim>\<open>yyerror\<close> as arguments.

  The labels of the engine are the definitions \<open>yysetstate\<close>, \<open>yybackup\<close>, \<open>yydefault\<close>, \<open>yyreduce\<close>, \<open>yyerrlab\<close> and \<open>yyerrlab1\<close>. Jumping to
  \<^verbatim>\<open>yynewstate\<close> is the result \<open>NewState\<close>, leaving the function is \<open>Return\<close>. The stacks are lists with the top first; their capacity, which
  grows from 200 to at most 10000, is kept, and whether memory for a larger stack is available is an argument.
\<close>

record bison =
  yytranslate :: "int list"
  yypact :: "int list"
  yydefact :: "int list"
  yypgoto :: "int list"
  yydefgoto :: "int list"
  yytable :: "int list"
  yycheck :: "int list"
  yyr1 :: "int list"
  yyr2 :: "int list"
  YYFINAL :: int
  YYLAST :: int
  YYNTOKENS :: int
  YYMAXUTOK :: int
  YYPACT_NINF :: int

definition YYEMPTY :: int where "YYEMPTY = -2"

definition YYEOF :: int where "YYEOF = 0"

definition YYerror :: int where "YYerror = 256"

definition YYUNDEF :: int where "YYUNDEF = 257"

definition YYSYMBOL_YYerror :: int where "YYSYMBOL_YYerror = 1"

definition YYSYMBOL_YYUNDEF :: int where "YYSYMBOL_YYUNDEF = 2"

definition YYINITDEPTH :: nat where "YYINITDEPTH = 200"

definition YYMAXDEPTH :: nat where "YYMAXDEPTH = 10000"

record 'v yyp =
  yyss :: "int list"
  yyvs :: "'v list"
  yystacksize :: nat
  yychar :: int
  yylval :: 'v
  yyerrstatus :: int
  yynerrs :: int
  yyin :: string
  yyout :: outs
  yystderr :: outs

datatype 'v yygo = NewState int "'v yyp" | Return int "'v yyp"

text \<open>What the generated engine gets from the grammar file: scanner, actions, error report, and the memory.\<close>

record 'v yyenv =
  yytabs :: bison
  yyscan :: "string \<Rightarrow> (int \<times> 'v option \<times> string \<times> outs) res"
  yyaction :: "int \<Rightarrow> 'v list \<Rightarrow> 'v \<Rightarrow> outs \<Rightarrow> ('v \<times> outs) res"
  yyerror :: "string \<Rightarrow> 'v yyp \<Rightarrow> 'v yyp"
  yygarbage :: 'v
  yymem :: "nat \<Rightarrow> bool"

definition YYTRANSLATE :: "bison \<Rightarrow> int \<Rightarrow> int res" where
  "YYTRANSLATE T x = (if 0 \<le> x \<and> x \<le> YYMAXUTOK T then arr_get (yytranslate T) x else Inr YYSYMBOL_YYUNDEF)"

text \<open>The state after a reduction: \<^verbatim>\<open>yypgoto\<close> and the tables, or \<^verbatim>\<open>yydefgoto\<close>.\<close>

definition yygoto :: "bison \<Rightarrow> int \<Rightarrow> int \<Rightarrow> int res" where
  "yygoto T yyn st =
     bindE (arr_get (yyr1 T) yyn) (\<lambda>r1. let yylhs = r1 - YYNTOKENS T in
     bindE (arr_get (yypgoto T) yylhs) (\<lambda>pg. let yyi = pg + st in
       if 0 \<le> yyi \<and> yyi \<le> YYLAST T
       then bindE (arr_get (yycheck T) yyi) (\<lambda>chk.
              if chk = st then arr_get (yytable T) yyi else arr_get (yydefgoto T) yylhs)
       else arr_get (yydefgoto T) yylhs))"

definition yyreduce :: "'v yyenv \<Rightarrow> int \<Rightarrow> 'v yyp \<Rightarrow> 'v yygo res" where
  "yyreduce E yyn s =
     bindE (arr_get (yyr2 (yytabs E)) yyn) (\<lambda>yylen.
     bindE (if yylen = 0 then Inr (yygarbage E) else arr_get (yyvs s) (yylen - 1)) (\<lambda>yyval.
     bindE (yyaction E yyn (yyvs s) yyval (yyout s)) (\<lambda>(yyval, out).
       let ss = drop (nat yylen) (yyss s); vs = yyval # drop (nat yylen) (yyvs s) in
       bindE (arr_get ss 0) (\<lambda>st.
       bindE (yygoto (yytabs E) yyn st) (\<lambda>yystate.
         Inr (NewState yystate (s\<lparr>yyss := ss, yyvs := vs, yyout := out\<rparr>)))))))"

text \<open>The state to which the error token would be shifted (0 for none), and the search for a state that shifts it; the stacks are popped on the way.\<close>

definition yyerr_target :: "bison \<Rightarrow> int \<Rightarrow> int res" where
  "yyerr_target T st =
     bindE (arr_get (yypact T) st) (\<lambda>yyn.
       if yyn \<noteq> YYPACT_NINF T \<and> 0 \<le> yyn + YYSYMBOL_YYerror \<and> yyn + YYSYMBOL_YYerror \<le> YYLAST T
       then bindE (arr_get (yycheck T) (yyn + YYSYMBOL_YYerror)) (\<lambda>chk.
              if chk = YYSYMBOL_YYerror then arr_get (yytable T) (yyn + YYSYMBOL_YYerror) else Inr 0)
       else Inr 0)"

fun yyerr_pop :: "bison \<Rightarrow> int list \<Rightarrow> 'v list \<Rightarrow> (int \<times> int list \<times> 'v list) option res" where
  "yyerr_pop T [] vs = Inl OutOfBounds"
| "yyerr_pop T (st # ss) vs =
     bindE (yyerr_target T st) (\<lambda>target.
       if 0 < target then Inr (Some (target, st # ss, vs))
       else if ss = [] then Inr None
       else yyerr_pop T ss (drop 1 vs))"

definition yyerrlab1 :: "'v yyenv \<Rightarrow> 'v yyp \<Rightarrow> 'v yygo res" where
  "yyerrlab1 E s =
     (let s = s\<lparr>yyerrstatus := 3\<rparr> in
      bindE (yyerr_pop (yytabs E) (yyss s) (yyvs s)) (\<lambda>r.
        case r of
          None \<Rightarrow> Inr (Return 1 s)
        | Some (st, ss, vs) \<Rightarrow> Inr (NewState st (s\<lparr>yyss := ss, yyvs := yylval s # vs\<rparr>))))"

definition yyerrlab :: "'v yyenv \<Rightarrow> 'v yyp \<Rightarrow> 'v yygo res" where
  "yyerrlab E s =
     (let s = (if yyerrstatus s = 0 then yyerror E ''syntax error'' (s\<lparr>yynerrs := yynerrs s + 1\<rparr>) else s) in
      if yyerrstatus s = 3 \<and> yychar s = YYEOF then Inr (Return 1 s)
      else yyerrlab1 E (if yyerrstatus s = 3 \<and> \<not> yychar s \<le> YYEOF then s\<lparr>yychar := YYEMPTY\<rparr> else s))"

definition yydefault :: "'v yyenv \<Rightarrow> int \<Rightarrow> 'v yyp \<Rightarrow> 'v yygo res" where
  "yydefault E st s =
     bindE (arr_get (yydefact (yytabs E)) st) (\<lambda>yyn. if yyn = 0 then yyerrlab E s else yyreduce E yyn s)"

definition yyread :: "'v yyenv \<Rightarrow> 'v yyp \<Rightarrow> 'v yyp res" where
  "yyread E s =
     (if yychar s = YYEMPTY
      then bindE (yyscan E (yyin s)) (\<lambda>(kind, v, rest, out).
             Inr (s\<lparr>yychar := kind, yylval := (case v of None \<Rightarrow> yylval s | Some x \<Rightarrow> x), yyin := rest, yyout := yyout s @ out\<rparr>))
      else Inr s)"

text \<open>The decision on a lookahead symbol.\<close>

definition yydecide :: "'v yyenv \<Rightarrow> int \<Rightarrow> int \<Rightarrow> int \<Rightarrow> 'v yyp \<Rightarrow> 'v yygo res" where
  "yydecide E st pact yytoken s =
     (let T = yytabs E; yyn = pact + yytoken in
      if yyn < 0 \<or> YYLAST T < yyn then yydefault E st s
      else bindE (arr_get (yycheck T) yyn) (\<lambda>chk.
        if chk \<noteq> yytoken then yydefault E st s
        else bindE (arr_get (yytable T) yyn) (\<lambda>yyn.
          if yyn \<le> 0 then yyreduce E (- yyn) s
          else Inr (NewState yyn (s\<lparr>yyerrstatus := (if yyerrstatus s \<noteq> 0 then yyerrstatus s - 1 else 0),
                 yyvs := yylval s # yyvs s, yychar := YYEMPTY\<rparr>)))))"

definition yybackup :: "'v yyenv \<Rightarrow> int \<Rightarrow> 'v yyp \<Rightarrow> 'v yygo res" where
  "yybackup E st s =
     bindE (arr_get (yypact (yytabs E)) st) (\<lambda>pact.
       if pact = YYPACT_NINF (yytabs E) then yydefault E st s
       else bindE (yyread E s) (\<lambda>s.
         if yychar s \<le> YYEOF then yydecide E st pact 0 (s\<lparr>yychar := YYEOF\<rparr>)
         else if yychar s = YYerror then yyerrlab1 E (s\<lparr>yychar := YYUNDEF\<rparr>)
         else bindE (YYTRANSLATE (yytabs E) (yychar s)) (\<lambda>yytoken. yydecide E st pact yytoken s)))"

text \<open>A full stack grows to twice its size, up to the maximum.\<close>

definition yygrow :: "'v yyenv \<Rightarrow> 'v yyp \<Rightarrow> 'v yyp option" where
  "yygrow E s =
     (if yystacksize s \<le> length (yyss s)
      then if YYMAXDEPTH \<le> yystacksize s then None
           else let n = min YYMAXDEPTH (yystacksize s * 2) in
             if yymem E n then Some (s\<lparr>yystacksize := n\<rparr>) else None
      else Some s)"

definition yysetstate :: "'v yyenv \<Rightarrow> int \<Rightarrow> 'v yyp \<Rightarrow> 'v yygo res" where
  "yysetstate E st s =
     (case yygrow E (s\<lparr>yyss := st # yyss s\<rparr>) of
        None \<Rightarrow> Inr (Return 2 (yyerror E ''memory exhausted'' (s\<lparr>yyss := st # yyss s\<rparr>)))
      | Some s \<Rightarrow>
          if yystacksize s \<le> length (yyss s) then Inr (Return 1 s)
          else if st = YYFINAL (yytabs E) then Inr (Return 0 s)
          else yybackup E st s)"

primrec yyloop :: "nat \<Rightarrow> 'v yyenv \<Rightarrow> int \<Rightarrow> 'v yyp \<Rightarrow> (int \<times> 'v yyp) res" where
  "yyloop 0 E st s = Inl Diverges"
| "yyloop (Suc n) E st s =
     bindE (yysetstate E st s) (\<lambda>g. case g of NewState st s \<Rightarrow> yyloop n E st s | Return r s \<Rightarrow> Inr (r, s))"

definition yystart :: "'v yyenv \<Rightarrow> string \<Rightarrow> outs \<Rightarrow> 'v yyp" where
  "yystart E inp out = \<lparr>yyss = [], yyvs = [yygarbage E], yystacksize = YYINITDEPTH, yychar = YYEMPTY, yylval = yygarbage E,
     yyerrstatus = 0, yynerrs = 0, yyin = inp, yyout = out, yystderr = []\<rparr>"

definition yyparse :: "nat \<Rightarrow> 'v yyenv \<Rightarrow> string \<Rightarrow> outs \<Rightarrow> (int \<times> 'v yyp) res" where
  "yyparse fuel E inp out = yyloop fuel E 0 (yystart E inp out)"

section \<open>The engine as an LR automaton\<close>

datatype lr_action = Shift int | Reduce int | Error

text \<open>What the tables say for a state and a symbol.\<close>

definition yydefact_of :: "bison \<Rightarrow> int \<Rightarrow> lr_action res" where
  "yydefact_of T st = bindE (arr_get (yydefact T) st) (\<lambda>n. Inr (if n = 0 then Error else Reduce n))"

definition yyact :: "bison \<Rightarrow> int \<Rightarrow> int \<Rightarrow> lr_action res" where
  "yyact T st a =
     bindE (arr_get (yypact T) st) (\<lambda>p.
       if p = YYPACT_NINF T \<or> p + a < 0 \<or> YYLAST T < p + a then yydefact_of T st
       else bindE (arr_get (yycheck T) (p + a)) (\<lambda>chk.
         if chk \<noteq> a then yydefact_of T st
         else bindE (arr_get (yytable T) (p + a)) (\<lambda>n. Inr (if n \<le> 0 then Reduce (- n) else Shift n))))"

lemma yydecide_act:
  assumes "arr_get (yypact (yytabs E)) st = Inr p" and "p \<noteq> YYPACT_NINF (yytabs E)" and "yyact (yytabs E) st a = Inr act"
  shows "yydecide E st p a s =
    (case act of
       Shift q \<Rightarrow> Inr (NewState q (s\<lparr>yyerrstatus := (if yyerrstatus s \<noteq> 0 then yyerrstatus s - 1 else 0),
                 yyvs := yylval s # yyvs s, yychar := YYEMPTY\<rparr>))
     | Reduce n \<Rightarrow> yyreduce E n s
     | Error \<Rightarrow> yyerrlab E s)"
  using assms by (auto simp: yydecide_def yyact_def yydefact_of_def yydefault_def Let_def bindE_eq_Inr split: if_splits)

lemma yydefault_act:
  assumes "arr_get (yypact (yytabs E)) st = Inr (YYPACT_NINF (yytabs E))" and "yyact (yytabs E) st a = Inr act"
  shows "yydefault E st s = (case act of Shift q \<Rightarrow> Inl Diverges | Reduce n \<Rightarrow> yyreduce E n s | Error \<Rightarrow> yyerrlab E s)"
  using assms by (auto simp: yyact_def yydefact_of_def yydefault_def bindE_eq_Inr split: if_splits)

text \<open>
  The laws a grammar's tables, scanner and error report promise: the tables give the actions \<open>act\<close> on the states \<open>Q\<close>, no state
  shifts the error token, the scanner is \<open>nxt\<close> and returns no token that the engine reserves, and the error report leaves the parser alone.
\<close>

locale bison_parser =
  fixes E :: "'v yyenv" and Q :: "int set" and act :: "int \<Rightarrow> int \<Rightarrow> lr_action" and sym :: "int \<Rightarrow> int"
    and nxt :: "string \<Rightarrow> (int \<times> 'v option \<times> string) res" and ok_inp :: "string \<Rightarrow> bool"
  assumes tables: "\<And>st a. st \<in> Q \<Longrightarrow> a = 0 \<or> (\<exists>k>0. a = sym k) \<Longrightarrow> yyact (yytabs E) st a = Inr (act st a)"
    and symbols: "\<And>k. k > 0 \<Longrightarrow> YYTRANSLATE (yytabs E) k = Inr (sym k)"
    and no_error_token: "\<And>st. st \<in> Q \<Longrightarrow> yyerr_target (yytabs E) st = Inr 0"
    and scanner: "\<And>inp. ok_inp inp \<Longrightarrow> yyscan E inp = bindE (nxt inp) (\<lambda>(k, v, rest). Inr (k, v, rest, []))"
    and scanned: "\<And>inp k v rest. ok_inp inp \<Longrightarrow> nxt inp = Inr (k, v, rest) \<Longrightarrow> ok_inp rest \<and> k \<noteq> YYerror"
    and report: "\<And>m s. yyerrstatus (yyerror E m s) = yyerrstatus s \<and> yyss (yyerror E m s) = yyss s \<and> yyvs (yyerror E m s) = yyvs s"
begin

text \<open>The tokens of an input; a token that is not positive ends it.\<close>

inductive lexes :: "string \<Rightarrow> (int \<times> 'v option) list \<Rightarrow> bool" where
  lexes_end: "ok_inp inp \<Longrightarrow> nxt inp = Inr (k, v, rest) \<Longrightarrow> k \<le> 0 \<Longrightarrow> lexes inp []"
| lexes_token: "ok_inp inp \<Longrightarrow> nxt inp = Inr (k, v, rest) \<Longrightarrow> k > 0 \<Longrightarrow> lexes rest ts \<Longrightarrow> lexes inp ((k, v) # ts)"

definition new_lval :: "'v \<Rightarrow> (int \<times> 'v option) list \<Rightarrow> 'v" where
  "new_lval lv rem = (case rem of (k, Some v) # _ \<Rightarrow> v | _ \<Rightarrow> lv)"

definition head_sym :: "(int \<times> 'v option) list \<Rightarrow> int" where
  "head_sym rem = (case rem of [] \<Rightarrow> 0 | (k, v) # _ \<Rightarrow> sym k)"

text \<open>The tokens still to be shifted, whether or not the first of them has been read as the lookahead.\<close>

definition loaded :: "'v yyp \<Rightarrow> 'v \<Rightarrow> (int \<times> 'v option) list \<Rightarrow> bool" where
  "loaded s lv rem \<longleftrightarrow>
     (case rem of
        [] \<Rightarrow> yychar s = YYEOF
      | (k, v) # ts \<Rightarrow> yychar s = k \<and> k > 0 \<and> k \<noteq> YYerror \<and> yylval s = new_lval lv rem \<and> lexes (yyin s) ts)"

definition reads :: "'v yyp \<Rightarrow> 'v \<Rightarrow> (int \<times> 'v option) list \<Rightarrow> bool" where
  "reads s lv rem \<longleftrightarrow> yychar s = YYEMPTY \<and> yylval s = lv \<and> lexes (yyin s) rem \<or> loaded s lv rem"

definition pend :: "'v yyp \<Rightarrow> int list \<Rightarrow> 'v list \<Rightarrow> (int \<times> 'v option) list \<Rightarrow> 'v \<Rightarrow> outs \<Rightarrow> bool" where
  "pend s ss vs rem lv out \<longleftrightarrow> yyss s = ss \<and> yyvs s = vs \<and> yyout s = out \<and> yyerrstatus s = 0 \<and> yystderr s = [] \<and>
     length ss < yystacksize s \<and> yystacksize s \<le> YYMAXDEPTH \<and> 0 < yystacksize s \<and> reads s lv rem"

lemma pend_start: "lexes inp rem \<Longrightarrow> pend (yystart E inp out) [] [yygarbage E] rem (yygarbage E) out"
  by (simp add: pend_def yystart_def reads_def YYINITDEPTH_def YYMAXDEPTH_def)

lemma grow:
  assumes "length (yyss s) < yystacksize s" and "yystacksize s \<le> YYMAXDEPTH" and "length (yyss s) + 1 < YYMAXDEPTH" and "\<forall>n. yymem E n"
  obtains n where "yygrow E (s\<lparr>yyss := st # yyss s\<rparr>) = Some (s\<lparr>yyss := st # yyss s, yystacksize := n\<rparr>)"
    and "length (yyss s) + 1 < n" and "n \<le> YYMAXDEPTH"
proof (cases "yystacksize s \<le> length (yyss s) + 1")
  case True
  then have eq: "yystacksize s = length (yyss s) + 1" using assms(1) by simp
  let ?n = "min YYMAXDEPTH (yystacksize s * 2)"
  show thesis
  proof (rule that)
    show "yygrow E (s\<lparr>yyss := st # yyss s\<rparr>) = Some (s\<lparr>yyss := st # yyss s, yystacksize := ?n\<rparr>)"
      using eq assms by (simp add: yygrow_def Let_def)
    show "length (yyss s) + 1 < ?n" "?n \<le> YYMAXDEPTH" using eq assms(3) by simp_all
  qed
next
  case False
  show thesis
  proof (rule that)
    show "yygrow E (s\<lparr>yyss := st # yyss s\<rparr>) = Some (s\<lparr>yyss := st # yyss s, yystacksize := yystacksize s\<rparr>)"
      using False assms(1) by (simp add: yygrow_def)
    show "length (yyss s) + 1 < yystacksize s" "yystacksize s \<le> YYMAXDEPTH" using False assms(1,2) by simp_all
  qed
qed

text \<open>Entering a state leaves the tokens and the values alone.\<close>

lemma enter:
  assumes "pend s ss vs rem lv out" and "length ss + 1 < YYMAXDEPTH" and "\<forall>n. yymem E n"
  obtains s' where "pend s' (st # ss) vs rem lv out"
    and "yysetstate E st s = (if st = YYFINAL (yytabs E) then Inr (Return 0 s') else yybackup E st s')"
proof -
  have p: "yyss s = ss" "length (yyss s) < yystacksize s" "yystacksize s \<le> YYMAXDEPTH" using assms(1) by (simp_all add: pend_def)
  obtain n where n: "yygrow E (s\<lparr>yyss := st # yyss s\<rparr>) = Some (s\<lparr>yyss := st # yyss s, yystacksize := n\<rparr>)"
    "length (yyss s) + 1 < n" "n \<le> YYMAXDEPTH" by (rule grow [OF p(2,3)]) (use assms(2,3) p(1) in auto)
  show thesis
  proof (rule that)
    show "pend (s\<lparr>yyss := st # yyss s, yystacksize := n\<rparr>) (st # ss) vs rem lv out"
      using assms(1) n(2,3) p(1) by (simp add: pend_def reads_def loaded_def cong: list.case_cong)
    show "yysetstate E st s = (if st = YYFINAL (yytabs E) then Inr (Return 0 (s\<lparr>yyss := st # yyss s, yystacksize := n\<rparr>))
        else yybackup E st (s\<lparr>yyss := st # yyss s, yystacksize := n\<rparr>))"
      using n by (simp add: yysetstate_def)
  qed
qed

lemma read:
  assumes "pend s ss vs rem lv out"
  obtains s' where "yyread E s = Inr s'" and "rem = [] \<Longrightarrow> yychar s' \<le> YYEOF" and "pend (if rem = [] then s'\<lparr>yychar := YYEOF\<rparr> else s') ss vs rem lv out"
    and "loaded (if rem = [] then s'\<lparr>yychar := YYEOF\<rparr> else s') lv rem"
proof (cases "loaded s lv rem")
  case True
  then have c: "yychar s \<noteq> YYEMPTY" by (auto simp: loaded_def YYEMPTY_def YYEOF_def split: list.splits)
  show thesis by (rule that [of s]) (use c True assms in \<open>auto simp: yyread_def loaded_def pend_def reads_def split: list.splits\<close>)
next
  case False
  then have c: "yychar s = YYEMPTY" "yylval s = lv" "lexes (yyin s) rem" using assms by (auto simp: pend_def reads_def)
  from c(3) show thesis
  proof cases
    case (lexes_end k v rest)
    have "yyscan E (yyin s) = Inr (k, v, rest, [])" using scanner [OF lexes_end(2)] lexes_end(3) by simp
    then have "yyread E s = Inr (s\<lparr>yychar := k, yylval := (case v of None \<Rightarrow> yylval s | Some x \<Rightarrow> x), yyin := rest, yyout := yyout s @ []\<rparr>)"
      using c(1) by (simp add: yyread_def)
    then show thesis by (rule that) (use lexes_end assms in \<open>auto simp: pend_def reads_def loaded_def YYEOF_def\<close>)
  next
    case (lexes_token k v rest ts)
    have k: "k \<noteq> YYerror" using scanned [OF lexes_token(2,3)] by simp
    have "yyscan E (yyin s) = Inr (k, v, rest, [])" using scanner [OF lexes_token(2)] lexes_token(3) by simp
    then have "yyread E s = Inr (s\<lparr>yychar := k, yylval := (case v of None \<Rightarrow> yylval s | Some x \<Rightarrow> x), yyin := rest, yyout := yyout s @ []\<rparr>)"
      using c(1) by (simp add: yyread_def)
    then show thesis
      by (rule that) (use lexes_token k c(2) assms in \<open>auto simp: pend_def reads_def loaded_def new_lval_def split: option.splits\<close>)
  qed
qed

text \<open>In a state of the automaton the engine takes the action of the tables on the next symbol.\<close>

lemma backup:
  assumes "pend s ss vs rem lv out" and "st \<in> Q"
  obtains s' where "pend s' ss vs rem lv out" and "\<And>q. act st (head_sym rem) = Shift q \<Longrightarrow> loaded s' lv rem"
    and "yybackup E st s = (case act st (head_sym rem) of
       Shift q \<Rightarrow> Inr (NewState q (s'\<lparr>yyerrstatus := 0, yyvs := yylval s' # yyvs s', yychar := YYEMPTY\<rparr>))
     | Reduce n \<Rightarrow> yyreduce E n s'
     | Error \<Rightarrow> yyerrlab E s')"
proof -
  let ?T = "yytabs E" and ?a = "head_sym rem"
  have symb: "?a = 0 \<or> (\<exists>k>0. ?a = sym k)"
    using assms(1) by (auto simp: head_sym_def pend_def reads_def loaded_def elim: lexes.cases split: list.splits)
  have tab: "yyact ?T st ?a = Inr (act st ?a)" using tables [OF assms(2) symb] .
  then obtain p where p: "arr_get (yypact ?T) st = Inr p" by (auto simp: yyact_def bindE_eq_Inr)
  show thesis
  proof (cases "p = YYPACT_NINF ?T")
    case True
    then have df: "yybackup E st s = yydefault E st s" using p by (simp add: yybackup_def)
    have "act st ?a \<noteq> Shift q" for q using tab p True by (auto simp: yyact_def yydefact_of_def bindE_eq_Inr split: if_splits)
    then show thesis using that [OF assms(1)] df yydefault_act [OF _ tab] p True by (cases "act st ?a") auto
  next
    case False
    from assms(1) obtain s1 where s1: "yyread E s = Inr s1" "rem = [] \<Longrightarrow> yychar s1 \<le> YYEOF"
      "pend (if rem = [] then s1\<lparr>yychar := YYEOF\<rparr> else s1) ss vs rem lv out" "loaded (if rem = [] then s1\<lparr>yychar := YYEOF\<rparr> else s1) lv rem"
      by (rule read) blast
    define s2 where "s2 = (if rem = [] then s1\<lparr>yychar := YYEOF\<rparr> else s1)"
    have s2: "pend s2 ss vs rem lv out" "loaded s2 lv rem" using s1(3,4) by (simp_all only: s2_def)
    have "yybackup E st s = yydecide E st p ?a s2"
    proof (cases rem)
      case Nil
      then show ?thesis using p False s1(1,2) by (simp add: yybackup_def head_sym_def s2_def)
    next
      case (Cons t ts)
      obtain k v where t: "t = (k, v)" by (cases t)
      then have "yychar s1 = k" "k > 0" "k \<noteq> YYerror" using s1(4) Cons by (simp_all add: loaded_def)
      then show ?thesis using p False s1(1) Cons t symbols [of k] by (simp add: yybackup_def head_sym_def YYEOF_def s2_def)
    qed
    also have "\<dots> = (case act st ?a of
       Shift q \<Rightarrow> Inr (NewState q (s2\<lparr>yyerrstatus := 0, yyvs := yylval s2 # yyvs s2, yychar := YYEMPTY\<rparr>))
     | Reduce n \<Rightarrow> yyreduce E n s2
     | Error \<Rightarrow> yyerrlab E s2)"
      using yydecide_act [OF p False tab, of s2] s2(1) by (simp add: pend_def)
    finally show thesis by (rule that [OF s2(1) s2(2)])
  qed
qed

subsection \<open>Steps\<close>

lemma shift_step:
  assumes "pend s ss vs ((k, v) # rem) lv out" and "length ss + 1 < YYMAXDEPTH" and "\<forall>n. yymem E n"
    and "st \<in> Q" and "st \<noteq> YYFINAL (yytabs E)" and "act st (sym k) = Shift q"
  obtains s' where "yysetstate E st s = Inr (NewState q s')"
    and "pend s' (st # ss) (new_lval lv [(k, v)] # vs) rem (new_lval lv [(k, v)]) out"
proof -
  from assms(1-3) obtain s1 where s1: "pend s1 (st # ss) vs ((k, v) # rem) lv out"
    "yysetstate E st s = (if st = YYFINAL (yytabs E) then Inr (Return 0 s1) else yybackup E st s1)" by (rule enter)
  obtain s2 where s2: "pend s2 (st # ss) vs ((k, v) # rem) lv out" "loaded s2 lv ((k, v) # rem)"
    "yybackup E st s1 = Inr (NewState q (s2\<lparr>yyerrstatus := 0, yyvs := yylval s2 # yyvs s2, yychar := YYEMPTY\<rparr>))"
    by (rule backup [OF s1(1) assms(4)]) (use assms(6) in \<open>auto simp: head_sym_def\<close>)
  show thesis
    by (rule that [of "s2\<lparr>yyerrstatus := 0, yyvs := yylval s2 # yyvs s2, yychar := YYEMPTY\<rparr>"])
      (use s1(2) s2 assms(5) in \<open>auto simp: pend_def reads_def loaded_def new_lval_def split: option.splits\<close>)
qed

lemma accept_step:
  assumes "pend s ss vs [] lv out" and "length ss + 2 < YYMAXDEPTH" and "\<forall>n. yymem E n"
    and "st \<in> Q" and "st \<noteq> YYFINAL (yytabs E)" and "act st 0 = Shift (YYFINAL (yytabs E))"
  obtains s1 s2 where "yysetstate E st s = Inr (NewState (YYFINAL (yytabs E)) s1)"
    and "yysetstate E (YYFINAL (yytabs E)) s1 = Inr (Return 0 s2)" and "yyout s2 = out" and "yystderr s2 = []"
proof -
  from assms(1) _ assms(3) obtain s1 where s1: "pend s1 (st # ss) vs [] lv out"
    "yysetstate E st s = (if st = YYFINAL (yytabs E) then Inr (Return 0 s1) else yybackup E st s1)"
    by (rule enter) (use assms(2) in simp)
  obtain s2 where s2: "pend s2 (st # ss) vs [] lv out"
    "yybackup E st s1 = Inr (NewState (YYFINAL (yytabs E)) (s2\<lparr>yyerrstatus := 0, yyvs := yylval s2 # yyvs s2, yychar := YYEMPTY\<rparr>))"
    by (rule backup [OF s1(1) assms(4)]) (use assms(6) in \<open>auto simp: head_sym_def\<close>)
  let ?s = "s2\<lparr>yyerrstatus := 0, yyvs := yylval s2 # yyvs s2, yychar := YYEMPTY\<rparr>"
  have p: "yyss ?s = st # ss" "length (yyss ?s) < yystacksize ?s" "yystacksize ?s \<le> YYMAXDEPTH" using s2(1) by (simp_all add: pend_def)
  obtain n where n: "yygrow E (?s\<lparr>yyss := YYFINAL (yytabs E) # yyss ?s\<rparr>) = Some (?s\<lparr>yyss := YYFINAL (yytabs E) # yyss ?s, yystacksize := n\<rparr>)"
    "length (yyss ?s) + 1 < n" by (rule grow [OF p(2,3)]) (use assms(2,3) p(1) in auto)
  then have "yysetstate E (YYFINAL (yytabs E)) ?s = Inr (Return 0 (?s\<lparr>yyss := YYFINAL (yytabs E) # yyss ?s, yystacksize := n\<rparr>))"
    by (simp add: yysetstate_def)
  then show thesis by (rule that [rotated]) (use s1(2) s2 assms(5) in \<open>auto simp: pend_def\<close>)
qed

lemma reduce_step:
  assumes "pend s ss vs rem lv out" and "length ss + 1 < YYMAXDEPTH" and "\<forall>n. yymem E n"
    and "st \<in> Q" and "st \<noteq> YYFINAL (yytabs E)" and "act st (head_sym rem) = Reduce r"
    and "arr_get (yyr2 (yytabs E)) r = Inr (int l)" and "l = 0 \<or> l \<le> length vs"
    and "drop l (st # ss) = p # ps" and "yygoto (yytabs E) r p = Inr q"
    and "yyaction E r vs (if l = 0 then yygarbage E else vs ! (l - 1)) out = Inr (v, out')"
  obtains s' where "yysetstate E st s = Inr (NewState q s')"
    and "pend s' (p # ps) (v # drop l vs) rem lv out'"
proof -
  from assms(1-3) obtain s1 where s1: "pend s1 (st # ss) vs rem lv out"
    "yysetstate E st s = (if st = YYFINAL (yytabs E) then Inr (Return 0 s1) else yybackup E st s1)" by (rule enter)
  obtain s2 where s2: "pend s2 (st # ss) vs rem lv out" "yybackup E st s1 = yyreduce E r s2"
    by (rule backup [OF s1(1) assms(4)]) (use assms(6) in auto)
  have get: "(if int l = 0 then Inr (yygarbage E) else arr_get vs (int l - 1)) = Inr (if l = 0 then yygarbage E else vs ! (l - 1))"
    using assms(8) by (auto simp: nat_diff_distrib)
  have "length (p # ps) \<le> length (st # ss)" using assms(9) by (metis length_drop diff_le_self)
  then have "yyreduce E r s2 = Inr (NewState q (s2\<lparr>yyss := p # ps, yyvs := v # drop l vs, yyout := out'\<rparr>))"
    and "pend (s2\<lparr>yyss := p # ps, yyvs := v # drop l vs, yyout := out'\<rparr>) (p # ps) (v # drop l vs) rem lv out'"
    using s2(1) assms(7,9-11) get by (auto simp: yyreduce_def pend_def reads_def loaded_def Let_def cong: list.case_cong if_cong)
  then show thesis using that s1(2) s2(2) assms(5) by simp
qed

lemma fault_step:
  assumes "pend s ss vs rem lv out" and "length ss + 1 < YYMAXDEPTH" and "\<forall>n. yymem E n"
    and "st \<in> Q" and "st \<noteq> YYFINAL (yytabs E)" and "act st (head_sym rem) = Reduce r"
    and "arr_get (yyr2 (yytabs E)) r = Inr (int l)" and "l = 0 \<or> l \<le> length vs"
    and "yyaction E r vs (if l = 0 then yygarbage E else vs ! (l - 1)) out = Inl f"
  shows "yysetstate E st s = Inl f"
proof -
  from assms(1-3) obtain s1 where s1: "pend s1 (st # ss) vs rem lv out"
    "yysetstate E st s = (if st = YYFINAL (yytabs E) then Inr (Return 0 s1) else yybackup E st s1)" by (rule enter)
  obtain s2 where s2: "pend s2 (st # ss) vs rem lv out" "yybackup E st s1 = yyreduce E r s2"
    by (rule backup [OF s1(1) assms(4)]) (use assms(6) in auto)
  have get: "(if int l = 0 then Inr (yygarbage E) else arr_get vs (int l - 1)) = Inr (if l = 0 then yygarbage E else vs ! (l - 1))"
    using assms(8) by (auto simp: nat_diff_distrib)
  show ?thesis using s1(2) s2 assms(5,7,9) get by (simp add: yyreduce_def pend_def cong: if_cong)
qed

lemma pop_all: "set ss \<subseteq> Q \<Longrightarrow> ss \<noteq> [] \<Longrightarrow> yyerr_pop (yytabs E) ss vs = Inr None"
  by (induction ss arbitrary: vs) (auto simp: no_error_token)

lemma error_step:
  assumes "pend s ss vs rem lv out" and "length ss + 1 < YYMAXDEPTH" and "\<forall>n. yymem E n"
    and "st \<in> Q" and "set ss \<subseteq> Q" and "st \<noteq> YYFINAL (yytabs E)" and "act st (head_sym rem) = Error"
  obtains s' where "yysetstate E st s = Inr (Return 1 (yyerror E ''syntax error'' s'\<lparr>yyerrstatus := 3\<rparr>))"
    and "yyout s' = out" and "yystderr s' = []"
proof -
  from assms(1-3) obtain s1 where s1: "pend s1 (st # ss) vs rem lv out"
    "yysetstate E st s = (if st = YYFINAL (yytabs E) then Inr (Return 0 s1) else yybackup E st s1)" by (rule enter)
  obtain s2 where s2: "pend s2 (st # ss) vs rem lv out" "yybackup E st s1 = yyerrlab E s2"
    by (rule backup [OF s1(1) assms(4)]) (use assms(7) in auto)
  let ?s = "s2\<lparr>yynerrs := yynerrs s2 + 1\<rparr>"
  have p: "yyerrstatus s2 = 0" "yyss s2 = st # ss" using s2(1) by (simp_all add: pend_def)
  have "yyerr_pop (yytabs E) (st # ss) (yyvs s2) = Inr None" by (rule pop_all) (use assms(4,5) in auto)
  then have "yyerrlab E s2 = Inr (Return 1 (yyerror E ''syntax error'' ?s\<lparr>yyerrstatus := 3\<rparr>))"
    using p report [of "''syntax error''" ?s] by (simp add: yyerrlab_def yyerrlab1_def Let_def)
  then show thesis using that s1(2) s2 assms(6) by (simp add: pend_def)
qed

end

subsection \<open>Runs\<close>

text \<open>One round of the engine from entering a state to entering the next.\<close>

definition yyround :: "'v yyenv \<Rightarrow> int \<times> 'v yyp \<Rightarrow> int \<times> 'v yyp \<Rightarrow> bool" where
  "yyround E c d \<longleftrightarrow> yysetstate E (fst c) (snd c) = Inr (NewState (fst d) (snd d))"

lemma yyloop_round:
  assumes "(yyround E)\<^sup>*\<^sup>* c d" and "yyloop n E (fst c) (snd c) = r" and "r \<noteq> Inl Diverges"
  shows "\<exists>m. yyloop m E (fst d) (snd d) = r"
  using assms
proof (induction rule: rtranclp_induct)
  case (step d e)
  then obtain m where m: "yyloop m E (fst d) (snd d) = r" by blast
  then obtain k where "m = Suc k" using step.prems(2) by (cases m) auto
  then show ?case using m step(2) by (auto simp: yyround_def)
qed blast

end
