(* ===== verification/Calculator.thy ===== *)
theory Calculator
  imports Bison
begin

text \<open>
  The calculator of \<^verbatim>\<open>LEXICAL_ANALYZER\<close>: the grammar and the functions of \<^verbatim>\<open>lex_analyzer.y\<close>, and the tables that the parser
  generated from it (\<^verbatim>\<open>lex_analyzer.tab.c\<close>) runs on. The theorems are about the generated parser with the generated scanner: which texts it accepts and what it prints.
\<close>

datatype cnode = CNull | CNode (cn_op: char) (cn_value: int) cnode cnode

text \<open>The union of semantic values; reading the member that was not stored is a fault.\<close>

datatype cval = CGarbage | CNum int | CTree cnode

definition cv_num :: "cval \<Rightarrow> int res" where
  "cv_num v = (case v of CNum n \<Rightarrow> Inr n | _ \<Rightarrow> Inl Uninitialised)"

definition cv_node :: "cval \<Rightarrow> cnode res" where
  "cv_node v = (case v of CTree t \<Rightarrow> Inr t | _ \<Rightarrow> Inl Uninitialised)"

definition makeNode :: "char \<Rightarrow> cnode \<Rightarrow> cnode \<Rightarrow> cnode" where
  "makeNode oper l r = CNode oper 0 l r"

definition makeLeaf :: "int \<Rightarrow> cnode" where
  "makeLeaf n = CNode CHR 0x00 n CNull CNull"

primrec printTree :: "cnode \<Rightarrow> string" where
  "printTree CNull = []"
| "printTree (CNode oper v l r) =
     (if oper = CHR 0x00 then ex_show v
      else ''('' @ printTree l @ '' '' @ [oper] @ '' '' @ printTree r @ '')'')"

primrec calc_evaluate :: "cnode \<Rightarrow> int res" where
  "calc_evaluate CNull = Inr 0"
| "calc_evaluate (CNode oper v l r) =
     (if oper = CHR 0x00 then Inr v
      else bindE (calc_evaluate l) (\<lambda>leftVal. bindE (calc_evaluate r) (\<lambda>rightVal.
        if oper = CHR ''+'' then ex_int (leftVal + rightVal)
        else if oper = CHR ''-'' then ex_int (leftVal - rightVal)
        else if oper = CHR ''*'' then ex_int (leftVal * rightVal)
        else if oper = CHR ''/'' then (if rightVal \<noteq> 0 then ex_int (leftVal sdiv rightVal) else Inr 0)
        else Inr 0)))"

text \<open>What the action of a line prints.\<close>

definition calc_report :: "cnode \<Rightarrow> outs res" where
  "calc_report root = bindE (calc_evaluate root) (\<lambda>n.
     Inr [Txt ''AST: '', Txt (printTree root), Txt ''\<newline>'', Txt ''Result = '', Num n, Txt ''\<newline>\<newline>''])"

definition calc_bin :: "char \<Rightarrow> cval list \<Rightarrow> outs \<Rightarrow> (cval \<times> outs) res" where
  "calc_bin oper yyvsp out =
     bindE (arr_get yyvsp 2) (\<lambda>v. bindE (cv_node v) (\<lambda>l.
     bindE (arr_get yyvsp 0) (\<lambda>v. bindE (cv_node v) (\<lambda>r. Inr (CTree (makeNode oper l r), out)))))"

definition calc_action :: "int \<Rightarrow> cval list \<Rightarrow> cval \<Rightarrow> outs \<Rightarrow> (cval \<times> outs) res" where
  "calc_action yyn yyvsp yyval out =
     (if yyn = 3
      then bindE (arr_get yyvsp 1) (\<lambda>v. bindE (cv_node v) (\<lambda>root. bindE (calc_report root) (\<lambda>txt. Inr (yyval, out @ txt))))
      else if yyn = 4 then calc_bin CHR ''+'' yyvsp out
      else if yyn = 5 then calc_bin CHR ''-'' yyvsp out
      else if yyn = 6 then bindE (arr_get yyvsp 0) (\<lambda>v. bindE (cv_node v) (\<lambda>t. Inr (CTree t, out)))
      else if yyn = 7 then calc_bin CHR ''*'' yyvsp out
      else if yyn = 8 then calc_bin CHR ''/'' yyvsp out
      else if yyn = 9 then bindE (arr_get yyvsp 0) (\<lambda>v. bindE (cv_node v) (\<lambda>t. Inr (CTree t, out)))
      else if yyn = 10 then bindE (arr_get yyvsp 0) (\<lambda>v. bindE (cv_num v) (\<lambda>n. Inr (CTree (makeLeaf n), out)))
      else if yyn = 11 then bindE (arr_get yyvsp 1) (\<lambda>v. bindE (cv_node v) (\<lambda>t. Inr (CTree t, out)))
      else Inr (yyval, out))"

definition calc_tables :: bison where
  "calc_tables = \<lparr>
     yytranslate = [0] @ replicate 9 2 @ [8] @ replicate 29 2 @ [9, 10, 6, 4, 2, 5, 2, 7] @ replicate 208 2 @ [1, 2, 3],
     yypact = [-4, 0, -4, -4, 1, 7, -1, -4, -3, 1, 1, -4, 1, 1, -4, -1, -1, -4, -4],
     yydefact = [2, 0, 1, 10, 0, 0, 6, 9, 0, 0, 0, 3, 0, 0, 11, 4, 5, 7, 8],
     yypgoto = [-4, -4, 12, 4, 5],
     yydefgoto = [0, 1, 5, 6, 7],
     yytable = [2, 9, 10, 3, 3, 12, 13, 14, 0, 4, 4, 9, 10, 15, 16, 11, 8, 17, 18],
     yycheck = [0, 4, 5, 3, 3, 6, 7, 10, -1, 9, 9, 4, 5, 9, 10, 8, 4, 12, 13],
     yyr1 = [0, 11, 12, 12, 13, 13, 13, 14, 14, 14, 15, 15],
     yyr2 = [0, 2, 0, 3, 3, 3, 1, 3, 3, 1, 1, 3],
     YYFINAL = 2, YYLAST = 18, YYNTOKENS = 11, YYMAXUTOK = 258, YYPACT_NINF = -4\<rparr>"

definition calc_yyerror :: "string \<Rightarrow> cval yyp \<Rightarrow> cval yyp" where
  "calc_yyerror msg s = s\<lparr>yystderr := yystderr s @ [Txt ''Error: '', Txt msg, Txt ''\<newline>'']\<rparr>"

definition calc_env :: "(nat \<Rightarrow> bool) \<Rightarrow> cval yyenv" where
  "calc_env mem = \<lparr>yytabs = calc_tables, yyscan = calc_yylex CNum, yyaction = calc_action, yyerror = calc_yyerror,
     yygarbage = CGarbage, yymem = mem\<rparr>"

text \<open>\<^verbatim>\<open>main\<close> on an input; at most six rounds of the engine for each character are needed.\<close>

definition calc_main :: "(nat \<Rightarrow> bool) \<Rightarrow> string \<Rightarrow> (int \<times> cval yyp) res" where
  "calc_main mem inp = yyparse (6 * length inp + 20) (calc_env mem) inp [Txt ''Enter expressions (Ctrl+D to exit):\<newline>'']"

section \<open>The automaton\<close>

definition calc_act :: "int \<Rightarrow> int \<Rightarrow> lr_action" where
  "calc_act st a =
     (if st = 0 then Reduce 2
      else if st = 1 then if a = 0 then Shift 2 else if a = 3 then Shift 3 else if a = 9 then Shift 4 else Error
      else if st = 2 then Reduce 1
      else if st = 3 then Reduce 10
      else if st \<in> {4, 9, 10, 12, 13} then if a = 3 then Shift 3 else if a = 9 then Shift 4 else Error
      else if st = 5 then if a = 4 then Shift 9 else if a = 5 then Shift 10 else if a = 8 then Shift 11 else Error
      else if st = 8 then if a = 4 then Shift 9 else if a = 5 then Shift 10 else if a = 10 then Shift 14 else Error
      else if st \<in> {6, 15, 16}
      then if a = 6 then Shift 12 else if a = 7 then Shift 13 else Reduce (if st = 6 then 6 else if st = 15 then 4 else 5)
      else Reduce (if st = 7 then 9 else if st = 11 then 3 else if st = 14 then 11 else if st = 17 then 7 else 8))"

definition calc_sym :: "int \<Rightarrow> int" where
  "calc_sym k = (if k = NUMBER then 3 else if k = 43 then 4 else if k = 45 then 5 else if k = 42 then 6 else if k = 47 then 7
     else if k = 10 then 8 else if k = 40 then 9 else if k = 41 then 10 else if k = YYerror then 1 else 2)"

lemma calc_table_act:
  assumes "st \<in> {0..18}" and "a \<in> {0..10}"
  shows "yyact calc_tables st a = Inr (calc_act st a)"
proof -
  have "\<forall>st\<in>set [0..18]. \<forall>a\<in>set [0..10]. yyact calc_tables st a = Inr (calc_act st a)" by code_simp
  then show ?thesis using assms by simp
qed

lemma calc_goto:
  "\<forall>n\<in>set [4, 5, 6]. yygoto calc_tables n 1 = Inr 5 \<and> yygoto calc_tables n 4 = Inr 8"
  "\<forall>n\<in>set [7, 8, 9]. yygoto calc_tables n 1 = Inr 6 \<and> yygoto calc_tables n 4 = Inr 6 \<and> yygoto calc_tables n 9 = Inr 15 \<and> yygoto calc_tables n 10 = Inr 16"
  "\<forall>n\<in>set [10, 11]. (\<forall>p\<in>set [1, 4, 9, 10]. yygoto calc_tables n p = Inr 7) \<and> yygoto calc_tables n 12 = Inr 17 \<and> yygoto calc_tables n 13 = Inr 18"
  "yygoto calc_tables 2 0 = Inr 1" "yygoto calc_tables 3 0 = Inr 1"
  by code_simp+

lemma calc_no_error_token: "st \<in> {0..18} \<Longrightarrow> yyerr_target calc_tables st = Inr 0"
proof -
  have "\<forall>st\<in>set [0..18]. yyerr_target calc_tables st = Inr 0" by code_simp
  then show "st \<in> {0..18} \<Longrightarrow> yyerr_target calc_tables st = Inr 0" by simp
qed

lemma calc_symbols: "0 < k \<Longrightarrow> YYTRANSLATE calc_tables k = Inr (calc_sym k)"
proof -
  assume k: "0 < k"
  show ?thesis
  proof (cases "k \<le> 258")
    case True
    define n where "n = nat k"
    have n: "0 < n" "n \<le> 258" "k = int n" using k True by (simp_all add: n_def)
    have "length (yytranslate calc_tables) = 259" by (simp add: calc_tables_def)
    moreover have "yytranslate calc_tables ! n = calc_sym k"
      using n unfolding n(3) by (simp add: calc_tables_def calc_sym_def nth_append nth_Cons' NUMBER_def YYerror_def) presburger
    ultimately show ?thesis using n by (simp add: YYTRANSLATE_def calc_tables_def)
  next
    case False
    then show ?thesis by (simp add: YYTRANSLATE_def calc_sym_def calc_tables_def NUMBER_def YYerror_def YYSYMBOL_YYUNDEF_def)
  qed
qed

definition calc_nxt :: "string \<Rightarrow> (int \<times> cval option \<times> string) res" where
  "calc_nxt inp = bindE (calc_next inp) (\<lambda>(k, v, rest). Inr (k, map_option CNum v, rest))"

lemma calc_next_rest:
  assumes "calc_next inp = Inr (k, v, rest)"
  shows "set rest \<subseteq> set inp" and "k > 0 \<Longrightarrow> length rest < length inp" and "k = NUMBER \<or> k < 128"
    and "k = NUMBER \<longleftrightarrow> v \<noteq> None"
proof -
  have "set rest \<subseteq> set inp \<and> (k > 0 \<longrightarrow> length rest < length inp) \<and> (k = NUMBER \<or> k < 128) \<and> (k = NUMBER \<longleftrightarrow> v \<noteq> None)"
  proof (cases "dropWhile is_blank inp")
    case Nil
    then show ?thesis using assms unfolding calc_next_def Nil list.case by (simp add: NUMBER_def)
  next
    case (Cons c cs)
    have cs: "set (c # cs) \<subseteq> set inp" "length (c # cs) \<le> length inp"
      unfolding Cons [symmetric] by (auto dest: set_dropWhileD simp: length_dropWhile_le)
    have "length (dropWhile ex_digit cs) \<le> length cs" "set (dropWhile ex_digit cs) \<subseteq> set cs"
      by (auto simp: length_dropWhile_le dest: set_dropWhileD)
    then show ?thesis using assms Cons cs schar_less [of c]
      by (auto simp: calc_next_def NUMBER_def bindE_eq_Inr split: if_splits)
  qed
  then show "set rest \<subseteq> set inp" "k > 0 \<Longrightarrow> length rest < length inp" "k = NUMBER \<or> k < 128" "k = NUMBER \<longleftrightarrow> v \<noteq> None"
    by auto
qed

interpretation calc_parser: bison_parser "calc_env mem" "{0..18}" calc_act calc_sym calc_nxt "\<lambda>inp. CHR 0x00 \<notin> set inp" for mem
proof (unfold_locales, goal_cases)
  case (1 st a)
  then have "a \<in> {0..10}" by (auto simp: calc_sym_def)
  then show ?case using 1 calc_table_act [of st a] by (simp add: calc_env_def)
next
  case (2 k)
  then show ?case using calc_symbols by (simp add: calc_env_def)
next
  case (3 st)
  then show ?case using calc_no_error_token by (simp add: calc_env_def)
next
  case (4 inp)
  then show ?case using calc_yylex_ok [of inp CNum]
    by (cases "calc_next inp") (auto simp: calc_env_def calc_nxt_def split: prod.split)
next
  case (5 inp k v rest)
  then obtain w where "calc_next inp = Inr (k, w, rest)" by (auto simp: calc_nxt_def bindE_eq_Inr)
  from calc_next_rest(1,3) [OF this] show ?case using 5(1) by (auto simp: YYerror_def NUMBER_def)
next
  case (6 m s)
  then show ?case by (simp add: calc_env_def calc_yyerror_def)
qed

section \<open>The grammar\<close>

type_synonym ctok = "int \<times> cval option"

text \<open>The rules of \<^verbatim>\<open>lex_analyzer.y\<close> with the tree that each builds.\<close>

inductive expr_d :: "ctok list \<Rightarrow> cnode \<Rightarrow> bool" and term_d :: "ctok list \<Rightarrow> cnode \<Rightarrow> bool" and factor_d :: "ctok list \<Rightarrow> cnode \<Rightarrow> bool" where
  expr_plus: "expr_d us l \<Longrightarrow> term_d ws r \<Longrightarrow> expr_d (us @ (43, None) # ws) (makeNode CHR ''+'' l r)"
| expr_minus: "expr_d us l \<Longrightarrow> term_d ws r \<Longrightarrow> expr_d (us @ (45, None) # ws) (makeNode CHR ''-'' l r)"
| expr_term: "term_d ws t \<Longrightarrow> expr_d ws t"
| term_times: "term_d us l \<Longrightarrow> factor_d ws r \<Longrightarrow> term_d (us @ (42, None) # ws) (makeNode CHR ''*'' l r)"
| term_div: "term_d us l \<Longrightarrow> factor_d ws r \<Longrightarrow> term_d (us @ (47, None) # ws) (makeNode CHR ''/'' l r)"
| term_factor: "factor_d ws t \<Longrightarrow> term_d ws t"
| factor_number: "factor_d [(NUMBER, Some (CNum n))] (makeLeaf n)"
| factor_paren: "expr_d ws t \<Longrightarrow> factor_d ((40, None) # ws @ [(41, None)]) t"

inductive input_d :: "ctok list \<Rightarrow> cnode list \<Rightarrow> bool" where
  input_empty: "input_d [] []"
| input_line: "input_d us ts \<Longrightarrow> expr_d ws t \<Longrightarrow> input_d (us @ ws @ [(10, None)]) (ts @ [t])"

lemma derivations_nonempty: "expr_d us t \<Longrightarrow> us \<noteq> []" "term_d us t \<Longrightarrow> us \<noteq> []" "factor_d us t \<Longrightarrow> us \<noteq> []"
  by (induction rule: expr_d_term_d_factor_d.inducts) auto

section \<open>The stacks of the parser\<close>

text \<open>
  The stacks that can occur, with the values on them, the tokens behind them and the trees of the lines that are finished: \<open>at_expr\<close>, \<open>at_term\<close> and \<open>at_factor\<close> are those
  on which an expression, a term or a factor may start.
\<close>

definition goto_expr :: "int \<Rightarrow> int" where "goto_expr p = (if p = 1 then 5 else 8)"

definition goto_term :: "int \<Rightarrow> int" where "goto_term p = (if p = 9 then 15 else if p = 10 then 16 else 6)"

definition goto_factor :: "int \<Rightarrow> int" where "goto_factor p = (if p = 12 then 17 else if p = 13 then 18 else 7)"

inductive at_expr :: "int list \<Rightarrow> cval list \<Rightarrow> ctok list \<Rightarrow> cnode list \<Rightarrow> bool"
  and at_term :: "int list \<Rightarrow> cval list \<Rightarrow> ctok list \<Rightarrow> cnode list \<Rightarrow> bool"
  and at_factor :: "int list \<Rightarrow> cval list \<Rightarrow> ctok list \<Rightarrow> cnode list \<Rightarrow> bool" where
  expr_start: "input_d us ls \<Longrightarrow> at_expr [1, 0] [v, w] us ls"
| expr_nested: "at_factor (p # ss) vs us ls \<Longrightarrow> at_expr (4 # p # ss) (v # vs) (us @ [(40, None)]) ls"
| term_start: "at_expr (p # ss) vs us ls \<Longrightarrow> at_term (p # ss) vs us ls"
| term_plus: "at_expr (p # ss) vs us ls \<Longrightarrow> expr_d ws t \<Longrightarrow> at_term (9 # goto_expr p # p # ss) (v # CTree t # vs) (us @ ws @ [(43, None)]) ls"
| term_minus: "at_expr (p # ss) vs us ls \<Longrightarrow> expr_d ws t \<Longrightarrow> at_term (10 # goto_expr p # p # ss) (v # CTree t # vs) (us @ ws @ [(45, None)]) ls"
| factor_start: "at_term (p # ss) vs us ls \<Longrightarrow> at_factor (p # ss) vs us ls"
| factor_times: "at_term (p # ss) vs us ls \<Longrightarrow> term_d ws t \<Longrightarrow> at_factor (12 # goto_term p # p # ss) (v # CTree t # vs) (us @ ws @ [(42, None)]) ls"
| factor_div: "at_term (p # ss) vs us ls \<Longrightarrow> term_d ws t \<Longrightarrow> at_factor (13 # goto_term p # p # ss) (v # CTree t # vs) (us @ ws @ [(47, None)]) ls"

definition height_ok :: "int list \<Rightarrow> cval list \<Rightarrow> ctok list \<Rightarrow> bool" where
  "height_ok ss vs us \<longleftrightarrow> length vs = length ss \<and> length ss \<le> length us + 2 \<and> set ss \<subseteq> {0..18}"

lemma stack_shapes:
  "at_expr ss vs us ls \<Longrightarrow> height_ok ss vs us \<and> hd ss \<in> {1, 4}"
  "at_term ss vs us ls \<Longrightarrow> height_ok ss vs us \<and> hd ss \<in> {1, 4, 9, 10}"
  "at_factor ss vs us ls \<Longrightarrow> height_ok ss vs us \<and> hd ss \<in> {1, 4, 9, 10, 12, 13}"
proof (induction rule: at_expr_at_term_at_factor.inducts)
  case (term_plus p ss vs us ls ws t v)
  then show ?case using derivations_nonempty(1) [of ws t] by (cases ws) (auto simp: height_ok_def goto_expr_def)
next
  case (term_minus p ss vs us ls ws t v)
  then show ?case using derivations_nonempty(1) [of ws t] by (cases ws) (auto simp: height_ok_def goto_expr_def)
next
  case (factor_times p ss vs us ls ws t v)
  then show ?case using derivations_nonempty(2) [of ws t] by (cases ws) (auto simp: height_ok_def goto_term_def)
next
  case (factor_div p ss vs us ls ws t v)
  then show ?case using derivations_nonempty(2) [of ws t] by (cases ws) (auto simp: height_ok_def goto_term_def)
qed (auto simp: height_ok_def)

text \<open>All configurations: one of these stacks, or one with the symbol just shifted or reduced on top.\<close>

inductive conf :: "int list \<Rightarrow> cval list \<Rightarrow> ctok list \<Rightarrow> cnode list \<Rightarrow> bool" where
  conf_init: "conf [0] [v] [] []"
| conf_at: "at_factor (p # ss) vs us ls \<Longrightarrow> conf (p # ss) vs us ls"
| conf_number: "at_factor (p # ss) vs us ls \<Longrightarrow> conf (3 # p # ss) (CNum n # vs) (us @ [(NUMBER, Some (CNum n))]) ls"
| conf_factor: "at_factor (p # ss) vs us ls \<Longrightarrow> factor_d ws t \<Longrightarrow> conf (goto_factor p # p # ss) (CTree t # vs) (us @ ws) ls"
| conf_term: "at_term (p # ss) vs us ls \<Longrightarrow> term_d ws t \<Longrightarrow> conf (goto_term p # p # ss) (CTree t # vs) (us @ ws) ls"
| conf_expr: "at_expr (p # ss) vs us ls \<Longrightarrow> expr_d ws t \<Longrightarrow> conf (goto_expr p # p # ss) (CTree t # vs) (us @ ws) ls"
| conf_close: "at_factor (p # ss) vs us ls \<Longrightarrow> expr_d ws t \<Longrightarrow>
     conf (14 # 8 # 4 # p # ss) (v # CTree t # w # vs) (us @ (40, None) # ws @ [(41, None)]) ls"
| conf_line: "input_d us ls \<Longrightarrow> expr_d ws t \<Longrightarrow> conf [11, 5, 1, 0] [x, CTree t, v, w] (us @ ws @ [(10, None)]) ls"

lemma conf_height: "conf ss vs us ls \<Longrightarrow> height_ok ss vs us \<and> ss \<noteq> [] \<and> hd ss \<noteq> 2"
proof (induction rule: conf.induct)
  case (conf_factor p ss vs us ls ws t)
  then show ?case using stack_shapes(3) [OF conf_factor(1)] derivations_nonempty(3) [of ws t]
    by (cases ws) (auto simp: height_ok_def goto_factor_def)
next
  case (conf_term p ss vs us ls ws t)
  then show ?case using stack_shapes(2) [OF conf_term(1)] derivations_nonempty(2) [of ws t]
    by (cases ws) (auto simp: height_ok_def goto_term_def)
next
  case (conf_expr p ss vs us ls ws t)
  then show ?case using stack_shapes(1) [OF conf_expr(1)] derivations_nonempty(1) [of ws t]
    by (cases ws) (auto simp: height_ok_def goto_expr_def)
next
  case (conf_close p ss vs us ls ws t v w)
  then show ?case using stack_shapes(3) [OF conf_close(1)] derivations_nonempty(1) [of ws t]
    by (cases ws) (auto simp: height_ok_def)
next
  case (conf_line us ls ws t x v w)
  then show ?case using derivations_nonempty(1) [of ws t] by (cases ws) (auto simp: height_ok_def)
next
  case (conf_at p ss vs us ls)
  then show ?case using stack_shapes(3) [OF conf_at] by auto
next
  case (conf_number p ss vs us ls n)
  then show ?case using stack_shapes(3) [OF conf_number] by (auto simp: height_ok_def)
qed (auto simp: height_ok_def)

section \<open>The steps of the parser\<close>

abbreviation cE :: "cval yyenv" where "cE \<equiv> calc_env (\<lambda>n. True)"

lemma cE_fields [simp]:
  "yytabs (calc_env mem) = calc_tables" "yyaction (calc_env mem) = calc_action" "yygarbage (calc_env mem) = CGarbage"
  "yymem (calc_env mem) = mem" "YYFINAL calc_tables = 2" "yyerror (calc_env mem) = calc_yyerror"
  by (simp_all add: calc_env_def calc_tables_def)

lemma calc_r2:
  "arr_get (yyr2 calc_tables) 2 = Inr (int 0)" "arr_get (yyr2 calc_tables) 3 = Inr (int 3)" "arr_get (yyr2 calc_tables) 4 = Inr (int 3)"
  "arr_get (yyr2 calc_tables) 5 = Inr (int 3)" "arr_get (yyr2 calc_tables) 6 = Inr (int 1)" "arr_get (yyr2 calc_tables) 7 = Inr (int 3)"
  "arr_get (yyr2 calc_tables) 8 = Inr (int 3)" "arr_get (yyr2 calc_tables) 9 = Inr (int 1)" "arr_get (yyr2 calc_tables) 10 = Inr (int 1)"
  "arr_get (yyr2 calc_tables) 11 = Inr (int 3)"
  by (simp_all add: calc_tables_def)

text \<open>Shifting a token, and reducing a rule, in the form the grammar needs.\<close>

lemma shift:
  assumes "calc_parser.pend s ss vs ((k, v) # rem) lv out" and "length ss + 1 < YYMAXDEPTH" and "st \<in> {0..18}" and "st \<noteq> 2"
    and "calc_act st (calc_sym k) = Shift q"
  obtains s' lv' where "yyround cE (st, s) (q, s')" and "calc_parser.pend s' (st # ss) (lv' # vs) rem lv' out" and "v = Some x \<Longrightarrow> lv' = x"
proof -
  obtain s' where "yysetstate cE st s = Inr (NewState q s')"
    "calc_parser.pend s' (st # ss) (calc_parser.new_lval lv [(k, v)] # vs) rem (calc_parser.new_lval lv [(k, v)]) out"
    by (rule calc_parser.shift_step [where mem = "\<lambda>n. True", OF assms(1,2) _ assms(3) _ assms(5)]) (use assms(4) in auto)
  then show thesis
    by (intro that [of s' "calc_parser.new_lval lv [(k, v)]"]) (auto simp: yyround_def calc_parser.new_lval_def)
qed

lemma reduce:
  assumes "calc_parser.pend s ss vs rem lv out" and "length ss + 1 < YYMAXDEPTH" and "st \<in> {0..18}" and "st \<noteq> 2"
    and "calc_act st (calc_parser.head_sym rem) = Reduce r" and "arr_get (yyr2 calc_tables) r = Inr (int l)" and "l \<le> length vs"
    and "drop l (st # ss) = p # ps" and "yygoto calc_tables r p = Inr q"
    and "calc_action r vs (if l = 0 then CGarbage else vs ! (l - 1)) out = Inr (v, out')"
  obtains s' where "yyround cE (st, s) (q, s')" and "calc_parser.pend s' (p # ps) (v # drop l vs) rem lv out'"
proof -
  obtain s' where "yysetstate cE st s = Inr (NewState q s')" "calc_parser.pend s' (p # ps) (v # drop l vs) rem lv out'"
    by (rule calc_parser.reduce_step [where mem = "\<lambda>n. True", OF assms(1,2) _ assms(3) _ assms(5)]) (use assms in auto)
  then show thesis by (intro that) (auto simp: yyround_def)
qed

lemma shift_number:
  assumes "calc_parser.pend s ss vs ((NUMBER, Some x) # rem) lv out" and "length ss + 1 < YYMAXDEPTH" and "p \<in> {1, 4, 9, 10, 12, 13}"
  obtains s' lv' where "yyround cE (p, s) (3, s')" and "calc_parser.pend s' (p # ss) (x # vs) rem lv' out"
  by (rule shift [OF assms(1,2), of p 3]) (use assms(3) that in \<open>auto simp: calc_act_def calc_sym_def\<close>)

lemma shift_open:
  assumes "calc_parser.pend s ss vs ((40, None) # rem) lv out" and "length ss + 1 < YYMAXDEPTH" and "p \<in> {1, 4, 9, 10, 12, 13}"
  obtains s' lv' where "yyround cE (p, s) (4, s')" and "calc_parser.pend s' (p # ss) (lv' # vs) rem lv' out"
  by (rule shift [OF assms(1,2), of p 4]) (use assms(3) that in \<open>auto simp: calc_act_def calc_sym_def NUMBER_def\<close>)

lemma shift_times:
  assumes "calc_parser.pend s ss vs ((k, None) # rem) lv out" and "length ss + 1 < YYMAXDEPTH" and "k = 42 \<and> q = 12 \<or> k = 47 \<and> q = 13"
  obtains s' lv' where "yyround cE (goto_term p, s) (q, s')" and "calc_parser.pend s' (goto_term p # ss) (lv' # vs) rem lv' out"
  by (rule shift [OF assms(1,2), of "goto_term p" q]) (use assms(3) that in \<open>auto simp: calc_act_def calc_sym_def goto_term_def NUMBER_def\<close>)

lemma shift_plus:
  assumes "calc_parser.pend s ss vs ((k, None) # rem) lv out" and "length ss + 1 < YYMAXDEPTH" and "k = 43 \<and> q = 9 \<or> k = 45 \<and> q = 10"
  obtains s' lv' where "yyround cE (goto_expr p, s) (q, s')" and "calc_parser.pend s' (goto_expr p # ss) (lv' # vs) rem lv' out"
  by (rule shift [OF assms(1,2), of "goto_expr p" q]) (use assms(3) that in \<open>auto simp: calc_act_def calc_sym_def goto_expr_def NUMBER_def\<close>)

lemma shift_close:
  assumes "calc_parser.pend s ss vs ((41, None) # rem) lv out" and "length ss + 1 < YYMAXDEPTH"
  obtains s' lv' where "yyround cE (8, s) (14, s')" and "calc_parser.pend s' (8 # ss) (lv' # vs) rem lv' out"
  by (rule shift [OF assms(1,2), of 8 14]) (use that in \<open>auto simp: calc_act_def calc_sym_def NUMBER_def\<close>)

lemma shift_newline:
  assumes "calc_parser.pend s ss vs ((10, None) # rem) lv out" and "length ss + 1 < YYMAXDEPTH"
  obtains s' lv' where "yyround cE (5, s) (11, s')" and "calc_parser.pend s' (5 # ss) (lv' # vs) rem lv' out"
  by (rule shift [OF assms(1,2), of 5 11]) (use that in \<open>auto simp: calc_act_def calc_sym_def NUMBER_def\<close>)

lemma reduce_init:
  assumes "calc_parser.pend s [] [v] rem lv out"
  obtains s' w where "yyround cE (0, s) (1, s')" and "calc_parser.pend s' [0] [w, v] rem lv out"
  by (rule reduce [OF assms, of 0 2 0 0 "[]" 1 CGarbage out])
    (use that in \<open>auto simp: calc_act_def calc_r2 calc_goto calc_action_def YYMAXDEPTH_def\<close>)

lemma reduce_number:
  assumes "calc_parser.pend s (p # ss) (CNum n # vs) rem lv out" and "length ss + 2 < YYMAXDEPTH" and "p \<in> {1, 4, 9, 10, 12, 13}"
  obtains s' where "yyround cE (3, s) (goto_factor p, s')" and "calc_parser.pend s' (p # ss) (CTree (makeLeaf n) # vs) rem lv out"
  by (rule reduce [OF assms(1), of 3 10 1 p ss "goto_factor p" "CTree (makeLeaf n)" out])
    (use assms(2,3) that calc_goto(3) in \<open>auto simp: calc_act_def calc_r2 calc_action_def goto_factor_def cv_num_def\<close>)

lemma reduce_factor:
  assumes "calc_parser.pend s (p # ss) (CTree t # vs) rem lv out" and "length ss + 2 < YYMAXDEPTH" and "p \<in> {1, 4, 9, 10}"
  obtains s' where "yyround cE (goto_factor p, s) (goto_term p, s')" and "calc_parser.pend s' (p # ss) (CTree t # vs) rem lv out"
  by (rule reduce [OF assms(1), of "goto_factor p" 9 1 p ss "goto_term p" "CTree t" out])
    (use assms(2,3) that calc_goto(2) in \<open>auto simp: calc_act_def calc_r2 calc_action_def goto_factor_def goto_term_def cv_node_def\<close>)

lemma reduce_product:
  assumes "calc_parser.pend s (q # u # p # ss) (CTree r # x # CTree l # vs) rem lv out" and "length ss + 4 < YYMAXDEPTH" and "p \<in> {1, 4, 9, 10}"
    and "q = 12 \<and> oper = CHR ''*'' \<or> q = 13 \<and> oper = CHR ''/''"
  obtains s' where "yyround cE (goto_factor q, s) (goto_term p, s')" and "calc_parser.pend s' (p # ss) (CTree (makeNode oper l r) # vs) rem lv out"
  by (rule reduce [OF assms(1), of "goto_factor q" "if q = 12 then 7 else 8" 3 p ss "goto_term p" "CTree (makeNode oper l r)" out])
    (use assms(2-4) that calc_goto(2) in \<open>auto simp: calc_act_def calc_r2 calc_action_def calc_bin_def goto_factor_def goto_term_def cv_node_def\<close>)

lemma reduce_term:
  assumes "calc_parser.pend s (p # ss) (CTree t # vs) rem lv out" and "length ss + 2 < YYMAXDEPTH" and "p \<in> {1, 4}"
    and "calc_parser.head_sym rem \<notin> {6, 7}"
  obtains s' where "yyround cE (goto_term p, s) (goto_expr p, s')" and "calc_parser.pend s' (p # ss) (CTree t # vs) rem lv out"
  by (rule reduce [OF assms(1), of "goto_term p" 6 1 p ss "goto_expr p" "CTree t" out])
    (use assms(2-4) that calc_goto(1) in \<open>auto simp: calc_act_def calc_r2 calc_action_def goto_expr_def goto_term_def cv_node_def\<close>)

lemma reduce_sum:
  assumes "calc_parser.pend s (q # u # p # ss) (CTree r # x # CTree l # vs) rem lv out" and "length ss + 4 < YYMAXDEPTH" and "p \<in> {1, 4}"
    and "q = 9 \<and> oper = CHR ''+'' \<or> q = 10 \<and> oper = CHR ''-''" and "calc_parser.head_sym rem \<notin> {6, 7}"
  obtains s' where "yyround cE (goto_term q, s) (goto_expr p, s')" and "calc_parser.pend s' (p # ss) (CTree (makeNode oper l r) # vs) rem lv out"
  by (rule reduce [OF assms(1), of "goto_term q" "if q = 9 then 4 else 5" 3 p ss "goto_expr p" "CTree (makeNode oper l r)" out])
    (use assms(2-5) that calc_goto(1) in \<open>auto simp: calc_act_def calc_r2 calc_action_def calc_bin_def goto_expr_def goto_term_def cv_node_def\<close>)

lemma reduce_paren:
  assumes "calc_parser.pend s (u # w # p # ss) (x # CTree t # y # vs) rem lv out" and "length ss + 4 < YYMAXDEPTH" and "p \<in> {1, 4, 9, 10, 12, 13}"
  obtains s' where "yyround cE (14, s) (goto_factor p, s')" and "calc_parser.pend s' (p # ss) (CTree t # vs) rem lv out"
  by (rule reduce [OF assms(1), of 14 11 3 p ss "goto_factor p" "CTree t" out])
    (use assms(2,3) that calc_goto(3) in \<open>auto simp: calc_act_def calc_r2 calc_action_def goto_factor_def cv_node_def\<close>)

lemma reduce_line:
  assumes "calc_parser.pend s [u, p, 0] [x, CTree t, v, w] rem lv out" and "calc_report t = Inr txt'"
  obtains s' where "yyround cE (11, s) (1, s')" and "calc_parser.pend s' [0] [v, w] rem lv (out @ txt')"
  by (rule reduce [OF assms(1), of 11 3 3 0 "[]" 1 v "out @ txt'"])
    (use assms(2) that calc_goto(5) in \<open>auto simp: calc_act_def calc_r2 calc_action_def cv_node_def YYMAXDEPTH_def\<close>)

lemma fault_line:
  assumes "calc_parser.pend s [u, p, 0] [x, CTree t, v, w] rem lv out" and "calc_report t = Inl f"
  shows "yysetstate cE 11 s = Inl f"
  by (rule calc_parser.fault_step [where mem = "\<lambda>n. True", OF assms(1), of 11 3 3])
    (use assms(2) in \<open>auto simp: calc_act_def calc_r2 calc_action_def cv_node_def YYMAXDEPTH_def\<close>)

section \<open>Every run ends, with the trees of the grammar\<close>

inductive_cases at_factor_inv: "at_factor ss vs us ls"
inductive_cases at_term_inv: "at_term ss vs us ls"
inductive_cases at_expr_inv: "at_expr ss vs us ls"

lemma at_factor_cases:
  assumes "at_factor (p # ss) vs us ls"
  obtains (base) "p \<in> {1, 4, 9, 10}" "at_term (p # ss) vs us ls"
  | (oper) q ss' vs' us' ws l v k oper where "p = 12 \<and> k = 42 \<and> oper = CHR ''*'' \<or> p = 13 \<and> k = 47 \<and> oper = CHR ''/''" "ss = goto_term q # q # ss'"
      "vs = v # CTree l # vs'" "us = us' @ ws @ [(k, None)]" "at_term (q # ss') vs' us' ls" "term_d ws l"
  using assms stack_shapes(2) by (elim at_factor_inv) fastforce+

lemma at_term_cases:
  assumes "at_term (p # ss) vs us ls"
  obtains (base) "p \<in> {1, 4}" "at_expr (p # ss) vs us ls"
  | (oper) q ss' vs' us' ws l v k oper where "p = 9 \<and> k = 43 \<and> oper = CHR ''+'' \<or> p = 10 \<and> k = 45 \<and> oper = CHR ''-''" "ss = goto_expr q # q # ss'"
      "vs = v # CTree l # vs'" "us = us' @ ws @ [(k, None)]" "at_expr (q # ss') vs' us' ls" "expr_d ws l"
  using assms stack_shapes(1) by (elim at_term_inv) fastforce+

lemma at_expr_cases:
  assumes "at_expr (p # ss) vs us ls"
  obtains (line) v w where "p = 1" "ss = [0]" "vs = [v, w]" "input_d us ls"
  | (nested) q ss' v vs' us' where "p = 4" "ss = q # ss'" "vs = v # vs'" "us = us' @ [(40, None)]" "at_factor (q # ss') vs' us' ls"
  using assms by (elim at_expr_inv) auto

text \<open>Each round makes a weighted sum of the tokens ahead and the symbols on the stack smaller.\<close>

definition state_weight :: "int \<Rightarrow> nat" where
  "state_weight st = (if st = 3 then 4 else if st \<in> {7, 17, 18} then 3 else if st \<in> {4, 6, 15, 16} then 2 else if st \<in> {0, 1} then 0 else 1)"

definition weight :: "int list \<Rightarrow> ctok list \<Rightarrow> nat" where
  "weight ss rem = 5 * length rem + sum_list (map state_weight ss) + (if ss = [0] then 1 else 0)"

definition calc_typed :: "ctok \<Rightarrow> bool" where
  "calc_typed = (\<lambda>(k, v). if k = NUMBER then \<exists>n. v = Some (CNum n) else v = None)"

text \<open>One round from a configuration leads to a configuration.\<close>

definition advances :: "int \<Rightarrow> cval yyp \<Rightarrow> int list \<Rightarrow> ctok list \<Rightarrow> ctok list \<Rightarrow> cnode list \<Rightarrow> outs \<Rightarrow> bool" where
  "advances st s ss us rem ls out \<longleftrightarrow>
     (\<exists>st' s' ss' vs' us' rem' lv' ls' out'. yyround cE (st, s) (st', s') \<and> conf (st' # ss') vs' us' ls' \<and>
        calc_parser.pend s' ss' vs' rem' lv' out' \<and> us' @ rem' = us @ rem \<and> weight (st' # ss') rem' < weight (st # ss) rem \<and>
        (ls' = ls \<and> out' = out \<or> (\<exists>t txt'. ls' = ls @ [t] \<and> calc_report t = Inr txt' \<and> out' = out @ txt')))"

lemma advancesI:
  assumes "yyround cE (st, s) (st', s')" and "calc_parser.pend s' ss' vs' rem' lv' out" and "conf (st' # ss') vs' us' ls"
    and "us' @ rem' = us @ rem" and "weight (st' # ss') rem' < weight (st # ss) rem"
  shows "advances st s ss us rem ls out"
  using assms unfolding advances_def by blast

definition fails :: "int \<Rightarrow> cval yyp \<Rightarrow> outs \<Rightarrow> bool" where
  "fails st s out \<longleftrightarrow> (\<exists>s'. yysetstate cE st s = Inr (Return 1 s') \<and> yyout s' = out \<and> yystderr s' = [Txt ''Error: '', Txt ''syntax error'', Txt ''\<newline>''])"

lemma error:
  assumes "calc_parser.pend s ss vs rem lv out" and "length ss + 1 < YYMAXDEPTH" and "set (st # ss) \<subseteq> {0..18}" and "st \<noteq> 2"
    and "calc_act st (calc_parser.head_sym rem) = Error"
  shows "fails st s out"
proof -
  obtain s' where "yysetstate cE st s = Inr (Return 1 (calc_yyerror ''syntax error'' s'\<lparr>yyerrstatus := 3\<rparr>))" "yyout s' = out" "yystderr s' = []"
    by (rule calc_parser.error_step [where mem = "\<lambda>n. True", OF assms(1,2) _ _ _ _ assms(5)]) (use assms(3,4) in auto)
  then show ?thesis by (simp add: fails_def calc_yyerror_def)
qed

lemma calc_report_fault: "calc_report t = Inl f \<Longrightarrow> f = Overflow"
proof -
  have "calc_evaluate t = Inl f \<Longrightarrow> f = Overflow" for f
    by (induction t) (auto simp: ex_int_def bindE_def split: if_splits sum.splits)
  then show "calc_report t = Inl f \<Longrightarrow> f = Overflow" by (auto simp: calc_report_def bindE_def split: sum.splits)
qed

lemma calc_sym_inv:
  "calc_sym k = 3 \<longleftrightarrow> k = NUMBER" "calc_sym k = 4 \<longleftrightarrow> k = 43" "calc_sym k = 5 \<longleftrightarrow> k = 45" "calc_sym k = 6 \<longleftrightarrow> k = 42" "calc_sym k = 7 \<longleftrightarrow> k = 47"
  "calc_sym k = 8 \<longleftrightarrow> k = 10" "calc_sym k = 9 \<longleftrightarrow> k = 40" "calc_sym k = 10 \<longleftrightarrow> k = 41" "calc_sym k \<noteq> 0"
  by (auto simp: calc_sym_def NUMBER_def YYerror_def)

lemma head_sym_simps [simp]:
  "calc_parser.head_sym [] = 0" "calc_parser.head_sym ((k, v) # rem) = calc_sym k"
  by (simp_all add: calc_parser.head_sym_def)

lemma step_at:
  assumes "at_factor (p # ss) vs us ls" and "calc_parser.pend s ss vs rem lv out" and "\<forall>t\<in>set rem. calc_typed t" and "length us + 10 < YYMAXDEPTH"
  shows "advances p s ss us rem ls out \<or> fails p s out \<or> p = 1 \<and> rem = []"
proof -
  have p: "p \<in> {1, 4, 9, 10, 12, 13}" "length ss + 1 < YYMAXDEPTH" "set (p # ss) \<subseteq> {0..18}"
    using stack_shapes(3) [OF assms(1)] assms(4) by (auto simp: height_ok_def)
  have err: "fails p s out" if "calc_act p (calc_parser.head_sym rem) = Error"
    by (rule error [OF assms(2) p(2,3) _ that]) (use p(1) in auto)
  show ?thesis
  proof (cases rem)
    case Nil
    then show ?thesis using err p(1) by (auto simp: calc_act_def)
  next
    case (Cons tk rem')
    obtain k v where tk: "tk = (k, v)" by (cases tk)
    have v: "k = NUMBER \<Longrightarrow> \<exists>n. v = Some (CNum n)" "k \<noteq> NUMBER \<Longrightarrow> v = None" using assms(3) Cons tk by (auto simp: calc_typed_def)
    consider (num) "k = NUMBER" | (opn) "k = 40" | (other) "k \<noteq> NUMBER" "k \<noteq> 40" by blast
    then show ?thesis
    proof cases
      case num
      then obtain n where n: "v = Some (CNum n)" using v(1) by blast
      obtain s' lv' where "yyround cE (p, s) (3, s')" "calc_parser.pend s' (p # ss) (CNum n # vs) rem' lv' out"
        by (rule shift_number [OF _ p(2,1)]) (use assms(2) Cons tk num n in auto)
      moreover have "conf (3 # p # ss) (CNum n # vs) (us @ [(NUMBER, Some (CNum n))]) ls" using assms(1) by (rule conf_number)
      ultimately have "advances p s ss us rem ls out"
        by (rule advancesI) (use Cons tk num n p(1) in \<open>auto simp: weight_def state_weight_def\<close>)
      then show ?thesis ..
    next
      case opn
      then have n: "v = None" using v(2) by (simp add: NUMBER_def)
      obtain s' lv' where "yyround cE (p, s) (4, s')" "calc_parser.pend s' (p # ss) (lv' # vs) rem' lv' out"
        by (rule shift_open [OF _ p(2,1)]) (use assms(2) Cons tk opn n in auto)
      moreover have "conf (4 # p # ss) (lv' # vs) (us @ [(40, None)]) ls"
        by (rule conf_at [OF factor_start [OF term_start [OF expr_nested [OF assms(1)]]]])
      ultimately have "advances p s ss us rem ls out"
        by (rule advancesI) (use Cons tk opn n p(1) in \<open>auto simp: weight_def state_weight_def\<close>)
      then show ?thesis ..
    next
      case other
      then have "calc_act p (calc_parser.head_sym rem) = Error" using p(1) Cons tk by (auto simp: calc_act_def calc_sym_inv)
      then show ?thesis using err by simp
    qed
  qed
qed

lemma step_factor:
  assumes "at_factor (p # ss) vs us ls" and "factor_d ws t" and "calc_parser.pend s (p # ss) (CTree t # vs) rem lv out" and "length us + 10 < YYMAXDEPTH"
  shows "advances (goto_factor p) s (p # ss) (us @ ws) rem ls out"
proof -
  have len: "length ss + 2 < YYMAXDEPTH" using stack_shapes(3) [OF assms(1)] assms(4) by (auto simp: height_ok_def)
  from assms(1) show ?thesis
  proof (cases rule: at_factor_cases)
    case base
    obtain s' where "yyround cE (goto_factor p, s) (goto_term p, s')" "calc_parser.pend s' (p # ss) (CTree t # vs) rem lv out"
      by (rule reduce_factor [OF assms(3) len base(1)])
    moreover have "conf (goto_term p # p # ss) (CTree t # vs) (us @ ws) ls" using base(2) assms(2) by (intro conf_term term_factor)
    ultimately show ?thesis by (rule advancesI) (use base(1) in \<open>auto simp: weight_def state_weight_def goto_factor_def goto_term_def\<close>)
  next
    case (oper q ss' vs' us' wl l v k oper)
    have q: "q \<in> {1, 4, 9, 10}" using stack_shapes(2) [OF oper(5)] by simp
    have st: "calc_parser.pend s (p # goto_term q # q # ss') (CTree t # v # CTree l # vs') rem lv out" using assms(3) oper(2,3) by simp
    obtain s' where "yyround cE (goto_factor p, s) (goto_term q, s')" "calc_parser.pend s' (q # ss') (CTree (makeNode oper l t) # vs') rem lv out"
      by (rule reduce_product [OF st _ q, of oper]) (use oper(1,2) len in auto)
    moreover have "conf (goto_term q # q # ss') (CTree (makeNode oper l t) # vs') (us' @ wl @ (k, None) # ws) ls"
      using oper(1) term_times [OF oper(6) assms(2)] term_div [OF oper(6) assms(2)] by (intro conf_term [OF oper(5)]) auto
    ultimately show ?thesis
      by (rule advancesI) (use oper(1,2,4) q in \<open>auto simp: weight_def state_weight_def goto_factor_def goto_term_def\<close>)
  qed
qed

lemma step_term:
  assumes "at_term (p # ss) vs us ls" and "term_d ws t" and "calc_parser.pend s (p # ss) (CTree t # vs) rem lv out"
    and "\<forall>t\<in>set rem. calc_typed t" and "length us + 10 < YYMAXDEPTH"
  shows "advances (goto_term p) s (p # ss) (us @ ws) rem ls out"
proof (cases "calc_parser.head_sym rem \<in> {6, 7}")
  case True
  have len: "length (p # ss) + 1 < YYMAXDEPTH" using stack_shapes(2) [OF assms(1)] assms(5) by (auto simp: height_ok_def)
  obtain k v rem' where rem: "rem = (k, v) # rem'" "k = 42 \<or> k = 47" using True by (cases rem) (auto simp: calc_sym_inv)
  then have v: "v = None" using assms(4) by (auto simp: calc_typed_def NUMBER_def)
  define q :: int where "q = (if k = 42 then 12 else 13)"
  obtain s' lv' where "yyround cE (goto_term p, s) (q, s')" "calc_parser.pend s' (goto_term p # p # ss) (lv' # CTree t # vs) rem' lv' out"
    by (rule shift_times [OF _ len, where q = q and p = p]) (use assms(3) rem v in \<open>auto simp: q_def\<close>)
  moreover have "conf (q # goto_term p # p # ss) (lv' # CTree t # vs) (us @ ws @ [(k, None)]) ls"
    using rem(2) factor_times [OF assms(1,2)] factor_div [OF assms(1,2)] by (auto simp: q_def intro: conf_at)
  ultimately show ?thesis
    by (rule advancesI) (use rem v in \<open>auto simp: weight_def state_weight_def q_def\<close>)
next
  case False
  have len: "length ss + 2 < YYMAXDEPTH" using stack_shapes(2) [OF assms(1)] assms(5) by (auto simp: height_ok_def)
  from assms(1) show ?thesis
  proof (cases rule: at_term_cases)
    case base
    obtain s' where "yyround cE (goto_term p, s) (goto_expr p, s')" "calc_parser.pend s' (p # ss) (CTree t # vs) rem lv out"
      by (rule reduce_term [OF assms(3) len base(1) False])
    moreover have "conf (goto_expr p # p # ss) (CTree t # vs) (us @ ws) ls" using base(2) assms(2) by (intro conf_expr expr_term)
    ultimately show ?thesis by (rule advancesI) (use base(1) in \<open>auto simp: weight_def state_weight_def goto_expr_def goto_term_def\<close>)
  next
    case (oper q ss' vs' us' wl l v k oper)
    have q: "q \<in> {1, 4}" using stack_shapes(1) [OF oper(5)] by simp
    have st: "calc_parser.pend s (p # goto_expr q # q # ss') (CTree t # v # CTree l # vs') rem lv out" using assms(3) oper(2,3) by simp
    obtain s' where "yyround cE (goto_term p, s) (goto_expr q, s')" "calc_parser.pend s' (q # ss') (CTree (makeNode oper l t) # vs') rem lv out"
      by (rule reduce_sum [OF st _ q _ False, of oper]) (use oper(1,2) len in auto)
    moreover have "conf (goto_expr q # q # ss') (CTree (makeNode oper l t) # vs') (us' @ wl @ (k, None) # ws) ls"
      using oper(1) expr_plus [OF oper(6) assms(2)] expr_minus [OF oper(6) assms(2)] by (intro conf_expr [OF oper(5)]) auto
    ultimately show ?thesis
      by (rule advancesI) (use oper(1,2,4) q in \<open>auto simp: weight_def state_weight_def goto_expr_def goto_term_def\<close>)
  qed
qed

lemma calc_act_expr:
  "calc_act (goto_expr p) a = Error \<or> a = 4 \<or> a = 5 \<or> a = 8 \<and> p = 1 \<or> a = 10 \<and> p \<noteq> 1"
  by (simp add: calc_act_def goto_expr_def)

lemma step_expr:
  assumes "at_expr (p # ss) vs us ls" and "expr_d ws t" and "calc_parser.pend s (p # ss) (CTree t # vs) rem lv out"
    and "\<forall>t\<in>set rem. calc_typed t" and "length us + 10 < YYMAXDEPTH"
  shows "advances (goto_expr p) s (p # ss) (us @ ws) rem ls out \<or> fails (goto_expr p) s out"
proof -
  have len: "length (p # ss) + 1 < YYMAXDEPTH" and range: "set (goto_expr p # p # ss) \<subseteq> {0..18}"
    using stack_shapes(1) [OF assms(1)] assms(5) by (auto simp: height_ok_def goto_expr_def)
  have err: "fails (goto_expr p) s out" if "calc_act (goto_expr p) (calc_parser.head_sym rem) = Error"
    by (rule error [OF assms(3) len range _ that]) (simp add: goto_expr_def)
  consider (oper) k v rem' where "rem = (k, v) # rem'" "k = 43 \<or> k = 45" | (line) v rem' where "rem = (10, v) # rem'" "p = 1"
    | (close) v rem' where "rem = (41, v) # rem'" "p \<noteq> 1" | (other) "calc_act (goto_expr p) (calc_parser.head_sym rem) = Error"
    using calc_act_expr [of p "calc_parser.head_sym rem"] by (cases rem) (auto simp: calc_sym_inv)
  then show ?thesis
  proof cases
    case oper
    then have v: "v = None" using assms(4) by (auto simp: calc_typed_def NUMBER_def)
    define q :: int where "q = (if k = 43 then 9 else 10)"
    obtain s' lv' where "yyround cE (goto_expr p, s) (q, s')" "calc_parser.pend s' (goto_expr p # p # ss) (lv' # CTree t # vs) rem' lv' out"
      by (rule shift_plus [OF _ len, where q = q and p = p]) (use assms(3) oper v in \<open>auto simp: q_def\<close>)
    moreover have "conf (q # goto_expr p # p # ss) (lv' # CTree t # vs) (us @ ws @ [(k, None)]) ls"
      using oper(2) term_plus [OF assms(1,2)] term_minus [OF assms(1,2)] by (auto simp: q_def intro: conf_at factor_start)
    ultimately have "advances (goto_expr p) s (p # ss) (us @ ws) rem ls out"
      by (rule advancesI) (use oper v in \<open>auto simp: weight_def state_weight_def q_def\<close>)
    then show ?thesis ..
  next
    case line
    then have v: "v = None" using assms(4) by (auto simp: calc_typed_def NUMBER_def)
    obtain x y where sh: "ss = [0]" "vs = [x, y]" "input_d us ls" using assms(1) line(2) by (auto elim: at_expr_cases)
    obtain s' lv' where "yyround cE (5, s) (11, s')" "calc_parser.pend s' (5 # p # ss) (lv' # CTree t # vs) rem' lv' out"
      by (rule shift_newline [OF _ len]) (use assms(3) line v in auto)
    moreover have "conf (11 # 5 # p # ss) (lv' # CTree t # vs) (us @ ws @ [(10, None)]) ls"
      using conf_line [OF sh(3) assms(2)] sh line(2) by simp
    ultimately have "advances 5 s (p # ss) (us @ ws) rem ls out"
      by (rule advancesI) (use line v in \<open>auto simp: weight_def state_weight_def\<close>)
    then show ?thesis using line(2) by (simp add: goto_expr_def)
  next
    case close
    then have v: "v = None" using assms(4) by (auto simp: calc_typed_def NUMBER_def)
    have ge: "goto_expr p = 8" using close(2) by (simp add: goto_expr_def)
    obtain q ss' w vs' us' where sh: "p = 4" "ss = q # ss'" "vs = w # vs'" "us = us' @ [(40, None)]" "at_factor (q # ss') vs' us' ls"
      using assms(1) close(2) by (auto elim: at_expr_cases)
    obtain s' lv' where "yyround cE (8, s) (14, s')" "calc_parser.pend s' (8 # p # ss) (lv' # CTree t # vs) rem' lv' out"
      by (rule shift_close [OF _ len]) (use assms(3) close v in auto)
    moreover have "conf (14 # 8 # p # ss) (lv' # CTree t # vs) (us' @ (40, None) # ws @ [(41, None)]) ls"
      using conf_close [OF sh(5) assms(2)] sh by simp
    ultimately have "advances 8 s (p # ss) (us @ ws) rem ls out"
      by (rule advancesI) (use close v sh(4) in \<open>auto simp: weight_def state_weight_def\<close>)
    then show ?thesis using ge by simp
  qed (use err in simp)
qed

lemma at_line:
  assumes "at_factor (1 # ss) vs us ls"
  shows "ss = [0] \<and> input_d us ls"
proof -
  have "at_term (1 # ss) vs us ls" using assms by (rule at_factor_cases) auto
  then have "at_expr (1 # ss) vs us ls" by (rule at_term_cases) auto
  then show ?thesis by (rule at_expr_cases) auto
qed

lemma step_line:
  assumes "input_d us ls" and "expr_d ws t" and "calc_parser.pend s [5, 1, 0] [x, CTree t, v, w] rem lv out"
  shows "advances 11 s [5, 1, 0] (us @ ws @ [(10, None)]) rem ls out \<or> yysetstate cE 11 s = Inl Overflow"
proof (cases "calc_report t")
  case (Inl f)
  then show ?thesis using fault_line [OF assms(3) Inl] calc_report_fault [OF Inl] by simp
next
  case (Inr txt')
  obtain s' where r: "yyround cE (11, s) (1, s')" "calc_parser.pend s' [0] [v, w] rem lv (out @ txt')"
    by (rule reduce_line [OF assms(3) Inr])
  have c: "conf [1, 0] [v, w] (us @ ws @ [(10, None)]) (ls @ [t])"
    by (rule conf_at [OF factor_start [OF term_start [OF expr_start [OF input_line [OF assms(1,2)]]]]])
  have "weight [1, 0] rem < weight [11, 5, 1, 0] rem" by (simp add: weight_def state_weight_def)
  then show ?thesis using r c Inr unfolding advances_def by blast
qed

lemma step:
  assumes "conf (st # ss) vs us ls" and "calc_parser.pend s ss vs rem lv out" and "\<forall>t\<in>set rem. calc_typed t" and "length us + 10 < YYMAXDEPTH"
  shows "advances st s ss us rem ls out \<or> fails st s out \<or> yysetstate cE st s = Inl Overflow \<or>
    st = 1 \<and> ss = [0] \<and> rem = [] \<and> input_d us ls"
  using assms(1)
proof cases
  case (conf_init v)
  obtain s' w where "yyround cE (0, s) (1, s')" "calc_parser.pend s' [0] [w, v] rem lv out"
    by (rule reduce_init) (use assms(2) conf_init in auto)
  moreover have "conf [1, 0] [w, v] [] []" by (rule conf_at [OF factor_start [OF term_start [OF expr_start [OF input_empty]]]])
  ultimately have "advances 0 s [] [] rem [] out" by (rule advancesI) (simp_all add: weight_def state_weight_def)
  then show ?thesis using conf_init by simp
next
  case conf_at
  have "ss = [0] \<and> input_d us ls" if "st = 1"
    using conf_at that at_line by blast
  then show ?thesis using step_at [OF conf_at assms(2-4)] by blast
next
  case (conf_number p ss' vs' us' n)
  have p: "p \<in> {1, 4, 9, 10, 12, 13}" "length ss' + 2 < YYMAXDEPTH"
    using stack_shapes(3) [OF conf_number(5)] assms(4) conf_number by (auto simp: height_ok_def)
  obtain s' where "yyround cE (3, s) (goto_factor p, s')" "calc_parser.pend s' (p # ss') (CTree (makeLeaf n) # vs') rem lv out"
    by (rule reduce_number [OF _ p(2,1)]) (use assms(2) conf_number in auto)
  moreover have "conf (goto_factor p # p # ss') (CTree (makeLeaf n) # vs') (us' @ [(NUMBER, Some (CNum n))]) ls"
    by (rule conf_factor [OF conf_number(5) factor_number])
  ultimately have "advances 3 s ss us rem ls out"
    by (rule advancesI) (use conf_number in \<open>auto simp: weight_def state_weight_def goto_factor_def\<close>)
  then show ?thesis using conf_number by simp
next
  case (conf_factor p ss' vs' us' ws t)
  then show ?thesis using step_factor [OF conf_factor(5,6), of s rem lv out] assms(2,4) by auto
next
  case (conf_term p ss' vs' us' ws t)
  then show ?thesis using step_term [OF conf_term(5,6), of s rem lv out] assms(2-4) by auto
next
  case (conf_expr p ss' vs' us' ws t)
  then show ?thesis using step_expr [OF conf_expr(5,6), of s rem lv out] assms(2-4) by auto
next
  case (conf_close p ss' vs' us' ws t v w)
  have p: "p \<in> {1, 4, 9, 10, 12, 13}" "length ss' + 4 < YYMAXDEPTH"
    using stack_shapes(3) [OF conf_close(5)] assms(4) conf_close by (auto simp: height_ok_def)
  obtain s' where "yyround cE (14, s) (goto_factor p, s')" "calc_parser.pend s' (p # ss') (CTree t # vs') rem lv out"
    by (rule reduce_paren [OF _ p(2,1)]) (use assms(2) conf_close in auto)
  moreover have "conf (goto_factor p # p # ss') (CTree t # vs') (us' @ (40, None) # ws @ [(41, None)]) ls"
    by (rule conf_factor [OF conf_close(5) factor_paren [OF conf_close(6)]])
  ultimately have "advances 14 s ss us rem ls out"
    by (rule advancesI) (use conf_close in \<open>auto simp: weight_def state_weight_def goto_factor_def\<close>)
  then show ?thesis using conf_close by simp
next
  case (conf_line us' ws t x v w)
  then show ?thesis using step_line [OF conf_line(5,6), of s x v w rem lv out] assms(2) by auto
qed

definition calc_reports :: "cnode list \<Rightarrow> outs \<Rightarrow> outs res" where
  "calc_reports ts out = foldE (\<lambda>out t. bindE (calc_report t) (\<lambda>x. Inr (out @ x))) ts out"

lemma run:
  assumes "conf (st # ss) vs us ls" and "calc_parser.pend s ss vs rem lv out" and "\<forall>t\<in>set (us @ rem). calc_typed t"
    and "length (us @ rem) + 10 < YYMAXDEPTH" and "weight (st # ss) rem + 2 \<le> n"
  shows "(\<exists>s' new. yyloop n cE st s = Inr (0, s') \<and> input_d (us @ rem) (ls @ new) \<and> calc_reports new out = Inr (yyout s') \<and> yystderr s' = []) \<or>
    (\<exists>s'. yyloop n cE st s = Inr (1, s') \<and> yystderr s' = [Txt ''Error: '', Txt ''syntax error'', Txt ''\<newline>'']) \<or>
    yyloop n cE st s = Inl Overflow"
  using assms
proof (induction n arbitrary: st ss vs us ls s rem lv out)
  case (Suc n)
  have "length us + 10 < YYMAXDEPTH" using Suc.prems(4) by simp
  moreover have "\<forall>t\<in>set rem. calc_typed t" using Suc.prems(3) by simp
  ultimately have "advances st s ss us rem ls out \<or> fails st s out \<or> yysetstate cE st s = Inl Overflow \<or>
    st = 1 \<and> ss = [0] \<and> rem = [] \<and> input_d us ls" using step [OF Suc.prems(1,2)] by blast
  then show ?case
  proof (elim disjE conjE)
    assume "advances st s ss us rem ls out"
    then obtain st' s' ss' vs' us' rem' lv' ls' out' where a: "yyround cE (st, s) (st', s')" "conf (st' # ss') vs' us' ls'"
      "calc_parser.pend s' ss' vs' rem' lv' out'" "us' @ rem' = us @ rem" "weight (st' # ss') rem' < weight (st # ss) rem"
      "ls' = ls \<and> out' = out \<or> (\<exists>t txt'. ls' = ls @ [t] \<and> calc_report t = Inr txt' \<and> out' = out @ txt')"
      unfolding advances_def by blast
    have typed: "\<forall>t\<in>set (us' @ rem'). calc_typed t" unfolding a(4) by (rule Suc.prems(3))
    have "(\<exists>s'' new. yyloop n cE st' s' = Inr (0, s'') \<and> input_d (us' @ rem') (ls' @ new) \<and> calc_reports new out' = Inr (yyout s'') \<and> yystderr s'' = []) \<or>
      (\<exists>s''. yyloop n cE st' s' = Inr (1, s'') \<and> yystderr s'' = [Txt ''Error: '', Txt ''syntax error'', Txt ''\<newline>'']) \<or>
      yyloop n cE st' s' = Inl Overflow"
      by (rule Suc.IH [OF a(2,3) typed]) (use a(4,5) Suc.prems(4,5) in auto)
    moreover have "yyloop (Suc n) cE st s = yyloop n cE st' s'" using a(1) by (simp add: yyround_def)
    moreover have "\<exists>new'. ls' @ new = ls @ new' \<and> calc_reports new' out = calc_reports new out'" for new
      using a(6) by (auto simp: calc_reports_def)
    ultimately show ?thesis using a(4) by (metis (no_types, lifting))
  next
    assume "fails st s out"
    then show ?thesis by (auto simp: fails_def)
  next
    assume "yysetstate cE st s = Inl Overflow"
    then show ?thesis by simp
  next
    assume acc: "st = 1" "ss = [0]" "rem = []" "input_d us ls"
    have pend: "calc_parser.pend s [0] vs [] lv out" using Suc.prems(2) acc by simp
    obtain s1 s2 where "yysetstate cE 1 s = Inr (NewState 2 s1)" "yysetstate cE 2 s1 = Inr (Return 0 s2)" "yyout s2 = out" "yystderr s2 = []"
      using calc_parser.accept_step [OF pend, of "\<lambda>n. True" 1] by (auto simp: calc_act_def YYMAXDEPTH_def)
    moreover obtain m where "n = Suc m" using Suc.prems(5) by (cases n) auto
    ultimately have "yyloop (Suc n) cE st s = Inr (0, s2)" using acc by simp
    then show ?thesis using acc \<open>yyout s2 = out\<close> \<open>yystderr s2 = []\<close> by (auto simp: calc_reports_def intro!: exI [of _ "[]"])
  qed
qed simp

section \<open>Every derivation is found\<close>

definition derives :: "(int list \<Rightarrow> cval list \<Rightarrow> ctok list \<Rightarrow> cnode list \<Rightarrow> bool) \<Rightarrow> (int \<Rightarrow> int) \<Rightarrow> int set \<Rightarrow> ctok list \<Rightarrow> cnode \<Rightarrow> bool" where
  "derives at goto no ws t \<longleftrightarrow>
     (\<forall>p ss vs us ls s rem lv out. at (p # ss) vs us ls \<longrightarrow> calc_parser.pend s ss vs (ws @ rem) lv out \<longrightarrow>
        calc_parser.head_sym rem \<notin> no \<longrightarrow> length (us @ ws) + 10 < YYMAXDEPTH \<longrightarrow>
        (\<exists>s' lv'. (yyround cE)\<^sup>*\<^sup>* (p, s) (goto p, s') \<and> calc_parser.pend s' (p # ss) (CTree t # vs) rem lv' out))"

lemma derivesD:
  assumes "derives at goto no ws t" and "at (p # ss) vs us ls" and "calc_parser.pend s ss vs (ws @ rem) lv out"
    and "calc_parser.head_sym rem \<notin> no" and "length (us @ ws) + 10 < YYMAXDEPTH"
  obtains s' lv' where "(yyround cE)\<^sup>*\<^sup>* (p, s) (goto p, s')" and "calc_parser.pend s' (p # ss) (CTree t # vs) rem lv' out"
  using assms unfolding derives_def by blast

lemma derives_sum:
  assumes "expr_d us l" and "derives at_expr goto_expr {6, 7} us l" and "derives at_term goto_term {} ws r"
    and "k = 43 \<and> oper = CHR ''+'' \<or> k = 45 \<and> oper = CHR ''-''"
  shows "derives at_expr goto_expr {6, 7} (us @ (k, None) # ws) (makeNode oper l r)"
  unfolding derives_def
proof (intro allI impI)
  fix p ss vs us0 ls s rem lv out
  assume at: "at_expr (p # ss) vs us0 ls" and pend: "calc_parser.pend s ss vs ((us @ (k, None) # ws) @ rem) lv out"
    and no: "calc_parser.head_sym rem \<notin> {6, 7}" and len: "length (us0 @ us @ (k, None) # ws) + 10 < YYMAXDEPTH"
  have p: "p \<in> {1, 4}" "length ss \<le> length us0 + 1" using stack_shapes(1) [OF at] by (auto simp: height_ok_def)
  obtain s1 lv1 where s1: "(yyround cE)\<^sup>*\<^sup>* (p, s) (goto_expr p, s1)" "calc_parser.pend s1 (p # ss) (CTree l # vs) ((k, None) # ws @ rem) lv1 out"
    by (rule derivesD [OF assms(2) at]) (use pend len assms(4) in \<open>auto simp: calc_sym_def NUMBER_def\<close>)
  define q :: int where "q = (if k = 43 then 9 else 10)"
  obtain s2 lv2 where s2: "yyround cE (goto_expr p, s1) (q, s2)" "calc_parser.pend s2 (goto_expr p # p # ss) (lv2 # CTree l # vs) (ws @ rem) lv2 out"
    by (rule shift_plus [OF s1(2), where q = q and p = p]) (use assms(4) len p(2) in \<open>auto simp: q_def\<close>)
  have at2: "at_term (q # goto_expr p # p # ss) (lv2 # CTree l # vs) (us0 @ us @ [(k, None)]) ls"
    using assms(4) term_plus [OF at assms(1)] term_minus [OF at assms(1)] by (auto simp: q_def)
  obtain s3 lv3 where s3: "(yyround cE)\<^sup>*\<^sup>* (q, s2) (goto_term q, s3)"
    "calc_parser.pend s3 (q # goto_expr p # p # ss) (CTree r # lv2 # CTree l # vs) rem lv3 out"
    by (rule derivesD [OF assms(3) at2 s2(2)]) (use len in auto)
  obtain s4 where "yyround cE (goto_term q, s3) (goto_expr p, s4)" "calc_parser.pend s4 (p # ss) (CTree (makeNode oper l r) # vs) rem lv3 out"
    by (rule reduce_sum [OF s3(2) _ p(1) _ no, of oper]) (use assms(4) len p(2) in \<open>auto simp: q_def\<close>)
  then show "\<exists>s' lv'. (yyround cE)\<^sup>*\<^sup>* (p, s) (goto_expr p, s') \<and> calc_parser.pend s' (p # ss) (CTree (makeNode oper l r) # vs) rem lv' out"
    using s1(1) s2(1) s3(1) by (meson converse_rtranclp_into_rtranclp rtranclp.rtrancl_into_rtrancl rtranclp_trans)
qed

lemma derives_product:
  assumes "term_d us l" and "derives at_term goto_term {} us l" and "derives at_factor goto_factor {} ws r"
    and "k = 42 \<and> oper = CHR ''*'' \<or> k = 47 \<and> oper = CHR ''/''"
  shows "derives at_term goto_term {} (us @ (k, None) # ws) (makeNode oper l r)"
  unfolding derives_def
proof (intro allI impI)
  fix p ss vs us0 ls s rem lv out
  assume at: "at_term (p # ss) vs us0 ls" and pend: "calc_parser.pend s ss vs ((us @ (k, None) # ws) @ rem) lv out"
    and len: "length (us0 @ us @ (k, None) # ws) + 10 < YYMAXDEPTH"
  have p: "p \<in> {1, 4, 9, 10}" "length ss \<le> length us0 + 1" using stack_shapes(2) [OF at] by (auto simp: height_ok_def)
  obtain s1 lv1 where s1: "(yyround cE)\<^sup>*\<^sup>* (p, s) (goto_term p, s1)" "calc_parser.pend s1 (p # ss) (CTree l # vs) ((k, None) # ws @ rem) lv1 out"
    by (rule derivesD [OF assms(2) at]) (use pend len in auto)
  define q :: int where "q = (if k = 42 then 12 else 13)"
  obtain s2 lv2 where s2: "yyround cE (goto_term p, s1) (q, s2)" "calc_parser.pend s2 (goto_term p # p # ss) (lv2 # CTree l # vs) (ws @ rem) lv2 out"
    by (rule shift_times [OF s1(2), where q = q and p = p]) (use assms(4) len p(2) in \<open>auto simp: q_def\<close>)
  have at2: "at_factor (q # goto_term p # p # ss) (lv2 # CTree l # vs) (us0 @ us @ [(k, None)]) ls"
    using assms(4) factor_times [OF at assms(1)] factor_div [OF at assms(1)] by (auto simp: q_def)
  obtain s3 lv3 where s3: "(yyround cE)\<^sup>*\<^sup>* (q, s2) (goto_factor q, s3)"
    "calc_parser.pend s3 (q # goto_term p # p # ss) (CTree r # lv2 # CTree l # vs) rem lv3 out"
    by (rule derivesD [OF assms(3) at2 s2(2)]) (use len in auto)
  obtain s4 where "yyround cE (goto_factor q, s3) (goto_term p, s4)" "calc_parser.pend s4 (p # ss) (CTree (makeNode oper l r) # vs) rem lv3 out"
    by (rule reduce_product [OF s3(2) _ p(1), of oper]) (use assms(4) len p(2) in \<open>auto simp: q_def\<close>)
  then show "\<exists>s' lv'. (yyround cE)\<^sup>*\<^sup>* (p, s) (goto_term p, s') \<and> calc_parser.pend s' (p # ss) (CTree (makeNode oper l r) # vs) rem lv' out"
    using s1(1) s2(1) s3(1) by (meson converse_rtranclp_into_rtranclp rtranclp.rtrancl_into_rtrancl rtranclp_trans)
qed

lemma derives_expr_term: "derives at_term goto_term {} ws t \<Longrightarrow> derives at_expr goto_expr {6, 7} ws t"
  unfolding derives_def [of at_expr]
proof (intro allI impI)
  fix p ss vs us ls s rem lv out
  assume d: "derives at_term goto_term {} ws t" and at: "at_expr (p # ss) vs us ls" and pend: "calc_parser.pend s ss vs (ws @ rem) lv out"
    and no: "calc_parser.head_sym rem \<notin> {6, 7}" and len: "length (us @ ws) + 10 < YYMAXDEPTH"
  have p: "p \<in> {1, 4}" "length ss \<le> length us + 1" using stack_shapes(1) [OF at] by (auto simp: height_ok_def)
  obtain s1 lv1 where s1: "(yyround cE)\<^sup>*\<^sup>* (p, s) (goto_term p, s1)" "calc_parser.pend s1 (p # ss) (CTree t # vs) rem lv1 out"
    by (rule derivesD [OF d term_start [OF at] pend _ len]) auto
  obtain s2 where "yyround cE (goto_term p, s1) (goto_expr p, s2)" "calc_parser.pend s2 (p # ss) (CTree t # vs) rem lv1 out"
    by (rule reduce_term [OF s1(2) _ p(1) no]) (use len p(2) in auto)
  then show "\<exists>s' lv'. (yyround cE)\<^sup>*\<^sup>* (p, s) (goto_expr p, s') \<and> calc_parser.pend s' (p # ss) (CTree t # vs) rem lv' out"
    using s1(1) by (meson rtranclp.rtrancl_into_rtrancl)
qed

lemma derives_term_factor: "derives at_factor goto_factor {} ws t \<Longrightarrow> derives at_term goto_term {} ws t"
  unfolding derives_def [of at_term]
proof (intro allI impI)
  fix p ss vs us ls s rem lv out
  assume d: "derives at_factor goto_factor {} ws t" and at: "at_term (p # ss) vs us ls" and pend: "calc_parser.pend s ss vs (ws @ rem) lv out"
    and len: "length (us @ ws) + 10 < YYMAXDEPTH"
  have p: "p \<in> {1, 4, 9, 10}" "length ss \<le> length us + 1" using stack_shapes(2) [OF at] by (auto simp: height_ok_def)
  obtain s1 lv1 where s1: "(yyround cE)\<^sup>*\<^sup>* (p, s) (goto_factor p, s1)" "calc_parser.pend s1 (p # ss) (CTree t # vs) rem lv1 out"
    by (rule derivesD [OF d factor_start [OF at] pend _ len]) auto
  obtain s2 where "yyround cE (goto_factor p, s1) (goto_term p, s2)" "calc_parser.pend s2 (p # ss) (CTree t # vs) rem lv1 out"
    by (rule reduce_factor [OF s1(2) _ p(1)]) (use len p(2) in auto)
  then show "\<exists>s' lv'. (yyround cE)\<^sup>*\<^sup>* (p, s) (goto_term p, s') \<and> calc_parser.pend s' (p # ss) (CTree t # vs) rem lv' out"
    using s1(1) by (meson rtranclp.rtrancl_into_rtrancl)
qed

lemma derives_number: "derives at_factor goto_factor {} [(NUMBER, Some (CNum n))] (makeLeaf n)"
  unfolding derives_def
proof (intro allI impI)
  fix p ss vs us ls s rem lv out
  assume at: "at_factor (p # ss) vs us ls" and pend: "calc_parser.pend s ss vs ([(NUMBER, Some (CNum n))] @ rem) lv out"
    and len: "length (us @ [(NUMBER, Some (CNum n))]) + 10 < YYMAXDEPTH"
  have p: "p \<in> {1, 4, 9, 10, 12, 13}" "length ss \<le> length us + 1" using stack_shapes(3) [OF at] by (auto simp: height_ok_def)
  obtain s1 lv1 where s1: "yyround cE (p, s) (3, s1)" "calc_parser.pend s1 (p # ss) (CNum n # vs) rem lv1 out"
    by (rule shift_number [OF _ _ p(1)]) (use pend len p(2) in auto)
  obtain s2 where "yyround cE (3, s1) (goto_factor p, s2)" "calc_parser.pend s2 (p # ss) (CTree (makeLeaf n) # vs) rem lv1 out"
    by (rule reduce_number [OF s1(2) _ p(1)]) (use len p(2) in auto)
  then show "\<exists>s' lv'. (yyround cE)\<^sup>*\<^sup>* (p, s) (goto_factor p, s') \<and> calc_parser.pend s' (p # ss) (CTree (makeLeaf n) # vs) rem lv' out"
    using s1(1) by (meson r_into_rtranclp rtranclp.rtrancl_into_rtrancl)
qed

lemma derives_paren: "derives at_expr goto_expr {6, 7} ws t \<Longrightarrow> derives at_factor goto_factor {} ((40, None) # ws @ [(41, None)]) t"
  unfolding derives_def [of at_factor]
proof (intro allI impI)
  fix p ss vs us ls s rem lv out
  assume d: "derives at_expr goto_expr {6, 7} ws t" and at: "at_factor (p # ss) vs us ls"
    and pend: "calc_parser.pend s ss vs (((40, None) # ws @ [(41, None)]) @ rem) lv out"
    and len: "length (us @ (40, None) # ws @ [(41, None)]) + 10 < YYMAXDEPTH"
  have p: "p \<in> {1, 4, 9, 10, 12, 13}" "length ss \<le> length us + 1" using stack_shapes(3) [OF at] by (auto simp: height_ok_def)
  obtain s1 lv1 where s1: "yyround cE (p, s) (4, s1)" "calc_parser.pend s1 (p # ss) (lv1 # vs) (ws @ (41, None) # rem) lv1 out"
    by (rule shift_open [OF _ _ p(1)]) (use pend len p(2) in auto)
  obtain s2 lv2 where s2: "(yyround cE)\<^sup>*\<^sup>* (4, s1) (goto_expr 4, s2)" "calc_parser.pend s2 (4 # p # ss) (CTree t # lv1 # vs) ((41, None) # rem) lv2 out"
    by (rule derivesD [OF d expr_nested [OF at] s1(2)]) (use len in \<open>auto simp: calc_sym_def NUMBER_def\<close>)
  obtain s3 lv3 where s3: "yyround cE (8, s2) (14, s3)" "calc_parser.pend s3 (8 # 4 # p # ss) (lv3 # CTree t # lv1 # vs) rem lv3 out"
    by (rule shift_close [OF s2(2)]) (use len p(2) in auto)
  obtain s4 where "yyround cE (14, s3) (goto_factor p, s4)" "calc_parser.pend s4 (p # ss) (CTree t # vs) rem lv3 out"
    by (rule reduce_paren [OF s3(2) _ p(1)]) (use len p(2) in auto)
  moreover have "goto_expr 4 = 8" by (simp add: goto_expr_def)
  ultimately show "\<exists>s' lv'. (yyround cE)\<^sup>*\<^sup>* (p, s) (goto_factor p, s') \<and> calc_parser.pend s' (p # ss) (CTree t # vs) rem lv' out"
    using s1(1) s2(1) s3(1) by (metis (no_types, lifting) converse_rtranclp_into_rtranclp rtranclp.rtrancl_into_rtrancl)
qed

lemma derivations_found:
  "expr_d ws t \<Longrightarrow> derives at_expr goto_expr {6, 7} ws t"
  "term_d ws t \<Longrightarrow> derives at_term goto_term {} ws t"
  "factor_d ws t \<Longrightarrow> derives at_factor goto_factor {} ws t"
  by (induction rule: expr_d_term_d_factor_d.inducts)
    (auto intro: derives_sum derives_expr_term derives_product derives_term_factor derives_number derives_paren)

lemma lines_found:
  assumes "input_d us ls" and "calc_reports ls out = Inr out'" and "calc_parser.pend s [] [v] (us @ rem) lv out" and "length us + 10 < YYMAXDEPTH"
  shows "\<exists>s' w lv'. (yyround cE)\<^sup>*\<^sup>* (0, s) (1, s') \<and> calc_parser.pend s' [0] [w, v] rem lv' out'"
  using assms
proof (induction arbitrary: out' rem rule: input_d.induct)
  case input_empty
  obtain s' w where "yyround cE (0, s) (1, s')" "calc_parser.pend s' [0] [w, v] rem lv out"
    by (rule reduce_init) (use input_empty in auto)
  then show ?case using input_empty by (auto simp: calc_reports_def)
next
  case (input_line us ls ws t)
  obtain out1 txt' where r: "calc_reports ls out = Inr out1" "calc_report t = Inr txt'" "out' = out1 @ txt'"
    using input_line.prems(1) by (auto simp: calc_reports_def foldE_append bindE_eq_Inr)
  obtain s1 w lv1 where s1: "(yyround cE)\<^sup>*\<^sup>* (0, s) (1, s1)" "calc_parser.pend s1 [0] [w, v] (ws @ (10, None) # rem) lv1 out1"
    using input_line.IH [OF r(1), of "ws @ (10, None) # rem"] input_line.prems(2,3) by auto
  obtain s2 lv2 where s2: "(yyround cE)\<^sup>*\<^sup>* (1, s1) (goto_expr 1, s2)" "calc_parser.pend s2 [1, 0] [CTree t, w, v] ((10, None) # rem) lv2 out1"
    by (rule derivesD [OF derivations_found(1) [OF input_line(2)] expr_start [OF input_line(1)] s1(2)])
      (use input_line.prems(3) in \<open>auto simp: calc_sym_def NUMBER_def\<close>)
  obtain s3 lv3 where s3: "yyround cE (5, s2) (11, s3)" "calc_parser.pend s3 [5, 1, 0] [lv3, CTree t, w, v] rem lv3 out1"
    by (rule shift_newline [OF s2(2)]) (auto simp: YYMAXDEPTH_def)
  obtain s4 where s4: "yyround cE (11, s3) (1, s4)" "calc_parser.pend s4 [0] [w, v] rem lv3 (out1 @ txt')"
    by (rule reduce_line [OF s3(2) r(2)])
  have "goto_expr 1 = 5" by (simp add: goto_expr_def)
  then have "(yyround cE)\<^sup>*\<^sup>* (0, s) (1, s4)" using s1(1) s2(1) s3(1) s4(1) by (metis (no_types, lifting) rtranclp.rtrancl_into_rtrancl rtranclp_trans)
  then show ?case using s4(2) r(3) by blast
qed

section \<open>The calculator\<close>

text \<open>The tokens of an input by the rules of the scanner.\<close>

function calc_toks :: "string \<Rightarrow> ctok list res" where
  "calc_toks inp = bindE (calc_nxt inp) (\<lambda>(k, v, rest). if k \<le> 0 then Inr [] else bindE (calc_toks rest) (\<lambda>ts. Inr ((k, v) # ts)))"
  by pat_completeness auto
termination
proof (relation "measure length", simp)
  fix inp x k y v rest
  assume "calc_nxt inp = Inr x" "(k, y) = x" "(v, rest) = y" "\<not> k \<le> 0"
  then obtain w where "calc_next inp = Inr (k, w, rest)" "k > 0" by (auto simp: calc_nxt_def bindE_eq_Inr)
  then show "(rest, inp) \<in> measure length" using calc_next_rest(2) by simp
qed

declare calc_toks.simps [simp del]

lemma calc_toks_lexes:
  assumes "calc_toks inp = Inr ts" and "CHR 0x00 \<notin> set inp"
  shows "calc_parser.lexes inp ts \<and> (\<forall>t\<in>set ts. calc_typed t) \<and> length ts \<le> length inp"
  using assms
proof (induction inp arbitrary: ts rule: calc_toks.induct)
  case (1 inp)
  obtain k v rest where n: "calc_nxt inp = Inr (k, v, rest)" using 1(2) by (subst (asm) calc_toks.simps) (auto simp: bindE_eq_Inr)
  then obtain w where w: "calc_next inp = Inr (k, w, rest)" "v = map_option CNum w" by (auto simp: calc_nxt_def bindE_eq_Inr)
  show ?case
  proof (cases "k \<le> 0")
    case True
    then have "ts = []" using 1(2) n by (subst (asm) calc_toks.simps) simp
    then show ?thesis using calc_parser.lexes_end [OF 1(3) n True] by simp
  next
    case False
    then obtain ts' where ts: "calc_toks rest = Inr ts'" "ts = (k, v) # ts'" using 1(2) n by (subst (asm) (2) calc_toks.simps) (auto simp: bindE_eq_Inr)
    have rest: "CHR 0x00 \<notin> set rest" "length rest < length inp" using calc_next_rest(1,2) [OF w(1)] 1(3) False by auto
    have ih: "calc_parser.lexes rest ts' \<and> (\<forall>t\<in>set ts'. calc_typed t) \<and> length ts' \<le> length rest"
      by (rule 1(1) [OF n refl refl False ts(1) rest(1)])
    have "calc_typed (k, v)" using calc_next_rest(4) [OF w(1)] w(2) by (auto simp: calc_typed_def)
    then show ?thesis using ih rest(2) ts(2) False calc_parser.lexes_token [OF 1(3) n] by auto
  qed
qed

lemma calc_main_outcome:
  assumes "calc_toks inp = Inr ts" and "CHR 0x00 \<notin> set inp" and "length ts + 10 < YYMAXDEPTH"
  defines "prompt \<equiv> [Txt ''Enter expressions (Ctrl+D to exit):\<newline>'']"
  shows "(\<exists>s' ls. calc_main (\<lambda>n. True) inp = Inr (0, s') \<and> input_d ts ls \<and> calc_reports ls prompt = Inr (yyout s') \<and> yystderr s' = []) \<or>
    (\<exists>s'. calc_main (\<lambda>n. True) inp = Inr (1, s') \<and> yystderr s' = [Txt ''Error: '', Txt ''syntax error'', Txt ''\<newline>'']) \<or>
    calc_main (\<lambda>n. True) inp = Inl Overflow"
proof -
  have l: "calc_parser.lexes inp ts" "\<forall>t\<in>set ts. calc_typed t" "length ts \<le> length inp" using calc_toks_lexes [OF assms(1,2)] by auto
  have pend: "calc_parser.pend (yystart cE inp prompt) [] [CGarbage] ts CGarbage prompt"
    using calc_parser.pend_start [OF l(1), of "\<lambda>n. True" prompt] by simp
  have "weight [0] ts + 2 \<le> 6 * length inp + 20" using l(3) by (simp add: weight_def state_weight_def)
  then show ?thesis using run [OF conf_init pend, of "6 * length inp + 20"] l(2) assms(3)
    by (auto simp: calc_main_def yyparse_def prompt_def)
qed

lemma calc_main_accepts:
  assumes "calc_toks inp = Inr ts" and "CHR 0x00 \<notin> set inp" and "length ts + 10 < YYMAXDEPTH"
    and "input_d ts ls" and "calc_reports ls [Txt ''Enter expressions (Ctrl+D to exit):\<newline>''] = Inr out"
  shows "\<exists>s. calc_main (\<lambda>n. True) inp = Inr (0, s) \<and> yyout s = out \<and> yystderr s = []"
proof -
  let ?prompt = "[Txt ''Enter expressions (Ctrl+D to exit):\<newline>'']"
  have l: "calc_parser.lexes inp ts" "length ts \<le> length inp" using calc_toks_lexes [OF assms(1,2)] by auto
  let ?s = "yystart cE inp ?prompt"
  have pend: "calc_parser.pend ?s [] [CGarbage] (ts @ []) CGarbage ?prompt"
    using calc_parser.pend_start [OF l(1), of "\<lambda>n. True" ?prompt] by simp
  have "length ts + 10 < YYMAXDEPTH" by (rule assms(3))
  from lines_found [OF assms(4,5) pend this] obtain s' w lv' where
    s': "(yyround cE)\<^sup>*\<^sup>* (0, ?s) (1, s')" "calc_parser.pend s' [0] [w, CGarbage] [] lv' out" by blast
  obtain s1 s2 where acc: "yysetstate cE 1 s' = Inr (NewState 2 s1)" "yysetstate cE 2 s1 = Inr (Return 0 s2)" "yyout s2 = out" "yystderr s2 = []"
    using calc_parser.accept_step [OF s'(2), of "\<lambda>n. True" 1] by (auto simp: calc_act_def YYMAXDEPTH_def)
  have fin: "yyloop m cE 1 s' = Inl Diverges \<or> yyloop m cE 1 s' = Inr (0, s2)" for m
  proof (cases m)
    case (Suc k)
    then show ?thesis using acc(1,2) by (cases k) simp_all
  qed simp
  have "calc_main (\<lambda>n. True) inp \<noteq> Inl Diverges" using calc_main_outcome [OF assms(1-3)] by auto
  then obtain m where "yyloop m cE 1 s' = calc_main (\<lambda>n. True) inp"
    using yyloop_round [OF s'(1), of "6 * length inp + 20" "calc_main (\<lambda>n. True) inp"] by (auto simp: calc_main_def yyparse_def)
  with fin [of m] \<open>calc_main (\<lambda>n. True) inp \<noteq> Inl Diverges\<close> have "calc_main (\<lambda>n. True) inp = Inr (0, s2)" by simp
  then show ?thesis using acc(3,4) by blast
qed

text \<open>
  C4. The calculator, as generated, implements its grammar. For every input without NUL characters whose numbers fit an \<^verbatim>\<open>int\<close> and
  which has at most 9989 tokens, with memory available, the scanner and the parser together come to an end. The tokens of an input end at its first byte above 127, which the scanner returns as a negative token. The programs
  accept exactly the inputs whose tokens are sequences of lines of the grammar, and then have printed the tree that the grammar gives for each line and its value; on
  any other input the parser reports one syntax error, unless the evaluation of an earlier line overflows.
\<close>

theorem calculator_decides_grammar:
  assumes "calc_toks inp = Inr ts" and "CHR 0x00 \<notin> set inp" and "length ts + 10 < YYMAXDEPTH"
  shows "((\<exists>s. calc_main (\<lambda>n. True) inp = Inr (0, s) \<and> yystderr s = []) \<or>
      (\<exists>s. calc_main (\<lambda>n. True) inp = Inr (1, s) \<and> yystderr s = [Txt ''Error: '', Txt ''syntax error'', Txt ''\<newline>'']) \<or>
      calc_main (\<lambda>n. True) inp = Inl Overflow) \<and>
    (\<forall>out. (\<exists>s. calc_main (\<lambda>n. True) inp = Inr (0, s) \<and> yyout s = out) \<longleftrightarrow>
       (\<exists>ls. input_d ts ls \<and> calc_reports ls [Txt ''Enter expressions (Ctrl+D to exit):\<newline>''] = Inr out))"
proof (intro conjI allI iffI)
  show "(\<exists>s. calc_main (\<lambda>n. True) inp = Inr (0, s) \<and> yystderr s = []) \<or>
      (\<exists>s. calc_main (\<lambda>n. True) inp = Inr (1, s) \<and> yystderr s = [Txt ''Error: '', Txt ''syntax error'', Txt ''\<newline>'']) \<or>
      calc_main (\<lambda>n. True) inp = Inl Overflow"
    using calc_main_outcome [OF assms] by blast
next
  fix out
  assume "\<exists>s. calc_main (\<lambda>n. True) inp = Inr (0, s) \<and> yyout s = out"
  then show "\<exists>ls. input_d ts ls \<and> calc_reports ls [Txt ''Enter expressions (Ctrl+D to exit):\<newline>''] = Inr out"
    using calc_main_outcome [OF assms] by auto
next
  fix out
  assume "\<exists>ls. input_d ts ls \<and> calc_reports ls [Txt ''Enter expressions (Ctrl+D to exit):\<newline>''] = Inr out"
  then show "\<exists>s. calc_main (\<lambda>n. True) inp = Inr (0, s) \<and> yyout s = out"
    using calc_main_accepts [OF assms] by blast
qed

lemma toks_example: "calc_toks ''1+2*3\<newline>'' =
    Inr [(258, Some (CNum 1)), (43, None), (258, Some (CNum 2)), (42, None), (258, Some (CNum 3)), (10, None)]"
  by code_simp

lemma derivation_example:
  "input_d [(258, Some (CNum 1)), (43, None), (258, Some (CNum 2)), (42, None), (258, Some (CNum 3)), (10, None)]
     [makeNode CHR ''+'' (makeLeaf 1) (makeNode CHR ''*'' (makeLeaf 2) (makeLeaf 3))]"
proof -
  have num: "factor_d [(258, Some (CNum n))] (makeLeaf n)" for n using factor_number [of n] by (simp add: NUMBER_def)
  have "expr_d ([(258, Some (CNum 1))] @ (43, None) # [(258, Some (CNum 2))] @ (42, None) # [(258, Some (CNum 3))])
      (makeNode CHR ''+'' (makeLeaf 1) (makeNode CHR ''*'' (makeLeaf 2) (makeLeaf 3)))"
    by (intro expr_plus expr_term term_times term_factor num)
  from input_line [OF input_empty this] show ?thesis by simp
qed

theorem calculator_decides_grammar_witness:
  "\<exists>s. calc_main (\<lambda>n. True) ''1+2*3\<newline>'' = Inr (0, s) \<and>
     yyout s = [Txt ''Enter expressions (Ctrl+D to exit):\<newline>'', Txt ''AST: '', Txt ''(1 + (2 * 3))'', Txt ''\<newline>'', Txt ''Result = '', Num 7, Txt ''\<newline>\<newline>'']"
proof -
  let ?t = "makeNode CHR ''+'' (makeLeaf 1) (makeNode CHR ''*'' (makeLeaf 2) (makeLeaf 3))"
  have "calc_reports [?t] [Txt ''Enter expressions (Ctrl+D to exit):\<newline>''] =
      Inr [Txt ''Enter expressions (Ctrl+D to exit):\<newline>'', Txt ''AST: '', Txt ''(1 + (2 * 3))'', Txt ''\<newline>'', Txt ''Result = '', Num 7, Txt ''\<newline>\<newline>'']"
    by code_simp
  then show ?thesis
    using calculator_decides_grammar [OF toks_example] derivation_example by (auto simp: YYMAXDEPTH_def)
qed

section \<open>Types of the semantic values\<close>

text \<open>
  The symbol of a state (\<^verbatim>\<open>yystos\<close>) fixes which member of the union its value holds: the number of a NUMBER, the node of
  a nonterminal; the values of the other symbols are not used.
\<close>

definition calc_yystos :: "int list" where
  "calc_yystos = [0, 12, 0, 3, 9, 13, 14, 15, 13, 4, 5, 8, 6, 7, 10, 14, 14, 15, 15]"

definition value_typed :: "int \<Rightarrow> cval \<Rightarrow> bool" where
  "value_typed st v \<longleftrightarrow>
     (case arr_get calc_yystos st of
        Inr y \<Rightarrow> (if y = 3 then \<exists>n. v = CNum n else if y \<in> {13, 14, 15} then \<exists>t. v = CTree t else True)
      | Inl f \<Rightarrow> True)"

lemma value_typed_states:
  "value_typed st v \<longleftrightarrow> (st = 3 \<longrightarrow> (\<exists>n. v = CNum n)) \<and> (st \<in> {5, 6, 7, 8, 15, 16, 17, 18} \<longrightarrow> (\<exists>t. v = CTree t))"
proof (cases "0 \<le> st \<and> st < 19")
  case True
  then have "st \<in> {0, 1, 2, 3, 4, 5, 6, 7, 8, 9, 10, 11, 12, 13, 14, 15, 16, 17, 18}" by (simp add: insert_iff) presburger
  then show ?thesis by (elim insertE emptyE) (simp_all add: value_typed_def calc_yystos_def arr_get_def)
qed (auto simp: value_typed_def calc_yystos_def arr_get_def)

lemma value_typed_simps [simp]:
  "value_typed st (CTree t) \<longleftrightarrow> st \<noteq> 3" "value_typed 3 (CNum n)" "value_typed 0 v" "value_typed 1 v" "value_typed 4 v" "value_typed 9 v"
  "value_typed 10 v" "value_typed 11 v" "value_typed 12 v" "value_typed 13 v" "value_typed 14 v"
  by (auto simp: value_typed_states)

lemma at_typed:
  "at_expr ss vs us ls \<Longrightarrow> list_all2 value_typed ss vs"
  "at_term ss vs us ls \<Longrightarrow> list_all2 value_typed ss vs"
  "at_factor ss vs us ls \<Longrightarrow> list_all2 value_typed ss vs"
  by (induction rule: at_expr_at_term_at_factor.inducts) (auto simp: goto_expr_def goto_term_def)

lemma conf_typed: "conf ss vs us ls \<Longrightarrow> list_all2 value_typed ss vs"
  by (induction rule: conf.induct)
    (auto dest: at_typed simp: goto_expr_def goto_term_def goto_factor_def)

lemma final_stops: "\<not> yyround cE (2, s) d"
  by (simp add: yyround_def yysetstate_def split: option.split)

lemma round_conf:
  assumes "conf (st # yyss s) (yyvs s) us ls" and "calc_parser.pend s (yyss s) (yyvs s) rem lv out"
    and "\<forall>t\<in>set (us @ rem). calc_typed t" and "length (us @ rem) + 10 < YYMAXDEPTH" and "yyround cE (st, s) (st', s')" and "st' \<noteq> 2"
  shows "\<exists>us' rem' ls' lv' out'. conf (st' # yyss s') (yyvs s') us' ls' \<and> calc_parser.pend s' (yyss s') (yyvs s') rem' lv' out' \<and> us' @ rem' = us @ rem"
proof -
  have "\<forall>t\<in>set rem. calc_typed t" "length us + 10 < YYMAXDEPTH" using assms(3,4) by auto
  from step [OF assms(1,2) this] show ?thesis
  proof (elim disjE conjE)
    assume "advances st s (yyss s) us rem ls out"
    then obtain st1 s1 ss1 vs1 us1 rem1 lv1 ls1 out1 where "yyround cE (st, s) (st1, s1)" "conf (st1 # ss1) vs1 us1 ls1"
      "calc_parser.pend s1 ss1 vs1 rem1 lv1 out1" "us1 @ rem1 = us @ rem" unfolding advances_def by blast
    moreover from this assms(5) have "st1 = st' \<and> s1 = s'" by (simp add: yyround_def)
    moreover have "yyss s1 = ss1 \<and> yyvs s1 = vs1" using calculation(3) by (simp add: calc_parser.pend_def)
    ultimately show ?thesis by blast
  next
    assume acc: "st = 1" "yyss s = [0]" "rem = []"
    have "calc_parser.pend s [0] (yyvs s) [] lv out" using assms(2) acc by simp
    then obtain s1 where "yysetstate cE 1 s = Inr (NewState 2 s1)"
      using calc_parser.accept_step [of s "[0]" "yyvs s" lv out "\<lambda>n. True" 1] by (auto simp: calc_act_def YYMAXDEPTH_def)
    then show ?thesis using acc assms(5,6) by (simp add: yyround_def)
  qed (use assms(5) in \<open>auto simp: fails_def yyround_def\<close>)
qed

lemma round_fault:
  assumes "conf (st # yyss s) (yyvs s) us ls" and "calc_parser.pend s (yyss s) (yyvs s) rem lv out"
    and "\<forall>t\<in>set rem. calc_typed t" and "length us + 10 < YYMAXDEPTH" and "yysetstate cE st s = Inl f"
  shows "f = Overflow"
  using step [OF assms(1-4)]
proof (elim disjE conjE)
  assume acc: "st = 1" "yyss s = [0]" "rem = []"
  have "calc_parser.pend s [0] (yyvs s) [] lv out" using assms(2) acc by simp
  then obtain s1 where "yysetstate cE 1 s = Inr (NewState 2 s1)"
    using calc_parser.accept_step [of s "[0]" "yyvs s" lv out "\<lambda>n. True" 1] by (auto simp: calc_act_def YYMAXDEPTH_def)
  then show ?thesis using acc assms(5) by simp
qed (use assms(5) in \<open>auto simp: advances_def fails_def yyround_def\<close>)

text \<open>
  C30. The union of semantic values is used type-correctly. In every configuration that the parser reaches before it accepts, on an input without NUL characters, whose numbers fit an \<^verbatim>\<open>int\<close> and which has at most about ten thousand
  tokens, with memory available, the value stack is as high as the state stack and the value of each state is stored in the union member of the symbol that \<^verbatim>\<open>yystos\<close> gives the state; and the next round
  reads no member that was not stored, nor a place outside of the stacks and tables: the only fault it can have is an overflow in \<^verbatim>\<open>evaluate\<close>.
\<close>

theorem calculator_values_typed:
  assumes "calc_toks inp = Inr ts" and "CHR 0x00 \<notin> set inp" and "length ts + 10 < YYMAXDEPTH"
    and reach: "(yyround (calc_env (\<lambda>n. True)))\<^sup>*\<^sup>* (0, yystart (calc_env (\<lambda>n. True)) inp out) (st, s)" "st \<noteq> 2"
  shows "list_all2 value_typed (st # yyss s) (yyvs s) \<and> (\<forall>f. yysetstate (calc_env (\<lambda>n. True)) st s = Inl f \<longrightarrow> f = Overflow)"
proof -
  have l: "calc_parser.lexes inp ts" "\<forall>t\<in>set ts. calc_typed t" using calc_toks_lexes [OF assms(1,2)] by auto
  have "st = 2 \<or> (\<exists>us rem ls lv out. conf (st # yyss s) (yyvs s) us ls \<and> calc_parser.pend s (yyss s) (yyvs s) rem lv out \<and> us @ rem = ts)"
    using reach(1)
  proof (induction rule: rtranclp_induct2)
    case refl
    have "calc_parser.pend (yystart cE inp out) [] [CGarbage] ts CGarbage out" "yyss (yystart cE inp out) = []" "yyvs (yystart cE inp out) = [CGarbage]"
      using calc_parser.pend_start [OF l(1), of "\<lambda>n. True" out] by (simp_all add: yystart_def)
    then show ?case using conf_init [of CGarbage] by (metis append_Nil)
  next
    case (step st1 s1 st2 s2)
    have "st1 \<noteq> 2" using step(2) final_stops by auto
    then show ?case using step round_conf [of st1 s1 _ _ _ _ _ st2 s2] l(2) assms(3) by metis
  qed
  then obtain us rem ls lv out' where c: "conf (st # yyss s) (yyvs s) us ls" "calc_parser.pend s (yyss s) (yyvs s) rem lv out'" "us @ rem = ts"
    using reach(2) by blast
  have "\<forall>t\<in>set rem. calc_typed t" "length us + 10 < YYMAXDEPTH" using c(3) l(2) assms(3) by auto
  then have "yysetstate cE st s = Inl f \<Longrightarrow> f = Overflow" for f by (rule round_fault [OF c(1,2)])
  then show ?thesis using conf_typed [OF c(1)] by blast
qed

text \<open>The configuration after \<open>n\<close> rounds.\<close>

primrec calc_config :: "nat \<Rightarrow> string \<Rightarrow> (int \<times> cval yyp) res" where
  "calc_config 0 inp = Inr (0, yystart (calc_env (\<lambda>n. True)) inp [])"
| "calc_config (Suc n) inp =
     bindE (calc_config n inp) (\<lambda>(st, s). bindE (yysetstate (calc_env (\<lambda>n. True)) st s)
       (\<lambda>x. case x of NewState st' s' \<Rightarrow> Inr (st', s') | _ \<Rightarrow> Inl Diverges))"

lemma calc_config_reached: "calc_config n inp = Inr c \<Longrightarrow> (yyround (calc_env (\<lambda>n. True)))\<^sup>*\<^sup>* (0, yystart (calc_env (\<lambda>n. True)) inp []) c"
proof (induction n arbitrary: c)
  case (Suc n)
  then obtain st s x where x: "calc_config n inp = Inr (st, s)" "yysetstate cE st s = Inr x"
      "(case x of NewState st' s' \<Rightarrow> Inr (st', s') | _ \<Rightarrow> Inl Diverges) = Inr c" by (auto simp: bindE_eq_Inr)
  then obtain st' s' where "x = NewState st' s'" "c = (st', s')" by (cases x) auto
  then show ?case using Suc.IH [OF x(1)] x(2) by (auto simp: yyround_def intro: rtranclp.rtrancl_into_rtrancl)
qed simp

text \<open>After seven rounds on \<^verbatim>\<open>1+2*3\<close> the stack holds the tree of \<^verbatim>\<open>1\<close>, the sign, and the number \<^verbatim>\<open>2\<close>.\<close>

theorem calculator_values_typed_witness:
  "\<exists>s. (yyround (calc_env (\<lambda>n. True)))\<^sup>*\<^sup>* (0, yystart (calc_env (\<lambda>n. True)) ''1+2*3\<newline>'' []) (3, s) \<and>
     list_all2 value_typed [3, 9, 5, 1, 0] (yyvs s) \<and> hd (yyvs s) = CNum 2 \<and> yyvs s ! 2 = CTree (makeLeaf 1)"
proof -
  have "bindE (calc_config 7 ''1+2*3\<newline>'') (\<lambda>(st, s). Inr (st, yyss s, hd (yyvs s), yyvs s ! 2)) = Inr (3, [9, 5, 1, 0], CNum 2, CTree (makeLeaf 1))"
    by code_simp
  then obtain s where s: "calc_config 7 ''1+2*3\<newline>'' = Inr (3, s)" "yyss s = [9, 5, 1, 0]" "hd (yyvs s) = CNum 2" "yyvs s ! 2 = CTree (makeLeaf 1)"
    by (auto simp: bindE_eq_Inr)
  show ?thesis
    using calculator_values_typed [OF toks_example _ _ calc_config_reached [OF s(1)]] calc_config_reached [OF s(1)] s(2-4) by (auto simp: YYMAXDEPTH_def)
qed

section \<open>Printed trees are read back\<close>

text \<open>The trees the parser builds: leaves with the value of a token, inner nodes with one of the four operators.\<close>

primrec calc_tree :: "cnode \<Rightarrow> bool" where
  "calc_tree CNull \<longleftrightarrow> False"
| "calc_tree (CNode oper v l r) \<longleftrightarrow>
     (if oper = CHR 0x00 then 0 \<le> v \<and> v \<le> 2147483647 \<and> l = CNull \<and> r = CNull
      else oper \<in> {CHR ''+'', CHR ''-'', CHR ''*'', CHR ''/''} \<and> v = 0 \<and> calc_tree l \<and> calc_tree r)"

primrec tree_toks :: "cnode \<Rightarrow> ctok list" where
  "tree_toks CNull = []"
| "tree_toks (CNode oper v l r) =
     (if oper = CHR 0x00 then [(NUMBER, Some (CNum v))]
      else (40, None) # tree_toks l @ (schar oper, None) # tree_toks r @ [(41, None)])"

lemma tree_derivation: "calc_tree t \<Longrightarrow> factor_d (tree_toks t) t"
proof (induction t)
  case (CNode oper v l r)
  show ?case
  proof (cases "oper = CHR 0x00")
    case True
    then show ?thesis using CNode.prems factor_number [of v] by (simp add: makeLeaf_def)
  next
    case False
    then have ih: "factor_d (tree_toks l) l" "factor_d (tree_toks r) r" using CNode by auto
    have "expr_d (tree_toks l @ (schar oper, None) # tree_toks r) (CNode oper v l r)"
      using False CNode.prems expr_plus [OF expr_term [OF term_factor [OF ih(1)]] term_factor [OF ih(2)]]
        expr_minus [OF expr_term [OF term_factor [OF ih(1)]] term_factor [OF ih(2)]]
        expr_term [OF term_times [OF term_factor [OF ih(1)] ih(2)]] expr_term [OF term_div [OF term_factor [OF ih(1)] ih(2)]]
      by (auto simp: makeNode_def schar_def)
    then show ?thesis using False factor_paren by fastforce
  qed
qed simp

lemma calc_toks_char:
  assumes "\<not> is_blank c" and "\<not> ex_digit c" and "schar c > 0"
  shows "calc_toks (c # inp) = bindE (calc_toks inp) (\<lambda>ts. Inr ((schar c, None) # ts))"
  using assms by (subst calc_toks.simps) (simp add: calc_nxt_def calc_next_def)

lemma calc_toks_blank: "calc_toks (CHR '' '' # inp) = calc_toks inp"
  by (subst (1 2) calc_toks.simps) (simp add: calc_nxt_def calc_next_def)

lemma calc_toks_number:
  assumes "0 \<le> n" and "n \<le> 2147483647" and "inp = [] \<or> \<not> ex_digit (hd inp)"
  shows "calc_toks (ex_show n @ inp) = bindE (calc_toks inp) (\<lambda>ts. Inr ((NUMBER, Some (CNum n)) # ts))"
proof -
  obtain c ds where show_n: "ex_show n = c # ds" using assms(1) ex_digits_ne [of "nat n"] by (cases "ex_show n") (auto simp: ex_show_def)
  have dig: "\<forall>d\<in>set (c # ds). ex_digit d" using assms(1) show_n ex_digits_chars [of _ "nat n"] by (simp add: ex_show_def)
  have c: "\<not> is_blank c" using dig by (auto simp: ex_digit_def)
  have tw: "takeWhile ex_digit (ds @ inp) = ds" "dropWhile ex_digit (ds @ inp) = inp"
    using dig assms(3) by (auto simp: takeWhile_append dropWhile_append takeWhile_eq_Nil_iff dropWhile_eq_self_iff)
  have "ex_decimal (c # ds) = n" using show_n assms(1) ex_decimal_digits [of "nat n"] by (simp add: ex_show_def)
  then have "calc_nxt (ex_show n @ inp) = Inr (NUMBER, Some (CNum n), inp)"
    using c dig tw assms(1,2) by (simp add: calc_nxt_def calc_next_def show_n ex_int_def)
  then show ?thesis by (subst calc_toks.simps) (simp add: NUMBER_def)
qed

lemma print_toks:
  assumes "calc_tree t" and "inp = [] \<or> \<not> ex_digit (hd inp)"
  shows "calc_toks (printTree t @ inp) = bindE (calc_toks inp) (\<lambda>ts. Inr (tree_toks t @ ts))"
  using assms
proof (induction t arbitrary: inp)
  case (CNode oper v l r)
  show ?case
  proof (cases "oper = CHR 0x00")
    case True
    then show ?thesis using CNode.prems calc_toks_number [of v inp] by simp
  next
    case False
    then have ih: "calc_tree l" "calc_tree r" and oper: "\<not> is_blank oper" "\<not> ex_digit oper" "schar oper > 0"
      using CNode.prems by (auto simp: ex_digit_def schar_def)
    have par: "\<not> is_blank CHR ''(''" "\<not> ex_digit CHR ''(''" "schar CHR ''('' = 40" "\<not> is_blank CHR '')''" "\<not> ex_digit CHR '')''" "schar CHR '')'' = 41"
      by (simp_all add: ex_digit_def schar_def)
    have bl: "\<not> ex_digit CHR '' ''" by (simp add: ex_digit_def)
    show ?thesis using False CNode.IH(1) [OF ih(1), of "CHR '' '' # oper # CHR '' '' # printTree r @ CHR '')'' # inp"]
        CNode.IH(2) [OF ih(2), of "CHR '')'' # inp"] par bl calc_toks_char [OF oper] calc_toks_char [of "CHR ''(''"] calc_toks_char [of "CHR '')''"]
      by (simp add: calc_toks_blank bindE_assoc)
  qed
qed simp

lemma print_chars: "calc_tree t \<Longrightarrow> CHR 0x00 \<notin> set (printTree t) \<and> length (tree_toks t) \<le> length (printTree t)"
proof (induction t)
  case (CNode oper v l r)
  have "CHR 0x00 \<notin> set (ex_digits n)" for n using ex_digits_chars [of "CHR 0x00" n] by (auto simp: ex_digit_def)
  moreover have "1 \<le> length (ex_digits n)" for n using ex_digits_ne [of n] by (cases "ex_digits n") auto
  ultimately show ?case using CNode by (auto simp: ex_show_def)
qed simp

text \<open>
  C32. The calculator reads back what it prints. When the tree of an expression to which \<^verbatim>\<open>evaluate\<close> gives a value, printed by \<^verbatim>\<open>printTree\<close> as a text of fewer than 9989 characters, is fed to the calculator as a line, the parser rebuilds this very tree: it prints the same text
  again, with the value that \<^verbatim>\<open>evaluate\<close> gives for it.
\<close>

theorem calculator_reads_printed_trees:
  assumes "calc_tree t" and "length (printTree t) + 11 < YYMAXDEPTH" and "calc_evaluate t = Inr n"
  shows "\<exists>s. calc_main (\<lambda>n. True) (printTree t @ ''\<newline>'') = Inr (0, s) \<and> yystderr s = [] \<and>
    yyout s = [Txt ''Enter expressions (Ctrl+D to exit):\<newline>'', Txt ''AST: '', Txt (printTree t), Txt ''\<newline>'', Txt ''Result = '', Num n, Txt ''\<newline>\<newline>'']"
proof -
  have "calc_toks ''\<newline>'' = Inr [(10, None)]" by code_simp
  then have toks: "calc_toks (printTree t @ ''\<newline>'') = Inr (tree_toks t @ [(10, None)])"
    using print_toks [OF assms(1), of "''\<newline>''"] by (simp add: ex_digit_def)
  have der: "input_d (tree_toks t @ [(10, None)]) [t]"
    using input_line [OF input_empty expr_term [OF term_factor [OF tree_derivation [OF assms(1)]]]] by simp
  have rep: "calc_reports [t] [Txt ''Enter expressions (Ctrl+D to exit):\<newline>''] =
      Inr [Txt ''Enter expressions (Ctrl+D to exit):\<newline>'', Txt ''AST: '', Txt (printTree t), Txt ''\<newline>'', Txt ''Result = '', Num n, Txt ''\<newline>\<newline>'']"
    using assms(3) by (simp add: calc_reports_def calc_report_def)
  show ?thesis using calc_main_accepts [OF toks _ _ der rep] print_chars [OF assms(1)] assms(2) by auto
qed

theorem calculator_reads_printed_trees_witness:
  "\<exists>s. calc_main (\<lambda>n. True) ''(7 / (2 - 2))\<newline>'' = Inr (0, s) \<and> yystderr s = [] \<and>
    yyout s = [Txt ''Enter expressions (Ctrl+D to exit):\<newline>'', Txt ''AST: '', Txt ''(7 / (2 - 2))'', Txt ''\<newline>'', Txt ''Result = '', Num 0, Txt ''\<newline>\<newline>'']"
proof -
  let ?t = "makeNode CHR ''/'' (makeLeaf 7) (makeNode CHR ''-'' (makeLeaf 2) (makeLeaf 2))"
  have "calc_tree ?t" "printTree ?t = ''(7 / (2 - 2))''" "calc_evaluate ?t = Inr 0" by code_simp+
  then show ?thesis using calculator_reads_printed_trees [of ?t 0] by (simp add: YYMAXDEPTH_def)
qed

end
