(* ===== verification/SqlScanner.thy ===== *)
theory SqlScanner
  imports Flex
begin

text \<open>
  The scanner of \<^verbatim>\<open>LEXICAL_ANALYZER/TASK\<close>: the tables and actions of \<^verbatim>\<open>TASK/lex.yy.c\<close> on the engine of \<open>Flex\<close>, and
  the proof that they are the rules of \<^verbatim>\<open>sql_lex.l\<close>: white space is skipped, numbers and identifiers are as long as possible, and an
  identifier that is one of the three keywords is that keyword.
\<close>

definition sql_flex :: flex where
  "sql_flex = \<lparr>
     yy_accept = [0, 0, 0, 11, 9, 8, 8, 4, 7, 6, 5, 5, 5, 5, 8, 4, 5, 5, 5, 5, 5, 5, 5, 2, 5, 5, 5, 3, 1, 0],
     yy_ec = [0] @ replicate 8 1 @ [2, 3] @ replicate 21 1 @ [2] @ replicate 15 1 @ replicate 10 4 @ [1, 5, 1, 6, 1, 1, 1] @
       [7, 7, 8, 7, 9, 10, 7, 11, 7, 7, 7, 12, 13, 7, 14, 7, 7, 15, 16, 17, 7, 7, 18, 7, 7, 7] @ [1, 1, 1, 1, 7, 1] @ replicate 26 7 @ replicate 133 1,
     yy_meta = [0, 1, 1, 1, 2, 1, 1, 2, 2, 2, 2, 2, 2, 2, 2, 2, 2, 2, 2],
     yy_base = [0, 0, 0, 40, 41, 17, 19, 35, 41, 41, 0, 23, 28, 25, 21, 31, 0, 20, 21, 23, 18, 21, 14, 0, 20, 18, 9, 0, 0, 41, 23],
     yy_def = [0, 29, 1, 29, 29, 29, 29, 29, 29, 29, 30, 30, 30, 30, 29, 29, 30, 30, 30, 30, 30, 30, 30, 30, 30, 30, 30, 30, 30, 0, 29],
     yy_nxt = [0, 4, 5, 6, 7, 8, 9, 10, 10, 10, 11, 10, 10, 10, 10, 10, 12, 10, 13, 14, 14, 14, 14, 14, 14, 16, 28, 27, 26, 25, 24, 23, 22, 21, 20, 15, 19, 18, 17, 15,
       29, 3, 29, 29, 29, 29, 29, 29, 29, 29, 29, 29, 29, 29, 29, 29, 29, 29, 29, 29],
     yy_chk = [0, 1, 1, 1, 1, 1, 1, 1, 1, 1, 1, 1, 1, 1, 1, 1, 1, 1, 1, 5, 5, 6, 6, 14, 14, 30, 26, 25, 24, 22, 21, 20, 19, 18, 17, 15, 13, 12, 11, 7,
       3, 29, 29, 29, 29, 29, 29, 29, 29, 29, 29, 29, 29, 29, 29, 29, 29, 29, 29, 29],
     yy_jam_base = 41, yy_jam_state = 29, yy_meta_from = 30, YY_END_OF_BUFFER = 11\<rparr>"

datatype sval = SGarbage | SNum int | SStr string

definition SELECT_TOKEN :: int where "SELECT_TOKEN = 258"

definition FROM_TOKEN :: int where "FROM_TOKEN = 259"

definition WHERE_TOKEN :: int where "WHERE_TOKEN = 260"

definition EQ :: int where "EQ = 261"

definition SEMICOLON :: int where "SEMICOLON = 262"

definition IDENTIFIER :: int where "IDENTIFIER = 263"

definition SQL_NUMBER :: int where "SQL_NUMBER = 264"

lemmas sql_kinds = SELECT_TOKEN_def FROM_TOKEN_def WHERE_TOKEN_def EQ_def SEMICOLON_def IDENTIFIER_def SQL_NUMBER_def

definition sql_lex_action :: "int \<Rightarrow> string \<Rightarrow> sval lex_action res" where
  "sql_lex_action act yytext =
     (if act = 1 then Inr (Token SELECT_TOKEN None)
      else if act = 2 then Inr (Token FROM_TOKEN None)
      else if act = 3 then Inr (Token WHERE_TOKEN None)
      else if act = 4 then bindE (ex_atoi yytext) (\<lambda>n. Inr (Token SQL_NUMBER (Some (SNum n))))
      else if act = 5 then Inr (Token IDENTIFIER (Some (SStr yytext)))
      else if act = 6 then Inr (Token EQ None)
      else if act = 7 then Inr (Token SEMICOLON None)
      else if act = 8 then Inr (Continue [])
      else if act = 9 then bindE (arr_get yytext 0) (\<lambda>c. Inr (Token (schar c) None))
      else if act = 10 then Inr (Continue [Txt yytext])
      else Inl (Exited 2))"

definition sql_yylex :: "string \<Rightarrow> (int \<times> sval option \<times> string \<times> outs) res" where
  "sql_yylex inp = yylex (length inp + 1) sql_flex sql_lex_action inp []"

section \<open>The transitions\<close>

definition id_char :: "char \<Rightarrow> bool" where
  "id_char c \<longleftrightarrow> (let n = of_char c :: nat in 48 \<le> n \<and> n \<le> 57 \<or> 65 \<le> n \<and> n \<le> 90 \<or> n = 95 \<or> 97 \<le> n \<and> n \<le> 122)"

abbreviation id_start :: "char \<Rightarrow> bool" where
  "id_start c \<equiv> id_char c \<and> \<not> ex_digit c"

abbreviation is_space :: "char \<Rightarrow> bool" where
  "is_space c \<equiv> c = CHR '' '' \<or> c = CHR 0x09 \<or> c = CHR 0x0A"

definition sql_class :: "char \<Rightarrow> int" where
  "sql_class ch =
     (if ch = CHR '' '' \<or> ch = CHR 0x09 then 2 else if ch = CHR 0x0A then 3 else if ex_digit ch then 4 else if ch = CHR '';'' then 5
      else if ch = CHR ''='' then 6 else if ch = CHR ''C'' then 8 else if ch = CHR ''E'' then 9 else if ch = CHR ''F'' then 10
      else if ch = CHR ''H'' then 11 else if ch = CHR ''L'' then 12 else if ch = CHR ''M'' then 13 else if ch = CHR ''O'' then 14
      else if ch = CHR ''R'' then 15 else if ch = CHR ''S'' then 16 else if ch = CHR ''T'' then 17 else if ch = CHR ''W'' then 18
      else if id_char ch then 7 else 1)"

text \<open>The states of the keywords' letters.\<close>

definition kw_next :: "int \<Rightarrow> int \<Rightarrow> int" where
  "kw_next st c =
     (if st = 11 \<and> c = 15 then 17 else if st = 17 \<and> c = 14 then 20 else if st = 20 \<and> c = 13 then 23
      else if st = 12 \<and> c = 9 then 18 else if st = 18 \<and> c = 12 then 21 else if st = 21 \<and> c = 9 then 24 else if st = 24 \<and> c = 8 then 26 else if st = 26 \<and> c = 17 then 28
      else if st = 13 \<and> c = 11 then 19 else if st = 19 \<and> c = 9 then 22 else if st = 22 \<and> c = 15 then 25 else if st = 25 \<and> c = 9 then 27
      else 16)"

definition sql_next_class :: "int \<Rightarrow> int \<Rightarrow> int" where
  "sql_next_class st c =
     (if st = 1 then if c \<le> 6 then c + 3 else if c = 10 then 11 else if c = 16 then 12 else if c = 18 then 13 else 10
      else if st \<in> {5, 6, 14} then if c = 2 \<or> c = 3 then 14 else 29
      else if st \<in> {7, 15} then if c = 4 then 15 else 29
      else if c = 4 \<or> c \<ge> 7 then kw_next st c else 29)"

definition sql_nx :: "int \<Rightarrow> char \<Rightarrow> int" where
  "sql_nx st ch = sql_next_class st (sql_class ch)"

definition sql_words :: "int list" where
  "sql_words = [10, 11, 12, 13, 16, 17, 18, 19, 20, 21, 22, 23, 24, 25, 26, 27, 28]"

definition sql_live :: "int list" where
  "sql_live = [1, 5, 6, 7, 14, 15] @ sql_words"

definition sql_acc :: "int \<Rightarrow> int" where
  "sql_acc st = yy_accept sql_flex ! nat st"

lemmas ec_simps = sql_class_def sql_flex_def nth_append nth_Cons' char_of_is ex_digit_def id_char_def Let_def

lemma sql_ec_letters: "list_all (\<lambda>n. yy_ec sql_flex ! n = sql_class (char_of n)) [65, 66, 67, 68, 69, 70, 71, 72, 73, 74, 75, 76, 77, 78, 79, 80, 81, 82, 83, 84, 85, 86, 87, 88, 89, 90]"
proof -
  have "yy_ec sql_flex ! (65 + k) = drop 65 (yy_ec sql_flex) ! k" for k
    by (rule nth_drop [symmetric]) (simp add: sql_flex_def)
  moreover have "drop 65 (yy_ec sql_flex) =
     [7, 7, 8, 7, 9, 10, 7, 11, 7, 7, 7, 12, 13, 7, 14, 7, 7, 15, 16, 17, 7, 7, 18, 7, 7, 7] @ [1, 1, 1, 1, 7, 1] @ replicate 26 7 @ replicate 133 1"
    by (simp add: sql_flex_def)
  ultimately have "yy_ec sql_flex ! n = ([7, 7, 8, 7, 9, 10, 7, 11, 7, 7, 7, 12, 13, 7, 14, 7, 7, 15, 16, 17, 7, 7, 18, 7, 7, 7] @ [1, 1, 1, 1, 7, 1] @ replicate 26 7 @ replicate 133 1) ! (n - 65)"
    if "65 \<le> n" for n by (metis that le_add_diff_inverse)
  moreover have "sql_class (char_of n) = (if n = 67 then 8 else if n = 69 then 9 else if n = 70 then 10 else if n = 72 then 11 else if n = 76 then 12
     else if n = 77 then 13 else if n = 79 then 14 else if n = 82 then 15 else if n = 83 then 16 else if n = 84 then 17 else if n = 87 then 18 else 7)"
    if "65 \<le> n" "n < 91" for n :: nat
    using that by (simp add: sql_class_def char_of_is ex_digit_def id_char_def Let_def)
  ultimately show ?thesis by simp
qed

lemma sql_ec:
  assumes "ch \<noteq> CHR 0x00"
  shows "arr_get (yy_ec sql_flex) (of_char ch) = Inr (sql_class ch)"
proof -
  obtain n where n: "n < 256" "ch = char_of n" "(of_char ch :: int) = int n" by (rule char_code)
  then have n0: "n \<noteq> 0" using assms by (auto simp: char_of_is)
  have len: "length (yy_ec sql_flex) = 256" by (simp add: sql_flex_def)
  consider "n < 48" | "48 \<le> n" "n < 58" | "58 \<le> n" "n < 65" | "n \<in> set [65..<91]" | "91 \<le> n" "n < 97" | "97 \<le> n" "n < 123" | "123 \<le> n"
    unfolding set_upt atLeastLessThan_iff by linarith
  then have "yy_ec sql_flex ! n = sql_class ch"
  proof cases
    case 4
    then have "n \<in> set [65, 66, 67, 68, 69, 70, 71, 72, 73, 74, 75, 76, 77, 78, 79, 80, 81, 82, 83, 84, 85, 86, 87, 88, 89, 90]" by (simp del: set_upt)
    then show ?thesis using sql_ec_letters unfolding n(2) list_all_iff by blast
  next
    case 1
    then show ?thesis using n(1) n0 by (simp add: n(2) ec_simps, (presburger | simp)?)
  next
    case 2
    then show ?thesis using n(1) n0 by (simp add: n(2) ec_simps, (presburger | simp)?)
  next
    case 3
    then show ?thesis using n(1) n0 by (simp add: n(2) ec_simps, (presburger | simp)?)
  next
    case 5
    then show ?thesis using n(1) n0 by (simp add: n(2) ec_simps, (presburger | simp)?)
  next
    case 6
    then show ?thesis using n(1) n0 by (simp add: n(2) ec_simps, (presburger | simp)?)
  next
    case 7
    then show ?thesis using n(1) n0 by (simp add: n(2) ec_simps, (presburger | simp)?)
  qed
  then show ?thesis using n len by simp
qed


lemma sql_class_range: "sql_class ch \<in> set [1..18]"
  by (simp add: sql_class_def)

lemma sql_delta:
  assumes "st \<in> set sql_live" and "ch \<noteq> CHR 0x00"
  shows "yy_delta sql_flex st (sql_class ch) = Inr (sql_nx st ch)"
proof -
  have "\<forall>st\<in>set sql_live. \<forall>c\<in>set [1..18]. yy_delta sql_flex st c = Inr (sql_next_class st c)" by code_simp
  then show ?thesis using assms(1) sql_class_range [of ch] unfolding sql_nx_def by blast
qed

lemma sql_targets: "\<forall>st\<in>set sql_live. \<forall>c\<in>set [1..18]. sql_next_class st c \<in> set (tl sql_live @ [4, 8, 9, 29]) \<and> (st = 1 \<longrightarrow> sql_next_class st c \<noteq> 29)"
  by code_simp

lemma sql_eob:
  "\<forall>st\<in>set sql_live. bindE (arr_get (yy_ec sql_flex) 0) (yy_delta sql_flex st) = Inr 3"
  "bindE (arr_get (yy_ec sql_flex) 0) (yy_delta sql_flex 3) = Inr 29"
  by code_simp+

lemma sql_accepts:
  "\<forall>st\<in>set (sql_live @ [4, 8, 9, 3, 29]). arr_get (yy_accept sql_flex) st = Inr (sql_acc st)"
  "sql_acc 1 = 0" "sql_acc 3 = 11" "sql_acc 29 = 0"
  "\<forall>st\<in>set (tl sql_live @ [4, 8, 9]). sql_acc st \<noteq> 0 \<and> sql_acc st \<noteq> 11"
  by code_simp+

lemma sql_bases:
  "\<forall>st\<in>set (sql_live @ [3]). (case arr_get (yy_base sql_flex) st of Inl _ \<Rightarrow> False | Inr b \<Rightarrow> b \<noteq> 41)"
  "\<forall>st\<in>set [4, 8, 9, 29]. arr_get (yy_base sql_flex) st = Inr 41"
  by code_simp+

lemma sql_params [simp]:
  "yy_jam_base sql_flex = 41" "yy_jam_state sql_flex = 29" "YY_END_OF_BUFFER sql_flex = 11"
  by (simp_all add: sql_flex_def)

lemma sql_live_tl: "set (tl sql_live) = set sql_live - {1}"
  by (auto simp: sql_live_def sql_words_def)

interpretation sql_scanner: flex_automaton sql_flex sql_nx "set sql_live" "{4, 8, 9}" sql_acc
proof (unfold_locales, goal_cases)
  case 1
  then show ?case by (simp add: sql_live_def)
next
  case (3 st ch)
  then show ?case using sql_ec [of ch] sql_delta [of st ch] by simp
next
  case (4 st ch)
  then show ?case using sql_targets sql_class_range [of ch] sql_live_tl unfolding sql_nx_def by fastforce
next
  case (5 ch)
  have "1 \<in> set sql_live" by (simp add: sql_live_def)
  then show ?case using sql_targets sql_class_range [of ch] unfolding sql_nx_def by fastforce
next
  case (6 st)
  then show ?case using sql_eob(1) by blast
next
  case 7
  then show ?case using sql_eob(2) by simp
next
  case (8 st)
  then show ?case using sql_accepts(1) by auto
next
  case (12 st)
  then show ?case using sql_accepts(5) sql_live_tl by auto
next
  case (13 st)
  then show ?case using bspec [OF sql_bases(1), of st] by (auto split: sum.splits)
next
  case (14 st)
  then show ?case using bspec [OF sql_bases(2), of st] by auto
qed (simp_all add: sql_accepts)

section \<open>What the scanner returns\<close>

lemma sql_classes:
  "sql_class c = 2 \<or> sql_class c = 3 \<longleftrightarrow> is_space c" "sql_class c = 4 \<longleftrightarrow> ex_digit c"
  "sql_class c = 4 \<or> sql_class c \<ge> 7 \<longleftrightarrow> id_char c"
  "sql_class c = 8 \<longleftrightarrow> c = CHR ''C''" "sql_class c = 9 \<longleftrightarrow> c = CHR ''E''" "sql_class c = 10 \<longleftrightarrow> c = CHR ''F''" "sql_class c = 11 \<longleftrightarrow> c = CHR ''H''"
  "sql_class c = 12 \<longleftrightarrow> c = CHR ''L''" "sql_class c = 13 \<longleftrightarrow> c = CHR ''M''" "sql_class c = 14 \<longleftrightarrow> c = CHR ''O''" "sql_class c = 15 \<longleftrightarrow> c = CHR ''R''"
  "sql_class c = 16 \<longleftrightarrow> c = CHR ''S''" "sql_class c = 17 \<longleftrightarrow> c = CHR ''T''" "sql_class c = 18 \<longleftrightarrow> c = CHR ''W''"
  by (auto simp: sql_class_def ex_digit_def id_char_def Let_def)

lemma sql_accs: "sql_acc 5 = 8" "sql_acc 6 = 8" "sql_acc 14 = 8" "sql_acc 7 = 4" "sql_acc 15 = 4" "sql_acc 4 = 9" "sql_acc 8 = 7" "sql_acc 9 = 6"
  "\<forall>st\<in>set sql_words. sql_acc st = (if st = 28 then 1 else if st = 23 then 2 else if st = 27 then 3 else 5)"
  by code_simp+

lemma sql_live_words: "set sql_words \<subseteq> set sql_live" "29 \<notin> set sql_words" "14 \<in> set sql_live" "15 \<in> set sql_live"
  by (auto simp: sql_live_def sql_words_def)

lemma munch_space: "st \<in> {5, 6, 14} \<Longrightarrow> sql_scanner.munch st ws k = (8, k + length (takeWhile is_space ws))"
proof (induction ws arbitrary: st k)
  case Nil
  then show ?case using sql_accs by auto
next
  case (Cons c ws)
  have "sql_nx st c = (if sql_class c = 2 \<or> sql_class c = 3 then 14 else 29)" using Cons.prems by (auto simp: sql_nx_def sql_next_class_def)
  then have "sql_nx st c = (if is_space c then 14 else 29)" by (simp only: sql_classes(1))
  then show ?case using Cons.IH [of 14 "k + 1"] Cons.prems sql_accs sql_live_words by (auto simp: Let_def)
qed

lemma munch_sql_number: "st \<in> {7, 15} \<Longrightarrow> sql_scanner.munch st ws k = (4, k + length (takeWhile ex_digit ws))"
proof (induction ws arbitrary: st k)
  case Nil
  then show ?case using sql_accs by auto
next
  case (Cons c ws)
  have "sql_nx st c = (if sql_class c = 4 then 15 else 29)" using Cons.prems by (auto simp: sql_nx_def sql_next_class_def)
  then have "sql_nx st c = (if ex_digit c then 15 else 29)" by (simp only: sql_classes(2))
  then show ?case using Cons.IH [of 15 "k + 1"] Cons.prems sql_accs sql_live_words by (auto simp: Let_def)
qed

text \<open>In an identifier the state tells whether the text is the beginning of a keyword.\<close>

definition word_state :: "string \<Rightarrow> int \<Rightarrow> bool" where
  "word_state w st \<longleftrightarrow> st \<in> set sql_words \<and>
     (st = 11 \<longleftrightarrow> w = ''F'') \<and> (st = 17 \<longleftrightarrow> w = ''FR'') \<and> (st = 20 \<longleftrightarrow> w = ''FRO'') \<and> (st = 23 \<longleftrightarrow> w = ''FROM'') \<and>
     (st = 12 \<longleftrightarrow> w = ''S'') \<and> (st = 18 \<longleftrightarrow> w = ''SE'') \<and> (st = 21 \<longleftrightarrow> w = ''SEL'') \<and> (st = 24 \<longleftrightarrow> w = ''SELE'') \<and> (st = 26 \<longleftrightarrow> w = ''SELEC'') \<and> (st = 28 \<longleftrightarrow> w = ''SELECT'') \<and>
     (st = 13 \<longleftrightarrow> w = ''W'') \<and> (st = 19 \<longleftrightarrow> w = ''WH'') \<and> (st = 22 \<longleftrightarrow> w = ''WHE'') \<and> (st = 25 \<longleftrightarrow> w = ''WHER'') \<and> (st = 27 \<longleftrightarrow> w = ''WHERE'')"

lemma word_state_first:
  assumes "id_start c"
  shows "word_state [c] (sql_nx 1 c)"
proof -
  have "sql_class c \<ge> 7" using assms sql_classes(2,3) [of c] by auto
  then have "sql_nx 1 c = (if c = CHR ''F'' then 11 else if c = CHR ''S'' then 12 else if c = CHR ''W'' then 13 else 10)"
    by (simp add: sql_nx_def sql_next_class_def sql_classes(6,12,14))
  then show ?thesis by (simp add: word_state_def sql_words_def)
qed

lemma kw_next_inv:
  "kw_next st c = 17 \<longleftrightarrow> st = 11 \<and> c = 15" "kw_next st c = 20 \<longleftrightarrow> st = 17 \<and> c = 14" "kw_next st c = 23 \<longleftrightarrow> st = 20 \<and> c = 13"
  "kw_next st c = 18 \<longleftrightarrow> st = 12 \<and> c = 9" "kw_next st c = 21 \<longleftrightarrow> st = 18 \<and> c = 12" "kw_next st c = 24 \<longleftrightarrow> st = 21 \<and> c = 9"
  "kw_next st c = 26 \<longleftrightarrow> st = 24 \<and> c = 8" "kw_next st c = 28 \<longleftrightarrow> st = 26 \<and> c = 17" "kw_next st c = 19 \<longleftrightarrow> st = 13 \<and> c = 11"
  "kw_next st c = 22 \<longleftrightarrow> st = 19 \<and> c = 9" "kw_next st c = 25 \<longleftrightarrow> st = 22 \<and> c = 15" "kw_next st c = 27 \<longleftrightarrow> st = 25 \<and> c = 9"
  "kw_next st c \<noteq> 11" "kw_next st c \<noteq> 12" "kw_next st c \<noteq> 13"
  by (simp_all add: kw_next_def)

lemma word_state_next:
  assumes "word_state w st" and "id_char c" and "w \<noteq> []"
  shows "word_state (w @ [c]) (sql_nx st c)"
proof -
  have "st \<in> set sql_words" using assms(1) by (simp only: word_state_def)
  then have st: "st \<noteq> 1" "st \<notin> {5, 6, 14}" "st \<notin> {7, 15}" by (auto simp: sql_words_def)
  then have nx: "sql_nx st c = kw_next st (sql_class c)" using assms(2) sql_classes(3) [of c] by (simp add: sql_nx_def sql_next_class_def)
  have one: "w @ [c] \<noteq> [x]" for x using assms(3) by simp
  have more: "w @ [c] = x # y # zs \<longleftrightarrow> w = x # butlast (y # zs) \<and> c = last (y # zs)" for x y zs
    by (metis append_butlast_last_id butlast.simps(2) butlast_snoc last_ConsR last_snoc list.discI)
  have "kw_next st (sql_class c) \<in> set sql_words" by (simp add: kw_next_def sql_words_def)
  moreover have
    "(st = 11) = (w = ''F'')" "(st = 17) = (w = ''FR'')" "(st = 20) = (w = ''FRO'')" "(st = 12) = (w = ''S'')" "(st = 18) = (w = ''SE'')"
    "(st = 21) = (w = ''SEL'')" "(st = 24) = (w = ''SELE'')" "(st = 26) = (w = ''SELEC'')" "(st = 13) = (w = ''W'')" "(st = 19) = (w = ''WH'')"
    "(st = 22) = (w = ''WHE'')" "(st = 25) = (w = ''WHER'')"
    using assms(1) by (simp_all only: word_state_def)
  ultimately show ?thesis
    unfolding word_state_def nx kw_next_inv sql_classes(4-14) more by (simp add: one kw_next_inv)
qed

definition word_rule :: "string \<Rightarrow> int" where
  "word_rule w = (if w = ''SELECT'' then 1 else if w = ''FROM'' then 2 else if w = ''WHERE'' then 3 else 5)"

lemma word_acc: "word_state w st \<Longrightarrow> sql_acc st = word_rule w"
  using sql_accs(9) by (simp add: word_state_def word_rule_def)

lemma munch_word:
  "word_state w st \<Longrightarrow> w \<noteq> [] \<Longrightarrow>
   sql_scanner.munch st ws k = (word_rule (w @ takeWhile id_char ws), k + length (takeWhile id_char ws))"
proof (induction ws arbitrary: w st k)
  case Nil
  then show ?case using word_acc by simp
next
  case (Cons c ws)
  have st: "st \<in> set sql_words" using Cons.prems(1) by (simp only: word_state_def)
  show ?case
  proof (cases "id_char c")
    case True
    have nxt: "word_state (w @ [c]) (sql_nx st c)" using Cons.prems True by (intro word_state_next)
    then have "sql_nx st c \<in> set sql_words" by (simp only: word_state_def)
    then have "sql_nx st c \<in> set sql_live" "sql_nx st c \<noteq> 29" using sql_live_words by auto
    then show ?thesis using Cons.IH [OF nxt, of "k + 1"] True by (simp add: Let_def)
  next
    case False
    have "st \<noteq> 1" "st \<notin> {5, 6, 14}" "st \<notin> {7, 15}" using st by (auto simp: sql_words_def)
    then have "sql_nx st c = 29" using False sql_classes(3) [of c] by (simp add: sql_nx_def sql_next_class_def)
    then show ?thesis using False word_acc [OF Cons.prems(1)] by (simp add: Let_def)
  qed
qed

lemma sql_first:
  "is_space c \<Longrightarrow> sql_nx 1 c \<in> {5, 6}" "ex_digit c \<Longrightarrow> sql_nx 1 c = 7"
  "\<not> is_space c \<Longrightarrow> \<not> id_char c \<Longrightarrow> sql_nx 1 c = (if c = CHR '';'' then 8 else if c = CHR ''='' then 9 else 4)"
proof -
  show "is_space c \<Longrightarrow> sql_nx 1 c \<in> {5, 6}" using sql_classes(1) [of c] by (auto simp: sql_nx_def sql_next_class_def)
  show "ex_digit c \<Longrightarrow> sql_nx 1 c = 7" using sql_classes(2) [of c] by (simp add: sql_nx_def sql_next_class_def)
  assume c: "\<not> is_space c" "\<not> id_char c"
  then have "sql_class c = (if c = CHR '';'' then 5 else if c = CHR ''='' then 6 else 1)"
    using sql_classes(3) [of c] unfolding sql_class_def by (simp split: if_splits)
  then show "sql_nx 1 c = (if c = CHR '';'' then 8 else if c = CHR ''='' then 9 else 4)"
    by (simp add: sql_nx_def sql_next_class_def)
qed

lemma sql_munch:
  "sql_scanner.munch 1 (c # ws) 0 =
    (if is_space c then (8, Suc (length (takeWhile is_space ws)))
     else if ex_digit c then (4, Suc (length (takeWhile ex_digit ws)))
     else if id_char c then (word_rule (c # takeWhile id_char ws), Suc (length (takeWhile id_char ws)))
     else (if c = CHR '';'' then 7 else if c = CHR ''='' then 6 else 9, 1))"
proof -
  consider (s) "is_space c" | (d) "\<not> is_space c" "ex_digit c" | (w) "\<not> is_space c" "\<not> ex_digit c" "id_char c" | (o) "\<not> is_space c" "\<not> id_char c" "\<not> ex_digit c"
    by blast
  then show ?thesis
  proof cases
    case s
    have st: "sql_nx 1 c \<in> {5, 6, 14}" using sql_first(1) [OF s] by blast
    then have "sql_nx 1 c \<in> set sql_live" "sql_nx 1 c \<noteq> 29" by (auto simp: sql_live_def)
    then show ?thesis using munch_space [OF st, of ws 1] s by (simp only: sql_scanner.munch.simps Let_def if_False if_True simp_thms) simp
  next
    case d
    have "7 \<in> set sql_live" by (simp add: sql_live_def)
    then show ?thesis using d sql_first(2) [OF d(2)] munch_sql_number [of 7 ws 1] by (simp add: Let_def)
  next
    case w
    have ws: "word_state [c] (sql_nx 1 c)" using w by (intro word_state_first) simp
    then have "sql_nx 1 c \<in> set sql_words" by (simp only: word_state_def)
    then have "sql_nx 1 c \<in> set sql_live" "sql_nx 1 c \<noteq> 29" using sql_live_words by auto
    then show ?thesis using munch_word [OF ws, of ws 1] w by (simp add: Let_def)
  next
    case o
    have "8 \<notin> set sql_live" "9 \<notin> set sql_live" "4 \<notin> set sql_live" by (simp_all add: sql_live_def sql_words_def)
    then show ?thesis using o sql_first(3) [OF o(1,2)] sql_accs by (simp add: Let_def)
  qed
qed

declare sql_scanner.munch.simps [simp del]

text \<open>The next token by the rules of \<^verbatim>\<open>sql_lex.l\<close>.\<close>

definition sql_word :: "string \<Rightarrow> int \<times> sval option" where
  "sql_word w = (if w = ''SELECT'' then (SELECT_TOKEN, None) else if w = ''FROM'' then (FROM_TOKEN, None)
     else if w = ''WHERE'' then (WHERE_TOKEN, None) else (IDENTIFIER, Some (SStr w)))"

definition sql_nxt :: "string \<Rightarrow> (int \<times> sval option \<times> string) res" where
  "sql_nxt inp =
     (case dropWhile is_space inp of
        [] \<Rightarrow> Inr (0, None, [])
      | c # cs \<Rightarrow>
          if ex_digit c
          then bindE (ex_int (ex_decimal (takeWhile ex_digit (c # cs)))) (\<lambda>n. Inr (SQL_NUMBER, Some (SNum n), dropWhile ex_digit cs))
          else if id_char c then (case sql_word (takeWhile id_char (c # cs)) of (k, v) \<Rightarrow> Inr (k, v, dropWhile id_char cs))
          else Inr (if c = CHR '';'' then SEMICOLON else if c = CHR ''='' then EQ else schar c, None, cs))"

lemma sql_word_action: "sql_lex_action (word_rule w) w = (case sql_word w of (k, v) \<Rightarrow> Inr (Token k v))"
  by (simp add: sql_lex_action_def word_rule_def sql_word_def)

lemma sql_actions:
  "sql_lex_action 8 w = Inr (Continue [])"
  "sql_lex_action 4 w = bindE (ex_atoi w) (\<lambda>n. Inr (Token SQL_NUMBER (Some (SNum n))))"
  "sql_lex_action 7 w = Inr (Token SEMICOLON None)" "sql_lex_action 6 w = Inr (Token EQ None)"
  "sql_lex_action 9 (c # w) = Inr (Token (schar c) None)"
  by (simp_all add: sql_lex_action_def)

lemma yylex_sql:
  assumes "CHR 0x00 \<notin> set inp" and "length inp < k"
  shows "yylex k sql_flex sql_lex_action inp [] = bindE (sql_nxt inp) (\<lambda>(kind, v, rest). Inr (kind, v, rest, []))"
  using assms
proof (induction k arbitrary: inp)
  case (Suc k)
  note scan = sql_scanner.scan_munch [OF Suc.prems(1), of "length inp"]
  show ?case
  proof (cases inp)
    case Nil
    then show ?thesis using scan by (simp add: sql_nxt_def)
  next
    case (Cons c cs)
    have tw: "take (length (takeWhile P cs)) cs = takeWhile P cs" "drop (length (takeWhile P cs)) cs = dropWhile P cs" for P
      by (simp_all flip: takeWhile_eq_take dropWhile_eq_drop)
    consider (s) "is_space c" | (d) "\<not> is_space c" "ex_digit c" | (w) "\<not> is_space c" "\<not> ex_digit c" "id_char c" | (o) "\<not> is_space c" "\<not> id_char c" "\<not> ex_digit c"
      by blast
    then show ?thesis
    proof cases
      case s
      have sub: "CHR 0x00 \<notin> set (dropWhile is_space cs)" "length (dropWhile is_space cs) < k"
        using Suc.prems Cons length_dropWhile_le [of is_space cs] by (auto dest: set_dropWhileD)
      have "sql_nxt (dropWhile is_space cs) = sql_nxt inp" using s Cons by (simp add: sql_nxt_def)
      then show ?thesis using Suc.IH [OF sub] scan s Cons by (simp add: sql_munch sql_actions tw)
    next
      case d
      have "ex_atoi (c # takeWhile ex_digit cs) = ex_int (ex_decimal (c # takeWhile ex_digit cs))"
        by (rule atoi_digits) (use d in \<open>auto dest: set_takeWhileD\<close>)
      then show ?thesis using scan d Cons tw [of ex_digit]
        by (cases "ex_int (ex_decimal (c # takeWhile ex_digit cs))") (simp_all add: sql_munch sql_actions sql_nxt_def)
    next
      case w
      then show ?thesis using scan Cons tw [of id_char] by (simp add: sql_munch sql_word_action sql_nxt_def split: prod.split)
    next
      case o
      then show ?thesis using scan Cons by (simp add: sql_munch sql_actions sql_nxt_def)
    qed
  qed
qed simp

lemma sql_yylex_ok:
  "CHR 0x00 \<notin> set inp \<Longrightarrow> sql_yylex inp = bindE (sql_nxt inp) (\<lambda>(kind, v, rest). Inr (kind, v, rest, []))"
  unfolding sql_yylex_def by (rule yylex_sql) simp_all

end
