(* ===== verification/SqlParser.thy ===== *)
theory SqlParser
  imports Bison SqlScanner
begin

text \<open>
  The query parser of \<^verbatim>\<open>LEXICAL_ANALYZER/TASK\<close>: the action, the tables and the functions of \<^verbatim>\<open>sql_lex.tab.c\<close> (generated from
  \<^verbatim>\<open>sql_lex.y\<close>) on the engine of \<open>Bison\<close>. The theorem says that the parser reads the longest sequence of complete statements, reports
  each of them, and then either ends or reports one error.
\<close>

definition sv_str :: "sval \<Rightarrow> string res" where
  "sv_str v = (case v of SStr w \<Rightarrow> Inr w | _ \<Rightarrow> Inl Uninitialised)"

definition sv_num :: "sval \<Rightarrow> int res" where
  "sv_num v = (case v of SNum n \<Rightarrow> Inr n | _ \<Rightarrow> Inl Uninitialised)"

type_synonym query = "string \<times> string \<times> string \<times> int"

fun sql_report :: "query \<Rightarrow> outs" where
  "sql_report (col, tab, field, n) =
     [Txt ''\<newline>Parser SQL Successfully!\<newline>'', Txt ''Column: '', Txt col, Txt ''\<newline>'', Txt ''Table: '', Txt tab, Txt ''\<newline>'',
      Txt ''where : '', Txt field, Txt '' = '', Num n, Txt '' \<newline>'']"

definition sql_action :: "int \<Rightarrow> sval list \<Rightarrow> sval \<Rightarrow> outs \<Rightarrow> (sval \<times> outs) res" where
  "sql_action yyn yyvsp yyval out =
     (if yyn = 4
      then bindE (arr_get yyvsp 7) (\<lambda>v. bindE (sv_str v) (\<lambda>col.
           bindE (arr_get yyvsp 5) (\<lambda>v. bindE (sv_str v) (\<lambda>tab.
           bindE (arr_get yyvsp 3) (\<lambda>v. bindE (sv_str v) (\<lambda>field.
           bindE (arr_get yyvsp 1) (\<lambda>v. bindE (sv_num v) (\<lambda>n.
             Inr (yyval, out @ sql_report (col, tab, field, n))))))))))
      else Inr (yyval, out))"

definition sql_tables :: bison where
  "sql_tables = \<lparr>
     yytranslate = [0] @ replicate 255 2 @ [1, 2, 3, 4, 5, 6, 7, 8, 9],
     yypact = [-8, 0, -8, -7, -8, -2, -4, 1, -3, 2, 3, 4, -8],
     yydefact = [2, 0, 1, 0, 3, 0, 0, 0, 0, 0, 0, 0, 4],
     yypgoto = [-8, -8, -8],
     yydefgoto = [0, 1, 4],
     yytable = [2, 5, 6, 3, 7, 9, 8, 0, 10, 0, 0, 12, 11],
     yycheck = [0, 8, 4, 3, 8, 8, 5, -1, 6, -1, -1, 7, 9],
     yyr1 = [0, 10, 11, 11, 12],
     yyr2 = [0, 2, 0, 2, 9],
     YYFINAL = 2, YYLAST = 12, YYNTOKENS = 10, YYMAXUTOK = 264, YYPACT_NINF = -8\<rparr>"

definition sql_yyerror :: "string \<Rightarrow> sval yyp \<Rightarrow> sval yyp" where
  "sql_yyerror msg s = s\<lparr>yyout := yyout s @ [Txt ''Syntax Error: '', Txt msg, Txt ''\<newline>'']\<rparr>"

definition sql_env :: "(nat \<Rightarrow> bool) \<Rightarrow> sval yyenv" where
  "sql_env mem = \<lparr>yytabs = sql_tables, yyscan = sql_yylex, yyaction = sql_action, yyerror = sql_yyerror, yygarbage = SGarbage, yymem = mem\<rparr>"

text \<open>\<^verbatim>\<open>main\<close> on an input, with what \<^verbatim>\<open>yyparse\<close> returns; two rounds of the engine for each character are enough.\<close>

definition sql_lex_main :: "(nat \<Rightarrow> bool) \<Rightarrow> string \<Rightarrow> (int \<times> sval yyp) res" where
  "sql_lex_main mem inp = yyparse (2 * length inp + 20) (sql_env mem) inp [Txt ''Enter SQL Query:\<newline>'']"

section \<open>The automaton\<close>

text \<open>The tokens of a statement, and the states before and after each of them.\<close>

definition sql_kinds_expected :: "int list" where
  "sql_kinds_expected = [SELECT_TOKEN, IDENTIFIER, FROM_TOKEN, IDENTIFIER, WHERE_TOKEN, IDENTIFIER, EQ, SQL_NUMBER, SEMICOLON]"

definition sql_states :: "int list" where
  "sql_states = [1, 3, 5, 6, 7, 8, 9, 10, 11, 12]"

definition sql_sym :: "int \<Rightarrow> int" where
  "sql_sym k = (if 258 \<le> k \<and> k \<le> 264 then k - 255 else if k = YYerror then 1 else 2)"

definition sql_act :: "int \<Rightarrow> int \<Rightarrow> lr_action" where
  "sql_act st a =
     (if st = 0 then Reduce 2 else if st = 2 then Reduce 1 else if st = 4 then Reduce 3 else if st = 12 then Reduce 4
      else if st = 1 then if a = 0 then Shift 2 else if a = 3 then Shift 3 else Error
      else if st = 3 then if a = 8 then Shift 5 else Error
      else if st = 5 then if a = 4 then Shift 6 else Error
      else if st = 6 then if a = 8 then Shift 7 else Error
      else if st = 7 then if a = 5 then Shift 8 else Error
      else if st = 8 then if a = 8 then Shift 9 else Error
      else if st = 9 then if a = 6 then Shift 10 else Error
      else if st = 10 then if a = 9 then Shift 11 else Error
      else if a = 7 then Shift 12 else Error)"

lemma sql_table_act:
  assumes "st \<in> {0..12}" and "a \<in> {0..9}"
  shows "yyact sql_tables st a = Inr (sql_act st a)"
proof -
  have "\<forall>st\<in>set [0..12]. \<forall>a\<in>set [0..9]. yyact sql_tables st a = Inr (sql_act st a)" by code_simp
  then show ?thesis using assms by simp
qed

lemma sql_no_error_token: "st \<in> {0..12} \<Longrightarrow> yyerr_target sql_tables st = Inr 0"
proof -
  have "\<forall>st\<in>set [0..12]. yyerr_target sql_tables st = Inr 0" by code_simp
  then show "st \<in> {0..12} \<Longrightarrow> yyerr_target sql_tables st = Inr 0" by simp
qed

lemma sql_symbols: "0 < k \<Longrightarrow> YYTRANSLATE sql_tables k = Inr (sql_sym k)"
proof -
  assume k: "0 < k"
  show ?thesis
  proof (cases "k \<le> 264")
    case True
    define n where "n = nat k"
    have n: "0 < n" "n \<le> 264" "k = int n" using k True by (simp_all add: n_def)
    have "length (yytranslate sql_tables) = 265" by (simp add: sql_tables_def)
    moreover have "yytranslate sql_tables ! n = sql_sym k"
      using n unfolding n(3) by (simp add: sql_tables_def sql_sym_def nth_append nth_Cons' YYerror_def) presburger
    ultimately show ?thesis using n by (simp add: YYTRANSLATE_def sql_tables_def)
  next
    case False
    then show ?thesis by (simp add: YYTRANSLATE_def sql_sym_def sql_tables_def YYerror_def YYSYMBOL_YYUNDEF_def)
  qed
qed

text \<open>What the scanner's tokens carry.\<close>

type_synonym stok = "int \<times> sval option"

definition stok_ok :: "stok \<Rightarrow> bool" where
  "stok_ok t \<longleftrightarrow> (fst t = IDENTIFIER \<longrightarrow> (\<exists>w. snd t = Some (SStr w))) \<and> (fst t = SQL_NUMBER \<longrightarrow> (\<exists>n. snd t = Some (SNum n))) \<and>
     (fst t \<noteq> IDENTIFIER \<and> fst t \<noteq> SQL_NUMBER \<longrightarrow> snd t = None)"

lemma sql_nxt_rest:
  assumes "sql_nxt inp = Inr (k, v, rest)"
  shows "set rest \<subseteq> set inp \<and> (k > 0 \<longrightarrow> length rest < length inp) \<and> k \<noteq> YYerror \<and> stok_ok (k, v)"
proof (cases "dropWhile is_space inp")
  case Nil
  then show ?thesis using assms unfolding sql_nxt_def Nil list.case by (simp add: stok_ok_def sql_kinds YYerror_def)
next
  case (Cons c cs)
  have cs: "set (c # cs) \<subseteq> set inp" "length (c # cs) \<le> length inp"
    unfolding Cons [symmetric] by (auto dest: set_dropWhileD simp: length_dropWhile_le)
  have dw: "length (dropWhile P cs) \<le> length cs" "set (dropWhile P cs) \<subseteq> set cs" for P
    by (auto simp: length_dropWhile_le dest: set_dropWhileD)
  have schar: "schar c < 128" by (rule schar_code [of c]) auto
  have word: "stok_ok (sql_word w)" "fst (sql_word w) \<noteq> YYerror" for w by (auto simp: sql_word_def stok_ok_def sql_kinds YYerror_def)
  from assms have eq: "(if ex_digit c
          then bindE (ex_int (ex_decimal (takeWhile ex_digit (c # cs)))) (\<lambda>n. Inr (SQL_NUMBER, Some (SNum n), dropWhile ex_digit cs))
          else if id_char c then (case sql_word (takeWhile id_char (c # cs)) of (k, v) \<Rightarrow> Inr (k, v, dropWhile id_char cs))
          else Inr (if c = CHR '';'' then SEMICOLON else if c = CHR ''='' then EQ else schar c, None, cs)) = Inr (k, v, rest)"
    unfolding sql_nxt_def Cons list.case .
  show ?thesis
  proof (cases "ex_digit c")
    case True
    then show ?thesis using eq cs dw [of ex_digit] by (auto simp: bindE_eq_Inr stok_ok_def sql_kinds YYerror_def)
  next
    case nd: False
    show ?thesis
    proof (cases "id_char c")
      case True
      then have "sql_word (takeWhile id_char (c # cs)) = (k, v)" "rest = dropWhile id_char cs" using eq nd by (simp_all split: prod.splits)
      then show ?thesis using cs dw [of id_char] word [of "takeWhile id_char (c # cs)"] by auto
    next
      case False
      then show ?thesis using eq nd cs schar by (auto simp: stok_ok_def sql_kinds YYerror_def split: if_splits)
    qed
  qed
qed

interpretation sql_parser: bison_parser "sql_env mem" "{0..12}" sql_act sql_sym sql_nxt "\<lambda>inp. CHR 0x00 \<notin> set inp" for mem
proof (unfold_locales, goal_cases)
  case (1 st a)
  then have "a \<in> {0..9}" by (auto simp: sql_sym_def)
  then show ?case using 1 sql_table_act [of st a] by (simp add: sql_env_def)
next
  case (2 k)
  then show ?case using sql_symbols by (simp add: sql_env_def)
next
  case (3 st)
  then show ?case using sql_no_error_token by (simp add: sql_env_def)
next
  case (4 inp)
  then show ?case using sql_yylex_ok [of inp] by (simp add: sql_env_def)
next
  case (5 inp k v rest)
  then show ?case using sql_nxt_rest [of inp k v rest] by auto
next
  case (6 m s)
  then show ?case by (simp add: sql_env_def sql_yyerror_def)
qed

section \<open>Statements\<close>

abbreviation sE :: "sval yyenv" where "sE \<equiv> sql_env (\<lambda>n. True)"

lemma sE_fields [simp]:
  "yytabs (sql_env mem) = sql_tables" "yyaction (sql_env mem) = sql_action" "yygarbage (sql_env mem) = SGarbage"
  "yymem (sql_env mem) = mem" "YYFINAL sql_tables = 2" "yyerror (sql_env mem) = sql_yyerror"
  by (simp_all add: sql_env_def sql_tables_def)

fun stmt_toks :: "query \<Rightarrow> stok list" where
  "stmt_toks (col, tab, field, n) =
     [(SELECT_TOKEN, None), (IDENTIFIER, Some (SStr col)), (FROM_TOKEN, None), (IDENTIFIER, Some (SStr tab)), (WHERE_TOKEN, None),
      (IDENTIFIER, Some (SStr field)), (EQ, None), (SQL_NUMBER, Some (SNum n)), (SEMICOLON, None)]"

lemma sql_path:
  "\<forall>i\<in>set [0..<9]. sql_act (sql_states ! i) (sql_sym (sql_kinds_expected ! i)) = Shift (sql_states ! (i + 1)) \<and> sql_states ! i \<in> {0..12} - {2}"
  by code_simp

lemma sql_off_path:
  assumes "i < 9" and "a \<in> {0..9}" and "a \<noteq> sql_sym (sql_kinds_expected ! i)" and "\<not> (a = 0 \<and> i = 0)"
  shows "sql_act (sql_states ! i) a = Error"
proof -
  have "\<forall>i\<in>set [0..<9]. \<forall>a\<in>set [0..9]. a = sql_sym (sql_kinds_expected ! i) \<or> a = 0 \<and> i = 0 \<or> sql_act (sql_states ! i) a = Error"
    by code_simp
  from bspec [OF bspec [OF this, of i], of a] show ?thesis using assms by auto
qed

lemma sql_shift:
  assumes "sql_parser.pend s ss vs ((k, v) # rem) lv out" and "length ss < 20" and "st \<in> {0..12} - {2}" and "sql_act st (sql_sym k) = Shift q"
  obtains s' lv' where "\<And>n. yyloop (Suc n) sE st s = yyloop n sE q s'" and "sql_parser.pend s' (st # ss) (lv' # vs) rem lv' out"
    and "\<And>x. v = Some x \<Longrightarrow> lv' = x"
proof -
  obtain s' where "yysetstate sE st s = Inr (NewState q s')"
    "sql_parser.pend s' (st # ss) (sql_parser.new_lval lv [(k, v)] # vs) rem (sql_parser.new_lval lv [(k, v)]) out"
    by (rule sql_parser.shift_step [where mem = "\<lambda>n. True", OF assms(1) _ _ _ _ assms(4)]) (use assms(2,3) in \<open>auto simp: YYMAXDEPTH_def\<close>)
  then show thesis by (intro that [of s' "sql_parser.new_lval lv [(k, v)]"]) (auto simp: sql_parser.new_lval_def)
qed

text \<open>While the kinds are those of a statement the parser shifts them, with their values.\<close>

definition walked :: "nat \<Rightarrow> stok list \<Rightarrow> sval yyp \<Rightarrow> sval list \<Rightarrow> outs \<Rightarrow> sval yyp \<Rightarrow> sval list \<Rightarrow> bool" where
  "walked i rem s vs out s' us \<longleftrightarrow>
     (\<forall>n. yyloop (i + n) sE 1 s = yyloop n sE (sql_states ! i) s') \<and> length us = i \<and>
     (\<exists>lv. sql_parser.pend s' (rev (take i sql_states) @ [0]) (rev us @ vs) (drop i rem) lv out) \<and>
     (\<forall>j<i. \<forall>x. snd (rem ! j) = Some x \<longrightarrow> us ! j = x)"

lemma walk:
  assumes "sql_parser.pend s [0] vs rem lv out"
  shows "i \<le> 9 \<Longrightarrow> i \<le> length rem \<Longrightarrow> (\<forall>j<i. fst (rem ! j) = sql_kinds_expected ! j) \<Longrightarrow> \<exists>s' us. walked i rem s vs out s' us"
proof (induction i)
  case 0
  then show ?case using assms by (intro exI [of _ s] exI [of _ "[]"]) (auto simp: walked_def sql_states_def)
next
  case (Suc i)
  then obtain s1 us where w: "walked i rem s vs out s1 us" by auto
  then obtain lv1 where p: "sql_parser.pend s1 (rev (take i sql_states) @ [0]) (rev us @ vs) (drop i rem) lv1 out" by (auto simp: walked_def)
  obtain k v where t: "rem ! i = (k, v)" by (cases "rem ! i")
  have d: "drop i rem = (k, v) # drop (Suc i) rem" using t Suc.prems(2) Cons_nth_drop_Suc [of i rem] by simp
  have k: "k = sql_kinds_expected ! i" using Suc.prems(3) t by (metis fst_conv lessI)
  have i: "i \<in> set [0..<9]" using Suc.prems(1) by simp
  have len: "length sql_states = 10" by (simp add: sql_states_def)
  obtain s2 lv2 where s2: "\<And>n. yyloop (Suc n) sE (sql_states ! i) s1 = yyloop n sE (sql_states ! (i + 1)) s2"
    "sql_parser.pend s2 (sql_states ! i # rev (take i sql_states) @ [0]) (lv2 # rev us @ vs) (drop (Suc i) rem) lv2 out"
    "\<And>x. v = Some x \<Longrightarrow> lv2 = x"
    by (rule sql_shift [OF p [unfolded d]]) (use bspec [OF sql_path i] k len Suc.prems(1) in auto)
  have "rev (take (Suc i) sql_states) = sql_states ! i # rev (take i sql_states)" using Suc.prems(1) len by (simp add: take_Suc_conv_app_nth)
  moreover have "yyloop (Suc i + n) sE 1 s = yyloop n sE (sql_states ! Suc i) s2" for n
  proof -
    have "yyloop (i + Suc n) sE 1 s = yyloop (Suc n) sE (sql_states ! i) s1" using w unfolding walked_def by blast
    then show ?thesis using s2(1) [of n] by simp
  qed
  moreover have "(us @ [lv2]) ! j = x" if "j < Suc i" "snd (rem ! j) = Some x" for j x
    using that w s2(3) t by (cases "j = i") (auto simp: walked_def nth_append)
  ultimately have "walked (Suc i) rem s vs out s2 (us @ [lv2])" using w s2(2) unfolding walked_def by auto
  then show ?case by blast
qed

text \<open>A statement is shifted and reduced to one more statement of the list, and is reported.\<close>

lemma sql_reductions:
  "arr_get (yyr2 sql_tables) 2 = Inr (int 0)" "arr_get (yyr2 sql_tables) 3 = Inr (int 2)" "arr_get (yyr2 sql_tables) 4 = Inr (int 9)"
  "yygoto sql_tables 2 0 = Inr 1" "yygoto sql_tables 3 0 = Inr 1" "yygoto sql_tables 4 1 = Inr 4"
  by code_simp+

lemma sql_reduce:
  assumes "sql_parser.pend s ss vs rem lv out" and "length ss < 20" and "st \<in> {0..12} - {2}" and "\<And>a. sql_act st a = Reduce r"
    and "arr_get (yyr2 sql_tables) r = Inr (int l)" and "l \<le> length vs" and "drop l (st # ss) = p # ps" and "yygoto sql_tables r p = Inr q"
    and "sql_action r vs (if l = 0 then SGarbage else vs ! (l - 1)) out = Inr (v, out')"
  obtains s' where "\<And>n. yyloop (Suc n) sE st s = yyloop n sE q s'" and "sql_parser.pend s' (p # ps) (v # drop l vs) rem lv out'"
proof -
  obtain s' where "yysetstate sE st s = Inr (NewState q s')" "sql_parser.pend s' (p # ps) (v # drop l vs) rem lv out'"
    by (rule sql_parser.reduce_step [where mem = "\<lambda>n. True" and q = q, OF assms(1) _ _ _ _ assms(4)])
      (use assms(2,3,5-9) in \<open>auto simp: YYMAXDEPTH_def\<close>)
  then show thesis by (intro that [of s']) auto
qed

lemma stmt_toks_expected:
  "length (stmt_toks q) = 9" "j < 9 \<Longrightarrow> fst (stmt_toks q ! j) = sql_kinds_expected ! j"
proof -
  obtain c t f n where q: "q = (c, t, f, n)" by (cases q)
  show "length (stmt_toks q) = 9" by (simp add: q)
  assume "j < 9"
  moreover have "map fst (stmt_toks q) = sql_kinds_expected" by (simp add: q sql_kinds_expected_def)
  ultimately show "fst (stmt_toks q ! j) = sql_kinds_expected ! j" by (metis \<open>length (stmt_toks q) = 9\<close> nth_map)
qed

lemma statement_run:
  assumes "sql_parser.pend s [0] [a, b] (stmt_toks q @ rem) lv out"
  obtains s' a' lv' where "\<And>n. yyloop (11 + n) sE 1 s = yyloop n sE 1 s'" and "sql_parser.pend s' [0] [a', b] rem lv' (out @ sql_report q)"
proof -
  obtain c t f n where q: "q = (c, t, f, n)" by (cases q)
  have "\<exists>s' us. walked 9 (stmt_toks q @ rem) s [a, b] out s' us"
    by (rule walk [OF assms]) (auto simp: stmt_toks_expected nth_append)
  then obtain s1 us lv1 where w: "\<And>n. yyloop (9 + n) sE 1 s = yyloop n sE 12 s1" "length us = 9"
    "sql_parser.pend s1 (rev (take 9 sql_states) @ [0]) (rev us @ [a, b]) rem lv1 out"
    "\<And>j x. j < 9 \<Longrightarrow> snd ((stmt_toks q @ rem) ! j) = Some x \<Longrightarrow> us ! j = x"
    by (auto simp: walked_def stmt_toks_expected sql_states_def)
  have us: "us ! 1 = SStr c" "us ! 3 = SStr t" "us ! 5 = SStr f" "us ! 7 = SNum n"
    by (rule w(4); simp add: q)+
  then have top: "rev us ! 7 = SStr c" "rev us ! 5 = SStr t" "rev us ! 3 = SStr f" "rev us ! 1 = SNum n"
    using w(2) by (simp_all add: rev_nth)
  have ss: "rev (take 9 sql_states) @ [0] = [11, 10, 9, 8, 7, 6, 5, 3, 1, 0]" by (simp add: sql_states_def)
  have act: "sql_action 4 (rev us @ [a, b]) (us ! 0) out = Inr (us ! 0, out @ sql_report q)"
    using top w(2) by (simp add: sql_action_def nth_append sv_str_def sv_num_def q)
  obtain s2 where s2: "\<And>n. yyloop (Suc n) sE 12 s1 = yyloop n sE 4 s2" "sql_parser.pend s2 [1, 0] [us ! 0, a, b] rem lv1 (out @ sql_report q)"
    by (rule sql_reduce [OF w(3) [unfolded ss], where st = 12 and r = 4 and l = 9 and p = 1 and ps = "[0]" and q = 4 and v = "us ! 0" and out' = "out @ sql_report q"])
      (use act w(2) in \<open>auto simp: sql_act_def sql_reductions nth_append rev_nth\<close>)
  obtain s3 where s3: "\<And>n. yyloop (Suc n) sE 4 s2 = yyloop n sE 1 s3" "sql_parser.pend s3 [0] [a, b] rem lv1 (out @ sql_report q)"
    by (rule sql_reduce [OF s2(2), where st = 4 and r = 3 and l = 2 and p = 0 and ps = "[]" and q = 1 and v = a and out' = "out @ sql_report q"])
      (auto simp: sql_act_def sql_reductions sql_action_def)
  have "yyloop (11 + n) sE 1 s = yyloop n sE 1 s3" for n using w(1) [of "Suc (Suc n)"] s2(1) s3(1) by (simp add: eval_nat_numeral)
  then show thesis using that s3(2) by blast
qed

text \<open>What is not a statement is left at the first token that does not fit, with the error.\<close>

definition sql_error :: outs where
  "sql_error = [Txt ''Syntax Error: '', Txt ''syntax error'', Txt ''\<newline>'']"

definition no_statement :: "stok list \<Rightarrow> bool" where
  "no_statement rem \<longleftrightarrow> (\<nexists>q r. rem = stmt_toks q @ r)"

lemma all_fit:
  assumes "\<forall>t\<in>set rem. stok_ok t" and "9 \<le> length rem" and "\<forall>j<9. fst (rem ! j) = sql_kinds_expected ! j"
  shows "\<not> no_statement rem"
proof -
  have ok: "stok_ok (rem ! j)" if "j < 9" for j using that assms(1,2) by simp
  have f: "fst (rem ! j) = sql_kinds_expected ! j" if "j < 9" for j using that assms(3) by simp
  have id: "\<exists>w. rem ! j = (IDENTIFIER, Some (SStr w))" if "j \<in> {1, 3, 5}" for j
    using ok [of j] f [of j] that by (cases "rem ! j") (auto simp: stok_ok_def sql_kinds_expected_def)
  obtain c t g where s: "rem ! 1 = (IDENTIFIER, Some (SStr c))" "rem ! 3 = (IDENTIFIER, Some (SStr t))" "rem ! 5 = (IDENTIFIER, Some (SStr g))"
    using id [of 1] id [of 3] id [of 5] by auto
  obtain n where n: "rem ! 7 = (SQL_NUMBER, Some (SNum n))"
    using ok [of 7] f [of 7] by (cases "rem ! 7") (auto simp: stok_ok_def sql_kinds_expected_def)
  have kw: "rem ! j = (sql_kinds_expected ! j, None)" if "j \<in> {0, 2, 4, 6, 8}" for j
    using ok [of j] f [of j] that by (cases "rem ! j") (auto simp: stok_ok_def sql_kinds_expected_def sql_kinds)
  have "take 9 rem = map ((!) rem) [0..<9]" using assms(2) by (auto intro: nth_equalityI)
  also have "\<dots> = map ((!) rem) [0, 1, 2, 3, 4, 5, 6, 7, 8]" by (simp add: upt_rec eval_nat_numeral)
  also have "\<dots> = stmt_toks (c, t, g, n)" using s n kw [of 0] kw [of 2] kw [of 4] kw [of 6] kw [of 8] by (simp add: sql_kinds_expected_def)
  finally have "rem = stmt_toks (c, t, g, n) @ drop 9 rem" by (metis append_take_drop_id)
  then show ?thesis unfolding no_statement_def by blast
qed

lemma sql_sym_range: "0 < sql_sym k \<and> sql_sym k \<le> 9"
  by (simp add: sql_sym_def)

lemma sql_sym_inj: "i < 9 \<Longrightarrow> sql_sym k = sql_sym (sql_kinds_expected ! i) \<longleftrightarrow> k = sql_kinds_expected ! i"
proof -
  assume "i < 9"
  moreover have "\<forall>i\<in>set [0..<9]. 258 \<le> sql_kinds_expected ! i \<and> sql_kinds_expected ! i \<le> 264" by code_simp
  ultimately have "258 \<le> sql_kinds_expected ! i" "sql_kinds_expected ! i \<le> 264" by auto
  then show ?thesis by (auto simp: sql_sym_def)
qed

lemma sql_states_range: "set sql_states \<subseteq> {0..12}" "length sql_states = 10"
  by (simp_all add: sql_states_def)

lemma error_run:
  assumes "sql_parser.pend s [0] [a, b] rem lv out" and "\<forall>t\<in>set rem. stok_ok t" and "no_statement rem" and "rem \<noteq> []"
  obtains s' where "\<And>n. yyloop (10 + n) sE 1 s = Inr (1, s')" and "yyout s' = out @ sql_error"
proof -
  define P where "P j \<longleftrightarrow> length rem \<le> j \<or> fst (rem ! j) \<noteq> sql_kinds_expected ! j" for j
  have "\<exists>j<9. P j" using all_fit [OF assms(2)] assms(3) unfolding P_def by (meson le_less_trans less_imp_le_nat linorder_not_less)
  then obtain i where i: "P i" "i < 9" "\<forall>j<i. \<not> P j" by (metis LeastI_ex Least_le le_less_trans not_less_Least)
  have fit: "i \<le> length rem" "\<forall>j<i. fst (rem ! j) = sql_kinds_expected ! j"
    using i(3) unfolding P_def by (auto simp: not_less [symmetric])
  obtain s1 us lv1 where w: "\<And>n. yyloop (i + n) sE 1 s = yyloop n sE (sql_states ! i) s1"
    "sql_parser.pend s1 (rev (take i sql_states) @ [0]) (rev us @ [a, b]) (drop i rem) lv1 out"
    using walk [OF assms(1) less_imp_le [OF i(2)] fit] unfolding walked_def by blast
  have st: "sql_states ! i \<in> {0..12} - {2}" and ss: "set (rev (take i sql_states) @ [0]) \<subseteq> {0..12}" "length (rev (take i sql_states) @ [0]) < 20"
    using bspec [OF sql_path, of i] i(2) sql_states_range by (auto dest: in_set_takeD simp: sql_states_def [symmetric])
  have off: "sql_parser.head_sym (drop i rem) \<noteq> sql_sym (sql_kinds_expected ! i) \<and> sql_parser.head_sym (drop i rem) \<in> {0..9} \<and>
      \<not> (sql_parser.head_sym (drop i rem) = 0 \<and> i = 0)"
  proof (cases "i < length rem")
    case True
    obtain k v where t: "rem ! i = (k, v)" by (cases "rem ! i")
    have h: "sql_parser.head_sym (drop i rem) = sql_sym k"
      using True t Cons_nth_drop_Suc [of i rem] by (simp add: sql_parser.head_sym_def flip: Cons_nth_drop_Suc)
    have "k \<noteq> sql_kinds_expected ! i" using i(1) True t by (simp add: P_def)
    then show ?thesis using sql_sym_inj [OF i(2)] sql_sym_range [of k] by (simp add: h)
  next
    case False
    then show ?thesis using fit(1) assms(4) sql_sym_range [of "sql_kinds_expected ! i"] by (auto simp: sql_parser.head_sym_def)
  qed
  then have "sql_act (sql_states ! i) (sql_parser.head_sym (drop i rem)) = Error" using sql_off_path i(2) by blast
  then obtain s2 where s2: "yysetstate sE (sql_states ! i) s1 = Inr (Return 1 (sql_yyerror ''syntax error'' s2\<lparr>yyerrstatus := 3\<rparr>))" "yyout s2 = out"
    using sql_parser.error_step [where mem = "\<lambda>n. True", OF w(2), of "sql_states ! i"] st ss by (auto simp: YYMAXDEPTH_def)
  have "yyloop (10 + n) sE 1 s = Inr (1, sql_yyerror ''syntax error'' s2\<lparr>yyerrstatus := 3\<rparr>)" for n
    using w(1) [of "Suc (9 - i + n)"] s2(1) i(2) by (simp add: eval_nat_numeral)
  then show thesis by (rule that) (simp add: s2(2) sql_yyerror_def sql_error_def)
qed

section \<open>The parser\<close>

lemma statements_run:
  assumes "sql_parser.pend s [0] [a, b] rem lv out" and "\<forall>t\<in>set rem. stok_ok t"
  shows "\<exists>qs rest s'. rem = concat (map stmt_toks qs) @ rest \<and> no_statement rest \<and>
    (\<forall>n. yyloop (2 * length rem + 10 + n) sE 1 s = Inr (if rest = [] then 0 else 1, s')) \<and>
    yyout s' = out @ concat (map sql_report qs) @ (if rest = [] then [] else sql_error)"
  using assms
proof (induction "length rem" arbitrary: s a rem lv out rule: less_induct)
  case less
  show ?case
  proof (cases "no_statement rem")
    case False
    then obtain q r where r: "rem = stmt_toks q @ r" by (auto simp: no_statement_def)
    obtain s1 a1 lv1 where s1: "\<And>n. yyloop (11 + n) sE 1 s = yyloop n sE 1 s1" "sql_parser.pend s1 [0] [a1, b] r lv1 (out @ sql_report q)"
      by (rule statement_run [OF less.prems(1) [unfolded r]]) blast
    have "length r < length rem" "\<forall>t\<in>set r. stok_ok t" using r less.prems(2) stmt_toks_expected(1) [of q] by auto
    from less.hyps [OF this(1) s1(2) this(2)] obtain qs rest s' where ih: "r = concat (map stmt_toks qs) @ rest" "no_statement rest"
      "\<And>n. yyloop (2 * length r + 10 + n) sE 1 s1 = Inr (if rest = [] then 0 else 1, s')"
      "yyout s' = (out @ sql_report q) @ concat (map sql_report qs) @ (if rest = [] then [] else sql_error)" by blast
    have "yyloop (2 * length rem + 10 + n) sE 1 s = Inr (if rest = [] then 0 else 1, s')" for n
    proof -
      have "2 * length rem + 10 + n = 11 + (2 * length r + 10 + (7 + n))" using r stmt_toks_expected(1) [of q] by simp
      then show ?thesis using s1(1) ih(3) by metis
    qed
    then show ?thesis using r ih by (intro exI [of _ "q # qs"] exI [of _ rest] exI [of _ s']) auto
  next
    case True
    show ?thesis
    proof (cases "rem = []")
      case empty: True
      obtain s1 s2 where "yysetstate sE 1 s = Inr (NewState 2 s1)" "yysetstate sE 2 s1 = Inr (Return 0 s2)" "yyout s2 = out"
        by (rule sql_parser.accept_step [where mem = "\<lambda>n. True" and st = 1, OF less.prems(1) [unfolded empty]]) (auto simp: YYMAXDEPTH_def sql_act_def)
      then have "\<forall>n. yyloop (2 * length rem + 10 + n) sE 1 s = Inr (0, s2)" "yyout s2 = out" using empty by (simp_all add: eval_nat_numeral)
      then show ?thesis using True empty by (intro exI [of _ "[]"] exI [of _ s2]) auto
    next
      case False
      obtain s' where s': "\<And>n. yyloop (10 + n) sE 1 s = Inr (1, s')" "yyout s' = out @ sql_error"
        by (rule error_run [OF less.prems True False]) blast
      have "yyloop (2 * length rem + 10 + n) sE 1 s = Inr (1, s')" for n using s'(1) [of "2 * length rem + n"] by (simp add: ac_simps)
      then show ?thesis using True False s'(2) by (intro exI [of _ "[]"] exI [of _ rem] exI [of _ s']) auto
    qed
  qed
qed

text \<open>The tokens of an input by the rules of the scanner.\<close>

function sql_toks :: "string \<Rightarrow> stok list res" where
  "sql_toks inp = bindE (sql_nxt inp) (\<lambda>(k, v, rest). if k \<le> 0 then Inr [] else bindE (sql_toks rest) (\<lambda>ts. Inr ((k, v) # ts)))"
  by pat_completeness auto
termination
proof (relation "measure length", simp)
  fix inp x k y v rest
  assume "sql_nxt inp = Inr x" "(k, y) = x" "(v, rest) = y" "\<not> k \<le> 0"
  then show "(rest, inp) \<in> measure length" using sql_nxt_rest [of inp k v rest] by auto
qed

declare sql_toks.simps [simp del]

lemma sql_toks_lexes:
  assumes "sql_toks inp = Inr ts" and "CHR 0x00 \<notin> set inp"
  shows "sql_parser.lexes inp ts \<and> (\<forall>t\<in>set ts. stok_ok t) \<and> length ts \<le> length inp"
  using assms
proof (induction inp arbitrary: ts rule: sql_toks.induct)
  case (1 inp)
  obtain k v rest where n: "sql_nxt inp = Inr (k, v, rest)" using 1(2) by (subst (asm) sql_toks.simps) (auto simp: bindE_eq_Inr)
  show ?case
  proof (cases "k \<le> 0")
    case True
    then have "ts = []" using 1(2) n by (subst (asm) sql_toks.simps) simp
    then show ?thesis using sql_parser.lexes_end [OF 1(3) n True] by simp
  next
    case False
    then obtain ts' where ts: "sql_toks rest = Inr ts'" "ts = (k, v) # ts'" using 1(2) n by (subst (asm) (2) sql_toks.simps) (auto simp: bindE_eq_Inr)
    have rest: "CHR 0x00 \<notin> set rest" "length rest < length inp" "stok_ok (k, v)" using sql_nxt_rest [OF n] 1(3) False by auto
    have ih: "sql_parser.lexes rest ts' \<and> (\<forall>t\<in>set ts'. stok_ok t) \<and> length ts' \<le> length rest"
      by (rule 1(1) [OF n refl refl False ts(1) rest(1)])
    then show ?thesis using rest(2,3) ts(2) False sql_parser.lexes_token [OF 1(3) n] by auto
  qed
qed

lemma sql_lex_main_run:
  assumes "sql_toks inp = Inr ts" and "CHR 0x00 \<notin> set inp"
  shows "\<exists>qs rest s. ts = concat (map stmt_toks qs) @ rest \<and> no_statement rest \<and>
    sql_lex_main (\<lambda>n. True) inp = Inr (if rest = [] then 0 else 1, s) \<and>
    yyout s = [Txt ''Enter SQL Query:\<newline>''] @ concat (map sql_report qs) @ (if rest = [] then [] else sql_error)"
proof -
  let ?out = "[Txt ''Enter SQL Query:\<newline>'']"
  have l: "sql_parser.lexes inp ts" "\<forall>t\<in>set ts. stok_ok t" "length ts \<le> length inp" using sql_toks_lexes [OF assms] by auto
  have pend: "sql_parser.pend (yystart sE inp ?out) [] [SGarbage] ts SGarbage ?out"
    using sql_parser.pend_start [OF l(1), of "\<lambda>n. True" ?out] by simp
  obtain s1 where s1: "\<And>n. yyloop (Suc n) sE 0 (yystart sE inp ?out) = yyloop n sE 1 s1" "sql_parser.pend s1 [0] [SGarbage, SGarbage] ts SGarbage ?out"
    by (rule sql_reduce [OF pend, where st = 0 and r = 2 and l = 0 and p = 0 and ps = "[]" and q = 1 and v = SGarbage and out' = ?out])
      (auto simp: sql_act_def sql_reductions sql_action_def)
  obtain qs rest s' where r: "ts = concat (map stmt_toks qs) @ rest" "no_statement rest"
    "\<And>n. yyloop (2 * length ts + 10 + n) sE 1 s1 = Inr (if rest = [] then 0 else 1, s')"
    "yyout s' = ?out @ concat (map sql_report qs) @ (if rest = [] then [] else sql_error)"
    using statements_run [OF s1(2) l(2)] by blast
  have "2 * length inp + 20 = Suc (2 * length ts + 10 + (2 * (length inp - length ts) + 9))" using l(3) by simp
  then have "sql_lex_main (\<lambda>n. True) inp = Inr (if rest = [] then 0 else 1, s')" unfolding sql_lex_main_def yyparse_def by (simp only: s1(1) r(3))
  then show ?thesis using r by blast
qed

text \<open>A byte above 127 becomes a negative token, which the parser takes for the end of the input: only the text before the first such byte is read.\<close>

definition sql_read :: "string \<Rightarrow> string" where
  "sql_read inp = takeWhile (\<lambda>c. 0 \<le> schar c) inp"

lemma sql_high: "schar c < 0 \<Longrightarrow> \<not> is_space c \<and> \<not> ex_digit c \<and> \<not> id_char c \<and> c \<noteq> CHR '';'' \<and> c \<noteq> CHR ''=''"
  by (auto simp: schar_def Let_def ex_digit_def id_char_def split: if_splits)

lemma dropWhile_stop: "\<not> P c \<Longrightarrow> dropWhile P (as @ c # cs) = dropWhile P as @ c # cs" "\<not> P c \<Longrightarrow> takeWhile P (as @ c # cs) = takeWhile P as"
  by (induction as) simp_all

lemma sql_nxt_blank:
  assumes "dropWhile is_space inp = []" and "schar c < 0"
  shows "sql_nxt (inp @ c # cs) = Inr (schar c, None, cs)" "sql_nxt inp = Inr (0, None, [])"
  unfolding sql_nxt_def dropWhile_stop(1) [of is_space, OF sql_high [OF assms(2), THEN conjunct1]] assms(1) using sql_high [OF assms(2)] by simp_all

lemma sql_nxt_more:
  assumes "dropWhile is_space inp \<noteq> []" and "schar c < 0"
  shows "sql_nxt (inp @ c # cs) = bindE (sql_nxt inp) (\<lambda>(k, v, rest). Inr (k, v, rest @ c # cs))"
proof -
  note high = sql_high [OF assms(2)]
  obtain d ds where d: "dropWhile is_space inp = d # ds" using assms(1) by (cases "dropWhile is_space inp") auto
  note stop = dropWhile_stop [of ex_digit c] dropWhile_stop [of id_char c]
  show ?thesis using high unfolding sql_nxt_def dropWhile_stop(1) [of is_space, OF high [THEN conjunct1]] d
    by (simp add: stop bindE_assoc split: prod.splits)
qed

lemma sql_toks_high:
  assumes "schar c < 0"
  shows "sql_toks (inp @ c # cs) = sql_toks inp"
proof (induction inp rule: sql_toks.induct)
  case (1 inp)
  show ?case
  proof (cases "dropWhile is_space inp = []")
    case True
    then show ?thesis using assms sql_nxt_blank [OF True assms] by (subst (1 2) sql_toks.simps) simp
  next
    case False
    show ?thesis
    proof (cases "sql_nxt inp")
      case (Inr t)
      obtain k v rest where t: "t = (k, v, rest)" by (cases t)
      show ?thesis using 1 [OF Inr] sql_nxt_more [OF False assms] Inr t by (subst (1 2) sql_toks.simps) simp
    qed (use sql_nxt_more [OF False assms] in \<open>subst (1 2) sql_toks.simps, simp\<close>)
  qed
qed

lemma sql_toks_read: "sql_toks inp = sql_toks (sql_read inp)"
proof (cases "dropWhile (\<lambda>c. 0 \<le> schar c) inp")
  case Nil
  then have "sql_read inp = inp" using takeWhile_dropWhile_id [of "\<lambda>c. 0 \<le> schar c" inp] unfolding sql_read_def by (metis append_Nil2)
  then show ?thesis by simp
next
  case (Cons c cs)
  then have "schar c < 0" using hd_dropWhile [of "\<lambda>c. 0 \<le> schar c" inp] by simp
  then show ?thesis using sql_toks_high [of c "sql_read inp" cs] takeWhile_dropWhile_id [of "\<lambda>c. 0 \<le> schar c" inp] Cons by (simp add: sql_read_def)
qed

text \<open>C5. On every text without a NUL character, whose numbers before its first byte above 127 fit an \<^verbatim>\<open>int\<close>, the generated scanner and parser of
  \<^verbatim>\<open>TASK\<close> end without a fault (with memory available). What follows such a byte is not read. The tokens of the text before it are a sequence of complete statements \<^verbatim>\<open>SELECT c FROM t WHERE f = n ;\<close>
  followed by a rest that does not begin with one; every statement is reported, in order, with its own names and number; \<^verbatim>\<open>yyparse\<close> returns 0 if
  no token of that text is left and otherwise reports one syntax error and returns 1.\<close>

theorem sql_parser_reads_statements:
  assumes "sql_toks (sql_read inp) = Inr ts" and "CHR 0x00 \<notin> set inp"
  shows "\<exists>qs rest s. ts = concat (map stmt_toks qs) @ rest \<and> no_statement rest \<and>
    sql_lex_main (\<lambda>n. True) inp = Inr (if rest = [] then 0 else 1, s) \<and>
    yyout s = [Txt ''Enter SQL Query:\<newline>''] @ concat (map sql_report qs) @ (if rest = [] then [] else sql_error)"
  using sql_lex_main_run [OF trans [OF sql_toks_read assms(1)] assms(2)] .

text \<open>An unfinished statement is an error; a text that begins with the byte \<open>E9\<close> is accepted whatever follows.\<close>

theorem sql_parser_reads_statements_witness:
  "(\<exists>qs rest s. [(SELECT_TOKEN, None), (IDENTIFIER, Some (SStr ''a'')), (SEMICOLON, None)] = concat (map stmt_toks qs) @ rest \<and> no_statement rest \<and>
    sql_lex_main (\<lambda>n. True) ''SELECT a;'' = Inr (if rest = [] then 0 else 1, s) \<and>
    yyout s = [Txt ''Enter SQL Query:\<newline>''] @ concat (map sql_report qs) @ (if rest = [] then [] else sql_error)) \<and>
   (\<exists>s. sql_lex_main (\<lambda>n. True) (CHR 0xE9 # ''SELECT SELECT'') = Inr (0, s) \<and> yyout s = [Txt ''Enter SQL Query:\<newline>''])"
proof (rule conjI)
  have "sql_toks (sql_read ''SELECT a;'') = Inr [(SELECT_TOKEN, None), (IDENTIFIER, Some (SStr ''a'')), (SEMICOLON, None)]" by code_simp
  from sql_parser_reads_statements [OF this] show "\<exists>qs rest s. [(SELECT_TOKEN, None), (IDENTIFIER, Some (SStr ''a'')), (SEMICOLON, None)] = concat (map stmt_toks qs) @ rest \<and> no_statement rest \<and>
    sql_lex_main (\<lambda>n. True) ''SELECT a;'' = Inr (if rest = [] then 0 else 1, s) \<and>
    yyout s = [Txt ''Enter SQL Query:\<newline>''] @ concat (map sql_report qs) @ (if rest = [] then [] else sql_error)" by simp
  have "sql_toks (sql_read (CHR 0xE9 # ''SELECT SELECT'')) = Inr []" by code_simp
  from sql_parser_reads_statements [OF this] obtain qs rest s where
    q: "[] = concat (map stmt_toks qs) @ rest" "sql_lex_main (\<lambda>n. True) (CHR 0xE9 # ''SELECT SELECT'') = Inr (if rest = [] then 0 else 1, s)"
    "yyout s = [Txt ''Enter SQL Query:\<newline>''] @ concat (map sql_report qs) @ (if rest = [] then [] else sql_error)" by auto
  then have "rest = []" "qs = []" using stmt_toks_expected(1) by (cases qs; fastforce)+
  with q show "\<exists>s. sql_lex_main (\<lambda>n. True) (CHR 0xE9 # ''SELECT SELECT'') = Inr (0, s) \<and> yyout s = [Txt ''Enter SQL Query:\<newline>'']" by auto
qed

section \<open>Written queries are read back\<close>

text \<open>A name that is not a keyword, and a query as text.\<close>

definition sql_name :: "string \<Rightarrow> bool" where
  "sql_name w \<longleftrightarrow> w \<noteq> [] \<and> list_all id_char w \<and> \<not> ex_digit (hd w) \<and> w \<noteq> ''SELECT'' \<and> w \<noteq> ''FROM'' \<and> w \<noteq> ''WHERE''"

fun query_ok :: "query \<Rightarrow> bool" where
  "query_ok (col, tab, field, n) \<longleftrightarrow> sql_name col \<and> sql_name tab \<and> sql_name field \<and> 0 \<le> n \<and> n \<le> 2147483647"

fun query_text :: "query \<Rightarrow> string" where
  "query_text (col, tab, field, n) =
     ''SELECT '' @ col @ '' FROM '' @ tab @ '' WHERE '' @ field @ '' = '' @ ex_show n @ '';\<newline>''"

lemma sql_toks_space: "is_space c \<Longrightarrow> sql_toks (c # inp) = sql_toks inp"
  by (subst (1 2) sql_toks.simps) (simp add: sql_nxt_def)

lemma space_not_id: "id_char c \<Longrightarrow> \<not> is_space c"
  by (auto simp: id_char_def)

lemma sql_toks_word:
  assumes "w \<noteq> []" and "list_all id_char w" and "\<not> ex_digit (hd w)" and "inp = [] \<or> \<not> id_char (hd inp)"
  shows "sql_toks (w @ inp) = bindE (sql_toks inp) (\<lambda>ts. Inr (sql_word w # ts))"
proof -
  obtain c cs where w: "w = c # cs" using assms(1) by (cases w) auto
  have tw: "takeWhile id_char (cs @ inp) = cs" "dropWhile id_char (cs @ inp) = inp"
    using assms(2,4) w by (auto simp: takeWhile_append dropWhile_append takeWhile_eq_Nil_iff dropWhile_eq_self_iff list_all_iff)
  have c: "id_char c" "\<not> is_space c" "\<not> ex_digit c" using assms(2,3) w space_not_id by auto
  obtain k v where kv: "sql_word w = (k, v)" by (cases "sql_word w")
  then have "k > 0" by (auto simp: sql_word_def sql_kinds split: if_splits)
  moreover have "sql_nxt (w @ inp) = Inr (k, v, inp)" using c tw kv by (simp add: sql_nxt_def w)
  ultimately show ?thesis using kv by (subst sql_toks.simps) simp
qed

lemma sql_toks_number:
  assumes "0 \<le> n" and "n \<le> 2147483647" and "inp = [] \<or> \<not> ex_digit (hd inp)"
  shows "sql_toks (ex_show n @ inp) = bindE (sql_toks inp) (\<lambda>ts. Inr ((SQL_NUMBER, Some (SNum n)) # ts))"
proof -
  obtain c ds where show_n: "ex_show n = c # ds" using assms(1) ex_digits_ne [of "nat n"] by (cases "ex_show n") (auto simp: ex_show_def)
  have dig: "\<forall>d\<in>set (c # ds). ex_digit d" using assms(1) show_n ex_digits_chars [of _ "nat n"] by (simp add: ex_show_def)
  have c: "\<not> is_space c" using dig by (auto simp: ex_digit_def)
  have tw: "takeWhile ex_digit (ds @ inp) = ds" "dropWhile ex_digit (ds @ inp) = inp"
    using dig assms(3) by (auto simp: takeWhile_append dropWhile_append takeWhile_eq_Nil_iff dropWhile_eq_self_iff)
  have "ex_decimal (c # ds) = n" using show_n assms(1) ex_decimal_digits [of "nat n"] by (simp add: ex_show_def)
  then have "sql_nxt (ex_show n @ inp) = Inr (SQL_NUMBER, Some (SNum n), inp)"
    using c dig tw assms(1,2) by (simp add: sql_nxt_def show_n ex_int_def)
  then show ?thesis by (subst sql_toks.simps) (simp add: sql_kinds)
qed

lemma sql_toks_mark:
  "sql_toks (CHR ''='' # inp) = bindE (sql_toks inp) (\<lambda>ts. Inr ((EQ, None) # ts))"
  "sql_toks (CHR '';'' # inp) = bindE (sql_toks inp) (\<lambda>ts. Inr ((SEMICOLON, None) # ts))"
  by (subst sql_toks.simps; simp add: sql_nxt_def ex_digit_def id_char_def sql_kinds)+

lemma sql_toks_name:
  assumes "sql_name w"
  shows "sql_toks (w @ CHR '' '' # inp) = bindE (sql_toks inp) (\<lambda>ts. Inr ((IDENTIFIER, Some (SStr w)) # ts))"
  using sql_toks_word [of w "CHR '' '' # inp"] assms by (simp add: sql_name_def id_char_def sql_toks_space sql_word_def)

lemma sql_toks_keyword:
  "sql_toks (''SELECT '' @ inp) = bindE (sql_toks inp) (\<lambda>ts. Inr ((SELECT_TOKEN, None) # ts))"
  "sql_toks (''FROM '' @ inp) = bindE (sql_toks inp) (\<lambda>ts. Inr ((FROM_TOKEN, None) # ts))"
  "sql_toks (''WHERE '' @ inp) = bindE (sql_toks inp) (\<lambda>ts. Inr ((WHERE_TOKEN, None) # ts))"
  using sql_toks_word [of "''SELECT''" "CHR '' '' # inp"] sql_toks_word [of "''FROM''" "CHR '' '' # inp"] sql_toks_word [of "''WHERE''" "CHR '' '' # inp"]
  by (simp_all add: id_char_def ex_digit_def sql_toks_space sql_word_def)

lemma query_text_toks:
  assumes "query_ok q"
  shows "sql_toks (query_text q @ inp) = bindE (sql_toks inp) (\<lambda>ts. Inr (stmt_toks q @ ts))"
proof -
  obtain c t f n where q: "q = (c, t, f, n)" by (cases q)
  have ok: "sql_name c" "sql_name t" "sql_name f" "0 \<le> n" "n \<le> 2147483647" using assms by (simp_all add: q)
  have "query_text q @ inp = ''SELECT '' @ c @ CHR '' '' # ''FROM '' @ t @ CHR '' '' # ''WHERE '' @ f @ CHR '' '' # CHR ''='' # CHR '' '' # ex_show n @ CHR '';'' # CHR 0x0A # inp"
    by (simp add: q)
  moreover have "sql_toks (ex_show n @ CHR '';'' # CHR 0x0A # inp) = bindE (sql_toks inp) (\<lambda>ts. Inr ((SQL_NUMBER, Some (SNum n)) # (SEMICOLON, None) # ts))"
    using sql_toks_number [of n "CHR '';'' # CHR 0x0A # inp"] ok(4,5) by (cases "sql_toks inp") (simp_all add: ex_digit_def sql_toks_mark sql_toks_space)
  ultimately show ?thesis
    by (cases "sql_toks inp") (simp_all add: sql_toks_keyword [simplified] sql_toks_name ok(1-3) sql_toks_mark sql_toks_space q)
qed

lemma query_texts_toks: "\<forall>q\<in>set qs. query_ok q \<Longrightarrow> sql_toks (concat (map query_text qs)) = Inr (concat (map stmt_toks qs))"
proof (induction qs)
  case Nil
  show ?case by (subst sql_toks.simps) (simp add: sql_nxt_def)
next
  case (Cons q qs)
  then show ?case using query_text_toks [of q] by simp
qed

lemma query_text_chars: "query_ok q \<Longrightarrow> CHR 0x00 \<notin> set (query_text q)"
proof -
  have "CHR 0x00 \<notin> set (ex_digits n)" for n using ex_digits_chars [of "CHR 0x00" n] by (auto simp: ex_digit_def)
  moreover have "sql_name w \<Longrightarrow> CHR 0x00 \<notin> set w" for w by (auto simp: sql_name_def list_all_iff id_char_def)
  ultimately show "query_ok q \<Longrightarrow> CHR 0x00 \<notin> set (query_text q)" by (cases q) (auto simp: ex_show_def)
qed

lemma statements_unique:
  "concat (map stmt_toks qs) = concat (map stmt_toks ps) @ rest \<Longrightarrow> no_statement rest \<Longrightarrow> ps = qs \<and> rest = []"
proof (induction qs arbitrary: ps)
  case Nil
  then show ?case using stmt_toks_expected(1) by (cases ps) auto
next
  case (Cons q qs)
  show ?case
  proof (cases ps)
    case Nil
    then have "rest = stmt_toks q @ concat (map stmt_toks qs)" using Cons.prems(1) by simp
    then show ?thesis using Cons.prems(2) unfolding no_statement_def by blast
  next
    case (Cons p ps')
    have "stmt_toks q = stmt_toks p" "concat (map stmt_toks qs) = concat (map stmt_toks ps') @ rest"
      using Cons.prems(1) Cons stmt_toks_expected(1) [of q] stmt_toks_expected(1) [of p] by auto
    moreover from this(1) have "q = p" by (cases q; cases p) simp
    ultimately show ?thesis using Cons.IH Cons.prems(2) Cons by simp
  qed
qed

text \<open>Queries that are written out as text, with names that are not keywords and numbers that fit an \<^verbatim>\<open>int\<close>, are all
  accepted by the generated scanner and parser, which report exactly their columns, tables, fields and numbers in order.\<close>

theorem sql_parser_reads_written_queries:
  assumes "\<forall>q\<in>set qs. query_ok q"
  shows "\<exists>s. sql_lex_main (\<lambda>n. True) (concat (map query_text qs)) = Inr (0, s) \<and> yyout s = [Txt ''Enter SQL Query:\<newline>''] @ concat (map sql_report qs)"
proof -
  have "CHR 0x00 \<notin> set (concat (map query_text qs))" using assms query_text_chars by auto
  from sql_lex_main_run [OF query_texts_toks [OF assms] this] statements_unique [of qs] show ?thesis by fastforce
qed

theorem sql_parser_reads_written_queries_witness:
  "\<exists>s. sql_lex_main (\<lambda>n. True) ''SELECT a FROM t WHERE b = 7;\<newline>'' = Inr (0, s) \<and>
    yyout s = [Txt ''Enter SQL Query:\<newline>'', Txt ''\<newline>Parser SQL Successfully!\<newline>'', Txt ''Column: '', Txt ''a'', Txt ''\<newline>'', Txt ''Table: '', Txt ''t'', Txt ''\<newline>'',
      Txt ''where : '', Txt ''b'', Txt '' = '', Num 7, Txt '' \<newline>'']"
proof -
  have "query_ok (''a'', ''t'', ''b'', 7)" by code_simp
  moreover have "query_text (''a'', ''t'', ''b'', 7) = ''SELECT a FROM t WHERE b = 7;\<newline>''" by code_simp
  ultimately show ?thesis using sql_parser_reads_written_queries [of "[(''a'', ''t'', ''b'', 7)]"] by simp
qed

end
