(* ===== verification/Spec2Isabelle.thy ===== *)
theory Spec2Isabelle
  imports Avl PageSim StacksQueues LruCache HashTables ConcurrentMap Bst Deadlock Mvcc TwoPhase Btree SlidingWindow Wal ExprTree QueryEngine RbTree PthreadQueue Allocators FreeLists Slab ArrayTasks StringTasks ChainTable Bloom Flex Bison Calculator SqlScanner SqlParser
begin

text \<open>
  Verification of a repository of C programs: data structures, caches, allocators, small database engines, programs with threads, and two
  programs made with flex and bison. The programs stand side by side and do not call each other; what they share (pointer chains, arrays with bounds,
  hash functions, scanner and parser engines, contracts of sets, queues and page policies) is in the first theories, and each other theory
  models one program or a group of programs that solve the same task.

  \<^bold>\<open>How C is modelled.\<close> A function that may fault returns a value of type \<open>'a res\<close>: \<open>Inl\<close> of a fault (null dereference, index outside an
  array, use after free, division by zero, uninitialised value, signed overflow, divergence, exit) or \<open>Inr\<close> of its result. Global variables and structures are
  records that the operations take and return. Trees that are only reached through one pointer are datatypes; nodes that are shared or linked in both directions live in a
  store of addresses. Threads are step relations in which one step is one critical section or one access, and the theorems hold for all
  interleavings. Results of \<open>malloc\<close>, \<open>rand\<close>, the clock, input and schedules are arguments. Output is a list of tokens.

  \<^bold>\<open>Shared theories.\<close>
  \<^item> \<open>Prelude\<close>: faults, checked arrays, loops that may fault, output, list lemmas.
  \<^item> \<open>Interfaces\<close>: the contracts: \<open>ordered_set\<close>, \<open>ordered_set_del\<close> (search trees), \<open>ordered_bag\<close> (B-tree), \<open>page_policy\<close> and \<open>total_policy\<close> (page replacement), \<open>int_container\<close> (stacks and queues), \<open>kv_store\<close> (the sequential map that the concurrent hash map implements). Each is interpreted on the definitions of the programs in their own theories.
  \<^item> \<open>Heap\<close>: the store of linked nodes and the pointer loops that several programs share.
  \<^item> \<open>Flex\<close>: the table-driven scanner engine of \<^verbatim>\<open>lex.yy.c\<close>; the locale \<open>flex_automaton\<close> shows that it finds the longest match.
  \<^item> \<open>Bison\<close>: the table-driven parser engine of the generated \<^verbatim>\<open>.tab.c\<close> files; the locale \<open>bison_parser\<close> gives its shift, reduce, accept and error steps.

  \<^bold>\<open>Search trees.\<close>
  \<^item> \<open>Avl\<close>: \<^verbatim>\<open>day-8(Avl-Tree)/avl-tree.c\<close>: insertion and deletion keep order, cached heights and balance and never fault.
  \<^item> \<open>RbTree\<close>: \<^verbatim>\<open>day-8(Avl-Tree)/rb-tree.c\<close>: the fix-up loops end with a balanced tree; the tree is an ordered set.
  \<^item> \<open>Bst\<close>: the search trees of \<^verbatim>\<open>EXTRA_TASK/26-11-2025\<close> and \<^verbatim>\<open>WEEKEND_TASK\<close> and the level-order trees of \<^verbatim>\<open>day-6(Binary_Tree)\<close>.
  \<^item> \<open>Btree\<close>: \<^verbatim>\<open>day-7(B-Tree)\<close>: insertion with preemptive splitting keeps the tree balanced and holds exactly the inserted keys.

  \<^bold>\<open>Tables, caches and memory.\<close>
  \<^item> \<open>HashTables\<close>: open addressing (\<^verbatim>\<open>day-4(Hash_Table)\<close>) and linear probing (\<^verbatim>\<open>EXTRA_TASK/24-11-2025\<close>).
  \<^item> \<open>ChainTable\<close>: the chained table of \<^verbatim>\<open>day-4(Hash_Table)\<close>: when it is a map, and the use after free and the overflow of its insertion.
  \<^item> \<open>Bloom\<close>: \<^verbatim>\<open>day-9(skip-list)/bloom-filter.c\<close>: no false negatives.
  \<^item> \<open>LruCache\<close>: \<^verbatim>\<open>day-5(Leetcode_LRU)/leetcode-lru-cache.c\<close>, refined to a list of pairs in order of use.
  \<^item> \<open>PageSim\<close>: \<^verbatim>\<open>ARC\<close> and \<^verbatim>\<open>BUFFERPOOL_PAGE_REPLACEMENT\<close>: the LRU simulators refine one abstract policy; what the simplified ARC keeps and where it leaves its array.
  \<^item> \<open>Allocators, FreeLists, Slab\<close>: the four allocators of \<^verbatim>\<open>day-1(Heap_Mem)\<close> and \<^verbatim>\<open>day-5(Leetcode_LRU)\<close>: pieces in the hands of the client lie inside the pool and do not overlap.
  \<^item> \<open>StacksQueues\<close>: \<^verbatim>\<open>day-3.5(Linked_Stack_Queue)\<close>: list operations on the store, stacks and queues as LIFO and FIFO containers.

  \<^bold>\<open>Databases and threads.\<close>
  \<^item> \<open>Mvcc\<close>: the key-value store with snapshots, refined to snapshot isolation, and the single-row demo.
  \<^item> \<open>Wal\<close>: three write-ahead-log programs: what recovery reads back from the text of the log.
  \<^item> \<open>QueryEngine\<close>: operator pipelines of \<^verbatim>\<open>QUERY_EXECUTION_ENGINE\<close> against the rows they should print.
  \<^item> \<open>TwoPhase\<close>: two-phase locking over accounts, with every read and write of an account a step: conservation of money, no deadlock, termination.
  \<^item> \<open>ConcurrentMap\<close>: the hash map with bucket locks (\<^verbatim>\<open>Mutex-Spi-Sem-RWlock\<close>) on a heap of entries, with every access a step: linearizable, free of faults, terminating.
  \<^item> \<open>Deadlock\<close>: the wait-for graph: the cycle search is exact and the program always gets out of its deadlock.
  \<^item> \<open>PthreadQueue\<close>: bounded queues between threads whose waits may also end spuriously: order, capacity, termination.

  \<^bold>\<open>Languages and exercises.\<close>
  \<^item> \<open>Calculator\<close>: \<^verbatim>\<open>LEXICAL_ANALYZER\<close>: the generated scanner and parser accept exactly the grammar of \<^verbatim>\<open>lex_analyzer.y\<close>, with typed semantic values, and read back what they print.
  \<^item> \<open>SqlScanner, SqlParser\<close>: \<^verbatim>\<open>LEXICAL_ANALYZER/TASK\<close>: the generated scanner is the rules of \<^verbatim>\<open>sql_lex.l\<close>, the parser reads complete statements and reports one error for the rest.
  \<^item> \<open>ExprTree\<close>: \<^verbatim>\<open>EXPRESSION_TREE\<close>: traversals and evaluators of expression trees.
  \<^item> \<open>SlidingWindow\<close>: \<^verbatim>\<open>day-3(SlidingWin)\<close>: three programs print the same window maxima.
  \<^item> \<open>ArrayTasks, StringTasks\<close>: the exercises of \<^verbatim>\<open>EXTRA_TASK/24-11-2025\<close> and the bracket checker of \<^verbatim>\<open>EXTRA_TASK/26-11-2025\<close>.

  \<^bold>\<open>Bounds and fuel.\<close> Loops whose end is not structural take fuel, and running out of it is the fault \<open>Diverges\<close>; the theorems that state a result show
  that it does not occur. Pointer walks get the number of addresses handed out (a longer walk has met a node twice), the cycle search the number of vertices, the
  scanner one round for each character and one for the end, the chain of default states the number of states, the calculator six rounds of the engine for each character and twenty more
  (a weight of at most five for each token goes down in every round), the query parser two for each character and twenty more. The parser stack is bounded by \<open>YYMAXDEPTH\<close>
  as in the code; the calculator's theorems ask for fewer tokens than that, and assume that memory for the larger stack is available. Signed arithmetic is
  checked against the range of \<open>int\<close>, hash functions and sizes are words.

  \<^bold>\<open>Not modelled.\<close> Programs that consist of calls to the operating system: sockets, pipes, shared memory, message queues, signals, timers,
  process creation, remote procedure calls, kernel module, tracing and profiling programs, file, memory-mapped and asynchronous input and output. Programs on the C11 memory model and on futexes, and
  benchmarks of locks, since the step relations are sequentially consistent. Of the scanner engine, the refilling of the buffer from a file: the whole input is in the buffer. Not yet
  modelled are the skip list, the B+ tree, the student records, the file cache of day 2 and the lock manager \<^verbatim>\<open>deadlock_mutex_txn.c\<close>. In the modelled programs, field widths of
  \<open>printf\<close>, alignment, delays and addresses as numbers (except in the allocators) are left out.
\<close>

end
